(* ===== verification/Prelude.thy ===== *)
theory Prelude
  imports Main "HOL-Library.Word"
begin

unbundle bit_operations_syntax

text \<open>
  What every component of the development shares.

  A byte is an \<open>8 word\<close> and a slice or \<open>Vec<u8>\<close> is a list of bytes. The wider unsigned integers
  (\<open>u16\<close>, \<open>u32\<close>, \<open>u64\<close>, \<open>usize\<close>) are natural numbers; wherever the source truncates, wraps, saturates
  or checks for overflow, the model writes the operation out with the width: a cast \<open>x as u8\<close> is
  \<open>word_of_nat\<close>, \<open>x as u16\<close> is \<open>take_bit 16\<close>, \<open>saturating_sub\<close> is the truncating subtraction of
  \<open>nat\<close>, and the checked operations below return an option. A \<open>Result\<close> is a sum with the error on
  the left; \<open>rbind\<close> is the \<open>?\<close> operator. A function that appends to an output vector is modelled by
  the bytes it appends.
\<close>

type_synonym byte = "8 word"
type_synonym bytes = "byte list"
type_synonym ('e, 'a) result = "'e + 'a"

text \<open>Collections: facts on byte codecs, and length facts of readers.\<close>

named_theorems codec_simps
named_theorems reader_length

section \<open>Results\<close>

definition rbind :: "('e, 'a) result \<Rightarrow> ('a \<Rightarrow> ('e, 'b) result) \<Rightarrow> ('e, 'b) result" where
  "rbind m f = (case m of Inl e \<Rightarrow> Inl e | Inr x \<Rightarrow> f x)"

lemma rbind_simps [simp]:
  "rbind (Inl e) f = Inl e"
  "rbind (Inr x) f = f x"
  by (simp_all add: rbind_def)

lemma rbind_eq_Inr [simp]: "rbind m f = Inr y \<longleftrightarrow> (\<exists>x. m = Inr x \<and> f x = Inr y)"
  by (cases m) simp_all

lemma rbind_eq_Inl: "rbind m f = Inl e \<longleftrightarrow> m = Inl e \<or> (\<exists>x. m = Inr x \<and> f x = Inl e)"
  by (cases m) simp_all

text \<open>A continuation that cannot fail passes on the error of what comes before it.\<close>

lemma map_sum_eq_Inr [simp]: "map_sum f g m = Inr y \<longleftrightarrow> (\<exists>x. m = Inr x \<and> y = g x)"
  by (cases m) auto

lemma map_sum_eq_Inl: "map_sum f g m = Inl y \<longleftrightarrow> (\<exists>x. m = Inl x \<and> y = f x)"
  by (cases m) auto

lemma rbind_Inl_total: "(\<And>x. \<exists>y. f x = Inr y) \<Longrightarrow> rbind m f = Inl e \<longleftrightarrow> m = Inl e"
  by (cases m) (auto, metis Inl_Inr_False)

section \<open>Machine integers\<close>

abbreviation u64_bound :: nat where "u64_bound \<equiv> 2 ^ 64"
abbreviation u32_bound :: nat where "u32_bound \<equiv> 2 ^ 32"

text \<open>\<open>checked_add\<close>, \<open>checked_mul\<close> and \<open>checked_sub\<close> at a width given by its bound.\<close>

definition checked_add :: "nat \<Rightarrow> nat \<Rightarrow> nat \<Rightarrow> nat option" where
  "checked_add bound a b = (if a + b < bound then Some (a + b) else None)"

definition checked_mul :: "nat \<Rightarrow> nat \<Rightarrow> nat \<Rightarrow> nat option" where
  "checked_mul bound a b = (if a * b < bound then Some (a * b) else None)"

definition checked_sub :: "nat \<Rightarrow> nat \<Rightarrow> nat option" where
  "checked_sub a b = (if b \<le> a then Some (a - b) else None)"

lemma checked_add_Some [simp]: "checked_add w a b = Some c \<longleftrightarrow> a + b < w \<and> c = a + b"
  by (auto simp: checked_add_def)

lemma checked_mul_Some [simp]: "checked_mul w a b = Some c \<longleftrightarrow> a * b < w \<and> c = a * b"
  by (auto simp: checked_mul_def)

lemma checked_sub_Some [simp]: "checked_sub a b = Some c \<longleftrightarrow> b \<le> a \<and> c = a - b"
  by (auto simp: checked_sub_def)

lemma checked_add_None [simp]: "checked_add w a b = None \<longleftrightarrow> w \<le> a + b"
  by (auto simp: checked_add_def)

lemma checked_sub_None [simp]: "checked_sub a b = None \<longleftrightarrow> a < b"
  by (auto simp: checked_sub_def)

section \<open>Bits of natural numbers\<close>

text \<open>Or-ing a number into the low bits a shift left free is an addition.\<close>

lemma push_bit_or_add:
  fixes a b :: nat
  assumes "b < 2 ^ n"
  shows "push_bit n a OR b = a * 2 ^ n + b"
proof -
  have "push_bit n a AND b = 0"
  proof (rule bit_eqI)
    fix m
    show "bit (push_bit n a AND b) m \<longleftrightarrow> bit (0::nat) m"
    proof (cases "m < n")
      case False
      then have "b < 2 ^ m" using assms
        by (meson less_le_trans not_le one_le_numeral power_increasing)
      then have "\<not> bit b m" by (simp add: bit_iff_odd)
      then show ?thesis by (simp add: bit_and_iff)
    qed (simp add: bit_simps)
  qed
  then show ?thesis
    by (metis disjunctive_add_eq_or push_bit_eq_mult)
qed

lemma mask_and_mod: "(a :: nat) AND (2 ^ n - 1) = a mod 2 ^ n"
  by (metis mask_eq_exp_minus_1 take_bit_eq_mask take_bit_eq_mod)

lemma unat_byte_lt [simp, intro]: "unat (b :: byte) < 256"
  using unsigned_less [of b] by simp

lemma unat_byte_le [simp]: "unat (b :: byte) \<le> 255"
  using unat_byte_lt [of b] by linarith

lemma unat_word_of_nat_byte: "unat (word_of_nat n :: byte) = n mod 256"
  by (simp add: unat_of_nat)

lemma unat_and_mask: "unat (b AND w) = unat b AND unat w" for b w :: byte
  by (simp add: unsigned_and_eq)

section \<open>Big-endian bytes\<close>

text \<open>\<open>to_be_bytes\<close> of a \<open>8 * n\<close> bit integer, and the number such bytes stand for.\<close>

primrec be_bytes :: "nat \<Rightarrow> nat \<Rightarrow> bytes" where
  "be_bytes 0 v = []"
| "be_bytes (Suc n) v = word_of_nat (drop_bit (8 * n) v) # be_bytes n v"

lemma be_bytes_numeral:
  "be_bytes (numeral n) v = word_of_nat (drop_bit (8 * pred_numeral n) v) # be_bytes (pred_numeral n) v"
  by (simp add: numeral_eq_Suc)

definition be_fold :: "nat \<Rightarrow> bytes \<Rightarrow> nat" where
  "be_fold acc bs = foldl (\<lambda>value b. push_bit 8 value OR unat b) acc bs"

abbreviation be_val :: "bytes \<Rightarrow> nat" where
  "be_val bs \<equiv> be_fold 0 bs"

lemma be_fold_Nil [simp]: "be_fold acc [] = acc"
  by (simp add: be_fold_def)

lemma be_fold_Cons [simp]: "be_fold acc (b # bs) = be_fold (acc * 256 + unat b) bs"
proof -
  have "push_bit 8 acc OR unat b = acc * 2 ^ 8 + unat b"
    by (rule push_bit_or_add) simp
  then show ?thesis by (simp add: be_fold_def)
qed

lemma be_fold_append: "be_fold acc (xs @ ys) = be_fold (be_fold acc xs) ys"
  by (simp add: be_fold_def)

lemma be_fold_acc: "be_fold acc bs = acc * 256 ^ length bs + be_fold 0 bs"
proof (induction bs arbitrary: acc)
  case (Cons b bs)
  have "be_fold acc (b # bs) = (acc * 256 + unat b) * 256 ^ length bs + be_fold 0 bs"
    using Cons.IH [of "acc * 256 + unat b"] by simp
  also have "\<dots> = acc * 256 ^ length (b # bs) + (unat b * 256 ^ length bs + be_fold 0 bs)"
    by (simp add: algebra_simps)
  also have "unat b * 256 ^ length bs + be_fold 0 bs = be_fold 0 (b # bs)"
    using Cons.IH [of "unat b"] by simp
  finally show ?case .
qed simp

lemma length_be_bytes [simp]: "length (be_bytes n v) = n"
  by (induction n) simp_all

lemma be_val_lt: "be_val bs < 256 ^ length bs"
proof (induction bs)
  case (Cons b bs)
  have "unat b * 256 ^ length bs + be_val bs < unat b * 256 ^ length bs + 256 ^ length bs"
    using Cons by simp
  also have "\<dots> = Suc (unat b) * 256 ^ length bs" by simp
  also have "\<dots> \<le> 256 * 256 ^ length bs"
    by (rule mult_le_mono1) (simp add: Suc_le_eq)
  finally show ?case
    using be_fold_acc [of "unat b" bs] by simp
qed simp

lemma be_val_be_bytes [codec_simps]: "be_val (be_bytes n v) = v mod 256 ^ n"
proof (induction n)
  case (Suc n)
  have "be_val (be_bytes (Suc n) v) = (v div 256 ^ n mod 256) * 256 ^ n + v mod 256 ^ n"
    using Suc.IH
    by (subst be_bytes.simps(2), subst be_fold_Cons, subst be_fold_acc)
      (simp add: unat_word_of_nat_byte drop_bit_eq_div power_mult)
  also have "\<dots> = v mod 256 ^ Suc n"
    by (simp add: power_Suc2 mod_mult2_eq del: power_Suc)
  finally show ?case .
qed simp

section \<open>Lists\<close>

lemma take_append_exact [codec_simps]: "length xs = n \<Longrightarrow> take n (xs @ ys) = xs"
  by simp

lemma drop_append_exact [codec_simps]: "length xs = n \<Longrightarrow> drop n (xs @ ys) = ys"
  by simp

text \<open>ASCII literals as bytes.\<close>

definition ascii :: "string \<Rightarrow> bytes" where
  "ascii s = map of_char s"

text \<open>\<open>to_string\<close> of an unsigned integer.\<close>

function decimal :: "nat \<Rightarrow> bytes" where
  "decimal n = (if n < 10 then [word_of_nat (48 + n)] else decimal (n div 10) @ [word_of_nat (48 + n mod 10)])"
  by pat_completeness auto
termination by (relation "measure (\<lambda>n. n)") auto

declare decimal.simps [simp del]

lemma length_decimal: "n < 10 ^ Suc k \<Longrightarrow> length (decimal n) \<le> Suc k"
proof (induction k arbitrary: n)
  case (Suc k)
  then have "n div 10 < 10 ^ Suc k" by (simp add: less_mult_imp_div_less)
  with Suc.IH show ?case by (subst decimal.simps) (simp add: le_SucI)
qed (simp add: decimal.simps)

lemma length_decimal_u64: "n < u64_bound \<Longrightarrow> length (decimal n) \<le> 20"
  using length_decimal [of n 19] by simp

text \<open>\<open>chunks\<close> and \<open>chunks_mut\<close> of a slice: pieces of one size, the last one possibly shorter. They panic on the size zero.\<close>

function chunks :: "nat \<Rightarrow> bytes \<Rightarrow> bytes list" where
  "chunks sz bs = (if bs = [] \<or> sz = 0 then [] else take sz bs # chunks sz (drop sz bs))"
  by pat_completeness auto
termination
  by (relation "measure (\<lambda>(_, bs). length bs)") auto

declare chunks.simps [simp del]

lemma chunks_Nil [simp]: "chunks sz [] = []"
  by (simp add: chunks.simps)

lemma chunks_short: "bs \<noteq> [] \<Longrightarrow> length bs \<le> sz \<Longrightarrow> chunks sz bs = [bs]"
  using chunks.simps [of sz bs] by (cases "sz = 0") auto

lemma chunks_front: "length d = sz \<Longrightarrow> 0 < sz \<Longrightarrow> chunks sz (d @ bs) = d # chunks sz bs"
  using chunks.simps [of sz "d @ bs"] by auto

lemma chunks_of_concat:
  assumes "0 < sz" "\<forall>d \<in> set (butlast ds). length d = sz" "ds \<noteq> [] \<longrightarrow> last ds \<noteq> [] \<and> length (last ds) \<le> sz"
  shows "chunks sz (concat ds) = ds"
  using assms(2,3)
proof (induction ds)
  case (Cons d ds)
  show ?case
  proof (cases "ds = []")
    case True
    then show ?thesis using Cons.prems chunks_short [of d sz] by simp
  next
    case False
    then show ?thesis using Cons assms(1) chunks_front [of d sz "concat ds"] by simp
  qed
qed simp

lemma concat_chunks: "0 < sz \<Longrightarrow> concat (chunks sz bs) = bs"
proof (induction sz bs rule: chunks.induct)
  case (1 sz bs)
  then show ?case by (cases "bs = []") (auto simp: chunks.simps [of sz bs])
qed

lemma chunks_sizes: "p \<in> set (chunks mx xs) \<Longrightarrow> p \<noteq> [] \<and> length p \<le> mx"
proof (induction mx xs rule: chunks.induct)
  case (1 mx xs)
  then show ?case using chunks.simps [of mx xs] by (cases "xs = [] \<or> mx = 0") auto
qed

end
