(* ===== verification/Varint.thy ===== *)
theory Varint
  imports Prelude
begin

text \<open>
  QUIC variable-length integers (\<open>src/quic/varint.rs\<close>, RFC 9000 Section 16): the encoder and the
  decoder, the interface every codec above them relies on, and its interpretation.
\<close>

section \<open>The codec\<close>

text \<open>
  \<open>put_varint out value\<close> appends these bytes to \<open>out\<close>. The four arms of the \<open>match\<close> are the four
  widths; the tag bits are or-ed into the top of the truncated value.
\<close>

definition put_varint :: "nat \<Rightarrow> bytes" where
  "put_varint value =
     (if value \<le> 0x3f then [word_of_nat value]
      else if value \<le> 0x3fff then be_bytes 2 (take_bit 16 value OR 0x4000)
      else if value \<le> 0x3fffffff then be_bytes 4 (take_bit 32 value OR 0x80000000)
      else be_bytes 8 (value OR 0xc000000000000000))"

text \<open>
  \<open>get_varint\<close> returns the value and how many bytes it took; \<open>None\<close> when the buffer does not hold the
  whole integer. The accumulator has at most 62 bits, so the shift never loses one.
\<close>

definition get_varint :: "bytes \<Rightarrow> (nat \<times> nat) option" where
  "get_varint buf =
     (case buf of
        [] \<Rightarrow> None
      | first # _ \<Rightarrow>
          (let len = push_bit (unat (drop_bit 6 first)) 1 in
           if length buf < len then None
           else Some (be_fold (unat (first AND 0x3f)) (drop 1 (take len buf)), len)))"

section \<open>What the tags do\<close>

text \<open>A number with a two-bit tag above it is a sum, on either side of the codec.\<close>

lemma tag_or:
  fixes v :: nat
  assumes "v < 2 ^ n"
  shows "v OR t * 2 ^ n = t * 2 ^ n + v"
  using push_bit_or_add [OF assms, of t] by (simp add: push_bit_eq_mult or.commute)

lemma or_tag2: "v < 2 ^ 14 \<Longrightarrow> v OR 0x4000 = 1 * 2 ^ 14 + v" for v :: nat
  using tag_or [of v 14 1] by simp

lemma or_tag4: "v < 2 ^ 30 \<Longrightarrow> v OR 0x80000000 = 2 * 2 ^ 30 + v" for v :: nat
  using tag_or [of v 30 2] by simp

lemma or_tag8: "v < 2 ^ 62 \<Longrightarrow> v OR 0xc000000000000000 = 3 * 2 ^ 62 + v" for v :: nat
  using tag_or [of v 62 3] by simp

lemma first_byte_tag:
  fixes b :: byte
  shows "unat (drop_bit 6 b) = unat b div 64" "unat (b AND 0x3f) = unat b mod 64"
proof -
  show "unat (drop_bit 6 b) = unat b div 64"
    by (simp add: drop_bit_eq_div unat_div_distrib)
  show "unat (b AND 0x3f) = unat b mod 64"
    using mask_and_mod [of "unat b" 6] by (simp add: unat_and_mask)
qed

text \<open>The decoder read arithmetically: two tag bits, then a big-endian number.\<close>

lemma get_varint_Cons:
  "get_varint (b # bs) =
     (let len = 2 ^ (unat b div 64) in
      if length bs + 1 < len then None
      else Some ((unat b mod 64) * 256 ^ (len - 1) + be_val (take (len - 1) bs), len))"
proof (cases "length bs + 1 < (2::nat) ^ (unat b div 64)")
  case True
  then show ?thesis by (simp add: get_varint_def first_byte_tag push_bit_eq_mult Let_def)
next
  case False
  define n where "n = (2::nat) ^ (unat b div 64) - 1"
  have pow: "(2::nat) ^ (unat b div 64) = Suc n"
    by (simp add: n_def)
  have "be_fold (unat b mod 64) (take n bs) = (unat b mod 64) * 256 ^ n + be_val (take n bs)"
    using False pow by (subst be_fold_acc) simp
  then show ?thesis
    using False pow by (simp add: get_varint_def first_byte_tag push_bit_eq_mult Let_def)
qed

lemma get_varint_Nil [simp]: "get_varint [] = None"
  by (simp add: get_varint_def)

text \<open>A tagged big-endian number of the matching width decodes to itself.\<close>

lemma get_varint_be_bytes:
  assumes k: "k < 4" and n: "n = 2 ^ k" and v: "v < 2 ^ (8 * n - 2)"
  shows "get_varint (be_bytes n (k * 2 ^ (8 * n - 2) + v) @ rest) = Some (v, n)"
proof -
  have "n \<noteq> 0" using n by simp
  then obtain m where m: "n = Suc m" using not0_implies_Suc by blast
  have pow: "(2::nat) ^ k = Suc m" using n m by simp
  define w where "w = k * 2 ^ (8 * n - 2) + v"
  have split: "(2::nat) ^ (8 * n - 2) = 64 * 256 ^ m"
    by (simp add: m power_mult power_add)
  have w: "w = (64 * k) * 256 ^ m + v"
    unfolding w_def split by simp
  then have "w div 256 ^ m = 64 * k + v div 256 ^ m"
    by simp
  moreover have small: "v div 256 ^ m < 64"
    using v split by (simp add: less_mult_imp_div_less)
  ultimately have first: "unat (word_of_nat (drop_bit (8 * m) w) :: byte) = 64 * k + v div 256 ^ m"
    using k by (simp only: unat_word_of_nat_byte drop_bit_eq_div power_mult) simp
  have rest: "be_val (be_bytes m w) = v mod 256 ^ m"
    by (simp add: codec_simps w)
  have "get_varint (be_bytes n w @ rest)
          = Some ((v div 256 ^ m) * 256 ^ m + v mod 256 ^ m, n)"
    using first small rest pow unfolding m by (simp add: get_varint_Cons Let_def)
  then show ?thesis by (simp add: w_def div_mult_mod_eq)
qed

section \<open>Round trip, bounds, monotonicity\<close>

lemma put_varint_cases:
  assumes "v < 2 ^ 62"
  obtains k n where "k < 4" "n = 2 ^ k" "v < 2 ^ (8 * n - 2)"
    "put_varint v = be_bytes n (k * 2 ^ (8 * n - 2) + v)"
    "k = 0 \<or> 2 ^ (8 * 2 ^ (k - 1) - 2) \<le> v"
proof -
  consider "v < 2 ^ 6" | "2 ^ 6 \<le> v \<and> v < 2 ^ 14" | "2 ^ 14 \<le> v \<and> v < 2 ^ 30" | "2 ^ 30 \<le> v"
    by linarith
  then show thesis
  proof cases
    case 1 then show thesis by (intro that [of 0 1]) (auto simp: put_varint_def)
  next
    case 2 then show thesis
      by (intro that [of 1 2]) (auto simp: put_varint_def or_tag2 take_bit_nat_eq_self)
  next
    case 3 then show thesis
      by (intro that [of 2 4]) (auto simp: put_varint_def or_tag4 take_bit_nat_eq_self)
  next
    case 4 with assms show thesis
      by (intro that [of 3 8]) (auto simp: put_varint_def or_tag8)
  qed
qed

lemma get_put_varint:
  assumes "v < 2 ^ 62"
  shows "get_varint (put_varint v @ rest) = Some (v, length (put_varint v))"
  using assms by (elim put_varint_cases) (simp add: get_varint_be_bytes)

lemma get_varint_bounds:
  assumes "get_varint buf = Some (v, n)"
  shows "0 < n" "n \<le> length buf" "n \<le> 8" "v < 2 ^ (8 * n - 2)" "v < 2 ^ 62"
proof -
  obtain b bs where buf: "buf = b # bs" using assms by (cases buf) auto
  define t where "t = unat b div 64"
  have t: "t \<le> 3" using unat_byte_lt [of b] unfolding t_def by linarith
  then have pow_le: "(2::nat) ^ t \<le> 2 ^ 3" by (intro power_increasing) auto
  from assms have n: "n = 2 ^ t" and le: "n \<le> length bs + 1"
    and v: "v = (unat b mod 64) * 256 ^ (n - 1) + be_val (take (n - 1) bs)"
    by (auto simp: buf get_varint_Cons Let_def t_def split: if_splits)
  show "0 < n" using n by simp
  show "n \<le> length buf" using le by (simp add: buf)
  show n8: "n \<le> 8" using pow_le n by simp
  have "be_val (take (n - 1) bs) < 256 ^ (n - 1)"
    using be_val_lt [of "take (n - 1) bs"] le by (simp add: min.absorb2)
  then have "v < (unat b mod 64) * 256 ^ (n - 1) + 256 ^ (n - 1)" using v by simp
  also have "\<dots> = Suc (unat b mod 64) * 256 ^ (n - 1)" by simp
  also have "\<dots> \<le> 64 * 256 ^ (n - 1)"
    by (rule mult_le_mono1) (simp add: Suc_le_eq)
  also have "\<dots> = 2 ^ (8 * (n - 1) + 6)"
    by (simp add: power_add power_mult)
  also have "8 * (n - 1) + 6 = 8 * n - 2" using \<open>0 < n\<close> by (cases n) auto
  finally show "v < 2 ^ (8 * n - 2)" .
  also have "(2::nat) ^ (8 * n - 2) \<le> 2 ^ 62"
    using n8 by (intro power_increasing) auto
  finally show "v < 2 ^ 62" .
qed

lemma get_varint_append:
  assumes "get_varint buf = Some r"
  shows "get_varint (buf @ rest) = Some r"
  using assms
  by (cases buf) (auto simp: get_varint_Cons Let_def split: if_splits)

text \<open>The encoder picks the shortest form: no reading of the same value is shorter.\<close>

lemma put_varint_shortest:
  assumes "get_varint buf = Some (v, n)"
  shows "length (put_varint v) \<le> n"
proof -
  note bounds = get_varint_bounds [OF assms]
  obtain k m where km: "m = 2 ^ k" "put_varint v = be_bytes m (k * 2 ^ (8 * m - 2) + v)"
    "k = 0 \<or> 2 ^ (8 * 2 ^ (k - 1) - 2) \<le> v"
    by (rule put_varint_cases [OF bounds(5)]) blast
  obtain t where t: "n = 2 ^ t"
    using assms by (cases buf) (auto simp: get_varint_Cons Let_def split: if_splits)
  have "k \<le> t"
  proof (rule ccontr)
    assume "\<not> k \<le> t"
    then have "(2::nat) ^ t \<le> 2 ^ (k - 1)" by (intro power_increasing) auto
    then have "8 * n - 2 \<le> 8 * 2 ^ (k - 1) - 2" unfolding t by linarith
    then have "(2::nat) ^ (8 * n - 2) \<le> 2 ^ (8 * 2 ^ (k - 1) - 2)"
      by (intro power_increasing) auto
    moreover have "2 ^ (8 * 2 ^ (k - 1) - 2) \<le> v" using km(3) \<open>\<not> k \<le> t\<close> by auto
    ultimately show False using bounds(4) by linarith
  qed
  then show ?thesis by (simp add: km t)
qed

section \<open>The interface\<close>

text \<open>
  What the frame, header, transport-parameter and HTTP/3 codecs rely on: a value written reads back
  whatever follows it, a reading is never empty and stays inside the buffer, and bytes appended behind
  a reading do not change it.
\<close>

locale int_codec =
  fixes put :: "nat \<Rightarrow> bytes"
    and get :: "bytes \<Rightarrow> (nat \<times> nat) option"
    and bound :: nat
  assumes get_put: "v < bound \<Longrightarrow> get (put v @ rest) = Some (v, length (put v))"
    and get_nonempty: "get buf = Some (v, n) \<Longrightarrow> 0 < n"
    and get_inside: "get buf = Some (v, n) \<Longrightarrow> n \<le> length buf"
    and get_bound: "get buf = Some (v, n) \<Longrightarrow> v < bound"
    and get_more: "get buf = Some r \<Longrightarrow> get (buf @ rest) = Some r"
begin

lemma put_nonempty: "v < bound \<Longrightarrow> put v \<noteq> []"
  using get_put [of v "[]"] get_nonempty by fastforce

text \<open>The code is prefix-free, so a sequence of integers is read back unambiguously.\<close>

lemma put_prefix_free:
  assumes "v < bound" "w < bound" "put v @ xs = put w @ ys"
  shows "v = w \<and> xs = ys"
proof -
  have "Some (v, length (put v)) = Some (w, length (put w))"
    using get_put [OF assms(1), of xs] get_put [OF assms(2), of ys] assms(3) by simp
  then show ?thesis using assms(3) by simp
qed

lemma get_rest_shorter:
  assumes "get buf = Some (v, n)"
  shows "length (drop n buf) < length buf"
  using get_nonempty [OF assms] get_inside [OF assms] by simp

end

interpretation varint: int_codec put_varint get_varint "2 ^ 62"
  by unfold_locales
    (fact get_put_varint get_varint_bounds(1) get_varint_bounds(2) get_varint_bounds(5)
      get_varint_append)+

text \<open>
  Every integer a QUIC varint can carry reads back as itself, whatever follows it, and the encoder
  uses the shortest of the four forms: no other reading of the same value takes fewer bytes.
\<close>

theorem varint_round_trip:
  assumes "v < 2 ^ 62"
  shows "get_varint (put_varint v @ rest) = Some (v, length (put_varint v))
     \<and> (\<forall>buf n. get_varint buf = Some (v, n) \<longrightarrow> length (put_varint v) \<le> n)"
  using get_put_varint [OF assms] put_varint_shortest by blast

theorem varint_round_trip_witness:
  "(494878333 :: nat) < 2 ^ 62
   \<and> get_varint (put_varint 494878333 @ [7]) = Some (494878333, length (put_varint 494878333))"
  using varint_round_trip [of 494878333 "[7]"] by simp

end
