(* ===== verification/Ranges.thy ===== *)
theory Ranges
  imports Prelude
begin

text \<open>
  Sets of packet numbers kept as inclusive ranges, largest first and never touching. Both the
  acknowledgement state (\<open>src/quic/ack.rs\<close>) and the duplicate history (\<open>src/quic/received.rs\<close>) keep
  their numbers this way; the contract they share is the locale \<open>packet_history\<close>.
\<close>

type_synonym ranges = "(nat \<times> nat) list"

text \<open>\<open>Vec::remove\<close> and \<open>Vec::insert\<close> at an index inside the vector.\<close>

definition remove_at :: "nat \<Rightarrow> 'a list \<Rightarrow> 'a list" where
  "remove_at i xs = take i xs @ drop (Suc i) xs"

definition insert_at :: "nat \<Rightarrow> 'a \<Rightarrow> 'a list \<Rightarrow> 'a list" where
  "insert_at i x xs = take i xs @ x # drop i xs"

definition covers :: "ranges \<Rightarrow> nat set" where
  "covers rs = (\<Union>(lo, hi) \<in> set rs. {lo..hi})"

definition rng_ok :: "ranges \<Rightarrow> bool" where
  "rng_ok rs \<longleftrightarrow> (\<forall>r \<in> set rs. fst r \<le> snd r) \<and> sorted_wrt (\<lambda>p q. snd q + 1 < fst p) rs"

lemma covers_Nil [simp]: "covers [] = {}"
  by (simp add: covers_def)

lemma covers_Cons [simp]: "covers (r # rs) = {fst r..snd r} \<union> covers rs"
  by (auto simp: covers_def)

lemma covers_append [simp]: "covers (xs @ ys) = covers xs \<union> covers ys"
  by (auto simp: covers_def)

lemma rng_ok_Nil [simp]: "rng_ok []"
  by (simp add: rng_ok_def)

lemma rng_ok_Cons:
  "rng_ok (r # rs) \<longleftrightarrow> fst r \<le> snd r \<and> (\<forall>q \<in> set rs. snd q + 1 < fst r) \<and> rng_ok rs"
  by (auto simp: rng_ok_def)

lemma rng_ok_append:
  "rng_ok (xs @ ys) \<longleftrightarrow>
     rng_ok xs \<and> rng_ok ys \<and> (\<forall>p \<in> set xs. \<forall>q \<in> set ys. snd q + 1 < fst p)"
  by (auto simp: rng_ok_def sorted_wrt_append)

lemma rng_ok_nonempty: "rng_ok rs \<Longrightarrow> r \<in> set rs \<Longrightarrow> fst r \<le> snd r"
  by (auto simp: rng_ok_def)

lemma covers_above: "rng_ok rs \<Longrightarrow> (\<forall>r \<in> set rs. n < fst r) \<longleftrightarrow> (\<forall>x \<in> covers rs. n < x)"
  by (induction rs) (auto simp: rng_ok_Cons)

lemma covers_eq_empty [simp]: "rng_ok rs \<Longrightarrow> covers rs = {} \<longleftrightarrow> rs = []"
  by (cases rs) (auto simp: rng_ok_Cons)

lemma covers_le_first: "rng_ok (r # rs) \<Longrightarrow> x \<in> covers (r # rs) \<Longrightarrow> x \<le> snd r"
  by (induction rs arbitrary: x) (auto simp: rng_ok_Cons)

lemma rng_ok_butlast: "rng_ok rs \<Longrightarrow> rng_ok (butlast rs)"
  by (cases rs rule: rev_cases) (auto simp: rng_ok_append)

lemma covers_butlast: "covers (butlast rs) \<subseteq> covers rs"
  by (cases rs rule: rev_cases) auto

lemma covers_dropped_last:
  assumes "rng_ok rs" "x \<in> covers rs" "x \<notin> covers (butlast rs)" "y \<in> covers (butlast rs)"
  shows "x < y"
proof -
  have x: "x \<in> covers rs" "x \<notin> covers (butlast rs)" and y: "y \<in> covers (butlast rs)"
    using assms by auto
  then obtain zs r where zs: "rs = zs @ [r]" by (cases rs rule: rev_cases) auto
  have "x \<le> snd r" using x zs by auto
  moreover have "\<forall>p \<in> set zs. snd r < fst p" using assms(1) zs by (auto simp: rng_ok_append)
  then have "snd r < y"
    using y zs covers_above [of zs "snd r"] assms(1) by (auto simp: rng_ok_append)
  ultimately show ?thesis by simp
qed

lemma rng_ok_filter: "rng_ok rs \<Longrightarrow> rng_ok (filter P rs)"
  by (induction rs) (auto simp: rng_ok_Cons)

section \<open>The shared contract\<close>

text \<open>
  \<open>add\<close> records one packet number. A history is bounded, never claims a number that was not recorded,
  and what it drops to stay bounded is older than all it keeps.
\<close>

locale packet_history =
  fixes fresh :: 's
    and add :: "nat \<Rightarrow> 's \<Rightarrow> 's"
    and ranges_of :: "'s \<Rightarrow> ranges"
    and invar :: "'s \<Rightarrow> bool"
    and cap :: nat
  assumes fresh_invar: "invar fresh"
    and fresh_ranges: "ranges_of fresh = []"
    and add_invar: "invar s \<Longrightarrow> invar (add pn s)"
    and invar_ok: "invar s \<Longrightarrow> rng_ok (ranges_of s)"
    and invar_cap: "invar s \<Longrightarrow> length (ranges_of s) \<le> cap"
    and add_sound: "invar s \<Longrightarrow> covers (ranges_of (add pn s)) \<subseteq> insert pn (covers (ranges_of s))"
    and add_keeps_newest: "\<lbrakk>invar s; x \<in> insert pn (covers (ranges_of s));
         x \<notin> covers (ranges_of (add pn s)); y \<in> covers (ranges_of (add pn s))\<rbrakk> \<Longrightarrow> x < y"
    and add_nonempty: "invar s \<Longrightarrow> pn \<notin> covers (ranges_of (add pn s)) \<Longrightarrow>
         ranges_of s \<noteq> [] \<and> ranges_of (add pn s) \<noteq> []"
begin

lemma fold_invar: "invar s \<Longrightarrow> invar (fold add pns s)"
  by (induction pns arbitrary: s) (auto intro: add_invar)

lemma fold_sound:
  "invar s \<Longrightarrow> covers (ranges_of (fold add pns s)) \<subseteq> covers (ranges_of s) \<union> set pns"
proof (induction pns arbitrary: s)
  case (Cons pn pns)
  then show ?case
    using Cons.IH [OF add_invar [OF Cons.prems], of pn] add_sound [OF Cons.prems, of pn] by auto
qed simp

text \<open>The largest number recorded is never among the dropped ones.\<close>

lemma add_keeps_max:
  assumes "invar s" "\<And>x. x \<in> covers (ranges_of s) \<Longrightarrow> x \<le> m"
    and "m = pn \<or> m \<in> covers (ranges_of s)" "pn \<le> m"
  shows "m \<in> covers (ranges_of (add pn s))"
proof (rule ccontr)
  assume m: "m \<notin> covers (ranges_of (add pn s))"
  have "ranges_of (add pn s) \<noteq> []"
  proof
    assume e: "ranges_of (add pn s) = []"
    then have "pn \<notin> covers (ranges_of (add pn s))" by simp
    from add_nonempty [OF assms(1) this] e show False by simp
  qed
  then obtain y where y: "y \<in> covers (ranges_of (add pn s))"
    using covers_eq_empty [OF invar_ok [OF add_invar [OF assms(1)]], of pn] by blast
  have "m < y"
    using add_keeps_newest [OF assms(1) _ m y] assms(3) by auto
  moreover have "y \<le> m"
    using add_sound [OF assms(1), of pn] y assms(2,4) by auto
  ultimately show False by simp
qed

lemma fold_keeps_max_aux:
  assumes "invar s" "\<And>x. x \<in> covers (ranges_of s) \<Longrightarrow> x \<le> m" "m \<in> covers (ranges_of s) \<or> m \<in> set pns"
    and "\<And>x. x \<in> set pns \<Longrightarrow> x \<le> m"
  shows "m \<in> covers (ranges_of (fold add pns s))"
  using assms
proof (induction pns arbitrary: s)
  case (Cons pn pns)
  have inv: "invar (add pn s)" using Cons.prems(1) by (rule add_invar)
  have le: "x \<le> m" if "x \<in> covers (ranges_of (add pn s))" for x
    using add_sound [OF Cons.prems(1), of pn] that Cons.prems(2,4) by auto
  have "m \<in> covers (ranges_of (add pn s)) \<or> m \<in> set pns"
    using Cons.prems by (cases "m \<in> set pns") (auto intro!: add_keeps_max)
  then show ?case using Cons.IH [OF inv le] Cons.prems(4) by simp
qed simp

lemma fold_keeps_max:
  assumes "pns \<noteq> []"
  shows "Max (set pns) \<in> covers (ranges_of (fold add pns fresh))"
  using assms by (intro fold_keeps_max_aux) (auto simp: fresh_invar fresh_ranges)

end

end
