(* ===== verification/Ack.thy ===== *)
theory Ack
  imports Ranges
begin

text \<open>
  What to acknowledge, and when (\<open>src/quic/ack.rs\<close>). Instants are natural numbers of nanoseconds.
\<close>

section \<open>State and operations\<close>

record ack_state =
  ack_ranges :: ranges
  ack_eliciting_pending :: bool
  largest_received_at :: "nat option"

definition ack_default :: ack_state where
  "ack_default = \<lparr>ack_ranges = [], ack_eliciting_pending = False, largest_received_at = None\<rparr>"

definition ACK_MAX_RANGES :: nat where "ACK_MAX_RANGES = 32"

text \<open>
  The loop of \<open>AckState::insert\<close> from index \<open>i\<close>; past the last index is the code after the loop.
\<close>

function ack_insert_loop :: "nat \<Rightarrow> ranges \<Rightarrow> nat \<Rightarrow> ranges" where
  "ack_insert_loop i rs pn =
     (if i < length rs then
        (let smallest = fst (rs ! i); largest = snd (rs ! i) in
         if pn \<ge> smallest \<and> pn \<le> largest then rs
         else if pn = largest + 1 then
           (let rs' = rs[i := (smallest, pn)] in
            if i > 0 \<and> fst (rs' ! (i - 1)) = pn + 1
            then remove_at (i - 1) (rs'[i := (smallest, snd (rs' ! (i - 1)))])
            else rs')
         else if smallest > 0 \<and> pn = smallest - 1 then
           (let rs' = rs[i := (pn, largest)] in
            if i + 1 < length rs' \<and> snd (rs' ! (i + 1)) + 1 = pn
            then remove_at (i + 1) (rs'[i := (fst (rs' ! (i + 1)), largest)])
            else rs')
         else if pn > largest then
           insert_at i (pn, pn) (if length rs = ACK_MAX_RANGES then butlast rs else rs)
         else ack_insert_loop (Suc i) rs pn)
      else if length rs < ACK_MAX_RANGES then rs @ [(pn, pn)] else rs)"
  by pat_completeness auto
termination
  by (relation "measure (\<lambda>(i, rs, pn). length rs - i)") auto

declare ack_insert_loop.simps [simp del]

definition ack_insert :: "nat \<Rightarrow> ack_state \<Rightarrow> ack_state" where
  "ack_insert pn s = s\<lparr>ack_ranges := ack_insert_loop 0 (ack_ranges s) pn\<rparr>"

definition ack_record :: "nat \<Rightarrow> bool \<Rightarrow> nat \<Rightarrow> ack_state \<Rightarrow> ack_state" where
  "ack_record pn ack_eliciting now s =
     (let s1 = (if ack_eliciting then s\<lparr>ack_eliciting_pending := True\<rparr> else s);
          s2 = (if (case ack_ranges s1 of [] \<Rightarrow> True | r # _ \<Rightarrow> pn > snd r)
                then s1\<lparr>largest_received_at := Some now\<rparr> else s1)
      in ack_insert pn s2)"

text \<open>Microseconds since the largest packet arrived, shifted down by the exponent.\<close>

definition ack_delay :: "nat \<Rightarrow> nat \<Rightarrow> ack_state \<Rightarrow> nat" where
  "ack_delay now exponent s =
     (case largest_received_at s of
        None \<Rightarrow> 0
      | Some at \<Rightarrow> drop_bit exponent (take_bit 64 ((now - at) div 1000)))"

definition ack_trim_below :: "nat \<Rightarrow> ack_state \<Rightarrow> ack_state" where
  "ack_trim_below largest_acked_by_peer s =
     s\<lparr>ack_ranges := filter (\<lambda>r. snd r > largest_acked_by_peer) (ack_ranges s)\<rparr>"

definition ack_take_pending :: "ack_state \<Rightarrow> bool \<times> ack_state" where
  "ack_take_pending s = (ack_eliciting_pending s, s\<lparr>ack_eliciting_pending := False\<rparr>)"

section \<open>The loop as a structural insertion\<close>

text \<open>
  The suffix still to be scanned decides the result: everything before it lies above \<open>pn + 1\<close>, so
  the branch that joins with the range above is never taken.
\<close>

fun ack_ins :: "bool \<Rightarrow> ranges \<Rightarrow> nat \<Rightarrow> ranges" where
  "ack_ins full [] pn = (if full then [] else [(pn, pn)])"
| "ack_ins full ((lo, hi) # rs) pn =
     (if lo \<le> pn \<and> pn \<le> hi then (lo, hi) # rs
      else if pn = hi + 1 then (lo, pn) # rs
      else if lo > 0 \<and> pn = lo - 1 then
        (if rs \<noteq> [] \<and> snd (hd rs) + 1 = pn then (fst (hd rs), hi) # tl rs else (pn, hi) # rs)
      else if pn > hi then (pn, pn) # (if full then butlast ((lo, hi) # rs) else (lo, hi) # rs)
      else (lo, hi) # ack_ins full rs pn)"

lemma ack_insert_loop_ins:
  assumes "rng_ok (xs @ ys)" "\<forall>r \<in> set xs. pn + 1 < fst r" "length (xs @ ys) \<le> ACK_MAX_RANGES"
  shows "ack_insert_loop (length xs) (xs @ ys) pn
           = xs @ ack_ins (length (xs @ ys) = ACK_MAX_RANGES) ys pn"
  using assms
proof (induction ys arbitrary: xs)
  case Nil
  then show ?case by (subst ack_insert_loop.simps) auto
next
  case (Cons r ys)
  obtain lo hi where r: "r = (lo, hi)" by (cases r)
  have prev: "fst ((xs @ zs) ! (length xs - 1)) \<noteq> pn + 1" if "xs \<noteq> []" for zs
  proof -
    have "(xs @ zs) ! (length xs - 1) \<in> set xs"
      using that by (simp add: nth_append)
    then show ?thesis using Cons.prems(2) by force
  qed
  have nxt: "(xs @ x # ys) ! Suc (length xs) = hd ys" if "ys \<noteq> []" for x
    using that by (simp add: nth_append hd_conv_nth)
  have at: "(xs @ (lo, hi) # ys) ! length xs = (lo, hi)" by simp
  have lohi: "lo \<le> hi" using Cons.prems(1) by (simp add: r rng_ok_append rng_ok_Cons)
  consider (inside) "lo \<le> pn \<and> pn \<le> hi" | (above) "pn = hi + 1" "\<not> (lo \<le> pn \<and> pn \<le> hi)"
    | (below) "pn \<noteq> hi + 1" "lo > 0" "pn = lo - 1" "\<not> (lo \<le> pn \<and> pn \<le> hi)"
    | (gap) "pn > hi" "pn \<noteq> hi + 1" "\<not> (lo > 0 \<and> pn = lo - 1)" "\<not> (lo \<le> pn \<and> pn \<le> hi)"
    | (further) "pn + 1 < lo" "pn \<le> hi"
    using lohi by arith
  then show ?case
  proof cases
    case inside
    then show ?thesis by (subst ack_insert_loop.simps) (simp add: r)
  next
    case above
    have "\<not> (0 < length xs \<and> fst ((xs @ (lo, pn) # ys) ! (length xs - 1)) = pn + 1)"
      using prev by auto
    with above show ?thesis
      by (subst ack_insert_loop.simps) (auto simp: r Let_def list_update_append)
  next
    case below
    then show ?thesis
      using nxt
      by (subst ack_insert_loop.simps, cases ys)
        (simp_all add: r Let_def list_update_append remove_at_def nth_append)
  next
    case gap
    then have "pn \<noteq> lo - Suc 0" using lohi by arith
    with gap show ?thesis
      by (subst ack_insert_loop.simps)
        (simp add: r Let_def insert_at_def butlast_append del: butlast.simps)
  next
    case further
    then have "pn \<noteq> lo - Suc 0" by arith
    with further have step: "ack_insert_loop (length xs) (xs @ r # ys) pn
                       = ack_insert_loop (length (xs @ [r])) ((xs @ [r]) @ ys) pn"
      by (subst ack_insert_loop.simps) (simp add: r Let_def)
    have "ack_insert_loop (length (xs @ [r])) ((xs @ [r]) @ ys) pn
            = (xs @ [r]) @ ack_ins (length ((xs @ [r]) @ ys) = ACK_MAX_RANGES) ys pn"
      using Cons.prems further by (intro Cons.IH) (auto simp: r)
    with step further show ?thesis by (simp add: r)
  qed
qed

section \<open>Insertion keeps the ranges exact, in order and bounded\<close>

lemma ack_ins_below:
  assumes "pn + 1 < n" "\<forall>q \<in> set ys. snd q + 1 < n"
  shows "\<forall>q \<in> set (ack_ins full ys pn). snd q + 1 < n"
  using assms
  by (induction full ys pn rule: ack_ins.induct)
    (auto dest: in_set_butlastD list.set_sel(2) split: if_splits)

lemma rng_ok_ack_ins: "rng_ok ys \<Longrightarrow> rng_ok (ack_ins full ys pn)"
proof (induction full ys pn rule: ack_ins.induct)
  case (2 full lo hi rs pn)
  consider (further) "pn + 1 < lo" "\<not> (lo \<le> pn \<and> pn \<le> hi)" "pn \<noteq> hi + 1" "\<not> (lo > 0 \<and> pn = lo - 1)" "\<not> pn > hi"
    | (here) "\<not> (pn + 1 < lo)"
    using "2.prems" by (force simp: rng_ok_Cons)
  then show ?case
  proof cases
    case further
    then have "rng_ok (ack_ins full rs pn)" using 2 by (simp add: rng_ok_Cons)
    moreover have "\<forall>q \<in> set (ack_ins full rs pn). snd q + 1 < lo"
      using further "2.prems" by (intro ack_ins_below) (auto simp: rng_ok_Cons)
    ultimately show ?thesis using further "2.prems" by (simp add: rng_ok_Cons)
  next
    case here
    then show ?thesis
      using "2.prems" rng_ok_butlast [of "(lo, hi) # rs"]
      by (cases rs) (auto simp: rng_ok_Cons dest: in_set_butlastD split: if_splits)
  qed
qed (simp add: rng_ok_Cons)

lemma covers_ack_ins: "rng_ok ys \<Longrightarrow> covers (ack_ins False ys pn) = insert pn (covers ys)"
proof (induction False ys pn rule: ack_ins.induct)
  case (2 lo hi rs pn)
  then show ?case
    by (cases rs) (auto simp: rng_ok_Cons split: if_splits)
qed simp

lemma length_ack_ins: "length (ack_ins full ys pn) \<le> (if full then length ys else Suc (length ys))"
  by (induction full ys pn rule: ack_ins.induct) auto

lemma covers_ack_ins_full: "covers (ack_ins full ys pn) \<subseteq> covers (ack_ins False ys pn)"
proof (induction full ys pn rule: ack_ins.induct)
  case (2 full lo hi rs pn)
  then show ?case
    using covers_butlast [of "(lo, hi) # rs"] by (auto simp del: butlast.simps)
qed simp

lemma covers_ack_ins_sound: "rng_ok ys \<Longrightarrow> covers (ack_ins full ys pn) \<subseteq> insert pn (covers ys)"
  using covers_ack_ins_full covers_ack_ins by blast

lemma covers_ack_ins_newest:
  assumes "rng_ok ys" "x \<in> insert pn (covers ys)" "x \<notin> covers (ack_ins full ys pn)"
    "y \<in> covers (ack_ins full ys pn)"
  shows "x < y"
  using assms
proof (induction full ys pn rule: ack_ins.induct)
  case (2 full lo hi rs pn)
  have lohi: "lo \<le> hi" using "2.prems"(1) by (simp add: rng_ok_Cons)
  consider (inside) "lo \<le> pn" "pn \<le> hi" | (above) "pn = hi + 1" | (below) "lo > 0" "pn = lo - 1"
    | (gap) "pn > hi + 1" | (further) "pn + 1 < lo"
    using lohi by arith
  then show ?case
  proof cases
    case further
    have rec: "ack_ins full ((lo, hi) # rs) pn = (lo, hi) # ack_ins full rs pn"
      using further lohi by auto
    have x: "x \<in> insert pn (covers rs)" "x \<notin> covers (ack_ins full rs pn)"
      using "2.prems"(2,3) rec by auto
    have "x < lo"
      using x(1) further "2.prems"(1) by (auto simp: rng_ok_Cons covers_def)
    moreover have "x < y" if "y \<in> covers (ack_ins full rs pn)"
      using "2.IH" further lohi x that "2.prems"(1) by (auto simp: rng_ok_Cons)
    ultimately show ?thesis using "2.prems"(4) rec by auto
  next
    case gap
    define zs where "zs = (lo, hi) # rs"
    have ins: "ack_ins full zs pn = (pn, pn) # (if full then butlast zs else zs)"
      using gap lohi unfolding zs_def by (simp del: butlast.simps) arith
    have "x \<in> covers zs" "full" "x \<notin> covers (butlast zs)"
      using "2.prems"(2,3) ins by (auto simp flip: zs_def split: if_splits)
    moreover have "y = pn \<or> y \<in> covers (butlast zs)"
      using "2.prems"(4) ins \<open>full\<close> by (auto simp flip: zs_def)
    moreover have "x \<le> hi"
      using covers_le_first [OF "2.prems"(1)] \<open>x \<in> covers zs\<close> by (simp add: zs_def)
    ultimately show ?thesis
      using covers_dropped_last [of zs x y] "2.prems"(1) gap by (auto simp flip: zs_def)
  qed (use "2.prems" in \<open>cases rs; auto simp: rng_ok_Cons split: if_splits\<close>)+
qed (auto split: if_splits)

section \<open>The state invariant and the shared contract\<close>

definition ack_ok :: "ack_state \<Rightarrow> bool" where
  "ack_ok s \<longleftrightarrow> rng_ok (ack_ranges s) \<and> length (ack_ranges s) \<le> ACK_MAX_RANGES"

lemma ack_insert_ranges:
  assumes "ack_ok s"
  shows "ack_ranges (ack_insert pn s)
           = ack_ins (length (ack_ranges s) = ACK_MAX_RANGES) (ack_ranges s) pn"
  using ack_insert_loop_ins [of "[]" "ack_ranges s" pn] assms
  by (simp add: ack_insert_def ack_ok_def)

lemma ack_ok_insert:
  assumes "ack_ok s"
  shows "ack_ok (ack_insert pn s)"
proof -
  have "length (ack_ins (length (ack_ranges s) = ACK_MAX_RANGES) (ack_ranges s) pn) \<le> ACK_MAX_RANGES"
    using length_ack_ins [of "length (ack_ranges s) = ACK_MAX_RANGES" "ack_ranges s" pn] assms
    by (auto simp: ack_ok_def split: if_splits)
  then show ?thesis
    using assms rng_ok_ack_ins by (simp add: ack_ok_def ack_insert_ranges [OF assms])
qed

lemma ack_ins_nonempty: "ys \<noteq> [] \<Longrightarrow> ack_ins full ys pn \<noteq> []"
  by (cases ys) (auto split: if_splits)

lemma ack_ok_pending [simp]: "ack_ok (s\<lparr>ack_eliciting_pending := b\<rparr>) = ack_ok s"
  by (simp add: ack_ok_def)

interpretation ack: packet_history ack_default ack_insert ack_ranges ack_ok ACK_MAX_RANGES
proof unfold_locales
  fix s pn x y assume s: "ack_ok s"
  show "ack_ok (ack_insert pn s)" using s by (rule ack_ok_insert)
  show "rng_ok (ack_ranges s)" "length (ack_ranges s) \<le> ACK_MAX_RANGES"
    using s by (auto simp: ack_ok_def)
  show "covers (ack_ranges (ack_insert pn s)) \<subseteq> insert pn (covers (ack_ranges s))"
    using covers_ack_ins_sound s by (simp add: ack_insert_ranges ack_ok_def)
  show "x < y" if "x \<in> insert pn (covers (ack_ranges s))" "x \<notin> covers (ack_ranges (ack_insert pn s))"
    "y \<in> covers (ack_ranges (ack_insert pn s))"
    using covers_ack_ins_newest [of "ack_ranges s"] that s by (simp add: ack_insert_ranges ack_ok_def)
  assume "pn \<notin> covers (ack_ranges (ack_insert pn s))"
  then have "length (ack_ranges s) = ACK_MAX_RANGES"
    using s covers_ack_ins [of "ack_ranges s" pn]
    by (intro ccontr [of "length (ack_ranges s) = ACK_MAX_RANGES"])
      (simp add: ack_insert_ranges ack_ok_def)
  then have "ack_ranges s \<noteq> []" by (auto simp: ACK_MAX_RANGES_def)
  then show "ack_ranges s \<noteq> [] \<and> ack_ranges (ack_insert pn s) \<noteq> []"
    using s by (simp add: ack_insert_ranges ack_ins_nonempty)
qed (simp_all add: ack_ok_def ack_default_def)

lemma ack_record_ranges: "ack_ranges (ack_record pn e now s) = ack_ranges (ack_insert pn s)"
  by (simp add: ack_record_def ack_insert_def Let_def)

lemma ack_ok_cong: "ack_ranges s = ack_ranges t \<Longrightarrow> ack_ok s = ack_ok t"
  by (simp add: ack_ok_def)

lemma ack_ok_record: "ack_ok s \<Longrightarrow> ack_ok (ack_record pn e now s)"
  using ack_ok_cong [OF ack_record_ranges] ack_ok_insert by blast

lemma ack_ok_trim: "ack_ok s \<Longrightarrow> ack_ok (ack_trim_below n s)"
  by (auto simp: ack_ok_def ack_trim_below_def rng_ok_filter intro: le_trans [OF length_filter_le])

lemma ack_record_nonempty:
  assumes "ack_ok s"
  shows "ack_ranges (ack_record pn e now s) \<noteq> []"
proof
  assume "ack_ranges (ack_record pn e now s) = []"
  then have "ack_ranges (ack_insert pn s) = []" by (simp add: ack_record_ranges)
  then show False using ack.add_nonempty [OF assms, of pn] by auto
qed

section \<open>Every history of the state\<close>

text \<open>The operations a packet number space performs on its acknowledgement state, in any order.\<close>

datatype ack_op = Record nat bool nat | TrimBelow nat | TakePending

fun ack_step :: "ack_op \<Rightarrow> ack_state \<Rightarrow> ack_state" where
  "ack_step (Record pn e now) s = ack_record pn e now s"
| "ack_step (TrimBelow n) s = ack_trim_below n s"
| "ack_step TakePending s = snd (ack_take_pending s)"

fun ack_recorded :: "ack_op list \<Rightarrow> nat set" where
  "ack_recorded [] = {}"
| "ack_recorded (Record pn e now # ops) = insert pn (ack_recorded ops)"
| "ack_recorded (_ # ops) = ack_recorded ops"

lemma covers_trim: "covers (ack_ranges (ack_trim_below n s)) \<subseteq> covers (ack_ranges s)"
  by (auto simp: ack_trim_below_def covers_def)

lemma ack_step_ok: "ack_ok s \<Longrightarrow> ack_ok (ack_step op s)"
  by (cases op) (simp_all add: ack_ok_record ack_ok_trim ack_take_pending_def)

lemma ack_step_sound:
  "ack_ok s \<Longrightarrow> covers (ack_ranges (ack_step op s)) \<subseteq> covers (ack_ranges s) \<union> ack_recorded [op]"
  using covers_trim ack.add_sound
  by (cases op) (auto simp: ack_record_ranges ack_take_pending_def)

lemma ack_recorded_append: "ack_recorded (op # ops) = ack_recorded [op] \<union> ack_recorded ops"
  by (cases op) auto

lemma ack_run_sound:
  assumes "ack_ok s"
  shows "ack_ok (fold ack_step ops s) \<and>
     covers (ack_ranges (fold ack_step ops s)) \<subseteq> covers (ack_ranges s) \<union> ack_recorded ops"
  using assms
proof (induction ops arbitrary: s)
  case (Cons op ops)
  have "ack_ok (ack_step op s)" using Cons.prems by (rule ack_step_ok)
  then show ?case
    using Cons.IH [of "ack_step op s"] ack_step_sound [OF Cons.prems, of op]
      ack_recorded_append [of op ops] by auto
qed simp

text \<open>
  C13. Whatever packets arrive, whatever the peer confirms and whenever acknowledgements are taken, the
  ranges stay sorted largest first, never touching, at most 32 of them, and never name a packet that
  was not received: an ACK frame cannot claim a packet the client has not seen.
\<close>

theorem ack_never_claims_unreceived:
  "rng_ok (ack_ranges (fold ack_step ops ack_default))
   \<and> length (ack_ranges (fold ack_step ops ack_default)) \<le> 32
   \<and> covers (ack_ranges (fold ack_step ops ack_default)) \<subseteq> ack_recorded ops"
  using ack_run_sound [of ack_default ops]
  by (simp add: ack_ok_def ack_default_def ACK_MAX_RANGES_def)

text \<open>
  Recording a packet number below the storage limit adds exactly that number to the set the ranges
  stand for, merging with the ranges on both sides where it closes a gap; at the limit, whatever is
  dropped is older than everything kept.
\<close>

theorem ack_insert_exact:
  assumes "ack_ok s"
  shows "(length (ack_ranges s) < 32 \<longrightarrow>
            covers (ack_ranges (ack_insert pn s)) = insert pn (covers (ack_ranges s)))
       \<and> (\<forall>x \<in> insert pn (covers (ack_ranges s)) - covers (ack_ranges (ack_insert pn s)).
            \<forall>y \<in> covers (ack_ranges (ack_insert pn s)). x < y)"
proof (intro conjI)
  show "length (ack_ranges s) < 32 \<longrightarrow>
           covers (ack_ranges (ack_insert pn s)) = insert pn (covers (ack_ranges s))"
    using assms covers_ack_ins by (auto simp: ack_insert_ranges ack_ok_def ACK_MAX_RANGES_def)
  show "\<forall>x \<in> insert pn (covers (ack_ranges s)) - covers (ack_ranges (ack_insert pn s)).
           \<forall>y \<in> covers (ack_ranges (ack_insert pn s)). x < y"
    using ack.add_keeps_newest [OF assms] by blast
qed

theorem ack_insert_exact_witness:
  "covers (ack_ranges (ack_insert 1 (ack_default\<lparr>ack_ranges := [(2, 2), (0, 0)]\<rparr>))) = {0, 1, 2}"
proof -
  have ok: "ack_ok (ack_default\<lparr>ack_ranges := [(2, 2), (0, 0)]\<rparr>)"
    by (simp add: ack_ok_def rng_ok_Cons ACK_MAX_RANGES_def)
  show ?thesis using ack_insert_exact [OF ok, of 1] by auto
qed

end
