(* ===== verification/Received.thy ===== *)
theory Received
  imports Ranges
begin

text \<open>
  The bounded duplicate history of one packet number space (\<open>src/quic/received.rs\<close>).
\<close>

section \<open>State and operation\<close>

record received_packets =
  rp_ranges :: ranges
  rp_minimum :: nat

definition received_default :: received_packets where
  "received_default = \<lparr>rp_ranges = [], rp_minimum = 0\<rparr>"

definition RECEIVED_MAX_RANGES :: nat where "RECEIVED_MAX_RANGES = 256"

text \<open>
  \<open>partition_point\<close> on a partitioned vector is the length of the prefix that satisfies the predicate.
  \<open>checked_sub(1) == Some(pn)\<close> and \<open>checked_add(1) == Some(pn)\<close> are \<open>lo = pn + 1\<close> and \<open>hi + 1 = pn\<close>,
  since \<open>pn\<close> is itself in range.
\<close>

definition received_insert :: "nat \<Rightarrow> received_packets \<Rightarrow> received_packets \<times> bool" where
  "received_insert pn s =
     (if pn < rp_minimum s then (s, False)
      else
        let rs = rp_ranges s;
            at = length (takeWhile (\<lambda>r. fst r > pn) rs) in
        if at < length rs \<and> pn \<le> snd (rs ! at) then (s, False)
        else
          let above = (at > 0 \<and> fst (rs ! (at - 1)) = pn + 1);
              below = (at < length rs \<and> snd (rs ! at) + 1 = pn) in
          if above \<and> below then
            (s\<lparr>rp_ranges := remove_at at (rs[at - 1 := (fst (rs ! at), snd (rs ! (at - 1)))])\<rparr>, True)
          else if above then (s\<lparr>rp_ranges := rs[at - 1 := (pn, snd (rs ! (at - 1)))]\<rparr>, True)
          else if below then (s\<lparr>rp_ranges := rs[at := (fst (rs ! at), pn)]\<rparr>, True)
          else if length rs = RECEIVED_MAX_RANGES then
            (if at = RECEIVED_MAX_RANGES then (s\<lparr>rp_minimum := pn + 1\<rparr>, False)
             else (s\<lparr>rp_minimum := snd (last rs) + 1,
                     rp_ranges := insert_at at (pn, pn) (butlast rs)\<rparr>, True))
          else (s\<lparr>rp_ranges := insert_at at (pn, pn) rs\<rparr>, True))"

section \<open>Invariant and exact effect\<close>

definition received_ok :: "received_packets \<Rightarrow> bool" where
  "received_ok s \<longleftrightarrow> rng_ok (rp_ranges s) \<and> length (rp_ranges s) \<le> RECEIVED_MAX_RANGES
     \<and> (\<forall>r \<in> set (rp_ranges s). rp_minimum s \<le> fst r) \<and> (rp_ranges s = [] \<longrightarrow> rp_minimum s = 0)"

text \<open>
  The effect in terms of sets: the new number joins the set, everything below the new floor leaves it,
  and the packet is new exactly when it was not in the set and did not fall below the floor.
\<close>

definition received_effect :: "nat \<Rightarrow> received_packets \<Rightarrow> received_packets \<Rightarrow> bool \<Rightarrow> bool" where
  "received_effect pn s s' new \<longleftrightarrow>
     received_ok s' \<and> rp_minimum s \<le> rp_minimum s'
     \<and> covers (rp_ranges s') = {x \<in> insert pn (covers (rp_ranges s)). rp_minimum s' \<le> x}
     \<and> (new \<longleftrightarrow> pn \<notin> covers (rp_ranges s) \<and> rp_minimum s' \<le> pn)
     \<and> (rp_minimum s' \<noteq> rp_minimum s \<longrightarrow> length (rp_ranges s) = RECEIVED_MAX_RANGES)"

lemma covers_floor:
  assumes "received_ok s" "x \<in> covers (rp_ranges s)"
  shows "rp_minimum s \<le> x"
  using assms by (fastforce simp: received_ok_def covers_def)

lemma received_unchanged:
  assumes "received_ok s" "pn < rp_minimum s \<or> pn \<in> covers (rp_ranges s)"
  shows "received_effect pn s s False"
  using assms covers_floor [OF assms(1)] by (auto simp: received_effect_def)

text \<open>Splitting the ranges around a number that none of them holds.\<close>

lemma split_ranges:
  assumes "rng_ok rs"
  obtains xs ys where "rs = xs @ ys" "length (takeWhile (\<lambda>r. fst r > pn) rs) = length xs"
    "\<forall>r \<in> set xs. pn < fst r" "\<forall>r \<in> set ys. fst r \<le> pn"
proof -
  let ?P = "\<lambda>r :: nat \<times> nat. fst r > pn"
  have "\<forall>r \<in> set (dropWhile ?P rs). fst r \<le> pn"
  proof (cases "dropWhile ?P rs")
    case (Cons r zs)
    then have "\<not> pn < fst r" by (metis hd_dropWhile list.distinct(1) list.sel(1))
    moreover have "rng_ok (r # zs)"
      using assms Cons by (metis rng_ok_append takeWhile_dropWhile_id)
    ultimately show ?thesis by (fastforce simp: Cons rng_ok_Cons dest: rng_ok_nonempty)
  next
    case Nil
    show ?thesis unfolding Nil by simp
  qed
  then show thesis
    by (intro that [of "takeWhile ?P rs" "dropWhile ?P rs"]) (auto dest: set_takeWhileD)
qed

lemma covered_in_second:
  assumes "rng_ok (xs @ ys)" "\<forall>r \<in> set xs. pn < fst r" "\<forall>r \<in> set ys. fst r \<le> pn"
  shows "pn \<in> covers (xs @ ys) \<longleftrightarrow> ys \<noteq> [] \<and> pn \<le> snd (hd ys)"
proof (cases ys)
  case Nil
  then show ?thesis using assms(2) by (auto simp: covers_def)
next
  case (Cons y zs)
  have "pn \<notin> covers xs" using assms(2) by (auto simp: covers_def)
  moreover have "pn \<notin> covers zs" if "\<not> pn \<le> snd y"
    using assms(1) that covers_le_first [of y zs pn] by (auto simp: Cons rng_ok_append)
  ultimately show ?thesis
    using assms(3) covers_le_first [of y zs pn] assms(1)
    by (auto simp: Cons rng_ok_append)
qed

text \<open>Away from the storage limit, the number joins the set and the floor stays.\<close>

lemma received_effect_addI:
  assumes "received_ok s" "rp_minimum s \<le> pn" "pn \<notin> covers (rp_ranges s)"
    and "rng_ok rs'" "length rs' \<le> RECEIVED_MAX_RANGES" "covers rs' = insert pn (covers (rp_ranges s))"
  shows "received_effect pn s (s\<lparr>rp_ranges := rs'\<rparr>) True"
proof -
  have floor: "rp_minimum s \<le> x" if "x \<in> covers rs'" for x
    using that assms covers_floor [OF assms(1)] by auto
  have "rp_minimum s \<le> fst r" if "r \<in> set rs'" for r
    using that floor [of "fst r"] rng_ok_nonempty [OF assms(4)] by (force simp: covers_def)
  moreover have "rs' \<noteq> []" using assms(6) by auto
  ultimately show ?thesis
    using assms floor by (auto simp: received_effect_def received_ok_def)
qed

lemma received_join:
  assumes "rng_ok (us @ (pn + 1, hi) # (lo, h) # vs)" "h + 1 = pn"
  shows "rng_ok (us @ (lo, hi) # vs)"
    "covers (us @ (lo, hi) # vs) = insert pn (covers (us @ (pn + 1, hi) # (lo, h) # vs))"
  using assms by (auto simp: rng_ok_append rng_ok_Cons)

lemma received_extend_down:
  assumes "rng_ok (us @ (pn + 1, hi) # ys)" "\<forall>r \<in> set ys. snd r + 1 < pn"
  shows "rng_ok (us @ (pn, hi) # ys)"
    "covers (us @ (pn, hi) # ys) = insert pn (covers (us @ (pn + 1, hi) # ys))"
  using assms by (auto simp: rng_ok_append rng_ok_Cons)

lemma received_extend_up:
  assumes "rng_ok (xs @ (lo, h) # vs)" "h + 1 = pn" "\<forall>r \<in> set xs. pn + 1 < fst r"
  shows "rng_ok (xs @ (lo, pn) # vs)"
    "covers (xs @ (lo, pn) # vs) = insert pn (covers (xs @ (lo, h) # vs))"
  using assms by (auto simp: rng_ok_append rng_ok_Cons)

lemma received_singleton:
  assumes "rng_ok (xs @ ys)" "\<forall>r \<in> set xs. pn + 1 < fst r" "\<forall>r \<in> set ys. snd r + 1 < pn"
  shows "rng_ok (xs @ (pn, pn) # ys)"
    "covers (xs @ (pn, pn) # ys) = insert pn (covers (xs @ ys))"
  using assms by (auto simp: rng_ok_append rng_ok_Cons)

text \<open>At the limit the oldest range, or the number itself when it would be the oldest, falls away.\<close>

lemma received_effect_evict:
  assumes ok: "received_ok s" and rs: "rp_ranges s = xs @ ys @ [(lo, hi)]"
    and len: "length (rp_ranges s) = RECEIVED_MAX_RANGES"
    and xs: "\<forall>r \<in> set xs. pn + 1 < fst r" and ys: "\<forall>r \<in> set (ys @ [(lo, hi)]). snd r + 1 < pn"
    and pn: "pn \<notin> covers (rp_ranges s)"
  shows "received_effect pn s (s\<lparr>rp_minimum := hi + 1, rp_ranges := xs @ (pn, pn) # ys\<rparr>) True"
proof -
  have all: "rng_ok (xs @ ys @ [(lo, hi)])" using ok by (simp add: received_ok_def rs)
  then have "rng_ok (xs @ ys)" by (auto simp: rng_ok_append)
  then have new: "rng_ok (xs @ (pn, pn) # ys)" "covers (xs @ (pn, pn) # ys) = insert pn (covers (xs @ ys))"
    using xs ys received_singleton [of xs ys pn] by auto
  have above: "\<forall>r \<in> set (xs @ ys). hi + 1 < fst r" using all by (auto simp: rng_ok_append)
  then have "\<forall>x \<in> covers (xs @ ys). hi + 1 \<le> x"
    using covers_above [OF \<open>rng_ok (xs @ ys)\<close>, of "hi + 1"] less_imp_le by blast
  then have "covers (xs @ (pn, pn) # ys) = {x \<in> insert pn (covers (rp_ranges s)). hi + 1 \<le> x}"
    using new ys by (auto simp: rs)
  moreover have "rp_minimum s \<le> hi + 1"
    using ok all by (auto simp: received_ok_def rs rng_ok_append rng_ok_Cons)
  moreover have "\<forall>r \<in> set (xs @ ys). hi + 1 \<le> fst r" using above less_imp_le by blast
  ultimately show ?thesis
    using new ys pn len
    by (auto simp: received_effect_def received_ok_def rs)
qed

lemma received_effect_too_old:
  assumes ok: "received_ok s" and len: "length (rp_ranges s) = RECEIVED_MAX_RANGES"
    and all: "\<forall>r \<in> set (rp_ranges s). pn + 1 < fst r" and minimum: "rp_minimum s \<le> pn"
    and pn: "pn \<notin> covers (rp_ranges s)"
  shows "received_effect pn s (s\<lparr>rp_minimum := pn + 1\<rparr>) False"
proof -
  have "\<forall>x \<in> covers (rp_ranges s). pn + 1 \<le> x"
    using all by (fastforce simp: covers_def)
  moreover have "rp_ranges s \<noteq> []" using len by (auto simp: RECEIVED_MAX_RANGES_def)
  ultimately show ?thesis
    using ok all minimum pn len by (auto simp: received_effect_def received_ok_def)
qed

text \<open>The code on the ranges split around the number.\<close>

lemma received_insert_split:
  assumes "rp_ranges s = xs @ ys" "length (takeWhile (\<lambda>r. fst r > pn) (xs @ ys)) = length xs"
    and "\<not> pn < rp_minimum s" "\<not> (ys \<noteq> [] \<and> pn \<le> snd (hd ys))"
  shows "received_insert pn s =
     (if xs \<noteq> [] \<and> fst (last xs) = pn + 1 then
        (if ys \<noteq> [] \<and> snd (hd ys) + 1 = pn
         then (s\<lparr>rp_ranges := butlast xs @ (fst (hd ys), snd (last xs)) # tl ys\<rparr>, True)
         else (s\<lparr>rp_ranges := butlast xs @ (pn, snd (last xs)) # ys\<rparr>, True))
      else if ys \<noteq> [] \<and> snd (hd ys) + 1 = pn
      then (s\<lparr>rp_ranges := xs @ (fst (hd ys), pn) # tl ys\<rparr>, True)
      else if length (xs @ ys) = RECEIVED_MAX_RANGES then
        (if ys = [] then (s\<lparr>rp_minimum := pn + 1\<rparr>, False)
         else (s\<lparr>rp_minimum := snd (last ys) + 1, rp_ranges := xs @ (pn, pn) # butlast ys\<rparr>, True))
      else (s\<lparr>rp_ranges := xs @ (pn, pn) # ys\<rparr>, True))"
proof (cases ys)
  case Nil
  then show ?thesis
    using assms
    by (cases xs rule: rev_cases)
      (simp_all add: received_insert_def Let_def insert_at_def list_update_append)
next
  case (Cons y zs)
  then show ?thesis
    using assms
    by (cases xs rule: rev_cases)
      (simp_all add: received_insert_def Let_def insert_at_def remove_at_def list_update_append
        nth_append butlast_append)
qed

definition splits :: "nat \<Rightarrow> received_packets \<Rightarrow> ranges \<Rightarrow> ranges \<Rightarrow> bool" where
  "splits pn s xs ys \<longleftrightarrow> received_ok s \<and> rp_minimum s \<le> pn \<and> pn \<notin> covers (rp_ranges s)
     \<and> rp_ranges s = xs @ ys \<and> length (takeWhile (\<lambda>r. fst r > pn) (xs @ ys)) = length xs
     \<and> (\<forall>r \<in> set xs. pn < fst r) \<and> (\<forall>r \<in> set ys. fst r \<le> pn)"

lemma splitsD:
  assumes "splits pn s xs ys"
  shows "rng_ok (xs @ ys)" "length (xs @ ys) \<le> RECEIVED_MAX_RANGES" "\<not> (ys \<noteq> [] \<and> pn \<le> snd (hd ys))"
  using assms covered_in_second [of xs ys pn] by (auto simp: splits_def received_ok_def)

lemma splits_insert:
  assumes "splits pn s xs ys"
  shows "received_insert pn s =
     (if xs \<noteq> [] \<and> fst (last xs) = pn + 1 then
        (if ys \<noteq> [] \<and> snd (hd ys) + 1 = pn
         then (s\<lparr>rp_ranges := butlast xs @ (fst (hd ys), snd (last xs)) # tl ys\<rparr>, True)
         else (s\<lparr>rp_ranges := butlast xs @ (pn, snd (last xs)) # ys\<rparr>, True))
      else if ys \<noteq> [] \<and> snd (hd ys) + 1 = pn
      then (s\<lparr>rp_ranges := xs @ (fst (hd ys), pn) # tl ys\<rparr>, True)
      else if length (xs @ ys) = RECEIVED_MAX_RANGES then
        (if ys = [] then (s\<lparr>rp_minimum := pn + 1\<rparr>, False)
         else (s\<lparr>rp_minimum := snd (last ys) + 1, rp_ranges := xs @ (pn, pn) # butlast ys\<rparr>, True))
      else (s\<lparr>rp_ranges := xs @ (pn, pn) # ys\<rparr>, True))"
  using assms splitsD(3) [OF assms] by (intro received_insert_split) (auto simp: splits_def)

lemma splits_addI:
  assumes "splits pn s xs ys"
    and "rng_ok rs'" "length rs' \<le> RECEIVED_MAX_RANGES" "covers rs' = insert pn (covers (xs @ ys))"
  shows "received_effect pn s (s\<lparr>rp_ranges := rs'\<rparr>) True"
  using assms by (intro received_effect_addI) (auto simp: splits_def)

lemma splits_far_above:
  assumes "splits pn s xs ys" "\<not> (xs \<noteq> [] \<and> fst (last xs) = pn + 1)"
  shows "\<forall>r \<in> set xs. pn + 1 < fst r"
proof (cases xs rule: rev_cases)
  case (snoc us x)
  then have "pn + 1 < fst x" using assms by (auto simp: splits_def)
  moreover have "\<forall>r \<in> set us. snd x + 1 < fst r" "fst x \<le> snd x"
    using splitsD(1) [OF assms(1)] by (auto simp: snoc rng_ok_append rng_ok_Cons)
  ultimately show ?thesis by (auto simp: snoc)
qed simp

lemma splits_far_below:
  assumes "splits pn s xs ys" "\<not> (ys \<noteq> [] \<and> snd (hd ys) + 1 = pn)"
  shows "\<forall>r \<in> set ys. snd r + 1 < pn"
  using assms(2) splitsD [OF assms(1)] by (cases ys) (auto simp: rng_ok_append rng_ok_Cons)

lemma received_effect_above:
  assumes sp: "splits pn s xs ys" and above: "xs \<noteq> [] \<and> fst (last xs) = pn + 1"
  shows "received_effect pn s (fst (received_insert pn s)) (snd (received_insert pn s))"
proof -
  note ok = splitsD [OF sp] and step = splits_insert [OF sp] and addI = splits_addI [OF sp]
  obtain us hi where u: "xs = us @ [(pn + 1, hi)]"
    using above by (metis append_butlast_last_id prod.collapse)
  show ?thesis
  proof (cases "ys \<noteq> [] \<and> snd (hd ys) + 1 = pn")
    case True
    then obtain lo h vs where y: "ys = (lo, h) # vs" and h: "Suc h = pn"
      by (metis Suc_eq_plus1 list.exhaust_sel prod.collapse)
    show ?thesis
      using step addI [of "us @ (lo, hi) # vs"] received_join [of us pn hi lo h vs] ok h
      by (simp add: u y)
  next
    case below: False
    have "received_insert pn s = (s\<lparr>rp_ranges := us @ (pn, hi) # ys\<rparr>, True)"
      by (simp only: step if_P [OF above] if_not_P [OF below]) (simp add: u)
    then show ?thesis
      using addI [of "us @ (pn, hi) # ys"] received_extend_down [of us pn hi ys] ok
        splits_far_below [OF sp below]
      by (simp add: u)
  qed
qed

lemma received_effect_alone:
  assumes sp: "splits pn s xs ys" and above: "\<not> (xs \<noteq> [] \<and> fst (last xs) = pn + 1)"
    and below: "\<not> (ys \<noteq> [] \<and> snd (hd ys) + 1 = pn)"
  shows "received_effect pn s (fst (received_insert pn s)) (snd (received_insert pn s))"
proof (cases "length (xs @ ys) = RECEIVED_MAX_RANGES")
  case full: True
  note far = splits_far_above [OF sp above] splits_far_below [OF sp below]
  show ?thesis
  proof (cases ys rule: rev_cases)
    case Nil
    have "received_insert pn s = (s\<lparr>rp_minimum := pn + 1\<rparr>, False)"
      by (simp only: splits_insert [OF sp] if_not_P [OF above] if_not_P [OF below] if_P [OF full] if_P [OF Nil])
    then show ?thesis
      using received_effect_too_old [of s pn] full far sp Nil
      by (auto simp: splits_def)
  next
    case (snoc zs r)
    have "received_insert pn s =
        (s\<lparr>rp_minimum := snd r + 1, rp_ranges := xs @ (pn, pn) # zs\<rparr>, True)"
      by (simp only: splits_insert [OF sp] if_not_P [OF above] if_not_P [OF below] if_P [OF full])
        (simp add: snoc)
    then show ?thesis
      using full far sp snoc
        received_effect_evict [of s xs zs "fst r" "snd r" pn]
      by (auto simp: splits_def)
  qed
next
  case False
  then have "received_insert pn s = (s\<lparr>rp_ranges := xs @ (pn, pn) # ys\<rparr>, True)"
    by (simp only: splits_insert [OF sp] if_not_P [OF above] if_not_P [OF below] if_False)
  then show ?thesis
    using False splits_addI [OF sp, of "xs @ (pn, pn) # ys"] splitsD [OF sp]
      received_singleton [of xs ys pn] splits_far_above [OF sp above] splits_far_below [OF sp below]
    by simp
qed

lemma received_effect_splits:
  assumes sp: "splits pn s xs ys"
  shows "received_effect pn s (fst (received_insert pn s)) (snd (received_insert pn s))"
proof (cases "xs \<noteq> [] \<and> fst (last xs) = pn + 1")
  case above: False
  show ?thesis
  proof (cases "ys \<noteq> [] \<and> snd (hd ys) + 1 = pn")
    case True
    then obtain lo h vs where y: "ys = (lo, h) # vs" and h: "Suc h = pn"
      by (metis Suc_eq_plus1 list.exhaust_sel prod.collapse)
    have "received_insert pn s = (s\<lparr>rp_ranges := xs @ (lo, pn) # vs\<rparr>, True)"
      by (simp only: splits_insert [OF sp] if_not_P [OF above] if_P [OF True]) (simp add: y)
    then show ?thesis
      using splits_addI [OF sp, of "xs @ (lo, pn) # vs"] h
        received_extend_up [of xs lo h vs pn] splitsD [OF sp] splits_far_above [OF sp above]
      by (simp add: y)
  qed (rule received_effect_alone [OF sp above])
qed (rule received_effect_above [OF sp])

lemma received_insert_known:
  assumes ok: "received_ok s" and pn: "pn \<in> covers (rp_ranges s)"
  shows "received_insert pn s = (s, False)"
proof -
  have rok: "rng_ok (rp_ranges s)" using ok by (simp add: received_ok_def)
  obtain xs ys where split: "rp_ranges s = xs @ ys"
    and at: "length (takeWhile (\<lambda>r. fst r > pn) (xs @ ys)) = length xs"
    and xs: "\<forall>r \<in> set xs. pn < fst r" and ys: "\<forall>r \<in> set ys. fst r \<le> pn"
    by (rule split_ranges [OF rok, of pn]) auto
  have "ys \<noteq> [] \<and> pn \<le> snd (hd ys)"
    using covered_in_second [of xs ys pn] rok xs ys pn by (simp add: split)
  then show ?thesis
    using at covers_floor [OF ok pn] by (auto simp: received_insert_def Let_def split hd_conv_nth nth_append)
qed

lemma received_insert_effect:
  assumes ok: "received_ok s"
  shows "received_effect pn s (fst (received_insert pn s)) (snd (received_insert pn s))"
proof -
  have rok: "rng_ok (rp_ranges s)" using ok by (simp add: received_ok_def)
  obtain xs ys where "rp_ranges s = xs @ ys"
    "length (takeWhile (\<lambda>r. fst r > pn) (xs @ ys)) = length xs"
    "\<forall>r \<in> set xs. pn < fst r" "\<forall>r \<in> set ys. fst r \<le> pn"
    by (rule split_ranges [OF rok, of pn]) auto
  then consider "pn < rp_minimum s" | "pn \<in> covers (rp_ranges s)" | "splits pn s xs ys"
    using ok unfolding splits_def by (meson not_less)
  then show ?thesis
  proof cases
    case 1
    then show ?thesis using received_unchanged [OF ok] by (simp add: received_insert_def)
  next
    case 2
    then show ?thesis using received_unchanged [OF ok] received_insert_known [OF ok] by simp
  qed (rule received_effect_splits)
qed

section \<open>The shared contract\<close>

lemmas received_facts = received_insert_effect [unfolded received_effect_def]

interpretation received: packet_history received_default "\<lambda>pn s. fst (received_insert pn s)"
  rp_ranges received_ok RECEIVED_MAX_RANGES
proof unfold_locales
  fix s pn x y assume s: "received_ok s"
  let ?s' = "fst (received_insert pn s)"
  show "received_ok ?s'" using received_facts [OF s] by blast
  show "rng_ok (rp_ranges s)" "length (rp_ranges s) \<le> RECEIVED_MAX_RANGES"
    using s by (auto simp: received_ok_def)
  show "covers (rp_ranges ?s') \<subseteq> insert pn (covers (rp_ranges s))"
    using received_facts [OF s] by blast
  show "x < y" if "x \<in> insert pn (covers (rp_ranges s))" "x \<notin> covers (rp_ranges ?s')"
    "y \<in> covers (rp_ranges ?s')"
    using received_facts [OF s, of pn] that by fastforce
  assume "pn \<notin> covers (rp_ranges ?s')"
  then have low: "pn < rp_minimum ?s'" using received_facts [OF s, of pn] by auto
  then have "rp_ranges ?s' \<noteq> []" using received_facts [OF s, of pn] by (auto simp: received_ok_def)
  moreover have "rp_ranges s \<noteq> []"
    using low received_facts [OF s, of pn] s by (fastforce simp: received_ok_def RECEIVED_MAX_RANGES_def)
  ultimately show "rp_ranges s \<noteq> [] \<and> rp_ranges ?s' \<noteq> []" by simp
qed (simp_all add: received_ok_def received_default_def)

section \<open>Exactly-once delivery\<close>

text \<open>The packet numbers of an arrival sequence that \<open>insert\<close> reports as new, in order.\<close>

fun received_accepted :: "nat list \<Rightarrow> received_packets \<Rightarrow> nat list" where
  "received_accepted [] s = []"
| "received_accepted (pn # pns) s =
     (case received_insert pn s of (s', new) \<Rightarrow>
        (if new then [pn] else []) @ received_accepted pns s')"

lemma received_accepted_fresh:
  assumes "received_ok s"
  shows "distinct (received_accepted pns s)
     \<and> set (received_accepted pns s) \<subseteq> set pns \<inter> {x. rp_minimum s \<le> x \<and> x \<notin> covers (rp_ranges s)}"
  using assms
proof (induction pns arbitrary: s)
  case (Cons pn pns)
  obtain s' new where step: "received_insert pn s = (s', new)" by force
  note eff = received_facts [OF Cons.prems, of pn, unfolded step fst_conv snd_conv]
  have "received_ok s'" using eff by blast
  note IH = Cons.IH [OF this]
  have old: "x \<notin> covers (rp_ranges s)" if "x \<in> set (received_accepted pns s')" for x
    using IH that eff by (auto dest!: subsetD)
  have floor: "rp_minimum s \<le> x" if "x \<in> set (received_accepted pns s')" for x
    using IH that eff by fastforce
  have fresh: "pn \<notin> set (received_accepted pns s')" if new using that eff IH by (auto dest!: subsetD)
  show ?case using IH old floor fresh eff by (auto simp: step)
qed simp

lemma finite_covers: "finite (covers rs)"
  by (auto simp: covers_def)

lemma length_le_card_covers: "rng_ok rs \<Longrightarrow> length rs \<le> card (covers rs)"
proof (induction rs)
  case (Cons r rs)
  then have ok: "rng_ok rs" "fst r \<le> snd r" and gap: "\<forall>q \<in> set rs. snd q + 1 < fst r"
    by (auto simp: rng_ok_Cons)
  have "fst r \<notin> covers rs" using gap by (fastforce simp: covers_def)
  then have "Suc (card (covers rs)) = card (insert (fst r) (covers rs))"
    by (simp add: finite_covers)
  also have "\<dots> \<le> card (covers (r # rs))"
    using ok by (intro card_mono finite_covers) (auto simp: covers_def)
  finally show ?case using Cons.IH [OF ok(1)] by simp
qed simp

lemma received_accepts_all:
  assumes "received_ok s" "rp_minimum s = 0" "card (covers (rp_ranges s) \<union> set pns) \<le> RECEIVED_MAX_RANGES"
  shows "set (received_accepted pns s) = set pns - covers (rp_ranges s)"
  using assms
proof (induction pns arbitrary: s)
  case (Cons pn pns)
  obtain s' new where step: "received_insert pn s = (s', new)" by force
  note eff = received_facts [OF Cons.prems(1), of pn, unfolded step fst_conv snd_conv]
  have few: "card (insert pn (covers (rp_ranges s))) \<le> RECEIVED_MAX_RANGES"
    by (rule order.trans [OF card_mono Cons.prems(3)]) (auto simp: finite_covers)
  have "rp_minimum s' = 0"
  proof (rule ccontr)
    assume moved: "rp_minimum s' \<noteq> 0"
    then have "RECEIVED_MAX_RANGES \<le> card (covers (rp_ranges s))"
      using eff Cons.prems length_le_card_covers [of "rp_ranges s"] by (simp add: received_ok_def)
    moreover have "pn \<notin> covers (rp_ranges s)"
      using moved Cons.prems(1,2) step received_insert_known [of s pn] by auto
    ultimately show False using few by (simp add: finite_covers)
  qed
  then have cov: "covers (rp_ranges s') = insert pn (covers (rp_ranges s))" "new = (pn \<notin> covers (rp_ranges s))"
    using eff by auto
  have "card (covers (rp_ranges s') \<union> set pns) \<le> RECEIVED_MAX_RANGES"
    using Cons.prems(3) by (simp add: cov)
  then have "set (received_accepted pns s') = set pns - covers (rp_ranges s')"
    using Cons.IH [of s'] eff \<open>rp_minimum s' = 0\<close> by blast
  then show ?case using cov by (auto simp: step)
qed simp

text \<open>
  C14. However packets are duplicated and reordered, \<open>insert\<close> reports each packet number as new at most
  once, so no authenticated packet is processed twice.
\<close>

theorem received_at_most_once:
  "distinct (received_accepted pns received_default)
   \<and> set (received_accepted pns received_default) \<subseteq> set pns"
  using received_accepted_fresh [OF received.fresh_invar, of pns] by blast

text \<open>
  As long as at most 256 different numbers have arrived, nothing is refused either: every number of
  the sequence is reported as new (once, at its first arrival).
\<close>

theorem received_at_least_once:
  assumes "card (set pns) \<le> 256"
  shows "set (received_accepted pns received_default) = set pns"
  using received_accepts_all [OF received.fresh_invar, of pns] assms
  by (simp add: received_default_def RECEIVED_MAX_RANGES_def)

theorem received_at_least_once_witness:
  "card (set [4, 2, 4, 3, 2 :: nat]) \<le> 256
   \<and> set (received_accepted [4, 2, 4, 3, 2] received_default) = {2, 3, 4}"
proof -
  have few: "card (set [4, 2, 4, 3, 2 :: nat]) \<le> 256"
    using card_length [of "[4, 2, 4, 3, 2 :: nat]"] by auto
  show ?thesis by (intro conjI few) (simp only: received_at_least_once [OF few], auto)
qed

text \<open>
  The effect of one insertion on the set the history stands for: the number joins it, numbers below
  the floor leave it, the floor only rises and only when all 256 ranges are in use, and the packet is
  new exactly when it was not in the set and is not below the floor.
\<close>

theorem received_insert_exact:
  assumes "received_ok s" "received_insert pn s = (s', new)"
  shows "received_ok s'
     \<and> covers (rp_ranges s') = {x \<in> insert pn (covers (rp_ranges s)). rp_minimum s' \<le> x}
     \<and> (new \<longleftrightarrow> pn \<notin> covers (rp_ranges s) \<and> rp_minimum s' \<le> pn)
     \<and> rp_minimum s \<le> rp_minimum s'
     \<and> (rp_minimum s' \<noteq> rp_minimum s \<longrightarrow> length (rp_ranges s) = 256)"
  using received_facts [OF assms(1), of pn] by (simp add: assms(2) RECEIVED_MAX_RANGES_def)

theorem received_insert_exact_witness:
  "covers (rp_ranges (fst (received_insert 6 \<lparr>rp_ranges = [(7, 9), (2, 5)], rp_minimum = 1\<rparr>))) = {2..9}"
proof -
  let ?s = "\<lparr>rp_ranges = [(7, 9), (2, 5)], rp_minimum = 1\<rparr>"
  have run: "received_insert 6 ?s = (\<lparr>rp_ranges = [(2, 9)], rp_minimum = 1\<rparr>, True)" by code_simp
  have ok: "received_ok ?s" by (simp add: received_ok_def rng_ok_Cons RECEIVED_MAX_RANGES_def)
  show ?thesis using received_insert_exact [OF ok run] run by (auto simp: covers_def)
qed

end
