(* ===== verification/Packet.thy ===== *)
theory Packet
  imports Prelude
begin

text \<open>
  Connection identifiers, packet number spaces, packet number compression and header protection
  (\<open>src/quic/packet.rs\<close>). The header protection key belongs to the TLS library and is a parameter:
  a function from the sample, the first byte and the packet number bytes to their masked forms.
\<close>

section \<open>Connection identifiers\<close>

definition MAX_CID_LEN :: nat where "MAX_CID_LEN = 20"

datatype packet_error = CidTooLong | TooShortToSample | HeaderProtectionFailed

text \<open>The bytes live in a fixed array of twenty, of which the first \<open>cid_len\<close> count.\<close>

record connection_id =
  cid_len :: nat
  cid_bytes :: bytes

definition cid_new :: "bytes \<Rightarrow> (packet_error, connection_id) result" where
  "cid_new src =
     (if length src > MAX_CID_LEN then Inl CidTooLong
      else Inr \<lparr>cid_len = length src, cid_bytes = src @ replicate (MAX_CID_LEN - length src) 0\<rparr>)"

text \<open>\<open>random\<close> fills the first eight bytes from the CSPRNG, whose output is the argument.\<close>

definition cid_random :: "bytes \<Rightarrow> connection_id" where
  "cid_random entropy = \<lparr>cid_len = 8, cid_bytes = entropy @ replicate (MAX_CID_LEN - 8) 0\<rparr>"

definition cid_as_slice :: "connection_id \<Rightarrow> bytes" where
  "cid_as_slice cid = take (cid_len cid) (cid_bytes cid)"

definition cid_ok :: "connection_id \<Rightarrow> bool" where
  "cid_ok cid \<longleftrightarrow> cid_len cid \<le> MAX_CID_LEN \<and> length (cid_bytes cid) = MAX_CID_LEN"

lemma cid_new_ok:
  assumes "cid_new src = Inr cid"
  shows "cid_ok cid" "cid_as_slice cid = src" "cid_len cid = length src"
  using assms by (auto simp: cid_new_def cid_ok_def cid_as_slice_def split: if_splits)

lemma cid_new_Inr: "length src \<le> MAX_CID_LEN \<Longrightarrow> \<exists>cid. cid_new src = Inr cid"
  by (simp add: cid_new_def)

lemma length_cid_as_slice: "cid_ok cid \<Longrightarrow> length (cid_as_slice cid) = cid_len cid"
  by (simp add: cid_ok_def cid_as_slice_def)

section \<open>Packet number spaces\<close>

datatype space = Initial | Handshake | Data

definition space_ALL :: "space list" where
  "space_ALL = [Initial, Handshake, Data]"

lemma space_ALL_complete: "s \<in> set space_ALL"
  by (cases s) (simp_all add: space_ALL_def)

section \<open>Packet number compression\<close>

definition encode_packet_number :: "nat \<Rightarrow> nat option \<Rightarrow> nat \<times> nat" where
  "encode_packet_number pn largest_acked =
     (let range = (case largest_acked of Some acked \<Rightarrow> (pn - acked) * 2 | None \<Rightarrow> pn + 1);
          len = (if range \<le> 0xff then 1
                 else if range \<le> 0xffff then 2
                 else if range \<le> 0xffffff then 3
                 else 4) in
      (pn AND drop_bit (64 - len * 8) (2 ^ 64 - 1), len))"

text \<open>\<open>!mask\<close> on a \<open>u64\<close> is the complement within 64 bits.\<close>

definition u64_not :: "nat \<Rightarrow> nat" where
  "u64_not x = 2 ^ 64 - 1 - x"

definition decode_packet_number :: "nat \<Rightarrow> nat \<Rightarrow> nat \<Rightarrow> nat" where
  "decode_packet_number largest_pn truncated pn_nbits =
     (let expected = largest_pn + 1;
          win = push_bit pn_nbits 1;
          hwin = win div 2;
          mask = win - 1;
          candidate = (expected AND u64_not mask) OR truncated in
      if candidate + hwin \<le> expected \<and> candidate + win < push_bit 62 1 then candidate + win
      else if candidate > expected + hwin \<and> candidate \<ge> win then candidate - win
      else candidate)"

lemma and_not_mask:
  assumes "x < 2 ^ 64" "n \<le> 64"
  shows "x AND u64_not (2 ^ n - 1) = x div 2 ^ n * 2 ^ n"
proof -
  have "(2::nat) ^ 64 = 2 ^ n * 2 ^ (64 - n)"
    using assms(2) by (metis le_add_diff_inverse power_add)
  then have "u64_not (2 ^ n - 1) = push_bit n (2 ^ (64 - n) - 1)"
    unfolding u64_not_def push_bit_eq_mult by (simp add: algebra_simps)
  also have "x AND \<dots> = push_bit n (drop_bit n x AND (2 ^ (64 - n) - 1))"
    by (rule bit_eqI) (auto simp: bit_simps)
  also have "drop_bit n x AND (2 ^ (64 - n) - 1) = x div 2 ^ n"
  proof -
    have "x div 2 ^ n < 2 ^ (64 - n)"
      using assms by (simp add: less_mult_imp_div_less flip: power_add)
    then show ?thesis by (simp only: mask_and_mod drop_bit_eq_div mod_less)
  qed
  finally show ?thesis by (simp add: push_bit_eq_mult)
qed

lemma decode_packet_number_arith:
  assumes "largest_pn < 2 ^ 62" "n \<le> 32" "t < 2 ^ n"
  shows "decode_packet_number largest_pn t n =
     (let e = largest_pn + 1; w = 2 ^ n; c = e div w * w + t in
      if c + w div 2 \<le> e \<and> c + w < 2 ^ 62 then c + w
      else if c > e + w div 2 \<and> c \<ge> w then c - w else c)"
proof -
  have "(largest_pn + 1) AND u64_not (2 ^ n - 1) = (largest_pn + 1) div 2 ^ n * 2 ^ n"
    using assms by (intro and_not_mask) auto
  then have "(largest_pn + 1) AND u64_not (2 ^ n - 1) OR t = (largest_pn + 1) div 2 ^ n * 2 ^ n + t"
    using push_bit_or_add [OF assms(3), of "(largest_pn + 1) div 2 ^ n"] by (simp add: push_bit_eq_mult)
  then show ?thesis
    by (simp only: decode_packet_number_def Let_def push_bit_eq_mult mult_1)
qed

lemma encode_packet_number_arith:
  assumes "encode_packet_number pn la = (t, len)"
  shows "1 \<le> len" "len \<le> 4" "t = pn mod 2 ^ (8 * len)"
    "la = Some a \<Longrightarrow> pn - a < 2 ^ 31 \<Longrightarrow> pn - a < 2 ^ (8 * len) div 2"
    "la = None \<Longrightarrow> pn < 2 ^ 32 - 1 \<Longrightarrow> pn < 2 ^ (8 * len)"
proof -
  have all: "1 \<le> len \<and> len \<le> 4 \<and> t = pn mod 2 ^ (8 * len)
     \<and> (la = Some a \<longrightarrow> pn - a < 2 ^ 31 \<longrightarrow> pn - a < 2 ^ (8 * len) div 2)
     \<and> (la = None \<longrightarrow> pn < 2 ^ 32 - 1 \<longrightarrow> pn < 2 ^ (8 * len))"
    using assms mask_and_mod [of pn 8] mask_and_mod [of pn 16] mask_and_mod [of pn 24]
      mask_and_mod [of pn 32]
    by (auto simp: encode_packet_number_def Let_def drop_bit_eq_div split: if_splits option.splits)
  show "1 \<le> len" "len \<le> 4" "t = pn mod 2 ^ (8 * len)"
    "la = Some a \<Longrightarrow> pn - a < 2 ^ 31 \<Longrightarrow> pn - a < 2 ^ (8 * len) div 2"
    "la = None \<Longrightarrow> pn < 2 ^ 32 - 1 \<Longrightarrow> pn < 2 ^ (8 * len)"
    using all by auto
qed

text \<open>
  The choice between the three candidates is right whenever the number lies in the half-open window
  around the expected one, or is the only candidate that is not negative.
\<close>

lemma candidate_choice:
  fixes e w h pn :: nat
  assumes w: "w = 2 * h" "0 < h" and pn: "pn < 2 ^ 62" and late: "e < pn + h"
    and early: "pn \<le> e + h \<or> pn < w"
  shows "(let c = e div w * w + pn mod w in
      if c + h \<le> e \<and> c + w < 2 ^ 62 then c + w
      else if c > e + h \<and> c \<ge> w then c - w else c) = pn"
proof -
  define q where "q = e div w"
  define p where "p = pn div w"
  define t where "t = pn mod w"
  have e: "q * w \<le> e" "e < q * w + w"
    using w dividend_less_div_times [of w e] by (auto simp: q_def)
  have p: "pn = p * w + t" by (simp add: p_def t_def)
  have t: "t < w" using w by (simp add: t_def)
  have "p * w < q * w + 2 * w" 
    using early e p t w by linarith
  then have "p * w < (q + 2) * w" by (simp add: algebra_simps)
  then have p_le: "p < q + 2" by (rule mult_less_cancel2 [THEN iffD1, THEN conjunct2])
  have "q * w < p * w + 2 * w" using late e p t w by linarith
  then have "q * w < (p + 2) * w" by (simp add: algebra_simps)
  then have q_le: "q < p + 2" by (rule mult_less_cancel2 [THEN iffD1, THEN conjunct2])
  consider "p = q" | "p = q + 1" | "q = p + 1" using p_le q_le by linarith
  then show ?thesis
  proof cases
    case 1
    then have c: "q * w + t = pn" using p by simp
    show ?thesis using late early w(1)
      unfolding Let_def q_def [symmetric] t_def [symmetric] c by auto
  next
    case 2
    then have c: "q * w + t + w = pn" using p by simp
    have "pn \<ge> w" using 2 p by simp
    then have near: "pn \<le> e + h" using early by simp
    show ?thesis using near c w(1) pn
      unfolding Let_def q_def [symmetric] t_def [symmetric] by auto
  next
    case 3
    then have c: "q * w + t = pn + w" using p by simp
    show ?thesis using late w(1)
      unfolding Let_def q_def [symmetric] t_def [symmetric] c by auto
  qed
qed

lemma packet_number_choice:
  assumes enc: "encode_packet_number pn la = (t, len)" and pn: "pn < 2 ^ 62"
    and sent: "case la of Some acked \<Rightarrow> acked \<le> pn \<and> acked \<le> largest \<and> pn - acked < 2 ^ 31
               | None \<Rightarrow> pn < 2 ^ 32 - 1"
    and largest: "largest < 2 ^ 62" "largest + 1 < pn + 2 ^ (8 * len) div 2"
  shows "decode_packet_number largest t (8 * len) = pn"
proof -
  let ?w = "(2::nat) ^ (8 * len)"
  note len = encode_packet_number_arith [OF enc]
  have t: "t < ?w" using len(3) by simp
  have w: "?w = 2 * (?w div 2)" using len(1) by (cases len) auto
  have "pn \<le> largest + 1 + ?w div 2 \<or> pn < ?w"
  proof (cases la)
    case None
    then show ?thesis using sent len(5) by simp
  next
    case (Some a)
    then have "pn - a < ?w div 2" using sent by (intro len(4)) auto
    moreover have "a \<le> pn" "a \<le> largest" using Some sent by simp_all
    ultimately show ?thesis by linarith
  qed
  then have "(let c = (largest + 1) div ?w * ?w + pn mod ?w in
      if c + ?w div 2 \<le> largest + 1 \<and> c + ?w < 2 ^ 62 then c + ?w
      else if c > largest + 1 + ?w div 2 \<and> c \<ge> ?w then c - ?w else c) = pn"
    using w pn largest(2) t by (intro candidate_choice) (auto intro: Nat.gr0I)
  moreover have "8 * len \<le> 32" using len(2) by simp
  ultimately show ?thesis
    using decode_packet_number_arith [OF largest(1) _ t] by (simp only: len(3) Let_def)
qed

text \<open>
  C34. Packet number compression is lossless. Whatever the receiver has seen, as long as it has seen
  the packet the sender takes as acknowledged, fewer than \<open>2 ^ 31\<close> numbers lie between that one and
  the packet, and the packet is not overtaken by half a window of later ones, the truncated number
  decodes to the number that was sent. With nothing acknowledged yet the whole number is on the wire.
\<close>

theorem packet_number_round_trip:
  assumes "encode_packet_number pn la = (t, len)" "pn < 2 ^ 62" "largest < 2 ^ 62"
    and "case la of Some acked \<Rightarrow> acked \<le> pn \<and> acked \<le> largest \<and> pn - acked < 2 ^ 31
         | None \<Rightarrow> pn < 2 ^ 32 - 1"
    and "largest + 1 < pn + 2 ^ (8 * len) div 2"
  shows "decode_packet_number largest t (8 * len) = pn"
  using packet_number_choice [OF assms(1,2,4,3,5)] .

theorem packet_number_round_trip_witness:
  "encode_packet_number 0xac5c02 (Some 0xabe8b3) = (0x5c02, 2)
   \<and> decode_packet_number 0xac5b00 0x5c02 16 = 0xac5c02"
proof -
  have enc: "encode_packet_number 0xac5c02 (Some 0xabe8b3) = (0x5c02, 2)"
    by (simp add: encode_packet_number_def drop_bit_eq_div)
  show ?thesis using enc packet_number_round_trip [OF enc, where largest = "0xac5b00"] by simp
qed

section \<open>Header protection\<close>

definition SAMPLE_OFFSET :: nat where "SAMPLE_OFFSET = 4"
definition SAMPLE_LEN :: nat where "SAMPLE_LEN = 16"

text \<open>
  \<open>encrypt_in_place\<close> and \<open>decrypt_in_place\<close> take the sample, the first byte and the packet number
  bytes; \<open>None\<close> is their error. The slices of the source are inside the packet once its length has been
  checked, since \<open>pn_offset\<close> is past the first byte.
\<close>

type_synonym hp_mask = "bytes \<Rightarrow> byte \<Rightarrow> bytes \<Rightarrow> (byte \<times> bytes) option"

definition replace_slice :: "bytes \<Rightarrow> nat \<Rightarrow> bytes \<Rightarrow> bytes" where
  "replace_slice xs at ys = take at xs @ ys @ drop (at + length ys) xs"

definition protect_header ::
    "hp_mask \<Rightarrow> bytes \<Rightarrow> nat \<Rightarrow> nat \<Rightarrow> (packet_error, bytes) result" where
  "protect_header encrypt packet pn_offset pn_len =
     (let sample_start = pn_offset + SAMPLE_OFFSET in
      if length packet < sample_start + SAMPLE_LEN then Inl TooShortToSample
      else
        let sample = take SAMPLE_LEN (drop sample_start packet);
            pn = take pn_len (drop pn_offset packet) in
        case encrypt sample (hd packet) pn of
          None \<Rightarrow> Inl HeaderProtectionFailed
        | Some (first, pn') \<Rightarrow> Inr (replace_slice (first # tl packet) pn_offset pn'))"

definition unprotect_header ::
    "hp_mask \<Rightarrow> bytes \<Rightarrow> nat \<Rightarrow> (packet_error, bytes \<times> byte \<times> nat) result" where
  "unprotect_header decrypt packet pn_offset =
     (let sample_start = pn_offset + SAMPLE_OFFSET in
      if length packet < sample_start + SAMPLE_LEN then Inl TooShortToSample
      else
        let sample = take SAMPLE_LEN (drop sample_start packet);
            pn = take 4 (drop pn_offset packet) in
        case decrypt sample (hd packet) pn of
          None \<Rightarrow> Inl HeaderProtectionFailed
        | Some (first, pn') \<Rightarrow>
            Inr (replace_slice (first # tl packet) pn_offset pn', first, unat (first AND 0x03) + 1))"

text \<open>
  What the TLS library documents of a header protection key: masking keeps the number of bytes, and
  unmasking with the same sample restores the first byte and as many packet number bytes as the first
  byte announces, leaving the bytes behind them alone. Both refuse more than four bytes, so nothing is
  said of those.
\<close>

definition hp_inverse :: "hp_mask \<Rightarrow> hp_mask \<Rightarrow> bool" where
  "hp_inverse encrypt decrypt \<longleftrightarrow>
     (\<forall>sample first pn first' pn' behind.
        length sample = SAMPLE_LEN \<longrightarrow> length pn = unat (first AND 0x03) + 1 \<longrightarrow>
        encrypt sample first pn = Some (first', pn') \<longrightarrow> length (pn @ behind) \<le> 4 \<longrightarrow>
        length pn' = length pn \<and> decrypt sample first' (pn' @ behind) = Some (first, pn @ behind))"

lemma hp_inverseD:
  assumes "hp_inverse encrypt decrypt" "length sample = SAMPLE_LEN" "length pn = unat (first AND 0x03) + 1"
    and "encrypt sample first pn = Some (first', pn')"
  shows "length pn' = length pn"
    "length (pn @ behind) \<le> 4 \<Longrightarrow> decrypt sample first' (pn' @ behind) = Some (first, pn @ behind)"
proof -
  have "unat (first AND 0x03) < 4" using mask_and_mod [of "unat first" 2] by (simp add: unat_and_mask)
  then have "length (pn @ []) \<le> 4" using assms(3) by simp
  then show "length pn' = length pn" using assms unfolding hp_inverse_def by blast
qed (use assms in \<open>unfold hp_inverse_def, blast\<close>)

text \<open>A packet long enough to sample, cut at the packet number.\<close>

lemma packet_parts:
  assumes "0 < pn_offset" "pn_len \<le> 4" "pn_offset + 20 \<le> length packet"
  obtains p a pn b c where "packet = p # a @ pn @ b @ c" "pn_offset = Suc (length a)"
    "length pn = pn_len" "length b = 4 - pn_len" "16 \<le> length c"
proof -
  obtain p ps where packet: "packet = p # ps" using assms(3) by (cases packet) auto
  obtain k where k: "pn_offset = Suc k" using assms(1) by (cases pn_offset) auto
  let ?a = "take k ps" and ?r = "drop k ps"
  have "ps = ?a @ take pn_len ?r @ take (4 - pn_len) (drop pn_len ?r) @ drop (4 - pn_len) (drop pn_len ?r)"
    by (metis append_take_drop_id)
  then show thesis using assms k packet
    by (intro that [of p ?a "take pn_len ?r" "take (4 - pn_len) (drop pn_len ?r)"
        "drop (4 - pn_len) (drop pn_len ?r)"]) auto
qed

lemma drop_offset: "drop (Suc (length a) + n) (p # a @ xs) = drop n xs"
  by simp

lemma unprotect_protect:
  assumes hp: "hp_inverse encrypt decrypt" and off: "0 < pn_offset"
    and len: "pn_len = unat (hd packet AND 0x03) + 1"
    and prot: "protect_header encrypt packet pn_offset pn_len = Inr packet'"
  shows "unprotect_header decrypt packet' pn_offset = Inr (packet, hd packet, pn_len)"
proof -
  have "unat (hd packet AND 0x03) < 4"
    using mask_and_mod [of "unat (hd packet)" 2] by (simp add: unat_and_mask)
  then have pn4: "pn_len \<le> 4" using len by simp
  have room: "pn_offset + 20 \<le> length packet"
    using prot by (auto simp: protect_header_def SAMPLE_OFFSET_def SAMPLE_LEN_def Let_def split: if_splits)
  obtain p a pn b c where packet: "packet = p # a @ pn @ b @ c" and at: "pn_offset = Suc (length a)"
    and lens: "length pn = pn_len" "length b = 4 - pn_len" "16 \<le> length c"
    by (rule packet_parts [OF off pn4 room])
  have at_sample: "drop (pn_offset + SAMPLE_OFFSET) (x # a @ ns @ b @ c) = c" if "length ns = pn_len" for x ns
    using that lens pn4 by (simp only: at drop_offset SAMPLE_OFFSET_def) simp
  have at_pn: "drop pn_offset (x # a @ xs) = xs" for x xs by (simp add: at)
  have swap: "replace_slice (x # a @ xs @ ys) pn_offset xs' = x # a @ xs' @ ys"
    if "length xs' = length xs" for x xs xs' ys
    using that by (simp add: at replace_slice_def)
  have long: "\<not> length packet < pn_offset + SAMPLE_OFFSET + SAMPLE_LEN"
    using room by (simp add: SAMPLE_OFFSET_def SAMPLE_LEN_def)
  have enc: "protect_header encrypt packet pn_offset pn_len =
      (case encrypt (take SAMPLE_LEN c) p pn of None \<Rightarrow> Inl HeaderProtectionFailed
       | Some (first, pn') \<Rightarrow> Inr (replace_slice (first # a @ pn @ b @ c) pn_offset pn'))"
    using long lens by (simp add: protect_header_def packet at_sample at_pn split: option.split)
  then obtain first pn' where e: "encrypt (take SAMPLE_LEN c) p pn = Some (first, pn')"
    and packet': "packet' = replace_slice (first # a @ pn @ b @ c) pn_offset pn'"
    using prot by (auto split: option.splits)
  have len': "length pn' = pn_len" and dec: "decrypt (take SAMPLE_LEN c) first (pn' @ b) = Some (p, pn @ b)"
    using hp_inverseD(1) [OF hp _ _ e] hp_inverseD(2) [OF hp _ _ e, of b] lens len pn4 by (simp_all add: packet SAMPLE_LEN_def)
  have unprot: "unprotect_header decrypt (first # a @ pn' @ b @ c) pn_offset =
      Inr (replace_slice (p # a @ (pn' @ b) @ c) pn_offset (pn @ b), p, unat (p AND 0x03) + 1)"
    using long lens len' dec pn4 by (simp add: unprotect_header_def packet at_sample at_pn)
  show ?thesis
    using lens len' len swap [of pn' pn first "b @ c"] swap [of "pn @ b" "pn' @ b" p c] unprot
    by (simp add: packet' packet)
qed

text \<open>
  Removing header protection undoes applying it: from the protected packet the receiver gets back
  the very bytes, the clear first byte and the packet number length, although it has to unmask four
  bytes before it knows how many of them are the packet number.
\<close>

theorem header_protection_round_trip:
  assumes "hp_inverse encrypt decrypt" "0 < pn_offset" "pn_len = unat (hd packet AND 0x03) + 1"
    and "protect_header encrypt packet pn_offset pn_len = Inr packet'"
  shows "unprotect_header decrypt packet' pn_offset = Inr (packet, hd packet, pn_len)"
  using unprotect_protect [OF assms] .

text \<open>
  A header protection key for the witness, the way the AES and ChaCha keys work: the first five bytes of the sample are
  the mask, four bits of a long header's first byte are masked and five of a short one's, and samples and packet numbers
  of another size are refused. \<open>masked\<close> says whether the first byte comes masked, and so where the length of the packet
  number is read.
\<close>

definition xor_bytes :: "bytes \<Rightarrow> bytes \<Rightarrow> bytes" where
  "xor_bytes ms bs = map2 (XOR) bs (take (length bs) ms)"

definition sample_key :: "bool \<Rightarrow> hp_mask" where
  "sample_key masked sample first pn =
     (if length sample \<noteq> SAMPLE_LEN \<or> length pn > 4 then None
      else
        let first' = first XOR (sample ! 0 AND (if first AND 0x80 \<noteq> 0 then 0x0f else 0x1f));
            n = unat ((if masked then first' else first) AND 0x03) + 1 in
        Some (first', xor_bytes (take 4 (drop 1 sample)) (take n pn) @ drop n pn))"

lemma and_3_lt: "unat (b AND 3) < 4" for b :: byte
  using mask_and_mod [of "unat b" 2] by (simp add: unat_and_mask)

lemma xor_bytes_twice:
  assumes "length bs \<le> length ms"
  shows "xor_bytes ms (xor_bytes ms bs) = bs"
  using assms by (intro nth_equalityI) (auto simp: xor_bytes_def xor.assoc)

lemma high_bit_kept: "(first XOR (m AND x)) AND 0x80 = first AND 0x80" if "x = 0x0f \<or> x = 0x1f" for first m x :: byte
proof -
  have "(m AND x) AND 0x80 = m AND (x AND 0x80)" by (simp add: and.assoc)
  then have "(m AND x) AND 0x80 = 0" using that by auto
  then show ?thesis by (simp add: and.commute [of _ "0x80"] bit.conj_xor_distrib)
qed

lemma sample_key_inverse: "hp_inverse (sample_key False) (sample_key True)"
  unfolding hp_inverse_def
proof (intro allI impI)
  fix sample first pn first' pn' behind
  assume sample: "length sample = SAMPLE_LEN" and pn: "length pn = unat (first AND 0x03) + 1"
    and enc: "sample_key False sample first pn = Some (first', pn')" and short: "length (pn @ behind) \<le> 4"
  define x where "x = (if first AND 0x80 \<noteq> 0 then 0x0f else 0x1f :: byte)"
  have m: "length pn \<le> length (take 4 (drop 1 sample))" using short sample by (simp add: SAMPLE_LEN_def)
  have first': "first' = first XOR (sample ! 0 AND x)" and pn': "pn' = xor_bytes (take 4 (drop 1 sample)) pn"
    using enc sample pn short by (simp_all add: sample_key_def x_def Let_def)
  have "first' AND 0x80 = first AND 0x80" unfolding first' by (rule high_bit_kept) (simp add: x_def)
  then have undone: "first' XOR (sample ! 0 AND (if first' AND 0x80 \<noteq> 0 then 0x0f else 0x1f)) = first"
    by (simp only: x_def [symmetric]) (simp add: first' xor.assoc)
  have "length pn' = length pn" using m by (simp add: pn' xor_bytes_def)
  then show "length pn' = length pn \<and> sample_key True sample first' (pn' @ behind) = Some (first, pn @ behind)"
    using sample short pn xor_bytes_twice [OF m] unfolding sample_key_def Let_def undone by (simp add: pn')
qed

theorem header_protection_round_trip_witness:
  "\<exists>packet'. protect_header (sample_key False) (0x41 # replicate 29 7) 5 2 = Inr packet'
     \<and> unprotect_header (sample_key True) packet' 5 = Inr (0x41 # replicate 29 7, 0x41, 2)"
proof -
  obtain packet' where p: "protect_header (sample_key False) (0x41 # replicate 29 7) 5 2 = Inr packet'"
    by (simp add: protect_header_def sample_key_def SAMPLE_OFFSET_def SAMPLE_LEN_def)
  then show ?thesis using header_protection_round_trip [OF sample_key_inverse _ _ p] by simp
qed

end
