(* ===== verification/Frame.thy ===== *)
theory Frame
  imports Varint Packet Ranges
begin

text \<open>
  QUIC frames (\<open>src/quic/frame.rs\<close>, RFC 9000 Section 19): the frame iterator over a decrypted payload,
  the walk over the ranges of an ACK frame, and the encoders of the frames the client sends. The cursor
  of the source (a buffer and a position) is the rest of the buffer from that position on.
\<close>

section \<open>Frame types\<close>

abbreviation (input) PADDING :: nat where "PADDING \<equiv> 0x00"
abbreviation (input) PING :: nat where "PING \<equiv> 0x01"
abbreviation (input) ACK :: nat where "ACK \<equiv> 0x02"
abbreviation (input) ACK_ECN :: nat where "ACK_ECN \<equiv> 0x03"
abbreviation (input) RESET_STREAM :: nat where "RESET_STREAM \<equiv> 0x04"
abbreviation (input) STOP_SENDING :: nat where "STOP_SENDING \<equiv> 0x05"
abbreviation (input) CRYPTO :: nat where "CRYPTO \<equiv> 0x06"
abbreviation (input) NEW_TOKEN :: nat where "NEW_TOKEN \<equiv> 0x07"
abbreviation (input) STREAM_BASE :: nat where "STREAM_BASE \<equiv> 0x08"
abbreviation (input) STREAM_MAX :: nat where "STREAM_MAX \<equiv> 0x0f"
abbreviation (input) MAX_DATA :: nat where "MAX_DATA \<equiv> 0x10"
abbreviation (input) MAX_STREAM_DATA :: nat where "MAX_STREAM_DATA \<equiv> 0x11"
abbreviation (input) MAX_STREAMS_BIDI :: nat where "MAX_STREAMS_BIDI \<equiv> 0x12"
abbreviation (input) MAX_STREAMS_UNI :: nat where "MAX_STREAMS_UNI \<equiv> 0x13"
abbreviation (input) DATA_BLOCKED :: nat where "DATA_BLOCKED \<equiv> 0x14"
abbreviation (input) STREAM_DATA_BLOCKED :: nat where "STREAM_DATA_BLOCKED \<equiv> 0x15"
abbreviation (input) STREAMS_BLOCKED_BIDI :: nat where "STREAMS_BLOCKED_BIDI \<equiv> 0x16"
abbreviation (input) STREAMS_BLOCKED_UNI :: nat where "STREAMS_BLOCKED_UNI \<equiv> 0x17"
abbreviation (input) NEW_CONNECTION_ID :: nat where "NEW_CONNECTION_ID \<equiv> 0x18"
abbreviation (input) RETIRE_CONNECTION_ID :: nat where "RETIRE_CONNECTION_ID \<equiv> 0x19"
abbreviation (input) PATH_CHALLENGE :: nat where "PATH_CHALLENGE \<equiv> 0x1a"
abbreviation (input) PATH_RESPONSE :: nat where "PATH_RESPONSE \<equiv> 0x1b"
abbreviation (input) CONNECTION_CLOSE_QUIC :: nat where "CONNECTION_CLOSE_QUIC \<equiv> 0x1c"
abbreviation (input) CONNECTION_CLOSE_APP :: nat where "CONNECTION_CLOSE_APP \<equiv> 0x1d"
abbreviation (input) HANDSHAKE_DONE :: nat where "HANDSHAKE_DONE \<equiv> 0x1e"
abbreviation (input) APPLICATION_ERROR :: nat where "APPLICATION_ERROR \<equiv> 0x0c"
abbreviation (input) STREAM_FIN :: nat where "STREAM_FIN \<equiv> 0x01"
abbreviation (input) STREAM_LEN :: nat where "STREAM_LEN \<equiv> 0x02"
abbreviation (input) STREAM_OFF :: nat where "STREAM_OFF \<equiv> 0x04"

text \<open>Field order is the source's: \<open>Ack largest delay first_range ranges range_count\<close> and so on.\<close>

datatype frame =
    Padding
  | Ping
  | Ack nat nat nat bytes nat
  | ResetStream nat nat nat
  | StopSending nat nat
  | Crypto nat bytes
  | NewToken
  | Stream nat nat bool bytes
  | MaxData nat
  | MaxStreamData nat nat
  | MaxStreams bool nat
  | DataBlocked nat
  | StreamDataBlocked nat nat
  | StreamsBlocked bool nat
  | NewConnectionId nat nat bytes bytes
  | RetireConnectionId nat
  | PathChallenge bytes
  | PathResponse bytes
  | Close bool nat bytes
  | HandshakeDone

fun ack_eliciting :: "frame \<Rightarrow> bool" where
  "ack_eliciting Padding = False"
| "ack_eliciting (Ack _ _ _ _ _) = False"
| "ack_eliciting (Close _ _ _) = False"
| "ack_eliciting _ = True"

section \<open>Reading\<close>

datatype frame_error = TruncatedVarint | PastEnd | OversizedCid | UnknownFrame nat

definition frame_varint :: "bytes \<Rightarrow> (frame_error, nat \<times> bytes) result" where
  "frame_varint buf =
     (if buf \<noteq> [] \<and> hd buf < 0x40 then Inr (unat (hd buf), tl buf)
      else case get_varint buf of
        None \<Rightarrow> Inl TruncatedVarint
      | Some (v, n) \<Rightarrow> Inr (v, drop n buf))"

definition frame_take :: "nat \<Rightarrow> bytes \<Rightarrow> (frame_error, bytes \<times> bytes) result" where
  "frame_take n buf = (if length buf < n then Inl PastEnd else Inr (take n buf, drop n buf))"

text \<open>The loop that steps over the gap and length pairs of an ACK frame.\<close>

primrec skip_ranges :: "nat \<Rightarrow> bytes \<Rightarrow> (frame_error, bytes) result" where
  "skip_ranges 0 buf = Inr buf"
| "skip_ranges (Suc n) buf =
     rbind (frame_varint buf) (\<lambda>(_, buf).
     rbind (frame_varint buf) (\<lambda>(_, buf). skip_ranges n buf))"

definition skip_ecn :: "bytes \<Rightarrow> (frame_error, bytes) result" where
  "skip_ecn buf =
     rbind (frame_varint buf) (\<lambda>(_, buf).
     rbind (frame_varint buf) (\<lambda>(_, buf).
     rbind (frame_varint buf) (\<lambda>(_, buf). Inr buf)))"

definition ack_frame :: "nat \<Rightarrow> bytes \<Rightarrow> (frame_error, frame \<times> bytes) result" where
  "ack_frame kind buf =
     rbind (frame_varint buf) (\<lambda>(largest, buf).
     rbind (frame_varint buf) (\<lambda>(delay, buf).
     rbind (frame_varint buf) (\<lambda>(range_count, buf).
     rbind (frame_varint buf) (\<lambda>(first_range, start).
     rbind (skip_ranges range_count start) (\<lambda>buf.
     let ranges = take (length start - length buf) start in
     rbind (if kind = ACK_ECN then skip_ecn buf else Inr buf) (\<lambda>buf.
       Inr (Ack largest delay first_range ranges range_count, buf)))))))"

definition stream_frame :: "nat \<Rightarrow> bytes \<Rightarrow> (frame_error, frame \<times> bytes) result" where
  "stream_frame kind buf =
     rbind (frame_varint buf) (\<lambda>(id, buf).
     rbind (if kind AND STREAM_OFF \<noteq> 0 then frame_varint buf else Inr (0, buf)) (\<lambda>(offset, buf).
     rbind (if kind AND STREAM_LEN \<noteq> 0
            then rbind (frame_varint buf) (\<lambda>(len, buf). frame_take len buf)
            else frame_take (length buf) buf) (\<lambda>(data, buf).
       Inr (Stream id offset (kind AND STREAM_FIN \<noteq> 0) data, buf))))"

text \<open>The reads of one, two and three consecutive integers that most arms consist of.\<close>

definition read1 :: "(nat \<Rightarrow> frame) \<Rightarrow> bytes \<Rightarrow> (frame_error, frame \<times> bytes) result" where
  "read1 f buf = rbind (frame_varint buf) (\<lambda>(a, buf). Inr (f a, buf))"

definition read2 :: "(nat \<Rightarrow> nat \<Rightarrow> frame) \<Rightarrow> bytes \<Rightarrow> (frame_error, frame \<times> bytes) result" where
  "read2 f buf = rbind (frame_varint buf) (\<lambda>(a, buf). read1 (f a) buf)"

definition read3 :: "(nat \<Rightarrow> nat \<Rightarrow> nat \<Rightarrow> frame) \<Rightarrow> bytes \<Rightarrow> (frame_error, frame \<times> bytes) result" where
  "read3 f buf = rbind (frame_varint buf) (\<lambda>(a, buf). read2 (f a) buf)"

definition read_bytes :: "nat \<Rightarrow> (bytes \<Rightarrow> frame) \<Rightarrow> bytes \<Rightarrow> (frame_error, frame \<times> bytes) result" where
  "read_bytes n f buf = rbind (frame_take n buf) (\<lambda>(data, buf). Inr (f data, buf))"

definition read_counted :: "(bytes \<Rightarrow> frame) \<Rightarrow> bytes \<Rightarrow> (frame_error, frame \<times> bytes) result" where
  "read_counted f buf = rbind (frame_varint buf) (\<lambda>(len, buf). read_bytes len f buf)"

definition new_connection_id_frame :: "bytes \<Rightarrow> (frame_error, frame \<times> bytes) result" where
  "new_connection_id_frame buf =
     rbind (frame_varint buf) (\<lambda>(seq, buf).
     rbind (frame_varint buf) (\<lambda>(retire_prior_to, buf).
     rbind (frame_take 1 buf) (\<lambda>(one, buf).
     let len = unat (hd one) in
     if len > MAX_CID_LEN then Inl OversizedCid
     else rbind (frame_take len buf) (\<lambda>(cid, buf).
          rbind (frame_take 16 buf) (\<lambda>(reset_token, buf).
            Inr (NewConnectionId seq retire_prior_to cid reset_token, buf))))))"

definition close_frame :: "nat \<Rightarrow> bytes \<Rightarrow> (frame_error, frame \<times> bytes) result" where
  "close_frame kind buf =
     rbind (frame_varint buf) (\<lambda>(error, buf).
     rbind (if kind = CONNECTION_CLOSE_QUIC then frame_varint buf else Inr (0, buf)) (\<lambda>(_, buf).
       read_counted (Close (kind = CONNECTION_CLOSE_APP) error) buf))"

definition rare_frame :: "nat \<Rightarrow> bytes \<Rightarrow> (frame_error, frame \<times> bytes) result" where
  "rare_frame kind buf =
     (if kind = RESET_STREAM then read3 ResetStream buf
      else if kind = STOP_SENDING then read2 StopSending buf
      else if kind = CRYPTO then
        rbind (frame_varint buf) (\<lambda>(offset, buf). read_counted (Crypto offset) buf)
      else if kind = NEW_TOKEN then read_counted (\<lambda>_. NewToken) buf
      else if kind = MAX_STREAM_DATA then read2 MaxStreamData buf
      else if kind = DATA_BLOCKED then read1 DataBlocked buf
      else if kind = STREAM_DATA_BLOCKED then read2 StreamDataBlocked buf
      else if kind = STREAMS_BLOCKED_BIDI \<or> kind = STREAMS_BLOCKED_UNI then
        read1 (StreamsBlocked (kind = STREAMS_BLOCKED_UNI)) buf
      else if kind = NEW_CONNECTION_ID then new_connection_id_frame buf
      else if kind = RETIRE_CONNECTION_ID then read1 RetireConnectionId buf
      else if kind = PATH_CHALLENGE then read_bytes 8 PathChallenge buf
      else if kind = PATH_RESPONSE then read_bytes 8 PathResponse buf
      else if kind = CONNECTION_CLOSE_QUIC \<or> kind = CONNECTION_CLOSE_APP then close_frame kind buf
      else if kind = HANDSHAKE_DONE then Inr (HandshakeDone, buf)
      else Inl (UnknownFrame kind))"

definition next_frame :: "bytes \<Rightarrow> (frame_error, frame \<times> bytes) result" where
  "next_frame buf =
     rbind (frame_varint buf) (\<lambda>(kind, buf).
       if kind = PADDING then Inr (Padding, dropWhile (\<lambda>b. b = 0) buf)
       else if kind = PING then Inr (Ping, buf)
       else if kind = ACK \<or> kind = ACK_ECN then ack_frame kind buf
       else if STREAM_BASE \<le> kind \<and> kind \<le> STREAM_MAX then stream_frame kind buf
       else if kind = MAX_DATA then read1 MaxData buf
       else if kind = MAX_STREAMS_BIDI \<or> kind = MAX_STREAMS_UNI then
         read1 (MaxStreams (kind = MAX_STREAMS_UNI)) buf
       else rare_frame kind buf)"

text \<open>\<open>Iterator::next\<close>: after an error the position moves to the end of the buffer.\<close>

definition iter_next :: "bytes \<Rightarrow> ((frame_error, frame) result \<times> bytes) option" where
  "iter_next buf =
     (if buf = [] then None
      else case next_frame buf of
        Inr (f, rest) \<Rightarrow> Some (Inr f, rest)
      | Inl e \<Rightarrow> Some (Inl e, []))"

section \<open>Every read makes progress\<close>

lemma frame_varint_get:
  "frame_varint buf = (case get_varint buf of None \<Rightarrow> Inl TruncatedVarint | Some (v, n) \<Rightarrow> Inr (v, drop n buf))"
proof (cases buf)
  case (Cons b bs)
  show ?thesis
  proof (cases "b < 0x40")
    case True
    then have "unat b < 64" by (simp add: word_less_nat_alt)
    then have "get_varint (b # bs) = Some (unat b, 1)" by (simp add: get_varint_Cons)
    then show ?thesis using True by (simp add: Cons frame_varint_def)
  qed (simp add: Cons frame_varint_def split: option.split)
qed (simp add: frame_varint_def)

lemma frame_varint_put [simp]:
  "v < 2 ^ 62 \<Longrightarrow> frame_varint (put_varint v @ rest) = Inr (v, rest)"
  by (simp only: frame_varint_get varint.get_put option.case prod.case append_eq_conv_conj) simp

lemma frame_varint_less [reader_length]:
  "frame_varint buf = Inr (v, rest) \<Longrightarrow> length rest < length buf"
  by (auto simp: frame_varint_get dest: varint.get_rest_shorter split: option.splits)

lemma frame_take_le [reader_length]:
  "frame_take n buf = Inr (data, rest) \<Longrightarrow> length rest + n = length buf \<and> length data = n"
  by (auto simp: frame_take_def split: if_splits)

lemma frame_take_append [simp]: "frame_take (length data) (data @ rest) = Inr (data, rest)"
  by (simp add: frame_take_def)

lemma skip_ranges_le [reader_length]:
  "skip_ranges n buf = Inr rest \<Longrightarrow> length rest + 2 * n \<le> length buf"
  by (induction n arbitrary: buf) (fastforce dest: frame_varint_less)+

lemma skip_ecn_le [reader_length]: "skip_ecn buf = Inr rest \<Longrightarrow> length rest < length buf"
  by (auto simp: skip_ecn_def dest!: reader_length)

lemma reads_less [reader_length]:
  "read1 f buf = Inr (x, rest) \<Longrightarrow> length rest < length buf"
  "read2 g buf = Inr (x, rest) \<Longrightarrow> length rest < length buf"
  "read3 h buf = Inr (x, rest) \<Longrightarrow> length rest < length buf"
  by (auto simp: read1_def read2_def read3_def dest!: reader_length)

lemma read_bytes_le [reader_length]:
  "read_bytes n f buf = Inr (x, rest) \<Longrightarrow> length rest \<le> length buf"
  by (auto simp: read_bytes_def dest!: reader_length)

lemma read_counted_less [reader_length]:
  "read_counted f buf = Inr (x, rest) \<Longrightarrow> length rest < length buf"
  by (fastforce simp: read_counted_def dest!: reader_length)

lemma ack_frame_less [reader_length]:
  assumes "ack_frame kind buf = Inr (x, rest)"
  shows "length rest < length buf"
  using assms
  by (auto simp: ack_frame_def Let_def split: if_splits dest!: reader_length)

lemma stream_frame_less [reader_length]:
  assumes "stream_frame kind buf = Inr (x, rest)"
  shows "length rest < length buf"
  using assms by (auto simp: stream_frame_def split: if_splits dest!: reader_length)

lemma new_connection_id_frame_less [reader_length]:
  assumes "new_connection_id_frame buf = Inr (x, rest)"
  shows "length rest < length buf"
  using assms by (auto simp: new_connection_id_frame_def Let_def split: if_splits dest!: reader_length)

lemma close_frame_less [reader_length]:
  assumes "close_frame kind buf = Inr (x, rest)"
  shows "length rest < length buf"
  using assms by (auto simp: close_frame_def split: if_splits dest!: reader_length)

lemma rare_frame_le [reader_length]:
  assumes "rare_frame kind buf = Inr (x, rest)"
  shows "length rest \<le> length buf"
  using assms by (auto simp: rare_frame_def split: if_splits dest!: reader_length)

lemma next_frame_less [reader_length]:
  assumes "next_frame buf = Inr (x, rest)"
  shows "length rest < length buf"
  using assms
  by (auto simp: next_frame_def le_less_trans [OF length_dropWhile_le] split: if_splits dest!: reader_length)

lemma iter_next_less:
  assumes "iter_next buf = Some (r, rest)"
  shows "length rest < length buf"
  using assms
  by (auto simp: iter_next_def dest: next_frame_less split: if_splits sum.splits)

text \<open>Everything the iterator yields for a payload.\<close>

function frames :: "bytes \<Rightarrow> (frame_error, frame) result list" where
  "frames buf = (case iter_next buf of None \<Rightarrow> [] | Some (r, rest) \<Rightarrow> r # frames rest)"
  by auto
termination by (relation "measure length") (auto dest: iter_next_less)

declare frames.simps [simp del]

lemma frames_Nil [simp]: "frames [] = []"
  by (simp add: frames.simps iter_next_def)

lemma frames_Inr: "next_frame buf = Inr (f, rest) \<Longrightarrow> buf \<noteq> [] \<Longrightarrow> frames buf = Inr f # frames rest"
  by (simp add: frames.simps [of buf] iter_next_def)

lemma frames_Inl: "next_frame buf = Inl e \<Longrightarrow> buf \<noteq> [] \<Longrightarrow> frames buf = [Inl e]"
  by (simp add: frames.simps [of buf] iter_next_def)

section \<open>The ranges of an ACK frame\<close>

record ack_iter =
  ai_largest :: nat
  ai_first_range :: nat
  ai_ranges :: bytes
  ai_done_first :: bool
  ai_next_largest :: nat

definition ack_ranges_new :: "nat \<Rightarrow> nat \<Rightarrow> bytes \<Rightarrow> ack_iter" where
  "ack_ranges_new largest first_range ranges =
     \<lparr>ai_largest = largest, ai_first_range = first_range, ai_ranges = ranges, ai_done_first = False,
      ai_next_largest = largest\<rparr>"

text \<open>A \<open>?\<close> on an option returns \<open>None\<close> with the fields assigned so far.\<close>

definition ack_ranges_next :: "ack_iter \<Rightarrow> (nat \<times> nat) option \<times> ack_iter" where
  "ack_ranges_next it =
     (if \<not> ai_done_first it then
        let it = it\<lparr>ai_done_first := True\<rparr> in
        case checked_sub (ai_largest it) (ai_first_range it) of
          None \<Rightarrow> (None, it)
        | Some smallest \<Rightarrow> (Some (smallest, ai_largest it), it\<lparr>ai_next_largest := smallest\<rparr>)
      else if ai_ranges it = [] then (None, it)
      else case get_varint (ai_ranges it) of
        None \<Rightarrow> (None, it)
      | Some (gap, n) \<Rightarrow>
          let it = it\<lparr>ai_ranges := drop n (ai_ranges it)\<rparr> in
          case get_varint (ai_ranges it) of
            None \<Rightarrow> (None, it)
          | Some (len, n) \<Rightarrow>
              let it = it\<lparr>ai_ranges := drop n (ai_ranges it)\<rparr> in
              case checked_sub (ai_next_largest it) (gap + 2) of
                None \<Rightarrow> (None, it)
              | Some largest \<Rightarrow>
                  case checked_sub largest len of
                    None \<Rightarrow> (None, it)
                  | Some smallest \<Rightarrow> (Some (smallest, largest), it\<lparr>ai_next_largest := smallest\<rparr>))"

definition ack_iter_left :: "ack_iter \<Rightarrow> nat" where
  "ack_iter_left it = length (ai_ranges it) + (if ai_done_first it then 0 else 1)"

lemma ack_ranges_next_less:
  assumes "ack_ranges_next it = (Some r, it')"
  shows "ack_iter_left it' < ack_iter_left it"
  using assms varint.get_rest_shorter
  by (fastforce simp: ack_ranges_next_def ack_iter_left_def Let_def split: if_splits option.splits)

text \<open>What a loop over the iterator sees: the items up to the first \<open>None\<close>.\<close>

function ack_ranges_items :: "ack_iter \<Rightarrow> ranges" where
  "ack_ranges_items it =
     (case ack_ranges_next it of (None, _) \<Rightarrow> [] | (Some r, it') \<Rightarrow> r # ack_ranges_items it')"
  by auto
termination by (relation "measure ack_iter_left") (auto dest: ack_ranges_next_less [OF sym])

declare ack_ranges_items.simps [simp del]

section \<open>Writing\<close>

definition put_ping :: bytes where
  "put_ping = [word_of_nat PING]"

definition put_crypto :: "nat \<Rightarrow> bytes \<Rightarrow> bytes" where
  "put_crypto offset data =
     put_varint CRYPTO @ put_varint offset @ put_varint (length data) @ data"

definition put_stream :: "nat \<Rightarrow> nat \<Rightarrow> bool \<Rightarrow> bytes \<Rightarrow> bytes" where
  "put_stream sid offset fin data =
     (let kind = STREAM_BASE OR STREAM_LEN;
          kind = (if offset \<noteq> 0 then kind OR STREAM_OFF else kind);
          kind = (if fin then kind OR STREAM_FIN else kind) in
      put_varint kind @ put_varint sid @ (if offset \<noteq> 0 then put_varint offset else [])
        @ put_varint (length data) @ data)"

definition put_max_data :: "nat \<Rightarrow> bytes" where
  "put_max_data limit = put_varint MAX_DATA @ put_varint limit"

definition put_max_stream_data :: "nat \<Rightarrow> nat \<Rightarrow> bytes" where
  "put_max_stream_data sid limit = put_varint MAX_STREAM_DATA @ put_varint sid @ put_varint limit"

definition put_max_streams :: "bool \<Rightarrow> nat \<Rightarrow> bytes" where
  "put_max_streams uni limit =
     put_varint (if uni then MAX_STREAMS_UNI else MAX_STREAMS_BIDI) @ put_varint limit"

definition put_reset_stream :: "nat \<Rightarrow> nat \<Rightarrow> nat \<Rightarrow> bytes" where
  "put_reset_stream sid error final_size =
     put_varint RESET_STREAM @ put_varint sid @ put_varint error @ put_varint final_size"

definition put_retire_connection_id :: "nat \<Rightarrow> bytes" where
  "put_retire_connection_id seq = put_varint RETIRE_CONNECTION_ID @ put_varint seq"

definition put_path_response :: "bytes \<Rightarrow> bytes" where
  "put_path_response data = put_varint PATH_RESPONSE @ data"

definition put_close :: "nat \<Rightarrow> bytes \<Rightarrow> bytes" where
  "put_close error reason =
     put_varint CONNECTION_CLOSE_APP @ put_varint error @ put_varint (length reason) @ reason"

definition put_transport_close :: "nat \<Rightarrow> bytes" where
  "put_transport_close error =
     put_varint CONNECTION_CLOSE_QUIC @ put_varint error @ put_varint PADDING @ put_varint 0"

fun put_ack_rest :: "nat \<Rightarrow> ranges \<Rightarrow> bytes" where
  "put_ack_rest prev_smallest [] = []"
| "put_ack_rest prev_smallest ((smallest, largest) # rs) =
     put_varint (prev_smallest - largest - 2) @ put_varint (largest - smallest) @ put_ack_rest smallest rs"

text \<open>\<open>ranges[0]\<close> panics on an empty slice, which is \<open>None\<close> here.\<close>

fun put_ack :: "ranges \<Rightarrow> nat \<Rightarrow> bytes option" where
  "put_ack [] delay = None"
| "put_ack ((smallest, largest) # rs) delay =
     Some (put_varint ACK @ put_varint largest @ put_varint delay
       @ put_varint (length ((smallest, largest) # rs) - 1) @ put_varint (largest - smallest)
       @ put_ack_rest smallest rs)"

section \<open>ACK ranges are sound for any bytes\<close>

lemma ack_ranges_next_done:
  assumes "ack_ranges_next it = (Some (lo, hi), it')" "ai_done_first it"
  shows "lo \<le> hi" "hi + 2 \<le> ai_next_largest it" "ai_done_first it'" "ai_next_largest it' = lo"
  using assms by (auto simp: ack_ranges_next_def Let_def split: if_splits option.splits) arith+

lemma ack_ranges_items_step:
  "ack_ranges_next it = (Some r, it') \<Longrightarrow> ack_ranges_items it = r # ack_ranges_items it'"
  "ack_ranges_next it = (None, it') \<Longrightarrow> ack_ranges_items it = []"
  by (simp_all add: ack_ranges_items.simps [of it])

lemma ack_ranges_items_done:
  "ai_done_first it \<Longrightarrow> rng_ok (ack_ranges_items it) \<and> (\<forall>r \<in> set (ack_ranges_items it). snd r + 1 < ai_next_largest it)"
proof (induction it rule: ack_ranges_items.induct)
  case (1 it)
  obtain r it' where step: "ack_ranges_next it = (r, it')" by force
  show ?case
  proof (cases r)
    case None
    then show ?thesis by (simp add: ack_ranges_items.simps [of it] step rng_ok_def)
  next
    case (Some p)
    obtain lo hi where p: "p = (lo, hi)" by force
    note d = ack_ranges_next_done [OF step [unfolded Some p] 1(2)]
    have "rng_ok (ack_ranges_items it') \<and> (\<forall>r \<in> set (ack_ranges_items it'). snd r + 1 < lo)"
      using 1(1) [OF step [symmetric] Some] d by simp
    then show ?thesis
      using d by (auto simp: ack_ranges_items.simps [of it] step Some p rng_ok_Cons)
  qed
qed

lemma ack_ranges_items_new:
  "ack_ranges_items (ack_ranges_new largest first_range rs) =
     (if largest < first_range then []
      else (largest - first_range, largest) # ack_ranges_items
        \<lparr>ai_largest = largest, ai_first_range = first_range, ai_ranges = rs, ai_done_first = True,
         ai_next_largest = largest - first_range\<rparr>)"
proof (cases "largest < first_range")
  case True
  then show ?thesis
    by (simp add: ack_ranges_items_step(2) ack_ranges_next_def ack_ranges_new_def checked_sub_def Let_def)
next
  case False
  then have "ack_ranges_next (ack_ranges_new largest first_range rs) = (Some (largest - first_range, largest),
      \<lparr>ai_largest = largest, ai_first_range = first_range, ai_ranges = rs, ai_done_first = True,
       ai_next_largest = largest - first_range\<rparr>)"
    by (simp add: ack_ranges_next_def ack_ranges_new_def checked_sub_def)
  then show ?thesis using False by (simp add: ack_ranges_items_step(1))
qed

text \<open>
  Whatever bytes a peer puts into an ACK frame, the ranges the client walks are well formed: each
  ends no lower than it starts, they go strictly downwards with a gap between neighbours, and none
  reaches above the largest acknowledged number, so no packet number is acknowledged twice by one frame.
\<close>

theorem ack_ranges_sound:
  "rng_ok (ack_ranges_items (ack_ranges_new largest first_range rs))
   \<and> covers (ack_ranges_items (ack_ranges_new largest first_range rs)) \<subseteq> {..largest}"
proof (cases "largest < first_range")
  case False
  let ?it = "\<lparr>ai_largest = largest, ai_first_range = first_range, ai_ranges = rs,
      ai_done_first = True, ai_next_largest = largest - first_range\<rparr>"
  have "rng_ok (ack_ranges_items ?it)" "\<forall>r \<in> set (ack_ranges_items ?it). snd r + 1 < largest - first_range"
    using ack_ranges_items_done [of ?it] by auto
  then show ?thesis using False by (fastforce simp: ack_ranges_items_new rng_ok_Cons covers_def)
qed (simp add: ack_ranges_items_new rng_ok_def covers_def)

section \<open>Round trips\<close>

definition ranges_below :: "nat \<Rightarrow> ranges \<Rightarrow> bool" where
  "ranges_below bound rs \<longleftrightarrow> rng_ok rs \<and> (\<forall>r \<in> set rs. snd r < bound)"

lemma put_ack_rest_items:
  assumes "ranges_below (2 ^ 62) rs" "\<forall>r \<in> set rs. snd r + 1 < prev" "prev < 2 ^ 62"
  shows "ack_ranges_items \<lparr>ai_largest = l, ai_first_range = f, ai_ranges = put_ack_rest prev rs,
           ai_done_first = True, ai_next_largest = prev\<rparr> = rs"
  using assms
proof (induction rs arbitrary: prev)
  case Nil
  then show ?case by (simp add: ack_ranges_items.simps ack_ranges_next_def)
next
  case (Cons r rs)
  obtain lo hi where r: "r = (lo, hi)" by force
  have h: "lo \<le> hi" "hi + 1 < prev" "hi < 2 ^ 62" "ranges_below (2 ^ 62) rs" "\<forall>r \<in> set rs. snd r + 1 < lo"
    using Cons.prems by (auto simp: r rng_ok_Cons ranges_below_def)
  have small: "prev - hi - 2 < 2 ^ 62" "hi - lo < 2 ^ 62" using h Cons.prems(3) by linarith+
  have gap: "prev - (prev - hi - 2 + 2) = hi" "prev - hi - 2 + 2 \<le> prev" "hi - (hi - lo) = lo" "hi - lo \<le> hi"
    using h by linarith+
  have ne: "put_varint (prev - hi - 2) \<noteq> []" by (rule varint.put_nonempty [OF small(1)])
  let ?it = "\<lambda>n rs. \<lparr>ai_largest = l, ai_first_range = f, ai_ranges = rs, ai_done_first = True, ai_next_largest = n\<rparr>"
  have "ack_ranges_next (?it prev (put_varint (prev - hi - 2) @ put_varint (hi - lo) @ put_ack_rest lo rs)) =
      (Some (lo, hi), ?it lo (put_ack_rest lo rs))"
    using small gap ne
    by (simp add: ack_ranges_next_def checked_sub_def varint.get_put del: diff_diff_left add_2_eq_Suc')
  moreover have "ack_ranges_items (?it lo (put_ack_rest lo rs)) = rs"
    using h by (intro Cons.IH) auto
  ultimately show ?case by (simp add: r ack_ranges_items_step(1) del: diff_diff_left)
qed

lemma skip_ranges_put_ack_rest:
  assumes "ranges_below (2 ^ 62) rs" "prev < 2 ^ 62"
  shows "skip_ranges (length rs) (put_ack_rest prev rs @ rest) = Inr rest"
  using assms
proof (induction rs arbitrary: prev)
  case (Cons r rs)
  obtain lo hi where r: "r = (lo, hi)" by force
  have h: "lo \<le> hi" "hi < 2 ^ 62" "ranges_below (2 ^ 62) rs"
    using Cons.prems by (auto simp: r rng_ok_Cons ranges_below_def)
  have "prev - hi - 2 < 2 ^ 62" "hi - lo < 2 ^ 62" "lo < 2 ^ 62" using h Cons.prems(2) by linarith+
  then show ?case using Cons.IH [of lo] h by (simp add: r)
qed simp

lemma put_ack_round_trip:
  assumes ok: "ranges_below (2 ^ 62) rs" and "length rs < 2 ^ 62" "delay < 2 ^ 62" and put: "put_ack rs delay = Some bs"
  obtains largest first ranges where
    "next_frame (bs @ rest) = Inr (Ack largest delay first ranges (length rs - 1), rest)"
    "ack_ranges_items (ack_ranges_new largest first ranges) = rs"
proof -
  obtain lo hi rs' where rs: "rs = (lo, hi) # rs'" using put by (cases rs) auto
  have h: "lo \<le> hi" "hi < 2 ^ 62" "ranges_below (2 ^ 62) rs'" "\<forall>r \<in> set rs'. snd r + 1 < lo"
    using ok by (auto simp: rs rng_ok_Cons ranges_below_def)
  have small: "lo < 2 ^ 62" "hi - lo < 2 ^ 62" "length rs' < 2 ^ 62" using h assms(2) by (auto simp: rs)
  have bs: "bs @ rest = put_varint ACK @ put_varint hi @ put_varint delay @ put_varint (length rs')
      @ put_varint (hi - lo) @ put_ack_rest lo rs' @ rest"
    using put by (simp add: rs)
  have "next_frame (bs @ rest) = Inr (Ack hi delay (hi - lo) (put_ack_rest lo rs') (length rs'), rest)"
    using h small assms(3) skip_ranges_put_ack_rest [OF h(3) small(1), of rest]
    unfolding bs by (simp add: next_frame_def ack_frame_def)
  moreover have "ack_ranges_items (ack_ranges_new hi (hi - lo) (put_ack_rest lo rs')) = rs"
    using h small put_ack_rest_items [OF h(3,4) small(1), of hi "hi - lo"]
    by (simp add: ack_ranges_items_new rs)
  ultimately show thesis using that by (simp add: rs)
qed

text \<open>
  The frames the client writes, with the encoder each is written by; integers are below \<open>2 ^ 62\<close>.
\<close>

inductive encodes :: "frame \<Rightarrow> bytes \<Rightarrow> bool" where
  "encodes Ping put_ping"
| "offset < 2 ^ 62 \<Longrightarrow> length data < 2 ^ 62 \<Longrightarrow> encodes (Crypto offset data) (put_crypto offset data)"
| "sid < 2 ^ 62 \<Longrightarrow> offset < 2 ^ 62 \<Longrightarrow> length data < 2 ^ 62 \<Longrightarrow>
     encodes (Stream sid offset fin data) (put_stream sid offset fin data)"
| "limit < 2 ^ 62 \<Longrightarrow> encodes (MaxData limit) (put_max_data limit)"
| "sid < 2 ^ 62 \<Longrightarrow> limit < 2 ^ 62 \<Longrightarrow> encodes (MaxStreamData sid limit) (put_max_stream_data sid limit)"
| "limit < 2 ^ 62 \<Longrightarrow> encodes (MaxStreams uni limit) (put_max_streams uni limit)"
| "sid < 2 ^ 62 \<Longrightarrow> error < 2 ^ 62 \<Longrightarrow> final_size < 2 ^ 62 \<Longrightarrow>
     encodes (ResetStream sid error final_size) (put_reset_stream sid error final_size)"
| "seq < 2 ^ 62 \<Longrightarrow> encodes (RetireConnectionId seq) (put_retire_connection_id seq)"
| "length data = 8 \<Longrightarrow> encodes (PathResponse data) (put_path_response data)"
| "error < 2 ^ 62 \<Longrightarrow> length reason < 2 ^ 62 \<Longrightarrow> encodes (Close True error reason) (put_close error reason)"
| "error < 2 ^ 62 \<Longrightarrow> encodes (Close False error []) (put_transport_close error)"

lemmas frame_readers = next_frame_def rare_frame_def read1_def read2_def read3_def read_bytes_def
  read_counted_def

lemma put_stream_round_trip:
  assumes "sid < 2 ^ 62" "offset < 2 ^ 62" "length data < 2 ^ 62"
  shows "next_frame (put_stream sid offset fin data @ rest) = Inr (Stream sid offset fin data, rest)"
  using assms by (cases "offset = 0"; cases fin) (simp_all add: put_stream_def frame_readers stream_frame_def)

lemma put_path_response_round_trip:
  assumes "length data = 8"
  shows "next_frame (put_path_response data @ rest) = Inr (PathResponse data, rest)"
  using frame_take_append [of data rest] assms by (simp add: put_path_response_def frame_readers)

lemma encodes_next_frame:
  assumes "encodes f bs"
  shows "next_frame (bs @ rest) = Inr (f, rest)"
  using assms
proof cases
  case 1 then show ?thesis by (simp add: put_ping_def next_frame_def frame_varint_def)
next
  case 3 then show ?thesis by (simp add: put_stream_round_trip)
next
  case 9 then show ?thesis by (simp add: put_path_response_round_trip)
next
  case (6 limit uni) then show ?thesis by (cases uni) (simp_all add: put_max_streams_def frame_readers)
next
  case 11 then show ?thesis
    using frame_take_append [of "[]" rest] by (simp add: put_transport_close_def frame_readers close_frame_def)
qed (simp_all add: put_crypto_def put_max_data_def
      put_max_stream_data_def put_reset_stream_def put_retire_connection_id_def put_close_def
      frame_readers close_frame_def)

lemma encodes_nonempty: "encodes f bs \<Longrightarrow> bs \<noteq> []"
  using encodes_next_frame [of f bs "[]"] next_frame_less [of bs f "[]"] by auto

lemma frames_encodes:
  assumes "list_all2 encodes fs bss"
  shows "frames (concat bss @ rest) = map Inr fs @ frames rest"
  using assms
  by (induction rule: list_all2_induct) (simp_all add: frames_Inr [OF encodes_next_frame] encodes_nonempty)

lemma frames_padding: "frames (replicate n 0) = (if n = 0 then [] else [Inr Padding])"
proof (cases n)
  case (Suc m)
  have "next_frame (replicate n 0) = Inr (Padding, [])"
    by (simp add: Suc next_frame_def frame_varint_def)
  then show ?thesis by (simp add: Suc frames_Inr)
qed simp

text \<open>
  C35. A payload made of frames the client writes, ACK frames apart, followed by any amount of padding,
  parses back into exactly those frames: no encoder emits bytes that run into its neighbour.
\<close>

theorem payload_round_trip:
  assumes "list_all2 encodes fs bss"
  shows "frames (concat bss @ replicate n 0) = map Inr fs @ (if n = 0 then [] else [Inr Padding])"
  using frames_encodes [OF assms] by (simp add: frames_padding)

theorem payload_round_trip_witness:
  "frames (put_ping @ put_stream 4 7 True [1, 2] @ put_crypto 0 [9] @ replicate 3 0)
   = [Inr Ping, Inr (Stream 4 7 True [1, 2]), Inr (Crypto 0 [9]), Inr Padding]"
proof -
  have "list_all2 encodes [Ping, Stream 4 7 True [1, 2], Crypto 0 [9]]
          [put_ping, put_stream 4 7 True [1, 2], put_crypto 0 [9]]"
    by (simp add: encodes.intros)
  from payload_round_trip [OF this, of 3] show ?thesis by simp
qed

text \<open>
  An ACK frame written from the acknowledgement state reads back as the same ranges: the ranges
  walked out of the parsed frame are the ones that were written.
\<close>

theorem ack_frame_round_trip:
  assumes "ranges_below (2 ^ 62) rs" "length rs < 2 ^ 62" "delay < 2 ^ 62" "put_ack rs delay = Some bs"
  shows "\<exists>largest first ranges.
           next_frame (bs @ rest) = Inr (Ack largest delay first ranges (length rs - 1), rest)
         \<and> ack_ranges_items (ack_ranges_new largest first ranges) = rs"
  by (rule put_ack_round_trip [OF assms]) blast

theorem ack_frame_round_trip_witness:
  "\<exists>bs largest first ranges. put_ack [(7, 9), (2, 4), (0, 0)] 25 = Some bs
     \<and> next_frame bs = Inr (Ack largest 25 first ranges 2, [])
     \<and> ack_ranges_items (ack_ranges_new largest first ranges) = [(7, 9), (2, 4), (0, 0)]"
proof -
  have ok: "ranges_below (2 ^ 62) [(7, 9), (2, 4), (0, 0)]"
    by (simp add: ranges_below_def rng_ok_Cons rng_ok_def)
  obtain bs where bs: "put_ack [(7, 9), (2, 4), (0, 0)] 25 = Some bs" by simp
  show ?thesis using ack_frame_round_trip [OF ok _ _ bs, of "[]"] bs by auto
qed

section \<open>Errors end the walk\<close>

text \<open>
  Parsing any payload terminates, and an error can only be the last thing it yields: every frame
  before it was read completely and nothing after it is interpreted.
\<close>

theorem frames_error_last:
  assumes "i < length (frames buf)" "frames buf ! i = Inl e"
  shows "i + 1 = length (frames buf)"
  using assms
proof (induction buf arbitrary: i rule: frames.induct)
  case (1 buf)
  have ne: "buf \<noteq> []" using 1 by auto
  show ?case
  proof (cases "next_frame buf")
    case (Inl e')
    then show ?thesis using 1 frames_Inl [OF Inl ne] by simp
  next
    case (Inr p)
    then obtain f rest where p: "next_frame buf = Inr (f, rest)" by (cases p) auto
    note fr = frames_Inr [OF p ne]
    obtain j where i: "i = Suc j" using 1(3) fr by (cases i) auto
    have "iter_next buf = Some (Inr f, rest)" by (simp add: iter_next_def ne p)
    then show ?thesis using 1 fr i by simp
  qed
qed

theorem frames_error_last_witness:
  "frames [0x01, 0x21, 0x01] = [Inr Ping, Inl (UnknownFrame 0x21)] \<and> (1::nat) + 1 = length (frames [0x01, 0x21, 0x01])"
proof -
  have run: "frames [0x01, 0x21, 0x01] = [Inr Ping, Inl (UnknownFrame 0x21)]"
    by (simp add: frames.simps iter_next_def next_frame_def frame_varint_def rare_frame_def)
  then show ?thesis using frames_error_last [of 1 "[0x01, 0x21, 0x01]"] by simp
qed

end
