(* ===== verification/Header.thy ===== *)
theory Header
  imports Varint Packet
begin

text \<open>
  Packet headers (\<open>src/quic/header.rs\<close>, RFC 9000 Section 17): the framing of received packets, the long
  and short headers the client writes, and the fixed-width length field.
\<close>

section \<open>Decoding\<close>

definition VERSION_1 :: nat where "VERSION_1 = 1"

abbreviation (input) FORM_LONG :: byte where "FORM_LONG \<equiv> 0x80"
abbreviation (input) FIXED_BIT :: byte where "FIXED_BIT \<equiv> 0x40"
abbreviation (input) LONG_TYPE_MASK :: byte where "LONG_TYPE_MASK \<equiv> 0x30"
abbreviation (input) TYPE_INITIAL :: byte where "TYPE_INITIAL \<equiv> 0x00"
abbreviation (input) TYPE_HANDSHAKE :: byte where "TYPE_HANDSHAKE \<equiv> 0x20"
abbreviation (input) TYPE_RETRY :: byte where "TYPE_RETRY \<equiv> 0x30"

text \<open>
  \<open>Long space scid pn_offset end\<close>, \<open>Short pn_offset end\<close>, \<open>Retry dcid scid token\<close>,
  \<open>VersionNegotiation dcid scid versions\<close>.
\<close>

datatype incoming =
    Long space connection_id nat nat
  | Short nat nat
  | Retry connection_id connection_id bytes
  | VersionNegotiation connection_id connection_id bytes

datatype header_error =
    EmptyDatagram
  | ShortTruncated
  | LongTruncated
  | BadDestinationCid
  | BadSourceCid
  | CidError packet_error
  | UnsupportedVersion nat
  | RetryTruncated
  | TokenLengthTruncated
  | TokenPastEnd
  | LengthTruncated
  | LengthPastEnd
  | ZeroRtt

definition cid_at :: "bytes \<Rightarrow> nat \<Rightarrow> nat \<Rightarrow> (header_error, connection_id) result" where
  "cid_at buf pos len =
     (case cid_new (take len (drop pos buf)) of Inl e \<Rightarrow> Inl (CidError e) | Inr cid \<Rightarrow> Inr cid)"

text \<open>The token of an Initial is stepped over; \<open>pos\<close> is where it starts.\<close>

definition skip_token :: "bytes \<Rightarrow> nat \<Rightarrow> (header_error, nat) result" where
  "skip_token buf pos =
     (case get_varint (drop pos buf) of
        None \<Rightarrow> Inl TokenLengthTruncated
      | Some (len, n) \<Rightarrow>
          let pos = pos + n in
          if length buf < pos + len then Inl TokenPastEnd else Inr (pos + len))"

definition decode_protected ::
    "bytes \<Rightarrow> byte \<Rightarrow> connection_id \<Rightarrow> nat \<Rightarrow> (header_error, incoming) result" where
  "decode_protected buf kind scid pos =
     rbind (if kind = TYPE_INITIAL then skip_token buf pos else Inr pos) (\<lambda>pos.
       case get_varint (drop pos buf) of
         None \<Rightarrow> Inl LengthTruncated
       | Some (len, n) \<Rightarrow>
           let pos = pos + n in
           case checked_add u64_bound pos len of
             None \<Rightarrow> Inl LengthPastEnd
           | Some fin \<Rightarrow>
               if fin \<le> length buf
               then Inr (Long (if kind = TYPE_INITIAL then Initial else Handshake) scid pos fin)
               else Inl LengthPastEnd)"

text \<open>What follows the two connection identifiers, by version and packet type.\<close>

definition decode_versioned ::
    "bytes \<Rightarrow> nat \<Rightarrow> connection_id \<Rightarrow> connection_id \<Rightarrow> nat \<Rightarrow> (header_error, incoming) result" where
  "decode_versioned buf version dcid scid pos =
     (if version = 0 then
        Inr (VersionNegotiation dcid scid (drop pos (take (length buf - (length buf - pos) mod 4) buf)))
      else if version \<noteq> VERSION_1 then Inl (UnsupportedVersion version)
      else
        let kind = buf ! 0 AND LONG_TYPE_MASK in
        if kind = TYPE_RETRY then
          if length buf < pos + 16 then Inl RetryTruncated
          else Inr (Retry dcid scid (drop pos (take (length buf - 16) buf)))
        else if kind = TYPE_INITIAL \<or> kind = TYPE_HANDSHAKE then decode_protected buf kind scid pos
        else Inl ZeroRtt)"

definition decode_long :: "bytes \<Rightarrow> (header_error, incoming) result" where
  "decode_long buf =
     (if length buf < 6 then Inl LongTruncated
      else
        let version = be_val (take 4 (drop 1 buf)); dcid_len = unat (buf ! 5); pos = 6 in
        if dcid_len > MAX_CID_LEN \<or> length buf < pos + dcid_len + 1 then Inl BadDestinationCid
        else rbind (cid_at buf pos dcid_len) (\<lambda>dcid.
          let pos = pos + dcid_len; scid_len = unat (buf ! pos); pos = pos + 1 in
          if scid_len > MAX_CID_LEN \<or> length buf < pos + scid_len then Inl BadSourceCid
          else rbind (cid_at buf pos scid_len) (\<lambda>scid.
            decode_versioned buf version dcid scid (pos + scid_len))))"

definition decode_header :: "bytes \<Rightarrow> nat \<Rightarrow> (header_error, incoming) result" where
  "decode_header buf local_cid_len =
     (case buf of
        [] \<Rightarrow> Inl EmptyDatagram
      | first # _ \<Rightarrow>
          if first AND FORM_LONG = 0 then
            let pn_offset = 1 + local_cid_len in
            if length buf < pn_offset + 4 then Inl ShortTruncated else Inr (Short pn_offset (length buf))
          else decode_long buf)"

section \<open>Encoding\<close>

record long_header =
  lh_space :: space
  lh_dcid :: connection_id
  lh_scid :: connection_id
  lh_token :: bytes

definition put_varint_fixed4 :: "nat \<Rightarrow> bytes" where
  "put_varint_fixed4 value = be_bytes 4 (take_bit 32 value OR 0x80000000)"

definition set_varint_fixed4 :: "bytes \<Rightarrow> nat \<Rightarrow> nat \<Rightarrow> bytes" where
  "set_varint_fixed4 buf at value =
     take at buf @ be_bytes 4 (take_bit 32 value OR 0x80000000) @ drop (at + 4) buf"

text \<open>\<open>None\<close> is the \<open>unreachable!\<close> of a 1-RTT packet.\<close>

definition long_header_put :: "long_header \<Rightarrow> nat \<Rightarrow> nat \<Rightarrow> bytes option" where
  "long_header_put h pn_len payload_len =
     (case (case lh_space h of Initial \<Rightarrow> Some TYPE_INITIAL | Handshake \<Rightarrow> Some TYPE_HANDSHAKE | Data \<Rightarrow> None) of
        None \<Rightarrow> None
      | Some kind \<Rightarrow>
          Some ([FORM_LONG OR FIXED_BIT OR kind OR (word_of_nat pn_len - 1)]
            @ be_bytes 4 VERSION_1
            @ [word_of_nat (cid_len (lh_dcid h))] @ cid_as_slice (lh_dcid h)
            @ [word_of_nat (cid_len (lh_scid h))] @ cid_as_slice (lh_scid h)
            @ (if lh_space h = Initial then put_varint (length (lh_token h)) @ lh_token h else [])
            @ put_varint_fixed4 payload_len))"

definition put_short_header :: "connection_id \<Rightarrow> nat \<Rightarrow> bool \<Rightarrow> bytes" where
  "put_short_header dcid pn_len key_phase =
     (let first = FIXED_BIT OR (word_of_nat pn_len - 1);
          first = (if key_phase then first OR 0x04 else first) in
      first # cid_as_slice dcid)"

section \<open>The fixed-width length\<close>

lemma fixed4_bytes: "v < 2 ^ 30 \<Longrightarrow> put_varint_fixed4 v = be_bytes 4 (2 * 2 ^ 30 + v)"
  by (simp add: put_varint_fixed4_def take_bit_nat_eq_self or_tag4)

lemma length_fixed4 [simp]: "length (put_varint_fixed4 v) = 4"
  by (simp add: put_varint_fixed4_def)

lemma get_varint_fixed4:
  assumes "v < 2 ^ 30"
  shows "get_varint (put_varint_fixed4 v @ rest) = Some (v, 4)"
proof -
  have "get_varint (be_bytes 4 (2 * 2 ^ (8 * 4 - 2) + v) @ rest) = Some (v, 4)"
    using assms by (intro get_varint_be_bytes) simp_all
  moreover have "(8 * 4 - 2 :: nat) = 30" by simp
  ultimately show ?thesis by (simp only: fixed4_bytes [OF assms])
qed

text \<open>
  The four-byte length field reads back as the value through the ordinary decoder, and writing it
  again later with the final value changes nothing but the value: the offsets of what follows stay put.
\<close>

theorem fixed4_round_trip:
  assumes "v < 2 ^ 30" "w < 2 ^ 30"
  shows "get_varint (put_varint_fixed4 v @ rest) = Some (v, 4)
     \<and> set_varint_fixed4 (before @ put_varint_fixed4 v @ rest) (length before) w
         = before @ put_varint_fixed4 w @ rest"
  using get_varint_fixed4 [OF assms(1)]
  by (simp add: set_varint_fixed4_def) (simp add: put_varint_fixed4_def)

theorem fixed4_round_trip_witness:
  "get_varint (put_varint_fixed4 0 @ [7]) = Some (0, 4)
   \<and> set_varint_fixed4 ([1] @ put_varint_fixed4 0 @ [7]) 1 1200 = [1] @ put_varint_fixed4 1200 @ [7]"
  using fixed4_round_trip [of 0 1200 "[7]" "[1]"] by simp

section \<open>Bounds of what is decoded\<close>

lemma skip_token_bounds:
  assumes "skip_token buf pos = Inr pos'"
  shows "pos < pos'" "pos' \<le> length buf"
  using assms get_varint_bounds(1)
  by (auto simp: skip_token_def Let_def split: option.splits if_splits) 

lemma decode_protected_cases:
  assumes "decode_protected buf kind scid pos = Inr inc"
  obtains at len n where "(if kind = TYPE_INITIAL then skip_token buf pos else Inr pos) = Inr at"
    "get_varint (drop at buf) = Some (len, n)" "at + n + len \<le> length buf"
    "inc = Long (if kind = TYPE_INITIAL then Initial else Handshake) scid (at + n) (at + n + len)"
  using assms that unfolding decode_protected_def rbind_eq_Inr
  by (elim exE conjE) (auto simp: Let_def split: option.splits if_splits)

lemma decode_protected_bounds:
  assumes "decode_protected buf kind scid pos = Inr inc"
  obtains sp pn_offset fin where "inc = Long sp scid pn_offset fin"
    "pos < pn_offset" "pn_offset \<le> fin" "fin \<le> length buf" "sp \<noteq> Data"
proof (rule decode_protected_cases [OF assms])
  fix at len n
  assume skip: "(if kind = TYPE_INITIAL then skip_token buf pos else Inr pos) = Inr at"
    and get: "get_varint (drop at buf) = Some (len, n)" and fits: "at + n + len \<le> length buf"
    and inc: "inc = Long (if kind = TYPE_INITIAL then Initial else Handshake) scid (at + n) (at + n + len)"
  have "pos \<le> at" using skip skip_token_bounds(1) [of buf pos at] by (auto split: if_splits)
  then show thesis using get_varint_bounds(1) [OF get] fits inc by (intro that) (auto split: if_splits)
qed

lemma cid_at_ok: "cid_at buf pos len = Inr cid \<Longrightarrow> cid_ok cid"
  by (auto simp: cid_at_def dest: cid_new_ok split: sum.splits)

lemma decode_long_cases:
  assumes "decode_long buf = Inr inc"
  obtains dcid scid pos where "cid_ok dcid" "cid_ok scid" "7 \<le> pos" "pos \<le> length buf"
    "decode_versioned buf (be_val (take 4 (drop 1 buf))) dcid scid pos = Inr inc"
proof -
  let ?d = "unat (buf ! 5)"
  let ?s = "unat (buf ! (6 + ?d))"
  obtain dcid scid where "7 + ?d + ?s \<le> length buf" "cid_at buf 6 ?d = Inr dcid" "cid_at buf (7 + ?d) ?s = Inr scid"
    "decode_versioned buf (be_val (take 4 (drop 1 buf))) dcid scid (7 + ?d + ?s) = Inr inc"
    using assms unfolding decode_long_def Let_def by (auto split: if_splits)
  then show thesis using cid_at_ok by (intro that [of dcid scid "7 + ?d + ?s"]) auto
qed

text \<open>What the receive loop may rely on for a packet the header decoder accepts.\<close>

fun incoming_ok :: "nat \<Rightarrow> bytes \<Rightarrow> incoming \<Rightarrow> bool" where
  "incoming_ok _ buf (Long sp scid pn_offset fin) \<longleftrightarrow>
     sp \<noteq> Data \<and> cid_ok scid \<and> 7 < pn_offset \<and> pn_offset \<le> fin \<and> fin \<le> length buf"
| "incoming_ok local_cid_len buf (Short pn_offset fin) \<longleftrightarrow>
     pn_offset = 1 + local_cid_len \<and> pn_offset + 4 \<le> fin \<and> fin = length buf"
| "incoming_ok _ buf (Retry dcid scid token) \<longleftrightarrow>
     cid_ok dcid \<and> cid_ok scid \<and> length token + 23 \<le> length buf"
| "incoming_ok _ buf (VersionNegotiation dcid scid versions) \<longleftrightarrow>
     cid_ok dcid \<and> cid_ok scid \<and> length versions mod 4 = 0"

lemma decode_versioned_ok:
  assumes "decode_versioned buf version dcid scid pos = Inr inc" "cid_ok dcid" "cid_ok scid"
    "7 \<le> pos" "pos \<le> length buf"
  shows "incoming_ok n buf inc"
proof -
  let ?versions = "drop pos (take (length buf - (length buf - pos) mod 4) buf)"
  let ?token = "drop pos (take (length buf - 16) buf)"
  have "inc = VersionNegotiation dcid scid ?versions \<or> inc = Retry dcid scid ?token \<and> pos + 16 \<le> length buf
      \<or> decode_protected buf (buf ! 0 AND LONG_TYPE_MASK) scid pos = Inr inc"
    using assms(1) by (simp add: decode_versioned_def Let_def split: if_splits)
  then consider "inc = VersionNegotiation dcid scid ?versions"
    | "inc = Retry dcid scid ?token" "pos + 16 \<le> length buf"
    | "decode_protected buf (buf ! 0 AND LONG_TYPE_MASK) scid pos = Inr inc"
    by blast
  then show ?thesis
  proof cases
    case 1
    have "length buf - (length buf - pos) mod 4 - pos = (length buf - pos) - (length buf - pos) mod 4" by simp
    then show ?thesis using 1 assms by (simp add: minus_mod_eq_mult_div)
  next
    case 2
    then show ?thesis using assms by simp
  next
    case 3
    then show ?thesis using assms by (elim decode_protected_bounds) auto
  qed
qed

text \<open>
  C36. Every packet the header decoder accepts lies inside the datagram: the packet number starts
  behind the header and no later than the packet's end, the end is no later than the datagram's, behind a
  short header there are at least four bytes, as many as the longest packet number takes, the connection
  identifiers fit their twenty bytes, and a version list is a whole number of versions. So slicing the
  datagram at the result cannot go out of range; whether there is a sample behind the packet number is
  checked when the protection is removed.
\<close>

theorem decode_header_in_bounds:
  assumes "decode_header buf local_cid_len = Inr inc"
  shows "incoming_ok local_cid_len buf inc"
proof (cases buf)
  case (Cons first rest)
  show ?thesis
  proof (cases "first AND FORM_LONG = 0")
    case True
    then show ?thesis using assms by (auto simp: decode_header_def Cons Let_def split: if_splits)
  next
    case False
    then have "decode_long buf = Inr inc" using assms by (simp add: decode_header_def Cons)
    then show ?thesis by (elim decode_long_cases) (rule decode_versioned_ok)
  qed
qed (use assms in \<open>simp add: decode_header_def\<close>)

theorem decode_header_in_bounds_witness:
  "decode_header (0x40 # replicate 12 0) 8 = Inr (Short 9 13)
   \<and> incoming_ok 8 (0x40 # replicate 12 0) (Short 9 13)"
proof -
  have run: "decode_header (0x40 # replicate 12 0) 8 = Inr (Short 9 13)"
    by (simp add: decode_header_def)
  show ?thesis using run decode_header_in_bounds [OF run] by (intro conjI)
qed

section \<open>Round trip of the headers the client writes\<close>

lemma decode_long_written:
  assumes d: "cid_new d = Inr dcid" and s: "cid_new s = Inr scid" and v: "length v = 4"
    and buf: "buf = first # v @ [word_of_nat (length d)] @ d @ [word_of_nat (length s)] @ s @ tail"
  shows "decode_long buf = decode_versioned buf (be_val v) dcid scid (7 + length d + length s)"
    and "drop (7 + length d + length s) buf = tail" "length buf = 7 + length d + length s + length tail"
proof -
  have len: "length d \<le> 20" "length s \<le> 20"
    using d s by (auto simp: cid_new_def MAX_CID_LEN_def split: if_splits)
  then have un: "unat (word_of_nat (length d) :: byte) = length d" "unat (word_of_nat (length s) :: byte) = length s"
    by (simp_all add: unat_word_of_nat_byte)
  obtain v0 v1 v2 v3 where vs: "v = [v0, v1, v2, v3]"
    using v by (auto simp: eval_nat_numeral length_Suc_conv)
  let ?sb = "word_of_nat (length s) :: byte" and ?db = "word_of_nat (length d) :: byte"
  have buf': "buf = [first, v0, v1, v2, v3, ?db] @ d @ [?sb] @ s @ tail"
    by (simp add: buf vs)
  have at: "buf ! 5 = ?db" "take 4 (drop 1 buf) = v" "drop 6 buf = d @ [?sb] @ s @ tail"
    by (simp_all add: buf' vs)
  have at_s: "buf ! (6 + length d) = ?sb"
    using nth_drop [of 6 buf "length d"] at(3) buf' by simp
  have cut: "drop (6 + length d + 1) buf = s @ tail"
    using at(3) drop_drop [of "length d + 1" 6 buf] by (simp add: add.commute)
  show "drop (7 + length d + length s) buf = tail"
    using cut drop_drop [of "length s" "6 + length d + 1" buf] by (simp add: add.commute add.left_commute)
  show "length buf = 7 + length d + length s + length tail" by (simp add: buf')
  then show "decode_long buf = decode_versioned buf (be_val v) dcid scid (7 + length d + length s)"
    using len at at_s cut un d s
    by (simp add: decode_long_def cid_at_def MAX_CID_LEN_def)
qed

lemma first_byte_bits:
  assumes "1 \<le> pn_len" "pn_len \<le> 4" "kind = TYPE_INITIAL \<or> kind = TYPE_HANDSHAKE"
  shows "(FORM_LONG OR FIXED_BIT OR kind OR (word_of_nat pn_len - 1)) AND FORM_LONG \<noteq> 0"
    "(FORM_LONG OR FIXED_BIT OR kind OR (word_of_nat pn_len - 1)) AND LONG_TYPE_MASK = kind"
proof -
  consider "pn_len = 1" | "pn_len = 2" | "pn_len = 3" | "pn_len = 4" using assms(1,2) by linarith
  then have "(FORM_LONG OR FIXED_BIT OR kind OR (word_of_nat pn_len - 1)) AND FORM_LONG \<noteq> 0
    \<and> (FORM_LONG OR FIXED_BIT OR kind OR (word_of_nat pn_len - 1)) AND LONG_TYPE_MASK = kind"
    using assms(3) by cases (elim disjE; simp)+
  then show "(FORM_LONG OR FIXED_BIT OR kind OR (word_of_nat pn_len - 1)) AND FORM_LONG \<noteq> 0"
    "(FORM_LONG OR FIXED_BIT OR kind OR (word_of_nat pn_len - 1)) AND LONG_TYPE_MASK = kind"
    by simp_all
qed

lemma high_half: "(b AND 0xf0) AND FORM_LONG = b AND FORM_LONG" "(b AND 0xf0) AND LONG_TYPE_MASK = b AND LONG_TYPE_MASK"
  by (simp_all add: and.assoc)

definition token_field :: "byte \<Rightarrow> bytes \<Rightarrow> bytes" where
  "token_field kind token = (if kind = TYPE_INITIAL then put_varint (length token) @ token else [])"

lemma skip_token_written:
  assumes "drop pos buf = put_varint (length token) @ token @ tail" "length token < 2 ^ 30"
  shows "skip_token buf pos = Inr (pos + length (put_varint (length token)) + length token)"
proof -
  have get: "get_varint (drop pos buf) = Some (length token, length (put_varint (length token)))"
    unfolding assms(1) using assms(2) by (intro varint.get_put) simp
  have "length buf - pos = length (put_varint (length token)) + length token + length tail"
    using arg_cong [OF assms(1), of length] by simp
  moreover have "put_varint (length token) \<noteq> []" using assms(2) by (intro varint.put_nonempty) simp
  then have "0 < length (put_varint (length token))" by simp
  ultimately have "\<not> length buf < pos + length (put_varint (length token)) + length token" by linarith
  then show ?thesis using get by (simp add: skip_token_def)
qed

lemma decode_protected_written:
  assumes cut: "drop pos buf = token_field kind token @ put_varint_fixed4 (length body) @ body @ rest"
    and small: "length token < 2 ^ 30" "length body < 2 ^ 30" "length buf < 2 ^ 64"
  shows "decode_protected buf kind scid pos =
     (let at = pos + length (token_field kind token) + 4 in
      Inr (Long (if kind = TYPE_INITIAL then Initial else Handshake) scid at (at + length body)))"
proof -
  let ?at = "pos + length (token_field kind token)"
  have skip: "(if kind = TYPE_INITIAL then skip_token buf pos else Inr pos) = Inr ?at"
    using skip_token_written [of pos buf token] cut small(1) by (simp add: token_field_def)
  have "drop ?at buf = put_varint_fixed4 (length body) @ body @ rest"
    using cut by (metis append_eq_conv_conj drop_drop add.commute)
  moreover from this have "length buf - ?at = 4 + length body + length rest"
    by (metis (no_types) length_drop length_append length_fixed4 add.assoc)
  moreover from this have "?at + 4 + length body \<le> length buf" by linarith
  ultimately show ?thesis
    unfolding decode_protected_def skip using small get_varint_fixed4 [OF small(2)]
    by (simp add: checked_add_def Let_def)
qed

lemma long_header_bytes:
  assumes "cid_ok (lh_dcid h)" "cid_ok (lh_scid h)" "long_header_put h pn_len len = Some hdr"
  obtains kind where "lh_space h = (if kind = TYPE_INITIAL then Initial else Handshake)"
    "kind = TYPE_INITIAL \<or> kind = TYPE_HANDSHAKE"
    "hdr = (FORM_LONG OR FIXED_BIT OR kind OR (word_of_nat pn_len - 1)) # be_bytes 4 VERSION_1
       @ [word_of_nat (length (cid_as_slice (lh_dcid h)))] @ cid_as_slice (lh_dcid h)
       @ [word_of_nat (length (cid_as_slice (lh_scid h)))] @ cid_as_slice (lh_scid h)
       @ token_field kind (lh_token h) @ put_varint_fixed4 len"
proof (cases "lh_space h")
  case Initial
  then show thesis using assms
    by (intro that [of TYPE_INITIAL]) (auto simp: long_header_put_def length_cid_as_slice token_field_def)
next
  case Handshake
  then show thesis using assms
    by (intro that [of TYPE_HANDSHAKE]) (auto simp: long_header_put_def length_cid_as_slice token_field_def)
qed (use assms(3) in \<open>simp add: long_header_put_def\<close>)

text \<open>The decoder looks at the high half of the first byte only: header protection masks the low half.\<close>

lemma decode_header_written:
  assumes "cid_ok (lh_dcid h)" "cid_ok (lh_scid h)" "length (lh_token h) < 2 ^ 30"
    and "1 \<le> pn_len" "pn_len \<le> 4" "length body < 2 ^ 30" "length (hdr @ body @ rest) < 2 ^ 64"
    and "long_header_put h pn_len (length body) = Some hdr" and high: "first AND 0xf0 = hd hdr AND 0xf0"
  shows "\<exists>scid. decode_header ((first # tl hdr) @ body @ rest) n
            = Inr (Long (lh_space h) scid (length hdr) (length hdr + length body))
          \<and> cid_as_slice scid = cid_as_slice (lh_scid h)"
proof -
  obtain dcid scid where cids: "cid_new (cid_as_slice (lh_dcid h)) = Inr dcid"
    "cid_new (cid_as_slice (lh_scid h)) = Inr scid"
    using assms(1,2) cid_new_Inr length_cid_as_slice by (metis cid_ok_def)
  let ?d = "cid_as_slice (lh_dcid h)" and ?s = "cid_as_slice (lh_scid h)" and ?buf = "(first # tl hdr) @ body @ rest"
  obtain kind where kind: "lh_space h = (if kind = TYPE_INITIAL then Initial else Handshake)"
    "kind = TYPE_INITIAL \<or> kind = TYPE_HANDSHAKE"
    and hdr: "hdr = (FORM_LONG OR FIXED_BIT OR kind OR (word_of_nat pn_len - 1)) # be_bytes 4 VERSION_1
       @ [word_of_nat (length ?d)] @ ?d @ [word_of_nat (length ?s)] @ ?s
       @ token_field kind (lh_token h) @ put_varint_fixed4 (length body)"
    by (rule long_header_bytes [OF assms(1,2,8)])
  let ?pos = "7 + length ?d + length ?s"
  have "?buf = first # be_bytes 4 VERSION_1 @ [word_of_nat (length ?d)] @ ?d @ [word_of_nat (length ?s)] @ ?s
      @ token_field kind (lh_token h) @ put_varint_fixed4 (length body) @ body @ rest"
    by (simp add: hdr)
  note long = decode_long_written [OF cids _ this, simplified length_be_bytes, OF refl]
  have "hd hdr AND FORM_LONG \<noteq> 0" "hd hdr AND LONG_TYPE_MASK = kind"
    unfolding hdr list.sel by (rule first_byte_bits [OF assms(4,5) kind(2)])+
  then have bits: "first AND FORM_LONG \<noteq> 0" "first AND LONG_TYPE_MASK = kind"
    unfolding high_half [symmetric, of first] high high_half by simp_all
  have "decode_header ?buf n = decode_versioned ?buf 1 dcid scid ?pos"
    using long(1) bits(1) by (simp add: decode_header_def VERSION_1_def codec_simps)
  also have "\<dots> = decode_protected ?buf kind scid ?pos"
    using bits(2) kind(2) by (auto simp: decode_versioned_def VERSION_1_def)
  also have "\<dots> = Inr (Long (lh_space h) scid (length hdr) (length hdr + length body))"
  proof -
    have "length ?buf < 2 ^ 64" using assms(7) by (simp add: hdr)
    from decode_protected_written [OF long(2) assms(3,6) this, of scid] show ?thesis
      by (simp add: kind(1) hdr Let_def)
  qed
  finally show ?thesis using cid_new_ok(2) [OF cids(2)] by blast
qed

text \<open>
  A long header reads back as it was written, whatever follows it: the same packet number space
  and source identifier, the packet number right behind the header, and the end as far behind it as the
  length field says.
\<close>

theorem long_header_round_trip:
  assumes "cid_ok (lh_dcid h)" "cid_ok (lh_scid h)" "length (lh_token h) < 2 ^ 30"
    and "1 \<le> pn_len" "pn_len \<le> 4" "length body < 2 ^ 30" "length (hdr @ body @ rest) < 2 ^ 64"
    and "long_header_put h pn_len (length body) = Some hdr"
  shows "\<exists>scid. decode_header (hdr @ body @ rest) n
            = Inr (Long (lh_space h) scid (length hdr) (length hdr + length body))
          \<and> cid_as_slice scid = cid_as_slice (lh_scid h)"
proof -
  have "hdr \<noteq> []" by (rule long_header_bytes [OF assms(1,2,8)]) simp
  then show ?thesis using decode_header_written [OF assms refl, of n] by simp
qed

theorem long_header_round_trip_witness:
  "\<exists>scid. decode_header ([0xc1, 0, 0, 0, 1, 2, 8, 9, 1, 7, 0, 0x80, 0, 0, 3] @ [1, 2, 3] @ [0]) 8
            = Inr (Long Initial scid 15 18) \<and> cid_as_slice scid = [7]"
proof -
  let ?h = "\<lparr>lh_space = Initial, lh_dcid = \<lparr>cid_len = 2, cid_bytes = 8 # 9 # replicate 18 0\<rparr>,
      lh_scid = \<lparr>cid_len = 1, cid_bytes = 7 # replicate 19 0\<rparr>, lh_token = []\<rparr>"
  have ok: "cid_ok (lh_dcid ?h)" "cid_ok (lh_scid ?h)" by (simp_all add: cid_ok_def MAX_CID_LEN_def)
  have three: "length [1, 2, 3 :: byte] = 3" by simp
  have put: "long_header_put ?h 2 (length [1, 2, 3 :: byte]) = Some [0xc1, 0, 0, 0, 1, 2, 8, 9, 1, 7, 0, 0x80, 0, 0, 3]"
    unfolding three
    by (simp add: long_header_put_def cid_as_slice_def put_varint_def put_varint_fixed4_def VERSION_1_def
        be_bytes_numeral drop_bit_eq_div)
  have len: "length [0xc1, 0, 0, 0, 1, 2, 8, 9, 1, 7, 0, 0x80, 0, 0, 3 :: byte] = 15" by simp
  from long_header_round_trip [OF ok _ _ _ _ _ put, of "[0]" 8] show ?thesis
    unfolding len three by (simp add: cid_as_slice_def)
qed

end
