(* ===== verification/Transport.thy ===== *)
theory Transport
  imports Varint Packet
begin

text \<open>
  Transport parameters (\<open>src/quic/transport.rs\<close>, RFC 9000 Section 18): the parameters of the peer with
  their defaults and limits, and the parameters the client sends.
\<close>

section \<open>Parameters of the peer\<close>

abbreviation (input) ORIGINAL_DESTINATION_CONNECTION_ID :: nat where "ORIGINAL_DESTINATION_CONNECTION_ID \<equiv> 0x00"
abbreviation (input) MAX_IDLE_TIMEOUT :: nat where "MAX_IDLE_TIMEOUT \<equiv> 0x01"
abbreviation (input) STATELESS_RESET_TOKEN :: nat where "STATELESS_RESET_TOKEN \<equiv> 0x02"
abbreviation (input) MAX_UDP_PAYLOAD_SIZE :: nat where "MAX_UDP_PAYLOAD_SIZE \<equiv> 0x03"
abbreviation (input) INITIAL_MAX_DATA :: nat where "INITIAL_MAX_DATA \<equiv> 0x04"
abbreviation (input) INITIAL_MAX_STREAM_DATA_BIDI_LOCAL :: nat where "INITIAL_MAX_STREAM_DATA_BIDI_LOCAL \<equiv> 0x05"
abbreviation (input) INITIAL_MAX_STREAM_DATA_BIDI_REMOTE :: nat where "INITIAL_MAX_STREAM_DATA_BIDI_REMOTE \<equiv> 0x06"
abbreviation (input) INITIAL_MAX_STREAM_DATA_UNI :: nat where "INITIAL_MAX_STREAM_DATA_UNI \<equiv> 0x07"
abbreviation (input) INITIAL_MAX_STREAMS_BIDI :: nat where "INITIAL_MAX_STREAMS_BIDI \<equiv> 0x08"
abbreviation (input) INITIAL_MAX_STREAMS_UNI :: nat where "INITIAL_MAX_STREAMS_UNI \<equiv> 0x09"
abbreviation (input) ACK_DELAY_EXPONENT :: nat where "ACK_DELAY_EXPONENT \<equiv> 0x0a"
abbreviation (input) MAX_ACK_DELAY :: nat where "MAX_ACK_DELAY \<equiv> 0x0b"
abbreviation (input) ACTIVE_CONNECTION_ID_LIMIT_ID :: nat where "ACTIVE_CONNECTION_ID_LIMIT_ID \<equiv> 0x0e"
abbreviation (input) INITIAL_SOURCE_CONNECTION_ID :: nat where "INITIAL_SOURCE_CONNECTION_ID \<equiv> 0x0f"
abbreviation (input) RETRY_SOURCE_CONNECTION_ID :: nat where "RETRY_SOURCE_CONNECTION_ID \<equiv> 0x10"
abbreviation (input) ACTIVE_CONNECTION_ID_LIMIT :: nat where "ACTIVE_CONNECTION_ID_LIMIT \<equiv> 2"

record params =
  max_idle_timeout_ms :: nat
  max_udp_payload_size :: nat
  initial_max_data :: nat
  initial_max_stream_data_bidi_remote :: nat
  initial_max_stream_data_bidi_local :: nat
  initial_max_stream_data_uni :: nat
  initial_max_streams_bidi :: nat
  initial_max_streams_uni :: nat
  ack_delay_exponent :: nat
  max_ack_delay_ms :: nat
  active_connection_id_limit :: nat
  initial_source_connection_id :: "connection_id option"
  original_destination_connection_id :: "connection_id option"
  retry_source_connection_id :: "connection_id option"
  stateless_reset_token :: "bytes option"

definition params_default :: params where
  "params_default =
     \<lparr>max_idle_timeout_ms = 0, max_udp_payload_size = 65527, initial_max_data = 0,
      initial_max_stream_data_bidi_remote = 0, initial_max_stream_data_bidi_local = 0,
      initial_max_stream_data_uni = 0, initial_max_streams_bidi = 0, initial_max_streams_uni = 0,
      ack_delay_exponent = 3, max_ack_delay_ms = 25, active_connection_id_limit = 2,
      initial_source_connection_id = None, original_destination_connection_id = None,
      retry_source_connection_id = None, stateless_reset_token = None\<rparr>"

datatype params_error =
    IdTruncated | LenTruncated | ParamPastEnd | NotVarint nat | TrailingBytes nat
  | ExponentTooBig | AckDelayTooBig nat | CidLimitTooSmall | ParamCidTooLong nat | BadResetToken

definition param_int :: "nat \<Rightarrow> bytes \<Rightarrow> (params_error, nat) result" where
  "param_int pid val =
     (case get_varint val of
        None \<Rightarrow> Inl (NotVarint pid)
      | Some (v, n) \<Rightarrow> if n \<noteq> length val then Inl (TrailingBytes pid) else Inr v)"

text \<open>The length check in front of \<open>ConnectionId::new\<close> makes its own error unreachable.\<close>

definition param_cid :: "nat \<Rightarrow> bytes \<Rightarrow> (params_error, connection_id) result" where
  "param_cid pid val =
     (if length val > MAX_CID_LEN then Inl (ParamCidTooLong pid)
      else case cid_new val of Inl _ \<Rightarrow> Inl (ParamCidTooLong pid) | Inr cid \<Rightarrow> Inr cid)"

definition apply_param :: "nat \<Rightarrow> bytes \<Rightarrow> params \<Rightarrow> (params_error, params) result" where
  "apply_param pid val out =
     (if pid = MAX_IDLE_TIMEOUT then
        rbind (param_int pid val) (\<lambda>v. Inr (out\<lparr>max_idle_timeout_ms := v\<rparr>))
      else if pid = MAX_UDP_PAYLOAD_SIZE then
        rbind (param_int pid val) (\<lambda>v. Inr (out\<lparr>max_udp_payload_size := v\<rparr>))
      else if pid = INITIAL_MAX_DATA then
        rbind (param_int pid val) (\<lambda>v. Inr (out\<lparr>initial_max_data := v\<rparr>))
      else if pid = INITIAL_MAX_STREAM_DATA_BIDI_LOCAL then
        rbind (param_int pid val) (\<lambda>v. Inr (out\<lparr>initial_max_stream_data_bidi_local := v\<rparr>))
      else if pid = INITIAL_MAX_STREAM_DATA_BIDI_REMOTE then
        rbind (param_int pid val) (\<lambda>v. Inr (out\<lparr>initial_max_stream_data_bidi_remote := v\<rparr>))
      else if pid = INITIAL_MAX_STREAM_DATA_UNI then
        rbind (param_int pid val) (\<lambda>v. Inr (out\<lparr>initial_max_stream_data_uni := v\<rparr>))
      else if pid = INITIAL_MAX_STREAMS_BIDI then
        rbind (param_int pid val) (\<lambda>v. Inr (out\<lparr>initial_max_streams_bidi := v\<rparr>))
      else if pid = INITIAL_MAX_STREAMS_UNI then
        rbind (param_int pid val) (\<lambda>v. Inr (out\<lparr>initial_max_streams_uni := v\<rparr>))
      else if pid = ACK_DELAY_EXPONENT then
        rbind (param_int pid val) (\<lambda>v.
          if v > 20 then Inl ExponentTooBig else Inr (out\<lparr>ack_delay_exponent := v\<rparr>))
      else if pid = MAX_ACK_DELAY then
        rbind (param_int pid val) (\<lambda>v.
          if v \<ge> push_bit 14 1 then Inl (AckDelayTooBig v) else Inr (out\<lparr>max_ack_delay_ms := v\<rparr>))
      else if pid = ACTIVE_CONNECTION_ID_LIMIT_ID then
        rbind (param_int pid val) (\<lambda>v.
          if v < 2 then Inl CidLimitTooSmall else Inr (out\<lparr>active_connection_id_limit := v\<rparr>))
      else if pid = INITIAL_SOURCE_CONNECTION_ID then
        rbind (param_cid pid val) (\<lambda>cid. Inr (out\<lparr>initial_source_connection_id := Some cid\<rparr>))
      else if pid = ORIGINAL_DESTINATION_CONNECTION_ID then
        rbind (param_cid pid val) (\<lambda>cid. Inr (out\<lparr>original_destination_connection_id := Some cid\<rparr>))
      else if pid = RETRY_SOURCE_CONNECTION_ID then
        rbind (param_cid pid val) (\<lambda>cid. Inr (out\<lparr>retry_source_connection_id := Some cid\<rparr>))
      else if pid = STATELESS_RESET_TOKEN then
        (if length val = 16 then Inr (out\<lparr>stateless_reset_token := Some val\<rparr>) else Inl BadResetToken)
      else Inr out)"

text \<open>One turn of the loop: the identifier, the value and the rest of the buffer.\<close>

definition next_param :: "bytes \<Rightarrow> (params_error, nat \<times> bytes \<times> bytes) result" where
  "next_param buf =
     (case get_varint buf of
        None \<Rightarrow> Inl IdTruncated
      | Some (pid, n) \<Rightarrow>
          let buf = drop n buf in
          case get_varint buf of
            None \<Rightarrow> Inl LenTruncated
          | Some (len, n) \<Rightarrow>
              let buf = drop n buf in
              if length buf < len then Inl ParamPastEnd else Inr (pid, take len buf, drop len buf))"

lemma next_param_less: "next_param buf = Inr (pid, val, rest) \<Longrightarrow> length rest < length buf"
  using varint.get_rest_shorter
  by (fastforce simp: next_param_def Let_def split: option.splits if_splits)

function params_loop :: "bytes \<Rightarrow> params \<Rightarrow> (params_error, params) result" where
  "params_loop buf out =
     (if buf = [] then Inr out
      else case next_param buf of
        Inl e \<Rightarrow> Inl e
      | Inr (pid, val, rest) \<Rightarrow>
          (case apply_param pid val out of Inl e \<Rightarrow> Inl e | Inr out' \<Rightarrow> params_loop rest out'))"
  by auto
termination by (relation "measure (length \<circ> fst)") (auto dest: next_param_less)

declare params_loop.simps [simp del]

definition params_decode :: "bytes \<Rightarrow> (params_error, params) result" where
  "params_decode buf = params_loop buf params_default"

section \<open>Parameters of the client\<close>

record local_params =
  lp_initial_max_data :: nat
  lp_initial_max_stream_data_bidi_local :: nat
  lp_initial_max_stream_data_uni :: nat
  lp_initial_max_streams_uni :: nat
  lp_max_idle_timeout_ms :: nat
  lp_max_udp_payload_size :: nat
  lp_source_connection_id :: connection_id

definition put_param :: "nat \<Rightarrow> nat \<Rightarrow> bytes" where
  "put_param pid val =
     put_varint pid @ put_varint (length (put_varint val)) @ put_varint val"

definition local_params_encode :: "local_params \<Rightarrow> bytes" where
  "local_params_encode p =
     put_param INITIAL_MAX_DATA (lp_initial_max_data p)
     @ put_param INITIAL_MAX_STREAM_DATA_BIDI_LOCAL (lp_initial_max_stream_data_bidi_local p)
     @ put_param INITIAL_MAX_STREAM_DATA_UNI (lp_initial_max_stream_data_uni p)
     @ put_param INITIAL_MAX_STREAMS_UNI (lp_initial_max_streams_uni p)
     @ put_param INITIAL_MAX_STREAMS_BIDI 0
     @ put_param MAX_IDLE_TIMEOUT (lp_max_idle_timeout_ms p)
     @ put_param MAX_UDP_PAYLOAD_SIZE (lp_max_udp_payload_size p)
     @ put_param MAX_ACK_DELAY 0
     @ put_param ACTIVE_CONNECTION_ID_LIMIT_ID ACTIVE_CONNECTION_ID_LIMIT
     @ put_varint INITIAL_SOURCE_CONNECTION_ID
     @ put_varint (cid_len (lp_source_connection_id p)) @ cid_as_slice (lp_source_connection_id p)"

section \<open>What an accepted parameter block promises\<close>

definition cid_opt_ok :: "connection_id option \<Rightarrow> bool" where
  "cid_opt_ok c \<longleftrightarrow> (case c of None \<Rightarrow> True | Some cid \<Rightarrow> cid_ok cid)"

definition params_ok :: "params \<Rightarrow> bool" where
  "params_ok p \<longleftrightarrow>
     ack_delay_exponent p \<le> 20 \<and> max_ack_delay_ms p < 2 ^ 14 \<and> 2 \<le> active_connection_id_limit p
     \<and> initial_max_data p < 2 ^ 62 \<and> initial_max_stream_data_bidi_remote p < 2 ^ 62
     \<and> initial_max_stream_data_bidi_local p < 2 ^ 62 \<and> initial_max_stream_data_uni p < 2 ^ 62
     \<and> initial_max_streams_bidi p < 2 ^ 62 \<and> initial_max_streams_uni p < 2 ^ 62
     \<and> max_idle_timeout_ms p < 2 ^ 62 \<and> max_udp_payload_size p < 2 ^ 62
     \<and> cid_opt_ok (initial_source_connection_id p) \<and> cid_opt_ok (original_destination_connection_id p)
     \<and> cid_opt_ok (retry_source_connection_id p)
     \<and> (case stateless_reset_token p of None \<Rightarrow> True | Some t \<Rightarrow> length t = 16)"

lemma param_int_bound: "param_int pid val = Inr v \<Longrightarrow> v < 2 ^ 62"
  using get_varint_bounds(5) by (auto simp: param_int_def split: option.splits if_splits)

lemma param_cid_ok: "param_cid pid val = Inr cid \<Longrightarrow> cid_ok cid"
  by (auto simp: param_cid_def dest: cid_new_ok split: if_splits sum.splits)

lemma params_ok_updates:
  assumes "params_ok out"
  shows "v < 2 ^ 62 \<Longrightarrow> params_ok (out\<lparr>max_idle_timeout_ms := v\<rparr>)"
    "v < 2 ^ 62 \<Longrightarrow> params_ok (out\<lparr>max_udp_payload_size := v\<rparr>)"
    "v < 2 ^ 62 \<Longrightarrow> params_ok (out\<lparr>initial_max_data := v\<rparr>)"
    "v < 2 ^ 62 \<Longrightarrow> params_ok (out\<lparr>initial_max_stream_data_bidi_local := v\<rparr>)"
    "v < 2 ^ 62 \<Longrightarrow> params_ok (out\<lparr>initial_max_stream_data_bidi_remote := v\<rparr>)"
    "v < 2 ^ 62 \<Longrightarrow> params_ok (out\<lparr>initial_max_stream_data_uni := v\<rparr>)"
    "v < 2 ^ 62 \<Longrightarrow> params_ok (out\<lparr>initial_max_streams_bidi := v\<rparr>)"
    "v < 2 ^ 62 \<Longrightarrow> params_ok (out\<lparr>initial_max_streams_uni := v\<rparr>)"
    "v \<le> 20 \<Longrightarrow> params_ok (out\<lparr>ack_delay_exponent := v\<rparr>)"
    "v < 2 ^ 14 \<Longrightarrow> params_ok (out\<lparr>max_ack_delay_ms := v\<rparr>)"
    "2 \<le> v \<Longrightarrow> params_ok (out\<lparr>active_connection_id_limit := v\<rparr>)"
    "cid_ok c \<Longrightarrow> params_ok (out\<lparr>initial_source_connection_id := Some c\<rparr>)"
    "cid_ok c \<Longrightarrow> params_ok (out\<lparr>original_destination_connection_id := Some c\<rparr>)"
    "cid_ok c \<Longrightarrow> params_ok (out\<lparr>retry_source_connection_id := Some c\<rparr>)"
    "length t = 16 \<Longrightarrow> params_ok (out\<lparr>stateless_reset_token := Some t\<rparr>)"
  using assms by (simp_all add: params_ok_def cid_opt_ok_def)

lemma apply_param_ok:
  assumes "apply_param pid val out = Inr out'" "params_ok out"
  shows "params_ok out'"
  using assms(1) params_ok_updates [OF assms(2)] assms(2) unfolding apply_param_def
  by (auto simp: push_bit_eq_mult dest!: param_int_bound param_cid_ok split: if_splits)

lemma params_default_ok: "params_ok params_default"
  by (simp add: params_ok_def params_default_def cid_opt_ok_def)

lemma params_loop_Inr:
  assumes "params_loop buf out = Inr out'" "buf \<noteq> []"
  obtains pid val rest mid where "next_param buf = Inr (pid, val, rest)" "apply_param pid val out = Inr mid"
    "params_loop rest mid = Inr out'"
  using assms that by (auto simp: params_loop.simps [of buf out] split: sum.splits)

lemma params_loop_ok:
  "params_loop buf out = Inr out' \<Longrightarrow> params_ok out \<Longrightarrow> params_ok out'"
proof (induction "length buf" arbitrary: buf out rule: less_induct)
  case less
  show ?case
  proof (cases "buf = []")
    case True
    then show ?thesis using less.prems by (simp add: params_loop.simps)
  next
    case False
    show ?thesis
      using less.prems(1) False
      by (rule params_loop_Inr) (meson less.hyps less.prems(2) apply_param_ok next_param_less)
  qed
qed

text \<open>
  A transport parameter block the client accepts keeps every limit it later computes with: the
  exponent is at most 20, so an acknowledgement delay shift stays inside the word; the delay is below
  \<open>2 ^ 14\<close> milliseconds; the limits are integers below \<open>2 ^ 62\<close>; identifiers fit twenty bytes; a reset
  token has sixteen.
\<close>

theorem params_decode_ok:
  assumes "params_decode buf = Inr p"
  shows "params_ok p"
  using params_loop_ok [OF assms [unfolded params_decode_def] params_default_ok] .

theorem params_decode_ok_witness:
  "\<exists>p. params_decode [0x0a, 1, 20, 0x0e, 1, 4] = Inr p \<and> ack_delay_exponent p = 20 \<and> params_ok p"
proof -
  have run: "params_decode [0x0a, 1, 20, 0x0e, 1, 4]
      = Inr (params_default\<lparr>ack_delay_exponent := 20, active_connection_id_limit := 4\<rparr>)"
    by (simp add: params_decode_def params_loop.simps next_param_def get_varint_Cons apply_param_def param_int_def)
  show ?thesis using params_decode_ok [OF run] run by simp
qed

section \<open>Round trip\<close>

lemma put_varint_small: "v < 2 ^ 62 \<Longrightarrow> length (put_varint v) < 2 ^ 62"
  using get_varint_bounds(3) [OF get_put_varint [of v "[]"]] by simp

lemma next_param_put:
  assumes "pid < 2 ^ 62" "length val < 2 ^ 62"
  shows "next_param (put_varint pid @ put_varint (length val) @ val @ rest) = Inr (pid, val, rest)"
  using assms by (simp add: next_param_def varint.get_put)

lemma param_int_put: "v < 2 ^ 62 \<Longrightarrow> param_int pid (put_varint v) = Inr v"
  using varint.get_put [of v "[]"] by (simp add: param_int_def)

lemma params_loop_put:
  assumes "pid < 2 ^ 62" "v < 2 ^ 62"
  shows "params_loop (put_param pid v @ rest) out =
     rbind (apply_param pid (put_varint v) out) (\<lambda>out. params_loop rest out)"
proof -
  have "put_param pid v @ rest \<noteq> []" using varint.put_nonempty [OF assms(1)] by (simp add: put_param_def)
  moreover have "next_param (put_param pid v @ rest) = Inr (pid, put_varint v, rest)"
    using next_param_put [of pid "put_varint v" rest] put_varint_small [OF assms(2)] assms
    by (simp add: put_param_def)
  ultimately show ?thesis
    by (auto simp: params_loop.simps [of "put_param pid v @ rest"] rbind_def)
qed

lemma params_loop_cid:
  assumes "cid_ok cid"
  shows "\<exists>c. params_loop (put_varint INITIAL_SOURCE_CONNECTION_ID @ put_varint (cid_len cid) @ cid_as_slice cid) out
      = Inr (out\<lparr>initial_source_connection_id := Some c\<rparr>) \<and> cid_as_slice c = cid_as_slice cid"
proof -
  have len: "length (cid_as_slice cid) = cid_len cid" "cid_len cid \<le> 20"
    using assms length_cid_as_slice by (auto simp: cid_ok_def MAX_CID_LEN_def)
  obtain c where c: "cid_new (cid_as_slice cid) = Inr c"
    using cid_new_Inr [of "cid_as_slice cid"] len by (auto simp: MAX_CID_LEN_def)
  let ?buf = "put_varint INITIAL_SOURCE_CONNECTION_ID @ put_varint (cid_len cid) @ cid_as_slice cid"
  have "next_param ?buf = Inr (INITIAL_SOURCE_CONNECTION_ID, cid_as_slice cid, [])"
    using next_param_put [of INITIAL_SOURCE_CONNECTION_ID "cid_as_slice cid" "[]"] len by simp
  moreover have "apply_param INITIAL_SOURCE_CONNECTION_ID (cid_as_slice cid) out
      = Inr (out\<lparr>initial_source_connection_id := Some c\<rparr>)"
    using len c by (simp add: apply_param_def param_cid_def MAX_CID_LEN_def)
  moreover have "put_varint INITIAL_SOURCE_CONNECTION_ID \<noteq> []" by (rule varint.put_nonempty) simp
  ultimately show ?thesis
    using cid_new_ok(2) [OF c]
    by (intro exI [of _ c]) (simp add: params_loop.simps [of ?buf] params_loop.simps [of "[]"])
qed

definition local_params_ok :: "local_params \<Rightarrow> bool" where
  "local_params_ok p \<longleftrightarrow>
     lp_initial_max_data p < 2 ^ 62 \<and> lp_initial_max_stream_data_bidi_local p < 2 ^ 62
     \<and> lp_initial_max_stream_data_uni p < 2 ^ 62 \<and> lp_initial_max_streams_uni p < 2 ^ 62
     \<and> lp_max_idle_timeout_ms p < 2 ^ 62 \<and> lp_max_udp_payload_size p < 2 ^ 62
     \<and> cid_ok (lp_source_connection_id p)"

text \<open>
  The block the client sends decodes to the parameters it meant: its own limits, no bidirectional
  streams for the peer, no acknowledgement delay, two connection identifiers, its source identifier, and
  the defaults everywhere else.
\<close>

theorem local_params_round_trip:
  assumes "local_params_ok p"
  shows "\<exists>c. params_decode (local_params_encode p) = Inr (params_default\<lparr>
      initial_max_data := lp_initial_max_data p,
      initial_max_stream_data_bidi_local := lp_initial_max_stream_data_bidi_local p,
      initial_max_stream_data_uni := lp_initial_max_stream_data_uni p,
      initial_max_streams_uni := lp_initial_max_streams_uni p,
      initial_max_streams_bidi := 0,
      max_idle_timeout_ms := lp_max_idle_timeout_ms p,
      max_udp_payload_size := lp_max_udp_payload_size p,
      max_ack_delay_ms := 0,
      active_connection_id_limit := 2,
      initial_source_connection_id := Some c\<rparr>) \<and> cid_as_slice c = cid_as_slice (lp_source_connection_id p)"
  using assms params_loop_cid [of "lp_source_connection_id p"]
  unfolding params_decode_def local_params_encode_def local_params_ok_def
  by (simp add: params_loop_put apply_param_def param_int_put)

theorem local_params_round_trip_witness:
  "\<exists>p c. params_decode (local_params_encode \<lparr>lp_initial_max_data = 1000000, lp_initial_max_stream_data_bidi_local = 65536,
      lp_initial_max_stream_data_uni = 70, lp_initial_max_streams_uni = 3, lp_max_idle_timeout_ms = 30000,
      lp_max_udp_payload_size = 1472, lp_source_connection_id = cid_random [1, 2, 3, 4, 5, 6, 7, 8]\<rparr>) = Inr p
    \<and> initial_max_data p = 1000000 \<and> initial_max_streams_uni p = 3 \<and> max_ack_delay_ms p = 0
    \<and> initial_source_connection_id p = Some c \<and> cid_as_slice c = [1, 2, 3, 4, 5, 6, 7, 8]"
proof -
  let ?p = "\<lparr>lp_initial_max_data = 1000000, lp_initial_max_stream_data_bidi_local = 65536,
      lp_initial_max_stream_data_uni = 70, lp_initial_max_streams_uni = 3, lp_max_idle_timeout_ms = 30000,
      lp_max_udp_payload_size = 1472, lp_source_connection_id = cid_random [1, 2, 3, 4, 5, 6, 7, 8]\<rparr>"
  have ok: "local_params_ok ?p"
    by (simp add: local_params_ok_def cid_ok_def cid_random_def MAX_CID_LEN_def)
  have "cid_as_slice (cid_random [1, 2, 3, 4, 5, 6, 7, 8]) = [1, 2, 3, 4, 5, 6, 7, 8]"
    by (simp add: cid_as_slice_def cid_random_def)
  with local_params_round_trip [OF ok] show ?thesis by auto
qed

end
