(* ===== verification/Send_Stream.thy ===== *)
theory Send_Stream
  imports Prelude "HOL-Library.Product_Lexorder"
begin

text \<open>
  Stream identifiers and the sending half of a stream (\<open>src/quic/stream.rs\<close>): the buffer with its
  acknowledged prefix, the queue of lost runs, the sparse acknowledgements, and the FIN and reset flags.
\<close>

section \<open>Stream identifiers\<close>

datatype dir = Bi | Uni

definition stream_dir :: "nat \<Rightarrow> dir" where
  "stream_dir sid = (if sid AND 0x2 = 0 then Bi else Uni)"

definition is_client_initiated :: "nat \<Rightarrow> bool" where
  "is_client_initiated sid \<longleftrightarrow> sid AND 0x1 = 0"

fun client_stream_id :: "dir \<Rightarrow> nat \<Rightarrow> nat" where
  "client_stream_id Bi n = n * 4"
| "client_stream_id Uni n = n * 4 + 2"

lemma client_stream_id_dir: "stream_dir (client_stream_id d n) = d" "is_client_initiated (client_stream_id d n)"
proof -
  have bits: "m AND 2 = 0 \<longleftrightarrow> even (m div 2)" "m AND 1 = 0 \<longleftrightarrow> even m" for m :: nat
    using and_exp_eq_0_iff_not_bit [of m 1] by (simp_all add: bit_iff_odd and_one_eq even_iff_mod_2_eq_zero)
  show "stream_dir (client_stream_id d n) = d"
    unfolding stream_dir_def bits by (cases d) simp_all
  show "is_client_initiated (client_stream_id d n)"
    unfolding is_client_initiated_def bits by (cases d) simp_all
qed

lemma client_stream_id_inj: "client_stream_id d n = client_stream_id d' n' \<longleftrightarrow> d = d' \<and> n = n'"
  by (cases d; cases d') (auto, presburger+)

section \<open>State and operations\<close>

type_synonym runs = "(nat \<times> nat) list"

record send_stream =
  ss_buf :: bytes
  ss_buf_start :: nat
  ss_base_offset :: nat
  ss_sent :: nat
  ss_lost :: runs
  ss_acked :: runs
  ss_limit :: nat
  ss_fin :: bool
  ss_fin_sent :: bool
  ss_fin_acked :: bool
  ss_reset :: bool
  ss_reset_acked :: bool

text \<open>A recycled buffer is cleared before use, so only its capacity differs from a fresh one.\<close>

definition send_new :: "nat \<Rightarrow> send_stream" where
  "send_new limit =
     \<lparr>ss_buf = [], ss_buf_start = 0, ss_base_offset = 0, ss_sent = 0, ss_lost = [], ss_acked = [],
      ss_limit = limit, ss_fin = False, ss_fin_sent = False, ss_fin_acked = False, ss_reset = False,
      ss_reset_acked = False\<rparr>"

definition send_take_buf :: "send_stream \<Rightarrow> bytes \<times> send_stream" where
  "send_take_buf s = (ss_buf s, s\<lparr>ss_buf_start := 0, ss_buf := []\<rparr>)"

definition send_writable :: "send_stream \<Rightarrow> nat" where
  "send_writable s =
     (if ss_reset s then 0 else ss_limit s - (ss_base_offset s + (length (ss_buf s) - ss_buf_start s)))"

definition send_write :: "bytes \<Rightarrow> send_stream \<Rightarrow> nat \<times> send_stream" where
  "send_write data s =
     (let room = min (send_writable s) (length data);
          live = length (ss_buf s) - ss_buf_start s;
          s = (if room \<noteq> 0 \<and> ss_buf_start s \<noteq> 0 \<and> ss_buf_start s \<ge> live
               then s\<lparr>ss_buf := drop (ss_buf_start s) (ss_buf s), ss_buf_start := 0\<rparr> else s) in
      (room, s\<lparr>ss_buf := ss_buf s @ take room data\<rparr>))"

definition send_finish :: "send_stream \<Rightarrow> send_stream" where
  "send_finish s = s\<lparr>ss_fin := True\<rparr>"

definition send_set_limit :: "nat \<Rightarrow> send_stream \<Rightarrow> send_stream" where
  "send_set_limit limit s = s\<lparr>ss_limit := max (ss_limit s) limit\<rparr>"

definition send_has_pending :: "send_stream \<Rightarrow> bool" where
  "send_has_pending s \<longleftrightarrow>
     \<not> ss_reset s \<and>
     (ss_lost s \<noteq> [] \<or> length (ss_buf s) - ss_buf_start s > ss_sent s \<or> ss_fin s \<and> \<not> ss_fin_sent s)"

definition next_send :: "nat \<Rightarrow> nat \<Rightarrow> send_stream \<Rightarrow> (nat \<times> bytes \<times> bool) option" where
  "next_send max_len credit s =
     (if ss_reset s then None
      else
        let buf = drop (ss_buf_start s) (ss_buf s) in
        case ss_lost s of
          (start, stop) # _ \<Rightarrow>
            if max_len = 0 then None
            else
              let stop = start + min (stop - start) max_len in
              Some (ss_base_offset s + start, drop start (take stop buf), False)
        | [] \<Rightarrow>
            let max_len = min max_len credit;
                stop = ss_sent s + min (length buf - ss_sent s) max_len in
            if stop > ss_sent s then
              Some (ss_base_offset s + ss_sent s, drop (ss_sent s) (take stop buf), ss_fin s \<and> stop = length buf)
            else if ss_fin s \<and> \<not> ss_fin_sent s \<and> ss_sent s \<ge> length buf then
              Some (ss_base_offset s + length buf, [], True)
            else None)"

text \<open>The first queued run that starts at \<open>start\<close> gives up its first \<open>len\<close> bytes.\<close>

fun lost_sent :: "nat \<Rightarrow> nat \<Rightarrow> runs \<Rightarrow> runs option" where
  "lost_sent start len [] = None"
| "lost_sent start len ((s, e) # rs) =
     (if s = start \<and> e > start then Some (if s + len \<ge> e then rs else (s + len, e) # rs)
      else map_option (Cons (s, e)) (lost_sent start len rs))"

definition send_on_sent :: "nat \<Rightarrow> nat \<Rightarrow> bool \<Rightarrow> send_stream \<Rightarrow> nat \<times> send_stream" where
  "send_on_sent offset len fin s =
     (let start = offset - ss_base_offset s;
          (new, s) =
            (case lost_sent start len (ss_lost s) of
               Some lost \<Rightarrow> (0, s\<lparr>ss_lost := lost\<rparr>)
             | None \<Rightarrow>
                 if len > 0 then
                   let stop = start + len in
                   (stop - ss_sent s, s\<lparr>ss_sent := max (ss_sent s) stop\<rparr>)
                 else (0, s)) in
      (new, if fin then s\<lparr>ss_fin_sent := True\<rparr> else s))"

definition send_fully_sent :: "send_stream \<Rightarrow> bool" where
  "send_fully_sent s \<longleftrightarrow> ss_fin s \<and> ss_fin_sent s \<and> ss_sent s \<ge> length (ss_buf s) - ss_buf_start s"

definition send_is_settled :: "send_stream \<Rightarrow> bool" where
  "send_is_settled s =
     (if ss_reset s then ss_reset_acked s
      else ss_fin s \<and> ss_fin_acked s \<and> ss_buf_start s = length (ss_buf s))"

definition send_on_reset_acked :: "send_stream \<Rightarrow> send_stream" where
  "send_on_reset_acked s = s\<lparr>ss_reset_acked := True\<rparr>"

text \<open>The runs at the front that touch the acknowledged prefix are merged into it.\<close>

fun absorb_prefix :: "nat \<Rightarrow> runs \<Rightarrow> nat \<times> runs" where
  "absorb_prefix stop [] = (stop, [])"
| "absorb_prefix stop ((a, b) # rs) =
     (if a > stop then (stop, (a, b) # rs) else absorb_prefix (max stop b) rs)"

fun absorb_run :: "nat \<Rightarrow> nat \<Rightarrow> runs \<Rightarrow> nat \<times> nat \<times> runs" where
  "absorb_run start stop [] = (start, stop, [])"
| "absorb_run start stop ((lo, hi) # rs) =
     (if lo > stop then (start, stop, (lo, hi) # rs) else absorb_run (min start lo) (max stop hi) rs)"

fun acknowledge_lost_loop :: "nat \<Rightarrow> nat \<Rightarrow> runs \<Rightarrow> runs" where
  "acknowledge_lost_loop start stop [] = []"
| "acknowledge_lost_loop start stop ((lo, hi) # rs) =
     (if hi \<le> start \<or> lo \<ge> stop then (lo, hi) # acknowledge_lost_loop start stop rs
      else if lo < start then
        (lo, start) # (if hi > stop then [(stop, hi)] else []) @ acknowledge_lost_loop start stop rs
      else if hi > stop then (stop, hi) # acknowledge_lost_loop start stop rs
      else acknowledge_lost_loop start stop rs)"

definition acknowledge_lost :: "nat \<Rightarrow> nat \<Rightarrow> send_stream \<Rightarrow> send_stream" where
  "acknowledge_lost start stop s = s\<lparr>ss_lost := sort (acknowledge_lost_loop start stop (ss_lost s))\<rparr>"

definition release_prefix :: "nat \<Rightarrow> send_stream \<Rightarrow> send_stream" where
  "release_prefix stop s =
     (let (stop, acked) = absorb_prefix stop (ss_acked s);
          n = min (stop - ss_base_offset s) (length (ss_buf s) - ss_buf_start s);
          start = ss_buf_start s + n;
          (buf, start) = (if start = length (ss_buf s) then ([], 0) else (ss_buf s, start)) in
      s\<lparr>ss_acked := acked, ss_buf := buf, ss_buf_start := start,
        ss_base_offset := ss_base_offset s + n, ss_sent := ss_sent s - n,
        ss_lost := filter (\<lambda>(a, b). b > a) (map (\<lambda>(a, b). (a - n, b - n)) (ss_lost s))\<rparr>)"

definition remember_run :: "nat \<Rightarrow> nat \<Rightarrow> send_stream \<Rightarrow> send_stream" where
  "remember_run offset stop s =
     (let front = takeWhile (\<lambda>(_, b). b < offset) (ss_acked s);
          (start, stop, rest) = absorb_run offset stop (drop (length front) (ss_acked s)) in
      acknowledge_lost (start - ss_base_offset s) (stop - ss_base_offset s)
        (s\<lparr>ss_acked := front @ (start, stop) # rest\<rparr>))"

definition send_on_acked :: "nat \<Rightarrow> nat \<Rightarrow> bool \<Rightarrow> send_stream \<Rightarrow> send_stream" where
  "send_on_acked offset len fin s =
     (if ss_reset s then s
      else
        let s = (if fin then s\<lparr>ss_fin_acked := True, ss_fin_sent := True\<rparr> else s);
            stop = offset + len in
        if len = 0 \<or> stop \<le> ss_base_offset s then s
        else if offset \<le> ss_base_offset s then release_prefix stop s
        else remember_run offset stop s)"

text \<open>
  The parts of \<open>[start, stop)\<close> that no sparse acknowledgement covers; \<open>fst\<close> of the result are the gaps
  pushed by the loop, \<open>snd\<close> is where the last one starts.
\<close>

fun lost_gaps :: "nat \<Rightarrow> nat \<Rightarrow> runs \<Rightarrow> runs \<times> nat" where
  "lost_gaps stop start [] = ([], start)"
| "lost_gaps stop start ((lo, hi) # rs) =
     (if lo \<ge> stop then ([], start)
      else if hi \<le> start then lost_gaps stop start rs
      else case lost_gaps stop (max start hi) rs of
        (gaps, start') \<Rightarrow> ((if lo > start then [(start, lo)] else []) @ gaps, start'))"

definition send_on_lost :: "nat \<Rightarrow> nat \<Rightarrow> bool \<Rightarrow> send_stream \<Rightarrow> send_stream" where
  "send_on_lost offset len fin s =
     (if ss_reset s then s
      else
        let s = (if fin \<and> \<not> ss_fin_acked s then s\<lparr>ss_fin_sent := False\<rparr> else s) in
        if offset + len \<le> ss_base_offset s then s
        else
          let base = ss_base_offset s;
              start = max offset base;
              stop = min (offset + len) (base + min (ss_sent s) (length (ss_buf s) - ss_buf_start s));
              (gaps, start) = lost_gaps stop start (ss_acked s);
              gaps = gaps @ (if stop > start then [(start, stop)] else []) in
          s\<lparr>ss_lost := sort (ss_lost s @ map (\<lambda>(a, b). (a - base, b - base)) gaps)\<rparr>)"

definition send_reset :: "send_stream \<Rightarrow> nat \<times> send_stream" where
  "send_reset s =
     (ss_base_offset s + ss_sent s,
      s\<lparr>ss_reset := True, ss_buf := [], ss_buf_start := 0, ss_lost := [], ss_acked := []\<rparr>)"

section \<open>Runs as sets of offsets\<close>

definition runs_set :: "runs \<Rightarrow> nat set" where
  "runs_set rs = (\<Union>(a, b) \<in> set rs. {a..<b})"

lemma runs_set_simps [simp]:
  "runs_set [] = {}"
  "runs_set ((a, b) # rs) = {a..<b} \<union> runs_set rs"
  "runs_set (rs @ rs') = runs_set rs \<union> runs_set rs'"
  by (auto simp: runs_set_def)

lemma runs_set_sort [simp]: "runs_set (sort rs) = runs_set rs"
  by (simp add: runs_set_def)

text \<open>Sparse acknowledgements: nonempty, ascending, never touching, inside the given bounds.\<close>

fun sparse :: "nat \<Rightarrow> nat \<Rightarrow> runs \<Rightarrow> bool" where
  "sparse lo hi [] = True"
| "sparse lo hi ((a, b) # rs) \<longleftrightarrow> lo < a \<and> a < b \<and> b \<le> hi \<and> sparse b hi rs"

lemma sparse_mono: "sparse lo hi rs \<Longrightarrow> lo' \<le> lo \<Longrightarrow> hi \<le> hi' \<Longrightarrow> sparse lo' hi' rs"
  by (induction rs arbitrary: lo lo') force+

lemma sparse_above: "sparse lo hi rs \<Longrightarrow> runs_set rs \<subseteq> {lo<..<hi}"
proof (induction rs arbitrary: lo)
  case (Cons r rs)
  then show ?case using Cons.IH [of "snd r"] by (cases r) fastforce
qed simp

lemma sparse_ge:
  assumes "sparse lo hi rs" "rs \<noteq> [] \<Longrightarrow> x \<le> snd (hd rs)"
  shows "\<forall>(a, b) \<in> set rs. x \<le> b"
  using assms
proof (induction rs arbitrary: lo)
  case (Cons r rs)
  then show ?case using Cons.IH [of "snd r"] by (cases r; cases rs) fastforce+
qed simp

lemma sparse_lower: "sparse lo hi rs \<Longrightarrow> rs \<noteq> [] \<Longrightarrow> lo < snd (last rs)"
proof (induction rs arbitrary: lo)
  case (Cons r rs)
  then show ?case by (cases r; cases "rs = []") fastforce+
qed simp

lemma sparse_append:
  "sparse lo hi (xs @ ys) \<longleftrightarrow> sparse lo hi xs \<and> sparse (if xs = [] then lo else snd (last xs)) hi ys"
  by (induction xs arbitrary: lo) auto

lemma absorb_prefix_spec:
  assumes "sparse lo hi rs" "stop \<le> hi" "absorb_prefix stop rs = (stop', rest)"
  shows "stop \<le> stop' \<and> stop' \<le> hi \<and> sparse stop' hi rest
     \<and> {..<stop'} \<union> runs_set rest = {..<stop} \<union> runs_set rs"
  using assms
proof (induction stop rs arbitrary: lo rule: absorb_prefix.induct)
  case (2 stop a b rs)
  show ?case
  proof (cases "a > stop")
    case False
    then have "max stop b \<le> stop' \<and> stop' \<le> hi \<and> sparse stop' hi rest
        \<and> {..<stop'} \<union> runs_set rest = {..<max stop b} \<union> runs_set rs"
      using 2 by auto
    moreover have "{..<max stop b} = {..<stop} \<union> {a..<b}" using False by auto
    ultimately show ?thesis by auto
  qed (use 2 in auto)
qed simp

lemma absorb_run_spec:
  assumes "sparse lo hi rs" "lo < start" "start < stop" "stop \<le> hi" "\<forall>(a, b) \<in> set rs. start \<le> b"
    and "absorb_run start stop rs = (start', stop', rest)"
  shows "lo < start' \<and> start' \<le> start \<and> stop \<le> stop' \<and> stop' \<le> hi \<and> sparse stop' hi rest
     \<and> {start'..<stop'} \<union> runs_set rest = {start..<stop} \<union> runs_set rs"
  using assms
proof (induction start stop rs arbitrary: rule: absorb_run.induct)
  case (2 start stop a b rs)
  show ?case
  proof (cases "a > stop")
    case False
    have ab: "lo < a" "a < b" "b \<le> hi" "sparse b hi rs" "start \<le> b" using 2 by auto
    have "sparse lo hi rs" using sparse_mono [OF ab(4), of lo hi] ab by simp
    moreover have "absorb_run (min start a) (max stop b) rs = (start', stop', rest)" using 2 False by simp
    moreover have "\<forall>(a', b') \<in> set rs. min start a \<le> b'" using 2(6) by auto
    ultimately have "lo < start' \<and> start' \<le> min start a \<and> max stop b \<le> stop' \<and> stop' \<le> hi \<and> sparse stop' hi rest
        \<and> {start'..<stop'} \<union> runs_set rest = {min start a..<max stop b} \<union> runs_set rs"
      using 2(1) [OF False] 2(3-5) ab by auto
    moreover have "{min start a..<max stop b} = {start..<stop} \<union> {a..<b}" using False ab by auto
    ultimately show ?thesis by auto
  qed (use 2 in auto)
qed auto

lemma acknowledge_lost_loop_spec:
  assumes "\<forall>(a, b) \<in> set rs. a < b \<and> b \<le> n" "start < stop"
  shows "(\<forall>(a, b) \<in> set (acknowledge_lost_loop start stop rs). a < b \<and> b \<le> n)
     \<and> runs_set (acknowledge_lost_loop start stop rs) = runs_set rs - {start..<stop}"
  using assms by (induction rs) (auto split: if_splits)

lemma lost_gaps_spec:
  assumes "sparse lo hi rs" "lost_gaps stop start rs = (gaps, start')"
  shows "start \<le> start' \<and> (\<forall>(a, b) \<in> set gaps. start \<le> a \<and> a < b \<and> b \<le> stop)
     \<and> runs_set gaps \<union> {start'..<stop} = {start..<stop} - runs_set rs"
  using assms
proof (induction stop start rs arbitrary: lo gaps rule: lost_gaps.induct)
  case (2 stop start a b rs)
  have ab: "a < b" "sparse b hi rs" using 2(3) by auto
  have above: "runs_set rs \<subseteq> {b<..<hi}" using sparse_above [OF ab(2)] .
  consider "a \<ge> stop" | "a < stop" "b \<le> start" | "a < stop" "start < b" by linarith
  then show ?case
  proof cases
    case 1
    then show ?thesis using 2(4) ab above by fastforce
  next
    case 2
    have "start \<le> start' \<and> (\<forall>(a, b) \<in> set gaps. start \<le> a \<and> a < b \<and> b \<le> stop)
        \<and> runs_set gaps \<union> {start'..<stop} = {start..<stop} - runs_set rs"
      using 2 \<open>lost_gaps stop start ((a, b) # rs) = (gaps, start')\<close> ab(2)
      by (intro "2.IH"(1)) auto
    then show ?thesis using 2 by auto
  next
    case 3
    then have mx: "max start b = b" by simp
    obtain gaps' where rec: "lost_gaps stop b rs = (gaps', start')"
      "gaps = (if a > start then [(start, a)] else []) @ gaps'"
      using 3 mx \<open>lost_gaps stop start ((a, b) # rs) = (gaps, start')\<close> by (auto split: prod.splits)
    then have IH: "b \<le> start' \<and> (\<forall>(c, d) \<in> set gaps'. b \<le> c \<and> c < d \<and> d \<le> stop)
        \<and> runs_set gaps' \<union> {start'..<stop} = {b..<stop} - runs_set rs"
      using "2.IH"(2) [of b gaps', unfolded mx] 3 ab(2) by simp
    have set_eq: "{start..<stop} - ({a..<b} \<union> runs_set rs)
        = (if a > start then {start..<a} else {}) \<union> ({b..<stop} - runs_set rs)"
      using 3 ab above by auto
    show ?thesis using IH rec(2) 3 set_eq by (auto split: if_splits)
  qed
qed simp

section \<open>Everything sent is acknowledged, queued or in flight\<close>

text \<open>
  A sending stream together with what only an observer sees: the runs in flight (offset, length, FIN),
  everything written, the offsets acknowledged so far, and how many bytes were sent for the first time.
\<close>

record send_sys =
  sy_stream :: send_stream
  sy_flight :: "(nat \<times> nat \<times> bool) list"
  sy_written :: bytes
  sy_acked :: "nat set"
  sy_new :: nat

definition send_start :: "nat \<Rightarrow> send_sys" where
  "send_start limit = \<lparr>sy_stream = send_new limit, sy_flight = [], sy_written = [], sy_acked = {}, sy_new = 0\<rparr>"

inductive send_step :: "send_sys \<Rightarrow> send_sys \<Rightarrow> bool" where
  on_write: "\<not> ss_fin (sy_stream y) \<Longrightarrow> send_write data (sy_stream y) = (n, s) \<Longrightarrow>
     send_step y (y\<lparr>sy_stream := s, sy_written := sy_written y @ take n data\<rparr>)"
| on_finish: "send_step y (y\<lparr>sy_stream := send_finish (sy_stream y)\<rparr>)"
| on_set_limit: "send_step y (y\<lparr>sy_stream := send_set_limit limit (sy_stream y)\<rparr>)"
| on_transmit: "next_send max_len credit (sy_stream y) = Some (offset, data, fin) \<Longrightarrow>
     send_on_sent offset (length data) fin (sy_stream y) = (new, s) \<Longrightarrow>
     send_step y (y\<lparr>sy_stream := s, sy_flight := (offset, length data, fin) # sy_flight y, sy_new := sy_new y + new\<rparr>)"
| on_acked: "(offset, len, fin) \<in> set (sy_flight y) \<Longrightarrow>
     send_step y (y\<lparr>sy_stream := send_on_acked offset len fin (sy_stream y),
       sy_flight := remove1 (offset, len, fin) (sy_flight y), sy_acked := sy_acked y \<union> {offset..<offset + len}\<rparr>)"
| on_lost: "(offset, len, fin) \<in> set (sy_flight y) \<Longrightarrow>
     send_step y (y\<lparr>sy_stream := send_on_lost offset len fin (sy_stream y),
       sy_flight := remove1 (offset, len, fin) (sy_flight y)\<rparr>)"
| on_reset: "send_reset (sy_stream y) = (final_size, s) \<Longrightarrow> send_step y (y\<lparr>sy_stream := s\<rparr>)"
| on_reset_acked: "send_step y (y\<lparr>sy_stream := send_on_reset_acked (sy_stream y)\<rparr>)"

definition live :: "send_stream \<Rightarrow> bytes" where
  "live s = drop (ss_buf_start s) (ss_buf s)"

definition run_set :: "nat \<times> nat \<times> bool \<Rightarrow> nat set" where
  "run_set r = (case r of (offset, len, _) \<Rightarrow> {offset..<offset + len})"

definition flight_set :: "(nat \<times> nat \<times> bool) list \<Rightarrow> nat set" where
  "flight_set fl = (\<Union>r \<in> set fl. run_set r)"

text \<open>The shape of the stream itself, then what ties it to the observer's view.\<close>

definition send_ok :: "send_stream \<Rightarrow> bool" where
  "send_ok s \<longleftrightarrow>
     ss_buf_start s \<le> length (ss_buf s) \<and> ss_sent s \<le> length (live s)
     \<and> ss_base_offset s + length (live s) \<le> ss_limit s
     \<and> (\<forall>(a, b) \<in> set (ss_lost s). a < b \<and> b \<le> ss_sent s)
     \<and> sparse (ss_base_offset s) (ss_base_offset s + ss_sent s) (ss_acked s)
     \<and> (ss_fin_sent s \<longrightarrow> ss_fin s \<and> ss_sent s = length (live s)) \<and> (ss_fin_acked s \<longrightarrow> ss_fin s)"

text \<open>What of it does not depend on the FIN.\<close>

definition send_shape :: "send_stream \<Rightarrow> bool" where
  "send_shape s \<longleftrightarrow>
     ss_buf_start s \<le> length (ss_buf s) \<and> ss_sent s \<le> length (live s)
     \<and> ss_base_offset s + length (live s) \<le> ss_limit s
     \<and> (\<forall>(a, b) \<in> set (ss_lost s). a < b \<and> b \<le> ss_sent s)
     \<and> sparse (ss_base_offset s) (ss_base_offset s + ss_sent s) (ss_acked s)"

lemma send_ok_shape: "send_ok s \<Longrightarrow> send_shape s"
  by (simp add: send_ok_def send_shape_def)

definition send_tied :: "send_sys \<Rightarrow> bool" where
  "send_tied y \<longleftrightarrow> (let s = sy_stream y in
     live s = drop (ss_base_offset s) (sy_written y)
     \<and> ss_base_offset s \<le> length (sy_written y)
     \<and> sy_acked y = {..<ss_base_offset s} \<union> runs_set (ss_acked s)
     \<and> {..<ss_base_offset s + ss_sent s} \<subseteq> sy_acked y \<union> (+) (ss_base_offset s) ` runs_set (ss_lost s) \<union> flight_set (sy_flight y)
     \<and> (\<forall>(offset, len, fin) \<in> set (sy_flight y). fin \<longrightarrow> offset + len = length (sy_written y))
     \<and> (ss_fin_sent s \<longrightarrow> ss_fin_acked s \<or> (\<exists>o1 l. (o1, l, True) \<in> set (sy_flight y))))"

definition send_flight_ok :: "send_sys \<Rightarrow> bool" where
  "send_flight_ok y \<longleftrightarrow>
     (\<forall>(offset, len, fin) \<in> set (sy_flight y).
        offset + len \<le> ss_base_offset (sy_stream y) + ss_sent (sy_stream y) \<and> (fin \<longrightarrow> ss_fin (sy_stream y)))
     \<and> sy_new y = ss_base_offset (sy_stream y) + ss_sent (sy_stream y)"

definition send_inv :: "send_sys \<Rightarrow> bool" where
  "send_inv y \<longleftrightarrow> send_flight_ok y \<and> (\<not> ss_reset (sy_stream y) \<longrightarrow> send_ok (sy_stream y) \<and> send_tied y)"

lemma drop_take_swap: "drop a (take (a + k) xs) = take k (drop a xs)"
  by (simp add: take_drop add.commute)

lemma send_write_live:
  assumes "ss_buf_start s \<le> length (ss_buf s)" "send_write data s = (n, s')"
  shows "live s' = live s @ take n data" "ss_buf_start s' \<le> length (ss_buf s')"
    "n = min (send_writable s) (length data)"
    "s' = s\<lparr>ss_buf := ss_buf s', ss_buf_start := ss_buf_start s'\<rparr>"
proof -
  let ?compact = "min (send_writable s) (length data) \<noteq> 0 \<and> ss_buf_start s \<noteq> 0 \<and>
      ss_buf_start s \<ge> length (ss_buf s) - ss_buf_start s"
  have n: "n = min (send_writable s) (length data)"
    using assms(2) by (auto simp: send_write_def Let_def)
  show "n = min (send_writable s) (length data)" by (rule n)
  have "s' = (if ?compact then s\<lparr>ss_buf := live s @ take n data, ss_buf_start := 0\<rparr>
      else s\<lparr>ss_buf := ss_buf s @ take n data\<rparr>)"
    using assms(2) unfolding send_write_def Let_def live_def n [symmetric] by (auto split: if_splits)
  then show "live s' = live s @ take n data" "ss_buf_start s' \<le> length (ss_buf s')"
    "s' = s\<lparr>ss_buf := ss_buf s', ss_buf_start := ss_buf_start s'\<rparr>"
    using assms(1) by (auto simp: live_def)
qed

lemma next_send_Nil:
  assumes "\<not> ss_reset s" "ss_lost s = []" "k = min (length (live s) - ss_sent s) (min max_len credit)"
  shows "next_send max_len credit s =
     (if 0 < k then
        Some (ss_base_offset s + ss_sent s, take k (drop (ss_sent s) (live s)), ss_fin s \<and> ss_sent s + k = length (live s))
      else if ss_fin s \<and> \<not> ss_fin_sent s \<and> ss_sent s \<ge> length (live s) then
        Some (ss_base_offset s + length (live s), [], True)
      else None)"
  using assms(1,2) unfolding next_send_def Let_def live_def [symmetric] assms(3) [symmetric]
  by (simp add: drop_take_swap)

lemma transmit_cases:
  assumes ok: "send_shape s" and "\<not> ss_reset s"
    and send: "next_send max_len credit s = Some (offset, data, fin)"
    and on: "send_on_sent offset (length data) fin s = (new, s')"
  obtains
    (resend) a b rest k where "ss_lost s = (a, b) # rest" "0 < k" "a + k \<le> b" "offset = ss_base_offset s + a"
      "data = take k (drop a (live s))" "length data = k" "\<not> fin" "new = 0"
      "s' = s\<lparr>ss_lost := if a + k = b then rest else (a + k, b) # rest\<rparr>"
  | (fresh) k where "ss_lost s = []" "0 < k" "ss_sent s + k \<le> length (live s)" "k \<le> credit"
      "offset = ss_base_offset s + ss_sent s" "data = take k (drop (ss_sent s) (live s))" "length data = k"
      "fin = (ss_fin s \<and> ss_sent s + k = length (live s))" "new = k"
      "s' = s\<lparr>ss_sent := ss_sent s + k, ss_fin_sent := ss_fin_sent s \<or> fin\<rparr>"
  | (only_fin) "ss_lost s = []" "ss_sent s = length (live s)" "ss_fin s" "offset = ss_base_offset s + ss_sent s"
      "data = []" "fin" "new = 0" "s' = s\<lparr>ss_fin_sent := True\<rparr>"
proof (cases "ss_lost s")
  case (Cons r rest)
  obtain a b where r: "r = (a, b)" by force
  define k where "k = min (b - a) max_len"
  have ab: "a < b" "b \<le> length (live s)" using ok Cons r by (auto simp: send_shape_def)
  have "max_len \<noteq> 0" and f: "offset = ss_base_offset s + a" "data = take k (drop a (live s))" "\<not> fin"
    using send assms(2) by (auto simp: next_send_def Cons r drop_take_swap k_def live_def split: if_splits)
  then have k: "0 < k" "a + k \<le> b" "length data = k" using ab by (auto simp: k_def)
  have "(new, s') = (0, s\<lparr>ss_lost := if a + k = b then rest else (a + k, b) # rest\<rparr>)"
    using on f k ab by (auto simp: send_on_sent_def Cons r)
  then show thesis using resend Cons r f k by blast
next
  case Nil
  define k where "k = min (length (live s) - ss_sent s) (min max_len credit)"
  have sent: "ss_sent s \<le> length (live s)" using ok by (simp add: send_shape_def)
  show thesis
  proof (cases "0 < k")
    case True
    then have f: "offset = ss_base_offset s + ss_sent s" "data = take k (drop (ss_sent s) (live s))"
      "fin = (ss_fin s \<and> ss_sent s + k = length (live s))"
      using send next_send_Nil [OF assms(2) Nil k_def] by auto
    have k: "length data = k" "ss_sent s + k \<le> length (live s)" "k \<le> credit"
      using sent f by (auto simp: k_def)
    have "(new, s') = (k, s\<lparr>ss_sent := ss_sent s + k, ss_fin_sent := ss_fin_sent s \<or> fin\<rparr>)"
      using on f(1) k True by (auto simp: send_on_sent_def Nil)
    then show thesis using fresh [OF Nil True] f k by blast
  next
    case False
    then have f: "offset = ss_base_offset s + length (live s)" "data = []" "fin" "ss_fin s" "ss_sent s \<ge> length (live s)"
      using send next_send_Nil [OF assms(2) Nil k_def] by (auto split: if_splits)
    then show thesis using only_fin [OF Nil] on sent by (simp add: send_on_sent_def Nil)
  qed
qed

text \<open>Every frame carries the bytes that were written at its offset, within the peer's limit.\<close>

lemma frame_content:
  assumes ok: "send_ok s" and "\<not> ss_reset s" and w: "live s = drop (ss_base_offset s) w" "ss_base_offset s \<le> length w"
    and send: "next_send max_len credit s = Some (offset, data, fin)"
  shows "data = take (length data) (drop offset w)" "offset + length data \<le> length w"
    "offset + length data \<le> ss_limit s" "fin \<Longrightarrow> ss_fin s \<and> offset + length data = length w"
proof -
  obtain new s' where on: "send_on_sent offset (length data) fin s = (new, s')" by force
  have len: "length (live s) = length w - ss_base_offset s" "ss_base_offset s + length (live s) \<le> ss_limit s"
    "\<forall>(a, b) \<in> set (ss_lost s). b \<le> length (live s)" "ss_sent s \<le> length (live s)"
    using ok w by (auto simp: send_ok_def)
  have "data = take (length data) (drop offset w) \<and> offset + length data \<le> length w
     \<and> offset + length data \<le> ss_limit s \<and> (fin \<longrightarrow> ss_fin s \<and> offset + length data = length w)"
    using send_ok_shape [OF ok] assms(2) send on
    by (rule transmit_cases) (use len w(2) in \<open>auto simp: w(1) add.commute\<close>)
  then show "data = take (length data) (drop offset w)" "offset + length data \<le> length w"
    "offset + length data \<le> ss_limit s" "fin \<Longrightarrow> ss_fin s \<and> offset + length data = length w" by auto
qed

lemma shift_runs:
  "runs_set (filter (\<lambda>(a, b). b > a) (map (\<lambda>(a, b). (a - n, b - n)) rs)) = {x. x + n \<in> runs_set rs}"
  for n :: nat
proof (induction rs)
  case (Cons r rs)
  obtain a b where r: "r = (a, b)" by force
  have "{x. x + n \<in> {a..<b}} = {a - n..<b - n}" by auto
  then show ?case using Cons by (auto simp: r)
qed simp

lemma release_prefix_spec:
  assumes ok: "send_shape s" and stop: "ss_base_offset s < stop" "stop \<le> ss_base_offset s + ss_sent s"
  obtains n where "stop \<le> ss_base_offset s + n" "n \<le> ss_sent s"
    "{..<ss_base_offset s + n} \<union> runs_set (ss_acked (release_prefix stop s)) = {..<stop} \<union> runs_set (ss_acked s)"
    "sparse (ss_base_offset s + n) (ss_base_offset s + ss_sent s) (ss_acked (release_prefix stop s))"
    "live (release_prefix stop s) = drop n (live s)"
    "ss_buf_start (release_prefix stop s) \<le> length (ss_buf (release_prefix stop s))"
    "runs_set (ss_lost (release_prefix stop s)) = {x. x + n \<in> runs_set (ss_lost s)}"
    "\<forall>(a, b) \<in> set (ss_lost (release_prefix stop s)). a < b \<and> b \<le> ss_sent s - n"
    "release_prefix stop s = s\<lparr>ss_acked := ss_acked (release_prefix stop s), ss_buf := ss_buf (release_prefix stop s),
       ss_buf_start := ss_buf_start (release_prefix stop s), ss_base_offset := ss_base_offset s + n,
       ss_sent := ss_sent s - n, ss_lost := ss_lost (release_prefix stop s)\<rparr>"
proof -
  let ?base = "ss_base_offset s"
  obtain stop' rest where ab: "absorb_prefix stop (ss_acked s) = (stop', rest)" by force
  have sp: "sparse ?base (?base + ss_sent s) (ss_acked s)" using ok by (simp add: send_shape_def)
  note spec = absorb_prefix_spec [OF sp stop(2) ab]
  define n where "n = stop' - ?base"
  have n: "stop' = ?base + n" "n \<le> ss_sent s" using spec stop by (auto simp: n_def)
  have len: "n \<le> length (live s)" "ss_buf_start s \<le> length (ss_buf s)" using n ok by (auto simp: send_shape_def)
  then have m: "min (stop' - ?base) (length (ss_buf s) - ss_buf_start s) = n" by (simp add: n live_def)
  have eq: "release_prefix stop s = s\<lparr>ss_acked := rest,
      ss_buf := (if ss_buf_start s + n = length (ss_buf s) then [] else ss_buf s),
      ss_buf_start := (if ss_buf_start s + n = length (ss_buf s) then 0 else ss_buf_start s + n),
      ss_base_offset := ?base + n, ss_sent := ss_sent s - n,
      ss_lost := filter (\<lambda>(a, b). b > a) (map (\<lambda>(a, b). (a - n, b - n)) (ss_lost s))\<rparr>"
    by (simp add: release_prefix_def ab m Let_def)
  have lost: "\<forall>(a, b) \<in> set (ss_lost s). b \<le> ss_sent s" using ok by (auto simp: send_shape_def)
  show thesis
  proof (rule that [of n])
    show "live (release_prefix stop s) = drop n (live s)" using len by (simp add: eq live_def add.commute)
    show "ss_buf_start (release_prefix stop s) \<le> length (ss_buf (release_prefix stop s))"
      using len by (auto simp: eq live_def)
    show "runs_set (ss_lost (release_prefix stop s)) = {x. x + n \<in> runs_set (ss_lost s)}"
      by (simp add: eq shift_runs)
    show "\<forall>(a, b) \<in> set (ss_lost (release_prefix stop s)). a < b \<and> b \<le> ss_sent s - n"
      using lost by (auto simp: eq intro: diff_le_mono)
  qed (use spec n stop in \<open>auto simp: eq\<close>)
qed

lemma remember_run_spec:
  assumes ok: "send_shape s" and run: "ss_base_offset s < offset" "offset < stop" "stop \<le> ss_base_offset s + ss_sent s"
  shows "sparse (ss_base_offset s) (ss_base_offset s + ss_sent s) (ss_acked (remember_run offset stop s))"
    "runs_set (ss_acked (remember_run offset stop s)) = runs_set (ss_acked s) \<union> {offset..<stop}"
    "\<forall>(a, b) \<in> set (ss_lost (remember_run offset stop s)). a < b \<and> b \<le> ss_sent s"
    "(+) (ss_base_offset s) ` runs_set (ss_lost s)
       \<subseteq> (+) (ss_base_offset s) ` runs_set (ss_lost (remember_run offset stop s))
         \<union> runs_set (ss_acked (remember_run offset stop s))"
    "remember_run offset stop s = s\<lparr>ss_acked := ss_acked (remember_run offset stop s),
       ss_lost := ss_lost (remember_run offset stop s)\<rparr>"
proof -
  let ?base = "ss_base_offset s" and ?hi = "ss_base_offset s + ss_sent s"
  let ?front = "takeWhile (\<lambda>(_, b). b < offset) (ss_acked s)"
  let ?behind = "dropWhile (\<lambda>(_, b). b < offset) (ss_acked s)"
  let ?lo = "if ?front = [] then ?base else snd (last ?front)"
  have cut: "drop (length ?front) (ss_acked s) = ?behind" by (simp add: dropWhile_eq_drop)
  have "sparse ?base ?hi (?front @ ?behind)" using ok by (simp add: send_shape_def)
  then have sp: "sparse ?base ?hi ?front" "sparse ?lo ?hi ?behind" unfolding sparse_append by blast+
  have "?front \<noteq> [] \<Longrightarrow> snd (last ?front) < offset"
    using last_in_set [of ?front] set_takeWhileD [of "last ?front" "\<lambda>(_, b). b < offset" "ss_acked s"]
    by (auto simp: case_prod_beta)
  then have lo: "?lo < offset" using run by simp
  have "?behind \<noteq> [] \<Longrightarrow> offset \<le> snd (hd ?behind)"
    using hd_dropWhile [of "\<lambda>(_, b). b < offset" "ss_acked s"] by (auto simp: case_prod_beta)
  then have back_ge: "\<forall>(a, b) \<in> set ?behind. offset \<le> b" by (rule sparse_ge [OF sp(2)])
  obtain start' stop' rest where ab: "absorb_run offset stop ?behind = (start', stop', rest)" by (metis prod_cases3)
  note spec = absorb_run_spec [OF sp(2) lo run(2,3) back_ge ab]
  let ?acked = "?front @ (start', stop') # rest"
  let ?lost = "acknowledge_lost_loop (start' - ?base) (stop' - ?base) (ss_lost s)"
  have eq: "remember_run offset stop s = s\<lparr>ss_acked := ?acked, ss_lost := sort ?lost\<rparr>"
    by (simp add: remember_run_def acknowledge_lost_def cut ab Let_def)
  have base: "?base < start'" using spec sparse_lower [OF sp(1)] run by (auto split: if_splits)
  show "sparse ?base ?hi (ss_acked (remember_run offset stop s))"
    using spec sp(1) base run by (simp add: eq sparse_append)
  show acked: "runs_set (ss_acked (remember_run offset stop s)) = runs_set (ss_acked s) \<union> {offset..<stop}"
  proof -
    have "runs_set (ss_acked s) = runs_set ?front \<union> runs_set ?behind"
      by (metis runs_set_simps(3) takeWhile_dropWhile_id)
    then show ?thesis using spec by (auto simp: eq)
  qed
  have lt: "start' - ?base < stop' - ?base" using base spec run by linarith
  have "\<forall>(a, b) \<in> set (ss_lost s). a < b \<and> b \<le> ss_sent s" using ok by (simp add: send_shape_def)
  note lost = acknowledge_lost_loop_spec [OF this lt]
  then show "\<forall>(a, b) \<in> set (ss_lost (remember_run offset stop s)). a < b \<and> b \<le> ss_sent s"
    by (simp add: eq)
  have "x \<in> runs_set ?lost \<or> ?base + x \<in> {start'..<stop'}" if "x \<in> runs_set (ss_lost s)" for x
    using lost that base by auto
  then show "(+) ?base ` runs_set (ss_lost s)
       \<subseteq> (+) ?base ` runs_set (ss_lost (remember_run offset stop s)) \<union> runs_set (ss_acked (remember_run offset stop s))"
    by (fastforce simp: eq)
  show "remember_run offset stop s = s\<lparr>ss_acked := ss_acked (remember_run offset stop s),
       ss_lost := ss_lost (remember_run offset stop s)\<rparr>" by (simp add: eq)
qed

lemma unshift_runs:
  assumes "\<forall>(a, b) \<in> set rs. n \<le> a \<and> a < b \<and> b \<le> m"
  shows "(+) n ` runs_set (map (\<lambda>(a, b). (a - n, b - n)) rs) = runs_set rs"
  using assms
proof (induction rs)
  case (Cons r rs)
  obtain a b where r: "r = (a, b)" by force
  have "(+) n ` {a - n..<b - n} = {a..<b}" using Cons.prems by (simp add: r)
  then show ?case using Cons by (simp add: r image_Un)
qed simp

lemma on_lost_eq:
  assumes "\<not> ss_reset s" "\<not> offset + len \<le> ss_base_offset s"
    "stop = min (offset + len) (ss_base_offset s + min (ss_sent s) (length (ss_buf s) - ss_buf_start s))"
    "lost_gaps stop (max offset (ss_base_offset s)) (ss_acked s) = (gaps, start)"
  shows "send_on_lost offset len fin s =
     s\<lparr>ss_fin_sent := ss_fin_sent s \<and> (ss_fin_acked s \<or> \<not> fin),
       ss_lost := sort (ss_lost s @ map (\<lambda>(a, b). (a - ss_base_offset s, b - ss_base_offset s))
         (gaps @ (if stop > start then [(start, stop)] else [])))\<rparr>"
proof -
  let ?s = "if fin \<and> \<not> ss_fin_acked s then s\<lparr>ss_fin_sent := False\<rparr> else s"
  have same: "ss_base_offset ?s = ss_base_offset s" "ss_sent ?s = ss_sent s" "ss_buf ?s = ss_buf s"
    "ss_buf_start ?s = ss_buf_start s" "ss_acked ?s = ss_acked s" "ss_lost ?s = ss_lost s"
    by simp_all
  have fin: "?s = s\<lparr>ss_fin_sent := ss_fin_sent s \<and> (ss_fin_acked s \<or> \<not> fin)\<rparr>"
    by (cases fin; cases "ss_fin_acked s") simp_all
  show ?thesis
    unfolding send_on_lost_def Let_def if_not_P [OF assms(1)] same if_not_P [OF assms(2)] assms(3) [symmetric]
      assms(4) prod.case unfolding fin ..
qed

lemma on_lost_spec:
  assumes ok: "send_ok s" and run: "offset + len \<le> ss_base_offset s + ss_sent s" and r: "\<not> ss_reset s"
  shows "\<forall>(a, b) \<in> set (ss_lost (send_on_lost offset len fin s)). a < b \<and> b \<le> ss_sent s"
    "{offset..<offset + len} \<subseteq> {..<ss_base_offset s} \<union> runs_set (ss_acked s)
       \<union> (+) (ss_base_offset s) ` runs_set (ss_lost (send_on_lost offset len fin s))"
    "runs_set (ss_lost s) \<subseteq> runs_set (ss_lost (send_on_lost offset len fin s))"
    "send_on_lost offset len fin s = s\<lparr>ss_fin_sent := ss_fin_sent s \<and> (ss_fin_acked s \<or> \<not> fin),
       ss_lost := ss_lost (send_on_lost offset len fin s)\<rparr>"
proof -
  let ?base = "ss_base_offset s"
  have old: "\<forall>(a, b) \<in> set (ss_lost s). a < b \<and> b \<le> ss_sent s" using ok by (simp add: send_ok_def)
  have "(\<forall>(a, b) \<in> set (ss_lost (send_on_lost offset len fin s)). a < b \<and> b \<le> ss_sent s)
     \<and> {offset..<offset + len} \<subseteq> {..<?base} \<union> runs_set (ss_acked s) \<union> (+) ?base ` runs_set (ss_lost (send_on_lost offset len fin s))
     \<and> runs_set (ss_lost s) \<subseteq> runs_set (ss_lost (send_on_lost offset len fin s))
     \<and> send_on_lost offset len fin s = s\<lparr>ss_fin_sent := ss_fin_sent s \<and> (ss_fin_acked s \<or> \<not> fin),
       ss_lost := ss_lost (send_on_lost offset len fin s)\<rparr>"
  proof (cases "offset + len \<le> ?base")
    case True
    then show ?thesis using r old by (auto simp: send_on_lost_def)
  next
    case False
    obtain gaps start where g: "lost_gaps (offset + len) (max offset ?base) (ss_acked s) = (gaps, start)" by force
    have sp: "sparse ?base (?base + ss_sent s) (ss_acked s)" using ok by (simp add: send_ok_def)
    note spec = lost_gaps_spec [OF sp g]
    define all where "all = gaps @ (if offset + len > start then [(start, offset + len)] else [])"
    have stop: "min (offset + len) (?base + min (ss_sent s) (length (ss_buf s) - ss_buf_start s)) = offset + len"
      using run ok by (simp add: send_ok_def live_def)
    let ?lost = "sort (ss_lost s @ map (\<lambda>(a, b). (a - ?base, b - ?base)) all)"
    have eq: "send_on_lost offset len fin s = s\<lparr>ss_fin_sent := ss_fin_sent s \<and> (ss_fin_acked s \<or> \<not> fin), ss_lost := ?lost\<rparr>"
      unfolding all_def using on_lost_eq [OF r False stop [symmetric] g] .
    then have lost: "ss_lost (send_on_lost offset len fin s) = ?lost" by simp
    have all: "\<forall>(a, b) \<in> set all. ?base \<le> a \<and> a < b \<and> b \<le> ?base + ss_sent s"
      "runs_set all = {max offset ?base..<offset + len} - runs_set (ss_acked s)"
    proof -
      show "\<forall>(a, b) \<in> set all. ?base \<le> a \<and> a < b \<and> b \<le> ?base + ss_sent s"
        using spec run by (auto simp: all_def)
      show "runs_set all = {max offset ?base..<offset + len} - runs_set (ss_acked s)"
        using spec by (auto simp: all_def)
    qed
    have abs_runs: "(+) ?base ` runs_set (map (\<lambda>(a, b). (a - ?base, b - ?base)) all) = runs_set all"
      using all(1) by (rule unshift_runs)
    have "\<forall>(a, b) \<in> set (ss_lost (send_on_lost offset len fin s)). a < b \<and> b \<le> ss_sent s"
      using old all(1) unfolding lost by fastforce
    moreover have "{offset..<offset + len} \<subseteq> {..<?base} \<union> runs_set (ss_acked s) \<union> (+) ?base ` runs_set (ss_lost (send_on_lost offset len fin s))"
      unfolding lost runs_set_sort runs_set_simps(3) image_Un abs_runs all(2) by auto
    moreover have "runs_set (ss_lost s) \<subseteq> runs_set (ss_lost (send_on_lost offset len fin s))"
      unfolding lost by simp
    moreover have "send_on_lost offset len fin s = s\<lparr>ss_fin_sent := ss_fin_sent s \<and> (ss_fin_acked s \<or> \<not> fin),
       ss_lost := ss_lost (send_on_lost offset len fin s)\<rparr>"
      unfolding lost by (rule eq)
    ultimately show ?thesis by blast
  qed
  then show "\<forall>(a, b) \<in> set (ss_lost (send_on_lost offset len fin s)). a < b \<and> b \<le> ss_sent s"
    "{offset..<offset + len} \<subseteq> {..<ss_base_offset s} \<union> runs_set (ss_acked s)
       \<union> (+) (ss_base_offset s) ` runs_set (ss_lost (send_on_lost offset len fin s))"
    "runs_set (ss_lost s) \<subseteq> runs_set (ss_lost (send_on_lost offset len fin s))"
    "send_on_lost offset len fin s = s\<lparr>ss_fin_sent := ss_fin_sent s \<and> (ss_fin_acked s \<or> \<not> fin),
       ss_lost := ss_lost (send_on_lost offset len fin s)\<rparr>"
    by auto
qed

section \<open>The invariant is kept\<close>

lemma flight_set_simps [simp]:
  "flight_set [] = {}" "flight_set ((offset, len, fin) # fl) = {offset..<offset + len} \<union> flight_set fl"
  by (auto simp: flight_set_def run_set_def)

lemma flight_set_remove1:
  "(offset, len, fin) \<in> set fl \<Longrightarrow> flight_set fl \<subseteq> {offset..<offset + len} \<union> flight_set (remove1 (offset, len, fin) fl)"
  by (induction fl) (auto simp: flight_set_def run_set_def split: if_splits)

lemma send_invI:
  assumes "sy_stream y = s" "send_ok s" "live s = drop (ss_base_offset s) (sy_written y)"
    "ss_base_offset s \<le> length (sy_written y)" "sy_acked y = {..<ss_base_offset s} \<union> runs_set (ss_acked s)"
    "{..<ss_base_offset s + ss_sent s} \<subseteq> sy_acked y \<union> (+) (ss_base_offset s) ` runs_set (ss_lost s) \<union> flight_set (sy_flight y)"
    "\<forall>(offset, len, fin) \<in> set (sy_flight y). fin \<longrightarrow> offset + len = length (sy_written y)"
    "ss_fin_sent s \<Longrightarrow> ss_fin_acked s \<or> (\<exists>o1 l. (o1, l, True) \<in> set (sy_flight y))"
    "\<forall>(offset, len, fin) \<in> set (sy_flight y). offset + len \<le> ss_base_offset s + ss_sent s \<and> (fin \<longrightarrow> ss_fin s)"
    "sy_new y = ss_base_offset s + ss_sent s"
  shows "send_inv y"
  unfolding send_inv_def send_flight_ok_def send_tied_def Let_def using assms by blast

lemma send_invD:
  assumes "send_inv y" "\<not> ss_reset (sy_stream y)" "s = sy_stream y"
  shows "send_ok s" "live s = drop (ss_base_offset s) (sy_written y)"
    "ss_base_offset s \<le> length (sy_written y)" "sy_acked y = {..<ss_base_offset s} \<union> runs_set (ss_acked s)"
    "{..<ss_base_offset s + ss_sent s} \<subseteq> sy_acked y \<union> (+) (ss_base_offset s) ` runs_set (ss_lost s) \<union> flight_set (sy_flight y)"
    "\<forall>(offset, len, fin) \<in> set (sy_flight y). fin \<longrightarrow> offset + len = length (sy_written y)"
    "ss_fin_sent s \<longrightarrow> ss_fin_acked s \<or> (\<exists>o1 l. (o1, l, True) \<in> set (sy_flight y))"
    "\<forall>(offset, len, fin) \<in> set (sy_flight y). offset + len \<le> ss_base_offset s + ss_sent s \<and> (fin \<longrightarrow> ss_fin s)"
    "sy_new y = ss_base_offset s + ss_sent s"
  using assms unfolding send_inv_def send_flight_ok_def send_tied_def Let_def by blast+

lemma inv_start: "send_inv (send_start limit)"
  by (simp add: send_inv_def send_flight_ok_def send_start_def send_new_def send_ok_def send_tied_def live_def)

lemma inv_write:
  assumes inv: "send_inv y" and fin: "\<not> ss_fin (sy_stream y)" and w: "send_write data (sy_stream y) = (n, s)"
  shows "send_inv (y\<lparr>sy_stream := s, sy_written := sy_written y @ take n data\<rparr>)"
proof (cases "ss_reset (sy_stream y)")
  case True
  then show ?thesis using inv w
    by (auto simp: send_inv_def send_flight_ok_def send_write_def send_writable_def Let_def split: if_splits)
next
  case False
  let ?s = "sy_stream y"
  have ok: "send_ok ?s" and tied: "send_tied y" and fl: "send_flight_ok y" using inv False by (auto simp: send_inv_def)
  have start: "ss_buf_start ?s \<le> length (ss_buf ?s)" using ok by (simp add: send_ok_def)
  note wl = send_write_live [OF start w]
  have same: "ss_base_offset s = ss_base_offset ?s" "ss_sent s = ss_sent ?s" "ss_lost s = ss_lost ?s"
    "ss_acked s = ss_acked ?s" "ss_limit s = ss_limit ?s" "ss_fin s = ss_fin ?s" "ss_fin_sent s = ss_fin_sent ?s"
    "ss_fin_acked s = ss_fin_acked ?s" "ss_reset s = ss_reset ?s"
    by (subst wl(4), simp)+
  have room: "ss_base_offset ?s + length (live ?s) + n \<le> ss_limit ?s"
  proof -
    have "n \<le> send_writable ?s" using wl(3) by simp
    moreover have "send_writable ?s = ss_limit ?s - (ss_base_offset ?s + length (live ?s))"
      using False by (simp add: send_writable_def live_def)
    moreover have "ss_base_offset ?s + length (live ?s) \<le> ss_limit ?s" using ok by (simp add: send_ok_def)
    ultimately show ?thesis by linarith
  qed
  have none: "\<not> ss_fin_sent ?s" "\<not> ss_fin_acked ?s" "\<forall>(offset, len, f) \<in> set (sy_flight y). \<not> f"
    using ok fl fin by (auto simp: send_ok_def send_flight_ok_def)
  have "send_ok s"
    using ok wl room none by (auto simp: send_ok_def same min_def)
  moreover have "send_tied (y\<lparr>sy_stream := s, sy_written := sy_written y @ take n data\<rparr>)"
    using tied wl(1) none by (auto simp: send_tied_def same Let_def)
  moreover have "send_flight_ok (y\<lparr>sy_stream := s, sy_written := sy_written y @ take n data\<rparr>)"
    using fl by (simp add: send_flight_ok_def same)
  ultimately show ?thesis by (simp add: send_inv_def)
qed

lemma inv_transmit:
  assumes inv: "send_inv y" and send: "next_send max_len credit (sy_stream y) = Some (offset, data, fin)"
    and on: "send_on_sent offset (length data) fin (sy_stream y) = (new, s)"
  shows "send_inv (y\<lparr>sy_stream := s, sy_flight := (offset, length data, fin) # sy_flight y, sy_new := sy_new y + new\<rparr>)"
    (is "send_inv ?y")
proof -
  define t where "t = sy_stream y"
  have r: "\<not> ss_reset (sy_stream y)" using send by (auto simp: next_send_def)
  note D = send_invD [OF inv r t_def]
  note content = frame_content [OF D(1) r [folded t_def] D(2,3) send [folded t_def]]
  have fins: "\<forall>(o1, l, f) \<in> set (sy_flight ?y). f \<longrightarrow> o1 + l = length (sy_written ?y)"
    using content(4) D(6) by auto
  show ?thesis using send_ok_shape [OF D(1)] r [folded t_def] send [folded t_def] on [folded t_def]
  proof (cases rule: transmit_cases)
    case (resend a b rest k)
    have "{a..<b} = {a..<a + k} \<union> {a + k..<b}" using resend by auto
    then have lost: "(+) (ss_base_offset t) ` runs_set (ss_lost t) =
        {offset..<offset + length data} \<union> (+) (ss_base_offset t) ` runs_set (ss_lost s)"
      using resend by (auto simp: image_Un add.assoc)
    have f: "ss_base_offset s = ss_base_offset t" "ss_sent s = ss_sent t" "live s = live t" "ss_acked s = ss_acked t"
      "ss_fin s = ss_fin t" "ss_fin_sent s = ss_fin_sent t" "ss_fin_acked s = ss_fin_acked t"
      using resend(9) by (simp_all add: live_def)
    have ok: "a + k \<le> ss_sent t" "send_ok s" using D(1) resend by (auto simp: send_ok_def live_def)
    have "{..<ss_base_offset s + ss_sent s} \<subseteq> sy_acked ?y \<union> (+) (ss_base_offset s) ` runs_set (ss_lost s) \<union> flight_set (sy_flight ?y)"
      using D(5) unfolding lost f by auto
    then show ?thesis
      using D(2-4) D(7-9) ok resend(4,6-8) fins by (intro send_invI [of _ s]) (auto simp: f)
  next
    case (fresh k)
    have f: "ss_base_offset s = ss_base_offset t" "ss_sent s = ss_sent t + k" "live s = live t" "ss_acked s = ss_acked t"
      "ss_lost s = ss_lost t" "ss_fin s = ss_fin t" "ss_fin_sent s = (ss_fin_sent t \<or> fin)" "ss_fin_acked s = ss_fin_acked t"
      using fresh(10) by (simp_all add: live_def)
    have ok: "send_ok s" using D(1) fresh by (auto simp: send_ok_def live_def intro: sparse_mono)
    have "{..<ss_base_offset t + (ss_sent t + k)} = {..<ss_base_offset t + ss_sent t} \<union> {offset..<offset + length data}"
      using fresh(5,7) by auto
    then have "{..<ss_base_offset s + ss_sent s} \<subseteq> sy_acked ?y \<union> (+) (ss_base_offset s) ` runs_set (ss_lost s) \<union> flight_set (sy_flight ?y)"
      using D(5) unfolding f by auto
    moreover have "\<forall>(o1, l, f) \<in> set (sy_flight ?y). o1 + l \<le> ss_base_offset s + ss_sent s \<and> (f \<longrightarrow> ss_fin s)"
      using D(8) fresh(5,7,8) unfolding f by auto
    ultimately show ?thesis
      using D(2-4) D(7) D(9) ok fresh(9) fins by (intro send_invI [of _ s]) (auto simp: f)
  next
    case only_fin
    then have f: "ss_base_offset s = ss_base_offset t" "ss_sent s = ss_sent t" "live s = live t" "ss_acked s = ss_acked t"
      "ss_lost s = ss_lost t" "ss_fin s = ss_fin t" "ss_fin_sent s" "ss_fin_acked s = ss_fin_acked t"
      by (simp_all add: live_def)
    have ok: "send_ok s" using D(1) only_fin by (auto simp: send_ok_def live_def)
    have "{..<ss_base_offset s + ss_sent s} \<subseteq> sy_acked ?y \<union> (+) (ss_base_offset s) ` runs_set (ss_lost s) \<union> flight_set (sy_flight ?y)"
      using D(5) unfolding f by auto
    then show ?thesis
      using D(2-4) D(8,9) ok only_fin(3-7) fins by (intro send_invI [of _ s]) (auto simp: f)
  qed
qed

text \<open>An acknowledgement releases the prefix or is remembered; nothing else of the stream changes.\<close>

lemma on_acked_spec:
  assumes ok: "send_ok s" and r: "\<not> ss_reset s" and run: "offset + len \<le> ss_base_offset s + ss_sent s"
    and fin: "fin \<Longrightarrow> ss_fin s \<and> ss_sent s = length (live s)"
  obtains n where "n \<le> ss_sent s" "send_ok (send_on_acked offset len fin s)"
    "ss_base_offset (send_on_acked offset len fin s) = ss_base_offset s + n"
    "ss_sent (send_on_acked offset len fin s) = ss_sent s - n"
    "live (send_on_acked offset len fin s) = drop n (live s)"
    "{..<ss_base_offset s + n} \<union> runs_set (ss_acked (send_on_acked offset len fin s))
       = {..<ss_base_offset s} \<union> runs_set (ss_acked s) \<union> {offset..<offset + len}"
    "(+) (ss_base_offset s) ` runs_set (ss_lost s) \<subseteq> {..<ss_base_offset s + n}
       \<union> runs_set (ss_acked (send_on_acked offset len fin s))
       \<union> (+) (ss_base_offset s + n) ` runs_set (ss_lost (send_on_acked offset len fin s))"
    "ss_fin (send_on_acked offset len fin s) = ss_fin s" "ss_reset (send_on_acked offset len fin s) = ss_reset s"
    "ss_fin_acked (send_on_acked offset len fin s) = (ss_fin_acked s \<or> fin)"
    "ss_fin_sent (send_on_acked offset len fin s) = (ss_fin_sent s \<or> fin)"
proof -
  define t where "t = (if fin then s\<lparr>ss_fin_acked := True, ss_fin_sent := True\<rparr> else s)"
  have same: "ss_base_offset t = ss_base_offset s" "ss_sent t = ss_sent s" "live t = live s" "ss_acked t = ss_acked s"
    "ss_lost t = ss_lost s" "ss_fin t = ss_fin s" "ss_reset t = ss_reset s" "ss_limit t = ss_limit s"
    "ss_buf t = ss_buf s" "ss_buf_start t = ss_buf_start s"
    "ss_fin_acked t = (ss_fin_acked s \<or> fin)" "ss_fin_sent t = (ss_fin_sent s \<or> fin)"
    by (simp_all add: t_def live_def)
  have okt: "send_ok t" using ok fin by (auto simp: send_ok_def same)
  have eq: "send_on_acked offset len fin s = (if len = 0 \<or> offset + len \<le> ss_base_offset t then t
      else if offset \<le> ss_base_offset t then release_prefix (offset + len) t else remember_run offset (offset + len) t)"
    using r by (simp add: send_on_acked_def t_def Let_def)
  consider "len = 0 \<or> offset + len \<le> ss_base_offset t"
    | "0 < len" "ss_base_offset t < offset + len" "offset \<le> ss_base_offset t"
    | "0 < len" "ss_base_offset t < offset + len" "ss_base_offset t < offset" by linarith
  then show thesis
  proof cases
    case 1
    then have "{offset..<offset + len} \<subseteq> {..<ss_base_offset s}" by (auto simp: same)
    then show thesis using 1 okt by (intro that [of 0]) (auto simp: eq same)
  next
    case 2
    then have e: "send_on_acked offset len fin s = release_prefix (offset + len) t" by (simp add: eq)
    have stop: "offset + len \<le> ss_base_offset t + ss_sent t" using run by (simp add: same)
    let ?u = "release_prefix (offset + len) t"
    obtain n where n: "offset + len \<le> ss_base_offset t + n" "n \<le> ss_sent t"
      "{..<ss_base_offset t + n} \<union> runs_set (ss_acked ?u) = {..<offset + len} \<union> runs_set (ss_acked t)"
      "sparse (ss_base_offset t + n) (ss_base_offset t + ss_sent t) (ss_acked ?u)"
      "live ?u = drop n (live t)" "ss_buf_start ?u \<le> length (ss_buf ?u)"
      "runs_set (ss_lost ?u) = {x. x + n \<in> runs_set (ss_lost t)}"
      "\<forall>(a, b) \<in> set (ss_lost ?u). a < b \<and> b \<le> ss_sent t - n"
      "?u = t\<lparr>ss_acked := ss_acked ?u, ss_buf := ss_buf ?u, ss_buf_start := ss_buf_start ?u,
         ss_base_offset := ss_base_offset t + n, ss_sent := ss_sent t - n, ss_lost := ss_lost ?u\<rparr>"
      by (rule release_prefix_spec [OF send_ok_shape [OF okt] 2(2) stop])
    have fields: "ss_base_offset ?u = ss_base_offset t + n" "ss_sent ?u = ss_sent t - n" "ss_fin ?u = ss_fin t"
      "ss_reset ?u = ss_reset t" "ss_fin_acked ?u = ss_fin_acked t" "ss_fin_sent ?u = ss_fin_sent t" "ss_limit ?u = ss_limit t"
      by (subst n(9), simp)+
    have okt': "ss_sent t \<le> length (live t)" "ss_base_offset t + length (live t) \<le> ss_limit t"
      "ss_fin_sent t \<longrightarrow> ss_fin t \<and> ss_sent t = length (live t)" "ss_fin_acked t \<longrightarrow> ss_fin t"
      using okt by (auto simp: send_ok_def)
    have "send_ok ?u"
      using n(2,4,5,6,8) okt' by (auto simp: send_ok_def fields)
    moreover have "{..<offset + len} = {..<ss_base_offset t} \<union> {offset..<offset + len}" using 2 by auto
    moreover have "x \<in> {..<ss_base_offset t + n} \<union> (+) (ss_base_offset t + n) ` runs_set (ss_lost ?u)"
      if "x \<in> (+) (ss_base_offset t) ` runs_set (ss_lost t)" for x
      using that unfolding n(7) by (auto simp: image_iff) (metis add.commute le_Suc_ex not_less)
    ultimately show thesis using n(2,3,5) by (intro that [of n]) (auto simp: e fields same)
  next
    case 3
    then have e: "send_on_acked offset len fin s = remember_run offset (offset + len) t" by (simp add: eq)
    have stop: "offset < offset + len" "offset + len \<le> ss_base_offset t + ss_sent t" using run 3 by (auto simp: same)
    note spec = remember_run_spec [OF send_ok_shape [OF okt] 3(3) stop]
    have fields: "ss_base_offset (remember_run offset (offset + len) t) = ss_base_offset t"
      "ss_sent (remember_run offset (offset + len) t) = ss_sent t" "live (remember_run offset (offset + len) t) = live t"
      "ss_fin (remember_run offset (offset + len) t) = ss_fin t" "ss_reset (remember_run offset (offset + len) t) = ss_reset t"
      "ss_fin_acked (remember_run offset (offset + len) t) = ss_fin_acked t"
      "ss_fin_sent (remember_run offset (offset + len) t) = ss_fin_sent t"
      "ss_buf (remember_run offset (offset + len) t) = ss_buf t" "ss_limit (remember_run offset (offset + len) t) = ss_limit t"
      "ss_buf_start (remember_run offset (offset + len) t) = ss_buf_start t"
      by (subst spec(5), simp add: live_def)+
    have "send_ok (remember_run offset (offset + len) t)"
      using okt spec(1,3) by (simp add: send_ok_def fields)
    then show thesis using spec(2,4) by (intro that [of 0]) (auto simp: e fields same)
  qed
qed

lemma inv_acked:
  assumes inv: "send_inv y" and run: "(offset, len, fin) \<in> set (sy_flight y)"
  shows "send_inv (y\<lparr>sy_stream := send_on_acked offset len fin (sy_stream y),
       sy_flight := remove1 (offset, len, fin) (sy_flight y), sy_acked := sy_acked y \<union> {offset..<offset + len}\<rparr>)"
    (is "send_inv ?y")
proof (cases "ss_reset (sy_stream y)")
  case True
  then show ?thesis
    using inv by (auto simp: send_inv_def send_flight_ok_def send_on_acked_def dest!: subsetD [OF set_remove1_subset])
next
  case r: False
  define t where "t = sy_stream y"
  define s where "s = send_on_acked offset len fin t"
  note D = send_invD [OF inv r t_def]
  have fin: "fin \<Longrightarrow> ss_fin t \<and> ss_sent t = length (live t)"
  proof -
    assume fin
    then have "offset + len = length (sy_written y)" "offset + len \<le> ss_base_offset t + ss_sent t" "ss_fin t"
      using D(6,8) run by auto
    moreover have "ss_sent t \<le> length (live t)" using D(1) by (simp add: send_ok_def)
    ultimately show "ss_fin t \<and> ss_sent t = length (live t)" using D(2,3) by simp
  qed
  have le: "offset + len \<le> ss_base_offset t + ss_sent t" using D(8) run by auto
  obtain n where n: "n \<le> ss_sent t" "send_ok s" "ss_base_offset s = ss_base_offset t + n" "ss_sent s = ss_sent t - n"
    "live s = drop n (live t)"
    "{..<ss_base_offset t + n} \<union> runs_set (ss_acked s) = {..<ss_base_offset t} \<union> runs_set (ss_acked t) \<union> {offset..<offset + len}"
    "(+) (ss_base_offset t) ` runs_set (ss_lost t) \<subseteq> {..<ss_base_offset t + n} \<union> runs_set (ss_acked s)
       \<union> (+) (ss_base_offset t + n) ` runs_set (ss_lost s)"
    "ss_fin s = ss_fin t" "ss_reset s = ss_reset t" "ss_fin_acked s = (ss_fin_acked t \<or> fin)"
    "ss_fin_sent s = (ss_fin_sent t \<or> fin)"
    using on_acked_spec [OF D(1) r [folded t_def] le fin] unfolding s_def by metis
  let ?fl = "remove1 (offset, len, fin) (sy_flight y)"
  have acked: "sy_acked ?y = {..<ss_base_offset s} \<union> runs_set (ss_acked s)" using n(3,6) D(4) by simp
  have cover: "{..<ss_base_offset s + ss_sent s} \<subseteq> sy_acked ?y \<union> (+) (ss_base_offset s) ` runs_set (ss_lost s) \<union> flight_set ?fl"
  proof -
    have "{..<ss_base_offset s + ss_sent s} = {..<ss_base_offset t + ss_sent t}" using n by simp
    also have "\<dots> \<subseteq> sy_acked y \<union> (+) (ss_base_offset t) ` runs_set (ss_lost t) \<union> flight_set (sy_flight y)" by (rule D(5))
    also have "\<dots> \<subseteq> sy_acked ?y \<union> (+) (ss_base_offset s) ` runs_set (ss_lost s) \<union> flight_set ?fl"
    proof -
      have more: "sy_acked ?y = sy_acked y \<union> {offset..<offset + len}" by simp
      show ?thesis using n(7) flight_set_remove1 [OF run] acked more unfolding n(3) by blast
    qed
    finally show ?thesis .
  qed
  have sub: "set ?fl \<subseteq> set (sy_flight y)" by (rule set_remove1_subset)
  have fin_kept: "ss_fin_acked s \<or> (\<exists>o1 l. (o1, l, True) \<in> set ?fl)" if "ss_fin_sent s"
    using that D(7) n(10,11) by (metis in_set_remove1 prod.inject)
  show ?thesis
  proof (rule send_invI [of _ s])
    show "live s = drop (ss_base_offset s) (sy_written ?y)" using n(3,5) D(2) by (simp add: add.commute)
    show "ss_base_offset s \<le> length (sy_written ?y)" using n(1,3) D(1,2,3) by (auto simp: send_ok_def)
    show "sy_stream ?y = s" by (simp add: s_def t_def)
    show "send_ok s" "sy_acked ?y = {..<ss_base_offset s} \<union> runs_set (ss_acked s)" by (rule n(2) acked)+
    show "{..<ss_base_offset s + ss_sent s} \<subseteq> sy_acked ?y \<union> (+) (ss_base_offset s) ` runs_set (ss_lost s) \<union> flight_set (sy_flight ?y)"
      using cover by simp
    show "\<forall>(offset, len, fin) \<in> set (sy_flight ?y). fin \<longrightarrow> offset + len = length (sy_written ?y)"
      using D(6) sub by auto
    show "ss_fin_acked s \<or> (\<exists>o1 l. (o1, l, True) \<in> set (sy_flight ?y))" if "ss_fin_sent s"
      using fin_kept [OF that] by simp
    show "\<forall>(offset, len, fin) \<in> set (sy_flight ?y). offset + len \<le> ss_base_offset s + ss_sent s \<and> (fin \<longrightarrow> ss_fin s)"
      using D(8) sub n(1,3,4,8) by auto
    show "sy_new ?y = ss_base_offset s + ss_sent s" using D(9) n(1,3,4) by simp
  qed
qed

lemma inv_lost:
  assumes inv: "send_inv y" and run: "(offset, len, fin) \<in> set (sy_flight y)"
  shows "send_inv (y\<lparr>sy_stream := send_on_lost offset len fin (sy_stream y),
       sy_flight := remove1 (offset, len, fin) (sy_flight y)\<rparr>)"
    (is "send_inv ?y")
proof (cases "ss_reset (sy_stream y)")
  case True
  then show ?thesis
    using inv by (auto simp: send_inv_def send_flight_ok_def send_on_lost_def dest!: subsetD [OF set_remove1_subset])
next
  case r: False
  define t where "t = sy_stream y"
  define s where "s = send_on_lost offset len fin t"
  note D = send_invD [OF inv r t_def]
  have le: "offset + len \<le> ss_base_offset t + ss_sent t" using D(8) run by auto
  note spec = on_lost_spec [OF D(1) le r [folded t_def], of fin, folded s_def]
  have f: "ss_base_offset s = ss_base_offset t" "ss_sent s = ss_sent t" "live s = live t" "ss_acked s = ss_acked t"
    "ss_fin s = ss_fin t" "ss_fin_acked s = ss_fin_acked t" "ss_fin_sent s = (ss_fin_sent t \<and> (ss_fin_acked t \<or> \<not> fin))"
    "ss_buf_start s = ss_buf_start t" "ss_buf s = ss_buf t" "ss_limit s = ss_limit t"
    by (subst spec(4), simp add: live_def)+
  let ?fl = "remove1 (offset, len, fin) (sy_flight y)"
  have ok: "send_ok s" using D(1) spec(1) by (auto simp: send_ok_def f)
  have cover: "{..<ss_base_offset s + ss_sent s} \<subseteq> sy_acked y \<union> (+) (ss_base_offset s) ` runs_set (ss_lost s) \<union> flight_set ?fl"
  proof -
    have "{..<ss_base_offset s + ss_sent s} \<subseteq> sy_acked y \<union> (+) (ss_base_offset t) ` runs_set (ss_lost t) \<union> flight_set (sy_flight y)"
      using D(5) by (simp add: f)
    also have "\<dots> \<subseteq> sy_acked y \<union> (+) (ss_base_offset s) ` runs_set (ss_lost s) \<union> flight_set ?fl"
      using spec(2,3) flight_set_remove1 [OF run] unfolding f D(4) by blast
    finally show ?thesis .
  qed
  have sub: "set ?fl \<subseteq> set (sy_flight y)" by (rule set_remove1_subset)
  have fin_kept: "ss_fin_acked s \<or> (\<exists>o1 l. (o1, l, True) \<in> set ?fl)" if "ss_fin_sent s"
    using that D(7) f(6,7) by (metis in_set_remove1 prod.inject)
  show ?thesis
    by (rule send_invI [of _ s])
      (use ok cover sub fin_kept D in \<open>auto simp: f s_def [symmetric] t_def [symmetric]\<close>)
qed

text \<open>Raising the limit, finishing and noting an acknowledged reset leave the rest of the stream alone.\<close>

lemma inv_flags:
  assumes inv: "send_inv y"
    and s: "s = (sy_stream y)\<lparr>ss_limit := limit, ss_fin := fin, ss_reset_acked := acked\<rparr>"
    and up: "ss_limit (sy_stream y) \<le> limit" "ss_fin (sy_stream y) \<longrightarrow> fin"
  shows "send_inv (y\<lparr>sy_stream := s\<rparr>)"
proof (cases "ss_reset (sy_stream y)")
  case True
  then show ?thesis using inv up(2) by (auto simp: send_inv_def send_flight_ok_def s)
next
  case r: False
  define t where "t = sy_stream y"
  note D = send_invD [OF inv r t_def]
  have f: "ss_base_offset s = ss_base_offset t" "ss_sent s = ss_sent t" "live s = live t" "ss_acked s = ss_acked t"
    "ss_lost s = ss_lost t" "ss_fin s = fin" "ss_fin_sent s = ss_fin_sent t" "ss_fin_acked s = ss_fin_acked t"
    by (simp_all add: s live_def t_def)
  have "send_ok s" using D(1) up by (auto simp: send_ok_def s live_def t_def)
  moreover have "\<forall>(offset, len, fin) \<in> set (sy_flight y). offset + len \<le> ss_base_offset s + ss_sent s \<and> (fin \<longrightarrow> ss_fin s)"
    using D(8) up(2) unfolding f t_def by blast
  ultimately show ?thesis using D(2-7) D(9) by (intro send_invI [of _ s]) (simp_all add: f)
qed

lemma inv_step:
  assumes "send_step y y'" "send_inv y"
  shows "send_inv y'"
  using assms
proof (cases rule: send_step.cases)
  case (on_write data n s)
  then show ?thesis using inv_write assms(2) by blast
next
  case on_finish
  then show ?thesis
    using inv_flags [OF assms(2), where s = "send_finish (sy_stream y)" and limit = "ss_limit (sy_stream y)"
        and fin = True and acked = "ss_reset_acked (sy_stream y)"]
    by (simp add: send_finish_def)
next
  case (on_set_limit limit)
  then show ?thesis
    using inv_flags [OF assms(2), where s = "send_set_limit limit (sy_stream y)" and limit = "max (ss_limit (sy_stream y)) limit"
        and fin = "ss_fin (sy_stream y)" and acked = "ss_reset_acked (sy_stream y)"]
    by (simp add: send_set_limit_def)
next
  case (on_transmit max_len credit offset data fin new s)
  then show ?thesis using inv_transmit assms(2) by blast
next
  case (on_acked offset len fin)
  then show ?thesis using inv_acked assms(2) by blast
next
  case (on_lost offset len fin)
  then show ?thesis using inv_lost assms(2) by blast
next
  case (on_reset final_size s)
  then show ?thesis using assms(2) by (auto simp: send_inv_def send_flight_ok_def send_reset_def)
next
  case on_reset_acked
  then show ?thesis
    using inv_flags [OF assms(2), where s = "send_on_reset_acked (sy_stream y)" and limit = "ss_limit (sy_stream y)"
        and fin = "ss_fin (sy_stream y)" and acked = True]
    by (simp add: send_on_reset_acked_def)
qed

lemma inv_reachable: "send_step\<^sup>*\<^sup>* (send_start limit) y \<Longrightarrow> send_inv y"
  by (induction rule: rtranclp_induct) (auto intro: inv_start inv_step)

section \<open>A run with a loss\<close>

text \<open>Three bytes and a FIN are sent, the packet is lost, data and FIN go again and are acknowledged.\<close>

definition sample_ready :: send_sys where
  "sample_ready =
     \<lparr>sy_stream = (send_new 10)\<lparr>ss_buf := [1, 2, 3], ss_fin := True\<rparr>, sy_flight = [], sy_written = [1, 2, 3],
      sy_acked = {}, sy_new = 0\<rparr>"

definition sample_lost :: send_sys where
  "sample_lost = sample_ready\<lparr>sy_stream := (sy_stream sample_ready)\<lparr>ss_sent := 3, ss_lost := [(0, 3)]\<rparr>, sy_new := 3\<rparr>"

definition sample_resent :: send_sys where
  "sample_resent = sample_ready\<lparr>sy_stream := (sy_stream sample_ready)\<lparr>ss_sent := 3, ss_fin_sent := True\<rparr>,
     sy_flight := [(3, 0, True), (0, 3, False)], sy_new := 3\<rparr>"

definition sample_done :: send_sys where
  "sample_done = \<lparr>sy_stream = (send_new 10)\<lparr>ss_base_offset := 3, ss_fin := True, ss_fin_sent := True, ss_fin_acked := True\<rparr>,
     sy_flight = [], sy_written = [1, 2, 3], sy_acked = {0..<3} \<union> {}, sy_new = 3\<rparr>"

lemmas sample_defs = sample_ready_def sample_lost_def sample_resent_def sample_done_def send_start_def send_new_def

lemma sample_ready_reachable: "send_step\<^sup>*\<^sup>* (send_start 10) sample_ready"
proof -
  let ?y = "sample_ready\<lparr>sy_stream := (send_new 10)\<lparr>ss_buf := [1, 2, 3]\<rparr>\<rparr>"
  have "send_step (send_start 10) ?y"
    using on_write [of "send_start 10" "[1, 2, 3]"]
    by (simp add: sample_defs send_write_def send_writable_def)
  moreover have "send_step ?y sample_ready"
    using on_finish [of ?y] by (simp add: sample_defs send_finish_def)
  ultimately show ?thesis by simp
qed

lemma sample_lost_reachable: "send_step\<^sup>*\<^sup>* sample_ready sample_lost"
proof -
  let ?y = "sample_ready\<lparr>sy_stream := (sy_stream sample_ready)\<lparr>ss_sent := 3, ss_fin_sent := True\<rparr>,
      sy_flight := [(0, 3, True)], sy_new := 3\<rparr>"
  have "send_step sample_ready ?y"
    using on_transmit [of 9 9 sample_ready 0 "[1, 2, 3]" True]
    by (simp add: sample_defs next_send_def send_on_sent_def numeral_3_eq_3)
  moreover have "send_step ?y sample_lost"
    using on_lost [of 0 3 True ?y] by (simp add: sample_defs send_on_lost_def numeral_3_eq_3)
  ultimately show ?thesis by simp
qed

lemma sample_done_reachable: "send_step\<^sup>*\<^sup>* sample_lost sample_done"
proof -
  let ?y = "sample_lost\<lparr>sy_stream := (sy_stream sample_ready)\<lparr>ss_sent := 3\<rparr>, sy_flight := [(0, 3, False)]\<rparr>"
  let ?z = "sample_done\<lparr>sy_stream := (sy_stream sample_done)\<lparr>ss_fin_acked := False\<rparr>, sy_flight := [(3, 0, True)],
      sy_acked := {0..<3}\<rparr>"
  have "send_step sample_lost ?y"
    using on_transmit [of 9 0 sample_lost 0 "[1, 2, 3]" False]
    by (simp add: sample_defs next_send_def send_on_sent_def numeral_3_eq_3)
  moreover have "send_step ?y sample_resent"
    using on_transmit [of 9 0 ?y 3 "[]" True] by (simp add: sample_defs next_send_def send_on_sent_def numeral_3_eq_3)
  moreover have "send_step sample_resent ?z"
    using on_acked [of 0 3 False sample_resent] by (simp add: sample_defs send_on_acked_def release_prefix_def numeral_3_eq_3)
  moreover have "send_step ?z sample_done"
    using on_acked [of 3 0 True ?z] by (simp add: sample_defs send_on_acked_def)
  ultimately show ?thesis by (meson rtranclp.rtrancl_into_rtrancl r_into_rtranclp)
qed

section \<open>Properties\<close>



text \<open>
  C10. Every STREAM frame a stream produces carries exactly the bytes that were written at its offset,
  stays inside what was written and inside the limit the peer advertised, and sets FIN only at the end of
  a finished stream.
\<close>

theorem send_frame_correct:
  assumes "send_step\<^sup>*\<^sup>* (send_start limit) y" "next_send max_len credit (sy_stream y) = Some (offset, data, fin)"
  shows "data = take (length data) (drop offset (sy_written y)) \<and> offset + length data \<le> length (sy_written y)
     \<and> offset + length data \<le> ss_limit (sy_stream y)
     \<and> (fin \<longrightarrow> ss_fin (sy_stream y) \<and> offset + length data = length (sy_written y))"
proof -
  have r: "\<not> ss_reset (sy_stream y)" using assms(2) by (auto simp: next_send_def)
  note D = send_invD [OF inv_reachable [OF assms(1)] r refl]
  show ?thesis using frame_content [OF D(1) r D(2,3) assms(2)] by blast
qed

theorem send_frame_correct_witness:
  "next_send 2 5 (sy_stream sample_ready) = Some (0, [1, 2], False)
   \<and> [1, 2] = take 2 (drop 0 (sy_written sample_ready)) \<and> 2 \<le> ss_limit (sy_stream sample_ready)"
proof -
  have send: "next_send 2 5 (sy_stream sample_ready) = Some (0, [1, 2], False)"
    by (simp add: sample_defs next_send_def)
  show ?thesis using send send_frame_correct [OF sample_ready_reachable send] by (simp add: numeral_2_eq_2)
qed

text \<open>
  Retransmissions cost no connection credit: the bytes counted as new over a stream's life are the
  highest offset put on the wire, and one transmission never counts more than the credit it was given.
\<close>

theorem send_new_bytes:
  assumes "send_step\<^sup>*\<^sup>* (send_start limit) y" "next_send max_len credit (sy_stream y) = Some (offset, data, fin)"
    "send_on_sent offset (length data) fin (sy_stream y) = (new, s)"
  shows "sy_new y = ss_base_offset (sy_stream y) + ss_sent (sy_stream y)
     \<and> sy_new y + new = ss_base_offset s + ss_sent s \<and> new \<le> credit \<and> length data \<le> max_len"
proof -
  have r: "\<not> ss_reset (sy_stream y)" using assms(2) by (auto simp: next_send_def)
  note D = send_invD [OF inv_reachable [OF assms(1)] r refl]
  have "length data \<le> max_len"
    using assms(2) by (auto simp: next_send_def Let_def split: if_splits list.splits)
  moreover have "new \<le> credit \<and> ss_base_offset (sy_stream y) + ss_sent (sy_stream y) + new = ss_base_offset s + ss_sent s"
    using send_ok_shape [OF D(1)] r assms(2,3) by (cases rule: transmit_cases) auto
  ultimately show ?thesis using D(9) by simp
qed

theorem send_new_bytes_witness:
  "\<exists>s. send_on_sent 0 3 False (sy_stream sample_lost) = (0, s)
     \<and> sy_new sample_lost = 3 \<and> 3 + 0 = ss_base_offset s + ss_sent s"
proof -
  have reach: "send_step\<^sup>*\<^sup>* (send_start 10) sample_lost"
    using sample_ready_reachable sample_lost_reachable by (rule rtranclp_trans)
  have send: "next_send 9 0 (sy_stream sample_lost) = Some (0, [1, 2, 3], False)"
    by (simp add: sample_defs next_send_def)
  obtain s where s: "send_on_sent 0 (length [1, 2, 3 :: byte]) False (sy_stream sample_lost) = (0, s)"
    by (simp add: sample_defs send_on_sent_def)
  then show ?thesis using send_new_bytes [OF reach send s] by (auto simp: sample_defs numeral_3_eq_3)
qed

text \<open>
  \<open>has_pending\<close> answers without looking at the data exactly the question whether \<open>next_send\<close> would
  produce a frame, given any packet room and any credit.
\<close>

theorem has_pending_iff_next_send:
  assumes "0 < max_len" "0 < credit"
  shows "send_has_pending s \<longleftrightarrow> next_send max_len credit s \<noteq> None"
proof (cases "ss_reset s \<or> ss_lost s \<noteq> []")
  case True
  then show ?thesis using assms by (auto simp: send_has_pending_def next_send_def Let_def split: list.splits)
next
  case False
  define k where "k = min (length (live s) - ss_sent s) (min max_len credit)"
  have "0 < k \<longleftrightarrow> ss_sent s < length (live s)" using assms by (auto simp: k_def)
  then show ?thesis
    using False next_send_Nil [OF _ _ k_def] by (auto simp: send_has_pending_def live_def)
qed

theorem has_pending_iff_next_send_witness:
  "send_has_pending (sy_stream sample_ready) \<longleftrightarrow> next_send 1 1 (sy_stream sample_ready) \<noteq> None"
  using has_pending_iff_next_send [of 1 1 "sy_stream sample_ready"] by simp

end
