(* ===== verification/Recv_Stream.thy ===== *)
theory Recv_Stream
  imports Prelude
begin

text \<open>
  The receiving half of a stream (\<open>src/quic/stream.rs\<close>): reassembly of STREAM and CRYPTO data, the final
  size, and the flow control limits a peer has to respect.
\<close>

section \<open>State and operations\<close>

datatype recv_error = FlowControl | StreamLimit | FinalSize | FrameEncoding

fun recv_error_code :: "recv_error \<Rightarrow> nat" where
  "recv_error_code FlowControl = 0x03"
| "recv_error_code StreamLimit = 0x04"
| "recv_error_code FinalSize = 0x06"
| "recv_error_code FrameEncoding = 0x07"

record recv_stream =
  rs_ready :: bytes
  rs_read_offset :: nat
  rs_pending :: "(nat \<times> bytes) list"
  rs_final_size :: "nat option"
  rs_received :: nat
  rs_max_data :: nat

text \<open>A recycled buffer is cleared before use, so only its capacity differs from a fresh one.\<close>

definition recv_new :: "nat \<Rightarrow> recv_stream" where
  "recv_new window =
     \<lparr>rs_ready = [], rs_read_offset = 0, rs_pending = [], rs_final_size = None, rs_received = 0,
      rs_max_data = window\<rparr>"

definition recv_default :: recv_stream where
  "recv_default = recv_new (2 ^ 64 - 1)"

definition recv_size_known :: "recv_stream \<Rightarrow> bool" where
  "recv_size_known s \<longleftrightarrow> rs_final_size s \<noteq> None"

definition recv_wants_credit :: "nat \<Rightarrow> recv_stream \<Rightarrow> bool" where
  "recv_wants_credit window s \<longleftrightarrow> \<not> recv_size_known s \<and> rs_read_offset s + window div 2 \<ge> rs_max_data s"

definition recv_grant :: "nat \<Rightarrow> recv_stream \<Rightarrow> nat \<times> recv_stream" where
  "recv_grant window s =
     (let limit = max (rs_max_data s) (rs_read_offset s + window) in (limit, s\<lparr>rs_max_data := limit\<rparr>))"

definition recv_take_buf :: "recv_stream \<Rightarrow> bytes \<times> recv_stream" where
  "recv_take_buf s = (rs_ready s, s\<lparr>rs_ready := []\<rparr>)"

definition check_end :: "nat \<Rightarrow> bool \<Rightarrow> nat \<Rightarrow> recv_stream \<Rightarrow> (recv_error, nat) result" where
  "check_end stop final_size connection_credit s =
     (if (case rs_final_size s of Some fsize \<Rightarrow> stop > fsize \<or> final_size \<and> stop \<noteq> fsize | None \<Rightarrow> False)
         \<or> final_size \<and> stop < rs_received s then Inl FinalSize
      else
        let new = stop - rs_received s in
        if stop > rs_max_data s \<or> new > connection_credit then Inl FlowControl else Inr new)"

text \<open>\<open>drain_pending\<close> works on the ready bytes, whose end is the next offset in order, and the queue.\<close>

fun drain_pending :: "nat \<Rightarrow> bytes \<Rightarrow> (nat \<times> bytes) list \<Rightarrow> bytes \<times> (nat \<times> bytes) list" where
  "drain_pending read_offset ready [] = (ready, [])"
| "drain_pending read_offset ready ((offset, data) # ps) =
     (let head = read_offset + length ready in
      if offset > head then (ready, (offset, data) # ps)
      else drain_pending read_offset (ready @ drop (head - offset) data) ps)"

definition push_with_credit ::
    "nat \<Rightarrow> bytes \<Rightarrow> bool \<Rightarrow> nat \<Rightarrow> recv_stream \<Rightarrow> (recv_error, nat \<times> recv_stream) result" where
  "push_with_credit offset data fin connection_credit s =
     rbind (case checked_add u64_bound offset (length data) of
              Some stop \<Rightarrow> if stop < push_bit 62 1 then Inr stop else Inl FrameEncoding
            | None \<Rightarrow> Inl FrameEncoding) (\<lambda>stop.
     rbind (check_end stop fin connection_credit s) (\<lambda>new.
     let s = (if fin then s\<lparr>rs_final_size := Some stop\<rparr> else s);
         s = s\<lparr>rs_received := max (rs_received s) stop\<rparr>;
         head = rs_read_offset s + length (rs_ready s) in
     if offset \<le> head then
       let skip = head - offset;
           ready = (if skip < length data then rs_ready s @ drop skip data else rs_ready s);
           (ready, pending) = drain_pending (rs_read_offset s) ready (rs_pending s) in
       Inr (new, s\<lparr>rs_ready := ready, rs_pending := pending\<rparr>)
     else if data \<noteq> [] then
       Inr (new, s\<lparr>rs_pending := sort_key fst (rs_pending s @ [(offset, data)])\<rparr>)
     else Inr (new, s)))"

definition recv_push :: "nat \<Rightarrow> bytes \<Rightarrow> bool \<Rightarrow> recv_stream \<Rightarrow> (recv_error, nat \<times> recv_stream) result" where
  "recv_push offset data fin s = push_with_credit offset data fin (2 ^ 64 - 1) s"

text \<open>The callback may fail, in which case nothing is consumed.\<close>

definition recv_consume ::
    "(bytes \<Rightarrow> ('e, unit) result) \<Rightarrow> recv_stream \<Rightarrow> ('e, nat \<times> recv_stream) result" where
  "recv_consume f s =
     (if rs_ready s = [] then Inr (0, s)
      else rbind (f (rs_ready s)) (\<lambda>_.
        let n = length (rs_ready s) in
        Inr (n, s\<lparr>rs_ready := [], rs_read_offset := rs_read_offset s + n\<rparr>)))"

definition recv_is_finished :: "recv_stream \<Rightarrow> bool" where
  "recv_is_finished s =
     (case rs_final_size s of Some fsize \<Rightarrow> rs_read_offset s + length (rs_ready s) \<ge> fsize | None \<Rightarrow> False)"

definition recv_has_data :: "recv_stream \<Rightarrow> bool" where
  "recv_has_data s \<longleftrightarrow> rs_ready s \<noteq> []"

definition recv_reset :: "nat \<Rightarrow> nat \<Rightarrow> recv_stream \<Rightarrow> (recv_error, nat \<times> recv_stream) result" where
  "recv_reset final_size connection_credit s =
     rbind (check_end final_size True connection_credit s) (\<lambda>new.
       Inr (new, s\<lparr>rs_final_size := Some final_size, rs_received := final_size\<rparr>))"

section \<open>Reassembly\<close>

definition slice_of :: "(nat \<Rightarrow> byte) \<Rightarrow> nat \<Rightarrow> nat \<Rightarrow> bytes" where
  "slice_of S offset n = map S [offset..<offset + n]"

definition pieces_set :: "(nat \<times> bytes) list \<Rightarrow> nat set" where
  "pieces_set ps = (\<Union>(offset, data) \<in> set ps. {offset..<offset + length data})"

definition pieces_of :: "(nat \<Rightarrow> byte) \<Rightarrow> (nat \<times> bytes) list \<Rightarrow> bool" where
  "pieces_of S ps \<longleftrightarrow> (\<forall>(offset, data) \<in> set ps. data = slice_of S offset (length data))"

lemma length_slice_of [simp]: "length (slice_of S o1 n) = n"
  by (simp add: slice_of_def)

lemma slice_of_0 [simp]: "slice_of S o1 0 = []"
  by (simp add: slice_of_def)

lemma slice_of_append: "slice_of S o1 m @ slice_of S (o1 + m) n = slice_of S o1 (m + n)"
  using upt_add_eq_append [of o1 "o1 + m" n] by (simp add: slice_of_def add.assoc)

lemma drop_slice_of: "k \<le> n \<Longrightarrow> drop k (slice_of S o1 n) = slice_of S (o1 + k) (n - k)"
  by (simp add: slice_of_def drop_map)

lemma pieces_simps [simp]:
  "pieces_set [] = {}"
  "pieces_set ((o1, d) # ps) = {o1..<o1 + length d} \<union> pieces_set ps"
  "pieces_of S []"
  "pieces_of S ((o1, d) # ps) \<longleftrightarrow> d = slice_of S o1 (length d) \<and> pieces_of S ps"
  by (auto simp: pieces_set_def pieces_of_def)

text \<open>Appending what a piece adds behind the bytes already there keeps them a slice of the stream.\<close>

lemma extend_slice:
  assumes "ready = slice_of S r (length ready)" "data = slice_of S offset (length data)"
    and "offset \<le> r + length ready"
  defines "ready' \<equiv> ready @ drop (r + length ready - offset) data"
  shows "ready' = slice_of S r (length ready')"
    "{..<r + length ready'} = {..<r + length ready} \<union> {offset..<offset + length data}"
proof -
  let ?skip = "r + length ready - offset"
  show "ready' = slice_of S r (length ready')"
  proof (cases "?skip \<le> length data")
    case True
    have "drop ?skip data = slice_of S (offset + ?skip) (length data - ?skip)"
      using drop_slice_of [OF True, of S offset] assms(2) by simp
    then have "ready' = slice_of S r (length ready) @ slice_of S (r + length ready) (length data - ?skip)"
      using assms(1,3) by (simp add: ready'_def)
    then show ?thesis by (simp add: slice_of_append)
  qed (use assms(1) in \<open>simp add: ready'_def\<close>)
  show "{..<r + length ready'} = {..<r + length ready} \<union> {offset..<offset + length data}"
    using assms(3) by (auto simp: ready'_def)
qed

lemma drain_pending_spec:
  assumes "drain_pending r ready ps = (ready', ps')" "ready = slice_of S r (length ready)" "pieces_of S ps"
    "sorted (map fst ps)"
  shows "ready' = slice_of S r (length ready') \<and> pieces_of S ps' \<and> sorted (map fst ps') \<and> set ps' \<subseteq> set ps
     \<and> (\<forall>p \<in> set ps'. r + length ready' < fst p)
     \<and> {..<r + length ready'} \<union> pieces_set ps' = {..<r + length ready} \<union> pieces_set ps"
  using assms
proof (induction r ready ps rule: drain_pending.induct)
  case (2 r ready offset data ps)
  show ?case
  proof (cases "offset > r + length ready")
    case True
    then show ?thesis using 2(2-5) by (fastforce simp: Let_def)
  next
    case False
    let ?ready = "ready @ drop (r + length ready - offset) data"
    have ext: "?ready = slice_of S r (length ?ready)"
      "{..<r + length ?ready} = {..<r + length ready} \<union> {offset..<offset + length data}"
      using extend_slice [of ready S r data offset] 2(3,4) False by simp_all
    have "drain_pending r ?ready ps = (ready', ps')" using 2(2) False by (simp add: Let_def)
    then show ?thesis using 2(1) [OF refl False _ ext(1)] 2(4,5) ext(2) by auto
  qed
qed simp

section \<open>A stream and its observer\<close>

text \<open>
  What only an observer sees: the offsets that arrived, the bytes the application was shown, and the sum
  of what the accepted frames counted against the connection window. The peer's stream is the function
  \<open>S\<close> from offsets to bytes; a frame it sends carries a slice of it.
\<close>

record recv_sys =
  ry_stream :: recv_stream
  ry_got :: "nat set"
  ry_shown :: bytes
  ry_counted :: nat

definition recv_start :: "nat \<Rightarrow> recv_sys" where
  "recv_start window = \<lparr>ry_stream = recv_new window, ry_got = {}, ry_shown = [], ry_counted = 0\<rparr>"

inductive recv_step :: "(nat \<Rightarrow> byte) \<Rightarrow> recv_sys \<Rightarrow> recv_sys \<Rightarrow> bool" for S where
  on_push: "data = slice_of S offset (length data) \<Longrightarrow>
     push_with_credit offset data fin credit (ry_stream y) = Inr (new, s) \<Longrightarrow>
     recv_step S y (y\<lparr>ry_stream := s, ry_got := ry_got y \<union> {offset..<offset + length data}, ry_counted := ry_counted y + new\<rparr>)"
| on_stop: "recv_reset final_size credit (ry_stream y) = Inr (new, s) \<Longrightarrow>
     recv_step S y (y\<lparr>ry_stream := s, ry_counted := ry_counted y + new\<rparr>)"
| on_consume: "recv_consume (\<lambda>_. Inr ()) (ry_stream y) = (Inr (n, s) :: (unit, nat \<times> recv_stream) result) \<Longrightarrow>
     recv_step S y (y\<lparr>ry_stream := s, ry_shown := ry_shown y @ take n (rs_ready (ry_stream y))\<rparr>)"
| on_grant: "recv_grant window (ry_stream y) = (limit, s) \<Longrightarrow> recv_step S y (y\<lparr>ry_stream := s\<rparr>)"

definition recv_inv :: "(nat \<Rightarrow> byte) \<Rightarrow> recv_sys \<Rightarrow> bool" where
  "recv_inv S y \<longleftrightarrow> (let s = ry_stream y; head = rs_read_offset s + length (rs_ready s) in
     rs_ready s = slice_of S (rs_read_offset s) (length (rs_ready s)) \<and> pieces_of S (rs_pending s)
     \<and> sorted (map fst (rs_pending s)) \<and> (\<forall>p \<in> set (rs_pending s). head < fst p)
     \<and> ry_got y = {..<head} \<union> pieces_set (rs_pending s) \<and> ry_got y \<subseteq> {..<rs_received s}
     \<and> rs_received s \<le> rs_max_data s \<and> (\<forall>size1. rs_final_size s = Some size1 \<longrightarrow> rs_received s \<le> size1)
     \<and> ry_shown y = slice_of S 0 (rs_read_offset s) \<and> ry_counted y = rs_received s)"

lemma check_end_Inr:
  "check_end stop final credit s = Inr new \<longleftrightarrow>
     (\<forall>size1. rs_final_size s = Some size1 \<longrightarrow> stop \<le> size1 \<and> (final \<longrightarrow> stop = size1))
     \<and> (final \<longrightarrow> rs_received s \<le> stop) \<and> stop \<le> rs_max_data s \<and> stop - rs_received s \<le> credit
     \<and> new = stop - rs_received s"
  by (auto simp: check_end_def Let_def split: option.splits)

lemma pieces_sort:
  "pieces_of S (sort_key fst (ps @ [p])) \<longleftrightarrow> pieces_of S (p # ps)"
  "pieces_set (sort_key fst (ps @ [p])) = pieces_set (p # ps)"
  by (auto simp: pieces_of_def pieces_set_def)

lemma push_cases:
  assumes "push_with_credit offset data fin credit s = Inr (new, s')"
  obtains stop t where "stop = offset + length data" "stop < 2 ^ 62" "check_end stop fin credit s = Inr new"
    "t = s\<lparr>rs_final_size := (if fin then Some stop else rs_final_size s), rs_received := max (rs_received s) stop\<rparr>"
    "rs_read_offset s + length (rs_ready s) < offset \<and> data \<noteq> []
        \<and> s' = t\<lparr>rs_pending := sort_key fst (rs_pending s @ [(offset, data)])\<rparr>
     \<or> rs_read_offset s + length (rs_ready s) < offset \<and> data = [] \<and> s' = t
     \<or> offset \<le> rs_read_offset s + length (rs_ready s) \<and> (\<exists>ready pending.
          drain_pending (rs_read_offset s) (rs_ready s @ drop (rs_read_offset s + length (rs_ready s) - offset) data)
            (rs_pending s) = (ready, pending)
          \<and> s' = t\<lparr>rs_ready := ready, rs_pending := pending\<rparr>)"
proof -
  let ?stop = "offset + length data"
  let ?t = "s\<lparr>rs_final_size := (if fin then Some ?stop else rs_final_size s), rs_received := max (rs_received s) ?stop\<rparr>"
  have "?stop < 2 ^ 62" and chk: "check_end ?stop fin credit s = Inr new"
    using assms by (auto simp: push_with_credit_def checked_add_def push_bit_eq_mult Let_def split: if_splits prod.splits)
  moreover have t: "(if fin then s\<lparr>rs_final_size := Some ?stop\<rparr> else s)\<lparr>rs_received := max (rs_received (if fin then s\<lparr>rs_final_size := Some ?stop\<rparr> else s)) ?stop\<rparr> = ?t"
    by simp
  ultimately show thesis
    using assms by (intro that [of ?stop ?t])
      (auto simp: push_with_credit_def checked_add_def push_bit_eq_mult Let_def split: if_splits prod.splits)
qed

lemma recv_invD:
  assumes "recv_inv S y" "s = ry_stream y" "head = rs_read_offset s + length (rs_ready s)"
  shows "rs_ready s = slice_of S (rs_read_offset s) (length (rs_ready s))" "pieces_of S (rs_pending s)"
    "sorted (map fst (rs_pending s))" "\<forall>p \<in> set (rs_pending s). head < fst p"
    "ry_got y = {..<head} \<union> pieces_set (rs_pending s)" "ry_got y \<subseteq> {..<rs_received s}" "rs_received s \<le> rs_max_data s"
    "\<forall>size1. rs_final_size s = Some size1 \<longrightarrow> rs_received s \<le> size1" "ry_shown y = slice_of S 0 (rs_read_offset s)"
    "ry_counted y = rs_received s"
  using assms(1) unfolding recv_inv_def assms(2,3) Let_def by blast+

lemma recv_invI:
  assumes "s = ry_stream y" "head = rs_read_offset s + length (rs_ready s)"
    "rs_ready s = slice_of S (rs_read_offset s) (length (rs_ready s))" "pieces_of S (rs_pending s)"
    "sorted (map fst (rs_pending s))" "\<forall>p \<in> set (rs_pending s). head < fst p"
    "ry_got y = {..<head} \<union> pieces_set (rs_pending s)" "ry_got y \<subseteq> {..<rs_received s}" "rs_received s \<le> rs_max_data s"
    "\<forall>size1. rs_final_size s = Some size1 \<longrightarrow> rs_received s \<le> size1" "ry_shown y = slice_of S 0 (rs_read_offset s)"
    "ry_counted y = rs_received s"
  shows "recv_inv S y"
  using assms unfolding recv_inv_def assms(1,2) Let_def by blast

lemma recv_inv_start: "recv_inv S (recv_start window)"
  by (simp add: recv_inv_def recv_start_def recv_new_def slice_of_def)

lemma recv_inv_push:
  assumes inv: "recv_inv S y" and data: "data = slice_of S offset (length data)"
    and push: "push_with_credit offset data fin credit (ry_stream y) = Inr (new, s')"
  shows "recv_inv S (y\<lparr>ry_stream := s', ry_got := ry_got y \<union> {offset..<offset + length data}, ry_counted := ry_counted y + new\<rparr>)"
proof -
  define s where "s = ry_stream y"
  let ?head = "rs_read_offset s + length (rs_ready s)"
  note I = recv_invD [OF inv s_def refl]
  obtain stop t where stop: "stop = offset + length data" "check_end stop fin credit s = Inr new"
    and t: "t = s\<lparr>rs_final_size := (if fin then Some stop else rs_final_size s), rs_received := max (rs_received s) stop\<rparr>"
    and cs: "?head < offset \<and> data \<noteq> [] \<and> s' = t\<lparr>rs_pending := sort_key fst (rs_pending s @ [(offset, data)])\<rparr>
     \<or> ?head < offset \<and> data = [] \<and> s' = t
     \<or> offset \<le> ?head \<and> (\<exists>ready pending.
          drain_pending (rs_read_offset s) (rs_ready s @ drop (?head - offset) data) (rs_pending s) = (ready, pending)
          \<and> s' = t\<lparr>rs_ready := ready, rs_pending := pending\<rparr>)"
    using push unfolding s_def [symmetric] by (rule push_cases) blast
  note chk = stop(2) [unfolded check_end_Inr]
  have common: "ry_got y \<union> {offset..<offset + length data} \<subseteq> {..<max (rs_received s) stop}"
    "max (rs_received s) stop \<le> rs_max_data s" "ry_counted y + new = max (rs_received s) stop"
    "\<forall>size1. rs_final_size t = Some size1 \<longrightarrow> max (rs_received s) stop \<le> size1"
    using I(6,7,8,10) chk stop(1) by (auto simp: t split: if_splits)
  from cs consider
    (later) "?head < offset" "s' = t\<lparr>rs_pending := sort_key fst (rs_pending s @ [(offset, data)])\<rparr>"
    | (empty) "?head < offset" "data = []" "s' = t"
    | (now) ready pending where "offset \<le> ?head"
      "drain_pending (rs_read_offset s) (rs_ready s @ drop (?head - offset) data) (rs_pending s) = (ready, pending)"
      "s' = t\<lparr>rs_ready := ready, rs_pending := pending\<rparr>" by blast
  then show ?thesis
  proof cases
    case later
    then show ?thesis using I data common
      by (auto simp: recv_inv_def Let_def t pieces_sort simp del: sort_key_simps)
  next
    case empty
    then show ?thesis using I common by (auto simp: recv_inv_def Let_def t)
  next
    case now
    note ext = extend_slice [OF I(1) data now(1)]
    note spec = drain_pending_spec [OF now(2) ext(1) I(2,3)]
    have got: "ry_got y \<union> {offset..<offset + length data} = {..<rs_read_offset s + length ready} \<union> pieces_set pending"
      using spec ext(2) I(5) by blast
    show ?thesis using spec common I(9) unfolding recv_inv_def Let_def now(3) by (simp add: t got)
  qed
qed

lemma recv_inv_step:
  assumes "recv_step S y y'" "recv_inv S y"
  shows "recv_inv S y'"
  using assms
proof (cases rule: recv_step.cases)
  case (on_push data offset fin credit new s)
  then show ?thesis using recv_inv_push assms(2) by blast
next
  case (on_stop final_size credit new s)
  note I = recv_invD [OF assms(2) refl refl]
  from on_stop have s: "s = (ry_stream y)\<lparr>rs_final_size := Some final_size, rs_received := final_size\<rparr>"
    and chk: "rs_received (ry_stream y) \<le> final_size" "final_size \<le> rs_max_data (ry_stream y)"
      "new = final_size - rs_received (ry_stream y)"
    by (auto simp: recv_reset_def check_end_Inr)
  have "ry_got y \<subseteq> {..<final_size}" using I(6) chk(1) by auto
  then show ?thesis using on_stop(1) I(1-5) I(9,10) chk(2,3) chk(1) unfolding recv_inv_def s Let_def by simp
next
  case (on_consume n s)
  note I = recv_invD [OF assms(2) refl refl]
  let ?s = "ry_stream y"
  show ?thesis
  proof (cases "rs_ready ?s = []")
    case True
    then have "y' = y" using on_consume by (simp add: recv_consume_def)
    then show ?thesis using assms(2) by simp
  next
    case False
    then have s: "s = ?s\<lparr>rs_ready := [], rs_read_offset := rs_read_offset ?s + length (rs_ready ?s)\<rparr>"
      and n: "n = length (rs_ready ?s)"
      using on_consume(2) by (auto simp: recv_consume_def Let_def)
    have shown: "ry_shown y @ rs_ready ?s = slice_of S 0 (rs_read_offset ?s + length (rs_ready ?s))"
      using slice_of_append [of S 0 "rs_read_offset ?s" "length (rs_ready ?s)"] I(1,9) by simp
    have y': "y' = y\<lparr>ry_stream := s, ry_shown := ry_shown y @ rs_ready ?s\<rparr>" using on_consume(1) n by simp
    show ?thesis
    proof (rule recv_invI [of s, OF _ refl])
      show "ry_shown y' = slice_of S 0 (rs_read_offset s)" using shown by (simp add: y' s)
      show "ry_got y' = {..<rs_read_offset s + length (rs_ready s)} \<union> pieces_set (rs_pending s)"
        using I(5) by (simp add: y' s)
      show "ry_got y' \<subseteq> {..<rs_received s}" using I(6) by (simp add: y' s)
    qed (use I(2,3,4,7,8,10) in \<open>simp_all add: y' s\<close>)
  qed
next
  case (on_grant window limit s)
  then have s: "s = (ry_stream y)\<lparr>rs_max_data := limit\<rparr>" and up: "rs_max_data (ry_stream y) \<le> limit"
    by (auto simp: recv_grant_def Let_def)
  note I = recv_invD [OF assms(2) refl refl]
  have same: "rs_ready s = rs_ready (ry_stream y)" "rs_read_offset s = rs_read_offset (ry_stream y)" by (simp_all add: s)
  show ?thesis
  proof (rule recv_invI [of s, OF _ refl])
    show "rs_ready s = slice_of S (rs_read_offset s) (length (rs_ready s))" unfolding same by (rule I(1))
  qed (use I(2-10) up on_grant(1) in \<open>simp_all add: s\<close>)
qed

lemma recv_inv_reachable: "(recv_step S)\<^sup>*\<^sup>* (recv_start window) y \<Longrightarrow> recv_inv S y"
  by (induction rule: rtranclp_induct) (auto intro: recv_inv_start recv_inv_step)

section \<open>A run with reordering and overlap\<close>

definition sample_bytes :: "nat \<Rightarrow> byte" where
  "sample_bytes x = word_of_nat x"

definition sample_gap :: recv_sys where
  "sample_gap =
     \<lparr>ry_stream = (recv_new 100)\<lparr>rs_pending := [(2, [2, 3])], rs_final_size := Some 4, rs_received := 4\<rparr>,
      ry_got = {2..<4}, ry_shown = [], ry_counted = 4\<rparr>"

definition sample_whole :: recv_sys where
  "sample_whole =
     \<lparr>ry_stream = (recv_new 100)\<lparr>rs_ready := [0, 1, 2, 3], rs_final_size := Some 4, rs_received := 4\<rparr>,
      ry_got = {2..<4} \<union> {0..<3}, ry_shown = [], ry_counted = 4\<rparr>"

lemmas sample_recv_defs = sample_gap_def sample_whole_def recv_start_def recv_new_def push_with_credit_def
  checked_add_def check_end_def

lemma sample_gap_step: "recv_step sample_bytes (recv_start 100) sample_gap"
proof -
  have "[2, 3] = slice_of sample_bytes 2 (length [2, 3 :: byte])"
    by (simp add: slice_of_def sample_bytes_def upt_rec)
  from on_push [OF this, of True 100 "recv_start 100"] show ?thesis
    by (simp add: sample_recv_defs)
qed

lemma sample_whole_step: "recv_step sample_bytes sample_gap sample_whole"
proof -
  have "[0, 1, 2] = slice_of sample_bytes 0 (length [0, 1, 2 :: byte])"
    by (simp add: slice_of_def sample_bytes_def upt_rec)
  from on_push [OF this, of False 100 sample_gap] show ?thesis
    by (simp add: sample_recv_defs numeral_3_eq_3 [symmetric])
qed

lemma sample_whole_reachable: "(recv_step sample_bytes)\<^sup>*\<^sup>* (recv_start 100) sample_whole"
  by (rule rtranclp.rtrancl_into_rtrancl [OF r_into_rtranclp [where r = "recv_step sample_bytes", OF sample_gap_step] sample_whole_step])

section \<open>Properties\<close>

text \<open>
  C9. Reassembly is correct and complete. However the frames of a stream are split, reordered, repeated
  and overlapped, what the application has been shown followed by what is ready is exactly the stream's
  contiguous prefix, up to the first offset that has not arrived: nothing wrong, nothing missing,
  nothing held back.
\<close>

theorem recv_reassembles:
  assumes "(recv_step S)\<^sup>*\<^sup>* (recv_start window) y"
    "head = rs_read_offset (ry_stream y) + length (rs_ready (ry_stream y))"
  shows "ry_shown y @ rs_ready (ry_stream y) = map S [0..<head] \<and> {..<head} \<subseteq> ry_got y \<and> head \<notin> ry_got y"
proof -
  define s where "s = ry_stream y"
  have head: "head = rs_read_offset s + length (rs_ready s)" using assms(2) by (simp add: s_def)
  note I = recv_invD [OF recv_inv_reachable [OF assms(1)] s_def head]
  have "ry_shown y @ rs_ready s = slice_of S 0 (rs_read_offset s + length (rs_ready s))"
    using slice_of_append [of S 0 "rs_read_offset s" "length (rs_ready s)"] I(1,9) by simp
  moreover have "head \<notin> pieces_set (rs_pending s)" using I(4) by (fastforce simp: pieces_set_def)
  ultimately show ?thesis using I(5) by (auto simp: slice_of_def head simp flip: s_def)
qed

theorem recv_reassembles_witness:
  "ry_shown sample_whole @ rs_ready (ry_stream sample_whole) = map sample_bytes [0..<4] \<and> 4 \<notin> ry_got sample_whole"
  using recv_reassembles [OF sample_whole_reachable, of 4] by (simp add: sample_whole_def recv_new_def)

text \<open>
  A stream counts as finished exactly when its end is known and every byte below it has arrived.
\<close>

theorem recv_finished_iff:
  assumes "(recv_step S)\<^sup>*\<^sup>* (recv_start window) y" "rs_final_size (ry_stream y) = Some total_size"
  shows "recv_is_finished (ry_stream y) \<longleftrightarrow> {..<total_size} \<subseteq> ry_got y"
proof -
  define s where "s = ry_stream y"
  let ?head = "rs_read_offset s + length (rs_ready s)"
  note I = recv_invD [OF recv_inv_reachable [OF assms(1)] s_def refl]
  have "?head \<notin> ry_got y" using I(4,5) by (fastforce simp: pieces_set_def)
  then have "{..<total_size} \<subseteq> ry_got y \<longleftrightarrow> total_size \<le> ?head"
    using I(5) by (metis UnCI lessThan_iff lessThan_subset_iff linorder_not_less subset_iff)
  then show ?thesis using assms(2) by (simp add: recv_is_finished_def s_def)
qed

theorem recv_finished_iff_witness:
  "rs_final_size (ry_stream sample_whole) = Some 4
   \<and> (recv_is_finished (ry_stream sample_whole) \<longleftrightarrow> {..<4} \<subseteq> ry_got sample_whole)"
  using recv_finished_iff [OF sample_whole_reachable, of 4] by (simp add: sample_whole_def)

text \<open>
  Flow control accounting: what accepted frames and resets counted against the connection window
  adds up to the highest offset accepted, never beyond the stream's limit or the announced final size;
  so an overlap, a duplicate or a repeated reset is never charged twice, and a gap is charged once.
\<close>

theorem recv_accounting:
  assumes "(recv_step S)\<^sup>*\<^sup>* (recv_start window) y"
  shows "ry_counted y = rs_received (ry_stream y) \<and> rs_received (ry_stream y) \<le> rs_max_data (ry_stream y)
     \<and> ry_got y \<subseteq> {..<ry_counted y}
     \<and> (\<forall>total_size. rs_final_size (ry_stream y) = Some total_size \<longrightarrow> ry_counted y \<le> total_size)"
  using recv_inv_reachable [OF assms] unfolding recv_inv_def Let_def by auto

theorem recv_accounting_witness:
  "ry_counted sample_whole = rs_received (ry_stream sample_whole) \<and> ry_got sample_whole \<subseteq> {..<4}"
  using recv_accounting [OF sample_whole_reachable] by (simp add: sample_whole_def)

text \<open>
  The final size of a stream never changes once it is known, whatever the peer sends after it.
\<close>

theorem final_size_stable:
  assumes "(recv_step S)\<^sup>*\<^sup>* y y'" "rs_final_size (ry_stream y) = Some total_size"
  shows "rs_final_size (ry_stream y') = Some total_size"
  using assms
proof (induction rule: rtranclp_induct)
  case (step y' y'')
  from step.hyps(2) show ?case
  proof cases
    case (on_push data offset fin credit new s)
    from on_push(3) show ?thesis
      by (rule push_cases) (use on_push(1) step.IH step.prems in \<open>auto simp: check_end_Inr\<close>)
  next
    case (on_stop final_size credit new s)
    then show ?thesis using step.IH step.prems by (auto simp: recv_reset_def check_end_Inr)
  next
    case (on_consume n s)
    then show ?thesis using step.IH step.prems by (auto simp: recv_consume_def Let_def split: if_splits)
  next
    case (on_grant window limit s)
    then show ?thesis using step.IH step.prems by (auto simp: recv_grant_def Let_def)
  qed
qed simp

theorem final_size_stable_witness:
  "rs_final_size (ry_stream sample_gap) = Some 4 \<and> rs_final_size (ry_stream sample_whole) = Some 4"
  using final_size_stable [OF r_into_rtranclp [where r = "recv_step sample_bytes", OF sample_whole_step], of 4] by (simp add: sample_gap_def)

text \<open>
  What is refused and why, in this order: an end past the largest offset QUIC can express, an end
  that contradicts the final size, an end past the stream limit or a growth past the connection credit.
  Nothing else is refused, and a refused frame leaves no trace in the stream.
\<close>

theorem push_refused_iff:
  "push_with_credit offset data fin credit s = Inl e \<longleftrightarrow>
     (let stop = offset + length data;
          bad_size = ((\<exists>total_size. rs_final_size s = Some total_size \<and> (stop > total_size \<or> fin \<and> stop \<noteq> total_size))
                      \<or> fin \<and> stop < rs_received s) in
      if stop \<ge> 2 ^ 62 then e = FrameEncoding
      else if bad_size then e = FinalSize
      else (stop > rs_max_data s \<or> stop - rs_received s > credit) \<and> e = FlowControl)"
proof -
  have chk: "check_end stop fin credit s = Inl e \<longleftrightarrow>
      (if (\<exists>total_size. rs_final_size s = Some total_size \<and> (stop > total_size \<or> fin \<and> stop \<noteq> total_size)) \<or> fin \<and> stop < rs_received s
       then e = FinalSize else (stop > rs_max_data s \<or> stop - rs_received s > credit) \<and> e = FlowControl)" for stop
    by (auto simp: check_end_def Let_def split: option.splits)
  have "push_with_credit offset data fin credit s = Inl e \<longleftrightarrow>
      (if offset + length data \<ge> 2 ^ 62 then e = FrameEncoding else check_end (offset + length data) fin credit s = Inl e)"
    unfolding push_with_credit_def
    by (subst rbind_eq_Inl, subst rbind_Inl_total)
      (auto simp: checked_add_def push_bit_eq_mult Let_def split: prod.split)
  then show ?thesis by (simp add: chk Let_def)
qed

end
