(* ===== verification/Recovery.thy ===== *)
theory Recovery
  imports Packet "HOL-Library.Multiset"
begin

text \<open>
  Loss detection, round-trip estimation and congestion control (\<open>src/quic/recovery.rs\<close>, RFC 9002).
  Instants and durations are natural numbers of nanoseconds; dividing a \<open>Duration\<close> rounds down.
\<close>

section \<open>Sent packets\<close>

definition REORDER_THRESHOLD :: nat where "REORDER_THRESHOLD = 3"
definition TIME_THRESHOLD_NUM :: nat where "TIME_THRESHOLD_NUM = 9"
definition TIME_THRESHOLD_DEN :: nat where "TIME_THRESHOLD_DEN = 8"
definition TIMER_GRANULARITY :: nat where "TIMER_GRANULARITY = 1000000"
definition PERSISTENT_CONGESTION_THRESHOLD :: nat where "PERSISTENT_CONGESTION_THRESHOLD = 3"
definition INITIAL_RTT :: nat where "INITIAL_RTT = 333000000"

datatype sent_frame =
    SentCrypto nat nat
  | SentStream nat nat nat bool
  | SentPing
  | SentRetireConnectionId nat
  | SentResetStream nat nat nat
  | SentMaxData nat
  | SentMaxStreamData nat nat

record sent_packet =
  sp_ack_largest :: "nat option"
  sp_number :: nat
  sp_time_sent :: nat
  sp_size :: nat
  sp_ack_eliciting :: bool
  sp_frames :: "sent_frame list"

record sent_packets =
  sp_packets :: "sent_packet list"
  sp_largest_acked :: "nat option"
  sp_last_ack_eliciting :: "nat option"

definition sent_default :: sent_packets where
  "sent_default = \<lparr>sp_packets = [], sp_largest_acked = None, sp_last_ack_eliciting = None\<rparr>"

definition sent_push :: "sent_packet \<Rightarrow> sent_packets \<Rightarrow> sent_packets" where
  "sent_push packet s =
     (let s = (if sp_ack_eliciting packet then s\<lparr>sp_last_ack_eliciting := Some (sp_time_sent packet)\<rparr> else s) in
      s\<lparr>sp_packets := sp_packets s @ [packet]\<rparr>)"

definition any_ack_eliciting :: "sent_packets \<Rightarrow> bool" where
  "any_ack_eliciting s = list_ex sp_ack_eliciting (sp_packets s)"

text \<open>The loop that moves the packets inside the ranges from the flight to \<open>acked\<close>.\<close>

fun drain_loop :: "(nat \<times> nat) list \<Rightarrow> sent_packet list \<Rightarrow> sent_packet list \<times> sent_packet list" where
  "drain_loop ranges [] = ([], [])"
| "drain_loop ranges (p # ps) =
     (let (out, kept) = drain_loop ranges ps in
      if list_ex (\<lambda>(lo, hi). sp_number p \<ge> lo \<and> sp_number p \<le> hi) ranges then (p # out, kept)
      else (out, p # kept))"

definition drain_acked ::
    "(nat \<times> nat) list \<Rightarrow> sent_packet list \<Rightarrow> sent_packets \<Rightarrow> sent_packet list \<times> sent_packets" where
  "drain_acked ranges acked s =
     (let (out, kept) = drain_loop ranges (sp_packets s);
          acked = acked @ out;
          s = s\<lparr>sp_packets := kept\<rparr> in
      (acked,
       if acked = [] then s
       else let m = Max (sp_number ` set acked) in
         s\<lparr>sp_largest_acked := Some (case sp_largest_acked s of Some prev \<Rightarrow> max prev m | None \<Rightarrow> m)\<rparr>))"

fun detect_loop ::
    "nat \<Rightarrow> nat \<Rightarrow> nat \<Rightarrow> sent_packet list \<Rightarrow> nat option \<Rightarrow> sent_packet list \<times> sent_packet list \<times> nat option" where
  "detect_loop largest_acked now loss_delay [] next_deadline = ([], [], next_deadline)"
| "detect_loop largest_acked now loss_delay (p # ps) next_deadline =
     (if sp_number p > largest_acked then
        let (lost, kept, dl) = detect_loop largest_acked now loss_delay ps next_deadline in (lost, p # kept, dl)
      else
        let by_reorder = (largest_acked \<ge> sp_number p + REORDER_THRESHOLD);
            deadline = sp_time_sent p + loss_delay in
        if by_reorder \<or> deadline \<le> now then
          let (lost, kept, dl) = detect_loop largest_acked now loss_delay ps next_deadline in (p # lost, kept, dl)
        else
          let next_deadline = Some (case next_deadline of Some d \<Rightarrow> min d deadline | None \<Rightarrow> deadline);
              (lost, kept, dl) = detect_loop largest_acked now loss_delay ps next_deadline in
          (lost, p # kept, dl))"

definition detect_lost ::
    "nat \<Rightarrow> nat \<Rightarrow> sent_packets \<Rightarrow> (sent_packet list \<times> nat option) \<times> sent_packets" where
  "detect_lost now loss_delay s =
     (case sp_largest_acked s of
        None \<Rightarrow> (([], None), s)
      | Some largest_acked \<Rightarrow>
          let (lost, kept, dl) = detect_loop largest_acked now loss_delay (sp_packets s) None in
          ((lost, dl), s\<lparr>sp_packets := kept\<rparr>))"

definition bytes_in_flight :: "sent_packets \<Rightarrow> nat" where
  "bytes_in_flight s = sum_list (map sp_size (filter sp_ack_eliciting (sp_packets s)))"

section \<open>Round-trip time\<close>

record rtt =
  rtt_latest :: nat
  rtt_smoothed :: "nat option"
  rtt_var :: nat
  rtt_min :: "nat option"

definition rtt_default :: rtt where
  "rtt_default = \<lparr>rtt_latest = 0, rtt_smoothed = None, rtt_var = 0, rtt_min = None\<rparr>"

definition rtt_update :: "nat \<Rightarrow> nat \<Rightarrow> nat \<Rightarrow> rtt \<Rightarrow> rtt" where
  "rtt_update sample ack_delay max_ack_delay r =
     (let r = r\<lparr>rtt_latest := sample\<rparr>;
          m = (case rtt_min r of Some m \<Rightarrow> min m sample | None \<Rightarrow> sample);
          r = r\<lparr>rtt_min := Some m\<rparr> in
      case rtt_smoothed r of
        None \<Rightarrow> r\<lparr>rtt_smoothed := Some sample, rtt_var := sample div 2\<rparr>
      | Some smoothed \<Rightarrow>
          let adjusted = (if sample > m then sample - min ack_delay max_ack_delay else sample);
              adjusted = max adjusted m;
              var_sample = (if smoothed \<ge> adjusted then smoothed - adjusted else adjusted - smoothed) in
          r\<lparr>rtt_var := (rtt_var r * 3 + var_sample) div 4, rtt_smoothed := Some ((smoothed * 7 + adjusted) div 8)\<rparr>)"

definition smoothed_or_initial :: "rtt \<Rightarrow> nat" where
  "smoothed_or_initial r = (case rtt_smoothed r of Some s \<Rightarrow> s | None \<Rightarrow> INITIAL_RTT)"

definition rtt_pto :: "nat \<Rightarrow> rtt \<Rightarrow> nat" where
  "rtt_pto max_ack_delay r = smoothed_or_initial r + max (rtt_var r * 4) TIMER_GRANULARITY + max_ack_delay"

definition persistent_congestion_duration :: "nat \<Rightarrow> rtt \<Rightarrow> nat" where
  "persistent_congestion_duration max_ack_delay r = rtt_pto max_ack_delay r * PERSISTENT_CONGESTION_THRESHOLD"

definition rtt_loss_delay :: "rtt \<Rightarrow> nat" where
  "rtt_loss_delay r =
     (let base = max (rtt_latest r) (smoothed_or_initial r) in
      max (base * TIME_THRESHOLD_NUM div TIME_THRESHOLD_DEN) TIMER_GRANULARITY)"

section \<open>Congestion control\<close>

definition INITIAL_WINDOW :: nat where "INITIAL_WINDOW = 4 * 1024 * 1024"
definition MIN_WINDOW :: nat where "MIN_WINDOW = 2 * 1200"

record congestion =
  cg_window :: nat
  cg_ssthresh :: nat
  cg_recovery_start :: "nat option"
  cg_acked_since_increase :: nat

definition congestion_default :: congestion where
  "congestion_default =
     \<lparr>cg_window = INITIAL_WINDOW, cg_ssthresh = 2 ^ 64 - 1, cg_recovery_start = None, cg_acked_since_increase = 0\<rparr>"

definition in_recovery :: "nat \<Rightarrow> congestion \<Rightarrow> bool" where
  "in_recovery sent c = (case cg_recovery_start c of Some t \<Rightarrow> sent \<le> t | None \<Rightarrow> False)"

definition congestion_on_ack :: "nat \<Rightarrow> nat \<Rightarrow> congestion \<Rightarrow> congestion" where
  "congestion_on_ack bs sent c =
     (if in_recovery sent c then c
      else if cg_window c < cg_ssthresh c then c\<lparr>cg_window := cg_window c + bs\<rparr>
      else
        let c = c\<lparr>cg_acked_since_increase := cg_acked_since_increase c + bs\<rparr> in
        if cg_acked_since_increase c \<ge> cg_window c then
          c\<lparr>cg_acked_since_increase := cg_acked_since_increase c - cg_window c, cg_window := cg_window c + 1200\<rparr>
        else c)"

definition congestion_on_loss :: "nat \<Rightarrow> nat \<Rightarrow> congestion \<Rightarrow> congestion" where
  "congestion_on_loss sent now c =
     (if in_recovery sent c then c
      else
        let w = max (cg_window c div 2) MIN_WINDOW in
        c\<lparr>cg_window := w, cg_ssthresh := w, cg_recovery_start := Some now, cg_acked_since_increase := 0\<rparr>)"

definition congestion_on_persistent :: "congestion \<Rightarrow> congestion" where
  "congestion_on_persistent c =
     c\<lparr>cg_window := MIN_WINDOW, cg_ssthresh := 2 ^ 64 - 1, cg_recovery_start := None, cg_acked_since_increase := 0\<rparr>"

definition can_send :: "nat \<Rightarrow> congestion \<Rightarrow> bool" where
  "can_send in_flight c \<longleftrightarrow> in_flight < cg_window c"

section \<open>Probe timeout\<close>

definition saturating_pow2 :: "nat \<Rightarrow> nat" where
  "saturating_pow2 n = (if n < 32 then 2 ^ n else 2 ^ 32 - 1)"

definition pto_candidate :: "(space \<Rightarrow> sent_packets) \<Rightarrow> rtt \<Rightarrow> nat \<Rightarrow> nat \<Rightarrow> space \<Rightarrow> nat option" where
  "pto_candidate spaces r max_ack_delay pto_count sp =
     (if \<not> any_ack_eliciting (spaces sp) then None
      else case sp_last_ack_eliciting (spaces sp) of
        None \<Rightarrow> None
      | Some last_sent \<Rightarrow>
          let delay = (if sp = Data then max_ack_delay else 0) in
          Some (last_sent + rtt_pto delay r * saturating_pow2 pto_count))"

definition pto_step ::
    "(space \<Rightarrow> sent_packets) \<Rightarrow> rtt \<Rightarrow> nat \<Rightarrow> nat \<Rightarrow> space \<Rightarrow> (space \<times> nat) option \<Rightarrow> (space \<times> nat) option" where
  "pto_step spaces r max_ack_delay pto_count sp best =
     (case pto_candidate spaces r max_ack_delay pto_count sp of
        None \<Rightarrow> best
      | Some at \<Rightarrow> if (case best of None \<Rightarrow> True | Some (_, t) \<Rightarrow> at < t) then Some (sp, at) else best)"

definition latest_of :: "nat option list \<Rightarrow> nat option" where
  "latest_of ts = (case List.map_filter (\<lambda>t. t) ts of [] \<Rightarrow> None | x # xs \<Rightarrow> Some (fold max xs x))"

definition pto_deadline ::
    "(space \<Rightarrow> sent_packets) \<Rightarrow> rtt \<Rightarrow> nat \<Rightarrow> nat \<Rightarrow> space option \<Rightarrow> (space \<times> nat) option" where
  "pto_deadline spaces r max_ack_delay pto_count unacked_handshake =
     (let best = fold (pto_step spaces r max_ack_delay pto_count) space_ALL None in
      case (best, unacked_handshake, latest_of (map (\<lambda>sp. sp_last_ack_eliciting (spaces sp)) space_ALL)) of
        (None, Some sp, Some last_sent) \<Rightarrow> Some (sp, last_sent + rtt_pto 0 r * saturating_pow2 pto_count)
      | _ \<Rightarrow> best)"

section \<open>What the loops compute\<close>

definition in_ranges :: "(nat \<times> nat) list \<Rightarrow> nat \<Rightarrow> bool" where
  "in_ranges ranges n \<longleftrightarrow> (\<exists>(lo, hi) \<in> set ranges. lo \<le> n \<and> n \<le> hi)"

lemma drain_loop_filter:
  "drain_loop ranges ps = (filter (\<lambda>p. in_ranges ranges (sp_number p)) ps, filter (\<lambda>p. \<not> in_ranges ranges (sp_number p)) ps)"
  by (induction ps) (auto simp: in_ranges_def list_ex_iff Let_def)

text \<open>The loss rule of RFC 9002 Section 6.1 for one packet.\<close>

definition lost_now :: "nat \<Rightarrow> nat \<Rightarrow> nat \<Rightarrow> sent_packet \<Rightarrow> bool" where
  "lost_now largest_acked now loss_delay p \<longleftrightarrow>
     sp_number p \<le> largest_acked \<and> (sp_number p + 3 \<le> largest_acked \<or> sp_time_sent p + loss_delay \<le> now)"

fun opt_min :: "nat option \<Rightarrow> nat option \<Rightarrow> nat option" where
  "opt_min None y = y"
| "opt_min x None = x"
| "opt_min (Some x) (Some y) = Some (min x y)"

lemma opt_min_None [simp]: "opt_min x None = x"
  by (cases x) simp_all

lemma opt_min_assoc: "opt_min (opt_min x y) z = opt_min x (opt_min y z)"
  by (cases x; cases y; cases z) (simp_all add: min.assoc)

lemma detect_loop_filter:
  "detect_loop la now delay ps dl =
     (filter (lost_now la now delay) ps, filter (\<lambda>p. \<not> lost_now la now delay p) ps,
      fold (\<lambda>p d. opt_min d (Some (sp_time_sent p + delay)))
        (filter (\<lambda>p. \<not> lost_now la now delay p \<and> sp_number p \<le> la) ps) dl)"
proof (induction ps arbitrary: dl)
  case (Cons p ps)
  have "Some (case dl of Some d \<Rightarrow> min d t | None \<Rightarrow> t) = opt_min dl (Some t)" for t by (cases dl) simp_all
  then show ?case by (auto simp: Cons lost_now_def REORDER_THRESHOLD_def Let_def)
qed simp

lemma fold_opt_min:
  "fold (\<lambda>p d. opt_min d (Some (f p))) ps (Some d) = Some (Min (insert d (f ` set ps)))"
proof (induction ps arbitrary: d)
  case (Cons p ps)
  have "Min (insert d (f ` set (p # ps))) = Min (insert (min d (f p)) (f ` set ps))"
    by (cases "ps = []") (auto simp: Min_insert min.assoc)
  then show ?case by (simp add: Cons)
qed simp

lemma fold_opt_min_None:
  "fold (\<lambda>p d. opt_min d (Some (f p))) ps None = (if ps = [] then None else Some (Min (f ` set ps)))"
  by (cases ps) (simp_all add: fold_opt_min)

section \<open>Every packet has one fate\<close>

datatype sent_op = Push sent_packet | Acked "(nat \<times> nat) list" | Detect nat nat

text \<open>What a run acknowledges and what it declares lost, next to the final state.\<close>

fun sent_run :: "sent_op list \<Rightarrow> sent_packets \<Rightarrow> sent_packet list \<times> sent_packet list \<times> sent_packets" where
  "sent_run [] s = ([], [], s)"
| "sent_run (Push p # ops) s = sent_run ops (sent_push p s)"
| "sent_run (Acked ranges # ops) s =
     (let (out, s) = drain_acked ranges [] s; (acked, lost, s) = sent_run ops s in (out @ acked, lost, s))"
| "sent_run (Detect now loss_delay # ops) s =
     (let ((out, _), s) = detect_lost now loss_delay s; (acked, lost, s) = sent_run ops s in (acked, out @ lost, s))"

fun pushed :: "sent_op list \<Rightarrow> sent_packet list" where
  "pushed [] = []"
| "pushed (Push p # ops) = p # pushed ops"
| "pushed (_ # ops) = pushed ops"

lemma sent_push_packets: "sp_packets (sent_push p s) = sp_packets s @ [p]"
  by (simp add: sent_push_def Let_def)

lemma drain_acked_packets:
  assumes "drain_acked ranges [] s = (out, s')"
  shows "out = filter (\<lambda>p. in_ranges ranges (sp_number p)) (sp_packets s)"
    "sp_packets s' = filter (\<lambda>p. \<not> in_ranges ranges (sp_number p)) (sp_packets s)"
  using assms by (auto simp: drain_acked_def drain_loop_filter Let_def split: if_splits)

lemma detect_lost_packets:
  assumes "detect_lost now loss_delay s = ((out, dl), s')"
  shows "mset (sp_packets s) = mset out + mset (sp_packets s')"
  using assms by (auto simp: detect_lost_def detect_loop_filter Let_def multiset_partition split: option.splits)

lemma sent_run_mset:
  "sent_run ops s = (acked, lost, s') \<Longrightarrow>
     mset (sp_packets s) + mset (pushed ops) = mset (sp_packets s') + mset acked + mset lost"
proof (induction ops arbitrary: s acked lost)
  case (Cons op ops)
  show ?case
  proof (cases op)
    case (Push p)
    then show ?thesis using Cons.IH [of "sent_push p s"] Cons.prems by (simp add: sent_push_packets)
  next
    case (Acked ranges)
    obtain out t where d: "drain_acked ranges [] s = (out, t)" by force
    obtain acked' where r: "sent_run ops t = (acked', lost, s')" "acked = out @ acked'"
      using Cons.prems by (auto simp: Acked d split: prod.splits)
    have "mset (sp_packets s) = mset out + mset (sp_packets t)"
      using drain_acked_packets [OF d] by (simp add: multiset_partition)
    then show ?thesis using Cons.IH [OF r(1)] r(2) by (simp add: Acked ac_simps)
  next
    case (Detect now loss_delay)
    obtain out dl t where d: "detect_lost now loss_delay s = ((out, dl), t)" by (metis surj_pair)
    obtain lost' where r: "sent_run ops t = (acked, lost', s')" "lost = out @ lost'"
      using Cons.prems by (auto simp: Detect d split: prod.splits)
    then show ?thesis using Cons.IH [OF r(1)] detect_lost_packets [OF d] r(2) by (simp add: Detect ac_simps)
  qed
qed simp

text \<open>
  C15. Every packet sent has exactly one fate at any time: it is in flight, or was acknowledged once, or
  was declared lost once. No packet is dropped silently, and none is acknowledged after being lost or
  reported twice, so nothing is retransmitted twice for one loss.
\<close>

theorem sent_one_fate:
  assumes "sent_run ops sent_default = (acked, lost, s)"
  shows "mset (pushed ops) = mset (sp_packets s) + mset acked + mset lost"
  using sent_run_mset [OF assms] by (simp add: sent_default_def)

theorem sent_one_fate_witness:
  "\<exists>p q s. sent_run [Push p, Push q, Acked [(5, 9)], Detect 2000 10] sent_default = ([q], [p], s) \<and>
     mset [p, q] = mset (sp_packets s) + {#q#} + {#p#}"
proof -
  let ?p = "\<lambda>n. \<lparr>sp_ack_largest = None, sp_number = n, sp_time_sent = 0, sp_size = 1200, sp_ack_eliciting = True, sp_frames = []\<rparr>"
  obtain s where run: "sent_run [Push (?p 1), Push (?p 5), Acked [(5, 9)], Detect 2000 10] sent_default = ([?p 5], [?p 1], s)"
    by (simp add: sent_push_def sent_default_def drain_acked_def detect_lost_def REORDER_THRESHOLD_def)
  show ?thesis using sent_one_fate [OF run] run by (intro exI [of _ "?p 1"] exI [of _ "?p 5"] exI [of _ s]) simp
qed



section \<open>Round-trip estimation\<close>

definition rtt_ok :: "nat set \<Rightarrow> rtt \<Rightarrow> bool" where
  "rtt_ok samples r \<longleftrightarrow>
     (\<exists>s. rtt_min r = Some (Min samples) \<and> rtt_smoothed r = Some s \<and> Min samples \<le> s \<and> s \<le> Max samples
        \<and> rtt_var r \<le> Max samples \<and> rtt_latest r \<in> samples)"

lemma rtt_update_ok:
  assumes ok: "rtt_ok samples r" and fin: "finite samples" "samples \<noteq> {}"
  shows "rtt_ok (insert x samples) (rtt_update x d md r)"
proof -
  obtain s where r: "rtt_min r = Some (Min samples)" "rtt_smoothed r = Some s" "Min samples \<le> s" "s \<le> Max samples"
    "rtt_var r \<le> Max samples"
    using ok by (auto simp: rtt_ok_def)
  define m where "m = min (Min samples) x"
  define M where "M = max (Max samples) x"
  have mM: "Min (insert x samples) = m" "Max (insert x samples) = M"
    using fin by (simp_all add: m_def M_def Min_insert Max_insert min.commute max.commute)
  define a where "a = max (if x > m then x - min d md else x) m"
  define v where "v = (if s \<ge> a then s - a else a - s)"
  have a: "m \<le> a" "a \<le> M" by (auto simp: a_def M_def m_def)
  have s: "m \<le> s" "s \<le> M" "rtt_var r \<le> M" using r by (auto simp: m_def M_def)
  have "v \<le> M" using a s by (auto simp: v_def)
  then have "(rtt_var r * 3 + v) div 4 \<le> M" using s by linarith
  moreover have "m \<le> (s * 7 + a) div 8" "(s * 7 + a) div 8 \<le> M" using a s by linarith+
  moreover have "rtt_update x d md r = r\<lparr>rtt_latest := x, rtt_min := Some m, rtt_var := (rtt_var r * 3 + v) div 4,
      rtt_smoothed := Some ((s * 7 + a) div 8)\<rparr>"
  proof -
    have sel: "(case rtt_min (r\<lparr>rtt_latest := x\<rparr>) of None \<Rightarrow> x | Some m \<Rightarrow> min m x) = m"
      "rtt_smoothed (r\<lparr>rtt_latest := x, rtt_min := Some m\<rparr>) = Some s"
      "rtt_var (r\<lparr>rtt_latest := x, rtt_min := Some m\<rparr>) = rtt_var r"
      by (simp_all add: r m_def)
    show ?thesis
      unfolding rtt_update_def Let_def sel option.case a_def [symmetric] v_def [symmetric] ..
  qed
  ultimately show ?thesis by (simp add: rtt_ok_def mM)
qed

lemma rtt_first_ok: "rtt_ok {x} (rtt_update x d md rtt_default)"
  by (simp add: rtt_ok_def rtt_update_def rtt_default_def)

definition rtt_samples :: "(nat \<times> nat) list \<Rightarrow> nat \<Rightarrow> rtt" where
  "rtt_samples xs max_ack_delay = fold (\<lambda>(x, d). rtt_update x d max_ack_delay) xs rtt_default"

lemma rtt_fold_ok:
  assumes "rtt_ok samples r" "finite samples" "samples \<noteq> {}"
  shows "rtt_ok (samples \<union> fst ` set xs) (fold (\<lambda>(x, d). rtt_update x d md) xs r)"
  using assms
proof (induction xs arbitrary: samples r)
  case (Cons p xs)
  obtain x d where p: "p = (x, d)" by force
  show ?case using Cons.IH [OF rtt_update_ok [OF Cons.prems, of x d md]] Cons.prems by (simp add: p)
qed simp

text \<open>
  The round-trip estimate stays between the smallest and the largest sample, and the minimum is the
  smallest sample: whatever acknowledgement delays a peer reports, it cannot push the smoothed estimate
  below a round trip that was really observed, nor the probe timeout below that plus the granularity.
\<close>

theorem rtt_between_samples:
  assumes "xs \<noteq> []"
  shows "\<exists>s. rtt_smoothed (rtt_samples xs md) = Some s
     \<and> rtt_min (rtt_samples xs md) = Some (Min (fst ` set xs))
     \<and> Min (fst ` set xs) \<le> s \<and> s \<le> Max (fst ` set xs)
     \<and> Min (fst ` set xs) + 1000000 \<le> rtt_pto 0 (rtt_samples xs md)"
proof -
  obtain x d ys where xs: "xs = (x, d) # ys" using assms by (metis list.exhaust surj_pair)
  have "rtt_ok (fst ` set xs) (rtt_samples xs md)"
    using rtt_fold_ok [OF rtt_first_ok [of x d md], of ys] by (simp add: xs rtt_samples_def)
  then show ?thesis by (auto simp: rtt_ok_def rtt_pto_def smoothed_or_initial_def TIMER_GRANULARITY_def)
qed

theorem rtt_between_samples_witness:
  "\<exists>s. rtt_smoothed (rtt_samples [(8000, 0), (16000, 99999)] 25000000) = Some s \<and> 8000 \<le> s \<and> s \<le> 16000"
  using rtt_between_samples [of "[(8000, 0), (16000, 99999)]" 25000000] by auto

section \<open>Congestion window\<close>

datatype congestion_op = OnAck nat nat | OnLoss nat nat | OnPersistent

fun congestion_step :: "congestion_op \<Rightarrow> congestion \<Rightarrow> congestion" where
  "congestion_step (OnAck bs sent) c = congestion_on_ack bs sent c"
| "congestion_step (OnLoss sent now) c = congestion_on_loss sent now c"
| "congestion_step OnPersistent c = congestion_on_persistent c"

lemma congestion_step_floor: "MIN_WINDOW \<le> cg_window c \<Longrightarrow> MIN_WINDOW \<le> cg_window (congestion_step op c)"
  by (cases op) (auto simp: congestion_on_ack_def congestion_on_loss_def congestion_on_persistent_def Let_def)

text \<open>
  Whatever is acknowledged and lost, in whatever order, the window never falls below two packets of
  1200 bytes, so an idle connection can always send.
\<close>

theorem congestion_never_stuck:
  "2400 \<le> cg_window (fold congestion_step ops congestion_default) \<and> can_send 0 (fold congestion_step ops congestion_default)"
proof -
  have "MIN_WINDOW \<le> cg_window c \<Longrightarrow> MIN_WINDOW \<le> cg_window (fold congestion_step ops c)" for c
    by (induction ops arbitrary: c) (simp_all add: congestion_step_floor)
  from this [of congestion_default] show ?thesis
    by (simp add: can_send_def MIN_WINDOW_def congestion_default_def INITIAL_WINDOW_def)
qed

fun op_sent :: "congestion_op \<Rightarrow> nat option" where
  "op_sent (OnAck _ sent) = Some sent"
| "op_sent (OnLoss sent _) = Some sent"
| "op_sent OnPersistent = None"

text \<open>
  One halving per round trip: once a loss has started a recovery period at \<open>now\<close>, no
  acknowledgement and no further loss of a packet sent up to \<open>now\<close> changes the controller at all.
\<close>

theorem one_halving_per_round_trip:
  assumes "\<not> in_recovery sent c" "\<forall>op \<in> set ops. \<exists>t \<le> now. op_sent op = Some t"
  shows "fold congestion_step ops (congestion_on_loss sent now c) = congestion_on_loss sent now c
     \<and> cg_window (congestion_on_loss sent now c) = max (cg_window c div 2) 2400"
proof -
  define c' where "c' = congestion_on_loss sent now c"
  have start: "cg_recovery_start c' = Some now" using assms(1) by (simp add: c'_def congestion_on_loss_def Let_def)
  have keep: "congestion_step op c' = c'" if "\<exists>t \<le> now. op_sent op = Some t" for op
    using that start by (cases op) (auto simp: congestion_on_ack_def congestion_on_loss_def in_recovery_def)
  have "fold congestion_step ops c' = c'" using assms(2) by (induction ops) (simp_all add: keep)
  moreover have "cg_window c' = max (cg_window c div 2) 2400"
    using assms(1) by (simp add: c'_def congestion_on_loss_def Let_def MIN_WINDOW_def)
  ultimately show ?thesis by (simp add: c'_def)
qed

theorem one_halving_per_round_trip_witness:
  "fold congestion_step [OnLoss 3 12, OnAck 1200 9] (congestion_on_loss 5 10 congestion_default)
     = congestion_on_loss 5 10 congestion_default
   \<and> cg_window (congestion_on_loss 5 10 congestion_default) = 2 * 1024 * 1024"
  using one_halving_per_round_trip [of 5 congestion_default "[OnLoss 3 12, OnAck 1200 9]" 10]
  by (simp add: in_recovery_def congestion_default_def INITIAL_WINDOW_def)

section \<open>The probe timer\<close>

lemma pto_step_None:
  "pto_step spaces r md n sp best = None \<longleftrightarrow> best = None \<and> pto_candidate spaces r md n sp = None"
  by (auto simp: pto_step_def split: option.splits)

text \<open>The fold keeps the earliest candidate of the spaces seen so far, the first of them on a tie.\<close>

definition best_of :: "(space \<Rightarrow> nat option) \<Rightarrow> space set \<Rightarrow> (space \<times> nat) option \<Rightarrow> bool" where
  "best_of cand seen best \<longleftrightarrow>
     (case best of None \<Rightarrow> (\<forall>sp \<in> seen. cand sp = None)
      | Some (sp, at) \<Rightarrow> sp \<in> seen \<and> cand sp = Some at \<and> (\<forall>sp' \<in> seen. \<forall>at'. cand sp' = Some at' \<longrightarrow> at \<le> at'))"

lemma best_of_step:
  "best_of (pto_candidate spaces r md n) seen best \<Longrightarrow>
     best_of (pto_candidate spaces r md n) (insert sp seen) (pto_step spaces r md n sp best)"
  by (cases best) (fastforce simp: best_of_def pto_step_def split: option.splits prod.splits if_splits)+

lemma best_of_fold:
  "best_of (pto_candidate spaces r md n) seen best \<Longrightarrow>
     best_of (pto_candidate spaces r md n) (seen \<union> set sps) (fold (pto_step spaces r md n) sps best)"
proof (induction sps arbitrary: seen best)
  case (Cons sp sps)
  show ?case using Cons.IH [OF best_of_step [OF Cons.prems, of sp]] by simp
qed simp

lemma set_space_ALL: "set space_ALL = UNIV"
  using space_ALL_complete by blast

text \<open>
  The probe timer is armed whenever it has to be, and for the right space. With ack-eliciting
  packets in flight in some space it is the earliest of their deadlines; with none in flight, but a
  handshake the peer has not acknowledged and anything ack-eliciting ever sent, it is still armed, so a
  server held back by the amplification limit cannot deadlock the handshake.
\<close>

theorem pto_deadline_correct:
  assumes "pto_deadline spaces r md n unacked = res"
  shows "(\<forall>sp at. pto_candidate spaces r md n sp = Some at \<longrightarrow>
            (\<exists>sp' at'. res = Some (sp', at') \<and> pto_candidate spaces r md n sp' = Some at' \<and> at' \<le> at))
       \<and> ((\<forall>sp. pto_candidate spaces r md n sp = None) \<longrightarrow>
            (res \<noteq> None \<longleftrightarrow> unacked \<noteq> None \<and> (\<exists>sp. sp_last_ack_eliciting (spaces sp) \<noteq> None)))"
proof -
  define best where "best = fold (pto_step spaces r md n) space_ALL None"
  have b: "best_of (pto_candidate spaces r md n) UNIV best"
    using best_of_fold [of spaces r md n "{}" None space_ALL] by (simp add: best_of_def best_def set_space_ALL)
  have latest: "latest_of (map (\<lambda>sp. sp_last_ack_eliciting (spaces sp)) space_ALL) = None
      \<longleftrightarrow> (\<forall>sp. sp_last_ack_eliciting (spaces sp) = None)"
    using set_space_ALL by (auto simp: latest_of_def space_ALL_def List.map_filter_def split: list.splits) (metis space.exhaust)+
  show ?thesis
  proof (cases best)
    case None
    then show ?thesis using b latest assms unfolding pto_deadline_def best_def [symmetric] Let_def
      by (auto simp: best_of_def split: option.splits)
  next
    case (Some p)
    then have "res = best" using assms by (simp add: pto_deadline_def best_def [symmetric] Let_def)
    then show ?thesis using b Some by (fastforce simp: best_of_def split: prod.splits)
  qed
qed

theorem pto_deadline_correct_witness:
  "\<exists>spaces. (\<forall>sp. pto_candidate spaces rtt_default 0 0 sp = None) \<and> pto_deadline spaces rtt_default 0 0 (Some Initial) \<noteq> None"
proof -
  let ?spaces = "\<lambda>sp. sent_default\<lparr>sp_last_ack_eliciting := Some 7\<rparr>"
  have none: "\<forall>sp. pto_candidate ?spaces rtt_default 0 0 sp = None"
    by (simp add: pto_candidate_def any_ack_eliciting_def sent_default_def)
  then show ?thesis using pto_deadline_correct [of ?spaces rtt_default 0 0 "Some Initial", OF refl] by auto
qed

end
