(* ===== verification/Inflight.thy ===== *)
theory Inflight
  imports Prelude
begin

text \<open>
  Requests in flight by stream number (\<open>src/inflight.rs\<close>): a vector with a moving front, indexed by the
  stream id. The two const parameters of \<open>Ring\<close> are arguments here: \<open>sh\<close> is the gap between ids as a
  power of two and \<open>off\<close> what the ids leave below it. HTTP/2 uses 1 and 1, HTTP/3 uses 2 and 0.
\<close>

section \<open>State and operations\<close>

record 'a ring =
  rg_slots :: "'a option list"
  rg_head :: nat
  rg_base :: nat
  rg_open :: nat
  rg_compact_at :: nat

definition COMPACT_FLOOR :: nat where "COMPACT_FLOOR = 64"

definition ring_new :: "'a ring" where
  "ring_new = \<lparr>rg_slots = [], rg_head = 0, rg_base = 0, rg_open = 0, rg_compact_at = COMPACT_FLOOR\<rparr>"

definition ring_len :: "'a ring \<Rightarrow> nat" where
  "ring_len r = rg_open r"

definition ring_clear :: "'a ring \<Rightarrow> 'a ring" where
  "ring_clear r = r\<lparr>rg_slots := [], rg_head := 0, rg_base := 0, rg_open := 0, rg_compact_at := COMPACT_FLOOR\<rparr>"

definition ring_live :: "'a ring \<Rightarrow> nat" where
  "ring_live r = length (rg_slots r) - rg_head r"

definition ring_push :: "nat \<Rightarrow> nat \<Rightarrow> 'a \<Rightarrow> 'a ring \<Rightarrow> 'a ring" where
  "ring_push sh sid item r =
     (let n = drop_bit sh sid;
          r = (if rg_slots r = [] then r\<lparr>rg_base := n\<rparr> else r) in
      r\<lparr>rg_slots := rg_slots r @ [Some item], rg_open := rg_open r + 1\<rparr>)"

definition ring_index :: "nat \<Rightarrow> nat \<Rightarrow> nat \<Rightarrow> 'a ring \<Rightarrow> nat option" where
  "ring_index sh off sid r =
     (if sid AND (push_bit sh 1 - 1) \<noteq> off then None
      else case checked_sub (drop_bit sh sid) (rg_base r) of
        None \<Rightarrow> None
      | Some i \<Rightarrow> if i < ring_live r then Some (rg_head r + i) else None)"

text \<open>\<open>get_mut\<close> hands out a reference; here the item it refers to.\<close>

definition ring_get :: "nat \<Rightarrow> nat \<Rightarrow> nat \<Rightarrow> 'a ring \<Rightarrow> 'a option" where
  "ring_get sh off sid r = (case ring_index sh off sid r of None \<Rightarrow> None | Some i \<Rightarrow> rg_slots r ! i)"

definition ring_compact :: "'a ring \<Rightarrow> 'a ring" where
  "ring_compact r =
     (let slots = drop (rg_head r) (rg_slots r) in
      r\<lparr>rg_slots := slots, rg_head := 0, rg_compact_at := max (length slots) COMPACT_FLOOR\<rparr>)"

text \<open>The loop of \<open>settle\<close> counts the holes from the front on.\<close>

definition holes :: "'a option list \<Rightarrow> nat" where
  "holes slots = length (takeWhile (\<lambda>x. x = None) slots)"

definition ring_settle :: "'a ring \<Rightarrow> 'a ring" where
  "ring_settle r =
     (let k = holes (drop (rg_head r) (rg_slots r));
          r = r\<lparr>rg_head := rg_head r + k, rg_base := rg_base r + k\<rparr> in
      if rg_head r = length (rg_slots r) then r\<lparr>rg_slots := [], rg_head := 0, rg_compact_at := COMPACT_FLOOR\<rparr>
      else if rg_head r \<ge> rg_compact_at r then ring_compact r
      else r)"

definition ring_take :: "nat \<Rightarrow> nat \<Rightarrow> nat \<Rightarrow> 'a ring \<Rightarrow> ('a \<times> 'a ring) option" where
  "ring_take sh off sid r =
     (case ring_index sh off sid r of
        None \<Rightarrow> None
      | Some i \<Rightarrow>
          (case rg_slots r ! i of
             None \<Rightarrow> None
           | Some taken \<Rightarrow>
               let at_front = (i = rg_head r);
                   r = r\<lparr>rg_slots := (rg_slots r)[i := None], rg_open := rg_open r - 1\<rparr> in
               Some (taken,
                 if at_front then
                   let r = r\<lparr>rg_head := rg_head r + 1, rg_base := rg_base r + 1\<rparr> in
                   if rg_head r \<ge> length (rg_slots r) \<or> rg_slots r ! rg_head r = None then ring_settle r
                   else if rg_head r \<ge> rg_compact_at r then ring_compact r
                   else r
                 else r)))"

text \<open>\<open>retire_after\<close>, which only the HTTP/2 ring has: the items handed to the callback, in order, and the ring.\<close>

definition retire_after :: "nat \<Rightarrow> 'a ring \<Rightarrow> 'a list \<times> 'a ring" where
  "retire_after last_id r =
     (let first = (last_id + 1) div 2;
          offset = min (first - rg_base r) (ring_live r) in
      if offset = 0 then
        (List.map_filter (\<lambda>x. x) (drop (rg_head r) (rg_slots r)),
         r\<lparr>rg_base := rg_base r + ring_live r, rg_head := 0, rg_open := 0, rg_compact_at := COMPACT_FLOOR,
           rg_slots := []\<rparr>)
      else
        let at = rg_head r + offset;
            retired = List.map_filter (\<lambda>x. x) (drop at (rg_slots r)) in
        (retired,
         r\<lparr>rg_slots := take at (rg_slots r) @ map (\<lambda>_. None) (drop at (rg_slots r)),
           rg_open := rg_open r - length retired\<rparr>))"

definition ring_items :: "'a ring \<Rightarrow> 'a list" where
  "ring_items r = List.map_filter (\<lambda>x. x) (drop (rg_head r) (rg_slots r))"

definition ring_slot :: "nat \<Rightarrow> 'a ring \<Rightarrow> 'a option" where
  "ring_slot i r = (if rg_head r + i < length (rg_slots r) then rg_slots r ! (rg_head r + i) else None)"

text \<open>What callers do through \<open>get_mut\<close>, \<open>slot_mut\<close> and \<open>iter_mut\<close>: change an item in place.\<close>

definition ring_update :: "nat \<Rightarrow> nat \<Rightarrow> nat \<Rightarrow> ('a \<Rightarrow> 'a) \<Rightarrow> 'a ring \<Rightarrow> 'a ring" where
  "ring_update sh off sid f r =
     (case ring_index sh off sid r of
        None \<Rightarrow> r
      | Some i \<Rightarrow> r\<lparr>rg_slots := (rg_slots r)[i := map_option f (rg_slots r ! i)]\<rparr>)"

definition ring_slot_mut :: "nat \<Rightarrow> ('a \<Rightarrow> 'a) \<Rightarrow> 'a ring \<Rightarrow> 'a ring" where
  "ring_slot_mut i f r =
     (if rg_head r + i < length (rg_slots r)
      then r\<lparr>rg_slots := (rg_slots r)[rg_head r + i := map_option f (rg_slots r ! (rg_head r + i))]\<rparr>
      else r)"

definition ring_iter_mut :: "('a \<Rightarrow> 'a) \<Rightarrow> 'a ring \<Rightarrow> 'a ring" where
  "ring_iter_mut f r =
     r\<lparr>rg_slots := take (rg_head r) (rg_slots r) @ map (map_option f) (drop (rg_head r) (rg_slots r))\<rparr>"

section \<open>Abstraction to a map\<close>

text \<open>The item of stream number \<open>n\<close>, and the invariant: the front is never a hole and \<open>open\<close> counts the items.\<close>

definition ring_map :: "'a ring \<Rightarrow> nat \<Rightarrow> 'a option" where
  "ring_map r n = (if rg_base r \<le> n then ring_slot (n - rg_base r) r else None)"

definition live_slots :: "'a ring \<Rightarrow> 'a option list" where
  "live_slots r = drop (rg_head r) (rg_slots r)"

definition ring_ok :: "'a ring \<Rightarrow> bool" where
  "ring_ok r \<longleftrightarrow>
     (rg_slots r \<noteq> [] \<longrightarrow> rg_head r < length (rg_slots r)) \<and> (rg_slots r = [] \<longrightarrow> rg_head r = 0)
     \<and> (live_slots r \<noteq> [] \<longrightarrow> hd (live_slots r) \<noteq> None)
     \<and> rg_open r = length (List.map_filter (\<lambda>x. x) (live_slots r))
     \<and> rg_head r < rg_compact_at r \<and> COMPACT_FLOOR \<le> rg_compact_at r"

lemma ring_slot_live: "ring_slot i r = (if i < length (live_slots r) then live_slots r ! i else None)"
  by (auto simp: ring_slot_def live_slots_def)

lemma length_live [simp]: "length (live_slots r) = ring_live r"
  by (simp add: live_slots_def ring_live_def)

lemma ring_map_live:
  "ring_map r n = (if rg_base r \<le> n \<and> n < rg_base r + ring_live r then live_slots r ! (n - rg_base r) else None)"
  by (auto simp: ring_map_def ring_slot_live)

text \<open>A stream id of the ring's kind is its number shifted, with the offset below.\<close>

lemma stream_number:
  assumes "off < 2 ^ sh"
  shows "sid AND (push_bit sh 1 - 1) = off \<longleftrightarrow> (sid :: nat) = drop_bit sh sid * 2 ^ sh + off"
proof -
  have "sid AND (push_bit sh 1 - 1) = sid mod 2 ^ sh" by (simp add: push_bit_eq_mult take_bit_eq_mod [symmetric] take_bit_eq_mask mask_eq_exp_minus_1)
  moreover have "sid = sid div 2 ^ sh * 2 ^ sh + sid mod 2 ^ sh" by (rule div_mult_mod_eq [symmetric])
  ultimately show ?thesis
    using assms by (metis add_left_cancel drop_bit_eq_div)
qed

lemma ring_get_map:
  assumes "off < 2 ^ sh"
  shows "ring_get sh off sid r = (if sid = drop_bit sh sid * 2 ^ sh + off then ring_map r (drop_bit sh sid) else None)"
  using stream_number [OF assms, of sid]
  by (auto simp: ring_get_def ring_index_def ring_map_def ring_slot_def ring_live_def checked_sub_def)


section \<open>Refinement of the operations\<close>

lemma ring_okD:
  assumes "ring_ok r"
  shows "rg_slots r \<noteq> [] \<Longrightarrow> rg_head r < length (rg_slots r)" "rg_slots r = [] \<Longrightarrow> rg_head r = 0"
    "live_slots r \<noteq> [] \<Longrightarrow> hd (live_slots r) \<noteq> None"
    "rg_open r = length (List.map_filter (\<lambda>x. x) (live_slots r))"
    "rg_head r < rg_compact_at r" "COMPACT_FLOOR \<le> rg_compact_at r"
  using assms by (auto simp: ring_ok_def)

lemma ring_okI:
  assumes "rg_slots r \<noteq> [] \<Longrightarrow> rg_head r < length (rg_slots r)" "rg_slots r = [] \<Longrightarrow> rg_head r = 0"
    "live_slots r \<noteq> [] \<Longrightarrow> hd (live_slots r) \<noteq> None"
    "rg_open r = length (List.map_filter (\<lambda>x. x) (live_slots r))"
    "rg_head r < rg_compact_at r" "COMPACT_FLOOR \<le> rg_compact_at r"
  shows "ring_ok r"
  using assms by (auto simp: ring_ok_def)

lemma live_empty_iff: "ring_ok r \<Longrightarrow> live_slots r = [] \<longleftrightarrow> rg_slots r = []"
  by (auto simp: ring_ok_def live_slots_def)

lemma filter_some_simps [simp]:
  "List.map_filter (\<lambda>x. x) [] = []"
  "List.map_filter (\<lambda>x. x) (None # xs) = List.map_filter (\<lambda>x. x) xs"
  "List.map_filter (\<lambda>x. x) (Some y # xs) = y # List.map_filter (\<lambda>x. x) xs"
  by (simp_all add: List.map_filter_def)

lemma filter_some_append [simp]:
  "List.map_filter (\<lambda>x. x) (xs @ ys) = List.map_filter (\<lambda>x. x) xs @ List.map_filter (\<lambda>x. x) ys"
  by (simp add: List.map_filter_def)

lemma filter_some_none [simp]: "List.map_filter (\<lambda>x. x) (map (\<lambda>_. None) xs) = []"
  by (induction xs) simp_all

lemma filter_some_update:
  "i < length xs \<Longrightarrow> xs ! i = Some y
   \<Longrightarrow> length (List.map_filter (\<lambda>x. x) (xs[i := None])) = length (List.map_filter (\<lambda>x. x) xs) - 1"
proof (induction xs arbitrary: i)
  case (Cons x xs)
  show ?case
  proof (cases i)
    case (Suc j)
    with Cons have "length (List.map_filter (\<lambda>x. x) (xs[j := None])) = length (List.map_filter (\<lambda>x. x) xs) - 1"
      by simp
    moreover have "List.map_filter (\<lambda>x. x) xs \<noteq> []"
      using Cons.prems Suc nth_mem [of j xs] by (fastforce simp: List.map_filter_def filter_empty_conv)
    ultimately show ?thesis using Suc by (cases x) (auto simp: Suc_pred)
  qed (use Cons in simp)
qed simp

text \<open>What two rings with the same live part share.\<close>

lemma ring_map_cong:
  "live_slots r = live_slots s \<Longrightarrow> rg_base r = rg_base s \<Longrightarrow> ring_map r = ring_map s"
  by (rule ext) (simp add: ring_map_def ring_slot_live flip: length_live)

lemma compact_live [simp]:
  "live_slots (ring_compact r) = live_slots r" "rg_base (ring_compact r) = rg_base r"
  "rg_open (ring_compact r) = rg_open r"
  by (simp_all add: ring_compact_def live_slots_def Let_def)

lemma compact_ok:
  assumes "live_slots r \<noteq> []" "hd (live_slots r) \<noteq> None" "rg_open r = length (List.map_filter (\<lambda>x. x) (live_slots r))"
  shows "ring_ok (ring_compact r)"
  by (rule ring_okI; use assms in \<open>simp add: ring_compact_def live_slots_def Let_def COMPACT_FLOOR_def less_max_iff_disj\<close>)

lemma ring_new_ok: "ring_ok ring_new"
  by (simp add: ring_ok_def ring_new_def live_slots_def COMPACT_FLOOR_def)

lemma ring_new_map: "ring_map ring_new n = None"
  by (simp add: ring_map_def ring_slot_def ring_new_def)

lemma ring_clear_eq: "ring_clear r = (ring_new :: 'a ring)"
  by (simp add: ring_clear_def ring_new_def)

text \<open>The id \<open>push\<close> expects: the ring has no gaps, so it is the number one past the newest.\<close>

definition ring_fits :: "nat \<Rightarrow> nat \<Rightarrow> nat \<Rightarrow> 'a ring \<Rightarrow> bool" where
  "ring_fits sh off sid r \<longleftrightarrow>
     sid = drop_bit sh sid * 2 ^ sh + off \<and> (rg_slots r \<noteq> [] \<longrightarrow> drop_bit sh sid = rg_base r + ring_live r)"

lemma ring_push_live:
  assumes "ring_ok r"
  shows "live_slots (ring_push sh sid x r) = live_slots r @ [Some x]"
  using ring_okD(1,2) [OF assms] by (auto simp: ring_push_def live_slots_def Let_def)

lemma ring_push_ok:
  assumes "ring_ok r"
  shows "ring_ok (ring_push sh sid x r)"
proof (rule ring_okI)
  note I = ring_okD [OF assms]
  show "rg_head (ring_push sh sid x r) < length (rg_slots (ring_push sh sid x r))"
    using I(1,2) by (cases "rg_slots r = []") (auto simp: ring_push_def Let_def)
  show "hd (live_slots (ring_push sh sid x r)) \<noteq> None"
    using I(3) by (auto simp: ring_push_live [OF assms] hd_append)
  show "rg_open (ring_push sh sid x r) = length (List.map_filter (\<lambda>x. x) (live_slots (ring_push sh sid x r)))"
    unfolding ring_push_live [OF assms] using I(4) by (simp add: ring_push_def Let_def)
  show "rg_head (ring_push sh sid x r) < rg_compact_at (ring_push sh sid x r)"
    "COMPACT_FLOOR \<le> rg_compact_at (ring_push sh sid x r)"
    using I(5,6) by (simp_all add: ring_push_def Let_def)
  show "rg_slots (ring_push sh sid x r) = [] \<Longrightarrow> rg_head (ring_push sh sid x r) = 0"
    by (simp add: ring_push_def Let_def)
qed

lemma ring_push_map:
  assumes "ring_ok r" "ring_fits sh off sid r"
  shows "ring_map (ring_push sh sid x r) = (ring_map r)(drop_bit sh sid \<mapsto> x)"
proof
  fix n
  have live: "ring_live (ring_push sh sid x r) = ring_live r + 1"
    using arg_cong [OF ring_push_live [OF assms(1), of sh sid x], of length] by simp
  show "ring_map (ring_push sh sid x r) n = ((ring_map r)(drop_bit sh sid \<mapsto> x)) n"
  proof (cases "rg_slots r = []")
    case True
    then show ?thesis using live ring_okD(2) [OF assms(1)]
      by (auto simp: ring_map_live ring_push_live [OF assms(1)] live_slots_def ring_live_def)
        (auto simp: ring_push_def Let_def)
  next
    case False
    then have b: "rg_base (ring_push sh sid x r) = rg_base r" "drop_bit sh sid = rg_base r + ring_live r"
      using assms(2) by (auto simp: ring_push_def ring_fits_def Let_def)
    show ?thesis unfolding ring_map_live live b(1) ring_push_live [OF assms(1)]
      using b(2) by (auto simp: nth_append)
  qed
qed


text \<open>\<open>settle\<close> drops the holes at the front and changes the map nowhere.\<close>

lemma holes_drop: "drop (holes xs) xs = dropWhile (\<lambda>x. x = None) xs"
  by (simp add: holes_def dropWhile_eq_drop)

lemma holes_le: "holes xs \<le> length xs"
  by (simp add: holes_def length_takeWhile_le)

lemma holes_nth: "i < holes xs \<Longrightarrow> xs ! i = None"
  unfolding holes_def by (metis (mono_tags, lifting) nth_mem set_takeWhileD takeWhile_nth)

lemma filter_some_dropWhile [simp]:
  "List.map_filter (\<lambda>x. x) (dropWhile (\<lambda>x. x = None) xs) = List.map_filter (\<lambda>x. x) xs"
  by (induction xs) (auto simp: List.map_filter_def)

lemma settle_live:
  "live_slots (ring_settle r) = dropWhile (\<lambda>x. x = None) (live_slots r)"
  "rg_base (ring_settle r) = rg_base r + holes (live_slots r)"
  "rg_open (ring_settle r) = rg_open r"
  using arg_cong [OF holes_drop [of "live_slots r"], of length]
  by (auto simp: ring_settle_def Let_def live_slots_def ring_compact_def add.commute simp flip: holes_drop)

lemma settle_map: "ring_map (ring_settle r) n = ring_map r n"
proof -
  let ?k = "holes (live_slots r)"
  have len: "ring_live (ring_settle r) = ring_live r - ?k"
    using arg_cong [OF settle_live(1) [of r], of length] by (simp flip: holes_drop)
  have k: "?k \<le> ring_live r" using holes_le [of "live_slots r"] by simp
  show ?thesis
  proof (cases "rg_base r + ?k \<le> n")
    case True
    then show ?thesis unfolding ring_map_live len settle_live
      using k by (auto simp flip: holes_drop)
  next
    case False
    then have "ring_map r n = None" using holes_nth [of "n - rg_base r" "live_slots r"] by (auto simp: ring_map_live)
    then show ?thesis using False by (simp add: ring_map_live settle_live)
  qed
qed

lemma settle_ok:
  assumes "rg_open r = length (List.map_filter (\<lambda>x. x) (live_slots r))" "rg_head r \<le> length (rg_slots r)"
    "COMPACT_FLOOR \<le> rg_compact_at r"
  shows "ring_ok (ring_settle r)"
proof -
  let ?k = "holes (live_slots r)"
  let ?s = "r\<lparr>rg_head := rg_head r + ?k, rg_base := rg_base r + ?k\<rparr>"
  have k: "rg_head r + ?k \<le> length (rg_slots r)" using holes_le [of "live_slots r"] assms(2) by (simp add: ring_live_def)
  have s: "live_slots ?s = dropWhile (\<lambda>x. x = None) (live_slots r)"
    by (simp add: live_slots_def add.commute flip: holes_drop)
  have front: "live_slots ?s \<noteq> [] \<Longrightarrow> hd (live_slots ?s) \<noteq> None"
    unfolding s by (rule hd_dropWhile)
  have count: "rg_open ?s = length (List.map_filter (\<lambda>x. x) (live_slots ?s))" using assms(1) by (simp add: s)
  consider "rg_head ?s = length (rg_slots r)" | "rg_head ?s < length (rg_slots r)" "rg_head ?s \<ge> rg_compact_at r"
    | "rg_head ?s < length (rg_slots r)" "rg_head ?s < rg_compact_at r" using k by force
  then show ?thesis
  proof cases
    case 1
    then have "rg_open r = 0" using count by (simp add: live_slots_def)
    with 1 show ?thesis
      by (simp add: ring_settle_def Let_def live_slots_def [symmetric])
        (simp add: ring_ok_def live_slots_def COMPACT_FLOOR_def)
  next
    case 2
    then have "ring_settle r = ring_compact ?s" by (simp add: ring_settle_def Let_def live_slots_def [symmetric])
    moreover have "live_slots ?s \<noteq> []" using 2 by (simp add: live_slots_def)
    ultimately show ?thesis using front count compact_ok [of ?s] by simp
  next
    case 3
    then have eq: "ring_settle r = ?s" by (simp add: ring_settle_def Let_def live_slots_def [symmetric])
    show ?thesis unfolding eq by (rule ring_okI) (use 3 front count assms(3) in auto)
  qed
qed


text \<open>What \<open>take\<close> does to the live part: the item's slot becomes a hole, and the front moves past the holes.\<close>

lemma ring_index_Some:
  assumes "ring_index sh off sid r = Some i"
  shows "rg_head r \<le> i" "i < length (rg_slots r)" "rg_base r \<le> drop_bit sh sid"
    "i = rg_head r + (drop_bit sh sid - rg_base r)" "live_slots r ! (drop_bit sh sid - rg_base r) = rg_slots r ! i"
  using assms by (auto simp: ring_index_def checked_sub_def ring_live_def live_slots_def split: if_splits)

lemma skip_front:
  assumes "rg_head r < length (rg_slots r)" "rg_slots r ! rg_head r = None"
  shows "ring_map (r\<lparr>rg_head := rg_head r + 1, rg_base := rg_base r + 1\<rparr>) = ring_map r"
proof
  fix n
  consider "n < rg_base r" | "n = rg_base r" | k where "n = Suc (rg_base r + k)"
    by (metis less_imp_Suc_add linorder_neqE_nat)
  then show "ring_map (r\<lparr>rg_head := rg_head r + 1, rg_base := rg_base r + 1\<rparr>) n = ring_map r n"
    by cases (use assms in \<open>simp_all add: ring_map_def ring_slot_def Suc_diff_le\<close>)
qed

lemma advance_ok:
  assumes "rg_open r = length (List.map_filter (\<lambda>x. x) (live_slots r))" "rg_head r \<le> length (rg_slots r)"
    "COMPACT_FLOOR \<le> rg_compact_at r"
  defines "s \<equiv> (if rg_head r \<ge> length (rg_slots r) \<or> rg_slots r ! rg_head r = None then ring_settle r
      else if rg_head r \<ge> rg_compact_at r then ring_compact r else r)"
  shows "ring_ok s \<and> ring_map s = ring_map r"
proof -
  consider "rg_head r \<ge> length (rg_slots r) \<or> rg_slots r ! rg_head r = None"
    | "rg_head r < length (rg_slots r)" "rg_slots r ! rg_head r \<noteq> None" by linarith
  then show ?thesis
  proof cases
    case 1
    then show ?thesis using settle_ok [OF assms(1-3)] settle_map by (auto simp: s_def)
  next
    case 2
    then have front: "live_slots r \<noteq> []" "hd (live_slots r) \<noteq> None" by (simp_all add: live_slots_def hd_drop_conv_nth)
    have "ring_map (ring_compact r) = ring_map r" by (rule ring_map_cong) simp_all
    moreover have "rg_head r < rg_compact_at r \<Longrightarrow> ring_ok r"
      by (rule ring_okI) (use 2 front assms(1,3) in auto)
    ultimately show ?thesis using 2 compact_ok [OF front assms(1)] by (auto simp: s_def)
  qed
qed

lemma take_hole:
  assumes "ring_index sh off sid r = Some i" "rg_slots r ! i = Some x" "ring_ok r"
  defines "s \<equiv> r\<lparr>rg_slots := (rg_slots r)[i := None], rg_open := rg_open r - 1\<rparr>"
  shows "ring_map s = (ring_map r)(drop_bit sh sid := None)"
    "rg_open s = length (List.map_filter (\<lambda>x. x) (live_slots s))"
proof -
  note i = ring_index_Some [OF assms(1)]
  have live: "live_slots s = (live_slots r)[drop_bit sh sid - rg_base r := None]"
    using i by (simp add: s_def live_slots_def drop_update_swap)
  have len: "ring_live s = ring_live r" by (simp add: s_def ring_live_def)
  show "ring_map s = (ring_map r)(drop_bit sh sid := None)"
  proof
    fix n
    have "rg_base s = rg_base r" by (simp add: s_def)
    then show "ring_map s n = ((ring_map r)(drop_bit sh sid := None)) n"
      using i(3) by (auto simp: ring_map_live live len nth_list_update)
  qed
  show "rg_open s = length (List.map_filter (\<lambda>x. x) (live_slots s))"
    unfolding live using i assms(2) ring_okD(4) [OF assms(3)]
    by (subst filter_some_update) (auto simp: s_def ring_live_def)
qed

lemma ring_take_map:
  assumes ok: "ring_ok r" and "off < 2 ^ sh"
  shows "case ring_get sh off sid r of
      None \<Rightarrow> ring_take sh off sid r = None
    | Some x \<Rightarrow> \<exists>s. ring_take sh off sid r = Some (x, s) \<and> ring_ok s \<and> ring_map s = (ring_map r)(drop_bit sh sid := None)"
proof (cases "ring_index sh off sid r")
  case None
  then show ?thesis by (simp add: ring_get_def ring_take_def)
next
  case (Some i)
  show ?thesis
  proof (cases "rg_slots r ! i")
    case None
    with Some show ?thesis by (simp add: ring_get_def ring_take_def)
  next
    case slot: (Some x)
    note idx = ring_index_Some [OF Some]
    note h = take_hole [OF Some slot ok]
    let ?s = "r\<lparr>rg_slots := (rg_slots r)[i := None], rg_open := rg_open r - 1\<rparr>"
    show ?thesis
    proof (cases "i = rg_head r")
      case False
      then have "ring_take sh off sid r = Some (x, ?s)" using Some slot by (simp add: ring_take_def)
      moreover have "ring_ok ?s" 
        by (rule ring_okI)
          (use False ring_okD [OF ok] idx h(2) in \<open>auto simp: hd_drop_conv_nth live_slots_def\<close>)
      ultimately show ?thesis using Some slot h(1) by (simp add: ring_get_def)
    next
      case True
      let ?t = "?s\<lparr>rg_head := rg_head ?s + 1, rg_base := rg_base ?s + 1\<rparr>"
      have m: "ring_map ?t = (ring_map r)(drop_bit sh sid := None)"
        using skip_front [of ?s] True idx(2) h(1) by simp
      have "live_slots ?s = None # live_slots ?t"
        using True idx(2) by (simp add: live_slots_def Cons_nth_drop_Suc [symmetric])
      then have count: "rg_open ?t = length (List.map_filter (\<lambda>x. x) (live_slots ?t))" using h(2) by simp
      have "rg_head ?t \<le> length (rg_slots ?t)" "COMPACT_FLOOR \<le> rg_compact_at ?t"
        using True idx(2) ring_okD(6) [OF ok] by simp_all
      note a = advance_ok [OF count this]
      have get: "ring_get sh off sid r = Some x" using Some slot by (simp add: ring_get_def)
      show ?thesis
        unfolding get option.case ring_take_def Some slot Let_def if_P [OF True]
        by (intro exI conjI) (rule refl, rule conjunct1 [OF a], rule trans [OF conjunct2 [OF a] m])
    qed
  qed
qed


text \<open>\<open>retire_after\<close>: exactly the streams past \<open>last_id\<close> leave, oldest first.\<close>

lemma map_filter_drop_take:
  "List.map_filter (\<lambda>x. x) xs = List.map_filter (\<lambda>x. x) (take k xs) @ List.map_filter (\<lambda>x. x) (drop k xs)"
  by (metis append_take_drop_id filter_some_append)

lemma retire_all:
  assumes "ring_ok r" "min ((last_id + 1) div 2 - rg_base r) (ring_live r) = 0"
  shows "ring_ok (snd (retire_after last_id r))" "ring_map (snd (retire_after last_id r)) n = None"
    "fst (retire_after last_id r) = ring_items r"
  using assms(2)
  by (simp_all add: retire_after_def Let_def ring_ok_def ring_map_def ring_slot_def live_slots_def ring_items_def COMPACT_FLOOR_def)

lemma retire_some:
  assumes "ring_ok r" "min ((last_id + 1) div 2 - rg_base r) (ring_live r) = k" "k \<noteq> 0"
  shows "live_slots (snd (retire_after last_id r)) = take k (live_slots r) @ map (\<lambda>_. None) (drop k (live_slots r))"
    "rg_base (snd (retire_after last_id r)) = rg_base r" "ring_ok (snd (retire_after last_id r))"
    "ring_items r = ring_items (snd (retire_after last_id r)) @ fst (retire_after last_id r)"
proof -
  let ?s = "snd (retire_after last_id r)"
  note I = ring_okD [OF assms(1)]
  have k: "k \<le> ring_live r" using assms(2) by simp
  have ret: "retire_after last_id r =
      (List.map_filter (\<lambda>x. x) (drop k (live_slots r)),
       r\<lparr>rg_slots := take (rg_head r + k) (rg_slots r) @ map (\<lambda>_. None) (drop (rg_head r + k) (rg_slots r)),
         rg_open := rg_open r - length (List.map_filter (\<lambda>x. x) (drop k (live_slots r)))\<rparr>)"
    using assms(2,3) by (simp add: retire_after_def Let_def live_slots_def add.commute)
  show live: "live_slots ?s = take k (live_slots r) @ map (\<lambda>_. None) (drop k (live_slots r))"
    using k assms(3) by (simp add: ret live_slots_def ring_live_def take_drop add.commute)
  show "rg_base ?s = rg_base r" by (simp add: ret)
  show "ring_items r = ring_items ?s @ fst (retire_after last_id r)"
    using map_filter_drop_take [of "live_slots r" k]
    by (simp add: ring_items_def live_slots_def [symmetric] live) (simp add: ret)
  have ne: "live_slots r \<noteq> []" using k assms(3) by (auto simp: live_slots_def ring_live_def)
  show "ring_ok ?s"
  proof (rule ring_okI)
    show "hd (live_slots ?s) \<noteq> None"
      using I(3) ne assms(3) by (simp add: live hd_append hd_take)
    show "rg_open ?s = length (List.map_filter (\<lambda>x. x) (live_slots ?s))"
      using map_filter_drop_take [of "live_slots r" k] I(4) by (simp add: live) (simp add: ret)
  qed (use I ne in \<open>auto simp: ret live_slots_def\<close>)
qed

lemma retire_after_map:
  assumes "ring_ok r"
  shows "ring_ok (snd (retire_after last_id r))"
    "ring_map (snd (retire_after last_id r)) n = (if 2 * n + 1 \<le> last_id then ring_map r n else None)"
    "ring_items r = ring_items (snd (retire_after last_id r)) @ fst (retire_after last_id r)"
proof -
  let ?k = "min ((last_id + 1) div 2 - rg_base r) (ring_live r)" and ?s = "snd (retire_after last_id r)"
  have below: "2 * n + 1 \<le> last_id \<longleftrightarrow> n < (last_id + 1) div 2" by linarith
  show "ring_ok ?s" using retire_all(1) retire_some(3) assms by metis
  show "ring_map ?s n = (if 2 * n + 1 \<le> last_id then ring_map r n else None)"
  proof (cases "?k = 0")
    case True
    then show ?thesis using retire_all(2) [OF assms True] below
      by (auto simp: ring_map_live min_def split: if_splits)
  next
    case False
    note s = retire_some(1,2) [OF assms refl False]
    have len: "ring_live ?s = ring_live r" using arg_cong [OF s(1), of length] by simp
    show ?thesis unfolding ring_map_live s(2) len below
      using False by (auto simp: s(1) nth_append)
  qed
  show "ring_items r = ring_items ?s @ fst (retire_after last_id r)"
  proof (cases "?k = 0")
    case True
    then show ?thesis using retire_all(3) [OF assms True]
      by (simp add: retire_after_def Let_def ring_items_def)
  next
    case False
    then show ?thesis using retire_some(4) [OF assms refl] by blast
  qed
qed

text \<open>\<open>len\<close> is the number of streams in the map.\<close>

lemma ring_len_card:
  assumes "ring_ok r"
  shows "ring_len r = card (dom (ring_map r))" "finite (dom (ring_map r))"
proof -
  have dom: "dom (ring_map r) = (\<lambda>i. rg_base r + i) ` {i. i < length (live_slots r) \<and> live_slots r ! i \<noteq> None}"
    by (auto simp: ring_map_live image_iff le_iff_add split: if_splits)
  then show "finite (dom (ring_map r))" by simp
  have "length (List.map_filter (\<lambda>x. x) (live_slots r)) = card {i. i < length (live_slots r) \<and> live_slots r ! i \<noteq> None}"
    by (simp add: List.map_filter_def length_filter_conv_card)
  then show "ring_len r = card (dom (ring_map r))"
    using ring_okD(4) [OF assms] by (simp add: dom ring_len_def card_image)
qed


text \<open>Changing items in place changes the map pointwise and keeps the invariant.\<close>

lemma filter_some_map_option: "length (List.map_filter (\<lambda>x. x) (xs[i := map_option f (xs ! i)])) = length (List.map_filter (\<lambda>x. x) xs)"
  if "i < length xs" for xs :: "'a option list"
  using that
proof (induction xs arbitrary: i)
  case (Cons x xs)
  then show ?case by (cases i; cases x) auto
qed simp

lemma ring_in_place:
  fixes f :: "'a \<Rightarrow> 'a" and r :: "'a ring"
  assumes "ring_ok r" "i < ring_live r"
  defines "s \<equiv> r\<lparr>rg_slots := (rg_slots r)[rg_head r + i := map_option f (rg_slots r ! (rg_head r + i))]\<rparr>"
  shows "ring_ok s" "ring_map s = (ring_map r)(rg_base r + i := map_option f (ring_map r (rg_base r + i)))"
    "ring_live s = ring_live r" "rg_base s = rg_base r" "rg_slots s = [] \<longleftrightarrow> rg_slots r = []"
proof -
  have live: "live_slots s = (live_slots r)[i := map_option f (live_slots r ! i)]"
    using assms(2) by (simp add: s_def live_slots_def ring_live_def drop_update_swap)
  show base: "rg_base s = rg_base r" and len: "ring_live s = ring_live r" and ne: "rg_slots s = [] \<longleftrightarrow> rg_slots r = []"
    by (simp_all add: s_def ring_live_def)
  note I = ring_okD [OF assms(1)]
  show "ring_map s = (ring_map r)(rg_base r + i := map_option f (ring_map r (rg_base r + i)))"
    by (rule ext) (use assms(2) in \<open>auto simp: ring_map_live base len live nth_list_update\<close>)
  have "live_slots r \<noteq> []" using assms(2) by (auto simp: live_slots_def ring_live_def)
  then have "hd (live_slots s) = (if i = 0 then map_option f (hd (live_slots r)) else hd (live_slots r))"
    unfolding live by (cases "live_slots r"; cases i) auto
  then have "hd (live_slots s) \<noteq> None" using I(3) \<open>live_slots r \<noteq> []\<close> by auto
  moreover have "rg_open s = length (List.map_filter (\<lambda>x. x) (live_slots s))"
    unfolding live using assms(2) I(4) by (simp add: filter_some_map_option) (simp add: s_def)
  ultimately show "ring_ok s" by (intro ring_okI) (use I in \<open>auto simp: s_def\<close>)
qed

lemma ring_slot_map: "ring_slot i r = ring_map r (rg_base r + i)"
  by (simp add: ring_map_def)

lemma ring_slot_mut_ok:
  assumes "ring_ok r"
  shows "ring_ok (ring_slot_mut i f r)"
    "ring_map (ring_slot_mut i f r) = (ring_map r)(rg_base r + i := map_option f (ring_map r (rg_base r + i)))"
    "ring_live (ring_slot_mut i f r) = ring_live r" "rg_base (ring_slot_mut i f r) = rg_base r"
    "rg_slots (ring_slot_mut i f r) = [] \<longleftrightarrow> rg_slots r = []"
proof -
  have "ring_ok (ring_slot_mut i f r)
    \<and> ring_map (ring_slot_mut i f r) = (ring_map r)(rg_base r + i := map_option f (ring_map r (rg_base r + i)))
    \<and> ring_live (ring_slot_mut i f r) = ring_live r \<and> rg_base (ring_slot_mut i f r) = rg_base r
    \<and> (rg_slots (ring_slot_mut i f r) = [] \<longleftrightarrow> rg_slots r = [])"
  proof (cases "i < ring_live r")
    case True
    then have "rg_head r + i < length (rg_slots r)" by (simp add: ring_live_def)
    then show ?thesis using ring_in_place [OF assms True, of f] by (simp add: ring_slot_mut_def)
  next
    case False
    then have "ring_map r (rg_base r + i) = None" by (simp add: ring_map_live)
    then show ?thesis using False assms by (auto simp: ring_slot_mut_def ring_live_def)
  qed
  then show "ring_ok (ring_slot_mut i f r)"
    "ring_map (ring_slot_mut i f r) = (ring_map r)(rg_base r + i := map_option f (ring_map r (rg_base r + i)))"
    "ring_live (ring_slot_mut i f r) = ring_live r" "rg_base (ring_slot_mut i f r) = rg_base r"
    "rg_slots (ring_slot_mut i f r) = [] \<longleftrightarrow> rg_slots r = []" by blast+
qed

lemma ring_update_slot_mut:
  "ring_update sh off sid f r =
     (case ring_index sh off sid r of None \<Rightarrow> r | Some _ \<Rightarrow> ring_slot_mut (drop_bit sh sid - rg_base r) f r)"
proof (cases "ring_index sh off sid r")
  case (Some i)
  then show ?thesis using ring_index_Some(2,4) [OF Some] by (simp add: ring_update_def ring_slot_mut_def)
qed (simp add: ring_update_def)

lemma ring_iter_mut_ok:
  assumes "ring_ok r"
  shows "ring_ok (ring_iter_mut f r)" "ring_map (ring_iter_mut f r) n = map_option f (ring_map r n)"
    "ring_live (ring_iter_mut f r) = ring_live r" "rg_base (ring_iter_mut f r) = rg_base r"
    "rg_slots (ring_iter_mut f r) = [] \<longleftrightarrow> rg_slots r = []"
proof -
  note I = ring_okD [OF assms]
  have h: "rg_head r \<le> length (rg_slots r)" using I(1,2) by (cases "rg_slots r = []") auto
  have live: "live_slots (ring_iter_mut f r) = map (map_option f) (live_slots r)"
    using h by (simp add: ring_iter_mut_def live_slots_def)
  show base: "rg_base (ring_iter_mut f r) = rg_base r" by (simp add: ring_iter_mut_def)
  show len: "ring_live (ring_iter_mut f r) = ring_live r" using arg_cong [OF live, of length] by simp
  show "rg_slots (ring_iter_mut f r) = [] \<longleftrightarrow> rg_slots r = []" using h by (auto simp: ring_iter_mut_def)
  show "ring_map (ring_iter_mut f r) n = map_option f (ring_map r n)"
    by (auto simp: ring_map_live base len live)
  have "length (List.map_filter (\<lambda>x. x) (map (map_option f) xs)) = length (List.map_filter (\<lambda>x. x) xs)" for xs :: "'a option list"
    by (induction xs) (auto simp: List.map_filter_def)
  then show "ring_ok (ring_iter_mut f r)"
    using I h by (intro ring_okI) (auto simp: live hd_map, auto simp: ring_iter_mut_def)
qed

text \<open>The items of the ring are the map read in order of the stream numbers.\<close>

lemma some_items_numbers:
  "List.map_filter (\<lambda>x. x) xs = map (\<lambda>n. the (xs ! (n - b))) (filter (\<lambda>n. xs ! (n - b) \<noteq> None) [b..<b + length xs])"
proof (induction xs arbitrary: b)
  case (Cons x xs)
  have shift: "map (\<lambda>n. the ((x # xs) ! (n - b))) (filter (\<lambda>n. (x # xs) ! (n - b) \<noteq> None) [Suc b..<Suc b + length xs])
      = map (\<lambda>n. the (xs ! (n - Suc b))) (filter (\<lambda>n. xs ! (n - Suc b) \<noteq> None) [Suc b..<Suc b + length xs])"
    by (intro map_cong filter_cong) (auto simp: nth_Cons' simp flip: diff_Suc_eq_diff_pred)
  have "[b..<b + length (x # xs)] = b # [Suc b..<Suc b + length xs]" by (subst upt_conv_Cons) simp_all
  with Cons.IH [of "Suc b"] shift show ?case by (cases x) auto
qed simp

lemma ring_items_map:
  "ring_items r = map (\<lambda>n. the (ring_map r n)) (filter (\<lambda>n. ring_map r n \<noteq> None) [rg_base r..<rg_base r + ring_live r])"
  unfolding ring_items_def live_slots_def [symmetric] some_items_numbers [of "live_slots r" "rg_base r"] length_live
  by (intro map_cong filter_cong) (auto simp: ring_map_live)

lemma ring_items_keys:
  assumes "\<And>n x. ring_map r n = Some x \<Longrightarrow> f x = g n" "inj g"
  shows "distinct (map f (ring_items r))" "set (map f (ring_items r)) = g ` dom (ring_map r)"
proof -
  have dom: "dom (ring_map r) = set (filter (\<lambda>n. ring_map r n \<noteq> None) [rg_base r..<rg_base r + ring_live r])"
    by (auto simp: ring_map_live split: if_splits)
  have eq: "map f (ring_items r) = map g (filter (\<lambda>n. ring_map r n \<noteq> None) [rg_base r..<rg_base r + ring_live r])"
    unfolding ring_items_map map_map by (rule map_cong) (auto simp: assms(1))
  show "distinct (map f (ring_items r))" unfolding eq using inj_on_subset [OF assms(2)] by (auto simp: distinct_map)
  show "set (map f (ring_items r)) = g ` dom (ring_map r)" unfolding eq dom by simp
qed

text \<open>The number past the newest stream does not move while anything is in the ring.\<close>

lemma settle_top:
  "rg_slots (ring_settle r) \<noteq> [] \<Longrightarrow> rg_base (ring_settle r) + ring_live (ring_settle r) = rg_base r + ring_live r"
  using holes_le [of "live_slots r"] arg_cong [OF settle_live(1) [of r], of length]
  by (simp add: settle_live(2) flip: holes_drop)

lemma ring_take_top:
  assumes "ring_take sh off sid r = Some (x, s)" "rg_slots s \<noteq> []" "ring_ok r"
  shows "rg_base s + ring_live s = rg_base r + ring_live r"
proof -
  obtain i where i: "ring_index sh off sid r = Some i" "rg_slots r ! i = Some x"
    using assms(1) by (auto simp: ring_take_def Let_def split: option.splits)
  let ?s = "r\<lparr>rg_slots := (rg_slots r)[i := None], rg_open := rg_open r - 1\<rparr>"
  let ?t = "?s\<lparr>rg_head := rg_head ?s + 1, rg_base := rg_base ?s + 1\<rparr>"
  have c: "ring_live (ring_compact ?t) = ring_live ?t" by (simp add: ring_live_def ring_compact_def)
  show ?thesis
  proof (cases "i = rg_head r")
    case True
    have "rg_base ?t + ring_live ?t = rg_base r + ring_live r"
      using True ring_index_Some(2) [OF i(1)] by (simp add: ring_live_def)
    moreover have "s \<in> {ring_settle ?t, ring_compact ?t, ?t}"
      using assms(1) i True by (auto simp: ring_take_def Let_def)
    ultimately show ?thesis using settle_top [of ?t] c assms(2) by auto
  next
    case False
    then have "s = ?s" using assms(1) i by (simp add: ring_take_def)
    then show ?thesis by (simp add: ring_live_def)
  qed
qed

lemma retire_after_top:
  assumes "ring_ok r" "rg_slots (snd (retire_after last_id r)) \<noteq> []"
  shows "rg_base (snd (retire_after last_id r)) + ring_live (snd (retire_after last_id r)) = rg_base r + ring_live r"
  using assms(2) by (auto simp: retire_after_def Let_def ring_live_def split: if_splits)

lemma ring_push_top:
  assumes "ring_ok r" "ring_fits sh off sid r"
  shows "rg_base (ring_push sh sid x r) + ring_live (ring_push sh sid x r) = drop_bit sh sid + 1"
  using assms ring_okD(2) [OF assms(1)] arg_cong [OF ring_push_live [OF assms(1), of sh sid x], of length]
  by (auto simp: ring_push_def ring_fits_def Let_def ring_live_def)

section \<open>What all items share\<close>

definition ring_all :: "('a \<Rightarrow> bool) \<Rightarrow> 'a ring \<Rightarrow> bool" where
  "ring_all P r \<longleftrightarrow> list_all P (ring_items r)"

lemma ring_items_ran: "set (ring_items r) = ran (ring_map r)"
proof (intro equalityI subsetI)
  fix x assume "x \<in> set (ring_items r)"
  then obtain n where "x = the (ring_map r n)" "ring_map r n \<noteq> None" unfolding ring_items_map by auto
  then show "x \<in> ran (ring_map r)" by (auto simp: ran_def)
next
  fix x assume "x \<in> ran (ring_map r)"
  then obtain n where n: "ring_map r n = Some x" by (auto simp: ran_def)
  then have "n \<in> set (filter (\<lambda>n. ring_map r n \<noteq> None) [rg_base r..<rg_base r + ring_live r])"
    by (auto simp: ring_map_live split: if_splits)
  then have "the (ring_map r n) \<in> set (ring_items r)" unfolding ring_items_map set_map by (rule imageI)
  then show "x \<in> set (ring_items r)" by (simp add: n)
qed

lemma ring_all_ran: "ring_all P r \<longleftrightarrow> (\<forall>x \<in> ran (ring_map r). P x)"
  by (simp add: ring_all_def list_all_iff ring_items_ran)

lemma ring_all_new [simp]: "ring_all P ring_new"
  by (simp add: ring_all_def ring_items_def ring_new_def)

lemma ring_len_new [simp]: "ring_len ring_new = 0"
  by (simp add: ring_len_def ring_new_def)

lemma ring_len_push: "ring_len (ring_push sh sid x r) = ring_len r + 1"
  by (simp add: ring_len_def ring_push_def Let_def)

lemma ring_all_push: "ring_ok r \<Longrightarrow> ring_all P r \<Longrightarrow> P x \<Longrightarrow> ring_all P (ring_push sh sid x r)"
  by (simp add: ring_all_def ring_items_def flip: live_slots_def) (simp add: ring_push_live)

lemma ring_take_all:
  assumes "ring_ok r" "off < 2 ^ sh" "ring_take sh off sid r = Some (x, s)" "ring_all P r"
  shows "ring_ok s" "ring_len r = Suc (ring_len s)" "ring_all P s" "P x"
proof -
  let ?n = "drop_bit sh sid"
  from ring_take_map [OF assms(1,2), of sid] assms(3)
  have get: "ring_get sh off sid r = Some x" and s: "ring_ok s" "ring_map s = (ring_map r)(?n := None)"
    by (auto split: option.splits)
  then have x: "ring_map r ?n = Some x" by (auto simp: ring_get_map [OF assms(2)] split: if_splits)
  then have dom: "dom (ring_map r) = insert ?n (dom (ring_map s))" "?n \<notin> dom (ring_map s)" by (auto simp: s(2))
  then show "ring_len r = Suc (ring_len s)"
    using ring_len_card [OF assms(1)] ring_len_card [OF s(1)] by simp
  show "ring_all P s" "P x" using assms(4) x by (auto simp: ring_all_ran s(2) ran_def)
qed (use ring_take_map [OF assms(1,2), of sid] assms(3) in \<open>auto split: option.splits\<close>)

lemma ring_len_slots: "ring_ok r \<Longrightarrow> ring_len r = length (ring_items r)"
  by (simp add: ring_len_def ring_items_def ring_ok_def live_slots_def)

lemma ring_update_all:
  assumes "ring_ok r" "ring_all P r" "\<And>x. P x \<Longrightarrow> P (f x)"
  shows "ring_ok (ring_update sh off sid f r)" "ring_len (ring_update sh off sid f r) = ring_len r"
    "ring_all P (ring_update sh off sid f r)"
proof -
  note slot = ring_slot_mut_ok [OF assms(1), of "drop_bit sh sid - rg_base r" f]
  show "ring_ok (ring_update sh off sid f r)"
    using slot(1) assms(1) by (simp add: ring_update_slot_mut split: option.split)
  show "ring_len (ring_update sh off sid f r) = ring_len r"
    by (simp add: ring_len_def ring_update_def split: option.split)
  show "ring_all P (ring_update sh off sid f r)"
    using assms(2,3) unfolding ring_update_slot_mut ring_all_ran
    by (auto simp: slot(2) ran_def split: option.split if_splits)
qed

section \<open>The interface of a request table\<close>

text \<open>
  What the HTTP/2 and HTTP/3 workers rely on: a table from stream id to request. \<open>fits\<close> says which id may
  be pushed next.
\<close>

locale inflight_table =
  fixes ok :: "'s \<Rightarrow> bool" and empty :: 's and fits :: "nat \<Rightarrow> 's \<Rightarrow> bool"
    and push :: "nat \<Rightarrow> 'a \<Rightarrow> 's \<Rightarrow> 's" and get :: "nat \<Rightarrow> 's \<Rightarrow> 'a option"
    and take_item :: "nat \<Rightarrow> 's \<Rightarrow> ('a \<times> 's) option" and len :: "'s \<Rightarrow> nat"
  assumes empty_ok: "ok empty" and get_empty: "get sid empty = None"
    and push_ok: "ok s \<Longrightarrow> fits sid s \<Longrightarrow> ok (push sid x s)"
    and get_push: "ok s \<Longrightarrow> fits sid s \<Longrightarrow> get i (push sid x s) = (if i = sid then Some x else get i s)"
    and take_None: "ok s \<Longrightarrow> get sid s = None \<Longrightarrow> take_item sid s = None"
    and take_Some: "ok s \<Longrightarrow> get sid s = Some x
      \<Longrightarrow> \<exists>t. take_item sid s = Some (x, t) \<and> ok t \<and> (\<forall>i. get i t = (if i = sid then None else get i s))"
    and len_get: "ok s \<Longrightarrow> len s = card {i. get i s \<noteq> None}"

text \<open>A sequence of operations on a table, and the same on a plain map; both give what each \<open>take\<close> returned.\<close>

datatype 'a table_op = Push nat 'a | Take nat

fun table_run :: "(nat \<Rightarrow> 'a \<Rightarrow> 's \<Rightarrow> 's) \<Rightarrow> (nat \<Rightarrow> 's \<Rightarrow> ('a \<times> 's) option) \<Rightarrow> 'a table_op list \<Rightarrow> 's
    \<Rightarrow> 'a option list \<times> 's" where
  "table_run push take_item [] s = ([], s)"
| "table_run push take_item (Push sid x # ops) s = table_run push take_item ops (push sid x s)"
| "table_run push take_item (Take sid # ops) s =
     (case take_item sid s of
        None \<Rightarrow> let (out, t) = table_run push take_item ops s in (None # out, t)
      | Some (x, s) \<Rightarrow> let (out, t) = table_run push take_item ops s in (Some x # out, t))"

fun table_fits :: "(nat \<Rightarrow> 's \<Rightarrow> bool) \<Rightarrow> (nat \<Rightarrow> 'a \<Rightarrow> 's \<Rightarrow> 's) \<Rightarrow> (nat \<Rightarrow> 's \<Rightarrow> ('a \<times> 's) option) \<Rightarrow> 'a table_op list
    \<Rightarrow> 's \<Rightarrow> bool" where
  "table_fits fits push take_item [] s = True"
| "table_fits fits push take_item (Push sid x # ops) s \<longleftrightarrow>
     fits sid s \<and> table_fits fits push take_item ops (push sid x s)"
| "table_fits fits push take_item (Take sid # ops) s \<longleftrightarrow>
     table_fits fits push take_item ops (case take_item sid s of None \<Rightarrow> s | Some (_, t) \<Rightarrow> t)"

fun map_run :: "'a table_op list \<Rightarrow> (nat \<rightharpoonup> 'a) \<Rightarrow> 'a option list \<times> (nat \<rightharpoonup> 'a)" where
  "map_run [] m = ([], m)"
| "map_run (Push sid x # ops) m = map_run ops (m(sid \<mapsto> x))"
| "map_run (Take sid # ops) m = (let (out, m') = map_run ops (m(sid := None)) in (m sid # out, m'))"

context inflight_table
begin

lemma run_refines:
  assumes "ok s" "table_fits fits push take_item ops s"
  shows "(case table_run push take_item ops s of (out, t) \<Rightarrow>
      ok t \<and> map_run ops (\<lambda>i. get i s) = (out, \<lambda>i. get i t))"
  using assms
proof (induction ops arbitrary: s)
  case (Cons a ops)
  show ?case
  proof (cases a)
    case (Push sid x)
    then have "(\<lambda>i. get i s)(sid \<mapsto> x) = (\<lambda>i. get i (push sid x s))" using Cons.prems get_push by auto
    then show ?thesis using Cons Push push_ok by simp
  next
    case (Take sid)
    show ?thesis
    proof (cases "get sid s")
      case None
      then have "(\<lambda>i. get i s)(sid := None) = (\<lambda>i. get i s)" by auto
      then show ?thesis using Cons.IH [OF Cons.prems(1)] Cons.prems(2) Take None take_None [OF Cons.prems(1) None]
        by (auto split: prod.splits)
    next
      case (Some x)
      from take_Some [OF Cons.prems(1) Some] obtain t where
        t: "take_item sid s = Some (x, t)" "ok t" "\<forall>i. get i t = (if i = sid then None else get i s)" by blast
      then have "(\<lambda>i. get i s)(sid := None) = (\<lambda>i. get i t)" by auto
      then show ?thesis using Cons.IH [OF t(2)] Cons.prems(2) Take Some t(1) by (auto split: prod.splits)
    qed
  qed
qed simp

lemma run_from_empty:
  assumes "table_fits fits push take_item ops empty"
  shows "fst (table_run push take_item ops empty) = fst (map_run ops Map.empty)"
    "get i (snd (table_run push take_item ops empty)) = snd (map_run ops Map.empty) i"
    "len (snd (table_run push take_item ops empty)) = card (dom (snd (map_run ops Map.empty)))"
proof -
  have "(\<lambda>i. get i empty) = Map.empty" using get_empty by auto
  then obtain out t where t: "table_run push take_item ops empty = (out, t)" "ok t"
    "map_run ops Map.empty = (out, \<lambda>i. get i t)"
    using run_refines [OF empty_ok assms] by (auto split: prod.splits)
  then show "fst (table_run push take_item ops empty) = fst (map_run ops Map.empty)"
    "get i (snd (table_run push take_item ops empty)) = snd (map_run ops Map.empty) i"
    "len (snd (table_run push take_item ops empty)) = card (dom (snd (map_run ops Map.empty)))"
    using len_get [OF t(2)] by (simp_all add: dom_def)
qed

end

text \<open>The ring provides it, for every gap and offset.\<close>

lemma ring_id_number:
  "off < 2 ^ sh \<Longrightarrow> drop_bit sh (n * 2 ^ sh + off) = (n :: nat)"
  by (simp add: drop_bit_eq_div)

lemma ring_table:
  assumes "off < 2 ^ sh"
  shows "inflight_table ring_ok (ring_new :: 'a ring) (ring_fits sh off) (ring_push sh) (ring_get sh off)
      (ring_take sh off) ring_len"
proof
  note get = ring_get_map [OF assms]
  fix s :: "'a ring" and sid i x
  assume ok: "ring_ok s"
  show "ring_ok (ring_push sh sid x s)" by (rule ring_push_ok [OF ok])
  show "ring_fits sh off sid s \<Longrightarrow> ring_get sh off i (ring_push sh sid x s) = (if i = sid then Some x else ring_get sh off i s)"
    using ring_push_map [OF ok] unfolding get by (auto simp: ring_fits_def)
  show "ring_get sh off sid s = None \<Longrightarrow> ring_take sh off sid s = None"
    using ring_take_map [OF ok assms, of sid] by simp
  show "\<exists>t. ring_take sh off sid s = Some (x, t) \<and> ring_ok t \<and>
      (\<forall>i. ring_get sh off i t = (if i = sid then None else ring_get sh off i s))" if found: "ring_get sh off sid s = Some x"
  proof -
    obtain t where t: "ring_take sh off sid s = Some (x, t)" "ring_ok t" "ring_map t = (ring_map s)(drop_bit sh sid := None)"
      using ring_take_map [OF ok assms, of sid] found by auto
    moreover have "ring_get sh off i t = (if i = sid then None else ring_get sh off i s)" for i
      using found t(3) unfolding get by (auto split: if_splits)
    ultimately show ?thesis by blast
  qed
  have "{i. ring_get sh off i s \<noteq> None} = (\<lambda>n. n * 2 ^ sh + off) ` dom (ring_map s)"
    using ring_id_number [OF assms] unfolding get by (auto simp: image_iff)
  moreover have "inj_on (\<lambda>n. n * 2 ^ sh + off) (dom (ring_map s))" by (rule inj_onI) simp
  ultimately show "ring_len s = card {i. ring_get sh off i s \<noteq> None}"
    using ring_len_card [OF ok] by (simp add: card_image)
qed (simp_all add: ring_new_ok ring_get_map [OF assms] ring_new_map)

interpretation h2_ring: inflight_table ring_ok ring_new "ring_fits 1 1" "ring_push 1" "ring_get 1 1" "ring_take 1 1" ring_len
  by (rule ring_table) simp

interpretation h3_ring: inflight_table ring_ok ring_new "ring_fits 2 0" "ring_push 2" "ring_get 2 0" "ring_take 2 0" ring_len
  by (rule ring_table) simp


section \<open>Properties\<close>

text \<open>
  C26. For every gap and offset of stream ids, a ring driven by any sequence of \<open>push\<close> and \<open>take\<close> whose pushed
  ids are those the ring expects behaves as a plain map from stream id to request: every \<open>take\<close> returns what the
  map holds, so a request is answered exactly once and never under another id; afterwards \<open>get\<close> agrees with the
  map, and \<open>len\<close> is the number of requests in it.
\<close>

theorem ring_is_a_map:
  assumes "off < 2 ^ sh" "table_fits (ring_fits sh off) (ring_push sh) (ring_take sh off) ops ring_new"
  shows "let (out, r) = table_run (ring_push sh) (ring_take sh off) ops ring_new; (out', m) = map_run ops Map.empty in
      out = out' \<and> (\<forall>sid. ring_get sh off sid r = m sid) \<and> ring_len r = card (dom m)"
  using inflight_table.run_from_empty [OF ring_table [OF assms(1)] assms(2)]
  by (auto simp: split_def)

theorem ring_is_a_map_witness:
  "let ops = [Push 0 ''a'', Push 4 ''b'', Push 8 ''c'', Take 0, Take 4, Take 4, Take 3]
   in table_fits (ring_fits 2 0) (ring_push 2) (ring_take 2 0) ops ring_new
     \<and> fst (table_run (ring_push 2) (ring_take 2 0) ops ring_new) = [Some ''a'', Some ''b'', None, None]
     \<and> (\<forall>sid. ring_get 2 0 sid (snd (table_run (ring_push 2) (ring_take 2 0) ops ring_new)) = snd (map_run ops Map.empty) sid)"
proof -
  let ?ops = "[Push 0 ''a'', Push 4 ''b'', Push 8 ''c'', Take 0, Take 4, Take 4, Take 3]"
  have f: "table_fits (ring_fits 2 0) (ring_push 2) (ring_take 2 0) ?ops ring_new" by code_simp
  moreover have "fst (map_run ?ops Map.empty) = [Some ''a'', Some ''b'', None, None]" by simp
  moreover have "(0 :: nat) < 2 ^ 2" by simp
  ultimately show ?thesis using ring_is_a_map [of 0 2 ?ops] unfolding Let_def by (auto simp: split_def)
qed

text \<open>
  After a GOAWAY, \<open>retire_after(last)\<close> takes out of the HTTP/2 ring exactly the requests whose stream id is
  above \<open>last\<close>: those at or below it stay where they are, the retired ones come out oldest first, nothing is lost
  or handed out twice, and \<open>len\<close> counts what remains.
\<close>

theorem retire_after_exact:
  assumes "ring_ok r"
  shows "let (retired, s) = retire_after last_id r in
      ring_ok s \<and> ring_items r = ring_items s @ retired \<and> ring_len r = ring_len s + length retired
      \<and> (\<forall>sid. ring_get 1 1 sid s = (if sid \<le> last_id then ring_get 1 1 sid r else None))"
proof -
  let ?s = "snd (retire_after last_id r)"
  note R = retire_after_map [OF assms, of last_id]
  have "ring_len q = length (ring_items q)" if "ring_ok q" for q :: "'a ring"
    using ring_okD(4) [OF that] by (simp add: ring_len_def ring_items_def live_slots_def)
  then have "ring_len r = ring_len ?s + length (fst (retire_after last_id r))"
    using R(3) R(1) assms by (simp add: length_append)
  moreover have "ring_get 1 1 sid ?s = (if sid \<le> last_id then ring_get 1 1 sid r else None)" for sid
    using R(2) [of "drop_bit 1 sid"] by (auto simp: ring_get_map mult.commute)
  ultimately show ?thesis using R(1,3) by (simp add: split_def)
qed

theorem retire_after_exact_witness:
  "\<exists>r s. r = ring_push 1 5 ''c'' (ring_push 1 3 ''b'' (ring_push 1 1 ''a'' ring_new))
     \<and> retire_after 3 r = ([''c''], s) \<and> ring_get 1 1 3 s = Some ''b'' \<and> ring_get 1 1 5 s = None"
proof -
  let ?r = "ring_push 1 5 ''c'' (ring_push 1 3 ''b'' (ring_push 1 1 ''a'' (ring_new :: string ring)))"
  have "ring_ok ?r" by (intro ring_push_ok ring_new_ok)
  moreover have "fst (retire_after 3 ?r) = [''c'']" "ring_get 1 1 3 ?r = Some ''b''" by code_simp+
  ultimately show ?thesis using retire_after_exact [of ?r 3] unfolding Let_def split_def
    by (intro exI [of _ ?r] exI [of _ "snd (retire_after 3 ?r)"]) (simp add: prod_eq_iff)
qed



end
