(* ===== verification/Budget.thy ===== *)
theory Budget
  imports Prelude
begin

text \<open>What ends a run (\<open>src/budget.rs\<close>): a number of requests or a duration, and its share per thread.\<close>

section \<open>Operations\<close>

datatype budget = Requests nat | Duration nat

definition budget_is_empty :: "budget \<Rightarrow> bool" where
  "budget_is_empty b \<longleftrightarrow> b = Requests 0"

fun may_start :: "budget \<Rightarrow> nat \<Rightarrow> bool" where
  "may_start (Requests n) started = (started < n)"
| "may_start (Duration _) started = True"

fun is_met :: "budget \<Rightarrow> nat \<Rightarrow> bool" where
  "is_met (Requests n) finished = (finished \<ge> n)"
| "is_met (Duration _) finished = False"

fun expected_requests :: "budget \<Rightarrow> nat option" where
  "expected_requests (Requests n) = Some n"
| "expected_requests (Duration _) = None"

fun deadline :: "budget \<Rightarrow> nat option" where
  "deadline (Duration d) = Some d"
| "deadline (Requests _) = None"

fun budget_split :: "budget \<Rightarrow> nat \<Rightarrow> budget list" where
  "budget_split (Duration d) threads = replicate threads (Duration d)"
| "budget_split (Requests n) threads =
     map (\<lambda>i. Requests (n div threads + of_bool (i < n mod threads))) [0..<threads]"

section \<open>Lemmas\<close>

lemma sum_of_bool_below: "r \<le> t \<Longrightarrow> (\<Sum>i<t. of_bool (i < (r :: nat))) = (r :: nat)"
  by (simp add: Int_absorb1 subset_iff flip: sum.inter_filter lessThan_def)

fun share :: "budget \<Rightarrow> nat" where
  "share (Requests n) = n"
| "share (Duration _) = 0"

lemma split_sum:
  assumes "0 < threads"
  shows "sum_list (map share (budget_split (Requests n) threads)) = n"
proof -
  have "sum_list (map share (budget_split (Requests n) threads)) = (\<Sum>i<threads. n div threads + of_bool (i < n mod threads))"
    by (simp add: interv_sum_list_conv_sum_set_nat atLeast0LessThan comp_def)
  also have "\<dots> = threads * (n div threads) + n mod threads"
    using assms sum_of_bool_below [of "n mod threads" threads] by (simp add: sum.distrib less_imp_le)
  finally show ?thesis by simp
qed

section \<open>Properties\<close>

text \<open>
  A request budget divided among threads is divided exactly and evenly: there is one share per thread, the
  shares sum to the whole, and no two of them differ by more than one; a thread that starts a request whenever
  \<open>may_start\<close> says so, and stops when \<open>is_met\<close> does, has then run exactly its share.
\<close>

theorem budget_split_exact:
  assumes "0 < threads"
  shows "length (budget_split b threads) = threads
    \<and> (\<forall>n. b = Requests n \<longrightarrow> sum_list (map share (budget_split b threads)) = n
        \<and> (\<forall>x \<in> set (budget_split b threads). \<forall>y \<in> set (budget_split b threads). share x \<le> share y + 1))
    \<and> (\<forall>x \<in> set (budget_split b threads). \<forall>k. may_start x k \<noteq> is_met x k)"
proof -
  have "length (budget_split b threads) = threads" by (cases b) simp_all
  moreover have "may_start x k \<noteq> is_met x k" for x k by (cases x) auto
  moreover have "share x \<le> share y + 1"
    if "x \<in> set (budget_split (Requests n) threads)" "y \<in> set (budget_split (Requests n) threads)" for x y n
    using that by (auto simp: of_bool_def)
  ultimately show ?thesis using split_sum [OF assms] by blast
qed

theorem budget_split_exact_witness:
  "0 < (4 :: nat) \<and> budget_split (Requests 10) 4 = [Requests 3, Requests 3, Requests 2, Requests 2]
   \<and> length (budget_split (Requests 10) 4) = 4 \<and> sum_list (map share (budget_split (Requests 10) 4)) = 10"
  using budget_split_exact [of 4 "Requests 10"] by (simp add: upt_rec)

end
