(* ===== verification/Status.thy ===== *)
theory Status
  imports Prelude
begin

text \<open>
  Reading a \<open>:status\<close> (\<open>src/status.rs\<close>), which HPACK and QPACK share: three digits, either plain or in the
  Huffman code, of which only the ten digit codes are needed.
\<close>

section \<open>Operations\<close>

datatype status_error = Malformed_status | Malformed_status_length

definition is_ascii_digit :: "byte \<Rightarrow> bool" where
  "is_ascii_digit c \<longleftrightarrow> 48 \<le> c \<and> c \<le> 57"

definition huffman_digit :: "nat \<Rightarrow> nat \<Rightarrow> (nat \<times> nat) option" where
  "huffman_digit bits nbits =
     (let top5 = drop_bit (nbits - 5) bits AND 0x1f; top6 = drop_bit (nbits - 6) bits AND 0x3f in
      if nbits \<ge> 5 \<and> top5 \<le> 2 then Some (48 + top5, 5)
      else if nbits \<ge> 6 \<and> 25 \<le> top6 \<and> top6 \<le> 31 then Some (51 + (top6 - 25), 6)
      else None)"

text \<open>The inner loop, \<open>while n < 3\<close>; the digits found so far are a list.\<close>

function status_digits :: "nat \<Rightarrow> nat \<Rightarrow> nat list \<Rightarrow> nat \<times> nat \<times> nat list" where
  "status_digits bits nbits digits =
     (if length digits < 3 then
        (case huffman_digit bits nbits of
           None \<Rightarrow> (bits, nbits, digits)
         | Some (digit, used) \<Rightarrow>
             status_digits (bits AND (push_bit (nbits - used) 1 - 1)) (nbits - used) (digits @ [digit]))
      else (bits, nbits, digits))"
  by pat_completeness auto
termination by (relation "measure (\<lambda>(_, _, digits). 3 - length digits)") auto

declare status_digits.simps [simp del]

primrec status_bytes :: "bytes \<Rightarrow> nat \<times> nat \<times> nat list \<Rightarrow> nat \<times> nat \<times> nat list" where
  "status_bytes [] st = st"
| "status_bytes (byte # s) st =
     (let (bits, nbits, digits) = st in
      status_bytes s (status_digits (take_bit 32 (push_bit 8 bits) OR unat byte) (nbits + 8) digits))"

definition three_digits :: "nat list \<Rightarrow> nat" where
  "three_digits ds = (ds ! 0 - 48) * 100 + (ds ! 1 - 48) * 10 + (ds ! 2 - 48)"

definition status_value :: "bytes \<Rightarrow> bool \<Rightarrow> (status_error, nat) result" where
  "status_value s huffman =
     (if \<not> huffman then
        if length s \<noteq> 3 \<or> \<not> list_all is_ascii_digit s then Inl Malformed_status
        else Inr (three_digits (map unat s))
      else if \<not> (2 \<le> length s \<and> length s \<le> 3) then Inl Malformed_status_length
      else
        let (bits, nbits, digits) = status_bytes s (0, 0, []) in
        if length digits \<noteq> 3 \<or> nbits > 7 \<or> bits \<noteq> push_bit nbits 1 - 1 then Inl Malformed_status
        else Inr (three_digits digits))"

text \<open>Interim responses, which all three protocols step over (\<open>src/main.rs\<close>).\<close>

definition is_informational :: "nat \<Rightarrow> bool" where
  "is_informational status \<longleftrightarrow> 100 \<le> status \<and> status < 200"

section \<open>Bit strings\<close>

text \<open>The accumulator \<open>(bits, nbits)\<close> as a list of bits, most significant first.\<close>

definition bits_val :: "bool list \<Rightarrow> nat" where
  "bits_val bs = foldl (\<lambda>a b. 2 * a + of_bool b) 0 bs"

primrec to_bits :: "nat \<Rightarrow> nat \<Rightarrow> bool list" where
  "to_bits 0 v = []"
| "to_bits (Suc n) v = to_bits n (v div 2) @ [odd v]"

lemma bits_val_snoc [simp]: "bits_val (bs @ [b]) = 2 * bits_val bs + of_bool b"
  by (simp add: bits_val_def)

lemma bits_val_Nil [simp]: "bits_val [] = 0"
  by (simp add: bits_val_def)

lemma length_to_bits [simp]: "length (to_bits n v) = n"
  by (induction n arbitrary: v) simp_all

lemma bits_val_append: "bits_val (xs @ ys) = bits_val xs * 2 ^ length ys + bits_val ys"
proof (induction ys rule: rev_induct)
  case (snoc y ys)
  then show ?case by (simp add: algebra_simps flip: append_assoc)
qed simp

lemma bits_val_lt: "bits_val bs < 2 ^ length bs"
  by (induction bs rule: rev_induct) auto

lemma bits_val_to_bits: "bits_val (to_bits n v) = v mod 2 ^ n"
proof (induction n arbitrary: v)
  case (Suc n)
  have "v mod 2 ^ Suc n = 2 * (v div 2 mod 2 ^ n) + v mod 2"
    using mod_mult2_eq [of v 2 "2 ^ n"] by simp
  then show ?case using Suc by (simp add: mod_2_eq_odd)
qed simp

lemma to_bits_bits_val: "to_bits (length bs) (bits_val bs) = bs"
  by (induction bs rule: rev_induct) auto

lemma bits_val_inj: "length xs = length ys \<Longrightarrow> bits_val xs = bits_val ys \<Longrightarrow> xs = ys"
  by (metis to_bits_bits_val)

lemma bits_val_take:
  assumes "n \<le> length bs"
  shows "drop_bit (length bs - n) (bits_val bs) = bits_val (take n bs)"
proof -
  have "bits_val bs = bits_val (take n bs) * 2 ^ (length bs - n) + bits_val (drop n bs)"
    using bits_val_append [of "take n bs" "drop n bs"] by simp
  then show ?thesis using bits_val_lt [of "drop n bs"] by (simp add: drop_bit_eq_div)
qed

lemma bits_val_drop:
  assumes "n \<le> length bs"
  shows "bits_val bs AND (push_bit (length bs - n) 1 - 1) = bits_val (drop n bs)"
proof -
  have "bits_val bs = bits_val (take n bs) * 2 ^ (length bs - n) + bits_val (drop n bs)"
    using bits_val_append [of "take n bs" "drop n bs"] by simp
  moreover have "push_bit (length bs - n) 1 - 1 = (2 ^ (length bs - n) - 1 :: nat)" by (simp add: push_bit_eq_mult)
  ultimately show ?thesis using bits_val_lt [of "drop n bs"] by (simp only: mask_and_mod) simp
qed

lemma bits_val_ones: "bits_val (replicate k True) = 2 ^ k - 1"
proof (induction k)
  case (Suc k)
  have "bits_val (replicate (Suc k) True) = 2 * bits_val (replicate k True) + 1"
    by (simp add: replicate_append_same [symmetric])
  moreover have "(1 :: nat) \<le> 2 ^ k" by simp
  ultimately show ?case using Suc by (simp only: power_Suc diff_mult_distrib2 mult_1_right)
qed simp


definition byte_bits :: "bytes \<Rightarrow> bool list" where
  "byte_bits s = concat (map (\<lambda>b. to_bits 8 (unat b)) s)"

lemma byte_bits_simps [simp]: "byte_bits [] = []" "byte_bits (b # s) = to_bits 8 (unat b) @ byte_bits s"
  by (simp_all add: byte_bits_def)

lemma length_byte_bits [simp]: "length (byte_bits s) = 8 * length s"
  by (induction s) simp_all

lemma shift_in_byte:
  assumes "length L \<le> 24"
  shows "take_bit 32 (push_bit 8 (bits_val L)) OR unat b = bits_val (L @ to_bits 8 (unat (b :: byte)))"
proof -
  have "bits_val L < 2 ^ 24"
    using bits_val_lt [of L] assms power_increasing [of "length L" 24 "2 :: nat"] by linarith
  then have "take_bit 32 (push_bit 8 (bits_val L)) = push_bit 8 (bits_val L)"
    by (intro take_bit_nat_eq_self) (simp add: push_bit_eq_mult)
  moreover have "push_bit 8 (bits_val L) OR unat b = bits_val L * 2 ^ 8 + unat b"
    using push_bit_or_add [of "unat b" 8 "bits_val L"] by (simp add: push_bit_eq_mult ac_simps)
  ultimately show ?thesis
    using unat_byte_lt [of b] by (simp add: bits_val_append bits_val_to_bits)
qed

section \<open>The digit codes\<close>

text \<open>The ten digit codes of RFC 7541, Appendix B: five bits for 0 to 2, six for 3 to 9.\<close>

definition digit_code :: "nat \<Rightarrow> bool list" where
  "digit_code d = (if d < 3 then to_bits 5 d else to_bits 6 (d + 22))"

definition codes :: "nat list \<Rightarrow> bool list" where
  "codes ds = concat (map digit_code ds)"

lemma codes_simps [simp]: "codes [] = []" "codes (d # ds) = digit_code d @ codes ds" "codes (xs @ ys) = codes xs @ codes ys"
  by (simp_all add: codes_def)

lemma huffman_digit_bits:
  "huffman_digit (bits_val L) (length L) =
     (if 5 \<le> length L \<and> bits_val (take 5 L) \<le> 2 then Some (48 + bits_val (take 5 L), 5)
      else if 6 \<le> length L \<and> 25 \<le> bits_val (take 6 L) \<and> bits_val (take 6 L) \<le> 31
        then Some (51 + (bits_val (take 6 L) - 25), 6)
      else None)"
proof -
  have top: "drop_bit (length L - n) (bits_val L) AND (2 ^ n - 1) = bits_val (take n L)" if "n \<le> length L" for n
    using that bits_val_take [OF that] bits_val_lt [of "take n L"] by (simp only: mask_and_mod) simp
  show ?thesis using top [of 5] top [of 6] by (auto simp: huffman_digit_def Let_def)
qed

lemma huffman_digit_code:
  assumes "d < 10"
  shows "huffman_digit (bits_val (digit_code d @ rest)) (length (digit_code d @ rest)) = Some (48 + d, length (digit_code d))"
proof (cases "d < 3")
  case True
  then show ?thesis unfolding huffman_digit_bits by (simp add: digit_code_def bits_val_to_bits)
next
  case False
  have "bits_val (take 5 (to_bits 6 (d + 22))) = (d + 22) div 2"
    using bits_val_take [of 5 "to_bits 6 (d + 22)"] assms by (simp add: bits_val_to_bits drop_bit_eq_div)
  then have "bits_val (take 5 (to_bits 6 (d + 22))) > 2" by linarith
  then show ?thesis using False assms unfolding huffman_digit_bits by (simp add: digit_code_def bits_val_to_bits)
qed

lemma huffman_digit_Some:
  assumes "huffman_digit (bits_val L) (length L) = Some (c, u)"
  shows "\<exists>d rest. d < 10 \<and> c = 48 + d \<and> u = length (digit_code d) \<and> L = digit_code d @ rest"
proof -
  have code: "L = to_bits n (bits_val (take n L)) @ drop n L" if "n \<le> length L" for n
    using to_bits_bits_val [of "take n L"] that by simp
  consider (five) "5 \<le> length L" "bits_val (take 5 L) \<le> 2" "c = 48 + bits_val (take 5 L)" "u = 5"
    | (six) "6 \<le> length L" "25 \<le> bits_val (take 6 L)" "bits_val (take 6 L) \<le> 31" "c = 51 + (bits_val (take 6 L) - 25)" "u = 6"
    using assms by (auto simp: huffman_digit_bits split: if_splits)
  then show ?thesis
  proof cases
    case five
    then show ?thesis using code [of 5]
      by (intro exI [of _ "bits_val (take 5 L)"] exI [of _ "drop 5 L"]) (simp add: digit_code_def)
  next
    case six
    then show ?thesis using code [of 6]
      by (intro exI [of _ "bits_val (take 6 L) - 22"] exI [of _ "drop 6 L"]) (auto simp: digit_code_def)
  qed
qed

lemma digit_code_prefix_free:
  assumes "d < 10" "e < 10" "digit_code d @ xs = digit_code e @ ys"
  shows "d = e \<and> xs = ys"
  using huffman_digit_code [OF assms(1), of xs] huffman_digit_code [OF assms(2), of ys] assms(3) by auto

lemma codes_prefix_free:
  "list_all (\<lambda>d. d < 10) ds \<Longrightarrow> list_all (\<lambda>d. d < 10) es \<Longrightarrow> length es \<le> length ds \<Longrightarrow> codes es @ ys = codes ds @ xs
   \<Longrightarrow> es = take (length es) ds \<and> ys = codes (drop (length es) ds) @ xs"
proof (induction es arbitrary: ds)
  case (Cons e es)
  then obtain d ds' where ds: "ds = d # ds'" by (cases ds) auto
  then have "e = d \<and> codes es @ ys = codes ds' @ xs"
    using Cons.prems digit_code_prefix_free [of e d "codes es @ ys" "codes ds' @ xs"] by simp
  then show ?case using Cons ds by simp
qed simp


section \<open>The two loops\<close>

lemma status_digits_spec:
  assumes "length ds \<le> 3"
  shows "\<exists>es L'. status_digits (bits_val L) (length L) ds = (bits_val L', length L', ds @ map ((+) 48) es)
    \<and> L = codes es @ L' \<and> list_all (\<lambda>d. d < 10) es \<and> length ds + length es \<le> 3
    \<and> (length ds + length es = 3 \<or> huffman_digit (bits_val L') (length L') = None)"
  using assms
proof (induction "3 - length ds" arbitrary: ds L)
  case 0
  then show ?case by (intro exI [of _ "[]"] exI [of _ L]) (simp add: status_digits.simps)
next
  case (Suc n)
  show ?case
  proof (cases "huffman_digit (bits_val L) (length L)")
    case None
    then show ?thesis using Suc by (intro exI [of _ "[]"] exI [of _ L]) (simp add: status_digits.simps)
  next
    case (Some cu)
    obtain c u where "cu = (c, u)" by fastforce
    with Some obtain d rest where d: "d < 10" "c = 48 + d" "u = length (digit_code d)" "L = digit_code d @ rest"
      using huffman_digit_Some [of L c u] by auto
    have step: "status_digits (bits_val L) (length L) ds = status_digits (bits_val rest) (length rest) (ds @ [48 + d])"
      using Suc.hyps(2) Some \<open>cu = (c, u)\<close> d bits_val_drop [of u L] by (subst status_digits.simps) auto
    have "n = 3 - length (ds @ [48 + d])" "length (ds @ [48 + d]) \<le> 3" using Suc.hyps(2) by simp_all
    from Suc.hyps(1) [OF this, of rest] obtain es L' where
      "status_digits (bits_val rest) (length rest) (ds @ [48 + d]) = (bits_val L', length L', (ds @ [48 + d]) @ map ((+) 48) es)"
      "rest = codes es @ L'" "list_all (\<lambda>d. d < 10) es" "length ds + length (d # es) \<le> 3"
      "length ds + length (d # es) = 3 \<or> huffman_digit (bits_val L') (length L') = None" by auto
    then show ?thesis using step d by (intro exI [of _ "d # es"] exI [of _ L']) simp
  qed
qed

lemma status_bytes_spec:
  assumes "length ds \<le> 3" "length L + 8 * length s \<le> 32" "s = [] \<Longrightarrow> length ds = 3 \<or> huffman_digit (bits_val L) (length L) = None"
  shows "\<exists>es L'. status_bytes s (bits_val L, length L, ds) = (bits_val L', length L', ds @ map ((+) 48) es)
    \<and> L @ byte_bits s = codes es @ L' \<and> list_all (\<lambda>d. d < 10) es \<and> length ds + length es \<le> 3
    \<and> (length ds + length es = 3 \<or> huffman_digit (bits_val L') (length L') = None)"
  using assms
proof (induction s arbitrary: L ds)
  case Nil
  then show ?case by (intro exI [of _ "[]"] exI [of _ L]) auto
next
  case (Cons b s)
  have byte: "take_bit 32 (push_bit 8 (bits_val L)) OR unat b = bits_val (L @ to_bits 8 (unat b))"
    using Cons.prems(2) by (intro shift_in_byte) simp
  obtain es L' where es: "status_digits (bits_val (L @ to_bits 8 (unat b))) (length L + 8) ds = (bits_val L', length L', ds @ map ((+) 48) es)"
    "L @ to_bits 8 (unat b) = codes es @ L'" "list_all (\<lambda>d. d < 10) es" "length ds + length es \<le> 3"
    "length ds + length es = 3 \<or> huffman_digit (bits_val L') (length L') = None"
    using status_digits_spec [OF Cons.prems(1), of "L @ to_bits 8 (unat b)"] by auto
  have "length L' \<le> length L + 8" using arg_cong [OF es(2), of length] by simp
  then obtain fs L'' where fs: "status_bytes s (bits_val L', length L', ds @ map ((+) 48) es)
      = (bits_val L'', length L'', (ds @ map ((+) 48) es) @ map ((+) 48) fs)"
    "L' @ byte_bits s = codes fs @ L''" "list_all (\<lambda>d. d < 10) fs" "length ds + length es + length fs \<le> 3"
    "length ds + length es + length fs = 3 \<or> huffman_digit (bits_val L'') (length L'') = None"
    using Cons.IH [of "ds @ map ((+) 48) es" L'] Cons.prems(2) es(4,5) by auto
  have "L @ byte_bits (b # s) = (L @ to_bits 8 (unat b)) @ byte_bits s" by simp
  also have "\<dots> = codes (es @ fs) @ L''" using es(2) fs(2) by simp
  finally show ?case
    using byte es fs by (intro exI [of _ "es @ fs"] exI [of _ L'']) (simp add: Let_def ac_simps)
qed

lemma bits_val_all_ones: "bits_val L = push_bit (length L) 1 - 1 \<longleftrightarrow> L = replicate (length L) True"
  using bits_val_ones [of "length L"] bits_val_inj [of L "replicate (length L) True"]
  by (auto simp: push_bit_eq_mult)

text \<open>The digits a Huffman-coded status spells: the codes of three digits, then padding of at most seven ones.\<close>

definition huffman_status :: "bytes \<Rightarrow> nat \<Rightarrow> nat \<Rightarrow> nat \<Rightarrow> bool" where
  "huffman_status s a b c \<longleftrightarrow> a < 10 \<and> b < 10 \<and> c < 10
     \<and> (\<exists>k \<le> 7. byte_bits s = codes [a, b, c] @ replicate k True)"

lemma digit_code_length: "5 \<le> length (digit_code d)" "length (digit_code d) \<le> 6"
  by (simp_all add: digit_code_def)

lemma huffman_status_length: "huffman_status s a b c \<Longrightarrow> 2 \<le> length s \<and> length s \<le> 3"
proof -
  assume "huffman_status s a b c"
  then obtain k where "byte_bits s = codes [a, b, c] @ replicate k True" "k \<le> 7" by (auto simp: huffman_status_def)
  from arg_cong [OF this(1), of length] this(2) digit_code_length [of a] digit_code_length [of b] digit_code_length [of c]
  show ?thesis by simp
qed

lemma status_huffman:
  assumes "2 \<le> length s" "length s \<le> 3"
  shows "status_value s True = Inr v \<longleftrightarrow> (\<exists>a b c. huffman_status s a b c \<and> v = a * 100 + b * 10 + c)" (is "?l = ?r")
proof -
  have "\<exists>es L'. status_bytes s (bits_val [], length ([] :: bool list), []) = (bits_val L', length L', [] @ map ((+) 48) es)
    \<and> [] @ byte_bits s = codes es @ L' \<and> list_all (\<lambda>d. d < 10) es \<and> length ([] :: nat list) + length es \<le> 3
    \<and> (length ([] :: nat list) + length es = 3 \<or> huffman_digit (bits_val L') (length L') = None)"
    by (rule status_bytes_spec) (use assms in auto)
  then obtain es L' where es: "status_bytes s (0, 0, []) = (bits_val L', length L', map ((+) 48) es)"
    "byte_bits s = codes es @ L'" "list_all (\<lambda>d. d < 10) es" "length es \<le> 3"
    "length es = 3 \<or> huffman_digit (bits_val L') (length L') = None" by auto
  have val: "status_value s True = (if length es \<noteq> 3 \<or> length L' > 7 \<or> L' \<noteq> replicate (length L') True then Inl Malformed_status
      else Inr (three_digits (map ((+) 48) es)))"
    using assms es(1) bits_val_all_ones [of L'] by (simp add: status_value_def)
  have digits: "three_digits (map ((+) 48) es) = a * 100 + b * 10 + c" if "es = [a, b, c]" for a b c
    using that by (simp add: three_digits_def)
  show ?thesis
  proof
    assume ?l
    then have *: "length es = 3" "length L' \<le> 7" "L' = replicate (length L') True" "v = three_digits (map ((+) 48) es)"
      using val by (auto split: if_splits)
    then obtain a b c where abc: "es = [a, b, c]" by (auto simp: numeral_3_eq_3 length_Suc_conv)
    then have "huffman_status s a b c" using es(2,3) *(2,3) by (auto simp: huffman_status_def)
    then show ?r using *(4) digits [OF abc] by blast
  next
    assume ?r
    then obtain a b c k where abc: "a < 10" "b < 10" "c < 10" "k \<le> 7" "byte_bits s = codes [a, b, c] @ replicate k True"
      "v = a * 100 + b * 10 + c" by (auto simp: huffman_status_def)
    have pf: "es = take (length es) [a, b, c] \<and> L' = codes (drop (length es) [a, b, c]) @ replicate k True"
      by (rule codes_prefix_free) (use abc es in auto)
    have "length es = 3"
    proof (rule ccontr)
      assume "length es \<noteq> 3"
      then have none: "huffman_digit (bits_val L') (length L') = None" "length es < 3" using es(4,5) by auto
      then obtain d ds where "drop (length es) [a, b, c] = d # ds"
        by (cases "drop (length es) [a, b, c]") auto
      moreover from this have "d \<in> set [a, b, c]" by (metis in_set_dropD list.set_intros(1))
      then have "d < 10" using abc(1-3) by auto
      ultimately
      show False using pf none(1) huffman_digit_code [of d "codes ds @ replicate k True"] by simp
    qed
    with pf have "es = [a, b, c]" "L' = replicate k True" by auto
    then show ?l using val digits abc(4,6) by simp
  qed
qed


section \<open>Properties\<close>

lemma status_plain:
  "status_value s False = Inr v
   \<longleftrightarrow> (\<exists>a b c. a < 10 \<and> b < 10 \<and> c < 10 \<and> s = map (\<lambda>d. word_of_nat (48 + d)) [a, b, c] \<and> v = a * 100 + b * 10 + c)"
  (is "?l = ?r")
proof
  assume ?l
  then have "length s = 3" and digits: "list_all is_ascii_digit s" and v: "v = three_digits (map unat s)"
    by (auto simp: status_value_def split: if_splits)
  then obtain x y z where s: "s = [x, y, z]" by (auto simp: numeral_3_eq_3 length_Suc_conv)
  have d: "unat c - 48 < 10 \<and> word_of_nat (48 + (unat c - 48)) = c" if "is_ascii_digit c" for c
  proof -
    have "48 \<le> unat c" "unat c \<le> 57" using that by (auto simp: is_ascii_digit_def word_le_nat_alt)
    then show ?thesis by simp
  qed
  show ?r
    by (rule exI [of _ "unat x - 48"], rule exI [of _ "unat y - 48"], rule exI [of _ "unat z - 48"])
      (use d digits v s in \<open>simp add: three_digits_def\<close>)
next
  assume ?r
  then obtain a b c where abc: "a < 10" "b < 10" "c < 10" "s = map (\<lambda>d. word_of_nat (48 + d)) [a, b, c]"
    "v = a * 100 + b * 10 + c" by blast
  have "is_ascii_digit (word_of_nat (48 + d)) \<and> unat (word_of_nat (48 + d) :: byte) = 48 + d" if "d < 10" for d
    using that by (simp add: is_ascii_digit_def word_le_nat_alt unat_word_of_nat_byte del: of_nat_add)
  then show ?l using abc by (simp add: status_value_def three_digits_def del: of_nat_add)
qed

text \<open>
  \<open>status_value\<close> accepts exactly the encodings of a three-digit status, and reads the number they spell: in
  plain text the three digits; in Huffman code, bytes of which the bits are the RFC 7541 codes of three digits
  followed by at most seven one bits of padding. Everything else is refused, so no padding or fourth symbol is
  mistaken for a status.
\<close>

theorem status_value_exact:
  "status_value s huffman = Inr v \<longleftrightarrow>
     (\<exists>a b c. v = a * 100 + b * 10 + c
        \<and> (if huffman then huffman_status s a b c
           else a < 10 \<and> b < 10 \<and> c < 10 \<and> s = map (\<lambda>d. word_of_nat (48 + d)) [a, b, c]))"
proof (cases huffman)
  case False
  then show ?thesis using status_plain [of s v] by auto
next
  case True
  show ?thesis
  proof (cases "2 \<le> length s \<and> length s \<le> 3")
    case len: True
    then show ?thesis using True status_huffman [of s v] by auto
  next
    case False
    then have "\<not> huffman_status s a b c" for a b c using huffman_status_length by blast
    then show ?thesis using False True by (simp add: status_value_def) 
  qed
qed

end
