(* ===== verification/Prefix_Int.thy ===== *)
theory Prefix_Int
  imports Varint
begin

text \<open>
  The prefixed integers HPACK and QPACK share (\<open>encode_int\<close> and \<open>decode_int\<close> of \<open>src/http2/hpack.rs\<close> and
  \<open>src/http3/qpack.rs\<close>). The two decoders differ in the width of the accumulator and in how many continuation
  bytes they accept; both are arguments here.
\<close>

section \<open>Operations\<close>

text \<open>The loop \<open>while rest >= 128\<close> and the final push.\<close>

function prefix_tail :: "nat \<Rightarrow> bytes" where
  "prefix_tail v = (if v \<ge> 128 then word_of_nat (v mod 128 + 128) # prefix_tail (v div 128) else [word_of_nat v])"
  by pat_completeness auto
termination by (relation "measure (\<lambda>v. v)") auto

declare prefix_tail.simps [simp del]

definition prefix_encode :: "nat \<Rightarrow> byte \<Rightarrow> nat \<Rightarrow> bytes" where
  "prefix_encode prefix_bits msk v =
     (let mx = push_bit prefix_bits 1 - 1 in
      if v < mx then [msk OR word_of_nat v] else (msk OR word_of_nat mx) # prefix_tail (v - mx))"

datatype int_error = Int_truncated | Int_overflow | Int_too_long

text \<open>The loop of the decoder: the value so far, the shift, and the rest of the buffer.\<close>

fun prefix_decode_tail :: "nat \<Rightarrow> nat \<Rightarrow> nat \<Rightarrow> nat \<Rightarrow> bytes \<Rightarrow> (int_error, nat \<times> bytes) result" where
  "prefix_decode_tail bound limit v shift [] = Inl Int_truncated"
| "prefix_decode_tail bound limit v shift (b # buf) =
     (case checked_add bound v (push_bit shift (unat (b AND 0x7f))) of
        None \<Rightarrow> Inl Int_overflow
      | Some v \<Rightarrow>
          if b AND 0x80 = 0 then Inr (v, buf)
          else if shift + 7 > limit then Inl Int_too_long
          else prefix_decode_tail bound limit v (shift + 7) buf)"

fun prefix_decode :: "nat \<Rightarrow> nat \<Rightarrow> nat \<Rightarrow> bytes \<Rightarrow> (int_error, nat \<times> bytes) result" where
  "prefix_decode bound limit prefix_bits [] = Inl Int_truncated"
| "prefix_decode bound limit prefix_bits (b # buf) =
     (let mx = push_bit prefix_bits 1 - 1; first = unat b AND mx in
      if first < mx then Inr (first, buf) else prefix_decode_tail bound limit mx 0 buf)"

section \<open>Lemmas\<close>

lemma prefix_max: "push_bit p 1 - 1 = (2 ^ p - 1 :: nat)"
  by (simp add: push_bit_eq_mult)

text \<open>Decoding never reads past the buffer and always consumes at least a byte.\<close>

lemma prefix_decode_tail_shorter:
  "prefix_decode_tail bound limit v shift buf = Inr (w, rest) \<Longrightarrow> length rest < length buf \<and> (\<exists>used. buf = used @ rest)"
proof (induction bound limit v shift buf rule: prefix_decode_tail.induct)
  case (2 bound limit v shift b buf)
  then show ?case by (fastforce split: option.splits if_splits)
qed simp

lemma prefix_decode_shorter:
  assumes "prefix_decode bound limit p buf = Inr (w, rest)"
  shows "length rest < length buf" "\<exists>used. buf = used @ rest"
  using assms prefix_decode_tail_shorter [of bound limit _ 0 "tl buf" w rest]
  by (cases buf; fastforce simp: Let_def split: if_splits)+

lemma prefix_decode_tail_more:
  "prefix_decode_tail bound limit v shift buf = Inr (w, rest)
   \<Longrightarrow> prefix_decode_tail bound limit v shift (buf @ xs) = Inr (w, rest @ xs)"
  by (induction bound limit v shift buf rule: prefix_decode_tail.induct) (auto split: option.splits if_splits)

lemma prefix_decode_more:
  "prefix_decode bound limit p buf = Inr (w, rest) \<Longrightarrow> prefix_decode bound limit p (buf @ xs) = Inr (w, rest @ xs)"
  using prefix_decode_tail_more by (cases buf) (auto simp: Let_def split: if_splits)

text \<open>The value read fits the continuation bytes allowed.\<close>

lemma low7: "unat (b AND 0x7f) = unat b mod 128" "b AND 0x80 = 0 \<longleftrightarrow> unat b < 128" for b :: byte
proof -
  show "unat (b AND 0x7f) = unat b mod 128"
    using mask_and_mod [of "unat b" 7] by (simp add: unat_and_mask)
  have "b AND 0x80 = 0 \<longleftrightarrow> unat b AND 2 ^ 7 = 0"
    using unat_and_mask [of b "0x80"] by (simp add: unat_eq_zero [symmetric])
  also have "\<dots> \<longleftrightarrow> even (unat b div 128)"
    using and_exp_eq_0_iff_not_bit [of "unat b" 7] by (simp add: bit_iff_odd)
  also have "\<dots> \<longleftrightarrow> unat b < 128"
  proof -
    have "unat b div 128 = (if unat b < 128 then 0 else 1)"
      using unat_byte_lt [of b] by (auto intro!: div_nat_eqI)
    then show ?thesis by simp
  qed
  finally show "b AND 0x80 = 0 \<longleftrightarrow> unat b < 128" .
qed

lemma prefix_decode_tail_bound:
  "prefix_decode_tail bound limit v shift buf = Inr (w, rest) \<Longrightarrow> shift \<le> limit
   \<Longrightarrow> w < bound \<and> w + 2 ^ shift \<le> v + 2 ^ (limit + 7)"
proof (induction bound limit v shift buf rule: prefix_decode_tail.induct)
  case (2 bound limit v shift b buf)
  let ?v = "v + unat b mod 128 * 2 ^ shift"
  have d: "?v + 2 ^ shift \<le> v + 2 ^ (shift + 7)"
    using mult_right_mono [of "unat b mod 128 + 1" 128 "2 ^ shift :: nat"] by (simp add: power_add algebra_simps)
  have add: "checked_add bound v (push_bit shift (unat (b AND 0x7f))) = Some ?v" "?v < bound"
    using "2.prems"(1) by (auto simp: low7 push_bit_eq_mult split: option.splits)
  show ?case
  proof (cases "b AND 0x80 = 0")
    case True
    then have "w = ?v" using "2.prems"(1) add by (simp split: option.splits)
    moreover have "(2 :: nat) ^ (shift + 7) \<le> 2 ^ (limit + 7)" using "2.prems"(2) by (intro power_increasing) simp_all
    ultimately show ?thesis using d add(2) by linarith
  next
    case False
    then have more: "shift + 7 \<le> limit" "prefix_decode_tail bound limit ?v (shift + 7) buf = Inr (w, rest)"
      using "2.prems"(1) add by (auto split: option.splits if_splits)
    then have "w < bound \<and> w + 2 ^ (shift + 7) \<le> ?v + 2 ^ (limit + 7)"
      using "2.IH" [OF add(1) False] by simp
    then show ?thesis using d by linarith
  qed
qed simp

text \<open>The encoder's bytes decode to the value, when it is within what the decoder accepts.\<close>

lemma prefix_tail_decodes:
  assumes "v + u * 2 ^ shift < bound" "u < 2 ^ (7 * k + 7)" "limit = shift + 7 * k"
  shows "prefix_decode_tail bound limit v shift (prefix_tail u @ rest) = Inr (v + u * 2 ^ shift, rest)"
  using assms
proof (induction k arbitrary: v u shift)
  case 0
  have "prefix_tail u = [word_of_nat u]" "unat (word_of_nat u :: byte) = u"
    using 0 by (simp_all add: prefix_tail.simps unat_word_of_nat_byte)
  then show ?case using 0 by (simp add: low7 push_bit_eq_mult checked_add_def)
next
  case (Suc k)
  show ?case
  proof (cases "u < 128")
    case True
    have "prefix_tail u = [word_of_nat u]" "unat (word_of_nat u :: byte) = u"
      using True by (simp_all add: prefix_tail.simps unat_word_of_nat_byte)
    then show ?thesis using Suc.prems True by (simp add: low7 push_bit_eq_mult checked_add_def)
  next
    case False
    let ?b = "word_of_nat (u mod 128 + 128) :: byte"
    have b: "unat ?b = u mod 128 + 128" using unat_word_of_nat_byte [of "u mod 128 + 128"] mod_less_divisor [of 128 u] by simp
    have split: "v + u mod 128 * 2 ^ shift + u div 128 * 2 ^ (shift + 7) = v + u * 2 ^ shift"
    proof -
      obtain q r where u: "u div 128 = q" "u mod 128 = r" "u = q * 128 + r"
        using div_mult_mod_eq [of u 128] by metis
      show ?thesis unfolding u(1,2) by (subst u(3)) (simp add: power_add algebra_simps)
    qed
    have "u div 128 < 2 ^ (7 * k + 7)"
      using Suc.prems(2) less_mult_imp_div_less [of u "2 ^ (7 * k + 7)" 128] by (simp add: power_add)
    then have "prefix_decode_tail bound limit (v + u mod 128 * 2 ^ shift) (shift + 7) (prefix_tail (u div 128) @ rest)
        = Inr (v + u * 2 ^ shift, rest)"
      using Suc.IH [of "v + u mod 128 * 2 ^ shift" "u div 128" "shift + 7"] Suc.prems split by simp
    moreover have "v + u mod 128 * 2 ^ shift < bound" using Suc.prems(1) split by linarith
    ultimately show ?thesis using False Suc.prems(3) b
      by (subst prefix_tail.simps) (simp add: low7 push_bit_eq_mult checked_add_def)
  qed
qed


lemma prefix_decode_Cons:
  "prefix_decode bound limit p (b # buf) =
     (if unat b mod 2 ^ p < 2 ^ p - 1 then Inr (unat b mod 2 ^ p, buf) else prefix_decode_tail bound limit (2 ^ p - 1) 0 buf)"
  by (simp only: prefix_decode.simps Let_def prefix_max mask_and_mod)

declare prefix_decode.simps(2) [simp del]

lemma prefix_first:
  fixes msk :: byte
  assumes "p \<le> 8" "2 ^ p dvd unat msk" "v < 2 ^ p"
  shows "unat (msk OR word_of_nat v) mod 2 ^ p = v"
proof -
  have "v < 256" using assms(1,3) power_increasing [of p 8 "2 :: nat"] by simp
  then have "unat (msk OR word_of_nat v) = unat msk OR v"
    by (simp add: unsigned_or_eq unat_word_of_nat_byte)
  moreover obtain q where "unat msk = push_bit p q" using assms(2) by (auto simp: push_bit_eq_mult mult.commute elim: dvdE)
  ultimately have "unat (msk OR word_of_nat v) = q * 2 ^ p + v" using push_bit_or_add [OF assms(3), of q] by simp
  then show ?thesis using assms(3) by simp
qed

lemma prefix_encode_decodes:
  assumes "p \<le> 8" "2 ^ p dvd unat msk" "v < bound" "v < 2 ^ p - 1 + 2 ^ (7 * k + 7)"
  shows "prefix_decode bound (7 * k) p (prefix_encode p msk v @ rest) = Inr (v, rest)"
proof (cases "v < 2 ^ p - 1")
  case True
  then have "unat (msk OR word_of_nat v) mod 2 ^ p = v" using assms by (intro prefix_first) simp_all
  then show ?thesis using True unfolding prefix_encode_def Let_def prefix_max by (simp add: prefix_decode_Cons)
next
  case False
  have "unat (msk OR word_of_nat (2 ^ p - 1)) mod 2 ^ p = 2 ^ p - 1" by (rule prefix_first [OF assms(1,2)]) simp
  moreover have "prefix_decode_tail bound (7 * k) (2 ^ p - 1) 0 (prefix_tail (v - (2 ^ p - 1)) @ rest)
      = Inr (2 ^ p - 1 + (v - (2 ^ p - 1)) * 2 ^ 0, rest)"
    by (rule prefix_tail_decodes) (use False assms in auto)
  ultimately show ?thesis using False
    unfolding prefix_encode_def Let_def prefix_max by (simp add: prefix_decode_Cons)
qed

lemma prefix_decode_bound:
  assumes "prefix_decode bound (7 * k) p buf = Inr (w, rest)" "2 ^ p \<le> bound"
  shows "w < bound" "w < 2 ^ p - 1 + 2 ^ (7 * k + 7)"
proof -
  have "w < bound \<and> w < 2 ^ p - 1 + 2 ^ (7 * k + 7)"
  proof (cases buf)
    case (Cons b bs)
    show ?thesis
    proof (cases "unat b mod 2 ^ p < 2 ^ p - 1")
      case True
      then have "w < 2 ^ p - 1" using assms(1) Cons by (simp add: prefix_decode_Cons)
      then show ?thesis using assms(2) by linarith
    next
      case False
      then have "prefix_decode_tail bound (7 * k) (2 ^ p - 1) 0 bs = Inr (w, rest)"
        using assms(1) Cons by (simp add: prefix_decode_Cons)
      from prefix_decode_tail_bound [OF this] show ?thesis by simp
    qed
  qed (use assms in simp)
  then show "w < bound" "w < 2 ^ p - 1 + 2 ^ (7 * k + 7)" by simp_all
qed

text \<open>The representation bits of the first byte are those of the mask.\<close>

lemma or_low_bit:
  assumes "v < 2 ^ n" "n < 8"
  shows "(msk OR word_of_nat v :: byte) AND 2 ^ n = msk AND 2 ^ n"
proof (rule bit_eqI)
  fix m
  have "\<not> bit v n" using assms(1) by (simp add: bit_iff_odd)
  then have "\<not> bit (word_of_nat v :: byte) n" by (simp add: bit_of_nat_iff)
  then show "bit ((msk OR word_of_nat v) AND 2 ^ n) m = bit (msk AND 2 ^ n) m"
    by (auto simp: bit_and_iff bit_or_iff bit_exp_iff)
qed

lemma prefix_encode_hd:
  assumes "p \<le> n" "n < 8"
  shows "hd (prefix_encode p msk v @ rest) AND 2 ^ n = msk AND 2 ^ n" "prefix_encode p msk v \<noteq> []"
proof -
  have "w < 2 ^ n" if "w \<le> 2 ^ p - 1" for w :: nat
    using that power_increasing [OF assms(1), of "2 :: nat"] zero_less_power [of "2 :: nat" p] by linarith
  then show "hd (prefix_encode p msk v @ rest) AND 2 ^ n = msk AND 2 ^ n"
    using or_low_bit [OF _ assms(2), of v msk] or_low_bit [OF _ assms(2), of "2 ^ p - 1" msk]
    unfolding prefix_encode_def Let_def prefix_max by (cases "v < 2 ^ p - 1") simp_all
  show "prefix_encode p msk v \<noteq> []" by (simp add: prefix_encode_def Let_def)
qed

lemma prefix_encode_small: "v < 2 ^ p - 1 \<Longrightarrow> prefix_encode p msk v = [msk OR word_of_nat v]"
  unfolding prefix_encode_def Let_def prefix_max by simp

text \<open>A prefixed integer under representation bits \<open>msk\<close> is a codec like the QUIC varint.\<close>

definition prefix_get :: "nat \<Rightarrow> nat \<Rightarrow> nat \<Rightarrow> bytes \<Rightarrow> (nat \<times> nat) option" where
  "prefix_get bound limit p buf =
     (case prefix_decode bound limit p buf of Inl _ \<Rightarrow> None | Inr (v, rest) \<Rightarrow> Some (v, length buf - length rest))"

lemma prefix_int_codec:
  assumes "p \<le> 8" "2 ^ p dvd unat msk" "2 ^ p \<le> bound"
  shows "int_codec (prefix_encode p msk) (prefix_get bound (7 * k) p) (min bound (2 ^ p - 1 + 2 ^ (7 * k + 7)))"
proof
  show "prefix_get bound (7 * k) p (prefix_encode p msk v @ rest) = Some (v, length (prefix_encode p msk v))"
    if "v < min bound (2 ^ p - 1 + 2 ^ (7 * k + 7))" for v rest
    using prefix_encode_decodes [OF assms(1,2)] that by (simp add: prefix_get_def)
  fix buf v n
  assume get: "prefix_get bound (7 * k) p buf = Some (v, n)"
  then obtain rest where d: "prefix_decode bound (7 * k) p buf = Inr (v, rest)" "n = length buf - length rest"
    by (auto simp: prefix_get_def split: sum.splits)
  show "0 < n" "n \<le> length buf" using d prefix_decode_shorter(1) [OF d(1)] by simp_all
  show "v < min bound (2 ^ p - 1 + 2 ^ (7 * k + 7))" using prefix_decode_bound [OF d(1) assms(3)] by simp
next
  show "prefix_get bound (7 * k) p buf = Some r \<Longrightarrow> prefix_get bound (7 * k) p (buf @ rest) = Some r" for buf r rest
    using prefix_decode_more [of bound "7 * k" p buf] by (auto simp: prefix_get_def split: sum.splits)
qed



end
