(* ===== verification/Hpack.thy ===== *)
theory Hpack
  imports Prefix_Int Status
begin

text \<open>
  HPACK, cut down to what the HTTP/2 client needs (\<open>src/http2/hpack.rs\<close>): the request block, encoded once with
  static references and literals only, and \<open>find_status\<close>, which walks a response block without decoding fields.
  A buffer with a position is the rest of the buffer; text is its bytes.
\<close>

section \<open>Encoding a request\<close>

definition hpack_encode_int :: "nat \<Rightarrow> byte \<Rightarrow> nat \<Rightarrow> bytes" where
  "hpack_encode_int prefix_bits msk v = prefix_encode prefix_bits msk v"

definition hpack_encode_str :: "bytes \<Rightarrow> bytes" where
  "hpack_encode_str s = hpack_encode_int 7 0x00 (take_bit 32 (length s)) @ s"

definition hpack_literal_indexed_name :: "nat \<Rightarrow> bytes \<Rightarrow> bytes" where
  "hpack_literal_indexed_name name_index v = hpack_encode_int 4 0x00 name_index @ hpack_encode_str v"

definition hpack_size_update :: "nat \<Rightarrow> bytes" where
  "hpack_size_update sz = hpack_encode_int 5 0x20 sz"

definition hpack_literal :: "bytes \<Rightarrow> bytes \<Rightarrow> bytes" where
  "hpack_literal name v = 0x00 # hpack_encode_str name @ hpack_encode_str v"

definition static_name_table :: "(string \<times> nat) list" where
  "static_name_table =
    [('':authority'', 1), ('':method'', 2), ('':path'', 4), ('':scheme'', 6), ('':status'', 8),
     (''accept-charset'', 15), (''accept-encoding'', 16), (''accept-language'', 17), (''accept-ranges'', 18),
     (''accept'', 19), (''access-control-allow-origin'', 20), (''age'', 21), (''allow'', 22),
     (''authorization'', 23), (''cache-control'', 24), (''content-disposition'', 25), (''content-encoding'', 26),
     (''content-language'', 27), (''content-length'', 28), (''content-location'', 29), (''content-range'', 30),
     (''content-type'', 31), (''cookie'', 32), (''date'', 33), (''etag'', 34), (''expect'', 35), (''expires'', 36),
     (''from'', 37), (''host'', 38), (''if-match'', 39), (''if-modified-since'', 40), (''if-none-match'', 41),
     (''if-range'', 42), (''if-unmodified-since'', 43), (''last-modified'', 44), (''link'', 45), (''location'', 46),
     (''max-forwards'', 47), (''proxy-authenticate'', 48), (''proxy-authorization'', 49), (''range'', 50),
     (''referer'', 51), (''refresh'', 52), (''retry-after'', 53), (''server'', 54), (''set-cookie'', 55),
     (''strict-transport-security'', 56), (''transfer-encoding'', 57), (''user-agent'', 58), (''vary'', 59),
     (''via'', 60), (''www-authenticate'', 61)]"

definition static_name_index :: "bytes \<Rightarrow> nat option" where
  "static_name_index name = map_of (map (\<lambda>(s, i). (ascii s, i)) static_name_table) name"

definition hpack_header :: "bytes \<times> bytes \<Rightarrow> bytes" where
  "hpack_header nv =
     (case static_name_index (fst nv) of
        Some index \<Rightarrow> hpack_literal_indexed_name index (snd nv)
      | None \<Rightarrow> hpack_literal (fst nv) (snd nv))"

definition hpack_encode_request ::
  "bytes \<Rightarrow> bytes \<Rightarrow> bytes \<Rightarrow> bytes \<Rightarrow> (bytes \<times> bytes) list \<Rightarrow> nat \<Rightarrow> bytes" where
  "hpack_encode_request meth scheme authority path headers body_len =
     (if meth = ascii ''GET'' then [0x82] else if meth = ascii ''POST'' then [0x83]
      else hpack_literal_indexed_name 2 meth)
   @ (if scheme = ascii ''http'' then [0x86] else if scheme = ascii ''https'' then [0x87]
      else hpack_literal_indexed_name 6 scheme)
   @ hpack_literal_indexed_name 1 authority
   @ (if path = ascii ''/'' then [0x84] else hpack_literal_indexed_name 4 path)
   @ concat (map hpack_header headers)
   @ (if body_len > 0 then hpack_literal_indexed_name 28 (decimal body_len) else [])"

section \<open>Finding the status\<close>

datatype hpack_error =
  Hpack_short | Hpack_int_overflow | Hpack_int_too_long | Hpack_index_0 | Hpack_dynamic | Hpack_status status_error

fun hpack_int_error :: "int_error \<Rightarrow> hpack_error" where
  "hpack_int_error Int_truncated = Hpack_short"
| "hpack_int_error Int_overflow = Hpack_int_overflow"
| "hpack_int_error Int_too_long = Hpack_int_too_long"

definition hpack_decode_int :: "nat \<Rightarrow> bytes \<Rightarrow> (hpack_error, nat \<times> bytes) result" where
  "hpack_decode_int prefix_bits buf = map_sum hpack_int_error (\<lambda>x. x) (prefix_decode u32_bound 21 prefix_bits buf)"

definition hpack_read_str :: "bytes \<Rightarrow> (hpack_error, bytes \<times> bool \<times> bytes) result" where
  "hpack_read_str buf =
     (case buf of
        [] \<Rightarrow> Inl Hpack_short
      | b # _ \<Rightarrow>
          rbind (hpack_decode_int 7 buf) (\<lambda>(len, rest).
            if len \<le> length rest then Inr (take len rest, b AND 0x80 \<noteq> 0, drop len rest) else Inl Hpack_short))"

definition STATUS_BY_INDEX :: "nat list" where
  "STATUS_BY_INDEX = [200, 204, 206, 304, 400, 404, 500]"

definition hpack_status_name :: "bytes \<Rightarrow> bool \<Rightarrow> bool" where
  "hpack_status_name name huffman =
     (if huffman then name = [0xb8, 0x84, 0x8d, 0x36, 0xa3] else name = ascii '':status'')"

text \<open>
  One turn of the loop: the status and the end of the search, or the rest of the block. A literal's name is
  either in the static table or spelled out.
\<close>

definition hpack_name :: "nat \<Rightarrow> bytes \<Rightarrow> (hpack_error, bool \<times> bytes) result" where
  "hpack_name name_index buf =
     (if name_index = 0 then
        rbind (hpack_read_str buf) (\<lambda>(name, huffman, rest). Inr (hpack_status_name name huffman, rest))
      else if name_index > 61 then Inl Hpack_dynamic
      else Inr (8 \<le> name_index \<and> name_index \<le> 14, buf))"

definition hpack_literal_field :: "nat \<Rightarrow> bytes \<Rightarrow> (hpack_error, nat option \<times> bytes) result" where
  "hpack_literal_field prefix_bits buf =
     rbind (hpack_decode_int prefix_bits buf) (\<lambda>(name_index, buf).
     rbind (hpack_name name_index buf) (\<lambda>(named_status, buf).
     rbind (hpack_read_str buf) (\<lambda>(v, huffman, buf).
       if named_status then map_sum Hpack_status (\<lambda>st. (Some st, buf)) (status_value v huffman)
       else Inr (None, buf))))"

definition hpack_field :: "bytes \<Rightarrow> (hpack_error, nat option \<times> bytes) result" where
  "hpack_field buf =
     (let first = hd buf in
      if first AND 0x80 \<noteq> 0 then
        rbind (hpack_decode_int 7 buf) (\<lambda>(index, buf).
          if 8 \<le> index \<and> index \<le> 14 then Inr (Some (STATUS_BY_INDEX ! (index - 8)), buf)
          else if index = 0 then Inl Hpack_index_0
          else if index > 61 then Inl Hpack_dynamic
          else Inr (None, buf))
      else if first AND 0x40 \<noteq> 0 then hpack_literal_field 6 buf
      else if first AND 0x20 \<noteq> 0 then rbind (hpack_decode_int 5 buf) (\<lambda>(_, buf). Inr (None, buf))
      else hpack_literal_field 4 buf)"

lemma hpack_decode_int_shorter: "hpack_decode_int p buf = Inr (v, rest) \<Longrightarrow> length rest < length buf"
  by (auto simp: hpack_decode_int_def dest: prefix_decode_shorter(1))

lemma hpack_read_str_shorter: "hpack_read_str buf = Inr (s, h, rest) \<Longrightarrow> length rest < length buf"
  by (auto simp: hpack_read_str_def dest!: hpack_decode_int_shorter split: list.splits if_splits)

lemma hpack_literal_field_shorter: "hpack_literal_field p buf = Inr (st, rest) \<Longrightarrow> length rest < length buf"
  by (auto simp: hpack_literal_field_def hpack_name_def
      dest!: hpack_decode_int_shorter hpack_read_str_shorter split: if_splits)

lemma hpack_field_shorter: "hpack_field buf = Inr (st, rest) \<Longrightarrow> length rest < length buf"
  by (auto simp: hpack_field_def Let_def dest!: hpack_decode_int_shorter hpack_literal_field_shorter split: if_splits)

function hpack_find_status :: "bytes \<Rightarrow> (hpack_error, nat option) result" where
  "hpack_find_status block =
     (if block = [] then Inr None
      else case hpack_field block of
        Inl e \<Rightarrow> Inl e
      | Inr (Some st, _) \<Rightarrow> Inr (Some st)
      | Inr (None, rest) \<Rightarrow> hpack_find_status rest)"
  by pat_completeness auto
termination by (relation "measure length") (auto dest: hpack_field_shorter)

declare hpack_find_status.simps [simp del]


section \<open>Field representations\<close>

text \<open>
  The representations of RFC 7541, Section 6, as data: what a peer may put in a block. A string is its octets and
  whether they are Huffman coded.
\<close>

datatype field_kind = Incremental | Without_indexing | Never_indexed
datatype field_name = Static nat | Spelled bool bytes
datatype field_repr = Indexed nat | Literal field_kind field_name bool bytes | Size_update nat

fun kind_prefix :: "field_kind \<Rightarrow> nat \<times> byte" where
  "kind_prefix Incremental = (6, 0x40)"
| "kind_prefix Without_indexing = (4, 0x00)"
| "kind_prefix Never_indexed = (4, 0x10)"

definition str_repr :: "bool \<Rightarrow> bytes \<Rightarrow> bytes" where
  "str_repr h s = prefix_encode 7 (if h then 0x80 else 0) (length s) @ s"

fun name_repr :: "field_kind \<Rightarrow> field_name \<Rightarrow> bytes" where
  "name_repr k (Static i) = (case kind_prefix k of (p, msk) \<Rightarrow> prefix_encode p msk i)"
| "name_repr k (Spelled h s) = (case kind_prefix k of (p, msk) \<Rightarrow> prefix_encode p msk 0) @ str_repr h s"

fun repr_bytes :: "field_repr \<Rightarrow> bytes" where
  "repr_bytes (Indexed i) = prefix_encode 7 0x80 i"
| "repr_bytes (Literal k n h v) = name_repr k n @ str_repr h v"
| "repr_bytes (Size_update n) = prefix_encode 5 0x20 n"

fun name_ok :: "field_name \<Rightarrow> bool" where
  "name_ok (Static i) = (1 \<le> i \<and> i \<le> 61)"
| "name_ok (Spelled h s) = (length s < 2 ^ 28)"

fun repr_ok :: "field_repr \<Rightarrow> bool" where
  "repr_ok (Indexed i) = (1 \<le> i \<and> i \<le> 61)"
| "repr_ok (Literal k n h v) = (name_ok n \<and> length v < 2 ^ 28)"
| "repr_ok (Size_update n) = (n < 2 ^ 28)"

text \<open>What a field says about the status.\<close>

fun name_is_status :: "field_name \<Rightarrow> bool" where
  "name_is_status (Static i) = (8 \<le> i \<and> i \<le> 14)"
| "name_is_status (Spelled h s) = hpack_status_name s h"

fun repr_status :: "field_repr \<Rightarrow> (hpack_error, nat) result option" where
  "repr_status (Indexed i) = (if 8 \<le> i \<and> i \<le> 14 then Some (Inr (STATUS_BY_INDEX ! (i - 8))) else None)"
| "repr_status (Literal k n h v) =
     (if name_is_status n then Some (map_sum Hpack_status (\<lambda>st. st) (status_value v h)) else None)"
| "repr_status (Size_update n) = None"

section \<open>Reading what was written\<close>

lemma hpack_int_read [simp]:
  assumes "p \<le> 8" "2 ^ p dvd unat msk" "v < 2 ^ 28"
  shows "hpack_decode_int p (prefix_encode p msk v @ rest) = Inr (v, rest)"
proof -
  have "v < 2 ^ p - 1 + 2 ^ (7 * 3 + 7)"
    using trans_less_add2 [OF assms(3), of "2 ^ p - 1"] by simp
  from prefix_encode_decodes [OF assms(1,2) _ this, of u32_bound rest] show ?thesis
    using assms(3) by (simp add: hpack_decode_int_def)
qed

lemma str_repr_read [simp]:
  assumes "length s < 2 ^ 28"
  shows "hpack_read_str (str_repr h s @ rest) = Inr (s, h, rest)"
proof -
  let ?msk = "if h then 0x80 else 0 :: byte"
  obtain b bs where b: "prefix_encode 7 ?msk (length s) = b # bs"
    using prefix_encode_hd(2) [of 7 7 ?msk] by (cases "prefix_encode 7 ?msk (length s)") auto
  have "b AND 0x80 = ?msk AND 0x80" using prefix_encode_hd(1) [of 7 7 ?msk "length s" "[]"] b by simp
  moreover have "hpack_decode_int 7 (prefix_encode 7 ?msk (length s) @ s @ rest) = Inr (length s, s @ rest)"
    using assms by (intro hpack_int_read) auto
  ultimately show ?thesis
    by (simp add: hpack_read_str_def str_repr_def b split: if_splits)
qed

lemma name_read:
  assumes "name_ok n" "kind_prefix k = (p, msk)"
  shows "rbind (hpack_decode_int p (name_repr k n @ rest)) (\<lambda>(i, buf). hpack_name i buf)
      = Inr (name_is_status n, rest)"
proof -
  have "p \<le> 8" "2 ^ p dvd unat msk" using assms(2) by (cases k; auto)+
  then show ?thesis using assms by (cases n) (auto simp: hpack_name_def)
qed

lemma literal_read:
  assumes "repr_ok (Literal k n h v)" "kind_prefix k = (p, msk)"
  shows "hpack_literal_field p (repr_bytes (Literal k n h v) @ rest)
      = (if name_is_status n then map_sum Hpack_status (\<lambda>st. (Some st, rest)) (status_value v h) else Inr (None, rest))"
proof -
  have "\<exists>i buf. hpack_decode_int p (name_repr k n @ str_repr h v @ rest) = Inr (i, buf)
      \<and> hpack_name i buf = Inr (name_is_status n, str_repr h v @ rest)"
    using name_read [of n k p msk "str_repr h v @ rest"] assms by auto
  then show ?thesis using assms(1) by (auto simp: hpack_literal_field_def)
qed

lemma literal_hd:
  assumes "kind_prefix k = (p, msk)" "p \<le> n" "n < 8"
  shows "hd (repr_bytes (Literal k nm h v) @ rest) AND 2 ^ n = msk AND 2 ^ n" "repr_bytes (Literal k nm h v) \<noteq> []"
  using prefix_encode_hd [OF assms(2,3), of msk] assms(1) by (cases nm; simp)+

lemma field_read:
  assumes "repr_ok f"
  shows "hpack_field (repr_bytes f @ rest)
      = (case repr_status f of None \<Rightarrow> Inr (None, rest) | Some r \<Rightarrow> map_sum (\<lambda>e. e) (\<lambda>st. (Some st, rest)) r)"
proof (cases f)
  case (Indexed i)
  then show ?thesis using assms prefix_encode_hd(1) [of 7 7 "0x80" i rest] by (auto simp: hpack_field_def Let_def)
next
  case (Size_update n)
  then show ?thesis
    using assms prefix_encode_hd(1) [of 5 7 "0x20" n rest] prefix_encode_hd(1) [of 5 6 "0x20" n rest]
      prefix_encode_hd(1) [of 5 5 "0x20" n rest] by (simp add: hpack_field_def Let_def)
next
  case (Literal k n h v)
  have "hpack_field (repr_bytes f @ rest) = hpack_literal_field (fst (kind_prefix k)) (repr_bytes f @ rest)"
    using literal_hd(1) [of k _ _ 7 n h v rest] literal_hd(1) [of k _ _ 6 n h v rest] literal_hd(1) [of k _ _ 5 n h v rest]
    unfolding Literal by (cases k) (simp_all add: hpack_field_def Let_def del: repr_bytes.simps)
  then show ?thesis using literal_read [of k n h v] assms Literal
    by (cases "kind_prefix k") (auto simp: map_sum.compositionality comp_def simp del: repr_bytes.simps)
qed


lemma repr_bytes_nonempty: "repr_bytes f \<noteq> []"
proof -
  have ne: "prefix_encode p msk v \<noteq> []" for p msk v by (simp add: prefix_encode_def Let_def)
  then have "name_repr k n \<noteq> []" for k n by (cases n) (auto split: prod.splits)
  with ne show ?thesis by (cases f) simp_all
qed

section \<open>A decoder for plain blocks\<close>

text \<open>
  What a peer makes of a block: the static table of RFC 7541, Appendix A, and a decoder that resolves each field
  to its name and value, for blocks with no dynamic table and no Huffman coding.
\<close>

definition static_names :: "string list" where
  "static_names =
    ['':authority'', '':method'', '':method'', '':path'', '':path'', '':scheme'', '':scheme'',
     '':status'', '':status'', '':status'', '':status'', '':status'', '':status'', '':status'',
     ''accept-charset'', ''accept-encoding'', ''accept-language'', ''accept-ranges'', ''accept'',
     ''access-control-allow-origin'', ''age'', ''allow'', ''authorization'', ''cache-control'',
     ''content-disposition'', ''content-encoding'', ''content-language'', ''content-length'', ''content-location'',
     ''content-range'', ''content-type'', ''cookie'', ''date'', ''etag'', ''expect'', ''expires'', ''from'', ''host'',
     ''if-match'', ''if-modified-since'', ''if-none-match'', ''if-range'', ''if-unmodified-since'',
     ''last-modified'', ''link'', ''location'', ''max-forwards'', ''proxy-authenticate'', ''proxy-authorization'',
     ''range'', ''referer'', ''refresh'', ''retry-after'', ''server'', ''set-cookie'', ''strict-transport-security'',
     ''transfer-encoding'', ''user-agent'', ''vary'', ''via'', ''www-authenticate'']"

definition static_values :: "(nat \<times> string) list" where
  "static_values =
    [(2, ''GET''), (3, ''POST''), (4, ''/''), (5, ''/index.html''), (6, ''http''), (7, ''https''), (8, ''200''), (9, ''204''),
     (10, ''206''), (11, ''304''), (12, ''400''), (13, ''404''), (14, ''500''), (16, ''gzip, deflate'')]"

definition static_name :: "nat \<Rightarrow> bytes" where
  "static_name i = ascii (static_names ! (i - 1))"

definition static_value :: "nat \<Rightarrow> bytes" where
  "static_value i = (case map_of static_values i of None \<Rightarrow> [] | Some v \<Rightarrow> ascii v)"

definition plain_str :: "bytes \<Rightarrow> (bytes \<times> bytes) option" where
  "plain_str buf = (case hpack_read_str buf of Inr (s, False, rest) \<Rightarrow> Some (s, rest) | _ \<Rightarrow> None)"

definition plain_name :: "nat \<Rightarrow> bytes \<Rightarrow> (bytes \<times> bytes) option" where
  "plain_name i buf = (if i = 0 then plain_str buf else if i \<le> 61 then Some (static_name i, buf) else None)"

definition plain_literal :: "nat \<Rightarrow> bytes \<Rightarrow> ((bytes \<times> bytes) option \<times> bytes) option" where
  "plain_literal p buf =
     (case hpack_decode_int p buf of
        Inl _ \<Rightarrow> None
      | Inr (i, buf) \<Rightarrow>
          Option.bind (plain_name i buf) (\<lambda>(name, buf).
          Option.bind (plain_str buf) (\<lambda>(v, buf). Some (Some (name, v), buf))))"

definition plain_field :: "bytes \<Rightarrow> ((bytes \<times> bytes) option \<times> bytes) option" where
  "plain_field buf =
     (if hd buf AND 0x80 \<noteq> 0 then
        (case hpack_decode_int 7 buf of
           Inl _ \<Rightarrow> None
         | Inr (i, buf) \<Rightarrow> if 1 \<le> i \<and> i \<le> 61 then Some (Some (static_name i, static_value i), buf) else None)
      else if hd buf AND 0x40 \<noteq> 0 then plain_literal 6 buf
      else if hd buf AND 0x20 \<noteq> 0 then
        (case hpack_decode_int 5 buf of Inl _ \<Rightarrow> None | Inr (_, buf) \<Rightarrow> Some (None, buf))
      else plain_literal 4 buf)"

lemma plain_str_Some: "plain_str buf = Some (s, rest) \<longleftrightarrow> hpack_read_str buf = Inr (s, False, rest)"
  by (auto simp: plain_str_def split: sum.splits bool.splits)

lemma plain_literal_shorter: "plain_literal p buf = Some (f, rest) \<Longrightarrow> length rest < length buf"
  by (auto simp: plain_literal_def plain_name_def plain_str_Some bind_eq_Some_conv
      dest!: hpack_decode_int_shorter hpack_read_str_shorter split: sum.splits if_splits)

lemma plain_field_shorter: "plain_field buf = Some (f, rest) \<Longrightarrow> length rest < length buf"
  by (auto simp: plain_field_def dest!: hpack_decode_int_shorter plain_literal_shorter split: sum.splits if_splits)

function plain_fields :: "bytes \<Rightarrow> (bytes \<times> bytes) list option" where
  "plain_fields buf =
     (if buf = [] then Some []
      else case plain_field buf of
        None \<Rightarrow> None
      | Some (None, rest) \<Rightarrow> plain_fields rest
      | Some (Some f, rest) \<Rightarrow> map_option ((#) f) (plain_fields rest))"
  by pat_completeness auto
termination by (relation "measure length") (auto dest: plain_field_shorter)

declare plain_fields.simps [simp del]

text \<open>The field a representation without Huffman coding stands for.\<close>

fun plain_repr :: "field_repr \<Rightarrow> (bytes \<times> bytes) option" where
  "plain_repr (Indexed i) = Some (static_name i, static_value i)"
| "plain_repr (Literal k (Static i) h v) = Some (static_name i, v)"
| "plain_repr (Literal k (Spelled h' s) h v) = Some (s, v)"
| "plain_repr (Size_update n) = None"

fun repr_plain :: "field_repr \<Rightarrow> bool" where
  "repr_plain (Literal k (Static i) h v) = (\<not> h)"
| "repr_plain (Literal k (Spelled h' s) h v) = (\<not> h' \<and> \<not> h)"
| "repr_plain _ = True"

lemma plain_literal_read:
  assumes "repr_ok (Literal k n h v)" "repr_plain (Literal k n h v)" "kind_prefix k = (p, msk)"
  shows "plain_literal p (repr_bytes (Literal k n h v) @ rest) = Some (plain_repr (Literal k n h v), rest)"
proof -
  have "p \<le> 8" "2 ^ p dvd unat msk" using assms(3) by (cases k; auto)+
  then show ?thesis using assms
    by (cases n) (auto simp: plain_literal_def plain_name_def plain_str_def)
qed

lemma plain_field_read:
  assumes "repr_ok f" "repr_plain f"
  shows "plain_field (repr_bytes f @ rest) = Some (plain_repr f, rest)"
proof (cases f)
  case (Indexed i)
  then show ?thesis using assms prefix_encode_hd(1) [of 7 7 "0x80" i rest] by (auto simp: plain_field_def)
next
  case (Size_update n)
  then show ?thesis
    using assms prefix_encode_hd(1) [of 5 7 "0x20" n rest] prefix_encode_hd(1) [of 5 6 "0x20" n rest]
      prefix_encode_hd(1) [of 5 5 "0x20" n rest] by (simp add: plain_field_def)
next
  case (Literal k n h v)
  have "plain_field (repr_bytes f @ rest) = plain_literal (fst (kind_prefix k)) (repr_bytes f @ rest)"
    using literal_hd(1) [of k _ _ 7 n h v rest] literal_hd(1) [of k _ _ 6 n h v rest] literal_hd(1) [of k _ _ 5 n h v rest]
    unfolding Literal by (cases k) (simp_all add: plain_field_def del: repr_bytes.simps)
  then show ?thesis using plain_literal_read [of k n h v] assms Literal
    by (cases "kind_prefix k") (simp del: repr_bytes.simps)
qed

lemma plain_fields_read:
  "list_all repr_ok fs \<Longrightarrow> list_all repr_plain fs
   \<Longrightarrow> plain_fields (concat (map repr_bytes fs)) = Some (List.map_filter plain_repr fs)"
proof (induction fs)
  case Nil
  then show ?case by (simp add: plain_fields.simps List.map_filter_def)
next
  case (Cons f fs)
  then show ?case
    using plain_field_read [of f "concat (map repr_bytes fs)"] repr_bytes_nonempty [of f]
    by (subst plain_fields.simps) (auto simp: List.map_filter_def split: option.splits)
qed


section \<open>The request block\<close>

lemma str_repr_plain: "length s < 2 ^ 28 \<Longrightarrow> hpack_encode_str s = str_repr False s"
  by (simp add: hpack_encode_str_def hpack_encode_int_def str_repr_def take_bit_nat_eq_self)

lemma literal_indexed_name_repr:
  "length v < 2 ^ 28 \<Longrightarrow> hpack_literal_indexed_name i v = repr_bytes (Literal Without_indexing (Static i) False v)"
  by (simp add: hpack_literal_indexed_name_def str_repr_plain hpack_encode_int_def)

lemma literal_repr:
  assumes "length n < 2 ^ 28" "length v < 2 ^ 28"
  shows "hpack_literal n v = repr_bytes (Literal Without_indexing (Spelled False n) False v)"
  using assms prefix_encode_small [of 0 4 0] by (simp add: hpack_literal_def str_repr_plain)

definition header_repr :: "bytes \<times> bytes \<Rightarrow> field_repr" where
  "header_repr nv =
     Literal Without_indexing (case static_name_index (fst nv) of Some i \<Rightarrow> Static i | None \<Rightarrow> Spelled False (fst nv)) False (snd nv)"

lemma static_name_index_Some:
  assumes "static_name_index name = Some i"
  shows "1 \<le> i" "i \<le> 61" "static_name i = name"
proof -
  have "list_all (\<lambda>(s, i). 1 \<le> i \<and> i \<le> 61 \<and> static_names ! (i - 1) = s) static_name_table" by code_simp
  moreover obtain s where "(s, i) \<in> set static_name_table" "name = ascii s"
    using map_of_SomeD [OF assms [unfolded static_name_index_def]] by auto
  ultimately show "1 \<le> i" "i \<le> 61" "static_name i = name" by (auto simp: list_all_iff static_name_def)
qed

definition small_field :: "bytes \<times> bytes \<Rightarrow> bool" where
  "small_field nv \<longleftrightarrow> length (fst nv) < 2 ^ 28 \<and> length (snd nv) < 2 ^ 28"

lemma hpack_header_repr:
  assumes "small_field nv"
  shows "hpack_header nv = repr_bytes (header_repr nv)" "repr_ok (header_repr nv)" "repr_plain (header_repr nv)"
    "plain_repr (header_repr nv) = Some nv"
  using assms static_name_index_Some [of "fst nv"] literal_indexed_name_repr literal_repr
  by (cases "static_name_index (fst nv)";
      simp add: hpack_header_def header_repr_def small_field_def del: repr_bytes.simps)+

text \<open>A pseudo-header: one of the listed values has a static entry of its own, any other is a literal.\<close>

definition pseudo_repr :: "(string \<times> nat) list \<Rightarrow> nat \<Rightarrow> bytes \<Rightarrow> field_repr" where
  "pseudo_repr table i v =
     (case List.find (\<lambda>(s, _). v = ascii s) table of
        Some (_, j) \<Rightarrow> Indexed j
      | None \<Rightarrow> Literal Without_indexing (Static i) False v)"

definition request_reprs :: "bytes \<Rightarrow> bytes \<Rightarrow> bytes \<Rightarrow> bytes \<Rightarrow> (bytes \<times> bytes) list \<Rightarrow> nat \<Rightarrow> field_repr list" where
  "request_reprs meth scheme authority path headers body_len =
     [pseudo_repr [(''GET'', 2), (''POST'', 3)] 2 meth, pseudo_repr [(''http'', 6), (''https'', 7)] 6 scheme,
      pseudo_repr [] 1 authority, pseudo_repr [(''/'', 4)] 4 path]
     @ map header_repr headers
     @ (if body_len > 0 then [pseudo_repr [] 28 (decimal body_len)] else [])"

lemma indexed_byte: "i < 127 \<Longrightarrow> repr_bytes (Indexed i) = [0x80 OR word_of_nat i]"
  by (simp add: prefix_encode_small)

lemma pseudo_repr_ok:
  assumes "1 \<le> i" "i \<le> 61" "length v < 2 ^ 28"
    "list_all (\<lambda>(s, j). 1 \<le> j \<and> j \<le> 61 \<and> static_name j = static_name i \<and> static_value j = ascii s) table"
  shows "repr_ok (pseudo_repr table i v)" "repr_plain (pseudo_repr table i v)"
    "plain_repr (pseudo_repr table i v) = Some (static_name i, v)"
  using assms
  by (auto simp: pseudo_repr_def list_all_iff find_Some_iff split: option.splits; force simp: in_set_conv_nth)+

lemma static_names_used [simp]:
  "static_name (Suc 0) = ascii '':authority''" "static_name 2 = ascii '':method''" "static_name 3 = ascii '':method''"
  "static_name 4 = ascii '':path''" "static_name 6 = ascii '':scheme''" "static_name 7 = ascii '':scheme''"
  "static_name 28 = ascii ''content-length''"
  by (simp_all add: static_name_def static_names_def)

lemma static_values_used [simp]:
  "static_value 2 = ascii ''GET''" "static_value 3 = ascii ''POST''" "static_value 4 = ascii ''/''"
  "static_value 6 = ascii ''http''" "static_value 7 = ascii ''https''"
  by (simp_all add: static_value_def static_values_def)


lemma encode_request_repr:
  assumes "list_all (\<lambda>s. length s < 2 ^ 28) [meth, scheme, authority, path]" "list_all small_field headers" "body_len < u64_bound"
  shows "hpack_encode_request meth scheme authority path headers body_len
      = concat (map repr_bytes (request_reprs meth scheme authority path headers body_len))"
proof -
  have pseudo: "repr_bytes (pseudo_repr table i v)
      = (case List.find (\<lambda>(s, _). v = ascii s) table of Some (_, j) \<Rightarrow> repr_bytes (Indexed j) | None \<Rightarrow> hpack_literal_indexed_name i v)"
    if "length v < 2 ^ 28" for table i v
    using literal_indexed_name_repr [OF that] by (auto simp: pseudo_repr_def simp del: repr_bytes.simps split: option.splits)
  have "concat (map hpack_header headers) = concat (map (repr_bytes \<circ> header_repr) headers)"
    using assms(2) hpack_header_repr(1) by (intro arg_cong [of _ _ concat]) (auto simp: list_all_iff)
  moreover have "length (decimal body_len) < 2 ^ 28"
    using length_decimal_u64 [OF assms(3)] by (rule le_less_trans) simp
  ultimately show ?thesis using assms(1)
    by (simp add: hpack_encode_request_def request_reprs_def pseudo indexed_byte comp_def del: repr_bytes.simps)
qed

lemma request_reprs_ok:
  assumes "list_all (\<lambda>s. length s < 2 ^ 28) [meth, scheme, authority, path]" "list_all small_field headers" "body_len < u64_bound"
  shows "list_all repr_ok (request_reprs meth scheme authority path headers body_len)"
    "list_all repr_plain (request_reprs meth scheme authority path headers body_len)"
proof -
  have "length (decimal body_len) < 2 ^ 28"
    using length_decimal_u64 [OF assms(3)] by (rule le_less_trans) simp
  then show "list_all repr_ok (request_reprs meth scheme authority path headers body_len)"
    "list_all repr_plain (request_reprs meth scheme authority path headers body_len)"
    using assms(1,2) hpack_header_repr(2,3) by (auto simp: request_reprs_def pseudo_repr_ok list_all_iff)
qed

lemma request_reprs_plain:
  assumes "list_all (\<lambda>s. length s < 2 ^ 28) [meth, scheme, authority, path]" "list_all small_field headers" "body_len < u64_bound"
  shows "List.map_filter plain_repr (request_reprs meth scheme authority path headers body_len)
    = [(ascii '':method'', meth), (ascii '':scheme'', scheme), (ascii '':authority'', authority), (ascii '':path'', path)]
      @ headers @ (if body_len > 0 then [(ascii ''content-length'', decimal body_len)] else [])"
proof -
  have "length (decimal body_len) < 2 ^ 28"
    using length_decimal_u64 [OF assms(3)] by (rule le_less_trans) simp
  moreover have "List.map_filter plain_repr (map header_repr headers) = headers"
    using assms(2) hpack_header_repr(4) by (induction headers) (auto simp: List.map_filter_def)
  ultimately show ?thesis using assms(1)
    by (simp add: request_reprs_def List.map_filter_def pseudo_repr_ok(3))
qed

section \<open>Properties\<close>

text \<open>
  C37. Over any response block made of well-formed representations (indexed fields of the static table, literals
  of every kind with plain or Huffman strings, and size updates), \<open>find_status\<close> returns what the first
  \<open>:status\<close> field says, however it is represented and whatever precedes it; a block without one, such as a
  trailer section, gives no status and no error.
\<close>

theorem hpack_find_status_correct:
  assumes "list_all repr_ok fs"
  shows "hpack_find_status (concat (map repr_bytes fs))
    = (case List.map_filter repr_status fs of [] \<Rightarrow> Inr None | r # _ \<Rightarrow> map_sum (\<lambda>e. e) Some r)"
  using assms
proof (induction fs)
  case Nil
  then show ?case by (simp add: hpack_find_status.simps List.map_filter_def)
next
  case (Cons f fs)
  then show ?case
    using field_read [of f "concat (map repr_bytes fs)"] repr_bytes_nonempty [of f]
    by (subst hpack_find_status.simps) (cases "repr_status f"; auto simp: List.map_filter_def map_sum_eq_Inl split: sum.split)
qed

theorem hpack_find_status_correct_witness:
  "let fs = [Size_update 0, Literal Incremental (Static 31) False (ascii ''text/html''), Literal Never_indexed (Static 8) False (ascii ''503'')] in
   list_all repr_ok fs \<and> hpack_find_status (concat (map repr_bytes fs)) = Inr (Some 503)"
proof -
  let ?fs = "[Size_update 0, Literal Incremental (Static 31) False (ascii ''text/html''), Literal Never_indexed (Static 8) False (ascii ''503'')]"
  have "list_all repr_ok ?fs" by (simp add: ascii_def)
  moreover have "status_value (ascii ''503'') False = Inr 503" by code_simp
  ultimately show ?thesis using hpack_find_status_correct [of ?fs] by (simp add: List.map_filter_def)
qed

text \<open>
  The request block decodes, for a peer with an empty dynamic table, to exactly the request: the four
  pseudo-headers first, with the method, scheme, authority and path given, then the headers in order with their
  values untouched even where the static table has a value of its own for the name, then \<open>content-length\<close> when
  there is a body. Strings are below 2^28 bytes, which is what the integer decoder accepts.
\<close>

theorem hpack_request_round_trip:
  assumes "list_all (\<lambda>s. length s < 2 ^ 28) [meth, scheme, authority, path]" "list_all small_field headers" "body_len < u64_bound"
  shows "plain_fields (hpack_encode_request meth scheme authority path headers body_len)
    = Some ([(ascii '':method'', meth), (ascii '':scheme'', scheme), (ascii '':authority'', authority), (ascii '':path'', path)]
      @ headers @ (if body_len > 0 then [(ascii ''content-length'', decimal body_len)] else []))"
  using plain_fields_read [OF request_reprs_ok [OF assms]] request_reprs_plain [OF assms] encode_request_repr [OF assms] by simp

theorem hpack_request_round_trip_witness:
  "plain_fields (hpack_encode_request (ascii ''GET'') (ascii ''https'') (ascii ''localhost'') (ascii ''/a'')
     [(ascii ''accept-encoding'', ascii ''br''), (ascii ''x-a'', ascii ''1'')] 5)
   = Some [(ascii '':method'', ascii ''GET''), (ascii '':scheme'', ascii ''https''), (ascii '':authority'', ascii ''localhost''),
       (ascii '':path'', ascii ''/a''), (ascii ''accept-encoding'', ascii ''br''), (ascii ''x-a'', ascii ''1''),
       (ascii ''content-length'', ascii ''5'')]"
  using hpack_request_round_trip [of "ascii ''GET''" "ascii ''https''" "ascii ''localhost''" "ascii ''/a''"
      "[(ascii ''accept-encoding'', ascii ''br''), (ascii ''x-a'', ascii ''1'')]" 5]
  by (simp add: small_field_def ascii_def decimal.simps)



end
