(* ===== verification/Qpack.thy ===== *)
theory Qpack
  imports Prefix_Int Status
begin

text \<open>
  QPACK, cut down to what the HTTP/3 client needs (\<open>src/http3/qpack.rs\<close>): the request section, encoded once
  without a dynamic table, and \<open>find_status\<close> with its fast path. A buffer with a position is the rest of the
  buffer; text is its bytes.
\<close>

section \<open>Encoding a request\<close>

definition STATUS_ENTRIES :: "(nat \<times> nat) list" where
  "STATUS_ENTRIES =
    [(24, 103), (25, 200), (26, 304), (27, 404), (28, 503), (63, 100), (64, 204), (65, 206), (66, 302), (67, 400),
     (68, 403), (69, 421), (70, 425), (71, 500)]"

definition method_index :: "bytes \<Rightarrow> nat option" where
  "method_index meth = map_of
     [(ascii ''CONNECT'', 15), (ascii ''DELETE'', 16), (ascii ''GET'', 17), (ascii ''HEAD'', 18), (ascii ''OPTIONS'', 19),
      (ascii ''POST'', 20), (ascii ''PUT'', 21)] meth"

definition scheme_index :: "bytes \<Rightarrow> nat option" where
  "scheme_index scheme = map_of [(ascii ''http'', 22), (ascii ''https'', 23)] scheme"

definition qpack_encode_int :: "nat \<Rightarrow> byte \<Rightarrow> nat \<Rightarrow> bytes" where
  "qpack_encode_int prefix_bits msk v = prefix_encode prefix_bits msk v"

definition qpack_encode_str :: "nat \<Rightarrow> byte \<Rightarrow> bytes \<Rightarrow> bytes" where
  "qpack_encode_str prefix_bits msk s = qpack_encode_int prefix_bits msk (length s) @ s"

definition qpack_indexed :: "nat \<Rightarrow> bytes" where
  "qpack_indexed index = qpack_encode_int 6 0xc0 index"

definition qpack_literal_named :: "nat \<Rightarrow> bytes \<Rightarrow> bytes" where
  "qpack_literal_named name_index v = qpack_encode_int 4 0x50 name_index @ qpack_encode_str 7 0x00 v"

definition qpack_literal :: "bytes \<Rightarrow> bytes \<Rightarrow> bytes" where
  "qpack_literal name v = qpack_encode_str 3 0x20 name @ qpack_encode_str 7 0x00 v"

definition qpack_encode_request ::
  "bytes \<Rightarrow> bytes \<Rightarrow> bytes \<Rightarrow> bytes \<Rightarrow> (bytes \<times> bytes) list \<Rightarrow> nat \<Rightarrow> bytes" where
  "qpack_encode_request meth scheme authority path headers body_len =
     [0x00, 0x00]
   @ (case method_index meth of Some index \<Rightarrow> qpack_indexed index | None \<Rightarrow> qpack_literal (ascii '':method'') meth)
   @ (case scheme_index scheme of Some index \<Rightarrow> qpack_indexed index | None \<Rightarrow> qpack_literal (ascii '':scheme'') scheme)
   @ qpack_literal_named 0 authority
   @ (if path = ascii ''/'' then qpack_indexed 1 else qpack_literal (ascii '':path'') path)
   @ concat (map (\<lambda>(name, v). qpack_literal name v) headers)
   @ (if body_len > 0 then qpack_literal_named 4 (decimal body_len) else [])"

section \<open>Finding the status\<close>

datatype qpack_error =
  Qpack_short | Qpack_int_overflow | Qpack_int_too_long | Qpack_dynamic | Qpack_status status_error

fun qpack_int_error :: "int_error \<Rightarrow> qpack_error" where
  "qpack_int_error Int_truncated = Qpack_short"
| "qpack_int_error Int_overflow = Qpack_int_overflow"
| "qpack_int_error Int_too_long = Qpack_int_too_long"

definition qpack_decode_int :: "nat \<Rightarrow> bytes \<Rightarrow> (qpack_error, nat \<times> bytes) result" where
  "qpack_decode_int prefix_bits buf = map_sum qpack_int_error (\<lambda>x. x) (prefix_decode u64_bound 56 prefix_bits buf)"

definition qpack_read_str :: "nat \<Rightarrow> bytes \<Rightarrow> (qpack_error, bytes \<times> bool \<times> bytes) result" where
  "qpack_read_str prefix_bits buf =
     (case buf of
        [] \<Rightarrow> Inl Qpack_short
      | b # _ \<Rightarrow>
          rbind (qpack_decode_int prefix_bits buf) (\<lambda>(len, rest).
            if len \<le> length rest then Inr (take len rest, b AND 2 ^ prefix_bits \<noteq> 0, drop len rest)
            else Inl Qpack_short))"

definition status_for_index :: "nat \<Rightarrow> nat option" where
  "status_for_index index = map_option snd (List.find (\<lambda>(i, _). i = index) STATUS_ENTRIES)"

definition is_status_index :: "nat \<Rightarrow> bool" where
  "is_status_index index = list_ex (\<lambda>(i, _). i = index) STATUS_ENTRIES"

definition qpack_status_name :: "bytes \<Rightarrow> bool \<Rightarrow> bool" where
  "qpack_status_name name huffman =
     (if huffman then name = [0xb8, 0x84, 0x8d, 0x36, 0xa3] else name = ascii '':status'')"

text \<open>The value of a literal field, and the end of the search when its name is \<open>:status\<close>.\<close>

definition qpack_value :: "bool \<Rightarrow> bytes \<Rightarrow> (qpack_error, nat option \<times> bytes) result" where
  "qpack_value named_status buf =
     rbind (qpack_read_str 7 buf) (\<lambda>(v, huffman, buf).
       if named_status then map_sum Qpack_status (\<lambda>st. (Some st, buf)) (status_value v huffman)
       else Inr (None, buf))"

definition qpack_field :: "bytes \<Rightarrow> (qpack_error, nat option \<times> bytes) result" where
  "qpack_field buf =
     (let first = hd buf in
      if first AND 0x80 \<noteq> 0 then
        rbind (qpack_decode_int 6 buf) (\<lambda>(index, buf).
          if first AND 0x40 = 0 then Inl Qpack_dynamic else Inr (status_for_index index, buf))
      else if first AND 0x40 \<noteq> 0 then
        rbind (qpack_decode_int 4 buf) (\<lambda>(index, buf).
          if first AND 0x10 = 0 then Inl Qpack_dynamic else qpack_value (is_status_index index) buf)
      else if first AND 0x20 \<noteq> 0 then
        rbind (qpack_read_str 3 buf) (\<lambda>(name, huffman, buf). qpack_value (qpack_status_name name huffman) buf)
      else Inl Qpack_dynamic)"

lemma qpack_decode_int_shorter: "qpack_decode_int p buf = Inr (v, rest) \<Longrightarrow> length rest < length buf"
  by (auto simp: qpack_decode_int_def dest: prefix_decode_shorter(1))

lemma qpack_read_str_shorter: "qpack_read_str p buf = Inr (s, h, rest) \<Longrightarrow> length rest < length buf"
  by (auto simp: qpack_read_str_def dest!: qpack_decode_int_shorter split: list.splits if_splits)

lemma qpack_value_shorter: "qpack_value n buf = Inr (st, rest) \<Longrightarrow> length rest < length buf"
  by (auto simp: qpack_value_def dest!: qpack_read_str_shorter split: if_splits)

lemma qpack_field_shorter: "qpack_field buf = Inr (st, rest) \<Longrightarrow> length rest < length buf"
  by (auto simp: qpack_field_def Let_def dest!: qpack_decode_int_shorter qpack_read_str_shorter qpack_value_shorter
      split: if_splits)

function qpack_loop :: "bytes \<Rightarrow> (qpack_error, nat option) result" where
  "qpack_loop buf =
     (if buf = [] then Inr None
      else case qpack_field buf of
        Inl e \<Rightarrow> Inl e
      | Inr (Some st, _) \<Rightarrow> Inr (Some st)
      | Inr (None, rest) \<Rightarrow> qpack_loop rest)"
  by pat_completeness auto
termination by (relation "measure length") (auto dest: qpack_field_shorter)

declare qpack_loop.simps [simp del]

text \<open>The section prefix and the walk, without the fast path.\<close>

definition qpack_walk :: "bytes \<Rightarrow> (qpack_error, nat option) result" where
  "qpack_walk buf =
     rbind (qpack_decode_int 8 buf) (\<lambda>(required_insert_count, buf).
       if required_insert_count \<noteq> 0 then Inl Qpack_dynamic
       else rbind (qpack_decode_int 7 buf) (\<lambda>(_, buf). qpack_loop buf))"

definition qpack_fast :: "bytes \<Rightarrow> nat option" where
  "qpack_fast buf =
     (case buf of
        a # b # first # _ \<Rightarrow>
          if a = 0 \<and> b = 0 \<and> first AND 0xc0 = 0xc0 \<and> first AND 0x3f \<noteq> 0x3f
          then status_for_index (unat (first AND 0x3f)) else None
      | _ \<Rightarrow> None)"

definition qpack_find_status :: "bytes \<Rightarrow> (qpack_error, nat option) result" where
  "qpack_find_status buf = (case qpack_fast buf of Some st \<Rightarrow> Inr (Some st) | None \<Rightarrow> qpack_walk buf)"


section \<open>Field representations\<close>

text \<open>The field line representations of RFC 9204, Section 4.5, that need no dynamic table; \<open>never\<close> is the N bit.\<close>

datatype line_repr =
  Indexed_line nat
| Named_line bool nat bool bytes
| Spelled_line bool bool bytes bool bytes

definition line_str :: "nat \<Rightarrow> byte \<Rightarrow> bool \<Rightarrow> bytes \<Rightarrow> bytes" where
  "line_str p msk h s = prefix_encode p (msk OR (if h then 2 ^ p else 0)) (length s) @ s"

fun line_bytes :: "line_repr \<Rightarrow> bytes" where
  "line_bytes (Indexed_line i) = prefix_encode 6 0xc0 i"
| "line_bytes (Named_line never i h v) = prefix_encode 4 (if never then 0x70 else 0x50) i @ line_str 7 0 h v"
| "line_bytes (Spelled_line never h' n h v) = line_str 3 (if never then 0x30 else 0x20) h' n @ line_str 7 0 h v"

fun line_ok :: "line_repr \<Rightarrow> bool" where
  "line_ok (Indexed_line i) = (i < 2 ^ 63)"
| "line_ok (Named_line never i h v) = (i < 2 ^ 63 \<and> length v < 2 ^ 63)"
| "line_ok (Spelled_line never h' n h v) = (length n < 2 ^ 63 \<and> length v < 2 ^ 63)"

fun line_status :: "line_repr \<Rightarrow> (qpack_error, nat) result option" where
  "line_status (Indexed_line i) = map_option Inr (status_for_index i)"
| "line_status (Named_line never i h v) =
     (if is_status_index i then Some (map_sum Qpack_status (\<lambda>st. st) (status_value v h)) else None)"
| "line_status (Spelled_line never h' n h v) =
     (if qpack_status_name n h' then Some (map_sum Qpack_status (\<lambda>st. st) (status_value v h)) else None)"

section \<open>Reading what was written\<close>

lemma qpack_int_read [simp]:
  assumes "p \<le> 8" "2 ^ p dvd unat msk" "v < 2 ^ 63"
  shows "qpack_decode_int p (prefix_encode p msk v @ rest) = Inr (v, rest)"
proof -
  have "v < 2 ^ p - 1 + 2 ^ (7 * 8 + 7)" using trans_less_add2 [OF assms(3), of "2 ^ p - 1"] by simp
  from prefix_encode_decodes [OF assms(1,2) _ this, of u64_bound rest] show ?thesis
    using assms(3) by (simp add: qpack_decode_int_def)
qed

lemma line_str_read:
  assumes "length s < 2 ^ 63" "p < 8" "2 ^ p dvd unat (msk OR (if h then 2 ^ p else 0))" "msk AND 2 ^ p = 0"
  shows "qpack_read_str p (line_str p msk h s @ rest) = Inr (s, h, rest)"
proof -
  let ?msk = "msk OR (if h then 2 ^ p else 0)"
  obtain b bs where b: "prefix_encode p ?msk (length s) = b # bs"
    using prefix_encode_hd(2) [of p p ?msk] assms(2) by (cases "prefix_encode p ?msk (length s)") auto
  have "b AND 2 ^ p = ?msk AND 2 ^ p" using prefix_encode_hd(1) [of p p ?msk "length s" "[]"] b assms(2) by simp
  then have bit: "b AND 2 ^ p \<noteq> 0 \<longleftrightarrow> h"
    using assms(2,4) by (simp add: bit.conj_disj_distrib2)
  have "qpack_decode_int p (prefix_encode p ?msk (length s) @ s @ rest) = Inr (length s, s @ rest)"
    using assms by (intro qpack_int_read) auto
  then show ?thesis
    by (simp add: qpack_read_str_def line_str_def b bit)
qed

lemma value_str_read [simp]: "length s < 2 ^ 63 \<Longrightarrow> qpack_read_str 7 (line_str 7 0 h s @ rest) = Inr (s, h, rest)"
  by (rule line_str_read) auto

lemma name_str_read [simp]:
  "length s < 2 ^ 63 \<Longrightarrow> qpack_read_str 3 (line_str 3 (if never then 0x30 else 0x20) h s @ rest) = Inr (s, h, rest)"
  by (rule line_str_read) auto

lemma value_read:
  "length v < 2 ^ 63 \<Longrightarrow> qpack_value named (line_str 7 0 h v @ rest)
   = (if named then map_sum Qpack_status (\<lambda>st. (Some st, rest)) (status_value v h) else Inr (None, rest))"
  by (simp add: qpack_value_def)

lemma line_str_hd:
  assumes "p \<le> n" "n < 8"
  shows "hd (line_str p msk h s @ rest) AND 2 ^ n = (msk OR (if h then 2 ^ p else 0)) AND 2 ^ n" "line_str p msk h s \<noteq> []"
  using prefix_encode_hd [OF assms] by (simp_all add: line_str_def)

lemma line_read:
  assumes "line_ok f"
  shows "qpack_field (line_bytes f @ rest)
      = (case line_status f of None \<Rightarrow> Inr (None, rest) | Some r \<Rightarrow> map_sum (\<lambda>e. e) (\<lambda>st. (Some st, rest)) r)"
proof (cases f)
  case (Indexed_line i)
  then show ?thesis using assms prefix_encode_hd(1) [of 6 7 "0xc0" i rest] prefix_encode_hd(1) [of 6 6 "0xc0" i rest]
    by (auto simp: qpack_field_def Let_def split: option.splits)
next
  case (Named_line never i h v)
  let ?m = "if never then 0x70 else 0x50 :: byte"
  show ?thesis
    using assms prefix_encode_hd(1) [of 4 7 ?m i "line_str 7 0 h v @ rest"] prefix_encode_hd(1) [of 4 6 ?m i "line_str 7 0 h v @ rest"]
      prefix_encode_hd(1) [of 4 4 ?m i "line_str 7 0 h v @ rest"]
    unfolding Named_line
    by (auto simp: qpack_field_def Let_def value_read map_sum.compositionality comp_def split: if_splits)
next
  case (Spelled_line never h' n h v)
  let ?m = "if never then 0x30 else 0x20 :: byte"
  show ?thesis
    using assms line_str_hd(1) [of 3 7 ?m h' n "line_str 7 0 h v @ rest"] line_str_hd(1) [of 3 6 ?m h' n "line_str 7 0 h v @ rest"]
      line_str_hd(1) [of 3 5 ?m h' n "line_str 7 0 h v @ rest"]
    unfolding Spelled_line
    by (auto simp: qpack_field_def Let_def value_read map_sum.compositionality comp_def split: if_splits)
qed


lemma line_bytes_nonempty: "line_bytes f \<noteq> []"
proof -
  have "prefix_encode p msk v \<noteq> []" for p msk v by (simp add: prefix_encode_def Let_def)
  then show ?thesis by (cases f) (simp_all add: line_str_def)
qed

lemma qpack_loop_lines:
  assumes "list_all line_ok fs"
  shows "qpack_loop (concat (map line_bytes fs))
    = (case List.map_filter line_status fs of [] \<Rightarrow> Inr None | r # _ \<Rightarrow> map_sum (\<lambda>e. e) Some r)"
  using assms
proof (induction fs)
  case Nil
  then show ?case by (simp add: qpack_loop.simps List.map_filter_def)
next
  case (Cons f fs)
  then show ?case
    using line_read [of f "concat (map line_bytes fs)"] line_bytes_nonempty [of f]
    by (subst qpack_loop.simps) (cases "line_status f"; auto simp: List.map_filter_def map_sum_eq_Inl split: sum.split)
qed

text \<open>The prefix of a section that needs no dynamic table: a zero insert count and any base.\<close>

definition section_prefix :: "bool \<Rightarrow> nat \<Rightarrow> bytes" where
  "section_prefix sign base = prefix_encode 8 0 0 @ prefix_encode 7 (if sign then 0x80 else 0) base"

lemma qpack_walk_prefix: "base < 2 ^ 63 \<Longrightarrow> qpack_walk (section_prefix sign base @ buf) = qpack_loop buf"
  by (simp add: qpack_walk_def section_prefix_def)

lemma qpack_fast_walk:
  assumes "qpack_fast buf = Some st"
  shows "qpack_walk buf = Inr (Some st)"
proof -
  obtain first rest where buf: "buf = 0 # 0 # first # rest" "first AND 0xc0 = 0xc0" "first AND 0x3f \<noteq> 0x3f"
    "status_for_index (unat (first AND 0x3f)) = Some st"
    using assms by (auto simp: qpack_fast_def split: list.splits if_splits)
  have "first AND 0x80 = (first AND 0xc0) AND 0x80" "first AND 0x40 = (first AND 0xc0) AND 0x40"
    by (simp_all add: and.assoc)
  then have bits: "first AND 0x80 \<noteq> 0" "first AND 0x40 \<noteq> 0" using buf(2) by simp_all
  have idx: "unat (first AND 0x3f) = unat first mod 64" using mask_and_mod [of "unat first" 6] by (simp add: unat_and_mask)
  then have "unat first mod 64 \<noteq> 63" using buf(3) by (auto simp: word_unat_eq_iff)
  moreover have "unat first mod 64 < 64" by simp
  ultimately have "unat first mod 64 < 63" by linarith
  then have "qpack_decode_int 6 (first # rest) = Inr (unat first mod 64, rest)"
    by (simp add: qpack_decode_int_def prefix_decode_Cons)
  then have "qpack_loop (first # rest) = Inr (Some st)"
    using bits buf(4) idx by (subst qpack_loop.simps) (simp add: qpack_field_def)
  then show ?thesis by (simp add: buf(1) qpack_walk_def qpack_decode_int_def prefix_decode_Cons)
qed

section \<open>A decoder for plain sections\<close>

text \<open>
  What a peer makes of a section with no dynamic table and no Huffman coding; of the static table of RFC 9204,
  Appendix A, the entries a request refers to.
\<close>

definition qpack_static :: "(nat \<times> string \<times> string) list" where
  "qpack_static =
    [(0, '':authority'', ''''), (1, '':path'', ''/''), (4, ''content-length'', ''0''), (15, '':method'', ''CONNECT''),
     (16, '':method'', ''DELETE''), (17, '':method'', ''GET''), (18, '':method'', ''HEAD''), (19, '':method'', ''OPTIONS''),
     (20, '':method'', ''POST''), (21, '':method'', ''PUT''), (22, '':scheme'', ''http''), (23, '':scheme'', ''https'')]"

definition static_line :: "nat \<Rightarrow> (bytes \<times> bytes) option" where
  "static_line i = map_option (\<lambda>(n, v). (ascii n, ascii v)) (map_of qpack_static i)"

definition plain_line_str :: "nat \<Rightarrow> bytes \<Rightarrow> (bytes \<times> bytes) option" where
  "plain_line_str p buf = (case qpack_read_str p buf of Inr (s, False, rest) \<Rightarrow> Some (s, rest) | _ \<Rightarrow> None)"

definition plain_line :: "bytes \<Rightarrow> ((bytes \<times> bytes) \<times> bytes) option" where
  "plain_line buf =
     (if hd buf AND 0x80 \<noteq> 0 then
        (case qpack_decode_int 6 buf of
           Inl _ \<Rightarrow> None
         | Inr (i, rest) \<Rightarrow> if hd buf AND 0x40 = 0 then None else map_option (\<lambda>nv. (nv, rest)) (static_line i))
      else if hd buf AND 0x40 \<noteq> 0 then
        (case qpack_decode_int 4 buf of
           Inl _ \<Rightarrow> None
         | Inr (i, rest) \<Rightarrow>
             if hd buf AND 0x10 = 0 then None
             else Option.bind (static_line i) (\<lambda>(n, _).
                  Option.bind (plain_line_str 7 rest) (\<lambda>(v, rest). Some ((n, v), rest))))
      else if hd buf AND 0x20 \<noteq> 0 then
        Option.bind (plain_line_str 3 buf) (\<lambda>(n, rest).
        Option.bind (plain_line_str 7 rest) (\<lambda>(v, rest). Some ((n, v), rest)))
      else None)"

lemma plain_line_str_Some: "plain_line_str p buf = Some (s, rest) \<longleftrightarrow> qpack_read_str p buf = Inr (s, False, rest)"
  by (auto simp: plain_line_str_def split: sum.splits bool.splits)

lemma plain_line_shorter: "plain_line buf = Some (f, rest) \<Longrightarrow> length rest < length buf"
  by (auto simp: plain_line_def plain_line_str_Some bind_eq_Some_conv
      dest!: qpack_decode_int_shorter qpack_read_str_shorter split: sum.splits if_splits)

function plain_lines :: "bytes \<Rightarrow> (bytes \<times> bytes) list option" where
  "plain_lines buf =
     (if buf = [] then Some []
      else case plain_line buf of
        None \<Rightarrow> None
      | Some (f, rest) \<Rightarrow> map_option ((#) f) (plain_lines rest))"
  by pat_completeness auto
termination by (relation "measure length") (auto dest: plain_line_shorter)

declare plain_lines.simps [simp del]

definition plain_section :: "bytes \<Rightarrow> (bytes \<times> bytes) list option" where
  "plain_section buf =
     (case qpack_decode_int 8 buf of
        Inr (0, buf) \<Rightarrow> (case qpack_decode_int 7 buf of Inr (_, buf) \<Rightarrow> plain_lines buf | Inl _ \<Rightarrow> None)
      | _ \<Rightarrow> None)"

fun line_field :: "line_repr \<Rightarrow> (bytes \<times> bytes) option" where
  "line_field (Indexed_line i) = static_line i"
| "line_field (Named_line never i h v) = (if h then None else map_option (\<lambda>(n, _). (n, v)) (static_line i))"
| "line_field (Spelled_line never h' n h v) = (if h' \<or> h then None else Some (n, v))"

lemma plain_line_read:
  assumes "line_ok f" "line_field f = Some nv"
  shows "plain_line (line_bytes f @ rest) = Some (nv, rest)"
proof (cases f)
  case (Indexed_line i)
  then show ?thesis using assms prefix_encode_hd(1) [of 6 7 "0xc0" i rest] prefix_encode_hd(1) [of 6 6 "0xc0" i rest]
    by (simp add: plain_line_def)
next
  case (Named_line never i h v)
  let ?m = "if never then 0x70 else 0x50 :: byte"
  show ?thesis
    using assms prefix_encode_hd(1) [of 4 7 ?m i "line_str 7 0 h v @ rest"] prefix_encode_hd(1) [of 4 6 ?m i "line_str 7 0 h v @ rest"]
      prefix_encode_hd(1) [of 4 4 ?m i "line_str 7 0 h v @ rest"]
    unfolding Named_line by (auto simp: plain_line_def plain_line_str_def split: if_splits)
next
  case (Spelled_line never h' n h v)
  let ?m = "if never then 0x30 else 0x20 :: byte"
  show ?thesis
    using assms line_str_hd(1) [of 3 7 ?m h' n "line_str 7 0 h v @ rest"] line_str_hd(1) [of 3 6 ?m h' n "line_str 7 0 h v @ rest"]
      line_str_hd(1) [of 3 5 ?m h' n "line_str 7 0 h v @ rest"]
    unfolding Spelled_line by (auto simp: plain_line_def plain_line_str_def split: if_splits)
qed

lemma plain_lines_read:
  "list_all line_ok fs \<Longrightarrow> map line_field fs = map Some nvs \<Longrightarrow> plain_lines (concat (map line_bytes fs)) = Some nvs"
proof (induction fs arbitrary: nvs)
  case Nil
  then show ?case by (simp add: plain_lines.simps)
next
  case (Cons f fs)
  then obtain nv nvs' where "nvs = nv # nvs'" "line_field f = Some nv" "map line_field fs = map Some nvs'"
    by (cases nvs) auto
  then show ?case
    using Cons plain_line_read [of f nv "concat (map line_bytes fs)"] line_bytes_nonempty [of f]
    by (subst plain_lines.simps) auto
qed


section \<open>The request section\<close>

definition pseudo_line :: "nat option \<Rightarrow> string \<Rightarrow> bytes \<Rightarrow> line_repr" where
  "pseudo_line idx name v =
     (case idx of Some i \<Rightarrow> Indexed_line i | None \<Rightarrow> Spelled_line False False (ascii name) False v)"

definition request_lines :: "bytes \<Rightarrow> bytes \<Rightarrow> bytes \<Rightarrow> bytes \<Rightarrow> (bytes \<times> bytes) list \<Rightarrow> nat \<Rightarrow> line_repr list" where
  "request_lines meth scheme authority path headers body_len =
     [pseudo_line (method_index meth) '':method'' meth, pseudo_line (scheme_index scheme) '':scheme'' scheme,
      Named_line False 0 False authority,
      pseudo_line (if path = ascii ''/'' then Some 1 else None) '':path'' path]
     @ map (\<lambda>(n, v). Spelled_line False False n False v) headers
     @ (if body_len > 0 then [Named_line False 4 False (decimal body_len)] else [])"

lemma line_reprs:
  "qpack_indexed i = line_bytes (Indexed_line i)"
  "qpack_literal_named i v = line_bytes (Named_line False i False v)"
  "qpack_literal n v = line_bytes (Spelled_line False False n False v)"
  by (simp_all add: qpack_indexed_def qpack_literal_named_def qpack_literal_def qpack_encode_str_def qpack_encode_int_def line_str_def)

lemma qpack_request_lines:
  "qpack_encode_request meth scheme authority path headers body_len
   = section_prefix False 0 @ concat (map line_bytes (request_lines meth scheme authority path headers body_len))"
proof -
  have "section_prefix False 0 = [0, 0]" by (simp add: section_prefix_def prefix_encode_small)
  then show ?thesis
    by (simp add: qpack_encode_request_def request_lines_def pseudo_line_def line_reprs comp_def split_def
        del: line_bytes.simps split: option.split)
qed

lemma static_line_used [simp]:
  "static_line 0 = Some (ascii '':authority'', [])" "static_line (Suc 0) = Some (ascii '':path'', ascii ''/'')"
  "static_line 4 = Some (ascii ''content-length'', ascii ''0'')"
  by (simp_all add: static_line_def qpack_static_def ascii_def)

lemma method_index_Some: "method_index meth = Some i \<Longrightarrow> i < 64 \<and> static_line i = Some (ascii '':method'', meth)"
  by (auto simp: method_index_def static_line_def qpack_static_def split: if_splits)

lemma scheme_index_Some: "scheme_index scheme = Some i \<Longrightarrow> i < 64 \<and> static_line i = Some (ascii '':scheme'', scheme)"
  by (auto simp: scheme_index_def static_line_def qpack_static_def split: if_splits)

lemma pseudo_line_ok:
  assumes "length v < 2 ^ 63" "\<And>i. idx = Some i \<Longrightarrow> i < 64 \<and> static_line i = Some (ascii name, v)"
    "length name < 2 ^ 63"
  shows "line_ok (pseudo_line idx name v)" "line_field (pseudo_line idx name v) = Some (ascii name, v)"
  using assms by (auto simp: pseudo_line_def ascii_def split: option.split)

section \<open>Properties\<close>

text \<open>
  C25. The fast path of \<open>find_status\<close> is only a shortcut: on every input, well formed or not, the result is that
  of the full walk over the section.
\<close>

theorem qpack_fast_path_equivalent:
  "qpack_find_status buf = qpack_walk buf"
  using qpack_fast_walk [of buf] by (auto simp: qpack_find_status_def split: option.split)

text \<open>
  C38. Over any section that needs no dynamic table (a zero insert count, any base, and field lines of the three
  static representations with plain or Huffman strings), \<open>find_status\<close> returns what the first \<open>:status\<close> line
  says, and no status and no error when there is none.
\<close>

theorem qpack_find_status_correct:
  assumes "list_all line_ok fs" "base < 2 ^ 63"
  shows "qpack_find_status (section_prefix sign base @ concat (map line_bytes fs))
    = (case List.map_filter line_status fs of [] \<Rightarrow> Inr None | r # _ \<Rightarrow> map_sum (\<lambda>e. e) Some r)"
proof -
  have "qpack_find_status buf = qpack_walk buf" for buf
    using qpack_fast_walk [of buf] by (auto simp: qpack_find_status_def split: option.split)
  then show ?thesis using qpack_walk_prefix [OF assms(2)] qpack_loop_lines [OF assms(1)] by simp
qed

theorem qpack_find_status_correct_witness:
  "let fs = [Spelled_line False False (ascii ''date'') False (ascii ''now''), Named_line True 25 False (ascii ''404'')] in
   list_all line_ok fs \<and> qpack_find_status (section_prefix True 3 @ concat (map line_bytes fs)) = Inr (Some 404)"
proof -
  let ?fs = "[Spelled_line False False (ascii ''date'') False (ascii ''now''), Named_line True 25 False (ascii ''404'')]"
  have "list_all line_ok ?fs" by (simp add: ascii_def)
  moreover have "status_value (ascii ''404'') False = Inr 404" "is_status_index 25"
    "\<not> qpack_status_name (ascii ''date'') False" by code_simp+
  ultimately show ?thesis using qpack_find_status_correct [of ?fs 3 True] by (simp add: List.map_filter_def)
qed

text \<open>
  C40. The request section decodes, for a peer without a dynamic table, to exactly the request: the four
  pseudo-headers first, then the headers in order, then \<open>content-length\<close> when there is a body.
\<close>

theorem qpack_request_round_trip:
  assumes "list_all (\<lambda>s. length s < 2 ^ 63) [meth, scheme, authority, path]"
    "list_all (\<lambda>(n, v). length n < 2 ^ 63 \<and> length v < 2 ^ 63) headers" "body_len < u64_bound"
  shows "plain_section (qpack_encode_request meth scheme authority path headers body_len)
    = Some ([(ascii '':method'', meth), (ascii '':scheme'', scheme), (ascii '':authority'', authority), (ascii '':path'', path)]
      @ headers @ (if body_len > 0 then [(ascii ''content-length'', decimal body_len)] else []))"
proof -
  let ?fs = "request_lines meth scheme authority path headers body_len"
  let ?nvs = "[(ascii '':method'', meth), (ascii '':scheme'', scheme), (ascii '':authority'', authority), (ascii '':path'', path)]
      @ headers @ (if body_len > 0 then [(ascii ''content-length'', decimal body_len)] else [])"
  have dec: "length (decimal body_len) < 2 ^ 63"
    using length_decimal_u64 [OF assms(3)] by (rule le_less_trans) simp
  have "list_all line_ok ?fs" using assms(1,2) dec method_index_Some scheme_index_Some
    by (auto simp: request_lines_def list_all_iff intro!: pseudo_line_ok)
  moreover have "map line_field ?fs = map Some ?nvs" using assms(1,2) method_index_Some scheme_index_Some
    by (simp add: request_lines_def pseudo_line_ok(2) split_def) (simp add: pseudo_line_def)
  ultimately have "plain_lines (concat (map line_bytes ?fs)) = Some ?nvs" by (rule plain_lines_read)
  then show ?thesis
    unfolding qpack_request_lines by (simp add: plain_section_def section_prefix_def)
qed

theorem qpack_request_round_trip_witness:
  "plain_section (qpack_encode_request (ascii ''PATCH'') (ascii ''https'') (ascii ''localhost'') (ascii ''/'') [(ascii ''x-a'', ascii ''1'')] 7)
   = Some [(ascii '':method'', ascii ''PATCH''), (ascii '':scheme'', ascii ''https''), (ascii '':authority'', ascii ''localhost''),
       (ascii '':path'', ascii ''/''), (ascii ''x-a'', ascii ''1''), (ascii ''content-length'', ascii ''7'')]"
  using qpack_request_round_trip [of "ascii ''PATCH''" "ascii ''https''" "ascii ''localhost''" "ascii ''/''"
      "[(ascii ''x-a'', ascii ''1'')]" 7]
  by (simp add: ascii_def decimal.simps)

end
