(* ===== verification/Chunking.thy ===== *)
theory Chunking
  imports Prelude
begin

text \<open>
  The contract every incremental reader of this program has to keep: a TCP or QUIC read may end anywhere, so what a
  reader makes of its input must not depend on how the input was cut.
\<close>

text \<open>Feeding one chunk after the other, stopping at the first error.\<close>

fun feeds :: "(bytes \<Rightarrow> 's \<Rightarrow> ('e, 's) result) \<Rightarrow> bytes list \<Rightarrow> 's \<Rightarrow> ('e, 's) result" where
  "feeds feed [] s = Inr s"
| "feeds feed (d # ds) s = rbind (feed d s) (feeds feed ds)"

locale chunked_reader =
  fixes feed :: "bytes \<Rightarrow> 's \<Rightarrow> ('e, 's) result" and ok :: "'s \<Rightarrow> bool"
  assumes feed_append: "ok s \<Longrightarrow> feed (a @ b) s = rbind (feed a s) (feed b)"
    and feed_ok: "ok s \<Longrightarrow> feed a s = Inr t \<Longrightarrow> ok t"
begin

lemma feeds_concat: "ok s \<Longrightarrow> ds \<noteq> [] \<Longrightarrow> feeds feed ds s = feed (concat ds) s"
proof (induction ds arbitrary: s)
  case (Cons d ds)
  show ?case
  proof (cases "feed d s")
    case (Inl e)
    then show ?thesis using Cons.prems(1) feed_append [of s d "concat ds"] by simp
  next
    case (Inr t)
    then have "ok t" using Cons.prems(1) feed_ok by blast
    show ?thesis
    proof (cases "ds = []")
      case False
      then have "feeds feed ds t = feed (concat ds) t" using Cons.IH [OF \<open>ok t\<close>] by simp
      then show ?thesis using Inr Cons.prems(1) feed_append [of s d "concat ds"] by simp
    qed (simp add: Inr)
  qed
qed simp

lemma chunks_irrelevant:
  "ok s \<Longrightarrow> ds \<noteq> [] \<Longrightarrow> es \<noteq> [] \<Longrightarrow> concat ds = concat es \<Longrightarrow> feeds feed ds s = feeds feed es s"
  by (simp add: feeds_concat)

lemma feeds_ok: "ok s \<Longrightarrow> feeds feed ds s = Inr t \<Longrightarrow> ok t"
  by (induction ds arbitrary: s) (auto dest: feed_ok)

end

end
