(* ===== verification/H3_Proto.thy ===== *)
theory H3_Proto
  imports Chunking Qpack
begin

text \<open>
  HTTP/3 framing over QUIC streams (\<open>src/http3/proto.rs\<close>): the control stream prelude, the request frames, the
  reader of a response stream and the reader of a peer's unidirectional stream. A buffer with a position is the rest
  of the buffer. An error ends the connection, so the state a reader is left in by one is not modelled.
\<close>

section \<open>Writing\<close>

definition FRAME_DATA :: nat where "FRAME_DATA = 0x00"
definition FRAME_HEADERS :: nat where "FRAME_HEADERS = 0x01"
definition FRAME_SETTINGS :: nat where "FRAME_SETTINGS = 0x04"
definition FRAME_GOAWAY :: nat where "FRAME_GOAWAY = 0x07"
definition STREAM_CONTROL :: nat where "STREAM_CONTROL = 0x00"
definition SETTINGS_QPACK_MAX_TABLE_CAPACITY :: nat where "SETTINGS_QPACK_MAX_TABLE_CAPACITY = 0x01"
definition SETTINGS_MAX_FIELD_SECTION_SIZE :: nat where "SETTINGS_MAX_FIELD_SECTION_SIZE = 0x06"
definition SETTINGS_QPACK_BLOCKED_STREAMS :: nat where "SETTINGS_QPACK_BLOCKED_STREAMS = 0x07"

definition control_stream_prelude :: bytes where
  "control_stream_prelude =
     (let settings = concat (map (\<lambda>(i, v). put_varint i @ put_varint v)
            [(SETTINGS_QPACK_MAX_TABLE_CAPACITY, 0), (SETTINGS_QPACK_BLOCKED_STREAMS, 0),
             (SETTINGS_MAX_FIELD_SECTION_SIZE, 2 ^ 20)]) in
      put_varint STREAM_CONTROL @ put_varint FRAME_SETTINGS @ put_varint (length settings) @ settings)"

definition request_bytes :: "bytes \<Rightarrow> bytes \<Rightarrow> bytes" where
  "request_bytes field_section body =
     put_varint FRAME_HEADERS @ put_varint (length field_section) @ field_section
   @ (if body \<noteq> [] then put_varint FRAME_DATA @ put_varint (length body) @ body else [])"

section \<open>The response reader\<close>

datatype h3_error =
  H3_qpack qpack_error | Oversized_goaway | Goaway_too_long | Goaway_without_id | Goaway_trailing | Goaway_raised

record response_reader =
  rr_pending :: bytes
  rr_skip :: nat
  rr_status :: nat

definition reader_default :: response_reader where
  "reader_default = \<lparr>rr_pending = [], rr_skip = 0, rr_status = 0\<rparr>"

text \<open>Two integers, the type and the length of a frame, and what follows them.\<close>

definition frame_header :: "bytes \<Rightarrow> (nat \<times> nat \<times> bytes) option" where
  "frame_header buf =
     (case get_varint buf of
        None \<Rightarrow> None
      | Some (kind, n1) \<Rightarrow>
          (case get_varint (drop n1 buf) of
             None \<Rightarrow> None
           | Some (len, n2) \<Rightarrow> Some (kind, len, drop (n1 + n2) buf)))"

lemma frame_header_shorter: "frame_header buf = Some (kind, len, body) \<Longrightarrow> length body < length buf"
  using varint.get_nonempty varint.get_inside by (fastforce simp: frame_header_def split: option.splits)

definition new_status :: "nat option \<Rightarrow> nat \<Rightarrow> nat" where
  "new_status found status =
     (case found of Some st \<Rightarrow> if is_informational st then status else st | None \<Rightarrow> status)"

text \<open>\<open>run\<close> gives the bytes still to skip, the status and the part of the buffer it did not use.\<close>

function reader_run :: "nat \<Rightarrow> nat \<Rightarrow> bytes \<Rightarrow> (h3_error, nat \<times> nat \<times> bytes) result" where
  "reader_run skip status buf =
     (if length buf < skip then Inr (skip - length buf, status, [])
      else let buf = drop skip buf in
        case frame_header buf of
          None \<Rightarrow> Inr (0, status, buf)
        | Some (kind, len, body) \<Rightarrow>
            if kind = FRAME_HEADERS then
              if length body < len then Inr (0, status, buf)
              else (case qpack_find_status (take len body) of
                      Inl e \<Rightarrow> Inl (H3_qpack e)
                    | Inr found \<Rightarrow> reader_run 0 (new_status found status) (drop len body))
            else if kind = FRAME_GOAWAY \<and> len > 2 ^ 20 then Inl Oversized_goaway
            else reader_run len status body)"
  by pat_completeness auto
termination
  by (relation "measure (\<lambda>(_, _, buf). length buf)") (auto dest!: frame_header_shorter)

declare reader_run.simps [simp del]

definition reader_feed :: "bytes \<Rightarrow> response_reader \<Rightarrow> (h3_error, response_reader) result" where
  "reader_feed data r =
     (if rr_pending r = [] then
        rbind (reader_run (rr_skip r) (rr_status r) data) (\<lambda>(skip, status, rest).
          Inr (r\<lparr>rr_skip := skip, rr_status := status, rr_pending := rest\<rparr>))
      else
        rbind (reader_run (rr_skip r) (rr_status r) (rr_pending r @ data)) (\<lambda>(skip, status, rest).
          Inr (r\<lparr>rr_skip := skip, rr_status := status, rr_pending := rest\<rparr>)))"

section \<open>The reader of a unidirectional stream\<close>

record uni_reader =
  un_kind :: "nat option"
  un_pending :: bytes
  un_skip :: nat
  un_goaway :: "nat option"

definition uni_default :: uni_reader where
  "uni_default = \<lparr>un_kind = None, un_pending = [], un_skip = 0, un_goaway = None\<rparr>"

text \<open>The payload of a GOAWAY: one stream id, which may only go down.\<close>

definition goaway_id :: "bytes \<Rightarrow> nat option \<Rightarrow> (h3_error, nat) result" where
  "goaway_id payload goaway =
     (case get_varint payload of
        None \<Rightarrow> Inl Goaway_without_id
      | Some (sid, n) \<Rightarrow>
          if n \<noteq> length payload then Inl Goaway_trailing
          else if (case goaway of Some prev \<Rightarrow> sid > prev | None \<Rightarrow> False) then Inl Goaway_raised
          else Inr sid)"

function uni_run :: "nat \<Rightarrow> nat option \<Rightarrow> bytes \<Rightarrow> (h3_error, nat \<times> nat option \<times> bytes) result" where
  "uni_run skip goaway buf =
     (if length buf < skip then Inr (skip - length buf, goaway, [])
      else let buf = drop skip buf in
        case frame_header buf of
          None \<Rightarrow> Inr (0, goaway, buf)
        | Some (kind, len, body) \<Rightarrow>
            if kind = FRAME_GOAWAY then
              if len > 8 then Inl Goaway_too_long
              else if length body < len then Inr (0, goaway, buf)
              else (case goaway_id (take len body) goaway of
                      Inl e \<Rightarrow> Inl e
                    | Inr sid \<Rightarrow> uni_run 0 (Some sid) (drop len body))
            else uni_run len goaway body)"
  by pat_completeness auto
termination
  by (relation "measure (\<lambda>(_, _, buf). length buf)") (auto dest!: frame_header_shorter)

declare uni_run.simps [simp del]

text \<open>After the stream type is known: frames on the control stream, nothing on any other.\<close>

definition uni_body :: "bytes \<Rightarrow> uni_reader \<Rightarrow> (h3_error, uni_reader) result" where
  "uni_body buf r =
     (if un_kind r \<noteq> Some STREAM_CONTROL then Inr (r\<lparr>un_pending := []\<rparr>)
      else rbind (uni_run (un_skip r) (un_goaway r) buf) (\<lambda>(skip, goaway, rest).
        Inr (r\<lparr>un_skip := skip, un_goaway := goaway, un_pending := rest\<rparr>)))"

definition uni_feed :: "bytes \<Rightarrow> uni_reader \<Rightarrow> (h3_error, uni_reader) result" where
  "uni_feed data r =
     (let buf = un_pending r @ data in
      if un_kind r = None then
        (case get_varint buf of
           None \<Rightarrow> Inr (r\<lparr>un_pending := buf\<rparr>)
         | Some (kind, n) \<Rightarrow> uni_body (drop n buf) (r\<lparr>un_kind := Some kind\<rparr>))
      else uni_body buf r)"


section \<open>Independence of chunk boundaries\<close>

lemma frame_header_more:
  "frame_header buf = Some (kind, len, body) \<Longrightarrow> frame_header (buf @ xs) = Some (kind, len, body @ xs)"
proof -
  assume "frame_header buf = Some (kind, len, body)"
  then obtain n1 n2 where n: "get_varint buf = Some (kind, n1)" "get_varint (drop n1 buf) = Some (len, n2)" "body = drop (n1 + n2) buf"
    by (auto simp: frame_header_def split: option.splits)
  have le: "n1 \<le> length buf" "n2 \<le> length buf - n1"
    using varint.get_inside [OF n(1)] varint.get_inside [OF n(2)] by simp_all
  have "get_varint (buf @ xs) = Some (kind, n1)" by (rule varint.get_more [OF n(1)])
  moreover have "get_varint (drop n1 (buf @ xs)) = Some (len, n2)" using varint.get_more [OF n(2)] le by simp
  moreover have "drop (n1 + n2) (buf @ xs) = body @ xs" using n(3) le by simp
  ultimately show ?thesis by (simp add: frame_header_def)
qed

lemma reader_run_skip: "skip \<le> length buf \<Longrightarrow> reader_run skip status buf = reader_run 0 status (drop skip buf)"
  by (subst (1 2) reader_run.simps) simp

lemma reader_run_append:
  "reader_run skip status (a @ b)
   = rbind (reader_run skip status a) (\<lambda>(skip, status, rest). reader_run skip status (rest @ b))"
proof (induction skip status a rule: reader_run.induct)
  case (1 skip status a)
  show ?case
  proof (cases "length a < skip")
    case True
    then have "reader_run skip status (a @ b) = reader_run (skip - length a) status b"
      by (subst (1 2) reader_run.simps) auto
    then show ?thesis using True by (simp add: reader_run.simps [of skip status a])
  next
    case False
    let ?a = "drop skip a"
    have cut: "reader_run skip status (a @ b) = reader_run 0 status (?a @ b)" "reader_run skip status a = reader_run 0 status ?a"
      using False reader_run_skip [of skip "a @ b"] reader_run_skip [of skip a] by simp_all
    show ?thesis
    proof (cases "frame_header ?a")
      case None
      then show ?thesis unfolding cut by (simp add: reader_run.simps [of 0 status ?a])
    next
      case (Some h)
      obtain kind len body where h: "h = (kind, len, body)" by (cases h)
      note fh = Some [unfolded h] and fh' = frame_header_more [OF Some [unfolded h], of b]
      note IH = "1.IH" [OF False refl fh refl refl]
      show ?thesis
      proof (cases "kind = FRAME_HEADERS \<and> length body < len")
        case True
        then show ?thesis unfolding cut using fh by (simp add: reader_run.simps [of 0 status ?a])
      next
        case whole: False
        show ?thesis
        proof (cases "kind = FRAME_HEADERS")
          case True
          then show ?thesis using whole IH(1) unfolding cut
            by (simp add: reader_run.simps [of 0 status ?a] reader_run.simps [of 0 status "?a @ b"] fh fh' split: sum.split)
        next
          case False
          then show ?thesis using IH(2) unfolding cut
            by (simp add: reader_run.simps [of 0 status ?a] reader_run.simps [of 0 status "?a @ b"] fh fh')
        qed
      qed
    qed
  qed
qed

lemma reader_feed_run:
  "reader_feed data r =
     rbind (reader_run (rr_skip r) (rr_status r) (rr_pending r @ data)) (\<lambda>(skip, status, rest).
       Inr (r\<lparr>rr_skip := skip, rr_status := status, rr_pending := rest\<rparr>))"
  by (simp add: reader_feed_def)

interpretation response: chunked_reader reader_feed "\<lambda>_. True"
proof
  fix s a b
  show "reader_feed (a @ b) s = rbind (reader_feed a s) (reader_feed b)"
    unfolding reader_feed_run append_assoc [symmetric] reader_run_append [of "rr_skip s" "rr_status s" "rr_pending s @ a" b]
    by (cases "reader_run (rr_skip s) (rr_status s) (rr_pending s @ a)") (auto simp: split_def)
qed simp

lemma uni_run_skip: "skip \<le> length buf \<Longrightarrow> uni_run skip goaway buf = uni_run 0 goaway (drop skip buf)"
  by (subst (1 2) uni_run.simps) simp

lemma uni_run_append:
  "uni_run skip goaway (a @ b)
   = rbind (uni_run skip goaway a) (\<lambda>(skip, goaway, rest). uni_run skip goaway (rest @ b))"
proof (induction skip goaway a rule: uni_run.induct)
  case (1 skip goaway a)
  show ?case
  proof (cases "length a < skip")
    case True
    then have "uni_run skip goaway (a @ b) = uni_run (skip - length a) goaway b"
      by (subst (1 2) uni_run.simps) auto
    then show ?thesis using True by (simp add: uni_run.simps [of skip goaway a])
  next
    case False
    let ?a = "drop skip a"
    have cut: "uni_run skip goaway (a @ b) = uni_run 0 goaway (?a @ b)" "uni_run skip goaway a = uni_run 0 goaway ?a"
      using False uni_run_skip [of skip "a @ b"] uni_run_skip [of skip a] by simp_all
    show ?thesis
    proof (cases "frame_header ?a")
      case None
      then show ?thesis unfolding cut by (simp add: uni_run.simps [of 0 goaway ?a])
    next
      case (Some h)
      obtain kind len body where h: "h = (kind, len, body)" by (cases h)
      note fh = Some [unfolded h] and fh' = frame_header_more [OF Some [unfolded h], of b]
      note IH = "1.IH" [OF False refl fh refl refl]
      show ?thesis
      proof (cases "kind = FRAME_GOAWAY")
        case goaway: True
        show ?thesis
        proof (cases "len \<le> 8 \<and> length body < len")
          case True
          then show ?thesis unfolding cut using fh goaway by (simp add: uni_run.simps [of 0 goaway ?a])
        next
          case False
          then show ?thesis using IH(1) goaway unfolding cut
            by (auto simp: uni_run.simps [of 0 goaway ?a] uni_run.simps [of 0 goaway "?a @ b"] fh fh' split: sum.split)
        qed
      next
        case False
        then show ?thesis using IH(2) unfolding cut
          by (simp add: uni_run.simps [of 0 goaway ?a] uni_run.simps [of 0 goaway "?a @ b"] fh fh')
      qed
    qed
  qed
qed


lemma uni_body_append:
  "uni_body (a @ b) r = rbind (uni_body a r) (\<lambda>r. uni_body (un_pending r @ b) r)"
proof (cases "un_kind r = Some STREAM_CONTROL")
  case True
  then show ?thesis
    by (cases "uni_run (un_skip r) (un_goaway r) a")
      (simp_all add: uni_body_def uni_run_append [of "un_skip r" "un_goaway r" a b] split_def)
qed (simp add: uni_body_def)

lemma uni_body_pending: "uni_body buf (r\<lparr>un_pending := p, un_kind := k\<rparr>) = uni_body buf (r\<lparr>un_kind := k\<rparr>)"
  by (simp add: uni_body_def)

lemma uni_feed_known: "un_kind r \<noteq> None \<Longrightarrow> uni_feed b r = uni_body (un_pending r @ b) r"
  by (auto simp: uni_feed_def Let_def)

lemma uni_body_kind: "uni_body a r = Inr t \<Longrightarrow> un_kind t = un_kind r"
  by (auto simp: uni_body_def split: if_splits)

interpretation uni: chunked_reader uni_feed "\<lambda>_. True"
proof
  fix s a b
  have known: "rbind (uni_body buf r) (uni_feed b) = uni_body (buf @ b) r" if "un_kind r \<noteq> None" for buf r
  proof (cases "uni_body buf r")
    case (Inl e)
    then show ?thesis by (simp add: uni_body_append [of buf b r])
  next
    case (Inr t)
    then show ?thesis using that uni_body_kind [OF Inr] by (simp add: uni_body_append [of buf b r] uni_feed_known)
  qed
  show "uni_feed (a @ b) s = rbind (uni_feed a s) (uni_feed b)"
  proof (cases "un_kind s = None")
    case False
    then show ?thesis using known [of s "un_pending s @ a"] by (simp add: uni_feed_known)
  next
    case True
    show ?thesis
    proof (cases "get_varint (un_pending s @ a)")
      case None
      then show ?thesis using True by (simp add: uni_feed_def Let_def uni_body_pending split: option.split)
    next
      case (Some kn)
      obtain kind n where kn: "kn = (kind, n)" by fastforce
      let ?r = "s\<lparr>un_kind := Some kind\<rparr>" and ?rest = "drop n (un_pending s @ a)"
      have more: "get_varint ((un_pending s @ a) @ b) = Some (kind, n)" "n \<le> length (un_pending s @ a)"
        using varint.get_more Some kn varint.get_inside by blast+
      have "rbind (uni_body ?rest ?r) (uni_feed b) = uni_body (?rest @ b) ?r" by (rule known) simp
      moreover have "uni_feed (a @ b) s = uni_body (?rest @ b) ?r"
        using True more unfolding uni_feed_def Let_def append_assoc [symmetric] by simp
      moreover have "uni_feed a s = uni_body ?rest ?r" using True Some kn by (simp add: uni_feed_def)
      ultimately show ?thesis by simp
    qed
  qed
qed simp

section \<open>What the readers make of frames\<close>

text \<open>A frame as the peer sends it, and what makes it acceptable on a response stream.\<close>

definition h3_frame :: "nat \<times> bytes \<Rightarrow> bytes" where
  "h3_frame f = put_varint (fst f) @ put_varint (length (snd f)) @ snd f"

definition h3_frame_ok :: "nat \<times> bytes \<Rightarrow> bool" where
  "h3_frame_ok f \<longleftrightarrow> fst f < 2 ^ 62 \<and> length (snd f) < 2 ^ 62
     \<and> (fst f = FRAME_HEADERS \<longrightarrow> (\<exists>found. qpack_find_status (snd f) = Inr found))
     \<and> (fst f = FRAME_GOAWAY \<longrightarrow> length (snd f) \<le> 2 ^ 20)"

lemma frame_header_h3_frame:
  assumes "fst f < 2 ^ 62" "length (snd f) < 2 ^ 62"
  shows "frame_header (h3_frame f @ rest) = Some (fst f, length (snd f), snd f @ rest)"
proof -
  note g1 = varint.get_put [OF assms(1), of "put_varint (length (snd f)) @ snd f @ rest"]
  note g2 = varint.get_put [OF assms(2), of "snd f @ rest"]
  show ?thesis by (simp add: frame_header_def h3_frame_def g1 g2)
qed

text \<open>The status a stream of frames ends with: that of the last field section that has a final one.\<close>

fun frames_status :: "(nat \<times> bytes) list \<Rightarrow> nat \<Rightarrow> nat" where
  "frames_status [] status = status"
| "frames_status (f # fs) status =
     frames_status fs
       (if fst f = FRAME_HEADERS then
          (case qpack_find_status (snd f) of Inr found \<Rightarrow> new_status found status | Inl _ \<Rightarrow> status)
        else status)"

lemma reader_run_frames:
  "list_all h3_frame_ok fs \<Longrightarrow> reader_run 0 status (concat (map h3_frame fs)) = Inr (0, frames_status fs status, [])"
proof (induction fs arbitrary: status)
  case Nil
  have "frame_header [] = None" by (simp add: frame_header_def)
  then show ?case by (simp add: reader_run.simps)
next
  case (Cons f fs)
  then have ok: "h3_frame_ok f" "list_all h3_frame_ok fs" by simp_all
  note fh = frame_header_h3_frame [of f "concat (map h3_frame fs)"]
  show ?case
  proof (cases "fst f = FRAME_HEADERS")
    case True
    then obtain found where "qpack_find_status (snd f) = Inr found" using ok by (auto simp: h3_frame_ok_def)
    then show ?thesis using ok(1) Cons.IH [OF ok(2)] fh True
      by (subst reader_run.simps) (simp add: h3_frame_ok_def)
  next
    case False
    have hd: "frame_header (h3_frame f @ concat (map h3_frame fs)) = Some (fst f, length (snd f), snd f @ concat (map h3_frame fs))"
      by (rule fh) (use ok(1) in \<open>simp_all add: h3_frame_ok_def\<close>)
    have "reader_run 0 status (concat (map h3_frame (f # fs))) = reader_run (length (snd f)) status (snd f @ concat (map h3_frame fs))"
      using ok(1) False hd by (subst reader_run.simps) (auto simp: h3_frame_ok_def)
    also have "\<dots> = reader_run 0 status (concat (map h3_frame fs))" by (simp add: reader_run_skip [of "length (snd f)"])
    finally show ?thesis using ok Cons.IH False by simp
  qed
qed

text \<open>A control stream: the GOAWAY ids it carries never go up.\<close>

fun goaways :: "(nat \<times> bytes) list \<Rightarrow> nat option \<Rightarrow> (h3_error, nat option) result" where
  "goaways [] goaway = Inr goaway"
| "goaways (f # fs) goaway =
     (if fst f = FRAME_GOAWAY then
        if length (snd f) > 8 then Inl Goaway_too_long
        else rbind (goaway_id (snd f) goaway) (\<lambda>sid. goaways fs (Some sid))
      else goaways fs goaway)"

lemma uni_run_frames:
  "list_all (\<lambda>f. fst f < 2 ^ 62 \<and> length (snd f) < 2 ^ 62) fs
   \<Longrightarrow> uni_run 0 goaway (concat (map h3_frame fs)) = rbind (goaways fs goaway) (\<lambda>g. Inr (0, g, []))"
proof (induction fs arbitrary: goaway)
  case Nil
  have "frame_header [] = None" by (simp add: frame_header_def)
  then show ?case by (simp add: uni_run.simps)
next
  case (Cons f fs)
  note fh = frame_header_h3_frame [of f "concat (map h3_frame fs)"]
  show ?case
  proof (cases "fst f = FRAME_GOAWAY")
    case True
    have fs: "list_all (\<lambda>f. fst f < 2 ^ 62 \<and> length (snd f) < 2 ^ 62) fs" using Cons.prems by simp
    have "frame_header (h3_frame f @ concat (map h3_frame fs)) = Some (FRAME_GOAWAY, length (snd f), snd f @ concat (map h3_frame fs))"
      using fh Cons.prems True by simp
    then show ?thesis using Cons.IH [OF fs] True
      by (subst uni_run.simps) (cases "goaway_id (snd f) goaway"; simp)
  next
    case False
    have hd: "frame_header (h3_frame f @ concat (map h3_frame fs)) = Some (fst f, length (snd f), snd f @ concat (map h3_frame fs))"
      by (rule fh) (use Cons.prems in simp_all)
    have "uni_run 0 goaway (concat (map h3_frame (f # fs))) = uni_run (length (snd f)) goaway (snd f @ concat (map h3_frame fs))"
      using False hd by (subst uni_run.simps) simp
    also have "\<dots> = uni_run 0 goaway (concat (map h3_frame fs))" by (simp add: uni_run_skip [of "length (snd f)"])
    finally show ?thesis using Cons False by simp
  qed
qed

lemma request_bytes_frames:
  "request_bytes field_section body
   = concat (map h3_frame ((FRAME_HEADERS, field_section) # (if body \<noteq> [] then [(FRAME_DATA, body)] else [])))"
  by (simp add: request_bytes_def h3_frame_def)


section \<open>Properties\<close>

text \<open>
  However the bytes of a response stream are cut into reads, the reader ends in the same state as if they had
  come at once, error included.
\<close>

theorem response_chunks_irrelevant:
  assumes "ds \<noteq> []"
  shows "feeds reader_feed ds r = reader_feed (concat ds) r"
  using response.feeds_concat [of ds r] assms by simp

theorem response_chunks_irrelevant_witness:
  "feeds reader_feed [[1], [3, 0], [0], [0xd9, 0, 2, 7]] reader_default = reader_feed [1, 3, 0, 0, 0xd9, 0, 2, 7] reader_default"
  using response_chunks_irrelevant [of "[[1], [3, 0], [0], [0xd9, 0, 2, 7]]" reader_default] by simp



text \<open>
  On a control stream of well-formed frames, however cut into reads, the reader reports the last GOAWAY
  id, and refuses a GOAWAY whose id goes up, has no id, or is longer than one.
\<close>

theorem control_goaway_correct:
  assumes "list_all (\<lambda>f. fst f < 2 ^ 62 \<and> length (snd f) < 2 ^ 62) fs" "ds \<noteq> []"
    "concat ds = put_varint STREAM_CONTROL @ concat (map h3_frame fs)"
  shows "feeds uni_feed ds uni_default
    = rbind (goaways fs None) (\<lambda>g. Inr \<lparr>un_kind = Some STREAM_CONTROL, un_pending = [], un_skip = 0, un_goaway = g\<rparr>)"
proof -
  have "get_varint (put_varint STREAM_CONTROL @ concat (map h3_frame fs)) = Some (STREAM_CONTROL, length (put_varint STREAM_CONTROL))"
    by (rule varint.get_put) (simp add: STREAM_CONTROL_def)
  then have "uni_feed (concat ds) uni_default = uni_body (concat (map h3_frame fs)) (uni_default\<lparr>un_kind := Some STREAM_CONTROL\<rparr>)"
    by (simp add: assms(3) uni_feed_def uni_default_def)
  then show ?thesis
    using uni.feeds_concat [of ds uni_default] assms(2) uni_run_frames [OF assms(1), of None]
    by (cases "goaways fs None") (simp_all add: uni_body_def uni_default_def)
qed

theorem control_goaway_correct_witness:
  "feeds uni_feed [[0, 7], [1, 8, 7], [1, 4]] uni_default
   = Inr \<lparr>un_kind = Some STREAM_CONTROL, un_pending = [], un_skip = 0, un_goaway = Some 4\<rparr>"
proof -
  let ?fs = "[(FRAME_GOAWAY, [8]), (FRAME_GOAWAY, [4])]" and ?ds = "[[0, 7], [1, 8, 7], [1, 4]] :: bytes list"
  have "concat ?ds = put_varint STREAM_CONTROL @ concat (map h3_frame ?fs)" by code_simp
  moreover have "goaways ?fs None = Inr (Some 4)" by code_simp
  ultimately show ?thesis using control_goaway_correct [of ?fs ?ds] by (simp add: FRAME_GOAWAY_def)
qed

end
