(* ===== verification/H1_Parse.thy ===== *)
theory H1_Parse
  imports Chunking Status
begin

text \<open>
  The HTTP/1.1 response scanner (\<open>src/http1/parse.rs\<close>). A buffer with a position is the rest of the buffer. An
  error ends the connection and the parser is reset before it is used again, so the state an error leaves behind is
  not modelled.
\<close>

section \<open>Text helpers\<close>

datatype h1_error =
  Not_http1 | Unsupported_version | Malformed_status_line | Invalid_status | Empty_content_length
| Invalid_content_length | Content_length_overflow | Conflicting_content_length | Empty_chunk_size
| Invalid_chunk_size | Chunk_size_overflow | Unterminated_te | Switching_protocols | Invalid_chunk_terminator

text \<open>\<open>memchr\<close> for a newline: the line before it and what follows.\<close>

fun split_line :: "bytes \<Rightarrow> (bytes \<times> bytes) option" where
  "split_line [] = None"
| "split_line (b # buf) =
     (if b = 10 then Some ([], buf) else map_option (\<lambda>(line, rest). (b # line, rest)) (split_line buf))"

definition trim_cr :: "bytes \<Rightarrow> bytes" where
  "trim_cr line = (if line \<noteq> [] \<and> last line = 13 then butlast line else line)"

definition is_ows :: "byte \<Rightarrow> bool" where
  "is_ows b \<longleftrightarrow> b = 32 \<or> b = 9"

definition trim_ows :: "bytes \<Rightarrow> bytes" where
  "trim_ows b = rev (dropWhile is_ows (rev (dropWhile is_ows b)))"

definition ci_eq :: "bytes \<Rightarrow> bytes \<Rightarrow> bool" where
  "ci_eq a b \<longleftrightarrow> length a = length b \<and> list_all2 (\<lambda>x y. x OR 0x20 = y) a b"

definition ci_prefix :: "bytes \<Rightarrow> bytes \<Rightarrow> bool" where
  "ci_prefix line name \<longleftrightarrow> length name \<le> length line \<and> list_all2 (\<lambda>x y. x OR 0x20 = y) (take (length name) line) name"

definition parse_status :: "bytes \<Rightarrow> (h1_error, nat) result" where
  "parse_status b = (if list_all is_ascii_digit (take 3 b) then Inr (three_digits (map unat b)) else Inl Invalid_status)"

fun parse_u64_loop :: "nat \<Rightarrow> bytes \<Rightarrow> (h1_error, nat) result" where
  "parse_u64_loop n [] = Inr n"
| "parse_u64_loop n (c # b) =
     (if \<not> is_ascii_digit c then Inl Invalid_content_length
      else case Option.bind (checked_mul u64_bound n 10) (\<lambda>n. checked_add u64_bound n (unat (c - 48))) of
        None \<Rightarrow> Inl Content_length_overflow
      | Some n \<Rightarrow> parse_u64_loop n b)"

definition parse_u64 :: "bytes \<Rightarrow> (h1_error, nat) result" where
  "parse_u64 b = (if b = [] then Inl Empty_content_length else parse_u64_loop 0 b)"

definition hex_digit :: "byte \<Rightarrow> nat option" where
  "hex_digit c =
     (if 48 \<le> c \<and> c \<le> 57 then Some (unat (c - 48))
      else if 97 \<le> c \<and> c \<le> 102 then Some (unat (c - 97 + 10))
      else if 65 \<le> c \<and> c \<le> 70 then Some (unat (c - 65 + 10))
      else None)"

fun chunk_size_loop :: "nat \<Rightarrow> bytes \<Rightarrow> (h1_error, nat) result" where
  "chunk_size_loop n [] = Inr n"
| "chunk_size_loop n (c # b) =
     (case hex_digit c of
        None \<Rightarrow> Inl Invalid_chunk_size
      | Some d \<Rightarrow>
          (case Option.bind (checked_mul u64_bound n 16) (\<lambda>n. checked_add u64_bound n d) of
             None \<Rightarrow> Inl Chunk_size_overflow
           | Some n \<Rightarrow> chunk_size_loop n b))"

definition parse_chunk_size :: "bytes \<Rightarrow> (h1_error, nat) result" where
  "parse_chunk_size b =
     (let b = trim_ows (takeWhile (\<lambda>c. c \<noteq> 59) b) in
      if b = [] then Inl Empty_chunk_size else chunk_size_loop 0 b)"

text \<open>The loop of \<open>final_coding\<close>: the last coding found, the element being read, and the two flags.\<close>

definition coding_done :: "bool option \<Rightarrow> bytes \<Rightarrow> bool option" where
  "coding_done found element =
     (let coding = trim_ows element in if coding \<noteq> [] then Some (ci_eq coding (ascii ''chunked'')) else found)"

fun coding_loop :: "bool option \<Rightarrow> bytes \<Rightarrow> bool \<Rightarrow> bool \<Rightarrow> bytes \<Rightarrow> (h1_error, bool option) result" where
  "coding_loop found element quoted escaped [] =
     (if quoted then Inl Unterminated_te else Inr (coding_done found element))"
| "coding_loop found element quoted escaped (b # v) =
     (if escaped then coding_loop found (element @ [b]) quoted False v
      else if quoted \<and> b = 92 then coding_loop found (element @ [b]) quoted True v
      else if b = 34 then coding_loop found (element @ [b]) (\<not> quoted) escaped v
      else if \<not> quoted \<and> b = 44 then coding_loop (coding_done found element) [] quoted escaped v
      else coding_loop found (element @ [b]) quoted escaped v)"

definition final_coding :: "bytes \<Rightarrow> (h1_error, bool option) result" where
  "final_coding v =
     (let v = trim_ows v in
      if ci_eq v (ascii ''chunked'') then Inr (Some True) else coding_loop None [] False False v)"

text \<open>\<open>split\<close> at commas.\<close>

fun split_commas :: "bytes \<Rightarrow> bytes list" where
  "split_commas [] = [[]]"
| "split_commas (b # v) =
     (if b = 44 then [] # split_commas v
      else case split_commas v of t # ts \<Rightarrow> (b # t) # ts | [] \<Rightarrow> [[b]])"

section \<open>The head of a response\<close>

datatype body_framing = Exact nat | ChunkSize | Chunk nat | Trailers | Body_eof

record head =
  hd_content_length :: "nat option"
  hd_status :: nat
  hd_http_1_0 :: bool
  hd_te_present :: bool
  hd_te_chunked :: bool
  hd_close :: bool
  hd_keep_alive_token :: bool

record response_head =
  rh_status :: nat
  rh_body :: body_framing
  rh_keep_alive :: bool

definition connection_token :: "bytes \<Rightarrow> head \<Rightarrow> head" where
  "connection_token token h =
     (let token = trim_ows token in
      if ci_eq token (ascii ''close'') then h\<lparr>hd_close := True\<rparr>
      else if ci_eq token (ascii ''keep-alive'') then h\<lparr>hd_keep_alive_token := True\<rparr>
      else h)"

definition head_line :: "bytes \<Rightarrow> head \<Rightarrow> (h1_error, head) result" where
  "head_line line h =
     (let first = hd line OR 0x20 in
      if first = 99 \<and> ci_prefix line (ascii ''content-length:'') then
        rbind (parse_u64 (trim_ows (drop 15 line))) (\<lambda>n.
          if hd_content_length h \<noteq> None \<and> hd_content_length h \<noteq> Some n then Inl Conflicting_content_length
          else Inr (h\<lparr>hd_content_length := Some n\<rparr>))
      else if first = 99 \<and> ci_prefix line (ascii ''connection:'') then
        Inr (fold connection_token (split_commas (drop 11 line)) h)
      else if first = 116 \<and> ci_prefix line (ascii ''transfer-encoding:'') then
        rbind (final_coding (drop 18 line)) (\<lambda>found.
          Inr (case found of
                 Some chunked \<Rightarrow> h\<lparr>hd_te_present := True, hd_te_chunked := chunked\<rparr>
               | None \<Rightarrow> h\<lparr>hd_te_present := True\<rparr>))
      else Inr h)"

definition finish_head :: "head \<Rightarrow> response_head" where
  "finish_head h =
     \<lparr>rh_status = hd_status h,
      rh_body =
        (if hd_te_present h then if hd_te_chunked h then ChunkSize else Body_eof
         else case hd_content_length h of Some n \<Rightarrow> Exact n | None \<Rightarrow> Body_eof),
      rh_keep_alive =
        (if hd_http_1_0 h then hd_keep_alive_token h \<and> \<not> hd_close h \<and> \<not> hd_te_present h
         else \<not> hd_close h)\<rparr>"

definition status_line :: "bytes \<Rightarrow> nat \<Rightarrow> (h1_error, head) result" where
  "status_line buf nl =
     (if nl < 12 \<or> take 7 buf \<noteq> ascii ''HTTP/1.'' then Inl Not_http1
      else if buf ! 7 \<noteq> 48 \<and> buf ! 7 \<noteq> 49 then Inl Unsupported_version
      else if buf ! 8 \<noteq> 32 then Inl Malformed_status_line
      else rbind (parse_status (take 3 (drop 9 buf))) (\<lambda>status.
        if buf ! 12 = 32 \<or> buf ! 12 = 13 \<or> buf ! 12 = 10 then
          Inr \<lparr>hd_content_length = None, hd_status = status, hd_http_1_0 = (buf ! 7 = 48), hd_te_present = False,
               hd_te_chunked = False, hd_close = False, hd_keep_alive_token = False\<rparr>
        else Inl Malformed_status_line))"

lemma split_line_Some: "split_line buf = Some (line, rest) \<longleftrightarrow> buf = line @ 10 # rest \<and> 10 \<notin> set line"
proof (induction buf arbitrary: line)
  case (Cons b buf)
  then show ?case by (cases line) auto
qed simp

lemma split_line_shorter: "split_line buf = Some (line, rest) \<Longrightarrow> length rest < length buf"
  by (auto simp: split_line_Some)

text \<open>
  The loop over header lines: the rest of the buffer and either the head so far or the finished one.
\<close>

function head_lines :: "head \<Rightarrow> bytes \<Rightarrow> (h1_error, bytes \<times> (head + response_head)) result" where
  "head_lines h buf =
     (case split_line buf of
        None \<Rightarrow> Inr (buf, Inl h)
      | Some (line, rest) \<Rightarrow>
          let line = trim_cr line in
          if line = [] then Inr (rest, Inr (finish_head h))
          else (case head_line line h of Inl e \<Rightarrow> Inl e | Inr h \<Rightarrow> head_lines h rest))"
  by pat_completeness auto
termination by (relation "measure (\<lambda>(_, buf). length buf)") (auto dest: split_line_shorter)

declare head_lines.simps [simp del]

text \<open>\<open>scan_head\<close>: the rest of the buffer, the partial head left behind, and the complete one if there is one.\<close>

fun head_out :: "bytes \<times> (head + response_head) \<Rightarrow> bytes \<times> head option \<times> response_head option" where
  "head_out (rest, Inl h) = (rest, Some h, None)"
| "head_out (rest, Inr rh) = (rest, None, Some rh)"

definition scan_head :: "bytes \<Rightarrow> head option \<Rightarrow> (h1_error, bytes \<times> head option \<times> response_head option) result" where
  "scan_head buf partial =
     (case partial of
        Some h \<Rightarrow> rbind (head_lines h buf) (\<lambda>out. Inr (head_out out))
      | None \<Rightarrow>
          (case split_line buf of
             None \<Rightarrow> Inr (buf, None, None)
           | Some (line, rest) \<Rightarrow>
               rbind (status_line buf (length line)) (\<lambda>h.
               rbind (head_lines h rest) (\<lambda>out. Inr (head_out out)))))"


section \<open>The parser\<close>

datatype parser_state = In_head | In_body body_framing

record parser =
  ps_pending :: bytes
  ps_state :: parser_state
  ps_partial :: "head option"
  ps_status :: nat
  ps_keep_alive :: bool
  ps_head_request :: bool

definition parser_new :: parser where
  "parser_new = \<lparr>ps_pending = [], ps_state = In_head, ps_partial = None, ps_status = 0, ps_keep_alive = True,
     ps_head_request = False\<rparr>"

definition parser_reset :: "parser \<Rightarrow> parser" where
  "parser_reset p = p\<lparr>ps_pending := [], ps_partial := None, ps_state := In_head, ps_status := 0, ps_keep_alive := True\<rparr>"

definition set_head_request :: "bool \<Rightarrow> parser \<Rightarrow> parser" where
  "set_head_request head p = p\<lparr>ps_head_request := head\<rparr>"

definition mark_eof :: "parser \<Rightarrow> bool \<times> parser" where
  "mark_eof p =
     (if ps_state p = In_body Body_eof then (True, p\<lparr>ps_state := In_head, ps_keep_alive := False\<rparr>) else (False, p))"

definition no_body_status :: "nat \<Rightarrow> bool" where
  "no_body_status status \<longleftrightarrow> status = 204 \<or> status = 304"

text \<open>
  One turn of the loop of \<open>run\<close>: it returns, with the parser and the bytes it did not use, or goes on with a
  parser, the responses it completed and the rest of the buffer.
\<close>

datatype 's turn = Halt 's bytes | Go 's nat bytes

definition head_turn :: "parser \<Rightarrow> bytes \<Rightarrow> (h1_error, parser turn) result" where
  "head_turn p buf =
     rbind (scan_head buf (ps_partial p)) (\<lambda>(rest, partial, complete).
       let p = p\<lparr>ps_partial := partial\<rparr> in
       case complete of
         None \<Rightarrow> Inr (Halt p rest)
       | Some rh \<Rightarrow>
           if is_informational (rh_status rh) then
             if rh_status rh = 101 then Inl Switching_protocols else Inr (Go (p\<lparr>ps_state := In_head\<rparr>) 0 rest)
           else
             let body = (if ps_head_request p \<or> no_body_status (rh_status rh) then Exact 0 else rh_body rh) in
             Inr (Go (p\<lparr>ps_status := rh_status rh, ps_keep_alive := (rh_keep_alive rh \<and> body \<noteq> Body_eof),
                        ps_state := In_body body\<rparr>) 0 rest))"

text \<open>The bytes of a chunk's terminator among those just taken, when \<open>left\<close> bytes of the chunk are still to come.\<close>

definition terminator_ok :: "bytes \<Rightarrow> nat \<Rightarrow> bool" where
  "terminator_ok taken left =
     (if left < 2 \<and> taken \<noteq> [] then
        let end = 2 - left; len = min (length taken) end in
        drop (length taken - len) taken = take len (drop (end - len) [13, 10])
      else True)"

fun body_turn :: "body_framing \<Rightarrow> parser \<Rightarrow> bytes \<Rightarrow> (h1_error, parser turn) result" where
  "body_turn (Exact n) p buf =
     (if n = 0 then Inr (Go (p\<lparr>ps_state := In_head\<rparr>) 1 buf)
      else let tk = min n (length buf); p = p\<lparr>ps_state := In_body (Exact (n - tk))\<rparr> in
        if tk = length buf \<and> n > tk then Inr (Halt p (drop tk buf)) else Inr (Go p 0 (drop tk buf)))"
| "body_turn ChunkSize p buf =
     (case split_line buf of
        None \<Rightarrow> Inr (Halt p buf)
      | Some (line, rest) \<Rightarrow>
          rbind (parse_chunk_size (trim_cr line)) (\<lambda>sz.
            if sz = 0 then Inr (Go (p\<lparr>ps_state := In_body Trailers\<rparr>) 0 rest)
            else case checked_add u64_bound sz 2 of
              None \<Rightarrow> Inl Chunk_size_overflow
            | Some want \<Rightarrow> Inr (Go (p\<lparr>ps_state := In_body (Chunk want)\<rparr>) 0 rest)))"
| "body_turn (Chunk n) p buf =
     (let tk = min n (length buf) in
      if \<not> terminator_ok (take tk buf) (n - tk) then Inl Invalid_chunk_terminator
      else if tk < n then Inr (Halt (p\<lparr>ps_state := In_body (Chunk (n - tk))\<rparr>) (drop tk buf))
      else Inr (Go (p\<lparr>ps_state := In_body ChunkSize\<rparr>) 0 (drop tk buf)))"
| "body_turn Trailers p buf =
     (case split_line buf of
        None \<Rightarrow> Inr (Halt p buf)
      | Some (line, rest) \<Rightarrow>
          if trim_cr line = [] then Inr (Go (p\<lparr>ps_state := In_head\<rparr>) 1 rest) else Inr (Go p 0 rest))"
| "body_turn Body_eof p buf = Inr (Halt p [])"

definition parser_turn :: "parser \<Rightarrow> bytes \<Rightarrow> (h1_error, parser turn) result" where
  "parser_turn p buf = (case ps_state p of In_head \<Rightarrow> head_turn p buf | In_body b \<Rightarrow> body_turn b p buf)"

text \<open>Every turn that goes on uses bytes, or leaves a state that only waits to be left.\<close>

definition state_rank :: "parser_state \<Rightarrow> nat" where
  "state_rank s = (if s = In_body (Exact 0) \<or> s = In_body (Chunk 0) then 1 else 0)"

lemma head_lines_shorter:
  "head_lines h buf = Inr (rest, out) \<Longrightarrow> length rest \<le> length buf \<and> (\<forall>rh. out = Inr rh \<longrightarrow> length rest < length buf)"
proof (induction h buf rule: head_lines.induct)
  case (1 h buf)
  show ?case
  proof (cases "split_line buf")
    case None
    then show ?thesis using "1.prems" by (auto simp: head_lines.simps [of h buf])
  next
    case (Some lr)
    then obtain line r where lr: "split_line buf = Some (line, r)" by (cases lr) auto
    then have shorter: "length r < length buf" by (rule split_line_shorter)
    show ?thesis
    proof (cases "trim_cr line = []")
      case True
      then show ?thesis using "1.prems" shorter by (auto simp: head_lines.simps [of h buf] lr)
    next
      case False
      then obtain h' where "head_line (trim_cr line) h = Inr h'" "head_lines h' r = Inr (rest, out)"
        using "1.prems" by (auto simp: head_lines.simps [of h buf] lr split: sum.splits)
      then show ?thesis using "1.IH" [OF lr refl refl False] shorter by fastforce
    qed
  qed
qed

lemma scan_head_complete: "scan_head buf partial = Inr (rest, part, Some rh) \<Longrightarrow> length rest < length buf"
  by (auto simp: scan_head_def elim!: head_out.elims dest!: head_lines_shorter split_line_shorter split: option.splits)

lemma turn_progress:
  assumes "parser_turn p buf = Inr (Go q d rest)"
  shows "length rest < length buf \<or> length rest = length buf \<and> state_rank (ps_state q) < state_rank (ps_state p)"
proof (cases "ps_state p")
  case In_head
  then have "length rest < length buf"
    using assms by (auto simp: parser_turn_def head_turn_def Let_def dest!: scan_head_complete split: option.splits if_splits)
  then show ?thesis by simp
next
  case (In_body b)
  then show ?thesis using assms
    by (cases b) (auto simp: parser_turn_def state_rank_def Let_def min_def dest!: split_line_shorter split: option.splits if_splits)
qed

function parser_run :: "parser \<Rightarrow> bytes \<Rightarrow> (h1_error, nat \<times> parser \<times> bytes) result" where
  "parser_run p buf =
     (case parser_turn p buf of
        Inl e \<Rightarrow> Inl e
      | Inr (Halt q rest) \<Rightarrow> Inr (0, q, rest)
      | Inr (Go q d rest) \<Rightarrow> rbind (parser_run q rest) (\<lambda>(done, q, rest). Inr (d + done, q, rest)))"
  by pat_completeness auto
termination
  by (relation "measure (\<lambda>(p, buf). 2 * length buf + state_rank (ps_state p))")
    (auto dest!: turn_progress simp: state_rank_def split: if_splits)

declare parser_run.simps [simp del]


text \<open>
  \<open>feed\<close>: with an unfinished line pending, only the new bytes are searched for its end; the line is then run on
  its own and the rest of the read in place.
\<close>

definition parser_feed :: "bytes \<Rightarrow> parser \<Rightarrow> (h1_error, nat \<times> parser) result" where
  "parser_feed data p =
     (if ps_pending p = [] then
        rbind (parser_run p data) (\<lambda>(done, q, rest). Inr (done, q\<lparr>ps_pending := rest\<rparr>))
      else case split_line data of
        None \<Rightarrow> Inr (0, p\<lparr>ps_pending := ps_pending p @ data\<rparr>)
      | Some (front, back') \<Rightarrow>
          rbind (parser_run (p\<lparr>ps_pending := []\<rparr>) (ps_pending p @ front @ [10])) (\<lambda>(done, q, _).
          rbind (parser_run q back') (\<lambda>(m, q, rest). Inr (done + m, q\<lparr>ps_pending := rest\<rparr>))))"

section \<open>Independence of chunk boundaries\<close>

lemma split_line_append: "split_line a = Some (line, rest) \<Longrightarrow> split_line (a @ b) = Some (line, rest @ b)"
  by (auto simp: split_line_Some)

lemma split_line_None: "split_line a = None \<longleftrightarrow> 10 \<notin> set a"
  by (induction a) auto

lemma head_lines_append:
  "head_lines h (a @ b) = rbind (head_lines h a) (\<lambda>(rest, out).
     case out of Inl h \<Rightarrow> head_lines h (rest @ b) | Inr rh \<Rightarrow> Inr (rest @ b, Inr rh))"
proof (induction h a rule: head_lines.induct)
  case (1 h a)
  show ?case
  proof (cases "split_line a")
    case None
    then show ?thesis by (simp add: head_lines.simps [of h a])
  next
    case (Some lr)
    obtain line r where lr: "lr = (line, r)" by fastforce
    note sp = Some [unfolded lr] and sp' = split_line_append [OF Some [unfolded lr], of b]
    show ?thesis using "1.IH" [OF sp refl refl]
      by (simp add: head_lines.simps [of h a] head_lines.simps [of h "a @ b"] sp sp' Let_def split: sum.split)
  qed
qed

lemma status_line_append: "nl < length a \<Longrightarrow> status_line (a @ b) nl = status_line a nl"
proof (cases "nl < 12")
  case False
  assume "nl < length a"
  with False have "(a @ b) ! 7 = a ! 7" "(a @ b) ! 8 = a ! 8" "(a @ b) ! 12 = a ! 12" "12 < length a"
    by (simp_all add: nth_append)
  then show ?thesis by (simp add: status_line_def cong: if_cong)
qed (simp add: status_line_def)

text \<open>How one turn behaves when more bytes follow.\<close>

definition turn_more :: "bytes \<Rightarrow> (h1_error, parser turn) result \<Rightarrow> (bytes \<Rightarrow> (h1_error, parser turn) result) \<Rightarrow> bool" where
  "turn_more b before after \<longleftrightarrow>
     (case before of
        Inl e \<Rightarrow> after b = Inl e
      | Inr (Go q d rest) \<Rightarrow> after b = Inr (Go q d (rest @ b))
      | Inr (Halt q rest) \<Rightarrow> after b = parser_turn q (rest @ b))"

lemma scan_head_append:
  "scan_head (a @ b) partial = rbind (scan_head a partial) (\<lambda>(rest, partial, complete).
     case complete of Some rh \<Rightarrow> Inr (rest @ b, None, Some rh) | None \<Rightarrow> scan_head (rest @ b) partial)"
proof -
  have lines: "rbind (head_lines h (x @ b)) (\<lambda>out. Inr (head_out out))
      = rbind (rbind (head_lines h x) (\<lambda>out. Inr (head_out out))) (\<lambda>(rest, partial, complete).
          case complete of Some rh \<Rightarrow> Inr (rest @ b, None, Some rh) | None \<Rightarrow> scan_head (rest @ b) partial)" for h x
    unfolding head_lines_append [of h x b]
    by (cases "head_lines h x") (auto simp: scan_head_def split: sum.split)
  show ?thesis
  proof (cases partial)
    case (Some h)
    then show ?thesis using lines [of h a] by (simp add: scan_head_def)
  next
    case None
    show ?thesis
    proof (cases "split_line a")
      case None
      then show ?thesis using \<open>partial = None\<close> by (simp add: scan_head_def)
    next
      case (Some lr)
      obtain line r where lr: "lr = (line, r)" by fastforce
      note sp = Some [unfolded lr] and sp' = split_line_append [OF Some [unfolded lr], of b]
      have "length line < length a" using sp by (simp add: split_line_Some)
      then show ?thesis using lines \<open>partial = None\<close>
        by (cases "status_line a (length line)") (simp_all add: scan_head_def sp sp' status_line_append)
    qed
  qed
qed


text \<open>The terminator check, by position: byte \<open>n - 2\<close> of the rest of the chunk is CR and byte \<open>n - 1\<close> is LF.\<close>

lemma drop_take_last: "Suc k \<le> length buf \<Longrightarrow> drop k (take (Suc k) buf) = [buf ! k]"
  by (simp add: take_Suc_conv_app_nth)

lemma drop_take_last2: "Suc (Suc k) \<le> length buf \<Longrightarrow> drop k (take (Suc (Suc k)) buf) = [buf ! k, buf ! Suc k]"
  by (simp add: take_Suc_conv_app_nth)

lemma terminator_by_position:
  "terminator_ok (take (min n (length buf)) buf) (n - min n (length buf))
   \<longleftrightarrow> (\<forall>j < length buf. (j + 2 = n \<longrightarrow> buf ! j = 13) \<and> (j + 1 = n \<longrightarrow> buf ! j = 10))"
proof -
  consider (more) "length buf + 2 \<le> n" | (cr) "n = Suc (length buf)" | (zero) "n = 0" | (lf) "n = 1" "1 \<le> length buf"
    | (both) k where "n = Suc (Suc k)" "n \<le> length buf"
  proof -
    show thesis if "\<And>k. n = Suc (Suc k) \<Longrightarrow> n \<le> length buf \<Longrightarrow> thesis" "n = 0 \<Longrightarrow> thesis"
      "n = 1 \<Longrightarrow> 1 \<le> length buf \<Longrightarrow> thesis" "n = Suc (length buf) \<Longrightarrow> thesis" "length buf + 2 \<le> n \<Longrightarrow> thesis"
      using that by (cases n rule: nat.exhaust) (auto, metis Suc_lessI linorder_not_le nat.exhaust less_Suc_eq_le)
  qed
  then show ?thesis
  proof cases
    case more
    then show ?thesis by (auto simp: terminator_ok_def)
  next
    case cr
    show ?thesis
    proof (cases "length buf")
      case 0
      then show ?thesis using cr by (simp add: terminator_ok_def)
    next
      case (Suc k)
      then have "drop k buf = [buf ! k]" by (metis Cons_nth_drop_Suc drop_all lessI order_refl)
      then show ?thesis using cr Suc by (auto simp: terminator_ok_def)
    qed
  next
    case zero
    then show ?thesis by (simp add: terminator_ok_def)
  next
    case lf
    then show ?thesis using drop_take_last [of 0 buf] by (auto simp: terminator_ok_def)
  next
    case (both k)
    then have "terminator_ok (take (min n (length buf)) buf) (n - min n (length buf)) \<longleftrightarrow> [buf ! k, buf ! Suc k] = [13, 10]"
      using drop_take_last2 [of k buf] by (auto simp: terminator_ok_def Let_def)
    moreover have "k < length buf" "Suc k < length buf" using both by simp_all
    then have "(\<forall>j < length buf. (j + 2 = n \<longrightarrow> buf ! j = 13) \<and> (j + 1 = n \<longrightarrow> buf ! j = 10)) \<longleftrightarrow> buf ! k = 13 \<and> buf ! Suc k = 10"
      using both(1) by (metis Suc_eq_plus1 Suc_inject add_2_eq_Suc')
    ultimately show ?thesis by simp
  qed
qed

text \<open>So checking a chunk piece by piece is checking it whole.\<close>

lemma terminator_split:
  assumes "length a < n"
  shows "terminator_ok (take (min n (length (a @ b))) (a @ b)) (n - min n (length (a @ b)))
    \<longleftrightarrow> terminator_ok (take (min n (length a)) a) (n - min n (length a))
      \<and> terminator_ok (take (min (n - length a) (length b)) b) (n - length a - min (n - length a) (length b))"
proof -
  have split: "(\<forall>j < length (a @ b). P j ((a @ b) ! j)) \<longleftrightarrow> (\<forall>j < length a. P j (a ! j)) \<and> (\<forall>j < length b. P (length a + j) (b ! j))"
    for P :: "nat \<Rightarrow> byte \<Rightarrow> bool"
  proof (intro iffI conjI allI impI)
    fix j
    assume *: "\<forall>j < length (a @ b). P j ((a @ b) ! j)"
    show "j < length a \<Longrightarrow> P j (a ! j)" using * by (metis length_append nth_append trans_less_add1)
    show "j < length b \<Longrightarrow> P (length a + j) (b ! j)" using *  by (metis length_append nat_add_left_cancel_less nth_append_length_plus)
  next
    fix j
    assume *: "(\<forall>j < length a. P j (a ! j)) \<and> (\<forall>j < length b. P (length a + j) (b ! j))" "j < length (a @ b)"
    show "P j ((a @ b) ! j)"
      using * by (cases "j < length a") (auto simp: nth_append dest!: spec [of _ "j - length a"])
  qed
  show ?thesis
    unfolding terminator_by_position split [of "\<lambda>j c. (j + 2 = n \<longrightarrow> c = 13) \<and> (j + 1 = n \<longrightarrow> c = 10)"]
    using assms by (auto simp: less_diff_conv)
qed


lemma head_turn_append:
  assumes "ps_state p = In_head"
  shows "turn_more b (head_turn p a) (\<lambda>b. head_turn p (a @ b))"
proof (cases "scan_head a (ps_partial p)")
  case (Inl e)
  then show ?thesis by (simp add: turn_more_def head_turn_def scan_head_append [of a b])
next
  case (Inr out)
  obtain rest partial complete where out: "out = (rest, partial, complete)" by (cases out)
  show ?thesis
  proof (cases complete)
    case None
    then show ?thesis using assms Inr out
      by (simp add: turn_more_def head_turn_def scan_head_append [of a b] parser_turn_def)
  next
    case (Some rh)
    moreover have "partial = None" using Inr out Some
      by (auto simp: scan_head_def elim: head_out.elims split: option.splits)
    ultimately show ?thesis using Inr out
      by (simp add: turn_more_def head_turn_def scan_head_append [of a b] Let_def)
  qed
qed

lemma exact_turn_append:
  assumes "ps_state p = In_body (Exact n)"
  shows "turn_more b (body_turn (Exact n) p a) (\<lambda>b. body_turn (Exact n) p (a @ b))"
proof (cases "n = 0 \<or> n \<le> length a")
  case True
  then show ?thesis by (auto simp: turn_more_def Let_def min_def)
next
  case False
  then show ?thesis by (auto simp: turn_more_def parser_turn_def Let_def min_def)
qed

lemma chunk_turn_append:
  assumes "ps_state p = In_body (Chunk n)"
  shows "turn_more b (body_turn (Chunk n) p a) (\<lambda>b. body_turn (Chunk n) p (a @ b))"
proof (cases "n \<le> length a")
  case True
  then show ?thesis by (simp add: turn_more_def)
next
  case False
  then have "length a < n" by simp
  note t = terminator_split [OF this, of b]
  have "n - length a = 0 \<longleftrightarrow> False" using False by simp
  then show ?thesis using False t
    by (auto simp: turn_more_def parser_turn_def Let_def min_def not_le)
qed

lemma parser_turn_append: "turn_more b (parser_turn p a) (\<lambda>b. parser_turn p (a @ b))"
proof (cases "ps_state p")
  case In_head
  then show ?thesis using head_turn_append [of p b a] by (simp add: parser_turn_def)
next
  case (In_body f)
  show ?thesis
  proof (cases f)
    case (Exact n)
    then show ?thesis using In_body exact_turn_append [of p n b a] by (simp add: parser_turn_def)
  next
    case (Chunk n)
    then show ?thesis using In_body chunk_turn_append [of p n b a] by (simp add: parser_turn_def)
  next
    case ChunkSize
    show ?thesis
    proof (cases "split_line a")
      case None
      then show ?thesis using In_body ChunkSize by (simp add: turn_more_def parser_turn_def)
    next
      case (Some lr)
      then obtain line r where lr: "split_line a = Some (line, r)" "split_line (a @ b) = Some (line, r @ b)"
        using split_line_append by (cases lr) auto
      show ?thesis using In_body ChunkSize
        by (cases "parse_chunk_size (trim_cr line)")
          (auto simp: turn_more_def parser_turn_def lr split: option.split)
    qed
  next
    case Trailers
    then show ?thesis using In_body
      by (cases "split_line a") (auto simp: turn_more_def parser_turn_def split_line_append)
  next
    case Body_eof
    then show ?thesis using In_body by (simp add: turn_more_def parser_turn_def)
  qed
qed

lemma parser_run_append:
  "parser_run p (a @ b) = rbind (parser_run p a) (\<lambda>(done, q, rest).
     rbind (parser_run q (rest @ b)) (\<lambda>(m, q, rest). Inr (done + m, q, rest)))"
proof (induction p a rule: parser_run.induct)
  case (1 p a)
  note more = parser_turn_append [of b p a]
  show ?case
  proof (cases "parser_turn p a")
    case (Inl e)
    then show ?thesis using more by (simp add: turn_more_def parser_run.simps [of p])
  next
    case (Inr t)
    show ?thesis
    proof (cases t)
      case (Halt q rest)
      then have "parser_turn p (a @ b) = parser_turn q (rest @ b)" using more Inr by (simp add: turn_more_def)
      then have "parser_run p (a @ b) = parser_run q (rest @ b)" by (simp add: parser_run.simps [of p] parser_run.simps [of q])
      moreover have "parser_run p a = Inr (0, q, rest)" using Inr Halt by (simp add: parser_run.simps [of p])
      ultimately show ?thesis by (cases "parser_run q (rest @ b)") auto
    next
      case (Go q d rest)
      then have "parser_turn p (a @ b) = Inr (Go q d (rest @ b))" using more Inr by (simp add: turn_more_def)
      then show ?thesis using "1.IH" [OF Inr Go] Inr Go
        by (cases "parser_run q rest") (auto simp: parser_run.simps [of p] split_def rbind_def split: sum.splits)
    qed
  qed
qed


text \<open>What \<open>run\<close> leaves unused is at most one unfinished line, and only in a state that reads lines.\<close>

fun line_state :: "parser_state \<Rightarrow> bool" where
  "line_state In_head = True"
| "line_state (In_body f) = (f = ChunkSize \<or> f = Trailers)"

definition unfinished :: "bytes \<Rightarrow> parser \<Rightarrow> bool" where
  "unfinished buf p \<longleftrightarrow> buf = [] \<or> 10 \<notin> set buf \<and> line_state (ps_state p)"

lemma head_lines_rest:
  "head_lines h buf = Inr (rest, out) \<Longrightarrow> (\<exists>used. buf = used @ rest) \<and> (\<forall>h. out = Inl h \<longrightarrow> 10 \<notin> set rest)"
proof (induction h buf rule: head_lines.induct)
  case (1 h buf)
  show ?case
  proof (cases "split_line buf")
    case None
    then show ?thesis using "1.prems" split_line_None [of buf] by (auto simp: head_lines.simps [of h buf])
  next
    case (Some lr)
    then obtain line r where lr: "split_line buf = Some (line, r)" by (cases lr) auto
    then have buf: "buf = (line @ [10]) @ r" by (simp add: split_line_Some)
    show ?thesis
    proof (cases "trim_cr line = []")
      case True
      then have "rest = r \<and> out = Inr (finish_head h)" using "1.prems" by (auto simp: head_lines.simps [of h buf] lr)
      then show ?thesis using buf by blast
    next
      case False
      then have "(case head_line (trim_cr line) h of Inl e \<Rightarrow> Inl e | Inr h \<Rightarrow> head_lines h r) = Inr (rest, out)"
        using "1.prems" unfolding head_lines.simps [of h buf] lr by simp
      then obtain h' where "head_line (trim_cr line) h = Inr h'" "head_lines h' r = Inr (rest, out)"
        by (auto split: sum.splits)
      then have "(\<exists>used. r = used @ rest) \<and> (\<forall>h. out = Inl h \<longrightarrow> 10 \<notin> set rest)"
        using "1.IH" [OF lr refl refl False] by simp
      then obtain used where "r = used @ rest" "\<forall>h. out = Inl h \<longrightarrow> 10 \<notin> set rest" by blast
      then show ?thesis using buf by simp
    qed
  qed
qed

lemma scan_head_rest:
  assumes "scan_head buf partial = Inr (rest, part, complete)"
  shows "\<exists>used. buf = used @ rest" "complete = None \<Longrightarrow> 10 \<notin> set rest"
proof -
  have "(\<exists>used. buf = used @ rest) \<and> (complete = None \<longrightarrow> 10 \<notin> set rest)"
  proof (cases partial)
    case (Some h)
    then obtain o' where "head_lines h buf = Inr o'" "head_out o' = (rest, part, complete)"
      using assms by (auto simp: scan_head_def)
    then show ?thesis using head_lines_rest [of h buf] by (cases o' rule: head_out.cases) auto
  next
    case None
    show ?thesis
    proof (cases "split_line buf")
      case None
      then show ?thesis using assms \<open>partial = None\<close> split_line_None [of buf] by (auto simp: scan_head_def)
    next
      case (Some lr)
      then obtain line r h o' where lr: "split_line buf = Some (line, r)" "head_lines h r = Inr o'" "head_out o' = (rest, part, complete)"
        using assms \<open>partial = None\<close> by (cases lr) (auto simp: scan_head_def)
      then have "buf = (line @ [10]) @ r" by (simp add: split_line_Some)
      moreover have "(\<exists>used. r = used @ rest) \<and> (complete = None \<longrightarrow> 10 \<notin> set rest)"
        using lr(2,3) head_lines_rest [of h r] by (cases o' rule: head_out.cases) auto
      ultimately show ?thesis by (metis append_assoc)
    qed
  qed
  then show "\<exists>used. buf = used @ rest" "complete = None \<Longrightarrow> 10 \<notin> set rest" by blast+
qed

lemma turn_rest:
  assumes "parser_turn p buf = Inr t"
  shows "case t of
      Halt q rest \<Rightarrow> (\<exists>used. buf = used @ rest) \<and> unfinished rest q \<and> ps_pending q = ps_pending p
    | Go q d rest \<Rightarrow> (\<exists>used. buf = used @ rest) \<and> ps_pending q = ps_pending p"
proof (cases "ps_state p")
  case In_head
  then obtain rest partial complete where sh: "scan_head buf (ps_partial p) = Inr (rest, partial, complete)"
    using assms by (auto simp: parser_turn_def head_turn_def)
  have t: "complete = None \<Longrightarrow> t = Halt (p\<lparr>ps_partial := partial\<rparr>) rest"
      "complete \<noteq> None \<Longrightarrow> \<exists>q. t = Go q 0 rest \<and> ps_pending q = ps_pending p"
    using assms In_head by (auto simp: parser_turn_def head_turn_def sh Let_def split: if_splits)
  show ?thesis
  proof (cases complete)
    case None
    then show ?thesis using t(1) scan_head_rest [OF sh] In_head by (auto simp: unfinished_def)
  next
    case (Some rh)
    then show ?thesis using t(2) scan_head_rest(1) [OF sh] by auto
  qed
next
  case (In_body f)
  have suffix: "\<exists>used. buf = used @ drop k buf" for k by (metis append_take_drop_id)
  have line: "split_line buf = Some (line, r) \<Longrightarrow> \<exists>used. buf = used @ r" for line r
    by (metis append.assoc append_Cons append_Nil split_line_Some)
  note turn = assms [unfolded parser_turn_def In_body parser_state.case]
  show ?thesis
  proof (cases f)
    case (Exact n)
    then show ?thesis using turn suffix by (auto simp: unfinished_def Let_def split: if_splits)
  next
    case (Chunk n)
    then show ?thesis using turn suffix by (auto simp: unfinished_def Let_def split: if_splits)
  next
    case Body_eof
    then show ?thesis using turn by (auto simp: unfinished_def)
  next
    case ChunkSize
    then show ?thesis using turn In_body line split_line_None [of buf]
      by (cases "split_line buf") (auto simp: unfinished_def split: option.splits if_splits)
  next
    case Trailers
    then show ?thesis using turn In_body line split_line_None [of buf]
      by (cases "split_line buf") (auto simp: unfinished_def split: if_splits)
  qed
qed

lemma run_rest:
  "parser_run p buf = Inr (d, q, rest) \<Longrightarrow> (\<exists>used. buf = used @ rest) \<and> unfinished rest q \<and> ps_pending q = ps_pending p"
proof (induction p buf arbitrary: d rule: parser_run.induct)
  case (1 p buf)
  then obtain t where t: "parser_turn p buf = Inr t" by (cases "parser_turn p buf") (auto simp: parser_run.simps [of p])
  show ?case
  proof (cases t)
    case (Halt q' rest')
    then show ?thesis using "1.prems" t turn_rest [OF t] by (auto simp: parser_run.simps [of p])
  next
    case (Go q' d' rest')
    then obtain d'' where "parser_run q' rest' = Inr (d'', q, rest)"
      using "1.prems" t by (auto simp: parser_run.simps [of p])
    then have "(\<exists>used. rest' = used @ rest) \<and> unfinished rest q \<and> ps_pending q = ps_pending q'"
      using "1.IH" [OF t Go] by blast
    moreover obtain used where "buf = used @ rest'" "ps_pending q' = ps_pending p" using turn_rest [OF t] Go by auto
    ultimately show ?thesis by (metis append_assoc)
  qed
qed

lemma run_unfinished:
  assumes "unfinished buf p" "buf \<noteq> []"
  shows "parser_run p buf = Inr (0, p, buf)"
proof -
  have none: "split_line buf = None" "line_state (ps_state p)" using assms by (auto simp: unfinished_def split_line_None)
  have "scan_head buf partial = Inr (buf, partial, None)" for partial
    using none by (cases partial) (simp_all add: scan_head_def head_lines.simps)
  then have "parser_turn p buf = Inr (Halt p buf)"
    using none by (cases "ps_state p") (auto simp: parser_turn_def head_turn_def)
  then show ?thesis by (simp add: parser_run.simps)
qed


text \<open>The parser between two reads, and \<open>feed\<close> as one run over everything not yet used.\<close>

definition parser_ok :: "parser \<Rightarrow> bool" where
  "parser_ok p \<longleftrightarrow> unfinished (ps_pending p) p"

lemma parser_new_ok: "parser_ok parser_new"
  by (simp add: parser_ok_def parser_new_def unfinished_def)

lemma run_line:
  assumes "10 \<notin> set line" "parser_run p (line @ [10]) = Inr (d, q, rest)"
  shows "rest = []"
proof -
  obtain used where used: "line @ [10] = used @ rest" and "10 \<notin> set rest"
    using run_rest [OF assms(2)] by (auto simp: unfinished_def)
  show ?thesis
  proof (rule ccontr)
    assume "rest \<noteq> []"
    then have "last rest = last (line @ [10])" unfolding used by simp
    then show False using \<open>rest \<noteq> []\<close> \<open>10 \<notin> set rest\<close> last_in_set by fastforce
  qed
qed

lemma parser_feed_run:
  assumes "parser_ok p"
  shows "parser_feed data p =
    rbind (parser_run (p\<lparr>ps_pending := []\<rparr>) (ps_pending p @ data)) (\<lambda>(done, q, rest). Inr (done, q\<lparr>ps_pending := rest\<rparr>))"
proof (cases "ps_pending p = []")
  case True
  then have eq: "p\<lparr>ps_pending := []\<rparr> = p" by (metis parser.surjective parser.update_convs(1))
  show ?thesis unfolding eq using True by (simp add: parser_feed_def)
next
  case False
  let ?p = "p\<lparr>ps_pending := []\<rparr>"
  have pend: "10 \<notin> set (ps_pending p)" "line_state (ps_state p)" using assms False by (auto simp: parser_ok_def unfinished_def)
  show ?thesis
  proof (cases "split_line data")
    case None
    then have "unfinished (ps_pending p @ data) ?p" using pend by (auto simp: unfinished_def split_line_None)
    then show ?thesis using False None run_unfinished [of "ps_pending p @ data" ?p] by (simp add: parser_feed_def)
  next
    case (Some lr)
    obtain front after where lr: "lr = (front, after)" by fastforce
    then have data: "data = front @ [10] @ after" "10 \<notin> set (ps_pending p @ front)"
      using Some pend(1) by (auto simp: split_line_Some)
    let ?line = "(ps_pending p @ front) @ [10]"
    have "parser_run ?p (ps_pending p @ data) = rbind (parser_run ?p ?line) (\<lambda>(done, q, rest).
        rbind (parser_run q (rest @ after)) (\<lambda>(m, q, rest). Inr (done + m, q, rest)))"
      using parser_run_append [of ?p ?line after] by (simp add: data(1))
    moreover have "parser_run ?p ?line = Inr (d, q, rest) \<Longrightarrow> rest = []" for d q rest
      by (rule run_line [OF data(2)])
    ultimately show ?thesis using False Some lr
      by (cases "parser_run ?p ?line") (auto simp: parser_feed_def rbind_def split: sum.splits)
  qed
qed

lemma parser_feed_ok:
  assumes "parser_ok p" "parser_feed data p = Inr (d, q)"
  shows "parser_ok q"
proof -
  obtain q' rest where "parser_run (p\<lparr>ps_pending := []\<rparr>) (ps_pending p @ data) = Inr (d, q', rest)" "q = q'\<lparr>ps_pending := rest\<rparr>"
    using assms by (auto simp: parser_feed_run)
  then show ?thesis using run_rest by (fastforce simp: parser_ok_def unfinished_def)
qed

text \<open>The reader the workers see: the parser and the responses completed so far.\<close>

definition counted_feed :: "bytes \<Rightarrow> nat \<times> parser \<Rightarrow> (h1_error, nat \<times> parser) result" where
  "counted_feed data s = rbind (parser_feed data (snd s)) (\<lambda>(d, q). Inr (fst s + d, q))"

interpretation h1: chunked_reader counted_feed "\<lambda>s. parser_ok (snd s)"
proof
  fix s :: "nat \<times> parser" and a b
  assume ok: "parser_ok (snd s)"
  obtain n p where s: "s = (n, p)" by fastforce
  let ?p = "p\<lparr>ps_pending := []\<rparr>"
  show "counted_feed (a @ b) s = rbind (counted_feed a s) (counted_feed b)"
  proof (cases "parser_run ?p (ps_pending p @ a)")
    case (Inl e)
    then show ?thesis using ok s parser_run_append [of ?p "ps_pending p @ a" b]
      by (simp add: counted_feed_def parser_feed_run)
  next
    case (Inr out)
    obtain d q rest where out: "out = (d, q, rest)" by (cases out)
    then have q: "unfinished rest q" "ps_pending q = []" using run_rest [OF Inr [unfolded out]] by auto
    have same: "(q\<lparr>ps_pending := rest\<rparr>)\<lparr>ps_pending := []\<rparr> = q" using q(2) by simp
    have "parser_ok (q\<lparr>ps_pending := rest\<rparr>)" using q(1) by (simp add: parser_ok_def unfinished_def)
    then have "parser_feed b (q\<lparr>ps_pending := rest\<rparr>) = rbind (parser_run q (rest @ b)) (\<lambda>(m, q, rest). Inr (m, q\<lparr>ps_pending := rest\<rparr>))"
      unfolding parser_feed_run [OF \<open>parser_ok (q\<lparr>ps_pending := rest\<rparr>)\<close>] same by simp
    then show ?thesis using ok s Inr out parser_run_append [of ?p "ps_pending p @ a" b]
      by (cases "parser_run q (rest @ b)") (auto simp: counted_feed_def parser_feed_run)
  qed
next
  fix s :: "nat \<times> parser" and a t
  show "parser_ok (snd s) \<Longrightarrow> counted_feed a s = Inr t \<Longrightarrow> parser_ok (snd t)"
    using parser_feed_ok by (fastforce simp: counted_feed_def)
qed


section \<open>Well-formed responses\<close>

text \<open>
  A response as a server sends it: a version, three status digits and a reason phrase, header fields before and after
  the one that frames the body, and a body with a \<open>Content-Length\<close> or in chunks with trailers. Names are compared the
  way HTTP says, without regard to case.
\<close>

definition to_ascii_lowercase :: "byte \<Rightarrow> byte" where
  "to_ascii_lowercase b = (if 65 \<le> b \<and> b \<le> 90 then b OR 0x20 else b)"

definition eq_ignore_ascii_case :: "bytes \<Rightarrow> bytes \<Rightarrow> bool" where
  "eq_ignore_ascii_case a b \<longleftrightarrow> map to_ascii_lowercase a = map to_ascii_lowercase b"

datatype h1_body = With_length bytes | In_chunks "bytes list" "bytes list"

text \<open>The framing field is its name as spelled, and the white space before and after its value.\<close>

record h1_response =
  re_http_1_0 :: bool
  re_digits :: "nat \<times> nat \<times> nat"
  re_reason :: bytes
  re_before :: "(bytes \<times> bytes) list"
  re_framing :: "bytes \<times> bytes \<times> bytes"
  re_after :: "(bytes \<times> bytes) list"
  re_body :: h1_body

function hex :: "nat \<Rightarrow> bytes" where
  "hex n = (if n < 16 then [word_of_nat (if n < 10 then 48 + n else 87 + n)]
     else hex (n div 16) @ [word_of_nat (if n mod 16 < 10 then 48 + n mod 16 else 87 + n mod 16)])"
  by pat_completeness auto
termination by (relation "measure (\<lambda>n. n)") auto

declare hex.simps [simp del]

definition crlf :: "bytes \<Rightarrow> bytes" where
  "crlf line = line @ [13, 10]"

fun h1_field_line :: "bytes \<times> bytes \<Rightarrow> bytes" where
  "h1_field_line (name, value) = name @ 58 # value"

fun framing_name :: "h1_body \<Rightarrow> bytes" where
  "framing_name (With_length body) = ascii ''content-length''"
| "framing_name (In_chunks cs trailers) = ascii ''transfer-encoding''"

fun framing_value :: "h1_body \<Rightarrow> bytes" where
  "framing_value (With_length body) = decimal (length body)"
| "framing_value (In_chunks cs trailers) = ascii ''chunked''"

definition framing_line :: "h1_response \<Rightarrow> bytes" where
  "framing_line r = (case re_framing r of (name, lead, trail) \<Rightarrow> h1_field_line (name, lead @ framing_value (re_body r) @ trail))"

fun body_bytes :: "h1_body \<Rightarrow> bytes" where
  "body_bytes (With_length body) = body"
| "body_bytes (In_chunks cs trailers) =
     concat (map (\<lambda>c. crlf (hex (length c)) @ crlf c) cs) @ crlf (ascii ''0'') @ concat (map crlf trailers) @ crlf []"

definition response_digits :: "h1_response \<Rightarrow> bytes" where
  "response_digits r = (case re_digits r of (a, b, c) \<Rightarrow> map (\<lambda>d. word_of_nat (48 + d)) [a, b, c])"

definition response_line :: "h1_response \<Rightarrow> bytes" where
  "response_line r = ascii ''HTTP/1.'' @ [if re_http_1_0 r then 48 else 49, 32] @ response_digits r @ 32 # re_reason r"

definition response_bytes :: "h1_response \<Rightarrow> bytes" where
  "response_bytes r =
     crlf (response_line r) @ concat (map (crlf \<circ> h1_field_line) (re_before r)) @ crlf (framing_line r)
     @ concat (map (crlf \<circ> h1_field_line) (re_after r)) @ crlf [] @ body_bytes (re_body r)"

definition response_status :: "h1_response \<Rightarrow> nat" where
  "response_status r = (case re_digits r of (a, b, c) \<Rightarrow> a * 100 + b * 10 + c)"

definition plain_line_ok :: "bytes \<Rightarrow> bool" where
  "plain_line_ok x \<longleftrightarrow> x \<noteq> [] \<and> 10 \<notin> set x"

text \<open>A field name is of visible ASCII without a colon, and a value of anything but line ends.\<close>

definition field_name_ok :: "bytes \<Rightarrow> bool" where
  "field_name_ok name \<longleftrightarrow> name \<noteq> [] \<and> list_all (\<lambda>b. 0x20 < b \<and> b < 0x7f \<and> b \<noteq> 58) name"

fun other_field :: "bytes \<times> bytes \<Rightarrow> bool" where
  "other_field (name, value) \<longleftrightarrow> field_name_ok name \<and> 10 \<notin> set value \<and> 13 \<notin> set value
     \<and> \<not> eq_ignore_ascii_case name (ascii ''content-length'') \<and> \<not> eq_ignore_ascii_case name (ascii ''transfer-encoding'')"

fun has_option :: "bytes \<Rightarrow> bytes \<times> bytes \<Rightarrow> bool" where
  "has_option opt (name, value) \<longleftrightarrow> eq_ignore_ascii_case name (ascii ''connection'')
     \<and> list_ex (\<lambda>token. eq_ignore_ascii_case (trim_ows token) opt) (split_commas value)"

text \<open>
  When the connection may be used again (RFC 9112 Section 9.3): version 1.1 unless closing is announced, version 1.0
  only when keeping it open is, and not with chunks, which 1.0 does not have.
\<close>

definition reusable :: "h1_response \<Rightarrow> bool" where
  "reusable r \<longleftrightarrow>
     (let fields = re_before r @ re_after r in
      \<not> list_ex (has_option (ascii ''close'')) fields
      \<and> (re_http_1_0 r \<longrightarrow> list_ex (has_option (ascii ''keep-alive'')) fields \<and> framing_name (re_body r) = ascii ''content-length''))"

fun h1_body_ok :: "h1_body \<Rightarrow> bool" where
  "h1_body_ok (With_length body) \<longleftrightarrow> length body < u64_bound"
| "h1_body_ok (In_chunks cs trailers) \<longleftrightarrow>
     list_all (\<lambda>c. c \<noteq> [] \<and> length c + 2 < u64_bound) cs \<and> list_all plain_line_ok trailers"

definition framing_ok :: "h1_response \<Rightarrow> bool" where
  "framing_ok r \<longleftrightarrow> (case re_framing r of (name, lead, trail) \<Rightarrow>
     field_name_ok name \<and> eq_ignore_ascii_case name (framing_name (re_body r)) \<and> list_all is_ows lead \<and> list_all is_ows trail)"

definition response_ok :: "h1_response \<Rightarrow> bool" where
  "response_ok r \<longleftrightarrow> (case re_digits r of (a, b, c) \<Rightarrow> a < 10 \<and> b < 10 \<and> c < 10)
     \<and> \<not> is_informational (response_status r) \<and> \<not> no_body_status (response_status r) \<and> 10 \<notin> set (re_reason r)
     \<and> list_all other_field (re_before r) \<and> framing_ok r \<and> list_all other_field (re_after r) \<and> h1_body_ok (re_body r)"

text \<open>Lines and numbers.\<close>

lemma split_crlf: "10 \<notin> set line \<Longrightarrow> split_line (crlf line @ rest) = Some (line @ [13], rest)"
  by (simp add: split_line_Some crlf_def)

lemma trim_cr_crlf [simp]: "trim_cr (line @ [13]) = line"
  by (simp add: trim_cr_def)

lemma digit_byte: "d < 10 \<Longrightarrow> is_ascii_digit (word_of_nat (48 + d)) \<and> unat (word_of_nat (48 + d) - 48 :: byte) = d
    \<and> unat (word_of_nat (48 + d) :: byte) = 48 + d"
proof -
  assume d: "d < 10"
  have "(word_of_nat (48 + d) - 48 :: byte) = word_of_nat d" by simp
  moreover have "unat (word_of_nat d :: byte) = d" using d by (simp add: unat_word_of_nat_byte)
  moreover have "unat (word_of_nat (48 + d) :: byte) = 48 + d" using d by (simp only: unat_word_of_nat_byte) simp
  ultimately show ?thesis using d by (simp add: is_ascii_digit_def word_le_nat_alt del: of_nat_add)
qed

lemma parse_u64_loop_append: "parse_u64_loop n (a @ b) = rbind (parse_u64_loop n a) (\<lambda>n. parse_u64_loop n b)"
  by (induction a arbitrary: n) (auto split: option.split)

lemma parse_decimal: "n < u64_bound \<Longrightarrow> parse_u64_loop 0 (decimal n) = Inr n"
proof (induction n rule: decimal.induct)
  case (1 n)
  show ?case
  proof (cases "n < 10")
    case True
    then show ?thesis using digit_byte [of n] by (simp add: decimal.simps [of n] checked_mul_def checked_add_def del: of_nat_add)
  next
    case False
    have "n div 10 * 10 + n mod 10 = n" by simp
    moreover have "n div 10 * 10 < u64_bound" using "1.prems" by (rule le_less_trans [rotated]) simp
    moreover have "parse_u64_loop 0 (decimal (n div 10)) = Inr (n div 10)"
      using "1.IH" [OF False] "1.prems" by (meson div_le_dividend le_less_trans)
    ultimately show ?thesis using False digit_byte [of "n mod 10"] "1.prems"
      by (simp add: decimal.simps [of n] parse_u64_loop_append checked_mul_def checked_add_def del: of_nat_add)
  qed
qed

lemma decimal_digits: "\<forall>b \<in> set (decimal n). is_ascii_digit b" "decimal n \<noteq> []"
proof -
  show "\<forall>b \<in> set (decimal n). is_ascii_digit b"
  proof (induction n rule: decimal.induct)
    case (1 n)
    then show ?case using digit_byte [of n] digit_byte [of "n mod 10"] by (auto simp: decimal.simps [of n] simp del: of_nat_add)
  qed
  show "decimal n \<noteq> []" by (subst decimal.simps) simp
qed

lemma trim_ows_id: "s \<noteq> [] \<Longrightarrow> \<not> is_ows (hd s) \<Longrightarrow> \<not> is_ows (last s) \<Longrightarrow> trim_ows s = s"
  by (cases s) (simp_all add: trim_ows_def hd_rev [symmetric] dropWhile_eq_self_iff)

lemma trim_ows_space: "trim_ows (32 # s) = trim_ows s"
  by (simp add: trim_ows_def is_ows_def)


lemma digit_not_ows: "is_ascii_digit b \<Longrightarrow> \<not> is_ows b \<and> b \<noteq> 10"
  by (auto simp: is_ascii_digit_def is_ows_def)

lemma trim_decimal: "trim_ows (decimal n) = decimal n"
  using decimal_digits [of n] digit_not_ows by (intro trim_ows_id) (auto simp: hd_in_set last_in_set)

definition hex_byte :: "nat \<Rightarrow> byte" where
  "hex_byte d = word_of_nat (if d < 10 then 48 + d else 87 + d)"

lemma hex_byte_cases:
  assumes "d < 16"
  shows "hex_digit (hex_byte d) = Some d" "\<not> is_ows (hex_byte d)" "hex_byte d \<noteq> 59" "hex_byte d \<noteq> 10"
proof -
  have "\<forall>d \<in> set [0..<16]. hex_digit (hex_byte d) = Some d \<and> \<not> is_ows (hex_byte d) \<and> hex_byte d \<noteq> 59 \<and> hex_byte d \<noteq> 10"
    by code_simp
  then show "hex_digit (hex_byte d) = Some d" "\<not> is_ows (hex_byte d)" "hex_byte d \<noteq> 59" "hex_byte d \<noteq> 10"
    using assms by simp_all
qed

lemma hex_alt: "hex n = (if n < 16 then [hex_byte n] else hex (n div 16) @ [hex_byte (n mod 16)])"
  by (subst hex.simps) (simp add: hex_byte_def)

lemma chunk_size_loop_append: "chunk_size_loop n (a @ b) = rbind (chunk_size_loop n a) (\<lambda>n. chunk_size_loop n b)"
  by (induction a arbitrary: n) (auto split: option.split)

lemma parse_hex: "n < u64_bound \<Longrightarrow> chunk_size_loop 0 (hex n) = Inr n"
proof (induction n rule: hex.induct)
  case (1 n)
  show ?case
  proof (cases "n < 16")
    case True
    then show ?thesis using hex_byte_cases(1) [of n] by (simp add: hex_alt [of n] checked_mul_def checked_add_def)
  next
    case False
    have "n div 16 * 16 + n mod 16 = n" by simp
    moreover have "n div 16 * 16 < u64_bound" using "1.prems" by (rule le_less_trans [rotated]) simp
    moreover have "chunk_size_loop 0 (hex (n div 16)) = Inr (n div 16)"
      using "1.IH" [OF False] "1.prems" by (meson div_le_dividend le_less_trans)
    ultimately show ?thesis using False hex_byte_cases(1) [of "n mod 16"] "1.prems"
      by (simp add: hex_alt [of n] chunk_size_loop_append checked_mul_def checked_add_def)
  qed
qed

lemma hex_bytes: "\<forall>b \<in> set (hex n). \<not> is_ows b \<and> b \<noteq> 59 \<and> b \<noteq> 10" "hex n \<noteq> []"
proof -
  show "\<forall>b \<in> set (hex n). \<not> is_ows b \<and> b \<noteq> 59 \<and> b \<noteq> 10"
  proof (induction n rule: hex.induct)
    case (1 n)
    then show ?case using hex_byte_cases [of n] hex_byte_cases [of "n mod 16"] by (auto simp: hex_alt [of n])
  qed
  show "hex n \<noteq> []" by (subst hex_alt) simp
qed

lemma parse_chunk_size_hex: "n < u64_bound \<Longrightarrow> parse_chunk_size (hex n) = Inr n"
proof -
  assume n: "n < u64_bound"
  have "takeWhile (\<lambda>c. c \<noteq> 59) (hex n) = hex n" using hex_bytes(1) by simp
  then have "parse_chunk_size (hex n) = (if trim_ows (hex n) = [] then Inl Empty_chunk_size else chunk_size_loop 0 (trim_ows (hex n)))"
    unfolding parse_chunk_size_def Let_def by (simp only:)
  moreover have "trim_ows (hex n) = hex n" using hex_bytes [of n] by (intro trim_ows_id) (auto simp: hd_in_set last_in_set)
  ultimately show ?thesis using parse_hex [OF n] hex_bytes(2) by simp
qed

text \<open>The head of a well-formed response.\<close>

lemma head_lines_crlf:
  "10 \<notin> set line \<Longrightarrow> line \<noteq> [] \<Longrightarrow> head_lines h (crlf line @ rest)
   = (case head_line line h of Inl e \<Rightarrow> Inl e | Inr h \<Rightarrow> head_lines h rest)"
  by (subst head_lines.simps) (simp add: split_crlf)

lemma head_lines_end: "head_lines h (crlf [] @ rest) = Inr (rest, Inr (finish_head h))"
  by (subst head_lines.simps) (simp add: split_crlf trim_cr_def)

text \<open>Folding case with a bit is right on what names are made of.\<close>

lemma or_32: "x OR 32 = (if bit x 5 then x else x XOR 32)" for x :: byte
proof -
  have "(32 :: byte) = 2 ^ 5" by simp
  then have bit: "bit (32 :: byte) n \<longleftrightarrow> n = 5" for n by (simp only: bit_exp_iff) auto
  have "x OR 32 = x" if "bit x 5" by (rule bit_eqI) (use that in \<open>auto simp only: bit_or_iff bit\<close>)
  moreover have "x OR 32 = x XOR 32" if "\<not> bit x 5" by (rule bit_eqI) (use that in \<open>auto simp only: bit_or_iff bit_xor_iff bit\<close>)
  ultimately show ?thesis by (auto simp only: if_split)
qed

lemma name_byte_fold:
  assumes "y = 45 \<or> 97 \<le> y \<and> y \<le> 122"
  shows "y OR 32 = y \<and> (y XOR 32 = 13 \<or> 65 \<le> y XOR 32 \<and> y XOR 32 \<le> 90) \<and> \<not> (65 \<le> y \<and> y \<le> (90 :: byte))"
proof -
  have "unat y \<in> set (45 # [97..<123])" using assms unfolding set_simps set_upt atLeastLessThan_iff by (auto simp: word_le_nat_alt)
  moreover have "y = word_of_nat (unat y)" by simp
  ultimately have "y \<in> set (map word_of_nat (45 # [97..<123]))" by (metis imageI list.set_map)
  then show ?thesis by (auto simp: upt_rec)
qed

lemma fold_byte:
  fixes x y :: byte
  assumes "x \<noteq> 13" "y = 45 \<or> 97 \<le> y \<and> y \<le> 122"
  shows "x OR 0x20 = y \<longleftrightarrow> to_ascii_lowercase x = to_ascii_lowercase y"
proof -
  note y = name_byte_fold [OF assms(2)]
  have "x = y XOR 32" if "x XOR 32 = y" using that by (auto simp: xor.assoc)
  then show ?thesis using y assms(1) unfolding to_ascii_lowercase_def by (auto simp: or_32 split: if_splits)
qed

definition lower_name :: "bytes \<Rightarrow> bool" where
  "lower_name name \<longleftrightarrow> list_all (\<lambda>y. y = 45 \<or> 97 \<le> y \<and> y \<le> 122) name"

lemma ci_eq_fold: "13 \<notin> set a \<Longrightarrow> lower_name b \<Longrightarrow> ci_eq a b \<longleftrightarrow> eq_ignore_ascii_case a b"
proof (induction a arbitrary: b)
  case (Cons x a)
  then show ?case
    by (cases b) (use fold_byte [of x] in \<open>auto simp: ci_eq_def eq_ignore_ascii_case_def lower_name_def\<close>)
qed (auto simp: ci_eq_def eq_ignore_ascii_case_def)

lemma ci_prefix_Cons: "ci_prefix (x # line) (y # name) \<longleftrightarrow> x OR 0x20 = y \<and> ci_prefix line name"
  by (auto simp: ci_prefix_def)

lemma colon_fold: "0x20 < x \<Longrightarrow> x \<noteq> 58 \<Longrightarrow> x OR 0x20 \<noteq> 58" for x :: byte
proof
  assume x: "0x20 < x" "x \<noteq> 58" "x OR 0x20 = 58"
  then have "x XOR 32 = 58" by (auto simp: or_32 split: if_splits)
  then have "(x XOR 32) XOR 32 = 26" by simp
  then show False using x(1) by (simp add: xor.assoc)
qed

lemma ci_prefix_field:
  assumes "list_all (\<lambda>b. 0x20 < b \<and> b < 0x7f \<and> b \<noteq> 58) n" "lower_name name"
  shows "ci_prefix (n @ 58 # v) (name @ [58]) \<longleftrightarrow> eq_ignore_ascii_case n name"
  using assms
proof (induction n arbitrary: name)
  case Nil
  then show ?case by (cases name) (auto simp: ci_prefix_def eq_ignore_ascii_case_def lower_name_def)
next
  case (Cons x n)
  then have "x \<noteq> 13" "x OR 0x20 \<noteq> 58" using colon_fold [of x] by auto
  then show ?case using Cons fold_byte [of x]
    by (cases name) (auto simp: ci_prefix_Cons eq_ignore_ascii_case_def lower_name_def)
qed

lemma split_commas_set: "t \<in> set (split_commas v) \<Longrightarrow> set t \<subseteq> set v"
  by (induction v arbitrary: t rule: split_commas.induct) (fastforce split: if_splits list.splits)+

lemma trim_ows_set: "set (trim_ows t) \<subseteq> set t"
proof
  fix x assume "x \<in> set (trim_ows t)"
  then have "x \<in> set (rev (dropWhile is_ows t))" by (auto simp: trim_ows_def dest: set_dropWhileD)
  then show "x \<in> set t" by (auto dest: set_dropWhileD)
qed

lemma connection_tokens:
  "\<forall>t \<in> set ts. 13 \<notin> set t \<Longrightarrow> fold connection_token ts h
     = h\<lparr>hd_close := hd_close h \<or> list_ex (\<lambda>t. eq_ignore_ascii_case (trim_ows t) (ascii ''close'')) ts,
         hd_keep_alive_token := hd_keep_alive_token h \<or> list_ex (\<lambda>t. eq_ignore_ascii_case (trim_ows t) (ascii ''keep-alive'')) ts\<rparr>"
proof (induction ts arbitrary: h)
  case (Cons t ts)
  have "13 \<notin> set (trim_ows t)" using Cons.prems trim_ows_set [of t] by auto
  moreover have "lower_name (ascii ''close'')" "lower_name (ascii ''keep-alive'')" by code_simp+
  moreover have "\<not> (eq_ignore_ascii_case (trim_ows t) (ascii ''close'') \<and> eq_ignore_ascii_case (trim_ows t) (ascii ''keep-alive''))"
    unfolding eq_ignore_ascii_case_def by (auto simp: ascii_def to_ascii_lowercase_def)
  ultimately show ?case using Cons.IH Cons.prems by (auto simp: connection_token_def [of t] Let_def ci_eq_fold)
qed simp

text \<open>What a field the scanner does not frame with does to the head: nothing but what its connection options say.\<close>

definition absorb_fields :: "(bytes \<times> bytes) list \<Rightarrow> head \<Rightarrow> head" where
  "absorb_fields fs h = h\<lparr>hd_close := hd_close h \<or> list_ex (has_option (ascii ''close'')) fs,
     hd_keep_alive_token := hd_keep_alive_token h \<or> list_ex (has_option (ascii ''keep-alive'')) fs\<rparr>"

lemma framing_names:
  "lower_name (ascii ''content-length'')" "lower_name (ascii ''connection'')" "lower_name (ascii ''transfer-encoding'')"
  by code_simp+

lemma colon_names:
  "ascii ''content-length:'' = ascii ''content-length'' @ [58]" "ascii ''connection:'' = ascii ''connection'' @ [58]"
  "ascii ''transfer-encoding:'' = ascii ''transfer-encoding'' @ [58]"
  by (simp_all add: ascii_def)

lemma ci_prefix_first: "ci_prefix line (y # name) \<Longrightarrow> hd line OR 0x20 = y"
  by (cases line) (auto simp: ci_prefix_def)

lemma first_bytes:
  "ci_prefix line (ascii ''content-length'' @ [58]) \<Longrightarrow> hd line OR 0x20 = 99"
  "ci_prefix line (ascii ''connection'' @ [58]) \<Longrightarrow> hd line OR 0x20 = 99"
  "ci_prefix line (ascii ''transfer-encoding'' @ [58]) \<Longrightarrow> hd line OR 0x20 = 116"
  unfolding ascii_def by (auto dest: ci_prefix_first)

lemma same_name_length: "eq_ignore_ascii_case a b \<Longrightarrow> length a = length b"
  unfolding eq_ignore_ascii_case_def by (rule map_eq_imp_length_eq)

lemma head_line_other:
  assumes "other_field f"
  shows "head_line (h1_field_line f) h = Inr (absorb_fields [f] h)"
proof (cases f)
  case (Pair n v)
  then have n: "list_all (\<lambda>b. 0x20 < b \<and> b < 0x7f \<and> b \<noteq> 58) n" and v: "13 \<notin> set v"
    and framing: "\<not> eq_ignore_ascii_case n (ascii ''content-length'')" "\<not> eq_ignore_ascii_case n (ascii ''transfer-encoding'')"
    using assms by (auto simp: field_name_ok_def)
  note prefix = ci_prefix_field [OF n framing_names(1)] ci_prefix_field [OF n framing_names(2)] ci_prefix_field [OF n framing_names(3)]
  show ?thesis
  proof (cases "eq_ignore_ascii_case n (ascii ''connection'')")
    case True
    then have "drop 11 (n @ 58 # v) = v" using same_name_length [OF True] by (simp add: ascii_def)
    moreover have "\<forall>t \<in> set (split_commas v). 13 \<notin> set t" using split_commas_set v by blast
    ultimately show ?thesis
      using True framing first_bytes(2) [of "n @ 58 # v"]
      by (simp add: Pair head_line_def colon_names prefix Let_def connection_tokens absorb_fields_def)
  qed (use framing in \<open>simp add: Pair head_line_def colon_names prefix Let_def absorb_fields_def\<close>)
qed

lemma other_field_line: "other_field f \<Longrightarrow> 10 \<notin> set (h1_field_line f) \<and> h1_field_line f \<noteq> []"
  by (cases f) (auto simp: field_name_ok_def list_all_iff)

lemma head_lines_others:
  "list_all other_field fs \<Longrightarrow> head_lines h (concat (map (crlf \<circ> h1_field_line) fs) @ rest) = head_lines (absorb_fields fs h) rest"
proof (induction fs arbitrary: h)
  case (Cons f fs)
  have "absorb_fields fs (absorb_fields [f] h) = absorb_fields (f # fs) h" by (simp add: absorb_fields_def)
  then show ?case using Cons other_field_line [of f] by (simp add: head_lines_crlf head_line_other)
qed (simp add: absorb_fields_def)

fun framed :: "h1_body \<Rightarrow> head \<Rightarrow> head" where
  "framed (With_length body) h = h\<lparr>hd_content_length := Some (length body)\<rparr>"
| "framed (In_chunks cs trailers) h = h\<lparr>hd_te_present := True, hd_te_chunked := True\<rparr>"

lemma trim_ows_pad:
  assumes "list_all is_ows l" "list_all is_ows t" "s \<noteq> []" "\<not> is_ows (hd s)" "\<not> is_ows (last s)"
  shows "trim_ows (l @ s @ t) = s"
proof -
  have "dropWhile is_ows (l @ s @ t) = s @ t"
    using assms by (cases s) (auto simp: list_all_iff dropWhile_append2)
  moreover have "dropWhile is_ows (rev t @ rev s) = dropWhile is_ows (rev s)" using assms(2) by (intro dropWhile_append2) (auto simp: list_all_iff)
  then have "dropWhile is_ows (rev (s @ t)) = rev s"
    using assms(3,5) by (cases s rule: rev_cases) auto
  ultimately show ?thesis by (simp add: trim_ows_def)
qed

lemma framing_value_ends: "framing_value b \<noteq> []" "\<not> is_ows (hd (framing_value b))" "\<not> is_ows (last (framing_value b))"
proof -
  have "\<not> is_ows (hd (decimal n))" "\<not> is_ows (last (decimal n))" for n
    using decimal_digits [of n] digit_not_ows by simp_all
  then show "framing_value b \<noteq> []" "\<not> is_ows (hd (framing_value b))" "\<not> is_ows (last (framing_value b))"
    using decimal_digits(2) by (cases b; simp add: ascii_def is_ows_def)+
qed

lemma head_line_framing:
  assumes "framing_ok r" "h1_body_ok (re_body r)" "hd_content_length h = None"
  shows "head_line (framing_line r) h = Inr (framed (re_body r) h)"
proof -
  obtain n l t where f: "re_framing r = (n, l, t)" by (cases "re_framing r")
  let ?v = "l @ framing_value (re_body r) @ t"
  have n: "list_all (\<lambda>b. 0x20 < b \<and> b < 0x7f \<and> b \<noteq> 58) n" and same: "eq_ignore_ascii_case n (framing_name (re_body r))"
    and ows: "list_all is_ows l" "list_all is_ows t" using assms(1) f by (auto simp: framing_ok_def field_name_ok_def)
  have trim: "trim_ows ?v = framing_value (re_body r)" using trim_ows_pad [OF ows framing_value_ends] .
  note prefix = ci_prefix_field [OF n framing_names(1)] ci_prefix_field [OF n framing_names(2)] ci_prefix_field [OF n framing_names(3)]
  have line: "framing_line r = n @ 58 # ?v" by (simp add: framing_line_def f)
  show ?thesis
  proof (cases "re_body r")
    case (With_length body)
    then have "drop 15 (n @ 58 # ?v) = ?v" using same_name_length [OF same] by (simp add: ascii_def)
    then show ?thesis using With_length same trim assms(2,3) parse_decimal [of "length body"] decimal_digits(2) [of "length body"]
        first_bytes(1) [of "n @ 58 # ?v"]
      unfolding line head_line_def colon_names prefix by (simp add: parse_u64_def)
  next
    case (In_chunks cs trailers)
    then have drop: "drop 18 (n @ 58 # ?v) = ?v" using same_name_length [OF same] by (simp add: ascii_def)
    have other: "\<not> eq_ignore_ascii_case n (ascii ''content-length'')" "\<not> eq_ignore_ascii_case n (ascii ''connection'')"
      using same_name_length [OF same] In_chunks by (auto dest: same_name_length simp: ascii_def)
    have "final_coding ?v = Inr (Some True)" using trim In_chunks by (simp add: final_coding_def ci_eq_def ascii_def)
    then show ?thesis using In_chunks same other drop first_bytes(3) [of "n @ 58 # ?v"]
      unfolding line head_line_def colon_names prefix by simp
  qed
qed

definition fresh_head :: "bool \<Rightarrow> nat \<Rightarrow> head" where
  "fresh_head http_1_0 status = \<lparr>hd_content_length = None, hd_status = status, hd_http_1_0 = http_1_0, hd_te_present = False,
     hd_te_chunked = False, hd_close = False, hd_keep_alive_token = False\<rparr>"

fun body_start :: "h1_body \<Rightarrow> body_framing" where
  "body_start (With_length body) = Exact (length body)"
| "body_start (In_chunks cs trailers) = ChunkSize"

lemma framing_line_ok: "framing_ok r \<Longrightarrow> 10 \<notin> set (framing_line r) \<and> framing_line r \<noteq> []"
  using decimal_digits(1) digit_not_ows
  by (cases "re_body r") (force simp: framing_line_def framing_ok_def field_name_ok_def list_all_iff is_ows_def ascii_def)+

lemma head_lines_response:
  assumes "response_ok r"
  shows "head_lines (fresh_head (re_http_1_0 r) st) (concat (map (crlf \<circ> h1_field_line) (re_before r)) @ crlf (framing_line r)
      @ concat (map (crlf \<circ> h1_field_line) (re_after r)) @ crlf [] @ rest)
    = Inr (rest, Inr \<lparr>rh_status = st, rh_body = body_start (re_body r), rh_keep_alive = reusable r\<rparr>)"
proof -
  have ok: "list_all other_field (re_before r)" "framing_ok r" "list_all other_field (re_after r)" "h1_body_ok (re_body r)"
    using assms by (simp_all add: response_ok_def)
  have "hd_content_length (absorb_fields (re_before r) (fresh_head (re_http_1_0 r) st)) = None"
    by (simp add: absorb_fields_def fresh_head_def)
  note framing = head_line_framing [OF ok(2,4) this]
  show ?thesis
    using framing_line_ok [OF ok(2)]
    by (simp add: head_lines_others ok(1,3) head_lines_crlf framing head_lines_end)
      (cases "re_body r"; auto simp: finish_head_def absorb_fields_def fresh_head_def reusable_def Let_def ascii_def)
qed

lemma response_line_digits:
  assumes "response_ok r"
  obtains a b c where "re_digits r = (a, b, c)" "a < 10" "b < 10" "c < 10"
    "response_digits r = map (\<lambda>d. word_of_nat (48 + d)) [a, b, c]" "10 \<notin> set (response_line r)"
proof -
  obtain a b c where abc: "re_digits r = (a, b, c)" "a < 10" "b < 10" "c < 10" "10 \<notin> set (re_reason r)"
    using assms by (cases "re_digits r") (auto simp: response_ok_def)
  moreover have digits: "response_digits r = map (\<lambda>d. word_of_nat (48 + d)) [a, b, c]" using abc(1) by (simp add: response_digits_def)
  moreover have "10 \<notin> set (response_line r)"
    using digit_byte [OF abc(2)] digit_byte [OF abc(3)] digit_byte [OF abc(4)] digit_not_ows abc(5)
    by (auto simp: ascii_def response_line_def digits simp del: of_nat_add)
  ultimately show ?thesis using that by blast
qed

lemma status_line_response:
  assumes "response_ok r"
  shows "status_line (crlf (response_line r) @ rest) (length (response_line r) + 1) = Inr (fresh_head (re_http_1_0 r) (response_status r))"
proof -
  obtain a b c where abc: "re_digits r = (a, b, c)" "a < 10" "b < 10" "c < 10"
    and d: "response_digits r = map (\<lambda>d. word_of_nat (48 + d)) [a, b, c]" using response_line_digits [OF assms] by metis
  have "parse_status (map (\<lambda>d. word_of_nat (48 + d)) [a, b, c]) = Inr (response_status r)"
    using digit_byte [OF abc(2)] digit_byte [OF abc(3)] digit_byte [OF abc(4)] abc(1)
    by (simp add: parse_status_def three_digits_def response_status_def del: of_nat_add)
  then show ?thesis unfolding response_line_def d
    by (simp add: status_line_def crlf_def ascii_def fresh_head_def del: of_nat_add)
qed

lemma scan_response:
  assumes "response_ok r"
  shows "scan_head (response_bytes r @ rest) None
    = Inr (body_bytes (re_body r) @ rest, None, Some \<lparr>rh_status = response_status r, rh_body = body_start (re_body r), rh_keep_alive = reusable r\<rparr>)"
proof -
  let ?after = "concat (map (crlf \<circ> h1_field_line) (re_before r)) @ crlf (framing_line r)
    @ concat (map (crlf \<circ> h1_field_line) (re_after r)) @ crlf [] @ body_bytes (re_body r) @ rest"
  have bytes: "response_bytes r @ rest = crlf (response_line r) @ ?after" by (simp add: response_bytes_def)
  have "10 \<notin> set (response_line r)" using response_line_digits [OF assms] by metis
  then have "split_line (crlf (response_line r) @ ?after) = Some (response_line r @ [13], ?after)" by (rule split_crlf)
  then show ?thesis unfolding bytes scan_head_def option.case
    using status_line_response [OF assms, of ?after] head_lines_response [OF assms] by simp
qed

text \<open>The body of a well-formed response completes it.\<close>

lemma run_go: "parser_turn p buf = Inr (Go q d rest) \<Longrightarrow>
    parser_run p buf = rbind (parser_run q rest) (\<lambda>(m, q, rest). Inr (d + m, q, rest))"
  by (simp add: parser_run.simps [of p])

lemma rbind_count_0: "rbind m (\<lambda>(d, q, rest). Inr (0 + d, q, rest)) = m" for m :: "('e, nat \<times> 'q \<times> 'r) result"
  by (cases m) auto

definition completed :: "(h1_error, nat \<times> parser \<times> bytes) result \<Rightarrow> (h1_error, nat \<times> parser \<times> bytes) result" where
  "completed m = rbind m (\<lambda>(d, q, rest). Inr (1 + d, q, rest))"

lemma run_exact:
  "ps_state p = In_body (Exact (length body)) \<Longrightarrow> parser_run p (body @ rest) = completed (parser_run (p\<lparr>ps_state := In_head\<rparr>) rest)"
proof -
  assume st: "ps_state p = In_body (Exact (length body))"
  have zero: "parser_run q buf = completed (parser_run (q\<lparr>ps_state := In_head\<rparr>) buf)" if "ps_state q = In_body (Exact 0)" for q buf
    unfolding completed_def by (rule run_go) (simp add: parser_turn_def that)
  show ?thesis
  proof (cases "body = []")
    case True
    then show ?thesis using zero [of p rest] st by simp
  next
    case False
    then have "parser_turn p (body @ rest) = Inr (Go (p\<lparr>ps_state := In_body (Exact 0)\<rparr>) 0 rest)"
      using st by (simp add: parser_turn_def)
    from run_go [OF this] show ?thesis using zero [of "p\<lparr>ps_state := In_body (Exact 0)\<rparr>" rest]
      by (simp only: rbind_count_0) simp
  qed
qed

lemma run_trailers:
  "ps_state p = In_body Trailers \<Longrightarrow> list_all plain_line_ok ts
   \<Longrightarrow> parser_run p (concat (map crlf ts) @ crlf [] @ rest) = completed (parser_run (p\<lparr>ps_state := In_head\<rparr>) rest)"
proof (induction ts)
  case Nil
  then have "parser_turn p (crlf [] @ rest) = Inr (Go (p\<lparr>ps_state := In_head\<rparr>) 1 rest)"
    by (simp add: parser_turn_def split_crlf trim_cr_def)
  from run_go [OF this] show ?case by (simp add: completed_def)
next
  case (Cons t ts)
  let ?rest = "concat (map crlf ts) @ crlf [] @ rest"
  have "split_line (crlf t @ ?rest) = Some (t @ [13], ?rest)" using Cons.prems(2) by (intro split_crlf) (simp add: plain_line_ok_def)
  then have "parser_turn p (crlf t @ ?rest) = Inr (Go p 0 ?rest)"
    using Cons.prems by (simp add: parser_turn_def plain_line_ok_def)
  from run_go [OF this] show ?case using Cons by (simp only: rbind_count_0) simp
qed


lemma run_chunk:
  assumes "ps_state p = In_body ChunkSize" "c \<noteq> []" "length c + 2 < u64_bound"
  shows "parser_run p (crlf (hex (length c)) @ crlf c @ rest) = parser_run p rest"
proof -
  let ?p = "p\<lparr>ps_state := In_body (Chunk (length c + 2))\<rparr>"
  have "split_line (crlf (hex (length c)) @ crlf c @ rest) = Some (hex (length c) @ [13], crlf c @ rest)"
    using hex_bytes(1) by (intro split_crlf) blast
  moreover have "parse_chunk_size (hex (length c)) = Inr (length c)" using assms(3) by (intro parse_chunk_size_hex) simp
  ultimately have "parser_turn p (crlf (hex (length c)) @ crlf c @ rest) = Inr (Go ?p 0 (crlf c @ rest))"
    using assms by (simp add: parser_turn_def checked_add_def)
  note one = run_go [OF this, unfolded rbind_count_0]
  have "terminator_ok (take (min (length c + 2) (length (crlf c @ rest))) (crlf c @ rest))
      (length c + 2 - min (length c + 2) (length (crlf c @ rest)))"
    unfolding terminator_by_position by (auto simp: crlf_def nth_append)
  moreover have "p\<lparr>ps_state := In_body ChunkSize\<rparr> = p" using assms(1) by simp
  ultimately have "parser_turn ?p (crlf c @ rest) = Inr (Go p 0 rest)"
    by (simp add: parser_turn_def crlf_def)
  from one run_go [OF this, unfolded rbind_count_0] show ?thesis by simp
qed

lemma run_chunks:
  assumes "ps_state p = In_body ChunkSize" "list_all (\<lambda>c. c \<noteq> [] \<and> length c + 2 < u64_bound) cs" "list_all plain_line_ok ts"
  shows "parser_run p (body_bytes (In_chunks cs ts) @ rest) = completed (parser_run (p\<lparr>ps_state := In_head\<rparr>) rest)"
  using assms(2)
proof (induction cs)
  case Nil
  let ?p = "p\<lparr>ps_state := In_body Trailers\<rparr>" and ?rest = "concat (map crlf ts) @ crlf [] @ rest"
  have "split_line (crlf (ascii ''0'') @ ?rest) = Some (ascii ''0'' @ [13], ?rest)" by (intro split_crlf) (simp add: ascii_def)
  moreover have "parse_chunk_size (ascii ''0'') = Inr 0"
    using parse_chunk_size_hex [of 0] hex.simps [of 0] by (simp add: ascii_def)
  ultimately have "parser_turn p (crlf (ascii ''0'') @ ?rest) = Inr (Go ?p 0 ?rest)"
    using assms(1) by (simp add: parser_turn_def)
  from run_go [OF this, unfolded rbind_count_0] show ?case using run_trailers [of ?p ts rest] assms(3) by simp
next
  case (Cons c cs)
  then show ?case using run_chunk [OF assms(1), of c "body_bytes (In_chunks cs ts) @ rest"] by simp
qed

lemma run_body:
  "ps_state p = In_body (body_start b) \<Longrightarrow> h1_body_ok b
   \<Longrightarrow> parser_run p (body_bytes b @ rest) = completed (parser_run (p\<lparr>ps_state := In_head\<rparr>) rest)"
  using run_exact [of p] run_chunks [of p] by (cases b) auto

lemma body_start_not_eof: "body_start b \<noteq> Body_eof"
  by (cases b) simp_all

lemma run_response:
  assumes "response_ok r" "ps_state p = In_head" "ps_partial p = None" "\<not> ps_head_request p"
  shows "parser_run p (response_bytes r @ rest)
    = completed (parser_run (p\<lparr>ps_status := response_status r, ps_keep_alive := reusable r\<rparr>) rest)"
proof -
  let ?q = "p\<lparr>ps_status := response_status r, ps_keep_alive := reusable r, ps_state := In_body (body_start (re_body r))\<rparr>"
  have "p\<lparr>ps_partial := None\<rparr> = p" using assms(3) by simp
  then have "parser_turn p (response_bytes r @ rest) = Inr (Go ?q 0 (body_bytes (re_body r) @ rest))"
    using assms scan_response [OF assms(1), of rest] body_start_not_eof
    by (simp add: parser_turn_def head_turn_def response_ok_def)
  from run_go [OF this, unfolded rbind_count_0]
  have "parser_run p (response_bytes r @ rest) = completed (parser_run (?q\<lparr>ps_state := In_head\<rparr>) rest)"
    using run_body [of ?q "re_body r" rest] assms(1) by (simp add: response_ok_def)
  moreover have "?q\<lparr>ps_state := In_head\<rparr> = p\<lparr>ps_status := response_status r, ps_keep_alive := reusable r\<rparr>"
    using assms(2) by simp
  ultimately show ?thesis by (simp only:)
qed

text \<open>The status of the last of a list of responses and whether it leaves the connection usable, or what there was before them.\<close>

definition last_status :: "nat \<Rightarrow> h1_response list \<Rightarrow> nat" where
  "last_status st rs = (if rs = [] then st else response_status (last rs))"

definition last_reusable :: "bool \<Rightarrow> h1_response list \<Rightarrow> bool" where
  "last_reusable keep rs = (if rs = [] then keep else reusable (last rs))"

lemma run_responses:
  assumes "list_all response_ok rs" "ps_state p = In_head" "ps_partial p = None" "\<not> ps_head_request p"
  shows "parser_run p (concat (map response_bytes rs)) = Inr (length rs, p\<lparr>ps_status := last_status (ps_status p) rs, ps_keep_alive := last_reusable (ps_keep_alive p) rs\<rparr>, [])"
  using assms
proof (induction rs arbitrary: p)
  case Nil
  then have "p\<lparr>ps_partial := None\<rparr> = p" by simp
  then have "parser_turn p [] = Inr (Halt p [])"
    using Nil by (simp add: parser_turn_def head_turn_def scan_head_def)
  then show ?case by (simp add: parser_run.simps last_status_def last_reusable_def)
next
  case (Cons r rs)
  let ?p = "p\<lparr>ps_status := response_status r, ps_keep_alive := reusable r\<rparr>"
  have "parser_run ?p (concat (map response_bytes rs)) = Inr (length rs, ?p\<lparr>ps_status := last_status (ps_status ?p) rs, ps_keep_alive := last_reusable (ps_keep_alive ?p) rs\<rparr>, [])"
    by (rule Cons.IH) (use Cons.prems in auto)
  moreover have "?p\<lparr>ps_status := last_status (ps_status ?p) rs, ps_keep_alive := last_reusable (ps_keep_alive ?p) rs\<rparr> = p\<lparr>ps_status := last_status (ps_status p) (r # rs), ps_keep_alive := last_reusable (ps_keep_alive p) (r # rs)\<rparr>"
    by (simp add: last_status_def last_reusable_def)
  ultimately show ?case
    using run_response [of r p "concat (map response_bytes rs)"] Cons.prems by (simp add: completed_def)
qed


section \<open>Properties\<close>

text \<open>
  C23. However a connection's bytes are cut into reads, the parser completes the same responses, reports the same
  error or is left in the same state as if they had come at once, although it parses in place, keeps only the
  unfinished line and never looks at it again before its end arrives.
\<close>

theorem h1_chunks_irrelevant:
  assumes "parser_ok p" "ds \<noteq> []"
  shows "feeds counted_feed ds (n, p) = counted_feed (concat ds) (n, p)"
  using h1.feeds_concat [of "(n, p)" ds] assms by simp

theorem h1_chunks_irrelevant_witness:
  "feeds counted_feed [ascii ''HTTP/1.'', ascii ''1 200 OK'', [13], [10, 13]] (0, parser_new)
   = counted_feed (ascii ''HTTP/1.1 200 OK'' @ [13, 10, 13]) (0, parser_new)"
  using h1_chunks_irrelevant [of parser_new "[ascii ''HTTP/1.'', ascii ''1 200 OK'', [13], [10, 13]]" 0] parser_new_ok
  by (simp add: ascii_def)

text \<open>
  C11. Any number of pipelined responses of version 1.0 or 1.1, with any header fields before and after the one that
  frames the body, whatever the case of its name and the white space around its value, and a body of known length or
  in chunks with trailers, however cut into reads, are all completed and nothing else is: the count is theirs, the
  status is that of the last, the connection may be reused exactly when the last response's version and connection
  options say so, and no byte is left over. In particular no body byte is ever taken for the start of a response, and
  no other field for one that frames.
\<close>

theorem h1_pipelined_responses:
  assumes "list_all response_ok rs" "ds \<noteq> []" "concat ds = concat (map response_bytes rs)"
  shows "feeds counted_feed ds (0, parser_new)
    = Inr (length rs, parser_new\<lparr>ps_status := last_status 0 rs, ps_keep_alive := last_reusable True rs\<rparr>)"
proof -
  let ?q = "parser_new\<lparr>ps_status := last_status 0 rs, ps_keep_alive := last_reusable True rs\<rparr>"
  have p: "ps_state parser_new = In_head" "ps_partial parser_new = None" "\<not> ps_head_request parser_new"
    "ps_keep_alive parser_new" "ps_pending parser_new = []" "ps_status parser_new = 0"
    by (simp_all add: parser_new_def)
  have same: "?q\<lparr>ps_pending := []\<rparr> = ?q" "parser_new\<lparr>ps_pending := []\<rparr> = parser_new" by (simp_all add: parser_new_def)
  have "parser_run parser_new (concat ds) = Inr (length rs, ?q, [])"
    using run_responses [OF assms(1) p(1-3)] p(4,6) by (simp add: assms(3))
  then have "counted_feed (concat ds) (0, parser_new) = Inr (length rs, ?q)"
    using parser_feed_run [OF parser_new_ok, of "concat ds"] p(5) same
    by (simp add: counted_feed_def)
  then show ?thesis using h1.feeds_concat [of "(0, parser_new)" ds] assms(2) parser_new_ok by simp
qed

theorem h1_pipelined_responses_witness:
  "let rs = [\<lparr>re_http_1_0 = True, re_digits = (2, 0, 0), re_reason = ascii ''OK'',
               re_before = [(ascii ''Content-Type'', ascii '' text/plain''), (ascii ''Connection'', ascii '' Upgrade, Keep-Alive'')],
               re_framing = (ascii ''Content-Length'', ascii '' '', []), re_after = [(ascii ''Trailer'', ascii ''x-t'')],
               re_body = With_length (ascii ''hello'')\<rparr>,
             \<lparr>re_http_1_0 = False, re_digits = (4, 0, 4), re_reason = [], re_before = [], re_framing = (ascii ''transfer-encoding'', [], ascii '' ''),
               re_after = [(ascii ''connection'', ascii ''close'')], re_body = In_chunks [ascii ''HTTP/1.1 500''] [ascii ''x-t: 1'']\<rparr>];
       wire = concat (map response_bytes rs) in
   feeds counted_feed [take 20 wire, drop 20 wire] (0, parser_new) = Inr (2, parser_new\<lparr>ps_status := 404, ps_keep_alive := False\<rparr>)"
proof -
  let ?rs = "[\<lparr>re_http_1_0 = True, re_digits = (2, 0, 0), re_reason = ascii ''OK'',
               re_before = [(ascii ''Content-Type'', ascii '' text/plain''), (ascii ''Connection'', ascii '' Upgrade, Keep-Alive'')],
               re_framing = (ascii ''Content-Length'', ascii '' '', []), re_after = [(ascii ''Trailer'', ascii ''x-t'')],
               re_body = With_length (ascii ''hello'')\<rparr>,
             \<lparr>re_http_1_0 = False, re_digits = (4, 0, 4), re_reason = [], re_before = [], re_framing = (ascii ''transfer-encoding'', [], ascii '' ''),
               re_after = [(ascii ''connection'', ascii ''close'')], re_body = In_chunks [ascii ''HTTP/1.1 500''] [ascii ''x-t: 1'']\<rparr>]"
  let ?wire = "concat (map response_bytes ?rs)"
  have "list_all response_ok ?rs"
    by (simp add: response_ok_def response_status_def is_informational_def no_body_status_def field_name_ok_def framing_ok_def
        plain_line_ok_def is_ows_def eq_ignore_ascii_case_def to_ascii_lowercase_def ascii_def)
  moreover have "concat [take 20 ?wire, drop 20 ?wire] = ?wire" by (simp only: concat.simps append_take_drop_id append_Nil2)
  moreover have "length ?rs = 2" by simp
  moreover have "last_status 0 ?rs = 404" "last_reusable True ?rs = False" by code_simp+
  ultimately show ?thesis using h1_pipelined_responses [of ?rs "[take 20 ?wire, drop 20 ?wire]", OF _ list.distinct(2)]
    unfolding Let_def by metis
qed

text \<open>
  The case fold of \<open>ci_eq\<close> is not that of \<open>eq_ignore_ascii_case\<close> on every input: setting the bit of a control
  byte can give a hyphen or a colon, so bytes that are no header name at all are taken for one.
\<close>

lemma ci_eq_folds_control_bytes:
  "ci_eq (ascii ''keep'' @ [13] @ ascii ''alive'') (ascii ''keep-alive'')
   \<and> \<not> eq_ignore_ascii_case (ascii ''keep'' @ [13] @ ascii ''alive'') (ascii ''keep-alive'')"
  by code_simp

end
