(* ===== verification/H2_Conn.thy ===== *)
theory H2_Conn
  imports Chunking Hpack Inflight
begin

text \<open>
  The HTTP/2 client connection (\<open>src/http2/conn.rs\<close>): streams, flow control, header blocks, settings and the frame
  reader. The vector of events a call appends to is a field of the record, as every call threads both; the worker
  reads the events of a call that failed as well, so an error carries the connection it left. \<open>spare\<close>, a buffer
  kept for its capacity and always empty, has no counterpart.
\<close>

section \<open>State\<close>

definition MAX_STREAM_ID :: nat where "MAX_STREAM_ID = 0x7fffffff"
definition FRAME_HEADER_LEN :: nat where "FRAME_HEADER_LEN = 9"
definition DATA :: nat where "DATA = 0x0"
definition HEADERS :: nat where "HEADERS = 0x1"
definition RST_STREAM :: nat where "RST_STREAM = 0x3"
definition SETTINGS :: nat where "SETTINGS = 0x4"
definition PING :: nat where "PING = 0x6"
definition GOAWAY :: nat where "GOAWAY = 0x7"
definition WINDOW_UPDATE :: nat where "WINDOW_UPDATE = 0x8"
definition CONTINUATION :: nat where "CONTINUATION = 0x9"
definition FLAG_ACK :: byte where "FLAG_ACK = 0x1"
definition FLAG_END_STREAM :: byte where "FLAG_END_STREAM = 0x1"
definition FLAG_END_HEADERS :: byte where "FLAG_END_HEADERS = 0x4"
definition FLAG_PADDED :: byte where "FLAG_PADDED = 0x8"
definition FLAG_PRIORITY :: byte where "FLAG_PRIORITY = 0x20"
definition REFUSED_STREAM :: nat where "REFUSED_STREAM = 0x7"
definition SETTINGS_HEADER_TABLE_SIZE :: nat where "SETTINGS_HEADER_TABLE_SIZE = 0x1"
definition SETTINGS_ENABLE_PUSH :: nat where "SETTINGS_ENABLE_PUSH = 0x2"
definition SETTINGS_MAX_CONCURRENT_STREAMS :: nat where "SETTINGS_MAX_CONCURRENT_STREAMS = 0x3"
definition SETTINGS_INITIAL_WINDOW_SIZE :: nat where "SETTINGS_INITIAL_WINDOW_SIZE = 0x4"
definition SETTINGS_MAX_FRAME_SIZE :: nat where "SETTINGS_MAX_FRAME_SIZE = 0x5"
definition DEFAULT_MAX_FRAME :: nat where "DEFAULT_MAX_FRAME = 16384"
definition MAX_FRAME_CEILING :: nat where "MAX_FRAME_CEILING = 2 ^ 24 - 1"
definition MAX_WINDOW :: nat where "MAX_WINDOW = 2 ^ 31 - 1"
definition DEFAULT_HEADER_TABLE_SIZE :: nat where "DEFAULT_HEADER_TABLE_SIZE = 4096"
definition ASSUMED_MAX_CONCURRENT :: nat where "ASSUMED_MAX_CONCURRENT = 100"
definition WINDOW_REFRESH :: nat where "WINDOW_REFRESH = 2 ^ 30"

definition PREFACE :: bytes where
  "PREFACE = ascii ''PRI * HTTP/2.0'' @ [13, 10, 13, 10] @ ascii ''SM'' @ [13, 10, 13, 10]"

datatype h2_event = Ev_status nat nat | Ev_end nat | Ev_reset nat | Ev_unprocessed nat | Ev_goaway

record open_stream =
  os_id :: nat
  os_sent :: nat
  os_window :: int

record h2_conn =
  h2_out :: bytes
  h2_pending :: bytes
  h2_header_block :: bytes
  h2_header_stream :: nat
  h2_header_end_stream :: bool
  h2_next_id :: nat
  h2_open :: "open_stream ring"
  h2_max_concurrent :: nat
  h2_max_concurrent_assumed :: bool
  h2_send_window :: int
  h2_peer_initial_window :: nat
  h2_peer_max_frame :: nat
  h2_recv_consumed :: nat
  h2_table_size :: nat
  h2_size_update_due :: "nat option"
  h2_goaway :: bool
  h2_peer_preface_seen :: bool
  h2_events :: "h2_event list"

datatype h2_error =
  Answered_http1 | First_frame_not_settings | Interleaved_block | Headers_on_zero | Bad_frame
| Unexpected_continuation | Malformed_settings | Initial_window_range | Max_frame_range | Malformed_rst
| Malformed_goaway | Malformed_window_update | Ping_on_stream | Malformed_ping | Bad_block hpack_error

type_synonym h2_result = "(h2_error \<times> h2_conn, h2_conn) result"

definition h2_new :: h2_conn where
  "h2_new = \<lparr>h2_out = [], h2_pending = [], h2_header_block = [], h2_header_stream = 0, h2_header_end_stream = False,
     h2_next_id = 1, h2_open = ring_new, h2_max_concurrent = ASSUMED_MAX_CONCURRENT, h2_max_concurrent_assumed = True,
     h2_send_window = 65535, h2_peer_initial_window = 65535, h2_peer_max_frame = DEFAULT_MAX_FRAME,
     h2_recv_consumed = 0, h2_table_size = DEFAULT_HEADER_TABLE_SIZE, h2_size_update_due = None,
     h2_goaway = False, h2_peer_preface_seen = False, h2_events = []\<rparr>"

section \<open>Writing\<close>

definition h2_push_event :: "h2_event \<Rightarrow> h2_conn \<Rightarrow> h2_conn" where
  "h2_push_event e c = c\<lparr>h2_events := h2_events c @ [e]\<rparr>"

definition h2_write :: "bytes \<Rightarrow> h2_conn \<Rightarrow> h2_conn" where
  "h2_write bs c = c\<lparr>h2_out := h2_out c @ bs\<rparr>"

definition frame_header_bytes :: "nat \<Rightarrow> nat \<Rightarrow> byte \<Rightarrow> nat \<Rightarrow> bytes" where
  "frame_header_bytes len kind flags stream = tl (be_bytes 4 len) @ [word_of_nat kind, flags] @ be_bytes 4 stream"

definition h2_frame_header :: "nat \<Rightarrow> nat \<Rightarrow> byte \<Rightarrow> nat \<Rightarrow> h2_conn \<Rightarrow> h2_conn" where
  "h2_frame_header len kind flags stream c = h2_write (frame_header_bytes len kind flags stream) c"

definition h2_window_update :: "nat \<Rightarrow> nat \<Rightarrow> h2_conn \<Rightarrow> h2_conn" where
  "h2_window_update stream increment c = h2_write (be_bytes 4 increment) (h2_frame_header 4 WINDOW_UPDATE 0 stream c)"

definition h2_initiate :: "h2_conn \<Rightarrow> h2_conn" where
  "h2_initiate c =
     (let peer_drew = h2_out c;
          c = h2_write PREFACE (c\<lparr>h2_out := []\<rparr>);
          settings = [(SETTINGS_HEADER_TABLE_SIZE, 0), (SETTINGS_ENABLE_PUSH, 0), (SETTINGS_INITIAL_WINDOW_SIZE, MAX_WINDOW)];
          c = h2_frame_header (6 * length settings) SETTINGS 0 0 c;
          c = fold (\<lambda>(i, v) c. h2_write (be_bytes 2 i @ be_bytes 4 v) c) settings c;
          c = h2_window_update 0 (MAX_WINDOW - 65535) c in
      h2_write peer_drew c)"

definition stream_ids_exhausted :: "h2_conn \<Rightarrow> bool" where
  "stream_ids_exhausted c \<longleftrightarrow> h2_next_id c > MAX_STREAM_ID"

definition h2_can_open :: "h2_conn \<Rightarrow> bool" where
  "h2_can_open c \<longleftrightarrow> \<not> h2_goaway c \<and> \<not> stream_ids_exhausted c
     \<and> take_bit 32 (ring_len (h2_open c)) < h2_max_concurrent c"

lemma ring_slot_mut_slot: "ring_slot i (ring_slot_mut i f r) = map_option f (ring_slot i r)"
  by (simp add: ring_slot_def ring_slot_mut_def)

text \<open>The loop of \<open>write_body\<close>: what both windows and the frame size allow, until one of them runs out.\<close>

definition body_quota :: "bytes \<Rightarrow> open_stream \<Rightarrow> h2_conn \<Rightarrow> nat" where
  "body_quota body s c =
     (let allowed = nat (max 0 (min (h2_send_window c) (os_window s))) in
      min (min (length body - os_sent s) (h2_peer_max_frame c)) allowed)"

definition write_piece :: "nat \<Rightarrow> bytes \<Rightarrow> open_stream \<Rightarrow> nat \<Rightarrow> h2_conn \<Rightarrow> h2_conn" where
  "write_piece pos body s n c =
     (let flags = (if os_sent s + n = length body then FLAG_END_STREAM else 0);
          c = h2_frame_header n DATA flags (os_id s) c;
          c = h2_write (take n (drop (os_sent s) body)) c in
      c\<lparr>h2_open := ring_slot_mut pos (\<lambda>s. s\<lparr>os_sent := os_sent s + n, os_window := os_window s - int n\<rparr>) (h2_open c),
        h2_send_window := h2_send_window c - int n\<rparr>)"

function write_body :: "nat \<Rightarrow> bytes \<Rightarrow> h2_conn \<Rightarrow> h2_conn" where
  "write_body pos body c =
     (case ring_slot pos (h2_open c) of
        None \<Rightarrow> c
      | Some s \<Rightarrow>
          if os_sent s \<ge> length body then c
          else let n = body_quota body s c in
            if n = 0 then c else write_body pos body (write_piece pos body s n c))"
  by pat_completeness auto
termination
  by (relation "measure (\<lambda>(pos, body, c). case ring_slot pos (h2_open c) of None \<Rightarrow> 0 | Some s \<Rightarrow> length body - os_sent s)")
    (auto simp: write_piece_def Let_def h2_frame_header_def h2_write_def ring_slot_mut_slot)

declare write_body.simps [simp del]

text \<open>The frames of a header block longer than one.\<close>

fun block_frames :: "bool \<Rightarrow> byte \<Rightarrow> nat \<Rightarrow> bytes list \<Rightarrow> bytes" where
  "block_frames first end_stream sid [] = []"
| "block_frames first end_stream sid (chunk # rest) =
     frame_header_bytes (length chunk) (if first then HEADERS else CONTINUATION)
       ((if rest = [] then FLAG_END_HEADERS else 0) OR (if first then end_stream else 0)) sid
     @ chunk @ block_frames False end_stream sid rest"

definition start_stream :: "bytes \<Rightarrow> bytes \<Rightarrow> h2_conn \<Rightarrow> nat option \<times> h2_conn" where
  "start_stream block body c =
     (if \<not> h2_can_open c then (None, c)
      else
        let sid = h2_next_id c;
            c = c\<lparr>h2_next_id := min (sid + 2) (2 ^ 32 - 1)\<rparr>;
            end_stream = (if body = [] then FLAG_END_STREAM else 0);
            block = (case h2_size_update_due c of Some sz \<Rightarrow> hpack_size_update sz @ block | None \<Rightarrow> block);
            c = c\<lparr>h2_size_update_due := None\<rparr>;
            c = (if length block \<le> h2_peer_max_frame c then
                   h2_write block (h2_frame_header (length block) HEADERS (FLAG_END_HEADERS OR end_stream) sid c)
                 else h2_write (block_frames True end_stream sid (chunks (h2_peer_max_frame c) block)) c);
            c = c\<lparr>h2_open := ring_push 1 sid \<lparr>os_id = sid, os_sent = 0, os_window = int (h2_peer_initial_window c)\<rparr> (h2_open c)\<rparr>;
            c = (if body \<noteq> [] then write_body (ring_live (h2_open c) - 1) body c else c) in
        (Some sid, c))"

definition pump_bodies :: "bytes \<Rightarrow> h2_conn \<Rightarrow> h2_conn" where
  "pump_bodies body c =
     (if body = [] then c else fold (\<lambda>pos c. write_body pos body c) [0..<ring_live (h2_open c)] c)"

definition take_output :: "h2_conn \<Rightarrow> bytes option \<times> h2_conn" where
  "take_output c = (if h2_out c = [] then (None, c) else (Some (h2_out c), c\<lparr>h2_out := []\<rparr>))"

definition send_goaway :: "h2_conn \<Rightarrow> h2_conn" where
  "send_goaway c = h2_write (be_bytes 4 0) (h2_write (be_bytes 4 0) (h2_frame_header 8 GOAWAY 0 0 c))"


section \<open>Reading\<close>

definition h2_fail :: "h2_error \<Rightarrow> h2_conn \<Rightarrow> h2_result" where
  "h2_fail e c = Inl (e, c)"

definition finish_stream :: "nat \<Rightarrow> h2_conn \<Rightarrow> bool \<times> h2_conn" where
  "finish_stream stream c =
     (case ring_take 1 1 stream (h2_open c) of
        None \<Rightarrow> (False, c)
      | Some (_, r) \<Rightarrow> (True, c\<lparr>h2_open := r\<rparr>))"

text \<open>\<open>if .. && self.finish_stream(stream) { events.push(..) }\<close>, which three of the handlers share.\<close>

definition finish_with :: "bool \<Rightarrow> h2_event \<Rightarrow> nat \<Rightarrow> h2_conn \<Rightarrow> h2_conn" where
  "finish_with wanted ev stream c =
     (if \<not> wanted then c
      else case finish_stream stream c of (finished, c) \<Rightarrow> if finished then h2_push_event ev c else c)"

definition on_data :: "nat \<Rightarrow> byte \<Rightarrow> bytes \<Rightarrow> h2_conn \<Rightarrow> h2_conn" where
  "on_data stream flags payload c =
     (let c = c\<lparr>h2_recv_consumed := h2_recv_consumed c + length payload\<rparr>;
          c = (if h2_recv_consumed c \<ge> WINDOW_REFRESH
               then h2_window_update 0 (h2_recv_consumed c) (c\<lparr>h2_recv_consumed := 0\<rparr>) else c) in
      finish_with (flags AND FLAG_END_STREAM \<noteq> 0) (Ev_end stream) stream c)"

definition complete_headers :: "nat \<Rightarrow> bool \<Rightarrow> bytes \<Rightarrow> h2_conn \<Rightarrow> h2_result" where
  "complete_headers stream end_stream block c =
     (case hpack_find_status block of
        Inl e \<Rightarrow> h2_fail (Bad_block e) c
      | Inr found \<Rightarrow>
          let c = (case found of
                     Some status \<Rightarrow> if is_informational status then c else h2_push_event (Ev_status stream status) c
                   | None \<Rightarrow> c) in
          Inr (finish_with end_stream (Ev_end stream) stream c))"

definition headers_block :: "byte \<Rightarrow> bytes \<Rightarrow> bytes option" where
  "headers_block flags payload =
     Option.bind
       (if flags AND FLAG_PADDED \<noteq> 0 then
          (case payload of
             [] \<Rightarrow> None
           | p # block \<Rightarrow> map_option (\<lambda>n. take n block) (checked_sub (length block) (unat p)))
        else Some payload)
       (\<lambda>block. if flags AND FLAG_PRIORITY \<noteq> 0 then (if length block < 5 then None else Some (drop 5 block))
                else Some block)"

definition on_headers :: "nat \<Rightarrow> byte \<Rightarrow> bytes \<Rightarrow> h2_conn \<Rightarrow> h2_result" where
  "on_headers stream flags payload c =
     (if stream = 0 then h2_fail Headers_on_zero c
      else case headers_block flags payload of
        None \<Rightarrow> h2_fail Bad_frame c
      | Some block \<Rightarrow>
          if flags AND FLAG_END_HEADERS \<noteq> 0
          then complete_headers stream (flags AND FLAG_END_STREAM \<noteq> 0) block c
          else Inr (c\<lparr>h2_header_block := h2_header_block c @ block, h2_header_stream := stream,
                      h2_header_end_stream := (flags AND FLAG_END_STREAM \<noteq> 0)\<rparr>))"

definition on_continuation :: "nat \<Rightarrow> byte \<Rightarrow> bytes \<Rightarrow> h2_conn \<Rightarrow> h2_result" where
  "on_continuation stream flags payload c =
     (if h2_header_stream c = 0 \<or> stream \<noteq> h2_header_stream c then h2_fail Unexpected_continuation c
      else
        let c = c\<lparr>h2_header_block := h2_header_block c @ payload\<rparr> in
        if flags AND FLAG_END_HEADERS = 0 then Inr c
        else complete_headers stream (h2_header_end_stream c) (h2_header_block c)
               (c\<lparr>h2_header_block := [], h2_header_stream := 0, h2_header_end_stream := False\<rparr>))"

text \<open>\<open>as_chunks::<6>\<close>: the entries, or \<open>None\<close> where bytes are left over.\<close>

fun settings_entries :: "bytes \<Rightarrow> (nat \<times> nat) list option" where
  "settings_entries [] = Some []"
| "settings_entries (a # b # c # d # e # f # rest) =
     map_option ((#) (be_val [a, b], be_val [c, d, e, f])) (settings_entries rest)"
| "settings_entries _ = None"

definition on_setting :: "nat \<times> nat \<Rightarrow> h2_conn \<Rightarrow> h2_result" where
  "on_setting = (\<lambda>(i, v) c.
     if i = SETTINGS_HEADER_TABLE_SIZE \<and> v < h2_table_size c then
       Inr (c\<lparr>h2_table_size := v, h2_size_update_due := Some v\<rparr>)
     else if i = SETTINGS_MAX_CONCURRENT_STREAMS then
       Inr (c\<lparr>h2_max_concurrent := v, h2_max_concurrent_assumed := False\<rparr>)
     else if i = SETTINGS_INITIAL_WINDOW_SIZE then
       (if v \<le> MAX_WINDOW then
          let delta = int v - int (h2_peer_initial_window c) in
          Inr (c\<lparr>h2_peer_initial_window := v,
                 h2_open := ring_iter_mut (\<lambda>s. s\<lparr>os_window := os_window s + delta\<rparr>) (h2_open c)\<rparr>)
        else h2_fail Initial_window_range c)
     else if i = SETTINGS_MAX_FRAME_SIZE then
       (if DEFAULT_MAX_FRAME \<le> v \<and> v \<le> MAX_FRAME_CEILING then Inr (c\<lparr>h2_peer_max_frame := v\<rparr>)
        else h2_fail Max_frame_range c)
     else Inr c)"

fun apply_settings :: "(nat \<times> nat) list \<Rightarrow> h2_conn \<Rightarrow> h2_result" where
  "apply_settings [] c = Inr c"
| "apply_settings (e # es) c = rbind (on_setting e c) (apply_settings es)"

definition on_settings :: "byte \<Rightarrow> bytes \<Rightarrow> h2_conn \<Rightarrow> h2_result" where
  "on_settings flags payload c =
     (if flags AND FLAG_ACK \<noteq> 0 then Inr c
      else case settings_entries payload of
        None \<Rightarrow> h2_fail Malformed_settings c
      | Some entries \<Rightarrow>
          rbind (apply_settings entries c) (\<lambda>c.
            let c = (if h2_max_concurrent_assumed c
                     then c\<lparr>h2_max_concurrent := 2 ^ 32 - 1, h2_max_concurrent_assumed := False\<rparr> else c) in
            Inr (h2_frame_header 0 SETTINGS FLAG_ACK 0 c)))"

definition on_rst_stream :: "nat \<Rightarrow> bytes \<Rightarrow> h2_conn \<Rightarrow> h2_result" where
  "on_rst_stream stream payload c =
     (if length payload \<noteq> 4 then h2_fail Malformed_rst c
      else
        let code = be_val payload in
        Inr (finish_with True (if code = REFUSED_STREAM then Ev_unprocessed stream else Ev_reset stream) stream c))"

definition on_goaway :: "bytes \<Rightarrow> h2_conn \<Rightarrow> h2_result" where
  "on_goaway payload c =
     (if length payload < 8 then h2_fail Malformed_goaway c
      else
        let last_id = be_val ((payload ! 0 AND 0x7f) # take 3 (drop 1 payload));
            c = c\<lparr>h2_goaway := True\<rparr>;
            (retired, r) = retire_after last_id (h2_open c);
            c = fold (\<lambda>s. h2_push_event (Ev_unprocessed (os_id s))) retired (c\<lparr>h2_open := r\<rparr>) in
        Inr (h2_push_event Ev_goaway c))"

definition on_window_update :: "nat \<Rightarrow> bytes \<Rightarrow> h2_conn \<Rightarrow> h2_result" where
  "on_window_update stream payload c =
     (if length payload \<noteq> 4 then h2_fail Malformed_window_update c
      else
        let increment = take_bit 31 (be_val payload) in
        if stream = 0 then Inr (c\<lparr>h2_send_window := h2_send_window c + int increment\<rparr>)
        else Inr (c\<lparr>h2_open := ring_update 1 1 stream (\<lambda>s. s\<lparr>os_window := os_window s + int increment\<rparr>) (h2_open c)\<rparr>))"

definition on_ping :: "nat \<Rightarrow> byte \<Rightarrow> bytes \<Rightarrow> h2_conn \<Rightarrow> h2_result" where
  "on_ping stream flags payload c =
     (if stream \<noteq> 0 then h2_fail Ping_on_stream c
      else if length payload \<noteq> 8 then h2_fail Malformed_ping c
      else if flags AND FLAG_ACK = 0 then Inr (h2_write payload (h2_frame_header 8 PING FLAG_ACK 0 c))
      else Inr c)"

text \<open>One whole frame, and the loop over the frames of a buffer: the bytes it leaves are a partial frame.\<close>

definition h2_dispatch :: "nat \<Rightarrow> byte \<Rightarrow> nat \<Rightarrow> bytes \<Rightarrow> h2_conn \<Rightarrow> h2_result" where
  "h2_dispatch kind flags stream payload c =
     (if h2_header_stream c \<noteq> 0 \<and> kind \<noteq> CONTINUATION then h2_fail Interleaved_block c
      else if kind = DATA then Inr (on_data stream flags payload c)
      else if kind = HEADERS then on_headers stream flags payload c
      else if kind = CONTINUATION then on_continuation stream flags payload c
      else if kind = SETTINGS then on_settings flags payload c
      else if kind = WINDOW_UPDATE then on_window_update stream payload c
      else if kind = PING then on_ping stream flags payload c
      else if kind = RST_STREAM then on_rst_stream stream payload c
      else if kind = GOAWAY then on_goaway payload c
      else Inr c)"

definition h2_preface_check :: "nat \<Rightarrow> byte \<Rightarrow> h2_conn \<Rightarrow> h2_result" where
  "h2_preface_check kind flags c =
     (if h2_peer_preface_seen c then Inr c
      else if kind \<noteq> SETTINGS \<or> flags AND FLAG_ACK \<noteq> 0 then h2_fail First_frame_not_settings c
      else Inr (c\<lparr>h2_peer_preface_seen := True\<rparr>))"

text \<open>The nine bytes of a frame header: length, type, flags, stream.\<close>

definition read_frame_header :: "bytes \<Rightarrow> nat \<times> nat \<times> byte \<times> nat" where
  "read_frame_header h =
     (let head = be_val (take 4 h) in
      (drop_bit 8 head, take_bit 8 head, h ! 4, be_val ((h ! 5 AND 0x7f) # take 3 (drop 6 h))))"

function h2_loop :: "bytes \<Rightarrow> h2_conn \<Rightarrow> (h2_error \<times> h2_conn, bytes \<times> h2_conn) result" where
  "h2_loop buf c =
     (if length buf < FRAME_HEADER_LEN then Inr (buf, c)
      else case read_frame_header (take FRAME_HEADER_LEN buf) of (len, kind, flags, stream) \<Rightarrow>
        rbind (h2_preface_check kind flags c) (\<lambda>c.
          if length buf < FRAME_HEADER_LEN + len then Inr (buf, c)
          else
            let payload = take len (drop FRAME_HEADER_LEN buf) in
            rbind (h2_dispatch kind flags stream payload c) (h2_loop (drop (FRAME_HEADER_LEN + len) buf))))"
  by pat_completeness auto
termination by (relation "measure (length \<circ> fst)") (auto simp: FRAME_HEADER_LEN_def)

declare h2_loop.simps [simp del]

definition h2_run :: "bytes \<Rightarrow> h2_conn \<Rightarrow> (h2_error \<times> h2_conn, bytes \<times> h2_conn) result" where
  "h2_run buf c =
     (if \<not> h2_peer_preface_seen c \<and> take 5 buf = ascii ''HTTP/'' then Inl (Answered_http1, c) else h2_loop buf c)"

definition h2_feed :: "bytes \<Rightarrow> h2_conn \<Rightarrow> h2_result" where
  "h2_feed data c =
     (if h2_pending c = [] then
        rbind (h2_run data c) (\<lambda>(rest, c). Inr (c\<lparr>h2_pending := h2_pending c @ rest\<rparr>))
      else
        let buf = h2_pending c @ data in
        rbind (h2_run buf (c\<lparr>h2_pending := []\<rparr>)) (\<lambda>(rest, c). Inr (c\<lparr>h2_pending := rest\<rparr>)))"


section \<open>What a frame may change\<close>

text \<open>The connection a call leaves, whether it failed or not.\<close>

definition h2_after :: "h2_result \<Rightarrow> h2_conn" where
  "h2_after m = (case m of Inl (_, c) \<Rightarrow> c | Inr c \<Rightarrow> c)"

lemma h2_after_simps [simp]: "h2_after (Inl (e, c)) = c" "h2_after (Inr c) = c" "h2_after (h2_fail e c) = c"
  by (simp_all add: h2_after_def h2_fail_def)

lemma h2_fail_bind [simp]: "rbind (h2_fail e c) f = Inl (e, c)" "(h2_fail e c = Inr d) = False"
  by (simp_all add: h2_fail_def)

lemma be_val_less: "length bs \<le> k \<Longrightarrow> be_val bs < 256 ^ k"
  by (rule less_le_trans [OF be_val_lt]) (rule power_increasing, simp_all)

lemma read_frame_header_bounds:
  assumes "read_frame_header h = (len, kind, flags, stream)"
  shows "stream < 2 ^ 31" "len < 2 ^ 24"
proof -
  have top: "unat (h ! 5 AND 0x7f) < 128" by (simp add: unat_and_mask mask_and_mod [of _ 7, simplified])
  have low: "be_val (take 3 (drop 6 h)) < 256 ^ 3" by (rule be_val_less) simp
  have "unat (h ! 5 AND 0x7f) * 256 ^ length (take 3 (drop 6 h)) \<le> 127 * 256 ^ 3"
    by (rule mult_le_mono, use top in simp) (rule power_increasing, simp_all)
  then show "stream < 2 ^ 31"
    using assms low be_fold_acc [of "unat (h ! 5 AND 0x7f)" "take 3 (drop 6 h)"]
    by (auto simp: read_frame_header_def Let_def)
  have "be_val (take 4 h) < 256 ^ 4" by (rule be_val_less) simp
  then show "len < 2 ^ 24" using assms
    by (auto simp: read_frame_header_def Let_def drop_bit_eq_div less_mult_imp_div_less)
qed

text \<open>A property every frame keeps is kept by the loop over the frames.\<close>

lemma h2_loop_keeps:
  assumes seen: "\<And>c. P c \<Longrightarrow> P (c\<lparr>h2_peer_preface_seen := True\<rparr>)"
    and disp: "\<And>kind flags stream payload c. P c \<Longrightarrow> stream < 2 ^ 31 \<Longrightarrow> length payload < 2 ^ 24
      \<Longrightarrow> P (h2_after (h2_dispatch kind flags stream payload c))"
  shows "P c \<Longrightarrow> P (h2_after (map_sum id snd (h2_loop buf c)))"
proof (induction buf c rule: h2_loop.induct)
  case (1 buf c)
  show ?case
  proof (cases "length buf < FRAME_HEADER_LEN")
    case True
    then show ?thesis using 1 by (simp add: h2_loop.simps [of buf])
  next
    case False
    obtain len kind flags stream where hd: "read_frame_header (take FRAME_HEADER_LEN buf) = (len, kind, flags, stream)"
      using prod_cases4 by blast
    have step: "h2_loop buf x = rbind (h2_preface_check kind flags x) (\<lambda>c.
          if length buf < FRAME_HEADER_LEN + len then Inr (buf, c)
          else rbind (h2_dispatch kind flags stream (take len (drop FRAME_HEADER_LEN buf)) c)
            (h2_loop (drop (FRAME_HEADER_LEN + len) buf)))" for x
      unfolding h2_loop.simps [of buf] if_not_P [OF False] hd prod.case Let_def ..
    note bound = read_frame_header_bounds [OF hd]
    show ?thesis
    proof (cases "h2_preface_check kind flags c")
      case (Inl e)
      then show ?thesis using "1.prems" seen
        by (auto simp: step [of c] h2_preface_check_def h2_fail_def split: if_splits)
    next
      case (Inr d)
      then have d: "P d" using "1.prems" seen by (auto simp: h2_preface_check_def split: if_splits)
      show ?thesis
      proof (cases "length buf < FRAME_HEADER_LEN + len")
        case True
        then show ?thesis using d Inr by (simp add: step [of c])
      next
        case whole: False
        define r where "r = h2_dispatch kind flags stream (take len (drop FRAME_HEADER_LEN buf)) d"
        have "P (h2_after r)" using disp [OF d bound(1)] bound(2) by (simp add: r_def)
        moreover have "h2_loop buf c = rbind r (h2_loop (drop (FRAME_HEADER_LEN + len) buf))"
          using whole Inr by (simp add: step [of c] r_def)
        ultimately show ?thesis
          using "1.IH" [OF False hd [symmetric] refl refl whole refl] by (cases r) auto
      qed
    qed
  qed
qed

text \<open>No frame touches \<open>pending\<close>.\<close>

lemma h2_write_sel [simp]:
  "h2_pending (h2_write bs c) = h2_pending c" "h2_open (h2_write bs c) = h2_open c"
  "h2_events (h2_write bs c) = h2_events c" "h2_next_id (h2_write bs c) = h2_next_id c"
  "h2_send_window (h2_write bs c) = h2_send_window c" "h2_peer_max_frame (h2_write bs c) = h2_peer_max_frame c"
  "h2_recv_consumed (h2_write bs c) = h2_recv_consumed c" "h2_out (h2_write bs c) = h2_out c @ bs"
  "h2_header_stream (h2_write bs c) = h2_header_stream c" "h2_peer_preface_seen (h2_write bs c) = h2_peer_preface_seen c"
  "h2_peer_initial_window (h2_write bs c) = h2_peer_initial_window c"
  by (simp_all add: h2_write_def)

lemma h2_push_event_sel [simp]:
  "h2_pending (h2_push_event e c) = h2_pending c" "h2_open (h2_push_event e c) = h2_open c"
  "h2_events (h2_push_event e c) = h2_events c @ [e]" "h2_next_id (h2_push_event e c) = h2_next_id c"
  "h2_send_window (h2_push_event e c) = h2_send_window c" "h2_peer_max_frame (h2_push_event e c) = h2_peer_max_frame c"
  "h2_recv_consumed (h2_push_event e c) = h2_recv_consumed c" "h2_header_stream (h2_push_event e c) = h2_header_stream c"
  "h2_peer_initial_window (h2_push_event e c) = h2_peer_initial_window c"
  by (simp_all add: h2_push_event_def)

lemma finish_with_pending: "h2_pending (finish_with w e stream c) = h2_pending c"
  by (simp add: finish_with_def finish_stream_def split: option.split prod.split)

lemma push_all_sel [simp]:
  "h2_pending (fold (\<lambda>s. h2_push_event (f s)) xs c) = h2_pending c"
  "h2_open (fold (\<lambda>s. h2_push_event (f s)) xs c) = h2_open c"
  "h2_next_id (fold (\<lambda>s. h2_push_event (f s)) xs c) = h2_next_id c"
  "h2_send_window (fold (\<lambda>s. h2_push_event (f s)) xs c) = h2_send_window c"
  "h2_peer_max_frame (fold (\<lambda>s. h2_push_event (f s)) xs c) = h2_peer_max_frame c"
  "h2_recv_consumed (fold (\<lambda>s. h2_push_event (f s)) xs c) = h2_recv_consumed c"
  "h2_peer_initial_window (fold (\<lambda>s. h2_push_event (f s)) xs c) = h2_peer_initial_window c"
  "h2_events (fold (\<lambda>s. h2_push_event (f s)) xs c) = h2_events c @ map f xs"
  by (induction xs arbitrary: c) simp_all

lemma complete_headers_pending: "h2_pending (h2_after (complete_headers stream e block c)) = h2_pending c"
  by (simp add: complete_headers_def finish_with_pending split: sum.split option.split)

lemma h2_bind_keeps:
  assumes "P (h2_after m)" "\<And>d. P d \<Longrightarrow> P (h2_after (f d))"
  shows "P (h2_after (rbind m f))"
  using assms by (cases m) auto

lemma apply_settings_keeps:
  assumes "\<And>e c. P c \<Longrightarrow> P (h2_after (on_setting e c))"
  shows "P c \<Longrightarrow> P (h2_after (apply_settings es c))"
proof (induction es arbitrary: c)
  case (Cons e es)
  have "P (h2_after (rbind (on_setting e c) (apply_settings es)))"
    by (rule h2_bind_keeps) (rule assms [OF Cons.prems], rule Cons.IH)
  then show ?case by simp
qed simp

lemma on_settings_keeps:
  assumes "\<And>e c. P c \<Longrightarrow> P (h2_after (on_setting e c))" "\<And>bs c. P c \<Longrightarrow> P (h2_write bs c)"
    "\<And>c. P c \<Longrightarrow> P (c\<lparr>h2_max_concurrent := 2 ^ 32 - 1, h2_max_concurrent_assumed := False\<rparr>)" "P c"
  shows "P (h2_after (on_settings flags payload c))"
proof (cases "settings_entries payload")
  case None
  then show ?thesis using assms(4) by (simp add: on_settings_def)
next
  case (Some es)
  have "P (h2_after (rbind (apply_settings es c) (\<lambda>c.
      let c = (if h2_max_concurrent_assumed c
               then c\<lparr>h2_max_concurrent := 2 ^ 32 - 1, h2_max_concurrent_assumed := False\<rparr> else c) in
      Inr (h2_frame_header 0 SETTINGS FLAG_ACK 0 c))))"
  proof (rule h2_bind_keeps)
    show "P (h2_after (apply_settings es c))" using assms(1,4) by (rule apply_settings_keeps)
    fix d assume "P d"
    then show "P (h2_after (let c = (if h2_max_concurrent_assumed d
        then d\<lparr>h2_max_concurrent := 2 ^ 32 - 1, h2_max_concurrent_assumed := False\<rparr> else d) in
        Inr (h2_frame_header 0 SETTINGS FLAG_ACK 0 c)))"
      unfolding Let_def h2_after_simps h2_frame_header_def using assms(2,3) by presburger
  qed
  with Some show ?thesis using assms(4) by (simp add: on_settings_def)
qed

lemma on_setting_pending: "h2_pending (h2_after (on_setting e c)) = h2_pending c"
  by (simp add: on_setting_def Let_def split: prod.split)

lemma on_settings_pending: "h2_pending (h2_after (on_settings flags payload c)) = h2_pending c"
  by (rule on_settings_keeps) (simp_all add: on_setting_pending)

text \<open>What every handler keeps, every frame keeps.\<close>

lemma h2_dispatch_keeps:
  assumes "P c" "P (on_data stream flags payload c)" "P (h2_after (on_headers stream flags payload c))"
    "P (h2_after (on_continuation stream flags payload c))" "P (h2_after (on_settings flags payload c))"
    "P (h2_after (on_window_update stream payload c))" "P (h2_after (on_ping stream flags payload c))"
    "P (h2_after (on_rst_stream stream payload c))" "P (h2_after (on_goaway payload c))"
  shows "P (h2_after (h2_dispatch kind flags stream payload c))"
  using assms by (simp add: h2_dispatch_def)

lemma on_data_pending: "h2_pending (on_data stream flags payload c) = h2_pending c"
  by (simp add: on_data_def finish_with_pending Let_def h2_window_update_def h2_frame_header_def)

lemma on_headers_pending: "h2_pending (h2_after (on_headers stream flags payload c)) = h2_pending c"
  by (simp add: on_headers_def complete_headers_pending split: option.split)

lemma on_continuation_pending: "h2_pending (h2_after (on_continuation stream flags payload c)) = h2_pending c"
  by (simp add: on_continuation_def complete_headers_pending Let_def)

lemma on_goaway_pending: "h2_pending (h2_after (on_goaway payload c)) = h2_pending c"
  by (simp add: on_goaway_def Let_def split: prod.split)

lemma h2_dispatch_pending: "h2_pending (h2_after (h2_dispatch kind flags stream payload c)) = h2_pending c"
  by (rule h2_dispatch_keeps)
    (simp_all add: on_data_pending on_headers_pending on_continuation_pending on_settings_pending on_goaway_pending
      on_window_update_def on_ping_def on_rst_stream_def finish_with_pending Let_def h2_frame_header_def)

lemma h2_run_pending: "h2_pending (h2_after (map_sum id snd (h2_run buf c))) = h2_pending c"
  unfolding h2_run_def
  using h2_loop_keeps [of "\<lambda>d. h2_pending d = h2_pending c" c buf] by (simp add: h2_dispatch_pending)

section \<open>Where the reads are cut does not matter\<close>

text \<open>No handler touches \<open>pending\<close>, and the preface, once seen, stays seen.\<close>

lemma preface_check_eqs:
  "h2_preface_check kind flags c = Inr d \<Longrightarrow> h2_preface_check kind flags d = Inr d"
  unfolding h2_preface_check_def h2_fail_def
  by (cases "h2_peer_preface_seen c"; cases "kind \<noteq> SETTINGS \<or> flags AND FLAG_ACK \<noteq> 0"; simp) (hypsubst, simp)

lemma h2_loop_append: "h2_loop (a @ b) c = rbind (h2_loop a c) (\<lambda>(rest, d). h2_loop (rest @ b) d)"
proof (induction a c rule: h2_loop.induct)
  case (1 a c)
  show ?case
  proof (cases "length a < FRAME_HEADER_LEN")
    case True
    then show ?thesis by (simp add: h2_loop.simps [of a])
  next
    case False
    obtain len kind flags stream where hd: "read_frame_header (take FRAME_HEADER_LEN a) = (len, kind, flags, stream)"
      using prod_cases4 by blast
    have long: "\<not> length (a @ b) < FRAME_HEADER_LEN" "take FRAME_HEADER_LEN (a @ b) = take FRAME_HEADER_LEN a"
      using False by simp_all
    have step: "h2_loop a x = rbind (h2_preface_check kind flags x) (\<lambda>c.
          if length a < FRAME_HEADER_LEN + len then Inr (a, c)
          else rbind (h2_dispatch kind flags stream (take len (drop FRAME_HEADER_LEN a)) c)
            (h2_loop (drop (FRAME_HEADER_LEN + len) a)))" for x
      unfolding h2_loop.simps [of a] if_not_P [OF False] hd prod.case Let_def ..
    have step2: "h2_loop (a @ b) x = rbind (h2_preface_check kind flags x) (\<lambda>c.
          if length (a @ b) < FRAME_HEADER_LEN + len then Inr (a @ b, c)
          else rbind (h2_dispatch kind flags stream (take len (drop FRAME_HEADER_LEN (a @ b))) c)
            (h2_loop (drop (FRAME_HEADER_LEN + len) (a @ b))))" for x
      unfolding h2_loop.simps [of "a @ b"] if_not_P [OF long(1)] long(2) hd prod.case Let_def ..
    show ?thesis
    proof (cases "h2_preface_check kind flags c")
      case (Inl e)
      then show ?thesis by (simp add: step [of c] step2 [of c])
    next
      case (Inr d)
      show ?thesis
      proof (cases "length a < FRAME_HEADER_LEN + len")
        case True
        then have "h2_loop a c = Inr (a, d)" using Inr by (simp add: step [of c])
        moreover have "h2_loop (a @ b) d = h2_loop (a @ b) c"
          unfolding step2 Inr preface_check_eqs [OF Inr] ..
        ultimately show ?thesis by simp
      next
        case whole: False
        then have "take len (drop FRAME_HEADER_LEN (a @ b)) = take len (drop FRAME_HEADER_LEN a)"
          "drop (FRAME_HEADER_LEN + len) (a @ b) = drop (FRAME_HEADER_LEN + len) a @ b"
          "\<not> length (a @ b) < FRAME_HEADER_LEN + len" by simp_all
        note eqs = this
        have "h2_loop (drop (FRAME_HEADER_LEN + len) a @ b) f
            = rbind (h2_loop (drop (FRAME_HEADER_LEN + len) a) f) (\<lambda>(rest, d). h2_loop (rest @ b) d)" for f
          by (rule "1.IH" [OF False hd [symmetric] refl refl whole refl])
        then show ?thesis unfolding step [of c] step2 [of c] Inr rbind_simps if_not_P [OF whole] if_not_P [OF eqs(3)] eqs(1,2)
          by (cases "h2_dispatch kind flags stream (take len (drop FRAME_HEADER_LEN a)) d") simp_all
      qed
    qed
  qed
qed


lemma h2_dispatch_seen:
  "h2_peer_preface_seen (h2_after (h2_dispatch kind flags stream payload c)) = h2_peer_preface_seen c"
proof -
  have fw: "h2_peer_preface_seen (finish_with w e n d) = h2_peer_preface_seen d" for w e n d
    by (simp add: finish_with_def finish_stream_def h2_push_event_def split: option.split prod.split)
  have ch: "h2_peer_preface_seen (h2_after (complete_headers n e block d)) = h2_peer_preface_seen d" for n e block d
    by (simp add: complete_headers_def fw h2_push_event_def split: sum.split option.split)
  have st: "h2_peer_preface_seen (h2_after (on_settings flags payload c)) = h2_peer_preface_seen c"
    by (rule on_settings_keeps) (simp_all add: on_setting_def Let_def split: prod.split)
  have push: "h2_peer_preface_seen (fold (\<lambda>s. h2_push_event (f s)) xs d) = h2_peer_preface_seen d" for f xs d
    by (induction xs arbitrary: d) (simp_all add: h2_push_event_def)
  show ?thesis
  proof (rule h2_dispatch_keeps)
    show "h2_peer_preface_seen (on_data stream flags payload c) = h2_peer_preface_seen c"
      by (simp add: on_data_def fw Let_def h2_window_update_def h2_frame_header_def)
    show "h2_peer_preface_seen (h2_after (on_headers stream flags payload c)) = h2_peer_preface_seen c"
      by (simp add: on_headers_def ch split: option.split)
    show "h2_peer_preface_seen (h2_after (on_continuation stream flags payload c)) = h2_peer_preface_seen c"
      by (simp add: on_continuation_def ch Let_def)
    show "h2_peer_preface_seen (h2_after (on_goaway payload c)) = h2_peer_preface_seen c"
      by (simp add: on_goaway_def push Let_def h2_push_event_def [of Ev_goaway] split: prod.split)
  qed (simp_all add: st on_window_update_def on_ping_def on_rst_stream_def fw Let_def h2_frame_header_def)
qed

text \<open>The loop only stops short of the peer's preface by reading nothing.\<close>

lemma h2_loop_unseen:
  assumes "h2_loop a c = Inr (rest, d)" "\<not> h2_peer_preface_seen d"
  shows "rest = a \<and> d = c"
proof (cases "length a < FRAME_HEADER_LEN")
  case True
  then show ?thesis using assms(1) by (simp add: h2_loop.simps [of a])
next
  case False
  obtain len kind flags stream where hd: "read_frame_header (take FRAME_HEADER_LEN a) = (len, kind, flags, stream)"
    using prod_cases4 by blast
  have keep: "h2_loop x e = Inr (rest, d) \<Longrightarrow> h2_peer_preface_seen e \<Longrightarrow> h2_peer_preface_seen d" for x e
    using h2_loop_keeps [of h2_peer_preface_seen e x] by (simp add: h2_dispatch_seen)
  obtain e where e: "h2_preface_check kind flags c = Inr e"
    using assms(1) False hd by (auto simp: h2_loop.simps [of a])
  then have "h2_peer_preface_seen e" by (auto simp: h2_preface_check_def split: if_splits)
  moreover have "h2_loop a e = h2_loop a c"
    unfolding h2_loop.simps [of a] if_not_P [OF False] hd prod.case e preface_check_eqs [OF e] ..
  ultimately have "h2_peer_preface_seen d" using keep [of a e] assms(1) by simp
  with assms(2) show ?thesis by simp
qed

lemma h2_run_append: "h2_run (a @ b) c = rbind (h2_run a c) (\<lambda>(rest, d). h2_run (rest @ b) d)"
proof (cases "\<not> h2_peer_preface_seen c \<and> length a < 5")
  case True
  then have "take 5 a \<noteq> ascii ''HTTP/''"
    using arg_cong [of "take 5 a" "ascii ''HTTP/''" length] by (auto simp: ascii_def)
  then have "h2_run a c = Inr (a, c)" using True by (simp add: h2_run_def h2_loop.simps [of a] FRAME_HEADER_LEN_def)
  then show ?thesis by simp
next
  case False
  then have same: "\<not> h2_peer_preface_seen c \<Longrightarrow> take 5 (a @ b) = take 5 a" by simp
  show ?thesis
  proof (cases "\<not> h2_peer_preface_seen c \<and> take 5 a = ascii ''HTTP/''")
    case True
    then show ?thesis using same by (simp add: h2_run_def)
  next
    case no: False
    then have run: "h2_run (a @ b) c = h2_loop (a @ b) c" "h2_run a c = h2_loop a c" using same by (auto simp: h2_run_def)
    have "h2_run (rest @ b) d = h2_loop (rest @ b) d" if "h2_loop a c = Inr (rest, d)" for rest d
    proof (cases "h2_peer_preface_seen d")
      case False
      then have "rest = a" "d = c" using h2_loop_unseen [OF that] by simp_all
      then show ?thesis using run by simp
    qed (simp add: h2_run_def)
    then show ?thesis unfolding run h2_loop_append [of a b c] by (cases "h2_loop a c") auto
  qed
qed

text \<open>The path that reads straight out of the receive buffer is the one that joins it to what is pending.\<close>

lemma h2_feed_eq:
  "h2_feed data c = rbind (h2_run (h2_pending c @ data) (c\<lparr>h2_pending := []\<rparr>)) (\<lambda>(rest, d). Inr (d\<lparr>h2_pending := rest\<rparr>))"
proof (cases "h2_pending c = []")
  case True
  then have eq: "c\<lparr>h2_pending := []\<rparr> = c" by simp
  have "h2_pending d = []" if "h2_run data c = Inr (rest, d)" for rest d
    using h2_run_pending [of data c] that True by simp
  then show ?thesis unfolding eq using True by (cases "h2_run data c") (auto simp: h2_feed_def)
qed (simp add: h2_feed_def Let_def)

lemma h2_feed_append: "h2_feed (a @ b) c = rbind (h2_feed a c) (h2_feed b)"
proof -
  let ?c = "c\<lparr>h2_pending := []\<rparr>"
  have rest: "d\<lparr>h2_pending := []\<rparr> = d" if "h2_run (h2_pending c @ a) ?c = Inr (rest, d)" for rest d
    using h2_run_pending [of "h2_pending c @ a" ?c] that by simp
  show ?thesis
    unfolding h2_feed_eq [of "a @ b"] h2_feed_eq [of a] append_assoc [symmetric] h2_run_append [of "h2_pending c @ a" b ?c]
    by (cases "h2_run (h2_pending c @ a) ?c") (auto simp: h2_feed_eq rest)
qed

interpretation h2: chunked_reader h2_feed "\<lambda>_. True"
  by unfold_locales (simp_all add: h2_feed_append)

text \<open>
  C24. Where the reads of an HTTP/2 connection are cut does not matter: the frames, the events and the answers queued
  are the same for any two ways of splitting the same bytes, and so is the error, with the connection and the events
  it leaves.
\<close>

theorem h2_chunks_irrelevant:
  "ds \<noteq> [] \<Longrightarrow> es \<noteq> [] \<Longrightarrow> concat ds = concat es \<Longrightarrow> feeds h2_feed ds c = feeds h2_feed es c"
  by (rule h2.chunks_irrelevant) simp_all


section \<open>Every stream ends once\<close>

fun ended_id :: "h2_event \<Rightarrow> nat option" where
  "ended_id (Ev_end i) = Some i"
| "ended_id (Ev_reset i) = Some i"
| "ended_id (Ev_unprocessed i) = Some i"
| "ended_id (Ev_status i s) = None"
| "ended_id Ev_goaway = None"

definition ended_ids :: "h2_event list \<Rightarrow> nat list" where
  "ended_ids evs = List.map_filter ended_id evs"

lemma ended_ids_append [simp]: "ended_ids (xs @ ys) = ended_ids xs @ ended_ids ys"
  by (simp add: ended_ids_def List.map_filter_def)

lemma ended_ids_single: "ended_ids [e] = (case ended_id e of None \<Rightarrow> [] | Some i \<Rightarrow> [i])" "ended_ids [] = []"
  by (simp_all add: ended_ids_def List.map_filter_def split: option.split)

lemma ended_ids_unprocessed: "ended_ids (map (\<lambda>s. Ev_unprocessed (os_id s)) xs) = map os_id xs"
  by (simp add: ended_ids_def List.map_filter_def o_def)

text \<open>The client's stream ids are the odd ones.\<close>

definition nth_id :: "nat \<Rightarrow> nat" where "nth_id n = 2 * n + 1"

lemma nth_id_inj: "inj nth_id"
  by (rule injI) (simp add: nth_id_def)

lemma nth_id_eq [simp]: "nth_id a = nth_id b \<longleftrightarrow> a = b"
  by (simp add: nth_id_def)

lemma nth_id_mem [simp]: "nth_id a \<in> nth_id ` A \<longleftrightarrow> a \<in> A"
  by auto

text \<open>The books of the streams: an id below the next one is open, in the slot of its number, or has ended, once.\<close>

definition streams_ok :: "nat \<Rightarrow> open_stream ring \<Rightarrow> h2_event list \<Rightarrow> bool" where
  "streams_ok next_id r evs \<longleftrightarrow>
     ring_ok r \<and> (\<forall>n s. ring_map r n = Some s \<longrightarrow> os_id s = nth_id n) \<and> ring_fits 1 1 next_id r
     \<and> next_id \<le> MAX_STREAM_ID + 2 \<and> dom (ring_map r) \<subseteq> {..<next_id div 2}
     \<and> distinct (ended_ids evs) \<and> set (ended_ids evs) = nth_id ` ({..<next_id div 2} - dom (ring_map r))"

lemma streams_okD:
  assumes "streams_ok next_id r evs"
  shows "ring_ok r" "\<And>n s. ring_map r n = Some s \<Longrightarrow> os_id s = nth_id n" "ring_fits 1 1 next_id r"
    "next_id \<le> MAX_STREAM_ID + 2" "dom (ring_map r) \<subseteq> {..<next_id div 2}" "distinct (ended_ids evs)"
    "set (ended_ids evs) = nth_id ` ({..<next_id div 2} - dom (ring_map r))"
  using assms by (simp_all add: streams_ok_def)

lemma streams_new: "streams_ok 1 ring_new []"
proof -
  have "dom (ring_map ring_new) = {}" by (auto simp: ring_new_map)
  then show ?thesis
    by (simp add: streams_ok_def ring_new_ok ring_new_map ring_fits_def ended_ids_single MAX_STREAM_ID_def ring_new_def
        [THEN arg_cong, of rg_slots])
qed

lemma streams_event: "streams_ok n r evs \<Longrightarrow> ended_id e = None \<Longrightarrow> streams_ok n r (evs @ [e])"
  by (simp add: streams_ok_def ended_ids_single)

lemma streams_in_place:
  assumes "streams_ok n r evs" "ring_ok s" "\<And>k. map_option os_id (ring_map s k) = map_option os_id (ring_map r k)"
    "ring_live s = ring_live r" "rg_base s = rg_base r" "rg_slots s = [] \<longleftrightarrow> rg_slots r = []"
  shows "streams_ok n s evs"
proof -
  have "ring_map s k = None \<longleftrightarrow> ring_map r k = None" for k using assms(3) [of k] by (metis map_option_is_None)
  then have dom: "dom (ring_map s) = dom (ring_map r)" by (auto simp: dom_def)
  have "os_id x = nth_id k" if "ring_map s k = Some x" for k x
    using assms(3) [of k] that streams_okD(2) [OF assms(1), of k] by (cases "ring_map r k") auto
  then show ?thesis using streams_okD [OF assms(1)] assms(2,4-6) by (simp add: streams_ok_def dom ring_fits_def)
qed

lemma streams_take:
  assumes ok: "streams_ok n r evs" and tk: "ring_take 1 1 sid r = Some (x, s)" and e: "ended_id e = Some sid"
  shows "streams_ok n s (evs @ [e])"
proof -
  note I = streams_okD [OF ok]
  have get: "ring_get 1 1 sid r = Some x" using ring_take_map [OF I(1), of 1 1 sid] tk by (auto split: option.splits)
  then have s: "ring_ok s" "ring_map s = (ring_map r)(sid div 2 := None)"
    using ring_take_map [OF I(1), of 1 1 sid] tk by (auto simp: drop_bit_eq_div)
  have sid: "sid = nth_id (sid div 2)" "ring_map r (sid div 2) = Some x"
    using get by (auto simp: ring_get_map drop_bit_eq_div mult.commute nth_id_def split: if_splits)
  then have new: "sid div 2 \<in> dom (ring_map r)" by blast
  have "rg_slots r \<noteq> []" using tk by (auto simp: ring_take_def ring_index_def ring_live_def split: option.splits if_splits)
  then have "ring_fits 1 1 n s" using I(3) ring_take_top [OF tk] I(1) by (auto simp: ring_fits_def)
  moreover have "sid \<notin> set (ended_ids evs)" using I(7) sid(1) new by auto
  moreover have "set (ended_ids (evs @ [e])) = nth_id ` ({..<n div 2} - dom (ring_map s))"
    using I(5,7) new sid(1) by (auto simp: ended_ids_single e s(2))
  ultimately show ?thesis using I s by (auto simp: streams_ok_def ended_ids_single e split: if_splits)
qed

lemma union_diff: "A \<inter> B = {} \<Longrightarrow> A \<union> B = C \<Longrightarrow> B = C - A"
  by blast

lemma streams_retire:
  assumes ok: "streams_ok n r evs" and "retire_after last_id r = (retired, s)"
  shows "streams_ok n s (evs @ map (\<lambda>s. Ev_unprocessed (os_id s)) retired)"
proof -
  note I = streams_okD [OF ok]
  have s: "ring_ok s" "ring_map s k = (if 2 * k + 1 \<le> last_id then ring_map r k else None)"
    "ring_items r = ring_items s @ retired" for k
    using retire_after_map [OF I(1), of last_id] assms(2) by simp_all
  have sub: "dom (ring_map s) \<subseteq> dom (ring_map r)" using s(2) by (auto split: if_splits)
  have ids: "ring_map s k = Some x \<Longrightarrow> os_id x = nth_id k" for k x using s(2) I(2) by (auto split: if_splits)
  have items: "distinct (map os_id (ring_items r))" "set (map os_id (ring_items r)) = nth_id ` dom (ring_map r)"
    "set (map os_id (ring_items s)) = nth_id ` dom (ring_map s)"
    using ring_items_keys [of r os_id nth_id] ring_items_keys [of s os_id nth_id] I(2) ids nth_id_inj by blast+
  note rs = items(1,2) [unfolded s(3) map_append distinct_append set_append items(3)]
  have ret: "set (map os_id retired) = nth_id ` (dom (ring_map r) - dom (ring_map s))"
    unfolding image_set_diff [OF nth_id_inj] by (rule union_diff [OF _ rs(2)]) (use rs(1) in blast)
  have "ring_fits 1 1 n s" using I(3) retire_after_top [OF I(1), of last_id] assms(2)
    by (auto simp: ring_fits_def retire_after_def Let_def split: if_splits)
  moreover have "set (ended_ids evs) \<inter> set (map os_id retired) = {}" unfolding I(7) ret by auto
  moreover have "set (ended_ids evs) \<union> set (map os_id retired) = nth_id ` ({..<n div 2} - dom (ring_map s))"
    unfolding I(7) ret image_Un [symmetric] using I(5) sub by (intro arg_cong [of _ _ "image nth_id"]) blast
  ultimately show ?thesis using I s(1) sub ids rs(1) by (auto simp: streams_ok_def ended_ids_unprocessed)
qed

lemma streams_push:
  assumes ok: "streams_ok n r evs" and "n \<le> MAX_STREAM_ID" "os_id x = n"
  shows "streams_ok (n + 2) (ring_push 1 n x r) evs"
proof -
  note I = streams_okD [OF ok]
  have odd: "n = nth_id (n div 2)" using I(3) by (simp add: ring_fits_def drop_bit_eq_div nth_id_def)
  have m: "ring_map (ring_push 1 n x r) = (ring_map r)(n div 2 \<mapsto> x)"
    using ring_push_map [OF I(1,3)] by (simp add: drop_bit_eq_div)
  define r' where "r' = ring_push 1 n x r"
  have ids: "os_id s = nth_id k" if "ring_map r' k = Some s" for k s
    using that I(2) assms(3) odd unfolding r'_def m by (cases "k = n div 2") auto
  have "ring_fits 1 1 (n + 2) r'"
    using ring_push_top [OF I(1,3), of x] I(3) by (simp add: ring_fits_def drop_bit_eq_div r'_def)
  moreover have dom: "dom (ring_map r') = insert (n div 2) (dom (ring_map r))" unfolding r'_def m by simp
  moreover have "set (ended_ids evs) = nth_id ` ({..<(n + 2) div 2} - dom (ring_map r'))"
    unfolding I(7) dom using I(5) by (auto simp: less_Suc_eq)
  ultimately have "streams_ok (n + 2) r' evs" using I(4-6) assms(2) ring_push_ok [OF I(1)] ids
    by (auto simp: streams_ok_def r'_def)
  then show ?thesis by (simp add: r'_def)
qed


text \<open>
  The invariant of a connection: the books of the streams, and the numbers that must stay in range. What is received
  is counted in 32 bits: one more frame never overflows that.
\<close>

definition h2_inv :: "h2_conn \<Rightarrow> bool" where
  "h2_inv c \<longleftrightarrow> streams_ok (h2_next_id c) (h2_open c) (h2_events c)
     \<and> 0 \<le> h2_send_window c \<and> h2_recv_consumed c < WINDOW_REFRESH
     \<and> DEFAULT_MAX_FRAME \<le> h2_peer_max_frame c \<and> h2_peer_max_frame c \<le> MAX_FRAME_CEILING
     \<and> h2_peer_initial_window c \<le> MAX_WINDOW"

lemma h2_inv_new: "h2_inv h2_new"
  using streams_new
  by (simp add: h2_inv_def h2_new_def WINDOW_REFRESH_def DEFAULT_MAX_FRAME_def MAX_FRAME_CEILING_def MAX_WINDOW_def)

lemma h2_inv_irrelevant [simp]:
  "h2_inv (h2_write bs c) = h2_inv c" "h2_inv (c\<lparr>h2_out := bs\<rparr>) = h2_inv c" "h2_inv (c\<lparr>h2_pending := bs\<rparr>) = h2_inv c"
  "h2_inv (c\<lparr>h2_header_block := bs\<rparr>) = h2_inv c" "h2_inv (c\<lparr>h2_header_stream := i\<rparr>) = h2_inv c"
  "h2_inv (c\<lparr>h2_header_end_stream := b\<rparr>) = h2_inv c" "h2_inv (c\<lparr>h2_goaway := b\<rparr>) = h2_inv c"
  "h2_inv (c\<lparr>h2_peer_preface_seen := b\<rparr>) = h2_inv c" "h2_inv (c\<lparr>h2_max_concurrent := i\<rparr>) = h2_inv c"
  "h2_inv (c\<lparr>h2_max_concurrent_assumed := b\<rparr>) = h2_inv c" "h2_inv (c\<lparr>h2_table_size := i\<rparr>) = h2_inv c"
  "h2_inv (c\<lparr>h2_size_update_due := u\<rparr>) = h2_inv c"
  by (simp_all add: h2_inv_def)

lemma h2_inv_frame_header [simp]: "h2_inv (h2_frame_header len kind flags stream c) = h2_inv c"
  "h2_inv (h2_window_update stream n c) = h2_inv c"
  by (simp_all add: h2_frame_header_def h2_window_update_def)

lemma h2_inv_push_event: "h2_inv c \<Longrightarrow> ended_id e = None \<Longrightarrow> h2_inv (h2_push_event e c)"
  by (simp add: h2_inv_def streams_event)

lemma h2_inv_finish:
  assumes "h2_inv c" "ended_id e = Some stream"
  shows "h2_inv (finish_with w e stream c)"
  using assms streams_take [of "h2_next_id c" "h2_open c" "h2_events c" stream]
  by (auto simp: finish_with_def finish_stream_def h2_inv_def split: option.split)

lemma h2_inv_open:
  assumes "h2_inv c" "ring_ok s" "\<And>k. map_option os_id (ring_map s k) = map_option os_id (ring_map (h2_open c) k)"
    "ring_live s = ring_live (h2_open c)" "rg_base s = rg_base (h2_open c)" "rg_slots s = [] \<longleftrightarrow> rg_slots (h2_open c) = []"
  shows "h2_inv (c\<lparr>h2_open := s\<rparr>)"
  using assms(1) streams_in_place [OF _ assms(2-6)] by (simp add: h2_inv_def)

lemma h2_inv_slot_mut:
  assumes "h2_inv c" "\<And>s. os_id (f s) = os_id s"
  shows "h2_inv (c\<lparr>h2_open := ring_slot_mut i f (h2_open c)\<rparr>)"
proof -
  have ok: "ring_ok (h2_open c)" using assms(1) by (simp add: h2_inv_def streams_ok_def)
  note R = ring_slot_mut_ok [OF ok, of i f]
  show ?thesis by (rule h2_inv_open [OF assms(1) R(1) _ R(3-5)]) (simp add: R(2) option.map_comp o_def assms(2))
qed

lemma h2_inv_update:
  assumes "h2_inv c" "\<And>s. os_id (f s) = os_id s"
  shows "h2_inv (c\<lparr>h2_open := ring_update 1 1 i f (h2_open c)\<rparr>)"
  using assms h2_inv_slot_mut [OF assms] by (simp add: ring_update_slot_mut split: option.split)

lemma h2_inv_iter_mut:
  assumes "h2_inv c" "\<And>s. os_id (f s) = os_id s"
  shows "h2_inv (c\<lparr>h2_open := ring_iter_mut f (h2_open c)\<rparr>)"
proof -
  have ok: "ring_ok (h2_open c)" using assms(1) by (simp add: h2_inv_def streams_ok_def)
  note R = ring_iter_mut_ok [OF ok, of f]
  show ?thesis by (rule h2_inv_open [OF assms(1) R(1) _ R(3-5)]) (simp add: R(2) option.map_comp o_def assms(2))
qed

lemma h2_inv_on_data:
  assumes "h2_inv c" "length payload < 2 ^ 24"
  shows "h2_inv (on_data stream flags payload c)" "h2_recv_consumed c + length payload < 2 ^ 32"
proof -
  show "h2_recv_consumed c + length payload < 2 ^ 32" using assms by (simp add: h2_inv_def WINDOW_REFRESH_def)
  show "h2_inv (on_data stream flags payload c)"
    unfolding on_data_def Let_def using assms(1)
    by (intro h2_inv_finish) (auto simp: h2_inv_def h2_window_update_def h2_frame_header_def WINDOW_REFRESH_def)
qed

lemma h2_inv_complete_headers: "h2_inv c \<Longrightarrow> h2_inv (h2_after (complete_headers stream e block c))"
  by (auto simp: complete_headers_def Let_def intro!: h2_inv_finish h2_inv_push_event split: sum.split option.split)

lemma h2_inv_on_setting:
  assumes "h2_inv c"
  shows "h2_inv (h2_after (on_setting e c))"
proof -
  obtain i v where e: "e = (i, v)" by fastforce
  let ?f = "\<lambda>s. s\<lparr>os_window := os_window s + (int v - int (h2_peer_initial_window c))\<rparr>"
  have "h2_inv (c\<lparr>h2_open := ring_iter_mut ?f (h2_open c)\<rparr>)" using assms by (rule h2_inv_iter_mut) simp
  then have "v \<le> MAX_WINDOW \<Longrightarrow> h2_inv (c\<lparr>h2_peer_initial_window := v, h2_open := ring_iter_mut ?f (h2_open c)\<rparr>)"
    by (simp add: h2_inv_def)
  moreover have "DEFAULT_MAX_FRAME \<le> v \<and> v \<le> MAX_FRAME_CEILING \<Longrightarrow> h2_inv (c\<lparr>h2_peer_max_frame := v\<rparr>)"
    using assms by (simp add: h2_inv_def)
  ultimately show ?thesis using assms by (simp add: on_setting_def e Let_def)
qed

lemma h2_inv_on_goaway:
  assumes "h2_inv c"
  shows "h2_inv (h2_after (on_goaway payload c))"
  using assms streams_retire [of "h2_next_id c" "h2_open c" "h2_events c"]
  by (auto simp: on_goaway_def Let_def h2_inv_def simp del: append_assoc intro!: streams_event split: prod.split)

lemma h2_inv_dispatch:
  assumes "h2_inv c" "length payload < 2 ^ 24"
  shows "h2_inv (h2_after (h2_dispatch kind flags stream payload c))"
proof (rule h2_dispatch_keeps)
  show "h2_inv (h2_after (on_settings flags payload c))"
    by (rule on_settings_keeps) (simp_all add: h2_inv_on_setting assms)
  show "h2_inv (h2_after (on_window_update stream payload c))"
    using assms(1) h2_inv_update [OF assms(1)] by (auto simp: on_window_update_def Let_def h2_inv_def)
  show "h2_inv (h2_after (on_rst_stream stream payload c))"
    using assms(1) by (auto simp: on_rst_stream_def Let_def intro!: h2_inv_finish)
qed (use assms in \<open>auto simp: h2_inv_on_data on_headers_def on_continuation_def on_ping_def Let_def
    intro!: h2_inv_complete_headers h2_inv_on_goaway split: option.split\<close>)

lemma h2_inv_feed:
  assumes "h2_inv c"
  shows "h2_inv (h2_after (h2_feed data c))"
proof -
  have "h2_inv (h2_after (map_sum id snd (h2_run (h2_pending c @ data) (c\<lparr>h2_pending := []\<rparr>))))"
    unfolding h2_run_def using assms h2_loop_keeps [of h2_inv "c\<lparr>h2_pending := []\<rparr>" "h2_pending c @ data"]
    by (simp add: h2_inv_dispatch)
  then show ?thesis unfolding h2_feed_eq by (cases "h2_run (h2_pending c @ data) (c\<lparr>h2_pending := []\<rparr>)") auto
qed


text \<open>Writing.\<close>

lemma h2_inv_write_piece:
  assumes "h2_inv c" "int n \<le> h2_send_window c"
  shows "h2_inv (write_piece pos body s n c)"
proof -
  let ?f = "\<lambda>s. s\<lparr>os_sent := os_sent s + n, os_window := os_window s - int n\<rparr>"
  have "h2_inv (c\<lparr>h2_open := ring_slot_mut pos ?f (h2_open c)\<rparr>)" using assms(1) by (rule h2_inv_slot_mut) simp
  then show ?thesis using assms(2) by (simp add: write_piece_def Let_def h2_inv_def h2_frame_header_def)
qed

lemma body_quota_le:
  assumes "n = body_quota body s c" "n \<noteq> 0"
  shows "int n \<le> h2_send_window c \<and> int n \<le> os_window s"
proof -
  have "n \<le> nat (max 0 (min (h2_send_window c) (os_window s)))" using assms(1) by (simp add: body_quota_def Let_def)
  then have "int n \<le> max 0 (min (h2_send_window c) (os_window s))" by linarith
  then show ?thesis using assms(2) by linarith
qed

lemma h2_inv_write_body: "h2_inv c \<Longrightarrow> h2_inv (write_body pos body c)"
proof (induction pos body c rule: write_body.induct)
  case (1 pos body c)
  show ?case
  proof (cases "ring_slot pos (h2_open c)")
    case (Some s)
    let ?n = "body_quota body s c"
    show ?thesis
    proof (cases "os_sent s \<ge> length body \<or> ?n = 0")
      case False
      then have "h2_inv (write_piece pos body s ?n c)" using "1.prems" body_quota_le [OF refl] h2_inv_write_piece by blast
      then show ?thesis using "1.IH" [OF Some _ refl] False Some by (simp add: write_body.simps [of pos] Let_def)
    qed (use "1.prems" Some in \<open>auto simp: write_body.simps [of pos]\<close>)
  qed (simp add: "1.prems" write_body.simps [of pos])
qed

lemma h2_inv_start_stream:
  assumes "h2_inv c"
  shows "h2_inv (snd (start_stream block body c))"
proof (cases "h2_can_open c")
  case True
  then have n: "h2_next_id c \<le> MAX_STREAM_ID" by (simp add: h2_can_open_def stream_ids_exhausted_def)
  then have sat: "min (h2_next_id c + 2) (2 ^ 32 - 1) = h2_next_id c + 2" by (simp add: MAX_STREAM_ID_def)
  have "streams_ok (h2_next_id c + 2) (ring_push 1 (h2_next_id c) \<lparr>os_id = h2_next_id c, os_sent = 0, os_window = w\<rparr> (h2_open c))
      (h2_events c)" for w using assms n by (intro streams_push) (simp_all add: h2_inv_def)
  then show ?thesis using True assms unfolding start_stream_def Let_def sat
    by (auto intro!: h2_inv_write_body) (auto simp: h2_inv_def h2_frame_header_def)
qed (simp add: start_stream_def assms)

lemma h2_inv_pump:
  assumes "h2_inv c"
  shows "h2_inv (pump_bodies body c)"
proof -
  have "h2_inv (fold (\<lambda>pos c. write_body pos body c) ps d)" if "h2_inv d" for ps d
    using that by (induction ps arbitrary: d) (simp_all add: h2_inv_write_body)
  then show ?thesis using assms by (simp add: pump_bodies_def)
qed

section \<open>A connection's life\<close>

datatype h2_op = Op_initiate | Op_start bytes bytes | Op_pump bytes | Op_take_output | Op_send_goaway | Op_feed bytes

fun h2_step :: "h2_op \<Rightarrow> h2_conn \<Rightarrow> h2_conn" where
  "h2_step Op_initiate c = h2_initiate c"
| "h2_step (Op_start block body) c = snd (start_stream block body c)"
| "h2_step (Op_pump body) c = pump_bodies body c"
| "h2_step Op_take_output c = snd (take_output c)"
| "h2_step Op_send_goaway c = send_goaway c"
| "h2_step (Op_feed data) c = h2_after (h2_feed data c)"

lemma h2_inv_step: "h2_inv c \<Longrightarrow> h2_inv (h2_step op c)"
  by (cases op) (simp_all add: h2_inv_feed h2_inv_start_stream h2_inv_pump take_output_def send_goaway_def h2_initiate_def Let_def)

lemma h2_inv_steps: "h2_inv (fold h2_step ops h2_new)"
proof -
  have "h2_inv c \<Longrightarrow> h2_inv (fold h2_step ops c)" for c
    by (induction ops arbitrary: c) (simp_all add: h2_inv_step)
  then show ?thesis using h2_inv_new .
qed

text \<open>
  C6. However a connection is used and whatever the peer sends, well-formed or not, every stream it has opened is either
  still open or has been reported finished, reset or unprocessed exactly once, and no other stream is ever reported:
  the ids reported and the ids open are together the odd numbers below the next id, each once. So no request is
  lost or counted twice.
\<close>

theorem h2_streams_conserved:
  "let c = fold h2_step ops h2_new; ids = ended_ids (h2_events c) @ map os_id (ring_items (h2_open c)) in
   distinct ids \<and> set ids = {i. odd i \<and> i < h2_next_id c} \<and> h2_next_id c \<le> MAX_STREAM_ID + 2"
proof -
  define c where "c = fold h2_step ops h2_new"
  have "streams_ok (h2_next_id c) (h2_open c) (h2_events c)" using h2_inv_steps [of ops] by (simp add: h2_inv_def c_def)
  note I = streams_okD [OF this]
  have items: "distinct (map os_id (ring_items (h2_open c)))"
    "set (map os_id (ring_items (h2_open c))) = nth_id ` dom (ring_map (h2_open c))"
    using ring_items_keys [of "h2_open c" os_id nth_id] I(2) nth_id_inj by blast+
  have "odd (h2_next_id c)" using I(3) unfolding ring_fits_def by (metis even_add even_mult_iff even_numeral odd_one power_one_right)
  then have "{i. odd i \<and> i < h2_next_id c} = nth_id ` {..<h2_next_id c div 2}"
    by (auto simp: nth_id_def image_iff elim!: oddE)
  also have "\<dots> = set (ended_ids (h2_events c)) \<union> set (map os_id (ring_items (h2_open c)))"
    unfolding I(7) items(2) image_Un [symmetric] using I(5) by (intro arg_cong [of _ _ "image nth_id"]) blast
  finally have "set (ended_ids (h2_events c) @ map os_id (ring_items (h2_open c))) = {i. odd i \<and> i < h2_next_id c}" by simp
  moreover have "set (ended_ids (h2_events c)) \<inter> set (map os_id (ring_items (h2_open c))) = {}"
    unfolding I(7) items(2) by auto
  ultimately show ?thesis using I(4,6) items(1) unfolding Let_def c_def [symmetric] by (simp only: distinct_append conj_assoc)
qed


section \<open>Request bodies\<close>

text \<open>The DATA frames of a list of payloads: the last one carries END_STREAM where the body ends with it.\<close>

fun data_frames :: "nat \<Rightarrow> bool \<Rightarrow> bytes list \<Rightarrow> bytes" where
  "data_frames sid fin [] = []"
| "data_frames sid fin (p # ps) =
     frame_header_bytes (length p) DATA (if ps = [] \<and> fin then FLAG_END_STREAM else 0) sid @ p @ data_frames sid fin ps"

definition sendable :: "bytes \<Rightarrow> open_stream \<Rightarrow> h2_conn \<Rightarrow> nat" where
  "sendable body s c = min (length body - os_sent s) (nat (max 0 (min (h2_send_window c) (os_window s))))"

definition advance :: "nat \<Rightarrow> open_stream \<Rightarrow> open_stream" where
  "advance n s = s\<lparr>os_sent := os_sent s + n, os_window := os_window s - int n\<rparr>"

lemma advance_0: "advance 0 = (\<lambda>s. s)" and advance_advance: "advance a (advance b s) = advance (a + b) s"
  by (auto simp: advance_def add_ac)

lemma ring_slot_mut_id: "ring_slot_mut i (\<lambda>s. s) r = r"
  by (simp add: ring_slot_mut_def option.map_id [unfolded id_def])

lemma ring_slot_mut_comp: "ring_slot_mut i f (ring_slot_mut i g r) = ring_slot_mut i (\<lambda>s. f (g s)) r"
  by (simp add: ring_slot_mut_def option.map_comp o_def)

lemma write_piece_eq:
  "write_piece pos body s n c = c\<lparr>h2_out := h2_out c @ frame_header_bytes n DATA (if os_sent s + n = length body then FLAG_END_STREAM else 0) (os_id s)
       @ take n (drop (os_sent s) body),
     h2_open := ring_slot_mut pos (advance n) (h2_open c), h2_send_window := h2_send_window c - int n\<rparr>"
  by (simp add: write_piece_def Let_def h2_frame_header_def h2_write_def advance_def [abs_def])

lemma body_quota_sendable: "body_quota body s c = min (sendable body s c) (h2_peer_max_frame c)"
  by (simp add: body_quota_def sendable_def Let_def min.assoc min.commute min.left_commute)

lemma sendable_advance:
  assumes "h2_send_window d = h2_send_window c - int q"
  shows "sendable body (advance q s) d = sendable body s c - q"
proof -
  let ?w = "min (h2_send_window c) (os_window s)"
  have "min (h2_send_window c - int q) (os_window s - int q) = ?w - int q" by linarith
  moreover have "nat (max 0 (?w - int q)) = nat (max 0 ?w) - q" by linarith
  ultimately have A: "nat (max 0 (min (h2_send_window c - int q) (os_window s - int q))) = nat (max 0 ?w) - q" by presburger
  have L: "length body - os_sent (advance q s) = length body - os_sent s - q" "os_window (advance q s) = os_window s - int q"
    by (simp_all add: advance_def)
  show ?thesis unfolding sendable_def assms(1) L A by (rule min_diff)
qed

lemma chunks_first:
  assumes "n \<noteq> 0" "n \<le> length xs" "0 < mx"
  shows "chunks mx (take n xs) = take (min n mx) xs # chunks mx (take (n - min n mx) (drop (min n mx) xs))"
  using assms by (subst chunks.simps) (auto simp: min_def drop_take chunks.simps)

lemma write_body_frames:
  "ring_slot pos (h2_open c) = Some s \<Longrightarrow> os_sent s \<le> length body \<Longrightarrow> 0 < h2_peer_max_frame c \<Longrightarrow>
   write_body pos body c = c\<lparr>h2_out := h2_out c @ data_frames (os_id s) (os_sent s + sendable body s c = length body)
       (chunks (h2_peer_max_frame c) (take (sendable body s c) (drop (os_sent s) body))),
     h2_open := ring_slot_mut pos (advance (sendable body s c)) (h2_open c),
     h2_send_window := h2_send_window c - int (sendable body s c)\<rparr>"
proof (induction pos body c arbitrary: s rule: write_body.induct)
  case (1 pos body c)
  define n where "n = sendable body s c"
  define q where "q = body_quota body s c"
  have q: "q = min n (h2_peer_max_frame c)" by (simp add: q_def n_def body_quota_sendable)
  have nL: "n \<le> length body - os_sent s" by (simp add: n_def sendable_def)
  show ?case
  proof (cases "n = 0")
    case True
    then have "write_body pos body c = c" using "1.prems"(1) q q_def by (simp add: write_body.simps [of pos])
    then show ?thesis unfolding n_def [symmetric] True advance_0 ring_slot_mut_id by (simp add: chunks.simps)
  next
    case False
    then have short: "\<not> length body \<le> os_sent s" "q \<noteq> 0" using nL q "1.prems"(3) by auto
    define d where "d = write_piece pos body s q c"
    have d: "ring_slot pos (h2_open d) = Some (advance q s)" "h2_peer_max_frame d = h2_peer_max_frame c"
      "h2_send_window d = h2_send_window c - int q"
      using "1.prems"(1) by (simp_all add: d_def write_piece_eq ring_slot_mut_slot)
    have n': "sendable body (advance q s) d = n - q" using sendable_advance [OF d(3)] q by (simp add: n_def)
    have adv: "os_sent (advance q s) = os_sent s + q" "os_id (advance q s) = os_id s" by (simp_all add: advance_def)
    have "write_body pos body c = write_body pos body d"
      using "1.prems"(1) short by (simp add: write_body.simps [of pos body c] Let_def d_def q_def)
    also have "\<dots> = d\<lparr>h2_out := h2_out d @ data_frames (os_id s) (os_sent s + q + (n - q) = length body)
         (chunks (h2_peer_max_frame c) (take (n - q) (drop (os_sent s + q) body))),
       h2_open := ring_slot_mut pos (advance (n - q)) (h2_open d), h2_send_window := h2_send_window d - int (n - q)\<rparr>"
      using "1.IH" [OF "1.prems"(1) short(1) refl _ d(1) [unfolded d_def q_def]] short(2) d nL q "1.prems"(3)
      unfolding n' [unfolded d_def q_def] d_def q_def adv [unfolded q_def] by (simp add: adv n' d_def q_def)
    also have "h2_out d @ data_frames (os_id s) (os_sent s + q + (n - q) = length body)
         (chunks (h2_peer_max_frame c) (take (n - q) (drop (os_sent s + q) body)))
       = h2_out c @ data_frames (os_id s) (os_sent s + n = length body)
         (chunks (h2_peer_max_frame c) (take n (drop (os_sent s) body)))"
    proof -
      have "chunks (h2_peer_max_frame c) (take n (drop (os_sent s) body))
          = take q (drop (os_sent s) body) # chunks (h2_peer_max_frame c) (take (n - q) (drop (os_sent s + q) body))"
        using chunks_first [of n "drop (os_sent s) body" "h2_peer_max_frame c"] False nL "1.prems"(3) q by (simp add: add.commute)
      moreover have "chunks (h2_peer_max_frame c) (take (n - q) (drop (os_sent s + q) body)) = [] \<longleftrightarrow> n = q"
        using nL q "1.prems"(2,3) short by (subst chunks.simps) auto
      moreover have "n = q \<and> os_sent s + n = length body \<longleftrightarrow> os_sent s + q = length body" using nL q by auto
      moreover have "length (take q (drop (os_sent s) body)) = q" using nL q by auto
      ultimately show ?thesis using q by (simp add: d_def write_piece_eq)
    qed
    also have "ring_slot_mut pos (advance (n - q)) (h2_open d) = ring_slot_mut pos (advance n) (h2_open c)"
      using q by (simp add: d_def write_piece_eq ring_slot_mut_comp advance_advance)
    also have "h2_send_window d - int (n - q) = h2_send_window c - int n" using q by (simp add: d(3))
    finally show ?thesis by (simp add: n_def d_def write_piece_eq)
  qed
qed


text \<open>
  C22. What \<open>write_body\<close> sends for a stream: the next \<open>n\<close> bytes of the body, where \<open>n\<close> is all that is left or, if
  that is less, what the smaller of the two windows allows. They leave in DATA frames of that stream, none empty and
  none above the peer's frame size; END_STREAM is on the last frame exactly when the body ends there; the stream's
  record and both windows move by \<open>n\<close>, and nothing else of the connection changes.
\<close>

theorem write_body_exact:
  assumes "ring_slot pos (h2_open c) = Some s" "os_sent s \<le> length body" "0 < h2_peer_max_frame c"
  shows "let n = sendable body s c; ps = chunks (h2_peer_max_frame c) (take n (drop (os_sent s) body)) in
      concat ps = take n (drop (os_sent s) body) \<and> (\<forall>p \<in> set ps. p \<noteq> [] \<and> length p \<le> h2_peer_max_frame c)
      \<and> write_body pos body c =
          c\<lparr>h2_out := h2_out c @ data_frames (os_id s) (os_sent s + n = length body) ps,
            h2_open := ring_slot_mut pos (advance n) (h2_open c), h2_send_window := h2_send_window c - int n\<rparr>"
  unfolding Let_def using write_body_frames [OF assms] concat_chunks [OF assms(3)] chunks_sizes by blast

theorem write_body_exact_witness:
  "let c = h2_new\<lparr>h2_open := ring_push 1 1 \<lparr>os_id = 1, os_sent = 1, os_window = 3\<rparr> ring_new, h2_peer_max_frame := 2\<rparr> in
   h2_out (write_body 0 [10, 11, 12, 13, 14] c) = [0, 0, 2, 0, 0, 0, 0, 0, 1, 11, 12, 0, 0, 1, 0, 0, 0, 0, 0, 1, 13]
   \<and> h2_send_window (write_body 0 [10, 11, 12, 13, 14] c) = 65532"
proof -
  let ?s = "\<lparr>os_id = 1, os_sent = 1, os_window = 3\<rparr>"
  let ?c = "h2_new\<lparr>h2_open := ring_push 1 1 ?s ring_new, h2_peer_max_frame := 2\<rparr>"
  have slot: "ring_slot 0 (h2_open ?c) = Some ?s" by (simp add: ring_slot_def ring_push_def ring_new_def)
  have n: "sendable [10, 11, 12, 13, 14] ?s ?c = 3" by (simp add: sendable_def h2_new_def)
  have ch: "chunks 2 (take 3 (drop 1 [10, 11, 12, 13, 14])) = [[11, 12], [13]]" by (simp add: chunks.simps)
  show ?thesis using write_body_exact [OF slot, of "[10, 11, 12, 13, 14]"] n ch
    by (simp add: Let_def frame_header_bytes_def DATA_def be_bytes_numeral h2_new_def drop_bit_eq_div)
qed

section \<open>Responses\<close>

lemma read_frame_header_bytes:
  assumes "len < 2 ^ 24" "kind < 256" "stream < 2 ^ 31"
  shows "read_frame_header (frame_header_bytes len kind flags stream) = (len, kind, flags, stream)"
proof -
  have four: "be_bytes 4 v = word_of_nat (drop_bit 24 v) # be_bytes 3 v" for v by (simp add: be_bytes_numeral)
  let ?h = "frame_header_bytes len kind flags stream"
  have h: "take 4 ?h = be_bytes 3 len @ [word_of_nat kind]" "?h ! 4 = flags" "?h ! 5 = word_of_nat (drop_bit 24 stream)"
    "take 3 (drop 6 ?h) = be_bytes 3 stream"
    by (simp_all add: frame_header_bytes_def four nth_append)
  have "be_val (take 4 ?h) = len * 256 + kind"
    using assms(1,2) by (simp add: h be_fold_append be_val_be_bytes unat_word_of_nat_byte)
  moreover have "word_of_nat (drop_bit 24 stream) AND 0x7f = (word_of_nat (drop_bit 24 stream) :: byte)"
    using assms(3) by (simp add: word_unat_eq_iff unat_and_mask unat_word_of_nat_byte drop_bit_eq_div mask_and_mod [of _ 7, simplified])
  moreover have "be_val (word_of_nat (drop_bit 24 stream) # be_bytes 3 stream) = stream"
    using be_val_be_bytes [of 4 stream] assms(3) by (simp add: four)
  ultimately show ?thesis using assms(2) unfolding read_frame_header_def Let_def h
    by (simp add: drop_bit_eq_div take_bit_eq_mod)
qed

lemma h2_loop_frame:
  assumes "length payload < 2 ^ 24" "kind < 256" "stream < 2 ^ 31" "h2_peer_preface_seen c"
  shows "h2_loop (frame_header_bytes (length payload) kind flags stream @ payload @ rest) c
      = rbind (h2_dispatch kind flags stream payload c) (h2_loop rest)"
proof -
  let ?h = "frame_header_bytes (length payload) kind flags stream"
  have len: "length ?h = FRAME_HEADER_LEN" by (simp add: frame_header_bytes_def FRAME_HEADER_LEN_def)
  then show ?thesis using assms(4) read_frame_header_bytes [OF assms(1-3), of flags]
    by (simp add: h2_loop.simps [of "?h @ payload @ rest"] h2_preface_check_def)
qed


lemmas h2_kinds = DATA_def HEADERS_def CONTINUATION_def SETTINGS_def WINDOW_UPDATE_def PING_def RST_STREAM_def GOAWAY_def
lemmas h2_flags = FLAG_ACK_def FLAG_END_STREAM_def FLAG_END_HEADERS_def FLAG_PADDED_def FLAG_PRIORITY_def

text \<open>
  A response on the wire. A field section is cut into fragments, the first in a HEADERS frame that may be padded and
  carry a priority, the others in CONTINUATION frames. A piece of the body is a DATA frame that may be padded.
\<close>

record wire_section =
  ws_pad :: "bytes option"
  ws_priority :: "bytes option"
  ws_frags :: "bytes list"

definition pad_around :: "bytes option \<Rightarrow> bytes \<Rightarrow> bytes" where
  "pad_around pad content = (case pad of None \<Rightarrow> content | Some p \<Rightarrow> word_of_nat (length p) # content @ p)"

definition pad_flag :: "bytes option \<Rightarrow> byte" where
  "pad_flag pad = (if pad = None then 0 else FLAG_PADDED)"

definition section_payload :: "wire_section \<Rightarrow> bytes" where
  "section_payload w = pad_around (ws_pad w) ((case ws_priority w of None \<Rightarrow> [] | Some q \<Rightarrow> q) @ hd (ws_frags w))"

definition section_flags :: "bool \<Rightarrow> wire_section \<Rightarrow> byte" where
  "section_flags fin w = (if tl (ws_frags w) = [] then FLAG_END_HEADERS else 0) OR (if fin then FLAG_END_STREAM else 0)
     OR pad_flag (ws_pad w) OR (if ws_priority w = None then 0 else FLAG_PRIORITY)"

definition section_frames :: "nat \<Rightarrow> bool \<Rightarrow> wire_section \<Rightarrow> bytes" where
  "section_frames sid fin w = frame_header_bytes (length (section_payload w)) HEADERS (section_flags fin w) sid
     @ section_payload w @ block_frames False 0 sid (tl (ws_frags w))"

fun body_frames :: "nat \<Rightarrow> bool \<Rightarrow> (bytes \<times> bytes option) list \<Rightarrow> bytes" where
  "body_frames sid fin [] = []"
| "body_frames sid fin ((d, pad) # ps) =
     frame_header_bytes (length (pad_around pad d)) DATA ((if ps = [] \<and> fin then FLAG_END_STREAM else 0) OR pad_flag pad) sid
     @ pad_around pad d @ body_frames sid fin ps"

text \<open>A section that fits in its frames, and the status it carries: none for trailers.\<close>

definition section_status :: "nat option \<Rightarrow> wire_section \<Rightarrow> bool" where
  "section_status st w \<longleftrightarrow> ws_frags w \<noteq> [] \<and> (\<forall>p \<in> set (section_payload w # tl (ws_frags w)). length p < 2 ^ 24)
     \<and> (\<forall>p \<in> set_option (ws_pad w). length p < 256) \<and> (\<forall>q \<in> set_option (ws_priority w). length q = 5)
     \<and> hpack_find_status (concat (ws_frags w)) = Inr st"

text \<open>The final section or the last piece of the body ends the stream, unless trailers follow, which then do.\<close>

definition response_wire :: "nat \<Rightarrow> wire_section list \<Rightarrow> wire_section \<Rightarrow> (bytes \<times> bytes option) list \<Rightarrow> wire_section option \<Rightarrow> bytes" where
  "response_wire sid interim final body trailers =
     concat (map (section_frames sid False) interim)
     @ section_frames sid (body = [] \<and> trailers = None) final @ body_frames sid (trailers = None) body
     @ (case trailers of None \<Rightarrow> [] | Some t \<Rightarrow> section_frames sid True t)"

text \<open>What a DATA frame leaves alone when it does not end its stream.\<close>

definition h2_alike :: "h2_conn \<Rightarrow> h2_conn \<Rightarrow> bool" where
  "h2_alike c d \<longleftrightarrow> h2_open d = h2_open c \<and> h2_events d = h2_events c \<and> h2_header_stream d = h2_header_stream c
     \<and> h2_header_block d = h2_header_block c \<and> h2_peer_preface_seen d = h2_peer_preface_seen c \<and> h2_pending d = h2_pending c
     \<and> h2_next_id d = h2_next_id c"

lemma h2_alike_refl: "h2_alike c c"
  by (simp add: h2_alike_def)

lemma h2_alike_trans: "h2_alike c d \<Longrightarrow> h2_alike d e \<Longrightarrow> h2_alike c e"
  by (simp add: h2_alike_def)

definition count_data :: "nat \<Rightarrow> h2_conn \<Rightarrow> h2_conn" where
  "count_data n c =
     (let c = c\<lparr>h2_recv_consumed := h2_recv_consumed c + n\<rparr> in
      if h2_recv_consumed c \<ge> WINDOW_REFRESH
      then h2_window_update 0 (h2_recv_consumed c) (c\<lparr>h2_recv_consumed := 0\<rparr>) else c)"

lemma on_data_count: "on_data stream flags payload c =
    finish_with (flags AND FLAG_END_STREAM \<noteq> 0) (Ev_end stream) stream (count_data (length payload) c)"
  by (simp add: on_data_def count_data_def Let_def)

lemma count_data_alike: "h2_alike c (count_data n c)"
  by (simp add: h2_alike_def count_data_def Let_def h2_window_update_def h2_frame_header_def h2_write_def)

lemma finish_nothing [simp]: "finish_with False e stream c = c"
  by (simp add: finish_with_def)

lemma body_frames_read:
  assumes "\<And>d pad. (d, pad) \<in> set ps \<Longrightarrow> length (pad_around pad d) < 2 ^ 24" "sid < 2 ^ 31" "h2_peer_preface_seen c" "h2_header_stream c = 0"
  shows "\<exists>d. h2_alike c d \<and> h2_loop (body_frames sid fin ps @ rest) c = h2_loop rest (finish_with (fin \<and> ps \<noteq> []) (Ev_end sid) sid d)"
  using assms
proof (induction ps arbitrary: c)
  case Nil
  show ?case using h2_alike_refl by auto
next
  case (Cons x ps)
  obtain p pad where x: "x = (p, pad)" by (cases x)
  let ?f = "(if ps = [] \<and> fin then FLAG_END_STREAM else 0) OR pad_flag pad"
  let ?n = "length (pad_around pad p)"
  have "?f AND FLAG_END_STREAM \<noteq> 0 \<longleftrightarrow> ps = [] \<and> fin" by (simp add: pad_flag_def h2_flags)
  then have step: "h2_loop (body_frames sid fin (x # ps) @ rest) c
      = h2_loop (body_frames sid fin ps @ rest) (finish_with (ps = [] \<and> fin) (Ev_end sid) sid (count_data ?n c))"
    using h2_loop_frame [of "pad_around pad p" DATA sid c ?f "body_frames sid fin ps @ rest"] Cons.prems x
    by (simp add: h2_dispatch_def on_data_count DATA_def)
  note alike = count_data_alike [of c ?n]
  show ?case
  proof (cases "ps = []")
    case True
    then show ?thesis using step alike by auto
  next
    case False
    let ?c = "count_data ?n c"
    have "h2_peer_preface_seen ?c" "h2_header_stream ?c = 0" using alike Cons.prems by (simp_all add: h2_alike_def)
    then obtain d where "h2_alike ?c d"
      "h2_loop (body_frames sid fin ps @ rest) ?c = h2_loop rest (finish_with (fin \<and> ps \<noteq> []) (Ev_end sid) sid d)"
      using Cons.IH [of ?c] Cons.prems by auto
    then show ?thesis using step False h2_alike_trans [OF alike] by auto
  qed
qed

lemma continuation_frames_read:
  assumes "ps \<noteq> []" "\<And>p. p \<in> set ps \<Longrightarrow> length p < 2 ^ 24" "sid < 2 ^ 31" "h2_peer_preface_seen c"
    "h2_header_stream c = sid" "sid \<noteq> 0"
  shows "h2_loop (block_frames False ef sid ps @ rest) c =
     rbind (complete_headers sid (h2_header_end_stream c) (h2_header_block c @ concat ps)
       (c\<lparr>h2_header_block := [], h2_header_stream := 0, h2_header_end_stream := False\<rparr>)) (h2_loop rest)"
  using assms
proof (induction ps arbitrary: c)
  case (Cons p ps)
  let ?f = "if ps = [] then FLAG_END_HEADERS else 0"
  let ?c = "c\<lparr>h2_header_block := h2_header_block c @ p\<rparr>"
  have step: "h2_loop (block_frames False ef sid (p # ps) @ rest) c
      = rbind (on_continuation sid ?f p c) (h2_loop (block_frames False ef sid ps @ rest))"
    using h2_loop_frame [of p CONTINUATION sid c ?f "block_frames False ef sid ps @ rest"] Cons.prems
    by (simp add: h2_dispatch_def h2_kinds)
  show ?case
  proof (cases "ps = []")
    case True
    then show ?thesis using Cons.prems(5,6) unfolding step
      by (simp add: on_continuation_def FLAG_END_HEADERS_def Let_def)
  next
    case False
    have "on_continuation sid ?f p c = Inr ?c" using False Cons.prems(5,6) by (simp add: on_continuation_def)
    then show ?thesis using Cons.IH [of ?c] False Cons.prems unfolding step by simp
  qed
qed simp

lemma headers_block_section:
  assumes "section_status st w"
  shows "headers_block (section_flags fin w) (section_payload w) = Some (hd (ws_frags w))"
    "section_flags fin w AND FLAG_END_HEADERS \<noteq> 0 \<longleftrightarrow> tl (ws_frags w) = []"
    "section_flags fin w AND FLAG_END_STREAM \<noteq> 0 \<longleftrightarrow> fin"
proof -
  have flags: "section_flags fin w AND FLAG_PADDED \<noteq> 0 \<longleftrightarrow> ws_pad w \<noteq> None" "section_flags fin w AND FLAG_PRIORITY \<noteq> 0 \<longleftrightarrow> ws_priority w \<noteq> None"
    by (simp_all add: section_flags_def pad_flag_def h2_flags)
  have "unat (word_of_nat (length p) :: byte) = length p" if "ws_pad w = Some p" for p
    using assms that by (simp add: section_status_def unat_word_of_nat_byte)
  then show "headers_block (section_flags fin w) (section_payload w) = Some (hd (ws_frags w))"
    using assms flags unfolding headers_block_def
    by (cases "ws_pad w"; cases "ws_priority w") (auto simp: section_status_def section_payload_def pad_around_def checked_sub_def)
  show "section_flags fin w AND FLAG_END_HEADERS \<noteq> 0 \<longleftrightarrow> tl (ws_frags w) = []" "section_flags fin w AND FLAG_END_STREAM \<noteq> 0 \<longleftrightarrow> fin"
    by (simp_all add: section_flags_def pad_flag_def h2_flags)
qed

lemma section_frames_read:
  assumes "section_status st w" "sid < 2 ^ 31" "sid \<noteq> 0" "h2_peer_preface_seen c" "h2_header_stream c = 0" "h2_header_block c = []"
  shows "\<exists>d. h2_alike c d \<and> h2_loop (section_frames sid fin w @ rest) c =
     rbind (complete_headers sid fin (concat (ws_frags w)) d) (h2_loop rest)"
proof -
  let ?qs = "tl (ws_frags w)" and ?f = "section_flags fin w" and ?p = "hd (ws_frags w)"
  have frags: "concat (ws_frags w) = ?p @ concat ?qs" using assms(1) by (cases "ws_frags w") (auto simp: section_status_def)
  note block = headers_block_section [OF assms(1), of fin]
  have step: "h2_loop (section_frames sid fin w @ rest) c
      = rbind (on_headers sid ?f (section_payload w) c) (h2_loop (block_frames False 0 sid ?qs @ rest))"
    using h2_loop_frame [of "section_payload w" HEADERS sid c ?f "block_frames False 0 sid ?qs @ rest"] assms
    by (simp add: section_frames_def section_status_def h2_dispatch_def h2_kinds)
  show ?thesis
  proof (cases "?qs = []")
    case True
    then have "on_headers sid ?f (section_payload w) c = complete_headers sid fin ?p c"
      using assms(3) block by (simp add: on_headers_def)
    then show ?thesis using step True frags h2_alike_refl by auto
  next
    case False
    let ?c = "c\<lparr>h2_header_block := ?p, h2_header_stream := sid, h2_header_end_stream := fin\<rparr>"
    have "on_headers sid ?f (section_payload w) c = Inr ?c" using assms(3,6) block False by (simp add: on_headers_def)
    moreover have "h2_loop (block_frames False 0 sid ?qs @ rest) ?c =
        rbind (complete_headers sid fin (?p @ concat ?qs)
          (?c\<lparr>h2_header_block := [], h2_header_stream := 0, h2_header_end_stream := False\<rparr>)) (h2_loop rest)"
      using continuation_frames_read [of ?qs sid ?c 0 rest] False assms by (simp add: section_status_def)
    ultimately show ?thesis using step frags assms(5,6)
      by (intro exI [of _ "?c\<lparr>h2_header_block := [], h2_header_stream := 0, h2_header_end_stream := False\<rparr>"])
        (simp add: h2_alike_def)
  qed
qed

lemma interim_frames_read:
  assumes "\<And>w. w \<in> set interim \<Longrightarrow> \<exists>st. section_status (Some st) w \<and> is_informational st" "sid < 2 ^ 31" "sid \<noteq> 0"
    "h2_peer_preface_seen c" "h2_header_stream c = 0" "h2_header_block c = []"
  shows "\<exists>d. h2_alike c d \<and> h2_loop (concat (map (section_frames sid False) interim) @ rest) c = h2_loop rest d"
  using assms
proof (induction interim arbitrary: c)
  case Nil
  then show ?case by (auto simp: h2_alike_def)
next
  case (Cons w interim)
  from Cons.prems(1) [of w] obtain st where st: "section_status (Some st) w" "is_informational st" by auto
  let ?more = "concat (map (section_frames sid False) interim) @ rest"
  from section_frames_read [OF st(1) Cons.prems(2-6), of False ?more] obtain d where
    d: "h2_alike c d" "h2_loop (section_frames sid False w @ ?more) c = rbind (complete_headers sid False (concat (ws_frags w)) d) (h2_loop ?more)"
    by auto
  have "complete_headers sid False (concat (ws_frags w)) d = Inr d"
    using st by (simp add: complete_headers_def section_status_def)
  then have "h2_loop (concat (map (section_frames sid False) (w # interim)) @ rest) c = h2_loop ?more d" using d(2) by simp
  moreover from Cons.IH [of d] Cons.prems d(1) obtain e where "h2_alike d e" "h2_loop ?more d = h2_loop rest e"
    by (auto simp: h2_alike_def)
  ultimately show ?case using h2_alike_trans [OF d(1)] by auto
qed

lemma finish_open:
  assumes "ring_ok (h2_open c)" "ring_get 1 1 sid (h2_open c) = Some s"
  shows "h2_events (finish_with True e sid c) = h2_events c @ [e]"
    "ring_get 1 1 i (h2_open (finish_with True e sid c)) = (if i = sid then None else ring_get 1 1 i (h2_open c))"
  using h2_ring.take_Some [OF assms] by (auto simp: finish_with_def finish_stream_def)

lemma h2_loop_Nil: "h2_loop [] c = Inr ([], c)"
  by (simp add: h2_loop.simps FRAME_HEADER_LEN_def)

lemma response_end_read:
  assumes "sid < 2 ^ 31" "sid \<noteq> 0" "h2_peer_preface_seen c" "h2_header_stream c = 0" "h2_header_block c = []"
    "\<And>d pad. (d, pad) \<in> set body \<Longrightarrow> length (pad_around pad d) < 2 ^ 24" "\<And>t. trailers = Some t \<Longrightarrow> section_status None t"
  shows "\<exists>f. h2_alike c f \<and> h2_loop (body_frames sid (trailers = None) body
       @ (case trailers of None \<Rightarrow> [] | Some t \<Rightarrow> section_frames sid True t)) (finish_with (body = [] \<and> trailers = None) (Ev_end sid) sid c)
     = Inr ([], finish_with True (Ev_end sid) sid f)"
proof (cases trailers)
  case None
  show ?thesis
  proof (cases "body = []")
    case True
    then show ?thesis using None h2_alike_refl by (auto simp: h2_loop_Nil)
  next
    case False
    then show ?thesis using None body_frames_read [of body sid c True "[]"] assms(1-6) by (auto simp: h2_loop_Nil)
  qed
next
  case (Some t)
  from body_frames_read [of body sid c False "section_frames sid True t"] assms(1-6) obtain d where
    d: "h2_alike c d" "h2_loop (body_frames sid False body @ section_frames sid True t) c = h2_loop (section_frames sid True t) d" by auto
  from section_frames_read [OF assms(7) [OF Some] assms(1,2), of d True "[]"] d(1) assms(3-5) obtain e where
    e: "h2_alike d e" "h2_loop (section_frames sid True t) d = rbind (complete_headers sid True (concat (ws_frags t)) e) (h2_loop [])"
    by (auto simp: h2_alike_def)
  have "complete_headers sid True (concat (ws_frags t)) e = Inr (finish_with True (Ev_end sid) sid e)"
    using assms(7) [OF Some] by (simp add: complete_headers_def section_status_def)
  then show ?thesis using Some d(2) e(2) h2_alike_trans [OF d(1) e(1)] by (auto simp: h2_loop_Nil)
qed

lemma response_frames_read:
  assumes "sid < 2 ^ 31" "sid \<noteq> 0" "h2_peer_preface_seen c" "h2_header_stream c = 0" "h2_header_block c = []"
    "\<And>w. w \<in> set interim \<Longrightarrow> \<exists>st. section_status (Some st) w \<and> is_informational st"
    "section_status (Some st) final" "\<not> is_informational st" "\<And>d pad. (d, pad) \<in> set body \<Longrightarrow> length (pad_around pad d) < 2 ^ 24"
    "\<And>t. trailers = Some t \<Longrightarrow> section_status None t"
  shows "\<exists>f. h2_alike (h2_push_event (Ev_status sid st) c) f
     \<and> h2_loop (response_wire sid interim final body trailers) c = Inr ([], finish_with True (Ev_end sid) sid f)"
proof -
  let ?fin = "body = [] \<and> trailers = None"
  let ?tail = "body_frames sid (trailers = None) body @ (case trailers of None \<Rightarrow> [] | Some t \<Rightarrow> section_frames sid True t)"
  let ?head = "section_frames sid ?fin final @ ?tail"
  obtain d1 where d1: "h2_alike c d1" "h2_loop (concat (map (section_frames sid False) interim) @ ?head) c = h2_loop ?head d1"
    using interim_frames_read [of interim sid c ?head] assms(1-6) by blast
  obtain d2 where d2: "h2_alike d1 d2"
    "h2_loop ?head d1 = rbind (complete_headers sid ?fin (concat (ws_frags final)) d2) (h2_loop ?tail)"
    using section_frames_read [OF assms(7,1,2), of d1 ?fin ?tail] d1(1) assms(3-5) by (auto simp: h2_alike_def)
  let ?e = "h2_push_event (Ev_status sid st) d2"
  have same: "h2_alike (h2_push_event (Ev_status sid st) c) ?e"
    using h2_alike_trans [OF d1(1) d2(1)] by (simp add: h2_alike_def h2_push_event_def)
  have "complete_headers sid ?fin (concat (ws_frags final)) d2 = Inr (finish_with ?fin (Ev_end sid) sid ?e)"
    using assms(7,8) by (simp add: complete_headers_def section_status_def)
  moreover have "h2_peer_preface_seen ?e" "h2_header_stream ?e = 0" "h2_header_block ?e = []"
    using same assms(3-5) by (simp_all add: h2_alike_def h2_push_event_def)
  then obtain f where "h2_alike ?e f" "h2_loop ?tail (finish_with ?fin (Ev_end sid) sid ?e) = Inr ([], finish_with True (Ev_end sid) sid f)"
    using response_end_read [of sid ?e body trailers, OF assms(1,2) _ _ _ assms(9,10)] by blast
  ultimately show ?thesis using d1(2) d2(2) h2_alike_trans [OF same] by (auto simp: response_wire_def)
qed

text \<open>
  C12. A response on an open stream: any number of informational sections, a field section with the final status,
  any number of DATA frames and perhaps trailers without a status. Each section is one HEADERS frame, with or without
  padding and a priority, or is cut into it and CONTINUATION frames; a DATA frame may be padded; the last piece ends
  the stream; no frame of another kind or stream comes between; the whole is cut into reads anywhere. The worker hears
  exactly two things, the final status and then the end of that stream, and the stream leaves the table while every
  other stays.
\<close>

theorem h2_response_events:
  assumes "h2_inv c" "ring_get 1 1 sid (h2_open c) = Some s" "h2_pending c = []" "h2_peer_preface_seen c"
    "h2_header_stream c = 0" "h2_header_block c = []"
    "\<And>w. w \<in> set interim \<Longrightarrow> \<exists>st. section_status (Some st) w \<and> is_informational st"
    "section_status (Some st) final" "\<not> is_informational st"
    "\<And>d pad. (d, pad) \<in> set body \<Longrightarrow> length (pad_around pad d) < 2 ^ 24" "\<And>t. trailers = Some t \<Longrightarrow> section_status None t"
    "concat cuts = response_wire sid interim final body trailers"
  shows "\<exists>d. feeds h2_feed cuts c = Inr d \<and> h2_events d = h2_events c @ [Ev_status sid st, Ev_end sid]
     \<and> (\<forall>i. ring_get 1 1 i (h2_open d) = (if i = sid then None else ring_get 1 1 i (h2_open c)))"
proof -
  note I = streams_okD [OF assms(1) [unfolded h2_inv_def, THEN conjunct1]]
  have n: "sid = nth_id (sid div 2)" "ring_map (h2_open c) (sid div 2) = Some s"
    using assms(2) by (auto simp: ring_get_map nth_id_def drop_bit_eq_div mult.commute split: if_splits)
  then have "sid div 2 < h2_next_id c div 2" using I(5) by blast
  moreover have "h2_next_id c div 2 \<le> 2 ^ 30" using I(4) by (simp add: MAX_STREAM_ID_def)
  ultimately have "sid div 2 < 2 ^ 30" by (rule less_le_trans)
  then have sid: "sid < 2 ^ 31" "sid \<noteq> 0" using n(1) by (auto simp: nth_id_def)
  from response_frames_read [OF sid assms(4-11)] obtain f where f: "h2_alike (h2_push_event (Ev_status sid st) c) f"
    "h2_loop (concat cuts) c = Inr ([], finish_with True (Ev_end sid) sid f)" unfolding assms(12) by blast
  then have open_f: "h2_open f = h2_open c" "h2_events f = h2_events c @ [Ev_status sid st]" "h2_pending f = []"
    using assms(3) by (simp_all add: h2_alike_def)
  have "cuts \<noteq> []" using assms(12) by (auto simp: response_wire_def section_frames_def frame_header_bytes_def)
  then have "feeds h2_feed cuts c = h2_feed (concat cuts) c" by (rule h2.feeds_concat [OF TrueI])
  also have "\<dots> = Inr (finish_with True (Ev_end sid) sid f)"
    using assms(3,4) f(2) open_f(3) by (simp add: h2_feed_def h2_run_def finish_with_pending)
  finally show ?thesis
    using finish_open [of f sid s] I(1) assms(2) by (auto simp: open_f)
qed

theorem h2_response_events_witness:
  "let c = h2_new\<lparr>h2_open := ring_push 1 1 \<lparr>os_id = 1, os_sent = 0, os_window = 0\<rparr> ring_new, h2_next_id := 3,
       h2_peer_preface_seen := True\<rparr>;
     cuts = [[0, 0, 7, 1, 8, 0, 0, 0, 1, 1, 8, 3, 49, 48, 48, 0, 0, 0, 0, 9, 4, 0, 0, 0, 1],
             [0, 0, 6, 1, 36, 0, 0, 0, 1, 0, 0, 0, 0, 16, 136, 0, 0], [4, 0, 8, 0, 0, 0, 1, 1, 104, 105, 0],
             [0, 0, 0, 1, 5, 0, 0, 0, 1]] in
   \<exists>d. feeds h2_feed cuts c = Inr d \<and> h2_events d = [Ev_status 1 200, Ev_end 1]"
proof -
  let ?s = "\<lparr>os_id = 1, os_sent = 0, os_window = 0\<rparr>"
  let ?c = "h2_new\<lparr>h2_open := ring_push 1 1 ?s ring_new, h2_next_id := 3, h2_peer_preface_seen := True\<rparr>"
  let ?cuts = "[[0, 0, 7, 1, 8, 0, 0, 0, 1, 1, 8, 3, 49, 48, 48, 0, 0, 0, 0, 9, 4, 0, 0, 0, 1],
             [0, 0, 6, 1, 36, 0, 0, 0, 1, 0, 0, 0, 0, 16, 136, 0, 0], [4, 0, 8, 0, 0, 0, 1, 1, 104, 105, 0],
             [0, 0, 0, 1, 5, 0, 0, 0, 1]]"
  let ?interim = "\<lparr>ws_pad = Some [0], ws_priority = None, ws_frags = [[8, 3, 49, 48, 48], []]\<rparr>"
  let ?final = "\<lparr>ws_pad = None, ws_priority = Some [0, 0, 0, 0, 16], ws_frags = [[136]]\<rparr>"
  let ?trailers = "Some \<lparr>ws_pad = None, ws_priority = None, ws_frags = [[]]\<rparr>"
  let ?body = "[([104, 105], Some [0])]"
  have "streams_ok 3 (ring_push 1 1 ?s ring_new) []"
    using streams_push [OF streams_new, of ?s] by (simp add: MAX_STREAM_ID_def numeral_3_eq_3)
  then have inv: "h2_inv ?c" using h2_inv_new by (simp add: h2_inv_def) (simp add: h2_new_def)
  have get: "ring_get 1 1 1 (h2_open ?c) = Some ?s"
    using h2_ring.get_push [OF h2_ring.empty_ok, of 1 1 ?s] by (simp add: ring_fits_def ring_new_def)
  have interim: "\<exists>st. section_status (Some st) w \<and> is_informational st" if "w \<in> set [?interim]" for w
  proof -
    have "status_value [49, 48, 48] False = Inr 100" by code_simp
    then have "hpack_find_status [8, 3, 49, 48, 48] = Inr (Some 100)"
      by (simp add: hpack_find_status.simps hpack_field_def hpack_literal_field_def hpack_decode_int_def hpack_name_def prefix_decode.simps Let_def
          hpack_read_str_def push_bit_eq_mult)
    then show ?thesis using that
      by (intro exI [of _ 100]) (simp add: section_status_def section_payload_def pad_around_def is_informational_def)
  qed
  have "hpack_find_status [136] = Inr (Some 200)"
    by (simp add: hpack_find_status.simps hpack_field_def hpack_decode_int_def push_bit_eq_mult STATUS_BY_INDEX_def prefix_decode.simps Let_def)
  then have final: "section_status (Some 200) ?final" "\<not> is_informational 200"
    by (simp_all add: section_status_def section_payload_def pad_around_def is_informational_def)
  have trailers: "section_status None t" if "?trailers = Some t" for t
    using that by (auto simp: section_status_def section_payload_def pad_around_def hpack_find_status.simps)
  have cuts: "concat ?cuts = response_wire 1 [?interim] ?final ?body ?trailers"
    by (simp add: response_wire_def section_frames_def section_payload_def section_flags_def pad_around_def pad_flag_def
        frame_header_bytes_def be_bytes_numeral drop_bit_eq_div h2_kinds h2_flags)
  have body: "length (pad_around pad d) < 2 ^ 24" if "(d, pad) \<in> set ?body" for d pad using that by (auto simp: pad_around_def)
  have "h2_pending ?c = []" "h2_peer_preface_seen ?c" "h2_header_stream ?c = 0" "h2_header_block ?c = []" "h2_events ?c = []"
    by (simp_all add: h2_new_def)
  with h2_response_events [OF inv get _ _ _ _ interim final body trailers cuts] show ?thesis unfolding Let_def by auto
qed


theorem h2_chunks_irrelevant_witness:
  "feeds h2_feed [[0, 0, 0, 4], [0, 0, 0, 0, 0]] h2_new = feeds h2_feed [[0, 0, 0, 4, 0, 0, 0, 0, 0]] h2_new"
  by (rule h2_chunks_irrelevant) simp_all

end
