(* ===== verification/Quic_State.thy ===== *)
theory Quic_State
  imports Ack Received Frame Header Transport Send_Stream Recv_Stream Recovery
begin

text \<open>
  The state of a QUIC client connection and its streams (\<open>src/quic/conn.rs\<close>). rustls is a parameter: its connection
  and its secrets are type variables, and \<open>tls_api\<close> holds the operations the code calls on them. A key is what can be
  done with it. The pools of spare buffers (\<open>spare_bufs\<close>, \<open>spare_frames\<close>, \<open>ack_ranges\<close>, \<open>acked\<close>) hold cleared
  buffers between calls and have no counterpart. Instants and durations are nanoseconds.
\<close>

section \<open>Keys and TLS\<close>

record packet_key =
  pk_encrypt :: "nat \<Rightarrow> bytes \<Rightarrow> bytes \<Rightarrow> (bytes \<times> bytes) option"
  pk_decrypt :: "nat \<Rightarrow> bytes \<Rightarrow> bytes \<Rightarrow> bytes option"

record directional_keys =
  dk_encrypt_header :: hp_mask
  dk_decrypt_header :: hp_mask
  dk_packet :: packet_key

record keys =
  k_local :: directional_keys
  k_remote :: directional_keys

record packet_key_set =
  ks_local :: packet_key
  ks_remote :: packet_key

datatype 's key_change = Change_handshake keys | Change_one_rtt keys 's

text \<open>
  \<open>tls_left\<close> bounds how often \<open>write_hs\<close> still has something to hand over; the loop that drains it takes its fuel
  from there.
\<close>

record ('t, 's) tls_api =
  tls_write_hs :: "'t \<Rightarrow> 's key_change option \<times> bytes \<times> 't"
  tls_read_hs :: "bytes \<Rightarrow> 't \<Rightarrow> bool \<times> 't"
  tls_alert :: "'t \<Rightarrow> nat option"
  tls_params :: "'t \<Rightarrow> bytes option"
  tls_next_keys :: "'s \<Rightarrow> packet_key_set \<times> 's"
  tls_initial_keys :: "bytes \<Rightarrow> keys option"
  tls_retry_tag :: "bytes \<Rightarrow> bytes option"
  tls_left :: "'t \<Rightarrow> nat"

section \<open>State\<close>

definition MIN_INITIAL_DATAGRAM :: nat where "MIN_INITIAL_DATAGRAM = 1200"
definition MAX_DATAGRAM :: nat where "MAX_DATAGRAM = 1200"
definition TAG_LEN :: nat where "TAG_LEN = 16"
definition OWN_ACK_DELAY_EXPONENT :: nat where "OWN_ACK_DELAY_EXPONENT = 3"

datatype generation = Current | Next | Previous

definition generation_for :: "bool \<Rightarrow> bool \<Rightarrow> nat \<Rightarrow> nat \<Rightarrow> generation" where
  "generation_for phase key_phase pn rotate_at =
     (if phase = key_phase then Current else if pn < rotate_at then Previous else Next)"

text \<open>Why a connection is over. The source formats these as text.\<close>

datatype why =
    Stateless_reset | Peer_closed bool nat bytes | Idle | Connect_timeout | No_version_1 | Closed_locally
  | Transport_error recv_error | Tls_failed

datatype quic_event =
    Ev_connected | Ev_readable nat | Ev_opened nat | Ev_finished nat "nat option" | Ev_stopped nat | Ev_lost why

record space_state =
  sc_keys :: "keys option"
  sc_next_packet_number :: nat
  sc_largest_received :: "nat option"
  sc_received :: received_packets
  sc_ack :: ack_state
  sc_sent :: sent_packets
  sc_loss_deadline :: "nat option"
  sc_crypto_out :: bytes
  sc_crypto_sent :: nat
  sc_crypto_in :: recv_stream

definition space_default :: space_state where
  "space_default =
     \<lparr>sc_keys = None, sc_next_packet_number = 0, sc_largest_received = None, sc_received = received_default,
      sc_ack = ack_default, sc_sent = sent_default, sc_loss_deadline = None, sc_crypto_out = [], sc_crypto_sent = 0,
      sc_crypto_in = recv_default\<rparr>"

record close_info =
  cl_code :: nat
  cl_reason :: bytes
  cl_app :: bool

record stream_pair =
  pr_send :: send_stream
  pr_recv :: recv_stream
  pr_finished :: bool
  pr_retired :: bool
  pr_queued :: bool

record peer_cid =
  pc_seq :: nat
  pc_cid :: connection_id
  pc_token :: "bytes option"

record ('t, 's) quic =
  q_tls :: 't
  q_spaces :: "space \<Rightarrow> space_state"
  q_one_rtt_local :: "directional_keys option"
  q_one_rtt_remote :: "directional_keys option"
  q_secrets :: "'s option"
  q_next_1rtt :: "packet_key_set option"
  q_prev_1rtt_remote :: "packet_key option"
  q_key_phase :: bool
  q_original_dcid :: connection_id
  q_retry_token :: bytes
  q_retried :: bool
  q_retry_scid :: "connection_id option"
  q_server_initial_seen :: bool
  q_rotate_at :: nat
  q_local_cid :: connection_id
  q_peer_cid :: connection_id
  q_peer_cid_seq :: nat
  q_peer_cids :: "peer_cid list"
  q_retire_prior_to :: nat
  q_retire_pending :: "nat list"
  q_reset_pending :: "(nat \<times> nat \<times> nat) list"
  q_credit_pending :: "nat list"
  q_max_data_owed :: bool
  q_stream_window :: nat
  q_params :: params
  q_local_idle_ms :: nat
  q_handshake_timeout_ms :: nat
  q_sent_since_recv :: bool
  q_next_keepalive :: "nat option"
  q_keepalive_pending :: bool
  q_unanswered :: nat
  q_handshake_done :: bool
  q_handshake_acked :: bool
  q_connected :: bool
  q_closed :: "why option"
  q_close_pending :: "close_info option"
  q_max_data_local :: nat
  q_max_data_window :: nat
  q_data_received :: nat
  q_max_data_peer :: nat
  q_data_sent :: nat
  q_max_streams_bidi :: nat
  q_next_bidi :: nat
  q_next_uni :: nat
  q_streams :: "stream_pair option list"
  q_send_queue :: "nat list"
  q_base_stream :: nat
  q_max_peer_uni :: nat
  q_peer_uni :: "(nat \<times> recv_stream) list"
  q_local_uni :: "(nat \<times> send_stream) list"
  q_rtt :: rtt
  q_rtt_sampled_at :: "nat option"
  q_congestion :: congestion
  q_pto_count :: nat
  q_pto_probes :: nat
  q_pto_space :: space
  q_idle_deadline :: "nat option"
  q_events :: "quic_event list"
  q_needs_send :: bool
  q_path_response :: "bytes option"

datatype quic_error =
    Frame_error frame_error | Recv_error recv_error | Not_opened nat | Own_uni nat | Cannot_reset nat
  | Cid_empty | Cid_retires_itself | Cid_repeated nat | Cid_error packet_error | Params_error params_error
  | No_params | Wrong_source_cid | Wrong_original_cid | Wrong_retry_cid | Bad_challenge
  | Encryption | Protection packet_error | No_initial_keys | Panic

type_synonym ('t, 's, 'a) quic_result = "(quic_error \<times> ('t, 's) quic, 'a) result"

record local_params_input =
  in_initial_max_data :: nat
  in_initial_max_stream_data :: nat
  in_initial_max_streams_uni :: nat
  in_max_idle_timeout_ms :: nat
  in_handshake_timeout_ms :: nat

text \<open>
  \<open>connect\<close>: the bytes the two random connection identifiers are made of and the start of TLS with the encoded
  parameters are arguments.
\<close>

definition connect_params :: "local_params_input \<Rightarrow> connection_id \<Rightarrow> local_params" where
  "connect_params i local_cid =
     \<lparr>lp_initial_max_data = in_initial_max_data i, lp_initial_max_stream_data_bidi_local = in_initial_max_stream_data i,
      lp_initial_max_stream_data_uni = in_initial_max_stream_data i, lp_initial_max_streams_uni = in_initial_max_streams_uni i,
      lp_max_idle_timeout_ms = in_max_idle_timeout_ms i, lp_max_udp_payload_size = MAX_DATAGRAM,
      lp_source_connection_id = local_cid\<rparr>"

definition quic_connect ::
    "('t, 's) tls_api \<Rightarrow> (bytes \<Rightarrow> 't option) \<Rightarrow> bytes \<Rightarrow> bytes \<Rightarrow> local_params_input \<Rightarrow> ('t, 's) quic option" where
  "quic_connect api start_tls entropy1 entropy2 i =
     (let local_cid = cid_random entropy1; initial_dcid = cid_random entropy2 in
      case start_tls (local_params_encode (connect_params i local_cid)) of
        None \<Rightarrow> None
      | Some tls \<Rightarrow>
          (case tls_initial_keys api (cid_as_slice initial_dcid) of
             None \<Rightarrow> None
           | Some keys \<Rightarrow> Some
               \<lparr>q_tls = tls, q_spaces = (\<lambda>_. space_default)(Initial := space_default\<lparr>sc_keys := Some keys\<rparr>),
                q_one_rtt_local = None, q_one_rtt_remote = None, q_secrets = None, q_next_1rtt = None,
                q_prev_1rtt_remote = None, q_key_phase = False, q_original_dcid = initial_dcid, q_retry_token = [],
                q_retried = False, q_retry_scid = None, q_server_initial_seen = False, q_rotate_at = 0,
                q_local_cid = local_cid, q_peer_cid = initial_dcid, q_peer_cid_seq = 0, q_peer_cids = [],
                q_retire_prior_to = 0, q_retire_pending = [], q_reset_pending = [], q_credit_pending = [],
                q_max_data_owed = False, q_stream_window = in_initial_max_stream_data i, q_params = params_default,
                q_local_idle_ms = in_max_idle_timeout_ms i, q_handshake_timeout_ms = in_handshake_timeout_ms i,
                q_sent_since_recv = False, q_next_keepalive = None, q_keepalive_pending = False, q_unanswered = 0,
                q_handshake_done = False, q_handshake_acked = False, q_connected = False, q_closed = None,
                q_close_pending = None, q_max_data_local = in_initial_max_data i,
                q_max_data_window = in_initial_max_data i, q_data_received = 0, q_max_data_peer = 0, q_data_sent = 0,
                q_max_streams_bidi = 0, q_next_bidi = 0, q_next_uni = 0, q_streams = [], q_send_queue = [],
                q_base_stream = 0, q_max_peer_uni = in_initial_max_streams_uni i, q_peer_uni = [], q_local_uni = [],
                q_rtt = rtt_default, q_rtt_sampled_at = None, q_congestion = congestion_default, q_pto_count = 0,
                q_pto_probes = 0, q_pto_space = Initial, q_idle_deadline = None, q_events = [], q_needs_send = True,
                q_path_response = None\<rparr>))"

definition upd_space :: "space \<Rightarrow> (space_state \<Rightarrow> space_state) \<Rightarrow> ('t, 's) quic \<Rightarrow> ('t, 's) quic" where
  "upd_space sp f c = c\<lparr>q_spaces := (q_spaces c)(sp := f (q_spaces c sp))\<rparr>"

definition discard_space :: "space \<Rightarrow> ('t, 's) quic \<Rightarrow> ('t, 's) quic" where
  "discard_space sp c =
     (upd_space sp (\<lambda>s. s\<lparr>sc_keys := None, sc_received := received_default, sc_ack := ack_default,
        sc_sent := sent_default, sc_loss_deadline := None, sc_crypto_out := [], sc_crypto_sent := 0,
        sc_crypto_in := recv_default\<rparr>) c)\<lparr>q_pto_count := 0, q_pto_probes := 0\<rparr>"

definition quic_probing :: "('t, 's) quic \<Rightarrow> bool" where
  "quic_probing c \<longleftrightarrow> q_pto_probes c > 0"

definition poll_event :: "('t, 's) quic \<Rightarrow> quic_event option \<times> ('t, 's) quic" where
  "poll_event c = (case q_events c of [] \<Rightarrow> (None, c) | e # es \<Rightarrow> (Some e, c\<lparr>q_events := es\<rparr>))"

definition push_event :: "quic_event \<Rightarrow> ('t, 's) quic \<Rightarrow> ('t, 's) quic" where
  "push_event e c = c\<lparr>q_events := q_events c @ [e]\<rparr>"

definition quic_lose :: "why \<Rightarrow> ('t, 's) quic \<Rightarrow> ('t, 's) quic" where
  "quic_lose w c = (if q_closed c = None then push_event (Ev_lost w) (c\<lparr>q_closed := Some w\<rparr>) else c)"

definition quic_close :: "nat \<Rightarrow> bytes \<Rightarrow> ('t, 's) quic \<Rightarrow> ('t, 's) quic" where
  "quic_close code reason c =
     (if q_closed c = None
      then c\<lparr>q_close_pending := Some \<lparr>cl_code = code, cl_reason = reason, cl_app = True\<rparr>, q_closed := Some Closed_locally\<rparr>
      else c)"

definition close_transport :: "nat \<Rightarrow> why \<Rightarrow> ('t, 's) quic \<Rightarrow> ('t, 's) quic" where
  "close_transport code w c =
     (if q_closed c = None
      then quic_lose w (c\<lparr>q_close_pending := Some \<lparr>cl_code = code, cl_reason = [], cl_app = False\<rparr>\<rparr>)
      else c)"

section \<open>Streams\<close>

definition stream_index :: "nat \<Rightarrow> ('t, 's) quic \<Rightarrow> nat option" where
  "stream_index sid c =
     (if \<not> is_client_initiated sid \<or> stream_dir sid \<noteq> Bi then None
      else case checked_sub (sid div 4) (q_base_stream c) of
        None \<Rightarrow> None
      | Some i \<Rightarrow> if i < length (q_streams c) then Some i else None)"

text \<open>The pair of a request stream, and changing it in place.\<close>

definition pair_of :: "nat \<Rightarrow> ('t, 's) quic \<Rightarrow> stream_pair option" where
  "pair_of sid c = (case stream_index sid c of None \<Rightarrow> None | Some i \<Rightarrow> q_streams c ! i)"

definition upd_pair :: "nat \<Rightarrow> (stream_pair \<Rightarrow> stream_pair) \<Rightarrow> ('t, 's) quic \<Rightarrow> ('t, 's) quic" where
  "upd_pair sid f c =
     (case stream_index sid c of
        None \<Rightarrow> c
      | Some i \<Rightarrow> c\<lparr>q_streams := (q_streams c)[i := map_option f (q_streams c ! i)]\<rparr>)"

fun upd_assoc :: "nat \<Rightarrow> ('a \<Rightarrow> 'a) \<Rightarrow> (nat \<times> 'a) list \<Rightarrow> (nat \<times> 'a) list" where
  "upd_assoc k f [] = []"
| "upd_assoc k f ((i, x) # xs) = (if i = k then (i, f x) # xs else (i, x) # upd_assoc k f xs)"

text \<open>\<open>send_mut\<close> and \<open>recv_mut\<close>: the half a stream id names, and changing it through the reference.\<close>

definition send_of :: "nat \<Rightarrow> ('t, 's) quic \<Rightarrow> send_stream option" where
  "send_of sid c =
     (case stream_index sid c of
        Some i \<Rightarrow> map_option pr_send (q_streams c ! i)
      | None \<Rightarrow> map_of (q_local_uni c) sid)"

definition upd_send :: "nat \<Rightarrow> (send_stream \<Rightarrow> send_stream) \<Rightarrow> ('t, 's) quic \<Rightarrow> ('t, 's) quic" where
  "upd_send sid f c =
     (case stream_index sid c of
        Some i \<Rightarrow> upd_pair sid (\<lambda>p. p\<lparr>pr_send := f (pr_send p)\<rparr>) c
      | None \<Rightarrow> c\<lparr>q_local_uni := upd_assoc sid f (q_local_uni c)\<rparr>)"

definition recv_of :: "nat \<Rightarrow> ('t, 's) quic \<Rightarrow> recv_stream option" where
  "recv_of sid c =
     (case stream_index sid c of
        Some i \<Rightarrow> map_option pr_recv (q_streams c ! i)
      | None \<Rightarrow> map_of (q_peer_uni c) sid)"

definition upd_recv :: "nat \<Rightarrow> (recv_stream \<Rightarrow> recv_stream) \<Rightarrow> ('t, 's) quic \<Rightarrow> ('t, 's) quic" where
  "upd_recv sid f c =
     (case stream_index sid c of
        Some i \<Rightarrow> upd_pair sid (\<lambda>p. p\<lparr>pr_recv := f (pr_recv p)\<rparr>) c
      | None \<Rightarrow> c\<lparr>q_peer_uni := upd_assoc sid f (q_peer_uni c)\<rparr>)"

definition queue_send :: "nat \<Rightarrow> ('t, 's) quic \<Rightarrow> ('t, 's) quic" where
  "queue_send sid c =
     (case pair_of sid c of
        None \<Rightarrow> c
      | Some pair \<Rightarrow>
          if pr_queued pair then c
          else (upd_pair sid (\<lambda>p. p\<lparr>pr_queued := True\<rparr>) c)\<lparr>q_send_queue := q_send_queue c @ [sid]\<rparr>)"

definition open_bi :: "('t, 's) quic \<Rightarrow> nat option \<times> ('t, 's) quic" where
  "open_bi c =
     (if q_next_bidi c \<ge> q_max_streams_bidi c then (None, c)
      else
        let sid = client_stream_id Bi (q_next_bidi c);
            limit = initial_max_stream_data_bidi_remote (q_params c) in
        (Some sid, c\<lparr>q_next_bidi := q_next_bidi c + 1, q_unanswered := q_unanswered c + 1,
           q_streams := q_streams c @ [Some \<lparr>pr_send = send_new limit, pr_recv = recv_new (q_stream_window c),
             pr_finished = False, pr_retired = False, pr_queued = False\<rparr>]\<rparr>))"

definition open_uni :: "('t, 's) quic \<Rightarrow> nat option \<times> ('t, 's) quic" where
  "open_uni c =
     (if q_next_uni c \<ge> initial_max_streams_uni (q_params c) then (None, c)
      else
        let sid = client_stream_id Uni (q_next_uni c) in
        (Some sid, c\<lparr>q_next_uni := q_next_uni c + 1,
           q_local_uni := q_local_uni c @ [(sid, send_new (initial_max_stream_data_uni (q_params c)))]\<rparr>))"

text \<open>The stream \<open>send_oneshot\<close> writes to is the one at the back of the ring, which \<open>open_bi\<close> has just pushed.\<close>

definition send_oneshot :: "bytes \<Rightarrow> ('t, 's) quic \<Rightarrow> (nat \<times> nat) option \<times> ('t, 's) quic" where
  "send_oneshot data c =
     (case open_bi c of
        (None, c) \<Rightarrow> (None, c)
      | (Some sid, c) \<Rightarrow>
          let c = c\<lparr>q_needs_send := True\<rparr> in
          case last (q_streams c) of
            None \<Rightarrow> (None, c)
          | Some pair \<Rightarrow>
              let (n, send) = send_write data (pr_send pair);
                  send = (if n = length data then send_finish send else send);
                  pair = pair\<lparr>pr_send := send, pr_queued := True\<rparr> in
              (Some (sid, n), c\<lparr>q_streams := butlast (q_streams c) @ [Some pair], q_send_queue := q_send_queue c @ [sid]\<rparr>))"

definition quic_write :: "nat \<Rightarrow> bytes \<Rightarrow> ('t, 's) quic \<Rightarrow> nat \<times> ('t, 's) quic" where
  "quic_write sid data c =
     (let c = c\<lparr>q_needs_send := True\<rparr>;
          n = (case send_of sid c of None \<Rightarrow> 0 | Some s \<Rightarrow> fst (send_write data s));
          c = upd_send sid (\<lambda>s. snd (send_write data s)) c in
      (n, queue_send sid c))"

definition quic_finish :: "nat \<Rightarrow> ('t, 's) quic \<Rightarrow> ('t, 's) quic" where
  "quic_finish sid c = queue_send sid (upd_send sid send_finish (c\<lparr>q_needs_send := True\<rparr>))"

definition queue_credit :: "nat \<Rightarrow> ('t, 's) quic \<Rightarrow> ('t, 's) quic" where
  "queue_credit sid c =
     (if sid \<in> set (q_credit_pending c) then c else c\<lparr>q_credit_pending := q_credit_pending c @ [sid]\<rparr>)"

definition quic_consume ::
    "nat \<Rightarrow> (bytes \<Rightarrow> ('e, unit) result) \<Rightarrow> ('t, 's) quic \<Rightarrow> ('e, nat) result \<times> ('t, 's) quic" where
  "quic_consume sid f c =
     (case recv_of sid c of
        None \<Rightarrow> (Inr 0, c)
      | Some recv \<Rightarrow>
          (case recv_consume f recv of
             Inl e \<Rightarrow> (Inl e, c)
           | Inr (n, recv) \<Rightarrow>
               let c = upd_recv sid (\<lambda>_. recv) c in
               (Inr n, if recv_wants_credit (q_stream_window c) recv
                       then (queue_credit sid c)\<lparr>q_needs_send := True\<rparr> else c)))"

definition push_readable :: "nat \<Rightarrow> ('t, 's) quic \<Rightarrow> ('t, 's) quic" where
  "push_readable sid c =
     (if q_events c \<noteq> [] \<and> last (q_events c) = Ev_readable sid then c else push_event (Ev_readable sid) c)"

text \<open>The front of the ring is trimmed of the streams that are gone.\<close>

definition trim_streams :: "('t, 's) quic \<Rightarrow> ('t, 's) quic" where
  "trim_streams c =
     (let gone = takeWhile (\<lambda>p. p = None) (q_streams c) in
      c\<lparr>q_streams := drop (length gone) (q_streams c), q_base_stream := q_base_stream c + length gone\<rparr>)"

definition quic_settle :: "nat \<Rightarrow> ('t, 's) quic \<Rightarrow> ('t, 's) quic" where
  "quic_settle sid c =
     (case stream_index sid c of
        None \<Rightarrow> c
      | Some i \<Rightarrow>
          if \<not> (case q_streams c ! i of None \<Rightarrow> False | Some pair \<Rightarrow> pr_retired pair \<and> send_is_settled (pr_send pair)) then c
          else trim_streams (c\<lparr>q_streams := (q_streams c)[i := None]\<rparr>))"

text \<open>\<open>self.unanswered -= 1\<close> panics below zero.\<close>

definition retire_pair :: "stream_pair \<Rightarrow> stream_pair" where
  "retire_pair p = p\<lparr>pr_finished := True, pr_retired := True\<rparr>"

definition quic_retire :: "nat \<Rightarrow> nat \<Rightarrow> ('t, 's) quic \<Rightarrow> ('t, 's, ('t, 's) quic) quic_result" where
  "quic_retire sid cancel c =
     (case pair_of sid c of
        None \<Rightarrow> Inr c
      | Some pair \<Rightarrow>
          if \<not> pr_finished pair \<and> q_unanswered c = 0 then Inl (Panic, c)
          else
            let c = (if pr_finished pair then c else c\<lparr>q_unanswered := q_unanswered c - 1\<rparr>);
                c = upd_pair sid retire_pair c;
                c = (if \<not> ss_reset (pr_send pair) \<and> \<not> send_fully_sent (pr_send pair) then
                       let (final_size, send) = send_reset (pr_send pair) in
                       (upd_pair sid (\<lambda>p. p\<lparr>pr_send := send\<rparr>) c)
                         \<lparr>q_reset_pending := q_reset_pending c @ [(sid, cancel, final_size)], q_needs_send := True\<rparr>
                     else c) in
            Inr (quic_settle sid c))"

definition check_peer_uni :: "nat \<Rightarrow> ('t, 's) quic \<Rightarrow> (recv_error, unit) result" where
  "check_peer_uni sid c = (if stream_dir sid = Bi \<or> sid div 4 \<ge> q_max_peer_uni c then Inl StreamLimit else Inr ())"

text \<open>A frame for a request stream in the ring, and for a stream of the peer.\<close>

definition on_request_data ::
    "nat \<Rightarrow> nat \<Rightarrow> bytes \<Rightarrow> bool \<Rightarrow> nat \<Rightarrow> stream_pair \<Rightarrow> ('t, 's) quic \<Rightarrow> ('t, 's, nat \<times> ('t, 's) quic) quic_result" where
  "on_request_data sid offset data fin credit pair c =
     (case push_with_credit offset data fin credit (pr_recv pair) of
        Inl e \<Rightarrow> Inl (Recv_error e, c)
      | Inr (new, recv) \<Rightarrow>
          let readable = recv_has_data recv;
              done = (recv_is_finished recv \<and> \<not> pr_finished pair);
              c = upd_pair sid (\<lambda>p. p\<lparr>pr_recv := recv\<rparr>) c in
          if done \<and> q_unanswered c = 0 then Inl (Panic, c)
          else
            let c = (if done then (upd_pair sid (\<lambda>p. p\<lparr>pr_finished := True\<rparr>) c)\<lparr>q_unanswered := q_unanswered c - 1\<rparr> else c);
                c = (if readable then push_readable sid c else c);
                c = (if done then push_event (Ev_finished sid None) c else c) in
            Inr (new, c))"

definition on_peer_uni_data ::
    "nat \<Rightarrow> nat \<Rightarrow> bytes \<Rightarrow> bool \<Rightarrow> nat \<Rightarrow> ('t, 's) quic \<Rightarrow> ('t, 's, nat \<times> ('t, 's) quic) quic_result" where
  "on_peer_uni_data sid offset data fin credit c =
     (let old = map_of (q_peer_uni c) sid;
          recv = (case old of Some recv \<Rightarrow> recv | None \<Rightarrow> recv_new (q_stream_window c)) in
      case push_with_credit offset data fin credit recv of
        Inl e \<Rightarrow> Inl (Recv_error e, c)
      | Inr (new, recv) \<Rightarrow>
          let c = (case old of
                     Some _ \<Rightarrow> c\<lparr>q_peer_uni := upd_assoc sid (\<lambda>_. recv) (q_peer_uni c)\<rparr>
                   | None \<Rightarrow> push_event (Ev_opened sid) (c\<lparr>q_peer_uni := q_peer_uni c @ [(sid, recv)]\<rparr>)) in
          Inr (new, if recv_has_data recv then push_readable sid c else c))"

text \<open>\<open>self.max_data_local - self.data_received\<close> panics below zero.\<close>

definition on_stream :: "nat \<Rightarrow> nat \<Rightarrow> bytes \<Rightarrow> bool \<Rightarrow> ('t, 's) quic \<Rightarrow> ('t, 's, ('t, 's) quic) quic_result" where
  "on_stream sid offset data fin c =
     (if q_max_data_local c < q_data_received c then Inl (Panic, c)
      else
        let credit = q_max_data_local c - q_data_received c;
            counted = (\<lambda>(new, c). Inr (c\<lparr>q_data_received := q_data_received c + new\<rparr>)) in
        case stream_index sid c of
          Some i \<Rightarrow>
            (case q_streams c ! i of
               None \<Rightarrow> Inr c
             | Some pair \<Rightarrow>
                 if pr_retired pair then Inr c
                 else rbind (on_request_data sid offset data fin credit pair c) counted)
        | None \<Rightarrow>
            if is_client_initiated sid \<and> stream_dir sid = Bi then
              (if sid div 4 \<ge> q_next_bidi c then Inl (Not_opened sid, c) else Inr c)
            else if is_client_initiated sid then Inl (Own_uni sid, c)
            else case check_peer_uni sid c of
                   Inl e \<Rightarrow> Inl (Recv_error e, c)
                 | Inr _ \<Rightarrow> rbind (on_peer_uni_data sid offset data fin credit c) counted)"

definition on_request_reset ::
    "nat \<Rightarrow> nat \<Rightarrow> nat \<Rightarrow> nat \<Rightarrow> stream_pair \<Rightarrow> ('t, 's) quic \<Rightarrow> ('t, 's, ('t, 's) quic) quic_result" where
  "on_request_reset sid error final_size credit pair c =
     (case recv_reset final_size credit (pr_recv pair) of
        Inl e \<Rightarrow> Inl (Recv_error e, c)
      | Inr (new, recv) \<Rightarrow>
          let c = (upd_pair sid (\<lambda>p. p\<lparr>pr_recv := recv\<rparr>) c)\<lparr>q_data_received := q_data_received c + new\<rparr> in
          if pr_finished pair then Inr c
          else if q_unanswered c = 0 then Inl (Panic, c)
          else Inr (push_event (Ev_finished sid (Some error))
                 ((upd_pair sid (\<lambda>p. p\<lparr>pr_finished := True\<rparr>) c)\<lparr>q_unanswered := q_unanswered c - 1\<rparr>)))"

definition on_peer_uni_reset :: "nat \<Rightarrow> nat \<Rightarrow> nat \<Rightarrow> ('t, 's) quic \<Rightarrow> ('t, 's, ('t, 's) quic) quic_result" where
  "on_peer_uni_reset sid final_size credit c =
     (let old = map_of (q_peer_uni c) sid;
          recv = (case old of Some recv \<Rightarrow> recv | None \<Rightarrow> recv_new (q_stream_window c)) in
      case recv_reset final_size credit recv of
        Inl e \<Rightarrow> Inl (Recv_error e, c)
      | Inr (new, recv) \<Rightarrow>
          let c = (case old of
                     Some _ \<Rightarrow> c\<lparr>q_peer_uni := upd_assoc sid (\<lambda>_. recv) (q_peer_uni c)\<rparr>
                   | None \<Rightarrow> push_event (Ev_opened sid) (c\<lparr>q_peer_uni := q_peer_uni c @ [(sid, recv)]\<rparr>)) in
          Inr (c\<lparr>q_data_received := q_data_received c + new\<rparr>))"

definition on_reset :: "nat \<Rightarrow> nat \<Rightarrow> nat \<Rightarrow> ('t, 's) quic \<Rightarrow> ('t, 's, ('t, 's) quic) quic_result" where
  "on_reset sid error final_size c =
     (if q_max_data_local c < q_data_received c then Inl (Panic, c)
      else
        let credit = q_max_data_local c - q_data_received c in
        case stream_index sid c of
          Some i \<Rightarrow>
            (case q_streams c ! i of
               None \<Rightarrow> Inr c
             | Some pair \<Rightarrow> on_request_reset sid error final_size credit pair c)
        | None \<Rightarrow>
            if is_client_initiated sid then
              (if stream_dir sid = Uni \<or> sid div 4 \<ge> q_next_bidi c then Inl (Cannot_reset sid, c) else Inr c)
            else case check_peer_uni sid c of
                   Inl e \<Rightarrow> Inl (Recv_error e, c)
                 | Inr _ \<Rightarrow> on_peer_uni_reset sid final_size credit c)"

end
