(* ===== verification/Quic_Recv.thy ===== *)
theory Quic_Recv
  imports Quic_State
begin

text \<open>
  What a QUIC connection does with a datagram (\<open>src/quic/conn.rs\<close>): the TLS pump and the keys, every frame handler,
  acknowledgements and loss, packets, datagrams and the timers.
\<close>

section \<open>TLS and keys\<close>

definition validate_server_params :: "('t, 's) quic \<Rightarrow> quic_error option" where
  "validate_server_params c =
     (let handshake_scid = map_option pc_cid (find (\<lambda>p. pc_seq p = 0) (q_peer_cids c)) in
      if initial_source_connection_id (q_params c) \<noteq> handshake_scid then Some Wrong_source_cid
      else if original_destination_connection_id (q_params c) \<noteq> Some (q_original_dcid c) then Some Wrong_original_cid
      else if retry_source_connection_id (q_params c) \<noteq> q_retry_scid c then Some Wrong_retry_cid
      else None)"

fun set_token :: "bytes option \<Rightarrow> peer_cid list \<Rightarrow> peer_cid list" where
  "set_token token [] = []"
| "set_token token (p # ps) = (if pc_seq p = 0 then p\<lparr>pc_token := token\<rparr> # ps else p # set_token token ps)"

definition take_peer_params :: "('t, 's) tls_api \<Rightarrow> ('t, 's) quic \<Rightarrow> ('t, 's, ('t, 's) quic) quic_result" where
  "take_peer_params api c =
     (case tls_params api (q_tls c) of
        None \<Rightarrow> Inl (No_params, c)
      | Some raw \<Rightarrow>
          (case params_decode raw of
             Inl e \<Rightarrow> Inl (Params_error e, c)
           | Inr params \<Rightarrow>
               let c = c\<lparr>q_params := params\<rparr> in
               case validate_server_params c of
                 Some e \<Rightarrow> Inl (e, c)
               | None \<Rightarrow> Inr (c\<lparr>q_max_data_peer := initial_max_data params,
                   q_max_streams_bidi := initial_max_streams_bidi params,
                   q_peer_cids := set_token (stateless_reset_token params) (q_peer_cids c)\<rparr>)))"

definition one_rtt_ready :: "('t, 's) tls_api \<Rightarrow> keys \<Rightarrow> 's \<Rightarrow> ('t, 's) quic \<Rightarrow> ('t, 's) quic" where
  "one_rtt_ready api keys next c =
     (let (ks, secrets) = tls_next_keys api next in
      push_event Ev_connected (c\<lparr>q_one_rtt_local := Some (k_local keys), q_one_rtt_remote := Some (k_remote keys),
        q_next_1rtt := Some ks, q_secrets := Some secrets, q_connected := True\<rparr>))"

text \<open>The loop of \<open>pump_tls\<close>; out of fuel it stops where it is.\<close>

fun pump_loop :: "nat \<Rightarrow> ('t, 's) tls_api \<Rightarrow> ('t, 's) quic \<Rightarrow> ('t, 's, ('t, 's) quic) quic_result" where
  "pump_loop 0 api c = Inr c"
| "pump_loop (Suc n) api c =
     (let sp = (if sc_keys (q_spaces c Handshake) \<noteq> None then Handshake else Initial);
          (change, produced, tls) = tls_write_hs api (q_tls c);
          c = upd_space sp (\<lambda>s. s\<lparr>sc_crypto_out := sc_crypto_out s @ produced\<rparr>) (c\<lparr>q_tls := tls\<rparr>) in
      case change of
        Some (Change_handshake keys) \<Rightarrow>
          pump_loop n api ((upd_space Handshake (\<lambda>s. s\<lparr>sc_keys := Some keys\<rparr>) c)\<lparr>q_needs_send := True\<rparr>)
      | Some (Change_one_rtt keys next) \<Rightarrow>
          rbind (take_peer_params api c) (\<lambda>c. pump_loop n api ((one_rtt_ready api keys next c)\<lparr>q_needs_send := True\<rparr>))
      | None \<Rightarrow> if produced = [] then Inr c else pump_loop n api (c\<lparr>q_needs_send := True\<rparr>))"

definition pump_tls :: "('t, 's) tls_api \<Rightarrow> ('t, 's) quic \<Rightarrow> ('t, 's, ('t, 's) quic) quic_result" where
  "pump_tls api c = pump_loop (Suc (tls_left api (q_tls c))) api c"

definition rotate_keys :: "('t, 's) tls_api \<Rightarrow> nat \<Rightarrow> bool \<Rightarrow> ('t, 's) quic \<Rightarrow> ('t, 's) quic" where
  "rotate_keys api at phase c =
     (case q_next_1rtt c of
        None \<Rightarrow> c
      | Some next \<Rightarrow>
          let c = c\<lparr>q_next_1rtt := None\<rparr>;
              old = map_option dk_packet (q_one_rtt_remote c);
              c = c\<lparr>q_one_rtt_remote := map_option (\<lambda>k. k\<lparr>dk_packet := ks_remote next\<rparr>) (q_one_rtt_remote c),
                    q_prev_1rtt_remote := old,
                    q_one_rtt_local := map_option (\<lambda>k. k\<lparr>dk_packet := ks_local next\<rparr>) (q_one_rtt_local c),
                    q_key_phase := phase, q_rotate_at := at\<rparr> in
          case q_secrets c of
            None \<Rightarrow> c
          | Some secrets \<Rightarrow> let (ks, secrets) = tls_next_keys api secrets in c\<lparr>q_next_1rtt := Some ks, q_secrets := Some secrets\<rparr>)"

definition local_keys :: "space \<Rightarrow> ('t, 's) quic \<Rightarrow> directional_keys option" where
  "local_keys sp c = (if sp = Data then q_one_rtt_local c else map_option k_local (sc_keys (q_spaces c sp)))"

definition remote_keys :: "space \<Rightarrow> ('t, 's) quic \<Rightarrow> directional_keys option" where
  "remote_keys sp c = (if sp = Data then q_one_rtt_remote c else map_option k_remote (sc_keys (q_spaces c sp)))"

definition highest_space :: "('t, 's) quic \<Rightarrow> space" where
  "highest_space c =
     (if q_one_rtt_local c \<noteq> None then Data
      else if sc_keys (q_spaces c Handshake) \<noteq> None then Handshake
      else Initial)"

section \<open>Idle timer\<close>

definition MILLI :: nat where "MILLI = 1000000"

definition idle_timeout :: "('t, 's) quic \<Rightarrow> nat option" where
  "idle_timeout c =
     (if \<not> q_connected c then Some (q_handshake_timeout_ms c * MILLI)
      else
        let local_ms = q_local_idle_ms c; peer = max_idle_timeout_ms (q_params c);
            floor = rtt_pto (max_ack_delay_ms (q_params c) * MILLI) (q_rtt c) * 3 in
        if local_ms = 0 \<and> peer = 0 then None
        else
          let ms = (if local_ms = 0 then peer else if peer = 0 then local_ms else min local_ms peer) in
          Some (max (ms * MILLI) floor))"

definition arm_idle :: "nat \<Rightarrow> ('t, 's) quic \<Rightarrow> ('t, 's) quic" where
  "arm_idle now c =
     (if \<not> q_connected c \<and> q_idle_deadline c \<noteq> None then c
      else
        let timeout = idle_timeout c in
        c\<lparr>q_idle_deadline := map_option (\<lambda>t. now + t) timeout, q_next_keepalive := map_option (\<lambda>t. now + t div 2) timeout\<rparr>)"

definition note_received :: "nat \<Rightarrow> ('t, 's) quic \<Rightarrow> ('t, 's) quic" where
  "note_received now c = arm_idle now (c\<lparr>q_sent_since_recv := False\<rparr>)"

definition note_sent :: "nat \<Rightarrow> ('t, 's) quic \<Rightarrow> ('t, 's) quic" where
  "note_sent now c =
     (if q_sent_since_recv c then c
      else
        let c = c\<lparr>q_sent_since_recv := True\<rparr> in
        if q_connected c then arm_idle now c else c)"

definition keepalive_deadline :: "('t, 's) quic \<Rightarrow> nat option" where
  "keepalive_deadline c = (if \<not> q_connected c \<or> q_unanswered c = 0 then None else q_next_keepalive c)"

section \<open>Acknowledged and lost frames\<close>

fun on_frame_acked :: "sent_frame \<Rightarrow> ('t, 's) quic \<Rightarrow> ('t, 's) quic" where
  "on_frame_acked (SentStream sid offset len fin) c = quic_settle sid (upd_send sid (send_on_acked offset len fin) c)"
| "on_frame_acked (SentResetStream sid error final_size) c = quic_settle sid (upd_send sid send_on_reset_acked c)"
| "on_frame_acked f c = c"

fun on_frame_lost :: "space \<Rightarrow> sent_frame \<Rightarrow> ('t, 's) quic \<Rightarrow> ('t, 's) quic" where
  "on_frame_lost sp SentPing c = c"
| "on_frame_lost sp (SentRetireConnectionId seq) c = c\<lparr>q_retire_pending := q_retire_pending c @ [seq]\<rparr>"
| "on_frame_lost sp (SentResetStream sid error final_size) c =
     c\<lparr>q_reset_pending := q_reset_pending c @ [(sid, error, final_size)]\<rparr>"
| "on_frame_lost sp (SentMaxData limit) c = c\<lparr>q_max_data_owed := True\<rparr>"
| "on_frame_lost sp (SentMaxStreamData sid limit) c = queue_credit sid c"
| "on_frame_lost sp (SentCrypto offset len) c = upd_space sp (\<lambda>s. s\<lparr>sc_crypto_sent := min (sc_crypto_sent s) offset\<rparr>) c"
| "on_frame_lost sp (SentStream sid offset len fin) c = queue_send sid (upd_send sid (send_on_lost offset len fin) c)"

definition on_packet_acked :: "space \<Rightarrow> sent_packet \<Rightarrow> ('t, 's) quic \<Rightarrow> ('t, 's) quic" where
  "on_packet_acked sp p c =
     (let c = (case sp_ack_largest p of
                 None \<Rightarrow> c
               | Some largest \<Rightarrow> upd_space sp (\<lambda>s. s\<lparr>sc_ack := ack_trim_below largest (sc_ack s)\<rparr>) c) in
      fold on_frame_acked (sp_frames p) c)"

definition on_packet_lost :: "space \<Rightarrow> nat \<Rightarrow> sent_packet \<Rightarrow> ('t, 's) quic \<Rightarrow> ('t, 's) quic" where
  "on_packet_lost sp now p c =
     fold (on_frame_lost sp) (sp_frames p) (c\<lparr>q_congestion := congestion_on_loss (sp_time_sent p) now (q_congestion c)\<rparr>)"

text \<open>The loop that looks for a long enough unbroken run: \<open>first\<close> is when its first packet was sent.\<close>

fun persistent_loop :: "nat \<Rightarrow> nat \<Rightarrow> nat option \<Rightarrow> nat option \<Rightarrow> sent_packet list \<Rightarrow> bool" where
  "persistent_loop sampled_at duration first previous [] = False"
| "persistent_loop sampled_at duration first previous (p # ps) =
     (let first = (case previous of Some n \<Rightarrow> if sp_number p \<noteq> n + 1 then None else first | None \<Rightarrow> first);
          previous = Some (sp_number p) in
      if \<not> sp_ack_eliciting p \<or> sp_time_sent p < sampled_at then persistent_loop sampled_at duration first previous ps
      else
        let start = (case first of Some t \<Rightarrow> t | None \<Rightarrow> sp_time_sent p) in
        if sp_time_sent p - start > duration then True
        else persistent_loop sampled_at duration (Some start) previous ps)"

definition on_lost_packets :: "space \<Rightarrow> sent_packet list \<Rightarrow> nat \<Rightarrow> ('t, 's) quic \<Rightarrow> ('t, 's) quic" where
  "on_lost_packets sp lost now c =
     (let c = fold (on_packet_lost sp now) lost c in
      case q_rtt_sampled_at c of
        None \<Rightarrow> c
      | Some sampled_at \<Rightarrow>
          let duration = persistent_congestion_duration (max_ack_delay_ms (q_params c) * MILLI) (q_rtt c) in
          if persistent_loop sampled_at duration None None lost
          then c\<lparr>q_congestion := congestion_on_persistent (q_congestion c)\<rparr> else c)"

text \<open>The detection that \<open>on_ack\<close> and \<open>handle_timeout\<close> both run, and whether it found anything.\<close>

definition detect_space :: "nat \<Rightarrow> space \<Rightarrow> ('t, 's) quic \<Rightarrow> bool \<times> ('t, 's) quic" where
  "detect_space now sp c =
     (let ((lost, deadline), sent) = detect_lost now (rtt_loss_delay (q_rtt c)) (sc_sent (q_spaces c sp));
          c = upd_space sp (\<lambda>s. s\<lparr>sc_sent := sent\<rparr>) c;
          c = on_lost_packets sp lost now c in
      (lost \<noteq> [], upd_space sp (\<lambda>s. s\<lparr>sc_loss_deadline := deadline\<rparr>) c))"

definition take_rtt_sample :: "nat \<Rightarrow> nat \<Rightarrow> nat \<Rightarrow> sent_packet list \<Rightarrow> ('t, 's) quic \<Rightarrow> ('t, 's) quic" where
  "take_rtt_sample largest delay now acked c =
     (case find (\<lambda>p. sp_number p = largest) acked of
        None \<Rightarrow> c
      | Some newest \<Rightarrow>
          if \<not> sp_ack_eliciting newest then c
          else
            let sample = now - sp_time_sent newest;
                delay = take_bit 64 (push_bit (ack_delay_exponent (q_params c)) delay) * 1000 in
            c\<lparr>q_rtt := rtt_update sample delay (max_ack_delay_ms (q_params c) * MILLI) (q_rtt c),
              q_rtt_sampled_at := (if q_rtt_sampled_at c = None then Some now else q_rtt_sampled_at c)\<rparr>)"

definition on_ack :: "space \<Rightarrow> nat \<Rightarrow> nat \<Rightarrow> nat \<Rightarrow> bytes \<Rightarrow> nat \<Rightarrow> ('t, 's) quic \<Rightarrow> ('t, 's) quic" where
  "on_ack sp largest delay first_range ranges now c =
     (let items = ack_ranges_items (ack_ranges_new largest first_range ranges);
          (acked, sent) = drain_acked items [] (sc_sent (q_spaces c sp));
          c = upd_space sp (\<lambda>s. s\<lparr>sc_sent := sent\<rparr>) c in
      if acked = [] then c
      else
        let c = (if sp = Handshake then c\<lparr>q_handshake_acked := True\<rparr> else c);
            c = take_rtt_sample largest delay now acked c;
            size = sum_list (map sp_size acked);
            c = fold (on_packet_acked sp) acked c;
            newest_sent = Max (sp_time_sent ` set acked);
            c = c\<lparr>q_congestion := congestion_on_ack size newest_sent (q_congestion c)\<rparr>;
            (any_lost, c) = detect_space now sp c in
        if any_lost then c\<lparr>q_needs_send := True\<rparr> else c)"

section \<open>Frame handlers\<close>

definition on_handshake_done :: "('t, 's) quic \<Rightarrow> ('t, 's) quic" where
  "on_handshake_done c = discard_space Handshake (c\<lparr>q_handshake_done := True\<rparr>)"

fun min_by_seq :: "peer_cid list \<Rightarrow> peer_cid option" where
  "min_by_seq [] = None"
| "min_by_seq (p # ps) = (case min_by_seq ps of Some q \<Rightarrow> Some (if pc_seq q < pc_seq p then q else p) | None \<Rightarrow> Some p)"

definition retire_before :: "nat \<Rightarrow> ('t, 's) quic \<Rightarrow> ('t, 's) quic" where
  "retire_before prior c =
     (if prior > q_retire_prior_to c
      then c\<lparr>q_retire_prior_to := prior,
             q_retire_pending := q_retire_pending c @ map pc_seq (filter (\<lambda>p. pc_seq p < prior) (q_peer_cids c)),
             q_peer_cids := filter (\<lambda>p. \<not> pc_seq p < prior) (q_peer_cids c), q_needs_send := True\<rparr>
      else c)"

definition move_cid :: "('t, 's) quic \<Rightarrow> ('t, 's) quic" where
  "move_cid c =
     (if q_peer_cid_seq c < q_retire_prior_to c
      then case min_by_seq (q_peer_cids c) of
             None \<Rightarrow> c
           | Some next \<Rightarrow> c\<lparr>q_peer_cid := pc_cid next, q_peer_cid_seq := pc_seq next\<rparr>
      else c)"

definition on_new_connection_id ::
    "nat \<Rightarrow> nat \<Rightarrow> bytes \<Rightarrow> bytes \<Rightarrow> ('t, 's) quic \<Rightarrow> ('t, 's, ('t, 's) quic) quic_result" where
  "on_new_connection_id seq prior cid token c =
     (if cid = [] then Inl (Cid_empty, c)
      else if prior > seq then Inl (Cid_retires_itself, c)
      else
        let token = (if length token = 16 then Some token else None) in
        if seq < q_retire_prior_to c then
          Inr (c\<lparr>q_retire_pending := q_retire_pending c @ [seq], q_needs_send := True\<rparr>)
        else case find (\<lambda>p. pc_seq p = seq) (q_peer_cids c) of
          Some known \<Rightarrow>
            if cid_as_slice (pc_cid known) \<noteq> cid \<or> pc_token known \<noteq> None \<and> pc_token known \<noteq> token
            then Inl (Cid_repeated seq, c) else Inr c
        | None \<Rightarrow>
            let c = retire_before prior c in
            if length (q_peer_cids c) < ACTIVE_CONNECTION_ID_LIMIT then
              (case cid_new cid of
                 Inl e \<Rightarrow> Inl (Cid_error e, c)
               | Inr cid \<Rightarrow>
                   Inr (move_cid (c\<lparr>q_peer_cids := q_peer_cids c @ [\<lparr>pc_seq = seq, pc_cid = cid, pc_token = token\<rparr>]\<rparr>)))
            else Inr (move_cid c))"

definition on_stop_sending :: "nat \<Rightarrow> nat \<Rightarrow> ('t, 's) quic \<Rightarrow> ('t, 's) quic" where
  "on_stop_sending sid error c =
     (case send_of sid c of
        None \<Rightarrow> c
      | Some send \<Rightarrow>
          if ss_reset send then c
          else
            let (final_size, send) = send_reset send;
                c = upd_send sid (\<lambda>_. send) c;
                c = c\<lparr>q_reset_pending := q_reset_pending c @ [(sid, error, final_size)]\<rparr> in
            (push_event (Ev_stopped sid) c)\<lparr>q_needs_send := True\<rparr>)"

definition on_max_stream_data :: "nat \<Rightarrow> nat \<Rightarrow> ('t, 's) quic \<Rightarrow> ('t, 's) quic" where
  "on_max_stream_data sid limit c = queue_send sid (upd_send sid (send_set_limit limit) c)"

definition on_path_challenge :: "bytes \<Rightarrow> ('t, 's) quic \<Rightarrow> ('t, 's, ('t, 's) quic) quic_result" where
  "on_path_challenge data c =
     (if length data \<noteq> 8 then Inl (Bad_challenge, c)
      else Inr (c\<lparr>q_path_response := Some data, q_needs_send := True\<rparr>))"

definition on_close :: "nat \<Rightarrow> bytes \<Rightarrow> bool \<Rightarrow> ('t, 's) quic \<Rightarrow> ('t, 's) quic" where
  "on_close error reason app c = quic_lose (Peer_closed app error reason) c"

text \<open>rustls reads what is in order even when it fails; the bytes then stay in the buffer.\<close>

definition on_crypto ::
    "('t, 's) tls_api \<Rightarrow> space \<Rightarrow> nat \<Rightarrow> bytes \<Rightarrow> ('t, 's) quic \<Rightarrow> ('t, 's, ('t, 's) quic) quic_result" where
  "on_crypto api sp offset data c =
     (case recv_push offset data False (sc_crypto_in (q_spaces c sp)) of
        Inl e \<Rightarrow> Inl (Recv_error e, c)
      | Inr (_, crypto_in) \<Rightarrow>
          let c = upd_space sp (\<lambda>s. s\<lparr>sc_crypto_in := crypto_in\<rparr>) c in
          if rs_ready crypto_in = [] then Inr c
          else
            let (ok, tls) = tls_read_hs api (rs_ready crypto_in) (q_tls c);
                c = c\<lparr>q_tls := tls\<rparr> in
            case recv_consume (\<lambda>_. if ok then Inr () else Inl ()) crypto_in of
              Inl _ \<Rightarrow>
                let alert = (case tls_alert api tls of None \<Rightarrow> 0x50 | Some a \<Rightarrow> a) in
                Inr (close_transport (0x100 + alert) Tls_failed c)
            | Inr (n, crypto_in) \<Rightarrow> pump_tls api (upd_space sp (\<lambda>s. s\<lparr>sc_crypto_in := crypto_in\<rparr>) c))"

fun handle_frame ::
    "('t, 's) tls_api \<Rightarrow> space \<Rightarrow> nat \<Rightarrow> frame \<Rightarrow> ('t, 's) quic \<Rightarrow> ('t, 's, ('t, 's) quic) quic_result" where
  "handle_frame api sp now (Ack largest delay first_range ranges range_count) c =
     Inr (on_ack sp largest delay first_range ranges now c)"
| "handle_frame api sp now (Crypto offset data) c = on_crypto api sp offset data c"
| "handle_frame api sp now HandshakeDone c = Inr (on_handshake_done c)"
| "handle_frame api sp now (Stream sid offset fin data) c = on_stream sid offset data fin c"
| "handle_frame api sp now (ResetStream sid error final_size) c = on_reset sid error final_size c"
| "handle_frame api sp now (StopSending sid error) c = Inr (on_stop_sending sid error c)"
| "handle_frame api sp now (MaxData limit) c = Inr (c\<lparr>q_max_data_peer := max (q_max_data_peer c) limit\<rparr>)"
| "handle_frame api sp now (MaxStreamData sid limit) c = Inr (on_max_stream_data sid limit c)"
| "handle_frame api sp now (MaxStreams uni limit) c =
     Inr (if \<not> uni then c\<lparr>q_max_streams_bidi := max (q_max_streams_bidi c) limit\<rparr> else c)"
| "handle_frame api sp now (NewConnectionId seq prior cid token) c = on_new_connection_id seq prior cid token c"
| "handle_frame api sp now (PathChallenge data) c = on_path_challenge data c"
| "handle_frame api sp now (Close app error reason) c = Inr (on_close error reason app c)"
| "handle_frame api sp now f c = Inr c"

section \<open>Packets and datagrams\<close>

text \<open>The tag AES-GCM computes over the pseudo packet is the parameter \<open>tls_retry_tag\<close>.\<close>

definition retry_tag_is_valid :: "('t, 's) tls_api \<Rightarrow> connection_id \<Rightarrow> bytes \<Rightarrow> bool" where
  "retry_tag_is_valid api original_dcid packet =
     (case checked_sub (length packet) TAG_LEN of
        None \<Rightarrow> False
      | Some body_len \<Rightarrow>
          let body = take body_len packet; tag = drop body_len packet;
              pseudo = [word_of_nat (cid_len original_dcid)] @ cid_as_slice original_dcid @ body in
          (case tls_retry_tag api pseudo of None \<Rightarrow> False | Some computed \<Rightarrow> computed = tag))"

definition on_retry ::
    "('t, 's) tls_api \<Rightarrow> connection_id \<Rightarrow> connection_id \<Rightarrow> bytes \<Rightarrow> bytes \<Rightarrow> ('t, 's) quic \<Rightarrow> ('t, 's, ('t, 's) quic) quic_result" where
  "on_retry api dcid scid token packet c =
     (if q_retried c \<or> q_handshake_done c \<or> q_server_initial_seen c \<or> token = [] \<or> dcid \<noteq> q_local_cid c then Inr c
      else if \<not> retry_tag_is_valid api (q_original_dcid c) packet then Inr c
      else
        let c = c\<lparr>q_retried := True, q_retry_scid := Some scid, q_retry_token := token, q_peer_cid := scid\<rparr> in
        case tls_initial_keys api (cid_as_slice scid) of
          None \<Rightarrow> Inl (No_initial_keys, c)
        | Some keys \<Rightarrow>
            Inr ((upd_space Initial (\<lambda>s. s\<lparr>sc_keys := Some keys, sc_crypto_sent := 0, sc_sent := sent_default,
                    sc_loss_deadline := None\<rparr>) c)\<lparr>q_pto_count := 0, q_pto_probes := 0, q_needs_send := True\<rparr>))"

fun lists_version_1 :: "bytes \<Rightarrow> bool" where
  "lists_version_1 (a # b # c # d # rest) \<longleftrightarrow> be_val [a, b, c, d] = VERSION_1 \<or> lists_version_1 rest"
| "lists_version_1 _ \<longleftrightarrow> False"

definition on_version_negotiation :: "connection_id \<Rightarrow> connection_id \<Rightarrow> bytes \<Rightarrow> ('t, 's) quic \<Rightarrow> ('t, 's) quic" where
  "on_version_negotiation dcid scid versions c =
     (if q_server_initial_seen c \<or> q_retried c then c
      else if lists_version_1 versions then c
      else if dcid \<noteq> q_local_cid c \<or> scid \<noteq> q_original_dcid c then c
      else quic_lose No_version_1 c)"

fun handle_frames ::
    "('t, 's) tls_api \<Rightarrow> space \<Rightarrow> nat \<Rightarrow> (frame_error, frame) result list \<Rightarrow> bool \<Rightarrow> ('t, 's) quic
     \<Rightarrow> ('t, 's, bool \<times> ('t, 's) quic) quic_result" where
  "handle_frames api sp now [] eliciting c = Inr (eliciting, c)"
| "handle_frames api sp now (Inl e # fs) eliciting c = Inl (Frame_error e, c)"
| "handle_frames api sp now (Inr f # fs) eliciting c =
     rbind (handle_frame api sp now f c) (\<lambda>c. handle_frames api sp now fs (eliciting \<or> ack_eliciting f) c)"

definition adopt_scid :: "space \<Rightarrow> connection_id option \<Rightarrow> ('t, 's) quic \<Rightarrow> ('t, 's) quic" where
  "adopt_scid sp scid c =
     (case scid of
        None \<Rightarrow> c
      | Some scid \<Rightarrow>
          if q_handshake_done c then c
          else
            let c = c\<lparr>q_peer_cid := scid\<rparr>;
                c = (if q_peer_cids c = [] then c\<lparr>q_peer_cids := [\<lparr>pc_seq = 0, pc_cid = scid, pc_token = None\<rparr>]\<rparr> else c) in
            if sp = Initial \<and> \<not> q_server_initial_seen c then c\<lparr>q_server_initial_seen := True\<rparr> else c)"

text \<open>The part of \<open>handle_packet\<close> behind the check that the packet is new.\<close>

definition accept_packet ::
    "('t, 's) tls_api \<Rightarrow> nat \<Rightarrow> space \<Rightarrow> connection_id option \<Rightarrow> nat \<Rightarrow> bytes \<Rightarrow> ('t, 's) quic
     \<Rightarrow> ('t, 's, ('t, 's) quic) quic_result" where
  "accept_packet api now sp scid pn plain c =
     (let c = adopt_scid sp scid c;
          c = upd_space sp (\<lambda>s. s\<lparr>sc_largest_received :=
                Some (case sc_largest_received s of Some prev \<Rightarrow> max prev pn | None \<Rightarrow> pn)\<rparr>) c in
      rbind (handle_frames api sp now (frames plain) False c) (\<lambda>(eliciting, c).
        let c = upd_space sp (\<lambda>s. s\<lparr>sc_ack := ack_record pn eliciting now (sc_ack s)\<rparr>) c;
            c = (if eliciting then c\<lparr>q_needs_send := True\<rparr> else c) in
        Inr (c\<lparr>q_pto_count := 0, q_pto_probes := 0\<rparr>)))"

definition packet_generation :: "space \<Rightarrow> byte \<Rightarrow> nat \<Rightarrow> ('t, 's) quic \<Rightarrow> generation" where
  "packet_generation sp first pn c =
     (if sp \<noteq> Data then Current else generation_for (first AND 0x04 \<noteq> 0) (q_key_phase c) pn (q_rotate_at c))"

definition generation_key :: "space \<Rightarrow> generation \<Rightarrow> ('t, 's) quic \<Rightarrow> packet_key option" where
  "generation_key sp g c =
     (case g of
        Current \<Rightarrow> map_option dk_packet (remote_keys sp c)
      | Next \<Rightarrow> map_option ks_remote (q_next_1rtt c)
      | Previous \<Rightarrow> q_prev_1rtt_remote c)"

text \<open>
  Removing the protection of a packet: what it was in the clear, its number, and the generation of the key, or
  \<open>None\<close> when there is no key or it does not authenticate.
\<close>

definition open_packet ::
    "space \<Rightarrow> nat \<Rightarrow> bytes \<Rightarrow> ('t, 's) quic \<Rightarrow> (nat \<times> generation \<times> bool \<times> bytes) option" where
  "open_packet sp pn_offset buf c =
     (case remote_keys sp c of
        None \<Rightarrow> None
      | Some keys \<Rightarrow>
          (case unprotect_header (dk_decrypt_header keys) buf pn_offset of
             Inl _ \<Rightarrow> None
           | Inr (buf, first, pn_len) \<Rightarrow>
               let truncated = be_val (take pn_len (drop pn_offset buf));
                   largest = (case sc_largest_received (q_spaces c sp) of Some n \<Rightarrow> n | None \<Rightarrow> 0);
                   pn = decode_packet_number largest truncated (pn_len * 8);
                   payload_start = pn_offset + pn_len;
                   generation = packet_generation sp first pn c in
               case generation_key sp generation c of
                 None \<Rightarrow> None
               | Some key \<Rightarrow>
                   (case pk_decrypt key pn (take payload_start buf) (drop payload_start buf) of
                      None \<Rightarrow> None
                    | Some plain \<Rightarrow> Some (pn, generation, sp = Data \<and> first AND 0x04 \<noteq> 0, plain))))"

definition handle_protected ::
    "('t, 's) tls_api \<Rightarrow> nat \<Rightarrow> space \<Rightarrow> connection_id option \<Rightarrow> nat \<Rightarrow> nat \<Rightarrow> bytes \<Rightarrow> ('t, 's) quic
     \<Rightarrow> ('t, 's, (nat \<times> bool) \<times> ('t, 's) quic) quic_result" where
  "handle_protected api now sp scid pn_offset stop buf c =
     (case open_packet sp pn_offset (take stop buf) c of
        None \<Rightarrow> Inr ((stop, False), c)
      | Some (pn, generation, phase, plain) \<Rightarrow>
          let (received, new) = received_insert pn (sc_received (q_spaces c sp));
              c = upd_space sp (\<lambda>s. s\<lparr>sc_received := received\<rparr>) c in
          if \<not> new then Inr ((stop, True), c)
          else
            let c = (if generation = Next then rotate_keys api pn phase c else c) in
            rbind (accept_packet api now sp scid pn plain c) (\<lambda>c. Inr ((stop, True), c)))"

definition handle_packet ::
    "('t, 's) tls_api \<Rightarrow> nat \<Rightarrow> bytes \<Rightarrow> ('t, 's) quic \<Rightarrow> ('t, 's, (nat \<times> bool) \<times> ('t, 's) quic) quic_result" where
  "handle_packet api now buf c =
     (case decode_header buf (cid_len (q_local_cid c)) of
        Inl _ \<Rightarrow> Inr ((0, False), c)
      | Inr (VersionNegotiation dcid scid versions) \<Rightarrow>
          Inr ((0, False), on_version_negotiation dcid scid versions c)
      | Inr (Retry dcid scid token) \<Rightarrow>
          rbind (on_retry api dcid scid token buf c) (\<lambda>c. Inr ((0, False), c))
      | Inr (Long sp scid pn_offset stop) \<Rightarrow> handle_protected api now sp (Some scid) pn_offset stop buf c
      | Inr (Short pn_offset stop) \<Rightarrow> handle_protected api now Data None pn_offset stop buf c)"

definition token_matches :: "bytes \<Rightarrow> bytes \<Rightarrow> bool" where
  "token_matches token tail \<longleftrightarrow> foldl (\<lambda>acc (a, b). acc OR (a XOR b)) 0 (zip token tail) = 0"

definition is_stateless_reset :: "bytes \<Rightarrow> ('t, 's) quic \<Rightarrow> bool" where
  "is_stateless_reset tail c \<longleftrightarrow>
     list_ex (\<lambda>p. case pc_token p of None \<Rightarrow> False | Some token \<Rightarrow> token_matches token tail) (q_peer_cids c)"

definition stateless_reset_tail :: "bytes \<Rightarrow> bytes option" where
  "stateless_reset_tail datagram =
     (if length datagram < 21 \<or> hd datagram AND 0x80 \<noteq> 0 then None else Some (drop (length datagram - 16) datagram))"

text \<open>
  The packets of a datagram. \<open>None\<close> says that the datagram ended the connection for a transport error, which
  \<open>handle_datagram\<close> returns on at once. A packet never takes more than is there, so the loop ends.
\<close>

function datagram_loop ::
    "('t, 's) tls_api \<Rightarrow> nat \<Rightarrow> bytes \<Rightarrow> bool \<Rightarrow> ('t, 's) quic \<Rightarrow> ('t, 's, bool option \<times> ('t, 's) quic) quic_result" where
  "datagram_loop api now buf processed c =
     (if buf = [] then Inr (Some processed, c)
      else case handle_packet api now buf c of
        Inl (Recv_error e, c) \<Rightarrow> Inr (None, close_transport (recv_error_code e) (Transport_error e) c)
      | Inl err \<Rightarrow> Inl err
      | Inr ((consumed, ok), c) \<Rightarrow>
          if consumed = 0 then Inr (Some (processed \<or> ok), c)
          else datagram_loop api now (drop consumed buf) (processed \<or> ok) c)"
  by pat_completeness auto
termination
  by (relation "measure (\<lambda>(_, _, buf, _, _). length buf)") auto

definition handle_datagram ::
    "('t, 's) tls_api \<Rightarrow> nat \<Rightarrow> bytes \<Rightarrow> ('t, 's) quic \<Rightarrow> ('t, 's, ('t, 's) quic) quic_result" where
  "handle_datagram api now datagram c =
     (if q_closed c \<noteq> None then Inr c
      else rbind (datagram_loop api now datagram False c) (\<lambda>(processed, c).
        case processed of
          None \<Rightarrow> Inr c
        | Some True \<Rightarrow> Inr (note_received now c)
        | Some False \<Rightarrow>
            (case stateless_reset_tail datagram of
               None \<Rightarrow> Inr c
             | Some tail \<Rightarrow> Inr (if is_stateless_reset tail c then quic_lose Stateless_reset c else c))))"

declare datagram_loop.simps [simp del]

section \<open>Timers\<close>

definition earliest :: "nat option list \<Rightarrow> nat option" where
  "earliest ts = (case List.map_filter (\<lambda>t. t) ts of [] \<Rightarrow> None | x # xs \<Rightarrow> Some (fold min xs x))"

definition loss_deadline :: "('t, 's) quic \<Rightarrow> nat option" where
  "loss_deadline c = earliest (map (\<lambda>sp. sc_loss_deadline (q_spaces c sp)) space_ALL)"

definition pto_fallback :: "('t, 's) quic \<Rightarrow> space option" where
  "pto_fallback c =
     (if q_handshake_done c \<or> q_handshake_acked c then None
      else Some (if sc_keys (q_spaces c Handshake) \<noteq> None then Handshake else Initial))"

definition probe_due :: "('t, 's) quic \<Rightarrow> (space \<times> nat) option" where
  "probe_due c =
     pto_deadline (\<lambda>sp. sc_sent (q_spaces c sp)) (q_rtt c) (max_ack_delay_ms (q_params c) * MILLI) (q_pto_count c)
       (pto_fallback c)"

definition poll_timeout :: "('t, 's) quic \<Rightarrow> nat option" where
  "poll_timeout c =
     (if q_closed c \<noteq> None then None
      else
        let recovery = (case loss_deadline c of Some at \<Rightarrow> Some at | None \<Rightarrow> map_option snd (probe_due c)) in
        earliest [recovery, q_idle_deadline c, keepalive_deadline c])"

definition handle_timeout :: "nat \<Rightarrow> ('t, 's) quic \<Rightarrow> ('t, 's) quic" where
  "handle_timeout now c =
     (let due = (\<lambda>d. case d of None \<Rightarrow> False | Some d \<Rightarrow> now \<ge> (d :: nat)) in
      if due (q_idle_deadline c) then
        quic_lose (if q_connected c then Idle else Connect_timeout) (c\<lparr>q_idle_deadline := None\<rparr>)
      else if due (keepalive_deadline c) then
        c\<lparr>q_keepalive_pending := True, q_next_keepalive := map_option (\<lambda>t. now + t div 2) (idle_timeout c), q_needs_send := True\<rparr>
      else case loss_deadline c of
        Some at \<Rightarrow>
          if now < at then c
          else (fold (\<lambda>sp c. snd (detect_space now sp c)) space_ALL c)\<lparr>q_needs_send := True\<rparr>
      | None \<Rightarrow>
          (case probe_due c of
             None \<Rightarrow> c
           | Some (sp, at) \<Rightarrow>
               if now \<ge> at then
                 (upd_space sp (\<lambda>s. s\<lparr>sc_crypto_sent := 0\<rparr>) c)
                   \<lparr>q_pto_count := q_pto_count c + 1, q_pto_probes := 2, q_pto_space := sp, q_needs_send := True\<rparr>
               else c))"

end
