(* ===== verification/Quic_Send.thy ===== *)
theory Quic_Send
  imports Quic_Recv
begin

text \<open>
  What a QUIC connection puts in a datagram (\<open>src/quic/conn.rs\<close>): \<open>fill_payload\<close>, \<open>fill_data_payload\<close>,
  \<open>write_packet\<close> and \<open>poll_transmit\<close>.
\<close>

section \<open>Payloads\<close>

text \<open>A payload being filled: its bytes so far, the frames recorded for it, and the connection.\<close>

record ('t, 's) filling =
  fl_out :: bytes
  fl_frames :: "sent_frame list"
  fl_eliciting :: bool
  fl_conn :: "('t, 's) quic"

definition room :: "nat \<Rightarrow> ('t, 's) filling \<Rightarrow> nat" where
  "room budget fl = budget - length (fl_out fl)"

definition add_frame :: "bytes \<Rightarrow> sent_frame \<Rightarrow> ('t, 's) filling \<Rightarrow> ('t, 's) filling" where
  "add_frame bs f fl = fl\<lparr>fl_out := fl_out fl @ bs, fl_frames := fl_frames fl @ [f], fl_eliciting := True\<rparr>"

definition on_conn :: "(('t, 's) quic \<Rightarrow> ('t, 's) quic) \<Rightarrow> ('t, 's) filling \<Rightarrow> ('t, 's) filling" where
  "on_conn f fl = fl\<lparr>fl_conn := f (fl_conn fl)\<rparr>"

text \<open>The CRYPTO loop.\<close>

function crypto_loop :: "nat \<Rightarrow> space \<Rightarrow> ('t, 's) filling \<Rightarrow> ('t, 's) filling" where
  "crypto_loop budget sp fl =
     (let s = q_spaces (fl_conn fl) sp; avail = room budget fl in
      if avail < 8 \<or> sc_crypto_sent s \<ge> length (sc_crypto_out s) then fl
      else
        let len = min (length (sc_crypto_out s) - sc_crypto_sent s) (avail - 8) in
        if len = 0 then fl
        else
          let offset = sc_crypto_sent s; data = take len (drop offset (sc_crypto_out s)) in
          crypto_loop budget sp
            (on_conn (upd_space sp (\<lambda>s. s\<lparr>sc_crypto_sent := sc_crypto_sent s + len\<rparr>))
              (add_frame (put_crypto offset data) (SentCrypto offset len) fl)))"
  by pat_completeness auto
termination
  by (relation "measure (\<lambda>(_, sp, fl). length (sc_crypto_out (q_spaces (fl_conn fl) sp)) - sc_crypto_sent (q_spaces (fl_conn fl) sp))")
    (auto simp: on_conn_def add_frame_def upd_space_def)

text \<open>Connection credit.\<close>

definition fill_max_data :: "nat \<Rightarrow> ('t, 's) filling \<Rightarrow> ('t, 's) filling" where
  "fill_max_data budget fl =
     (let c = fl_conn fl; window = q_max_data_window c;
          extend_window = (q_data_received c + window div 2 \<ge> q_max_data_local c);
          fl = (if extend_window then on_conn (\<lambda>c. c\<lparr>q_max_data_owed := True\<rparr>) fl else fl) in
      if q_max_data_owed (fl_conn fl) \<and> room budget fl > 16 then
        let fl = (if extend_window then on_conn (\<lambda>c. c\<lparr>q_max_data_local := q_data_received c + window\<rparr>) fl else fl);
            limit = q_max_data_local (fl_conn fl) in
        on_conn (\<lambda>c. c\<lparr>q_max_data_owed := False\<rparr>) (add_frame (put_max_data limit) (SentMaxData limit) fl)
      else fl)"

text \<open>The three queues that are drained from the end: stream credit, retired connection identifiers, resets.\<close>

definition grant_credit :: "nat \<Rightarrow> ('t, 's) filling \<Rightarrow> ('t, 's) filling" where
  "grant_credit sid fl =
     (case recv_of sid (fl_conn fl) of
        None \<Rightarrow> fl
      | Some recv \<Rightarrow>
          if recv_size_known recv then fl
          else
            let (limit, recv) = recv_grant (q_stream_window (fl_conn fl)) recv in
            add_frame (put_max_stream_data sid limit) (SentMaxStreamData sid limit) (on_conn (upd_recv sid (\<lambda>_. recv)) fl))"

fun credit_loop :: "nat \<Rightarrow> nat \<Rightarrow> ('t, 's) filling \<Rightarrow> ('t, 's) filling" where
  "credit_loop budget 0 fl = fl"
| "credit_loop budget (Suc n) fl =
     (if q_credit_pending (fl_conn fl) = [] \<or> room budget fl < 24 then fl
      else
        let sid = last (q_credit_pending (fl_conn fl)) in
        credit_loop budget n
          (grant_credit sid (on_conn (\<lambda>c. c\<lparr>q_credit_pending := butlast (q_credit_pending c)\<rparr>) fl)))"

fun retire_loop :: "nat \<Rightarrow> nat \<Rightarrow> ('t, 's) filling \<Rightarrow> ('t, 's) filling" where
  "retire_loop budget 0 fl = fl"
| "retire_loop budget (Suc n) fl =
     (if q_retire_pending (fl_conn fl) = [] \<or> room budget fl < 16 then fl
      else
        let seq = last (q_retire_pending (fl_conn fl)) in
        retire_loop budget n
          (on_conn (\<lambda>c. c\<lparr>q_retire_pending := butlast (q_retire_pending c)\<rparr>)
            (add_frame (put_retire_connection_id seq) (SentRetireConnectionId seq) fl)))"

fun reset_loop :: "nat \<Rightarrow> nat \<Rightarrow> ('t, 's) filling \<Rightarrow> ('t, 's) filling" where
  "reset_loop budget 0 fl = fl"
| "reset_loop budget (Suc n) fl =
     (if q_reset_pending (fl_conn fl) = [] \<or> room budget fl < 32 then fl
      else
        let (sid, error, final_size) = last (q_reset_pending (fl_conn fl)) in
        reset_loop budget n
          (on_conn (\<lambda>c. c\<lparr>q_reset_pending := butlast (q_reset_pending c)\<rparr>)
            (add_frame (put_reset_stream sid error final_size) (SentResetStream sid error final_size) fl)))"

text \<open>One stream's turn: what is new counts against the connection's window.\<close>

definition send_turn ::
    "nat \<Rightarrow> nat \<Rightarrow> send_stream \<Rightarrow> (send_stream \<Rightarrow> ('t, 's) quic \<Rightarrow> ('t, 's) quic) \<Rightarrow> ('t, 's) filling \<Rightarrow> ('t, 's) filling" where
  "send_turn avail sid send put fl =
     (let c = fl_conn fl; credit = q_max_data_peer c - q_data_sent c in
      case next_send (avail - 16) credit send of
        None \<Rightarrow> fl
      | Some (offset, data, fin) \<Rightarrow>
          let len = length data; (sent_len, send) = send_on_sent offset len fin send in
          on_conn (\<lambda>c. (put send c)\<lparr>q_data_sent := q_data_sent c + sent_len\<rparr>)
            (add_frame (put_stream sid offset fin data) (SentStream sid offset len fin) fl))"

fun uni_loop :: "nat \<Rightarrow> nat list \<Rightarrow> ('t, 's) filling \<Rightarrow> ('t, 's) filling" where
  "uni_loop budget [] fl = fl"
| "uni_loop budget (i # is) fl =
     (let avail = room budget fl in
      if avail < 16 then fl
      else
        let (sid, send) = q_local_uni (fl_conn fl) ! i in
        uni_loop budget is (send_turn avail sid send (\<lambda>send c. c\<lparr>q_local_uni := (q_local_uni c)[i := (sid, send)]\<rparr>) fl))"

definition queue_turn :: "nat \<Rightarrow> nat \<Rightarrow> ('t, 's) filling \<Rightarrow> ('t, 's) filling" where
  "queue_turn avail sid fl =
     (case pair_of sid (fl_conn fl) of
        None \<Rightarrow> fl
      | Some pair \<Rightarrow>
          let fl = on_conn (upd_pair sid (\<lambda>p. p\<lparr>pr_queued := False\<rparr>)) fl;
              fl = send_turn avail sid (pr_send pair) (\<lambda>send. upd_pair sid (\<lambda>p. p\<lparr>pr_send := send\<rparr>)) fl in
          if (case pair_of sid (fl_conn fl) of None \<Rightarrow> False | Some p \<Rightarrow> send_has_pending (pr_send p))
          then on_conn (queue_send sid) fl else fl)"

fun queue_loop :: "nat \<Rightarrow> nat \<Rightarrow> ('t, 's) filling \<Rightarrow> ('t, 's) filling" where
  "queue_loop budget 0 fl = fl"
| "queue_loop budget (Suc turns) fl =
     (let avail = room budget fl in
      if avail < 16 then fl
      else case q_send_queue (fl_conn fl) of
        [] \<Rightarrow> fl
      | sid # rest \<Rightarrow> queue_loop budget turns (queue_turn avail sid (on_conn (\<lambda>c. c\<lparr>q_send_queue := rest\<rparr>) fl)))"

definition fill_data_payload :: "nat \<Rightarrow> bool \<Rightarrow> ('t, 's) filling \<Rightarrow> ('t, 's) filling" where
  "fill_data_payload budget congested fl =
     (let fl = fill_max_data budget fl;
          fl = credit_loop budget (length (q_credit_pending (fl_conn fl))) fl;
          fl = retire_loop budget (length (q_retire_pending (fl_conn fl))) fl;
          fl = reset_loop budget (length (q_reset_pending (fl_conn fl))) fl in
      if congested then fl
      else
        let fl = uni_loop budget [0..<length (q_local_uni (fl_conn fl))] fl in
        queue_loop budget (length (q_send_queue (fl_conn fl))) fl)"

text \<open>The ACK, which panics when it is owed and there are no ranges; what it acknowledged comes back with it.\<close>

definition fill_ack ::
    "space \<Rightarrow> nat \<Rightarrow> nat \<Rightarrow> ('t, 's) filling \<Rightarrow> ('t, 's, nat option \<times> ('t, 's) filling) quic_result" where
  "fill_ack sp now budget fl =
     (let s = q_spaces (fl_conn fl) sp in
      if ack_eliciting_pending (sc_ack s) \<and> room budget fl > 32 then
        (case put_ack (ack_ranges (sc_ack s)) (ack_delay now OWN_ACK_DELAY_EXPONENT (sc_ack s)) of
           None \<Rightarrow> Inl (Panic, fl_conn fl)
         | Some bs \<Rightarrow>
             Inr (case ack_ranges (sc_ack s) of [] \<Rightarrow> None | r # _ \<Rightarrow> Some (snd r),
               on_conn (upd_space sp (\<lambda>s. s\<lparr>sc_ack := snd (ack_take_pending (sc_ack s))\<rparr>)) (fl\<lparr>fl_out := fl_out fl @ bs\<rparr>)))
      else Inr (None, fl))"

text \<open>\<open>take\<close> empties the response before the room is looked at.\<close>

definition fill_path_response :: "space \<Rightarrow> nat \<Rightarrow> ('t, 's) filling \<Rightarrow> ('t, 's) filling" where
  "fill_path_response sp budget fl =
     (if sp \<noteq> Data then fl
      else case q_path_response (fl_conn fl) of
        None \<Rightarrow> fl
      | Some data \<Rightarrow>
          let fl = on_conn (\<lambda>c. c\<lparr>q_path_response := None\<rparr>) fl in
          if room budget fl > 9 then fl\<lparr>fl_out := fl_out fl @ put_path_response data, fl_eliciting := True\<rparr> else fl)"

definition close_bytes :: "space \<Rightarrow> close_info \<Rightarrow> bytes" where
  "close_bytes sp cl =
     (if cl_app cl
      then (if sp = Data then put_close (cl_code cl) (cl_reason cl) else put_transport_close APPLICATION_ERROR)
      else put_transport_close (cl_code cl))"

definition ping_if_quiet :: "('t, 's) filling \<Rightarrow> ('t, 's) filling" where
  "ping_if_quiet fl = (if fl_eliciting fl then fl else add_frame put_ping SentPing fl)"

definition fill_probe :: "space \<Rightarrow> nat \<Rightarrow> ('t, 's) filling \<Rightarrow> ('t, 's) filling" where
  "fill_probe sp budget fl =
     (if q_pto_probes (fl_conn fl) > 0 \<and> sp = q_pto_space (fl_conn fl) \<and> room budget fl > 1
      then ping_if_quiet (on_conn (\<lambda>c. c\<lparr>q_pto_probes := q_pto_probes c - 1\<rparr>) fl) else fl)"

definition fill_keepalive :: "space \<Rightarrow> nat \<Rightarrow> ('t, 's) filling \<Rightarrow> ('t, 's) filling" where
  "fill_keepalive sp budget fl =
     (if q_keepalive_pending (fl_conn fl) \<and> sp = Data \<and> room budget fl > 1
      then ping_if_quiet (on_conn (\<lambda>c. c\<lparr>q_keepalive_pending := False\<rparr>) fl) else fl)"

definition fill_payload ::
    "space \<Rightarrow> nat \<Rightarrow> nat \<Rightarrow> bool \<Rightarrow> ('t, 's) quic \<Rightarrow> ('t, 's, nat option \<times> ('t, 's) filling) quic_result" where
  "fill_payload sp now budget congested c =
     rbind (fill_ack sp now budget \<lparr>fl_out = [], fl_frames = [], fl_eliciting = False, fl_conn = c\<rparr>) (\<lambda>(ack_largest, fl).
     let fl = fill_path_response sp budget fl in
     case (if sp = highest_space (fl_conn fl) then q_close_pending (fl_conn fl) else None) of
       Some close \<Rightarrow>
         Inr (ack_largest, on_conn (\<lambda>c. c\<lparr>q_close_pending := None\<rparr>)
           (fl\<lparr>fl_out := fl_out fl @ close_bytes sp close, fl_eliciting := False\<rparr>))
     | None \<Rightarrow>
         let fl = crypto_loop budget sp fl;
             fl = (if sp = Data then fill_data_payload budget congested fl else fl);
             fl = fill_probe sp budget fl;
             fl = fill_keepalive sp budget fl in
         Inr (ack_largest, fl))"

section \<open>Packets and datagrams\<close>

text \<open>The header of a packet with its packet number, and where the packet number starts.\<close>

definition packet_header :: "space \<Rightarrow> ('t, 's) quic \<Rightarrow> bytes \<times> nat \<times> nat" where
  "packet_header sp c =
     (let s = q_spaces c sp;
          (truncated, pn_len) = encode_packet_number (sc_next_packet_number s) (sp_largest_acked (sc_sent s));
          head = (case long_header_put
                    \<lparr>lh_space = sp, lh_dcid = q_peer_cid c, lh_scid = q_local_cid c,
                     lh_token = (if sp = Initial then q_retry_token c else [])\<rparr> pn_len 0 of
                    Some head \<Rightarrow> head
                  | None \<Rightarrow> put_short_header (q_peer_cid c) pn_len (q_key_phase c)) in
      (head @ be_bytes pn_len truncated, length head, pn_len))"

definition pad_payload :: "nat \<Rightarrow> nat \<Rightarrow> nat option \<Rightarrow> bytes \<Rightarrow> bytes" where
  "pad_payload before pn_len pad_to payload =
     (let grow = (\<lambda>n bs. bs @ replicate (n - length bs) 0);
          payload = grow (4 + 16 - pn_len) payload in
      case pad_to of None \<Rightarrow> payload | Some target \<Rightarrow> grow (target - TAG_LEN - before) payload)"

text \<open>Protecting a packet: the length field, the AEAD, the header.\<close>

definition seal_packet ::
    "space \<Rightarrow> directional_keys \<Rightarrow> nat \<Rightarrow> bytes \<Rightarrow> nat \<Rightarrow> nat \<Rightarrow> bytes \<Rightarrow> (quic_error, bytes) result" where
  "seal_packet sp keys pn head pn_offset pn_len payload =
     (let head = (if sp = Data then head
                  else set_varint_fixed4 head (pn_offset - 4) (pn_len + length payload + TAG_LEN)) in
      case pk_encrypt (dk_packet keys) pn head payload of
        None \<Rightarrow> Inl Encryption
      | Some (body, tag) \<Rightarrow>
          (case protect_header (dk_encrypt_header keys) (head @ body @ tag) pn_offset pn_len of
             Inl e \<Rightarrow> Inl (Protection e)
           | Inr packet \<Rightarrow> Inr packet))"

definition record_sent ::
    "space \<Rightarrow> nat \<Rightarrow> nat \<Rightarrow> nat option \<Rightarrow> nat \<Rightarrow> ('t, 's) filling \<Rightarrow> ('t, 's) quic" where
  "record_sent sp now pn ack_largest packet_size fl =
     (let p = \<lparr>sp_ack_largest = ack_largest, sp_number = pn, sp_time_sent = now, sp_size = packet_size,
               sp_ack_eliciting = fl_eliciting fl, sp_frames = fl_frames fl\<rparr>;
          c = upd_space sp (\<lambda>s. s\<lparr>sc_next_packet_number := sc_next_packet_number s + 1, sc_sent := sent_push p (sc_sent s)\<rparr>)
                (fl_conn fl) in
      if fl_eliciting fl then note_sent now c else c)"

text \<open>The packet appended to a datagram that already has \<open>used\<close> bytes, or \<open>None\<close> when there is nothing to say.\<close>

definition write_packet ::
    "space \<Rightarrow> nat \<Rightarrow> nat \<Rightarrow> bool \<Rightarrow> nat option \<Rightarrow> ('t, 's) quic \<Rightarrow> ('t, 's, bytes option \<times> ('t, 's) quic) quic_result" where
  "write_packet sp now used congested pad_to c =
     (if MAX_DATAGRAM - used < 64 then Inr (None, c)
      else
        let pn = sc_next_packet_number (q_spaces c sp);
            (head, pn_offset, pn_len) = packet_header sp c;
            limit = (case pad_to of Some t \<Rightarrow> t | None \<Rightarrow> MAX_DATAGRAM);
            budget = limit - (used + length head + TAG_LEN) in
        rbind (fill_payload sp now budget congested c) (\<lambda>(ack_largest, fl).
          if fl_out fl = [] then Inr (None, fl_conn fl)
          else
            let payload = pad_payload (used + length head) pn_len pad_to (fl_out fl) in
            case local_keys sp (fl_conn fl) of
              None \<Rightarrow> Inl (Panic, fl_conn fl)
            | Some keys \<Rightarrow>
                (case seal_packet sp keys pn head pn_offset pn_len payload of
                   Inl e \<Rightarrow> Inl (e, fl_conn fl)
                 | Inr packet \<Rightarrow> Inr (Some packet, record_sent sp now pn ack_largest (length packet) fl))))"

fun transmit_loop ::
    "space list \<Rightarrow> nat \<Rightarrow> bool \<Rightarrow> nat option \<Rightarrow> bytes \<Rightarrow> ('t, 's) quic \<Rightarrow> ('t, 's, bytes \<times> ('t, 's) quic) quic_result" where
  "transmit_loop [] now congested pad_to out c = Inr (out, c)"
| "transmit_loop (sp # sps) now congested pad_to out c =
     (if length out \<ge> MAX_DATAGRAM then Inr (out, c)
      else if local_keys sp c = None then transmit_loop sps now congested pad_to out c
      else
        let pad = (if sp = Initial \<and> \<not> q_handshake_done c then Some MIN_INITIAL_DATAGRAM else pad_to) in
        rbind (write_packet sp now (length out) congested pad c) (\<lambda>(packet, c).
          case packet of
            None \<Rightarrow> transmit_loop sps now congested pad_to out c
          | Some bs \<Rightarrow>
              let out = out @ bs;
                  c = (if sp = Handshake \<and> sc_keys (q_spaces c Initial) \<noteq> None then discard_space Initial c else c) in
              if pad \<noteq> None then Inr (out, c) else transmit_loop sps now congested pad_to out c))"

definition poll_transmit ::
    "('t, 's) tls_api \<Rightarrow> nat \<Rightarrow> nat option \<Rightarrow> ('t, 's) quic \<Rightarrow> ('t, 's, bytes \<times> ('t, 's) quic) quic_result" where
  "poll_transmit api now pad_to c =
     (if q_closed c \<noteq> None \<and> q_close_pending c = None then Inr ([], c)
      else rbind (pump_tls api c) (\<lambda>c.
        let in_flight = sum_list (map (\<lambda>sp. bytes_in_flight (sc_sent (q_spaces c sp))) space_ALL);
            congested = (\<not> can_send in_flight (q_congestion c)) in
        rbind (transmit_loop space_ALL now congested pad_to [] c) (\<lambda>(out, c).
          Inr (out, if out \<noteq> [] \<and> q_idle_deadline c = None then arm_idle now c else c))))"

declare crypto_loop.simps [simp del]

end
