(* ===== verification/Quic_Inv.thy ===== *)
theory Quic_Inv
  imports Quic_Send
begin

text \<open>
  The invariant of a QUIC connection, kept by every operation of \<open>Quic_State\<close>, \<open>Quic_Recv\<close> and \<open>Quic_Send\<close>: the ring
  of streams, the count of unanswered requests, the queue of streams with something to send, the events that report a
  stream finished, and both directions of connection flow control.
\<close>

section \<open>Streams\<close>

text \<open>A request stream still waiting for its answer.\<close>

fun waiting :: "stream_pair option \<Rightarrow> bool" where
  "waiting (Some p) \<longleftrightarrow> \<not> pr_finished p"
| "waiting None \<longleftrightarrow> False"

definition waiting_count :: "stream_pair option list \<Rightarrow> nat" where
  "waiting_count ps = length (filter waiting ps)"

text \<open>The streams an event list reports finished.\<close>

fun finished_id :: "quic_event \<Rightarrow> nat option" where
  "finished_id (Ev_finished sid error) = Some sid"
| "finished_id e = None"

definition finished_ids :: "quic_event list \<Rightarrow> nat list" where
  "finished_ids es = List.map_filter finished_id es"

text \<open>
  What holds of one stream: it is marked queued exactly when it is in the queue; it is queued when it has something to
  send, unless it is in \<open>X\<close>; it is reported finished unless it was retired first, and not before it is finished.
\<close>

definition slot_ok :: "nat set \<Rightarrow> nat list \<Rightarrow> nat list \<Rightarrow> nat \<Rightarrow> stream_pair \<Rightarrow> bool" where
  "slot_ok X queue fins sid p \<longleftrightarrow>
     (pr_queued p \<longleftrightarrow> sid \<in> set queue) \<and>
     (send_has_pending (pr_send p) \<longrightarrow> pr_queued p \<or> sid \<in> X) \<and>
     (if pr_finished p then pr_retired p \<or> sid \<in> set fins else \<not> pr_retired p \<and> sid \<notin> set fins)"

definition ids_below :: "nat \<Rightarrow> nat list \<Rightarrow> bool" where
  "ids_below n ids \<longleftrightarrow> distinct ids \<and> (\<forall>s \<in> set ids. s mod 4 = 0 \<and> s < 4 * n)"

definition streams_inv ::
    "nat set \<Rightarrow> nat \<Rightarrow> stream_pair option list \<Rightarrow> nat \<Rightarrow> nat \<Rightarrow> nat list \<Rightarrow> nat list \<Rightarrow> bool" where
  "streams_inv X base ps next unanswered queue fins \<longleftrightarrow>
     base + length ps = next \<and> (ps = [] \<or> hd ps \<noteq> None) \<and> unanswered = waiting_count ps \<and>
     ids_below next queue \<and> ids_below next fins \<and>
     (\<forall>i p. i < length ps \<longrightarrow> ps ! i = Some p \<longrightarrow> slot_ok X queue fins (4 * (base + i)) p)"

lemma streams_inv_slot:
  "streams_inv X base ps next unanswered queue fins \<Longrightarrow> i < length ps \<Longrightarrow> ps ! i = Some p
   \<Longrightarrow> slot_ok X queue fins (4 * (base + i)) p"
  by (simp add: streams_inv_def)

lemma waiting_count_Cons: "waiting_count (p # ps) = (if waiting p then 1 else 0) + waiting_count ps"
  by (simp add: waiting_count_def)

lemma waiting_count_append: "waiting_count (ps @ qs) = waiting_count ps + waiting_count qs"
  by (simp add: waiting_count_def)

lemma waiting_count_upd:
  assumes "i < length ps"
  shows "waiting_count (ps[i := q]) + (if waiting (ps ! i) then 1 else 0) = waiting_count ps + (if waiting q then 1 else 0)"
proof -
  have "ps = take i ps @ ps ! i # drop (Suc i) ps" using assms by (simp add: id_take_nth_drop)
  moreover have "ps[i := q] = take i ps @ q # drop (Suc i) ps" using assms by (simp add: upd_conv_take_nth_drop)
  ultimately show ?thesis
    using waiting_count_append [of "take i ps" "ps ! i # drop (Suc i) ps"]
      waiting_count_append [of "take i ps" "q # drop (Suc i) ps"] by (simp add: waiting_count_Cons)
qed

lemma waiting_count_pos: "i < length ps \<Longrightarrow> waiting (ps ! i) \<Longrightarrow> 0 < waiting_count ps"
  using waiting_count_upd [of i ps None] by simp

lemma ids_below_mono: "ids_below n ids \<Longrightarrow> n \<le> m \<Longrightarrow> ids_below m ids"
  by (fastforce simp: ids_below_def)

lemma slot_ok_cong:
  "slot_ok X queue fins sid p \<Longrightarrow> (sid \<in> set queue') = (sid \<in> set queue) \<Longrightarrow> (sid \<in> set fins') = (sid \<in> set fins)
   \<Longrightarrow> (sid \<in> X \<Longrightarrow> sid \<in> Y) \<Longrightarrow> slot_ok Y queue' fins' sid p"
  by (auto simp: slot_ok_def split: if_splits)

lemma slot_ok_mono: "slot_ok X queue fins sid p \<Longrightarrow> X \<subseteq> Y \<Longrightarrow> slot_ok Y queue fins sid p"
  by (auto simp: slot_ok_def)

lemma streams_inv_mono:
  "streams_inv X base ps next unanswered queue fins \<Longrightarrow> X \<subseteq> Y \<Longrightarrow> streams_inv Y base ps next unanswered queue fins"
  by (auto simp: streams_inv_def intro: slot_ok_mono)

text \<open>Replacing one stream, with the queue and the reports it goes with.\<close>

lemma streams_inv_replace:
  assumes inv: "streams_inv X base ps next unanswered queue fins" and i: "i < length ps" "ps ! i = Some p"
    and slot: "slot_ok Y queue' fins' (4 * (base + i)) q" and sub: "X \<subseteq> insert (4 * (base + i)) Y"
    and queue: "ids_below next queue'" "set queue' - {4 * (base + i)} = set queue - {4 * (base + i)}"
    and fins: "ids_below next fins'" "set fins' - {4 * (base + i)} = set fins - {4 * (base + i)}"
    and count: "unanswered' + (if pr_finished p then 0 else 1) = unanswered + (if pr_finished q then 0 else 1)"
  shows "streams_inv Y base (ps[i := Some q]) next unanswered' queue' fins'"
proof -
  have "slot_ok Y queue' fins' (4 * (base + j)) r" if "j < length ps" "ps[i := Some q] ! j = Some r" for j r
  proof (cases "j = i")
    case True
    then show ?thesis using that slot i by simp
  next
    case False
    then have "slot_ok X queue fins (4 * (base + j)) r" using that streams_inv_slot [OF inv] by simp
    moreover have ne: "4 * (base + j) \<noteq> 4 * (base + i)" using False by simp
    then have "(4 * (base + j) \<in> set queue') = (4 * (base + j) \<in> set queue)"
      "(4 * (base + j) \<in> set fins') = (4 * (base + j) \<in> set fins)"
      using queue(2) fins(2) by blast+
    moreover have "4 * (base + j) \<in> X \<Longrightarrow> 4 * (base + j) \<in> Y" using sub ne by blast
    ultimately show ?thesis by (rule slot_ok_cong)
  qed
  moreover have "unanswered' = waiting_count (ps[i := Some q])"
    using inv i count waiting_count_upd [OF i(1), of "Some q"] by (auto simp: streams_inv_def split: if_splits)
  moreover have "ps[i := Some q] = [] \<or> hd (ps[i := Some q]) \<noteq> None"
    using inv by (cases ps; cases i) (auto simp: streams_inv_def)
  ultimately show ?thesis using inv queue(1) fins(1) by (simp add: streams_inv_def)
qed

text \<open>Dropping a stream that has been answered, and trimming the front.\<close>

lemma streams_inv_trim:
  assumes "base + length ps = next" "unanswered = waiting_count ps" "ids_below next queue" "ids_below next fins"
    and slots: "\<And>i p. i < length ps \<Longrightarrow> ps ! i = Some p \<Longrightarrow> slot_ok X queue fins (4 * (base + i)) p"
  shows "streams_inv X (base + length (takeWhile (\<lambda>p. p = None) ps)) (drop (length (takeWhile (\<lambda>p. p = None) ps)) ps)
    next unanswered queue fins"
proof -
  let ?n = "length (takeWhile (\<lambda>p. p = None) ps)"
  have drop: "drop ?n ps = dropWhile (\<lambda>p. p = None) ps" by (simp add: dropWhile_eq_drop)
  have n: "?n \<le> length ps" by (simp add: length_takeWhile_le)
  have count: "waiting_count (dropWhile (\<lambda>p. p = None) qs) = waiting_count qs" for qs
    by (induction qs) (auto simp: waiting_count_Cons)
  have "hd (drop ?n ps) \<noteq> None" if "drop ?n ps \<noteq> []"
    using that hd_dropWhile [of "\<lambda>p. p = None" ps] by (simp add: drop)
  moreover have "slot_ok X queue fins (4 * (base + ?n + i)) p" if "i < length (drop ?n ps)" "drop ?n ps ! i = Some p" for i p
    using slots [of "?n + i" p] that by (simp add: add.assoc)
  ultimately show ?thesis
    using assms n by (auto simp: streams_inv_def count drop [symmetric]) (metis count drop)
qed

lemma streams_inv_drop:
  assumes inv: "streams_inv X base ps next unanswered queue fins" and i: "i < length ps" "ps ! i = Some p" "pr_finished p"
  defines "qs \<equiv> ps[i := None]"
  shows "streams_inv X (base + length (takeWhile (\<lambda>p. p = None) qs)) (drop (length (takeWhile (\<lambda>p. p = None) qs)) qs)
    next unanswered queue fins"
proof (rule streams_inv_trim)
  show "unanswered = waiting_count qs"
    using inv i waiting_count_upd [OF i(1), of None] by (simp add: streams_inv_def qs_def)
  show "slot_ok X queue fins (4 * (base + j)) q" if "j < length qs" "qs ! j = Some q" for j q
    using that inv i by (cases "j = i") (auto simp: qs_def streams_inv_def)
qed (use inv in \<open>auto simp: streams_inv_def qs_def\<close>)

text \<open>A new stream at the back.\<close>

lemma streams_inv_open:
  assumes inv: "streams_inv X base ps next unanswered queue fins"
    and "\<not> pr_finished p" "\<not> pr_retired p" "\<not> send_has_pending (pr_send p)" "\<not> pr_queued p"
  shows "streams_inv X base (ps @ [Some p]) (next + 1) (unanswered + 1) queue fins"
proof -
  have n: "next = base + length ps" using inv by (simp add: streams_inv_def)
  have "4 * next \<notin> set queue" "4 * next \<notin> set fins"
    using inv by (auto simp: streams_inv_def ids_below_def)
  then have new: "slot_ok X queue fins (4 * (base + length ps)) p" using assms(2-5) n by (simp add: slot_ok_def)
  have "slot_ok X queue fins (4 * (base + i)) q" if "i < length (ps @ [Some p])" "(ps @ [Some p]) ! i = Some q" for i q
  proof (cases "i < length ps")
    case True
    then show ?thesis using that streams_inv_slot [OF inv] by (simp add: nth_append)
  next
    case False
    then have "i = length ps" using that by simp
    then show ?thesis using that new by simp
  qed
  moreover have "ps @ [Some p] = [] \<or> hd (ps @ [Some p]) \<noteq> None" using inv by (cases ps) (auto simp: streams_inv_def)
  ultimately show ?thesis
    using assms by (auto simp: streams_inv_def waiting_count_append waiting_count_def intro: ids_below_mono)
qed

section \<open>The invariant\<close>

text \<open>
  What the TLS library documents of a handshake: it hands the 1-RTT keys over once. \<open>given\<close> tells whether it has.
\<close>

definition tls_once :: "('t \<Rightarrow> bool) \<Rightarrow> ('t, 's) tls_api \<Rightarrow> bool" where
  "tls_once given api \<longleftrightarrow>
     (\<forall>t change out t'. tls_write_hs api t = (change, out, t') \<longrightarrow>
        (given t \<longrightarrow> given t') \<and> (\<forall>keys next. change = Some (Change_one_rtt keys next) \<longrightarrow> \<not> given t \<and> given t')) \<and>
     (\<forall>bs t. given t \<longrightarrow> given (snd (tls_read_hs api bs t)))"

text \<open>No more is sent than the peer allows, and nothing before there are keys. Without a law for TLS nothing is claimed.\<close>

definition flow_out :: "('t \<Rightarrow> bool) option \<Rightarrow> 't \<Rightarrow> bool \<Rightarrow> nat \<Rightarrow> nat \<Rightarrow> bool" where
  "flow_out G tls keyed sent limit \<longleftrightarrow>
     (case G of None \<Rightarrow> True | Some given \<Rightarrow> sent \<le> limit \<and> (given tls \<or> sent = 0 \<and> \<not> keyed))"

definition tls_law :: "('t \<Rightarrow> bool) option \<Rightarrow> ('t, 's) tls_api \<Rightarrow> bool" where
  "tls_law G api \<longleftrightarrow> (case G of None \<Rightarrow> True | Some given \<Rightarrow> tls_once given api)"

text \<open>\<open>log\<close> holds the events already taken.\<close>

definition quic_inv :: "nat set \<Rightarrow> quic_event list \<Rightarrow> ('t \<Rightarrow> bool) option \<Rightarrow> ('t, 's) quic \<Rightarrow> bool" where
  "quic_inv X log G c \<longleftrightarrow>
     streams_inv X (q_base_stream c) (q_streams c) (q_next_bidi c) (q_unanswered c) (q_send_queue c)
       (finished_ids (log @ q_events c)) \<and>
     q_data_received c \<le> q_max_data_local c \<and>
     flow_out G (q_tls c) (q_one_rtt_local c \<noteq> None) (q_data_sent c) (q_max_data_peer c)"

named_theorems quic_keeps \<open>operations that keep the invariant\<close>

text \<open>The fields the invariant does not look at.\<close>

lemma quic_inv_other [simp]:
  "quic_inv X log G (q_spaces_update f1 c) = quic_inv X log G c"
  "quic_inv X log G (q_one_rtt_remote_update f2 c) = quic_inv X log G c"
  "quic_inv X log G (q_secrets_update f3 c) = quic_inv X log G c"
  "quic_inv X log G (q_next_1rtt_update f4 c) = quic_inv X log G c"
  "quic_inv X log G (q_prev_1rtt_remote_update f5 c) = quic_inv X log G c"
  "quic_inv X log G (q_key_phase_update f6 c) = quic_inv X log G c"
  "quic_inv X log G (q_retry_token_update f7 c) = quic_inv X log G c"
  "quic_inv X log G (q_retried_update f8 c) = quic_inv X log G c"
  "quic_inv X log G (q_retry_scid_update f9 c) = quic_inv X log G c"
  "quic_inv X log G (q_server_initial_seen_update f10 c) = quic_inv X log G c"
  "quic_inv X log G (q_rotate_at_update f11 c) = quic_inv X log G c"
  "quic_inv X log G (q_peer_cid_update f12 c) = quic_inv X log G c"
  "quic_inv X log G (q_peer_cid_seq_update f13 c) = quic_inv X log G c"
  "quic_inv X log G (q_peer_cids_update f14 c) = quic_inv X log G c"
  "quic_inv X log G (q_retire_prior_to_update f15 c) = quic_inv X log G c"
  "quic_inv X log G (q_retire_pending_update f16 c) = quic_inv X log G c"
  "quic_inv X log G (q_reset_pending_update f17 c) = quic_inv X log G c"
  "quic_inv X log G (q_credit_pending_update f18 c) = quic_inv X log G c"
  "quic_inv X log G (q_max_data_owed_update f19 c) = quic_inv X log G c"
  "quic_inv X log G (q_params_update f20 c) = quic_inv X log G c"
  "quic_inv X log G (q_sent_since_recv_update f21 c) = quic_inv X log G c"
  "quic_inv X log G (q_next_keepalive_update f22 c) = quic_inv X log G c"
  "quic_inv X log G (q_keepalive_pending_update f23 c) = quic_inv X log G c"
  "quic_inv X log G (q_handshake_done_update f24 c) = quic_inv X log G c"
  "quic_inv X log G (q_handshake_acked_update f25 c) = quic_inv X log G c"
  "quic_inv X log G (q_connected_update f26 c) = quic_inv X log G c"
  "quic_inv X log G (q_closed_update f27 c) = quic_inv X log G c"
  "quic_inv X log G (q_close_pending_update f28 c) = quic_inv X log G c"
  "quic_inv X log G (q_max_streams_bidi_update f29 c) = quic_inv X log G c"
  "quic_inv X log G (q_next_uni_update f30 c) = quic_inv X log G c"
  "quic_inv X log G (q_peer_uni_update f31 c) = quic_inv X log G c"
  "quic_inv X log G (q_local_uni_update f32 c) = quic_inv X log G c"
  "quic_inv X log G (q_rtt_update f33 c) = quic_inv X log G c"
  "quic_inv X log G (q_rtt_sampled_at_update f34 c) = quic_inv X log G c"
  "quic_inv X log G (q_congestion_update f35 c) = quic_inv X log G c"
  "quic_inv X log G (q_pto_count_update f36 c) = quic_inv X log G c"
  "quic_inv X log G (q_pto_probes_update f37 c) = quic_inv X log G c"
  "quic_inv X log G (q_pto_space_update f38 c) = quic_inv X log G c"
  "quic_inv X log G (q_idle_deadline_update f39 c) = quic_inv X log G c"
  "quic_inv X log G (q_needs_send_update f40 c) = quic_inv X log G c"
  "quic_inv X log G (q_path_response_update f41 c) = quic_inv X log G c"
  by (simp_all add: quic_inv_def)

lemma quic_inv_upd_space [simp]: "quic_inv X log G (upd_space sp f c) = quic_inv X log G c"
  by (simp add: upd_space_def)

lemma quic_inv_mono: "quic_inv X log G c \<Longrightarrow> X \<subseteq> Y \<Longrightarrow> quic_inv Y log G c"
  by (auto simp: quic_inv_def intro: streams_inv_mono)

text \<open>Events other than a finished stream.\<close>

lemma finished_ids_append [simp]: "finished_ids (a @ b) = finished_ids a @ finished_ids b"
  by (simp add: finished_ids_def map_filter_def)

lemma finished_ids_Cons: "finished_ids (e # es) = (case finished_id e of None \<Rightarrow> finished_ids es | Some s \<Rightarrow> s # finished_ids es)"
  by (simp add: finished_ids_def map_filter_def split: option.splits)

lemma finished_ids_Nil [simp]: "finished_ids [] = []"
  by (simp add: finished_ids_def map_filter_def)

lemma push_event_keeps [simp]: "finished_id e = None \<Longrightarrow> quic_inv X log G (push_event e c) = quic_inv X log G c"
  by (simp add: quic_inv_def push_event_def finished_ids_Cons)

lemma lose_keeps [simp]: "quic_inv X log G (quic_lose w c) = quic_inv X log G c"
  by (simp add: quic_lose_def)

lemma close_keeps [simp]:
  "quic_inv X log G (quic_close code reason c) = quic_inv X log G c"
  "quic_inv X log G (close_transport code w c) = quic_inv X log G c"
  by (simp_all add: quic_close_def close_transport_def)

lemma push_readable_keeps [simp]: "quic_inv X log G (push_readable sid c) = quic_inv X log G c"
  by (simp add: push_readable_def)

lemma discard_space_keeps [simp]: "quic_inv X log G (discard_space sp c) = quic_inv X log G c"
  by (simp add: discard_space_def)

lemma queue_credit_keeps [simp]: "quic_inv X log G (queue_credit sid c) = quic_inv X log G c"
  by (simp add: queue_credit_def)

section \<open>One stream\<close>

lemma request_id: "is_client_initiated sid \<and> stream_dir sid = Bi \<longleftrightarrow> sid mod 4 = 0"
proof -
  have bits: "sid AND 2 = 0 \<longleftrightarrow> even (sid div 2)" "sid AND 1 = 0 \<longleftrightarrow> even sid"
    using and_exp_eq_0_iff_not_bit [of sid 1] by (simp_all add: bit_iff_odd and_one_eq even_iff_mod_2_eq_zero)
  have "(even sid \<and> even (sid div 2)) = (sid mod 4 = 0)" by presburger
  then show ?thesis unfolding is_client_initiated_def stream_dir_def bits by (cases "even (sid div 2)") auto
qed

lemma stream_index_eq: "stream_index sid c = Some i \<longleftrightarrow> i < length (q_streams c) \<and> sid = 4 * (q_base_stream c + i)"
  using request_id [of sid] by (auto simp: stream_index_def checked_sub_def split: if_splits)

lemma pair_of_eq:
  "pair_of sid c = Some p \<longleftrightarrow> (\<exists>i < length (q_streams c). sid = 4 * (q_base_stream c + i) \<and> q_streams c ! i = Some p)"
proof (cases "stream_index sid c")
  case None
  then have "\<not> (i < length (q_streams c) \<and> sid = 4 * (q_base_stream c + i))" for i
    unfolding stream_index_eq [symmetric] by simp
  then show ?thesis using None by (auto simp: pair_of_def)
next
  case (Some i)
  then have "i < length (q_streams c)" "sid = 4 * (q_base_stream c + i)" by (simp_all add: stream_index_eq)
  then show ?thesis using Some by (auto simp: pair_of_def)
qed

lemma pair_of_cong: "q_streams c' = q_streams c \<Longrightarrow> q_base_stream c' = q_base_stream c \<Longrightarrow> pair_of sid c' = pair_of sid c"
  unfolding pair_of_def stream_index_def by (simp cong: option.case_cong if_cong)

lemma upd_pair_None [simp]: "pair_of sid c = None \<Longrightarrow> upd_pair sid f c = c"
  unfolding pair_of_def upd_pair_def by (cases "stream_index sid c") (simp_all, metis list_update_id option.map(1) quic.surjective quic.update_convs(45))

lemma upd_pair_at:
  assumes "i < length (q_streams c)" "sid = 4 * (q_base_stream c + i)" "q_streams c ! i = Some p"
  shows "upd_pair sid f c = c\<lparr>q_streams := (q_streams c)[i := Some (f p)]\<rparr>"
proof -
  have "stream_index sid c = Some i" using assms by (simp add: stream_index_eq)
  then show ?thesis using assms by (simp add: upd_pair_def)
qed

lemma pair_of_upd_pair:
  "pair_of sid (upd_pair sid' f c) = (if sid = sid' then map_option f (pair_of sid c) else pair_of sid c)"
proof (cases "stream_index sid' c")
  case None
  then show ?thesis by (simp add: upd_pair_def pair_of_def)
next
  case (Some i)
  then have c: "upd_pair sid' f c = c\<lparr>q_streams := (q_streams c)[i := map_option f (q_streams c ! i)]\<rparr>"
    by (simp add: upd_pair_def)
  have idx: "stream_index sid (upd_pair sid' f c) = stream_index sid c"
    by (auto simp: c stream_index_def split: option.splits)
  show ?thesis
  proof (cases "stream_index sid c")
    case None
    then show ?thesis using idx by (auto simp: pair_of_def)
  next
    case (Some j)
    have "i < length (q_streams c)" "sid' = sid \<longleftrightarrow> i = j"
      using Some \<open>stream_index sid' c = Some i\<close> by (auto simp: stream_index_eq)
    then show ?thesis using Some idx by (auto simp: pair_of_def c nth_list_update)
  qed
qed

lemma quic_inv_slot:
  "quic_inv X log G c \<Longrightarrow> pair_of sid c = Some p \<Longrightarrow> slot_ok X (q_send_queue c) (finished_ids (log @ q_events c)) sid p"
  unfolding quic_inv_def by (fastforce simp: pair_of_eq streams_inv_def simp del: finished_ids_append)

text \<open>Changing one stream together with the queue, the count and the events.\<close>

lemma quic_inv_replace:
  assumes inv: "quic_inv X log G c" and pair: "pair_of sid c = Some p" and sub: "X \<subseteq> insert sid Y"
    and slot: "slot_ok Y queue (finished_ids (log @ events)) sid (f p)"
    and queue: "ids_below (q_next_bidi c) queue" "set queue - {sid} = set (q_send_queue c) - {sid}"
    and fins: "ids_below (q_next_bidi c) (finished_ids (log @ events))"
      "set (finished_ids (log @ events)) - {sid} = set (finished_ids (log @ q_events c)) - {sid}"
    and count: "n + (if pr_finished p then 0 else 1) = q_unanswered c + (if pr_finished (f p) then 0 else 1)"
  shows "quic_inv Y log G ((upd_pair sid f c)\<lparr>q_send_queue := queue, q_events := events, q_unanswered := n\<rparr>)"
proof -
  obtain i where i: "i < length (q_streams c)" "sid = 4 * (q_base_stream c + i)" "q_streams c ! i = Some p"
    using pair by (auto simp: pair_of_eq)
  have "streams_inv Y (q_base_stream c) ((q_streams c)[i := Some (f p)]) (q_next_bidi c) n queue (finished_ids (log @ events))"
    by (rule streams_inv_replace [where p = p])
      (use inv i slot queue fins count sub in \<open>auto simp: quic_inv_def simp del: finished_ids_append\<close>)
  then show ?thesis using inv by (simp add: quic_inv_def upd_pair_at [OF i] del: finished_ids_append)
qed

lemma quic_inv_ids:
  assumes "quic_inv X log G c"
  shows "ids_below (q_next_bidi c) (q_send_queue c)" "ids_below (q_next_bidi c) (finished_ids (log @ q_events c))"
  using assms by (auto simp: quic_inv_def streams_inv_def simp del: finished_ids_append)

lemma quic_inv_id: "quic_inv X log G c \<Longrightarrow> pair_of sid c = Some p \<Longrightarrow> sid mod 4 = 0 \<and> sid < 4 * q_next_bidi c"
  by (auto simp: quic_inv_def streams_inv_def pair_of_eq simp del: finished_ids_append)

text \<open>An update of the stream halves only.\<close>

lemma quic_inv_upd_pair:
  assumes inv: "quic_inv X log G c" and sub: "X \<subseteq> insert sid Y"
    and flags: "\<And>p. pr_queued (f p) = pr_queued p" "\<And>p. pr_finished (f p) = pr_finished p" "\<And>p. pr_retired (f p) = pr_retired p"
    and pending: "\<And>p. pair_of sid c = Some p \<Longrightarrow> send_has_pending (pr_send (f p)) \<Longrightarrow> send_has_pending (pr_send p) \<and> (sid \<in> X \<longrightarrow> sid \<in> Y) \<or> sid \<in> Y"
    and gone: "pair_of sid c = None \<Longrightarrow> X \<subseteq> Y"
  shows "quic_inv Y log G (upd_pair sid f c)"
proof (cases "pair_of sid c")
  case None
  then show ?thesis using quic_inv_mono [OF inv gone] by simp
next
  case (Some p)
  have "slot_ok Y (q_send_queue c) (finished_ids (log @ q_events c)) sid (f p)"
    using quic_inv_slot [OF inv Some] pending [OF Some] by (auto simp: slot_ok_def flags split: if_splits)
  then have "quic_inv Y log G ((upd_pair sid f c)
      \<lparr>q_send_queue := q_send_queue c, q_events := q_events c, q_unanswered := q_unanswered c\<rparr>)"
    by (intro quic_inv_replace [OF inv Some sub]) (use quic_inv_ids [OF inv] in \<open>auto simp: flags\<close>)
  moreover have "(upd_pair sid f c)\<lparr>q_send_queue := q_send_queue c, q_events := q_events c, q_unanswered := q_unanswered c\<rparr>
      = upd_pair sid f c"
    by (simp add: upd_pair_def split: option.splits)
  ultimately show ?thesis by simp
qed

text \<open>A stream that is not there needs no exemption.\<close>

lemma quic_inv_absent: "quic_inv X log G c \<Longrightarrow> pair_of sid c = None \<Longrightarrow> quic_inv (X - {sid}) log G c"
proof -
  assume inv: "quic_inv X log G c" and none: "pair_of sid c = None"
  have "sid \<noteq> 4 * (q_base_stream c + i)" if "i < length (q_streams c)" "q_streams c ! i = Some p" for i p
    using none that pair_of_eq [of sid c p] by auto
  moreover have "slot_ok X queue fins s p \<Longrightarrow> sid \<noteq> s \<Longrightarrow> slot_ok (X - {sid}) queue fins s p" for queue fins s p
    by (rule slot_ok_cong) auto
  ultimately show ?thesis using inv unfolding quic_inv_def streams_inv_def by metis
qed

section \<open>Stream operations\<close>

lemma connect_inv: "quic_connect api start_tls e1 e2 i = Some c \<Longrightarrow> quic_inv {} [] G c"
  by (auto simp: quic_connect_def Let_def quic_inv_def streams_inv_def ids_below_def waiting_count_def flow_out_def
      split: option.splits)

lemma queue_send_keeps:
  assumes inv: "quic_inv X log G c" and sub: "X \<subseteq> insert sid Y"
  shows "quic_inv Y log G (queue_send sid c)"
proof (cases "pair_of sid c")
  case None
  then show ?thesis using quic_inv_mono [OF quic_inv_absent [OF inv None], of Y] sub by (auto simp: queue_send_def)
next
  case (Some p)
  note slot = quic_inv_slot [OF inv Some]
  show ?thesis
  proof (cases "pr_queued p")
    case True
    then have "slot_ok Y (q_send_queue c) (finished_ids (log @ q_events c)) sid p" using slot by (auto simp: slot_ok_def)
    then have "quic_inv Y log G ((upd_pair sid id c)
        \<lparr>q_send_queue := q_send_queue c, q_events := q_events c, q_unanswered := q_unanswered c\<rparr>)"
      by (intro quic_inv_replace [OF inv Some sub]) (use quic_inv_ids [OF inv] in auto)
    moreover have "(upd_pair sid id c)
        \<lparr>q_send_queue := q_send_queue c, q_events := q_events c, q_unanswered := q_unanswered c\<rparr> = c"
      by (auto simp: upd_pair_def option.map_id split: option.splits)
    ultimately show ?thesis using Some True by (simp add: queue_send_def)
  next
    case False
    let ?f = "\<lambda>p. p\<lparr>pr_queued := True\<rparr>"
    have new: "sid \<notin> set (q_send_queue c)" using slot False by (simp add: slot_ok_def)
    have "slot_ok Y (q_send_queue c @ [sid]) (finished_ids (log @ q_events c)) sid (?f p)"
      using slot by (auto simp: slot_ok_def)
    moreover have "ids_below (q_next_bidi c) (q_send_queue c @ [sid])"
      using quic_inv_ids(1) [OF inv] quic_inv_id [OF inv Some] new by (auto simp: ids_below_def)
    ultimately have "quic_inv Y log G ((upd_pair sid ?f c)
        \<lparr>q_send_queue := q_send_queue c @ [sid], q_events := q_events c, q_unanswered := q_unanswered c\<rparr>)"
      by (intro quic_inv_replace [OF inv Some sub]) (use quic_inv_ids [OF inv] in auto)
    moreover have "(upd_pair sid ?f c)
        \<lparr>q_send_queue := q_send_queue c @ [sid], q_events := q_events c, q_unanswered := q_unanswered c\<rparr>
        = (upd_pair sid ?f c)\<lparr>q_send_queue := q_send_queue c @ [sid]\<rparr>"
      by (simp add: upd_pair_def split: option.splits)
    ultimately show ?thesis using Some False by (simp add: queue_send_def)
  qed
qed

lemma upd_send_any:
  assumes "quic_inv X log G c"
  shows "quic_inv (insert sid X) log G (upd_send sid f c)"
proof (cases "stream_index sid c")
  case None
  then show ?thesis using assms by (auto simp: upd_send_def intro: quic_inv_mono)
next
  case (Some i)
  have "quic_inv (insert sid X) log G (upd_pair sid (\<lambda>p. p\<lparr>pr_send := f (pr_send p)\<rparr>) c)"
    by (rule quic_inv_upd_pair [OF assms]) auto
  then show ?thesis using Some by (simp add: upd_send_def)
qed

lemma upd_send_quiet:
  assumes "quic_inv X log G c" "\<And>s. send_has_pending (f s) \<Longrightarrow> send_has_pending s"
  shows "quic_inv X log G (upd_send sid f c)"
proof (cases "stream_index sid c")
  case None
  then show ?thesis using assms by (simp add: upd_send_def)
next
  case (Some i)
  have "quic_inv X log G (upd_pair sid (\<lambda>p. p\<lparr>pr_send := f (pr_send p)\<rparr>) c)"
    by (rule quic_inv_upd_pair [OF assms(1)]) (auto dest: assms(2))
  then show ?thesis using Some by (simp add: upd_send_def)
qed

lemma upd_recv_keeps [simp, intro]: "quic_inv X log G c \<Longrightarrow> quic_inv X log G (upd_recv sid f c)"
  by (auto simp: upd_recv_def split: option.splits intro!: quic_inv_upd_pair)

text \<open>An operation on the send half followed by \<open>queue_send\<close>.\<close>

lemma send_and_queue: "quic_inv X log G c \<Longrightarrow> quic_inv X log G (queue_send sid (upd_send sid f c))"
  by (rule queue_send_keeps [OF upd_send_any]) auto

lemma settle_keeps [quic_keeps]: "quic_inv X log G c \<Longrightarrow> quic_inv X log G (quic_settle sid c)"
proof -
  assume inv: "quic_inv X log G c"
  show ?thesis
  proof (cases "pair_of sid c")
    case None
    then show ?thesis using inv by (auto simp: pair_of_def quic_settle_def split: option.splits)
  next
    case (Some p)
    then obtain i where i: "i < length (q_streams c)" "sid = 4 * (q_base_stream c + i)" "q_streams c ! i = Some p"
      by (auto simp: pair_of_eq)
    then have idx: "stream_index sid c = Some i" by (simp add: stream_index_eq)
    show ?thesis
    proof (cases "pr_retired p \<and> send_is_settled (pr_send p)")
      case True
      then have "pr_finished p" using quic_inv_slot [OF inv Some] by (auto simp: slot_ok_def split: if_splits)
      then show ?thesis using streams_inv_drop [OF _ i(1,3)] inv idx i True
        by (simp add: quic_settle_def trim_streams_def quic_inv_def Let_def del: finished_ids_append)
    next
      case False
      then show ?thesis using inv idx i by (simp add: quic_settle_def)
    qed
  qed
qed

lemma open_bi_keeps [quic_keeps]:
  "quic_inv X log G c \<Longrightarrow> open_bi c = (r, c') \<Longrightarrow> quic_inv X log G c'"
  using streams_inv_open [of X "q_base_stream c" "q_streams c" "q_next_bidi c" "q_unanswered c" "q_send_queue c"]
  by (auto simp: open_bi_def Let_def quic_inv_def send_has_pending_def send_new_def simp del: finished_ids_append split: if_splits)

lemma write_keeps [quic_keeps]: "quic_inv X log G c \<Longrightarrow> quic_inv X log G (snd (quic_write sid data c))"
  by (simp add: quic_write_def Let_def send_and_queue)

lemma finish_keeps [quic_keeps]: "quic_inv X log G c \<Longrightarrow> quic_inv X log G (quic_finish sid c)"
  by (simp add: quic_finish_def send_and_queue)

lemma consume_keeps [quic_keeps]: "quic_inv X log G c \<Longrightarrow> quic_inv X log G (snd (quic_consume sid f c))"
  by (auto simp: quic_consume_def Let_def split: option.splits sum.splits)

lemma upd_pair_conn [simp]:
  "q_send_queue (upd_pair sid f c) = q_send_queue c" "q_events (upd_pair sid f c) = q_events c"
  "q_unanswered (upd_pair sid f c) = q_unanswered c" "q_data_received (upd_pair sid f c) = q_data_received c"
  "q_max_data_local (upd_pair sid f c) = q_max_data_local c" "q_reset_pending (upd_pair sid f c) = q_reset_pending c"
  "q_data_sent (upd_pair sid f c) = q_data_sent c" "q_max_data_peer (upd_pair sid f c) = q_max_data_peer c"
  "q_next_bidi (upd_pair sid f c) = q_next_bidi c" "q_base_stream (upd_pair sid f c) = q_base_stream c"
  "q_tls (upd_pair sid f c) = q_tls c" "q_one_rtt_local (upd_pair sid f c) = q_one_rtt_local c"
  "q_spaces (upd_pair sid f c) = q_spaces c" "q_local_uni (upd_pair sid f c) = q_local_uni c"
  by (simp_all add: upd_pair_def split: option.splits)

lemma send_oneshot_keeps [quic_keeps]:
  assumes inv: "quic_inv X log G c"
  shows "quic_inv X log G (snd (send_oneshot data c))"
proof (cases "open_bi c")
  case (Pair r c1)
  then have inv1: "quic_inv X log G c1" using open_bi_keeps [OF inv] by simp
  show ?thesis
  proof (cases r)
    case None
    then show ?thesis using Pair inv1 by (simp add: send_oneshot_def)
  next
    case (Some sid)
    define p where "p = \<lparr>pr_send = send_new (initial_max_stream_data_bidi_remote (q_params c)),
      pr_recv = recv_new (q_stream_window c), pr_finished = False, pr_retired = False, pr_queued = False\<rparr>"
    have c1: "sid = 4 * q_next_bidi c" "q_streams c1 = q_streams c @ [Some p]" "q_base_stream c1 = q_base_stream c"
      using Pair Some by (auto simp: open_bi_def Let_def p_def split: if_splits)
    have n: "q_next_bidi c = q_base_stream c + length (q_streams c)"
      using inv by (simp add: quic_inv_def streams_inv_def)
    have at: "length (q_streams c) < length (q_streams c1)" "sid = 4 * (q_base_stream c1 + length (q_streams c))"
      "q_streams c1 ! length (q_streams c) = Some p"
      using c1 n by auto
    then have pair: "pair_of sid c1 = Some p" by (auto simp: pair_of_eq)
    obtain m s where w: "send_write data (pr_send p) = (m, s)" by fastforce
    let ?q = "p\<lparr>pr_send := if m = length data then send_finish s else s, pr_queued := True\<rparr>"
    have slot: "slot_ok X (q_send_queue c1) (finished_ids (log @ q_events c1)) sid p" by (rule quic_inv_slot [OF inv1 pair])
    then have "ids_below (q_next_bidi c1) (q_send_queue c1 @ [sid])"
      using quic_inv_ids(1) [OF inv1] quic_inv_id [OF inv1 pair] by (auto simp: ids_below_def slot_ok_def p_def)
    moreover have "slot_ok X (q_send_queue c1 @ [sid]) (finished_ids (log @ q_events c1)) sid ?q"
      using slot by (auto simp: slot_ok_def split: if_splits)
    ultimately have "quic_inv X log G ((upd_pair sid (\<lambda>_. ?q) c1)
        \<lparr>q_send_queue := q_send_queue c1 @ [sid], q_events := q_events c1, q_unanswered := q_unanswered c1\<rparr>)"
      by (intro quic_inv_replace [OF inv1 pair]) (use quic_inv_ids [OF inv1] in \<open>auto simp: p_def\<close>)
    moreover have "(upd_pair sid (\<lambda>_. ?q) c1)
        \<lparr>q_send_queue := q_send_queue c1 @ [sid], q_events := q_events c1, q_unanswered := q_unanswered c1\<rparr>
        = c1\<lparr>q_streams := q_streams c @ [Some ?q], q_send_queue := q_send_queue c1 @ [sid]\<rparr>"
      unfolding upd_pair_at [OF at] by (simp add: c1(2) list_update_append)
    ultimately show ?thesis using Pair Some w c1(2) by (simp add: send_oneshot_def Let_def quic_inv_def)
  qed
qed

text \<open>A stream is reported finished.\<close>

lemma quic_inv_finish:
  assumes inv: "quic_inv X log G c" and pair: "pair_of sid c = Some p" and unfinished: "\<not> pr_finished p"
    and f: "pr_finished (f p)" "pr_queued (f p) = pr_queued p" "pr_send (f p) = pr_send p"
    and events: "finished_ids events = finished_ids (q_events c) @ [sid]"
  shows "quic_inv X log G ((upd_pair sid f c)\<lparr>q_events := events, q_unanswered := q_unanswered c - 1\<rparr>)"
    and "0 < q_unanswered c"
proof -
  note slot = quic_inv_slot [OF inv pair]
  obtain i where i: "i < length (q_streams c)" "q_streams c ! i = Some p" using pair by (auto simp: pair_of_eq)
  show pos: "0 < q_unanswered c"
    using inv waiting_count_pos [OF i(1)] i unfinished by (auto simp: quic_inv_def streams_inv_def)
  have "slot_ok X (q_send_queue c) (finished_ids (log @ events)) sid (f p)"
    using slot f unfinished by (auto simp: slot_ok_def events)
  moreover have "ids_below (q_next_bidi c) (finished_ids (log @ events))"
    using quic_inv_ids(2) [OF inv] quic_inv_id [OF inv pair] slot unfinished by (auto simp: ids_below_def slot_ok_def events)
  ultimately have "quic_inv X log G ((upd_pair sid f c)
      \<lparr>q_send_queue := q_send_queue c, q_events := events, q_unanswered := q_unanswered c - 1\<rparr>)"
    by (intro quic_inv_replace [OF inv pair]) (use quic_inv_ids [OF inv] pos unfinished f events in auto)
  moreover have "(upd_pair sid f c)\<lparr>q_send_queue := q_send_queue c, q_events := events, q_unanswered := q_unanswered c - 1\<rparr>
      = (upd_pair sid f c)\<lparr>q_events := events, q_unanswered := q_unanswered c - 1\<rparr>"
    by (simp add: upd_pair_def split: option.splits)
  ultimately show "quic_inv X log G ((upd_pair sid f c)\<lparr>q_events := events, q_unanswered := q_unanswered c - 1\<rparr>)"
    by (simp only:)
qed

lemma send_reset_quiet: "\<not> send_has_pending (snd (send_reset s))"
  by (simp add: send_reset_def send_has_pending_def Let_def)

lemma retire_keeps:
  assumes inv: "quic_inv X log G c"
  shows "\<exists>c'. quic_retire sid cancel c = Inr c' \<and> quic_inv X log G c'"
proof (cases "pair_of sid c")
  case None
  then show ?thesis using inv by (simp add: quic_retire_def)
next
  case (Some p)
  note slot = quic_inv_slot [OF inv Some]
  obtain i where i: "i < length (q_streams c)" "q_streams c ! i = Some p" using Some by (auto simp: pair_of_eq)
  have pos: "pr_finished p \<or> 0 < q_unanswered c"
    using inv waiting_count_pos [OF i(1)] i by (cases "pr_finished p") (auto simp: quic_inv_def streams_inv_def)
  define c1 where "c1 = (if pr_finished p then c else c\<lparr>q_unanswered := q_unanswered c - 1\<rparr>)"
  define c2 where "c2 = upd_pair sid retire_pair c1"
  have "slot_ok X (q_send_queue c) (finished_ids (log @ q_events c)) sid (retire_pair p)"
    using slot by (auto simp: slot_ok_def retire_pair_def split: if_splits)
  then have "quic_inv X log G ((upd_pair sid retire_pair c)\<lparr>q_send_queue := q_send_queue c, q_events := q_events c,
      q_unanswered := q_unanswered c - (if pr_finished p then 0 else 1)\<rparr>)"
    by (intro quic_inv_replace [OF inv Some]) (use quic_inv_ids [OF inv] pos in \<open>auto simp: retire_pair_def\<close>)
  moreover have "c2 = (upd_pair sid retire_pair c)\<lparr>q_send_queue := q_send_queue c, q_events := q_events c,
      q_unanswered := q_unanswered c - (if pr_finished p then 0 else 1)\<rparr>"
    by (simp add: c2_def c1_def upd_pair_def stream_index_def split: option.splits)
  ultimately have inv2: "quic_inv X log G c2" by (simp only:)
  have "quic_inv X log G (upd_pair sid (\<lambda>p. p\<lparr>pr_send := snd (send_reset s)\<rparr>) c2)" for s
    by (rule quic_inv_upd_pair [OF inv2]) (auto simp: send_reset_quiet)
  then show ?thesis
    using Some pos inv2 by (auto simp: quic_retire_def Let_def c1_def [symmetric] c2_def [symmetric] split_def intro: settle_keeps)
qed

text \<open>What arrives on a stream.\<close>

lemma check_end_credit: "check_end stop fin credit s = Inr new \<Longrightarrow> new \<le> credit"
  by (auto simp: check_end_def Let_def split: if_splits option.splits)

lemma push_credit: "push_with_credit offset data fin credit s = Inr (new, s') \<Longrightarrow> new \<le> credit"
  by (auto simp: push_with_credit_def Let_def split_def split: sum.splits option.splits if_splits dest: check_end_credit)

lemma reset_credit: "recv_reset final_size credit s = Inr (new, s') \<Longrightarrow> new \<le> credit"
  by (auto simp: recv_reset_def dest: check_end_credit)

text \<open>A fallible operation keeps the invariant whether it succeeds or not, and does not panic.\<close>

definition result_keeps :: "(('t, 's) quic \<Rightarrow> bool) \<Rightarrow> ('t, 's, ('t, 's) quic) quic_result \<Rightarrow> bool" where
  "result_keeps I r \<longleftrightarrow> (case r of Inl (e, c) \<Rightarrow> e \<noteq> Panic \<and> I c | Inr c \<Rightarrow> I c)"

lemma result_keeps_simps [simp]:
  "result_keeps I (Inr c) = I c" "result_keeps I (Inl (e, c)) = (e \<noteq> Panic \<and> I c)"
  by (simp_all add: result_keeps_def)

lemma result_keeps_rbind:
  "result_keeps I r \<Longrightarrow> (\<And>c. I c \<Longrightarrow> result_keeps I (f c)) \<Longrightarrow> result_keeps I (rbind r f)"
  by (cases r) auto

definition counted_keeps ::
    "nat \<Rightarrow> ('t, 's) quic \<Rightarrow> (('t, 's) quic \<Rightarrow> bool) \<Rightarrow> ('t, 's, nat \<times> ('t, 's) quic) quic_result \<Rightarrow> bool" where
  "counted_keeps credit c I r \<longleftrightarrow>
     (case r of
        Inl (e, c') \<Rightarrow> e \<noteq> Panic \<and> I c'
      | Inr (new, c') \<Rightarrow> I c' \<and> new \<le> credit \<and> q_data_received c' = q_data_received c \<and> q_max_data_local c' = q_max_data_local c)"

lemma counted_result:
  assumes "counted_keeps credit c (quic_inv X log G) r" "credit = q_max_data_local c - q_data_received c"
    and "q_data_received c \<le> q_max_data_local c"
  shows "result_keeps (quic_inv X log G) (rbind r (\<lambda>(new, c). Inr (c\<lparr>q_data_received := q_data_received c + new\<rparr>)))"
  using assms by (auto simp: counted_keeps_def quic_inv_def split: sum.splits)

lemma finished_readable:
  "finished_ids (q_events (push_readable sid c)) = finished_ids (q_events c)"
  by (simp add: push_readable_def push_event_def finished_ids_Cons)

lemma push_readable_fields [simp]:
  "q_data_received (push_readable sid c) = q_data_received c" "q_max_data_local (push_readable sid c) = q_max_data_local c"
  "q_data_received (push_event e c) = q_data_received c" "q_max_data_local (push_event e c) = q_max_data_local c"
  "q_unanswered (push_readable sid c) = q_unanswered c"
  by (simp_all add: push_readable_def push_event_def)

lemma push_readable_events: "push_readable sid c = c\<lparr>q_events := q_events (push_readable sid c)\<rparr>"
  by (simp add: push_readable_def push_event_def)

lemma request_data_keeps:
  assumes inv: "quic_inv X log G c" and pair: "pair_of sid c = Some p"
  shows "counted_keeps credit c (quic_inv X log G) (on_request_data sid offset data fin credit p c)"
proof (cases "push_with_credit offset data fin credit (pr_recv p)")
  case (Inl e)
  then show ?thesis using inv by (simp add: on_request_data_def counted_keeps_def)
next
  case (Inr r)
  obtain new recv where r: "r = (new, recv)" by fastforce
  have new: "new \<le> credit" using push_credit Inr r by blast
  define c1 where "c1 = upd_pair sid (\<lambda>p. p\<lparr>pr_recv := recv\<rparr>) c"
  have inv1: "quic_inv X log G c1" unfolding c1_def by (rule quic_inv_upd_pair [OF inv]) auto
  have pair1: "pair_of sid c1 = Some (p\<lparr>pr_recv := recv\<rparr>)" by (simp add: c1_def pair_of_upd_pair pair)
  show ?thesis
  proof (cases "recv_is_finished recv \<and> \<not> pr_finished p")
    case False
    then show ?thesis using Inr r inv1 new
      by (auto simp: on_request_data_def counted_keeps_def Let_def c1_def [symmetric]) (simp_all add: c1_def)
  next
    case True
    define c2 where "c2 = (upd_pair sid (\<lambda>p. p\<lparr>pr_finished := True\<rparr>) c1)\<lparr>q_unanswered := q_unanswered c1 - 1\<rparr>"
    define c3 where "c3 = (if recv_has_data recv then push_readable sid c2 else c2)"
    have c3: "c3 = c2\<lparr>q_events := q_events c3\<rparr>" "finished_ids (q_events c3) = finished_ids (q_events c1)"
      using push_readable_events [of sid c2] by (auto simp: c3_def finished_readable c2_def)
    have c4: "push_event (Ev_finished sid None) c3 = (upd_pair sid (\<lambda>p. p\<lparr>pr_finished := True\<rparr>) c1)
        \<lparr>q_events := q_events c3 @ [Ev_finished sid None], q_unanswered := q_unanswered c1 - 1\<rparr>"
      by (subst c3(1)) (simp add: push_event_def c2_def)
    have "quic_inv X log G (push_event (Ev_finished sid None) c3)"
      unfolding c4 by (rule quic_inv_finish(1) [OF inv1 pair1]; use True c3 in \<open>simp add: finished_ids_Cons\<close>)
    moreover have "0 < q_unanswered c1"
      by (rule quic_inv_finish(2) [OF inv1 pair1, of "\<lambda>p. p\<lparr>pr_finished := True\<rparr>" "q_events c1 @ [Ev_finished sid None]"])
        (use True in \<open>simp_all add: finished_ids_Cons\<close>)
    moreover have "q_data_received c1 = q_data_received c" "q_max_data_local c1 = q_max_data_local c"
      "q_unanswered c1 = q_unanswered c"
      by (simp_all add: c1_def)
    ultimately show ?thesis using Inr r new True
      by (simp add: on_request_data_def counted_keeps_def Let_def c1_def [symmetric] c2_def c3_def cong: if_cong)
  qed
qed

lemma peer_uni_data_keeps:
  assumes "quic_inv X log G c"
  shows "counted_keeps credit c (quic_inv X log G) (on_peer_uni_data sid offset data fin credit c)"
  using assms
  by (auto simp: on_peer_uni_data_def counted_keeps_def Let_def split: sum.splits option.splits dest: push_credit)

lemma on_stream_keeps:
  assumes inv: "quic_inv X log G c"
  shows "result_keeps (quic_inv X log G) (on_stream sid offset data fin c)"
proof -
  have flow: "q_data_received c \<le> q_max_data_local c" using inv by (simp add: quic_inv_def)
  note counted = counted_result [OF _ refl flow]
  show ?thesis
  proof (cases "pair_of sid c")
    case None
    then show ?thesis using inv flow counted [OF peer_uni_data_keeps [OF inv]]
      by (auto simp: on_stream_def pair_of_def split: option.splits sum.splits)
  next
    case (Some p)
    then show ?thesis using inv flow counted [OF request_data_keeps [OF inv Some]]
      by (auto simp: on_stream_def pair_of_def split: option.splits)
  qed
qed

lemma request_reset_keeps:
  assumes inv: "quic_inv X log G c" and pair: "pair_of sid c = Some p"
    and credit: "credit = q_max_data_local c - q_data_received c"
  shows "result_keeps (quic_inv X log G) (on_request_reset sid error final_size credit p c)"
proof (cases "recv_reset final_size credit (pr_recv p)")
  case (Inl e)
  then show ?thesis using inv by (simp add: on_request_reset_def)
next
  case (Inr r)
  obtain new recv where r: "r = (new, recv)" by fastforce
  have new: "new \<le> credit" using reset_credit Inr r by blast
  define c1 where "c1 = (upd_pair sid (\<lambda>p. p\<lparr>pr_recv := recv\<rparr>) c)\<lparr>q_data_received := q_data_received c + new\<rparr>"
  have "quic_inv X log G (upd_pair sid (\<lambda>p. p\<lparr>pr_recv := recv\<rparr>) c)" by (rule quic_inv_upd_pair [OF inv]) auto
  moreover have "q_data_received c + new \<le> q_max_data_local c" using new credit inv by (auto simp: quic_inv_def)
  ultimately have inv1: "quic_inv X log G c1" by (simp add: c1_def quic_inv_def)
  have "pair_of sid c1 = pair_of sid (upd_pair sid (\<lambda>p. p\<lparr>pr_recv := recv\<rparr>) c)"
    by (rule pair_of_cong) (simp_all add: c1_def)
  then have pair1: "pair_of sid c1 = Some (p\<lparr>pr_recv := recv\<rparr>)" by (simp add: pair_of_upd_pair pair)
  show ?thesis
  proof (cases "pr_finished p")
    case True
    then show ?thesis using Inr r inv1 by (simp add: on_request_reset_def Let_def c1_def [symmetric])
  next
    case False
    let ?es = "q_events c1 @ [Ev_finished sid (Some error)]"
    have c2: "push_event (Ev_finished sid (Some error)) ((upd_pair sid (\<lambda>p. p\<lparr>pr_finished := True\<rparr>) c1)
        \<lparr>q_unanswered := q_unanswered c1 - 1\<rparr>)
        = (upd_pair sid (\<lambda>p. p\<lparr>pr_finished := True\<rparr>) c1)\<lparr>q_events := ?es, q_unanswered := q_unanswered c1 - 1\<rparr>"
      by (simp add: push_event_def)
    note fin = quic_inv_finish [OF inv1 pair1, of "\<lambda>p. p\<lparr>pr_finished := True\<rparr>" ?es]
    have "quic_inv X log G (push_event (Ev_finished sid (Some error)) ((upd_pair sid (\<lambda>p. p\<lparr>pr_finished := True\<rparr>) c1)
        \<lparr>q_unanswered := q_unanswered c1 - 1\<rparr>))"
      unfolding c2 by (rule fin(1)) (use False in \<open>simp_all add: finished_ids_Cons\<close>)
    moreover have "0 < q_unanswered c1" by (rule fin(2)) (use False in \<open>simp_all add: finished_ids_Cons\<close>)
    moreover have "q_unanswered c1 = q_unanswered c" by (simp add: c1_def)
    ultimately show ?thesis using Inr r False by (simp add: on_request_reset_def Let_def c1_def [symmetric])
  qed
qed

lemma peer_uni_reset_keeps:
  assumes "quic_inv X log G c" "credit = q_max_data_local c - q_data_received c"
  shows "result_keeps (quic_inv X log G) (on_peer_uni_reset sid final_size credit c)"
  using assms
  by (auto simp: on_peer_uni_reset_def Let_def quic_inv_def push_event_def finished_ids_Cons
      split: sum.splits option.splits dest!: reset_credit)

lemma on_reset_keeps:
  assumes inv: "quic_inv X log G c"
  shows "result_keeps (quic_inv X log G) (on_reset sid error final_size c)"
proof -
  have flow: "q_data_received c \<le> q_max_data_local c" using inv by (simp add: quic_inv_def)
  show ?thesis
  proof (cases "pair_of sid c")
    case None
    then show ?thesis using inv flow peer_uni_reset_keeps [OF inv refl]
      by (auto simp: on_reset_def pair_of_def split: option.splits sum.splits)
  next
    case (Some p)
    then show ?thesis using inv flow request_reset_keeps [OF inv Some refl]
      by (auto simp: on_reset_def pair_of_def split: option.splits)
  qed
qed

section \<open>Receiving\<close>

lemma release_prefix_quiet: "send_has_pending (release_prefix stop s) \<Longrightarrow> send_has_pending s"
proof -
  obtain stop' acked where a: "absorb_prefix stop (ss_acked s) = (stop', acked)" by fastforce
  define n where "n = min (stop' - ss_base_offset s) (length (ss_buf s) - ss_buf_start s)"
  have "\<not> send_has_pending s \<Longrightarrow> \<not> send_has_pending (release_prefix stop s)"
    by (cases "ss_buf_start s + n = length (ss_buf s)")
      (auto simp: release_prefix_def a n_def [symmetric] send_has_pending_def Let_def)
  then show "send_has_pending (release_prefix stop s) \<Longrightarrow> send_has_pending s" by blast
qed

lemma remember_run_quiet: "send_has_pending (remember_run offset stop s) \<Longrightarrow> send_has_pending s"
  by (auto simp: remember_run_def acknowledge_lost_def send_has_pending_def Let_def split: prod.splits)

lemma send_on_acked_quiet: "send_has_pending (send_on_acked offset len fin s) \<Longrightarrow> send_has_pending s"
  by (auto simp: send_on_acked_def Let_def split: if_splits dest!: release_prefix_quiet remember_run_quiet)
    (auto simp: send_has_pending_def)

lemma fold_keeps: "(\<And>x c. x \<in> set xs \<Longrightarrow> I c \<Longrightarrow> I (f x c)) \<Longrightarrow> I c \<Longrightarrow> I (fold f xs c)"
  by (induction xs arbitrary: c) auto

lemma on_frame_acked_keeps: "quic_inv X log G c \<Longrightarrow> quic_inv X log G (on_frame_acked f c)"
  by (cases f) (auto intro!: settle_keeps upd_send_quiet dest: send_on_acked_quiet
      simp: send_on_reset_acked_def send_has_pending_def)

lemma on_frame_lost_keeps: "quic_inv X log G c \<Longrightarrow> quic_inv X log G (on_frame_lost sp f c)"
  by (cases f) (auto intro: send_and_queue)

lemma on_packet_acked_keeps: "quic_inv X log G c \<Longrightarrow> quic_inv X log G (on_packet_acked sp p c)"
  unfolding on_packet_acked_def Let_def
  by (rule fold_keeps [where I = "quic_inv X log G"]) (auto intro: on_frame_acked_keeps split: option.splits)

lemma on_packet_lost_keeps: "quic_inv X log G c \<Longrightarrow> quic_inv X log G (on_packet_lost sp now p c)"
  unfolding on_packet_lost_def
  by (rule fold_keeps [where I = "quic_inv X log G"]) (auto intro: on_frame_lost_keeps)

lemma on_lost_packets_keeps: "quic_inv X log G c \<Longrightarrow> quic_inv X log G (on_lost_packets sp lost now c)"
  using fold_keeps [where I = "quic_inv X log G" and f = "on_packet_lost sp now" and xs = lost and c = c]
  by (auto simp: on_lost_packets_def Let_def on_packet_lost_keeps split: option.splits)

lemma detect_space_keeps: "quic_inv X log G c \<Longrightarrow> quic_inv X log G (snd (detect_space now sp c))"
  by (simp add: detect_space_def Let_def split_def on_lost_packets_keeps)

lemma take_rtt_sample_keeps [simp]: "quic_inv X log G (take_rtt_sample largest delay now acked c) = quic_inv X log G c"
  by (simp add: take_rtt_sample_def Let_def split: option.splits)

lemma on_ack_keeps: "quic_inv X log G c \<Longrightarrow> quic_inv X log G (on_ack sp largest delay first ranges now c)"
  using fold_keeps [where I = "quic_inv X log G" and f = "on_packet_acked sp"]
  by (auto simp: on_ack_def Let_def split_def intro!: detect_space_keeps on_packet_acked_keeps
      fold_keeps [where I = "quic_inv X log G"])

text \<open>TLS.\<close>

lemma flow_out_None [simp]: "flow_out None tls keyed sent limit"
  by (simp add: flow_out_def)

lemma quic_inv_tls:
  assumes "quic_inv X log G c" "\<And>given. G = Some given \<Longrightarrow> given (q_tls c) \<Longrightarrow> given tls"
  shows "quic_inv X log G (c\<lparr>q_tls := tls\<rparr>)"
  using assms by (auto simp: quic_inv_def flow_out_def split: option.splits)

lemma take_peer_params_keeps:
  assumes "quic_inv X log G c" "\<And>given. G = Some given \<Longrightarrow> q_data_sent c = 0"
  shows "result_keeps (quic_inv X log G) (take_peer_params api c)"
  using assms
  by (auto simp: take_peer_params_def Let_def quic_inv_def flow_out_def validate_server_params_def split: option.splits sum.splits if_splits)

lemma take_peer_params_tls: "take_peer_params api c = Inr c' \<Longrightarrow> q_tls c' = q_tls c"
  by (auto simp: take_peer_params_def Let_def split: option.splits sum.splits)

lemma one_rtt_ready_keeps:
  assumes "quic_inv X log G c" "\<And>given. G = Some given \<Longrightarrow> given (q_tls c)"
  shows "quic_inv X log G (one_rtt_ready api keys next c)"
  using assms
  by (auto simp: one_rtt_ready_def push_event_def quic_inv_def flow_out_def finished_ids_Cons split: prod.splits option.splits)

lemma pump_loop_keeps:
  assumes law: "tls_law G api"
  shows "quic_inv X log G c \<Longrightarrow> result_keeps (quic_inv X log G) (pump_loop n api c)"
proof (induction n arbitrary: c)
  case 0
  then show ?case by simp
next
  case (Suc n)
  obtain change produced tls where w: "tls_write_hs api (q_tls c) = (change, produced, tls)" by (metis prod_cases3)
  define sp where "sp = (if sc_keys (q_spaces c Handshake) \<noteq> None then Handshake else Initial)"
  define c1 where "c1 = upd_space sp (\<lambda>s. s\<lparr>sc_crypto_out := sc_crypto_out s @ produced\<rparr>) (c\<lparr>q_tls := tls\<rparr>)"
  have inv1: "quic_inv X log G c1" unfolding c1_def
    using law w by (auto simp: tls_law_def tls_once_def intro!: quic_inv_tls Suc.prems)
  have tls1: "q_tls c1 = tls" "q_data_sent c1 = q_data_sent c" by (simp_all add: c1_def upd_space_def)
  have step: "pump_loop (Suc n) api c =
     (case change of
        Some (Change_handshake keys) \<Rightarrow>
          pump_loop n api ((upd_space Handshake (\<lambda>s. s\<lparr>sc_keys := Some keys\<rparr>) c1)\<lparr>q_needs_send := True\<rparr>)
      | Some (Change_one_rtt keys next) \<Rightarrow>
          rbind (take_peer_params api c1) (\<lambda>c. pump_loop n api ((one_rtt_ready api keys next c)\<lparr>q_needs_send := True\<rparr>))
      | None \<Rightarrow> if produced = [] then Inr c1 else pump_loop n api (c1\<lparr>q_needs_send := True\<rparr>))"
    unfolding c1_def sp_def by (auto simp: w Let_def)
  show ?case
  proof (cases change)
    case None
    then show ?thesis unfolding step using Suc.IH inv1 by simp
  next
    case (Some k)
    show ?thesis
    proof (cases k)
      case (Change_handshake keys)
      then show ?thesis unfolding step using Some Suc.IH inv1 by simp
    next
      case (Change_one_rtt keys nxt)
      have once: "\<not> given (q_tls c) \<and> given tls" if "G = Some given" for given
        using law w Some Change_one_rtt that by (auto simp: tls_law_def tls_once_def)
      then have sent: "q_data_sent c1 = 0" if "G = Some given" for given
        using Suc.prems that by (auto simp: quic_inv_def flow_out_def tls1)
      have params: "result_keeps (quic_inv X log G) (take_peer_params api c1)"
        by (rule take_peer_params_keeps [OF inv1]) (use sent in blast)
      show ?thesis
      proof (cases "take_peer_params api c1")
        case (Inl e)
        then show ?thesis unfolding step using Some Change_one_rtt params by simp
      next
        case (Inr c2)
        have "quic_inv X log G (one_rtt_ready api keys nxt c2)"
          by (rule one_rtt_ready_keeps) (use params Inr take_peer_params_tls [OF Inr] once tls1 in auto)
        then show ?thesis unfolding step using Some Change_one_rtt Inr Suc.IH by simp
      qed
    qed
  qed
qed

lemma pump_tls_keeps: "tls_law G api \<Longrightarrow> quic_inv X log G c \<Longrightarrow> result_keeps (quic_inv X log G) (pump_tls api c)"
  unfolding pump_tls_def by (rule pump_loop_keeps)

lemma on_crypto_keeps:
  assumes law: "tls_law G api" and inv: "quic_inv X log G c"
  shows "result_keeps (quic_inv X log G) (on_crypto api sp offset data c)"
proof -
  have "quic_inv X log G (c\<lparr>q_tls := snd (tls_read_hs api bs (q_tls c))\<rparr>)" for bs
    using law inv by (intro quic_inv_tls) (auto simp: tls_law_def tls_once_def)
  moreover have "quic_inv X log G ((upd_space sp f c)\<lparr>q_tls := tls\<rparr>) = quic_inv X log G (c\<lparr>q_tls := tls\<rparr>)" for f tls
    by (simp add: quic_inv_def upd_space_def)
  moreover have "q_tls (upd_space sp f c) = q_tls c" for f by (simp add: upd_space_def)
  ultimately show ?thesis using inv
    by (auto simp: on_crypto_def Let_def split_def split: sum.splits intro!: pump_tls_keeps [OF law])
qed

lemma new_connection_id_keeps:
  assumes inv: "quic_inv X log G c"
  shows "result_keeps (quic_inv X log G) (on_new_connection_id seq prior cid token c)"
proof -
  have retire: "quic_inv X log G (retire_before prior c)" using inv by (simp add: retire_before_def)
  have move: "quic_inv X log G (move_cid c')" if "quic_inv X log G c'" for c' :: "('a, 'b) quic"
    using that by (simp add: move_cid_def split: option.splits)
  show ?thesis using inv retire
    by (auto simp: on_new_connection_id_def Let_def split: option.splits sum.splits intro!: move)
qed

lemma stop_sending_keeps: "quic_inv X log G c \<Longrightarrow> quic_inv X log G (on_stop_sending sid error c)"
  by (auto simp: on_stop_sending_def Let_def split_def send_reset_quiet split: option.splits intro: upd_send_quiet)

lemma max_data_keeps: "quic_inv X log G c \<Longrightarrow> quic_inv X log G (c\<lparr>q_max_data_peer := max (q_max_data_peer c) limit\<rparr>)"
  by (auto simp: quic_inv_def flow_out_def split: option.splits)

lemma handle_frame_keeps:
  assumes "tls_law G api" "quic_inv X log G c"
  shows "result_keeps (quic_inv X log G) (handle_frame api sp now f c)"
  using assms
  by (cases f) (auto simp: on_ack_keeps on_crypto_keeps on_handshake_done_def on_stream_keeps on_reset_keeps
      stop_sending_keeps on_max_stream_data_def send_and_queue new_connection_id_keeps on_path_challenge_def on_close_def
      max_data_keeps)

lemma handle_frames_keeps:
  assumes "tls_law G api"
  shows "quic_inv X log G c
    \<Longrightarrow> case handle_frames api sp now fs eliciting c of Inl (e, c) \<Rightarrow> e \<noteq> Panic \<and> quic_inv X log G c | Inr (_, c) \<Rightarrow> quic_inv X log G c"
proof (induction fs arbitrary: c eliciting)
  case (Cons r fs)
  show ?case
  proof (cases r)
    case (Inl e)
    then show ?thesis using Cons.prems by simp
  next
    case (Inr f)
    then show ?thesis using handle_frame_keeps [OF assms Cons.prems, of sp now f] Cons.IH
      by (cases "handle_frame api sp now f c") auto
  qed
qed simp

lemma rotate_keys_keeps [simp]: "quic_inv X log G (rotate_keys api at phase c) = quic_inv X log G c"
  by (auto simp: rotate_keys_def Let_def quic_inv_def split: option.splits prod.splits)

lemma adopt_scid_keeps [simp]: "quic_inv X log G (adopt_scid sp scid c) = quic_inv X log G c"
  by (simp add: adopt_scid_def Let_def split: option.splits)

lemma accept_packet_keeps:
  assumes law: "tls_law G api" and inv: "quic_inv X log G c"
  shows "result_keeps (quic_inv X log G) (accept_packet api now sp scid pn plain c)"
proof -
  let ?c = "upd_space sp (\<lambda>s. s\<lparr>sc_largest_received :=
    Some (case sc_largest_received s of Some prev \<Rightarrow> max prev pn | None \<Rightarrow> pn)\<rparr>) (adopt_scid sp scid c)"
  have "quic_inv X log G ?c" using inv by simp
  from handle_frames_keeps [OF law this, of sp now "frames plain" False] show ?thesis
    by (cases "handle_frames api sp now (frames plain) False ?c") (auto simp: accept_packet_def Let_def)
qed

definition pair_keeps :: "(('t, 's) quic \<Rightarrow> bool) \<Rightarrow> ('t, 's, 'a \<times> ('t, 's) quic) quic_result \<Rightarrow> bool" where
  "pair_keeps I r \<longleftrightarrow> (case r of Inl (e, c) \<Rightarrow> e \<noteq> Panic \<and> I c | Inr (_, c) \<Rightarrow> I c)"

lemma pair_keeps_simps [simp]:
  "pair_keeps I (Inr (x, c)) = I c" "pair_keeps I (Inl (e, c)) = (e \<noteq> Panic \<and> I c)"
  by (simp_all add: pair_keeps_def)

lemma pair_keeps_rbind: "result_keeps I r \<Longrightarrow> pair_keeps I (rbind r (\<lambda>c. Inr (x, c)))"
  by (cases r) auto

lemma handle_protected_keeps:
  assumes law: "tls_law G api" and inv: "quic_inv X log G c"
  shows "pair_keeps (quic_inv X log G) (handle_protected api now sp scid pn_offset stop buf c)"
  using inv
  by (auto simp: handle_protected_def Let_def split: option.splits prod.splits
      intro!: pair_keeps_rbind accept_packet_keeps [OF law])

lemma on_retry_keeps: "quic_inv X log G c \<Longrightarrow> result_keeps (quic_inv X log G) (on_retry api dcid scid token packet c)"
  by (simp add: on_retry_def Let_def split: option.splits)

lemma handle_packet_keeps:
  assumes law: "tls_law G api" and inv: "quic_inv X log G c"
  shows "pair_keeps (quic_inv X log G) (handle_packet api now buf c)"
  using inv handle_protected_keeps [OF law inv]
  by (auto simp: handle_packet_def on_version_negotiation_def split: sum.splits incoming.splits
      intro!: pair_keeps_rbind on_retry_keeps)

lemma datagram_loop_keeps:
  shows "tls_law G api \<Longrightarrow> quic_inv X log G c \<Longrightarrow> pair_keeps (quic_inv X log G) (datagram_loop api now buf processed c)"
proof (induction api now buf processed c rule: datagram_loop.induct)
  case (1 api now buf processed c)
  note keeps = handle_packet_keeps [OF "1.prems", of now buf]
  show ?case
  proof (cases "handle_packet api now buf c")
    case (Inl r)
    then obtain e c' where r: "r = (e, c')" by fastforce
    then have "e \<noteq> Panic" "quic_inv X log G c'" using keeps Inl by auto
    then show ?thesis using Inl r "1.prems" by (subst datagram_loop.simps) (cases e; simp)
  next
    case (Inr r)
    then obtain consumed ok c' where r: "r = ((consumed, ok), c')" by (metis prod.exhaust)
    then have "quic_inv X log G c'" using keeps Inr by auto
    then show ?thesis using Inr r "1.prems" "1.IH" by (subst datagram_loop.simps) auto
  qed
qed

lemma handle_datagram_keeps:
  assumes law: "tls_law G api" and inv: "quic_inv X log G c"
  shows "result_keeps (quic_inv X log G) (handle_datagram api now datagram c)"
proof (cases "datagram_loop api now datagram False c")
  case (Inl e)
  then show ?thesis using inv datagram_loop_keeps [OF law inv, of now datagram False]
    by (cases e) (auto simp: handle_datagram_def)
next
  case (Inr r)
  then show ?thesis using inv datagram_loop_keeps [OF law inv, of now datagram False]
    by (cases r) (auto simp: handle_datagram_def note_received_def arm_idle_def Let_def split: option.splits bool.splits)
qed

lemma handle_timeout_keeps:
  assumes "quic_inv X log G c"
  shows "quic_inv X log G (handle_timeout now c)"
  using assms
  by (auto simp: handle_timeout_def Let_def split: option.splits
      intro!: fold_keeps [where I = "quic_inv X log G"] detect_space_keeps)

section \<open>Sending\<close>

lemma conn_simps [simp]:
  "fl_conn (on_conn f fl) = f (fl_conn fl)" "fl_conn (add_frame bs fr fl) = fl_conn fl"
  by (simp_all add: on_conn_def add_frame_def)

text \<open>While a 1-RTT payload is filled the keys are there.\<close>

definition fill_ok :: "nat set \<Rightarrow> quic_event list \<Rightarrow> ('t \<Rightarrow> bool) option \<Rightarrow> ('t, 's) filling \<Rightarrow> bool" where
  "fill_ok X log G fl \<longleftrightarrow> quic_inv X log G (fl_conn fl) \<and> q_one_rtt_local (fl_conn fl) \<noteq> None"

lemma crypto_loop_conn:
  "quic_inv X log G (fl_conn (crypto_loop budget sp fl)) = quic_inv X log G (fl_conn fl)"
  "q_one_rtt_local (fl_conn (crypto_loop budget sp fl)) = q_one_rtt_local (fl_conn fl)"
  by (induction budget sp fl rule: crypto_loop.induct; subst crypto_loop.simps; simp add: Let_def upd_space_def)+

lemma fill_max_data_ok: "fill_ok X log G fl \<Longrightarrow> fill_ok X log G (fill_max_data budget fl)"
  by (auto simp: fill_max_data_def fill_ok_def Let_def quic_inv_def)

lemma upd_recv_keyed [simp]: "q_one_rtt_local (upd_recv sid f c) = q_one_rtt_local c"
  by (simp add: upd_recv_def split: option.splits)

lemma grant_credit_ok: "fill_ok X log G fl \<Longrightarrow> fill_ok X log G (grant_credit sid fl)"
  by (auto simp: grant_credit_def fill_ok_def Let_def split_def split: option.splits)

lemma credit_loop_ok: "fill_ok X log G fl \<Longrightarrow> fill_ok X log G (credit_loop budget n fl)"
proof (induction n arbitrary: fl)
  case (Suc n)
  have "fill_ok X log G (grant_credit sid (on_conn (\<lambda>c. c\<lparr>q_credit_pending := butlast (q_credit_pending c)\<rparr>) fl))" for sid
    using Suc.prems by (intro grant_credit_ok) (simp add: fill_ok_def)
  then show ?case using Suc by (simp add: Let_def)
qed simp

lemma retire_loop_ok: "fill_ok X log G fl \<Longrightarrow> fill_ok X log G (retire_loop budget n fl)"
  by (induction n arbitrary: fl) (simp_all add: Let_def fill_ok_def)

lemma reset_loop_ok: "fill_ok X log G fl \<Longrightarrow> fill_ok X log G (reset_loop budget n fl)"
  by (induction n arbitrary: fl) (simp_all add: Let_def fill_ok_def split_def)

lemma send_new_credit:
  assumes "next_send m credit s = Some (offset, data, fin)" "send_on_sent offset (length data) fin s = (n, s')"
  shows "n \<le> credit"
proof (cases "ss_lost s")
  case Nil
  define buf where "buf = drop (ss_buf_start s) (ss_buf s)"
  define l where "l = min (length buf - ss_sent s) (min m credit)"
  have "data = [] \<or> offset - ss_base_offset s = ss_sent s \<and> data = drop (ss_sent s) (take (ss_sent s + l) buf)"
    using assms(1) Nil by (auto simp: next_send_def Let_def buf_def [symmetric] l_def [symmetric] split: if_splits)
  then show ?thesis using assms(2) Nil
    by (elim disjE) (auto simp: send_on_sent_def Let_def l_def split: if_splits)
next
  case (Cons r rs)
  obtain a b where r: "r = (a, b)" by fastforce
  show ?thesis
  proof (cases "a < b")
    case True
    then show ?thesis using assms Cons r by (auto simp: next_send_def send_on_sent_def Let_def split: if_splits)
  next
    case False
    then have "length data = 0" using assms(1) Cons r by (auto simp: next_send_def Let_def split: if_splits)
    then show ?thesis using assms(2) by (auto simp: send_on_sent_def Let_def split: option.splits)
  qed
qed

lemma send_turn_ok:
  assumes ok: "fill_ok X log G fl" and sub: "X \<subseteq> Y"
    and put: "\<And>send. quic_inv Y log G (put send (fl_conn fl))"
    and same: "\<And>send. q_data_sent (put send (fl_conn fl)) = q_data_sent (fl_conn fl)"
      "\<And>send. q_max_data_peer (put send (fl_conn fl)) = q_max_data_peer (fl_conn fl)"
      "\<And>send. q_tls (put send (fl_conn fl)) = q_tls (fl_conn fl)"
      "\<And>send. q_one_rtt_local (put send (fl_conn fl)) = q_one_rtt_local (fl_conn fl)"
  shows "fill_ok Y log G (send_turn avail sid send put fl)"
proof (cases "next_send (avail - 16) (q_max_data_peer (fl_conn fl) - q_data_sent (fl_conn fl)) send")
  case None
  then show ?thesis using ok sub by (auto simp: send_turn_def fill_ok_def intro: quic_inv_mono)
next
  case (Some r)
  obtain offset data fin where r: "r = (offset, data, fin)" by (metis prod_cases3)
  obtain n send' where s: "send_on_sent offset (length data) fin send = (n, send')" by fastforce
  have "n \<le> q_max_data_peer (fl_conn fl) - q_data_sent (fl_conn fl)" by (rule send_new_credit) (use Some r s in auto)
  then have "flow_out G (q_tls (fl_conn fl)) True (q_data_sent (fl_conn fl) + n) (q_max_data_peer (fl_conn fl))"
    using ok by (auto simp: fill_ok_def quic_inv_def flow_out_def split: option.splits)
  then show ?thesis using Some r s ok put [of send']
    by (simp add: send_turn_def Let_def fill_ok_def quic_inv_def same)
qed

lemma uni_loop_ok: "fill_ok X log G fl \<Longrightarrow> fill_ok X log G (uni_loop budget is fl)"
proof (induction "is" arbitrary: fl)
  case (Cons i "is")
  have "fill_ok X log G (send_turn avail sid send (\<lambda>send c. c\<lparr>q_local_uni := (q_local_uni c)[i := (sid, send)]\<rparr>) fl)" for avail sid send
    using Cons.prems by (intro send_turn_ok [OF Cons.prems]) (auto simp: fill_ok_def)
  then show ?case using Cons by (simp add: Let_def split_def)
qed simp

lemma quic_inv_pop:
  assumes inv: "quic_inv {} log G c" and queue: "q_send_queue c = sid # rest"
  shows "pair_of sid c = None \<Longrightarrow> quic_inv {} log G (c\<lparr>q_send_queue := rest\<rparr>)"
    and "pair_of sid c = Some p \<Longrightarrow> quic_inv {sid} log G (upd_pair sid (\<lambda>p. p\<lparr>pr_queued := False\<rparr>) (c\<lparr>q_send_queue := rest\<rparr>))"
proof -
  have ids: "ids_below (q_next_bidi c) rest" "sid \<notin> set rest"
    using quic_inv_ids(1) [OF inv] queue by (auto simp: ids_below_def)
  {
    assume none: "pair_of sid c = None"
    have "slot_ok {} rest (finished_ids (log @ q_events c)) (4 * (q_base_stream c + i)) p"
      if i: "i < length (q_streams c)" "q_streams c ! i = Some p" for i p
    proof -
      have "sid \<noteq> 4 * (q_base_stream c + i)" using none i pair_of_eq [of sid c p] by auto
      moreover have "slot_ok {} (sid # rest) (finished_ids (log @ q_events c)) (4 * (q_base_stream c + i)) p"
        using inv i queue by (simp add: quic_inv_def streams_inv_def del: finished_ids_append)
      ultimately show ?thesis by (elim slot_ok_cong) auto
    qed
    then show "quic_inv {} log G (c\<lparr>q_send_queue := rest\<rparr>)"
      using inv ids by (simp add: quic_inv_def streams_inv_def del: finished_ids_append)
  }
  {
    assume pair: "pair_of sid c = Some p"
    let ?f = "\<lambda>p. p\<lparr>pr_queued := False\<rparr>"
    have "slot_ok {sid} rest (finished_ids (log @ q_events c)) sid (?f p)"
      using quic_inv_slot [OF inv pair] ids by (auto simp: slot_ok_def split: if_splits)
    then have "quic_inv {sid} log G ((upd_pair sid ?f c)
        \<lparr>q_send_queue := rest, q_events := q_events c, q_unanswered := q_unanswered c\<rparr>)"
      by (intro quic_inv_replace [OF inv pair]) (use quic_inv_ids [OF inv] ids queue in auto)
    moreover have "upd_pair sid ?f (c\<lparr>q_send_queue := rest\<rparr>) = (upd_pair sid ?f c)
        \<lparr>q_send_queue := rest, q_events := q_events c, q_unanswered := q_unanswered c\<rparr>"
      by (simp add: upd_pair_def stream_index_def split: option.splits)
    ultimately show "quic_inv {sid} log G (upd_pair sid ?f (c\<lparr>q_send_queue := rest\<rparr>))" by (simp only:)
  }
qed

lemma queue_send_keyed [simp]: "q_one_rtt_local (queue_send sid c) = q_one_rtt_local c"
  by (simp add: queue_send_def split: option.splits)

text \<open>A stream that is not exempted after all.\<close>

lemma quic_inv_settled:
  assumes inv: "quic_inv {sid} log G c"
    and quiet: "\<not> (case pair_of sid c of None \<Rightarrow> False | Some p \<Rightarrow> send_has_pending (pr_send p))"
  shows "quic_inv {} log G c"
proof (cases "pair_of sid c")
  case None
  then show ?thesis using quic_inv_absent [OF inv None] by simp
next
  case (Some p)
  have "quic_inv {} log G (upd_pair sid id c)"
    by (rule quic_inv_upd_pair [OF inv]) (use quiet Some in auto)
  moreover have "upd_pair sid id c = c" by (auto simp: upd_pair_def option.map_id split: option.splits)
  ultimately show ?thesis by simp
qed

lemma queue_turn_ok:
  assumes ok: "fill_ok {} log G fl" and queue: "q_send_queue (fl_conn fl) = sid # rest"
  shows "fill_ok {} log G (queue_turn avail sid (on_conn (\<lambda>c. c\<lparr>q_send_queue := rest\<rparr>) fl))"
proof -
  let ?c = "fl_conn fl"
  have pair: "pair_of sid (?c\<lparr>q_send_queue := rest\<rparr>) = pair_of sid ?c" by (rule pair_of_cong) simp_all
  have inv: "quic_inv {} log G ?c" "q_one_rtt_local ?c \<noteq> None" using ok by (simp_all add: fill_ok_def)
  note pop = quic_inv_pop [OF inv(1) queue]
  show ?thesis
  proof (cases "pair_of sid ?c")
    case None
    then show ?thesis using pop(1) pair inv(2) by (simp add: queue_turn_def fill_ok_def)
  next
    case (Some p)
    define fl1 where "fl1 = on_conn (upd_pair sid (\<lambda>p. p\<lparr>pr_queued := False\<rparr>)) (on_conn (\<lambda>c. c\<lparr>q_send_queue := rest\<rparr>) fl)"
    have ok1: "fill_ok {sid} log G fl1" using pop(2) [OF Some] inv(2) by (simp add: fl1_def fill_ok_def)
    define fl2 where "fl2 = send_turn avail sid (pr_send p) (\<lambda>send. upd_pair sid (\<lambda>p. p\<lparr>pr_send := send\<rparr>)) fl1"
    have put: "quic_inv {sid} log G (upd_pair sid (\<lambda>p. p\<lparr>pr_send := send\<rparr>) (fl_conn fl1))" for send
      using ok1 by (intro quic_inv_upd_pair [where X = "{sid}"]) (auto simp: fill_ok_def)
    have "fill_ok {sid} log G fl2" unfolding fl2_def
      by (rule send_turn_ok [OF ok1 subset_refl]) (simp_all add: put)
    then have inv2: "quic_inv {sid} log G (fl_conn fl2)" "q_one_rtt_local (fl_conn fl2) \<noteq> None"
      by (simp_all add: fill_ok_def)
    show ?thesis
      using Some pair inv2 queue_send_keeps [OF inv2(1), of sid "{}"] quic_inv_settled [OF inv2(1)]
      by (auto simp: queue_turn_def Let_def fl1_def [symmetric] fl2_def [symmetric] fill_ok_def)
  qed
qed

lemma queue_loop_ok: "fill_ok {} log G fl \<Longrightarrow> fill_ok {} log G (queue_loop budget turns fl)"
  by (induction turns arbitrary: fl) (auto simp: Let_def queue_turn_ok split: list.splits)

lemma fill_data_payload_ok: "fill_ok {} log G fl \<Longrightarrow> fill_ok {} log G (fill_data_payload budget congested fl)"
  by (simp add: fill_data_payload_def Let_def fill_max_data_ok credit_loop_ok retire_loop_ok reset_loop_ok uni_loop_ok
      queue_loop_ok)

lemma fill_ack_conn:
  assumes "fill_ack sp now budget fl = Inr (a, fl')"
  shows "quic_inv X log G (fl_conn fl') = quic_inv X log G (fl_conn fl)"
    and "q_one_rtt_local (fl_conn fl') = q_one_rtt_local (fl_conn fl)"
  using assms by (auto simp: fill_ack_def Let_def upd_space_def on_conn_def split: if_splits option.splits)

lemma fill_path_response_conn:
  "quic_inv X log G (fl_conn (fill_path_response sp budget fl)) = quic_inv X log G (fl_conn fl)"
  "q_one_rtt_local (fl_conn (fill_path_response sp budget fl)) = q_one_rtt_local (fl_conn fl)"
  by (auto simp: fill_path_response_def Let_def on_conn_def split: option.splits)

lemma ping_conn [simp]: "fl_conn (ping_if_quiet fl) = fl_conn fl"
  by (simp add: ping_if_quiet_def)

lemma fill_probe_conn:
  "quic_inv X log G (fl_conn (fill_probe sp budget fl)) = quic_inv X log G (fl_conn fl)"
  "quic_inv X log G (fl_conn (fill_keepalive sp budget fl)) = quic_inv X log G (fl_conn fl)"
  by (simp_all add: fill_probe_def fill_keepalive_def)

lemma fill_probe_keyed:
  "q_one_rtt_local (fl_conn (fill_probe sp budget fl)) = q_one_rtt_local (fl_conn fl)"
  "q_one_rtt_local (fl_conn (fill_keepalive sp budget fl)) = q_one_rtt_local (fl_conn fl)"
  by (simp_all add: fill_probe_def fill_keepalive_def)

lemma fill_payload_keeps:
  assumes inv: "quic_inv {} log G c" and keys: "local_keys sp c \<noteq> None"
    and fill: "fill_payload sp now budget congested c = Inr (a, fl)"
  shows "quic_inv {} log G (fl_conn fl) \<and> (sp = Data \<longrightarrow> q_one_rtt_local (fl_conn fl) \<noteq> None)"
proof -
  obtain fl1 where ack: "fill_ack sp now budget \<lparr>fl_out = [], fl_frames = [], fl_eliciting = False, fl_conn = c\<rparr> = Inr (a, fl1)"
    using fill by (auto simp: fill_payload_def Let_def split: option.splits)
  define fl2 where "fl2 = fill_path_response sp budget fl1"
  have inv2: "quic_inv {} log G (fl_conn fl2)" "q_one_rtt_local (fl_conn fl2) = q_one_rtt_local c"
    using inv fill_ack_conn [OF ack] by (simp_all add: fl2_def fill_path_response_conn)
  define fl3 where "fl3 = crypto_loop budget sp fl2"
  define fl4 where "fl4 = (if sp = Data then fill_data_payload budget congested fl3 else fl3)"
  have inv3: "quic_inv {} log G (fl_conn fl3)" "q_one_rtt_local (fl_conn fl3) = q_one_rtt_local c"
    using inv2 by (simp_all add: fl3_def crypto_loop_conn)
  have "quic_inv {} log G (fl_conn fl4) \<and> (sp = Data \<longrightarrow> q_one_rtt_local (fl_conn fl4) \<noteq> None)"
  proof (cases "sp = Data")
    case True
    then have "fill_ok {} log G fl3" using inv3 keys by (simp add: fill_ok_def local_keys_def)
    then show ?thesis using fill_data_payload_ok [of log G fl3] True by (simp add: fl4_def fill_ok_def)
  qed (simp add: fl4_def inv3)
  moreover have "sp = Data \<longrightarrow> q_one_rtt_local (fl_conn fl2) \<noteq> None" using inv2 keys by (auto simp: local_keys_def)
  ultimately show ?thesis using fill inv2(1)
    unfolding fill_payload_def ack rbind_simps Let_def prod.case fl2_def [symmetric] fl3_def [symmetric] fl4_def [symmetric]
    by (auto simp: fill_probe_conn fill_probe_keyed on_conn_def split: option.splits)
qed

lemma note_sent_keeps [simp]: "quic_inv X log G (note_sent now c) = quic_inv X log G c"
  by (simp add: note_sent_def arm_idle_def Let_def)

lemma write_packet_keeps:
  assumes inv: "quic_inv {} log G c" and keys: "local_keys sp c \<noteq> None"
    and wrote: "write_packet sp now used congested pad c = Inr (r, c')"
  shows "quic_inv {} log G c'"
proof (cases "MAX_DATAGRAM - used < 64")
  case True
  then show ?thesis using wrote inv by (simp add: write_packet_def)
next
  case False
  obtain head pn_offset pn_len where h: "packet_header sp c = (head, pn_offset, pn_len)" by (metis prod_cases3)
  obtain a fl where fill: "fill_payload sp now ((case pad of Some t \<Rightarrow> t | None \<Rightarrow> MAX_DATAGRAM) - (used + length head + TAG_LEN))
      congested c = Inr (a, fl)"
    using wrote False h by (auto simp: write_packet_def Let_def)
  have "quic_inv {} log G (fl_conn fl)" using fill_payload_keeps [OF inv keys fill] by simp
  then show ?thesis using wrote False h fill
    by (auto simp: write_packet_def Let_def record_sent_def split: if_splits option.splits sum.splits)
qed

lemma transmit_loop_keeps:
  "quic_inv {} log G c \<Longrightarrow> transmit_loop sps now congested pad out c = Inr (out', c') \<Longrightarrow> quic_inv {} log G c'"
proof (induction sps arbitrary: out c)
  case (Cons sp sps)
  show ?case
  proof (cases "length out \<ge> MAX_DATAGRAM \<or> local_keys sp c = None")
    case True
    then show ?thesis using Cons by (auto split: if_splits)
  next
    case False
    define pd where "pd = (if sp = Initial \<and> \<not> q_handshake_done c then Some MIN_INITIAL_DATAGRAM else pad)"
    obtain packet c1 where w: "write_packet sp now (length out) congested pd c = Inr (packet, c1)"
      using Cons.prems(2) False by (auto simp: Let_def pd_def [symmetric] simp del: not_None_eq)
    have inv1: "quic_inv {} log G c1" using write_packet_keeps [OF Cons.prems(1) _ w] False by simp
    define c2 where "c2 = (if sp = Handshake \<and> sc_keys (q_spaces c1 Initial) \<noteq> None then discard_space Initial c1 else c1)"
    have "quic_inv {} log G c2" using inv1 by (simp add: c2_def)
    then show ?thesis using Cons.prems(2) Cons.IH False w inv1
      by (auto simp: Let_def pd_def [symmetric] c2_def [symmetric] simp del: not_None_eq split: option.splits if_splits)
  qed
qed auto

lemma poll_transmit_keeps:
  assumes law: "tls_law G api" and inv: "quic_inv {} log G c" and poll: "poll_transmit api now pad c = Inr (out, c')"
  shows "quic_inv {} log G c'"
proof (cases "q_closed c \<noteq> None \<and> q_close_pending c = None")
  case True
  then show ?thesis using poll inv by (simp add: poll_transmit_def)
next
  case False
  obtain c1 where pump: "pump_tls api c = Inr c1" using poll False by (auto simp: poll_transmit_def)
  then have "quic_inv {} log G c1" using pump_tls_keeps [OF law inv] by simp
  then show ?thesis using poll False pump
    by (auto simp: poll_transmit_def Let_def arm_idle_def dest: transmit_loop_keeps split: if_splits)
qed

end
