(* ===== verification/Quic_Run.thy ===== *)
theory Quic_Run
  imports Quic_Inv
begin

text \<open>
  Runs of a QUIC connection: any sequence of the operations the HTTP/3 worker calls. What holds of every run follows
  from the invariant of \<open>Quic_Inv\<close>, and from what is owed in ACKs.
\<close>

section \<open>The packet number spaces under the send side\<close>

lemma upd_send_spaces [simp]: "q_spaces (upd_send sid f c) = q_spaces c"
  by (simp add: upd_send_def split: option.splits)

lemma upd_recv_spaces [simp]: "q_spaces (upd_recv sid f c) = q_spaces c"
  by (simp add: upd_recv_def split: option.splits)

lemma queue_send_spaces [simp]: "q_spaces (queue_send sid c) = q_spaces c"
  by (simp add: queue_send_def split: option.splits)

lemma settle_spaces [simp]: "q_spaces (quic_settle sid c) = q_spaces c"
  by (simp add: quic_settle_def trim_streams_def Let_def split: option.splits)

lemma queue_credit_spaces [simp]: "q_spaces (queue_credit sid c) = q_spaces c"
  by (simp add: queue_credit_def)

lemma push_event_spaces [simp]: "q_spaces (push_event e c) = q_spaces c"
  by (simp add: push_event_def)

lemma lose_spaces [simp]: "q_spaces (quic_lose w c) = q_spaces c" "q_spaces (close_transport code w c) = q_spaces c"
  by (simp_all add: quic_lose_def close_transport_def)

section \<open>What is owed in ACKs\<close>

text \<open>
  An ACK that is owed has something to acknowledge, in every space but possibly \<open>but\<close>. Below, a space's part is what
  concerns its ACKs and keys.
\<close>

definition owed_ok :: "ack_state \<Rightarrow> bool" where
  "owed_ok a \<longleftrightarrow> ack_ok a \<and> (ack_eliciting_pending a \<longrightarrow> ack_ranges a \<noteq> [])"

definition acks_ok :: "space option \<Rightarrow> ('t, 's) quic \<Rightarrow> bool" where
  "acks_ok but c \<longleftrightarrow> (\<forall>sp. ack_ok (sc_ack (q_spaces c sp)) \<and> (Some sp \<noteq> but \<longrightarrow> owed_ok (sc_ack (q_spaces c sp))))"

lemma acks_ok_weaken: "acks_ok None c \<Longrightarrow> acks_ok but c"
  by (simp add: acks_ok_def owed_ok_def)

lemma acks_ok_cong: "(\<And>sp. sc_ack (q_spaces c' sp) = sc_ack (q_spaces c sp)) \<Longrightarrow> acks_ok but c' = acks_ok but c"
  by (simp add: acks_ok_def)

lemma acks_ok_upd:
  "acks_ok but c \<Longrightarrow> ack_ok (sc_ack (f (q_spaces c sp))) \<Longrightarrow> Some sp \<noteq> but \<longrightarrow> owed_ok (sc_ack (f (q_spaces c sp)))
   \<Longrightarrow> acks_ok but (upd_space sp f c)"
  by (auto simp: acks_ok_def upd_space_def)

text \<open>
  What the receive side does to the ACK states and to the reason the connection is over. \<open>rx_ok sp c\<close> holds while a
  packet of space \<open>sp\<close> is being handled: the ACK of that space may be owed with nothing to acknowledge, until the
  packet itself is recorded.
\<close>

definition rx_ok :: "space option \<Rightarrow> ('t, 's) quic \<Rightarrow> bool" where
  "rx_ok but c \<longleftrightarrow> acks_ok but c \<and> q_closed c \<noteq> Some Closed_locally"

lemma rx_ok_cong:
  "(\<And>sp. sc_ack (q_spaces c' sp) = sc_ack (q_spaces c sp)) \<Longrightarrow> q_closed c' = q_closed c \<Longrightarrow> rx_ok but c' = rx_ok but c"
  by (simp add: rx_ok_def acks_ok_def)

lemma closed_same [simp]:
  "q_closed (upd_pair sid f c) = q_closed c" "q_closed (upd_send sid g c) = q_closed c"
  "q_closed (upd_recv sid h c) = q_closed c" "q_closed (queue_send sid c) = q_closed c"
  "q_closed (quic_settle sid c) = q_closed c" "q_closed (queue_credit sid c) = q_closed c"
  "q_closed (push_event e c) = q_closed c" "q_closed (upd_space sp k c) = q_closed c"
  "q_closed (discard_space sp c) = q_closed c" "q_closed (push_readable sid c) = q_closed c"
  by (simp_all add: upd_pair_def upd_send_def upd_recv_def queue_send_def quic_settle_def trim_streams_def Let_def
      queue_credit_def push_event_def upd_space_def discard_space_def push_readable_def split: option.splits)

lemma push_readable_spaces [simp]: "q_spaces (push_readable sid c) = q_spaces c"
  by (simp add: push_readable_def)

text \<open>The send side leaves both alone, apart from what is said of the spaces one by one.\<close>

lemma send_turn_spaces:
  "(\<And>send c. q_spaces (put send c) = q_spaces c) \<Longrightarrow> (\<And>send c. q_closed (put send c) = q_closed c)
   \<Longrightarrow> q_spaces (fl_conn (send_turn avail sid send put fl)) = q_spaces (fl_conn fl) \<and>
       q_closed (fl_conn (send_turn avail sid send put fl)) = q_closed (fl_conn fl)"
  by (simp add: send_turn_def Let_def split_def split: option.splits)

lemma fill_max_data_spaces: "q_spaces (fl_conn (fill_max_data budget fl)) = q_spaces (fl_conn fl) \<and> q_closed (fl_conn (fill_max_data budget fl)) = q_closed (fl_conn fl)"
  by (simp add: fill_max_data_def Let_def)

lemma grant_credit_spaces: "q_spaces (fl_conn (grant_credit sid fl)) = q_spaces (fl_conn fl) \<and> q_closed (fl_conn (grant_credit sid fl)) = q_closed (fl_conn fl)"
  by (simp add: grant_credit_def Let_def split_def split: option.splits)

lemma credit_loop_spaces: "q_spaces (fl_conn (credit_loop budget n fl)) = q_spaces (fl_conn fl) \<and> q_closed (fl_conn (credit_loop budget n fl)) = q_closed (fl_conn fl)"
  by (induction n arbitrary: fl) (simp_all add: Let_def grant_credit_spaces)

lemma retire_loop_spaces: "q_spaces (fl_conn (retire_loop budget n fl)) = q_spaces (fl_conn fl) \<and> q_closed (fl_conn (retire_loop budget n fl)) = q_closed (fl_conn fl)"
  by (induction n arbitrary: fl) (simp_all add: Let_def)

lemma reset_loop_spaces: "q_spaces (fl_conn (reset_loop budget n fl)) = q_spaces (fl_conn fl) \<and> q_closed (fl_conn (reset_loop budget n fl)) = q_closed (fl_conn fl)"
  by (induction n arbitrary: fl) (simp_all add: Let_def split_def)

lemma uni_loop_spaces: "q_spaces (fl_conn (uni_loop budget is fl)) = q_spaces (fl_conn fl) \<and> q_closed (fl_conn (uni_loop budget is fl)) = q_closed (fl_conn fl)"
  by (induction "is" arbitrary: fl) (simp_all add: Let_def split_def send_turn_spaces)

lemma queue_turn_spaces: "q_spaces (fl_conn (queue_turn avail sid fl)) = q_spaces (fl_conn fl) \<and> q_closed (fl_conn (queue_turn avail sid fl)) = q_closed (fl_conn fl)"
  by (simp add: queue_turn_def Let_def send_turn_spaces split: option.splits)

lemma queue_loop_spaces: "q_spaces (fl_conn (queue_loop budget turns fl)) = q_spaces (fl_conn fl) \<and> q_closed (fl_conn (queue_loop budget turns fl)) = q_closed (fl_conn fl)"
  by (induction turns arbitrary: fl) (simp_all add: Let_def queue_turn_spaces split: list.splits)

lemma fill_data_payload_spaces: "q_spaces (fl_conn (fill_data_payload budget congested fl)) = q_spaces (fl_conn fl) \<and> q_closed (fl_conn (fill_data_payload budget congested fl)) = q_closed (fl_conn fl)"
  by (simp add: fill_data_payload_def Let_def fill_max_data_spaces credit_loop_spaces retire_loop_spaces reset_loop_spaces
      uni_loop_spaces queue_loop_spaces)

lemma rx_lose: "rx_ok but c \<Longrightarrow> w \<noteq> Closed_locally \<Longrightarrow> rx_ok but (quic_lose w c)"
  by (simp add: rx_ok_def quic_lose_def acks_ok_def push_event_def)

lemma rx_close_transport: "rx_ok but c \<Longrightarrow> w \<noteq> Closed_locally \<Longrightarrow> rx_ok but (close_transport code w c)"
  by (simp add: close_transport_def rx_lose rx_ok_def acks_ok_def quic_lose_def)

text \<open>The state after a fallible step, whether it failed or not.\<close>

definition outcome :: "('t, 's, ('t, 's) quic) quic_result \<Rightarrow> ('t, 's) quic" where
  "outcome r = (case r of Inl (e, c) \<Rightarrow> c | Inr c \<Rightarrow> c)"

lemma outcome_simps [simp]: "outcome (Inl (e, c)) = c" "outcome (Inr c) = c"
  by (simp_all add: outcome_def)

lemma on_stream_same: "q_spaces (outcome (on_stream sid offset data fin c)) = q_spaces c"
  "q_closed (outcome (on_stream sid offset data fin c)) = q_closed c"
  by (auto simp: on_stream_def on_request_data_def on_peer_uni_data_def Let_def split: option.splits sum.splits)

lemma on_reset_same: "q_spaces (outcome (on_reset sid error final_size c)) = q_spaces c"
  "q_closed (outcome (on_reset sid error final_size c)) = q_closed c"
  by (auto simp: on_reset_def on_request_reset_def on_peer_uni_reset_def Let_def split: option.splits sum.splits)

lemma cid_same [simp]:
  "q_spaces (retire_before prior c) = q_spaces c" "q_closed (retire_before prior c) = q_closed c"
  "q_spaces (move_cid c) = q_spaces c" "q_closed (move_cid c) = q_closed c"
  by (simp_all add: retire_before_def move_cid_def split: option.split)

lemma new_connection_id_same: "q_spaces (outcome (on_new_connection_id seq prior cid token c)) = q_spaces c"
  "q_closed (outcome (on_new_connection_id seq prior cid token c)) = q_closed c"
  by (simp_all add: on_new_connection_id_def Let_def split: option.split sum.split)

lemma take_peer_params_same: "q_spaces (outcome (take_peer_params api c)) = q_spaces c"
  "q_closed (outcome (take_peer_params api c)) = q_closed c"
  by (auto simp: take_peer_params_def Let_def split: option.splits sum.splits)

lemma one_rtt_ready_same: "q_spaces (one_rtt_ready api keys nxt c) = q_spaces c" "q_closed (one_rtt_ready api keys nxt c) = q_closed c"
  by (simp_all add: one_rtt_ready_def split: prod.splits)

definition same_rx :: "(space \<Rightarrow> ack_state) \<Rightarrow> why option \<Rightarrow> ('t, 's) quic \<Rightarrow> bool" where
  "same_rx acks closed c \<longleftrightarrow> (\<forall>sp. sc_ack (q_spaces c sp) = acks sp) \<and> q_closed c = closed"

lemma same_rx_cong:
  "(\<And>sp. sc_ack (q_spaces c' sp) = sc_ack (q_spaces c sp)) \<Longrightarrow> q_closed c' = q_closed c \<Longrightarrow> same_rx acks closed c' = same_rx acks closed c"
  by (simp add: same_rx_def)

lemma pump_loop_same: "same_rx acks closed (outcome (pump_loop n api c)) = same_rx acks closed c"
proof (induction n arbitrary: c)
  case (Suc n)
  obtain change produced tls where w: "tls_write_hs api (q_tls c) = (change, produced, tls)" by (metis prod_cases3)
  have cong: "same_rx acks closed (c'\<lparr>q_needs_send := b\<rparr>) = same_rx acks closed c'" for c' :: "('a, 'b) quic" and b by (rule same_rx_cong) simp_all
  have out: "same_rx acks closed (upd_space sp (\<lambda>s. s\<lparr>sc_crypto_out := sc_crypto_out s @ produced\<rparr>) (c\<lparr>q_tls := tls\<rparr>)) = same_rx acks closed c" for sp
    by (rule same_rx_cong) (simp_all add: upd_space_def)
  have keys: "same_rx acks closed (upd_space sp (\<lambda>s. s\<lparr>sc_keys := k\<rparr>) c') = same_rx acks closed c'" for sp k and c' :: "('a, 'b) quic"
    by (rule same_rx_cong) (simp_all add: upd_space_def)
  have ready: "same_rx acks closed (one_rtt_ready api ks nxt c') = same_rx acks closed c'" for ks nxt c'
    by (rule same_rx_cong) (simp_all add: one_rtt_ready_same)
  have params: "same_rx acks closed (outcome (take_peer_params api c')) = same_rx acks closed c'" for c'
    by (rule same_rx_cong) (simp_all add: take_peer_params_same)
  have bound: "same_rx acks closed (outcome (rbind (take_peer_params api c') (\<lambda>c. pump_loop n api ((one_rtt_ready api ks nxt c)\<lparr>q_needs_send := True\<rparr>))))
      = same_rx acks closed c'" for ks nxt c'
    using params [of c'] by (cases "take_peer_params api c'") (auto simp: Suc cong ready)
  have same: "same_rx acks closed (upd_space sp (\<lambda>s. s) (c\<lparr>q_tls := tls\<rparr>)) = same_rx acks closed c" for sp
    by (rule same_rx_cong) (simp_all add: upd_space_def)
  show ?case
    by (auto simp: w Let_def Suc cong out same keys bound split: option.splits key_change.splits)
qed simp

lemma pump_tls_same:
  "sc_ack (q_spaces (outcome (pump_tls api c)) sp) = sc_ack (q_spaces c sp)" "q_closed (outcome (pump_tls api c)) = q_closed c"
  using pump_loop_same [of "\<lambda>sp. sc_ack (q_spaces c sp)" "q_closed c" "Suc (tls_left api (q_tls c))" api c]
  unfolding pump_tls_def same_rx_def by simp_all

lemma pump_tls_rx: "rx_ok but (outcome (pump_tls api c)) = rx_ok but c"
  by (rule rx_ok_cong) (simp_all add: pump_tls_same)

lemma on_crypto_rx:
  assumes "rx_ok but c"
  shows "rx_ok but (outcome (on_crypto api sp offset data c))"
proof -
  have "rx_ok but (upd_space sp (\<lambda>s. s\<lparr>sc_crypto_in := ci\<rparr>) c)"
    "rx_ok but ((upd_space sp (\<lambda>s. s\<lparr>sc_crypto_in := ci\<rparr>) c)\<lparr>q_tls := tls\<rparr>)"
    "rx_ok but (upd_space sp (\<lambda>s. s\<lparr>sc_crypto_in := ci'\<rparr>) ((upd_space sp (\<lambda>s. s\<lparr>sc_crypto_in := ci\<rparr>) c)\<lparr>q_tls := tls\<rparr>))" for ci ci' tls
    using assms by (simp_all add: rx_ok_def acks_ok_def upd_space_def)
  then show ?thesis using assms
    by (auto simp: on_crypto_def Let_def split_def pump_tls_rx rx_close_transport split: sum.splits)
qed

lemma on_frame_acked_same: "q_spaces (on_frame_acked f c) = q_spaces c" "q_closed (on_frame_acked f c) = q_closed c"
  by (cases f; simp)+

lemma on_frame_lost_same:
  "sc_ack (q_spaces (on_frame_lost sp f c) sp') = sc_ack (q_spaces c sp')" "q_closed (on_frame_lost sp f c) = q_closed c"
  by (cases f; simp add: upd_space_def)+

lemma on_packet_acked_rx:
  assumes "rx_ok (Some sp) c"
  shows "rx_ok (Some sp) (on_packet_acked sp p c)"
proof -
  have "rx_ok (Some sp) (case sp_ack_largest p of
                 None \<Rightarrow> c
               | Some largest \<Rightarrow> upd_space sp (\<lambda>s. s\<lparr>sc_ack := ack_trim_below largest (sc_ack s)\<rparr>) c)"
    using assms by (auto simp: rx_ok_def split: option.splits intro!: acks_ok_upd intro: ack_ok_trim) (simp add: acks_ok_def ack_ok_trim)
  moreover have "rx_ok (Some sp) (on_frame_acked f c') = rx_ok (Some sp) c'" for f and c' :: "('a, 'b) quic"
    by (rule rx_ok_cong) (simp_all add: on_frame_acked_same)
  ultimately show ?thesis unfolding on_packet_acked_def Let_def
    by (intro fold_keeps [where I = "rx_ok (Some sp)"]) simp_all
qed

lemma on_lost_packets_same:
  "sc_ack (q_spaces (on_lost_packets sp lost now c) sp') = sc_ack (q_spaces c sp') \<and> q_closed (on_lost_packets sp lost now c) = q_closed c"
proof -
  let ?same = "\<lambda>c' :: ('a, 'b) quic. sc_ack (q_spaces c' sp') = sc_ack (q_spaces c sp') \<and> q_closed c' = q_closed c"
  have "?same (on_packet_lost sp now p c')" if "?same c'" for p c'
    unfolding on_packet_lost_def by (rule fold_keeps [where I = ?same]) (use that in \<open>simp_all add: on_frame_lost_same\<close>)
  then have "?same (fold (on_packet_lost sp now) lost c)" by (intro fold_keeps [where I = ?same]) simp_all
  then show ?thesis by (simp add: on_lost_packets_def Let_def split: option.splits)
qed

lemma detect_space_same:
  "sc_ack (q_spaces (snd (detect_space now sp c)) sp') = sc_ack (q_spaces c sp')" "q_closed (snd (detect_space now sp c)) = q_closed c"
  by (simp_all add: detect_space_def Let_def split_def upd_space_def on_lost_packets_same)

lemma detect_space_rx: "rx_ok but (snd (detect_space now sp c)) = rx_ok but c"
  by (rule rx_ok_cong) (simp_all add: detect_space_same)

lemma on_ack_rx:
  assumes "rx_ok (Some sp) c"
  shows "rx_ok (Some sp) (on_ack sp largest delay first ranges now c)"
proof -
  let ?I = "rx_ok (Some sp) :: ('a, 'b) quic \<Rightarrow> bool"
  have same: "?I (upd_space sp (\<lambda>s. s\<lparr>sc_sent := x\<rparr>) c') = ?I c'" "?I (if d then c'\<lparr>q_handshake_acked := b\<rparr> else c') = ?I c'"
    "?I (take_rtt_sample largest delay now acked c') = ?I c'" "?I (c'\<lparr>q_congestion := g\<rparr>) = ?I c'" "?I (c'\<lparr>q_needs_send := b\<rparr>) = ?I c'"
    for x b d acked g c'
    by (rule rx_ok_cong; simp add: upd_space_def take_rtt_sample_def Let_def split: option.splits)+
  have "?I (fold (on_packet_acked sp) ps c')" if "?I c'" for ps c'
    by (rule fold_keeps [where I = ?I]) (auto simp: on_packet_acked_rx that)
  then show ?thesis using assms by (simp add: on_ack_def Let_def split_def same detect_space_rx)
qed

lemma handle_frame_rx:
  assumes "rx_ok (Some sp) c"
  shows "rx_ok (Some sp) (outcome (handle_frame api sp now f c))"
proof -
  have cong: "rx_ok (Some sp) c'" if "\<And>s. sc_ack (q_spaces c' s) = sc_ack (q_spaces c s)" "q_closed c' = q_closed c" for c' :: "('a, 'b) quic"
    using assms rx_ok_cong [OF that] by simp
  have discard: "rx_ok (Some sp) (on_handshake_done c)"
    using assms by (auto simp: on_handshake_done_def discard_space_def rx_ok_def acks_ok_def upd_space_def owed_ok_def
        ack_default_def ack_ok_def rng_ok_def)
  show ?thesis
    by (cases f)
      (auto simp: assms on_ack_rx on_crypto_rx discard on_stream_same on_reset_same new_connection_id_same
        on_stop_sending_def Let_def split_def on_max_stream_data_def on_path_challenge_def on_close_def rx_lose
        split: option.splits intro!: cong)
qed

lemma handle_frames_rx:
  "rx_ok (Some sp) c \<Longrightarrow>
   case handle_frames api sp now fs eliciting c of Inl (e, c') \<Rightarrow> rx_ok (Some sp) c' | Inr (_, c') \<Rightarrow> rx_ok (Some sp) c'"
proof (induction fs arbitrary: c eliciting)
  case (Cons r fs)
  show ?case
  proof (cases r)
    case (Inl e)
    then show ?thesis using Cons.prems by simp
  next
    case (Inr f)
    then show ?thesis using handle_frame_rx [OF Cons.prems, of api now f] Cons.IH
      by (cases "handle_frame api sp now f c") auto
  qed
qed simp

lemma accept_packet_rx:
  assumes "rx_ok None c"
  shows "case accept_packet api now sp scid pn plain c of
     Inl (e, c') \<Rightarrow> q_closed c' \<noteq> Some Closed_locally | Inr c' \<Rightarrow> rx_ok None c'"
proof -
  let ?c = "upd_space sp (\<lambda>s. s\<lparr>sc_largest_received :=
    Some (case sc_largest_received s of Some prev \<Rightarrow> max prev pn | None \<Rightarrow> pn)\<rparr>) (adopt_scid sp scid c)"
  have adopt: "q_spaces (adopt_scid sp scid c) = q_spaces c" "q_closed (adopt_scid sp scid c) = q_closed c"
    by (simp_all add: adopt_scid_def Let_def split: option.splits)
  have "rx_ok None ?c = rx_ok None c" by (rule rx_ok_cong) (simp_all add: upd_space_def adopt)
  then have start: "rx_ok (Some sp) ?c" using assms acks_ok_weaken by (auto simp: rx_ok_def)
  have recorded: "rx_ok None ((if b then (upd_space sp (\<lambda>s. s\<lparr>sc_ack := ack_record pn e now (sc_ack s)\<rparr>) c')\<lparr>q_needs_send := True\<rparr>
      else upd_space sp (\<lambda>s. s\<lparr>sc_ack := ack_record pn e now (sc_ack s)\<rparr>) c')\<lparr>q_pto_count := 0, q_pto_probes := 0\<rparr>)"
    if "rx_ok (Some sp) c'" for b e and c' :: "('a, 'b) quic"
    using that by (auto simp: rx_ok_def acks_ok_def upd_space_def owed_ok_def ack_ok_record ack_record_nonempty)
  show ?thesis
    using handle_frames_rx [OF start, of api now "frames plain" False]
    by (cases "handle_frames api sp now (frames plain) False ?c") (auto simp: accept_packet_def Let_def rx_ok_def dest: recorded)
qed

lemma handle_protected_rx:
  assumes "rx_ok None c"
  shows "case handle_protected api now sp scid pn_offset stop buf c of
     Inl (e, c') \<Rightarrow> q_closed c' \<noteq> Some Closed_locally | Inr (_, c') \<Rightarrow> rx_ok None c'"
proof -
  have received: "rx_ok None (upd_space sp (\<lambda>s. s\<lparr>sc_received := r\<rparr>) c)" for r
    using assms by (simp add: rx_ok_def acks_ok_def upd_space_def)
  have rotate: "rx_ok None (rotate_keys api pn phase c') = rx_ok None c'" for pn phase and c' :: "('a, 'b) quic"
    by (rule rx_ok_cong) (simp_all add: rotate_keys_def Let_def split: option.splits prod.splits)
  have accept: "case rbind (accept_packet api now sp scid pn plain c') (\<lambda>c. Inr ((stop, True), c)) of
      Inl (e, c') \<Rightarrow> q_closed c' \<noteq> Some Closed_locally | Inr (_, c') \<Rightarrow> rx_ok None c'"
    if "rx_ok None c'" for pn plain and c' :: "('a, 'b) quic"
    using accept_packet_rx [OF that, of api now sp scid pn plain] by (cases "accept_packet api now sp scid pn plain c'") auto
  show ?thesis
    unfolding handle_protected_def
    using assms received by (auto simp: Let_def split_def rotate accept split: option.splits)
qed

lemma handle_packet_rx:
  assumes "rx_ok None c"
  shows "case handle_packet api now buf c of
     Inl (e, c') \<Rightarrow> q_closed c' \<noteq> Some Closed_locally | Inr (_, c') \<Rightarrow> rx_ok None c'"
proof -
  have "case rbind (on_retry api dcid scid token buf c) (\<lambda>c. Inr ((0, False), c)) of
      Inl (e, c') \<Rightarrow> q_closed c' \<noteq> Some Closed_locally | Inr (_, c') \<Rightarrow> rx_ok None c'" for dcid scid token
    using assms by (auto simp: on_retry_def Let_def rx_ok_def acks_ok_def upd_space_def split: option.splits)
  moreover have "rx_ok None (on_version_negotiation dcid scid versions c)" for dcid scid versions
    using assms by (simp add: on_version_negotiation_def rx_lose)
  ultimately show ?thesis
    using assms handle_protected_rx [OF assms] unfolding handle_packet_def
    by (cases "decode_header buf (cid_len (q_local_cid c))") (simp, simp del: rbind_simps split: incoming.split, blast)
qed

lemma close_transport_closed: "q_closed c \<noteq> Some Closed_locally \<Longrightarrow> w \<noteq> Closed_locally
  \<Longrightarrow> q_closed (close_transport code w c) \<noteq> None \<and> q_closed (close_transport code w c) \<noteq> Some Closed_locally"
  by (auto simp: close_transport_def quic_lose_def)

lemma datagram_loop_rx:
  "rx_ok None c \<Longrightarrow> datagram_loop api now buf processed c = Inr (p, c') \<Longrightarrow>
   if p = None then q_closed c' \<noteq> None \<and> q_closed c' \<noteq> Some Closed_locally else rx_ok None c'"
proof (induction api now buf processed c rule: datagram_loop.induct)
  case (1 api now buf processed c)
  note rx = handle_packet_rx [OF "1.prems"(1), of api now buf]
  show ?case
  proof (cases "buf = []")
    case True
    then show ?thesis using "1.prems" by (subst (asm) datagram_loop.simps) auto
  next
    case False
    show ?thesis
    proof (cases "handle_packet api now buf c")
      case (Inl r)
      then obtain e c1 where r: "r = (e, c1)" by fastforce
      then obtain x where e: "e = Recv_error x" and c': "p = None" "c' = close_transport (recv_error_code x) (Transport_error x) c1"
        using "1.prems"(2) Inl False by (subst (asm) datagram_loop.simps) (cases e; auto)
      then show ?thesis using rx Inl r close_transport_closed [of c1 "Transport_error x" "recv_error_code x"] by auto
    next
      case (Inr r)
      then obtain consumed ok c1 where r: "r = ((consumed, ok), c1)" by (metis prod.exhaust)
      then have "rx_ok None c1" using rx Inr by auto
      then show ?thesis using "1.prems"(2) [unfolded datagram_loop.simps [of api now buf processed c]] "1.IH" Inr r False
        by (auto split: if_splits)
    qed
  qed
qed

section \<open>Every operation keeps what is owed\<close>

definition open_ok :: "('t, 's) quic \<Rightarrow> bool" where
  "open_ok c \<longleftrightarrow> (q_closed c = None \<or> q_closed c = Some Closed_locally \<longrightarrow> acks_ok None c)"

lemma open_ok_cong:
  "(\<And>sp. sc_ack (q_spaces c' sp) = sc_ack (q_spaces c sp)) \<Longrightarrow> q_closed c' = q_closed c \<Longrightarrow> open_ok c' = open_ok c"
  by (simp add: open_ok_def acks_ok_def)

lemma handle_datagram_open:
  assumes c: "open_ok c" and result: "handle_datagram api now datagram c = Inr c'"
  shows "open_ok c'"
proof (cases "q_closed c")
  case None
  then have "rx_ok None c" using c by (simp add: open_ok_def rx_ok_def)
  note loop = datagram_loop_rx [OF this, of api now datagram False]
  obtain p c1 where d: "datagram_loop api now datagram False c = Inr (p, c1)"
    using result None by (auto simp: handle_datagram_def)
  show ?thesis using loop [OF d] result None d
    by (auto simp: handle_datagram_def note_received_def arm_idle_def Let_def open_ok_def rx_ok_def acks_ok_def quic_lose_def
        push_event_def split: option.splits bool.splits if_splits)
qed (use assms in \<open>auto simp: handle_datagram_def\<close>)

lemma handle_timeout_open:
  assumes "open_ok c"
  shows "open_ok (handle_timeout now c)"
proof -
  have "open_ok (snd (detect_space now sp c'))" if "open_ok c'" for sp and c' :: "('a, 'b) quic"
    using that open_ok_cong [of "snd (detect_space now sp c')" c'] by (simp add: detect_space_same)
  then have "open_ok (fold (\<lambda>sp c. snd (detect_space now sp c)) space_ALL c)"
    by (intro fold_keeps [where I = open_ok]) (simp_all add: assms)
  then show ?thesis using assms
    by (auto simp: handle_timeout_def Let_def open_ok_def acks_ok_def quic_lose_def push_event_def upd_space_def
        split: option.splits)
qed

text \<open>Filling a payload fails only for an ACK that is owed with nothing to acknowledge.\<close>

definition fill_same :: "space \<Rightarrow> ('t, 's) quic \<Rightarrow> ('t, 's) quic \<Rightarrow> bool" where
  "fill_same sp c c' \<longleftrightarrow>
     acks_ok None c' \<and> q_closed c' = q_closed c \<and> (\<forall>s. sc_keys (q_spaces c' s) = sc_keys (q_spaces c s))"

lemma fill_ack_total:
  assumes "acks_ok None (fl_conn fl)"
  shows "\<exists>a fl'. fill_ack sp now budget fl = Inr (a, fl') \<and> fill_same sp (fl_conn fl) (fl_conn fl')"
proof (cases "ack_eliciting_pending (sc_ack (q_spaces (fl_conn fl) sp)) \<and> room budget fl > 32")
  case True
  then have "ack_ranges (sc_ack (q_spaces (fl_conn fl) sp)) \<noteq> []"
    using assms by (auto simp: acks_ok_def owed_ok_def)
  then obtain bs where "put_ack (ack_ranges (sc_ack (q_spaces (fl_conn fl) sp)))
      (ack_delay now OWN_ACK_DELAY_EXPONENT (sc_ack (q_spaces (fl_conn fl) sp))) = Some bs"
    by (cases "ack_ranges (sc_ack (q_spaces (fl_conn fl) sp))") auto
  then show ?thesis using True assms
    by (auto simp: fill_ack_def Let_def fill_same_def on_conn_def acks_ok_def owed_ok_def upd_space_def ack_take_pending_def)
next
  case False
  then show ?thesis using assms by (auto simp: fill_ack_def Let_def fill_same_def)
qed

lemma crypto_loop_same: "acks_ok None (fl_conn fl) \<Longrightarrow> fill_same sp (fl_conn fl) (fl_conn (crypto_loop budget sp fl))"
proof (induction "length (sc_crypto_out (q_spaces (fl_conn fl) sp)) - sc_crypto_sent (q_spaces (fl_conn fl) sp)"
    arbitrary: fl rule: less_induct)
  case less
  show ?case
  proof (cases "room budget fl < 8 \<or> sc_crypto_sent (q_spaces (fl_conn fl) sp) \<ge> length (sc_crypto_out (q_spaces (fl_conn fl) sp))
      \<or> min (length (sc_crypto_out (q_spaces (fl_conn fl) sp)) - sc_crypto_sent (q_spaces (fl_conn fl) sp)) (room budget fl - 8) = 0")
    case True
    then show ?thesis using less.prems by (subst crypto_loop.simps) (auto simp: Let_def fill_same_def)
  next
    case False
    define fl' where "fl' = (let s = q_spaces (fl_conn fl) sp; len = min (length (sc_crypto_out s) - sc_crypto_sent s) (room budget fl - 8);
        data = take len (drop (sc_crypto_sent s) (sc_crypto_out s)) in
      on_conn (upd_space sp (\<lambda>s. s\<lparr>sc_crypto_sent := sc_crypto_sent s + len\<rparr>))
        (add_frame (put_crypto (sc_crypto_sent s) data) (SentCrypto (sc_crypto_sent s) len) fl))"
    have step: "crypto_loop budget sp fl = crypto_loop budget sp fl'"
      using False unfolding crypto_loop.simps [of budget sp fl] by (auto simp: Let_def fl'_def)
    have same: "fill_same sp (fl_conn fl) (fl_conn fl')"
      using less.prems by (simp add: fl'_def Let_def fill_same_def acks_ok_def upd_space_def)
    have "length (sc_crypto_out (q_spaces (fl_conn fl') sp)) - sc_crypto_sent (q_spaces (fl_conn fl') sp)
        < length (sc_crypto_out (q_spaces (fl_conn fl) sp)) - sc_crypto_sent (q_spaces (fl_conn fl) sp)"
      using False by (auto simp: fl'_def Let_def upd_space_def)
    then have "fill_same sp (fl_conn fl') (fl_conn (crypto_loop budget sp fl'))"
      by (rule less.hyps) (use same in \<open>simp add: fill_same_def\<close>)
    then show ?thesis using same unfolding step by (simp add: fill_same_def)
  qed
qed

lemma fill_payload_total:
  assumes acks: "acks_ok None c"
  shows "\<exists>a fl. fill_payload sp now budget congested c = Inr (a, fl) \<and> fill_same sp c (fl_conn fl)"
proof -
  let ?fl0 = "\<lparr>fl_out = [], fl_frames = [], fl_eliciting = False, fl_conn = c\<rparr>"
  obtain a fl1 where ack: "fill_ack sp now budget ?fl0 = Inr (a, fl1)" and same1: "fill_same sp c (fl_conn fl1)"
    using fill_ack_total [of ?fl0 sp now budget] acks by auto
  define fl2 where "fl2 = fill_path_response sp budget fl1"
  have same2: "fill_same sp c (fl_conn fl2)"
    using same1 by (auto simp: fl2_def fill_path_response_def Let_def on_conn_def fill_same_def acks_ok_def split: option.splits)
  define fl3 where "fl3 = crypto_loop budget sp fl2"
  have same3: "fill_same sp c (fl_conn fl3)"
    using same2 crypto_loop_same [of fl2 sp budget] by (simp add: fl3_def fill_same_def)
  define fl4 where "fl4 = (if sp = Data then fill_data_payload budget congested fl3 else fl3)"
  have same4: "fill_same sp c (fl_conn fl4)"
    using same3 by (simp add: fl4_def fill_same_def acks_ok_def fill_data_payload_spaces)
  have "fill_same sp c (fl_conn (fill_keepalive sp budget (fill_probe sp budget fl4)))"
    using same4 by (simp add: fill_keepalive_def fill_probe_def fill_same_def acks_ok_def)
  moreover have "fill_same sp c (fl_conn fl2 \<lparr>q_close_pending := None\<rparr>)"
    using same2 by (simp add: fill_same_def acks_ok_def)
  ultimately show ?thesis
    unfolding fill_payload_def ack rbind_simps Let_def prod.case fl2_def [symmetric] fl3_def [symmetric] fl4_def [symmetric]
    by (auto simp: on_conn_def split: option.split)
qed

definition no_panic :: "('t, 's, 'a) quic_result \<Rightarrow> bool" where
  "no_panic r \<longleftrightarrow> (\<forall>c. r \<noteq> Inl (Panic, c))"

lemma no_panic_simps [simp]: "no_panic (Inr x)" "no_panic (Inl (e, c)) \<longleftrightarrow> e \<noteq> Panic"
  by (simp_all add: no_panic_def)

lemma no_panic_rbind: "no_panic (rbind r f) \<longleftrightarrow> no_panic r \<and> (\<forall>x. r = Inr x \<longrightarrow> no_panic (f x))"
  by (cases r) (auto simp: no_panic_def)

lemma seal_packet_no_panic: "seal_packet sp keys pn head pn_offset pn_len payload \<noteq> Inl Panic"
  by (auto simp: seal_packet_def Let_def split: option.splits sum.splits)

lemma record_sent_same:
  "sc_ack (q_spaces (record_sent sp now pn a n fl) s) = sc_ack (q_spaces (fl_conn fl) s)"
  "q_closed (record_sent sp now pn a n fl) = q_closed (fl_conn fl)"
  by (auto simp: record_sent_def Let_def note_sent_def arm_idle_def upd_space_def)

lemma write_packet_total:
  assumes inv: "quic_inv {} log G c" and keys: "local_keys sp c \<noteq> None" and acks: "acks_ok None c"
  shows "no_panic (write_packet sp now used congested pad c)"
    and "write_packet sp now used congested pad c = Inr (r, c') \<Longrightarrow> acks_ok None c' \<and> q_closed c' = q_closed c"
proof -
  obtain head pn_offset pn_len where h: "packet_header sp c = (head, pn_offset, pn_len)" by (metis prod_cases3)
  define budget where "budget = (case pad of Some t \<Rightarrow> t | None \<Rightarrow> MAX_DATAGRAM) - (used + length head + TAG_LEN)"
  obtain a fl where fill: "fill_payload sp now budget congested c = Inr (a, fl)" and same: "fill_same sp c (fl_conn fl)"
    using fill_payload_total [OF acks] by blast
  have "local_keys sp (fl_conn fl) \<noteq> None"
  proof (cases "sp = Data")
    case True
    then show ?thesis using fill_payload_keeps [OF inv keys fill] by (simp add: local_keys_def)
  qed (use same keys in \<open>simp add: fill_same_def local_keys_def\<close>)
  then obtain ks where ks: "local_keys sp (fl_conn fl) = Some ks" by blast
  have rec: "acks_ok None (record_sent sp now pn a n fl)" "q_closed (record_sent sp now pn a n fl) = q_closed c" for pn n
    using same by (simp_all add: acks_ok_def record_sent_same fill_same_def)
  show "no_panic (write_packet sp now used congested pad c)"
    using seal_packet_no_panic
    by (auto simp: write_packet_def Let_def h fill budget_def [symmetric] ks split: sum.split)
  show "write_packet sp now used congested pad c = Inr (r, c') \<Longrightarrow> acks_ok None c' \<and> q_closed c' = q_closed c"
    using acks same rec
    by (auto simp: write_packet_def Let_def h fill budget_def [symmetric] ks fill_same_def split: sum.splits if_splits)
qed

lemma discard_space_acks: "acks_ok None c \<Longrightarrow> acks_ok None (discard_space sp c)"
  by (auto simp: discard_space_def acks_ok_def upd_space_def owed_ok_def ack_default_def ack_ok_def rng_ok_def)

lemma transmit_loop_total:
  "quic_inv {} log G c \<Longrightarrow> acks_ok None c \<Longrightarrow>
   no_panic (transmit_loop sps now congested pad out c) \<and>
   (\<forall>r c'. transmit_loop sps now congested pad out c = Inr (r, c') \<longrightarrow> acks_ok None c' \<and> q_closed c' = q_closed c)"
proof (induction sps arbitrary: out c)
  case (Cons sp sps)
  show ?case
  proof (cases "length out \<ge> MAX_DATAGRAM \<or> local_keys sp c = None")
    case True
    then show ?thesis using Cons by auto
  next
    case False
    define pd where "pd = (if sp = Initial \<and> \<not> q_handshake_done c then Some MIN_INITIAL_DATAGRAM else pad)"
    define w where "w = write_packet sp now (length out) congested pd c"
    have w: "no_panic w" "\<And>r c'. w = Inr (r, c') \<Longrightarrow> acks_ok None c' \<and> q_closed c' = q_closed c"
      using write_packet_total [OF Cons.prems(1) _ Cons.prems(2)] False unfolding w_def by blast+
    have inv: "quic_inv {} log G c'" if "w = Inr (r, c')" for r c'
      using write_packet_keeps [OF Cons.prems(1)] False that unfolding w_def by blast
    have step: "transmit_loop (sp # sps) now congested pad out c = rbind w (\<lambda>(packet, c).
          case packet of
            None \<Rightarrow> transmit_loop sps now congested pad out c
          | Some bs \<Rightarrow>
              let out = out @ bs;
                  c = (if sp = Handshake \<and> sc_keys (q_spaces c Initial) \<noteq> None then discard_space Initial c else c) in
              if pd \<noteq> None then Inr (out, c) else transmit_loop sps now congested pad out c)"
      using False by (simp add: Let_def pd_def [symmetric] w_def [symmetric] del: not_None_eq)
    show ?thesis
    proof (cases w)
      case (Inl e)
      then show ?thesis using w(1) unfolding step by (cases e) auto
    next
      case (Inr r)
      then obtain packet c1 where r: "w = Inr (packet, c1)" by (cases r) auto
      note facts = w(2) [OF r] inv [OF r]
      define c2 where "c2 = (if sp = Handshake \<and> sc_keys (q_spaces c1 Initial) \<noteq> None then discard_space Initial c1 else c1)"
      have c2: "quic_inv {} log G c2" "acks_ok None c2" "q_closed c2 = q_closed c"
        using facts by (simp_all add: c2_def discard_space_acks)
      show ?thesis
        using Cons.IH [of c1 out] Cons.IH [of c2 "out @ the packet"] facts c2
        unfolding step r rbind_simps prod.case Let_def c2_def [symmetric] by (cases packet) auto
    qed
  qed
qed simp

text \<open>The reason a connection is over does not change while a datagram is written.\<close>

lemma crypto_loop_closed: "q_closed (fl_conn (crypto_loop budget sp fl)) = q_closed (fl_conn fl)"
  by (induction budget sp fl rule: crypto_loop.induct; subst crypto_loop.simps; simp add: Let_def)

lemma fill_payload_closed:
  assumes fill: "fill_payload sp now budget congested c = Inr (a, fl)"
  shows "q_closed (fl_conn fl) = q_closed c"
proof -
  obtain fl1 where ack: "fill_ack sp now budget \<lparr>fl_out = [], fl_frames = [], fl_eliciting = False, fl_conn = c\<rparr> = Inr (a, fl1)"
    using fill by (auto simp: fill_payload_def Let_def split: option.splits)
  then have "q_closed (fl_conn fl1) = q_closed c"
    by (auto simp: fill_ack_def Let_def on_conn_def split: if_splits option.splits)
  then have path: "q_closed (fl_conn (fill_path_response sp budget fl1)) = q_closed c"
    by (simp add: fill_path_response_def Let_def on_conn_def split: option.split)
  show ?thesis using fill path unfolding fill_payload_def ack rbind_simps Let_def prod.case
    by (auto simp: on_conn_def fill_keepalive_def fill_probe_def crypto_loop_closed fill_data_payload_spaces split: option.splits if_splits)
qed

lemma write_packet_closed:
  "write_packet sp now used congested pad c = Inr (r, c') \<Longrightarrow> q_closed c' = q_closed c"
  by (auto simp: write_packet_def Let_def record_sent_same dest!: fill_payload_closed split: if_splits option.splits sum.splits prod.splits)

lemma transmit_loop_closed:
  "transmit_loop sps now congested pad out c = Inr (r, c') \<Longrightarrow> q_closed c' = q_closed c"
  by (induction sps arbitrary: out c)
    (auto simp: Let_def dest!: write_packet_closed split: if_splits option.splits)

lemma poll_transmit_open:
  assumes law: "tls_law G api" and inv: "quic_inv {} log G c" and c: "open_ok c"
  shows "q_closed c = None \<or> q_closed c = Some Closed_locally \<Longrightarrow> no_panic (poll_transmit api now pad c)"
    and "poll_transmit api now pad c = Inr (out, c') \<Longrightarrow> open_ok c'"
proof -
  have pump: "result_keeps (quic_inv {} log G) (pump_tls api c)" by (rule pump_tls_keeps [OF law inv])
  note same = pump_tls_same [of api c]
  show "no_panic (poll_transmit api now pad c)" if "q_closed c = None \<or> q_closed c = Some Closed_locally"
  proof (cases "pump_tls api c")
    case (Inl e)
    then show ?thesis using pump by (cases e) (simp add: poll_transmit_def)
  next
    case (Inr c1)
    then have "acks_ok None c1" "quic_inv {} log G c1" using same c that pump by (simp_all add: open_ok_def acks_ok_def)
    then show ?thesis using transmit_loop_total [of log G c1] Inr by (simp add: poll_transmit_def Let_def no_panic_rbind split_def)
  qed
  assume poll: "poll_transmit api now pad c = Inr (out, c')"
  show "open_ok c'"
  proof (cases "q_closed c \<noteq> None \<and> q_close_pending c = None")
    case True
    then show ?thesis using poll c by (simp add: poll_transmit_def)
  next
    case False
    then obtain c1 c2 congested where c1: "pump_tls api c = Inr c1"
      and c2: "transmit_loop space_ALL now congested pad [] c1 = Inr (out, c2)"
      and c': "c' = (if out \<noteq> [] \<and> q_idle_deadline c2 = None then arm_idle now c2 else c2)"
      using poll unfolding poll_transmit_def by (auto simp: Let_def)
    have closed: "q_closed c2 = q_closed c" using transmit_loop_closed [OF c2] same c1 by simp
    have "acks_ok None c2" if "q_closed c = None \<or> q_closed c = Some Closed_locally"
    proof -
      have "acks_ok None c1" "quic_inv {} log G c1" using same c that pump c1 by (simp_all add: open_ok_def acks_ok_def)
      then show ?thesis using transmit_loop_total [of log G c1] c2 by blast
    qed
    then show ?thesis using closed c' by (auto simp: open_ok_def acks_ok_def arm_idle_def Let_def)
  qed
qed

section \<open>Runs\<close>

text \<open>What the worker may call, in any order. The callback of \<open>consume\<close> is given by whether it accepts the bytes.\<close>

datatype quic_op =
    Op_open_bi | Op_open_uni | Op_oneshot bytes | Op_write nat bytes | Op_finish nat | Op_consume nat "bytes \<Rightarrow> bool"
  | Op_retire nat nat | Op_close nat bytes | Op_datagram nat bytes | Op_transmit nat "nat option" | Op_timeout nat | Op_poll

text \<open>A step works on the events taken so far and the connection. An error ends the run: the worker drops the connection.\<close>

fun quic_step ::
    "('t, 's) tls_api \<Rightarrow> quic_op \<Rightarrow> quic_event list \<times> ('t, 's) quic \<Rightarrow> ('t, 's, quic_event list \<times> ('t, 's) quic) quic_result" where
  "quic_step api Op_open_bi (log, c) = Inr (log, snd (open_bi c))"
| "quic_step api Op_open_uni (log, c) = Inr (log, snd (open_uni c))"
| "quic_step api (Op_oneshot data) (log, c) = Inr (log, snd (send_oneshot data c))"
| "quic_step api (Op_write sid data) (log, c) = Inr (log, snd (quic_write sid data c))"
| "quic_step api (Op_finish sid) (log, c) = Inr (log, quic_finish sid c)"
| "quic_step api (Op_consume sid f) (log, c) = Inr (log, snd (quic_consume sid (\<lambda>bs. if f bs then Inr () else Inl ()) c))"
| "quic_step api (Op_retire sid cancel) (log, c) = rbind (quic_retire sid cancel c) (\<lambda>c. Inr (log, c))"
| "quic_step api (Op_close code reason) (log, c) = Inr (log, quic_close code reason c)"
| "quic_step api (Op_datagram now bs) (log, c) = rbind (handle_datagram api now bs c) (\<lambda>c. Inr (log, c))"
| "quic_step api (Op_transmit now pad) (log, c) = rbind (poll_transmit api now pad c) (\<lambda>(_, c). Inr (log, c))"
| "quic_step api (Op_timeout now) (log, c) = Inr (log, handle_timeout now c)"
| "quic_step api Op_poll (log, c) =
     (case poll_event c of (None, c) \<Rightarrow> Inr (log, c) | (Some e, c) \<Rightarrow> Inr (log @ [e], c))"

fun quic_run ::
    "('t, 's) tls_api \<Rightarrow> quic_op list \<Rightarrow> quic_event list \<times> ('t, 's) quic \<Rightarrow> ('t, 's, quic_event list \<times> ('t, 's) quic) quic_result" where
  "quic_run api [] s = Inr s"
| "quic_run api (op # ops) s = rbind (quic_step api op s) (quic_run api ops)"

definition run_ok :: "('t \<Rightarrow> bool) option \<Rightarrow> quic_event list \<times> ('t, 's) quic \<Rightarrow> bool" where
  "run_ok G s \<longleftrightarrow> quic_inv {} (fst s) G (snd s) \<and> open_ok (snd s)"

lemma open_uni_keeps: "quic_inv X log G c \<Longrightarrow> quic_inv X log G (snd (open_uni c))"
  by (simp add: open_uni_def Let_def)

lemma open_same:
  "q_spaces (snd (open_bi c)) = q_spaces c" "q_closed (snd (open_bi c)) = q_closed c"
  "q_spaces (snd (open_uni c)) = q_spaces c" "q_closed (snd (open_uni c)) = q_closed c"
  "q_spaces (snd (send_oneshot data c)) = q_spaces c" "q_closed (snd (send_oneshot data c)) = q_closed c"
  "q_spaces (snd (quic_write sid data c)) = q_spaces c" "q_closed (snd (quic_write sid data c)) = q_closed c"
  "q_spaces (quic_finish sid c) = q_spaces c" "q_closed (quic_finish sid c) = q_closed c"
  "q_spaces (snd (quic_consume sid f c)) = q_spaces c" "q_closed (snd (quic_consume sid f c)) = q_closed c"
  by (simp_all add: open_bi_def open_uni_def send_oneshot_def quic_write_def quic_finish_def quic_consume_def Let_def split_def
      split: option.split sum.split)

lemma retire_same:
  "quic_retire sid cancel c = Inr c' \<Longrightarrow> q_spaces c' = q_spaces c \<and> q_closed c' = q_closed c"
  by (auto simp: quic_retire_def Let_def split_def split: option.splits if_splits)

lemma poll_event_ok: "run_ok G (log, c) \<Longrightarrow> quic_step api Op_poll (log, c) = Inr s \<Longrightarrow> run_ok G s"
proof (cases "q_events c")
  case (Cons e es)
  assume ok: "run_ok G (log, c)" and step: "quic_step api Op_poll (log, c) = Inr s"
  have "finished_ids (log @ [e]) @ finished_ids es = finished_ids (log @ q_events c)"
    using Cons by (simp add: finished_ids_Cons split: option.split)
  then show ?thesis using ok step Cons
    by (auto simp: poll_event_def run_ok_def quic_inv_def open_ok_def acks_ok_def)
qed (simp add: poll_event_def)

lemma quic_step_ok:
  assumes law: "tls_law G api" and ok: "run_ok G (log, c)" and step: "quic_step api op (log, c) = Inr s"
  shows "run_ok G s"
proof -
  have inv: "quic_inv {} log G c" and opened: "open_ok c" using ok by (simp_all add: run_ok_def)
  have same: "open_ok c'" if "q_spaces c' = q_spaces c" "q_closed c' = q_closed c" for c' :: "('a, 'b) quic"
    using opened that by (simp add: open_ok_def acks_ok_def)
  show ?thesis
  proof (cases op)
    case (Op_retire sid cancel)
    then show ?thesis using step retire_keeps [OF inv, of sid cancel] retire_same same by (fastforce simp: run_ok_def)
  next
    case (Op_datagram now bs)
    then show ?thesis
      using step handle_datagram_keeps [OF law inv, of now bs] handle_datagram_open [OF opened] by (auto simp: run_ok_def)
  next
    case (Op_transmit now pad)
    then show ?thesis using step poll_transmit_keeps [OF law inv] poll_transmit_open(2) [OF law inv opened]
      by (fastforce simp: run_ok_def)
  next
    case Op_poll
    then show ?thesis using step poll_event_ok [OF ok] by simp
  next
    case (Op_close code reason)
    then show ?thesis using step inv opened by (auto simp: run_ok_def quic_close_def open_ok_def acks_ok_def)
  next
    case Op_open_bi
    then show ?thesis using step open_bi_keeps [OF inv, of "fst (open_bi c)" "snd (open_bi c)"] same open_same(1,2) [of c]
      by (auto simp: run_ok_def)
  next
    case (Op_timeout now)
    then show ?thesis using step inv opened by (auto simp: run_ok_def handle_timeout_keeps handle_timeout_open)
  qed (use step inv in \<open>auto simp: run_ok_def open_same same open_uni_keeps send_oneshot_keeps write_keeps finish_keeps consume_keeps\<close>)
qed

lemma quic_run_ok: "tls_law G api \<Longrightarrow> run_ok G s \<Longrightarrow> quic_run api ops s = Inr s' \<Longrightarrow> run_ok G s'"
  by (induction ops arbitrary: s) (auto, metis quic_step_ok surj_pair)

lemma connect_ok: "quic_connect api start_tls e1 e2 i = Some c \<Longrightarrow> run_ok G ([], c)"
proof -
  assume c: "quic_connect api start_tls e1 e2 i = Some c"
  then have "sc_ack (q_spaces c sp) = ack_default" for sp
    by (auto simp: quic_connect_def Let_def space_default_def split: option.splits)
  moreover have "owed_ok ack_default" by (simp add: owed_ok_def ack_default_def ack_ok_def rng_ok_def)
  ultimately have "open_ok c" by (simp add: open_ok_def acks_ok_def owed_ok_def)
  then show ?thesis using connect_inv [OF c] by (simp add: run_ok_def)
qed

end
