(* ===== verification/Quic_Sample.thy ===== *)
theory Quic_Sample
  imports Quic_Run
begin

text \<open>
  A concrete connection for examples. TLS is a library that hands over the Handshake and the 1-RTT keys once it has read
  something; its keys mask nothing and append a tag of zeros. The server's first flight is an Initial packet with a
  CRYPTO frame, its answer a 1-RTT packet with a STREAM frame.
\<close>

named_theorems sample_eval \<open>what the examples are evaluated with\<close>

definition plain_key :: packet_key where
  "plain_key = \<lparr>pk_encrypt = (\<lambda>pn head body. Some (body, replicate 16 0)),
     pk_decrypt = (\<lambda>pn head body. if length body < 16 then None else Some (take (length body - 16) body))\<rparr>"

definition plain_dir :: directional_keys where
  "plain_dir = \<lparr>dk_encrypt_header = (\<lambda>sample first pn. Some (first, pn)),
     dk_decrypt_header = (\<lambda>sample first pn. Some (first, pn)), dk_packet = plain_key\<rparr>"

definition plain_keys :: keys where
  "plain_keys = \<lparr>k_local = plain_dir, k_remote = plain_dir\<rparr>"

definition sample_params :: bytes where
  "sample_params = [0, 8, 2, 2, 2, 2, 2, 2, 2, 2, 15, 4, 7, 7, 7, 7, 4, 1, 60, 6, 1, 60, 8, 1, 10, 9, 1, 3, 7, 1, 60]"

definition sample_api :: "(nat, unit) tls_api" where
  "sample_api =
     \<lparr>tls_write_hs = (\<lambda>t. if t = 1 then (Some (Change_handshake plain_keys), [], 2)
        else if t = 2 then (Some (Change_one_rtt plain_keys ()), [], 3) else (None, [], t)),
      tls_read_hs = (\<lambda>bs t. (True, max 1 t)), tls_alert = (\<lambda>t. None), tls_params = (\<lambda>t. Some sample_params),
      tls_next_keys = (\<lambda>s. (\<lparr>ks_local = plain_key, ks_remote = plain_key\<rparr>, s)),
      tls_initial_keys = (\<lambda>dcid. Some plain_keys), tls_retry_tag = (\<lambda>bs. None), tls_left = (\<lambda>t. 3 - t)\<rparr>"

definition sample_input :: local_params_input where
  "sample_input = \<lparr>in_initial_max_data = 100, in_initial_max_stream_data = 50, in_initial_max_streams_uni = 3,
     in_max_idle_timeout_ms = 1000, in_handshake_timeout_ms = 1000\<rparr>"

definition sample_conn :: "(nat, unit) quic" where
  "sample_conn = the (quic_connect sample_api (\<lambda>_. Some 0) [1, 1, 1, 1, 1, 1, 1, 1] [2, 2, 2, 2, 2, 2, 2, 2] sample_input)"

definition sample_initial :: bytes where
  "sample_initial = [0xc0, 0, 0, 0, 1, 8, 1, 1, 1, 1, 1, 1, 1, 1, 4, 7, 7, 7, 7, 0, 22, 0, 6, 0, 2, 9, 9] @ replicate 16 0"

definition sample_answer :: bytes where
  "sample_answer = [0x40, 1, 1, 1, 1, 1, 1, 1, 1, 0, 0x0b, 0, 2, 5, 6] @ replicate 16 0"

definition sample_ops :: "quic_op list" where
  "sample_ops = [Op_datagram 5 sample_initial, Op_oneshot [1, 2, 3], Op_datagram 9 sample_answer, Op_poll]"

lemma plain_simps [sample_eval]:
  "pk_decrypt plain_key pn head body = (if length body < 16 then None else Some (take (length body - 16) body))"
  "pk_encrypt plain_key pn head body = Some (body, replicate 16 0)"
  "dk_decrypt_header plain_dir = (\<lambda>sample first pn. Some (first, pn))"
  "dk_encrypt_header plain_dir = (\<lambda>sample first pn. Some (first, pn))"
  "dk_packet plain_dir = plain_key" "k_local plain_keys = plain_dir" "k_remote plain_keys = plain_dir"
  by (simp_all add: plain_key_def plain_dir_def plain_keys_def)

lemma sample_api_simps [sample_eval]:
  "tls_write_hs sample_api t = (if t = 1 then (Some (Change_handshake plain_keys), [], 2)
     else if t = 2 then (Some (Change_one_rtt plain_keys ()), [], 3) else (None, [], t))"
  "tls_read_hs sample_api bs t = (True, max 1 t)" "tls_params sample_api t = Some sample_params"
  "tls_next_keys sample_api x = (\<lparr>ks_local = plain_key, ks_remote = plain_key\<rparr>, x)"
  "tls_initial_keys sample_api dcid = Some plain_keys" "tls_left sample_api t = 3 - t"
  by (simp_all add: sample_api_def)

lemma pump_loop_numeral [sample_eval]:
  "pump_loop (numeral k) api c =
     (let sp = (if sc_keys (q_spaces c Handshake) \<noteq> None then Handshake else Initial);
          (change, produced, tls) = tls_write_hs api (q_tls c);
          c = upd_space sp (\<lambda>s. s\<lparr>sc_crypto_out := sc_crypto_out s @ produced\<rparr>) (c\<lparr>q_tls := tls\<rparr>) in
      case change of
        Some (Change_handshake keys) \<Rightarrow>
          pump_loop (pred_numeral k) api ((upd_space Handshake (\<lambda>s. s\<lparr>sc_keys := Some keys\<rparr>) c)\<lparr>q_needs_send := True\<rparr>)
      | Some (Change_one_rtt keys next) \<Rightarrow>
          rbind (take_peer_params api c) (\<lambda>c. pump_loop (pred_numeral k) api ((one_rtt_ready api keys next c)\<lparr>q_needs_send := True\<rparr>))
      | None \<Rightarrow> if produced = [] then Inr c else pump_loop (pred_numeral k) api (c\<lparr>q_needs_send := True\<rparr>))"
  unfolding numeral_eq_Suc [of k] pump_loop.simps ..

lemma replicate_numeral [sample_eval]: "replicate (numeral n) x = x # replicate (pred_numeral n) x"
  by (simp add: numeral_eq_Suc)

lemmas sample_defs [sample_eval] =
  sample_params_def sample_input_def sample_conn_def sample_initial_def sample_answer_def sample_ops_def
  Let_def checked_add_def checked_sub_def remove_at_def insert_at_def take_bit_nat_def drop_bit_eq_div push_bit_eq_mult
  map_filter_def
  MIN_INITIAL_DATAGRAM_def MAX_DATAGRAM_def TAG_LEN_def OWN_ACK_DELAY_EXPONENT_def generation_for_def
  space_default_def connect_params_def quic_connect_def upd_space_def discard_space_def quic_probing_def
  poll_event_def push_event_def quic_lose_def quic_close_def close_transport_def stream_index_def pair_of_def
  upd_pair_def upd_assoc.simps send_of_def upd_send_def recv_of_def upd_recv_def queue_send_def open_bi_def
  open_uni_def send_oneshot_def quic_write_def quic_finish_def queue_credit_def quic_consume_def push_readable_def
  trim_streams_def quic_settle_def retire_pair_def quic_retire_def check_peer_uni_def on_request_data_def
  on_peer_uni_data_def on_stream_def on_request_reset_def on_peer_uni_reset_def on_reset_def
  validate_server_params_def set_token.simps take_peer_params_def one_rtt_ready_def pump_loop.simps pump_tls_def
  rotate_keys_def local_keys_def remote_keys_def highest_space_def MILLI_def idle_timeout_def arm_idle_def
  note_received_def note_sent_def keepalive_deadline_def on_frame_acked.simps on_frame_lost.simps on_packet_acked_def
  on_packet_lost_def persistent_loop.simps on_lost_packets_def detect_space_def take_rtt_sample_def on_ack_def
  on_handshake_done_def min_by_seq.simps retire_before_def move_cid_def on_new_connection_id_def on_stop_sending_def
  on_max_stream_data_def on_path_challenge_def on_close_def on_crypto_def handle_frame.simps retry_tag_is_valid_def
  on_retry_def lists_version_1.simps on_version_negotiation_def handle_frames.simps adopt_scid_def accept_packet_def
  packet_generation_def generation_key_def open_packet_def handle_protected_def handle_packet_def token_matches_def
  is_stateless_reset_def stateless_reset_tail_def datagram_loop.simps handle_datagram_def earliest_def
  loss_deadline_def pto_fallback_def probe_due_def poll_timeout_def handle_timeout_def ack_default_def
  ACK_MAX_RANGES_def ack_insert_loop.simps ack_insert_def ack_record_def ack_delay_def ack_trim_below_def
  ack_take_pending_def received_default_def RECEIVED_MAX_RANGES_def received_insert_def MAX_CID_LEN_def cid_new_def
  cid_random_def cid_as_slice_def space_ALL_def encode_packet_number_def u64_not_def decode_packet_number_def
  SAMPLE_OFFSET_def SAMPLE_LEN_def replace_slice_def protect_header_def unprotect_header_def VERSION_1_def cid_at_def
  skip_token_def decode_protected_def decode_versioned_def decode_long_def decode_header_def put_varint_fixed4_def
  set_varint_fixed4_def long_header_put_def put_short_header_def ack_eliciting.simps frame_varint_def frame_take_def
  skip_ranges.simps skip_ecn_def ack_frame_def stream_frame_def read1_def read2_def read3_def read_bytes_def
  read_counted_def new_connection_id_frame_def close_frame_def rare_frame_def next_frame_def iter_next_def
  frames.simps ack_ranges_new_def ack_ranges_next_def ack_iter_left_def ack_ranges_items.simps put_ping_def
  put_crypto_def put_stream_def put_max_data_def put_max_stream_data_def put_max_streams_def put_reset_stream_def
  put_retire_connection_id_def put_path_response_def put_close_def put_transport_close_def put_ack_rest.simps
  put_ack.simps params_default_def param_int_def param_cid_def apply_param_def next_param_def params_loop.simps
  params_decode_def put_param_def local_params_encode_def recv_error_code.simps recv_new_def recv_default_def
  recv_size_known_def recv_wants_credit_def recv_grant_def recv_take_buf_def check_end_def drain_pending.simps
  push_with_credit_def recv_push_def recv_consume_def recv_is_finished_def recv_has_data_def recv_reset_def
  stream_dir_def is_client_initiated_def client_stream_id.simps send_new_def send_take_buf_def send_writable_def
  send_write_def send_finish_def send_set_limit_def send_has_pending_def next_send_def lost_sent.simps
  send_on_sent_def send_fully_sent_def send_is_settled_def send_on_reset_acked_def absorb_prefix.simps
  absorb_run.simps acknowledge_lost_loop.simps acknowledge_lost_def release_prefix_def remember_run_def
  send_on_acked_def lost_gaps.simps send_on_lost_def send_reset_def REORDER_THRESHOLD_def TIME_THRESHOLD_NUM_def
  TIME_THRESHOLD_DEN_def TIMER_GRANULARITY_def PERSISTENT_CONGESTION_THRESHOLD_def INITIAL_RTT_def sent_default_def
  sent_push_def any_ack_eliciting_def drain_loop.simps drain_acked_def detect_loop.simps detect_lost_def
  bytes_in_flight_def rtt_default_def rtt_update_def smoothed_or_initial_def rtt_pto_def
  persistent_congestion_duration_def rtt_loss_delay_def INITIAL_WINDOW_def MIN_WINDOW_def congestion_default_def
  in_recovery_def congestion_on_ack_def congestion_on_loss_def congestion_on_persistent_def can_send_def
  saturating_pow2_def pto_candidate_def pto_step_def latest_of_def pto_deadline_def put_varint_def get_varint_def

end
