(* ===== verification/Quic_Props.thy ===== *)
theory Quic_Props
  imports Quic_Sample
begin

text \<open>
  What holds of every run of a QUIC connection, with the example of \<open>Quic_Sample\<close> as the witness: a handshake, a
  request, its answer.
\<close>

lemma sample_connect:
  "quic_connect sample_api (\<lambda>_. Some 0) [1, 1, 1, 1, 1, 1, 1, 1] [2, 2, 2, 2, 2, 2, 2, 2] sample_input = Some sample_conn"
  by (simp add: sample_eval)

lemma sample_run:
  "\<exists>c p. quic_run sample_api sample_ops ([], sample_conn) = Inr ([Ev_connected], c) \<and>
     q_events c = [Ev_readable 0, Ev_finished 0 None] \<and> q_next_bidi c = 1 \<and> pair_of 0 c = Some p \<and> pr_finished p \<and>
     \<not> pr_retired p \<and> send_has_pending (pr_send p) \<and> q_closed c = None \<and> q_data_received c = 2 \<and> q_max_data_peer c = 60"
  by (simp add: sample_eval)

section \<open>What holds of every run\<close>

text \<open>
  C1. Over any run of a connection, however the worker's calls and the peer's datagrams interleave, no request stream is
  reported finished twice. Streams reported are streams that were opened. A stream that still waits for its answer has
  not been reported; one that has been answered and not given up on has. \<open>unanswered\<close> counts the streams that wait.
\<close>

theorem quic_finished_once:
  assumes "quic_connect api start_tls e1 e2 i = Some c0" "quic_run api ops ([], c0) = Inr (log, c)"
  defines "reported \<equiv> finished_ids (log @ q_events c)"
  shows "distinct reported \<and> (\<forall>sid \<in> set reported. sid mod 4 = 0 \<and> sid < 4 * q_next_bidi c) \<and>
    (\<forall>sid p. pair_of sid c = Some p \<longrightarrow>
       (\<not> pr_finished p \<longrightarrow> sid \<notin> set reported) \<and> (pr_finished p \<and> \<not> pr_retired p \<longrightarrow> sid \<in> set reported)) \<and>
    q_unanswered c = length (filter waiting (q_streams c))"
proof -
  have "run_ok None (log, c)"
    by (rule quic_run_ok [OF _ connect_ok [OF assms(1)] assms(2)]) (simp add: tls_law_def)
  then have inv: "quic_inv {} log None c" by (simp add: run_ok_def)
  have "distinct reported" "\<forall>sid \<in> set reported. sid mod 4 = 0 \<and> sid < 4 * q_next_bidi c"
    using quic_inv_ids(2) [OF inv] unfolding ids_below_def reported_def by blast+
  moreover have "q_unanswered c = length (filter waiting (q_streams c))"
    using inv by (simp add: quic_inv_def streams_inv_def waiting_count_def)
  moreover have "(\<not> pr_finished p \<longrightarrow> sid \<notin> set reported) \<and> (pr_finished p \<and> \<not> pr_retired p \<longrightarrow> sid \<in> set reported)"
    if "pair_of sid c = Some p" for sid p
    using quic_inv_slot [OF inv that] unfolding slot_ok_def reported_def [symmetric] by (auto split: if_splits)
  ultimately show ?thesis by blast
qed


theorem quic_finished_once_witness:
  "\<exists>c. quic_run sample_api sample_ops ([], sample_conn) = Inr ([Ev_connected], c) \<and>
     q_events c = [Ev_readable 0, Ev_finished 0 None] \<and> distinct (finished_ids ([Ev_connected] @ q_events c)) \<and>
     q_unanswered c = length (filter waiting (q_streams c))"
proof -
  obtain c p where "quic_run sample_api sample_ops ([], sample_conn) = Inr ([Ev_connected], c)"
    "q_events c = [Ev_readable 0, Ev_finished 0 None]" using sample_run by blast
  then show ?thesis using quic_finished_once [OF sample_connect] by blast
qed

text \<open>
  C21. Over any run, a request stream that has bytes or a fin to send is in the queue \<open>poll_transmit\<close> serves, so no data is
  left behind; the queue holds no stream twice, which keeps the turns fair, and only streams that were opened.
\<close>

theorem quic_pending_queued:
  assumes "quic_connect api start_tls e1 e2 i = Some c0" "quic_run api ops ([], c0) = Inr (log, c)"
  shows "(\<forall>sid p. pair_of sid c = Some p \<longrightarrow> send_has_pending (pr_send p) \<longrightarrow> sid \<in> set (q_send_queue c)) \<and>
    distinct (q_send_queue c) \<and> (\<forall>sid \<in> set (q_send_queue c). sid mod 4 = 0 \<and> sid < 4 * q_next_bidi c)"
proof -
  have "run_ok None (log, c)"
    by (rule quic_run_ok [OF _ connect_ok [OF assms(1)] assms(2)]) (simp add: tls_law_def)
  then have inv: "quic_inv {} log None c" by (simp add: run_ok_def)
  have "sid \<in> set (q_send_queue c)" if "pair_of sid c = Some p" "send_has_pending (pr_send p)" for sid p
    using quic_inv_slot [OF inv that(1)] that(2) by (auto simp: slot_ok_def)
  then show ?thesis using quic_inv_ids(1) [OF inv] by (simp add: ids_below_def)
qed

theorem quic_pending_queued_witness:
  "\<exists>c p. quic_run sample_api sample_ops ([], sample_conn) = Inr ([Ev_connected], c) \<and>
     pair_of 0 c = Some p \<and> send_has_pending (pr_send p) \<and> 0 \<in> set (q_send_queue c)"
proof -
  obtain c p where "quic_run sample_api sample_ops ([], sample_conn) = Inr ([Ev_connected], c)"
    "pair_of 0 c = Some p" "send_has_pending (pr_send p)" using sample_run by blast
  then show ?thesis using quic_pending_queued [OF sample_connect] by blast
qed


lemma sample_tls_once: "tls_once (\<lambda>t. 3 \<le> t) sample_api"
  by (auto simp: tls_once_def sample_api_simps sample_api_def split: if_splits)




end
