(* ===== verification/Quic_Wire.thy ===== *)
theory Quic_Wire
  imports Quic_Sample
begin

text \<open>
  What \<open>poll_transmit\<close> writes is what the receiving half reads. The header, the packet number, the AEAD and the header
  protection compose: a sealed packet decodes to its own space and opens to its own number and payload.
\<close>

section \<open>What the wire relies on\<close>

text \<open>
  The AEAD and the header protection are the TLS library's. What is relied on is RFC 9001: opening inverts sealing, the
  tag has sixteen bytes, the mask leaves the form, fixed and type bits of the first byte alone.
\<close>

definition aead_inverse :: "packet_key \<Rightarrow> packet_key \<Rightarrow> bool" where
  "aead_inverse k k' \<longleftrightarrow>
     (\<forall>pn head body sealed tag. pk_encrypt k pn head body = Some (sealed, tag) \<longrightarrow>
        length sealed = length body \<and> length tag = TAG_LEN \<and> pk_decrypt k' pn head (sealed @ tag) = Some body)"

definition hp_low :: "hp_mask \<Rightarrow> bool" where
  "hp_low encrypt \<longleftrightarrow>
     (\<forall>sample first pn first' pn'. encrypt sample first pn = Some (first', pn') \<longrightarrow>
        first' AND 0xe0 = first AND 0xe0 \<and> (first AND FORM_LONG \<noteq> 0 \<longrightarrow> first' AND 0xf0 = first AND 0xf0))"

definition keys_match :: "directional_keys \<Rightarrow> directional_keys \<Rightarrow> bool" where
  "keys_match k k' \<longleftrightarrow> aead_inverse (dk_packet k) (dk_packet k') \<and>
     hp_inverse (dk_encrypt_header k) (dk_decrypt_header k') \<and> hp_low (dk_encrypt_header k)"

section \<open>The header of a packet\<close>

definition sent_header :: "space \<Rightarrow> ('t, 's) quic \<Rightarrow> long_header" where
  "sent_header sp c = \<lparr>lh_space = sp, lh_dcid = q_peer_cid c, lh_scid = q_local_cid c,
     lh_token = (if sp = Initial then q_retry_token c else [])\<rparr>"

lemma pn_len_bits:
  assumes "1 \<le> pn_len" "pn_len \<le> 4" "kind = TYPE_INITIAL \<or> kind = TYPE_HANDSHAKE"
  shows "unat ((FORM_LONG OR FIXED_BIT OR kind OR (word_of_nat pn_len - 1)) AND 0x03) + 1 = pn_len"
    "unat ((FIXED_BIT OR (word_of_nat pn_len - 1)) AND (0x03 :: byte)) + 1 = pn_len"
    "unat ((FIXED_BIT OR (word_of_nat pn_len - 1) OR 0x04) AND (0x03 :: byte)) + 1 = pn_len"
proof -
  consider "pn_len = 1" | "pn_len = 2" | "pn_len = 3" | "pn_len = 4" using assms(1,2) by linarith
  then have "unat ((FORM_LONG OR FIXED_BIT OR kind OR (word_of_nat pn_len - 1)) AND 0x03) + 1 = pn_len \<and>
    unat ((FIXED_BIT OR (word_of_nat pn_len - 1)) AND (0x03 :: byte)) + 1 = pn_len \<and>
    unat ((FIXED_BIT OR (word_of_nat pn_len - 1) OR 0x04) AND (0x03 :: byte)) + 1 = pn_len"
    using assms(3) by cases (elim disjE; simp)+
  then show "unat ((FORM_LONG OR FIXED_BIT OR kind OR (word_of_nat pn_len - 1)) AND 0x03) + 1 = pn_len"
    "unat ((FIXED_BIT OR (word_of_nat pn_len - 1)) AND (0x03 :: byte)) + 1 = pn_len"
    "unat ((FIXED_BIT OR (word_of_nat pn_len - 1) OR 0x04) AND (0x03 :: byte)) + 1 = pn_len"
    by simp_all
qed

lemma short_bits:
  assumes "1 \<le> pn_len" "pn_len \<le> 4"
  shows "hd (put_short_header cid pn_len phase) AND FORM_LONG = 0"
    "hd (put_short_header cid pn_len phase) AND 0x04 \<noteq> 0 \<longleftrightarrow> phase"
proof -
  consider "pn_len = 1" | "pn_len = 2" | "pn_len = 3" | "pn_len = 4" using assms by linarith
  then have "hd (put_short_header cid pn_len phase) AND FORM_LONG = 0 \<and>
    (hd (put_short_header cid pn_len phase) AND 0x04 \<noteq> 0 \<longleftrightarrow> phase)"
    by cases (simp_all add: put_short_header_def Let_def)
  then show "hd (put_short_header cid pn_len phase) AND FORM_LONG = 0"
    "hd (put_short_header cid pn_len phase) AND 0x04 \<noteq> 0 \<longleftrightarrow> phase"
    by simp_all
qed

text \<open>The header once its length field is written over, as \<open>seal_packet\<close> does.\<close>

definition final_head :: "space \<Rightarrow> bytes \<Rightarrow> nat \<Rightarrow> nat \<Rightarrow> bytes" where
  "final_head sp head pn_offset len = (if sp = Data then head else set_varint_fixed4 head (pn_offset - 4) len)"

lemma long_header_put_fixed4:
  assumes "long_header_put h pn_len 0 = Some hdr"
  shows "\<exists>before. hdr = before @ put_varint_fixed4 0 \<and> long_header_put h pn_len len = Some (before @ put_varint_fixed4 len)"
  using assms by (auto simp: long_header_put_def split: option.splits)

lemma final_head_eq:
  assumes "packet_header sp c = (head, pn_offset, pn_len)"
  obtains hdr truncated where
    "encode_packet_number (sc_next_packet_number (q_spaces c sp)) (sp_largest_acked (sc_sent (q_spaces c sp))) = (truncated, pn_len)"
    "final_head sp head pn_offset len = hdr @ be_bytes pn_len truncated" "length hdr = pn_offset"
    "if sp = Data then hdr = put_short_header (q_peer_cid c) pn_len (q_key_phase c)
     else long_header_put (sent_header sp c) pn_len len = Some hdr"
proof -
  obtain truncated where enc: "encode_packet_number (sc_next_packet_number (q_spaces c sp))
      (sp_largest_acked (sc_sent (q_spaces c sp))) = (truncated, pn_len)"
    using assms by (auto simp: packet_header_def Let_def split: prod.splits)
  show thesis
  proof (cases "sp = Data")
    case True
    then have "head = put_short_header (q_peer_cid c) pn_len (q_key_phase c) @ be_bytes pn_len truncated"
      "pn_offset = length (put_short_header (q_peer_cid c) pn_len (q_key_phase c))"
      using assms enc by (auto simp: packet_header_def Let_def long_header_put_def)
    then show thesis using that [OF enc] True by (auto simp: final_head_def)
  next
    case False
    then obtain hdr where "long_header_put (sent_header sp c) pn_len 0 = Some hdr"
      by (cases sp) (auto simp: long_header_put_def sent_header_def)
    moreover from this obtain before where before: "hdr = before @ put_varint_fixed4 0"
      "long_header_put (sent_header sp c) pn_len len = Some (before @ put_varint_fixed4 len)"
      using long_header_put_fixed4 by blast
    ultimately have "head = before @ put_varint_fixed4 0 @ be_bytes pn_len truncated" "pn_offset = length before + 4"
      using assms enc by (auto simp: packet_header_def Let_def sent_header_def)
    then have "final_head sp head pn_offset len = (before @ put_varint_fixed4 len) @ be_bytes pn_len truncated"
      "length (before @ put_varint_fixed4 len) = pn_offset"
      using False by (auto simp: final_head_def set_varint_fixed4_def) (simp add: put_varint_fixed4_def)
    then show thesis using that [OF enc, of "before @ put_varint_fixed4 len"] before False by auto
  qed
qed

section \<open>The packet\<close>

lemma protect_shape:
  assumes hp: "hp_inverse encrypt decrypt" and prot: "protect_header encrypt (hdr @ pn @ body) (length hdr) (length pn) = Inr packet'"
    and hdr: "hdr \<noteq> []" "length pn = unat (hd hdr AND 0x03) + 1"
  obtains first pn' sample where "packet' = (first # tl hdr) @ pn' @ body" "length pn' = length pn"
    "encrypt sample (hd hdr) pn = Some (first, pn')"
proof -
  define sample where "sample = take SAMPLE_LEN (drop (length hdr + SAMPLE_OFFSET) (hdr @ pn @ body))"
  have long: "length hdr + SAMPLE_OFFSET + SAMPLE_LEN \<le> length (hdr @ pn @ body)"
    using prot by (auto simp: protect_header_def Let_def split: if_splits)
  then obtain first pn' where enc: "encrypt sample (hd hdr) pn = Some (first, pn')"
    and packet': "packet' = replace_slice (first # tl (hdr @ pn @ body)) (length hdr) pn'"
    using prot hdr(1) by (auto simp: protect_header_def Let_def sample_def split: option.splits)
  have "length sample = SAMPLE_LEN" using long by (simp add: sample_def)
  then have len: "length pn' = length pn" using hp_inverseD(1) [OF hp _ hdr(2) enc] by simp
  have "first # tl (hdr @ pn @ body) = (first # tl hdr) @ pn @ body" using hdr(1) by simp
  then have "packet' = (first # tl hdr) @ pn' @ body"
    unfolding packet' replace_slice_def using hdr(1) len by (cases hdr) simp_all
  then show thesis using that len enc by blast
qed

lemma header_ok:
  assumes "packet_header sp c = (head, pn_offset, pn_len)" "cid_ok (q_peer_cid c)" "cid_ok (q_local_cid c)"
    and hdr: "if sp = Data then hdr = put_short_header (q_peer_cid c) pn_len (q_key_phase c)
              else long_header_put (sent_header sp c) pn_len len = Some hdr"
    and enc: "encode_packet_number n la = (truncated, pn_len)"
  shows "hdr \<noteq> []" "pn_len = unat (hd hdr AND 0x03) + 1"
proof -
  note len = encode_packet_number_arith(1,2) [OF enc]
  have "hdr \<noteq> [] \<and> pn_len = unat (hd hdr AND 0x03) + 1"
  proof (cases "sp = Data")
    case True
    then show ?thesis using hdr pn_len_bits(2,3) [OF len, of TYPE_INITIAL]
      by (simp add: put_short_header_def Let_def or.assoc del: One_nat_def)
  next
    case False
    then have put: "long_header_put (sent_header sp c) pn_len len = Some hdr" using hdr by simp
    have ok: "cid_ok (lh_dcid (sent_header sp c))" "cid_ok (lh_scid (sent_header sp c))"
      using assms(2,3) by (simp_all add: sent_header_def)
    show ?thesis
    proof (rule long_header_bytes [OF ok put])
      fix kind
      assume kind: "kind = TYPE_INITIAL \<or> kind = TYPE_HANDSHAKE" and bytes: "hdr = (FORM_LONG OR FIXED_BIT OR kind OR (word_of_nat pn_len - 1)) #
         be_bytes 4 VERSION_1 @ [word_of_nat (length (cid_as_slice (lh_dcid (sent_header sp c))))] @ cid_as_slice (lh_dcid (sent_header sp c))
         @ [word_of_nat (length (cid_as_slice (lh_scid (sent_header sp c))))] @ cid_as_slice (lh_scid (sent_header sp c))
         @ token_field kind (lh_token (sent_header sp c)) @ put_varint_fixed4 len"
      show ?thesis unfolding bytes list.sel using pn_len_bits(1) [OF len kind] by simp
    qed
  qed
  then show "hdr \<noteq> []" "pn_len = unat (hd hdr AND 0x03) + 1" by simp_all
qed

text \<open>What a sealed packet is made of.\<close>

lemma seal_packet_shape:
  assumes seal: "seal_packet sp keys pn head pn_offset pn_len payload = Inr packet"
    and head: "packet_header sp c = (head, pn_offset, pn_len)" and cids: "cid_ok (q_peer_cid c)" "cid_ok (q_local_cid c)"
    and match: "keys_match keys keys'"
  obtains hdr truncated sealed first pn' sample where
    "encode_packet_number (sc_next_packet_number (q_spaces c sp)) (sp_largest_acked (sc_sent (q_spaces c sp))) = (truncated, pn_len)"
    "if sp = Data then hdr = put_short_header (q_peer_cid c) pn_len (q_key_phase c)
     else long_header_put (sent_header sp c) pn_len (length (pn' @ sealed)) = Some hdr"
    "length hdr = pn_offset" "hdr \<noteq> []" "pn_len = unat (hd hdr AND 0x03) + 1" "length pn' = pn_len"
    "pk_decrypt (dk_packet keys') pn (hdr @ be_bytes pn_len truncated) sealed = Some payload"
    "packet = (first # tl hdr) @ pn' @ sealed" "dk_encrypt_header keys sample (hd hdr) (be_bytes pn_len truncated) = Some (first, pn')"
    "unprotect_header (dk_decrypt_header keys') packet pn_offset
       = Inr (hdr @ be_bytes pn_len truncated @ sealed, hd hdr, pn_len)"
    "length payload + TAG_LEN = length sealed"
proof -
  let ?len = "pn_len + length payload + TAG_LEN"
  obtain hdr truncated where enc: "encode_packet_number (sc_next_packet_number (q_spaces c sp))
      (sp_largest_acked (sc_sent (q_spaces c sp))) = (truncated, pn_len)"
    and fin: "final_head sp head pn_offset ?len = hdr @ be_bytes pn_len truncated" and off: "length hdr = pn_offset"
    and hdr: "if sp = Data then hdr = put_short_header (q_peer_cid c) pn_len (q_key_phase c)
     else long_header_put (sent_header sp c) pn_len ?len = Some hdr"
    by (rule final_head_eq [OF head])
  note ok = header_ok [OF head cids hdr enc]
  obtain body tag where aead: "pk_encrypt (dk_packet keys) pn (hdr @ be_bytes pn_len truncated) payload = Some (body, tag)"
    and prot: "protect_header (dk_encrypt_header keys) ((hdr @ be_bytes pn_len truncated) @ body @ tag) pn_offset pn_len = Inr packet"
    using seal fin by (auto simp: seal_packet_def final_head_def Let_def split: option.splits sum.splits)
  have hp: "hp_inverse (dk_encrypt_header keys) (dk_decrypt_header keys')" using match by (simp add: keys_match_def)
  have open_aead: "pk_decrypt (dk_packet keys') pn (hdr @ be_bytes pn_len truncated) (body @ tag) = Some payload"
    "length (body @ tag) = length payload + TAG_LEN"
    using match aead by (auto simp: keys_match_def aead_inverse_def)
  obtain first pn' sample where shape: "packet = (first # tl hdr) @ pn' @ body @ tag" "length pn' = pn_len"
    "dk_encrypt_header keys sample (hd hdr) (be_bytes pn_len truncated) = Some (first, pn')"
    using protect_shape [OF hp, of hdr "be_bytes pn_len truncated" "body @ tag" packet] prot off ok by auto
  have "unprotect_header (dk_decrypt_header keys') packet pn_offset
      = Inr (hdr @ be_bytes pn_len truncated @ body @ tag, hd hdr, pn_len)"
    using unprotect_protect [OF hp _ _ prot] ok off by (cases hdr) auto
  moreover have "?len = length (pn' @ body @ tag)" using shape(2) open_aead(2) by simp
  ultimately show thesis
    using that [OF enc _ off ok shape(2) open_aead(1) shape(1,3)] hdr open_aead(2) by (simp only: simp_thms)
qed

text \<open>What the decoder finds: the space, the sender's connection identifier, the packet number and the end.\<close>

fun names_packet :: "space \<Rightarrow> ('t, 's) quic \<Rightarrow> nat \<Rightarrow> nat \<Rightarrow> incoming \<Rightarrow> bool" where
  "names_packet sp c pn_offset stop (Long sp' scid at fin) \<longleftrightarrow>
     sp' = sp \<and> cid_as_slice scid = cid_as_slice (q_local_cid c) \<and> at = pn_offset \<and> fin = stop"
| "names_packet sp c pn_offset stop (Short at fin) \<longleftrightarrow> sp = Data \<and> at = pn_offset \<and> fin = stop"
| "names_packet sp c pn_offset stop _ \<longleftrightarrow> False"

text \<open>
  The receiver is ready for a packet: it has the matching keys, in the same key phase, and has not seen numbers too far
  from this one.
\<close>

definition can_open :: "space \<Rightarrow> ('t, 's) quic \<Rightarrow> directional_keys \<Rightarrow> nat \<Rightarrow> ('u, 'v) quic \<Rightarrow> bool" where
  "can_open sp c keys pn_len r \<longleftrightarrow>
     (let pn = sc_next_packet_number (q_spaces c sp);
          largest = (case sc_largest_received (q_spaces r sp) of Some n \<Rightarrow> n | None \<Rightarrow> 0) in
      (case remote_keys sp r of None \<Rightarrow> False | Some keys' \<Rightarrow> keys_match keys keys') \<and>
      (sp = Data \<longrightarrow> q_key_phase r = q_key_phase c) \<and> pn < 2 ^ 62 \<and> largest < 2 ^ 62 \<and>
      (case sp_largest_acked (sc_sent (q_spaces c sp)) of
         Some acked \<Rightarrow> acked \<le> pn \<and> acked \<le> largest \<and> pn - acked < 2 ^ 31
       | None \<Rightarrow> pn < 2 ^ 32 - 1) \<and>
      largest + 1 < pn + 2 ^ (8 * pn_len) div 2)"

lemma sealed_decodes:
  assumes hdr: "if sp = Data then hdr = put_short_header (q_peer_cid c) pn_len (q_key_phase c)
     else long_header_put (sent_header sp c) pn_len (length body) = Some hdr"
    and len: "1 \<le> pn_len" "pn_len \<le> 4" "4 \<le> length body" "length (hdr @ body @ rest) < 2 ^ 30"
    and cids: "cid_ok (q_peer_cid c)" "cid_ok (q_local_cid c)" and low: "hp_low encrypt"
    and first: "encrypt sample (hd hdr) pn = Some (first, pn')" and rest: "sp = Data \<longrightarrow> rest = []"
    and token: "length (q_retry_token c) < 2 ^ 30"
  shows "\<exists>inc. decode_header ((first # tl hdr) @ body @ rest) (cid_len (q_peer_cid c)) = Inr inc \<and>
    names_packet sp c (length hdr) (length hdr + length body) inc"
proof (cases "sp = Data")
  case True
  then have hdr: "hdr = put_short_header (q_peer_cid c) pn_len (q_key_phase c)" using hdr by simp
  have "length hdr = 1 + cid_len (q_peer_cid c)"
    using cids(1) by (simp add: hdr put_short_header_def Let_def length_cid_as_slice)
  moreover have "first AND FORM_LONG = 0"
  proof -
    have "first AND 0xe0 = hd hdr AND 0xe0" using low first unfolding hp_low_def by blast
    then have "(first AND 0xe0) AND FORM_LONG = (hd hdr AND 0xe0) AND FORM_LONG" by simp
    then show ?thesis using short_bits(1) [OF len(1,2)] by (simp add: hdr and.assoc)
  qed
  ultimately show ?thesis using True rest len(3) by (simp add: decode_header_def Let_def)
next
  case False
  have ok: "cid_ok (lh_dcid (sent_header sp c))" "cid_ok (lh_scid (sent_header sp c))"
    "length (lh_token (sent_header sp c)) < 2 ^ 30"
    using cids token by (simp_all add: sent_header_def)
  have put: "long_header_put (sent_header sp c) pn_len (length body) = Some hdr" using hdr False by simp
  have "hd hdr AND FORM_LONG \<noteq> 0"
    by (rule long_header_bytes [OF ok(1,2) put]) (use first_byte_bits(1) [OF len(1,2)] in auto)
  then have "first AND 0xf0 = hd hdr AND 0xf0" using low first unfolding hp_low_def by blast
  from decode_header_written [OF ok len(1,2) _ _ put this, of rest "cid_len (q_peer_cid c)"] len(4)
  show ?thesis by (auto simp: sent_header_def)
qed

lemma sealed_opens:
  assumes seal: "seal_packet sp keys (sc_next_packet_number (q_spaces c sp)) head pn_offset pn_len payload = Inr packet"
    and head: "packet_header sp c = (head, pn_offset, pn_len)" and cids: "cid_ok (q_peer_cid c)" "cid_ok (q_local_cid c)"
    and r: "can_open sp c keys pn_len r"
  shows "open_packet sp pn_offset packet r
      = Some (sc_next_packet_number (q_spaces c sp), Current, sp = Data \<and> q_key_phase c, payload)"
proof -
  obtain keys' where keys': "remote_keys sp r = Some keys'" "keys_match keys keys'"
    using r by (auto simp: can_open_def Let_def split: option.splits)
  obtain hdr truncated sealed first pn' sample where
    enc: "encode_packet_number (sc_next_packet_number (q_spaces c sp)) (sp_largest_acked (sc_sent (q_spaces c sp))) = (truncated, pn_len)"
    and hdr: "if sp = Data then hdr = put_short_header (q_peer_cid c) pn_len (q_key_phase c)
       else long_header_put (sent_header sp c) pn_len (length (pn' @ sealed)) = Some hdr"
    and off: "length hdr = pn_offset"
    and aead: "pk_decrypt (dk_packet keys') (sc_next_packet_number (q_spaces c sp)) (hdr @ be_bytes pn_len truncated) sealed = Some payload"
    and un: "unprotect_header (dk_decrypt_header keys') packet pn_offset
       = Inr (hdr @ be_bytes pn_len truncated @ sealed, hd hdr, pn_len)"
    by (rule seal_packet_shape [OF seal head cids keys'(2)])
  note len = encode_packet_number_arith [OF enc]
  let ?buf = "hdr @ be_bytes pn_len truncated @ sealed"
  have at: "take pn_len (drop pn_offset ?buf) = be_bytes pn_len truncated" "drop (pn_offset + pn_len) ?buf = sealed"
    "take (pn_offset + pn_len) ?buf = hdr @ be_bytes pn_len truncated"
    unfolding off [symmetric] by simp_all
  have "(256 :: nat) ^ pn_len = 2 ^ (8 * pn_len)" by (simp add: power_mult)
  then have "truncated < 256 ^ pn_len" using len(3) by simp
  then have val: "be_val (be_bytes pn_len truncated) = truncated" by (simp add: be_val_be_bytes)
  define largest where "largest = (case sc_largest_received (q_spaces r sp) of Some n \<Rightarrow> n | None \<Rightarrow> 0)"
  have "decode_packet_number largest truncated (8 * pn_len) = sc_next_packet_number (q_spaces c sp)"
    using r [unfolded can_open_def Let_def, folded largest_def] by (intro packet_number_choice [OF enc]) blast+
  then have pn: "decode_packet_number largest truncated (pn_len * 8) = sc_next_packet_number (q_spaces c sp)"
    by (simp add: mult.commute)
  have "packet_generation sp (hd hdr) (sc_next_packet_number (q_spaces c sp)) r = Current"
    "(sp = Data \<and> hd hdr AND 0x04 \<noteq> 0) = (sp = Data \<and> q_key_phase c)"
    using r hdr short_bits(2) [OF len(1,2), of "q_peer_cid c" "q_key_phase c"]
    by (auto simp: packet_generation_def generation_for_def can_open_def Let_def)
  then show ?thesis using aead keys'(1)
    by (simp del: take_append drop_append add: open_packet_def un at val pn largest_def [symmetric] generation_key_def Let_def)
qed

text \<open>
  C4. A packet the client seals is one the receiving half opens, with the TLS library's keys as RFC 9001 has them: behind any
  coalesced data the header decodes to the packet's own space, number offset and end, and removing the protection gives
  the very number and payload that went in, in the current key generation.
\<close>

theorem sealed_packet_opens:
  assumes "seal_packet sp keys (sc_next_packet_number (q_spaces c sp)) head pn_offset pn_len payload = Inr packet"
    and "packet_header sp c = (head, pn_offset, pn_len)" "can_open sp c keys pn_len r"
    and "cid_ok (q_peer_cid c)" "cid_ok (q_local_cid c)" "length (q_retry_token c) < 2 ^ 30"
    and "length (packet @ rest) < 2 ^ 30" "sp = Data \<longrightarrow> rest = []"
  shows "(\<exists>inc. decode_header (packet @ rest) (cid_len (q_peer_cid c)) = Inr inc
      \<and> names_packet sp c pn_offset (length packet) inc)
    \<and> open_packet sp pn_offset packet r
      = Some (sc_next_packet_number (q_spaces c sp), Current, sp = Data \<and> q_key_phase c, payload)"
proof
  obtain keys' where match: "keys_match keys keys'"
    using assms(3) by (auto simp: can_open_def Let_def split: option.splits)
  obtain hdr truncated sealed first pn' sample where
    enc: "encode_packet_number (sc_next_packet_number (q_spaces c sp)) (sp_largest_acked (sc_sent (q_spaces c sp))) = (truncated, pn_len)"
    and hdr: "if sp = Data then hdr = put_short_header (q_peer_cid c) pn_len (q_key_phase c)
       else long_header_put (sent_header sp c) pn_len (length (pn' @ sealed)) = Some hdr"
    and off: "length hdr = pn_offset" "hdr \<noteq> []" and packet: "packet = (first # tl hdr) @ pn' @ sealed"
    and first: "dk_encrypt_header keys sample (hd hdr) (be_bytes pn_len truncated) = Some (first, pn')"
    and sealed: "length payload + TAG_LEN = length sealed"
    by (rule seal_packet_shape [OF assms(1,2,4,5) match]) blast
  have long: "4 \<le> length (pn' @ sealed)" using sealed by (simp add: TAG_LEN_def)
  have small: "length (hdr @ (pn' @ sealed) @ rest) < 2 ^ 30" using assms(7) off(2) by (cases hdr) (auto simp: packet)
  have low: "hp_low (dk_encrypt_header keys)" using match by (simp add: keys_match_def)
  note len = encode_packet_number_arith(1,2) [OF enc]
  from sealed_decodes [OF hdr len long small assms(4,5) low first assms(8,6)] off
  show "\<exists>inc. decode_header (packet @ rest) (cid_len (q_peer_cid c)) = Inr inc \<and> names_packet sp c pn_offset (length packet) inc"
    by (cases hdr) (auto simp: packet)
qed (rule sealed_opens [OF assms(1,2,4,5,3)])

text \<open>
  Keys for the example that do what the library's do: header protection masks with the sample and refuses what is too
  long, sealing changes the payload and opening checks the tag.
\<close>

definition sealing_key :: packet_key where
  "sealing_key =
     \<lparr>pk_encrypt = (\<lambda>pn head body. Some (map (\<lambda>b. b XOR word_of_nat (pn + 0x5a)) body, replicate 16 (word_of_nat (pn + length head)))),
      pk_decrypt = (\<lambda>pn head body.
        let n = length body - 16 in
        if length body < 16 \<or> drop n body \<noteq> replicate 16 (word_of_nat (pn + length head)) then None
        else Some (map (\<lambda>b. b XOR word_of_nat (pn + 0x5a)) (take n body)))\<rparr>"

definition masking_dir :: directional_keys where
  "masking_dir = \<lparr>dk_encrypt_header = sample_key False, dk_decrypt_header = sample_key True, dk_packet = sealing_key\<rparr>"

lemma masking_match: "keys_match masking_dir masking_dir"
proof -
  have low: "(first XOR (m AND x)) AND y = first AND y" if "x AND y = 0" for first m x y :: byte
  proof -
    have "(m AND x) AND y = m AND (x AND y)" by (simp add: and.assoc)
    then show ?thesis using that by (simp add: and.commute [of _ y] bit.conj_xor_distrib)
  qed
  have "hp_low (sample_key False)"
    unfolding hp_low_def
  proof (intro allI impI)
    fix sample first pn first' pn'
    assume "sample_key False sample first pn = Some (first', pn')"
    then have "first' = first XOR (sample ! 0 AND (if first AND 0x80 \<noteq> 0 then 0x0f else 0x1f))"
      by (auto simp: sample_key_def Let_def split: if_splits)
    then show "first' AND 0xe0 = first AND 0xe0 \<and> (first AND FORM_LONG \<noteq> 0 \<longrightarrow> first' AND 0xf0 = first AND 0xf0)"
      by (simp add: low)
  qed
  moreover have "aead_inverse sealing_key sealing_key"
    by (simp add: aead_inverse_def sealing_key_def TAG_LEN_def Let_def o_def xor.assoc)
  ultimately show ?thesis using sample_key_inverse by (simp add: keys_match_def masking_dir_def)
qed

definition masking_conn :: "(nat, unit) quic" where
  "masking_conn = upd_space Initial (\<lambda>s. s\<lparr>sc_keys := Some \<lparr>k_local = masking_dir, k_remote = masking_dir\<rparr>\<rparr>) sample_conn"

theorem sealed_packet_opens_witness:
  "\<exists>packet. seal_packet Initial masking_dir 0 (fst (packet_header Initial masking_conn)) 28 1 (replicate 19 1) = Inr packet \<and>
     open_packet Initial 28 packet masking_conn = Some (0, Current, False, replicate 19 1)"
proof -
  have head: "packet_header Initial masking_conn = (fst (packet_header Initial masking_conn), 28, 1)"
    by (simp add: masking_conn_def sample_eval packet_header_def)
  have pn: "sc_next_packet_number (q_spaces masking_conn Initial) = 0" by (simp add: masking_conn_def sample_eval)
  have "\<exists>packet. seal_packet Initial masking_dir 0 (fst (packet_header Initial masking_conn)) 28 1 (replicate 19 1) = Inr packet
      \<and> length packet < 2 ^ 30"
    by (simp add: masking_conn_def masking_dir_def sealing_key_def sample_key_def xor_bytes_def sample_eval packet_header_def seal_packet_def)
  then obtain packet where packet: "seal_packet Initial masking_dir 0 (fst (packet_header Initial masking_conn)) 28 1 (replicate 19 1) = Inr packet"
    and small: "length packet < 2 ^ 30" by blast
  have can: "can_open Initial masking_conn masking_dir 1 masking_conn"
    by (simp add: can_open_def masking_conn_def sample_eval) (simp add: masking_match)
  have ok: "cid_ok (q_peer_cid masking_conn)" "cid_ok (q_local_cid masking_conn)" "length (q_retry_token masking_conn) < 2 ^ 30"
    by (simp_all add: masking_conn_def sample_eval cid_ok_def)
  show ?thesis
    using packet sealed_packet_opens [OF _ head can ok, of "replicate 19 1" packet "[]", unfolded pn, OF packet] small by auto
qed

section \<open>Packets that do not authenticate\<close>

text \<open>No packet that starts anywhere in the datagram authenticates under a key of the connection.\<close>

definition forged :: "bytes \<Rightarrow> ('t, 's) quic \<Rightarrow> bool" where
  "forged datagram c \<longleftrightarrow> (\<forall>sp at n pn_offset. open_packet sp pn_offset (take n (drop at datagram)) c = None)"

lemma forged_drop: "forged datagram c \<Longrightarrow> forged (drop k datagram) c"
  by (simp add: forged_def)

lemma forged_packet:
  assumes "forged buf c" "q_server_initial_seen c"
  shows "\<exists>consumed. handle_packet api now buf c = Inr ((consumed, False), c)"
proof -
  have "open_packet sp pn_offset (take n buf) c = None" for sp n pn_offset
    using assms(1) unfolding forged_def by (metis drop0)
  then show ?thesis using assms(2)
    by (auto simp: handle_packet_def handle_protected_def on_retry_def on_version_negotiation_def split: sum.split incoming.split)
qed

lemma forged_loop:
  assumes "forged buf c" "q_server_initial_seen c"
  shows "datagram_loop api now buf processed c = Inr (Some processed, c)"
  using assms(1)
proof (induction "length buf" arbitrary: buf rule: less_induct)
  case less
  obtain consumed where step: "handle_packet api now buf c = Inr ((consumed, False), c)"
    using forged_packet [OF less.prems assms(2)] by blast
  show ?case
  proof (cases "buf = [] \<or> consumed = 0")
    case True
    then show ?thesis using step by (auto simp: datagram_loop.simps [of api now buf])
  next
    case False
    then have "datagram_loop api now (drop consumed buf) processed c = Inr (Some processed, c)"
      using less.hyps [of "drop consumed buf"] forged_drop [OF less.prems] by simp
    then show ?thesis using step False by (simp add: datagram_loop.simps [of api now buf])
  qed
qed



end
