(* ===== verification/Quic_Timers.thy ===== *)
theory Quic_Timers
  imports Quic_Sample
begin

text \<open>
  The loops and timers of a QUIC connection end: the exchange with TLS stops when TLS has nothing more to hand over, a
  timer that fires has the effect its deadline asks for and does not spin, and one that does not fire has none.
\<close>

section \<open>Pumping TLS\<close>

text \<open>Each time TLS hands over bytes or keys it has less left to hand over.\<close>

definition tls_finite :: "('t, 's) tls_api \<Rightarrow> bool" where
  "tls_finite api \<longleftrightarrow>
     (\<forall>t change out t'. tls_write_hs api t = (change, out, t') \<longrightarrow> change \<noteq> None \<or> out \<noteq> [] \<longrightarrow>
        tls_left api t' < tls_left api t)"

definition idle_tls :: "('t, 's) tls_api \<Rightarrow> ('t, 's) quic \<Rightarrow> bool" where
  "idle_tls api c \<longleftrightarrow> (\<exists>t. tls_write_hs api t = (None, [], q_tls c))"

lemma pump_loop_fuel:
  assumes "tls_finite api" "tls_left api (q_tls c) < m" "tls_left api (q_tls c) < n"
  shows "pump_loop m api c = pump_loop n api c \<and> (\<forall>c'. pump_loop n api c = Inr c' \<longrightarrow> idle_tls api c')"
  using assms(2,3)
proof (induction m arbitrary: n c)
  case (Suc m)
  obtain k where n: "n = Suc k" using Suc.prems(2) by (cases n) auto
  obtain change out t where w: "tls_write_hs api (q_tls c) = (change, out, t)" by (metis prod_cases3)
  show ?case
  proof (cases "change = None \<and> out = []")
    case True
    then show ?thesis using w by (auto simp: n idle_tls_def upd_space_def)
  next
    case False
    then have "tls_left api t < tls_left api (q_tls c)" using assms(1) w by (auto simp: tls_finite_def)
    then have fuel: "tls_left api t < m" "tls_left api t < k" using Suc.prems n by auto
    have rest: "pump_loop m api c1 = pump_loop k api c1 \<and> (\<forall>c'. pump_loop k api c1 = Inr c' \<longrightarrow> idle_tls api c')"
      if "q_tls c1 = t" for c1
      using Suc.IH [of c1 k] fuel that by simp
    have params: "q_tls c2 = q_tls c1" if "take_peer_params api c1 = Inr c2" for c1 c2 :: "('a, 'b) quic"
      using that by (auto simp: take_peer_params_def Let_def split: option.splits sum.splits)
    have ready: "q_tls (one_rtt_ready api keys nxt c1) = q_tls c1" for keys nxt and c1 :: "('a, 'b) quic"
      by (simp add: one_rtt_ready_def push_event_def split_def Let_def)
    have upd: "q_tls (upd_space sp f c1) = q_tls c1" for sp f and c1 :: "('a, 'b) quic" by (simp add: upd_space_def)
    define c1 where "c1 = upd_space (if sc_keys (q_spaces c Handshake) \<noteq> None then Handshake else Initial)
      (\<lambda>s. s\<lparr>sc_crypto_out := sc_crypto_out s @ out\<rparr>) (c\<lparr>q_tls := t\<rparr>)"
    have c1: "q_tls c1 = t" by (simp add: c1_def upd)
    show ?thesis
    proof (cases "\<exists>keys nxt. change = Some (Change_one_rtt keys nxt)")
      case True
      then obtain keys nxt where change: "change = Some (Change_one_rtt keys nxt)" by blast
      have step: "pump_loop (Suc j) api c = rbind (take_peer_params api c1)
          (\<lambda>c. pump_loop j api ((one_rtt_ready api keys nxt c)\<lparr>q_needs_send := True\<rparr>))" for j
        by (simp add: w change c1_def Let_def)
      show ?thesis
      proof (cases "take_peer_params api c1")
        case (Inr c2)
        have "q_tls ((one_rtt_ready api keys nxt c2)\<lparr>q_needs_send := True\<rparr>) = t" using params [OF Inr] c1 ready by simp
        from rest [OF this] show ?thesis unfolding n step Inr by simp
      qed (simp add: n step del: pump_loop.simps)
    next
      case False
      define c2 where "c2 = (case change of Some (Change_handshake keys) \<Rightarrow> upd_space Handshake (\<lambda>s. s\<lparr>sc_keys := Some keys\<rparr>) c1
        | _ \<Rightarrow> c1)\<lparr>q_needs_send := True\<rparr>"
      have step: "pump_loop (Suc j) api c = pump_loop j api c2" for j
        using False \<open>\<not> (change = None \<and> out = [])\<close>
        by (auto simp: w c1_def c2_def Let_def split: option.splits key_change.splits)
      have "q_tls c2 = t" by (simp add: c2_def c1 upd split: option.split key_change.split)
      from rest [OF this] show ?thesis unfolding n step .
    qed
  qed
qed simp

text \<open>
  C32. The loop of \<open>pump_tls\<close> ends: where TLS has only so much to hand over, the bound on its turns is never what stops it. Any
  larger bound gives the same result, and unless the server's parameters are refused the last call brought nothing new.
\<close>

theorem pump_tls_terminates:
  assumes "tls_finite api"
  shows "(\<forall>n > tls_left api (q_tls c). pump_loop n api c = pump_tls api c) \<and>
    (\<forall>c'. pump_tls api c = Inr c' \<longrightarrow> idle_tls api c')"
proof -
  have "pump_loop n api c = pump_tls api c" if "tls_left api (q_tls c) < n" for n
    unfolding pump_tls_def using pump_loop_fuel [OF assms that] by blast
  moreover have "idle_tls api c'" if "pump_tls api c = Inr c'" for c'
    using pump_loop_fuel [OF assms lessI lessI] that unfolding pump_tls_def by blast
  ultimately show ?thesis by blast
qed

lemma sample_tls_finite: "tls_finite sample_api"
  by (auto simp: tls_finite_def sample_api_simps split: if_splits)

theorem pump_tls_terminates_witness:
  "pump_loop 9 sample_api sample_conn = pump_tls sample_api sample_conn"
proof -
  have "tls_left sample_api (q_tls sample_conn) < 9" by (simp add: sample_eval)
  then show ?thesis using pump_tls_terminates [OF sample_tls_finite] by blast
qed

section \<open>Timers\<close>

lemma earliest_mem: "earliest ts = Some at \<Longrightarrow> Some at \<in> set ts"
proof -
  assume at: "earliest ts = Some at"
  obtain x xs where xs: "List.map_filter (\<lambda>t. t) ts = x # xs" "at = fold min xs x"
    using at by (auto simp: earliest_def split: list.splits)
  have "at \<in> set (x # xs)" using xs(2) Min.set_eq_fold [of x xs] Min_in [of "set (x # xs)"] by simp
  then show ?thesis unfolding xs(1) [symmetric] by (auto simp: map_filter_def)
qed

lemma earliest_le: "Some d \<in> set ts \<Longrightarrow> \<exists>at \<le> d. earliest ts = Some at"
proof -
  assume d: "Some d \<in> set ts"
  then have mem: "d \<in> set (List.map_filter (\<lambda>t. t) ts)" by (force simp: map_filter_def)
  then obtain x xs where xs: "List.map_filter (\<lambda>t. t) ts = x # xs" by (cases "List.map_filter (\<lambda>t. t) ts") auto
  have "fold min xs x \<le> d" using mem xs Min.set_eq_fold [of x xs] Min_le [of "set (x # xs)" d] by simp
  then show ?thesis using xs by (simp add: earliest_def)
qed

lemma earliest_None: "earliest ts = None \<longleftrightarrow> (\<forall>t \<in> set ts. t = None)"
  by (metis earliest_le earliest_mem option.exhaust option.distinct(1))

lemma detect_lost_future:
  assumes "detect_lost now delay s = ((lost, Some at), s')"
  shows "now < at"
proof -
  obtain la where la: "sp_largest_acked s = Some la" using assms by (auto simp: detect_lost_def split: option.splits)
  let ?ws = "filter (\<lambda>p. \<not> lost_now la now delay p \<and> sp_number p \<le> la) (sp_packets s)"
  have "(if ?ws = [] then None else Some (Min ((\<lambda>p. sp_time_sent p + delay) ` set ?ws))) = Some at"
    using assms la unfolding detect_lost_def detect_loop_filter fold_opt_min_None by simp
  then have "at \<in> (\<lambda>p. sp_time_sent p + delay) ` set ?ws"
    by (metis (no_types, lifting) Min_in finite_imageI List.finite_set image_is_empty set_empty option.distinct(1) option.inject)
  then show ?thesis by (auto simp: lost_now_def)
qed

lemma on_lost_packets_loss_deadline:
  "sc_loss_deadline (q_spaces (on_lost_packets sp lost now c) sp') = sc_loss_deadline (q_spaces c sp')"
proof -
  have frame: "sc_loss_deadline (q_spaces (on_frame_lost sp f c) sp') = sc_loss_deadline (q_spaces c sp')" for f and c :: "('a, 'b) quic"
    by (cases f) (simp_all add: upd_space_def)
  have frames: "sc_loss_deadline (q_spaces (fold (on_frame_lost sp) fs c) sp') = sc_loss_deadline (q_spaces c sp')"
    for fs and c :: "('a, 'b) quic"
    by (induction fs arbitrary: c) (simp_all add: frame)
  have "sc_loss_deadline (q_spaces (fold (on_packet_lost sp now) lost c) sp') = sc_loss_deadline (q_spaces c sp')"
    by (induction lost arbitrary: c) (simp_all add: on_packet_lost_def frames)
  then show ?thesis by (auto simp: on_lost_packets_def Let_def split: option.split)
qed

lemma detect_space_future:
  assumes "sc_loss_deadline (q_spaces (snd (detect_space now sp c)) sp') = Some d"
  shows "if sp' = sp then now < d else sc_loss_deadline (q_spaces c sp') = Some d"
proof -
  obtain lost dl sent where d: "detect_lost now (rtt_loss_delay (q_rtt c)) (sc_sent (q_spaces c sp)) = ((lost, dl), sent)"
    by (metis prod_cases3 surj_pair)
  show ?thesis using assms detect_lost_future [of now "rtt_loss_delay (q_rtt c)" "sc_sent (q_spaces c sp)" lost d sent] d
    by (auto simp: detect_space_def Let_def upd_space_def on_lost_packets_loss_deadline split: if_splits)
qed

lemma detect_all_future:
  "loss_deadline (fold (\<lambda>sp c. snd (detect_space now sp c)) space_ALL c) = Some d \<Longrightarrow> now < d"
proof -
  assume d: "loss_deadline (fold (\<lambda>sp c. snd (detect_space now sp c)) space_ALL c) = Some d"
  then obtain sp where "sc_loss_deadline (q_spaces (fold (\<lambda>sp c. snd (detect_space now sp c)) space_ALL c) sp) = Some d"
    by (auto simp: loss_deadline_def dest!: earliest_mem)
  then show ?thesis
    by (cases sp) (auto simp: space_ALL_def dest!: detect_space_future)
qed

definition recovery_deadline :: "('t, 's) quic \<Rightarrow> nat option" where
  "recovery_deadline c = (case loss_deadline c of Some at \<Rightarrow> Some at | None \<Rightarrow> map_option snd (probe_due c))"

lemma poll_timeout_eq:
  "q_closed c = None \<Longrightarrow> poll_timeout c = earliest [recovery_deadline c, q_idle_deadline c, keepalive_deadline c]"
  by (simp add: poll_timeout_def recovery_deadline_def Let_def)

definition due :: "nat \<Rightarrow> nat option \<Rightarrow> bool" where
  "due now d \<longleftrightarrow> (case d of None \<Rightarrow> False | Some d \<Rightarrow> d \<le> now)"

lemma due_earliest: "due now (earliest ts) \<longleftrightarrow> (\<exists>t \<in> set ts. due now t)"
proof
  assume "due now (earliest ts)"
  then obtain at where "earliest ts = Some at" "at \<le> now" by (auto simp: due_def split: option.splits)
  then show "\<exists>t \<in> set ts. due now t" using earliest_mem [of ts at] by (intro bexI [of _ "Some at"]) (auto simp: due_def)
next
  assume "\<exists>t \<in> set ts. due now t"
  then obtain d where "Some d \<in> set ts" "d \<le> now" by (auto simp: due_def split: option.splits)
  then show "due now (earliest ts)" using earliest_le [of d ts] by (auto simp: due_def)
qed

lemma handle_timeout_quiet:
  assumes "\<not> due now (q_idle_deadline c)" "\<not> due now (keepalive_deadline c)"
  shows "handle_timeout now c =
     (case loss_deadline c of
        Some at \<Rightarrow> if now < at then c else (fold (\<lambda>sp c. snd (detect_space now sp c)) space_ALL c)\<lparr>q_needs_send := True\<rparr>
      | None \<Rightarrow>
          (case probe_due c of
             None \<Rightarrow> c
           | Some (sp, at) \<Rightarrow>
               if now \<ge> at then
                 (upd_space sp (\<lambda>s. s\<lparr>sc_crypto_sent := 0\<rparr>) c)
                   \<lparr>q_pto_count := q_pto_count c + 1, q_pto_probes := 2, q_pto_space := sp, q_needs_send := True\<rparr>
               else c))"
  using assms by (simp add: handle_timeout_def due_def)

lemma handle_timeout_idle: "\<not> due now (q_idle_deadline c) \<Longrightarrow> \<not> due now (keepalive_deadline c) \<Longrightarrow> \<not> due now (recovery_deadline c)
    \<Longrightarrow> handle_timeout now c = c"
  by (auto simp: handle_timeout_quiet recovery_deadline_def due_def split: option.split option.split_asm)

text \<open>The other timers and what they depend on, which looking for lost packets leaves alone.\<close>

definition timer_view :: "('t, 's) quic \<Rightarrow> nat option \<times> nat option \<times> bool \<times> nat \<times> nat \<times> bool \<times> (space \<Rightarrow> nat option)" where
  "timer_view c = (q_idle_deadline c, q_next_keepalive c, q_connected c, q_unanswered c, q_pto_count c, q_closed c = None,
     \<lambda>sp. sp_last_ack_eliciting (sc_sent (q_spaces c sp)))"

lemma lost_frame_timers: "timer_view (on_frame_lost sp f c) = timer_view c"
  by (cases f) (auto simp: timer_view_def upd_space_def queue_credit_def queue_send_def upd_send_def upd_pair_def Let_def split: option.split)

lemma lost_packets_timers: "timer_view (on_lost_packets sp lost now c) = timer_view c"
proof -
  have frames: "timer_view (fold (on_frame_lost sp) fs c) = timer_view c" for fs and c :: "('a, 'b) quic"
    by (induction fs arbitrary: c) (simp_all add: lost_frame_timers)
  have congestion: "timer_view (q_congestion_update f c) = timer_view c" for f and c :: "('a, 'b) quic" by (simp add: timer_view_def)
  have "timer_view (fold (on_packet_lost sp now) lost c) = timer_view c"
    by (induction lost arbitrary: c) (simp_all add: on_packet_lost_def frames congestion)
  then show ?thesis by (auto simp: on_lost_packets_def Let_def congestion split: option.split)
qed

lemma detect_timers: "timer_view (snd (detect_space now sp c)) = timer_view c"
proof -
  obtain lost dl sent where d: "detect_lost now (rtt_loss_delay (q_rtt c)) (sc_sent (q_spaces c sp)) = ((lost, dl), sent)"
    by (metis prod_cases3 surj_pair)
  have "sp_last_ack_eliciting sent = sp_last_ack_eliciting (sc_sent (q_spaces c sp))"
    using d by (auto simp: detect_lost_def split: option.splits prod.splits)
  then have "timer_view (upd_space sp (\<lambda>s. s\<lparr>sc_sent := sent\<rparr>) c) = timer_view c" by (auto simp: timer_view_def upd_space_def)
  moreover have "timer_view (upd_space sp (\<lambda>s. s\<lparr>sc_loss_deadline := dl\<rparr>) c') = timer_view c'" for c' :: "('a, 'b) quic"
    by (auto simp: timer_view_def upd_space_def)
  ultimately show ?thesis by (simp add: detect_space_def d Let_def lost_packets_timers)
qed

lemma detect_all_timers: "timer_view (fold (\<lambda>sp c. snd (detect_space now sp c)) sps c) = timer_view c"
  by (induction sps arbitrary: c) (simp_all add: detect_timers)

lemma keepalive_ahead: "q_connected c \<Longrightarrow> idle_timeout c = Some t \<Longrightarrow> 2 \<le> t"
  by (auto simp: idle_timeout_def rtt_pto_def TIMER_GRANULARITY_def Let_def split: if_splits)

text \<open>
  Where the last packet of every space was sent less than \<open>2 ^ 32 - 1\<close> milliseconds ago, some seven weeks, the doubled
  timeouts outgrow the time that has passed.
\<close>

definition sent_lately :: "nat \<Rightarrow> ('t, 's) quic \<Rightarrow> bool" where
  "sent_lately now c \<longleftrightarrow>
     list_all (\<lambda>sp. case sp_last_ack_eliciting (sc_sent (q_spaces c sp)) of None \<Rightarrow> True | Some t \<Rightarrow> now < t + TIMER_GRANULARITY * (2 ^ 32 - 1)) space_ALL"

lemma pto_long: "32 \<le> n \<Longrightarrow> TIMER_GRANULARITY * (2 ^ 32 - 1) \<le> rtt_pto d r * saturating_pow2 n"
  unfolding saturating_pow2_def rtt_pto_def by (auto intro: mult_le_mono)

lemma latest_mem: "latest_of ts = Some t \<Longrightarrow> Some t \<in> set ts"
proof -
  assume t: "latest_of ts = Some t"
  obtain x xs where xs: "List.map_filter (\<lambda>t. t) ts = x # xs" "t = fold max xs x"
    using t by (auto simp: latest_of_def split: list.splits)
  have "fold max xs x \<in> insert x (set xs)" for xs and x :: nat by (induction xs arbitrary: x) (auto simp: max_def)
  then have "t \<in> set (x # xs)" using xs(2) by simp
  then show ?thesis unfolding xs(1) [symmetric] by (auto simp: map_filter_def)
qed

lemma probe_ahead:
  assumes "sent_lately now c" "32 \<le> q_pto_count c" "probe_due c = Some (sp, at)"
  shows "now < at"
proof -
  have lately: "now < t + rtt_pto d (q_rtt c) * saturating_pow2 (q_pto_count c)"
    if "sp_last_ack_eliciting (sc_sent (q_spaces c sp)) = Some t" for sp t d
    using assms(1) that pto_long [OF assms(2), of d "q_rtt c"] by (cases sp) (auto simp: sent_lately_def space_ALL_def)
  have cand: "now < t" if "pto_candidate (\<lambda>sp. sc_sent (q_spaces c sp)) (q_rtt c) d (q_pto_count c) sp = Some t" for d sp t
    using that lately by (auto simp: pto_candidate_def Let_def split: if_splits option.splits)
  have latest: "now < t + rtt_pto 0 (q_rtt c) * saturating_pow2 (q_pto_count c)"
    if "latest_of (map (\<lambda>sp. sp_last_ack_eliciting (sc_sent (q_spaces c sp))) space_ALL) = Some t" for t
    using latest_mem [OF that] lately by auto
  show ?thesis using assms(3) cand latest
    by (auto simp: probe_due_def pto_deadline_def space_ALL_def pto_step_def Let_def split: option.splits if_splits)
qed

definition timers_left :: "nat \<Rightarrow> ('t, 's) quic \<Rightarrow> nat" where
  "timers_left now c = of_bool (due now (keepalive_deadline c)) + of_bool (due now (loss_deadline c)) + (32 - q_pto_count c)"

lemma sent_lately_view: "timer_view c' = timer_view c \<Longrightarrow> sent_lately now c' = sent_lately now c"
  by (auto simp: timer_view_def sent_lately_def fun_eq_iff)

lemma timers_progress:
  assumes alive: "q_closed c = None" and lately: "sent_lately now c" and fires: "due now (poll_timeout c)"
  shows "q_closed (handle_timeout now c) \<noteq> None \<or>
    timers_left now (handle_timeout now c) < timers_left now c \<and> sent_lately now (handle_timeout now c)"
proof (cases "due now (q_idle_deadline c)")
  case True
  then show ?thesis by (simp add: handle_timeout_def due_def quic_lose_def push_event_def)
next
  case idle: False
  show ?thesis
  proof (cases "due now (keepalive_deadline c)")
    case True
    let ?c = "c\<lparr>q_keepalive_pending := True, q_next_keepalive := map_option (\<lambda>t. now + t div 2) (idle_timeout c), q_needs_send := True\<rparr>"
    have "handle_timeout now c = ?c" using idle True by (simp add: handle_timeout_def due_def)
    moreover have "\<not> due now (keepalive_deadline ?c)"
      using keepalive_ahead [of c] by (auto simp: due_def keepalive_deadline_def split: option.split)
    ultimately show ?thesis using True lately by (simp add: timers_left_def sent_lately_def loss_deadline_def)
  next
    case quiet: False
    have rec: "due now (recovery_deadline c)" using fires idle quiet by (auto simp: poll_timeout_eq [OF alive] due_earliest)
    show ?thesis
    proof (cases "loss_deadline c")
      case (Some at)
      let ?c = "fold (\<lambda>sp c. snd (detect_space now sp c)) space_ALL c"
      have "handle_timeout now c = ?c\<lparr>q_needs_send := True\<rparr>"
        using rec Some by (auto simp: handle_timeout_quiet [OF idle quiet] recovery_deadline_def due_def)
      moreover have "\<not> due now (loss_deadline ?c)" using detect_all_future [of now c] by (auto simp: due_def split: option.splits)
      moreover have "timer_view ?c = timer_view c" by (rule detect_all_timers)
      ultimately show ?thesis using rec Some quiet lately sent_lately_view [of ?c c now]
        by (auto simp: timers_left_def recovery_deadline_def timer_view_def keepalive_deadline_def sent_lately_def loss_deadline_def)
    next
      case None
      then obtain sp at where probe: "probe_due c = Some (sp, at)" "at \<le> now"
        using rec by (auto simp: recovery_deadline_def due_def split: option.splits)
      let ?c = "handle_timeout now c"
      have "q_pto_count c < 32" using probe probe_ahead [OF lately] by fastforce
      moreover have "keepalive_deadline ?c = keepalive_deadline c" "q_pto_count ?c = q_pto_count c + 1"
        "sc_sent (q_spaces ?c sp') = sc_sent (q_spaces c sp')" "sc_loss_deadline (q_spaces ?c sp') = sc_loss_deadline (q_spaces c sp')" for sp'
        using probe None by (simp_all add: handle_timeout_quiet [OF idle quiet] keepalive_deadline_def upd_space_def)
      moreover from this have "loss_deadline ?c = loss_deadline c" "sent_lately now ?c = sent_lately now c"
        by (simp_all add: loss_deadline_def sent_lately_def)
      moreover have "32 - (q_pto_count c + 1) < 32 - q_pto_count c" if "q_pto_count c < 32" using that by linarith
      ultimately show ?thesis using lately unfolding timers_left_def by (intro disjI2) auto
    qed
  qed
qed


lemma timers_stop:
  "sent_lately now c \<Longrightarrow> \<exists>n \<le> timers_left now c + 1. \<not> due now (poll_timeout ((handle_timeout now ^^ n) c))"
proof (induction "timers_left now c" arbitrary: c rule: less_induct)
  case less
  let ?c = "handle_timeout now c"
  have quiet: "\<not> due now (poll_timeout d)" if "q_closed d \<noteq> None" for d :: "('a, 'b) quic"
    using that by (simp add: poll_timeout_def due_def)
  show ?case
  proof (cases "due now (poll_timeout c) \<and> q_closed ?c = None")
    case True
    then have "timers_left now ?c < timers_left now c" "sent_lately now ?c"
      using timers_progress [OF _ less.prems] quiet by blast+
    then obtain n where "n \<le> timers_left now ?c + 1" "\<not> due now (poll_timeout ((handle_timeout now ^^ n) ?c))" using less.hyps by blast
    then show ?thesis using \<open>timers_left now ?c < timers_left now c\<close>
      by (intro exI [of _ "Suc n"]) (simp add: funpow_swap1)
  next
    case False
    then show ?thesis using quiet [of ?c] by (cases "due now (poll_timeout c)") (auto intro: exI [of _ 1] exI [of _ 0])
  qed
qed

lemma recovery_fires:
  assumes "q_closed c = None" "\<not> due now (q_idle_deadline c)" "\<not> due now (keepalive_deadline c)" "due now (poll_timeout c)"
  defines "c' \<equiv> handle_timeout now c"
  shows "q_closed c' = None \<and> q_needs_send c' \<and>
      (if loss_deadline c \<noteq> None then \<not> due now (loss_deadline c') \<and> timer_view c' = timer_view c
       else \<exists>sp at. probe_due c = Some (sp, at) \<and> at \<le> now \<and> q_pto_space c' = sp \<and> q_pto_probes c' = 2 \<and>
         q_pto_count c' = q_pto_count c + 1 \<and> sc_crypto_sent (q_spaces c' sp) = 0)"
proof -
  have rec: "due now (recovery_deadline c)" using assms(2-4) by (auto simp: poll_timeout_eq [OF assms(1)] due_earliest)
  show ?thesis
  proof (cases "loss_deadline c")
    case (Some at)
    let ?d = "fold (\<lambda>sp c. snd (detect_space now sp c)) space_ALL c"
    have "c' = ?d\<lparr>q_needs_send := True\<rparr>"
      using rec Some unfolding c'_def handle_timeout_quiet [OF assms(2,3)] by (auto simp: recovery_deadline_def due_def)
    moreover have "\<not> due now (loss_deadline ?d)" using detect_all_future [of now c] by (auto simp: due_def split: option.splits)
    moreover have view: "timer_view ?d = timer_view c" by (rule detect_all_timers)
    moreover have "q_closed ?d = None" using view assms(1) by (auto simp: timer_view_def)
    moreover have "timer_view (?d\<lparr>q_needs_send := True\<rparr>) = timer_view ?d" by (simp add: timer_view_def)
    ultimately show ?thesis using Some by (auto simp: loss_deadline_def)
  next
    case None
    then obtain sp at where "probe_due c = Some (sp, at)" "at \<le> now"
      using rec by (auto simp: recovery_deadline_def due_def split: option.splits)
    then show ?thesis using None assms(1) unfolding c'_def handle_timeout_quiet [OF assms(2,3)] by (simp add: upd_space_def)
  qed
qed

text \<open>What is asked for where one of the deadlines has passed: the first of these that has.\<close>

definition timer_answered :: "nat \<Rightarrow> ('t, 's) quic \<Rightarrow> ('t, 's) quic \<Rightarrow> bool" where
  "timer_answered now c c' \<longleftrightarrow>
     (if due now (q_idle_deadline c) then q_closed c' = Some (if q_connected c then Idle else Connect_timeout)
      else q_closed c' = None \<and> q_needs_send c' \<and>
        (if due now (keepalive_deadline c)
         then q_keepalive_pending c' \<and> keepalive_deadline c' = map_option (\<lambda>t. now + t div 2) (idle_timeout c) \<and> \<not> due now (keepalive_deadline c')
         else if loss_deadline c \<noteq> None then \<not> due now (loss_deadline c') \<and> timer_view c' = timer_view c
         else \<exists>sp at. probe_due c = Some (sp, at) \<and> at \<le> now \<and> q_pto_space c' = sp \<and> q_pto_probes c' = 2 \<and>
           q_pto_count c' = q_pto_count c + 1 \<and> sc_crypto_sent (q_spaces c' sp) = 0))"

text \<open>
  C20. The timer is exact. Before the instant \<open>poll_timeout\<close> names, or when it names none, \<open>handle_timeout\<close> changes nothing.
  From that instant on it does what the deadline that has passed asks for. Idle for too long: the connection is lost, for
  that reason. Otherwise it stays open with something to send: a keep-alive, the next one due half an idle timeout from
  now; the packets of every space checked again, the loss timers left all in the future and no other timer moved; or
  two probes in the space whose timeout it was, its handshake bytes to be sent again, and the back-off one longer.
  The timer does not spin: where the last packet of each space was sent less than seven weeks ago, 35 calls at most
  leave nothing due.
\<close>

theorem timeout_exact:
  assumes "q_closed c = None"
  shows "if \<not> due now (poll_timeout c) then handle_timeout now c = c
    else timer_answered now c (handle_timeout now c) \<and>
      (sent_lately now c \<longrightarrow> (\<exists>n \<le> 35. \<not> due now (poll_timeout ((handle_timeout now ^^ n) c))))"
proof (cases "due now (poll_timeout c)")
  case False
  then show ?thesis using poll_timeout_eq [OF assms] by (simp add: due_earliest handle_timeout_idle)
next
  case fires: True
  define c' where "c' = handle_timeout now c"
  have stops: "sent_lately now c \<longrightarrow> (\<exists>n \<le> 35. \<not> due now (poll_timeout ((handle_timeout now ^^ n) c)))"
  proof
    assume "sent_lately now c"
    then obtain n where "n \<le> timers_left now c + 1" "\<not> due now (poll_timeout ((handle_timeout now ^^ n) c))" using timers_stop by blast
    moreover have "timers_left now c \<le> 34" unfolding timers_left_def of_bool_def by auto
    ultimately show "\<exists>n \<le> 35. \<not> due now (poll_timeout ((handle_timeout now ^^ n) c))" by (intro exI [of _ n]) simp
  qed
  have idle: "q_closed c' = Some (if q_connected c then Idle else Connect_timeout)" if "due now (q_idle_deadline c)"
    using that assms by (simp add: c'_def handle_timeout_def due_def quic_lose_def push_event_def)
  have keepalive: "q_closed c' = None \<and> q_needs_send c' \<and> q_keepalive_pending c' \<and>
      keepalive_deadline c' = map_option (\<lambda>t. now + t div 2) (idle_timeout c) \<and> \<not> due now (keepalive_deadline c')"
    if "\<not> due now (q_idle_deadline c)" "due now (keepalive_deadline c)"
  proof -
    have "q_connected c" "q_unanswered c \<noteq> 0" using that(2) by (auto simp: keepalive_deadline_def due_def split: if_splits)
    moreover have "c' = c\<lparr>q_keepalive_pending := True, q_next_keepalive := map_option (\<lambda>t. now + t div 2) (idle_timeout c), q_needs_send := True\<rparr>"
      using that by (simp add: c'_def handle_timeout_def due_def)
    ultimately show ?thesis using assms keepalive_ahead [of c] by (auto simp: keepalive_deadline_def due_def split: option.split)
  qed
  have recovery: "q_closed c' = None \<and> q_needs_send c' \<and>
      (if loss_deadline c \<noteq> None then \<not> due now (loss_deadline c') \<and> timer_view c' = timer_view c
       else \<exists>sp at. probe_due c = Some (sp, at) \<and> at \<le> now \<and> q_pto_space c' = sp \<and> q_pto_probes c' = 2 \<and>
         q_pto_count c' = q_pto_count c + 1 \<and> sc_crypto_sent (q_spaces c' sp) = 0)"
    if "\<not> due now (q_idle_deadline c)" "\<not> due now (keepalive_deadline c)"
    unfolding c'_def using recovery_fires [OF assms that fires] .
  consider "due now (q_idle_deadline c)" | "\<not> due now (q_idle_deadline c)" "due now (keepalive_deadline c)"
    | "\<not> due now (q_idle_deadline c)" "\<not> due now (keepalive_deadline c)" by blast
  then have "timer_answered now c c'"
  proof cases
    case 1
    then show ?thesis unfolding timer_answered_def using idle [OF 1] by (simp only: if_True)
  next
    case 2
    then show ?thesis unfolding timer_answered_def using keepalive [OF 2] by (simp only: if_True if_False) auto
  next
    case 3
    then show ?thesis unfolding timer_answered_def if_not_P [OF 3(1)] if_not_P [OF 3(2)] by (rule recovery)
  qed
  then show ?thesis using stops fires by (simp only: c'_def simp_thms if_False)
qed

theorem timeout_exact_witness:
  "due 2000000000 (poll_timeout (arm_idle 0 sample_conn)) \<and>
   q_closed (handle_timeout 2000000000 (arm_idle 0 sample_conn)) = Some Connect_timeout \<and>
   (\<exists>n \<le> 35. \<not> due 2000000000 (poll_timeout ((handle_timeout 2000000000 ^^ n) (arm_idle 0 sample_conn))))"
proof -
  have conn: "q_closed (arm_idle 0 sample_conn) = None" "\<not> q_connected (arm_idle 0 sample_conn)" by (simp_all add: sample_eval)
  have idle: "due 2000000000 (q_idle_deadline (arm_idle 0 sample_conn))" by (simp add: sample_eval due_def)
  then have "due 2000000000 (poll_timeout (arm_idle 0 sample_conn))" by (simp add: poll_timeout_eq [OF conn(1)] due_earliest)
  moreover have "sent_lately 2000000000 (arm_idle 0 sample_conn)" by (simp add: sample_eval sent_lately_def)
  ultimately show ?thesis using timeout_exact [OF conn(1), of 2000000000] idle conn(2) by (simp add: timer_answered_def)
qed

end
