(* ===== verification/Uring.thy ===== *)
theory Uring
  imports Prelude "HOL-Library.Multiset"
begin

text \<open>
  What the workers share of the ring: the tag of a completion (\<open>user_data\<close> of \<open>uring.rs\<close>), how many completions a wait
  holds out for, and the ring of provided receive buffers (\<open>buf_ring.rs\<close>).
\<close>

section \<open>Tags of completions\<close>

definition TIMEOUT_USER_DATA :: nat where "TIMEOUT_USER_DATA = 2 ^ 64 - 1"
definition OP_SEND :: nat where "OP_SEND = 0"
definition OP_RECV :: nat where "OP_RECV = 1"
definition OP_CONNECT :: nat where "OP_CONNECT = 2"
definition OP_CONNECT_TIMEOUT :: nat where "OP_CONNECT_TIMEOUT = 3"
definition CONN_IDX_BITS :: nat where "CONN_IDX_BITS = 20"
definition GENERATION_BITS :: nat where "GENERATION_BITS = 64 - 2 - CONN_IDX_BITS"
definition GENERATION_MASK :: nat where "GENERATION_MASK = push_bit GENERATION_BITS 1 - 1"

definition user_data :: "nat \<Rightarrow> nat \<Rightarrow> nat \<Rightarrow> nat" where
  "user_data conn_idx generation op =
     take_bit 64 (push_bit (2 + CONN_IDX_BITS) generation) OR take_bit 64 (push_bit 2 conn_idx) OR op"

definition decode_user_data :: "nat \<Rightarrow> nat \<times> nat \<times> nat" where
  "decode_user_data ud =
     (let op = ud AND 0b11;
          conn_idx = drop_bit 2 ud AND (push_bit CONN_IDX_BITS 1 - 1);
          generation = drop_bit (2 + CONN_IDX_BITS) ud in
      (op, conn_idx, generation))"

text \<open>\<open>next_generation\<close> is the step \<open>close\<close> takes.\<close>

definition next_generation :: "nat \<Rightarrow> nat" where
  "next_generation generation = (generation + 1) AND GENERATION_MASK"

lemma next_generation_eq: "next_generation g = (g + 1) mod 2 ^ 42"
  by (simp add: next_generation_def GENERATION_MASK_def GENERATION_BITS_def CONN_IDX_BITS_def mask_and_mod [of _ 42, simplified])

lemma user_data_arith:
  assumes "i < 2 ^ 20" "g < 2 ^ 42" "op < 4"
  shows "user_data i g op = g * 2 ^ 22 + i * 4 + op"
proof -
  have "i * 4 + op = push_bit 2 i OR op"
    using push_bit_or_add [of op 2 i] assms(3) by (simp add: push_bit_eq_mult)
  moreover have "g * 2 ^ 22 + (i * 4 + op) = push_bit 22 g OR (i * 4 + op)"
    using push_bit_or_add [of "i * 4 + op" 22 g] assms by (simp add: push_bit_eq_mult)
  moreover have "take_bit 64 (push_bit 22 g) = push_bit 22 g" "take_bit 64 (push_bit 2 i) = push_bit 2 i"
    using assms by (simp_all add: take_bit_nat_eq_self push_bit_eq_mult)
  ultimately show ?thesis by (simp add: user_data_def CONN_IDX_BITS_def)
qed

text \<open>
  A completion finds the operation, the connection and the generation it was submitted for. The tag of the run's deadline
  is no connection's, save the connect timeout of the last connection index in the last generation.
\<close>

theorem user_data_round_trip:
  assumes "i < 2 ^ 20" "g < 2 ^ 42" "op < 4"
  shows "decode_user_data (user_data i g op) = (op, i, g) \<and> user_data i g op < 2 ^ 64 \<and>
    (user_data i g op = TIMEOUT_USER_DATA \<longleftrightarrow> op = OP_CONNECT_TIMEOUT \<and> i = 2 ^ 20 - 1 \<and> g = 2 ^ 42 - 1)"
proof -
  let ?u = "g * 2 ^ 22 + i * 4 + op"
  have u: "?u = 4 * (g * 2 ^ 20 + i) + op" by simp
  have "?u mod 4 = op" using assms(3) unfolding u mod_mult_self4 by simp
  then have "?u AND 3 = op" using mask_and_mod [of ?u 2] by simp
  moreover have "drop_bit 2 ?u AND (2 ^ 20 - 1) = i"
  proof -
    have "?u div 4 = g * 2 ^ 20 + i" using assms(3) unfolding u by (subst div_mult_self4) simp_all
    then have "?u div 4 mod 2 ^ 20 = i" using assms(1) by simp
    then show ?thesis using mask_and_mod [of "?u div 4" 20] by (simp add: drop_bit_eq_div)
  qed
  moreover have "drop_bit 22 ?u = g" using assms by (simp add: drop_bit_eq_div)
  ultimately have "decode_user_data ?u = (op, i, g)"
    by (simp add: decode_user_data_def CONN_IDX_BITS_def push_bit_eq_mult)
  moreover have "decode_user_data TIMEOUT_USER_DATA = (OP_CONNECT_TIMEOUT, 2 ^ 20 - 1, 2 ^ 42 - 1)"
    by (simp add: decode_user_data_def CONN_IDX_BITS_def TIMEOUT_USER_DATA_def OP_CONNECT_TIMEOUT_def push_bit_eq_mult
        drop_bit_eq_div)
  ultimately have "?u = TIMEOUT_USER_DATA \<longrightarrow> op = OP_CONNECT_TIMEOUT \<and> i = 2 ^ 20 - 1 \<and> g = 2 ^ 42 - 1" by auto
  moreover have "?u = TIMEOUT_USER_DATA" if "op = OP_CONNECT_TIMEOUT" "i = 2 ^ 20 - 1" "g = 2 ^ 42 - 1"
    using that by (simp add: TIMEOUT_USER_DATA_def OP_CONNECT_TIMEOUT_def)
  moreover have "?u < 2 ^ 64" using assms by simp
  ultimately show ?thesis using \<open>decode_user_data ?u = (op, i, g)\<close> unfolding user_data_arith [OF assms] by blast
qed

theorem user_data_round_trip_witness:
  "decode_user_data (user_data 7 9 OP_RECV) = (OP_RECV, 7, 9) \<and> user_data 7 9 OP_RECV \<noteq> TIMEOUT_USER_DATA"
  using user_data_round_trip [of 7 9 OP_RECV] by (simp add: OP_RECV_def OP_CONNECT_TIMEOUT_def)

section \<open>Batches\<close>

definition MAX_BATCH :: nat where "MAX_BATCH = 8"
definition MAX_BATCH_MULTIPLEXED :: nat where "MAX_BATCH_MULTIPLEXED = 32"
definition BATCH_SHARE :: nat where "BATCH_SHARE = 4"

text \<open>The process-wide settings are arguments: whether the kernel can linger, and the size asked for.\<close>

definition batch_override :: "bool \<Rightarrow> nat \<Rightarrow> nat option" where
  "batch_override min_timeout_ok asked = (if \<not> min_timeout_ok then None else if asked = 0 then None else Some asked)"

definition batch_size :: "bool \<Rightarrow> nat \<Rightarrow> nat \<Rightarrow> nat" where
  "batch_size min_timeout_ok asked connections =
     (case batch_override min_timeout_ok asked of
        Some n \<Rightarrow> n
      | None \<Rightarrow> if \<not> min_timeout_ok then 1 else min (max (connections div BATCH_SHARE) 1) MAX_BATCH)"

definition batch_size_multiplexed :: "bool \<Rightarrow> nat \<Rightarrow> nat \<Rightarrow> nat" where
  "batch_size_multiplexed min_timeout_ok asked parallel =
     (case batch_override min_timeout_ok asked of
        Some n \<Rightarrow> n
      | None \<Rightarrow> if \<not> min_timeout_ok then 1 else min (max (parallel div 2) 1) MAX_BATCH_MULTIPLEXED)"

section \<open>The ring of receive buffers\<close>

text \<open>
  \<open>br_slots\<close> is the entry array: which buffer each slot names. The address and the length of an entry follow from the
  buffer. The tail is the shared one: \<open>recycle\<close> publishes at once.
\<close>

record buf_ring =
  br_entries :: nat
  br_mask :: nat
  br_tail :: nat
  br_buffer_size :: nat
  br_slots :: "nat list"

definition push_entry :: "nat \<Rightarrow> buf_ring \<Rightarrow> buf_ring" where
  "push_entry bid r =
     (let idx = br_tail r AND br_mask r in
      r\<lparr>br_slots := (br_slots r)[idx := bid], br_tail := (br_tail r + 1) mod 2 ^ 16\<rparr>)"

text \<open>\<open>None\<close> is a failed assertion.\<close>

definition with_buffer_size :: "nat \<Rightarrow> nat \<Rightarrow> buf_ring option" where
  "with_buffer_size entries buffer_size =
     (if \<not> (\<exists>k < 16. entries = 2 ^ k) \<or> buffer_size = 0 \<or> buffer_size \<ge> 2 ^ 32 then None
      else Some (fold push_entry [0..<entries]
        \<lparr>br_entries = entries, br_mask = entries - 1, br_tail = 0, br_buffer_size = buffer_size,
         br_slots = replicate entries 0\<rparr>))"

definition buf_recycle :: "nat \<Rightarrow> buf_ring \<Rightarrow> buf_ring" where
  "buf_recycle bid r = push_entry bid r"

text \<open>Where the bytes of a completed receive lie in the data area.\<close>

definition buf_data :: "nat \<Rightarrow> nat \<Rightarrow> buf_ring \<Rightarrow> (nat \<times> nat) option" where
  "buf_data bid len r =
     (if bid < br_entries r \<and> len \<le> br_buffer_size r
      then Some (bid * br_buffer_size r, bid * br_buffer_size r + len) else None)"

text \<open>
  The kernel takes the entry at its head, never past the tail, and hands it to the application, which gives it back.
\<close>

datatype buf_op = Kernel_take | Recycle nat

fun buf_step :: "buf_op \<Rightarrow> nat \<times> nat list \<times> buf_ring \<Rightarrow> nat \<times> nat list \<times> buf_ring" where
  "buf_step Kernel_take (head, held, r) =
     (if head = br_tail r then (head, held, r)
      else ((head + 1) mod 2 ^ 16, br_slots r ! (head AND br_mask r) # held, r))"
| "buf_step (Recycle bid) (head, held, r) =
     (if bid \<in> set held then (head, remove1 bid held, buf_recycle bid r) else (head, held, r))"

text \<open>\<open>n\<close> buffers wait in the ring from the head on; with the ones held they are all buffers.\<close>

definition ring_waiting :: "nat \<Rightarrow> nat \<Rightarrow> nat \<Rightarrow> nat list \<Rightarrow> nat list" where
  "ring_waiting k H n slots = map (\<lambda>i. slots ! ((H + i) mod 2 ^ k)) [0..<n]"

definition buf_at :: "nat \<Rightarrow> nat \<Rightarrow> nat \<Rightarrow> nat \<times> nat list \<times> buf_ring \<Rightarrow> bool" where
  "buf_at k H n s \<longleftrightarrow>
     (case s of (head, held, r) \<Rightarrow>
        br_entries r = 2 ^ k \<and> br_mask r = 2 ^ k - 1 \<and> length (br_slots r) = 2 ^ k \<and>
        head = H mod 2 ^ 16 \<and> br_tail r = (H + n) mod 2 ^ 16 \<and>
        mset (ring_waiting k H n (br_slots r)) + mset held = mset [0..<2 ^ k])"

lemma ring_index: "k \<le> 16 \<Longrightarrow> (x mod 2 ^ 16) AND (2 ^ k - 1) = x mod (2 :: nat) ^ k"
  using mask_and_mod [of "x mod 2 ^ 16" k] mod_mod_cancel [OF le_imp_power_dvd, of k 16 x] by metis

lemma mod_add_inj: "i < n \<Longrightarrow> n < (m :: nat) \<Longrightarrow> (H + i) mod m \<noteq> (H + n) mod m"
proof
  assume i: "i < n" "n < m" and eq: "(H + i) mod m = (H + n) mod m"
  then have "m dvd (H + n) - (H + i)" using mod_eq_dvd_iff_nat [of "H + i" "H + n" m] by simp
  then show False using i by (simp add: nat_dvd_not_less)
qed

lemma waiting_Suc: "ring_waiting k H (Suc n) slots = ring_waiting k H n slots @ [slots ! ((H + n) mod 2 ^ k)]"
  by (simp add: ring_waiting_def)

lemma waiting_Cons: "ring_waiting k H (Suc n) slots = slots ! (H mod 2 ^ k) # ring_waiting k (Suc H) n slots"
proof -
  have "[0..<Suc n] = 0 # map Suc [0..<n]" by (simp add: map_Suc_upt upt_conv_Cons del: upt_Suc)
  then show ?thesis unfolding ring_waiting_def by (simp del: upt_Suc add: comp_def)
qed

lemma waiting_update: "n < 2 ^ k \<Longrightarrow> ring_waiting k H n (slots[(H + n) mod 2 ^ k := b]) = ring_waiting k H n slots"
proof -
  assume n: "n < 2 ^ k"
  have "(slots[(H + n) mod 2 ^ k := b]) ! ((H + i) mod 2 ^ k) = slots ! ((H + i) mod 2 ^ k)" if "i < n" for i
    using mod_add_inj [OF that n, of H] by simp
  then show ?thesis unfolding ring_waiting_def by (intro map_cong) simp_all
qed

lemma buf_recycle_at:
  assumes k: "k < 16" and r: "buf_at k H n (head, held, r)" and bid: "bid \<in> set held"
  shows "buf_at k H (Suc n) (head, remove1 bid held, buf_recycle bid r)"
proof -
  have all: "mset (ring_waiting k H n (br_slots r)) + mset held = mset [0..<2 ^ k]" using r by (simp add: buf_at_def)
  have "n + length held = 2 ^ k" using arg_cong [OF all, of size] by (simp add: ring_waiting_def)
  then have n: "n < 2 ^ k" using bid by (cases held) auto
  have at: "br_tail r AND br_mask r = (H + n) mod 2 ^ k"
    using ring_index [of k "H + n"] k r by (simp add: buf_at_def)
  have "ring_waiting k H (Suc n) ((br_slots r)[(H + n) mod 2 ^ k := bid]) = ring_waiting k H n (br_slots r) @ [bid]"
    using r by (simp add: waiting_Suc waiting_update [OF n] buf_at_def)
  then have "mset (ring_waiting k H (Suc n) ((br_slots r)[(H + n) mod 2 ^ k := bid])) + mset (remove1 bid held) = mset [0..<2 ^ k]"
    using all bid by (simp add: union_mset_add_mset_left [symmetric] insert_DiffM flip: union_mset_add_mset_right)
  then have "mset (ring_waiting k H (Suc n) (br_slots (buf_recycle bid r))) + mset (remove1 bid held) = mset [0..<2 ^ k]"
    unfolding buf_recycle_def push_entry_def Let_def at by simp
  moreover have "br_tail (buf_recycle bid r) = (H + Suc n) mod 2 ^ 16" "br_entries (buf_recycle bid r) = br_entries r"
    "br_mask (buf_recycle bid r) = br_mask r" "length (br_slots (buf_recycle bid r)) = length (br_slots r)"
    using r by (simp_all add: buf_recycle_def push_entry_def Let_def buf_at_def mod_Suc_eq)
  ultimately show ?thesis using r unfolding buf_at_def prod.case by (simp only: simp_thms)
qed

lemma buf_take_at:
  assumes k: "k < 16" and r: "buf_at k H (Suc n) (head, held, r)"
  shows "buf_at k (Suc H) n ((head + 1) mod 2 ^ 16, br_slots r ! (head AND br_mask r) # held, r)"
proof -
  have at: "head AND br_mask r = H mod 2 ^ k" using ring_index [of k H] k r by (simp add: buf_at_def)
  have "mset (ring_waiting k (Suc H) n (br_slots r)) + mset (br_slots r ! (H mod 2 ^ k) # held) = mset [0..<2 ^ k]"
    using r unfolding buf_at_def waiting_Cons by (simp del: mset_upt)
  then show ?thesis using r unfolding buf_at_def prod.case at by (simp add: mod_Suc_eq del: mset_upt)
qed

lemma buf_step_at:
  assumes k: "k < 16" and s: "buf_at k H n s"
  shows "\<exists>H n. buf_at k H n (buf_step op s)"
proof -
  obtain head held r where hr: "s = (head, held, r)" by (cases s)
  show ?thesis
  proof (cases op)
    case Kernel_take
    show ?thesis
    proof (cases "head = br_tail r")
      case False
      then obtain m where "n = Suc m" using s by (cases n) (auto simp: hr buf_at_def)
      then show ?thesis using buf_take_at [OF k, of H m head held r] s False by (auto simp: hr Kernel_take)
    qed (use s in \<open>auto simp: hr Kernel_take\<close>)
  next
    case (Recycle bid)
    then show ?thesis using buf_recycle_at [OF k, of H n head held r bid] s by (cases "bid \<in> set held") (auto simp: hr)
  qed
qed

lemma buf_run_at: "k < 16 \<Longrightarrow> buf_at k H n s \<Longrightarrow> \<exists>H n. buf_at k H n (fold buf_step ops s)"
proof (induction ops arbitrary: H n s)
  case (Cons op ops)
  then show ?case using buf_step_at [of k H n s op] by fastforce
qed auto

lemma seed_at:
  assumes "m \<le> 2 ^ k" "k < 16"
  shows "buf_at k 0 m (0, [m..<2 ^ k], fold push_entry [0..<m]
    \<lparr>br_entries = 2 ^ k, br_mask = 2 ^ k - 1, br_tail = 0, br_buffer_size = b, br_slots = replicate (2 ^ k) 0\<rparr>)"
  using assms
proof (induction m)
  case (Suc m)
  then have "buf_at k 0 m (0, [m..<2 ^ k], fold push_entry [0..<m]
    \<lparr>br_entries = 2 ^ k, br_mask = 2 ^ k - 1, br_tail = 0, br_buffer_size = b, br_slots = replicate (2 ^ k) 0\<rparr>)" by simp
  from buf_recycle_at [OF Suc.prems(2) this, of m] Suc.prems show ?case by (simp add: buf_recycle_def upt_conv_Cons)
qed (simp add: buf_at_def ring_waiting_def)

text \<open>
  C19. Receive buffers are conserved. However the kernel's takes and the worker's returns interleave, and however often the
  sixteen-bit counters wrap, the buffers waiting in the ring and the buffers held are all the buffers, each once: no entry
  is overwritten before the kernel has taken it, and no buffer is handed out while it is still being read.
\<close>

theorem buffers_conserved:
  assumes "with_buffer_size entries buffer_size = Some r0" "fold buf_step ops (0, [], r0) = (head, held, r)"
  shows "\<exists>H n. br_tail r = (H + n) mod 2 ^ 16 \<and> head = H mod 2 ^ 16 \<and> n + length held = entries \<and>
    mset (map (\<lambda>i. br_slots r ! ((H + i) mod entries)) [0..<n]) + mset held = mset [0..<entries] \<and> distinct held"
proof -
  obtain k where k: "k < 16" "entries = 2 ^ k" and r0: "r0 = fold push_entry [0..<entries]
      \<lparr>br_entries = entries, br_mask = entries - 1, br_tail = 0, br_buffer_size = buffer_size, br_slots = replicate entries 0\<rparr>"
    using assms(1) by (auto simp: with_buffer_size_def split: if_splits)
  have "buf_at k 0 (2 ^ k) (0, [], r0)" using seed_at [OF order_refl k(1), of buffer_size] unfolding r0 k(2) by simp
  then obtain H n where at: "buf_at k H n (head, held, r)" using buf_run_at [OF k(1)] assms(2) by metis
  then have all: "mset (map (\<lambda>i. br_slots r ! ((H + i) mod entries)) [0..<n]) + mset held = mset [0..<entries]"
    by (simp add: buf_at_def ring_waiting_def k(2) del: mset_map)
  then have "mset (map (\<lambda>i. br_slots r ! ((H + i) mod entries)) [0..<n] @ held) = mset [0..<entries]" by simp
  then have "distinct (map (\<lambda>i. br_slots r ! ((H + i) mod entries)) [0..<n] @ held)"
    using mset_eq_imp_distinct_iff by (metis distinct_upt)
  then have "distinct held" by simp
  moreover have "n + length held = entries" using arg_cong [OF all, of size] by simp
  ultimately show ?thesis using at all by (auto simp: buf_at_def simp del: mset_map mset_upt)
qed

theorem buffers_conserved_witness:
  "\<exists>r0 head held r. with_buffer_size 2 16384 = Some r0 \<and>
     fold buf_step [Kernel_take, Kernel_take, Recycle 0, Kernel_take] (0, [], r0) = (head, held, r) \<and> distinct held"
proof -
  have "\<exists>k < 16. (2 :: nat) = 2 ^ k" by (rule exI [of _ 1]) simp
  then obtain r0 where r0: "with_buffer_size 2 16384 = Some r0" by (simp add: with_buffer_size_def)
  obtain head held r where run: "fold buf_step [Kernel_take, Kernel_take, Recycle 0, Kernel_take] (0, [], r0) = (head, held, r)"
    by (metis prod_cases3)
  show ?thesis using r0 run buffers_conserved [OF r0 run] by blast
qed

section \<open>The ring as the workers see it\<close>

text \<open>
  What is queued for the kernel, in order: sends with the bytes they point at, sends the kernel cuts into segments,
  receives, connects with their linked timeout, the run's deadline, and bytes that bypass the ring (\<open>libc::send\<close>).
\<close>

datatype sqe =
    Sqe_send nat nat bytes | Sqe_sendmsg nat nat bytes nat | Sqe_recv_single nat nat | Sqe_recv_multi nat nat
  | Sqe_recvmsg_multi nat nat | Sqe_connect nat nat | Sqe_deadline nat | Raw_send nat bytes

text \<open>
  The kernel's answers are arguments: \<open>io_ok n\<close> says whether the \<open>n\<close>th call into the ring succeeds, \<open>io_fd n\<close> is the
  descriptor a successful connect gets.
\<close>

record ring_io =
  io_ok :: "nat \<Rightarrow> bool"
  io_fd :: "nat \<Rightarrow> nat"

record uring =
  ur_sq :: "sqe list"
  ur_calls :: nat
  ur_bufs :: buf_ring

definition ring_call :: "ring_io \<Rightarrow> uring \<Rightarrow> uring option" where
  "ring_call io r = (if io_ok io (ur_calls r) then Some (r\<lparr>ur_calls := ur_calls r + 1\<rparr>) else None)"

definition push_sqe :: "ring_io \<Rightarrow> sqe \<Rightarrow> uring \<Rightarrow> uring option" where
  "push_sqe io e r = map_option (\<lambda>r. r\<lparr>ur_sq := ur_sq r @ [e]\<rparr>) (ring_call io r)"

definition start_connect :: "ring_io \<Rightarrow> nat \<Rightarrow> nat \<Rightarrow> uring \<Rightarrow> (nat \<times> uring) option" where
  "start_connect io conn_idx generation r =
     map_option (\<lambda>r'. (io_fd io (ur_calls r), r')) (push_sqe io (Sqe_connect conn_idx generation) r)"

text \<open>The length of a send is cast to 32 bits.\<close>

definition push_send_slice :: "ring_io \<Rightarrow> nat \<Rightarrow> nat \<Rightarrow> bytes \<Rightarrow> uring \<Rightarrow> uring option" where
  "push_send_slice io conn_idx generation data r =
     push_sqe io (Sqe_send conn_idx generation (take (take_bit 32 (length data)) data)) r"

definition push_recv_single :: "ring_io \<Rightarrow> nat \<Rightarrow> nat \<Rightarrow> uring \<Rightarrow> uring option" where
  "push_recv_single io conn_idx generation r = push_sqe io (Sqe_recv_single conn_idx generation) r"

definition push_recv_multi :: "ring_io \<Rightarrow> nat \<Rightarrow> nat \<Rightarrow> uring \<Rightarrow> uring option" where
  "push_recv_multi io conn_idx generation r = push_sqe io (Sqe_recv_multi conn_idx generation) r"

definition push_recvmsg_multi :: "ring_io \<Rightarrow> nat \<Rightarrow> nat \<Rightarrow> uring \<Rightarrow> uring option" where
  "push_recvmsg_multi io conn_idx generation r = push_sqe io (Sqe_recvmsg_multi conn_idx generation) r"

text \<open>A connected UDP socket; making one may fail like any other call.\<close>

definition make_udp_socket :: "ring_io \<Rightarrow> uring \<Rightarrow> (nat \<times> uring) option" where
  "make_udp_socket io r = map_option (\<lambda>r'. (io_fd io (ur_calls r), r')) (ring_call io r)"

definition arm_deadline :: "ring_io \<Rightarrow> nat option \<Rightarrow> uring \<Rightarrow> uring option" where
  "arm_deadline io deadline r = (case deadline of None \<Rightarrow> Some r | Some after \<Rightarrow> push_sqe io (Sqe_deadline after) r)"

text \<open>A completion: its tag and result, the buffer attached, whether the receive goes on, and what was received.\<close>

record cqe =
  cq_user_data :: nat
  cq_result :: int
  cq_buffer :: "nat option"
  cq_more :: bool
  cq_bytes :: bytes

definition recycle_buffer :: "nat option \<Rightarrow> uring \<Rightarrow> uring" where
  "recycle_buffer bid r = (case bid of None \<Rightarrow> r | Some b \<Rightarrow> r\<lparr>ur_bufs := buf_recycle b (ur_bufs r)\<rparr>)"

definition ENOBUFS :: int where "ENOBUFS = 105"
definition EMSGSIZE :: int where "EMSGSIZE = 90"

lemma ring_sq:
  "ring_call io r = Some r' \<Longrightarrow> ur_sq r' = ur_sq r \<and> ur_bufs r' = ur_bufs r"
  "push_sqe io e r = Some r' \<Longrightarrow> ur_sq r' = ur_sq r @ [e] \<and> ur_bufs r' = ur_bufs r"
  "ur_sq (recycle_buffer bid r) = ur_sq r"
  by (auto simp: ring_call_def push_sqe_def recycle_buffer_def split: if_splits option.split)

text \<open>Counting over the slots of a worker when one of them changes.\<close>

lemma sum_list_update_add: "i < length xs \<Longrightarrow> sum_list (map f (xs[i := y])) + (f (xs ! i) :: nat) = sum_list (map f xs) + f y"
proof (induction xs arbitrary: i)
  case (Cons x xs)
  then show ?case by (cases i) auto
qed simp

end
