(* ===== verification/Stats.thy ===== *)
theory Stats
  imports Prelude "HOL-Library.Multiset"
begin

text \<open>
  The statistics of a run (\<open>stats.rs\<close>): what a worker records, how the workers' results are merged, and the latency
  summary with its in-place selection of percentiles.
\<close>

section \<open>Recording and merging\<close>

record stats =
  st_completed :: nat
  st_errors :: nat
  st_connect_errors :: nat
  st_bytes_received :: nat
  st_bytes_sent :: nat
  st_latencies_ns :: "nat list"
  st_status_counts :: "nat list"

definition stats_default :: stats where
  "stats_default = \<lparr>st_completed = 0, st_errors = 0, st_connect_errors = 0, st_bytes_received = 0, st_bytes_sent = 0,
     st_latencies_ns = [], st_status_counts = replicate 1000 0\<rparr>"

text \<open>
  \<open>elapsed\<close> is the time since the request started, in nanoseconds. A status past the table would panic in the source;
  every decoder produces three digits.
\<close>

definition record_success :: "nat \<Rightarrow> nat \<Rightarrow> stats \<Rightarrow> stats" where
  "record_success status_code elapsed s =
     s\<lparr>st_completed := st_completed s + 1,
       st_status_counts := (st_status_counts s)[status_code := st_status_counts s ! status_code + 1],
       st_latencies_ns := st_latencies_ns s @ [take_bit 64 elapsed]\<rparr>"

definition stats_merge :: "stats \<Rightarrow> stats \<Rightarrow> stats" where
  "stats_merge s t =
     \<lparr>st_completed = st_completed s + st_completed t, st_errors = st_errors s + st_errors t,
      st_connect_errors = st_connect_errors s + st_connect_errors t,
      st_bytes_received = st_bytes_received s + st_bytes_received t, st_bytes_sent = st_bytes_sent s + st_bytes_sent t,
      st_latencies_ns = st_latencies_ns s @ st_latencies_ns t,
      st_status_counts = map2 (+) (st_status_counts s) (st_status_counts t)\<rparr>"

fun merge_all :: "stats \<Rightarrow> ('e, stats) result list \<Rightarrow> ('e, stats) result" where
  "merge_all s [] = Inr s"
| "merge_all s (r # rs) = rbind r (\<lambda>t. merge_all (stats_merge s t) rs)"

text \<open>The capacity reserved for several workers changes nothing of the value.\<close>

definition merge_workers :: "('e, stats) result list \<Rightarrow> ('e, stats) result" where
  "merge_workers results = (if length results = 1 then last results else merge_all stats_default results)"

text \<open>A table of a thousand statuses that counts exactly what completed, with a latency for each.\<close>

definition stats_ok :: "stats \<Rightarrow> bool" where
  "stats_ok s \<longleftrightarrow> length (st_status_counts s) = 1000 \<and> sum_list (st_status_counts s) = st_completed s \<and>
     length (st_latencies_ns s) = st_completed s"

lemma sum_list_bump: "i < length (xs :: nat list) \<Longrightarrow> sum_list (xs[i := xs ! i + 1]) = sum_list xs + 1"
proof (induction xs arbitrary: i)
  case (Cons x xs)
  then show ?case by (cases i) auto
qed simp

lemma record_success_ok: "stats_ok s \<Longrightarrow> status < 1000 \<Longrightarrow> stats_ok (record_success status elapsed s)"
  using sum_list_bump [of status "st_status_counts s"] by (simp add: stats_ok_def record_success_def)

lemma sum_list_map2: "length xs = length ys \<Longrightarrow> sum_list (map2 (+) xs (ys :: nat list)) = sum_list xs + sum_list ys"
  by (induction xs ys rule: list_induct2) auto

lemma stats_merge_ok: "stats_ok s \<Longrightarrow> stats_ok t \<Longrightarrow> stats_ok (stats_merge s t)"
  by (simp add: stats_ok_def stats_merge_def sum_list_map2)

lemma stats_default_ok: "stats_ok stats_default"
  by (simp add: stats_ok_def stats_default_def sum_list_replicate)

lemma merge_all_ok:
  assumes "merge_all s results = Inr r" "stats_ok s" "\<forall>t. Inr t \<in> set results \<longrightarrow> stats_ok t"
  shows "stats_ok r \<and> (\<exists>ts. results = map Inr ts \<and>
     st_completed r = st_completed s + (\<Sum>t\<leftarrow>ts. st_completed t) \<and> st_errors r = st_errors s + (\<Sum>t\<leftarrow>ts. st_errors t) \<and>
     st_latencies_ns r = st_latencies_ns s @ concat (map st_latencies_ns ts))"
  using assms
proof (induction s results rule: merge_all.induct)
  case (2 s x rs)
  then obtain t where t: "x = Inr t" "merge_all (stats_merge s t) rs = Inr r" by auto
  have "stats_ok (stats_merge s t)" using 2(3,4) t(1) by (intro stats_merge_ok) auto
  then obtain ts where "stats_ok r" "rs = map Inr ts"
    "st_completed r = st_completed (stats_merge s t) + (\<Sum>t\<leftarrow>ts. st_completed t)"
    "st_errors r = st_errors (stats_merge s t) + (\<Sum>t\<leftarrow>ts. st_errors t)"
    "st_latencies_ns r = st_latencies_ns (stats_merge s t) @ concat (map st_latencies_ns ts)"
    using "2.IH" [of t] t 2(4) by auto
  then show ?case using t(1) by (intro conjI exI [of _ "t # ts"]) (auto simp: stats_merge_def)
qed auto

text \<open>
  The report adds up. Merging the workers' results fails exactly when a worker failed; otherwise every count is the sum
  of the workers' counts, the latencies are theirs in order, and a status table that summed to what each worker completed
  sums to what the run completed.
\<close>

theorem merge_workers_sums:
  assumes "\<forall>t. Inr t \<in> set results \<longrightarrow> stats_ok t"
  shows "case merge_workers results of
      Inl e \<Rightarrow> Inl e \<in> set results
    | Inr r \<Rightarrow> stats_ok r \<and> (\<exists>ts. results = map Inr ts \<and>
        st_completed r = (\<Sum>t\<leftarrow>ts. st_completed t) \<and> st_errors r = (\<Sum>t\<leftarrow>ts. st_errors t) \<and>
        st_latencies_ns r = concat (map st_latencies_ns ts))"
proof (cases "length results = 1")
  case True
  then obtain x where x: "results = [x]" by (metis One_nat_def length_0_conv length_Suc_conv)
  show ?thesis
  proof (cases x)
    case (Inr t)
    then show ?thesis using assms x by (auto simp: merge_workers_def intro: exI [of _ "[t]"])
  qed (simp add: x merge_workers_def)
next
  case False
  have err: "Inl e \<in> set rs" if "merge_all s rs = Inl e" for s :: stats and rs and e :: 'a
    using that by (induction s rs rule: merge_all.induct) (auto simp: rbind_eq_Inl)
  show ?thesis
  proof (cases "merge_all stats_default results")
    case (Inr r)
    then show ?thesis using False merge_all_ok [OF Inr stats_default_ok assms]
      by (auto simp: merge_workers_def stats_default_def)
  qed (use False err in \<open>auto simp: merge_workers_def\<close>)
qed

theorem merge_workers_sums_witness:
  "\<exists>r. merge_workers [Inr (record_success 200 5 stats_default), Inr (record_success 404 7 stats_default) :: (unit, stats) result] = Inr r
     \<and> stats_ok r"
proof -
  let ?rs = "[Inr (record_success 200 5 stats_default), Inr (record_success 404 7 stats_default) :: (unit, stats) result]"
  have ok: "\<forall>t. Inr t \<in> set ?rs \<longrightarrow> stats_ok t" by (auto intro!: record_success_ok stats_default_ok)
  show ?thesis using merge_workers_sums [OF ok] by (auto simp: merge_workers_def)
qed

section \<open>Latency summary\<close>

text \<open>
  \<open>partition_point\<close> of a list the predicate splits. \<open>select_nth_unstable\<close> is the argument \<open>sel\<close>: it reorders the samples
  so that the wanted one is in its place, everything before it no larger and everything after it no smaller; the order
  of the rest is unspecified.
\<close>

definition partition_point :: "('a \<Rightarrow> bool) \<Rightarrow> 'a list \<Rightarrow> nat" where
  "partition_point P xs = length (takeWhile P xs)"

definition placed :: "nat \<Rightarrow> nat list \<Rightarrow> bool" where
  "placed i ys \<longleftrightarrow> i < length ys \<and> (\<forall>x \<in> set (take i ys). x \<le> ys ! i) \<and> (\<forall>x \<in> set (drop i ys). ys ! i \<le> x)"

definition select_law :: "(nat \<Rightarrow> nat list \<Rightarrow> nat list) \<Rightarrow> bool" where
  "select_law sel \<longleftrightarrow> (\<forall>i xs. i < length xs \<longrightarrow> mset (sel i xs) = mset xs \<and> placed i (sel i xs))"

lemma partition_point_le: "partition_point P xs \<le> length xs"
  by (simp add: partition_point_def length_takeWhile_le)

lemma lower_end_less: "i < length ranks \<Longrightarrow> partition_point (\<lambda>r. r < ranks ! i) ranks < length (ranks :: nat list)"
  using nth_length_takeWhile [of "\<lambda>r. r < ranks ! i" ranks] takeWhile_nth [of i "\<lambda>r. r < ranks ! i" ranks]
    set_takeWhileD [of "ranks ! i" "\<lambda>r. r < ranks ! i" ranks]
  unfolding partition_point_def by (metis length_takeWhile_le le_neq_implies_less less_irrefl nth_mem)

text \<open>\<open>None\<close> is a panic: a rank outside the samples. Only a reordering counts as a selection.\<close>

definition select_nth :: "(nat \<Rightarrow> nat list \<Rightarrow> nat list) \<Rightarrow> nat \<Rightarrow> nat list \<Rightarrow> nat list" where
  "select_nth sel i xs = (if mset (sel i xs) = mset xs then sel i xs else xs)"

lemma length_select_nth [simp]: "length (select_nth sel i xs) = length xs"
  by (auto simp: select_nth_def dest: mset_eq_length)

function select_ranks :: "(nat \<Rightarrow> nat list \<Rightarrow> nat list) \<Rightarrow> nat list \<Rightarrow> nat list \<Rightarrow> nat \<Rightarrow> nat list option" where
  "select_ranks sel samples ranks offset =
     (if ranks = [] then Some samples
      else
        let middle = offset + length samples div 2;
            split = min (partition_point (\<lambda>rank. rank < middle) ranks) (length ranks - 1);
            rank = ranks ! split in
        if rank < offset \<or> rank - offset \<ge> length samples then None
        else
          let ys = select_nth sel (rank - offset) samples;
              lower_end = partition_point (\<lambda>r. r < rank) ranks;
              upper_start = partition_point (\<lambda>r. r \<le> rank) ranks in
          case select_ranks sel (take (rank - offset) ys) (take lower_end ranks) offset of
            None \<Rightarrow> None
          | Some lower \<Rightarrow>
              (case select_ranks sel (drop (rank - offset + 1) ys) (drop upper_start ranks) (rank + 1) of
                 None \<Rightarrow> None
               | Some upper \<Rightarrow> Some (lower @ ys ! (rank - offset) # upper)))"
  by pat_completeness auto

termination
proof (relation "measure (\<lambda>(sel, samples, ranks, offset). length ranks + length samples)")
  fix sel samples ranks offset middle split rank ys lower_end
  assume *: "ranks \<noteq> []" "split = min (partition_point (\<lambda>rank. rank < middle) ranks) (length ranks - 1)" "rank = ranks ! split"
    "lower_end = partition_point (\<lambda>r. r < rank) ranks" "ys = select_nth sel (rank - offset) samples"
  then have "lower_end < length ranks" using lower_end_less [of split ranks] by (cases ranks) auto
  then have "length (take lower_end ranks) < length ranks" by simp
  moreover have "length (take (rank - offset) ys) \<le> length samples" using *(5) by simp
  ultimately show "((sel, take (rank - offset) ys, take lower_end ranks, offset), sel, samples, ranks, offset)
      \<in> measure (\<lambda>(sel, samples, ranks, offset). length ranks + length samples)"
    by (simp add: add_less_le_mono del: length_take)
next
  fix sel samples ranks offset middle split rank ys lower_end upper_start lower
  assume "\<not> (rank < offset \<or> length samples \<le> rank - offset)" "ys = select_nth sel (rank - offset) samples"
  then have "length (drop (rank - offset + 1) ys) < length samples" by auto
  moreover have "length (drop upper_start ranks) \<le> length ranks" by simp
  ultimately show "((sel, drop (rank - offset + 1) ys, drop upper_start ranks, rank + 1), sel, samples, ranks, offset)
      \<in> measure (\<lambda>(sel, samples, ranks, offset). length ranks + length samples)"
    by (simp add: add_le_less_mono del: length_drop)
qed simp

declare select_ranks.simps [simp del]

text \<open>What is placed is the order statistic.\<close>

lemma placed_sort:
  assumes "placed i ys" "mset ys = mset xs"
  shows "sort xs ! i = ys ! i"
proof -
  have i: "i < length ys" using assms(1) by (simp add: placed_def)
  have ys: "ys = take i ys @ ys ! i # drop (Suc i) ys" by (rule id_take_nth_drop [OF i])
  have up: "x \<ge> ys ! i" if "x \<in> set (drop (Suc i) ys)" for x
    using assms(1) that set_drop_subset_set_drop [of i "Suc i" ys] by (auto simp: placed_def)
  let ?s = "sort (take i ys) @ ys ! i # sort (drop (Suc i) ys)"
  have "sorted ?s" using assms(1) up by (auto simp: sorted_append placed_def intro: order_trans)
  moreover have "mset ?s = mset xs" using arg_cong [OF ys, of mset] assms(2) by simp
  ultimately have "sort xs = ?s" by (intro properties_for_sort) simp_all
  then show ?thesis using i by (simp add: nth_append)
qed

lemma placed_append:
  assumes "placed i xs" "\<forall>x \<in> set xs. \<forall>y \<in> set ys. x \<le> y"
  shows "placed i (xs @ ys)"
  using assms by (auto simp: placed_def nth_append)

lemma placed_behind:
  assumes "placed i ys" "\<forall>x \<in> set xs. \<forall>y \<in> set ys. x \<le> y"
  shows "placed (length xs + i) (xs @ ys)"
  using assms by (auto simp: placed_def nth_append)

lemma placed_middle:
  assumes "\<forall>x \<in> set xs. x \<le> p" "\<forall>y \<in> set ys. p \<le> y"
  shows "placed (length xs) (xs @ p # ys)"
  using assms by (auto simp: placed_def)

lemma takeWhile_sorted: "sorted (xs :: nat list) \<Longrightarrow> takeWhile (\<lambda>r. r < b) xs = filter (\<lambda>r. r < b) xs"
proof (induction xs)
  case (Cons x xs)
  have "filter (\<lambda>r. r < b) xs = []" if "\<not> x < b" using Cons.prems that by (auto simp: filter_empty_conv)
  then show ?case using Cons by auto
qed simp

lemma ranks_below: "sorted ranks \<Longrightarrow> take (partition_point (\<lambda>r. r < b) ranks) ranks = filter (\<lambda>r. r < b) (ranks :: nat list)"
  unfolding partition_point_def takeWhile_eq_take [symmetric] by (rule takeWhile_sorted)

lemma ranks_above: "sorted ranks \<Longrightarrow> drop (partition_point (\<lambda>r. r \<le> b) ranks) ranks = filter (\<lambda>r. b < r) (ranks :: nat list)"
  unfolding partition_point_def dropWhile_eq_drop [symmetric]
proof (induction ranks)
  case (Cons x xs)
  have "filter (\<lambda>r. b < r) xs = xs" if "b < x" using Cons.prems that by (intro filter_True) auto
  then show ?case using Cons by auto
qed simp

lemma select_nth_law:
  assumes "select_law sel" "i < length xs"
  obtains lower p upper where "select_nth sel i xs = lower @ p # upper" "length lower = i" "mset xs = mset (lower @ p # upper)"
    "\<forall>x \<in> set lower. x \<le> p" "\<forall>y \<in> set upper. p \<le> y"
proof -
  let ?ys = "select_nth sel i xs"
  have ys: "mset ?ys = mset xs" "placed i ?ys" using assms by (auto simp: select_law_def select_nth_def)
  have i: "i < length ?ys" using assms(2) by simp
  have "?ys = take i ?ys @ ?ys ! i # drop (Suc i) ?ys" by (rule id_take_nth_drop [OF i])
  moreover from this have "mset xs = mset (take i ?ys @ ?ys ! i # drop (Suc i) ?ys)" using ys(1) by simp
  moreover have "\<forall>y \<in> set (drop (Suc i) ?ys). ?ys ! i \<le> y"
    using ys(2) set_drop_subset_set_drop [of i "Suc i" ?ys] by (auto simp: placed_def)
  ultimately show thesis using that [of "take i ?ys" "?ys ! i" "drop (Suc i) ?ys"] ys(2) i by (simp add: placed_def)
qed

lemma select_ranks_placed:
  assumes "select_law sel" "sorted ranks" "\<forall>r \<in> set ranks. offset \<le> r \<and> r < offset + length samples"
  shows "\<exists>ys. select_ranks sel samples ranks offset = Some ys \<and> mset ys = mset samples \<and> (\<forall>r \<in> set ranks. placed (r - offset) ys)"
  using assms(2,3)
proof (induction "length ranks + length samples" arbitrary: samples ranks offset rule: less_induct)
  case less
  show ?case
  proof (cases "ranks = []")
    case True
    then show ?thesis by (simp add: select_ranks.simps)
  next
    case False
    define middle where "middle = offset + length samples div 2"
    define split where "split = min (partition_point (\<lambda>rank. rank < middle) ranks) (length ranks - 1)"
    define rank where "rank = ranks ! split"
    define i where "i = rank - offset"
    have split: "split < length ranks" using False by (cases ranks) (auto simp: split_def)
    then have mem: "rank \<in> set ranks" by (simp add: rank_def)
    then have rank: "offset \<le> rank" "i < length samples" using less.prems(2) by (auto simp: i_def)
    obtain lower p upper where ys: "select_nth sel i samples = lower @ p # upper" "length lower = i"
      "mset samples = mset (lower @ p # upper)" "\<forall>x \<in> set lower. x \<le> p" "\<forall>y \<in> set upper. p \<le> y"
      by (rule select_nth_law [OF assms(1) rank(2)])
    have len: "length samples = i + 1 + length upper" using ys(2,3) by (metis length_append length_Cons mset_eq_length add.assoc plus_1_eq_Suc add_Suc_right add_Suc)
    let ?below = "filter (\<lambda>r. r < rank) ranks" and ?above = "filter (\<lambda>r. rank < r) ranks"
    have shorter: "length ?below < length ranks" using mem by (intro length_filter_less [of rank]) auto
    have sub: "sorted (filter P ranks)" for P using less.prems(1) by (rule sorted_wrt_filter)
    have "\<exists>l. select_ranks sel lower ?below offset = Some l \<and> mset l = mset lower \<and> (\<forall>r \<in> set ?below. placed (r - offset) l)"
      using shorter len ys(2) less.prems(2) rank by (intro less.hyps sub) (auto simp: i_def)
    then obtain l where l: "select_ranks sel lower ?below offset = Some l" "mset l = mset lower"
      "\<forall>r \<in> set ?below. placed (r - offset) l" by blast
    have "length ?above \<le> length ranks" by simp
    then have "\<exists>u. select_ranks sel upper ?above (rank + 1) = Some u \<and> mset u = mset upper \<and>
        (\<forall>r \<in> set ?above. placed (r - (rank + 1)) u)"
      using len less.prems(2) rank by (intro less.hyps sub) (auto simp: i_def simp del: length_filter_le)
    then obtain u where u: "select_ranks sel upper ?above (rank + 1) = Some u" "mset u = mset upper"
      "\<forall>r \<in> set ?above. placed (r - (rank + 1)) u" by blast
    have "select_ranks sel samples ranks offset = Some (l @ p # u)"
      unfolding select_ranks.simps [of sel samples ranks] Let_def middle_def [symmetric] split_def [symmetric] rank_def [symmetric]
        i_def [symmetric] ranks_below [OF less.prems(1)] ranks_above [OF less.prems(1)] ys(1)
      using False rank ys(2) l(1) u(1) by (simp add: nth_append)
    moreover have "mset (l @ p # u) = mset samples" using l(2) u(2) ys(3) by simp
    moreover have "placed (r - offset) (l @ p # u)" if "r \<in> set ranks" for r
    proof -
      have sets: "set l = set lower" "set u = set upper" using l(2) u(2) by (metis set_mset_mset)+
      have lens: "length l = i" using l(2) ys(2) by (metis mset_eq_length)
      consider "r < rank" | "r = rank" | "rank < r" by linarith
      then show ?thesis
      proof cases
        case 1
        then have "placed (r - offset) l" using l(3) that by simp
        then show ?thesis using ys(4,5) sets by (intro placed_append) force+
      next
        case 2
        then show ?thesis using placed_middle [of l p u] ys(4,5) sets lens by (simp add: i_def)
      next
        case 3
        then have "placed (r - (rank + 1)) u" using u(3) that by simp
        then have "placed (length (l @ [p]) + (r - (rank + 1))) ((l @ [p]) @ u)"
          using ys(4,5) sets by (intro placed_behind) force+
        moreover have "length (l @ [p]) + (r - (rank + 1)) = r - offset" using 3 rank lens by (simp add: i_def)
        ultimately show ?thesis by simp
      qed
    qed
    ultimately show ?thesis by blast
  qed
qed

text \<open>
  The summary in nanoseconds: the mean is kept as the exact total, the percentiles as the samples they name. The index
  formula is floating point, so \<open>floor_rank p len\<close> stands for \<open>(p / 100.0 * len as f64) as usize\<close>. The other component of the
  result is the reordered sample slice.
\<close>

record latency_summary =
  ls_min :: nat
  ls_total :: nat
  ls_max :: nat
  ls_percentiles :: "nat list"

definition latency_summary_of ::
    "(nat \<Rightarrow> nat list \<Rightarrow> nat list) \<Rightarrow> (nat \<Rightarrow> nat \<Rightarrow> nat) \<Rightarrow> nat list \<Rightarrow> (latency_summary \<times> nat list) option" where
  "latency_summary_of sel floor_rank lat =
     (if lat = [] then None
      else
        let len = length lat;
            total = sum_list lat;
            ranks = map (\<lambda>p. min (floor_rank p len) (len - 1)) [0..<9];
            lat = (if len \<le> 1024 then sort lat else lat) in
        if len \<le> 1024 \<or> sorted lat then
          Some (\<lparr>ls_min = lat ! 0, ls_total = total, ls_max = lat ! (len - 1), ls_percentiles = map (\<lambda>rank. lat ! rank) ranks\<rparr>, lat)
        else if sorted_wrt (\<lambda>a b. a \<ge> b) lat then
          Some (\<lparr>ls_min = lat ! (len - 1), ls_total = total, ls_max = lat ! 0,
            ls_percentiles = map (\<lambda>rank. lat ! (len - 1 - rank)) ranks\<rparr>, lat)
        else
          (case select_ranks sel lat ranks 0 of
             None \<Rightarrow> None
           | Some lat \<Rightarrow>
               Some (\<lparr>ls_min = Min (set (take (ranks ! 0 + 1) lat)), ls_total = total, ls_max = Max (set (drop (ranks ! 8) lat)),
                 ls_percentiles = map (\<lambda>rank. lat ! rank) ranks\<rparr>, lat)))"

text \<open>The reference: sort, then look up.\<close>

definition sorted_summary :: "(nat \<Rightarrow> nat \<Rightarrow> nat) \<Rightarrow> nat list \<Rightarrow> latency_summary" where
  "sorted_summary floor_rank lat =
     \<lparr>ls_min = Min (set lat), ls_total = sum_list lat, ls_max = Max (set lat),
      ls_percentiles = map (\<lambda>p. sort lat ! min (floor_rank p (length lat)) (length lat - 1)) [0..<9]\<rparr>"

lemma sorted_ends:
  assumes "sorted (xs :: nat list)" "xs \<noteq> []"
  shows "xs ! 0 = Min (set xs)" "xs ! (length xs - 1) = Max (set xs)"
proof -
  have "xs ! 0 \<le> x \<and> x \<le> xs ! (length xs - 1)" if "x \<in> set xs" for x
    using that assms by (auto simp: in_set_conv_nth intro: sorted_nth_mono)
  then show "xs ! 0 = Min (set xs)" "xs ! (length xs - 1) = Max (set xs)"
    using assms(2) by (auto intro!: Min_eqI [symmetric] Max_eqI [symmetric])
qed

lemma placed_ends:
  assumes "placed i ys"
  shows "Min (set (take (i + 1) ys)) = Min (set ys)" "Max (set (drop i ys)) = Max (set ys)"
proof -
  have i: "i < length ys" using assms by (simp add: placed_def)
  then have split: "set ys = set (take (i + 1) ys) \<union> set (drop (i + 1) ys)" "set ys = set (take i ys) \<union> set (drop i ys)"
    by (metis append_take_drop_id set_append)+
  have mem: "ys ! i \<in> set (take (i + 1) ys)" "ys ! i \<in> set (drop i ys)"
    using i by (auto simp: take_Suc_conv_app_nth Cons_nth_drop_Suc [symmetric])
  have up: "ys ! i \<le> x" if "x \<in> set (drop (i + 1) ys)" for x
    using assms that set_drop_subset_set_drop [of i "i + 1" ys] by (auto simp: placed_def)
  have "Min (set (take (i + 1) ys)) \<le> x" if "x \<in> set ys" for x
    using that mem(1) up split(1) by (metis (no_types) List.finite_set Min_le UnE order_trans)
  then have "Min (set (take (i + 1) ys)) \<le> Min (set ys)" using i by (subst Min_ge_iff) auto
  moreover have "Min (set ys) \<le> Min (set (take (i + 1) ys))"
    using mem(1) by (intro Min_antimono set_take_subset) auto
  ultimately show "Min (set (take (i + 1) ys)) = Min (set ys)" by (rule antisym)
  have "x \<le> Max (set (drop i ys))" if "x \<in> set ys" for x
    using that mem(2) assms split(2) by (metis (no_types) List.finite_set Max_ge UnE order_trans placed_def)
  then have "Max (set ys) \<le> Max (set (drop i ys))" using i by (subst Max_le_iff) auto
  moreover have "Max (set (drop i ys)) \<le> Max (set ys)" using mem(2) by (intro Max_mono set_drop_subset) auto
  ultimately show "Max (set (drop i ys)) = Max (set ys)" by (rule antisym [rotated])
qed

lemma sorted_map_upt: "(\<And>p q. p \<le> q \<Longrightarrow> f p \<le> (f q :: nat)) \<Longrightarrow> sorted (map f [0..<n])"
  by (simp add: sorted_wrt_iff_nth_less)

lemma sort_rev_nth:
  assumes "sorted_wrt (\<lambda>a b. a \<ge> b) (lat :: nat list)" "r < length lat"
  shows "lat ! (length lat - 1 - r) = sort lat ! r"
proof -
  have "sorted (rev lat)" using assms(1) by (simp add: sorted_wrt_rev)
  then have "sort lat = rev lat" by (intro properties_for_sort) simp_all
  then show ?thesis using assms(2) by (simp add: rev_nth)
qed

text \<open>
  C17. The latency report is exact whichever path computes it. For any samples, on the sorting path, the two linear paths for
  ordered input and the selection path alike, the summary is the one sorting would give, and the samples are all still
  there. The selection never panics.
\<close>

theorem latency_summary_exact:
  assumes "select_law sel" "\<forall>p q. p \<le> q \<longrightarrow> floor_rank p (length lat) \<le> floor_rank q (length lat)" "lat \<noteq> []"
  shows "\<exists>lat'. latency_summary_of sel floor_rank lat = Some (sorted_summary floor_rank lat, lat') \<and> mset lat' = mset lat"
proof -
  let ?r = "\<lambda>p. min (floor_rank p (length lat)) (length lat - 1)"
  let ?ranks = "map ?r [0..<9]"
  have r: "?r p < length lat" for p using assms(3) by (cases lat) auto
  consider "length lat \<le> 1024" | "\<not> length lat \<le> 1024" "sorted lat"
    | "\<not> length lat \<le> 1024" "\<not> sorted lat" "sorted_wrt (\<lambda>a b. a \<ge> b) lat"
    | "\<not> length lat \<le> 1024" "\<not> sorted lat" "\<not> sorted_wrt (\<lambda>a b. a \<ge> b) lat" by blast
  then show ?thesis
  proof cases
    case 1
    have "sort lat \<noteq> []" using assms(3) by (metis length_0_conv length_sort)
    then show ?thesis using 1 assms(3) sorted_ends [OF sorted_sort, of lat]
      by (simp add: latency_summary_of_def sorted_summary_def Let_def)
  next
    case 2
    then show ?thesis using assms(3) sorted_ends [of lat]
      by (simp add: latency_summary_of_def sorted_summary_def Let_def sorted_sort_id)
  next
    case 3
    have "sorted (rev lat)" using 3(3) by (simp add: sorted_wrt_rev)
    from sorted_ends [OF this] assms(3) have "lat ! (length lat - 1) = Min (set lat)" "lat ! 0 = Max (set lat)"
      by (simp_all add: rev_nth)
    then show ?thesis using 3 assms(3) sort_rev_nth [OF 3(3) r]
      by (simp add: latency_summary_of_def sorted_summary_def Let_def)
  next
    case 4
    have "sorted ?ranks" by (rule sorted_map_upt) (use assms(2) in \<open>intro min.mono; simp\<close>)
    from select_ranks_placed [OF assms(1) this, of 0 lat] r obtain ys where
      ys: "select_ranks sel lat ?ranks 0 = Some ys" "mset ys = mset lat" "\<And>p. p < 9 \<Longrightarrow> placed (?r p) ys"
      by auto
    have "set ys = set lat" using ys(2) by (metis set_mset_mset)
    then have "Min (set (take (?r 0 + 1) ys)) = Min (set lat)" "Max (set (drop (?r 8) ys)) = Max (set lat)"
      using placed_ends [OF ys(3), of 0] placed_ends [OF ys(3), of 8] by simp_all
    moreover have "map (\<lambda>rank. ys ! rank) ?ranks = map (\<lambda>p. sort lat ! ?r p) [0..<9]"
      using placed_sort [OF ys(3) ys(2)] by simp
    moreover have "?ranks ! 0 = ?r 0" "?ranks ! 8 = ?r 8" by simp_all
    ultimately show ?thesis using 4 assms(3) ys(1,2)
      unfolding latency_summary_of_def sorted_summary_def Let_def by (simp only: if_False if_True option.case simp_thms) blast
  qed
qed

theorem latency_summary_exact_witness:
  "\<exists>lat'. latency_summary_of (\<lambda>i. sort) (\<lambda>p len. p * len div 9) [30, 10, 20]
     = Some (sorted_summary (\<lambda>p len. p * len div 9) [30, 10, 20], lat') \<and> mset lat' = {#10, 20, 30#}"
proof -
  have "select_law (\<lambda>i. sort)"
    by (auto simp: select_law_def placed_def in_set_conv_nth intro!: sorted_nth_mono)
  from latency_summary_exact [OF this, of "\<lambda>p len. p * len div 9" "[30, 10, 20]"] show ?thesis
    by (auto simp: div_le_mono ac_simps)
qed

end
