(* ===== verification/Tls_Session.thy ===== *)
theory Tls_Session
  imports Prelude
begin

text \<open>
  The TLS session of the TCP workers (\<open>TlsSession\<close> of \<open>tls.rs\<close>): plaintext on its way into rustls, with the backlog rustls
  would not take, ciphertext on its way out, and what is received on its way to the HTTP layer.
\<close>

section \<open>rustls\<close>

text \<open>
  The client connection of rustls is the parameter \<open>'c\<close> with these calls. \<open>None\<close> is an error; \<open>Blocked\<close> and \<open>Cut_off\<close> are
  the \<open>WouldBlock\<close> and \<open>UnexpectedEof\<close> of the plaintext reader. \<open>rl_left\<close> bounds how often the connection still has
  ciphertext to write or plaintext to hand over when nothing new comes in; the loops that drain it take their fuel from it.
\<close>

datatype plain_read = Plain bytes | Blocked | Cut_off | Read_failed

record 'c rustls =
  rl_read_tls :: "bytes \<Rightarrow> 'c \<Rightarrow> nat option \<times> 'c"
  rl_process :: "'c \<Rightarrow> bool option \<times> 'c"
  rl_read :: "'c \<Rightarrow> plain_read \<times> 'c"
  rl_write :: "bytes \<Rightarrow> 'c \<Rightarrow> nat option \<times> 'c"
  rl_wants_write :: "'c \<Rightarrow> bool"
  rl_write_tls :: "'c \<Rightarrow> bytes option \<times> 'c"
  rl_handshaking :: "'c \<Rightarrow> bool"
  rl_close_notify :: "'c \<Rightarrow> 'c"
  rl_alpn :: "'c \<Rightarrow> bytes option"
  rl_left :: "'c \<Rightarrow> nat"

text \<open>\<open>Tls_panic\<close> is an index past the backlog, \<open>Tls_stuck\<close> a loop that has used up its fuel.\<close>

datatype tls_error =
    Read_tls_failed | Tls_protocol | Plain_read_failed | Plain_write_failed | Write_tls_failed | Tls_panic | Tls_stuck

section \<open>The session\<close>

record 'c tls_session =
  ts_conn :: 'c
  ts_pending :: bytes
  ts_pos :: nat
  ts_peer_closed :: bool

definition tls_new :: "'c \<Rightarrow> 'c tls_session" where
  "tls_new conn = \<lparr>ts_conn = conn, ts_pending = [], ts_pos = 0, ts_peer_closed = False\<rparr>"

type_synonym 'c tls_result = "(tls_error \<times> 'c tls_session, 'c tls_session) result"

definition read_plaintext :: "'c rustls \<Rightarrow> 'c tls_session \<Rightarrow> (bytes option) \<times> 'c tls_session" where
  "read_plaintext api s =
     (let (r, conn) = rl_read api (ts_conn s); s = s\<lparr>ts_conn := conn\<rparr> in
      case r of Plain bs \<Rightarrow> (Some bs, s) | Blocked \<Rightarrow> (Some [], s) | Cut_off \<Rightarrow> (Some [], s) | Read_failed \<Rightarrow> (None, s))"

text \<open>
  \<open>sink\<close> is the closure the plaintext is handed to, on the state \<open>'h\<close> it captures; it may have changed that state also when
  it fails. Its own error is on the right.
\<close>

type_synonym ('e, 'c, 'h) feed_result = "((tls_error + 'e) \<times> 'c tls_session \<times> 'h, 'c tls_session \<times> 'h) result"

fun read_loop ::
    "nat \<Rightarrow> 'c rustls \<Rightarrow> (bytes \<Rightarrow> 'h \<Rightarrow> ('e \<times> 'h, 'h) result) \<Rightarrow> 'c tls_session \<Rightarrow> 'h \<Rightarrow> ('e, 'c, 'h) feed_result" where
  "read_loop 0 api sink s h = Inl (Inl Tls_stuck, s, h)"
| "read_loop (Suc n) api sink s h =
     (case read_plaintext api s of
        (None, s) \<Rightarrow> Inl (Inl Plain_read_failed, s, h)
      | (Some bs, s) \<Rightarrow>
          if bs = [] then Inr (s, h)
          else (case sink bs h of Inl (e, h) \<Rightarrow> Inl (Inr e, s, h) | Inr h \<Rightarrow> read_loop n api sink s h))"

function feed_into ::
    "'c rustls \<Rightarrow> bytes \<Rightarrow> (bytes \<Rightarrow> 'h \<Rightarrow> ('e \<times> 'h, 'h) result) \<Rightarrow> 'c tls_session \<Rightarrow> 'h \<Rightarrow> ('e, 'c, 'h) feed_result" where
  "feed_into api data sink s h =
     (if data = [] then Inr (s, h)
      else
        case rl_read_tls api data (ts_conn s) of
          (None, conn) \<Rightarrow> Inl (Inl Read_tls_failed, s\<lparr>ts_conn := conn\<rparr>, h)
        | (Some n, conn) \<Rightarrow>
            if n = 0 then Inr (s\<lparr>ts_conn := conn\<rparr>, h)
            else
              (case rl_process api conn of
                 (None, conn) \<Rightarrow> Inl (Inl Tls_protocol, s\<lparr>ts_conn := conn\<rparr>, h)
               | (Some closed, conn) \<Rightarrow>
                   let s = s\<lparr>ts_conn := conn, ts_peer_closed := ts_peer_closed s \<or> closed\<rparr> in
                   rbind (read_loop (Suc (rl_left api conn)) api sink s h) (\<lambda>(s, h). feed_into api (drop n data) sink s h)))"
  by pat_completeness auto
termination
  by (relation "measure (\<lambda>(api, data, sink, s, h). length data)") auto

declare feed_into.simps [simp del]

section \<open>Sending\<close>

function push_plaintext :: "'c rustls \<Rightarrow> 'c tls_session \<Rightarrow> 'c tls_result" where
  "push_plaintext api s =
     (if ts_pending s = [] then Inr s
      else
        case rl_write api (drop (ts_pos s) (ts_pending s)) (ts_conn s) of
          (None, conn) \<Rightarrow> Inl (Plain_write_failed, s\<lparr>ts_conn := conn\<rparr>)
        | (Some n, conn) \<Rightarrow>
            let s = s\<lparr>ts_conn := conn\<rparr> in
            if n = 0 then Inr s
            else if n > length (ts_pending s) - ts_pos s then Inl (Tls_panic, s)
            else
              let s = s\<lparr>ts_pos := ts_pos s + n\<rparr> in
              push_plaintext api (if ts_pos s = length (ts_pending s) then s\<lparr>ts_pending := [], ts_pos := 0\<rparr> else s))"
  by pat_completeness auto
termination
  by (relation "measure (\<lambda>(api, s). length (ts_pending s) - ts_pos s)") (auto split: if_splits)

declare push_plaintext.simps [simp del]

text \<open>\<open>full\<close> says whether the data does not fit the spare capacity of the backlog, which only the allocator knows.\<close>

definition write_plaintext :: "'c rustls \<Rightarrow> bool \<Rightarrow> bytes \<Rightarrow> 'c tls_session \<Rightarrow> 'c tls_result" where
  "write_plaintext api full data s =
     (let remaining = length (ts_pending s) - ts_pos s;
          s = (if full \<and> ts_pos s \<ge> remaining
               then s\<lparr>ts_pending := take remaining (drop (ts_pos s) (ts_pending s)), ts_pos := 0\<rparr> else s) in
      push_plaintext api (s\<lparr>ts_pending := ts_pending s @ data\<rparr>))"

fun drain_tls :: "nat \<Rightarrow> 'c rustls \<Rightarrow> bytes \<Rightarrow> 'c \<Rightarrow> (tls_error \<times> bytes \<times> 'c, bytes \<times> 'c) result" where
  "drain_tls 0 api out conn = (if rl_wants_write api conn then Inl (Tls_stuck, out, conn) else Inr (out, conn))"
| "drain_tls (Suc n) api out conn =
     (if rl_wants_write api conn
      then case rl_write_tls api conn of
          (None, conn) \<Rightarrow> Inl (Write_tls_failed, out, conn)
        | (Some bs, conn) \<Rightarrow> drain_tls n api (out @ bs) conn
      else Inr (out, conn))"

text \<open>Draining into \<open>out\<close>, as \<open>while wants_write() { write_tls(out)? }\<close>.\<close>

definition drain_session ::
    "'c rustls \<Rightarrow> bytes \<Rightarrow> 'c tls_session \<Rightarrow> (tls_error \<times> bytes \<times> 'c tls_session, bytes \<times> 'c tls_session) result" where
  "drain_session api out s =
     (case drain_tls (rl_left api (ts_conn s)) api out (ts_conn s) of
        Inl (e, out, conn) \<Rightarrow> Inl (e, out, s\<lparr>ts_conn := conn\<rparr>)
      | Inr (out, conn) \<Rightarrow> Inr (out, s\<lparr>ts_conn := conn\<rparr>))"

type_synonym 'c drain_result = "(tls_error \<times> bytes \<times> 'c tls_session, bytes \<times> 'c tls_session) result"

fun ciphertext_loop :: "nat \<Rightarrow> 'c rustls \<Rightarrow> bytes \<Rightarrow> 'c tls_session \<Rightarrow> 'c drain_result" where
  "ciphertext_loop 0 api out s = Inl (Tls_stuck, out, s)"
| "ciphertext_loop (Suc n) api out s =
     (case push_plaintext api s of
        Inl (e, s) \<Rightarrow> Inl (e, out, s)
      | Inr s \<Rightarrow>
          rbind (drain_session api out s) (\<lambda>(out', s).
            if ts_pending s = [] \<or> length out' = length out then Inr (out', s) else ciphertext_loop n api out' s))"

definition take_ciphertext_into :: "'c rustls \<Rightarrow> 'c tls_session \<Rightarrow> 'c drain_result" where
  "take_ciphertext_into api s = ciphertext_loop (2 * length (ts_pending s) + 2) api [] s"

text \<open>The inner loop of the borrowing path: how much of the data rustls takes.\<close>

function offer_data :: "'c rustls \<Rightarrow> bytes \<Rightarrow> 'c \<Rightarrow> (bytes \<times> 'c, bytes \<times> 'c) result" where
  "offer_data api data conn =
     (if data = [] then Inr (data, conn)
      else case rl_write api data conn of
          (None, conn) \<Rightarrow> Inl (data, conn)
        | (Some n, conn) \<Rightarrow> if n = 0 then Inr (data, conn) else offer_data api (drop n data) conn)"
  by pat_completeness auto
termination
  by (relation "measure (\<lambda>(api, data, conn). length data)") auto

declare offer_data.simps [simp del]

fun borrow_loop :: "nat \<Rightarrow> 'c rustls \<Rightarrow> bytes \<Rightarrow> bytes \<Rightarrow> 'c tls_session \<Rightarrow> 'c drain_result" where
  "borrow_loop 0 api data out s = Inl (Tls_stuck, out, s)"
| "borrow_loop (Suc n) api data out s =
     (case offer_data api data (ts_conn s) of
        Inl (data, conn) \<Rightarrow> Inl (Plain_write_failed, out, s\<lparr>ts_conn := conn, ts_pending := ts_pending s @ data\<rparr>)
      | Inr (data, conn) \<Rightarrow>
          rbind (drain_session api out (s\<lparr>ts_conn := conn\<rparr>)) (\<lambda>(out', s).
            if data = [] then Inr (out', s)
            else if length out' = length out then Inr (out', s\<lparr>ts_pending := ts_pending s @ data\<rparr>)
            else borrow_loop n api data out' s))"

definition write_and_take :: "'c rustls \<Rightarrow> bool \<Rightarrow> bytes \<Rightarrow> 'c tls_session \<Rightarrow> 'c drain_result" where
  "write_and_take api full data s =
     (if rl_handshaking api (ts_conn s) \<or> ts_pending s \<noteq> []
      then case write_plaintext api full data s of
          Inl (e, s) \<Rightarrow> Inl (e, [], s)
        | Inr s \<Rightarrow> take_ciphertext_into api s
      else borrow_loop (2 * length data + 2) api data [] s)"

definition tls_close_notify :: "'c rustls \<Rightarrow> 'c tls_session \<Rightarrow> 'c tls_session" where
  "tls_close_notify api s = s\<lparr>ts_pending := [], ts_pos := 0, ts_conn := rl_close_notify api (ts_conn s)\<rparr>"

section \<open>No plaintext is lost or reordered\<close>

text \<open>
  What is relied on of rustls: \<open>taken\<close> is the plaintext it has accepted. A write accepts a prefix of what is offered, and
  nothing else changes it.
\<close>

definition rustls_law :: "'c rustls \<Rightarrow> ('c \<Rightarrow> bytes) \<Rightarrow> bool" where
  "rustls_law api taken \<longleftrightarrow>
     (\<forall>bs c c' n. rl_write api bs c = (Some n, c') \<longrightarrow> n \<le> length bs \<and> taken c' = taken c @ take n bs) \<and>
     (\<forall>bs c c'. rl_write api bs c = (None, c') \<longrightarrow> taken c' = taken c) \<and>
     (\<forall>c. taken (snd (rl_write_tls api c)) = taken c) \<and> (\<forall>bs c. taken (snd (rl_read_tls api bs c)) = taken c) \<and>
     (\<forall>c. taken (snd (rl_process api c)) = taken c) \<and> (\<forall>c. taken (snd (rl_read api c)) = taken c)"

lemma rustls_write:
  "rustls_law api taken \<Longrightarrow> rl_write api bs c = (Some n, c') \<Longrightarrow> n \<le> length bs \<and> taken c' = taken c @ take n bs"
  "rustls_law api taken \<Longrightarrow> rl_write api bs c = (None, c') \<Longrightarrow> taken c' = taken c"
  unfolding rustls_law_def by blast+

lemma rustls_other:
  "rustls_law api taken \<Longrightarrow> rl_write_tls api c = (r1, c') \<Longrightarrow> taken c' = taken c"
  "rustls_law api taken \<Longrightarrow> rl_read_tls api bs c = (r2, c') \<Longrightarrow> taken c' = taken c"
  "rustls_law api taken \<Longrightarrow> rl_process api c = (r3, c') \<Longrightarrow> taken c' = taken c"
  "rustls_law api taken \<Longrightarrow> rl_read api c = (r4, c') \<Longrightarrow> taken c' = taken c"
  unfolding rustls_law_def by (metis snd_conv)+

text \<open>All plaintext a session has been given: what rustls took, then the backlog.\<close>

definition given :: "('c \<Rightarrow> bytes) \<Rightarrow> 'c tls_session \<Rightarrow> bytes" where
  "given taken s = taken (ts_conn s) @ drop (ts_pos s) (ts_pending s)"

definition backlog_ok :: "'c tls_session \<Rightarrow> bool" where
  "backlog_ok s \<longleftrightarrow> (if ts_pending s = [] then ts_pos s = 0 else ts_pos s < length (ts_pending s))"

text \<open>What an operation leaves behind, failed or not.\<close>

definition left_session :: "(tls_error \<times> 'x, 'y) result \<Rightarrow> ('x \<Rightarrow> 's) \<Rightarrow> ('y \<Rightarrow> 's) \<Rightarrow> 's" where
  "left_session r f g = (case r of Inl (e, x) \<Rightarrow> f x | Inr y \<Rightarrow> g y)"

lemma left_session_simps [simp]: "left_session (Inl (e, x)) f g = f x" "left_session (Inr y) f g = g y"
  by (simp_all add: left_session_def)

definition not_panic :: "(tls_error \<times> 'x, 'y) result \<Rightarrow> bool" where
  "not_panic r \<longleftrightarrow> (\<forall>x. r \<noteq> Inl (Tls_panic, x))"

lemma not_panic_simps [simp]: "not_panic (Inr y)" "not_panic (Inl (e, x)) \<longleftrightarrow> e \<noteq> Tls_panic"
  by (auto simp: not_panic_def)

text \<open>The session an operation leaves behind has been given \<open>bs\<close>, and its backlog is in order.\<close>

definition has_given :: "('c \<Rightarrow> bytes) \<Rightarrow> bytes \<Rightarrow> 'c tls_session \<Rightarrow> bool" where
  "has_given taken bs s \<longleftrightarrow> given taken s = bs \<and> backlog_ok s"

lemma push_plaintext_keeps:
  assumes law: "rustls_law api taken" and "has_given taken bs s"
  shows "has_given taken bs (left_session (push_plaintext api s) id id) \<and> not_panic (push_plaintext api s)"
  using assms(2)
proof (induction "length (ts_pending s) - ts_pos s" arbitrary: s rule: less_induct)
  case less
  show ?case
  proof (cases "ts_pending s = []")
    case True
    then show ?thesis using less.prems by (simp add: push_plaintext.simps)
  next
    case False
    then have pos: "ts_pos s < length (ts_pending s)" using less.prems by (simp add: has_given_def backlog_ok_def)
    obtain r conn where w: "rl_write api (drop (ts_pos s) (ts_pending s)) (ts_conn s) = (r, conn)" by fastforce
    show ?thesis
    proof (cases r)
      case None
      then have "taken conn = taken (ts_conn s)" using law w by (simp add: rustls_law_def)
      then show ?thesis using less.prems None w False
        by (simp add: push_plaintext.simps [of api s] has_given_def given_def backlog_ok_def)
    next
      case (Some n)
      then have n: "n \<le> length (ts_pending s) - ts_pos s" "taken conn = taken (ts_conn s) @ take n (drop (ts_pos s) (ts_pending s))"
        using rustls_write(1) [OF law, of "drop (ts_pos s) (ts_pending s)"] w by auto
      define s' where "s' = (if ts_pos s + n = length (ts_pending s) then s\<lparr>ts_conn := conn, ts_pending := [], ts_pos := 0\<rparr>
        else s\<lparr>ts_conn := conn, ts_pos := ts_pos s + n\<rparr>)"
      show ?thesis
      proof (cases "n = 0")
        case True
        then show ?thesis using less.prems Some w False n(2)
          by (simp add: push_plaintext.simps [of api s] has_given_def given_def backlog_ok_def)
      next
        case nz: False
        have step: "push_plaintext api s = push_plaintext api s'"
          using w Some False nz n(1) by (simp add: push_plaintext.simps [of api s] s'_def Let_def)
        have "take n (drop (ts_pos s) (ts_pending s)) @ drop (ts_pos s + n) (ts_pending s) = drop (ts_pos s) (ts_pending s)"
          by (metis append_take_drop_id drop_drop add.commute)
        then have "has_given taken bs s'"
          using less.prems n False by (auto simp: has_given_def given_def backlog_ok_def s'_def)
        moreover have "length (ts_pending s') - ts_pos s' < length (ts_pending s) - ts_pos s"
          using nz pos n(1) by (auto simp: s'_def)
        ultimately show ?thesis unfolding step using less.hyps by blast
      qed
    qed
  qed
qed

lemma write_plaintext_keeps:
  assumes law: "rustls_law api taken" and s: "has_given taken bs s"
  shows "has_given taken (bs @ data) (left_session (write_plaintext api full data s) id id) \<and>
    not_panic (write_plaintext api full data s)"
proof -
  define s1 where "s1 = (if full \<and> ts_pos s \<ge> length (ts_pending s) - ts_pos s
    then s\<lparr>ts_pending := take (length (ts_pending s) - ts_pos s) (drop (ts_pos s) (ts_pending s)), ts_pos := 0\<rparr> else s)"
  have "has_given taken bs s1" using s by (auto simp: s1_def has_given_def given_def backlog_ok_def)
  then have "has_given taken (bs @ data) (s1\<lparr>ts_pending := ts_pending s1 @ data\<rparr>)"
    by (auto simp: has_given_def given_def backlog_ok_def split: if_splits)
  from push_plaintext_keeps [OF law this] show ?thesis by (simp add: write_plaintext_def s1_def Let_def)
qed

lemma drain_tls_keeps: "rustls_law api taken \<Longrightarrow> taken (left_session (drain_tls n api out conn) snd snd) = taken conn
    \<and> not_panic (drain_tls n api out conn)"
proof (induction n arbitrary: out conn)
  case (Suc n)
  then show ?case using rustls_other(1) [OF Suc.prems, of conn] by (auto split: prod.split option.split)
qed simp

lemma drain_session_keeps:
  assumes "rustls_law api taken" "has_given taken bs s"
  shows "has_given taken bs (left_session (drain_session api out s) snd snd) \<and> not_panic (drain_session api out s) \<and>
    ts_pending (left_session (drain_session api out s) snd snd) = ts_pending s"
  using drain_tls_keeps [OF assms(1), of "rl_left api (ts_conn s)" out "ts_conn s"] assms(2)
  by (auto simp: drain_session_def has_given_def given_def backlog_ok_def split: sum.split prod.split)

lemma ciphertext_loop_keeps:
  "rustls_law api taken \<Longrightarrow> has_given taken bs s \<Longrightarrow>
     has_given taken bs (left_session (ciphertext_loop n api out s) snd snd) \<and> not_panic (ciphertext_loop n api out s)"
proof (induction n arbitrary: out s)
  case (Suc n)
  have push: "has_given taken bs (left_session (push_plaintext api s) id id) \<and> not_panic (push_plaintext api s)"
    by (rule push_plaintext_keeps [OF Suc.prems])
  show ?case
  proof (cases "push_plaintext api s")
    case (Inl x)
    then show ?thesis using push by (cases x) auto
  next
    case (Inr s1)
    then have s1: "has_given taken bs s1" using push by simp
    note drain = drain_session_keeps [OF Suc.prems(1) s1, of out]
    show ?thesis
    proof (cases "drain_session api out s1")
      case (Inl x)
      then show ?thesis using drain Inr by (cases x) auto
    next
      case d: (Inr x)
      then show ?thesis using drain Inr Suc.IH [OF Suc.prems(1), of "snd x"] by (cases x) auto
    qed
  qed
qed simp

lemma offer_data_keeps:
  assumes "rustls_law api taken"
  shows "case offer_data api data conn of
      Inl (rest, conn') \<Rightarrow> taken conn' @ rest = taken conn @ data | Inr (rest, conn') \<Rightarrow> taken conn' @ rest = taken conn @ data"
proof (induction "length data" arbitrary: data conn rule: less_induct)
  case less
  show ?case
  proof (cases "data = []")
    case False
    obtain r conn1 where w: "rl_write api data conn = (r, conn1)" by fastforce
    show ?thesis
    proof (cases r)
      case None
      then show ?thesis using w False rustls_write(2) [OF assms] by (simp add: offer_data.simps [of api data])
    next
      case (Some n)
      then have n: "n \<le> length data" "taken conn1 = taken conn @ take n data" using w rustls_write(1) [OF assms] by auto
      then show ?thesis using Some w False less.hyps [of "drop n data" conn1]
        by (auto simp: offer_data.simps [of api data] split: sum.splits prod.splits)
    qed
  qed (simp add: offer_data.simps)
qed

text \<open>A failed \<open>write_tls\<close> is terminal: the borrowed suffix goes with the connection.\<close>

lemma borrow_loop_keeps:
  "rustls_law api taken \<Longrightarrow> ts_pending s = [] \<Longrightarrow> ts_pos s = 0 \<Longrightarrow> taken (ts_conn s) @ data = bs \<Longrightarrow>
     borrow_loop n api data out s = Inr (out', s') \<Longrightarrow> has_given taken bs s'"
proof (induction n arbitrary: data out s)
  case (Suc n)
  note offer = offer_data_keeps [OF Suc.prems(1), where data = data and conn = "ts_conn s"]
  obtain rest conn where o: "offer_data api data (ts_conn s) = Inr (rest, conn)"
    using Suc.prems(5) by (auto split: sum.splits)
  obtain out1 s1 where d: "drain_session api out (s\<lparr>ts_conn := conn\<rparr>) = Inr (out1, s1)"
    using Suc.prems(5) o by auto
  have taken: "taken conn @ rest = bs" using offer o Suc.prems(4) by simp
  have "has_given taken (taken conn) (s\<lparr>ts_conn := conn\<rparr>)"
    using Suc.prems(2,3) by (simp add: has_given_def given_def backlog_ok_def)
  from drain_session_keeps [OF Suc.prems(1) this, of out] d Suc.prems(2)
  have s1: "has_given taken (taken conn) s1" "ts_pending s1 = []" by simp_all
  then have s1': "ts_pos s1 = 0" "taken (ts_conn s1) = taken conn" by (simp_all add: has_given_def backlog_ok_def given_def)
  show ?case
  proof (cases "rest = [] \<or> length out1 = length out")
    case True
    then show ?thesis using Suc.prems(5) o d s1 s1' taken
      by (auto simp: has_given_def given_def backlog_ok_def split: if_splits)
  next
    case False
    then have "borrow_loop n api rest out1 s1 = Inr (out', s')" using Suc.prems(5) o d by simp
    then show ?thesis using Suc.IH [OF Suc.prems(1) s1(2) s1'(1)] s1'(2) taken by simp
  qed
qed simp

lemma read_loop_keeps:
  "rustls_law api taken \<Longrightarrow> has_given taken bs s \<Longrightarrow> read_loop n api sink s h = Inr (s', h') \<Longrightarrow> has_given taken bs s'"
proof (induction n arbitrary: s h)
  case (Suc n)
  obtain r conn where r: "rl_read api (ts_conn s) = (r, conn)" by fastforce
  have "has_given taken bs (s\<lparr>ts_conn := conn\<rparr>)"
    using Suc.prems(1,2) rustls_other(4) [OF Suc.prems(1) r] by (simp add: has_given_def given_def backlog_ok_def)
  then show ?case using Suc.prems(3) Suc.IH [OF Suc.prems(1)] r
    by (auto simp: read_plaintext_def Let_def split: plain_read.splits if_splits sum.splits)
qed simp

lemma feed_into_keeps:
  assumes law: "rustls_law api taken"
  shows "has_given taken bs s \<Longrightarrow> feed_into api data sink s h = Inr (s', h') \<Longrightarrow> has_given taken bs s'"
proof (induction "length data" arbitrary: data s h rule: less_induct)
  case less
  show ?case
  proof (cases "data = []")
    case True
    then show ?thesis using less.prems by (simp add: feed_into.simps)
  next
    case False
    obtain n conn where r: "rl_read_tls api data (ts_conn s) = (Some n, conn)"
      using less.prems(2) False by (auto simp: feed_into.simps [of api data] split: prod.splits option.splits)
    have conn: "taken conn = taken (ts_conn s)" by (rule rustls_other(2) [OF law r])
    show ?thesis
    proof (cases "n = 0")
      case True
      then show ?thesis using less.prems False r conn
        by (auto simp: feed_into.simps [of api data] has_given_def given_def backlog_ok_def)
    next
      case nz: False
      obtain closed conn1 where p: "rl_process api conn = (Some closed, conn1)"
        using less.prems(2) False r nz by (auto simp: feed_into.simps [of api data] split: prod.splits option.splits)
      define s1 where "s1 = s\<lparr>ts_conn := conn1, ts_peer_closed := ts_peer_closed s \<or> closed\<rparr>"
      obtain s2 h2 where rd: "read_loop (Suc (rl_left api conn1)) api sink s1 h = Inr (s2, h2)"
        and rest: "feed_into api (drop n data) sink s2 h2 = Inr (s', h')"
        using less.prems(2) False r nz p
        by (auto simp: feed_into.simps [of api data] s1_def Let_def simp del: read_loop.simps)
      have "has_given taken bs s1"
        using less.prems(1) conn rustls_other(3) [OF law p] by (simp add: s1_def has_given_def given_def backlog_ok_def)
      from read_loop_keeps [OF law this rd] show ?thesis
        using less.hyps [OF _ _ rest] False nz by simp
    qed
  qed
qed

section \<open>Runs\<close>

datatype tls_op = Tls_write bool bytes | Tls_flush | Tls_write_flush bool bytes | Tls_feed bytes

fun tls_written :: "tls_op \<Rightarrow> bytes" where
  "tls_written (Tls_write full data) = data"
| "tls_written (Tls_write_flush full data) = data"
| "tls_written _ = []"

text \<open>An operation that fails ends the connection.\<close>

fun tls_step :: "'c rustls \<Rightarrow> tls_op \<Rightarrow> 'c tls_session \<Rightarrow> 'c tls_session option" where
  "tls_step api (Tls_write full data) s = (case write_plaintext api full data s of Inl _ \<Rightarrow> None | Inr s \<Rightarrow> Some s)"
| "tls_step api Tls_flush s = (case take_ciphertext_into api s of Inl _ \<Rightarrow> None | Inr (_, s) \<Rightarrow> Some s)"
| "tls_step api (Tls_write_flush full data) s = (case write_and_take api full data s of Inl _ \<Rightarrow> None | Inr (_, s) \<Rightarrow> Some s)"
| "tls_step api (Tls_feed data) s =
     (case feed_into api data (\<lambda>bs h. Inr () :: (unit \<times> unit, unit) result) s () of Inl _ \<Rightarrow> None | Inr (s, _) \<Rightarrow> Some s)"

fun tls_run :: "'c rustls \<Rightarrow> tls_op list \<Rightarrow> 'c tls_session \<Rightarrow> 'c tls_session option" where
  "tls_run api [] s = Some s"
| "tls_run api (op # ops) s = Option.bind (tls_step api op s) (tls_run api ops)"

lemma write_and_take_keeps:
  assumes law: "rustls_law api taken" and s: "has_given taken bs s" and w: "write_and_take api full data s = Inr (out, s')"
  shows "has_given taken (bs @ data) s'"
proof (cases "rl_handshaking api (ts_conn s) \<or> ts_pending s \<noteq> []")
  case True
  then obtain s1 where s1: "write_plaintext api full data s = Inr s1" "take_ciphertext_into api s1 = Inr (out, s')"
    using w by (auto simp: write_and_take_def split: sum.splits)
  then have "has_given taken (bs @ data) s1" using write_plaintext_keeps [OF law s, of data full] by simp
  then show ?thesis using ciphertext_loop_keeps [OF law, of "bs @ data" s1 "2 * length (ts_pending s1) + 2" "[]"] s1(2)
    by (simp add: take_ciphertext_into_def del: ciphertext_loop.simps)
next
  case False
  then have "ts_pending s = []" "ts_pos s = 0" "taken (ts_conn s) @ data = bs @ data"
    using s by (auto simp: has_given_def given_def backlog_ok_def)
  then show ?thesis using borrow_loop_keeps [OF law] w False by (auto simp: write_and_take_def simp del: borrow_loop.simps)
qed

lemma tls_step_keeps:
  assumes law: "rustls_law api taken" and s: "has_given taken bs s" and step: "tls_step api op s = Some s'"
  shows "has_given taken (bs @ tls_written op) s'"
proof (cases op)
  case (Tls_write full data)
  then show ?thesis using step write_plaintext_keeps [OF law s, of data full] by (auto split: sum.splits)
next
  case Tls_flush
  then show ?thesis
    using step ciphertext_loop_keeps [OF law s, of "2 * length (ts_pending s) + 2" "[]"]
    by (auto simp: take_ciphertext_into_def simp del: ciphertext_loop.simps split: sum.splits)
next
  case (Tls_write_flush full data)
  then show ?thesis using step write_and_take_keeps [OF law s] by (auto split: sum.splits)
next
  case (Tls_feed data)
  then show ?thesis using step feed_into_keeps [OF law s] by (auto split: sum.splits)
qed


text \<open>A connection that buffers at most four bytes of ciphertext, for the examples.\<close>

definition sample_rustls :: "(bytes \<times> bytes) rustls" where
  "sample_rustls =
     \<lparr>rl_read_tls = (\<lambda>bs c. (Some (length bs), c)), rl_process = (\<lambda>c. (Some False, c)), rl_read = (\<lambda>c. (Blocked, c)),
      rl_write = (\<lambda>bs (t, w). let n = min (length bs) (4 - length w) in (Some n, t @ take n bs, w @ take n bs)),
      rl_wants_write = (\<lambda>(t, w). w \<noteq> []), rl_write_tls = (\<lambda>(t, w). (Some w, t, [])), rl_handshaking = (\<lambda>c. False),
      rl_close_notify = (\<lambda>c. c), rl_alpn = (\<lambda>c. None), rl_left = (\<lambda>(t, w). length w)\<rparr>"

lemma sample_rustls_law: "rustls_law sample_rustls fst"
  by (auto simp: rustls_law_def sample_rustls_def Let_def split_def)


section \<open>The drains end\<close>

text \<open>
  Writing ciphertext out and handing plaintext over use up what rustls has, and a write that accepts nothing produces
  nothing.
\<close>

definition rustls_finite :: "'c rustls \<Rightarrow> bool" where
  "rustls_finite api \<longleftrightarrow>
     (\<forall>c. rl_wants_write api c \<longrightarrow> rl_left api (snd (rl_write_tls api c)) < rl_left api c) \<and>
     (\<forall>bs c c'. rl_write api bs c = (Some 0, c') \<longrightarrow> rl_wants_write api c' = rl_wants_write api c) \<and>
     (\<forall>bs c c'. rl_read api c = (Plain bs, c') \<longrightarrow> bs \<noteq> [] \<longrightarrow> rl_left api c' < rl_left api c)"

lemma drain_tls_finite:
  "rustls_finite api \<Longrightarrow> rl_left api conn \<le> n \<Longrightarrow>
     (case drain_tls n api out conn of
        Inl (e, _) \<Rightarrow> e \<noteq> Tls_stuck
      | Inr (out', conn') \<Rightarrow> \<not> rl_wants_write api conn' \<and> (\<not> rl_wants_write api conn \<longrightarrow> out' = out))"
proof (induction n arbitrary: out conn)
  case 0
  then show ?case unfolding rustls_finite_def by fastforce
next
  case (Suc n)
  show ?case
  proof (cases "rl_wants_write api conn")
    case True
    obtain r conn1 where w: "rl_write_tls api conn = (r, conn1)" by fastforce
    then have "rl_left api conn1 \<le> n" using Suc.prems True unfolding rustls_finite_def by (metis less_Suc_eq_le less_le_trans snd_conv)
    then show ?thesis using Suc.IH [OF Suc.prems(1), of conn1 "out @ the r"] w True
      by (cases r) (auto split: sum.splits)
  qed simp
qed

definition remaining :: "'c tls_session \<Rightarrow> nat" where
  "remaining s = length (ts_pending s) - ts_pos s"

lemma push_plaintext_progress:
  assumes law: "rustls_finite api" and "push_plaintext api s = Inr s'"
  shows "remaining s' < remaining s \<or>
    remaining s' = remaining s \<and> rl_wants_write api (ts_conn s') = rl_wants_write api (ts_conn s)"
  using assms(2)
proof (induction "remaining s" arbitrary: s rule: less_induct)
  case less
  show ?case
  proof (cases "ts_pending s = []")
    case True
    then show ?thesis using less.prems by (simp add: push_plaintext.simps)
  next
    case False
    obtain n conn where w: "rl_write api (drop (ts_pos s) (ts_pending s)) (ts_conn s) = (Some n, conn)"
      using less.prems False by (auto simp: push_plaintext.simps [of api s] split: prod.splits option.splits)
    show ?thesis
    proof (cases "n = 0")
      case True
      then have "rl_wants_write api conn = rl_wants_write api (ts_conn s)" using law w unfolding rustls_finite_def by blast
      then show ?thesis using less.prems False w True by (auto simp: push_plaintext.simps [of api s] remaining_def)
    next
      case nz: False
      define s1 where "s1 = (if ts_pos s + n = length (ts_pending s) then s\<lparr>ts_conn := conn, ts_pending := [], ts_pos := 0\<rparr>
        else s\<lparr>ts_conn := conn, ts_pos := ts_pos s + n\<rparr>)"
      have n: "n \<le> length (ts_pending s) - ts_pos s" and step: "push_plaintext api s1 = Inr s'"
        using less.prems w False nz by (auto simp: push_plaintext.simps [of api s] s1_def Let_def split: if_splits)
      then have "remaining s1 < remaining s" using nz by (auto simp: s1_def remaining_def)
      then show ?thesis using less.hyps [OF _ step] by auto
    qed
  qed
qed

lemma push_not_stuck: "push_plaintext api s \<noteq> Inl (Tls_stuck, s')"
  by (induction api s rule: push_plaintext.induct)
    (subst push_plaintext.simps, auto simp: Let_def split: prod.split option.split)

lemma drain_session_finite:
  assumes "rustls_finite api"
  shows "case drain_session api out s of
      Inl (e, _) \<Rightarrow> e \<noteq> Tls_stuck
    | Inr (out', s') \<Rightarrow> \<not> rl_wants_write api (ts_conn s') \<and> remaining s' = remaining s \<and> ts_pending s' = ts_pending s \<and>
        (\<not> rl_wants_write api (ts_conn s) \<longrightarrow> out' = out)"
  using drain_tls_finite [OF assms order_refl, of "ts_conn s" out]
  by (auto simp: drain_session_def remaining_def split: sum.splits)

lemma ciphertext_loop_finite:
  assumes law: "rustls_law api taken" "rustls_finite api"
  shows "has_given taken bs s \<Longrightarrow> remaining s + (if rl_wants_write api (ts_conn s) then 2 else 1) \<le> n \<Longrightarrow>
     (case ciphertext_loop n api out s of
        Inl (e, _) \<Rightarrow> e \<noteq> Tls_stuck
      | Inr (out', s') \<Rightarrow> \<not> rl_wants_write api (ts_conn s'))"
proof (induction n arbitrary: s out)
  case 0
  then show ?case by (simp split: if_splits)
next
  case (Suc n)
  note push = push_plaintext_keeps [OF law(1) Suc.prems(1)]
  show ?case
  proof (cases "push_plaintext api s")
    case (Inl x)
    then show ?thesis using push_not_stuck [of api s] by (cases x) auto
  next
    case (Inr s1)
    then have s1: "has_given taken bs s1" using push by simp
    note drain = drain_session_finite [OF law(2), where out = out and s = s1]
    show ?thesis
    proof (cases "drain_session api out s1")
      case (Inl x)
      then show ?thesis using drain Inr by (cases x) auto
    next
      case d: (Inr x)
      obtain out1 s2 where x: "x = (out1, s2)" by (cases x)
      show ?thesis
      proof (cases "ts_pending s2 = [] \<or> length out1 = length out")
        case True
        then show ?thesis using drain Inr d x by auto
      next
        case False
        have s2: "\<not> rl_wants_write api (ts_conn s2)" "remaining s2 = remaining s1" "rl_wants_write api (ts_conn s1)"
          using drain d x False by auto
        have "has_given taken bs s2" using drain_session_keeps [OF law(1) s1, of out] d x by simp
        moreover have "remaining s2 + 1 \<le> n"
          using push_plaintext_progress [OF law(2) Inr] s2 Suc.prems(2) by (auto split: if_splits)
        ultimately show ?thesis using Suc.IH [of s2 out1] s2(1) Inr d x False by simp
      qed
    qed
  qed
qed

lemma offer_data_progress:
  assumes law: "rustls_finite api" and "offer_data api data conn = Inr (rest, conn')"
  shows "length rest < length data \<or> rest = data \<and> rl_wants_write api conn' = rl_wants_write api conn"
  using assms(2)
proof (induction "length data" arbitrary: data conn rule: less_induct)
  case less
  show ?case
  proof (cases "data = []")
    case True
    then show ?thesis using less.prems by (simp add: offer_data.simps)
  next
    case False
    obtain n conn1 where w: "rl_write api data conn = (Some n, conn1)"
      using less.prems False by (auto simp: offer_data.simps [of api data] split: prod.splits option.splits)
    show ?thesis
    proof (cases "n = 0")
      case True
      then have "rl_wants_write api conn1 = rl_wants_write api conn" using law w unfolding rustls_finite_def by blast
      then show ?thesis using less.prems False w True by (auto simp: offer_data.simps [of api data])
    next
      case nz: False
      then have "offer_data api (drop n data) conn1 = Inr (rest, conn')"
        using less.prems w False by (simp add: offer_data.simps [of api data])
      then have "length rest \<le> length (drop n data)" using less.hyps [of "drop n data" conn1] nz False by auto
      then show ?thesis using nz False by (cases data) auto
    qed
  qed
qed

lemma borrow_loop_finite:
  assumes law: "rustls_finite api"
  shows "length data + (if rl_wants_write api (ts_conn s) then 2 else 1) \<le> n \<Longrightarrow>
     (case borrow_loop n api data out s of
        Inl (e, _) \<Rightarrow> e \<noteq> Tls_stuck
      | Inr (out', s') \<Rightarrow> \<not> rl_wants_write api (ts_conn s'))"
proof (induction n arbitrary: data s out)
  case 0
  then show ?case by (simp split: if_splits)
next
  case (Suc n)
  show ?case
  proof (cases "offer_data api data (ts_conn s)")
    case (Inl x)
    then show ?thesis by (cases x) auto
  next
    case (Inr x)
    obtain rest conn where x: "x = (rest, conn)" by (cases x)
    note drain = drain_session_finite [OF law, where out = out and s = "s\<lparr>ts_conn := conn\<rparr>"]
    show ?thesis
    proof (cases "drain_session api out (s\<lparr>ts_conn := conn\<rparr>)")
      case (Inl y)
      then show ?thesis using drain Inr x by (cases y) auto
    next
      case d: (Inr y)
      obtain out1 s1 where y: "y = (out1, s1)" by (cases y)
      show ?thesis
      proof (cases "rest = [] \<or> length out1 = length out")
        case True
        then show ?thesis using drain Inr d x y by auto
      next
        case False
        have s1: "\<not> rl_wants_write api (ts_conn s1)" "rl_wants_write api conn" using drain d y False by auto
        have "length rest + 1 \<le> n"
          using offer_data_progress [OF law, of data "ts_conn s" rest conn] Inr x s1 Suc.prems by (auto split: if_splits)
        then show ?thesis using Suc.IH [of rest s1 out1] s1(1) Inr d x y False by simp
      qed
    qed
  qed
qed

lemma read_loop_finite:
  "rustls_finite api \<Longrightarrow> rl_left api (ts_conn s) < n \<Longrightarrow> read_loop n api sink s h \<noteq> Inl (Inl Tls_stuck, x)"
proof (induction n arbitrary: s h)
  case (Suc n)
  obtain r conn where r: "rl_read api (ts_conn s) = (r, conn)" by fastforce
  have "rl_left api conn < n" if "r = Plain bs" "bs \<noteq> []" for bs
    using Suc.prems r that unfolding rustls_finite_def by fastforce
  then show ?case using Suc.IH [OF Suc.prems(1), of "s\<lparr>ts_conn := conn\<rparr>"] r
    by (auto simp: read_plaintext_def Let_def split: plain_read.split sum.split)
qed simp

lemma feed_into_finite: "rustls_finite api \<Longrightarrow> feed_into api data sink s h \<noteq> Inl (Inl Tls_stuck, x)"
proof (induction "length data" arbitrary: data s h rule: less_induct)
  case less
  have loop: "read_loop (Suc (rl_left api conn)) api sink (s\<lparr>ts_conn := conn, ts_peer_closed := b\<rparr>) h \<noteq> Inl (Inl Tls_stuck, x)" for conn b
    by (rule read_loop_finite [OF less.prems]) simp
  show ?case using less.hyps [OF _ less.prems] loop
    by (subst feed_into.simps) (auto simp: rbind_eq_Inl Let_def simp del: read_loop.simps split: prod.splits option.splits)
qed

text \<open>
  C33. Every loop of a session ends. Where each write of ciphertext uses up what rustls holds, flushing, writing and receiving
  never spin: the bound on their turns is never reached, and a flush that succeeds leaves rustls with nothing to write.
\<close>

theorem tls_loops_terminate:
  assumes "rustls_law api taken" "rustls_finite api" "backlog_ok s"
  shows "(case take_ciphertext_into api s of Inl (e, _) \<Rightarrow> e \<noteq> Tls_stuck | Inr (_, s') \<Rightarrow> \<not> rl_wants_write api (ts_conn s')) \<and>
    (case write_and_take api full data s of Inl (e, _) \<Rightarrow> e \<noteq> Tls_stuck | Inr (_, s') \<Rightarrow> \<not> rl_wants_write api (ts_conn s')) \<and>
    (\<forall>x. feed_into api received sink s h \<noteq> Inl (Inl Tls_stuck, x))"
proof (intro conjI allI)
  have take: "case take_ciphertext_into api s of Inl (e, _) \<Rightarrow> e \<noteq> Tls_stuck | Inr (_, s') \<Rightarrow> \<not> rl_wants_write api (ts_conn s')"
    if "backlog_ok s" for s
  proof -
    have "has_given taken (given taken s) s" using that by (simp add: has_given_def)
    moreover have "remaining s + (if rl_wants_write api (ts_conn s) then 2 else 1) \<le> 2 * length (ts_pending s) + 2"
      by (auto simp: remaining_def)
    ultimately show ?thesis unfolding take_ciphertext_into_def by (rule ciphertext_loop_finite [OF assms(1,2)])
  qed
  show "case take_ciphertext_into api s of Inl (e, _) \<Rightarrow> e \<noteq> Tls_stuck | Inr (_, s') \<Rightarrow> \<not> rl_wants_write api (ts_conn s')"
    by (rule take [OF assms(3)])
  show "case write_and_take api full data s of Inl (e, _) \<Rightarrow> e \<noteq> Tls_stuck | Inr (_, s') \<Rightarrow> \<not> rl_wants_write api (ts_conn s')"
  proof (cases "rl_handshaking api (ts_conn s) \<or> ts_pending s \<noteq> []")
    case True
    have keeps: "has_given taken (given taken s @ data) (left_session (write_plaintext api full data s) id id)"
      using write_plaintext_keeps [OF assms(1), of "given taken s" s data full] assms(3) by (simp add: has_given_def)
    show ?thesis
    proof (cases "write_plaintext api full data s")
      case (Inl x)
      then show ?thesis using True push_not_stuck by (cases x) (auto simp: write_and_take_def write_plaintext_def Let_def)
    next
      case (Inr s1)
      then have "backlog_ok s1" using keeps by (simp add: has_given_def)
      then show ?thesis using take [of s1] True Inr by (simp add: write_and_take_def)
    qed
  next
    case False
    have "length data + (if rl_wants_write api (ts_conn s) then 2 else 1) \<le> 2 * length data + 2" by simp
    from borrow_loop_finite [OF assms(2) this, of "[]"] False show ?thesis
      by (simp add: write_and_take_def del: borrow_loop.simps)
  qed
qed (rule feed_into_finite [OF assms(2)])

theorem tls_loops_terminate_witness:
  "case write_and_take sample_rustls False [1, 2, 3, 4, 5, 6] (tls_new ([], [])) of
     Inl (e, _) \<Rightarrow> e \<noteq> Tls_stuck | Inr (_, s') \<Rightarrow> \<not> rl_wants_write sample_rustls (ts_conn s')"
proof -
  have fin: "rustls_finite sample_rustls"
    by (auto simp: rustls_finite_def sample_rustls_def Let_def split_def)
  have ok: "backlog_ok (tls_new ([] :: bytes, [] :: bytes))" by (simp add: tls_new_def backlog_ok_def)
  show ?thesis by (rule tls_loops_terminate [OF sample_rustls_law fin ok, THEN conjunct2, THEN conjunct1])
qed

section \<open>What the sink keeps\<close>

definition sink_keeps :: "('h \<Rightarrow> bool) \<Rightarrow> (bytes \<Rightarrow> 'h \<Rightarrow> ('e \<times> 'h, 'h) result) \<Rightarrow> bool" where
  "sink_keeps P sink \<longleftrightarrow> (\<forall>bs h. P h \<longrightarrow> (case sink bs h of Inl (_, h') \<Rightarrow> P h' | Inr h' \<Rightarrow> P h'))"

lemma sink_keepsD:
  assumes "sink_keeps P sink" "P h"
  shows "sink bs h = Inl (e, h') \<Longrightarrow> P h'" "sink bs h = Inr h' \<Longrightarrow> P h'"
proof -
  have "case sink bs h of Inl (_, h') \<Rightarrow> P h' | Inr h' \<Rightarrow> P h'" using assms by (simp add: sink_keeps_def)
  then show "sink bs h = Inl (e, h') \<Longrightarrow> P h'" "sink bs h = Inr h' \<Longrightarrow> P h'" by simp_all
qed

definition feed_keeps :: "('h \<Rightarrow> bool) \<Rightarrow> ('e, 'c, 'h) feed_result \<Rightarrow> bool" where
  "feed_keeps P r \<longleftrightarrow> (case r of Inl (_, _, h) \<Rightarrow> P h | Inr (_, h) \<Rightarrow> P h)"

lemma feed_keeps_simps [simp]: "feed_keeps P (Inl (e, s, h)) = P h" "feed_keeps P (Inr (s, h)) = P h"
  by (simp_all add: feed_keeps_def)

lemma read_loop_sink: "sink_keeps P sink \<Longrightarrow> P h \<Longrightarrow> feed_keeps P (read_loop n api sink s h)"
proof (induction n arbitrary: s h)
  case (Suc n)
  show ?case using Suc by (auto dest: sink_keepsD split: prod.splits option.splits sum.splits)
qed simp

lemma feed_into_sink: "sink_keeps P sink \<Longrightarrow> P h \<Longrightarrow> feed_keeps P (feed_into api data sink s h)"
proof (induction "length data" arbitrary: data s h rule: less_induct)
  case less
  note loop = read_loop_sink [OF less.prems]
  show ?case
  proof (cases "data = []")
    case False
    obtain r conn where r: "rl_read_tls api data (ts_conn s) = (r, conn)" by fastforce
    obtain p conn1 where p: "rl_process api conn = (p, conn1)" by fastforce
    show ?thesis
    proof (cases "\<exists>n closed. r = Some n \<and> n \<noteq> 0 \<and> p = Some closed")
      case True
      then obtain n closed where n: "r = Some n" "n \<noteq> 0" "p = Some closed" by blast
      define s1 where "s1 = s\<lparr>ts_conn := conn1, ts_peer_closed := ts_peer_closed s \<or> closed\<rparr>"
      have step: "feed_into api data sink s h =
          rbind (read_loop (Suc (rl_left api conn1)) api sink s1 h) (\<lambda>(s, h). feed_into api (drop n data) sink s h)"
        using False r p n by (simp add: feed_into.simps [of api data] s1_def Let_def del: read_loop.simps)
      have kept: "feed_keeps P (read_loop (Suc (rl_left api conn1)) api sink s1 h)" by (rule loop)
      show ?thesis
      proof (cases "read_loop (Suc (rl_left api conn1)) api sink s1 h")
        case (Inl x)
        then show ?thesis using kept unfolding step by (cases x) simp
      next
        case (Inr x)
        obtain s2 h2 where x: "x = (s2, h2)" by (cases x)
        then have "P h2" using kept Inr by (simp del: read_loop.simps)
        then show ?thesis unfolding step Inr x using less.hyps [OF _ less.prems(1), of "drop n data" h2] False n by simp
      qed
    qed (use False r p less.prems(2) in \<open>auto simp: feed_into.simps [of api data] split: option.split\<close>)
  qed (use less.prems in \<open>simp add: feed_into.simps\<close>)
qed

end
