(* ===== verification/Status_Table.thy ===== *)
theory Status_Table
  imports H1_Parse H2_Conn H3_Proto Stats
begin

text \<open>
  Every status a decoder produces has three digits, which is what \<open>record_success\<close> relies on when it indexes its table of a
  thousand counters: the HTTP/1.1 parser, the HTTP/2 connection and the HTTP/3 response reader, whatever they are fed.
\<close>

section \<open>HTTP/1.1\<close>

definition status_ok :: "parser \<Rightarrow> bool" where
  "status_ok p \<longleftrightarrow> ps_status p < 1000 \<and> (\<forall>h. ps_partial p = Some h \<longrightarrow> hd_status h < 1000)"

lemma parse_status_small:
  assumes "parse_status b = Inr st" "length b = 3"
  shows "st < 1000"
proof -
  obtain x y z where b: "b = [x, y, z]" using assms(2) by (auto simp: eval_nat_numeral length_Suc_conv)
  have "unat x - 48 \<le> 9" "unat y - 48 \<le> 9" "unat z - 48 \<le> 9"
    using assms(1) by (auto simp: parse_status_def b is_ascii_digit_def word_le_nat_alt split: if_splits)
  moreover have "st = (unat x - 48) * 100 + (unat y - 48) * 10 + (unat z - 48)"
    using assms(1) by (simp add: parse_status_def b three_digits_def split: if_splits)
  ultimately show ?thesis by linarith
qed

lemma status_line_small: "status_line buf nl = Inr h \<Longrightarrow> nl < length buf \<Longrightarrow> hd_status h < 1000"
  by (auto simp: status_line_def split: if_splits intro!: parse_status_small)

lemma connection_tokens_status: "hd_status (fold connection_token ts h) = hd_status h"
  by (induction ts arbitrary: h) (simp_all add: connection_token_def Let_def)

lemma head_line_status: "head_line line h = Inr h' \<Longrightarrow> hd_status h' = hd_status h"
proof -
  define a where "a \<longleftrightarrow> hd line OR 0x20 = 99 \<and> ci_prefix line (ascii ''content-length:'')"
  define b where "b \<longleftrightarrow> hd line OR 0x20 = 99 \<and> ci_prefix line (ascii ''connection:'')"
  define d where "d \<longleftrightarrow> hd line OR 0x20 = 116 \<and> ci_prefix line (ascii ''transfer-encoding:'')"
  assume "head_line line h = Inr h'"
  note line = this [unfolded head_line_def Let_def, folded a_def b_def d_def]
  consider "a" | "\<not> a" "b" | "\<not> a" "\<not> b" "d" | "\<not> a" "\<not> b" "\<not> d" by blast
  then show ?thesis
  proof cases
    case 1
    then obtain n where "(if hd_content_length h \<noteq> None \<and> hd_content_length h \<noteq> Some n then Inl Conflicting_content_length
        else Inr (h\<lparr>hd_content_length := Some n\<rparr>)) = Inr h'" using line by auto
    then show ?thesis by (metis Inl_Inr_False Inr_inject head.ext_inject head.surjective head.update_convs(1))
  next
    case 2
    then show ?thesis using line connection_tokens_status by auto
  next
    case 3
    then obtain found where "(case found of Some chunked \<Rightarrow> h\<lparr>hd_te_present := True, hd_te_chunked := chunked\<rparr>
        | None \<Rightarrow> h\<lparr>hd_te_present := True\<rparr>) = h'" using line by auto
    then show ?thesis by (cases found) auto
  qed (use line in simp)
qed

lemma head_lines_status:
  "head_lines h buf = Inr (rest, out) \<Longrightarrow> (case out of Inl h' \<Rightarrow> hd_status h' | Inr rh \<Rightarrow> rh_status rh) = hd_status h"
proof (induction h buf rule: head_lines.induct)
  case (1 h buf)
  then show ?case
    by (subst (asm) (2) head_lines.simps)
      (auto simp: Let_def finish_head_def dest: head_line_status split: option.splits if_splits sum.splits)
qed

lemma scan_head_status:
  assumes "scan_head buf partial = Inr (rest, partial', complete)" "\<forall>h. partial = Some h \<longrightarrow> hd_status h < 1000"
  shows "(\<forall>h. partial' = Some h \<longrightarrow> hd_status h < 1000) \<and> (\<forall>rh. complete = Some rh \<longrightarrow> rh_status rh < 1000)"
proof -
  have out: "(\<forall>h. partial' = Some h \<longrightarrow> hd_status h < 1000) \<and> (\<forall>rh. complete = Some rh \<longrightarrow> rh_status rh < 1000)"
    if "head_lines h0 buf' = Inr out" "hd_status h0 < 1000" "head_out out = (rest, partial', complete)" for h0 buf' out
  proof -
    obtain r o' where o: "out = (r, o')" by (cases out)
    show ?thesis using head_lines_status [of h0 buf' r o'] that unfolding o by (cases o') auto
  qed
  show ?thesis
  proof (cases partial)
    case (Some h)
    then show ?thesis using assms out by (auto simp: scan_head_def)
  next
    case None
    show ?thesis
    proof (cases "split_line buf")
      case (Some lr)
      obtain line after where lr: "lr = (line, after)" by (cases lr)
      then have "length line < length buf" using Some by (auto simp: split_line_Some)
      then show ?thesis using assms(1) None Some lr out status_line_small by (auto simp: scan_head_def)
    qed (use assms(1) None in \<open>auto simp: scan_head_def\<close>)
  qed
qed

fun turn_parser :: "parser turn \<Rightarrow> parser" where
  "turn_parser (Halt q rest) = q"
| "turn_parser (Go q d rest) = q"

lemma body_turn_status:
  "body_turn b p buf = Inr t \<Longrightarrow> ps_status (turn_parser t) = ps_status p \<and> ps_partial (turn_parser t) = ps_partial p"
proof (cases b)
  case (Chunk n)
  assume "body_turn b p buf = Inr t"
  then show ?thesis unfolding Chunk body_turn.simps Let_def by (elim if_split [THEN iffD1, elim_format]) (auto split: if_splits)
qed (auto simp: Let_def split: if_splits option.splits)

lemma parser_turn_status: "parser_turn p buf = Inr t \<Longrightarrow> status_ok p \<Longrightarrow> status_ok (turn_parser t)"
proof (cases "ps_state p")
  case In_head
  assume t: "parser_turn p buf = Inr t" and p: "status_ok p"
  then obtain rest partial complete where scan: "scan_head buf (ps_partial p) = Inr (rest, partial, complete)"
    using In_head by (auto simp: parser_turn_def head_turn_def)
  have small: "\<forall>h. partial = Some h \<longrightarrow> hd_status h < 1000" "\<forall>rh. complete = Some rh \<longrightarrow> rh_status rh < 1000"
    using scan_head_status [OF scan] p unfolding status_ok_def by blast+
  have "head_turn p buf = Inr t" using t In_head by (simp add: parser_turn_def)
  then show ?thesis using scan small p
    by (cases complete) (auto simp: head_turn_def status_ok_def Let_def split: if_splits)
next
  case (In_body b)
  assume t: "parser_turn p buf = Inr t" and p: "status_ok p"
  then show ?thesis using In_body body_turn_status [of b p buf t] by (auto simp: parser_turn_def status_ok_def)
qed

lemma parser_run_status: "parser_run p buf = Inr (d, q, rest) \<Longrightarrow> status_ok p \<Longrightarrow> status_ok q"
proof (induction p buf arbitrary: d q rest rule: parser_run.induct)
  case (1 p buf)
  obtain t where t: "parser_turn p buf = Inr t" using "1.prems"(1) by (subst (asm) parser_run.simps) (auto split: sum.splits)
  note ok = parser_turn_status [OF t "1.prems"(2)]
  show ?case
  proof (cases t)
    case (Halt q' rest')
    then show ?thesis using "1.prems"(1) t ok by (subst (asm) parser_run.simps) simp
  next
    case (Go q' d' rest')
    then obtain d2 where "parser_run q' rest' = Inr (d2, q, rest)"
      using "1.prems"(1) t parser_run.simps [of p buf] by auto
    then show ?thesis using "1.IH" [OF t Go] ok Go by simp
  qed
qed

lemma parser_feed_status: "parser_feed data p = Inr (d, q) \<Longrightarrow> status_ok p \<Longrightarrow> status_ok q"
proof -
  assume f: "parser_feed data p = Inr (d, q)" and p: "status_ok p"
  have ok: "status_ok (r\<lparr>ps_pending := bs\<rparr>) = status_ok r" for r bs by (simp add: status_ok_def)
  show ?thesis using f p parser_run_status [of "p\<lparr>ps_pending := []\<rparr>"] parser_run_status
    by (auto simp: parser_feed_def ok split: if_splits option.splits)
qed

section \<open>HTTP/2 and HTTP/3\<close>

lemma three_digits_small: "length ds = 3 \<Longrightarrow> \<forall>d \<in> set ds. d \<le> 57 \<Longrightarrow> three_digits ds < 1000"
proof -
  assume ds: "length ds = 3" "\<forall>d \<in> set ds. d \<le> 57"
  then obtain a b c where "ds = [a, b, c]" "a \<le> 57" "b \<le> 57" "c \<le> 57" by (auto simp: numeral_eq_Suc length_Suc_conv)
  then show ?thesis by (simp add: three_digits_def)
qed

lemma huffman_digit_small: "huffman_digit bits nbits = Some (d, used) \<Longrightarrow> d \<le> 57"
  by (auto simp: huffman_digit_def Let_def split: if_splits)

lemma status_digits_small:
  "status_digits bits nbits ds = (b', n', ds') \<Longrightarrow> \<forall>d \<in> set ds. d \<le> 57 \<Longrightarrow> \<forall>d \<in> set ds'. d \<le> 57"
proof (induction bits nbits ds rule: status_digits.induct)
  case (1 bits nbits ds)
  then show ?case
    by (subst (asm) (2) status_digits.simps) (auto dest: huffman_digit_small split: if_splits option.splits)
qed

lemma status_bytes_small:
  "status_bytes s (bits, nbits, ds) = (b', n', ds') \<Longrightarrow> \<forall>d \<in> set ds. d \<le> 57 \<Longrightarrow> \<forall>d \<in> set ds'. d \<le> 57"
proof (induction s arbitrary: bits nbits ds)
  case (Cons x s)
  obtain b1 n1 d1 where r: "status_digits (take_bit 32 (push_bit 8 bits) OR unat x) (nbits + 8) ds = (b1, n1, d1)" by (metis prod_cases3)
  have "status_bytes s (b1, n1, d1) = (b', n', ds')" using Cons.prems(1) r by (simp del: status_digits.simps)
  then show ?case using Cons.IH status_digits_small [OF r Cons.prems(2)] by blast
qed simp

lemma status_value_small: "status_value s huffman = Inr st \<Longrightarrow> st < 1000"
proof (cases huffman)
  case False
  assume "status_value s huffman = Inr st"
  then have "length s = 3" "list_all is_ascii_digit s" "st = three_digits (map unat s)" using False by (auto simp: status_value_def split: if_splits)
  then show ?thesis using three_digits_small [of "map unat s"] by (auto simp: list_all_iff is_ascii_digit_def word_le_nat_alt)
next
  case True
  assume st: "status_value s huffman = Inr st"
  obtain bits nbits ds where run: "status_bytes s (0, 0, []) = (bits, nbits, ds)" by (metis prod_cases3)
  then have "length ds = 3" "st = three_digits ds" using st True by (auto simp: status_value_def split: if_splits)
  then show ?thesis using three_digits_small status_bytes_small [OF run] by simp
qed

lemma hpack_find_status_small: "hpack_find_status block = Inr (Some st) \<Longrightarrow> st < 1000"
proof (induction block rule: hpack_find_status.induct)
  case (1 block)
  have index: "STATUS_BY_INDEX ! (i - 8) < 1000" if "8 \<le> i" "i \<le> 14" for i
  proof -
    have "STATUS_BY_INDEX ! (i - 8) \<in> set STATUS_BY_INDEX" using that by (intro nth_mem) (simp add: STATUS_BY_INDEX_def)
    then show ?thesis by (auto simp: STATUS_BY_INDEX_def)
  qed
  have literal: "hpack_literal_field p b = Inr (Some st, rest) \<Longrightarrow> st < 1000" for p b rest
    by (auto simp: hpack_literal_field_def map_sum_def dest: status_value_small split: if_splits sum.splits)
  have field: "hpack_field block = Inr (Some st, rest) \<Longrightarrow> st < 1000" for rest
    using index literal by (auto simp: hpack_field_def Let_def split: if_splits)
  show ?case using "1.prems" "1.IH" field
    by (subst (asm) hpack_find_status.simps) (auto split: if_splits sum.splits option.splits prod.splits)
qed

lemma qpack_find_status_small: "qpack_find_status buf = Inr (Some st) \<Longrightarrow> st < 1000"
proof -
  have index: "status_for_index i = Some s \<Longrightarrow> s < 1000" for i s
  proof -
    assume "status_for_index i = Some s"
    then obtain p where "List.find (\<lambda>(i', _). i' = i) STATUS_ENTRIES = Some p" "s = snd p" by (auto simp: status_for_index_def)
    then have "p \<in> set STATUS_ENTRIES" "s = snd p" by (auto simp: find_Some_iff in_set_conv_nth)
    then show "s < 1000" by (auto simp: STATUS_ENTRIES_def)
  qed
  have literal: "qpack_value n b = Inr (Some s, rest) \<Longrightarrow> s < 1000" for n b s rest
    by (auto simp: qpack_value_def map_sum_def dest: status_value_small split: if_splits sum.splits)
  have field: "qpack_field b = Inr (Some s, rest) \<Longrightarrow> s < 1000" for b s rest
    using index literal by (auto simp: qpack_field_def Let_def split: if_splits)
  have loop: "qpack_loop b = Inr (Some s) \<Longrightarrow> s < 1000" for b s
  proof (induction b rule: qpack_loop.induct)
    case (1 b)
    then show ?case using field by (subst (asm) (2) qpack_loop.simps) (auto split: if_splits sum.splits option.splits prod.splits)
  qed
  assume "qpack_find_status buf = Inr (Some st)"
  then show ?thesis using loop index
    by (auto simp: qpack_find_status_def qpack_walk_def qpack_fast_def split: option.splits list.splits if_splits)
qed

text \<open>The events of an HTTP/2 connection: each \<open>Event::Status\<close> carries a status of the table.\<close>

fun event_small :: "h2_event \<Rightarrow> bool" where
  "event_small (Ev_status _ st) \<longleftrightarrow> st < 1000"
| "event_small _ \<longleftrightarrow> True"

definition events_small :: "h2_conn \<Rightarrow> bool" where
  "events_small c \<longleftrightarrow> list_all event_small (h2_events c)"

lemma events_small_push: "events_small c \<Longrightarrow> event_small ev \<Longrightarrow> events_small (h2_push_event ev c)"
  by (simp add: events_small_def h2_push_event_def)

lemma events_small_finish_with: "events_small c \<Longrightarrow> event_small ev \<Longrightarrow> events_small (finish_with wanted ev stream c)"
  by (auto simp: finish_with_def finish_stream_def events_small_def h2_push_event_def split: option.split)

lemma events_small_complete_headers: "events_small c \<Longrightarrow> events_small (h2_after (complete_headers stream es block c))"
  by (auto simp: complete_headers_def Let_def split: sum.split option.split
      intro!: events_small_finish_with events_small_push dest: hpack_find_status_small)

lemma events_small_goaway: "events_small c \<Longrightarrow> events_small (h2_after (on_goaway payload c))"
proof -
  have unprocessed: "events_small d \<Longrightarrow> events_small (fold (\<lambda>s. h2_push_event (Ev_unprocessed (os_id s))) l d)" for l d
    by (induction l arbitrary: d) (simp_all add: events_small_push)
  assume "events_small c"
  then show ?thesis by (auto simp: on_goaway_def Let_def events_small_def [of "_\<lparr>h2_open := _\<rparr>"] events_small_def [symmetric]
      intro!: events_small_push unprocessed split: prod.split)
qed

lemma events_small_dispatch: "events_small c \<Longrightarrow> events_small (h2_after (h2_dispatch kind flags stream payload c))"
proof (rule h2_dispatch_keeps)
  assume c: "events_small c"
  show "events_small (on_data stream flags payload c)"
    using c unfolding on_data_def Let_def
    by (intro events_small_finish_with) (simp_all add: h2_window_update_def h2_frame_header_def h2_write_def events_small_def)
  show "events_small (h2_after (on_headers stream flags payload c))"
    using c events_small_complete_headers [OF c] by (auto simp: on_headers_def events_small_def split: option.split)
  show "events_small (h2_after (on_continuation stream flags payload c))"
  proof -
    have "events_small (c\<lparr>h2_header_block := b, h2_header_stream := n, h2_header_end_stream := e\<rparr>)"
      "events_small (c\<lparr>h2_header_block := b\<rparr>)" for b n e using c by (simp_all add: events_small_def)
    then show ?thesis using c events_small_complete_headers by (simp add: on_continuation_def Let_def)
  qed
  show "events_small (h2_after (on_settings flags payload c))"
    by (rule on_settings_keeps) (use c in \<open>simp_all add: on_setting_def Let_def events_small_def h2_write_def split: prod.split\<close>)
  show "events_small (h2_after (on_window_update stream payload c))"
    using c by (simp add: on_window_update_def Let_def events_small_def)
  show "events_small (h2_after (on_ping stream flags payload c))"
    using c by (simp add: on_ping_def Let_def events_small_def h2_frame_header_def h2_write_def)
  show "events_small (h2_after (on_rst_stream stream payload c))"
    using c by (auto simp: on_rst_stream_def Let_def intro: events_small_finish_with)
qed (auto intro: events_small_goaway)

lemma h2_feed_small: "events_small c \<Longrightarrow> events_small (h2_after (h2_feed data c))"
proof -
  assume "events_small c"
  then have c: "events_small (c\<lparr>h2_pending := []\<rparr>)" by (simp add: events_small_def)
  have "events_small (h2_after (map_sum id snd (h2_run (h2_pending c @ data) (c\<lparr>h2_pending := []\<rparr>))))"
    unfolding h2_run_def using c h2_loop_keeps [of events_small "c\<lparr>h2_pending := []\<rparr>" "h2_pending c @ data"]
    by (simp add: events_small_dispatch) (simp add: events_small_def)
  then show ?thesis unfolding h2_feed_eq
    by (cases "h2_run (h2_pending c @ data) (c\<lparr>h2_pending := []\<rparr>)") (auto simp: events_small_def)
qed

lemma reader_run_small: "status < 1000 \<Longrightarrow> reader_run skip status buf = Inr (skip', status', rest) \<Longrightarrow> status' < 1000"
proof (induction skip status buf rule: reader_run.induct)
  case (1 skip status buf)
  have new: "qpack_find_status b = Inr found \<Longrightarrow> new_status found status < 1000" for b found
    using "1.prems"(1) by (auto simp: new_status_def dest: qpack_find_status_small split: option.split)
  show ?case using "1.prems"(2,1) "1.IH" new
    by (subst (asm) reader_run.simps) (auto simp: Let_def split: if_splits option.splits prod.splits sum.splits)
qed

lemma reader_feed_small: "rr_status r < 1000 \<Longrightarrow> reader_feed data r = Inr r' \<Longrightarrow> rr_status r' < 1000"
  unfolding reader_feed_run
  by (cases "reader_run (rr_skip r) (rr_status r) (rr_pending r @ data)") (auto dest: reader_run_small [rotated])

section \<open>The statuses index the table\<close>

lemma feeds_keeps:
  assumes "\<And>d s t. P s \<Longrightarrow> feed d s = Inr t \<Longrightarrow> P t"
  shows "P s \<Longrightarrow> feeds feed ds s = Inr t \<Longrightarrow> P t"
  using assms by (induction ds arbitrary: s) (auto simp: rbind_eq_Inr)

lemma h1_status_in_table: "feeds counted_feed ds (0, parser_new) = Inr (n, p) \<Longrightarrow> ps_status p < 1000"
proof -
  assume r: "feeds counted_feed ds (0, parser_new) = Inr (n, p)"
  have step: "status_ok (snd s) \<Longrightarrow> counted_feed d s = Inr t \<Longrightarrow> status_ok (snd t)" for s d t
    by (cases s) (auto simp: counted_feed_def rbind_eq_Inr dest: parser_feed_status)
  have "status_ok (snd (0 :: nat, parser_new))" by (simp add: status_ok_def parser_new_def)
  then have "status_ok p" using feeds_keeps [of "\<lambda>s. status_ok (snd s)", OF step _ r] by simp
  then show ?thesis by (simp add: status_ok_def)
qed

lemma h2_status_in_table:
  assumes "feeds h2_feed ds h2_new = Inr c" "Ev_status i st \<in> set (h2_events c)"
  shows "st < 1000"
proof -
  have step: "events_small s \<Longrightarrow> h2_feed d s = Inr t \<Longrightarrow> events_small t" for d s t using h2_feed_small [of s d] by simp
  have "events_small h2_new" by (simp add: events_small_def h2_new_def)
  then have "events_small c" using feeds_keeps [of events_small h2_feed h2_new ds c] step assms(1) by blast
  then show ?thesis using assms(2) by (auto simp: events_small_def list_all_iff)
qed

lemma h3_status_in_table: "feeds reader_feed ds reader_default = Inr r \<Longrightarrow> rr_status r < 1000"
  using feeds_keeps [of "\<lambda>r. rr_status r < 1000" reader_feed reader_default ds r]
  by (auto simp: reader_default_def dest: reader_feed_small)

text \<open>
  C27. Whatever bytes a server sends and however they are cut into reads, the status of an HTTP/1.1 response, of an
  \<open>Event::Status\<close> of an HTTP/2 connection and of an HTTP/3 response is an index into the table of counts of
  \<open>Stats\<close>: three digits, as the comment on \<open>record_success\<close> promises, so that indexing never panics.
\<close>

theorem statuses_in_table:
  "(\<forall>ds n p. feeds counted_feed ds (0, parser_new) = Inr (n, p) \<longrightarrow> ps_status p < length (st_status_counts stats_default))
   \<and> (\<forall>ds c i st. feeds h2_feed ds h2_new = Inr c \<and> Ev_status i st \<in> set (h2_events c)
        \<longrightarrow> st < length (st_status_counts stats_default))
   \<and> (\<forall>ds r. feeds reader_feed ds reader_default = Inr r \<longrightarrow> rr_status r < length (st_status_counts stats_default))"
proof -
  have "length (st_status_counts stats_default) = 1000" by (simp add: stats_default_def)
  then show ?thesis using h1_status_in_table h2_status_in_table h3_status_in_table by metis
qed

theorem statuses_in_table_witness:
  "\<exists>p. feeds counted_feed [ascii ''HTTP/1.1 204 O'', ascii ''K'' @ [13, 10, 13, 10]] (0, parser_new) = Inr (1, p)
     \<and> ps_status p = 204 \<and> ps_status p < length (st_status_counts stats_default)"
proof -
  have "case feeds counted_feed [ascii ''HTTP/1.1 204 O'', ascii ''K'' @ [13, 10, 13, 10]] (0, parser_new) of
      Inl _ \<Rightarrow> False | Inr (n, p) \<Rightarrow> n = 1 \<and> ps_status p = 204" by code_simp
  then have "\<exists>p. feeds counted_feed [ascii ''HTTP/1.1 204 O'', ascii ''K'' @ [13, 10, 13, 10]] (0, parser_new) = Inr (1, p)
      \<and> ps_status p = 204" by (auto simp del: feeds.simps split: sum.splits)
  then show ?thesis using statuses_in_table by blast
qed

end
