(* ===== verification/Target.thy ===== *)
theory Target
  imports H1_Parse
begin

text \<open>
  What is requested (\<open>target.rs\<close>): the URL taken apart, the headers of the command line checked, the framing of the body
  settled, and the HTTP/1.1 request built once for every connection. Text is its UTF-8 bytes. Resolving a name is the
  parameter \<open>resolve\<close>, which gives the addresses found or fails.
\<close>

section \<open>Text\<close>

text \<open>What the code uses of \<open>str\<close>: \<open>strip_prefix\<close>, \<open>split_once\<close>, \<open>rsplit_once\<close>, \<open>split\<close>, \<open>trim\<close> and \<open>parse\<close>.\<close>

definition strip_prefix :: "bytes \<Rightarrow> bytes \<Rightarrow> bytes option" where
  "strip_prefix p s = (if take (length p) s = p then Some (drop (length p) s) else None)"

definition split_once :: "byte \<Rightarrow> bytes \<Rightarrow> (bytes \<times> bytes) option" where
  "split_once c s =
     (case dropWhile (\<lambda>b. b \<noteq> c) s of [] \<Rightarrow> None | _ # rest \<Rightarrow> Some (takeWhile (\<lambda>b. b \<noteq> c) s, rest))"

definition rsplit_once :: "byte \<Rightarrow> bytes \<Rightarrow> (bytes \<times> bytes) option" where
  "rsplit_once c s = map_option (\<lambda>(after, before). (rev before, rev after)) (split_once c (rev s))"

text \<open>The UTF-8 encodings of the white space that \<open>str::trim\<close> removes.\<close>

definition white_space :: "bytes list" where
  "white_space =
     map (\<lambda>b. [b]) [9, 10, 11, 12, 13, 32] @ [[0xC2, 0x85], [0xC2, 0xA0], [0xE1, 0x9A, 0x80]]
     @ map (\<lambda>b. [0xE2, 0x80, b]) [0x80, 0x81, 0x82, 0x83, 0x84, 0x85, 0x86, 0x87, 0x88, 0x89, 0x8A, 0xA8, 0xA9, 0xAF]
     @ [[0xE2, 0x81, 0x9F], [0xE3, 0x80, 0x80]]"

function trim_left :: "bytes list \<Rightarrow> bytes \<Rightarrow> bytes" where
  "trim_left ws s =
     (case List.find (\<lambda>w. w \<noteq> [] \<and> take (length w) s = w) ws of
        None \<Rightarrow> s
      | Some w \<Rightarrow> if s = [] then s else trim_left ws (drop (length w) s))"
  by pat_completeness auto
termination
  by (relation "measure (\<lambda>(ws, s). length s)") (auto simp: find_Some_iff)

declare trim_left.simps [simp del]

definition str_trim :: "bytes \<Rightarrow> bytes" where
  "str_trim s = rev (trim_left (map rev white_space) (rev (trim_left white_space s)))"

text \<open>\<open>parse::<u16>\<close>, which takes a sign.\<close>

definition parse_u16 :: "bytes \<Rightarrow> nat option" where
  "parse_u16 s =
     (case parse_u64 (if take 1 s = [43] then drop 1 s else s) of
        Inl _ \<Rightarrow> None
      | Inr n \<Rightarrow> if n < 2 ^ 16 then Some n else None)"

section \<open>The target\<close>

datatype target_error =
  No_tunnels | Trace_with_body | Bad_scheme | Missing_host | Bad_port | Not_resolved | No_address
| No_colon | Empty_name | Bad_name bytes | Bad_value bytes | Te_chunked | Transfer_encoding_given
| Bad_length | Length_overflow | Length_mismatch nat | Bad_method | Bad_request_target | Bad_host

type_synonym header = "bytes \<times> bytes"

record 'a target =
  tg_addr :: 'a
  tg_tls :: bool
  tg_host :: bytes
  tg_authority :: bytes
  tg_path :: bytes
  tg_method :: bytes
  tg_headers :: "header list"
  tg_body :: bytes
  tg_request_bytes :: bytes
  tg_disable_keepalive :: bool

definition named :: "bytes \<Rightarrow> header \<Rightarrow> bool" where
  "named name h \<longleftrightarrow> eq_ignore_ascii_case (fst h) name"

definition is_connection_specific :: "bytes \<Rightarrow> bool" where
  "is_connection_specific name \<longleftrightarrow>
     list_ex (eq_ignore_ascii_case name)
       [ascii ''connection'', ascii ''keep-alive'', ascii ''proxy-connection'', ascii ''transfer-encoding'', ascii ''upgrade'']"

text \<open>Whether a \<open>Connection\<close> header lists the option.\<close>

definition connection_lists :: "bytes \<Rightarrow> header list \<Rightarrow> bool" where
  "connection_lists opt headers \<longleftrightarrow>
     list_ex (\<lambda>h. named (ascii ''connection'') h \<and>
       list_ex (\<lambda>o'. eq_ignore_ascii_case (trim_ows o') opt) (split_commas (snd h))) headers"

definition multiplexed_headers :: "header list \<Rightarrow> header list" where
  "multiplexed_headers headers =
     map (\<lambda>(name, value). (map to_ascii_lowercase name, value))
       (filter (\<lambda>(name, value).
          if eq_ignore_ascii_case name (ascii ''te'') then eq_ignore_ascii_case value (ascii ''trailers'')
          else \<not> is_connection_specific name \<and> \<not> connection_lists name headers) headers)"

section \<open>The request\<close>

definition is_alphanumeric :: "byte \<Rightarrow> bool" where
  "is_alphanumeric b \<longleftrightarrow> 48 \<le> b \<and> b \<le> 57 \<or> 65 \<le> b \<and> b \<le> 90 \<or> 97 \<le> b \<and> b \<le> 122"

text \<open>The marks of a token are those of \<open>!#$%&'*+-.^_`|~\<close>.\<close>

definition is_token :: "bytes \<Rightarrow> bool" where
  "is_token s \<longleftrightarrow> s \<noteq> [] \<and>
     list_all (\<lambda>b. is_alphanumeric b \<or>
       b \<in> set [33, 35, 36, 37, 38, 39, 42, 43, 45, 46, 94, 95, 96, 124, 126]) s"

definition is_field_value :: "bytes \<Rightarrow> bool" where
  "is_field_value s \<longleftrightarrow> list_all (\<lambda>b. b = 9 \<or> 0x20 \<le> b \<and> b \<le> 0x7e \<or> b \<ge> 0x80) s"

definition defines_content :: "bytes \<Rightarrow> bool" where
  "defines_content meth \<longleftrightarrow> meth \<in> set [ascii ''POST'', ascii ''PUT'', ascii ''PATCH'']"

text \<open>The loop of \<open>frame_body\<close>; the flag says whether a \<open>Content-Length\<close> was given.\<close>

fun check_framing :: "bytes \<Rightarrow> bool \<Rightarrow> header list \<Rightarrow> (target_error, bool) result" where
  "check_framing body given [] = Inr given"
| "check_framing body given ((name, value) # hs) =
     (if eq_ignore_ascii_case name (ascii ''te'') \<and>
         list_ex (\<lambda>coding. eq_ignore_ascii_case (trim_ows (takeWhile (\<lambda>b. b \<noteq> 59) coding)) (ascii ''chunked'')) (split_commas value)
      then Inl Te_chunked
      else if eq_ignore_ascii_case name (ascii ''transfer-encoding'') then Inl Transfer_encoding_given
      else if eq_ignore_ascii_case name (ascii ''content-length'') then
        let value = str_trim value in
        if value = [] \<or> \<not> list_all is_ascii_digit value then Inl Bad_length
        else case parse_u64 value of
            Inl _ \<Rightarrow> Inl Length_overflow
          | Inr n \<Rightarrow> if n \<noteq> length body then Inl (Length_mismatch n) else check_framing body True hs
      else check_framing body given hs)"

definition frame_body :: "bytes \<Rightarrow> header list \<Rightarrow> bytes \<Rightarrow> (target_error, header list) result" where
  "frame_body meth headers body =
     rbind (check_framing body False headers) (\<lambda>content_length_given.
       let headers = filter (\<lambda>h. \<not> named (ascii ''content-length'') h) headers in
       Inr (if body = [] \<and> (content_length_given \<or> defines_content meth)
            then headers @ [(ascii ''Content-Length'', ascii ''0'')] else headers))"

text \<open>The header loop of \<open>encode_request\<close>, after what it has written already.\<close>

fun encode_fields :: "bytes \<Rightarrow> header list \<Rightarrow> (target_error, bytes) result" where
  "encode_fields out [] = Inr out"
| "encode_fields out ((name, value) # hs) =
     (if \<not> is_token name then Inl (Bad_name name)
      else if \<not> is_field_value value then Inl (Bad_value name)
      else encode_fields (out @ name @ ascii '': '' @ value @ [13, 10]) hs)"

definition target_encode_request :: "bytes \<Rightarrow> bytes \<Rightarrow> bytes \<Rightarrow> header list \<Rightarrow> bytes \<Rightarrow> (target_error, bytes) result" where
  "target_encode_request meth path authority headers body =
     (if \<not> is_token meth then Inl Bad_method
      else if path = [] \<or> list_ex (\<lambda>b. b \<le> 0x20 \<or> b = 0x7f) path then Inl Bad_request_target
      else if \<not> is_field_value authority then Inl Bad_host
      else
        rbind (encode_fields (meth @ [32] @ path @ ascii '' HTTP/1.1'' @ [13, 10] @ ascii ''Host: '' @ authority @ [13, 10]) headers) (\<lambda>out.
        let out = (if list_ex (named (ascii ''te'')) headers \<and> \<not> connection_lists (ascii ''te'') headers
                   then out @ ascii ''Connection: TE'' @ [13, 10] else out);
            out = (if body \<noteq> [] then out @ ascii ''Content-Length: '' @ decimal (length body) @ [13, 10] else out) in
        Inr (out @ [13, 10] @ body)))"

section \<open>The command line\<close>

text \<open>Scheme, authority and path of a URL.\<close>

definition split_url :: "bytes \<Rightarrow> (target_error, bool \<times> bytes \<times> bytes) result" where
  "split_url url =
     rbind (case strip_prefix (ascii ''https://'') url of
              Some rest \<Rightarrow> Inr (True, rest)
            | None \<Rightarrow>
                (case strip_prefix (ascii ''http://'') url of
                   Some rest \<Rightarrow> Inr (False, rest)
                 | None \<Rightarrow> Inl Bad_scheme)) (\<lambda>(tls, rest).
     let rest = (case split_once 35 rest of None \<Rightarrow> rest | Some (before, _) \<Rightarrow> before);
         plain = (\<lambda>b. b \<noteq> 47 \<and> b \<noteq> 63);
         (authority, path) = (if list_all plain rest then (rest, [47]) else (takeWhile plain rest, dropWhile plain rest));
         path = (if take 1 path = [63] then 47 # path else path) in
     if authority = [] then Inl Missing_host else Inr (tls, authority, path))"

text \<open>Host, without brackets, and port of an authority.\<close>

definition split_authority :: "bool \<Rightarrow> bytes \<Rightarrow> (target_error, bytes \<times> nat) result" where
  "split_authority tls authority =
     (let default_port = (if tls then 443 else 80);
          bracketed = (take 1 authority = [91]) in
      rbind (case rsplit_once 58 authority of
               Some (h, p) \<Rightarrow>
                 if 93 \<notin> set h \<or> bracketed then
                   if bracketed \<and> \<not> (h \<noteq> [] \<and> last h = 93) then Inr (authority, default_port)
                   else (case parse_u16 p of None \<Rightarrow> Inl Bad_port | Some port \<Rightarrow> Inr (h, port))
                 else Inr (authority, default_port)
             | None \<Rightarrow> Inr (authority, default_port)) (\<lambda>(host, port).
      Inr (rev (dropWhile (\<lambda>b. b = 93) (rev (dropWhile (\<lambda>b. b = 91) host))), port)))"

text \<open>The \<open>-H\<close> arguments: the headers in order, and the last \<open>Host\<close>.\<close>

fun parse_headers :: "bytes list \<Rightarrow> header list \<Rightarrow> bytes option \<Rightarrow> (target_error, header list \<times> bytes option) result" where
  "parse_headers [] headers host = Inr (headers, host)"
| "parse_headers (arg # args) headers host =
     (case split_once 58 arg of
        None \<Rightarrow> Inl No_colon
      | Some (name, value) \<Rightarrow>
          let name = trim_ows name; value = trim_ows value in
          if name = [] then Inl Empty_name
          else if \<not> is_token name then Inl (Bad_name name)
          else if \<not> is_field_value value then Inl (Bad_value name)
          else if eq_ignore_ascii_case name (ascii ''host'') then parse_headers args headers (Some value)
          else parse_headers args (headers @ [(name, value)]) host)"

text \<open>The defaults: a content type for a body, \<open>Connection: close\<close> without keep-alive.\<close>

definition default_headers :: "bytes option \<Rightarrow> bool \<Rightarrow> header list \<Rightarrow> header list" where
  "default_headers body disable_keepalive headers =
     (let headers = (if body \<noteq> None \<and> \<not> list_ex (named (ascii ''content-type'')) headers
                     then headers @ [(ascii ''Content-Type'', ascii ''application/x-www-form-urlencoded'')] else headers) in
      if disable_keepalive \<and> \<not> list_ex (named (ascii ''connection'')) headers
      then headers @ [(ascii ''Connection'', ascii ''close'')] else headers)"

definition parse_target ::
    "(bytes \<Rightarrow> nat \<Rightarrow> 'a list option) \<Rightarrow> bytes \<Rightarrow> bytes \<Rightarrow> bytes list \<Rightarrow> bytes option \<Rightarrow> bool \<Rightarrow> (target_error, 'a target) result" where
  "parse_target resolve url meth header_args body disable_keepalive =
     (if meth = ascii ''CONNECT'' then Inl No_tunnels
      else if meth = ascii ''TRACE'' \<and> (case body of None \<Rightarrow> False | Some b \<Rightarrow> b \<noteq> []) then Inl Trace_with_body
      else
        rbind (split_url url) (\<lambda>(tls, authority, path).
        rbind (split_authority tls authority) (\<lambda>(host, port).
        rbind (case resolve host port of
                 None \<Rightarrow> Inl Not_resolved
               | Some addrs \<Rightarrow> (case addrs of [] \<Rightarrow> Inl No_address | addr # _ \<Rightarrow> Inr addr)) (\<lambda>addr.
        rbind (parse_headers header_args [] None) (\<lambda>(headers, host_override).
        let headers = default_headers body disable_keepalive headers;
            authority = (case host_override of Some h \<Rightarrow> h | None \<Rightarrow> authority);
            body = (case body of Some b \<Rightarrow> b | None \<Rightarrow> []) in
        rbind (frame_body meth headers body) (\<lambda>headers.
        rbind (target_encode_request meth path authority headers body) (\<lambda>request_bytes.
        Inr \<lparr>tg_addr = addr, tg_tls = tls, tg_host = host, tg_authority = authority, tg_path = path, tg_method = meth,
             tg_headers = headers, tg_body = body, tg_request_bytes = request_bytes,
             tg_disable_keepalive = disable_keepalive\<rparr>)))))))"

section \<open>What a server reads\<close>

text \<open>
  The reference: a server that takes a line up to any newline, drops a carriage return before it, and trims white space
  around a value, which is the reading most easily misled.
\<close>

function read_fields :: "bytes \<Rightarrow> (header list \<times> bytes) option" where
  "read_fields s =
     (case split_line s of
        None \<Rightarrow> None
      | Some (line, rest) \<Rightarrow>
          if trim_cr line = [] then Some ([], rest)
          else case split_once 58 (trim_cr line) of
              None \<Rightarrow> None
            | Some (name, value) \<Rightarrow> map_option (\<lambda>(fs, body). ((name, trim_ows value) # fs, body)) (read_fields rest))"
  by pat_completeness auto
termination by (relation "measure length") (auto dest: split_line_shorter)

declare read_fields.simps [simp del]

definition read_request :: "bytes \<Rightarrow> (bytes \<times> bytes \<times> bytes \<times> header list \<times> bytes) option" where
  "read_request s =
     Option.bind (split_line s) (\<lambda>(line, rest).
     Option.bind (split_once 32 (trim_cr line)) (\<lambda>(meth, line).
     Option.bind (split_once 32 line) (\<lambda>(path, version).
     map_option (\<lambda>(fs, body). (meth, path, version, fs, body)) (read_fields rest))))"

definition field_ok :: "header \<Rightarrow> bool" where
  "field_ok h \<longleftrightarrow> is_token (fst h) \<and> is_field_value (snd h)"

definition field_line :: "header \<Rightarrow> bytes" where
  "field_line h = crlf (fst h @ ascii '': '' @ snd h)"

text \<open>
  What was asked for. An argument spells a header: a token, a colon and a value, with white space around either. Of
  the headers spelled, the last \<open>Host\<close> replaces the authority and a \<open>Content-Length\<close> only says that one is wanted; the
  others stay as they are and in order, followed by the defaults they do not give and the framing of the body.
\<close>

definition spells :: "bytes \<Rightarrow> header \<Rightarrow> bool" where
  "spells arg h \<longleftrightarrow> is_token (fst h) \<and> (snd h = [] \<or> \<not> is_ows (hd (snd h)) \<and> \<not> is_ows (last (snd h))) \<and>
     (\<exists>a b c d. list_all is_ows (a @ b @ c @ d) \<and> arg = a @ fst h @ b @ 58 # c @ snd h @ d)"

definition asked_host :: "bytes \<Rightarrow> header list \<Rightarrow> bytes" where
  "asked_host authority hs = (case filter (named (ascii ''host'')) hs of [] \<Rightarrow> authority | hosts \<Rightarrow> snd (last hosts))"

definition asked_headers :: "bytes \<Rightarrow> bytes option \<Rightarrow> bool \<Rightarrow> header list \<Rightarrow> header list" where
  "asked_headers meth body close hs =
     filter (\<lambda>h. \<not> named (ascii ''host'') h \<and> \<not> named (ascii ''content-length'') h) hs
     @ (if body \<noteq> None \<and> \<not> list_ex (named (ascii ''content-type'')) hs
        then [(ascii ''Content-Type'', ascii ''application/x-www-form-urlencoded'')] else [])
     @ (if close \<and> \<not> list_ex (named (ascii ''connection'')) hs then [(ascii ''Connection'', ascii ''close'')] else [])
     @ (if (body = None \<or> body = Some []) \<and> (list_ex (named (ascii ''content-length'')) hs \<or> defines_content meth)
        then [(ascii ''Content-Length'', ascii ''0'')] else [])"

definition asked_fields :: "bytes \<Rightarrow> bytes \<Rightarrow> bytes option \<Rightarrow> bool \<Rightarrow> header list \<Rightarrow> header list" where
  "asked_fields meth authority body close hs =
     (ascii ''Host'', trim_ows (asked_host authority hs)) # asked_headers meth body close hs
     @ (if list_ex (named (ascii ''te'')) hs \<and> \<not> connection_lists (ascii ''te'') hs then [(ascii ''Connection'', ascii ''TE'')] else [])
     @ (case body of None \<Rightarrow> [] | Some b \<Rightarrow> if b = [] then [] else [(ascii ''Content-Length'', decimal (length b))])"

text \<open>The fields \<open>encode_request\<close> adds behind the headers.\<close>

definition extra_fields :: "header list \<Rightarrow> bytes \<Rightarrow> header list" where
  "extra_fields headers body =
     (if list_ex (named (ascii ''te'')) headers \<and> \<not> connection_lists (ascii ''te'') headers
      then [(ascii ''Connection'', ascii ''TE'')] else [])
     @ (if body \<noteq> [] then [(ascii ''Content-Length'', decimal (length body))] else [])"

lemma split_once_simps:
  "split_once c [] = None"
  "split_once c (x # s) = (if x = c then Some ([], s) else map_option (\<lambda>(a, b). (x # a, b)) (split_once c s))"
  by (simp_all add: split_once_def del: dropWhile_eq_Nil_conv split: list.split)

lemma split_once_Some: "split_once c s = Some (a, b) \<longleftrightarrow> s = a @ c # b \<and> c \<notin> set a"
proof (induction s arbitrary: a)
  case (Cons x s)
  then show ?case by (cases a) (auto simp: split_once_simps)
qed (simp add: split_once_simps)

lemma split_once_at: "c \<notin> set a \<Longrightarrow> split_once c (a @ c # b) = Some (a, b)"
  by (auto simp: split_once_def takeWhile_tail dropWhile_append)

lemma token_bytes: "is_token s \<Longrightarrow> s \<noteq> [] \<and> 10 \<notin> set s \<and> 13 \<notin> set s \<and> 32 \<notin> set s \<and> 58 \<notin> set s"
  by (auto simp: is_token_def list_all_iff is_alphanumeric_def)

lemma value_bytes: "is_field_value s \<Longrightarrow> 10 \<notin> set s \<and> 13 \<notin> set s"
  by (auto simp: is_field_value_def list_all_iff)

lemma encode_fields_eq:
  "encode_fields out hs = Inr out' \<longleftrightarrow> list_all field_ok hs \<and> out' = out @ concat (map field_line hs)"
  by (induction out hs rule: encode_fields.induct) (auto simp: field_ok_def field_line_def crlf_def)

lemma read_fields_lines:
  "list_all field_ok fs \<Longrightarrow>
     read_fields (concat (map field_line fs) @ crlf [] @ body) = Some (map (\<lambda>h. (fst h, trim_ows (snd h))) fs, body)"
proof (induction fs)
  case Nil
  show ?case using split_crlf [of "[]" body] by (subst read_fields.simps) (simp add: trim_cr_def)
next
  case (Cons h fs)
  define line where "line = fst h @ ascii '': '' @ snd h"
  have h: "is_token (fst h)" "is_field_value (snd h)" using Cons.prems by (simp_all add: field_ok_def)
  then have "10 \<notin> set line" "line \<noteq> []" using token_bytes value_bytes by (auto simp: line_def ascii_def)
  moreover have "split_once 58 line = Some (fst h, 32 # snd h)"
    using split_once_at [of 58 "fst h" "32 # snd h"] token_bytes [OF h(1)] by (simp add: line_def ascii_def)
  moreover have "field_line h = crlf line" by (simp add: field_line_def line_def)
  ultimately show ?case using Cons by (subst read_fields.simps) (simp add: split_crlf trim_ows_space)
qed

lemma encode_request_lines:
  assumes "target_encode_request meth path authority headers body = Inr out"
  shows "out = crlf (meth @ 32 # path @ 32 # ascii ''HTTP/1.1'')
      @ concat (map field_line ((ascii ''Host'', authority) # headers @ extra_fields headers body)) @ crlf [] @ body"
    and "is_token meth" "path \<noteq> []" "list_all (\<lambda>b. b > 0x20) path" "is_field_value authority" "list_all field_ok headers"
proof -
  have ok: "is_token meth" "path \<noteq> []" "\<not> list_ex (\<lambda>b. b \<le> 0x20 \<or> b = 0x7f) path" "is_field_value authority"
    using assms by (auto simp: target_encode_request_def split: if_splits)
  then show "is_token meth" "path \<noteq> []" "is_field_value authority" by simp_all
  show "list_all (\<lambda>b. b > 0x20) path" using ok(3) by (auto simp: list_all_iff list_ex_iff)
  show "list_all field_ok headers" using assms ok by (auto simp: target_encode_request_def encode_fields_eq)
  show "out = crlf (meth @ 32 # path @ 32 # ascii ''HTTP/1.1'')
      @ concat (map field_line ((ascii ''Host'', authority) # headers @ extra_fields headers body)) @ crlf [] @ body"
    using assms ok by (auto simp: target_encode_request_def encode_fields_eq extra_fields_def field_line_def crlf_def ascii_def Let_def)
qed

lemma extra_fields_ok: "list_all field_ok (extra_fields headers body)"
proof -
  have "is_field_value (decimal n)" for n
    using decimal_digits(1) [of n] by (auto simp: is_field_value_def list_all_iff is_ascii_digit_def word_le_nat_alt)
  then show ?thesis by (simp add: extra_fields_def field_ok_def is_token_def is_alphanumeric_def is_field_value_def ascii_def)
qed

lemma read_request_encoded:
  assumes "target_encode_request meth path authority headers body = Inr out"
  shows "read_request out = Some (meth, path, ascii ''HTTP/1.1'',
    map (\<lambda>h. (fst h, trim_ows (snd h))) ((ascii ''Host'', authority) # headers @ extra_fields headers body), body)"
proof -
  note lines = encode_request_lines [OF assms]
  define fs where "fs = (ascii ''Host'', authority) # headers @ extra_fields headers body"
  define line where "line = meth @ 32 # path @ 32 # ascii ''HTTP/1.1''"
  have fs: "list_all field_ok fs"
    using lines(5,6) extra_fields_ok by (simp add: fs_def field_ok_def is_token_def is_alphanumeric_def ascii_def)
  have path: "10 \<notin> set path" "32 \<notin> set path" using lines(4) by (auto simp: list_all_iff)
  have line: "10 \<notin> set line" "split_once 32 line = Some (meth, path @ 32 # ascii ''HTTP/1.1'')"
    "split_once 32 (path @ 32 # ascii ''HTTP/1.1'') = Some (path, ascii ''HTTP/1.1'')"
    using token_bytes [OF lines(2)] path by (simp_all add: line_def split_once_at ascii_def)
  have out: "out = crlf line @ concat (map field_line fs) @ crlf [] @ body" using lines(1) by (simp add: line_def fs_def)
  show ?thesis
    unfolding out read_request_def split_crlf [OF line(1)] bind.simps prod.case trim_cr_crlf line(2,3) read_fields_lines [OF fs]
    by (simp add: fs_def)
qed

text \<open>What the command line gives: no \<open>Host\<close> among the headers, trimmed values, one framing.\<close>

definition header_ok :: "header \<Rightarrow> bool" where
  "header_ok h \<longleftrightarrow> field_ok h \<and> trim_ows (snd h) = snd h \<and> \<not> named (ascii ''host'') h"

lemma dropWhile_idle: "(s = [] \<or> \<not> P (hd s)) \<Longrightarrow> dropWhile P s = s"
  by (cases s) auto

lemma trim_ows_idem: "trim_ows (trim_ows s) = trim_ows s"
proof -
  let ?d = "dropWhile is_ows" and ?r = "rev :: bytes \<Rightarrow> bytes"
  have "?d (?r (?d (?r (?d s)))) = ?r (?d (?r (?d s)))"
  proof (cases "?d (?r (?d s)) = []")
    case False
    then have "?d s \<noteq> []" by (auto dest: set_dropWhileD)
    then have "\<not> is_ows (last (?r (?d s)))" by (simp add: last_rev hd_dropWhile)
    moreover have "last (?d (?r (?d s))) = last (?r (?d s))" using False by (metis last_append takeWhile_dropWhile_id)
    ultimately show ?thesis using False by (intro dropWhile_idle) (simp add: hd_rev)
  next
    case True
    then have "?r (?d (?r (?d s))) = []" by (simp only: rev.simps)
    then show ?thesis by (simp only: dropWhile.simps)
  qed
  moreover have "?d (?d xs) = ?d xs" for xs by (simp add: dropWhile_idle hd_dropWhile)
  ultimately show ?thesis by (simp add: trim_ows_def)
qed

lemma parse_headers_ok:
  "list_all header_ok hs \<Longrightarrow> parse_headers args hs host = Inr (hs', host') \<Longrightarrow> list_all header_ok hs'"
  by (induction args hs host rule: parse_headers.induct)
    (auto simp: Let_def header_ok_def field_ok_def named_def trim_ows_idem split: option.splits if_splits)

lemma default_headers_ok: "list_all header_ok hs \<Longrightarrow> list_all header_ok (default_headers body keep hs)"
  by (simp add: default_headers_def Let_def header_ok_def field_ok_def named_def is_token_def is_alphanumeric_def
      is_field_value_def eq_ignore_ascii_case_def to_ascii_lowercase_def trim_ows_def is_ows_def ascii_def)

text \<open>\<open>lengths\<close> are the values of the \<open>Content-Length\<close> fields.\<close>

definition lengths :: "header list \<Rightarrow> bytes list" where
  "lengths hs = map snd (filter (named (ascii ''content-length'')) hs)"

lemma check_framing_headers:
  "check_framing body given hs = Inr given' \<Longrightarrow> \<not> list_ex (named (ascii ''transfer-encoding'')) hs \<and>
     given' = (given \<or> list_ex (named (ascii ''content-length'')) hs)"
  by (induction body given hs rule: check_framing.induct) (auto simp: named_def Let_def split: if_splits sum.splits)

lemma frame_body_headers:
  assumes "frame_body meth headers body = Inr hs" "list_all header_ok headers"
  shows "list_all header_ok hs \<and> \<not> list_ex (named (ascii ''transfer-encoding'')) hs \<and>
    (if body = [] then lengths hs = [ascii ''0''] \<or> lengths hs = [] \<and> \<not> defines_content meth else lengths hs = [])"
proof -
  define kept where "kept = filter (\<lambda>h. \<not> named (ascii ''content-length'') h) headers"
  obtain given where g: "check_framing body False headers = Inr given"
    and hs: "hs = (if body = [] \<and> (given \<or> defines_content meth) then kept @ [(ascii ''Content-Length'', ascii ''0'')] else kept)"
    using assms(1) by (auto simp: frame_body_def Let_def kept_def)
  have kept: "list_all header_ok kept" "\<not> list_ex (named (ascii ''transfer-encoding'')) kept" "lengths kept = []"
    using assms(2) check_framing_headers [OF g] by (auto simp: kept_def list_all_iff list_ex_iff lengths_def filter_empty_conv)
  have zero: "header_ok (ascii ''Content-Length'', ascii ''0'')" "named (ascii ''content-length'') (ascii ''Content-Length'', ascii ''0'')"
    "\<not> named (ascii ''transfer-encoding'') (ascii ''Content-Length'', ascii ''0'')"
    by (simp_all add: header_ok_def field_ok_def named_def is_token_def is_alphanumeric_def is_field_value_def
        eq_ignore_ascii_case_def to_ascii_lowercase_def trim_ows_def is_ows_def ascii_def)
  show ?thesis using kept zero by (auto simp: hs lengths_def)
qed

lemma trim_ows_split: "\<exists>a b. s = a @ trim_ows s @ b \<and> list_all is_ows a \<and> list_all is_ows b"
proof -
  let ?d = "dropWhile is_ows" and ?t = "takeWhile is_ows"
  have "s = ?t s @ ?d s" by simp
  moreover have "?d s = rev (?d (rev (?d s))) @ rev (?t (rev (?d s)))"
    by (metis rev_append rev_rev_ident takeWhile_dropWhile_id)
  ultimately have "s = ?t s @ trim_ows s @ rev (?t (rev (?d s)))" unfolding trim_ows_def by simp
  moreover have "list_all is_ows (?t s)" "list_all is_ows (rev (?t (rev (?d s))))" by (auto simp: list_all_iff dest: set_takeWhileD)
  ultimately show ?thesis by blast
qed

lemma trim_ows_ends: "trim_ows s = [] \<or> \<not> is_ows (hd (trim_ows s)) \<and> \<not> is_ows (last (trim_ows s))"
proof (cases "trim_ows s = []")
  case False
  then obtain b t where t: "trim_ows s = b # t" by (cases "trim_ows s") auto
  have "length (trim_ows (b # t)) \<le> length (dropWhile is_ows (b # t))"
    using length_dropWhile_le [of is_ows "rev (dropWhile is_ows (b # t))"] by (simp add: trim_ows_def)
  then have "\<not> is_ows b" using trim_ows_idem [of s] length_dropWhile_le [of is_ows t] by (auto simp: t)
  moreover have "\<not> is_ows (last (trim_ows s))"
    using False hd_dropWhile [of is_ows "rev (dropWhile is_ows s)"] by (simp add: trim_ows_def last_rev)
  ultimately show ?thesis by (simp add: t)
qed simp

lemma parse_headers_spell:
  assumes "parse_headers args acc host = Inr (out, host')"
  shows "\<exists>hs. list_all2 spells args hs \<and> out = acc @ filter (\<lambda>h. \<not> named (ascii ''host'') h) hs
     \<and> host' = (case filter (named (ascii ''host'')) hs of [] \<Rightarrow> host | hosts \<Rightarrow> Some (snd (last hosts)))"
  using assms
proof (induction args arbitrary: acc host)
  case (Cons arg args)
  obtain n v where nv: "split_once 58 arg = Some (n, v)" using Cons.prems by (auto split: option.splits)
  let ?h = "(trim_ows n, trim_ows v)"
  have ok: "is_token (trim_ows n)" using Cons.prems nv by (auto simp: Let_def split: if_splits)
  obtain a b c d where "n = a @ trim_ows n @ b" "v = c @ trim_ows v @ d" "list_all is_ows (a @ b @ c @ d)"
    using trim_ows_split [of n] trim_ows_split [of v] by auto
  moreover have "arg = n @ 58 # v" using nv by (simp add: split_once_Some)
  ultimately have "\<exists>a b c d. list_all is_ows (a @ b @ c @ d) \<and> arg = a @ trim_ows n @ b @ 58 # c @ trim_ows v @ d"
    by (metis append.assoc append_Cons)
  then have "spells arg ?h" using ok trim_ows_ends [of v] by (simp add: spells_def)
  then have more: "list_all2 spells (arg # args) (?h # hs)" if "list_all2 spells args hs" for hs using that by simp
  show ?case
  proof (cases "named (ascii ''host'') ?h")
    case True
    then have "parse_headers args acc (Some (trim_ows v)) = Inr (out, host')"
      using Cons.prems nv by (auto simp: Let_def named_def split: if_splits)
    from Cons.IH [OF this] more True show ?thesis
      by (fastforce split: list.splits)
  next
    case False
    then have "parse_headers args (acc @ [?h]) host = Inr (out, host')"
      using Cons.prems nv by (auto simp: Let_def named_def split: if_splits)
    from Cons.IH [OF this] more False show ?thesis by fastforce
  qed
qed simp

lemma trimmed_fields: "list_all header_ok hs \<Longrightarrow> map (\<lambda>h. (fst h, trim_ows (snd h))) hs = hs"
  by (auto simp: list_all_iff header_ok_def intro!: map_idI)

lemma extra_headers_ok: "list_all header_ok (extra_fields headers body)"
  using extra_fields_ok [of headers body] trim_ows_id [of "ascii ''TE''"]
  by (auto simp: extra_fields_def header_ok_def named_def trim_decimal eq_ignore_ascii_case_def to_ascii_lowercase_def
      is_ows_def ascii_def)

text \<open>The headers of the target are those that were asked for.\<close>

lemma default_names:
  "\<not> named (ascii ''content-length'') (ascii ''Content-Type'', v)" "\<not> named (ascii ''content-length'') (ascii ''Connection'', v)"
  "\<not> named (ascii ''connection'') (ascii ''Content-Type'', v)" "\<not> named (ascii ''te'') (ascii ''Content-Type'', v)"
  "\<not> named (ascii ''te'') (ascii ''Connection'', v)" "\<not> named (ascii ''te'') (ascii ''Content-Length'', v)"
  "\<not> named (ascii ''connection'') (ascii ''Content-Length'', v)"
  by (simp_all add: named_def eq_ignore_ascii_case_def to_ascii_lowercase_def ascii_def)

lemma named_apart:
  "named (ascii ''content-type'') h \<Longrightarrow> \<not> named (ascii ''host'') h" "named (ascii ''connection'') h \<Longrightarrow> \<not> named (ascii ''host'') h"
  "named (ascii ''content-length'') h \<Longrightarrow> \<not> named (ascii ''host'') h" "named (ascii ''te'') h \<Longrightarrow> \<not> named (ascii ''host'') h"
  "named (ascii ''te'') h \<Longrightarrow> \<not> named (ascii ''content-length'') h" "named (ascii ''connection'') h \<Longrightarrow> \<not> named (ascii ''content-length'') h"
  by (auto simp: named_def eq_ignore_ascii_case_def to_ascii_lowercase_def ascii_def)

lemma list_ex_filter: "(\<And>x. P x \<Longrightarrow> Q x) \<Longrightarrow> list_ex P (filter Q xs) = list_ex P xs"
  by (auto simp: list_ex_iff)

lemma headers_asked:
  assumes "frame_body meth (default_headers body close (filter (\<lambda>h. \<not> named (ascii ''host'') h) hs)) (case body of None \<Rightarrow> [] | Some b \<Rightarrow> b) = Inr out"
  shows "out = asked_headers meth body close hs"
proof -
  let ?b = "case body of None \<Rightarrow> [] | Some b \<Rightarrow> b" and ?cl = "named (ascii ''content-length'')"
  let ?hs = "default_headers body close (filter (\<lambda>h. \<not> named (ascii ''host'') h) hs)"
  obtain given where given: "check_framing ?b False ?hs = Inr given"
    and out: "out = (let headers = filter (\<lambda>h. \<not> ?cl h) ?hs in
      if ?b = [] \<and> (given \<or> defines_content meth) then headers @ [(ascii ''Content-Length'', ascii ''0'')] else headers)"
    using assms by (auto simp: frame_body_def Let_def)
  have "given = list_ex ?cl hs"
    using check_framing_headers [OF given] by (simp add: default_headers_def Let_def default_names list_ex_filter named_apart)
  moreover have "?b = [] \<longleftrightarrow> body = None \<or> body = Some []" by (simp split: option.split)
  moreover have "filter (\<lambda>h. \<not> ?cl h) ?hs = filter (\<lambda>h. \<not> named (ascii ''host'') h \<and> \<not> ?cl h) hs
     @ (if body \<noteq> None \<and> \<not> list_ex (named (ascii ''content-type'')) hs
        then [(ascii ''Content-Type'', ascii ''application/x-www-form-urlencoded'')] else [])
     @ (if close \<and> \<not> list_ex (named (ascii ''connection'')) hs then [(ascii ''Connection'', ascii ''close'')] else [])"
    by (simp add: default_headers_def Let_def default_names list_ex_filter named_apart conj_commute)
  ultimately show ?thesis unfolding out asked_headers_def Let_def by auto
qed

lemma fields_asked:
  fixes body :: "bytes option"
  defines "b \<equiv> (case body of None \<Rightarrow> [] | Some b \<Rightarrow> b)"
  shows "(ascii ''Host'', trim_ows (asked_host authority hs)) # asked_headers meth body close hs
     @ extra_fields (asked_headers meth body close hs) b = asked_fields meth authority body close hs"
proof -
  have close: "\<not> list_ex (\<lambda>o'. eq_ignore_ascii_case (trim_ows o') (ascii ''te'')) (split_commas (ascii ''close''))" by code_simp
  have kept: "list_ex (\<lambda>h. named (ascii ''connection'') h \<and> P h) (filter (\<lambda>h. \<not> named (ascii ''host'') h \<and> \<not> named (ascii ''content-length'') h) hs)
      = list_ex (\<lambda>h. named (ascii ''connection'') h \<and> P h) hs" for P
    by (rule list_ex_filter) (auto dest: named_apart)
  have "list_ex (named (ascii ''te'')) (asked_headers meth body close hs) = list_ex (named (ascii ''te'')) hs"
    by (simp add: asked_headers_def default_names list_ex_filter named_apart)
  moreover have "connection_lists (ascii ''te'') (asked_headers meth body close hs) = connection_lists (ascii ''te'') hs"
    using close kept by (simp add: asked_headers_def connection_lists_def default_names)
  ultimately show ?thesis by (simp add: asked_fields_def extra_fields_def b_def split: option.split)
qed

lemma parse_target_parts:
  assumes "parse_target resolve url meth args body close = Inr t"
  obtains hs authority where "list_all2 spells args hs" "split_url url = Inr (tg_tls t, authority, tg_path t)"
    "tg_body t = (case body of None \<Rightarrow> [] | Some b \<Rightarrow> b)" "tg_authority t = asked_host authority hs"
    "tg_headers t = asked_headers meth body close hs" "list_all header_ok (tg_headers t)"
    "\<not> list_ex (named (ascii ''transfer-encoding'')) (tg_headers t)"
    "if tg_body t = [] then lengths (tg_headers t) = [ascii ''0''] \<or> lengths (tg_headers t) = [] \<and> \<not> defines_content meth
     else lengths (tg_headers t) = []"
    "target_encode_request meth (tg_path t) (tg_authority t) (tg_headers t) (tg_body t) = Inr (tg_request_bytes t)"
proof -
  obtain kept host authority where kept: "parse_headers args [] None = Inr (kept, host)"
    and url: "split_url url = Inr (tg_tls t, authority, tg_path t)"
    and b: "tg_body t = (case body of None \<Rightarrow> [] | Some b \<Rightarrow> b)" "tg_authority t = (case host of Some h \<Rightarrow> h | None \<Rightarrow> authority)"
    and framed: "frame_body meth (default_headers body close kept) (tg_body t) = Inr (tg_headers t)"
    and request: "target_encode_request meth (tg_path t) (tg_authority t) (tg_headers t) (tg_body t) = Inr (tg_request_bytes t)"
    using assms by (auto simp: parse_target_def Let_def split: if_splits)
  obtain hs where hs: "list_all2 spells args hs" "kept = filter (\<lambda>h. \<not> named (ascii ''host'') h) hs"
    "host = (case filter (named (ascii ''host'')) hs of [] \<Rightarrow> None | hosts \<Rightarrow> Some (snd (last hosts)))"
    using parse_headers_spell [OF kept] by auto
  have "list_all header_ok (default_headers body close kept)" using default_headers_ok parse_headers_ok [OF _ kept] by simp
  note framing = frame_body_headers [OF framed this]
  have "tg_authority t = asked_host authority hs"
    using b(2) hs(3) by (auto simp: asked_host_def split: list.splits)
  moreover have "tg_headers t = asked_headers meth body close hs" using headers_asked framed unfolding b(1) hs(2) .
  ultimately show ?thesis using that hs(1) url b(1) framing request by blast
qed

text \<open>
  C16. The request on the wire says what was asked for and nothing else, whatever the URL, the method and the \<open>-H\<close>
  arguments hold. A server reads back the method, the path of the URL, the body, and as the fields exactly those asked
  for: one \<open>Host\<close>, the last \<open>-H\<close> gives or the authority of the URL, then every other header the \<open>-H\<close> arguments spell, in
  order and with its name and value as spelled, then the defaults they do not give. No value smuggles in a line of its
  own. There is no transfer coding, a body comes with exactly one \<open>Content-Length\<close>, which is its length, and a request
  without one says 0 or nothing, always 0 where the method gives content a meaning.
\<close>

theorem request_reads_back:
  assumes "parse_target resolve url meth args body close = Inr t"
  shows "\<exists>hs authority. list_all2 spells args hs \<and> split_url url = Inr (tg_tls t, authority, tg_path t) \<and>
    tg_body t = (case body of None \<Rightarrow> [] | Some b \<Rightarrow> b) \<and>
    (let fields = asked_fields meth authority body close hs in
     read_request (tg_request_bytes t) = Some (meth, tg_path t, ascii ''HTTP/1.1'', fields, tg_body t) \<and>
     filter (named (ascii ''host'')) fields = [(ascii ''Host'', trim_ows (tg_authority t))] \<and>
     \<not> list_ex (named (ascii ''transfer-encoding'')) fields \<and>
     (if tg_body t = [] then lengths fields = [ascii ''0''] \<or> lengths fields = [] \<and> \<not> defines_content meth
      else lengths fields = [decimal (length (tg_body t))]))"
proof -
  obtain hs authority where hs: "list_all2 spells args hs" and url: "split_url url = Inr (tg_tls t, authority, tg_path t)"
    and b: "tg_body t = (case body of None \<Rightarrow> [] | Some b \<Rightarrow> b)" "tg_authority t = asked_host authority hs"
    "tg_headers t = asked_headers meth body close hs" and ok: "list_all header_ok (tg_headers t)"
    and framing: "\<not> list_ex (named (ascii ''transfer-encoding'')) (tg_headers t)"
    "if tg_body t = [] then lengths (tg_headers t) = [ascii ''0''] \<or> lengths (tg_headers t) = [] \<and> \<not> defines_content meth
     else lengths (tg_headers t) = []"
    and request: "target_encode_request meth (tg_path t) (tg_authority t) (tg_headers t) (tg_body t) = Inr (tg_request_bytes t)"
    using parse_target_parts [OF assms] by metis
  define fields where "fields = (ascii ''Host'', trim_ows (tg_authority t)) # tg_headers t @ extra_fields (tg_headers t) (tg_body t)"
  have "asked_fields meth authority body close hs = fields" unfolding fields_def b by (rule fields_asked [symmetric])
  moreover have "read_request (tg_request_bytes t) = Some (meth, tg_path t, ascii ''HTTP/1.1'', fields, tg_body t)"
    using read_request_encoded [OF request] ok extra_headers_ok by (simp add: trimmed_fields fields_def)
  moreover have "filter (named (ascii ''host'')) fields = [(ascii ''Host'', trim_ows (tg_authority t))]"
    using ok extra_headers_ok [of "tg_headers t" "tg_body t"]
    by (auto simp: fields_def list_all_iff header_ok_def filter_empty_conv named_def eq_ignore_ascii_case_def to_ascii_lowercase_def ascii_def)
  moreover have "\<not> list_ex (named (ascii ''transfer-encoding'')) fields"
    using framing by (auto simp: fields_def extra_fields_def named_def eq_ignore_ascii_case_def to_ascii_lowercase_def ascii_def)
  moreover have "lengths fields = lengths (tg_headers t) @ (if tg_body t \<noteq> [] then [decimal (length (tg_body t))] else [])"
    by (simp add: fields_def lengths_def extra_fields_def named_def eq_ignore_ascii_case_def to_ascii_lowercase_def ascii_def)
  ultimately show ?thesis using framing(2) hs url b(1)
    by (intro exI [of _ hs] exI [of _ authority]) (auto simp: Let_def)
qed

theorem request_reads_back_witness:
  "\<exists>t fields hs. parse_target (\<lambda>host port. Some [(host, port)]) (ascii ''http://[::1]:8080?q=1#top'') (ascii ''POST'')
       [ascii ''TE: trailers'', ascii ''host: a''] (Some (ascii ''hi'')) False = Inr t \<and>
     list_all2 spells [ascii ''TE: trailers'', ascii ''host: a''] hs \<and>
     read_request (tg_request_bytes t) = Some (ascii ''POST'', ascii ''/?q=1'', ascii ''HTTP/1.1'', fields, ascii ''hi'') \<and>
     lengths fields = [ascii ''2''] \<and> tg_addr t = (ascii ''::1'', 8080)"
proof -
  let ?r = "parse_target (\<lambda>host port. Some [(host, port)]) (ascii ''http://[::1]:8080?q=1#top'') (ascii ''POST'')
       [ascii ''TE: trailers'', ascii ''host: a''] (Some (ascii ''hi'')) False"
  have "case ?r of Inl _ \<Rightarrow> False | Inr t \<Rightarrow> tg_path t = ascii ''/?q=1'' \<and> tg_body t = ascii ''hi'' \<and> tg_addr t = (ascii ''::1'', 8080)"
    by (simp add: parse_target_def split_url_def split_authority_def strip_prefix_def split_once_def rsplit_once_def parse_u16_def
        parse_u64_def checked_mul_def checked_add_def is_ascii_digit_def trim_ows_def is_ows_def is_token_def is_alphanumeric_def
        is_field_value_def eq_ignore_ascii_case_def to_ascii_lowercase_def default_headers_def named_def frame_body_def
        target_encode_request_def connection_lists_def ascii_def Let_def)
  then obtain t where t: "?r = Inr t" "tg_path t = ascii ''/?q=1''" "tg_body t = ascii ''hi''" "tg_addr t = (ascii ''::1'', 8080)"
    by (auto split: sum.splits)
  obtain fields hs where "list_all2 spells [ascii ''TE: trailers'', ascii ''host: a''] hs"
    "read_request (tg_request_bytes t) = Some (ascii ''POST'', tg_path t, ascii ''HTTP/1.1'', fields, tg_body t)"
    "if tg_body t = [] then lengths fields = [ascii ''0''] \<or> lengths fields = [] \<and> \<not> defines_content (ascii ''POST'')
     else lengths fields = [decimal (length (tg_body t))]" using request_reads_back [OF t(1)] unfolding Let_def by metis
  moreover have "decimal (length (ascii ''hi'')) = ascii ''2''" "ascii ''hi'' \<noteq> []" by (simp_all add: decimal.simps ascii_def)
  ultimately show ?thesis using t by (intro exI [of _ t] exI [of _ fields] exI [of _ hs]) simp
qed

section \<open>The URL is taken apart where it was put together\<close>

definition url_authority :: "bool \<Rightarrow> bytes \<Rightarrow> nat option \<Rightarrow> bytes" where
  "url_authority literal host port =
     (if literal then [91] @ host @ [93] else host) @ (case port of None \<Rightarrow> [] | Some p \<Rightarrow> 58 # decimal p)"

lemma split_once_none: "c \<notin> set s \<Longrightarrow> split_once c s = None"
  by (induction s) (auto simp: split_once_simps)

lemma rsplit_once_Some: "rsplit_once c s = Some (a, b) \<longleftrightarrow> s = a @ c # b \<and> c \<notin> set b"
proof -
  have "rsplit_once c s = Some (a, b) \<longleftrightarrow> split_once c (rev s) = Some (rev b, rev a)" by (auto simp: rsplit_once_def)
  also have "\<dots> \<longleftrightarrow> rev s = rev (a @ c # b) \<and> c \<notin> set b" by (simp add: split_once_Some)
  finally show ?thesis by (simp only: rev_is_rev_conv)
qed

lemma parse_u16_decimal:
  assumes "p < 2 ^ 16"
  shows "parse_u16 (decimal p) = Some p"
proof -
  have "take 1 (decimal p) \<noteq> [43]" using decimal_digits [of p] by (cases "decimal p") (auto simp: is_ascii_digit_def)
  then show ?thesis using assms parse_decimal [of p] decimal_digits(2) [of p] by (simp add: parse_u16_def parse_u64_def)
qed

lemma split_authority_url:
  assumes "91 \<notin> set host" "93 \<notin> set host" "\<not> literal \<Longrightarrow> 58 \<notin> set host" "\<And>p. port = Some p \<Longrightarrow> p < 2 ^ 16" "host \<noteq> []"
  shows "split_authority tls (url_authority literal host port) = Inr (host, case port of Some p \<Rightarrow> p | None \<Rightarrow> if tls then 443 else 80)"
proof -
  define h where "h = (if literal then 91 # host @ [93] else host)"
  have u: "url_authority literal host port = h @ (case port of None \<Rightarrow> [] | Some p \<Rightarrow> 58 # decimal p)"
    by (simp add: url_authority_def h_def)
  have front: "take 1 (h @ xs) = [91] \<longleftrightarrow> literal" for xs using assms(1,5) by (cases host) (auto simp: h_def)
  have "dropWhile (\<lambda>b. b = 93) (rev host) = rev host" "dropWhile (\<lambda>b. b = 91) host = host"
    "dropWhile (\<lambda>b. b = 91) (host @ [93]) = host @ [93]"
    using assms(1,2,5) by (auto intro!: dropWhile_idle simp: hd_rev hd_append) (metis hd_in_set last_in_set)+
  then have strip: "rev (dropWhile (\<lambda>b. b = 93) (rev (dropWhile (\<lambda>b. b = 91) h))) = host" by (simp add: h_def)
  show ?thesis
  proof (cases port)
    case (Some p)
    have "58 \<notin> set (decimal p)" using decimal_digits(1) [of p] by (auto simp: is_ascii_digit_def)
    then have "rsplit_once 58 (h @ 58 # decimal p) = Some (h, decimal p)" by (simp add: rsplit_once_Some)
    moreover have "93 \<notin> set h \<or> literal" "literal \<Longrightarrow> h \<noteq> [] \<and> last h = 93" using assms(2) by (auto simp: h_def)
    moreover have "url_authority literal host port = h @ 58 # decimal p" unfolding u by (simp add: Some)
    ultimately show ?thesis using strip front [of "58 # decimal p"] parse_u16_decimal [of p] assms(4) [OF Some] Some
      unfolding split_authority_def Let_def by (simp only: option.case prod.case if_True rbind_simps simp_thms if_False if_cancel) auto
  next
    case None
    then have u: "url_authority literal host port = h" unfolding u by simp
    have "split_authority tls h = Inr (host, if tls then 443 else 80)"
    proof (cases "rsplit_once 58 h")
      case (Some x)
      obtain a b where x: "x = (a, b)" by (cases x)
      have h: "h = a @ 58 # b" "58 \<notin> set b" using Some x by (simp_all add: rsplit_once_Some)
      then have literal: literal using assms(3) by (auto simp: h_def split: if_splits)
      then have "butlast h = 91 # host" by (simp add: h_def)
      moreover have "butlast h = a @ butlast (58 # b)" unfolding h(1) by (simp add: butlast_append)
      ultimately have "set a \<subseteq> insert 91 (set host)" by (metis Un_upper1 list.simps(15) set_append)
      then have "\<not> (a \<noteq> [] \<and> last a = 93)" using assms(2) last_in_set [of a] by (force dest: subsetD)
      then show ?thesis using strip front [of "[]"] Some x literal by (simp add: split_authority_def Let_def)
    qed (use strip in \<open>simp add: split_authority_def Let_def\<close>)
    then show ?thesis unfolding u by (simp add: None)
  qed
qed

text \<open>
  C29. A URL is taken apart where it was put together: scheme, host, port and path come back, an IPv6 literal without its
  brackets and with its colons, the default port where none is given, the path with its query, \<open>/\<close> where it is empty, and
  never the fragment. The authority that goes into the request keeps brackets and port.
\<close>

theorem url_round_trip:
  fixes tls literal :: bool
  assumes "host \<noteq> []" "set host \<inter> {35, 47, 63, 91, 93} = {}" "\<not> literal \<Longrightarrow> 58 \<notin> set host"
    and "\<And>p. port = Some p \<Longrightarrow> p < 2 ^ 16"
    and "35 \<notin> set path" "path = [] \<or> hd path = 47 \<or> hd path = 63" "fragment = [] \<or> hd fragment = 35"
  defines "authority \<equiv> url_authority literal host port"
    and "scheme \<equiv> if tls then ascii ''https://'' else ascii ''http://''"
  shows "split_url (scheme @ authority @ path @ fragment)
      = Inr (tls, authority, if path = [] then [47] else if hd path = 63 then 47 # path else path)
    \<and> split_authority tls authority = Inr (host, case port of Some p \<Rightarrow> p | None \<Rightarrow> if tls then 443 else 80)"
proof
  let ?plain = "\<lambda>b. b \<noteq> 47 \<and> b \<noteq> 63"
  have "\<forall>b \<in> set (decimal p). b \<noteq> 35 \<and> ?plain b" for p using decimal_digits(1) [of p] by (auto simp: is_ascii_digit_def)
  then have auth: "35 \<notin> set authority" "\<forall>b \<in> set authority. ?plain b" "authority \<noteq> []"
    using assms(1,2) by (auto simp: authority_def url_authority_def split: option.splits if_splits)
  have stripped: "(case strip_prefix (ascii ''https://'') (scheme @ x) of
              Some rest \<Rightarrow> Inr (True, rest)
            | None \<Rightarrow> (case strip_prefix (ascii ''http://'') (scheme @ x) of
                   Some rest \<Rightarrow> Inr (False, rest) | None \<Rightarrow> Inl Bad_scheme)) = Inr (tls, x)" for x
    by (cases tls) (simp_all add: scheme_def strip_prefix_def ascii_def)
  have cut: "(case split_once 35 (authority @ path @ fragment) of None \<Rightarrow> authority @ path @ fragment | Some (before, _) \<Rightarrow> before)
      = authority @ path"
  proof (cases fragment)
    case Nil
    then have "split_once 35 (authority @ path @ fragment) = None"
      using auth assms(5) by (simp add: split_once_none)
    then show ?thesis using Nil by simp
  next
    case (Cons x xs)
    then have "split_once 35 (authority @ path @ fragment) = Some (authority @ path, xs)"
      using auth assms(5,7) by (simp add: split_once_Some)
    then show ?thesis by simp
  qed
  have parts: "list_all ?plain (authority @ path) \<longleftrightarrow> path = []" "takeWhile ?plain (authority @ path) = authority"
    "dropWhile ?plain (authority @ path) = path"
  proof -
    show "list_all ?plain (authority @ path) \<longleftrightarrow> path = []" using auth(2) assms(6) by (cases path) (auto simp: list_all_iff)
    have "takeWhile ?plain path = []" "dropWhile ?plain path = path" using assms(6) by (cases path; auto)+
    then show "takeWhile ?plain (authority @ path) = authority" "dropWhile ?plain (authority @ path) = path"
      using auth(2) by (simp_all add: takeWhile_append2 dropWhile_append2)
  qed
  show "split_url (scheme @ authority @ path @ fragment)
      = Inr (tls, authority, if path = [] then [47] else if hd path = 63 then 47 # path else path)"
    unfolding split_url_def stripped rbind_simps prod.case cut Let_def using parts auth(3) by (cases path) auto
  show "split_authority tls authority = Inr (host, case port of Some p \<Rightarrow> p | None \<Rightarrow> if tls then 443 else 80)"
    unfolding authority_def by (rule split_authority_url) (use assms(1-4) in auto)
qed

theorem url_round_trip_witness:
  "split_url (ascii ''https://[::1]:8443?q#f'') = Inr (True, ascii ''[::1]:8443'', ascii ''/?q'') \<and>
   split_authority True (ascii ''[::1]:8443'') = Inr (ascii ''::1'', 8443)"
proof -
  have "decimal 8443 = ascii ''8443''" by (simp add: decimal.simps ascii_def)
  then show ?thesis using url_round_trip [of "ascii ''::1''" True "Some 8443" "ascii ''?q''" "ascii ''#f''" True]
    by (simp add: url_authority_def ascii_def)
qed

section \<open>Fields for the multiplexed protocols\<close>

lemma lower_lower [simp]: "to_ascii_lowercase (to_ascii_lowercase b) = to_ascii_lowercase b"
proof -
  have "65 \<le> b \<Longrightarrow> b \<le> 90 \<Longrightarrow> \<not> (b OR 0x20 \<le> 90)"
  proof -
    assume "65 \<le> b" "b \<le> 90"
    then have "unat b \<in> set [65..<91]" unfolding set_upt atLeastLessThan_iff by (simp add: word_le_nat_alt)
    moreover have "b = word_of_nat (unat b)" by simp
    ultimately have "b \<in> set (map word_of_nat [65..<91])" by (metis imageI list.set_map)
    then show ?thesis by (auto simp: upt_rec)
  qed
  then show ?thesis by (auto simp: to_ascii_lowercase_def)
qed

lemma lower_eq: "eq_ignore_ascii_case (map to_ascii_lowercase a) b = eq_ignore_ascii_case a b"
  by (simp add: eq_ignore_ascii_case_def comp_def)

lemma lower_eq_right: "eq_ignore_ascii_case a (map to_ascii_lowercase b) = eq_ignore_ascii_case a b"
  by (simp add: eq_ignore_ascii_case_def comp_def)

text \<open>A field the multiplexed protocols may carry: its name in lower case, and nothing about the connection.\<close>

definition multiplexed_ok :: "header \<Rightarrow> bool" where
  "multiplexed_ok h \<longleftrightarrow>
     map to_ascii_lowercase (fst h) = fst h \<and> \<not> is_connection_specific (fst h) \<and>
     (fst h = ascii ''te'' \<longrightarrow> eq_ignore_ascii_case (snd h) (ascii ''trailers''))"

lemma multiplexed_headers_ok: "list_all multiplexed_ok (multiplexed_headers hs)"
proof -
  have te: "eq_ignore_ascii_case name (ascii ''te'') \<Longrightarrow> \<not> is_connection_specific (map to_ascii_lowercase name)" for name
    by (auto simp: is_connection_specific_def lower_eq eq_ignore_ascii_case_def to_ascii_lowercase_def ascii_def)
  have "map to_ascii_lowercase name = ascii ''te'' \<Longrightarrow> eq_ignore_ascii_case name (ascii ''te'')" for name
    by (simp add: eq_ignore_ascii_case_def to_ascii_lowercase_def ascii_def)
  then show ?thesis using te
    by (auto simp: list_all_iff multiplexed_headers_def multiplexed_ok_def is_connection_specific_def lower_eq split: if_splits)
qed

lemma multiplexed_not_listed:
  "h \<in> set (multiplexed_headers hs) \<Longrightarrow> fst h = ascii ''te'' \<or> \<not> connection_lists (fst h) hs"
proof -
  have lists: "connection_lists (map to_ascii_lowercase name) hs = connection_lists name hs" for name
    by (simp add: connection_lists_def lower_eq_right)
  have te: "eq_ignore_ascii_case name (ascii ''te'') \<Longrightarrow> map to_ascii_lowercase name = ascii ''te''" for name
    by (simp add: eq_ignore_ascii_case_def to_ascii_lowercase_def ascii_def)
  assume "h \<in> set (multiplexed_headers hs)"
  then show ?thesis by (auto simp: multiplexed_headers_def lists te split: if_splits)
qed

lemma multiplexed_lengths:
  assumes "\<not> connection_lists (ascii ''content-length'') hs"
  shows "lengths (multiplexed_headers hs) = lengths hs"
proof -
  have keep: "\<not> eq_ignore_ascii_case name (ascii ''te'') \<and> \<not> is_connection_specific name \<and> \<not> connection_lists name hs"
    if "eq_ignore_ascii_case name (ascii ''content-length'')" for name
    using assms that by (auto simp: is_connection_specific_def connection_lists_def eq_ignore_ascii_case_def to_ascii_lowercase_def ascii_def)
  have "lengths (multiplexed_headers hs) = map snd (filter (named (ascii ''content-length''))
      (filter (\<lambda>(name, value).
          if eq_ignore_ascii_case name (ascii ''te'') then eq_ignore_ascii_case value (ascii ''trailers'')
          else \<not> is_connection_specific name \<and> \<not> connection_lists name hs) hs))"
    by (simp add: lengths_def multiplexed_headers_def filter_map comp_def split_def named_def lower_eq)
  also have "\<dots> = lengths hs" using keep by (auto simp: lengths_def named_def filter_filter intro!: arg_cong [of _ _ "map snd"] filter_cong)
  finally show ?thesis .
qed

end
