(* ===== verification/Pending.thy ===== *)
theory Pending
  imports Prelude
begin

text \<open>
  The slots a batch of completions leaves to flush (\<open>PendingFlush\<close> of \<open>http2.rs\<close>): one bit per connection in words of 64,
  drained in the order of the connections, a full word without looking for its bits.
\<close>

section \<open>Operations\<close>

type_synonym pending = "64 word list"

definition pending_new :: "nat \<Rightarrow> pending" where
  "pending_new connections = replicate ((connections + 63) div 64) 0"

text \<open>\<open>None\<close> is an index past the words.\<close>

definition pending_mark :: "nat \<Rightarrow> pending \<Rightarrow> pending option" where
  "pending_mark conn_idx ws =
     (if conn_idx div 64 < length ws
      then Some (ws[conn_idx div 64 := ws ! (conn_idx div 64) OR push_bit (conn_idx mod 64) 1]) else None)"

definition trailing_zeros :: "64 word \<Rightarrow> nat" where
  "trailing_zeros w = length (takeWhile (\<lambda>i. \<not> bit w i) [0..<64])"

lemma takeWhile_stops: "\<exists>x \<in> set xs. \<not> P x \<Longrightarrow> length (takeWhile P xs) < length xs"
  by (induction xs) auto

lemma lowest_bit:
  assumes "w \<noteq> 0"
  shows "trailing_zeros w < 64" "bit w (trailing_zeros w)" "\<And>i. i < trailing_zeros w \<Longrightarrow> \<not> bit w i"
proof -
  let ?P = "\<lambda>i. \<not> bit w i"
  obtain i where "bit w i" using assms by (auto simp: bit_eq_iff)
  then have "i < 64" "bit w i" using bit_imp_le_length [of w i] by simp_all
  then have ex: "\<exists>x \<in> set [0..<64]. \<not> ?P x" by auto
  then show lt: "trailing_zeros w < 64" using takeWhile_stops [of "[0..<64]" ?P] by (simp add: trailing_zeros_def)
  show "bit w (trailing_zeros w)" using nth_length_takeWhile [of ?P "[0..<64]"] lt by (simp add: trailing_zeros_def)
  show "\<not> bit w i" if "i < trailing_zeros w" for i
    using takeWhile_nth [of i ?P "[0..<64]"] nth_mem [of i "takeWhile ?P [0..<64]"] that lt set_takeWhileD [of i ?P "[0..<64]"]
    by (simp add: trailing_zeros_def)
qed

text \<open>\<open>w & (w - 1)\<close> clears the lowest bit.\<close>

lemma clear_lowest:
  assumes "w \<noteq> 0"
  shows "bit (w AND (w - 1)) i \<longleftrightarrow> bit w i \<and> i \<noteq> trailing_zeros w"
proof -
  define k where "k = trailing_zeros w"
  define u where "u = unset_bit k w"
  note low = lowest_bit [OF assms, folded k_def]
  have "w = u OR push_bit k 1" by (rule bit_word_eqI) (use low in \<open>auto simp: u_def bit_simps\<close>)
  moreover have "u AND push_bit k 1 = 0" by (rule bit_word_eqI) (auto simp: u_def bit_simps)
  ultimately have "w = u + push_bit k 1" by (simp add: disjunctive_add_eq_or)
  then have "w - 1 = u + mask k" by (simp add: mask_eq_exp_minus_1 push_bit_eq_mult)
  moreover have "u AND mask k = 0" by (rule bit_word_eqI) (use low(3) in \<open>auto simp: u_def bit_simps\<close>)
  ultimately have "w - 1 = u OR mask k" by (simp add: disjunctive_add_eq_or)
  then have "bit (w - 1) i \<longleftrightarrow> (bit w i \<and> i \<noteq> k) \<or> i < 64 \<and> i < k" by (auto simp: u_def bit_simps dest: bit_imp_le_length)
  then show ?thesis using low(3) by (auto simp: bit_and_iff k_def)
qed

lemma finite_bits: "finite {i. bit (w :: 64 word) i}"
  by (rule finite_subset [of _ "{..<64}"]) (auto dest: bit_imp_le_length)

text \<open>The loop over the bits of one word, and the words one after the other.\<close>

function ready_bits :: "64 word \<Rightarrow> nat list" where
  "ready_bits ready = (if ready = 0 then [] else trailing_zeros ready # ready_bits (ready AND (ready - 1)))"
  by pat_completeness auto
termination
proof (relation "measure (\<lambda>w. card {i. bit w i})")
  fix w :: "64 word" assume w: "w \<noteq> 0"
  have "{i. bit (w AND (w - 1)) i} = {i. bit w i} - {trailing_zeros w}" using clear_lowest [OF w] by auto
  then show "(w AND (w - 1), w) \<in> measure (\<lambda>w. card {i. bit w i})"
    using card_Diff1_less [OF finite_bits [of w]] lowest_bit(2) [OF w] by simp
qed simp

declare ready_bits.simps [simp del]

definition drain_word :: "nat \<Rightarrow> 64 word \<Rightarrow> nat list" where
  "drain_word word_idx ready =
     (if ready = - 1 then [word_idx * 64..<(word_idx + 1) * 64] else map (\<lambda>b. word_idx * 64 + b) (ready_bits ready))"

text \<open>The slots handed to the callback, in order, and the words left.\<close>

definition pending_drain :: "pending \<Rightarrow> nat list \<times> pending" where
  "pending_drain ws = (concat (map (\<lambda>i. drain_word i (ws ! i)) [0..<length ws]), map (\<lambda>_. 0) ws)"

section \<open>Exactness\<close>

lemma ready_bits_exact: "set (ready_bits w) = {i. bit w i} \<and> sorted_wrt (<) (ready_bits w)"
proof (induction w rule: ready_bits.induct)
  case (1 w)
  show ?case
  proof (cases "w = 0")
    case False
    note low = lowest_bit [OF False] and clear = clear_lowest [OF False] and IH = "1.IH" [OF False]
    have eq: "ready_bits w = trailing_zeros w # ready_bits (w AND (w - 1))" using False by (subst ready_bits.simps) simp
    have "trailing_zeros w < i" if "bit w i" "i \<noteq> trailing_zeros w" for i using low(3) [of i] that by (meson linorder_neqE_nat)
    moreover have "set (ready_bits (w AND (w - 1))) = {i. bit w i} - {trailing_zeros w}" using IH clear by auto
    ultimately show ?thesis using IH low(2) unfolding eq by auto
  qed (simp add: ready_bits.simps)
qed

lemma drain_word_exact:
  "set (drain_word k w) = {i. i div 64 = k \<and> bit w (i mod 64)} \<and> sorted_wrt (<) (drain_word k w)"
proof (cases "w = - 1")
  case True
  have "set [k * 64..<(k + 1) * 64] = {i. i div 64 = k}" by (auto simp: div_nat_eqI)
  then show ?thesis by (simp add: drain_word_def True)
next
  case False
  have "\<And>b. bit w b \<Longrightarrow> b < 64" using bit_imp_le_length by fastforce
  then have "(\<lambda>b. k * 64 + b) ` {i. bit w i} = {i. i div 64 = k \<and> bit w (i mod 64)}"
    by (auto simp: image_iff) (metis div_mult_mod_eq)
  then show ?thesis using ready_bits_exact [of w] by (simp add: drain_word_def False sorted_wrt_map)
qed

definition marked :: "pending \<Rightarrow> nat set" where
  "marked ws = {i. i div 64 < length ws \<and> bit (ws ! (i div 64)) (i mod 64)}"

text \<open>
  The abstract view: a set of slots, marking adds one, draining empties it in increasing order, each slot once.
\<close>

lemma marked_new: "marked (pending_new n) = {}"
  by (auto simp: marked_def pending_new_def)

lemma marked_mark:
  assumes "pending_mark i ws = Some ws'"
  shows "marked ws' = insert i (marked ws) \<and> length ws' = length ws"
proof -
  have i: "i div 64 < length ws" and ws': "ws' = ws[i div 64 := ws ! (i div 64) OR push_bit (i mod 64) 1]"
    using assms by (auto simp: pending_mark_def split: if_splits)
  have "bit (ws' ! (j div 64)) (j mod 64) \<longleftrightarrow> bit (ws ! (j div 64)) (j mod 64) \<or> i = j" if "j div 64 < length ws" for j
  proof (cases "j div 64 = i div 64")
    case True
    then have "i = j \<longleftrightarrow> i mod 64 = j mod 64" by (metis div_mult_mod_eq)
    then show ?thesis using i True by (auto simp: ws' bit_simps)
  qed (use i in \<open>auto simp: ws'\<close>)
  then show ?thesis using i by (auto simp: marked_def ws')
qed

lemma sorted_concat:
  assumes "\<And>k. k < n \<Longrightarrow> sorted_wrt (<) (f k)" "\<And>k x. k < n \<Longrightarrow> x \<in> set (f k) \<Longrightarrow> x div 64 = (k :: nat)"
  shows "sorted_wrt (<) (concat (map f [0..<n]))"
  using assms
proof (induction n)
  case (Suc n)
  have "x < y" if "k < n" "x \<in> set (f k)" "y \<in> set (f n)" for k x y
    using Suc.prems(2) [of k x] Suc.prems(2) [of n y] that by (metis div_le_mono less_SucI lessI not_le)
  then show ?case using Suc by (auto simp: sorted_wrt_append)
qed simp

lemma drain_exact:
  assumes "pending_drain ws = (order, ws')"
  shows "set order = marked ws \<and> sorted_wrt (<) order \<and> marked ws' = {} \<and> length ws' = length ws"
proof -
  have order: "order = concat (map (\<lambda>i. drain_word i (ws ! i)) [0..<length ws])" and ws': "ws' = map (\<lambda>_. 0) ws"
    using assms by (simp_all add: pending_drain_def)
  have "set order = marked ws" using drain_word_exact by (auto simp: order marked_def)
  moreover have "sorted_wrt (<) order" unfolding order by (rule sorted_concat) (use drain_word_exact in auto)
  ultimately show ?thesis by (auto simp: ws' marked_def)
qed

fun mark_all :: "nat list \<Rightarrow> pending \<Rightarrow> pending option" where
  "mark_all [] ws = Some ws"
| "mark_all (i # is) ws = Option.bind (pending_mark i ws) (mark_all is)"

lemma mark_all_marked:
  "\<forall>i \<in> set is. i div 64 < length ws \<Longrightarrow>
     \<exists>ws'. mark_all is ws = Some ws' \<and> marked ws' = set is \<union> marked ws \<and> length ws' = length ws"
proof (induction "is" arbitrary: ws)
  case (Cons i "is")
  obtain ws1 where one: "pending_mark i ws = Some ws1" using Cons.prems by (simp add: pending_mark_def)
  then show ?case using Cons.IH [of ws1] Cons.prems marked_mark [OF one] by auto
qed simp

text \<open>
  C28. However a batch of completions marks the slots of a worker, and however often each, the flush pass serves exactly the
  marked slots, each once and in the order of the connections, whether a word is sparse or full; no mark is out of range,
  and nothing is left for the next batch.
\<close>

theorem flush_order_exact:
  assumes "\<forall>i \<in> set is. i < connections"
  shows "\<exists>ws. mark_all is (pending_new connections) = Some ws \<and>
    pending_drain ws = (sorted_list_of_set (set is), pending_new connections)"
proof -
  have "\<forall>i \<in> set is. i div 64 < length (pending_new connections)"
    using assms by (auto simp: pending_new_def less_mult_imp_div_less div_less_iff_less_mult)
  then obtain ws where ws: "mark_all is (pending_new connections) = Some ws" "marked ws = set is"
    "length ws = length (pending_new connections)" using mark_all_marked [of "is" "pending_new connections"] by (auto simp: marked_new)
  obtain order ws' where d: "pending_drain ws = (order, ws')" by fastforce
  have "sorted_wrt (<) order" "set order = set is" using drain_exact [OF d] ws(2) by simp_all
  then have "order = sorted_list_of_set (set is)" by (intro strict_sorted_equal) simp_all
  moreover have "ws' = pending_new connections"
    using d ws(3) by (auto simp: pending_drain_def pending_new_def map_replicate_const)
  ultimately show ?thesis using ws(1) d by simp
qed

theorem flush_order_exact_witness:
  "\<exists>ws. mark_all [70, 3, 70, 64] (pending_new 100) = Some ws \<and> pending_drain ws = ([3, 64, 70], pending_new 100)"
  using flush_order_exact [of "[70, 3, 70, 64]" 100] unfolding sorted_list_of_set_sort_remdups by simp

end
