(* ===== verification/Worker.thy ===== *)
theory Worker
  imports Budget Stats Tls_Session Uring Quic_State
begin

text \<open>
  What the three workers share: how a worker fails, the shape of its loops, and the books every worker keeps of its
  requests. The contract is the locale \<open>worker_books\<close>; each worker interprets it with its own loop.
\<close>

section \<open>Failures\<close>

datatype worker_fault =
    Ring_failed | Tls_fault tls_error | Tls_setup_failed | No_buffer_id | Bad_index | Bad_operation | Underflow | No_connection
  | Quic_fault quic_error | Quic_setup_failed | Timers_spin | Reap_timed_out

datatype run_error = Too_many_connections | Run_fault worker_fault

definition lift_ring :: "'a option \<Rightarrow> (worker_fault, 'a) result" where
  "lift_ring x = (case x of None \<Rightarrow> Inl Ring_failed | Some y \<Rightarrow> Inr y)"

lemma lift_ring_Inr [simp]: "lift_ring x = Inr y \<longleftrightarrow> x = Some y"
  by (simp add: lift_ring_def split: option.splits)

section \<open>Loops\<close>

text \<open>
  A loop over inputs that an input may end: the loop of a worker over its turns, the completions of a batch, the
  connections whose deadlines are looked at. The flag says whether the loop came to the end of its inputs.
\<close>

fun worker_loop :: "('t \<Rightarrow> 'w \<Rightarrow> ('e, bool \<times> 'w) result) \<Rightarrow> 't list \<Rightarrow> 'w \<Rightarrow> ('e, bool \<times> 'w) result" where
  "worker_loop step [] w = Inr (True, w)"
| "worker_loop step (t # ts) w = rbind (step t w) (\<lambda>(go, w). if go then worker_loop step ts w else Inr (False, w))"

text \<open>That every input is admissible in the state it meets.\<close>

fun lawful_loop :: "('t \<Rightarrow> 'w \<Rightarrow> ('e, bool \<times> 'w) result) \<Rightarrow> ('t \<Rightarrow> 'w \<Rightarrow> bool) \<Rightarrow> 't list \<Rightarrow> 'w \<Rightarrow> bool" where
  "lawful_loop step ok [] w \<longleftrightarrow> True"
| "lawful_loop step ok (t # ts) w \<longleftrightarrow>
     ok t w \<and> (case step t w of Inr (True, w') \<Rightarrow> lawful_loop step ok ts w' | _ \<Rightarrow> True)"

lemma worker_loop_keeps:
  assumes "\<And>t w go w'. t \<in> set ts \<Longrightarrow> P w \<Longrightarrow> ok t w \<Longrightarrow> step t w = Inr (go, w') \<Longrightarrow> P w'"
    and "P w" "lawful_loop step ok ts w" "worker_loop step ts w = Inr (go, w')"
  shows "P w'"
  using assms
proof (induction ts arbitrary: w)
  case (Cons t ts)
  obtain g w1 where one: "step t w = Inr (g, w1)" using Cons.prems(4) by auto
  have "P w1" using Cons.prems(1) [OF _ Cons.prems(2) _ one] Cons.prems(3) by simp
  then show ?case using Cons.IH [of w1] Cons.prems one by (cases g) auto
qed simp

lemma lawful_loop_trivial: "lawful_loop step (\<lambda>t w. True) ts w"
  by (induction ts arbitrary: w) (auto split: sum.splits bool.splits prod.splits)

text \<open>
  Total correctness of a fallible step: it fails only in the ways \<open>Q\<close> allows, and its result satisfies \<open>P\<close>.
\<close>

definition safe :: "('e \<Rightarrow> bool) \<Rightarrow> ('a \<Rightarrow> bool) \<Rightarrow> ('e, 'a) result \<Rightarrow> bool" where
  "safe Q P m = (case m of Inl e \<Rightarrow> Q e | Inr x \<Rightarrow> P x)"

lemma safe_simps [simp]: "safe Q P (Inl e) = Q e" "safe Q P (Inr x) = P x"
  by (simp_all add: safe_def)

lemma safe_bind: "safe Q P m \<Longrightarrow> (\<And>x. P x \<Longrightarrow> safe Q R (f x)) \<Longrightarrow> safe Q R (rbind m f)"
  by (cases m) simp_all

lemma safe_weaken: "safe Q P m \<Longrightarrow> (\<And>x. P x \<Longrightarrow> R x) \<Longrightarrow> safe Q R m"
  by (cases m) simp_all

lemma safe_lift_ring: "Q Ring_failed \<Longrightarrow> (\<And>x. m = Some x \<Longrightarrow> P x) \<Longrightarrow> safe Q P (lift_ring m)"
  by (simp add: lift_ring_def split: option.split)

lemma safe_Inr: "safe Q P m \<Longrightarrow> m = Inr x \<Longrightarrow> P x"
  by simp

lemma safe_Inl: "safe Q P m \<Longrightarrow> m = Inl e \<Longrightarrow> Q e"
  by simp

lemma worker_loop_safe:
  assumes "\<And>t w. t \<in> set ts \<Longrightarrow> P w \<Longrightarrow> safe Q (\<lambda>(_, w). P w) (step t w)" "P w"
  shows "safe Q (\<lambda>(_, w). P w) (worker_loop step ts w)"
  using assms
proof (induction ts arbitrary: w)
  case (Cons t ts)
  show ?case unfolding worker_loop.simps
    by (rule safe_bind [OF Cons.prems(1) [OF _ Cons.prems(2)]]) (use Cons in \<open>auto\<close>)
qed simp

section \<open>The books\<close>

definition finished_count :: "stats \<Rightarrow> nat" where
  "finished_count s = st_completed s + st_errors s"

text \<open>
  The contract of a worker: what it has started is finished or owed, and it starts no more than its budget; every turn of
  its loop keeps that.
\<close>

locale worker_books =
  fixes budget :: "'env \<Rightarrow> budget" and stats :: "'w \<Rightarrow> stats" and started owed :: "'w \<Rightarrow> nat"
    and inv :: "'env \<Rightarrow> 'w \<Rightarrow> bool" and round :: "'env \<Rightarrow> 't \<Rightarrow> 'w \<Rightarrow> ('e, bool \<times> 'w) result"
    and lawful :: "'env \<Rightarrow> 't \<Rightarrow> 'w \<Rightarrow> bool"
  assumes books: "inv env w \<Longrightarrow> finished_count (stats w) + owed w = started w \<and> stats_ok (stats w)"
    and within: "inv env w \<Longrightarrow> budget env = Requests n \<Longrightarrow> started w \<le> n"
    and round_keeps: "inv env w \<Longrightarrow> lawful env t w \<Longrightarrow> round env t w = Inr (go, w') \<Longrightarrow> inv env w'"
begin

lemma loop_keeps:
  assumes "inv env w0" "lawful_loop (round env) (lawful env) ts w0" "worker_loop (round env) ts w0 = Inr (go, w)"
  shows "inv env w"
  using worker_loop_keeps [of ts "inv env", OF round_keeps assms] .

lemma accounted:
  assumes "inv env w0" "lawful_loop (round env) (lawful env) ts w0" "worker_loop (round env) ts w0 = Inr (go, w)"
  shows "finished_count (stats w) + owed w = started w \<and> stats_ok (stats w) \<and>
    (\<forall>m. budget env = Requests m \<longrightarrow>
       started w \<le> m \<and> (is_met (budget env) (finished_count (stats w)) \<longrightarrow> finished_count (stats w) = m \<and> owed w = 0))"
proof -
  have w: "inv env w" by (rule loop_keeps [OF assms])
  show ?thesis
  proof (intro conjI allI impI)
    fix m assume m: "budget env = Requests m"
    show "started w \<le> m" by (rule within [OF w m])
    assume "is_met (budget env) (finished_count (stats w))"
    then show "finished_count (stats w) = m" "owed w = 0" using books [OF w] within [OF w m] m by simp_all
  qed (use books [OF w] in simp_all)
qed

end

lemma sum_of_bool_filter: "(\<Sum>x\<leftarrow>xs. of_bool (P x)) = length (filter P xs)"
  by (induction xs) simp_all

end
