(* ===== verification/H1_Worker.thy ===== *)
theory H1_Worker
  imports Status_Table Worker
begin

text \<open>
  The HTTP/1.1 worker (\<open>http1.rs\<close>): its connections, what it does with every completion of the ring, its loop from the
  first connects to the final teardown, and the accounting of requests.

  The kernel is outside: its completions are the input of the loop, its refusals are answered by \<open>ring_io\<close>. The clock is
  read once per round: \<open>now\<close> is what \<open>Instant::now()\<close> returns while one batch is handled. Synchronous cancellation,
  flushing the queue ahead of it and updating a file slot are calls that succeed or end the worker.
\<close>

section \<open>Connections\<close>

record 'c conn1 =
  c1_fd :: "nat option"
  c1_connected :: bool
  c1_parser :: parser
  c1_tls :: "'c tls_session option"
  c1_out :: bytes
  c1_out_off :: nat
  c1_sending :: bool
  c1_queued :: bool
  c1_recv_single :: bool
  c1_recv_armed :: bool
  c1_generation :: nat
  c1_request_start :: nat
  c1_unsent :: bool
  c1_active :: bool
  c1_deadline :: "nat option"

text \<open>
  What a run of the worker is given. \<open>e1_tls\<close> makes a TLS connection for the \<open>n\<close>th call, or fails; \<open>None\<close> is a plain
  target. \<open>e1_full\<close> is what the allocator says of the TLS backlog.
\<close>

record 'c env1 =
  e1_request :: bytes
  e1_is_head :: bool
  e1_disable_keepalive :: bool
  e1_tls :: "(nat \<Rightarrow> 'c option) option"
  e1_rustls :: "'c rustls"
  e1_full :: bool
  e1_budget :: budget
  e1_timeout :: "nat option"
  e1_io :: ring_io

record 'c worker1 =
  w1_conns :: "'c conn1 list"
  w1_stats :: stats
  w1_started :: nat
  w1_stop :: bool
  w1_ring :: uring

definition conn1_new :: "nat \<Rightarrow> 'c conn1" where
  "conn1_new now =
     \<lparr>c1_fd = None, c1_connected = False, c1_parser = parser_new, c1_tls = None, c1_out = [], c1_out_off = 0,
      c1_sending = False, c1_queued = False, c1_recv_single = False, c1_recv_armed = False, c1_generation = 0,
      c1_request_start = now, c1_unsent = True, c1_active = False, c1_deadline = None\<rparr>"

definition c1_outbound :: "'c conn1 \<Rightarrow> bytes \<Rightarrow> bytes" where
  "c1_outbound c request = (case c1_tls c of Some _ \<Rightarrow> c1_out c | None \<Rightarrow> request)"

definition c1_send_close_notify :: "'c rustls \<Rightarrow> nat \<Rightarrow> 'c conn1 \<Rightarrow> uring \<Rightarrow> 'c conn1 \<times> uring" where
  "c1_send_close_notify api fd c r =
     (case c1_tls c of
        None \<Rightarrow> (c, r)
      | Some tls \<Rightarrow>
          if c1_sending c then (c, r)
          else
            case take_ciphertext_into api (tls_close_notify api tls) of
              Inl (e, out, tls) \<Rightarrow> (c\<lparr>c1_tls := Some tls, c1_out := out\<rparr>, r)
            | Inr (out, tls) \<Rightarrow>
                (c\<lparr>c1_tls := Some tls, c1_out := out\<rparr>,
                 if out = [] then r else r\<lparr>ur_sq := ur_sq r @ [Raw_send fd out]\<rparr>))"

definition c1_close :: "'c rustls \<Rightarrow> 'c conn1 \<Rightarrow> uring \<Rightarrow> 'c conn1 \<times> uring" where
  "c1_close api c r =
     (let (c, r) = (case c1_fd c of
                      None \<Rightarrow> (c, r)
                    | Some fd \<Rightarrow> let (c, r) = c1_send_close_notify api fd c r in (c\<lparr>c1_fd := None\<rparr>, r)) in
      (c\<lparr>c1_connected := False, c1_recv_armed := False, c1_sending := False, c1_queued := False, c1_tls := None, c1_out := [],
         c1_out_off := 0, c1_generation := next_generation (c1_generation c)\<rparr>, r))"

definition c1_io_quiescent :: "'c conn1 \<Rightarrow> bool" where
  "c1_io_quiescent c \<longleftrightarrow> c1_recv_single c \<and> c1_connected c \<and> \<not> c1_recv_armed c \<and> \<not> c1_sending c"

definition c1_begin_request :: "nat option \<Rightarrow> nat \<Rightarrow> 'c conn1 \<Rightarrow> 'c conn1" where
  "c1_begin_request timeout now c =
     c\<lparr>c1_active := True, c1_unsent := True, c1_deadline := map_option (\<lambda>t. now + t) timeout\<rparr>"

definition c1_end_request :: "'c conn1 \<Rightarrow> 'c conn1" where
  "c1_end_request c = c\<lparr>c1_active := False, c1_deadline := None\<rparr>"

definition c1_fail_request :: "'c conn1 \<Rightarrow> stats \<Rightarrow> 'c conn1 \<times> stats" where
  "c1_fail_request c s = (if c1_active c then (c1_end_request c, s\<lparr>st_errors := st_errors s + 1\<rparr>) else (c, s))"

definition c1_mark_sent :: "nat \<Rightarrow> 'c conn1 \<Rightarrow> 'c conn1" where
  "c1_mark_sent now c = (if c1_unsent c then c\<lparr>c1_unsent := False, c1_request_start := now\<rparr> else c)"

definition h1_retire :: "'c env1 \<Rightarrow> 'c conn1 \<Rightarrow> uring \<Rightarrow> ('c conn1 \<times> uring) option" where
  "h1_retire env c r =
     (let io = e1_io env in
      if c1_fd c = None then Some (c1_close (e1_rustls env) c r)
      else
        Option.bind
          (if c1_io_quiescent c then Some r else Option.bind (ring_call io r) (ring_call io)) (\<lambda>r.
        Option.bind (ring_call io r) (\<lambda>r. Some (c1_close (e1_rustls env) c r))))"

section \<open>Sending and receiving\<close>

definition h1_queue_request :: "'c env1 \<Rightarrow> 'c conn1 \<Rightarrow> (worker_fault, 'c conn1) result" where
  "h1_queue_request env c =
     (case c1_tls c of
        Some tls \<Rightarrow>
          (case write_plaintext (e1_rustls env) (e1_full env) (e1_request env) tls of
             Inl (e, _) \<Rightarrow> Inl (Tls_fault e)
           | Inr tls \<Rightarrow> Inr (c\<lparr>c1_tls := Some tls\<rparr>))
      | None \<Rightarrow> Inr (if c1_sending c then c\<lparr>c1_queued := True\<rparr> else c\<lparr>c1_out_off := 0\<rparr>))"

definition h1_submit_tls_output ::
    "'c env1 \<Rightarrow> nat \<Rightarrow> nat \<Rightarrow> 'c tls_session \<Rightarrow> 'c conn1 \<Rightarrow> uring \<Rightarrow> (worker_fault, 'c conn1 \<times> uring) result" where
  "h1_submit_tls_output env now conn_idx tls c r =
     (if c1_out c = [] then Inr (c, r)
      else
        let c = (if rl_handshaking (e1_rustls env) (ts_conn tls) then c else c1_mark_sent now c);
            c = c\<lparr>c1_out_off := 0, c1_sending := True\<rparr> in
        rbind (lift_ring (push_send_slice (e1_io env) conn_idx (c1_generation c) (c1_out c) r)) (\<lambda>r. Inr (c, r)))"

definition h1_flush :: "'c env1 \<Rightarrow> nat \<Rightarrow> nat \<Rightarrow> 'c conn1 \<Rightarrow> uring \<Rightarrow> (worker_fault, 'c conn1 \<times> uring) result" where
  "h1_flush env now conn_idx c r =
     (if c1_sending c then Inr (c, r)
      else
        case c1_tls c of
          Some tls \<Rightarrow>
            (case take_ciphertext_into (e1_rustls env) tls of
               Inl (e, _) \<Rightarrow> Inl (Tls_fault e)
             | Inr (out, tls) \<Rightarrow> h1_submit_tls_output env now conn_idx tls (c\<lparr>c1_tls := Some tls, c1_out := out\<rparr>) r)
        | None \<Rightarrow>
            if c1_out_off c < length (c1_outbound c (e1_request env)) then
              let c = (c1_mark_sent now c)\<lparr>c1_sending := True\<rparr> in
              rbind (lift_ring (push_send_slice (e1_io env) conn_idx (c1_generation c)
                (drop (c1_out_off c) (c1_outbound c (e1_request env))) r)) (\<lambda>r. Inr (c, r))
            else Inr (c, r))"

definition h1_queue_and_flush_request ::
    "'c env1 \<Rightarrow> nat \<Rightarrow> nat \<Rightarrow> 'c conn1 \<Rightarrow> uring \<Rightarrow> (worker_fault, 'c conn1 \<times> uring) result" where
  "h1_queue_and_flush_request env now conn_idx c r =
     (case (if c1_sending c then None else c1_tls c) of
        Some tls \<Rightarrow>
          (case write_and_take (e1_rustls env) (e1_full env) (e1_request env) tls of
             Inl (e, _) \<Rightarrow> Inl (Tls_fault e)
           | Inr (out, tls) \<Rightarrow> h1_submit_tls_output env now conn_idx tls (c\<lparr>c1_tls := Some tls, c1_out := out\<rparr>) r)
      | None \<Rightarrow> rbind (h1_queue_request env c) (\<lambda>c. h1_flush env now conn_idx c r))"

definition h1_finish_at_eof :: "nat \<Rightarrow> 'c conn1 \<Rightarrow> stats \<Rightarrow> 'c conn1 \<times> stats" where
  "h1_finish_at_eof now c s =
     (if \<not> c1_active c then (c, s)
      else
        let (whole, parser) = mark_eof (c1_parser c);
            c = c\<lparr>c1_parser := parser\<rparr>;
            s = (if whole then record_success (ps_status parser) (now - c1_request_start c) s
                 else s\<lparr>st_errors := st_errors s + 1\<rparr>) in
        (c1_end_request c, s))"

definition h1_push_recv :: "'c env1 \<Rightarrow> nat \<Rightarrow> 'c conn1 \<Rightarrow> uring \<Rightarrow> (worker_fault, 'c conn1 \<times> uring) result" where
  "h1_push_recv env conn_idx c r =
     rbind (lift_ring ((if c1_recv_single c then push_recv_single else push_recv_multi) (e1_io env) conn_idx (c1_generation c) r))
       (\<lambda>r. Inr (c\<lparr>c1_recv_armed := True\<rparr>, r))"

section \<open>Completions\<close>

text \<open>
  What handling a completion says of its connection: whether a request ended with it, and whether the connection outlives
  that request.
\<close>

record verdict =
  vd_finished :: bool
  vd_keep :: bool

abbreviation going_on :: verdict where "going_on \<equiv> \<lparr>vd_finished = False, vd_keep = True\<rparr>"
abbreviation broken :: verdict where "broken \<equiv> \<lparr>vd_finished = True, vd_keep = False\<rparr>"

type_synonym 'c handled1 = "(worker_fault, verdict \<times> 'c conn1 \<times> uring \<times> stats) result"

definition h1_on_connect :: "'c env1 \<Rightarrow> nat \<Rightarrow> nat \<Rightarrow> int \<Rightarrow> 'c conn1 \<Rightarrow> uring \<Rightarrow> stats \<Rightarrow> 'c handled1" where
  "h1_on_connect env now conn_idx res c r s =
     (let c = c\<lparr>c1_connected := res \<ge> 0\<rparr> in
      if res < 0 then
        Inr (broken, c, r, s\<lparr>st_errors := st_errors s + 1, st_connect_errors := st_connect_errors s + 1\<rparr>)
      else
        rbind (h1_push_recv env conn_idx c r) (\<lambda>(c, r).
        rbind (case e1_tls env of
                 None \<Rightarrow> Inr c
               | Some setup \<Rightarrow>
                   (case setup (ur_calls r) of
                      None \<Rightarrow> Inl Tls_setup_failed
                    | Some conn \<Rightarrow> Inr (c\<lparr>c1_tls := Some (tls_new conn)\<rparr>))) (\<lambda>c.
        rbind (h1_queue_and_flush_request env now conn_idx (c1_begin_request (e1_timeout env) now c) r) (\<lambda>(c, r).
        Inr (going_on, c, r, s)))))"

definition h1_on_send :: "'c env1 \<Rightarrow> nat \<Rightarrow> nat \<Rightarrow> int \<Rightarrow> 'c conn1 \<Rightarrow> uring \<Rightarrow> stats \<Rightarrow> 'c handled1" where
  "h1_on_send env now conn_idx res c r s =
     (if res < 0 then let (c, s) = c1_fail_request c s in Inr (broken, c, r, s)
      else
        let s = s\<lparr>st_bytes_sent := st_bytes_sent s + nat res\<rparr>;
            c = c\<lparr>c1_out_off := c1_out_off c + nat res\<rparr>;
            outbound = c1_outbound c (e1_request env) in
        if c1_out_off c < length outbound then
          rbind (lift_ring (push_send_slice (e1_io env) conn_idx (c1_generation c) (drop (c1_out_off c) outbound) r)) (\<lambda>r.
          Inr (going_on, c, r, s))
        else
          let c = c\<lparr>c1_sending := False\<rparr>;
              c = (if c1_queued c then c\<lparr>c1_queued := False, c1_out_off := 0\<rparr> else c) in
          rbind (h1_flush env now conn_idx c r) (\<lambda>(c, r).
          rbind (if c1_recv_armed c then Inr (c, r) else h1_push_recv env conn_idx c r) (\<lambda>(c, r).
          Inr (going_on, c, r, s))))"

text \<open>Feeding the parser, straight or through TLS; \<open>None\<close> is an error of either.\<close>

definition h1_sink :: "bytes \<Rightarrow> nat \<times> parser \<Rightarrow> (h1_error \<times> nat \<times> parser, nat \<times> parser) result" where
  "h1_sink bs h =
     (let (ended, parser) = h in
      case parser_feed bs parser of
        Inl e \<Rightarrow> Inl (e, ended, parser)
      | Inr (n, parser) \<Rightarrow> Inr (ended + n, parser))"

definition h1_feed :: "'c env1 \<Rightarrow> bytes \<Rightarrow> 'c conn1 \<Rightarrow> nat option \<times> 'c conn1" where
  "h1_feed env data c =
     (case c1_tls c of
        Some tls \<Rightarrow>
          (case feed_into (e1_rustls env) data h1_sink tls (0, c1_parser c) of
             Inl (e, tls, _, parser) \<Rightarrow> (None, c\<lparr>c1_tls := Some tls, c1_parser := parser\<rparr>)
           | Inr (tls, ended, parser) \<Rightarrow> (Some ended, c\<lparr>c1_tls := Some tls, c1_parser := parser\<rparr>))
      | None \<Rightarrow>
          (case parser_feed data (c1_parser c) of
             Inl e \<Rightarrow> (None, c)
           | Inr (n, parser) \<Rightarrow> (Some n, c\<lparr>c1_parser := parser\<rparr>)))"

definition h1_on_data :: "'c env1 \<Rightarrow> nat \<Rightarrow> nat \<Rightarrow> bytes \<Rightarrow> 'c conn1 \<Rightarrow> uring \<Rightarrow> stats \<Rightarrow> 'c handled1" where
  "h1_on_data env now conn_idx data c r s =
     (let (ended, c) = h1_feed env data c in
      case ended of
        None \<Rightarrow> let (c, s) = c1_fail_request c s in Inr (broken, c, r, s)
      | Some n \<Rightarrow>
          if n = 0 \<and> (case c1_tls c of None \<Rightarrow> False | Some tls \<Rightarrow> ts_peer_closed tls) then
            let (c, s) = h1_finish_at_eof now c s in Inr (broken, c, r, s)
          else if n = 0 then
            rbind (if c1_recv_armed c then Inr (c, r) else h1_push_recv env conn_idx c r) (\<lambda>(c, r).
            rbind (h1_flush env now conn_idx c r) (\<lambda>(c, r). Inr (going_on, c, r, s)))
          else
            let s = (if c1_active c then record_success (ps_status (c1_parser c)) (now - c1_request_start c) s else s) in
            Inr (\<lparr>vd_finished = True, vd_keep = ps_keep_alive (c1_parser c) \<and> \<not> e1_disable_keepalive env\<rparr>, c, r, s))"

definition h1_on_recv :: "'c env1 \<Rightarrow> nat \<Rightarrow> nat \<Rightarrow> cqe \<Rightarrow> 'c conn1 \<Rightarrow> uring \<Rightarrow> stats \<Rightarrow> 'c handled1" where
  "h1_on_recv env now conn_idx e c r s =
     (let res = cq_result e;
          c = (if cq_more e then c else c\<lparr>c1_recv_armed := False\<rparr>) in
      if res < 0 then
        let r = recycle_buffer (cq_buffer e) r in
        if res = - ENOBUFS then rbind (h1_push_recv env conn_idx c r) (\<lambda>(c, r). Inr (going_on, c, r, s))
        else let (c, s) = c1_fail_request c s in Inr (broken, c, r, s)
      else if res = 0 then
        let r = recycle_buffer (cq_buffer e) r; (c, s) = h1_finish_at_eof now c s in Inr (broken, c, r, s)
      else
        let s = s\<lparr>st_bytes_received := st_bytes_received s + nat res\<rparr> in
        if cq_buffer e = None then Inl No_buffer_id
        else h1_on_data env now conn_idx (take (nat res) (cq_bytes e)) c (recycle_buffer (cq_buffer e) r) s)"

section \<open>The loop\<close>

text \<open>What follows the end of a request. The flag says whether the loop goes on: a connect that cannot be started ends it.\<close>

definition h1_reconnect :: "'c env1 \<Rightarrow> nat \<Rightarrow> 'c conn1 \<Rightarrow> uring \<Rightarrow> (worker_fault, bool \<times> 'c conn1 \<times> uring) result" where
  "h1_reconnect env conn_idx c r =
     rbind (lift_ring (h1_retire env c r)) (\<lambda>(c, r).
       let c = c\<lparr>c1_parser := parser_reset (c1_parser c)\<rparr> in
       case start_connect (e1_io env) conn_idx (c1_generation c) r of
         None \<Rightarrow> Inr (False, c, r)
       | Some (fd, r) \<Rightarrow> Inr (True, c\<lparr>c1_fd := Some fd\<rparr>, r))"

definition h1_next_request ::
    "'c env1 \<Rightarrow> nat \<Rightarrow> nat \<Rightarrow> bool \<Rightarrow> 'c conn1 \<Rightarrow> 'c worker1 \<Rightarrow> (worker_fault, bool \<times> 'c conn1 \<times> 'c worker1) result" where
  "h1_next_request env now conn_idx keep c w =
     (let c = c1_end_request c in
      if \<not> w1_stop w \<and> may_start (e1_budget env) (w1_started w) then
        let w = w\<lparr>w1_started := w1_started w + 1\<rparr>;
            c = c1_begin_request (e1_timeout env) now c in
        if keep then
          rbind (if c1_recv_armed c then Inr (c, w1_ring w) else h1_push_recv env conn_idx c (w1_ring w)) (\<lambda>(c, r).
          rbind (h1_queue_and_flush_request env now conn_idx c r) (\<lambda>(c, r). Inr (True, c, w\<lparr>w1_ring := r\<rparr>)))
        else rbind (h1_reconnect env conn_idx c (w1_ring w)) (\<lambda>(go, c, r). Inr (go, c, w\<lparr>w1_ring := r\<rparr>))
      else if \<not> keep then rbind (lift_ring (h1_retire env c (w1_ring w))) (\<lambda>(c, r). Inr (True, c, w\<lparr>w1_ring := r\<rparr>))
      else Inr (True, c, w))"

definition h1_handle :: "'c env1 \<Rightarrow> nat \<Rightarrow> nat \<Rightarrow> nat \<Rightarrow> cqe \<Rightarrow> 'c conn1 \<Rightarrow> uring \<Rightarrow> stats \<Rightarrow> 'c handled1" where
  "h1_handle env now op conn_idx e c r s =
     (if op = OP_CONNECT then h1_on_connect env now conn_idx (cq_result e) c r s
      else if op = OP_CONNECT_TIMEOUT then Inr (going_on, c, r, s)
      else if op = OP_SEND then h1_on_send env now conn_idx (cq_result e) c r s
      else if op = OP_RECV then h1_on_recv env now conn_idx e c r s
      else Inl Bad_operation)"

definition h1_completion :: "'c env1 \<Rightarrow> nat \<Rightarrow> cqe \<Rightarrow> 'c worker1 \<Rightarrow> (worker_fault, bool \<times> 'c worker1) result" where
  "h1_completion env now e w =
     (if cq_user_data e = TIMEOUT_USER_DATA then Inr (True, w\<lparr>w1_stop := True\<rparr>)
      else
        let (op, conn_idx, generation) = decode_user_data (cq_user_data e) in
        if conn_idx \<ge> length (w1_conns w) then Inl Bad_index
        else if generation \<noteq> c1_generation (w1_conns w ! conn_idx) then
          Inr (True, w\<lparr>w1_ring := recycle_buffer (cq_buffer e) (w1_ring w)\<rparr>)
        else
          rbind (h1_handle env now op conn_idx e (w1_conns w ! conn_idx) (w1_ring w) (w1_stats w)) (\<lambda>(v, c, r, s).
            let w = w\<lparr>w1_ring := r, w1_stats := s\<rparr> in
            if vd_finished v then
              rbind (h1_next_request env now conn_idx (vd_keep v) c w) (\<lambda>(go, c, w).
              Inr (go, w\<lparr>w1_conns := (w1_conns w)[conn_idx := c]\<rparr>))
            else Inr (True, w\<lparr>w1_conns := (w1_conns w)[conn_idx := c]\<rparr>)))"

definition h1_completions :: "'c env1 \<Rightarrow> nat \<Rightarrow> cqe list \<Rightarrow> 'c worker1 \<Rightarrow> (worker_fault, bool \<times> 'c worker1) result" where
  "h1_completions env now = worker_loop (h1_completion env now)"

text \<open>Giving up on the requests whose deadline has passed.\<close>

definition h1_expire_one :: "'c env1 \<Rightarrow> nat \<Rightarrow> nat \<Rightarrow> 'c worker1 \<Rightarrow> (worker_fault, bool \<times> 'c worker1) result" where
  "h1_expire_one env now conn_idx w =
     (let c = w1_conns w ! conn_idx in
      if \<not> (case c1_deadline c of None \<Rightarrow> False | Some d \<Rightarrow> now \<ge> d) then Inr (True, w)
      else
        let (c, s) = c1_fail_request c (w1_stats w); w = w\<lparr>w1_stats := s\<rparr> in
        rbind (lift_ring (h1_retire env c (w1_ring w))) (\<lambda>(c, r).
          let c = c\<lparr>c1_parser := parser_reset (c1_parser c)\<rparr>; w = w\<lparr>w1_ring := r\<rparr> in
          if w1_stop w \<or> \<not> may_start (e1_budget env) (w1_started w) then Inr (True, w\<lparr>w1_conns := (w1_conns w)[conn_idx := c]\<rparr>)
          else
            let w = w\<lparr>w1_started := w1_started w + 1\<rparr>; c = c1_begin_request None now c in
            case start_connect (e1_io env) conn_idx (c1_generation c) (w1_ring w) of
              None \<Rightarrow> Inr (False, w\<lparr>w1_conns := (w1_conns w)[conn_idx := c]\<rparr>)
            | Some (fd, r) \<Rightarrow> Inr (True, w\<lparr>w1_conns := (w1_conns w)[conn_idx := c\<lparr>c1_fd := Some fd\<rparr>], w1_ring := r\<rparr>)))"

definition h1_expire :: "'c env1 \<Rightarrow> nat \<Rightarrow> nat list \<Rightarrow> 'c worker1 \<Rightarrow> (worker_fault, bool \<times> 'c worker1) result" where
  "h1_expire env now = worker_loop (h1_expire_one env now)"

text \<open>One turn of the loop: a flag that says whether the worker goes on, and the worker. \<open>shutdown\<close> is the Ctrl-C flag.\<close>

definition h1_round :: "'c env1 \<Rightarrow> nat \<times> bool \<times> cqe list \<Rightarrow> 'c worker1 \<Rightarrow> (worker_fault, bool \<times> 'c worker1) result" where
  "h1_round env turn w =
     (let (now, shutdown, es) = turn in
      if is_met (e1_budget env) (st_completed (w1_stats w) + st_errors (w1_stats w)) then Inr (False, w)
      else if shutdown then Inr (False, w)
      else
        rbind (lift_ring (ring_call (e1_io env) (w1_ring w))) (\<lambda>r.
        rbind (if e1_timeout env = None then Inr (True, w\<lparr>w1_ring := r\<rparr>)
               else h1_expire env now [0..<length (w1_conns w)] (w\<lparr>w1_ring := r\<rparr>)) (\<lambda>(go, w).
        if \<not> go then Inr (False, w)
        else rbind (h1_completions env now es w) (\<lambda>(go, w). Inr (go \<and> \<not> w1_stop w, w)))))"

definition h1_loop :: "'c env1 \<Rightarrow> (nat \<times> bool \<times> cqe list) list \<Rightarrow> 'c worker1 \<Rightarrow> (worker_fault, bool \<times> 'c worker1) result" where
  "h1_loop env = worker_loop (h1_round env)"

definition h1_connect_one :: "'c env1 \<Rightarrow> nat \<Rightarrow> nat \<Rightarrow> 'c worker1 \<Rightarrow> (worker_fault, bool \<times> 'c worker1) result" where
  "h1_connect_one env now i w =
     (if \<not> may_start (e1_budget env) (w1_started w) then Inr (False, w)
      else
        let c = c1_begin_request (e1_timeout env) now (w1_conns w ! i) in
        rbind (lift_ring (start_connect (e1_io env) i (c1_generation c) (w1_ring w))) (\<lambda>(fd, r).
        Inr (True, w\<lparr>w1_started := w1_started w + 1, w1_conns := (w1_conns w)[i := c\<lparr>c1_fd := Some fd\<rparr>], w1_ring := r\<rparr>)))"

fun h1_connect_all :: "'c env1 \<Rightarrow> nat \<Rightarrow> nat list \<Rightarrow> 'c worker1 \<Rightarrow> (worker_fault, 'c worker1) result" where
  "h1_connect_all env now [] w = Inr w"
| "h1_connect_all env now (i # is) w =
     rbind (h1_connect_one env now i w) (\<lambda>(go, w). if go then h1_connect_all env now is w else Inr w)"

text \<open>The worker ahead of its first connects; \<open>bufs\<close> is the buffer ring made for it.\<close>

definition h1_setup :: "'c env1 \<Rightarrow> nat \<Rightarrow> nat \<Rightarrow> buf_ring \<Rightarrow> 'c worker1" where
  "h1_setup env now connections bufs =
     \<lparr>w1_conns = replicate connections ((conn1_new now)\<lparr>c1_recv_single := e1_disable_keepalive env \<and> e1_tls env = None,
        c1_parser := set_head_request (e1_is_head env) parser_new\<rparr>),
      w1_stats = stats_default, w1_started = 0, w1_stop = False, w1_ring = \<lparr>ur_sq = [], ur_calls = 0, ur_bufs = bufs\<rparr>\<rparr>"

definition h1_start :: "'c env1 \<Rightarrow> nat \<Rightarrow> nat \<Rightarrow> buf_ring \<Rightarrow> (worker_fault, 'c worker1) result" where
  "h1_start env now connections bufs =
     (let w = h1_setup env now connections bufs in
      rbind (lift_ring (arm_deadline (e1_io env) (deadline (e1_budget env)) (w1_ring w))) (\<lambda>r.
      h1_connect_all env now [0..<connections] (w\<lparr>w1_ring := r\<rparr>)))"

fun h1_retire_all :: "'c env1 \<Rightarrow> 'c conn1 list \<Rightarrow> uring \<Rightarrow> (worker_fault, uring) result" where
  "h1_retire_all env [] r = Inr r"
| "h1_retire_all env (c # cs) r = rbind (lift_ring (h1_retire env c r)) (\<lambda>(_, r). h1_retire_all env cs r)"

text \<open>The whole of \<open>run_worker\<close>. \<open>None\<close> says that the loop is still going when the turns given to it are used up.\<close>

definition h1_run_worker ::
    "'c env1 \<Rightarrow> nat \<Rightarrow> nat \<Rightarrow> buf_ring \<Rightarrow> (nat \<times> bool \<times> cqe list) list \<Rightarrow> (run_error, stats) result option" where
  "h1_run_worker env now connections bufs turns =
     (if connections = 0 \<or> budget_is_empty (e1_budget env) then Some (Inr stats_default)
      else if connections > push_bit CONN_IDX_BITS 1 then Some (Inl Too_many_connections)
      else
        case rbind (h1_start env now connections bufs) (h1_loop env turns) of
          Inl e \<Rightarrow> Some (Inl (Run_fault e))
        | Inr (True, w) \<Rightarrow> None
        | Inr (False, w) \<Rightarrow>
            (case h1_retire_all env (w1_conns w) (w1_ring w) of
               Inl e \<Rightarrow> Some (Inl (Run_fault e))
             | Inr _ \<Rightarrow> Some (Inr (w1_stats w))))"

section \<open>What a completion does to the books\<close>

text \<open>What sending and receiving leave alone.\<close>

definition same1 :: "'c conn1 \<Rightarrow> 'c conn1 \<Rightarrow> bool" where
  "same1 c c' \<longleftrightarrow> c1_active c' = c1_active c \<and> c1_fd c' = c1_fd c \<and> c1_connected c' = c1_connected c \<and>
     c1_parser c' = c1_parser c \<and> c1_generation c' = c1_generation c"

lemma mark_sent_same: "same1 c (c1_mark_sent now c)"
  by (simp add: same1_def c1_mark_sent_def)

lemma push_recv_same: "h1_push_recv env i c r = Inr (c', r') \<Longrightarrow> same1 c c'"
  by (auto simp: h1_push_recv_def same1_def)

lemma submit_tls_same: "h1_submit_tls_output env now i tls c r = Inr (c', r') \<Longrightarrow> same1 c c'"
  by (auto simp: h1_submit_tls_output_def same1_def c1_mark_sent_def Let_def split: if_splits)

lemma flush_same: "h1_flush env now i c r = Inr (c', r') \<Longrightarrow> same1 c c'"
  by (auto simp: h1_flush_def same1_def c1_mark_sent_def Let_def dest!: submit_tls_same split: if_splits option.splits sum.splits)

lemma queue_same: "h1_queue_request env c = Inr c' \<Longrightarrow> same1 c c'"
  by (auto simp: h1_queue_request_def same1_def split: if_splits option.splits sum.splits)

lemma same1_trans: "same1 a b \<Longrightarrow> same1 b c \<Longrightarrow> same1 a c"
  by (simp add: same1_def)

lemma queue_and_flush_same: "h1_queue_and_flush_request env now i c r = Inr (c', r') \<Longrightarrow> same1 c c'"
proof (cases "if c1_sending c then None else c1_tls c")
  case None
  assume "h1_queue_and_flush_request env now i c r = Inr (c', r')"
  then show ?thesis using None by (auto simp: h1_queue_and_flush_request_def intro: same1_trans queue_same flush_same)
next
  case (Some tls)
  assume "h1_queue_and_flush_request env now i c r = Inr (c', r')"
  then show ?thesis using Some
    by (auto simp: h1_queue_and_flush_request_def same1_def dest!: submit_tls_same split: sum.splits)
qed

lemma close_effect:
  assumes "c1_close api c r = (c', r')"
  shows "c1_fd c' = None \<and> \<not> c1_connected c' \<and> c1_active c' = c1_active c \<and> c1_parser c' = c1_parser c \<and>
    c1_generation c' = next_generation (c1_generation c) \<and> c1_deadline c' = c1_deadline c"
  using assms
  by (auto simp: c1_close_def c1_send_close_notify_def Let_def split: option.splits if_splits sum.splits)

lemma retire_effect:
  assumes "h1_retire env c r = Some (c', r')"
  shows "c1_fd c' = None \<and> \<not> c1_connected c' \<and> c1_active c' = c1_active c \<and> c1_parser c' = c1_parser c \<and>
    c1_generation c' = next_generation (c1_generation c) \<and> c1_deadline c' = c1_deadline c"
proof -
  obtain r1 where "c1_close (e1_rustls env) c r1 = (c', r')"
    using assms by (auto simp: h1_retire_def Let_def bind_eq_Some_conv split: if_splits)
  then show ?thesis by (rule close_effect)
qed

text \<open>A connection that is connecting is owed its request, and its parser only knows statuses of three digits.\<close>

definition conn1_ok :: "'c conn1 \<Rightarrow> bool" where
  "conn1_ok c \<longleftrightarrow> (c1_fd c \<noteq> None \<and> \<not> c1_connected c \<longrightarrow> c1_active c) \<and> status_ok (c1_parser c)"

lemma conn1_ok_same: "same1 c c' \<Longrightarrow> conn1_ok c \<Longrightarrow> conn1_ok c'"
  by (simp add: same1_def conn1_ok_def)

text \<open>
  What handling a completion does to the books: if it ended a request, that request has been counted; otherwise nothing
  has.
\<close>

definition booked :: "'c conn1 \<Rightarrow> stats \<Rightarrow> verdict \<Rightarrow> 'c conn1 \<Rightarrow> stats \<Rightarrow> bool" where
  "booked c s v c' s' \<longleftrightarrow>
     finished_count s' + (if vd_finished v then 0 else of_bool (c1_active c')) = finished_count s + of_bool (c1_active c) \<and>
     status_ok (c1_parser c') \<and> stats_ok s' \<and>
     (if vd_finished v then vd_keep v \<longrightarrow> c1_connected c' else conn1_ok c')"

lemma status_ok_mark_eof: "status_ok p \<Longrightarrow> status_ok (snd (mark_eof p))"
  by (simp add: mark_eof_def status_ok_def)

lemma finish_at_eof_booked:
  assumes "h1_finish_at_eof now c s = (c', s')" "conn1_ok c" "stats_ok s"
  shows "booked c s broken c' s'"
proof -
  obtain whole parser where eof: "mark_eof (c1_parser c) = (whole, parser)" by fastforce
  have "status_ok parser" using status_ok_mark_eof [of "c1_parser c"] eof assms(2) by (simp add: conn1_ok_def)
  moreover from this have "stats_ok (record_success (ps_status parser) t s)" for t
    using assms(3) by (intro record_success_ok) (simp_all add: status_ok_def)
  ultimately show ?thesis using assms eof
    by (auto simp: h1_finish_at_eof_def booked_def conn1_ok_def c1_end_request_def finished_count_def record_success_def
        stats_ok_def Let_def split: if_splits)
qed

lemma fail_request_booked:
  assumes "c1_fail_request c s = (c', s')" "conn1_ok c" "stats_ok s"
  shows "booked c s broken c' s'"
  using assms by (auto simp: c1_fail_request_def booked_def conn1_ok_def c1_end_request_def finished_count_def stats_ok_def split: if_splits)

lemma h1_feed_same:
  assumes "h1_feed env data c = (n, c')" "conn1_ok c"
  shows "c1_active c' = c1_active c \<and> c1_connected c' = c1_connected c \<and> c1_fd c' = c1_fd c \<and> status_ok (c1_parser c')"
proof (cases "c1_tls c")
  case None
  then show ?thesis using assms by (auto simp: h1_feed_def conn1_ok_def dest: parser_feed_status split: sum.splits)
next
  case (Some tls)
  have "sink_keeps (\<lambda>h. status_ok (snd h)) h1_sink"
    by (auto simp: sink_keeps_def h1_sink_def dest: parser_feed_status split: sum.split)
  from feed_into_sink [OF this, of "(0, c1_parser c)"] assms(2)
  have "feed_keeps (\<lambda>h. status_ok (snd h)) (feed_into (e1_rustls env) data h1_sink tls (0, c1_parser c))"
    by (simp add: conn1_ok_def)
  then show ?thesis using Some assms(1) by (auto simp: h1_feed_def feed_keeps_def split: sum.splits)
qed

lemma booked_same:
  assumes "same1 c1 c'" "c1_active c1 = c1_active c" "conn1_ok c1" "stats_ok s'" "finished_count s' = finished_count s"
  shows "booked c s going_on c' s'"
  using assms by (auto simp: booked_def same1_def conn1_ok_def)

lemma on_data_booked:
  assumes h: "h1_on_data env now i data c r s = Inr (v, c', r', s')" and c: "conn1_ok c" "stats_ok s" "c1_connected c"
  shows "booked c s v c' s'"
proof -
  obtain n c1 where feed: "h1_feed env data c = (n, c1)" by fastforce
  note f = h1_feed_same [OF feed c(1)]
  have c1: "conn1_ok c1" "c1_active c1 = c1_active c" using f c by (auto simp: conn1_ok_def)
  consider "n = None" | "n = Some 0" "case c1_tls c1 of None \<Rightarrow> False | Some tls \<Rightarrow> ts_peer_closed tls"
    | "n = Some 0" "\<not> (case c1_tls c1 of None \<Rightarrow> False | Some tls \<Rightarrow> ts_peer_closed tls)" | m where "n = Some m" "m \<noteq> 0"
    by (cases n) auto
  then show ?thesis
  proof cases
    case 1
    then show ?thesis using h feed fail_request_booked [of c1 s c' s'] c(2) c1
      by (auto simp: h1_on_data_def booked_def split: prod.splits)
  next
    case 2
    then show ?thesis using h feed finish_at_eof_booked [of now c1 s c' s'] c(2) c1
      by (auto simp: h1_on_data_def booked_def split: prod.splits)
  next
    case 3
    then obtain c2 r2 where "(if c1_recv_armed c1 then Inr (c1, r) else h1_push_recv env i c1 r) = Inr (c2, r2)"
      "h1_flush env now i c2 r2 = Inr (c', r')" "v = going_on" "s' = s"
      using h feed by (auto simp: h1_on_data_def)
    moreover from this have "same1 c1 c2" by (auto simp: same1_def dest!: push_recv_same split: if_splits)
    ultimately show ?thesis using flush_same same1_trans c1 c(2) by (blast intro: booked_same)
  next
    case 4
    have "stats_ok (record_success (ps_status (c1_parser c1)) t s)" for t
      using f c(2) by (intro record_success_ok) (auto simp: status_ok_def)
    then show ?thesis using h feed 4 f c
      by (auto simp: h1_on_data_def booked_def conn1_ok_def finished_count_def record_success_def split: if_splits)
  qed
qed

lemma on_recv_booked:
  assumes h: "h1_on_recv env now i e c r s = Inr (v, c', r', s')" and c: "conn1_ok c" "stats_ok s" "c1_connected c"
  shows "booked c s v c' s'"
proof -
  define c1 where "c1 = (if cq_more e then c else c\<lparr>c1_recv_armed := False\<rparr>)"
  have c1: "conn1_ok c1" "c1_connected c1" "c1_active c1 = c1_active c" using c by (auto simp: c1_def conn1_ok_def)
  have eq: "booked c s v c' s' = booked c1 s v c' s'" using c1 by (simp add: booked_def)
  let ?s = "s\<lparr>st_bytes_received := st_bytes_received s + nat (cq_result e)\<rparr>"
  have s: "stats_ok ?s" "booked c1 ?s v c' s' = booked c1 s v c' s'"
    using c(2) by (simp_all add: stats_ok_def booked_def finished_count_def)
  let ?r = "recycle_buffer (cq_buffer e) r"
  consider "cq_result e < 0" "cq_result e = - ENOBUFS" | "cq_result e < 0" "cq_result e \<noteq> - ENOBUFS" | "cq_result e = 0" | "cq_result e > 0"
    by linarith
  then show ?thesis
  proof cases
    case 1
    then obtain r2 where "h1_push_recv env i c1 ?r = Inr (c', r2)" "v = going_on" "s' = s"
      using h by (auto simp: h1_on_recv_def Let_def c1_def [symmetric])
    then show ?thesis using push_recv_same c1 c(2) by (blast intro: booked_same)
  next
    case 2
    then show ?thesis using h fail_request_booked [OF _ c1(1) c(2), of c' s'] eq
      by (auto simp: h1_on_recv_def Let_def c1_def [symmetric] split: prod.splits)
  next
    case 3
    then show ?thesis using h finish_at_eof_booked [OF _ c1(1) c(2), of now c' s'] eq
      by (auto simp: h1_on_recv_def Let_def c1_def [symmetric] split: prod.splits)
  next
    case 4
    then have "h1_on_data env now i (take (nat (cq_result e)) (cq_bytes e)) c1 ?r ?s = Inr (v, c', r', s')"
      using h by (auto simp: h1_on_recv_def Let_def c1_def [symmetric] split: if_splits)
    from on_data_booked [OF this c1(1) s(1) c1(2)] show ?thesis using s(2) eq by simp
  qed
qed

lemma on_send_booked:
  assumes h: "h1_on_send env now i res c r s = Inr (v, c', r', s')" and c: "conn1_ok c" "stats_ok s"
  shows "booked c s v c' s'"
proof (cases "res < 0")
  case True
  then show ?thesis using h fail_request_booked [OF _ c, of c' s'] by (auto simp: h1_on_send_def split: prod.splits)
next
  case False
  let ?s = "s\<lparr>st_bytes_sent := st_bytes_sent s + nat res\<rparr>"
  define c1 where "c1 = c\<lparr>c1_out_off := c1_out_off c + nat res\<rparr>"
  have s: "stats_ok ?s" "finished_count ?s = finished_count s" using c(2) by (simp_all add: stats_ok_def finished_count_def)
  have c1: "same1 c c1" by (simp add: c1_def same1_def)
  show ?thesis
  proof (cases "c1_out_off c1 < length (c1_outbound c1 (e1_request env))")
    case True
    then have "v = going_on" "c' = c1" "s' = ?s" using h False by (auto simp: h1_on_send_def Let_def c1_def)
    then show ?thesis using booked_same [OF c1, of c] s c by simp
  next
    case out: False
    define c2 where "c2 = (if c1_queued c1 then c1\<lparr>c1_sending := False, c1_queued := False, c1_out_off := 0\<rparr> else c1\<lparr>c1_sending := False\<rparr>)"
    have "same1 c c2" using c1 by (simp add: c2_def same1_def)
    moreover obtain c3 r3 where "h1_flush env now i c2 r = Inr (c3, r3)"
      "(if c1_recv_armed c3 then Inr (c3, r3) else h1_push_recv env i c3 r3) = Inr (c', r')" "v = going_on" "s' = ?s"
    proof -
      have "rbind (h1_flush env now i c2 r) (\<lambda>(c, r).
          rbind (if c1_recv_armed c then Inr (c, r) else h1_push_recv env i c r) (\<lambda>(c, r). Inr (going_on, c, r, ?s))) = Inr (v, c', r', s')"
        using h False out unfolding h1_on_send_def Let_def c1_def [symmetric] c2_def by simp
      then show thesis using that by auto
    qed
    moreover from this have "same1 c3 c'" by (auto simp: same1_def dest!: push_recv_same split: if_splits)
    ultimately have "same1 c c'" using flush_same same1_trans by blast
    then show ?thesis using booked_same [of c c' c ?s s] s c \<open>v = going_on\<close> \<open>s' = ?s\<close> by simp
  qed
qed

lemma on_connect_booked:
  assumes h: "h1_on_connect env now i res c r s = Inr (v, c', r', s')" and c: "conn1_ok c" "stats_ok s" "c1_active c"
  shows "booked c s v c' s'"
proof (cases "res < 0")
  case True
  then show ?thesis using h c
    by (auto simp: h1_on_connect_def booked_def conn1_ok_def finished_count_def stats_ok_def)
next
  case False
  define c1 where "c1 = c\<lparr>c1_connected := True\<rparr>"
  obtain c2 r2 c3 where recv: "h1_push_recv env i c1 r = Inr (c2, r2)"
    and tls: "(case e1_tls env of None \<Rightarrow> Inr c2 | Some setup \<Rightarrow>
      (case setup (ur_calls r2) of None \<Rightarrow> Inl Tls_setup_failed | Some conn \<Rightarrow> Inr (c2\<lparr>c1_tls := Some (tls_new conn)\<rparr>))) = Inr c3"
    and queue: "h1_queue_and_flush_request env now i (c1_begin_request (e1_timeout env) now c3) r2 = Inr (c', r')"
    and v: "v = going_on" "s' = s"
    using h False unfolding h1_on_connect_def Let_def c1_def by auto
  have "same1 c1 c2" by (rule push_recv_same [OF recv])
  moreover have "same1 c2 c3" using tls by (auto simp: same1_def split: option.splits)
  ultimately have c3: "same1 c1 c3" by (rule same1_trans)
  have "same1 (c1_begin_request (e1_timeout env) now c3) c'" by (rule queue_and_flush_same [OF queue])
  moreover have "conn1_ok (c1_begin_request (e1_timeout env) now c3)" "c1_active (c1_begin_request (e1_timeout env) now c3) = c1_active c"
    using c c3 by (auto simp: c1_begin_request_def same1_def conn1_ok_def c1_def)
  ultimately show ?thesis unfolding v using booked_same c(2) by blast
qed

text \<open>
  What is relied on of the kernel: a connect completes once, while the connection is connecting, and what a socket sends
  and receives completes only once it is connected.
\<close>

definition cqe_ok1 :: "'c worker1 \<Rightarrow> cqe \<Rightarrow> bool" where
  "cqe_ok1 w e \<longleftrightarrow>
     (let (op, i, g) = decode_user_data (cq_user_data e) in
      cq_user_data e \<noteq> TIMEOUT_USER_DATA \<and> i < length (w1_conns w) \<and> g = c1_generation (w1_conns w ! i) \<longrightarrow>
        (if op = OP_CONNECT then c1_fd (w1_conns w ! i) \<noteq> None \<and> \<not> c1_connected (w1_conns w ! i)
         else op = OP_SEND \<or> op = OP_RECV \<longrightarrow> c1_connected (w1_conns w ! i)))"

lemma handle_booked:
  assumes h: "h1_handle env now op i e c r s = Inr (v, c', r', s')" and c: "conn1_ok c" "stats_ok s"
    and ok: "if op = OP_CONNECT then c1_fd c \<noteq> None \<and> \<not> c1_connected c else op = OP_SEND \<or> op = OP_RECV \<longrightarrow> c1_connected c"
  shows "booked c s v c' s'"
proof -
  have "c1_active c" if "op = OP_CONNECT" using that ok c by (auto simp: conn1_ok_def)
  moreover have "booked c s going_on c s" using c by (auto simp: booked_def conn1_ok_def)
  ultimately show ?thesis using h c ok on_connect_booked [of env now i _ c r s v c' r' s'] on_send_booked [of env now i _ c r s v c' r' s']
      on_recv_booked [of env now i e c r s v c' r' s']
    unfolding h1_handle_def by (auto split: if_splits)
qed

lemma next_request_effect:
  assumes h: "h1_next_request env now i keep c w = Inr (go, c', w')" and c: "status_ok (c1_parser c)" "keep \<longrightarrow> c1_connected c"
  shows "w1_started w' = w1_started w + of_bool (c1_active c') \<and> w1_stats w' = w1_stats w \<and> w1_conns w' = w1_conns w \<and>
    conn1_ok c' \<and> (c1_active c' \<longrightarrow> may_start (e1_budget env) (w1_started w))"
proof -
  define c0 where "c0 = c1_end_request c"
  define c1 where "c1 = c1_begin_request (e1_timeout env) now c0"
  note n = h [unfolded h1_next_request_def Let_def, folded c0_def, folded c1_def]
  have c0: "\<not> c1_active c0" "c1_connected c0 = c1_connected c" "c1_parser c0 = c1_parser c"
    and c1: "c1_active c1" "c1_parser c1 = c1_parser c" by (simp_all add: c0_def c1_def c1_end_request_def c1_begin_request_def)
  consider "\<not> w1_stop w" "may_start (e1_budget env) (w1_started w)" keep
    | "\<not> w1_stop w" "may_start (e1_budget env) (w1_started w)" "\<not> keep"
    | "w1_stop w \<or> \<not> may_start (e1_budget env) (w1_started w)" "\<not> keep"
    | "w1_stop w \<or> \<not> may_start (e1_budget env) (w1_started w)" keep by blast
  then show ?thesis
  proof cases
    case 1
    then obtain c2 r2 r3 where "(if c1_recv_armed c1 then Inr (c1, w1_ring w) else h1_push_recv env i c1 (w1_ring w)) = Inr (c2, r2)"
      "h1_queue_and_flush_request env now i c2 r2 = Inr (c', r3)" "w' = w\<lparr>w1_started := w1_started w + 1, w1_ring := r3\<rparr>"
      using n 1 by (auto cong: if_cong)
    moreover from this have "same1 c1 c2" by (auto simp: same1_def dest!: push_recv_same split: if_splits)
    ultimately have "same1 c1 c'" "w' = w\<lparr>w1_started := w1_started w + 1, w1_ring := r3\<rparr>"
      using queue_and_flush_same same1_trans by blast+
    then show ?thesis using 1 c c1 by (auto simp: same1_def conn1_ok_def)
  next
    case 2
    then obtain r3 where re: "h1_reconnect env i c1 (w1_ring w) = Inr (go, c', r3)" "w' = w\<lparr>w1_started := w1_started w + 1, w1_ring := r3\<rparr>"
      using n by auto
    obtain c2 r2 where ret: "h1_retire env c1 (w1_ring w) = Some (c2, r2)" using re(1) by (auto simp: h1_reconnect_def)
    have "status_ok (parser_reset (c1_parser c2))" by (simp add: status_ok_def parser_reset_def)
    then have "c1_active c' \<and> conn1_ok c'"
      using re(1) ret retire_effect [OF ret] c1 by (auto simp: h1_reconnect_def Let_def conn1_ok_def split: option.splits)
    then show ?thesis using re(2) 2 by simp
  next
    case 3
    then obtain r3 where "h1_retire env c0 (w1_ring w) = Some (c', r3)" "w' = w\<lparr>w1_ring := r3\<rparr>"
      using n by auto
    then show ?thesis using retire_effect [of env c0 "w1_ring w" c' r3] c c0 by (auto simp: conn1_ok_def)
  next
    case 4
    then have "c' = c0" "w' = w" using n by auto
    then show ?thesis using c c0 4 by (auto simp: conn1_ok_def)
  qed
qed

text \<open>
  The books of a worker: what has finished, with either result, and what is still owed make up what was started; a
  counted run never starts more than its budget; the status table sums to what completed.
\<close>

definition inv1 :: "'c env1 \<Rightarrow> 'c worker1 \<Rightarrow> bool" where
  "inv1 env w \<longleftrightarrow>
     finished_count (w1_stats w) + (\<Sum>c\<leftarrow>w1_conns w. of_bool (c1_active c)) = w1_started w \<and>
     (\<forall>c \<in> set (w1_conns w). conn1_ok c) \<and> stats_ok (w1_stats w) \<and>
     (\<forall>n. e1_budget env = Requests n \<longrightarrow> w1_started w \<le> n)"

lemma completion_inv:
  assumes w: "inv1 env w" and law: "cqe_ok1 w e" and h: "h1_completion env now e w = Inr (go, w')"
  shows "inv1 env w'"
proof (cases "cq_user_data e = TIMEOUT_USER_DATA")
  case True
  then show ?thesis using h w by (auto simp: h1_completion_def inv1_def)
next
  case False
  obtain op i g where d: "decode_user_data (cq_user_data e) = (op, i, g)" by (metis prod_cases3)
  define c where "c = w1_conns w ! i"
  have i: "i < length (w1_conns w)" using h False d by (auto simp: h1_completion_def split: if_splits)
  show ?thesis
  proof (cases "g = c1_generation c")
    case stale: False
    then show ?thesis using h w False d i by (auto simp: h1_completion_def c_def inv1_def)
  next
    case True
    have c: "conn1_ok c" "stats_ok (w1_stats w)" using w i by (auto simp: inv1_def c_def)
    obtain v c1 r1 s1 where handle: "h1_handle env now op i e c (w1_ring w) (w1_stats w) = Inr (v, c1, r1, s1)"
      using h False d i True by (auto simp: h1_completion_def c_def)
    have "booked c (w1_stats w) v c1 s1"
      using law d i False True by (intro handle_booked [OF handle c]) (simp add: cqe_ok1_def c_def)
    note b = this [unfolded booked_def]
    have sum: "(\<Sum>c\<leftarrow>(w1_conns w)[i := x]. of_bool (c1_active c)) + of_bool (c1_active c)
        = (\<Sum>c\<leftarrow>w1_conns w. of_bool (c1_active c)) + (of_bool (c1_active x) :: nat)" for x
      using sum_list_update_add [OF i, of "\<lambda>c. of_bool (c1_active c)" x] by (simp add: c_def)
    have conns: "\<forall>d \<in> set ((w1_conns w)[i := x]). conn1_ok d" if "conn1_ok x" for x
      using w that set_update_subset_insert [of "w1_conns w" i x] by (auto simp: inv1_def)
    let ?w = "w\<lparr>w1_ring := r1, w1_stats := s1\<rparr>"
    show ?thesis
    proof (cases "vd_finished v")
      case fin: True
      then obtain c2 w2 where nxt: "h1_next_request env now i (vd_keep v) c1 ?w = Inr (go, c2, w2)"
        and w': "w' = w2\<lparr>w1_conns := (w1_conns w2)[i := c2]\<rparr>"
        using h False d i True handle by (auto simp: h1_completion_def c_def)
      have "w1_started w2 = w1_started w + of_bool (c1_active c2)" "w1_stats w2 = s1" "w1_conns w2 = w1_conns w" "conn1_ok c2"
        "c1_active c2 \<longrightarrow> may_start (e1_budget env) (w1_started w)"
        using next_request_effect [OF nxt] b fin by auto
      then show ?thesis using w w' b fin sum [of c2] conns [of c2] by (auto simp: inv1_def)
    next
      case fin: False
      then have w': "w' = ?w\<lparr>w1_conns := (w1_conns w)[i := c1]\<rparr>"
        using h False d i True handle by (auto simp: h1_completion_def c_def)
      then show ?thesis using w b fin sum [of c1] conns [of c1] by (auto simp: inv1_def)
    qed
  qed
qed

lemma inv1_replace:
  assumes "inv1 env w" "i < length (w1_conns w)" "conn1_ok c" "w1_conns w' = (w1_conns w)[i := c]" "stats_ok (w1_stats w')"
    "finished_count (w1_stats w') + of_bool (c1_active c) + w1_started w
       = finished_count (w1_stats w) + of_bool (c1_active (w1_conns w ! i)) + w1_started w'"
    "\<forall>n. e1_budget env = Requests n \<longrightarrow> w1_started w' \<le> n"
  shows "inv1 env w'"
proof -
  have "\<forall>d \<in> set ((w1_conns w)[i := c]). conn1_ok d"
    using assms(1,3) set_update_subset_insert [of "w1_conns w" i c] by (auto simp: inv1_def)
  moreover have "(\<Sum>c\<leftarrow>(w1_conns w)[i := c]. of_bool (c1_active c)) + of_bool (c1_active (w1_conns w ! i))
      = (\<Sum>c\<leftarrow>w1_conns w. of_bool (c1_active c)) + (of_bool (c1_active c) :: nat)"
    using sum_list_update_add [OF assms(2), of "\<lambda>c. of_bool (c1_active c)" c] by simp
  ultimately show ?thesis using assms by (auto simp: inv1_def)
qed

lemma may_start_bound: "may_start b n \<Longrightarrow> b = Requests m \<Longrightarrow> n + 1 \<le> m"
  by simp

lemma expire_one_inv:
  assumes w: "inv1 env w" and i: "i < length (w1_conns w)" and h: "h1_expire_one env now i w = Inr (go, w')"
  shows "inv1 env w' \<and> length (w1_conns w') = length (w1_conns w)"
proof (cases "case c1_deadline (w1_conns w ! i) of None \<Rightarrow> False | Some d \<Rightarrow> now \<ge> d")
  case False
  then have "w' = w" using h unfolding h1_expire_one_def Let_def by simp
  then show ?thesis using w by simp
next
  case due: True
  define c where "c = w1_conns w ! i"
  have c: "conn1_ok c" using w i by (auto simp: inv1_def c_def)
  obtain c1 s1 where fail: "c1_fail_request c (w1_stats w) = (c1, s1)" by fastforce
  have s1: "stats_ok s1" "finished_count s1 = finished_count (w1_stats w) + of_bool (c1_active c)" "\<not> c1_active c1"
    using fail_request_booked [OF fail c] w fail by (auto simp: inv1_def booked_def c1_fail_request_def c1_end_request_def split: if_splits)
  obtain c2 r2 where ret: "h1_retire env c1 (w1_ring w) = Some (c2, r2)"
    using h due fail unfolding h1_expire_one_def Let_def c_def [symmetric] by auto
  define c3 where "c3 = c2\<lparr>c1_parser := parser_reset (c1_parser c2)\<rparr>"
  have c3: "c1_fd c3 = None" "\<not> c1_active c3" "conn1_ok c3" "conn1_ok (c1_begin_request None now c3)"
    "conn1_ok ((c1_begin_request None now c3)\<lparr>c1_fd := Some fd\<rparr>)" for fd
    using retire_effect [OF ret] s1(3)
    by (auto simp: c3_def conn1_ok_def status_ok_def parser_reset_def c1_begin_request_def)
  note step = h [unfolded h1_expire_one_def Let_def, folded c_def, unfolded fail prod.case]
  have bound: "\<forall>n. e1_budget env = Requests n \<longrightarrow> w1_started w \<le> n" using w by (simp add: inv1_def)
  show ?thesis
  proof (cases "w1_stop w \<or> \<not> may_start (e1_budget env) (w1_started w)")
    case True
    then have "w' = w\<lparr>w1_stats := s1, w1_ring := r2, w1_conns := (w1_conns w)[i := c3]\<rparr>"
      using step due [folded c_def] ret by (simp add: c3_def)
    then show ?thesis using inv1_replace [OF w i c3(3), of w'] s1 c3(2) bound by (simp add: c_def)
  next
    case False
    let ?b = "c1_begin_request None now c3"
    have act: "c1_active ?b" by (simp add: c1_begin_request_def)
    have more: "\<forall>n. e1_budget env = Requests n \<longrightarrow> w1_started w + 1 \<le> n" using False may_start_bound by blast
    show ?thesis
    proof (cases "start_connect (e1_io env) i (c1_generation ?b) r2")
      case None
      then have "w' = w\<lparr>w1_stats := s1, w1_ring := r2, w1_started := w1_started w + 1, w1_conns := (w1_conns w)[i := ?b]\<rparr>"
        using step due [folded c_def] ret False by (simp add: c3_def)
      then show ?thesis using inv1_replace [OF w i c3(4), of w'] s1 act more by (simp add: c_def)
    next
      case (Some x)
      obtain fd r where x: "x = (fd, r)" by (cases x)
      then have "w' = w\<lparr>w1_stats := s1, w1_started := w1_started w + 1, w1_conns := (w1_conns w)[i := ?b\<lparr>c1_fd := Some fd\<rparr>], w1_ring := r\<rparr>"
        using step due [folded c_def] ret False Some by (simp add: c3_def)
      then show ?thesis using inv1_replace [OF w i c3(5) [of fd], of w'] s1 act more by (simp add: c_def)
    qed
  qed
qed

lemma expire_inv:
  assumes "inv1 env w" "\<forall>i \<in> set is. i < length (w1_conns w)" "h1_expire env now is w = Inr (go, w')"
  shows "inv1 env w'"
proof -
  let ?P = "\<lambda>v. inv1 env v \<and> length (w1_conns v) = length (w1_conns w)"
  have "?P w'"
  proof (rule worker_loop_keeps [of "is" ?P "\<lambda>_ _. True", OF _ _ lawful_loop_trivial assms(3) [unfolded h1_expire_def]])
    fix i v go v' assume "i \<in> set is" "?P v" "h1_expire_one env now i v = Inr (go, v')"
    then show "?P v'" using expire_one_inv [of env v i now go v'] assms(2) by simp
  qed (use assms(1) in simp)
  then show ?thesis ..
qed

lemma connect_all_inv:
  "inv1 env w \<Longrightarrow> \<forall>i \<in> set is. i < length (w1_conns w) \<and> \<not> c1_active (w1_conns w ! i) \<Longrightarrow> distinct is \<Longrightarrow>
     h1_connect_all env now is w = Inr w' \<Longrightarrow> inv1 env w'"
proof (induction "is" arbitrary: w)
  case (Cons i "is")
  show ?case
  proof (cases "may_start (e1_budget env) (w1_started w)")
    case False
    then show ?thesis using Cons.prems by (simp add: h1_connect_one_def)
  next
    case True
    define c where "c = c1_begin_request (e1_timeout env) now (w1_conns w ! i)"
    obtain fd r where conn: "start_connect (e1_io env) i (c1_generation c) (w1_ring w) = Some (fd, r)"
      using Cons.prems(4) True by (auto simp: h1_connect_one_def Let_def c_def)
    let ?w = "w\<lparr>w1_started := w1_started w + 1, w1_conns := (w1_conns w)[i := c\<lparr>c1_fd := Some fd\<rparr>], w1_ring := r\<rparr>"
    have "h1_connect_one env now i w = Inr (True, ?w)" using True conn by (simp add: h1_connect_one_def Let_def c_def)
    then have rest: "h1_connect_all env now is ?w = Inr w'" using Cons.prems(4) by simp
    have "conn1_ok (c\<lparr>c1_fd := Some fd\<rparr>)" using Cons.prems(1,2) by (auto simp: inv1_def conn1_ok_def c_def c1_begin_request_def)
    moreover have "\<forall>n. e1_budget env = Requests n \<longrightarrow> w1_started w + 1 \<le> n" using True may_start_bound by blast
    moreover have "stats_ok (w1_stats w)" using Cons.prems(1) by (simp add: inv1_def)
    moreover have "c1_active c" "\<not> c1_active (w1_conns w ! i)" "i < length (w1_conns w)"
      using Cons.prems(2) by (simp_all add: c_def c1_begin_request_def)
    ultimately have "inv1 env ?w" using inv1_replace [OF Cons.prems(1), of i "c\<lparr>c1_fd := Some fd\<rparr>" ?w] by simp
    moreover have "\<forall>k \<in> set is. (w1_conns w)[i := c\<lparr>c1_fd := Some fd\<rparr>] ! k = w1_conns w ! k"
      using Cons.prems(3) by (metis distinct.simps(2) nth_list_update_neq)
    ultimately show ?thesis using Cons.IH [OF _ _ _ rest] Cons.prems(2,3) by simp
  qed
qed simp

lemma setup_inv: "inv1 env ((h1_setup env now n bufs)\<lparr>w1_ring := r\<rparr>)"
  by (simp add: inv1_def h1_setup_def finished_count_def stats_default_def stats_ok_def conn1_ok_def conn1_new_def
      status_ok_def set_head_request_def parser_new_def sum_list_replicate map_replicate_const)

lemma start_inv:
  assumes h: "h1_start env now n bufs = Inr w"
  shows "inv1 env w"
proof -
  obtain r where "h1_connect_all env now [0..<n] ((h1_setup env now n bufs)\<lparr>w1_ring := r\<rparr>) = Inr w"
    using h by (auto simp: h1_start_def Let_def)
  then show ?thesis by (rule connect_all_inv [OF setup_inv, rotated 2]) (auto simp: h1_setup_def conn1_new_def)
qed

text \<open>
  A run is lawful when every completion is one of an operation that the connection it names has outstanding: the result of
  a connect comes while the connect is under way, those of sends and receives once it has succeeded. Completions of an
  earlier generation may come at any time.
\<close>

definition lawful_round1 :: "'c env1 \<Rightarrow> nat \<times> bool \<times> cqe list \<Rightarrow> 'c worker1 \<Rightarrow> bool" where
  "lawful_round1 env turn w \<longleftrightarrow>
     (let (now, shutdown, es) = turn in
      case ring_call (e1_io env) (w1_ring w) of
        None \<Rightarrow> True
      | Some r \<Rightarrow>
          (case (if e1_timeout env = None then Inr (True, w\<lparr>w1_ring := r\<rparr>)
                 else h1_expire env now [0..<length (w1_conns w)] (w\<lparr>w1_ring := r\<rparr>)) of
             Inr (True, w') \<Rightarrow> lawful_loop (h1_completion env now) (\<lambda>e w. cqe_ok1 w e) es w'
           | _ \<Rightarrow> True))"

lemma completions_inv:
  assumes "inv1 env w" "lawful_loop (h1_completion env now) (\<lambda>e w. cqe_ok1 w e) es w" "h1_completions env now es w = Inr (go, w')"
  shows "inv1 env w'"
  by (rule worker_loop_keeps [of es "inv1 env", OF completion_inv assms(1,2) assms(3) [unfolded h1_completions_def]])

lemma round_inv:
  assumes w: "inv1 env w" and law: "lawful_round1 env turn w" and h: "h1_round env turn w = Inr (go, w')"
  shows "inv1 env w'"
proof -
  obtain now shutdown es where t: "turn = (now, shutdown, es)" by (cases turn)
  show ?thesis
  proof (cases "is_met (e1_budget env) (st_completed (w1_stats w) + st_errors (w1_stats w)) \<or> shutdown")
    case True
    then show ?thesis using h w t by (auto simp: h1_round_def split: if_splits)
  next
    case False
    then obtain r where call: "ring_call (e1_io env) (w1_ring w) = Some r" using h t by (auto simp: h1_round_def)
    define x where "x = (if e1_timeout env = None then Inr (True, w\<lparr>w1_ring := r\<rparr>)
                 else h1_expire env now [0..<length (w1_conns w)] (w\<lparr>w1_ring := r\<rparr>))"
    have next1: "rbind x (\<lambda>(go, w). if \<not> go then Inr (False, w)
        else rbind (h1_completions env now es w) (\<lambda>(go, w). Inr (go \<and> \<not> w1_stop w, w))) = Inr (go, w')"
      using h False call unfolding h1_round_def t x_def by simp
    obtain g w1 where expired: "x = Inr (g, w1)" using next1 by auto
    obtain g2 where rest: "if g then h1_completions env now es w1 = Inr (g2, w') else w' = w1"
      using next1 expired by (cases g) auto
    have w1: "inv1 env w1"
    proof (rule expire_inv [where w = "w\<lparr>w1_ring := r\<rparr>"])
      show "inv1 env (w\<lparr>w1_ring := r\<rparr>)" using w by (simp add: inv1_def)
      show "h1_expire env now (if e1_timeout env = None then [] else [0..<length (w1_conns w)]) (w\<lparr>w1_ring := r\<rparr>) = Inr (g, w1)"
        using expired by (auto simp: x_def h1_expire_def split: if_splits)
    qed auto
    have "g \<Longrightarrow> lawful_loop (h1_completion env now) (\<lambda>e w. cqe_ok1 w e) es w1"
      using law expired call by (simp add: lawful_round1_def t x_def [symmetric])
    then show ?thesis using rest w1 completions_inv [OF w1, of now es g2 w'] by (cases g) auto
  qed
qed

interpretation h1_books: worker_books e1_budget w1_stats w1_started "\<lambda>w. length (filter c1_active (w1_conns w))" inv1
  h1_round lawful_round1
proof
  fix env :: "'a env1" and w :: "'a worker1" and n
  assume w: "inv1 env w"
  then show "finished_count (w1_stats w) + length (filter c1_active (w1_conns w)) = w1_started w \<and> stats_ok (w1_stats w)"
    by (simp add: inv1_def sum_of_bool_filter)
  show "w1_started w \<le> n" if "e1_budget env = Requests n" using w that by (simp add: inv1_def)
qed (rule round_inv)

section \<open>Every request is accounted for\<close>

text \<open>
  C2. However the kernel completes the operations, after any number of turns of the loop every request the worker has started
  is a completed one, an error, or owed by a connection that is waiting for its response, and exactly one of these; no
  more are started than were asked for; the latencies and the status table hold one entry per completed request. A worker
  that stops because its requests are done has counted exactly those asked for, and no connection owes one.
\<close>

theorem h1_requests_accounted:
  assumes "h1_start env now n bufs = Inr w0" "lawful_loop (h1_round env) (lawful_round1 env) turns w0" "h1_loop env turns w0 = Inr (go, w)"
  defines "finished \<equiv> st_completed (w1_stats w) + st_errors (w1_stats w)"
    and "owed \<equiv> length (filter c1_active (w1_conns w))"
  shows "finished + owed = w1_started w \<and> stats_ok (w1_stats w) \<and>
    (\<forall>m. e1_budget env = Requests m \<longrightarrow> w1_started w \<le> m \<and> (is_met (e1_budget env) finished \<longrightarrow> finished = m \<and> owed = 0))"
  using h1_books.accounted [OF start_inv [OF assms(1)] assms(2) assms(3) [unfolded h1_loop_def]]
  by (simp add: finished_def owed_def finished_count_def)

definition h1_request :: bytes where
  "h1_request = ascii ''GET / HTTP/1.1'' @ [13, 10, 13, 10]"

definition h1_sample_env :: "(bytes \<times> bytes) env1" where
  "h1_sample_env =
     \<lparr>e1_request = h1_request, e1_is_head = False, e1_disable_keepalive = False, e1_tls = None,
      e1_rustls = sample_rustls, e1_full = False, e1_budget = Requests 2, e1_timeout = None,
      e1_io = \<lparr>io_ok = (\<lambda>n. True), io_fd = (\<lambda>n. n)\<rparr>\<rparr>"

text \<open>
  One connection, two requests: the connect succeeds, the first request goes out and is answered, the second meets the end
  of the connection.
\<close>

definition h1_sample_bufs :: buf_ring where
  "h1_sample_bufs = \<lparr>br_entries = 1, br_mask = 0, br_tail = 1, br_buffer_size = 100, br_slots = [0]\<rparr>"

definition h1_answer :: bytes where
  "h1_answer = ascii ''HTTP/1.1 204 X'' @ [13, 10, 13, 10]"

definition h1_sample_turns :: "(nat \<times> bool \<times> cqe list) list" where
  "h1_sample_turns =
     ([(5, False, [\<lparr>cq_user_data = user_data 0 0 OP_CONNECT, cq_result = 0, cq_buffer = None, cq_more = False, cq_bytes = []\<rparr>]),
       (6, False, [\<lparr>cq_user_data = user_data 0 0 OP_SEND, cq_result = 18, cq_buffer = None, cq_more = False, cq_bytes = []\<rparr>]),
       (9, False, [\<lparr>cq_user_data = user_data 0 0 OP_RECV, cq_result = 18, cq_buffer = Some 0, cq_more = True,
                    cq_bytes = h1_answer\<rparr>]),
       (12, False, [\<lparr>cq_user_data = user_data 0 0 OP_RECV, cq_result = 0, cq_buffer = None, cq_more = False, cq_bytes = []\<rparr>]),
       (13, False, [])])"

lemma h1_sample_answer:
  "parser_feed h1_answer parser_new = Inr (1, parser_new\<lparr>ps_status := 204\<rparr>)" "length h1_answer = 18" "length h1_request = 18"
    "set_head_request False parser_new = parser_new"
    "mark_eof (parser_new\<lparr>ps_status := n\<rparr>) = (False, parser_new\<lparr>ps_status := n\<rparr>)" "ps_keep_alive parser_new" "\<not> ps_head_request parser_new"
  by (simp_all add: h1_answer_def h1_request_def set_head_request_def mark_eof_def three_digits_def parser_feed_def parser_new_def parser_run.simps parser_turn_def head_turn_def scan_head_def head_lines.simps
      split_line.simps trim_cr_def status_line_def parse_status_def is_ascii_digit_def ascii_def finish_head_def
      is_informational_def no_body_status_def body_turn.simps Let_def)

lemmas h1_eval = h1_loop_def h1_completions_def h1_expire_def h1_start_def h1_setup_def h1_sample_env_def h1_round_def h1_completion_def h1_handle_def h1_on_connect_def
  h1_on_send_def h1_on_recv_def h1_on_data_def h1_feed_def h1_next_request_def h1_reconnect_def h1_push_recv_def
  h1_finish_at_eof_def h1_queue_and_flush_request_def h1_flush_def h1_queue_request_def h1_submit_tls_output_def
  h1_retire_def c1_close_def c1_io_quiescent_def c1_begin_request_def c1_end_request_def c1_fail_request_def
  c1_mark_sent_def c1_outbound_def c1_send_close_notify_def lift_ring_def h1_connect_one_def conn1_new_def
  arm_deadline_def start_connect_def push_send_slice_def push_recv_single_def push_recv_multi_def push_sqe_def ring_call_def
  recycle_buffer_def h1_sample_bufs_def buf_recycle_def push_entry_def next_generation_eq
  decode_user_data_def user_data_def CONN_IDX_BITS_def OP_CONNECT_def OP_SEND_def OP_RECV_def OP_CONNECT_TIMEOUT_def
  TIMEOUT_USER_DATA_def stats_default_def record_success_def Let_def h1_sample_answer

lemma h1_sample_run:
  "\<exists>w0 w. h1_start h1_sample_env 3 1 h1_sample_bufs = Inr w0 \<and> lawful_loop (h1_round h1_sample_env) (lawful_round1 h1_sample_env) h1_sample_turns w0 \<and>
     h1_loop h1_sample_env h1_sample_turns w0 = Inr (False, w) \<and> st_completed (w1_stats w) = 1 \<and> w1_started w = 2"
proof -
  have "case h1_start h1_sample_env 3 1 h1_sample_bufs of Inl _ \<Rightarrow> False | Inr w0 \<Rightarrow> lawful_loop (h1_round h1_sample_env) (lawful_round1 h1_sample_env) h1_sample_turns w0 \<and>
     (case h1_loop h1_sample_env h1_sample_turns w0 of Inl _ \<Rightarrow> False
      | Inr (go, w) \<Rightarrow> \<not> go \<and> st_completed (w1_stats w) = 1 \<and> w1_started w = 2)"
    by (simp add: h1_eval h1_sample_turns_def lawful_round1_def cqe_ok1_def)
  then show ?thesis by (auto split: sum.splits)
qed

theorem h1_requests_accounted_witness:
  "\<exists>w0 w. h1_start h1_sample_env 3 1 h1_sample_bufs = Inr w0 \<and> h1_loop h1_sample_env h1_sample_turns w0 = Inr (False, w) \<and>
     st_completed (w1_stats w) = 1 \<and> st_errors (w1_stats w) + length (filter c1_active (w1_conns w)) = 1 \<and>
     length (st_latencies_ns (w1_stats w)) = 1"
proof -
  obtain w0 w where run: "h1_start h1_sample_env 3 1 h1_sample_bufs = Inr w0" "lawful_loop (h1_round h1_sample_env) (lawful_round1 h1_sample_env) h1_sample_turns w0"
    "h1_loop h1_sample_env h1_sample_turns w0 = Inr (False, w)" and w: "st_completed (w1_stats w) = 1" "w1_started w = 2"
    using h1_sample_run by blast
  show ?thesis using h1_requests_accounted [OF run] run(1,3) w by (auto simp: stats_ok_def)
qed

end
