(* ===== verification/H2_Worker.thy ===== *)
theory H2_Worker
  imports Status_Table Worker Pending Target
begin

text \<open>
  The HTTP/2 worker (\<open>http2.rs\<close>): its connections, what it does with every completion, its loop from the first connects to
  the farewell, and the accounting of requests, which here may be given back by the peer and sent again. The kernel, the
  clock and rustls are as for the HTTP/1.1 worker.
\<close>

section \<open>Connections\<close>

record in_flight =
  if_start :: nat
  if_status :: nat

record 'c conn2 =
  c2_fd :: "nat option"
  c2_connected :: bool
  c2_h2 :: "h2_conn option"
  c2_tls :: "'c tls_session option"
  c2_out :: bytes
  c2_out_off :: nat
  c2_sending :: bool
  c2_recv_armed :: bool
  c2_goaway :: bool
  c2_generation :: nat
  c2_streams :: "in_flight ring"
  c2_answered :: nat
  c2_held :: nat
  c2_idle_since :: nat

record 'c env2 =
  e2_block :: bytes
  e2_body :: bytes
  e2_tls :: "(nat \<Rightarrow> 'c option) option"
  e2_rustls :: "'c rustls"
  e2_full :: bool
  e2_budget :: budget
  e2_timeout :: "nat option"
  e2_parallel :: nat
  e2_io :: ring_io

record 'c worker2 =
  w2_conns :: "'c conn2 list"
  w2_pending :: pending
  w2_stats :: stats
  w2_started :: nat
  w2_stop :: bool
  w2_ring :: uring

definition build_header_block :: "'a target \<Rightarrow> bytes" where
  "build_header_block t =
     hpack_encode_request (tg_method t) (if tg_tls t then ascii ''https'' else ascii ''http'') (tg_authority t) (tg_path t)
       (multiplexed_headers (tg_headers t)) (length (tg_body t))"

definition conn2_new :: "nat \<Rightarrow> 'c conn2" where
  "conn2_new now =
     \<lparr>c2_fd = None, c2_connected = False, c2_h2 = None, c2_tls = None, c2_out = [], c2_out_off = 0, c2_sending = False,
      c2_recv_armed = False, c2_goaway = False, c2_generation = 0, c2_streams = ring_new, c2_answered = 0, c2_held = 0,
      c2_idle_since = now\<rparr>"

definition c2_close :: "nat \<Rightarrow> 'c conn2 \<Rightarrow> 'c conn2" where
  "c2_close now c =
     c\<lparr>c2_fd := None, c2_connected := False, c2_recv_armed := False, c2_sending := False, c2_goaway := False, c2_out := [],
       c2_out_off := 0, c2_h2 := None, c2_tls := None, c2_streams := ring_clear (c2_streams c), c2_answered := 0, c2_held := 0,
       c2_idle_since := now, c2_generation := next_generation (c2_generation c)\<rparr>"

definition c2_fail_inflight :: "'c conn2 \<Rightarrow> stats \<Rightarrow> 'c conn2 \<times> stats" where
  "c2_fail_inflight c s =
     (c\<lparr>c2_streams := ring_clear (c2_streams c), c2_held := 0\<rparr>,
      s\<lparr>st_errors := st_errors s + (ring_len (c2_streams c) + c2_held c)\<rparr>)"

definition c2_timed_out :: "nat \<Rightarrow> nat \<Rightarrow> bool \<Rightarrow> 'c conn2 \<Rightarrow> bool \<times> 'c conn2" where
  "c2_timed_out now limit may c =
     (case ring_slot 0 (c2_streams c) of
        Some oldest \<Rightarrow> (now - if_start oldest \<ge> limit, c\<lparr>c2_idle_since := now\<rparr>)
      | None \<Rightarrow> (c2_connected c \<and> (c2_held c > 0 \<or> may) \<and> now - c2_idle_since c \<ge> limit, c))"

definition c2_handshaking :: "'c env2 \<Rightarrow> 'c conn2 \<Rightarrow> bool" where
  "c2_handshaking env c = (case c2_tls c of None \<Rightarrow> False | Some tls \<Rightarrow> rl_handshaking (e2_rustls env) (ts_conn tls))"

text \<open>The loop of \<open>fill_streams\<close>: the connection, the requests in flight, and how many have been started.\<close>

function open_streams :: "'c env2 \<Rightarrow> nat \<Rightarrow> h2_conn \<Rightarrow> in_flight ring \<Rightarrow> nat \<Rightarrow> h2_conn \<times> in_flight ring \<times> nat" where
  "open_streams env now h2 streams started =
     (if ring_len streams < e2_parallel env \<and> may_start (e2_budget env) started then
        case start_stream (e2_block env) (e2_body env) h2 of
          (None, h2) \<Rightarrow> (h2, streams, started)
        | (Some sid, h2) \<Rightarrow>
            open_streams env now h2 (ring_push 1 sid \<lparr>if_start = now, if_status = 0\<rparr> streams) (started + 1)
      else (h2, streams, started))"
  by pat_completeness auto
termination
  by (relation "measure (\<lambda>(env, now, h2, streams, started). e2_parallel env - ring_len streams)") (auto simp: ring_len_push)

declare open_streams.simps [simp del]

definition fill_streams :: "'c env2 \<Rightarrow> nat \<Rightarrow> bool \<Rightarrow> 'c conn2 \<Rightarrow> nat \<Rightarrow> 'c conn2 \<times> nat" where
  "fill_streams env now stop c started =
     (case c2_h2 c of
        None \<Rightarrow> (c, started)
      | Some h2 \<Rightarrow>
          if c2_handshaking env c then (c, started)
          else
            let h2 = pump_bodies (e2_body env) h2 in
            if stop \<or> c2_goaway c then (c\<lparr>c2_h2 := Some h2\<rparr>, started)
            else
              let (h2, streams, started) = open_streams env now h2 (c2_streams c) started in
              (c\<lparr>c2_h2 := Some h2, c2_streams := streams, c2_goaway := c2_goaway c \<or> stream_ids_exhausted h2\<rparr>, started))"

definition h2w_retire :: "'c env2 \<Rightarrow> nat \<Rightarrow> 'c conn2 \<Rightarrow> uring \<Rightarrow> ('c conn2 \<times> uring) option" where
  "h2w_retire env now c r =
     (let io = e2_io env in
      if c2_fd c = None then Some (c2_close now c, r)
      else
        Option.bind (ring_call io r) (\<lambda>r.
        Option.bind (ring_call io r) (\<lambda>r.
        Option.bind (ring_call io r) (\<lambda>r. Some (c2_close now c, r)))))"

text \<open>Submitting \<open>out\<close>.\<close>

definition h2w_send :: "'c env2 \<Rightarrow> nat \<Rightarrow> 'c conn2 \<Rightarrow> uring \<Rightarrow> (worker_fault, 'c conn2 \<times> uring) result" where
  "h2w_send env conn_idx c r =
     rbind (lift_ring (push_send_slice (e2_io env) conn_idx (c2_generation c) (c2_out c) r)) (\<lambda>r.
     Inr (c\<lparr>c2_out_off := 0, c2_sending := True\<rparr>, r))"

definition h2w_flush :: "'c env2 \<Rightarrow> nat \<Rightarrow> 'c conn2 \<Rightarrow> uring \<Rightarrow> (worker_fault, 'c conn2 \<times> uring) result" where
  "h2w_flush env conn_idx c r =
     (if c2_sending c then Inr (c, r)
      else case c2_h2 c of
          None \<Rightarrow> Inr (c, r)
        | Some h2 \<Rightarrow>
            let (buf, h2) = take_output h2; c = c\<lparr>c2_h2 := Some h2\<rparr> in
            case c2_tls c of
              Some tls \<Rightarrow>
                rbind (case buf of
                         None \<Rightarrow> Inr tls
                       | Some buf \<Rightarrow>
                           (case write_plaintext (e2_rustls env) (e2_full env) buf tls of
                              Inl (e, _) \<Rightarrow> Inl (Tls_fault e) | Inr tls \<Rightarrow> Inr tls)) (\<lambda>tls.
                case take_ciphertext_into (e2_rustls env) tls of
                  Inl (e, _) \<Rightarrow> Inl (Tls_fault e)
                | Inr (out, tls) \<Rightarrow>
                    let c = c\<lparr>c2_tls := Some tls, c2_out := out\<rparr> in
                    if out = [] then Inr (c, r) else h2w_send env conn_idx c r)
            | None \<Rightarrow>
                (case buf of None \<Rightarrow> Inr (c, r) | Some buf \<Rightarrow> h2w_send env conn_idx (c\<lparr>c2_out := buf\<rparr>) r))"

section \<open>Events\<close>

text \<open>
  One event turned into statistics; \<open>Underflow\<close> stands for a count going below zero.
\<close>

fun process_event :: "nat \<Rightarrow> h2_event \<Rightarrow> 'c conn2 \<times> stats \<times> nat \<Rightarrow> (worker_fault, 'c conn2 \<times> stats \<times> nat) result" where
  "process_event now (Ev_status sid status) (c, s, started) =
     Inr (c\<lparr>c2_streams := ring_update 1 1 sid (\<lambda>x. x\<lparr>if_status := status\<rparr>) (c2_streams c)\<rparr>, s, started)"
| "process_event now (Ev_end sid) (c, s, started) =
     (case ring_take 1 1 sid (c2_streams c) of
        None \<Rightarrow> Inr (c, s, started)
      | Some (x, streams) \<Rightarrow>
          let c = c\<lparr>c2_streams := streams\<rparr> in
          if if_status x = 0 then Inr (c, s\<lparr>st_errors := st_errors s + 1\<rparr>, started)
          else if started < c2_held c then Inl Underflow
          else Inr (c\<lparr>c2_answered := c2_answered c + 1, c2_held := 0\<rparr>, record_success (if_status x) (now - if_start x) s,
                    started - c2_held c))"
| "process_event now (Ev_reset sid) (c, s, started) =
     (case ring_take 1 1 sid (c2_streams c) of
        None \<Rightarrow> Inr (c, s, started)
      | Some (_, streams) \<Rightarrow> Inr (c\<lparr>c2_streams := streams\<rparr>, s\<lparr>st_errors := st_errors s + 1\<rparr>, started))"
| "process_event now (Ev_unprocessed sid) (c, s, started) =
     (case ring_take 1 1 sid (c2_streams c) of
        None \<Rightarrow> Inr (c, s, started)
      | Some (_, streams) \<Rightarrow>
          let c = c\<lparr>c2_streams := streams\<rparr> in
          if c2_answered c > 0 then (if started = 0 then Inl Underflow else Inr (c, s, started - 1))
          else Inr (c\<lparr>c2_held := c2_held c + 1\<rparr>, s, started))"
| "process_event now Ev_goaway (c, s, started) = Inr (c\<lparr>c2_goaway := True\<rparr>, s, started)"

fun process_events :: "nat \<Rightarrow> h2_event list \<Rightarrow> 'c conn2 \<times> stats \<times> nat \<Rightarrow> (worker_fault, 'c conn2 \<times> stats \<times> nat) result" where
  "process_events now [] x = Inr x"
| "process_events now (e # es) x = rbind (process_event now e x) (process_events now es)"

definition fail_connect :: "budget \<Rightarrow> stats \<Rightarrow> nat \<Rightarrow> stats \<times> nat" where
  "fail_connect b s started =
     (if may_start b started
      then (s\<lparr>st_errors := st_errors s + 1, st_connect_errors := st_connect_errors s + 1\<rparr>, started + 1)
      else (s, started))"

section \<open>Completions\<close>

text \<open>What a completion does to its connection, and whether that is broken by it.\<close>

type_synonym 'c handled2 = "(worker_fault, bool \<times> 'c conn2 \<times> 'c worker2) result"

definition w2_fail_connect :: "'c env2 \<Rightarrow> 'c worker2 \<Rightarrow> 'c worker2" where
  "w2_fail_connect env w =
     (let (s, started) = fail_connect (e2_budget env) (w2_stats w) (w2_started w) in w\<lparr>w2_stats := s, w2_started := started\<rparr>)"

definition w2_fill :: "'c env2 \<Rightarrow> nat \<Rightarrow> nat \<Rightarrow> 'c conn2 \<Rightarrow> 'c worker2 \<Rightarrow> 'c handled2" where
  "w2_fill env now conn_idx c w =
     (let (c, started) = fill_streams env now (w2_stop w) c (w2_started w) in
      case pending_mark conn_idx (w2_pending w) of
        None \<Rightarrow> Inl Bad_index
      | Some p \<Rightarrow> Inr (False, c, w\<lparr>w2_started := started, w2_pending := p\<rparr>))"

definition h2w_arm :: "'c env2 \<Rightarrow> nat \<Rightarrow> 'c conn2 \<Rightarrow> 'c worker2 \<Rightarrow> (worker_fault, 'c conn2 \<times> 'c worker2) result" where
  "h2w_arm env conn_idx c w =
     rbind (lift_ring (push_recv_multi (e2_io env) conn_idx (c2_generation c) (w2_ring w))) (\<lambda>r.
     Inr (c\<lparr>c2_recv_armed := True\<rparr>, w\<lparr>w2_ring := r\<rparr>))"

definition h2w_on_connect :: "'c env2 \<Rightarrow> nat \<Rightarrow> nat \<Rightarrow> int \<Rightarrow> 'c conn2 \<Rightarrow> 'c worker2 \<Rightarrow> 'c handled2" where
  "h2w_on_connect env now conn_idx res c w =
     (if res < 0 then Inr (True, c, w2_fail_connect env w)
      else
        rbind (h2w_arm env conn_idx (c\<lparr>c2_connected := True\<rparr>) w) (\<lambda>(c, w).
        rbind (case e2_tls env of
                 None \<Rightarrow> Inr (c\<lparr>c2_h2 := Some (h2_initiate h2_new)\<rparr>)
               | Some setup \<Rightarrow>
                   (case setup (ur_calls (w2_ring w)) of
                      None \<Rightarrow> Inl Tls_setup_failed
                    | Some conn \<Rightarrow> Inr (c\<lparr>c2_tls := Some (tls_new conn), c2_h2 := Some h2_new\<rparr>))) (\<lambda>c.
        w2_fill env now conn_idx c w)))"

definition h2w_on_send :: "'c env2 \<Rightarrow> nat \<Rightarrow> int \<Rightarrow> 'c conn2 \<Rightarrow> 'c worker2 \<Rightarrow> 'c handled2" where
  "h2w_on_send env conn_idx res c w =
     (if res < 0 then Inr (True, c, w)
      else
        let w = w\<lparr>w2_stats := (w2_stats w)\<lparr>st_bytes_sent := st_bytes_sent (w2_stats w) + nat res\<rparr>\<rparr>;
            c = c\<lparr>c2_out_off := c2_out_off c + nat res\<rparr> in
        if c2_out_off c < length (c2_out c) then
          rbind (lift_ring (push_send_slice (e2_io env) conn_idx (c2_generation c) (drop (c2_out_off c) (c2_out c)) (w2_ring w))) (\<lambda>r.
          Inr (False, c, w\<lparr>w2_ring := r\<rparr>))
        else
          let c = c\<lparr>c2_sending := False\<rparr>;
              c = (if c2_tls c = None \<and> c2_h2 c \<noteq> None then c\<lparr>c2_out := []\<rparr> else c) in
          case pending_mark conn_idx (w2_pending w) of
            None \<Rightarrow> Inl Bad_index
          | Some p \<Rightarrow>
              rbind (if c2_recv_armed c then Inr (c, w\<lparr>w2_pending := p\<rparr>) else h2w_arm env conn_idx c (w\<lparr>w2_pending := p\<rparr>)) (\<lambda>(c, w).
              Inr (False, c, w)))"

text \<open>
  Received bytes handed to the connection, through TLS or straight. The result says whether that failed, whether the
  handshake ended without HTTP/2, and the connection with its events.
\<close>

definition h2w_feed :: "'c env2 \<Rightarrow> bytes \<Rightarrow> h2_conn \<Rightarrow> 'c conn2 \<Rightarrow> bool \<times> bool \<times> h2_conn \<times> 'c conn2" where
  "h2w_feed env data h2 c =
     (let h2 = h2\<lparr>h2_events := []\<rparr> in
      case c2_tls c of
        Some tls \<Rightarrow>
          (case feed_into (e2_rustls env) data h2_feed tls h2 of
             Inl (_, tls', h2) \<Rightarrow> (False, False, h2, c\<lparr>c2_tls := Some tls'\<rparr>)
           | Inr (tls', h2) \<Rightarrow>
               if rl_handshaking (e2_rustls env) (ts_conn tls) \<and> \<not> rl_handshaking (e2_rustls env) (ts_conn tls') then
                 (if rl_alpn (e2_rustls env) (ts_conn tls') = Some (ascii ''h2'')
                  then (True, False, h2_initiate h2, c\<lparr>c2_tls := Some tls'\<rparr>)
                  else (True, True, h2, c\<lparr>c2_tls := Some tls'\<rparr>))
               else (True, False, h2, c\<lparr>c2_tls := Some tls'\<rparr>))
      | None \<Rightarrow>
          (case h2_feed data h2 of
             Inl (_, h2) \<Rightarrow> (False, False, h2, c)
           | Inr h2 \<Rightarrow> (True, False, h2, c)))"

definition h2w_on_data :: "'c env2 \<Rightarrow> nat \<Rightarrow> nat \<Rightarrow> bytes \<Rightarrow> nat option \<Rightarrow> 'c conn2 \<Rightarrow> 'c worker2 \<Rightarrow> 'c handled2" where
  "h2w_on_data env now conn_idx data bid c w =
     (case c2_h2 c of
        None \<Rightarrow> Inl No_connection
      | Some h2 \<Rightarrow>
          let (ok, not_h2, h2, c) = h2w_feed env data h2 c;
              w = (if not_h2 then w2_fail_connect env w else w);
              w = w\<lparr>w2_ring := recycle_buffer bid (w2_ring w)\<rparr>;
              c = c\<lparr>c2_h2 := Some h2\<rparr> in
          rbind (process_events now (h2_events h2) (c, w2_stats w, w2_started w)) (\<lambda>(c, s, started).
          let w = w\<lparr>w2_stats := s, w2_started := started\<rparr> in
          if \<not> ok \<or> not_h2 \<or> c2_goaway c \<and> ring_len (c2_streams c) = 0 then Inr (True, c, w)
          else w2_fill env now conn_idx c w))"

definition h2w_on_recv :: "'c env2 \<Rightarrow> nat \<Rightarrow> nat \<Rightarrow> cqe \<Rightarrow> 'c conn2 \<Rightarrow> 'c worker2 \<Rightarrow> 'c handled2" where
  "h2w_on_recv env now conn_idx e c w =
     (let res = cq_result e;
          c = (if cq_more e then c else c\<lparr>c2_recv_armed := False\<rparr>) in
      if res < 0 then
        let w = w\<lparr>w2_ring := recycle_buffer (cq_buffer e) (w2_ring w)\<rparr> in
        if res = - ENOBUFS then rbind (h2w_arm env conn_idx c w) (\<lambda>(c, w). Inr (False, c, w)) else Inr (True, c, w)
      else if res = 0 then Inr (True, c, w\<lparr>w2_ring := recycle_buffer (cq_buffer e) (w2_ring w)\<rparr>)
      else
        let w = w\<lparr>w2_stats := (w2_stats w)\<lparr>st_bytes_received := st_bytes_received (w2_stats w) + nat res\<rparr>\<rparr> in
        if cq_buffer e = None then Inl No_buffer_id
        else h2w_on_data env now conn_idx (take (nat res) (cq_bytes e)) (cq_buffer e) c w)"

definition h2w_handle :: "'c env2 \<Rightarrow> nat \<Rightarrow> nat \<Rightarrow> nat \<Rightarrow> cqe \<Rightarrow> 'c conn2 \<Rightarrow> 'c worker2 \<Rightarrow> 'c handled2" where
  "h2w_handle env now op conn_idx e c w =
     (if op = OP_CONNECT then h2w_on_connect env now conn_idx (cq_result e) c w
      else if op = OP_CONNECT_TIMEOUT then Inr (False, c, w)
      else if op = OP_SEND then h2w_on_send env conn_idx (cq_result e) c w
      else if op = OP_RECV then h2w_on_recv env now conn_idx e c w
      else Inl Bad_operation)"

section \<open>The loop\<close>

text \<open>Failing what a connection carries, retiring it, and connecting again while requests remain.\<close>

definition h2w_replace :: "'c env2 \<Rightarrow> nat \<Rightarrow> nat \<Rightarrow> 'c conn2 \<Rightarrow> 'c worker2 \<Rightarrow> (worker_fault, bool \<times> 'c worker2) result" where
  "h2w_replace env now conn_idx c w =
     (let (c, s) = c2_fail_inflight c (w2_stats w); w = w\<lparr>w2_stats := s\<rparr> in
      rbind (lift_ring (h2w_retire env now c (w2_ring w))) (\<lambda>(c, r).
      let w = w\<lparr>w2_ring := r\<rparr> in
      if w2_stop w \<or> \<not> may_start (e2_budget env) (w2_started w) then Inr (True, w\<lparr>w2_conns := (w2_conns w)[conn_idx := c]\<rparr>)
      else case start_connect (e2_io env) conn_idx (c2_generation c) (w2_ring w) of
          None \<Rightarrow> Inr (False, w\<lparr>w2_conns := (w2_conns w)[conn_idx := c]\<rparr>)
        | Some (fd, r) \<Rightarrow> Inr (True, w\<lparr>w2_conns := (w2_conns w)[conn_idx := c\<lparr>c2_fd := Some fd\<rparr>], w2_ring := r\<rparr>)))"

definition h2w_completion :: "'c env2 \<Rightarrow> nat \<Rightarrow> cqe \<Rightarrow> 'c worker2 \<Rightarrow> (worker_fault, bool \<times> 'c worker2) result" where
  "h2w_completion env now e w =
     (if cq_user_data e = TIMEOUT_USER_DATA then Inr (True, w\<lparr>w2_stop := True\<rparr>)
      else
        let (op, conn_idx, generation) = decode_user_data (cq_user_data e) in
        if conn_idx \<ge> length (w2_conns w) then Inl Bad_index
        else if generation \<noteq> c2_generation (w2_conns w ! conn_idx) then
          Inr (True, w\<lparr>w2_ring := recycle_buffer (cq_buffer e) (w2_ring w)\<rparr>)
        else
          rbind (h2w_handle env now op conn_idx e (w2_conns w ! conn_idx) w) (\<lambda>(broken, c, w).
            if broken then h2w_replace env now conn_idx c (if c2_handshaking env c then w2_fail_connect env w else w)
            else Inr (True, w\<lparr>w2_conns := (w2_conns w)[conn_idx := c]\<rparr>)))"

definition h2w_expire_one :: "'c env2 \<Rightarrow> nat \<Rightarrow> nat \<Rightarrow> nat \<Rightarrow> 'c worker2 \<Rightarrow> (worker_fault, bool \<times> 'c worker2) result" where
  "h2w_expire_one env now limit conn_idx w =
     (let (wedged, c) = c2_timed_out now limit (may_start (e2_budget env) (w2_started w)) (w2_conns w ! conn_idx) in
      if \<not> wedged then Inr (True, w\<lparr>w2_conns := (w2_conns w)[conn_idx := c]\<rparr>)
      else h2w_replace env now conn_idx c
             (if ring_len (c2_streams c) = 0 \<and> c2_held c = 0 then w2_fail_connect env w else w))"

text \<open>One flush per marked slot.\<close>

definition h2w_flush_one :: "'c env2 \<Rightarrow> nat \<Rightarrow> 'c worker2 \<Rightarrow> (worker_fault, bool \<times> 'c worker2) result" where
  "h2w_flush_one env conn_idx w =
     (if conn_idx \<ge> length (w2_conns w) then Inl Bad_index
      else rbind (h2w_flush env conn_idx (w2_conns w ! conn_idx) (w2_ring w)) (\<lambda>(c, r).
        Inr (True, w\<lparr>w2_conns := (w2_conns w)[conn_idx := c], w2_ring := r\<rparr>)))"

definition flush_pending :: "'c env2 \<Rightarrow> 'c worker2 \<Rightarrow> (worker_fault, bool \<times> 'c worker2) result" where
  "flush_pending env w =
     (let (order, p) = pending_drain (w2_pending w) in
      worker_loop (h2w_flush_one env) order (w\<lparr>w2_pending := p\<rparr>))"

definition h2w_expire :: "'c env2 \<Rightarrow> nat \<Rightarrow> 'c worker2 \<Rightarrow> (worker_fault, bool \<times> 'c worker2) result" where
  "h2w_expire env now w =
     (case e2_timeout env of
        None \<Rightarrow> Inr (True, w)
      | Some limit \<Rightarrow> worker_loop (h2w_expire_one env now limit) [0..<length (w2_conns w)] w)"

definition h2w_round :: "'c env2 \<Rightarrow> nat \<times> bool \<times> cqe list \<Rightarrow> 'c worker2 \<Rightarrow> (worker_fault, bool \<times> 'c worker2) result" where
  "h2w_round env turn w =
     (let (now, shutdown, es) = turn in
      if is_met (e2_budget env) (st_completed (w2_stats w) + st_errors (w2_stats w)) then Inr (False, w)
      else if shutdown then Inr (False, w)
      else
        rbind (lift_ring (ring_call (e2_io env) (w2_ring w))) (\<lambda>r.
        rbind (h2w_expire env now (w\<lparr>w2_ring := r\<rparr>)) (\<lambda>(go, w).
        if \<not> go then Inr (False, w)
        else rbind (worker_loop (h2w_completion env now) es w) (\<lambda>(go, w).
        if \<not> go then Inr (False, w)
        else rbind (flush_pending env w) (\<lambda>(_, w). Inr (\<not> w2_stop w, w))))))"

definition h2w_connect_one :: "'c env2 \<Rightarrow> nat \<Rightarrow> 'c worker2 \<Rightarrow> (worker_fault, bool \<times> 'c worker2) result" where
  "h2w_connect_one env i w =
     (if \<not> may_start (e2_budget env) i then Inr (False, w)
      else
        rbind (lift_ring (start_connect (e2_io env) i (c2_generation (w2_conns w ! i)) (w2_ring w))) (\<lambda>(fd, r).
        Inr (True, w\<lparr>w2_conns := (w2_conns w)[i := (w2_conns w ! i)\<lparr>c2_fd := Some fd\<rparr>], w2_ring := r\<rparr>)))"

definition h2w_setup :: "nat \<Rightarrow> nat \<Rightarrow> buf_ring \<Rightarrow> 'c worker2" where
  "h2w_setup now connections bufs =
     \<lparr>w2_conns = replicate connections (conn2_new now), w2_pending = pending_new connections, w2_stats = stats_default,
      w2_started = 0, w2_stop = False, w2_ring = \<lparr>ur_sq = [], ur_calls = 0, ur_bufs = bufs\<rparr>\<rparr>"

definition h2w_start :: "'c env2 \<Rightarrow> nat \<Rightarrow> nat \<Rightarrow> buf_ring \<Rightarrow> (worker_fault, 'c worker2) result" where
  "h2w_start env now connections bufs =
     (let w = h2w_setup now connections bufs in
      rbind (lift_ring (arm_deadline (e2_io env) (deadline (e2_budget env)) (w2_ring w))) (\<lambda>r.
      rbind (worker_loop (h2w_connect_one env) [0..<connections] (w\<lparr>w2_ring := r\<rparr>)) (\<lambda>(_, w). Inr w)))"

section \<open>The farewell\<close>

definition drain_final_one :: "cqe \<Rightarrow> 'c worker2 \<Rightarrow> (worker_fault, bool \<times> 'c worker2) result" where
  "drain_final_one e w =
     (let w = w\<lparr>w2_ring := recycle_buffer (cq_buffer e) (w2_ring w)\<rparr> in
      if cq_user_data e = TIMEOUT_USER_DATA then Inr (True, w)
      else
        let (op, conn_idx, generation) = decode_user_data (cq_user_data e) in
        if conn_idx \<ge> length (w2_conns w) then Inl Bad_index
        else
          let c = w2_conns w ! conn_idx; sent = nat (cq_result e) in
          if op = OP_SEND \<and> generation = c2_generation c \<and> cq_result e > 0 then
            Inr (True, w\<lparr>w2_stats := (w2_stats w)\<lparr>st_bytes_sent := st_bytes_sent (w2_stats w) + sent\<rparr>,
              w2_conns := (w2_conns w)[conn_idx := c\<lparr>c2_out_off := c2_out_off c + sent,
                c2_sending := c2_out_off c + sent < length (c2_out c)\<rparr>]\<rparr>)
          else Inr (True, w))"

text \<open>The bytes of the GOAWAY, if any are to be sent on this connection.\<close>

definition goodbye_bytes :: "'c env2 \<Rightarrow> 'c conn2 \<Rightarrow> bytes" where
  "goodbye_bytes env c =
     (if \<not> c2_connected c \<or> c2_sending c \<or> c2_handshaking env c then []
      else case c2_h2 c of
          None \<Rightarrow> []
        | Some h2 \<Rightarrow>
            (case take_output (send_goaway h2) of
               (None, _) \<Rightarrow> []
             | (Some buf, _) \<Rightarrow>
                 (case c2_tls c of
                    None \<Rightarrow> buf
                  | Some tls \<Rightarrow>
                      let tls = (case write_plaintext (e2_rustls env) (e2_full env) buf tls of Inl (_, tls) \<Rightarrow> tls | Inr tls \<Rightarrow> tls) in
                      case take_ciphertext_into (e2_rustls env) tls of Inl _ \<Rightarrow> [] | Inr (out, _) \<Rightarrow> out)))"

definition h2w_goodbye_one :: "'c env2 \<Rightarrow> nat \<Rightarrow> nat \<Rightarrow> 'c worker2 \<Rightarrow> (worker_fault, bool \<times> 'c worker2) result" where
  "h2w_goodbye_one env now conn_idx w =
     (let c = w2_conns w ! conn_idx; bytes = goodbye_bytes env c; r = w2_ring w;
          r = (if bytes = [] then r else r\<lparr>ur_sq := ur_sq r @ [Raw_send (case c2_fd c of Some fd \<Rightarrow> fd | None \<Rightarrow> 0) bytes]\<rparr>) in
      rbind (lift_ring (h2w_retire env now c r)) (\<lambda>(c, r).
      Inr (True, w\<lparr>w2_conns := (w2_conns w)[conn_idx := c], w2_ring := r\<rparr>)))"

text \<open>
  The whole of \<open>run_worker\<close>; \<open>final\<close> are the completions the last submission brings. \<open>None\<close> says that the loop is still
  going when the turns given to it are used up.
\<close>

definition h2w_run_worker ::
    "'c env2 \<Rightarrow> nat \<Rightarrow> nat \<Rightarrow> buf_ring \<Rightarrow> (nat \<times> bool \<times> cqe list) list \<Rightarrow> cqe list \<Rightarrow> (run_error, stats) result option" where
  "h2w_run_worker env now connections bufs turns final =
     (if connections = 0 \<or> budget_is_empty (e2_budget env) then Some (Inr stats_default)
      else if connections > push_bit CONN_IDX_BITS 1 then Some (Inl Too_many_connections)
      else
        case rbind (h2w_start env now connections bufs) (worker_loop (h2w_round env) turns) of
          Inl e \<Rightarrow> Some (Inl (Run_fault e))
        | Inr (True, w) \<Rightarrow> None
        | Inr (False, w) \<Rightarrow>
            (case rbind (worker_loop drain_final_one final w) (\<lambda>(_, w).
                    worker_loop (h2w_goodbye_one env now) [0..<length (w2_conns w)] w) of
               Inl e \<Rightarrow> Some (Inl (Run_fault e))
             | Inr (_, w) \<Rightarrow> Some (Inr (w2_stats w))))"

section \<open>The books of a connection\<close>

text \<open>
  What a connection owes is its streams in flight and the requests it holds back. Seen from one connection the rest of the
  worker owes some fixed amount; every step on the connection keeps started requests equal to those finished or owed.
\<close>

definition owed2 :: "'c conn2 \<Rightarrow> nat" where
  "owed2 c = ring_len (c2_streams c) + c2_held c"

definition conn2_ok :: "'c conn2 \<Rightarrow> bool" where
  "conn2_ok c \<longleftrightarrow> ring_ok (c2_streams c) \<and> ring_all (\<lambda>x. if_status x < 1000) (c2_streams c)"

definition books2 :: "'c env2 \<Rightarrow> nat \<Rightarrow> 'c conn2 \<Rightarrow> stats \<Rightarrow> nat \<Rightarrow> bool" where
  "books2 env rest c s started \<longleftrightarrow>
     finished_count s + owed2 c + rest = started \<and> stats_ok s \<and> (\<forall>n. e2_budget env = Requests n \<longrightarrow> started \<le> n) \<and> conn2_ok c"

abbreviation sound2 :: "worker_fault \<Rightarrow> bool" where
  "sound2 e \<equiv> e \<noteq> Underflow"

lemma books2_cong:
  "books2 env rest c s started \<Longrightarrow> c2_streams d = c2_streams c \<Longrightarrow> c2_held d = c2_held c
   \<Longrightarrow> st_completed t = st_completed s \<Longrightarrow> st_errors t = st_errors s \<Longrightarrow> st_latencies_ns t = st_latencies_ns s
   \<Longrightarrow> st_status_counts t = st_status_counts s \<Longrightarrow> books2 env rest d t started"
  by (simp add: books2_def owed2_def conn2_ok_def finished_count_def stats_ok_def)

lemma open_streams_books:
  "open_streams env now h2 streams started = (h2', streams', started') \<Longrightarrow> ring_ok streams
   \<Longrightarrow> ring_all (\<lambda>x. if_status x < 1000) streams \<Longrightarrow> \<forall>n. e2_budget env = Requests n \<longrightarrow> started \<le> n
   \<Longrightarrow> ring_ok streams' \<and> ring_all (\<lambda>x. if_status x < 1000) streams' \<and> ring_len streams + started' = ring_len streams' + started
     \<and> (\<forall>n. e2_budget env = Requests n \<longrightarrow> started' \<le> n)"
proof (induction env now h2 streams started rule: open_streams.induct)
  case (1 env now h2 streams started)
  show ?case
  proof (cases "ring_len streams < e2_parallel env \<and> may_start (e2_budget env) started")
    case False
    then show ?thesis using "1.prems" by (auto simp: open_streams.simps [of env])
  next
    case True
    obtain found h where s: "start_stream (e2_block env) (e2_body env) h2 = (found, h)" by fastforce
    show ?thesis
    proof (cases found)
      case None
      then show ?thesis using "1.prems" True s by (simp add: open_streams.simps [of env])
    next
      case (Some sid)
      let ?r = "ring_push 1 sid \<lparr>if_start = now, if_status = 0\<rparr> streams"
      have "open_streams env now h ?r (started + 1) = (h2', streams', started')"
        using "1.prems"(1) True s Some by (simp add: open_streams.simps [of env now h2])
      moreover have "ring_ok ?r" "ring_all (\<lambda>x. if_status x < 1000) ?r" "ring_len ?r = ring_len streams + 1"
        using "1.prems"(2,3) by (simp_all add: ring_push_ok ring_all_push ring_len_push)
      moreover have "\<forall>n. e2_budget env = Requests n \<longrightarrow> started + 1 \<le> n" using True by auto
      ultimately show ?thesis using "1.IH" [OF True s [symmetric] Some] by auto
    qed
  qed
qed

lemma fill_streams_books:
  assumes "books2 env rest c s started" "fill_streams env now stop c started = (c', started')"
  shows "books2 env rest c' s started'"
proof (cases "c2_h2 c = None \<or> c2_handshaking env c \<or> stop \<or> c2_goaway c")
  case True
  then show ?thesis using assms
    by (auto simp: fill_streams_def Let_def split: option.splits if_splits elim!: books2_cong)
next
  case False
  then obtain h2 where h2: "c2_h2 c = Some h2" by auto
  obtain h streams n where o: "open_streams env now (pump_bodies (e2_body env) h2) (c2_streams c) started = (h, streams, n)"
    by (metis prod_cases3)
  have "c' = c\<lparr>c2_h2 := Some h, c2_streams := streams, c2_goaway := c2_goaway c \<or> stream_ids_exhausted h\<rparr>" "started' = n"
    using assms(2) False h2 o by (simp_all add: fill_streams_def Let_def)
  then show ?thesis using open_streams_books [OF o] assms(1) by (simp add: books2_def owed2_def conn2_ok_def)
qed

lemma process_event_safe:
  assumes b: "books2 env rest c s started" and e: "event_small e"
  shows "safe sound2 (\<lambda>(c, s, started). books2 env rest c s started) (process_event now e (c, s, started))"
proof -
  have ok: "ring_ok (c2_streams c)" "ring_all (\<lambda>x. if_status x < 1000) (c2_streams c)" "stats_ok s"
    "finished_count s + (ring_len (c2_streams c) + c2_held c) + rest = started" "\<forall>n. e2_budget env = Requests n \<longrightarrow> started \<le> n"
    using b by (simp_all add: books2_def conn2_ok_def owed2_def)
  note take = ring_take_all [OF ok(1) _ _ ok(2), of 1 1, simplified]
  note simps = books2_def owed2_def conn2_ok_def finished_count_def
  show ?thesis
  proof (cases e)
    case (Ev_status sid status)
    then show ?thesis
      using ok e ring_update_all [OF ok(1,2), of "\<lambda>x. x\<lparr>if_status := status\<rparr>" 1 1 sid] by (simp add: simps)
  next
    case (Ev_end sid)
    show ?thesis
    proof (cases "ring_take 1 1 sid (c2_streams c)")
      case (Some p)
      obtain x r where p: "p = (x, r)" by (cases p)
      then show ?thesis using take [of sid x r] Some Ev_end ok record_success_ok [OF ok(3), of "if_status x" "now - if_start x"]
        by (auto simp: simps record_success_def stats_ok_def Let_def)
    qed (use b Ev_end in simp)
  next
    case (Ev_reset sid)
    then show ?thesis using b take [of sid] ok by (auto simp: simps stats_ok_def split: option.split)
  next
    case (Ev_unprocessed sid)
    then show ?thesis using b take [of sid] ok by (auto simp: simps Let_def split: option.split)
  next
    case Ev_goaway
    then show ?thesis using ok by (simp add: simps)
  qed
qed

lemma process_events_safe:
  "books2 env rest c s started \<Longrightarrow> list_all event_small es
   \<Longrightarrow> safe sound2 (\<lambda>(c, s, started). books2 env rest c s started) (process_events now es (c, s, started))"
proof (induction es arbitrary: c s started)
  case (Cons e es)
  show ?case unfolding process_events.simps
    by (rule safe_bind [OF process_event_safe [OF Cons.prems(1)]]) (use Cons in auto)
qed simp

lemma fail_connect_books: "books2 env rest c s started \<Longrightarrow> fail_connect (e2_budget env) s started = (s', started') \<Longrightarrow> books2 env rest c s' started'"
  by (auto simp: fail_connect_def books2_def finished_count_def stats_ok_def split: if_splits)

section \<open>The books of the worker\<close>

definition inv2 :: "'c env2 \<Rightarrow> 'c worker2 \<Rightarrow> bool" where
  "inv2 env w \<longleftrightarrow>
     finished_count (w2_stats w) + (\<Sum>c\<leftarrow>w2_conns w. owed2 c) = w2_started w \<and> stats_ok (w2_stats w) \<and>
     (\<forall>n. e2_budget env = Requests n \<longrightarrow> w2_started w \<le> n) \<and> (\<forall>c \<in> set (w2_conns w). conn2_ok c)"

text \<open>A handler works on one connection of a worker \<open>w0\<close> with the rest of it unchanged.\<close>

definition on_conn2 :: "'c env2 \<Rightarrow> 'c worker2 \<Rightarrow> nat \<Rightarrow> 'c conn2 \<Rightarrow> 'c worker2 \<Rightarrow> bool" where
  "on_conn2 env w0 i c w \<longleftrightarrow>
     inv2 env w0 \<and> i < length (w2_conns w0) \<and> w2_conns w = w2_conns w0 \<and>
     books2 env ((\<Sum>c\<leftarrow>w2_conns w0. owed2 c) - owed2 (w2_conns w0 ! i)) c (w2_stats w) (w2_started w)"

lemma owed2_nth_le: "i < length cs \<Longrightarrow> owed2 (cs ! i) \<le> (\<Sum>c\<leftarrow>cs. owed2 c)"
  using elem_le_sum_list [of i "map owed2 cs"] by simp

lemma inv2_focus: "inv2 env w \<Longrightarrow> i < length (w2_conns w) \<Longrightarrow> on_conn2 env w i (w2_conns w ! i) w"
  using owed2_nth_le [of i "w2_conns w"] by (simp add: inv2_def on_conn2_def books2_def nth_mem)

lemma inv2_put:
  assumes "on_conn2 env w0 i c w" "w2_conns w' = (w2_conns w)[i := c]" "w2_stats w' = w2_stats w" "w2_started w' = w2_started w"
  shows "inv2 env w'"
proof -
  have i: "i < length (w2_conns w0)" using assms(1) by (simp add: on_conn2_def)
  have "(\<Sum>c\<leftarrow>(w2_conns w0)[i := c]. owed2 c) = (\<Sum>c\<leftarrow>w2_conns w0. owed2 c) - owed2 (w2_conns w0 ! i) + owed2 c"
    using i owed2_nth_le [OF i] by (simp add: map_update sum_list_update)
  moreover have "\<forall>d \<in> set ((w2_conns w0)[i := c]). conn2_ok d"
    using assms(1) set_update_subset_insert [of "w2_conns w0" i c] by (auto simp: on_conn2_def inv2_def books2_def)
  ultimately show ?thesis using assms by (simp add: on_conn2_def inv2_def books2_def)
qed

lemma on_conn2_cong:
  "on_conn2 env w0 i c w \<Longrightarrow> c2_streams d = c2_streams c \<Longrightarrow> c2_held d = c2_held c \<Longrightarrow> w2_conns v = w2_conns w
   \<Longrightarrow> w2_started v = w2_started w \<Longrightarrow> st_completed (w2_stats v) = st_completed (w2_stats w)
   \<Longrightarrow> st_errors (w2_stats v) = st_errors (w2_stats w) \<Longrightarrow> st_latencies_ns (w2_stats v) = st_latencies_ns (w2_stats w)
   \<Longrightarrow> st_status_counts (w2_stats v) = st_status_counts (w2_stats w) \<Longrightarrow> on_conn2 env w0 i d v"
  by (auto simp: on_conn2_def elim: books2_cong)

abbreviation handled_ok2 :: "'c env2 \<Rightarrow> 'c worker2 \<Rightarrow> nat \<Rightarrow> 'c handled2 \<Rightarrow> bool" where
  "handled_ok2 env w0 i m \<equiv> safe sound2 (\<lambda>(broken, c, w). on_conn2 env w0 i c w) m"

lemma w2_fail_connect_books: "on_conn2 env w0 i c w \<Longrightarrow> on_conn2 env w0 i c (w2_fail_connect env w)"
  by (auto simp: on_conn2_def w2_fail_connect_def fail_connect_books split: prod.split)

lemma w2_fill_books: "on_conn2 env w0 i c w \<Longrightarrow> handled_ok2 env w0 i (w2_fill env now k c w)"
  by (auto simp: w2_fill_def on_conn2_def fill_streams_books split: prod.split option.split)

lemma h2w_arm_books: "on_conn2 env w0 i c w \<Longrightarrow> safe sound2 (\<lambda>(c, w). on_conn2 env w0 i c w) (h2w_arm env k c w)"
  unfolding h2w_arm_def by (rule safe_bind [OF safe_lift_ring]) (auto elim!: on_conn2_cong)

lemma h2w_on_connect_books: "on_conn2 env w0 i c w \<Longrightarrow> handled_ok2 env w0 i (h2w_on_connect env now k res c w)"
proof (cases "res < 0")
  case False
  assume c: "on_conn2 env w0 i c w"
  then have c1: "on_conn2 env w0 i (c\<lparr>c2_connected := True\<rparr>) w" by (auto elim: on_conn2_cong)
  have tls: "safe sound2 (\<lambda>d. on_conn2 env w0 i d v)
      (case e2_tls env of
         None \<Rightarrow> Inr (d\<lparr>c2_h2 := Some (h2_initiate h2_new)\<rparr>)
       | Some setup \<Rightarrow>
           (case setup n of
              None \<Rightarrow> Inl Tls_setup_failed
            | Some conn \<Rightarrow> Inr (d\<lparr>c2_tls := Some (tls_new conn), c2_h2 := Some h2_new\<rparr>)))"
    if "on_conn2 env w0 i d v" for d v n
    using that by (auto split: option.split elim!: on_conn2_cong)
  show ?thesis unfolding h2w_on_connect_def if_not_P [OF False]
    by (rule safe_bind [OF h2w_arm_books [OF c1]]) (auto intro!: safe_bind [OF tls] w2_fill_books)
qed (simp add: h2w_on_connect_def w2_fail_connect_books)

lemma arm_if_needed_books:
  "on_conn2 env w0 i c w
   \<Longrightarrow> handled_ok2 env w0 i (rbind (if armed then Inr (c, w) else h2w_arm env k c w) (\<lambda>(c, w). Inr (False, c, w)))"
  by (rule safe_bind [where P = "\<lambda>(c, w). on_conn2 env w0 i c w"]) (auto intro: h2w_arm_books)

lemma h2w_on_send_books: "on_conn2 env w0 i c w \<Longrightarrow> handled_ok2 env w0 i (h2w_on_send env k res c w)"
proof (cases "res < 0")
  case False
  assume c: "on_conn2 env w0 i c w"
  define w1 where "w1 = w\<lparr>w2_stats := (w2_stats w)\<lparr>st_bytes_sent := st_bytes_sent (w2_stats w) + nat res\<rparr>\<rparr>"
  define c1 where "c1 = c\<lparr>c2_out_off := c2_out_off c + nat res\<rparr>"
  define d where "d = (if c2_tls (c1\<lparr>c2_sending := False\<rparr>) = None \<and> c2_h2 (c1\<lparr>c2_sending := False\<rparr>) \<noteq> None
    then c1\<lparr>c2_sending := False, c2_out := []\<rparr> else c1\<lparr>c2_sending := False\<rparr>)"
  have b: "on_conn2 env w0 i c1 (w1\<lparr>w2_ring := r\<rparr>)" "on_conn2 env w0 i d (w1\<lparr>w2_pending := p\<rparr>)" for r p
    using c by (auto simp: w1_def c1_def d_def elim!: on_conn2_cong)
  have "handled_ok2 env w0 i (rbind (lift_ring x) (\<lambda>r. Inr (False, c1, w1\<lparr>w2_ring := r\<rparr>)))" for x
    by (rule safe_bind [OF safe_lift_ring [of _ _ "\<lambda>_. True"]]) (auto intro: b)
  moreover note arm_if_needed_books [OF b(2)]
  ultimately show ?thesis
    unfolding h2w_on_send_def if_not_P [OF False] Let_def w1_def [symmetric] c1_def [symmetric] d_def [symmetric]
    by (simp split: option.split del: if_split add: if_splits(1))
qed (simp add: h2w_on_send_def)

lemma h2w_feed_keeps:
  assumes "h2w_feed env data h2 c = (ok, not_h2, h2', c')"
  shows "events_small h2' \<and> c2_streams c' = c2_streams c \<and> c2_held c' = c2_held c"
proof -
  define h where "h = h2\<lparr>h2_events := []\<rparr>"
  have h: "events_small h" by (simp add: h_def events_small_def)
  have feed: "events_small g \<Longrightarrow> events_small (h2_after (h2_feed bs g))" for bs g by (rule h2_feed_small)
  have "case h2_feed bs g of Inl (_, g') \<Rightarrow> events_small g' | Inr g' \<Rightarrow> events_small g'" if "events_small g" for bs g
    using feed [OF that, of bs] by (cases "h2_feed bs g") auto
  then have "sink_keeps events_small h2_feed" by (simp add: sink_keeps_def)
  then have tls: "feed_keeps events_small (feed_into (e2_rustls env) data h2_feed tls h)" for tls using h by (rule feed_into_sink)
  have init: "events_small g \<Longrightarrow> events_small (h2_initiate g)" for g
    by (simp add: events_small_def h2_initiate_def h2_write_def h2_frame_header_def h2_window_update_def Let_def)
  show ?thesis
  proof (cases "c2_tls c")
    case None
    then show ?thesis using assms feed [OF h, of data] unfolding h2w_feed_def Let_def h_def [symmetric]
      by (auto split: sum.splits)
  next
    case (Some s)
    then show ?thesis using assms tls [of s] init unfolding h2w_feed_def Let_def h_def [symmetric]
      by (auto simp: feed_keeps_def split: sum.splits if_splits)
  qed
qed

lemma h2w_on_data_books:
  assumes c: "on_conn2 env w0 i c w"
  shows "handled_ok2 env w0 i (h2w_on_data env now k data bid c w)"
proof (cases "c2_h2 c")
  case (Some h2)
  obtain ok not_h2 h2' c' where f: "h2w_feed env data h2 c = (ok, not_h2, h2', c')" by (metis prod_cases4)
  define w1 where "w1 = (if not_h2 then w2_fail_connect env w else w)"
  define w2 where "w2 = w1\<lparr>w2_ring := recycle_buffer bid (w2_ring w1)\<rparr>"
  define d where "d = c'\<lparr>c2_h2 := Some h2'\<rparr>"
  have "on_conn2 env w0 i c w1" using c by (simp add: w1_def w2_fail_connect_books)
  then have d: "on_conn2 env w0 i d w2" using h2w_feed_keeps [OF f] by (auto simp: w2_def d_def elim: on_conn2_cong)
  let ?R = "(\<Sum>c\<leftarrow>w2_conns w0. owed2 c) - owed2 (w2_conns w0 ! i)"
  have b: "books2 env ?R d (w2_stats w2) (w2_started w2)" using d by (simp add: on_conn2_def)
  have e: "list_all event_small (h2_events h2')" using h2w_feed_keeps [OF f] by (simp add: events_small_def)
  have return: "books2 env ?R g s n \<Longrightarrow> on_conn2 env w0 i g (w2\<lparr>w2_stats := s, w2_started := n\<rparr>)" for g s n
    using d by (simp add: on_conn2_def)
  have "h2w_on_data env now k data bid c w =
      rbind (process_events now (h2_events h2') (d, w2_stats w2, w2_started w2)) (\<lambda>(c, s, started).
        let w = w2\<lparr>w2_stats := s, w2_started := started\<rparr> in
        if \<not> ok \<or> not_h2 \<or> c2_goaway c \<and> ring_len (c2_streams c) = 0 then Inr (True, c, w) else w2_fill env now k c w)"
    unfolding h2w_on_data_def Some option.case f Let_def prod.case w1_def [symmetric] w2_def [symmetric] d_def [symmetric] ..
  then show ?thesis
    by (simp only:) (rule safe_bind [OF process_events_safe [OF b e]], auto simp: Let_def intro!: return w2_fill_books)
qed (simp add: h2w_on_data_def)

lemma h2w_on_recv_books:
  assumes c: "on_conn2 env w0 i c w"
  shows "handled_ok2 env w0 i (h2w_on_recv env now k e c w)"
proof -
  define c1 where "c1 = (if cq_more e then c else c\<lparr>c2_recv_armed := False\<rparr>)"
  define w1 where "w1 = w\<lparr>w2_ring := recycle_buffer (cq_buffer e) (w2_ring w)\<rparr>"
  define w2 where "w2 = w\<lparr>w2_stats := (w2_stats w)\<lparr>st_bytes_received := st_bytes_received (w2_stats w) + nat (cq_result e)\<rparr>\<rparr>"
  have b: "on_conn2 env w0 i c1 w1" "on_conn2 env w0 i c1 w2" using c by (auto simp: c1_def w1_def w2_def elim!: on_conn2_cong)
  have "handled_ok2 env w0 i (rbind (h2w_arm env k c1 w1) (\<lambda>(c, w). Inr (False, c, w)))"
    by (rule safe_bind [OF h2w_arm_books [OF b(1)]]) auto
  then show ?thesis using b(1) h2w_on_data_books [OF b(2)]
    unfolding h2w_on_recv_def Let_def c1_def [symmetric] w1_def [symmetric] w2_def [symmetric] by simp
qed

lemma h2w_handle_books: "on_conn2 env w0 i c w \<Longrightarrow> handled_ok2 env w0 i (h2w_handle env now op k e c w)"
  by (simp add: h2w_handle_def h2w_on_connect_books h2w_on_send_books h2w_on_recv_books)

lemma h2w_replace_books:
  assumes c: "on_conn2 env w0 i c w"
  shows "safe sound2 (\<lambda>(_, w). inv2 env w \<and> length (w2_conns w) = length (w2_conns w0)) (h2w_replace env now i c w)"
proof -
  define c1 where "c1 = c\<lparr>c2_streams := ring_clear (c2_streams c), c2_held := 0\<rparr>"
  define w1 where "w1 = w\<lparr>w2_stats := (w2_stats w)\<lparr>st_errors := st_errors (w2_stats w) + (ring_len (c2_streams c) + c2_held c)\<rparr>\<rparr>"
  have "on_conn2 env w0 i (c2_close now c1) w1" using c
    by (simp add: on_conn2_def books2_def owed2_def conn2_ok_def finished_count_def stats_ok_def c2_close_def c1_def w1_def
        ring_clear_eq ring_new_ok)
  then have put: "inv2 env v \<and> length (w2_conns v) = length (w2_conns w0)" if "w2_conns v = (w2_conns w1)[i := d]" "w2_stats v = w2_stats w1"
    "w2_started v = w2_started w1" "c2_streams d = c2_streams (c2_close now c1)" "c2_held d = c2_held (c2_close now c1)" for v d
    using inv2_put [of env w0 i d w1 v] on_conn2_cong [of env w0 i "c2_close now c1" w1 d w1] that by (simp add: on_conn2_def)
  have conns: "length (w2_conns w1) = length (w2_conns w0)" using c by (simp add: w1_def on_conn2_def)
  have closed: "safe sound2 (\<lambda>(d, r). d = c2_close now c1) (lift_ring (h2w_retire env now c1 r))" for r
    by (rule safe_lift_ring) (auto simp: h2w_retire_def Let_def bind_eq_Some_conv split: if_splits)
  show ?thesis
    unfolding h2w_replace_def c2_fail_inflight_def Let_def prod.case c1_def [symmetric] w1_def [symmetric]
    by (rule safe_bind [OF closed]) (auto simp: put conns split: option.split)
qed

section \<open>Every turn keeps the books\<close>

text \<open>The worker between two steps of its loops: the books balance and the connections are still all there.\<close>

abbreviation kept2 :: "'c env2 \<Rightarrow> nat \<Rightarrow> bool \<times> 'c worker2 \<Rightarrow> bool" where
  "kept2 env n \<equiv> \<lambda>(_, w). inv2 env w \<and> length (w2_conns w) = n"

lemma completion_books:
  fixes w :: "'a worker2"
  assumes "inv2 env w" "length (w2_conns w) = n"
  shows "safe sound2 (kept2 env n) (h2w_completion env now e w)"
proof -
  obtain op k g where d: "decode_user_data (cq_user_data e) = (op, k, g)" by (metis prod_cases3)
  have handled: "safe sound2 (kept2 env n)
      (rbind (h2w_handle env now op k e (w2_conns w ! k) w) (\<lambda>(broken, c, w).
         if broken then h2w_replace env now k c (if c2_handshaking env c then w2_fail_connect env w else w)
         else Inr (True, w\<lparr>w2_conns := (w2_conns w)[k := c]\<rparr>)))" if k: "k < length (w2_conns w)"
  proof (rule safe_bind [OF h2w_handle_books [OF inv2_focus [OF assms(1) k]]])
    fix x :: "bool \<times> 'a conn2 \<times> 'a worker2" assume x: "case x of (broken, c, v) \<Rightarrow> on_conn2 env w k c v"
    obtain broken c v where v: "x = (broken, c, v)" by (metis prod_cases3)
    then have c: "on_conn2 env w k c v" "length (w2_conns v) = n" using x assms(2) by (simp_all add: on_conn2_def)
    then have "on_conn2 env w k c (if c2_handshaking env c then w2_fail_connect env v else v)" by (simp add: w2_fail_connect_books)
    from h2w_replace_books [OF this, of now] inv2_put [OF c(1), of "v\<lparr>w2_conns := (w2_conns v)[k := c]\<rparr>"]
    show "safe sound2 (kept2 env n) (case x of (broken, c, w) \<Rightarrow>
        if broken then h2w_replace env now k c (if c2_handshaking env c then w2_fail_connect env w else w)
        else Inr (True, w\<lparr>w2_conns := (w2_conns w)[k := c]\<rparr>))"
      using v c(2) assms(2) by auto
  qed
  have idle: "inv2 env (w\<lparr>w2_ring := r\<rparr>)" "inv2 env (w\<lparr>w2_stop := b\<rparr>)" for r b using assms(1) by (simp_all add: inv2_def)
  show ?thesis unfolding h2w_completion_def d Let_def prod.case using handled idle assms(2) by simp
qed

lemma expire_one_books:
  assumes w: "inv2 env w" "length (w2_conns w) = n" and k: "k < n"
  shows "safe sound2 (kept2 env n) (h2w_expire_one env now limit k w)"
proof -
  obtain wedged c where t: "c2_timed_out now limit (may_start (e2_budget env) (w2_started w)) (w2_conns w ! k) = (wedged, c)" by fastforce
  then have "c2_streams c = c2_streams (w2_conns w ! k)" "c2_held c = c2_held (w2_conns w ! k)"
    by (auto simp: c2_timed_out_def split: option.splits)
  then have c: "on_conn2 env w k c w" using inv2_focus [OF w(1), of k] k w(2) by (auto elim: on_conn2_cong)
  then have "on_conn2 env w k c (if ring_len (c2_streams c) = 0 \<and> c2_held c = 0 then w2_fail_connect env w else w)"
    by (simp add: w2_fail_connect_books)
  from h2w_replace_books [OF this, of now] inv2_put [OF c, of "w\<lparr>w2_conns := (w2_conns w)[k := c]\<rparr>"]
  show ?thesis unfolding h2w_expire_one_def t Let_def prod.case using w(2) by simp
qed

lemma flush_keeps:
  "safe sound2 (\<lambda>(d, r). c2_streams d = c2_streams c \<and> c2_held d = c2_held c) (h2w_flush env k c r)"
proof -
  have send: "c2_streams d = c2_streams c \<Longrightarrow> c2_held d = c2_held c \<Longrightarrow>
      safe sound2 (\<lambda>(d, r). c2_streams d = c2_streams c \<and> c2_held d = c2_held c) (h2w_send env k d r)" for d r
    unfolding h2w_send_def by (rule safe_bind [OF safe_lift_ring [of _ _ "\<lambda>_. True"]]) auto
  show ?thesis
    by (auto simp: h2w_flush_def Let_def intro!: safe_bind [where P = "\<lambda>_. True"] send split: prod.split option.split sum.split)
qed

lemma flush_one_books:
  assumes w: "inv2 env w" "length (w2_conns w) = n"
  shows "safe sound2 (kept2 env n) (h2w_flush_one env k w)"
proof (cases "k < length (w2_conns w)")
  case True
  have put: "kept2 env n (b, w\<lparr>w2_conns := (w2_conns w)[k := c], w2_ring := r\<rparr>)"
    if "c2_streams c = c2_streams (w2_conns w ! k)" "c2_held c = c2_held (w2_conns w ! k)" for b c r
    using inv2_put [OF on_conn2_cong [OF inv2_focus [OF w(1) True] that]] w(2) by simp
  have "safe sound2 (kept2 env n) (rbind (h2w_flush env k (w2_conns w ! k) (w2_ring w)) (\<lambda>(c, r).
        Inr (True, w\<lparr>w2_conns := (w2_conns w)[k := c], w2_ring := r\<rparr>)))"
    by (rule safe_bind [OF flush_keeps]) (auto simp: put [simplified])
  then show ?thesis using True by (simp add: h2w_flush_one_def)
qed (simp add: h2w_flush_one_def)

lemma round_books2:
  assumes w: "inv2 env w"
  shows "safe sound2 (\<lambda>(_, w). inv2 env w) (h2w_round env turn w)"
proof -
  obtain now shutdown es where t: "turn = (now, shutdown, es)" by (metis prod_cases3)

  have expire: "safe sound2 (\<lambda>(_, w). inv2 env w) (h2w_expire env now v)" if "inv2 env v" for v
  proof -
    have "safe sound2 (kept2 env (length (w2_conns v))) (worker_loop (h2w_expire_one env now limit) [0..<length (w2_conns v)] v)" for limit
      by (rule worker_loop_safe) (use that in \<open>auto intro: expire_one_books\<close>)
    then have "safe sound2 (\<lambda>(_, w). inv2 env w) (worker_loop (h2w_expire_one env now limit) [0..<length (w2_conns v)] v)" for limit
      by (rule safe_weaken) auto
    then show ?thesis using that by (simp add: h2w_expire_def split: option.split)
  qed
  have completions: "safe sound2 (\<lambda>(_, w). inv2 env w) (worker_loop (h2w_completion env now) es v)" if "inv2 env v" for v
  proof -
    have "safe sound2 (kept2 env (length (w2_conns v))) (worker_loop (h2w_completion env now) es v)"
      by (rule worker_loop_safe) (use that in \<open>auto intro: completion_books\<close>)
    then show ?thesis by (rule safe_weaken) auto
  qed
  have flush: "safe sound2 (\<lambda>(_, w). inv2 env w) (flush_pending env v)" if "inv2 env v" for v
  proof -
    obtain order p where d: "pending_drain (w2_pending v) = (order, p)" by fastforce
    have "inv2 env (v\<lparr>w2_pending := p\<rparr>)" using that by (simp add: inv2_def)
    then have "safe sound2 (kept2 env (length (w2_conns v))) (worker_loop (h2w_flush_one env) order (v\<lparr>w2_pending := p\<rparr>))"
      by (intro worker_loop_safe) (auto intro: flush_one_books)
    then show ?thesis unfolding flush_pending_def d Let_def prod.case by (rule safe_weaken) auto
  qed
  have "safe sound2 (\<lambda>(_, w). inv2 env w) (rbind (lift_ring (ring_call (e2_io env) (w2_ring w))) (\<lambda>r.
        rbind (h2w_expire env now (w\<lparr>w2_ring := r\<rparr>)) (\<lambda>(go, w).
        if \<not> go then Inr (False, w)
        else rbind (worker_loop (h2w_completion env now) es w) (\<lambda>(go, w).
        if \<not> go then Inr (False, w)
        else rbind (flush_pending env w) (\<lambda>(_, w). Inr (\<not> w2_stop w, w))))))"
    by (rule safe_bind [OF safe_lift_ring [of _ _ "\<lambda>_. True"]])
      (use w in \<open>auto simp: inv2_def [of env "w\<lparr>w2_ring := _\<rparr>"] inv2_def [of env w]
        intro!: safe_bind [OF expire] safe_bind [OF completions] safe_bind [OF flush]\<close>)
  then show ?thesis using w by (simp add: h2w_round_def t)
qed

lemma start_books2:
  assumes "h2w_start env now n bufs = Inr w"
  shows "inv2 env w"
proof -
  have zero: "inv2 env ((h2w_setup now n bufs)\<lparr>w2_ring := r\<rparr>)" "length (w2_conns (h2w_setup now n bufs)) = n" for r
    by (simp_all add: inv2_def h2w_setup_def finished_count_def stats_default_def stats_ok_def conn2_ok_def conn2_new_def owed2_def
        ring_new_ok sum_list_replicate map_replicate_const)
  have one: "safe sound2 (kept2 env n) (h2w_connect_one env i v)" if v: "inv2 env v" "length (w2_conns v) = n" "i < n" for i v
  proof -
    have "kept2 env n (b, v\<lparr>w2_conns := (w2_conns v)[i := (w2_conns v ! i)\<lparr>c2_fd := Some fd\<rparr>], w2_ring := r\<rparr>)" for b fd r
      using inv2_put [OF on_conn2_cong [OF inv2_focus [OF v(1), of i], of "(w2_conns v ! i)\<lparr>c2_fd := Some fd\<rparr>" v]] v by simp
    then show ?thesis unfolding h2w_connect_one_def using v
      by (auto intro!: safe_bind [OF safe_lift_ring [of _ _ "\<lambda>_. True"]])
  qed
  have "safe sound2 (kept2 env n) (worker_loop (h2w_connect_one env) [0..<n] ((h2w_setup now n bufs)\<lparr>w2_ring := r\<rparr>))" for r
    by (rule worker_loop_safe) (use zero one in simp_all)
  then have "worker_loop (h2w_connect_one env) [0..<n] ((h2w_setup now n bufs)\<lparr>w2_ring := r\<rparr>) = Inr (go, w) \<Longrightarrow> inv2 env w" for r go
    using safe_Inr by fastforce
  then show ?thesis using assms by (auto simp: h2w_start_def Let_def)
qed

interpretation h2_books: worker_books e2_budget w2_stats w2_started "\<lambda>w. \<Sum>c\<leftarrow>w2_conns w. owed2 c" inv2
  h2w_round "\<lambda>_ _ _. True"
proof
  fix env :: "'a env2" and w w' :: "'a worker2" and n go t
  assume w: "inv2 env w"
  then show "finished_count (w2_stats w) + (\<Sum>c\<leftarrow>w2_conns w. owed2 c) = w2_started w \<and> stats_ok (w2_stats w)"
    by (simp add: inv2_def)
  show "w2_started w \<le> n" if "e2_budget env = Requests n" using w that by (simp add: inv2_def)
  show "inv2 env w'" if "h2w_round env t w = Inr (go, w')" using safe_Inr [OF round_books2 [OF w] that] by simp
qed

section \<open>Every request is accounted for, retries included\<close>

text \<open>
  C3. Whatever the server sends and however the kernel completes the operations, after any number of turns of the HTTP/2
  worker every request it has started is a completed one, an error, in flight on a stream, or held back by a connection
  to be sent again, and exactly one of these; giving requests back never takes the count of started ones below zero; no
  more are started than were asked for; the latencies and the status table hold one entry per completed request. A
  worker that stops because its requests are done has counted exactly those asked for, and no connection owes one.
\<close>

theorem h2_requests_accounted:
  assumes "h2w_start env now n bufs = Inr w0"
  defines "finished \<equiv> \<lambda>w. st_completed (w2_stats w) + st_errors (w2_stats w)"
    and "owed \<equiv> \<lambda>w. \<Sum>c\<leftarrow>w2_conns w. ring_len (c2_streams c) + c2_held c"
  shows "safe (\<lambda>e. e \<noteq> Underflow) (\<lambda>(go, w).
      finished w + owed w = w2_started w \<and> stats_ok (w2_stats w) \<and>
      (\<forall>m. e2_budget env = Requests m \<longrightarrow>
         w2_started w \<le> m \<and> (is_met (e2_budget env) (finished w) \<longrightarrow> finished w = m \<and> owed w = 0)))
    (worker_loop (h2w_round env) turns w0)"
proof -
  note w0 = start_books2 [OF assms(1)]
  have ok: "safe sound2 (\<lambda>(_, w). inv2 env w) (worker_loop (h2w_round env) turns w0)"
    by (rule worker_loop_safe [OF round_books2 w0])
  show ?thesis
  proof (cases "worker_loop (h2w_round env) turns w0")
    case (Inr r)
    obtain go w where r: "r = (go, w)" by fastforce
    show ?thesis using h2_books.accounted [OF w0 lawful_loop_trivial Inr [unfolded r]]
      by (simp add: Inr r finished_def owed_def finished_count_def owed2_def)
  qed (use ok in simp)
qed

definition h2_sample_env :: "(bytes \<times> bytes) env2" where
  "h2_sample_env =
     \<lparr>e2_block = [0x82], e2_body = [], e2_tls = None, e2_rustls = sample_rustls, e2_full = False, e2_budget = Requests 2,
      e2_timeout = None, e2_parallel = 2, e2_io = \<lparr>io_ok = (\<lambda>n. True), io_fd = (\<lambda>n. n)\<rparr>\<rparr>"

definition h2_sample_bufs :: buf_ring where
  "h2_sample_bufs = \<lparr>br_entries = 1, br_mask = 0, br_tail = 1, br_buffer_size = 100, br_slots = [0]\<rparr>"

text \<open>SETTINGS, a 200 that ends stream 1, and the refusal of stream 3.\<close>

definition h2_answer :: bytes where
  "h2_answer = [0, 0, 0, 4, 0, 0, 0, 0, 0] @ [0, 0, 1, 1, 5, 0, 0, 0, 1, 0x88] @ [0, 0, 4, 3, 0, 0, 0, 0, 3, 0, 0, 0, 7]"

text \<open>
  One connection, two requests on two streams: the first is answered, the second refused and sent again on a third stream,
  where it meets the end of the connection.
\<close>

definition h2_sample_turns :: "(nat \<times> bool \<times> cqe list) list" where
  "h2_sample_turns =
     [(5, False, [\<lparr>cq_user_data = user_data 0 0 OP_CONNECT, cq_result = 0, cq_buffer = None, cq_more = False, cq_bytes = []\<rparr>]),
      (9, False, [\<lparr>cq_user_data = user_data 0 0 OP_RECV, cq_result = 32, cq_buffer = Some 0, cq_more = True, cq_bytes = h2_answer\<rparr>]),
      (12, False, [\<lparr>cq_user_data = user_data 0 0 OP_RECV, cq_result = 0, cq_buffer = None, cq_more = False, cq_bytes = []\<rparr>]),
      (13, False, [])]"

lemma h2_sample_pending: "pending_drain [1] = ([0], [0])" "pending_drain [0] = ([], [0])"
  by code_simp+

lemma h2_sample_status: "hpack_find_status [0x88] = Inr (Some 200)"
  by (simp add: hpack_find_status.simps hpack_field_def hpack_decode_int_def push_bit_eq_mult STATUS_BY_INDEX_def prefix_decode.simps Let_def)

lemmas h2_eval = h2_sample_env_def h2w_start_def h2w_setup_def h2w_round_def h2w_completion_def h2w_handle_def h2w_on_connect_def
  h2w_on_recv_def h2w_on_data_def h2w_feed_def h2w_arm_def w2_fill_def fill_streams_def open_streams.simps h2w_replace_def
  c2_fail_inflight_def h2w_retire_def c2_close_def c2_handshaking_def h2w_expire_def flush_pending_def h2w_flush_one_def
  h2w_flush_def h2w_send_def h2w_connect_one_def conn2_new_def lift_ring_def
  start_stream_def pump_bodies_def take_output_def h2_initiate_def h2_new_def h2_write_def h2_frame_header_def h2_window_update_def
  h2_can_open_def stream_ids_exhausted_def ring_new_def ring_push_def ring_len_def ring_live_def ring_take_def ring_index_def ring_clear_def
  ring_update_def checked_sub_def ring_settle_def holes_def ring_compact_def
  arm_deadline_def start_connect_def push_send_slice_def push_recv_multi_def push_sqe_def ring_call_def
  recycle_buffer_def h2_sample_bufs_def buf_recycle_def push_entry_def next_generation_eq
  decode_user_data_def user_data_def CONN_IDX_BITS_def OP_CONNECT_def OP_SEND_def OP_RECV_def OP_CONNECT_TIMEOUT_def
  TIMEOUT_USER_DATA_def stats_default_def record_success_def Let_def ASSUMED_MAX_CONCURRENT_def DEFAULT_MAX_FRAME_def
  MAX_STREAM_ID_def COMPACT_FLOOR_def
  pending_new_def pending_mark_def h2_sample_pending

lemmas h2_frame_eval = FRAME_HEADER_LEN_def read_frame_header_def Let_def h2_preface_check_def h2_dispatch_def h2_kinds h2_flags

lemma h2_sample_frames:
  "h2_loop [] c = Inr ([], c)"
  "h2_peer_preface_seen c \<Longrightarrow> h2_header_stream c = 0 \<Longrightarrow> h2_loop [0, 0, 4, 3, 0, 0, 0, 0, 3, 0, 0, 0, 7] c
     = rbind (Inr (finish_with True (Ev_unprocessed 3) 3 c)) (h2_loop [])"
  "h2_peer_preface_seen c \<Longrightarrow> h2_header_stream c = 0 \<Longrightarrow> h2_loop (0 # 0 # 1 # 1 # 5 # 0 # 0 # 0 # 1 # 0x88 # rest) c
     = rbind (Inr (finish_with True (Ev_end 1) 1 (h2_push_event (Ev_status 1 200) c))) (h2_loop rest)"
  "\<not> h2_peer_preface_seen c \<Longrightarrow> h2_max_concurrent_assumed c \<Longrightarrow> h2_header_stream c = 0
     \<Longrightarrow> h2_loop (0 # 0 # 0 # 4 # 0 # 0 # 0 # 0 # 0 # rest) c
     = rbind (Inr (h2_frame_header 0 SETTINGS FLAG_ACK 0
         (c\<lparr>h2_peer_preface_seen := True, h2_max_concurrent := 2 ^ 32 - 1, h2_max_concurrent_assumed := False\<rparr>))) (h2_loop rest)"
  by (subst h2_loop.simps, simp add: h2_frame_eval on_rst_stream_def REFUSED_STREAM_def on_headers_def headers_block_def
      complete_headers_def h2_sample_status is_informational_def on_settings_def)+

lemma h2_sample_run:
  "case h2w_start h2_sample_env 3 1 h2_sample_bufs of Inl _ \<Rightarrow> False | Inr w0 \<Rightarrow>
     (case worker_loop (h2w_round h2_sample_env) h2_sample_turns w0 of Inl _ \<Rightarrow> False
      | Inr (go, w) \<Rightarrow> \<not> go \<and> st_completed (w2_stats w) = 1 \<and> w2_started w = 2)"
  by (simp add: h2_eval h2_sample_turns_def h2_feed_def h2_run_def h2_answer_def ascii_def h2_sample_frames finish_with_def
      finish_stream_def h2_push_event_def)

theorem h2_requests_accounted_witness:
  "\<exists>w0 w. h2w_start h2_sample_env 3 1 h2_sample_bufs = Inr w0 \<and> worker_loop (h2w_round h2_sample_env) h2_sample_turns w0 = Inr (False, w) \<and>
     st_completed (w2_stats w) = 1 \<and> st_errors (w2_stats w) + (\<Sum>c\<leftarrow>w2_conns w. ring_len (c2_streams c) + c2_held c) = 1 \<and>
     length (st_latencies_ns (w2_stats w)) = 1"
proof -
  obtain w0 w where run: "h2w_start h2_sample_env 3 1 h2_sample_bufs = Inr w0"
    "worker_loop (h2w_round h2_sample_env) h2_sample_turns w0 = Inr (False, w)"
    and w: "st_completed (w2_stats w) = 1" "w2_started w = 2"
    using h2_sample_run by (auto split: sum.splits)
  show ?thesis using h2_requests_accounted [OF run(1), of h2_sample_turns] run w by (auto simp: stats_ok_def)
qed

end
