(* ===== verification/Quic_Once.thy ===== *)
theory Quic_Once
  imports Quic_Props
begin

text \<open>
  A QUIC connection reports \<open>Event::Connected\<close> at most once, which the HTTP/3 worker relies on: a second report would set
  up its critical streams again and hide the requests already in flight from its accounts. Only the TLS pump reports
  it, with the 1-RTT keys, and TLS hands those over once.
\<close>

section \<open>What most operations leave alone\<close>

definition tls_view :: "('t, 's) quic \<Rightarrow> 't \<times> nat \<times> nat" where
  "tls_view c = (q_tls c, count_list (q_events c) Ev_connected, q_next_bidi c)"

lemma view_fold: "(\<And>x c. tls_view (f x c) = tls_view c) \<Longrightarrow> tls_view (fold f xs c) = tls_view c"
  by (induction xs arbitrary: c) simp_all

lemma view_push [simp]: "e \<noteq> Ev_connected \<Longrightarrow> tls_view (push_event e c) = tls_view c"
  by (simp add: tls_view_def push_event_def)

lemma view_streams [simp]:
  "tls_view (upd_space sp f1 c) = tls_view c" "tls_view (upd_pair sid f2 c) = tls_view c"
  "tls_view (upd_send sid f3 c) = tls_view c" "tls_view (upd_recv sid f4 c) = tls_view c"
  "tls_view (queue_send sid c) = tls_view c" "tls_view (queue_credit sid c) = tls_view c"
  "tls_view (push_readable sid c) = tls_view c" "tls_view (trim_streams c) = tls_view c"
  "tls_view (quic_settle sid c) = tls_view c" "tls_view (discard_space sp c) = tls_view c"
  by (simp_all add: tls_view_def upd_space_def upd_pair_def upd_send_def upd_recv_def queue_send_def queue_credit_def
      push_readable_def push_event_def trim_streams_def quic_settle_def discard_space_def Let_def split: option.split)

lemma view_fields [simp]:
  "tls_view (c\<lparr>q_needs_send := a1\<rparr>) = tls_view c" "tls_view (c\<lparr>q_streams := a2\<rparr>) = tls_view c"
  "tls_view (c\<lparr>q_unanswered := a3\<rparr>) = tls_view c" "tls_view (c\<lparr>q_reset_pending := a4\<rparr>) = tls_view c"
  "tls_view (c\<lparr>q_retire_pending := a5\<rparr>) = tls_view c" "tls_view (c\<lparr>q_max_data_owed := a6\<rparr>) = tls_view c"
  "tls_view (c\<lparr>q_congestion := a7\<rparr>) = tls_view c" "tls_view (c\<lparr>q_handshake_acked := a8\<rparr>) = tls_view c"
  "tls_view (c\<lparr>q_data_received := a9\<rparr>) = tls_view c" "tls_view (c\<lparr>q_peer_uni := b1\<rparr>) = tls_view c"
  "tls_view (c\<lparr>q_closed := b2\<rparr>) = tls_view c" "tls_view (c\<lparr>q_close_pending := b3\<rparr>) = tls_view c"
  "tls_view (c\<lparr>q_send_queue := b4\<rparr>) = tls_view c" "tls_view (c\<lparr>q_max_data_local := b5\<rparr>) = tls_view c"
  "tls_view (c\<lparr>q_credit_pending := b6\<rparr>) = tls_view c" "tls_view (c\<lparr>q_local_uni := b7\<rparr>) = tls_view c"
  "tls_view (c\<lparr>q_data_sent := b8\<rparr>) = tls_view c" "tls_view (c\<lparr>q_path_response := b9\<rparr>) = tls_view c"
  "tls_view (c\<lparr>q_pto_probes := c1\<rparr>) = tls_view c" "tls_view (c\<lparr>q_pto_count := c2\<rparr>) = tls_view c"
  "tls_view (c\<lparr>q_keepalive_pending := c3\<rparr>) = tls_view c" "tls_view (c\<lparr>q_idle_deadline := c4\<rparr>) = tls_view c"
  "tls_view (c\<lparr>q_next_keepalive := c5\<rparr>) = tls_view c" "tls_view (c\<lparr>q_sent_since_recv := c6\<rparr>) = tls_view c"
  "tls_view (c\<lparr>q_peer_cid := c7\<rparr>) = tls_view c" "tls_view (c\<lparr>q_peer_cids := c8\<rparr>) = tls_view c"
  "tls_view (c\<lparr>q_pto_space := c9\<rparr>) = tls_view c" "tls_view (c\<lparr>q_max_data_peer := d1\<rparr>) = tls_view c"
  "tls_view (c\<lparr>q_max_streams_bidi := d2\<rparr>) = tls_view c" "tls_view (c\<lparr>q_handshake_done := d3\<rparr>) = tls_view c"
  "tls_view (c\<lparr>q_next_uni := d5\<rparr>) = tls_view c"
  by (simp_all add: tls_view_def)

lemma view_lose [simp]: "tls_view (quic_lose w c) = tls_view c" "tls_view (close_transport code w c) = tls_view c"
  "tls_view (quic_close code reason c) = tls_view c"
  by (simp_all add: quic_lose_def close_transport_def quic_close_def)

lemma view_calls [simp]:
  "tls_view (snd (open_uni c)) = tls_view c" "tls_view (snd (quic_write sid data c)) = tls_view c"
  "tls_view (quic_finish sid c) = tls_view c" "tls_view (snd (quic_consume sid f c)) = tls_view c"
  by (simp_all add: open_bi_def open_uni_def send_oneshot_def quic_write_def quic_finish_def quic_consume_def Let_def split_def
      split: option.split sum.split)

lemma view_retire: "quic_retire sid cancel c = Inr c' \<Longrightarrow> tls_view c' = tls_view c"
  by (auto simp: quic_retire_def Let_def split_def split: option.splits if_splits)

text \<open>The connection a step with a result leaves.\<close>

definition left_by :: "('t, 's, 'a \<times> ('t, 's) quic) quic_result \<Rightarrow> ('t, 's) quic" where
  "left_by r = (case r of Inl (e, c) \<Rightarrow> c | Inr (x, c) \<Rightarrow> c)"

lemma left_by_simps [simp]: "left_by (Inl (e, c)) = c" "left_by (Inr (x, c)) = c"
  by (simp_all add: left_by_def)

section \<open>Receiving\<close>

lemma view_on_data:
  "tls_view (left_by (on_request_data sid offset data fin credit pair c)) = tls_view c"
  "tls_view (left_by (on_peer_uni_data sid offset data fin credit c)) = tls_view c"
  by (simp_all add: on_request_data_def on_peer_uni_data_def Let_def tls_view_def upd_pair_def push_readable_def push_event_def
      split: option.split sum.split prod.split)

lemma view_counted:
  assumes "tls_view (left_by r) = v"
  shows "tls_view (outcome (rbind r (\<lambda>(new, c). Inr (c\<lparr>q_data_received := q_data_received c + new\<rparr>)))) = v"
  using assms by (cases r) (auto simp: split_def)

lemma view_on_stream [simp]: "tls_view (outcome (on_stream sid offset data fin c)) = tls_view c"
  unfolding on_stream_def Let_def
  by (simp add: view_counted [OF view_on_data(1)] view_counted [OF view_on_data(2)] del: rbind_simps split: option.split sum.split)

lemma view_on_resets:
  "tls_view (outcome (on_request_reset sid error final_size credit pair c)) = tls_view c"
  "tls_view (outcome (on_peer_uni_reset sid final_size credit c)) = tls_view c"
  by (simp_all add: on_request_reset_def on_peer_uni_reset_def Let_def split: option.split sum.split prod.split)

lemma view_on_reset [simp]: "tls_view (outcome (on_reset sid error final_size c)) = tls_view c"
  by (simp add: on_reset_def Let_def view_on_resets split: option.split sum.split)

lemma view_cids [simp]: "tls_view (retire_before prior c) = tls_view c" "tls_view (move_cid c) = tls_view c"
  by (simp_all add: retire_before_def move_cid_def tls_view_def split: option.split)

lemma view_new_cid [simp]: "tls_view (outcome (on_new_connection_id seq prior cid token c)) = tls_view c"
  unfolding on_new_connection_id_def Let_def by (simp split: option.split sum.split)

lemma view_detect [simp]: "tls_view (snd (detect_space now sp c)) = tls_view c"
proof -
  have lost: "tls_view (on_frame_lost sp f c) = tls_view c" for f and c :: "('a, 'b) quic" by (cases f) simp_all
  have "tls_view (on_packet_lost sp now p c) = tls_view c" for p and c :: "('a, 'b) quic"
    by (simp add: on_packet_lost_def view_fold lost)
  then have "tls_view (on_lost_packets sp ps now c) = tls_view c" for ps and c :: "('a, 'b) quic"
    by (simp add: on_lost_packets_def Let_def view_fold split: option.split)
  then show ?thesis by (simp add: detect_space_def Let_def split_def)
qed

lemma view_on_ack [simp]: "tls_view (on_ack sp largest delay first ranges now c) = tls_view c"
proof -
  have acked: "tls_view (on_frame_acked f c) = tls_view c" for f and c :: "('a, 'b) quic" by (cases f) simp_all
  have "tls_view (on_packet_acked sp p c) = tls_view c" for p and c :: "('a, 'b) quic"
    by (simp add: on_packet_acked_def Let_def view_fold acked split: option.split)
  moreover have "tls_view (take_rtt_sample largest delay now ps c) = tls_view c" for ps and c :: "('a, 'b) quic"
    by (simp add: take_rtt_sample_def tls_view_def Let_def split: option.split)
  ultimately show ?thesis by (simp add: on_ack_def Let_def split_def view_fold view_detect)
qed

text \<open>
  How often \<open>Connected\<close> may still be reported: once if the keys are still to come, and once for each report not yet taken.
\<close>

definition connects :: "('t \<Rightarrow> bool) \<Rightarrow> nat \<Rightarrow> nat \<Rightarrow> ('t, 's) quic \<Rightarrow> bool" where
  "connects given k m c \<longleftrightarrow> (case tls_view c of (t, n, b) \<Rightarrow> of_bool (\<not> given t) + n \<le> k \<and> b = m)"

lemma connects_view: "tls_view c' = tls_view c \<Longrightarrow> connects given k m c' = connects given k m c"
  by (simp add: connects_def)

lemma connects_next: "connects given k m c \<Longrightarrow> q_next_bidi c = m"
  by (simp add: connects_def tls_view_def)

lemma opened_connects:
  assumes "connects given k m c"
  shows "case send_oneshot data c of
      (None, c') \<Rightarrow> connects given k m c' | (Some (sid, n), c') \<Rightarrow> sid = 4 * m \<and> n \<le> length data \<and> connects given k (Suc m) c'"
    "connects given k (q_next_bidi (snd (open_bi c))) (snd (open_bi c))"
  using assms
  by (auto simp: send_oneshot_def open_bi_def connects_def tls_view_def send_write_def client_stream_id.simps Let_def split: option.split prod.split)

lemma connects_tls: "(given (q_tls c) \<Longrightarrow> given tls) \<Longrightarrow> connects given k m c \<Longrightarrow> connects given k m (c\<lparr>q_tls := tls\<rparr>)"
  by (cases "given (q_tls c)"; cases "given tls") (auto simp: connects_def tls_view_def)

lemma pump_loop_connects:
  assumes law: "tls_once given api"
  shows "connects given k m c \<Longrightarrow> connects given k m (outcome (pump_loop n api c))"
proof (induction n arbitrary: c)
  case (Suc n)
  obtain change produced tls where w: "tls_write_hs api (q_tls c) = (change, produced, tls)" by (metis prod_cases3)
  have mono: "given (q_tls c) \<Longrightarrow> given tls"
    and once: "change = Some (Change_one_rtt keys nxt) \<Longrightarrow> \<not> given (q_tls c) \<and> given tls" for keys nxt
    using law w by (auto simp: tls_once_def)
  define sp where "sp = (if sc_keys (q_spaces c Handshake) \<noteq> None then Handshake else Initial)"
  define c1 where "c1 = upd_space sp (\<lambda>s. s\<lparr>sc_crypto_out := sc_crypto_out s @ produced\<rparr>) (c\<lparr>q_tls := tls\<rparr>)"
  have view: "tls_view c1 = (tls, count_list (q_events c) Ev_connected, q_next_bidi c)" by (simp add: c1_def) (simp add: tls_view_def)
  have "connects given k m (c\<lparr>q_tls := tls\<rparr>)" by (rule connects_tls [OF mono Suc.prems])
  then have c1: "connects given k m c1" by (simp add: c1_def connects_def)
  have step: "pump_loop (Suc n) api c =
     (case change of
        Some (Change_handshake keys) \<Rightarrow>
          pump_loop n api ((upd_space Handshake (\<lambda>s. s\<lparr>sc_keys := Some keys\<rparr>) c1)\<lparr>q_needs_send := True\<rparr>)
      | Some (Change_one_rtt keys next) \<Rightarrow>
          rbind (take_peer_params api c1) (\<lambda>c. pump_loop n api ((one_rtt_ready api keys next c)\<lparr>q_needs_send := True\<rparr>))
      | None \<Rightarrow> if produced = [] then Inr c1 else pump_loop n api (c1\<lparr>q_needs_send := True\<rparr>))"
    unfolding c1_def sp_def by (auto simp: w Let_def)
  have same: "connects given k m c' = connects given k m c1" if "tls_view c' = tls_view c1" for c' :: "('a, 'b) quic"
    by (rule connects_view [OF that])
  have params: "tls_view (outcome (take_peer_params api c1)) = tls_view c1"
    by (simp add: take_peer_params_def tls_view_def Let_def split: option.split sum.split)
  show ?case
  proof (cases change)
    case None
    then show ?thesis unfolding step using Suc.IH same c1 by simp
  next
    case (Some x)
    show ?thesis
    proof (cases x)
      case (Change_handshake keys)
      then show ?thesis unfolding step using Some Suc.IH same c1 by simp
    next
      case (Change_one_rtt keys nxt)
      then have g: "\<not> given (q_tls c)" "given tls" using once Some by auto
      show ?thesis
      proof (cases "take_peer_params api c1")
        case (Inl e)
        then show ?thesis unfolding step using Some Change_one_rtt params same c1 by (cases e) simp
      next
        case (Inr c2)
        have "tls_view ((one_rtt_ready api keys nxt c2)\<lparr>q_needs_send := True\<rparr>) = (tls, Suc (count_list (q_events c) Ev_connected), q_next_bidi c)"
          using params view Inr by (simp add: one_rtt_ready_def split: prod.split) (simp add: tls_view_def push_event_def)
        moreover have "Suc (count_list (q_events c) Ev_connected) \<le> k" "q_next_bidi c = m" using Suc.prems g by (simp_all add: connects_def tls_view_def)
        ultimately have "connects given k m ((one_rtt_ready api keys nxt c2)\<lparr>q_needs_send := True\<rparr>)" using g by (simp add: connects_def)
        then show ?thesis unfolding step using Some Change_one_rtt Inr Suc.IH by simp
      qed
    qed
  qed
qed simp

lemma pump_tls_connects: "tls_once given api \<Longrightarrow> connects given k m c \<Longrightarrow> connects given k m (outcome (pump_tls api c))"
  unfolding pump_tls_def by (rule pump_loop_connects)

lemma on_crypto_connects:
  assumes law: "tls_once given api" and c: "connects given k m c"
  shows "connects given k m (outcome (on_crypto api sp offset data c))"
proof -
  have upd: "connects given k m (upd_space sp f c') = connects given k m c'" for f and c' :: "('a, 'b) quic"
    by (rule connects_view) simp
  have closed: "connects given k m (close_transport code w c') = connects given k m c'" for code w and c' :: "('a, 'b) quic"
    by (rule connects_view) simp
  have same: "q_tls (upd_space sp f c) = q_tls c" for f by (simp add: upd_space_def)
  have read: "given (q_tls c) \<Longrightarrow> given (snd (tls_read_hs api bs (q_tls c)))" for bs using law by (simp add: tls_once_def)
  have tls: "connects given k m ((upd_space sp f c)\<lparr>q_tls := snd (tls_read_hs api bs (q_tls c))\<rparr>)" for f bs
    using read c by (intro connects_tls) (simp_all add: upd same)
  show ?thesis using c pump_tls_connects [OF law]
    by (auto simp: on_crypto_def Let_def split_def upd closed same tls split: sum.split)
qed

lemma handle_frame_connects:
  assumes law: "tls_once given api" and c: "connects given k m c"
  shows "connects given k m (outcome (handle_frame api sp now f c))"
proof (cases "\<exists>offset data. f = Crypto offset data")
  case True
  then show ?thesis using on_crypto_connects [OF assms] by auto
next
  case False
  have "tls_view (outcome (handle_frame api sp now f c)) = tls_view c"
    using False
    by (cases f) (simp_all add: on_handshake_done_def on_stop_sending_def on_max_stream_data_def on_path_challenge_def on_close_def
        Let_def split_def tls_view_def [of "c\<lparr>q_path_response := _, q_needs_send := _\<rparr>"] split: option.split)
  then show ?thesis using connects_view c by blast
qed

lemma left_by_bind:
  assumes "P (outcome r)" "\<And>c. P c \<Longrightarrow> P (left_by (f c))"
  shows "P (left_by (rbind r f))"
  using assms by (cases r) (auto simp: outcome_def)

lemma left_by_bind_pair:
  assumes "P (left_by r)" "\<And>x c. P c \<Longrightarrow> P (outcome (f x c))"
  shows "P (outcome (rbind r (\<lambda>(x, c). f x c)))"
  using assms by (cases r) (auto simp: outcome_def)

lemma handle_frames_connects:
  "tls_once given api \<Longrightarrow> connects given k m c \<Longrightarrow> connects given k m (left_by (handle_frames api sp now fs eliciting c))"
proof (induction fs arbitrary: c eliciting)
  case (Cons r fs)
  show ?case
  proof (cases r)
    case (Inr f)
    show ?thesis unfolding Inr handle_frames.simps
      by (rule left_by_bind [where P = "connects given k m"]) (use Cons handle_frame_connects in auto)
  qed (use Cons.prems in simp)
qed simp

lemma accept_packet_connects:
  assumes law: "tls_once given api" and c: "connects given k m c"
  shows "connects given k m (outcome (accept_packet api now sp scid pn plain c))"
proof -
  let ?c = "upd_space sp (\<lambda>s. s\<lparr>sc_largest_received :=
    Some (case sc_largest_received s of Some prev \<Rightarrow> max prev pn | None \<Rightarrow> pn)\<rparr>) (adopt_scid sp scid c)"
  have "tls_view ?c = tls_view c" by (simp add: adopt_scid_def Let_def split: option.split) (simp add: tls_view_def)
  then have "connects given k m ?c" using c connects_view by blast
  then show ?thesis unfolding accept_packet_def Let_def
    by (intro left_by_bind_pair [where P = "connects given k m"]) (use handle_frames_connects [OF law] in \<open>auto simp: connects_def\<close>)
qed

lemma handle_packet_connects:
  assumes law: "tls_once given api" and c: "connects given k m c"
  shows "connects given k m (left_by (handle_packet api now buf c))"
proof -
  have rotate: "tls_view (rotate_keys api pn phase c') = tls_view c'" for pn phase and c' :: "('a, 'b) quic"
    by (simp add: rotate_keys_def Let_def tls_view_def split: option.split prod.split)
  have received: "connects given k m (upd_space sp f c)" "connects given k m (rotate_keys api pn phase (upd_space sp f c))" for sp f pn phase
    using c by (simp_all add: connects_def rotate)
  have accept: "connects given k m (left_by (rbind (accept_packet api now sp scid pn plain c') (\<lambda>c. Inr ((stop, True), c))))"
    if "connects given k m c'" for sp scid pn plain stop and c' :: "('a, 'b) quic"
    by (rule left_by_bind [where P = "connects given k m"]) (simp_all add: accept_packet_connects [OF law that])
  have protected: "connects given k m (left_by (handle_protected api now sp scid pn_offset stop buf c))" for sp scid pn_offset stop
    unfolding handle_protected_def using c received accept [OF received(1)] accept [OF received(2)]
    by (auto simp: Let_def split: option.split prod.split)
  have retry: "connects given k m (left_by (rbind (on_retry api dcid scid token buf c) (\<lambda>c. Inr ((0 :: nat, False), c))))" for dcid scid token
  proof (rule left_by_bind [where P = "connects given k m"])
    have "tls_view (outcome (on_retry api dcid scid token buf c)) = tls_view c"
      by (simp add: on_retry_def Let_def split: option.split) (simp add: tls_view_def)
    then show "connects given k m (outcome (on_retry api dcid scid token buf c))" using c connects_view by blast
  qed simp
  have version: "connects given k m (on_version_negotiation dcid scid versions c)" for dcid scid versions
    using c by (simp add: on_version_negotiation_def connects_def)
  show ?thesis unfolding handle_packet_def using c protected retry version by (simp split: sum.split incoming.split)
qed

lemma datagram_loop_connects:
  "tls_once given api \<Longrightarrow> connects given k m c \<Longrightarrow> connects given k m (left_by (datagram_loop api now buf processed c))"
proof (induction api now buf processed c rule: datagram_loop.induct)
  case (1 api now buf processed c)
  note packet = handle_packet_connects [OF "1.prems", of now buf]
  show ?case
  proof (cases "buf = []")
    case True
    then show ?thesis using "1.prems" by (simp add: datagram_loop.simps)
  next
    case False
    show ?thesis
    proof (cases "handle_packet api now buf c")
      case (Inl r)
      then show ?thesis using packet False
        by (cases r; cases "fst r") (auto simp: datagram_loop.simps [of api now buf] connects_def)
    next
      case (Inr r)
      obtain consumed ok c1 where r: "r = ((consumed, ok), c1)" by (metis prod.exhaust)
      then show ?thesis using packet Inr False "1.IH" "1.prems"(1)
        by (auto simp: datagram_loop.simps [of api now buf])
    qed
  qed
qed

lemma handle_datagram_connects:
  assumes "tls_once given api" "connects given k m c"
  shows "connects given k m (outcome (handle_datagram api now datagram c))"
proof -
  have arm: "tls_view (note_received now c') = tls_view c'" for c' :: "('a, 'b) quic"
    by (simp add: note_received_def arm_idle_def Let_def)
  have "connects given k m (outcome (rbind (datagram_loop api now datagram False c) (\<lambda>(processed, c).
        case processed of
          None \<Rightarrow> Inr c
        | Some True \<Rightarrow> Inr (note_received now c)
        | Some False \<Rightarrow>
            (case stateless_reset_tail datagram of
               None \<Rightarrow> Inr c
             | Some tail \<Rightarrow> Inr (if is_stateless_reset tail c then quic_lose Stateless_reset c else c)))))"
    using datagram_loop_connects [OF assms, of now datagram False]
    by (rule left_by_bind_pair [where P = "connects given k m"]) (auto simp: arm connects_def split: option.split bool.split)
  then show ?thesis using assms(2) by (simp add: handle_datagram_def)
qed

lemma view_timeout [simp]: "tls_view (handle_timeout now c) = tls_view c"
  by (simp add: handle_timeout_def Let_def view_fold split: option.split prod.split)

section \<open>Sending\<close>

lemma view_credit: "tls_view (fl_conn (grant_credit sid fl)) = tls_view (fl_conn fl)"
  by (simp add: grant_credit_def add_frame_def on_conn_def split: option.split prod.split)

lemma view_send_turn:
  "(\<And>s c. tls_view (put s c) = tls_view c) \<Longrightarrow> tls_view (fl_conn (send_turn avail sid send put fl)) = tls_view (fl_conn fl)"
  by (simp add: send_turn_def add_frame_def on_conn_def Let_def split: option.split prod.split)

lemma view_loops:
  "tls_view (fl_conn (credit_loop budget n fl)) = tls_view (fl_conn fl)"
  "tls_view (fl_conn (retire_loop budget n fl)) = tls_view (fl_conn fl)"
  "tls_view (fl_conn (reset_loop budget n fl)) = tls_view (fl_conn fl)"
proof (induction n arbitrary: fl)
  case (Suc n)
  {
    case 1
    then show ?case by (simp add: Let_def Suc view_credit on_conn_def)
  next
    case 2
    then show ?case by (simp add: Let_def Suc add_frame_def on_conn_def)
  next
    case 3
    then show ?case by (simp add: Let_def Suc add_frame_def on_conn_def split: prod.split)
  }
qed simp_all

lemma view_uni_loop: "tls_view (fl_conn (uni_loop budget ids fl)) = tls_view (fl_conn fl)"
  by (induction ids arbitrary: fl) (simp_all add: Let_def view_send_turn split: prod.split)

lemma view_queue_loop: "tls_view (fl_conn (queue_loop budget n fl)) = tls_view (fl_conn fl)"
proof (induction n arbitrary: fl)
  case (Suc n)
  have "tls_view (fl_conn (queue_turn avail sid fl)) = tls_view (fl_conn fl)" for avail sid and fl :: "('a, 'b) filling"
    by (simp add: queue_turn_def Let_def on_conn_def view_send_turn split: option.split)
  then show ?case by (simp add: Let_def Suc on_conn_def split: list.split)
qed simp

lemma view_crypto_loop: "tls_view (fl_conn (crypto_loop budget sp fl)) = tls_view (fl_conn fl)"
proof (induction budget sp fl rule: crypto_loop.induct)
  case (1 budget sp fl)
  show ?case using 1 by (subst crypto_loop.simps) (auto simp: Let_def on_conn_def add_frame_def)
qed

lemma fill_payload_view:
  assumes "fill_payload sp now budget congested c = r"
  shows "case r of Inl (e, c') \<Rightarrow> tls_view c' = tls_view c | Inr (a, fl) \<Rightarrow> tls_view (fl_conn fl) = tls_view c"
proof -
  let ?fl0 = "\<lparr>fl_out = [], fl_frames = [], fl_eliciting = False, fl_conn = c\<rparr>"
  have ack: "case fill_ack sp now budget ?fl0 of Inl (e, c') \<Rightarrow> tls_view c' = tls_view c | Inr (a, fl) \<Rightarrow> tls_view (fl_conn fl) = tls_view c"
    by (simp add: fill_ack_def Let_def on_conn_def split: option.split)
  have data: "tls_view (fl_conn (fill_data_payload budget congested fl)) = tls_view (fl_conn fl)" for fl :: "('a, 'b) filling"
    by (simp add: fill_data_payload_def fill_max_data_def Let_def view_loops view_uni_loop view_queue_loop on_conn_def add_frame_def)
  have rest: "tls_view (fl_conn (fill_keepalive sp budget (fill_probe sp budget fl))) = tls_view (fl_conn fl)" for sp and fl :: "('a, 'b) filling"
    by (simp add: fill_keepalive_def fill_probe_def ping_if_quiet_def on_conn_def add_frame_def)
  have path: "tls_view (fl_conn (fill_path_response sp budget fl)) = tls_view (fl_conn fl)" for sp and fl :: "('a, 'b) filling"
    by (simp add: fill_path_response_def Let_def on_conn_def split: option.split)
  show ?thesis using ack assms unfolding fill_payload_def
    by (cases "fill_ack sp now budget ?fl0")
      (auto simp: Let_def path rest data view_crypto_loop on_conn_def split: option.split)
qed

lemma write_packet_view: "tls_view (left_by (write_packet sp now used congested pad_to c)) = tls_view c"
proof -
  have sent: "tls_view (record_sent sp now pn ack size fl) = tls_view (fl_conn fl)" for pn ack size and fl :: "('a, 'b) filling"
    by (simp add: record_sent_def note_sent_def arm_idle_def Let_def)
  obtain head off len where h: "packet_header sp c = (head, off, len)" by (metis prod_cases3)
  define budget where "budget = (case pad_to of Some t \<Rightarrow> t | None \<Rightarrow> MAX_DATAGRAM) - (used + length head + TAG_LEN)"
  show ?thesis using fill_payload_view [of sp now budget congested c, OF refl]
    by (cases "fill_payload sp now budget congested c")
      (auto simp: write_packet_def h Let_def budget_def [symmetric] sent split: option.split sum.split)
qed

lemma poll_transmit_connects:
  assumes law: "tls_once given api" and c: "connects given k m c"
  shows "connects given k m (left_by (poll_transmit api now pad_to c))"
proof -
  have loop: "tls_view (left_by (transmit_loop sps now congested pad_to out c)) = tls_view c" for sps congested out and c :: "('a, 'b) quic"
  proof (induction sps arbitrary: out c)
    case (Cons sp sps)
    define pad where "pad = (if sp = Initial \<and> \<not> q_handshake_done c then Some MIN_INITIAL_DATAGRAM else pad_to)"
    show ?case using write_packet_view [of sp now "length out" congested pad c] Cons.IH
      by (cases "write_packet sp now (length out) congested pad c") (auto simp: Let_def pad_def [symmetric] split: option.split)
  qed simp
  have arm: "tls_view (if b then arm_idle now c else c) = tls_view c" for b and c :: "('a, 'b) quic" by (simp add: arm_idle_def Let_def)
  show ?thesis
  proof (cases "q_closed c \<noteq> None \<and> q_close_pending c = None")
    case True
    then show ?thesis using c by (simp add: poll_transmit_def)
  next
    case False
    show ?thesis
    proof (cases "pump_tls api c")
      case (Inl e)
      then show ?thesis using pump_tls_connects [OF law c] False by (cases e) (auto simp: poll_transmit_def)
    next
      case (Inr c1)
      define congested where "congested = (\<not> can_send (sum_list (map (\<lambda>sp. bytes_in_flight (sc_sent (q_spaces c1 sp))) space_ALL)) (q_congestion c1))"
      have "connects given k m c1" using pump_tls_connects [OF law c] Inr by simp
      then show ?thesis using loop [of space_ALL congested "[]" c1] False Inr
        by (cases "transmit_loop space_ALL now congested pad_to [] c1")
          (auto simp: poll_transmit_def Let_def congested_def [symmetric] connects_def arm)
    qed
  qed
qed

section \<open>Runs\<close>

lemma connect_connects: "quic_connect api start_tls e1 e2 i = Some c \<Longrightarrow> connects given 1 0 c"
  by (auto simp: quic_connect_def Let_def connects_def tls_view_def split: option.splits)

lemma quic_step_connects:
  assumes law: "tls_once given api" and c: "connects given k m c" and step: "quic_step api op (log, c) = Inr (log', c')"
  shows "connects given (k - count_list (drop (length log) log') Ev_connected) (q_next_bidi c') c' \<and> take (length log) log' = log
    \<and> count_list (drop (length log) log') Ev_connected \<le> k"
proof -
  have kept: ?thesis if "log' = log" "connects given k n c'" for n using that connects_next [OF that(2)] by simp
  have viewed: ?thesis if "log' = log \<and> tls_view c' = tls_view c" using kept [of m] that c connects_view by metis
  show ?thesis
  proof (cases op)
    case (Op_datagram now bs)
    then show ?thesis using step handle_datagram_connects [OF law c, of now bs] by (intro kept) auto
  next
    case (Op_transmit now pad)
    then show ?thesis using step poll_transmit_connects [OF law c, of now pad] by (intro kept) auto
  next
    case (Op_retire sid cancel)
    then show ?thesis using step view_retire [of sid cancel c] c by (intro kept) (auto simp: connects_def)
  next
    case Op_poll
    then show ?thesis using step c
      by (cases "q_events c") (auto simp: poll_event_def connects_def tls_view_def split: if_splits)
  next
    case Op_open_bi
    then show ?thesis using step opened_connects(2) [OF c] by (intro kept) auto
  next
    case (Op_oneshot data)
    have "\<exists>n. connects given k n (snd (send_oneshot data c))"
      using opened_connects(1) [OF c, of data] by (cases "send_oneshot data c") (auto split: option.splits)
    then show ?thesis using Op_oneshot step kept by auto
  qed (rule viewed, use step in fastforce)+
qed

lemma quic_run_connects:
  "tls_once given api \<Longrightarrow> connects given (n - count_list log Ev_connected) (q_next_bidi c) c \<Longrightarrow> count_list log Ev_connected \<le> n
   \<Longrightarrow> quic_run api ops (log, c) = Inr (log', c')
   \<Longrightarrow> connects given (n - count_list log' Ev_connected) (q_next_bidi c') c' \<and> count_list log' Ev_connected \<le> n"
proof (induction ops arbitrary: log c)
  case (Cons op ops)
  obtain log1 c1 where one: "quic_step api op (log, c) = Inr (log1, c1)" and rest: "quic_run api ops (log1, c1) = Inr (log', c')"
    using Cons.prems(4) by fastforce
  note s = quic_step_connects [OF Cons.prems(1,2) one]
  then have log1: "count_list log1 Ev_connected = count_list log Ev_connected + count_list (drop (length log) log1) Ev_connected"
    by (metis append_take_drop_id count_list_append)
  have "connects given (n - count_list log1 Ev_connected) (q_next_bidi c1) c1" "count_list log1 Ev_connected \<le> n"
    using s Cons.prems(3) log1 by (simp_all add: diff_diff_left) linarith
  then show ?case using Cons.IH [OF Cons.prems(1) _ _ rest] by blast
qed simp

text \<open>
  Over any run of a connection, \<open>Connected\<close> is reported at most once, and never before TLS has handed over the 1-RTT keys
  it stands for. TLS is assumed to hand them over once.
\<close>

theorem quic_connected_once:
  assumes "tls_once given api" "quic_connect api start_tls e1 e2 i = Some c0" "quic_run api ops ([], c0) = Inr (log, c)"
  shows "count_list (log @ q_events c) Ev_connected \<le> 1 \<and> (Ev_connected \<in> set (log @ q_events c) \<longrightarrow> given (q_tls c))"
proof -
  have "connects given (1 - count_list log Ev_connected) (q_next_bidi c) c \<and> count_list log Ev_connected \<le> 1"
    by (rule quic_run_connects [OF assms(1) _ _ assms(3)]) (use connect_connects [OF assms(2)] connects_next [OF connect_connects [OF assms(2)]] in simp_all)
  moreover have "Ev_connected \<in> set (log @ q_events c) \<longrightarrow> count_list (log @ q_events c) Ev_connected \<noteq> 0"
    by (simp add: count_list_0_iff)
  ultimately show ?thesis
    by (cases "given (q_tls c)") (simp_all add: connects_def tls_view_def, linarith+)
qed

theorem quic_connected_once_witness:
  "\<exists>c. quic_run sample_api sample_ops ([], sample_conn) = Inr ([Ev_connected], c) \<and>
     count_list ([Ev_connected] @ q_events c) Ev_connected \<le> 1 \<and> 3 \<le> q_tls c"
proof -
  obtain c where run: "quic_run sample_api sample_ops ([], sample_conn) = Inr ([Ev_connected], c)" using sample_run by blast
  show ?thesis using quic_connected_once [OF sample_tls_once sample_connect run] run by auto
qed

end
