(* ===== verification/H3_Udp.thy ===== *)
theory H3_Udp
  imports Quic_Sample
begin

text \<open>
  How the HTTP/3 worker moves datagrams (\<open>http3.rs\<close>, \<open>http3/recv.rs\<close>): the batches it builds for UDP GSO, which the
  kernel cuts apart again, and the batches UDP GRO hands it, which it cuts apart itself. What \<open>RecvMsgOut::parse\<close> and
  the control message macros of libc do is a parameter.
\<close>

section \<open>Sending\<close>

definition NEARLY_FULL :: nat where "NEARLY_FULL = MAX_DATAGRAM - 64"
definition GSO_SEGMENTS :: nat where "GSO_SEGMENTS = 64"
definition GSO_MAX_PAYLOAD :: nat where "GSO_MAX_PAYLOAD = 65507"

record datagram =
  dg_buf :: bytes
  dg_segment_size :: nat

text \<open>
  The loop of \<open>pump_transmits\<close>: the buffer, the segment size and the number of segments so far. A packet too large to be
  a segment comes back on its own.
\<close>

function transmit_batch ::
    "('t, 's) tls_api \<Rightarrow> nat \<Rightarrow> nat \<Rightarrow> bytes \<Rightarrow> nat \<Rightarrow> nat \<Rightarrow> ('t, 's) quic
     \<Rightarrow> ('t, 's, (bytes \<times> nat \<times> nat \<times> bytes option) \<times> ('t, 's) quic) quic_result" where
  "transmit_batch api now most buf segment_size cnt q =
     (if \<not> cnt < most then Inr ((buf, segment_size, cnt, None), q)
      else
        let pad = (if cnt > 0 then Some segment_size else None) in
        case poll_transmit api now pad q of
          Inl e \<Rightarrow> Inl e
        | Inr (out, q) \<Rightarrow>
            let n = length out in
            if n = 0 then Inr ((buf, segment_size, cnt, None), q)
            else if cnt = 0 then
              let segment_size = n; most = min most (GSO_MAX_PAYLOAD div segment_size) in
              if n < NEARLY_FULL then Inr ((buf @ out, segment_size, 1, None), q)
              else transmit_batch api now most (buf @ out) segment_size (cnt + 1) q
            else if n < segment_size then Inr ((buf @ out, segment_size, cnt + 1, None), q)
            else if n > segment_size then Inr ((buf, segment_size, cnt, Some out), q)
            else transmit_batch api now most (buf @ out) segment_size (cnt + 1) q)"
  by pat_completeness auto
termination
  by (relation "measure (\<lambda>(_, _, most, _, _, cnt, _). most - cnt)") auto

declare transmit_batch.simps [simp del]

text \<open>How many segments a batch may have.\<close>

definition batch_limit :: "bool \<Rightarrow> bool \<Rightarrow> nat" where
  "batch_limit gso probing = (if probing then 2 else if gso then GSO_SEGMENTS else 1)"

text \<open>What \<open>pump_transmits\<close> queues.\<close>

definition pump_datagrams ::
    "('t, 's) tls_api \<Rightarrow> nat \<Rightarrow> bool \<Rightarrow> ('t, 's) quic \<Rightarrow> ('t, 's, datagram list \<times> ('t, 's) quic) quic_result" where
  "pump_datagrams api now gso q =
     rbind (transmit_batch api now (batch_limit gso (quic_probing q)) [] 0 0 q) (\<lambda>((buf, segment_size, cnt, oversize), q).
     Inr ((if buf = [] then [] else [\<lparr>dg_buf = buf, dg_segment_size = (if cnt > 1 then segment_size else 0)\<rparr>])
        @ (case oversize of None \<Rightarrow> [] | Some out \<Rightarrow> [\<lparr>dg_buf = out, dg_segment_size = 0\<rparr>]), q))"

text \<open>What leaves the host: the kernel cuts a send with a segment size, and sends any other as it is.\<close>

definition on_wire :: "datagram \<Rightarrow> bytes list" where
  "on_wire d = (if dg_segment_size d > 0 then chunks (dg_segment_size d) (dg_buf d) else [dg_buf d])"


text \<open>The datagrams a connection hands out one after the other, whatever padding is asked for.\<close>

inductive polled :: "('t, 's) tls_api \<Rightarrow> nat \<Rightarrow> ('t, 's) quic \<Rightarrow> bytes list \<Rightarrow> ('t, 's) quic \<Rightarrow> bool" for api now where
  polled_done: "polled api now q [] q"
| polled_none: "poll_transmit api now pad q = Inr ([], q') \<Longrightarrow> polled api now q [] q'"
| polled_next: "poll_transmit api now pad q = Inr (out, q1) \<Longrightarrow> out \<noteq> [] \<Longrightarrow> polled api now q1 outs q' \<Longrightarrow> polled api now q (out # outs) q'"

text \<open>Segments of a batch that is still open.\<close>

definition batch_of :: "nat \<Rightarrow> nat \<Rightarrow> nat \<Rightarrow> bytes \<Rightarrow> bytes list \<Rightarrow> bool" where
  "batch_of most seg cnt buf ds \<longleftrightarrow>
     concat ds = buf \<and> length ds = cnt \<and> (\<forall>d \<in> set (butlast ds). length d = seg) \<and> (\<forall>d \<in> set ds. d \<noteq> [] \<and> length d \<le> seg) \<and>
     cnt \<le> max 1 most \<and> (cnt > 0 \<longrightarrow> 0 < seg)"

lemma batch_append:
  assumes "batch_of most seg cnt buf ds" "0 < cnt" "cnt < most" "\<forall>d \<in> set ds. length d = seg" "out \<noteq> []" "length out \<le> seg"
  shows "batch_of most seg (cnt + 1) (buf @ out) (ds @ [out])"
  using assms by (auto simp: batch_of_def butlast_append)

lemma transmit_batch_segments:
  assumes "transmit_batch api now most buf seg cnt q = Inr ((buf', seg', cnt', oversize), q')"
    "cnt > 0" "batch_of most seg cnt buf ds" "\<forall>d \<in> set ds. length d = seg"
  shows "\<exists>ds'. batch_of most seg cnt' buf' (ds @ ds') \<and> seg' = seg
    \<and> polled api now q (ds' @ (case oversize of None \<Rightarrow> [] | Some out \<Rightarrow> [out])) q'"
  using assms
proof (induction api now most buf seg cnt q arbitrary: ds rule: transmit_batch.induct)
  case (1 api now most buf seg cnt q)
  note step = transmit_batch.simps [of api now most buf seg cnt q]
  have stop: ?case if "(buf', seg', cnt', oversize) = (buf, seg, cnt, None)" "polled api now q [] q'"
    using that "1.prems"(3) by (intro exI [of _ "[]"]) simp
  show ?case
  proof (cases "cnt < most")
    case False
    then show ?thesis using "1.prems"(1) step by (intro stop) (auto intro: polled.intros)
  next
    case True
    obtain out q1 where p: "poll_transmit api now (Some seg) q = Inr (out, q1)"
      using "1.prems"(1,2) True step by (auto simp: Let_def split: sum.splits)
    show ?thesis
    proof (cases "out = []")
      case True
      then show ?thesis using "1.prems"(1,2) \<open>cnt < most\<close> step p
        by (intro stop) (auto simp: Let_def intro: polled.intros(2))
    next
      case False
      note run = "1.prems"(1) [unfolded step] True p False "1.prems"(2)
      consider "length out < seg" | "length out > seg" | "length out = seg" by linarith
      then show ?thesis
      proof cases
        case 1
        then have "buf' = buf @ out" "seg' = seg" "cnt' = cnt + 1" "oversize = None" "q' = q1"
          using run by (auto simp: Let_def)
        then show ?thesis using batch_append [OF "1.prems"(3,2) True "1.prems"(4) False] "1" p False
          by (intro exI [of _ "[out]"]) (auto intro: polled_next [OF p False polled_done])
      next
        case 2
        then have "buf' = buf" "seg' = seg" "cnt' = cnt" "oversize = Some out" "q' = q1"
          using run by (auto simp: Let_def)
        then show ?thesis using "1.prems"(3) p False by (intro exI [of _ "[]"]) (auto intro: polled_next [OF p False polled_done])
      next
        case 3
        then have rec: "transmit_batch api now most (buf @ out) seg (cnt + 1) q1 = Inr ((buf', seg', cnt', oversize), q')"
          using run by (auto simp: Let_def)
        have "batch_of most seg (cnt + 1) (buf @ out) (ds @ [out])" "\<forall>d \<in> set (ds @ [out]). length d = seg"
          using batch_append [OF "1.prems"(3,2) True "1.prems"(4) False] 3 "1.prems"(4) by auto
        then obtain ds' where "batch_of most seg cnt' buf' ((ds @ [out]) @ ds')" "seg' = seg"
            "polled api now q1 (ds' @ (case oversize of None \<Rightarrow> [] | Some out \<Rightarrow> [out])) q'"
          using "1.IH"(2) [where ds = "ds @ [out]", OF _ _ p refl refl _ _ _ _ rec] run 3 by auto
        then show ?thesis using p False by (intro exI [of _ "out # ds'"]) (auto intro: polled.intros(3))
      qed
    qed
  qed
qed


lemma transmit_batch_exact:
  assumes run: "transmit_batch api now most [] 0 0 q = Inr ((buf, seg, cnt, oversize), q')" and most: "0 < most"
  shows "\<exists>m ds. m \<le> most \<and> m * seg \<le> GSO_MAX_PAYLOAD \<and> batch_of m seg cnt buf ds
    \<and> polled api now q (ds @ (case oversize of None \<Rightarrow> [] | Some out \<Rightarrow> [out])) q'"
proof -
  note step = transmit_batch.simps [of api now most "[]" 0 0 q]
  obtain out q1 where p: "poll_transmit api now None q = Inr (out, q1)"
    using run most step by (auto simp: Let_def split: sum.splits)
  show ?thesis
  proof (cases "out = []")
    case True
    then have "buf = []" "seg = 0" "cnt = 0" "oversize = None" "q' = q1" using run most step p by (auto simp: Let_def)
    then show ?thesis using polled_none [of api now None q q1] p True by (intro exI [of _ 0] exI [of _ "[]"]) (simp add: batch_of_def)
  next
    case False
    define m where "m = min most (GSO_MAX_PAYLOAD div length out)"
    have m: "m \<le> most" "m * length out \<le> GSO_MAX_PAYLOAD"
      using le_trans [OF mult_le_mono1 div_times_less_eq_dividend, of m GSO_MAX_PAYLOAD "length out"] by (simp_all add: m_def)
    have one: "batch_of m (length out) 1 out [out]" using False by (simp add: batch_of_def)
    show ?thesis
    proof (cases "length out < NEARLY_FULL")
      case True
      then have "buf = out" "seg = length out" "cnt = 1" "oversize = None" "q' = q1" using run most step p False by (auto simp: Let_def)
      then show ?thesis using m one polled_next [OF p False polled_done] by (intro exI [of _ m] exI [of _ "[out]"]) simp
    next
      case long: False
      then have "transmit_batch api now m out (length out) 1 q1 = Inr ((buf, seg, cnt, oversize), q')"
        using run most step p False by (simp add: Let_def m_def)
      from transmit_batch_segments [OF this _ one]
      obtain ds where "batch_of m (length out) cnt buf ([out] @ ds)" "seg = length out"
        "polled api now q1 (ds @ (case oversize of None \<Rightarrow> [] | Some out \<Rightarrow> [out])) q'" by auto
      then show ?thesis using m polled_next [OF p False] by (intro exI [of _ m] exI [of _ "out # ds"]) simp
    qed
  qed
qed


lemma concat_length_le: "\<forall>d \<in> set ds. length d \<le> n \<Longrightarrow> length (concat ds) \<le> length ds * n"
  by (induction ds) auto

lemma batch_on_wire:
  assumes "batch_of m seg cnt buf ds" "buf \<noteq> []"
  shows "on_wire \<lparr>dg_buf = buf, dg_segment_size = (if cnt > 1 then seg else 0)\<rparr> = ds"
proof (cases "cnt > 1")
  case True
  have "ds \<noteq> [] \<longrightarrow> last ds \<noteq> [] \<and> length (last ds) \<le> seg" using assms(1) by (auto simp: batch_of_def)
  then show ?thesis using assms(1) True chunks_of_concat [of seg ds] by (auto simp: on_wire_def batch_of_def)
next
  case False
  then have "ds = [] \<or> (\<exists>d. ds = [d])" using assms(1) by (cases ds) (auto simp: batch_of_def)
  then show ?thesis using assms False by (auto simp: on_wire_def batch_of_def)
qed

lemma batch_length:
  assumes "batch_of m seg cnt buf ds" "m * seg \<le> GSO_MAX_PAYLOAD" "cnt > 1"
  shows "length buf \<le> GSO_MAX_PAYLOAD" "seg < 2 ^ 16" "length ds \<le> m"
proof -
  have "cnt \<le> m" using assms(1,3) by (auto simp: batch_of_def max_def split: if_splits)
  then have "cnt * seg \<le> GSO_MAX_PAYLOAD" using le_trans [OF mult_le_mono1 assms(2)] by blast
  moreover have "length buf \<le> cnt * seg" using concat_length_le [of ds seg] assms(1) by (auto simp: batch_of_def)
  ultimately show "length buf \<le> GSO_MAX_PAYLOAD" by simp
  have "2 * seg \<le> cnt * seg" using assms(3) by (intro mult_le_mono1) simp
  then have "2 * seg \<le> GSO_MAX_PAYLOAD" using \<open>cnt * seg \<le> GSO_MAX_PAYLOAD\<close> by linarith
  then show "seg < 2 ^ 16" by (simp add: GSO_MAX_PAYLOAD_def)
  show "length ds \<le> m" using \<open>cnt \<le> m\<close> assms(1) by (simp add: batch_of_def)
qed

text \<open>
  C00. What the kernel puts on the wire for the sends that one pass queues is exactly the datagrams the QUIC connection
  handed out, in that order and cut where they were joined: padding and an oversize packet included. A send the kernel is
  to cut has at most 64 segments, fits one UDP message, and its segment size fits the 16 bits it is passed in.
\<close>

theorem datagrams_reach_the_wire:
  assumes "pump_datagrams api now gso q = Inr (ds, q')"
  shows "polled api now q (concat (map on_wire ds)) q' \<and>
    list_all (\<lambda>d. dg_segment_size d > 0 \<longrightarrow>
      length (dg_buf d) \<le> GSO_MAX_PAYLOAD \<and> length (on_wire d) \<le> GSO_SEGMENTS \<and> dg_segment_size d < 2 ^ 16) ds"
proof -
  define most where "most = batch_limit gso (quic_probing q)"
  have most: "0 < most" "most \<le> GSO_SEGMENTS" by (simp_all add: most_def batch_limit_def GSO_SEGMENTS_def)
  obtain buf seg cnt oversize where t: "transmit_batch api now most [] 0 0 q = Inr ((buf, seg, cnt, oversize), q')"
    and ds: "ds = (if buf = [] then [] else [\<lparr>dg_buf = buf, dg_segment_size = (if cnt > 1 then seg else 0)\<rparr>])
        @ (case oversize of None \<Rightarrow> [] | Some out \<Rightarrow> [\<lparr>dg_buf = out, dg_segment_size = 0\<rparr>])"
    using assms by (auto simp: pump_datagrams_def most_def [symmetric])
  obtain m os where m: "m \<le> most" "m * seg \<le> GSO_MAX_PAYLOAD" and b: "batch_of m seg cnt buf os"
    and polled: "polled api now q (os @ (case oversize of None \<Rightarrow> [] | Some out \<Rightarrow> [out])) q'"
    using transmit_batch_exact [OF t most(1)] by blast
  have "concat (map on_wire ds) = os @ (case oversize of None \<Rightarrow> [] | Some out \<Rightarrow> [out])"
  proof (cases "buf = []")
    case True
    then have "os = []" using b by (cases os) (auto simp: batch_of_def)
    then show ?thesis by (simp add: ds True on_wire_def split: option.split)
  qed (use batch_on_wire [OF b] in \<open>simp add: ds on_wire_def [of "\<lparr>dg_buf = _, dg_segment_size = 0\<rparr>"] split: option.split\<close>)
  moreover have "list_all (\<lambda>d. dg_segment_size d > 0 \<longrightarrow>
      length (dg_buf d) \<le> GSO_MAX_PAYLOAD \<and> length (on_wire d) \<le> GSO_SEGMENTS \<and> dg_segment_size d < 2 ^ 16) ds"
    using batch_length [OF b m(2)] batch_on_wire [OF b] m(1) most(2) by (auto simp: ds split: option.split)
  ultimately show ?thesis using polled by simp
qed


text \<open>A connection that has its 1-RTT keys and says goodbye.\<close>

definition leaving_conn :: "(nat, unit) quic" where
  "leaving_conn = quic_close 0x100 [] (sample_conn\<lparr>q_spaces := (\<lambda>_. space_default), q_one_rtt_local := Some plain_dir\<rparr>)"

lemmas transmit_eval = pump_datagrams_def transmit_batch.simps poll_transmit_def transmit_loop.simps write_packet_def packet_header_def
  fill_payload_def fill_ack_def fill_path_response_def close_bytes_def room_def on_conn_def pad_payload_def seal_packet_def
  record_sent_def batch_limit_def GSO_SEGMENTS_def GSO_MAX_PAYLOAD_def NEARLY_FULL_def on_wire_def

lemma leaving_pump:
  "case pump_datagrams sample_api 5 True leaving_conn of Inl _ \<Rightarrow> False
   | Inr (ds, _) \<Rightarrow> concat (map on_wire ds) = [[0x40, 2, 2, 2, 2, 2, 2, 2, 2, 0, 0x1d, 0x41, 0, 0] @ replicate 31 0]"
  by (simp add: transmit_eval leaving_conn_def sample_eval be_bytes_numeral)

theorem datagrams_reach_the_wire_witness:
  "\<exists>ds q'. pump_datagrams sample_api 5 True leaving_conn = Inr (ds, q') \<and>
     polled sample_api 5 leaving_conn [[0x40, 2, 2, 2, 2, 2, 2, 2, 2, 0, 0x1d, 0x41, 0, 0] @ replicate 31 0] q'"
proof -
  obtain ds q' where "pump_datagrams sample_api 5 True leaving_conn = Inr (ds, q')"
    "concat (map on_wire ds) = [[0x40, 2, 2, 2, 2, 2, 2, 2, 2, 0, 0x1d, 0x41, 0, 0] @ replicate 31 0]"
    using leaving_pump by (auto split: sum.splits)
  then show ?thesis using datagrams_reach_the_wire [of sample_api 5 True leaving_conn ds q'] by auto
qed


section \<open>Receiving\<close>

text \<open>
  What \<open>RecvMsgOut::parse\<close> finds in a buffer for the message header of \<open>template\<close>, and what the control message macros
  of libc and the native layout of \<open>cmsghdr\<close> come to.
\<close>

record recvmsg_out =
  ro_payload :: bytes
  ro_control :: bytes
  ro_payload_truncated :: bool
  ro_control_truncated :: bool
  ro_incoming_payload_len :: nat
  ro_incoming_control_len :: nat

record recvmsg_abi =
  ra_parse :: "bytes \<Rightarrow> recvmsg_out option"
  ra_control_size :: nat
  ra_cmsg_len :: "nat \<Rightarrow> nat"
  ra_header :: "bytes \<Rightarrow> nat \<times> int \<times> int"
  ra_int :: "bytes \<Rightarrow> int"

definition IPPROTO_UDP :: int where "IPPROTO_UDP = 17"
definition UDP_GRO :: int where "UDP_GRO = 104"
definition PREFIX_SIZE :: nat where "PREFIX_SIZE = 4 * 4"

definition payload_offset :: "recvmsg_abi \<Rightarrow> nat" where
  "payload_offset abi = PREFIX_SIZE + ra_control_size abi"

definition recv_buffer_size :: "recvmsg_abi \<Rightarrow> nat" where
  "recv_buffer_size abi = payload_offset abi + 65536"

text \<open>The segment size a control message gives, or the whole payload when it is about something else.\<close>

definition gro_segment :: "recvmsg_abi \<Rightarrow> bytes \<Rightarrow> nat \<Rightarrow> nat option" where
  "gro_segment abi control payload_len =
     (let whole = max payload_len 1 in
      if control = [] then Some whole
      else
        let header_len = ra_cmsg_len abi 0 in
        if length control < header_len then None
        else
          let (len, level, kind) = ra_header abi control in
          if len < header_len \<or> len > length control then None
          else if level = IPPROTO_UDP \<and> kind = UDP_GRO then
            if len \<noteq> ra_cmsg_len abi 4 \<or> payload_len = 0 then None
            else
              let sz = ra_int abi (take 4 (drop header_len control)) in
              if sz \<le> 0 \<or> sz > 2 ^ 16 - 1 then None else Some (nat sz)
          else Some whole)"

definition recv_decode :: "recvmsg_abi \<Rightarrow> bytes \<Rightarrow> (bytes \<times> nat) option" where
  "recv_decode abi buffer =
     (case ra_parse abi buffer of
        None \<Rightarrow> None
      | Some received \<Rightarrow>
          let payload_len = length (ro_payload received) in
          if ro_payload_truncated received \<or> ro_control_truncated received \<or>
             ro_incoming_payload_len received \<noteq> payload_len \<or>
             ro_incoming_control_len received \<noteq> length (ro_control received) \<or>
             payload_offset abi + payload_len \<noteq> length buffer \<or> length buffer > recv_buffer_size abi
          then None
          else map_option (\<lambda>segment_size. (drop (payload_offset abi) buffer, segment_size))
                 (gro_segment abi (ro_control received) payload_len))"

lemma gro_segment_pos: "gro_segment abi control n = Some sz \<Longrightarrow> 0 < sz"
  by (auto simp: gro_segment_def Let_def split: if_splits prod.splits)

lemma recv_decode_chunks:
  assumes "recv_decode abi buffer = Some (payload, sz)"
  shows "0 < sz" "concat (chunks sz payload) = payload" "payload = drop (payload_offset abi) buffer" "length payload \<le> 65536"
  using assms gro_segment_pos
  by (auto simp: recv_decode_def Let_def concat_chunks recv_buffer_size_def split: option.splits if_splits)

end
