(* ===== verification/H3_Conn.thy ===== *)
theory H3_Conn
  imports H3_Udp Quic_Once Status_Table Worker Target Inflight
begin

text \<open>
  A connection of the HTTP/3 worker (\<open>http3.rs\<close>): its streams and requests, what became of requests the server gave
  back, and \<open>drive\<close>, which turns the events of QUIC into completed requests. The buffers a connection keeps for reuse and
  the storage pinned for \<open>sendmsg\<close> have no counterpart.
\<close>

section \<open>State\<close>

definition STREAM_QPACK_ENCODER :: nat where "STREAM_QPACK_ENCODER = 0x02"
definition STREAM_QPACK_DECODER :: nat where "STREAM_QPACK_DECODER = 0x03"
definition H3_NO_ERROR :: nat where "H3_NO_ERROR = 0x100"
definition H3_REQUEST_REJECTED :: nat where "H3_REQUEST_REJECTED = 0x10b"
definition H3_REQUEST_CANCELLED :: nat where "H3_REQUEST_CANCELLED = 0x10c"
definition RECEIVE_WINDOW :: nat where "RECEIVE_WINDOW = 2 ^ 30 - 1"
definition IDLE_TIMEOUT :: nat where "IDLE_TIMEOUT = 30 * 10 ^ 9"
definition CLOSE_GRACE :: nat where "CLOSE_GRACE = 10 ^ 9"

definition build_field_section :: "'a target \<Rightarrow> bytes" where
  "build_field_section t =
     qpack_encode_request (tg_method t) (ascii ''https'') (tg_authority t) (tg_path t) (multiplexed_headers (tg_headers t))
       (length (tg_body t))"

text \<open>\<open>as_millis\<close> of a number of nanoseconds, cast to 64 bits.\<close>

definition as_millis :: "nat \<Rightarrow> nat" where
  "as_millis d = take_bit 64 (d div 10 ^ 6)"

definition h3_local_params :: "nat \<Rightarrow> nat option \<Rightarrow> local_params_input" where
  "h3_local_params connect_timeout timeout =
     \<lparr>in_initial_max_data = RECEIVE_WINDOW, in_initial_max_stream_data = RECEIVE_WINDOW, in_initial_max_streams_uni = 3,
      in_max_idle_timeout_ms = as_millis (max IDLE_TIMEOUT (case timeout of None \<Rightarrow> 0 | Some d \<Rightarrow> d)),
      in_handshake_timeout_ms = as_millis connect_timeout\<rparr>"

record give_backs =
  gb_completed :: nat
  gb_unjudged :: nat
  gb_retried :: nat

definition give_backs_default :: give_backs where
  "give_backs_default = \<lparr>gb_completed = 0, gb_unjudged = 0, gb_retried = 0\<rparr>"

record in_flight3 =
  i3_stream_id :: nat
  i3_start :: nat
  i3_reader :: response_reader
  i3_unsent :: bytes

record h3_init =
  hi_ids :: "nat list"
  hi_preludes :: "bytes list"
  hi_written :: "nat list"

record ('t, 's) conn3 =
  c3_fd :: "nat option"
  c3_quic :: "('t, 's) quic option"
  c3_h3_ready :: bool
  c3_h3_init :: "h3_init option"
  c3_uni :: "(nat \<times> uni_reader) list"
  c3_pending :: bool
  c3_goaway :: "nat option"
  c3_out_queue :: "datagram list"
  c3_sending :: bool
  c3_recv_armed :: bool
  c3_generation :: nat
  c3_streams :: "in_flight3 ring"
  c3_has_unsent :: bool
  c3_give_backs :: give_backs
  c3_closing :: "nat option"

definition conn3_new :: "('t, 's) conn3" where
  "conn3_new =
     \<lparr>c3_fd = None, c3_quic = None, c3_h3_ready = False, c3_h3_init = None, c3_uni = [], c3_pending = False, c3_goaway = None,
      c3_out_queue = [], c3_sending = False, c3_recv_armed = False, c3_generation = 0, c3_streams = ring_new,
      c3_has_unsent = False, c3_give_backs = give_backs_default, c3_closing = None\<rparr>"

text \<open>A send whose connection was closed from under it.\<close>

record retired_send =
  rt_user_data :: nat
  rt_datagram :: datagram

definition c3_close :: "nat \<Rightarrow> ('t, 's) conn3 \<Rightarrow> retired_send list \<Rightarrow> ('t, 's) conn3 \<times> retired_send list" where
  "c3_close conn_idx c retired =
     (let retired = (case c3_out_queue c of
          d # _ \<Rightarrow> if c3_sending c
            then retired @ [\<lparr>rt_user_data = user_data conn_idx (c3_generation c) OP_SEND, rt_datagram = d\<rparr>] else retired
        | [] \<Rightarrow> retired) in
      (c\<lparr>c3_fd := None, c3_quic := None, c3_uni := [], c3_h3_ready := False, c3_h3_init := None, c3_goaway := None,
         c3_out_queue := [], c3_sending := False, c3_recv_armed := False, c3_streams := ring_clear (c3_streams c),
         c3_has_unsent := False, c3_give_backs := give_backs_default, c3_closing := None,
         c3_generation := next_generation (c3_generation c)\<rparr>, retired))"

definition c3_timed_out :: "nat \<Rightarrow> nat \<Rightarrow> ('t, 's) conn3 \<Rightarrow> bool" where
  "c3_timed_out now limit c =
     (case ring_slot 0 (c3_streams c) of None \<Rightarrow> False | Some oldest \<Rightarrow> now - i3_start oldest \<ge> limit)"

definition c3_fail_inflight :: "('t, 's) conn3 \<Rightarrow> stats \<Rightarrow> ('t, 's) conn3 \<times> stats" where
  "c3_fail_inflight c s =
     (c\<lparr>c3_streams := ring_clear (c3_streams c), c3_has_unsent := False,
        c3_give_backs := (c3_give_backs c)\<lparr>gb_unjudged := 0\<rparr>\<rparr>,
      s\<lparr>st_errors := st_errors s + ring_len (c3_streams c) + gb_unjudged (c3_give_backs c)\<rparr>)"

section \<open>Requests given back\<close>

text \<open>\<open>Underflow\<close> stands for the count of started requests going below zero.\<close>

definition give_back :: "nat \<Rightarrow> give_backs \<times> stats \<times> nat \<Rightarrow> (worker_fault, give_backs \<times> stats \<times> nat) result" where
  "give_back parallel x =
     (case x of (g, s, started) \<Rightarrow>
        if gb_completed g = 0 then Inr (g\<lparr>gb_unjudged := gb_unjudged g + 1\<rparr>, s, started)
        else if gb_retried g < parallel * gb_completed g then
          (if started = 0 then Inl Underflow else Inr (g\<lparr>gb_retried := gb_retried g + 1\<rparr>, s, started - 1))
        else Inr (g, s\<lparr>st_errors := st_errors s + 1\<rparr>, started))"

fun give_back_times :: "nat \<Rightarrow> nat \<Rightarrow> give_backs \<times> stats \<times> nat \<Rightarrow> (worker_fault, give_backs \<times> stats \<times> nat) result" where
  "give_back_times 0 parallel x = Inr x"
| "give_back_times (Suc n) parallel x = rbind (give_back parallel x) (give_back_times n parallel)"

definition judge :: "bool \<Rightarrow> nat \<Rightarrow> give_backs \<times> stats \<times> nat \<Rightarrow> (worker_fault, give_backs \<times> stats \<times> nat) result" where
  "judge drained parallel x =
     (case x of (g, s, started) \<Rightarrow>
        if gb_unjudged g = 0 then Inr (g, s, started)
        else if gb_completed g > 0 then give_back_times (gb_unjudged g) parallel (g\<lparr>gb_unjudged := 0\<rparr>, s, started)
        else if drained then Inr (g\<lparr>gb_unjudged := 0\<rparr>, s\<lparr>st_errors := st_errors s + gb_unjudged g\<rparr>, started)
        else Inr (g, s, started))"


section \<open>The critical streams\<close>

text \<open>\<open>open_uni\<close> once for each id; \<open>None\<close> when the peer allows no more.\<close>

fun open_unis :: "nat \<Rightarrow> ('t, 's) quic \<Rightarrow> nat list option \<times> ('t, 's) quic" where
  "open_unis 0 q = (Some [], q)"
| "open_unis (Suc n) q =
     (case open_uni q of
        (None, q) \<Rightarrow> (None, q)
      | (Some sid, q) \<Rightarrow> (case open_unis n q of (ids, q) \<Rightarrow> (map_option ((#) sid) ids, q)))"

definition h3_init_new :: "('t, 's) quic \<Rightarrow> h3_init option \<times> ('t, 's) quic" where
  "h3_init_new q =
     (case open_unis 3 q of
        (None, q) \<Rightarrow> (None, q)
      | (Some ids, q) \<Rightarrow>
          (Some \<lparr>hi_ids = ids,
             hi_preludes = [control_stream_prelude, put_varint STREAM_QPACK_ENCODER, put_varint STREAM_QPACK_DECODER],
             hi_written = [0, 0, 0]\<rparr>, q))"

fun flush_preludes :: "(nat \<times> bytes \<times> nat) list \<Rightarrow> ('t, 's) quic \<Rightarrow> bool \<times> nat list \<times> ('t, 's) quic" where
  "flush_preludes [] q = (True, [], q)"
| "flush_preludes ((sid, prelude, written) # rest) q =
     (let (n, q) = (if written < length prelude then quic_write sid (drop written prelude) q else (0, q));
          (ready, ws, q) = flush_preludes rest q in
      (written + n = length prelude \<and> ready, (written + n) # ws, q))"

definition h3_init_flush :: "h3_init \<Rightarrow> ('t, 's) quic \<Rightarrow> bool \<times> h3_init \<times> ('t, 's) quic" where
  "h3_init_flush i q =
     (let (ready, written, q) = flush_preludes (zip (hi_ids i) (zip (hi_preludes i) (hi_written i))) q in
      (ready, i\<lparr>hi_written := written\<rparr>, q))"

lemma write_events: "q_events (snd (quic_write sid data q)) = q_events q"
  by (simp add: quic_write_def Let_def queue_send_def upd_send_def upd_pair_def split: option.split)

lemma open_unis_events: "open_unis n q = (ids, q') \<Longrightarrow> q_events q' = q_events q"
proof (induction n arbitrary: q ids)
  case (Suc n)
  have "q_events (snd (open_uni q)) = q_events q" by (simp add: open_uni_def Let_def)
  then show ?case using Suc by (auto split: prod.splits option.splits)
qed simp

lemma flush_events: "q_events (snd (snd (h3_init_flush i q))) = q_events q"
proof -
  have "q_events (snd (snd (flush_preludes xs q))) = q_events q" for xs
  proof (induction xs q rule: flush_preludes.induct)
    case (2 sid prelude written rest q)
    then show ?case using write_events [of sid "drop written prelude" q] by (auto simp: Let_def split: prod.splits if_splits)
  qed simp
  then show ?thesis by (simp add: h3_init_flush_def split_def Let_def)
qed

lemma init_events:
  "(i, q1) = h3_init_new q \<Longrightarrow> q_events q1 = q_events q"
  "(ready, i', q') = h3_init_flush i'' q2 \<Longrightarrow> q_events q' = q_events q2"
  using flush_events [of i'' q2]
  by (auto simp: h3_init_new_def dest: open_unis_events split: prod.splits option.splits) (metis snd_conv)

section \<open>Driving a connection\<close>

text \<open>
  What \<open>drive\<close> works on: the QUIC connection, taken out of the connection it belongs to, the rest of that, the
  statistics, and how many requests have been started.
\<close>

type_synonym ('t, 's) driving = "('t, 's) quic \<times> ('t, 's) conn3 \<times> stats \<times> nat"

text \<open>
  The event loop: whether it came to its end, whether the connection is alive, the streams to read and the streams that
  finished.
\<close>

function drive_events ::
    "bool \<Rightarrow> nat list \<Rightarrow> (nat \<times> nat option) list \<Rightarrow> ('t, 's) quic \<Rightarrow> ('t, 's) conn3
     \<Rightarrow> bool \<times> bool \<times> nat list \<times> (nat \<times> nat option) list \<times> ('t, 's) quic \<times> ('t, 's) conn3" where
  "drive_events alive readable finished q c =
     (case poll_event q of
        (None, q) \<Rightarrow> (True, alive, readable, finished, q, c)
      | (Some Ev_connected, q) \<Rightarrow>
          (case h3_init_new q of
             (None, q) \<Rightarrow> (False, alive, readable, finished, q, c)
           | (Some i, q) \<Rightarrow>
               let (ready, i, q) = h3_init_flush i q;
                   c = c\<lparr>c3_h3_ready := ready, c3_h3_init := (if ready then c3_h3_init c else Some i)\<rparr> in
               drive_events alive readable finished q c)
      | (Some (Ev_lost w), q) \<Rightarrow> drive_events False readable finished q c
      | (Some (Ev_readable sid), q) \<Rightarrow> drive_events alive (readable @ [sid]) finished q c
      | (Some (Ev_opened sid), q) \<Rightarrow> drive_events alive (readable @ [sid]) finished q c
      | (Some (Ev_stopped sid), q) \<Rightarrow>
          drive_events alive readable finished q
            (c\<lparr>c3_streams := ring_update 2 0 sid (\<lambda>x. x\<lparr>i3_unsent := []\<rparr>) (c3_streams c)\<rparr>)
      | (Some (Ev_finished sid reset), q) \<Rightarrow> drive_events alive readable (finished @ [(sid, reset)]) q c)"
  by pat_completeness auto
termination
  by (relation "measure (\<lambda>(_, _, _, q, _). length (q_events q))")
    (auto simp: poll_event_def split: list.splits dest!: init_events)

declare drive_events.simps [simp del]


text \<open>
  \<open>consume\<close> with a reader as its callback: the reader after it has seen the bytes that were ready. The state an error
  leaves a reader in is never looked at again.
\<close>

definition consume_into ::
    "nat \<Rightarrow> (bytes \<Rightarrow> 'r \<Rightarrow> (h3_error, 'r) result) \<Rightarrow> 'r \<Rightarrow> ('t, 's) quic \<Rightarrow> (h3_error, 'r) result \<times> ('t, 's) quic" where
  "consume_into sid feed r q =
     (case quic_consume sid (\<lambda>data. rbind (feed data r) (\<lambda>_. Inr ())) q of
        (Inl e, q') \<Rightarrow> (Inl e, q')
      | (Inr _, q') \<Rightarrow>
          (case recv_of sid q of
             None \<Rightarrow> Inr r
           | Some recv \<Rightarrow> if rs_ready recv = [] then Inr r else feed (rs_ready recv) r, q'))"

fun uni_position :: "nat \<Rightarrow> (nat \<times> uni_reader) list \<Rightarrow> nat option" where
  "uni_position sid [] = None"
| "uni_position sid ((uid, _) # us) = (if uid = sid then Some 0 else map_option Suc (uni_position sid us))"

definition drive_uni :: "nat \<Rightarrow> ('t, 's) quic \<Rightarrow> ('t, 's) conn3 \<Rightarrow> bool \<times> ('t, 's) quic \<times> ('t, 's) conn3" where
  "drive_uni sid q c =
     (let (slot, c) = (case uni_position sid (c3_uni c) of
            Some pos \<Rightarrow> (pos, c)
          | None \<Rightarrow> (length (c3_uni c), c\<lparr>c3_uni := c3_uni c @ [(sid, uni_default)]\<rparr>));
          (uid, reader) = c3_uni c ! slot in
      case consume_into sid uni_feed reader q of
        (Inl e, q) \<Rightarrow> (False, q, c)
      | (Inr reader, q) \<Rightarrow>
          let c = c\<lparr>c3_uni := (c3_uni c)[slot := (uid, reader)]\<rparr>;
              c = (case un_goaway reader of
                     None \<Rightarrow> c
                   | Some gone \<Rightarrow> c\<lparr>c3_goaway := Some (case c3_goaway c of None \<Rightarrow> gone | Some prev \<Rightarrow> min prev gone)\<rparr>) in
          (True, q, c))"

text \<open>One readable stream; the flag says whether the reader took what it was given.\<close>

definition drive_readable :: "nat \<Rightarrow> ('t, 's) quic \<times> ('t, 's) conn3 \<Rightarrow> (worker_fault, bool \<times> ('t, 's) quic \<times> ('t, 's) conn3) result" where
  "drive_readable sid x =
     (case x of (q, c) \<Rightarrow>
        (case ring_get 2 0 sid (c3_streams c) of
           Some inflight \<Rightarrow>
             (case consume_into sid reader_feed (i3_reader inflight) q of
                (Inl e, q) \<Rightarrow> Inr (False, q, c)
              | (Inr reader, q) \<Rightarrow>
                  Inr (True, q, c\<lparr>c3_streams := ring_update 2 0 sid (\<lambda>x. x\<lparr>i3_reader := reader\<rparr>) (c3_streams c)\<rparr>))
         | None \<Rightarrow> Inr (drive_uni sid q c)))"

definition quic_call :: "('t, 's, 'a) quic_result \<Rightarrow> (worker_fault, 'a) result" where
  "quic_call r = (case r of Inl (e, _) \<Rightarrow> Inl (Quic_fault e) | Inr x \<Rightarrow> Inr x)"

text \<open>A stream that finished: given back, failed, or answered.\<close>

definition drive_finished ::
    "nat \<Rightarrow> nat \<Rightarrow> nat \<times> nat option \<Rightarrow> ('t, 's) driving \<Rightarrow> (worker_fault, bool \<times> ('t, 's) driving) result" where
  "drive_finished parallel now f x =
     (case (f, x) of ((sid, reset), (q, c, s, started)) \<Rightarrow>
        (case ring_take 2 0 sid (c3_streams c) of
           None \<Rightarrow> Inr (True, q, c, s, started)
         | Some (inflight, streams) \<Rightarrow>
             let c = c\<lparr>c3_streams := streams\<rparr>;
                 status = rr_status (i3_reader inflight);
                 unprocessed = (status = 0 \<and> (case c3_goaway c of None \<Rightarrow> False | Some goaway \<Rightarrow> sid \<ge> goaway)) in
             rbind (if reset = Some H3_REQUEST_REJECTED \<or> reset \<noteq> None \<and> unprocessed
                    then rbind (give_back parallel (c3_give_backs c, s, started)) (\<lambda>(g, s, started). Inr (c\<lparr>c3_give_backs := g\<rparr>, s, started))
                    else if reset \<noteq> None \<or> status = 0 then Inr (c, s\<lparr>st_errors := st_errors s + 1\<rparr>, started)
                    else Inr (c\<lparr>c3_give_backs := (c3_give_backs c)\<lparr>gb_completed := gb_completed (c3_give_backs c) + 1\<rparr>\<rparr>,
                              record_success status (now - i3_start inflight) s, started)) (\<lambda>(c, s, started).
             rbind (quic_call (quic_retire sid H3_REQUEST_CANCELLED q)) (\<lambda>q. Inr (True, q, c, s, started)))))"

text \<open>A request the GOAWAY says was not processed.\<close>

definition drive_unprocessed :: "nat \<Rightarrow> nat \<Rightarrow> ('t, 's) driving \<Rightarrow> (worker_fault, bool \<times> ('t, 's) driving) result" where
  "drive_unprocessed parallel sid x =
     (case x of (q, c, s, started) \<Rightarrow>
        let c = (case ring_take 2 0 sid (c3_streams c) of None \<Rightarrow> c | Some (_, streams) \<Rightarrow> c\<lparr>c3_streams := streams\<rparr>) in
        rbind (quic_call (quic_retire sid H3_REQUEST_CANCELLED q)) (\<lambda>q.
        rbind (give_back parallel (c3_give_backs c, s, started)) (\<lambda>(g, s, started).
        Inr (True, q, c\<lparr>c3_give_backs := g\<rparr>, s, started))))"

definition drive_goaway :: "nat \<Rightarrow> bool \<Rightarrow> ('t, 's) driving \<Rightarrow> (worker_fault, bool \<times> ('t, 's) driving) result" where
  "drive_goaway parallel alive x =
     (case c3_goaway (fst (snd x)) of
        None \<Rightarrow> Inr (alive, x)
      | Some goaway \<Rightarrow>
          let unprocessed = filter (\<lambda>sid. sid \<ge> goaway) (map i3_stream_id (ring_items (c3_streams (fst (snd x))))) in
          rbind (worker_loop (drive_unprocessed parallel) unprocessed x) (\<lambda>(_, q, c, s, started).
          if ring_len (c3_streams c) = 0 then Inr (False, quic_close H3_NO_ERROR [] q, c, s, started)
          else Inr (alive, q, c, s, started)))"


text \<open>\<open>flush_unsent\<close> over the slots: the slots, whether something is still unsent, and the connection.\<close>

fun flush_slots :: "in_flight3 option list \<Rightarrow> ('t, 's) quic \<Rightarrow> in_flight3 option list \<times> bool \<times> ('t, 's) quic" where
  "flush_slots [] q = ([], False, q)"
| "flush_slots (None # xs) q = (let (ys, unsent, q) = flush_slots xs q in (None # ys, unsent, q))"
| "flush_slots (Some x # xs) q =
     (if i3_unsent x = [] then let (ys, unsent, q) = flush_slots xs q in (Some x # ys, unsent, q)
      else
        let (n, q) = quic_write (i3_stream_id x) (i3_unsent x) q;
            x = x\<lparr>i3_unsent := drop n (i3_unsent x)\<rparr>;
            q = (if i3_unsent x = [] then quic_finish (i3_stream_id x) q else q);
            (ys, unsent, q) = flush_slots xs q in
        (Some x # ys, i3_unsent x \<noteq> [] \<or> unsent, q))"

definition flush_unsent :: "('t, 's) quic \<Rightarrow> ('t, 's) conn3 \<Rightarrow> ('t, 's) quic \<times> ('t, 's) conn3" where
  "flush_unsent q c =
     (if \<not> c3_has_unsent c then (q, c)
      else
        let r = c3_streams c; (slots, unsent, q) = flush_slots (drop (rg_head r) (rg_slots r)) q in
        (q, c\<lparr>c3_streams := r\<lparr>rg_slots := take (rg_head r) (rg_slots r) @ slots\<rparr>, c3_has_unsent := unsent\<rparr>))"

record ('t, 's) env3 =
  e3_api :: "('t, 's) tls_api"
  e3_start_tls :: "nat \<Rightarrow> bytes \<Rightarrow> 't option"
  e3_entropy :: "nat \<Rightarrow> bytes \<times> bytes"
  e3_request :: bytes
  e3_gso :: bool
  e3_abi :: recvmsg_abi
  e3_connect_timeout :: nat
  e3_timeout :: "nat option"
  e3_budget :: budget
  e3_parallel :: nat
  e3_io :: ring_io

function open_requests :: "('t, 's) env3 \<Rightarrow> nat \<Rightarrow> ('t, 's) quic \<Rightarrow> ('t, 's) conn3 \<Rightarrow> nat \<Rightarrow> ('t, 's) quic \<times> ('t, 's) conn3 \<times> nat" where
  "open_requests env now q c started =
     (if ring_len (c3_streams c) < e3_parallel env \<and> may_start (e3_budget env) started then
        case send_oneshot (e3_request env) q of
          (None, q) \<Rightarrow> (q, c, started)
        | (Some (qsid, sent), q) \<Rightarrow>
            let inflight = \<lparr>i3_stream_id = qsid, i3_start = now, i3_reader = reader_default, i3_unsent = drop sent (e3_request env)\<rparr>;
                c = c\<lparr>c3_has_unsent := c3_has_unsent c \<or> sent < length (e3_request env),
                      c3_streams := ring_push 2 qsid inflight (c3_streams c)\<rparr> in
            open_requests env now q c (started + 1)
      else (q, c, started))"
  by pat_completeness auto
termination
  by (relation "measure (\<lambda>(env, now, q, c, started). e3_parallel env - ring_len (c3_streams c))") (auto simp: ring_len_push)

declare open_requests.simps [simp del]

definition fill_requests :: "('t, 's) env3 \<Rightarrow> nat \<Rightarrow> bool \<Rightarrow> ('t, 's) quic \<Rightarrow> ('t, 's) conn3 \<Rightarrow> nat \<Rightarrow> ('t, 's) quic \<times> ('t, 's) conn3 \<times> nat" where
  "fill_requests env now stop q c started =
     (if stop \<or> c3_goaway c \<noteq> None \<or> \<not> c3_h3_ready c then (q, c, started) else open_requests env now q c started)"

definition retry_init :: "('t, 's) quic \<Rightarrow> ('t, 's) conn3 \<Rightarrow> ('t, 's) quic \<times> ('t, 's) conn3" where
  "retry_init q c =
     (case c3_h3_init c of
        None \<Rightarrow> (q, c)
      | Some i \<Rightarrow>
          let (ready, i, q) = h3_init_flush i q in
          (q, if ready then c\<lparr>c3_h3_init := None, c3_h3_ready := True\<rparr> else c\<lparr>c3_h3_init := Some i\<rparr>))"

text \<open>The part of \<open>drive\<close> after the streams have been read.\<close>

definition drive_settle ::
    "('t, 's) env3 \<Rightarrow> nat \<Rightarrow> bool \<Rightarrow> bool \<Rightarrow> (nat \<times> nat option) list \<Rightarrow> ('t, 's) driving
     \<Rightarrow> (worker_fault, bool \<times> ('t, 's) driving) result" where
  "drive_settle env now stop alive finished x =
     rbind (worker_loop (drive_finished (e3_parallel env) now) finished x) (\<lambda>(_, x).
     rbind (drive_goaway (e3_parallel env) alive x) (\<lambda>(alive, q, c, s, started).
     rbind (judge (ring_len (c3_streams c) = 0) (e3_parallel env) (c3_give_backs c, s, started)) (\<lambda>(g, s, started).
     let (q, c) = retry_init q (c\<lparr>c3_give_backs := g\<rparr>);
         (q, c) = flush_unsent q c;
         (q, c, started) = fill_requests env now stop q c started in
     Inr (alive, q, c, s, started))))"

text \<open>
  The whole of \<open>drive\<close>; the flag says whether the connection is alive. An error on the way leaves the connection as it is
  there, and not alive.
\<close>

definition drive ::
    "('t, 's) env3 \<Rightarrow> nat \<Rightarrow> bool \<Rightarrow> ('t, 's) conn3 \<Rightarrow> stats \<Rightarrow> nat \<Rightarrow> (worker_fault, bool \<times> ('t, 's) conn3 \<times> stats \<times> nat) result" where
  "drive env now stop c s started =
     (case c3_quic c of
        None \<Rightarrow> Inr (True, c, s, started)
      | Some q \<Rightarrow>
          (case drive_events True [] [] q c of (ok, alive, readable, finished, q, c) \<Rightarrow>
             if \<not> ok then Inr (False, c\<lparr>c3_quic := Some q\<rparr>, s, started)
             else
               rbind (worker_loop drive_readable readable (q, c)) (\<lambda>(ok, q, c).
               if \<not> ok then Inr (False, c\<lparr>c3_quic := Some q\<rparr>, s, started)
               else
                 rbind (drive_settle env now stop alive finished (q, c, s, started)) (\<lambda>(alive, q, c, s, started).
                 Inr (alive, c\<lparr>c3_quic := Some q\<rparr>, s, started)))))"


section \<open>The requests of a connection\<close>

text \<open>
  The table of requests in flight: it holds every request under the number of its stream, with a status the counters have
  room for, and its newest stream is the last one QUIC opened.
\<close>

definition ring3_ok :: "nat \<Rightarrow> in_flight3 ring \<Rightarrow> bool" where
  "ring3_ok m r \<longleftrightarrow>
     ring_ok r \<and> (\<forall>n x. ring_map r n = Some x \<longrightarrow> i3_stream_id x = 4 * n \<and> rr_status (i3_reader x) < 1000) \<and>
     (rg_slots r \<noteq> [] \<longrightarrow> rg_base r + ring_live r = m)"

lemma ring3_new: "ring3_ok m ring_new"
  by (simp add: ring3_ok_def ring_new_ok ring_new_map) (simp add: ring_new_def)

lemma ring3_push:
  assumes "ring3_ok m r" "i3_stream_id x = 4 * m" "rr_status (i3_reader x) < 1000"
  shows "ring3_ok (Suc m) (ring_push 2 (4 * m) x r)"
proof -
  have ok: "ring_ok r" using assms(1) by (simp add: ring3_ok_def)
  have m: "drop_bit 2 (4 * m) = m" by (simp add: drop_bit_eq_div)
  have fits: "ring_fits 2 0 (4 * m) r" using assms(1) by (auto simp: ring_fits_def ring3_ok_def m)
  show ?thesis using assms ring_push_ok [OF ok] ring_push_map [OF ok fits] ring_push_top [OF ok fits]
    by (simp add: ring3_ok_def m)
qed

lemma ring3_take:
  assumes "ring3_ok m r" "ring_take 2 0 sid r = Some (x, s)"
  shows "ring3_ok m s" "ring_len r = Suc (ring_len s)" "rr_status (i3_reader x) < 1000" "i3_stream_id x = sid"
    "ring_get 2 0 sid' s = (if sid' = sid then None else ring_get 2 0 sid' r)"
proof -
  have ok: "ring_ok r" using assms(1) by (simp add: ring3_ok_def)
  note all = ring_take_all [OF ok, of 0 2 sid x s "\<lambda>_. True"]
  show "ring_len r = Suc (ring_len s)" using all(2) assms(2) by (simp add: ring_all_ran)
  from ring_take_map [OF ok, of 0 2 sid] assms(2)
  have get: "ring_get 2 0 sid r = Some x" and s: "ring_ok s" "ring_map s = (ring_map r)(drop_bit 2 sid := None)"
    by (auto split: option.splits)
  then have x: "ring_map r (drop_bit 2 sid) = Some x" "sid = drop_bit 2 sid * 4"
    by (auto simp: ring_get_map split: if_splits)
  have "rg_slots r \<noteq> []" using assms(2) by (auto simp: ring_take_def ring_index_def ring_live_def checked_sub_def split: option.splits if_splits)
  then show "ring3_ok m s" using assms(1) s ring_take_top [OF assms(2) _ ok] by (auto simp: ring3_ok_def split: if_splits)
  show "rr_status (i3_reader x) < 1000" "i3_stream_id x = sid" using x assms(1) by (auto simp: ring3_ok_def)
  show "ring_get 2 0 sid' s = (if sid' = sid then None else ring_get 2 0 sid' r)"
    using x(2) by (auto simp: ring_get_map s(2))
qed

lemma ring3_update:
  assumes "ring3_ok m r" "\<And>x. ring_get 2 0 sid r = Some x \<Longrightarrow> i3_stream_id (f x) = i3_stream_id x \<and> rr_status (i3_reader (f x)) < 1000"
  shows "ring3_ok m (ring_update 2 0 sid f r)" "ring_len (ring_update 2 0 sid f r) = ring_len r"
proof -
  have ok: "ring_ok r" using assms(1) by (simp add: ring3_ok_def)
  show "ring_len (ring_update 2 0 sid f r) = ring_len r" by (simp add: ring_len_def ring_update_def split: option.split)
  show "ring3_ok m (ring_update 2 0 sid f r)"
  proof (cases "ring_index 2 0 sid r")
    case None
    then show ?thesis using assms(1) by (simp add: ring_update_def)
  next
    case (Some i)
    note u = ring_slot_mut_ok [OF ok, of "drop_bit 2 sid - rg_base r" f]
    have b: "rg_base r \<le> drop_bit 2 sid" "sid = drop_bit 2 sid * 4"
      using Some stream_number [of 0 2 sid] by (auto simp: ring_index_def checked_sub_def split: option.splits if_splits)
    have get: "ring_map r (drop_bit 2 sid) = ring_get 2 0 sid r" using b(2) by (simp add: ring_get_map)
    have "ring_map (ring_update 2 0 sid f r) n = Some x \<Longrightarrow> i3_stream_id x = 4 * n \<and> rr_status (i3_reader x) < 1000" for n x
      using assms b(1) by (auto simp: ring_update_slot_mut Some u(2) get ring3_ok_def split: if_splits)
    then show ?thesis using assms(1) u(1,3,4,5) by (simp add: ring_update_slot_mut Some ring3_ok_def)
  qed
qed


lemma ring3_get: "ring3_ok m r \<Longrightarrow> ring_get 2 0 sid r = Some x \<Longrightarrow> i3_stream_id x = sid \<and> rr_status (i3_reader x) < 1000"
  by (auto simp: ring3_ok_def ring_get_map split: if_splits)

lemma slots_keep:
  "flush_slots xs q = (ys, unsent, q') \<Longrightarrow>
     list_all2 (rel_option (\<lambda>x y. i3_stream_id y = i3_stream_id x \<and> i3_reader y = i3_reader x)) xs ys \<and> tls_view q' = tls_view q"
proof (induction xs q arbitrary: ys unsent q' rule: flush_slots.induct)
  case (3 x xs q)
  show ?case
  proof (cases "i3_unsent x = []")
    case True
    then show ?thesis using 3 by (auto simp: Let_def split: prod.splits)
  next
    case False
    obtain n q1 where w: "quic_write (i3_stream_id x) (i3_unsent x) q = (n, q1)" by fastforce
    define y where "y = x\<lparr>i3_unsent := drop n (i3_unsent x)\<rparr>"
    define q2 where "q2 = (if i3_unsent y = [] then quic_finish (i3_stream_id y) q1 else q1)"
    obtain zs b q3 where f: "flush_slots xs q2 = (zs, b, q3)" by (metis prod_cases3)
    have "flush_slots (Some x # xs) q = (Some y # zs, i3_unsent y \<noteq> [] \<or> b, q3)"
      by (simp only: flush_slots.simps False if_False w Let_def prod.case y_def [symmetric] q2_def [symmetric] f)
    then have "ys = Some y # zs" "q' = q3" using 3(3) by auto
    moreover have "tls_view q1 = tls_view q" using w view_calls(2) [of "i3_stream_id x" "i3_unsent x" q] by simp
    moreover have "tls_view q2 = tls_view q1" by (simp add: q2_def)
    ultimately show ?thesis using 3(2) [OF False w [symmetric] refl refl, folded y_def, folded q2_def, OF refl f] by (simp add: y_def)
  qed
qed (auto simp: Let_def split: prod.splits)

lemma ring3_replace:
  assumes "ring3_ok m r" "list_all2 (rel_option (\<lambda>x y. i3_stream_id y = i3_stream_id x \<and> i3_reader y = i3_reader x)) (live_slots r) ys"
  defines "s \<equiv> r\<lparr>rg_slots := take (rg_head r) (rg_slots r) @ ys\<rparr>"
  shows "ring3_ok m s" "ring_len s = ring_len r"
proof -
  have ok: "ring_ok r" using assms(1) by (simp add: ring3_ok_def)
  note I = ring_okD [OF ok]
  show "ring_len s = ring_len r" by (simp add: s_def ring_len_def)
  have h: "rg_head r \<le> length (rg_slots r)" using I(1,2) by (cases "rg_slots r = []") auto
  have live: "live_slots s = ys" "rg_base s = rg_base r" using h by (simp_all add: s_def live_slots_def)
  have len: "length ys = ring_live r" using list_all2_lengthD [OF assms(2)] by simp
  then have lens: "ring_live s = ring_live r" using length_live [of s] live by simp
  have ne: "rg_slots s = [] \<longleftrightarrow> rg_slots r = []" using h len by (auto simp: s_def ring_live_def)
  have nth: "rel_option (\<lambda>x y. i3_stream_id y = i3_stream_id x \<and> i3_reader y = i3_reader x) (live_slots r ! i) (ys ! i)"
    if "i < ring_live r" for i using list_all2_nthD [OF assms(2), of i] that by simp
  have "i3_stream_id x = 4 * n \<and> rr_status (i3_reader x) < 1000" if "ring_map s n = Some x" for n x
  proof -
    have i: "rg_base r \<le> n" "n - rg_base r < ring_live r" "ys ! (n - rg_base r) = Some x"
      using that by (auto simp: ring_map_live live lens split: if_splits)
    then obtain y where "live_slots r ! (n - rg_base r) = Some y" "i3_stream_id x = i3_stream_id y" "i3_reader x = i3_reader y"
      using nth [OF i(2)] by (auto simp: option_rel_Some2)
    moreover have "ring_map r n = live_slots r ! (n - rg_base r)" using i by (auto simp: ring_map_live)
    ultimately show ?thesis using assms(1) by (auto simp: ring3_ok_def)
  qed
  moreover have "ring_ok s"
  proof (rule ring_okI)
    have "length (List.map_filter (\<lambda>x. x) xs) = length (List.map_filter (\<lambda>x. x) zs)" if "list_all2 (rel_option R) xs zs"
      for R xs and zs :: "in_flight3 option list" using that
      by (induction rule: list_all2_induct) (auto simp: List.map_filter_def option.rel_sel)
    from this [OF assms(2)] show "rg_open s = length (List.map_filter (\<lambda>x. x) (live_slots s))" using I(4) unfolding live by (simp add: s_def)
    show "live_slots s \<noteq> [] \<Longrightarrow> hd (live_slots s) \<noteq> None"
      using I(3) assms(2) unfolding live by (cases "live_slots r"; cases ys) (auto simp: option.rel_sel)
  qed (use I ne h len in \<open>auto simp: s_def ring_live_def\<close>)
  ultimately show "ring3_ok m s" using assms(1) ne lens live(2) by (simp add: ring3_ok_def)
qed

section \<open>The books of a connection\<close>

definition owed3 :: "('t, 's) conn3 \<Rightarrow> nat" where
  "owed3 c = ring_len (c3_streams c) + gb_unjudged (c3_give_backs c)"

text \<open>
  A connection in use, with its QUIC connection: \<open>Connected\<close> has been taken once HTTP/3 is set up or being set up, and no
  request is owed before.
\<close>

definition shape3 :: "('t \<Rightarrow> bool) \<Rightarrow> ('t, 's) quic \<Rightarrow> ('t, 's) conn3 \<Rightarrow> bool" where
  "shape3 keyed q c \<longleftrightarrow>
     (\<exists>k m. k \<le> 1 \<and> connects keyed k m q \<and> ring3_ok m (c3_streams c) \<and> (c3_h3_ready c \<or> c3_h3_init c \<noteq> None \<longrightarrow> k = 0)) \<and>
     (\<not> c3_h3_ready c \<longrightarrow> owed3 c = 0) \<and> c3_closing c = None"

definition balanced :: "budget \<Rightarrow> nat \<Rightarrow> stats \<Rightarrow> nat \<Rightarrow> bool" where
  "balanced b owed s started \<longleftrightarrow>
     finished_count s + owed = started \<and> stats_ok s \<and> (\<forall>n. b = Requests n \<longrightarrow> started \<le> n)"

abbreviation sound3 :: "worker_fault \<Rightarrow> bool" where
  "sound3 e \<equiv> e \<noteq> Underflow"

lemma give_back_books:
  assumes "balanced b (gb_unjudged g + 1 + rest) s started"
  shows "safe sound3 (\<lambda>(g', s', started'). balanced b (gb_unjudged g' + rest) s' started' \<and> gb_completed g' = gb_completed g \<and>
    (0 < gb_completed g \<longrightarrow> gb_unjudged g' = gb_unjudged g)) (give_back parallel (g, s, started))"
  using assms by (auto simp: give_back_def balanced_def finished_count_def stats_ok_def)

lemma give_back_times_books:
  "balanced b (gb_unjudged g + n + rest) s started \<Longrightarrow> 0 < gb_completed g \<Longrightarrow>
   safe sound3 (\<lambda>(g', s', started'). balanced b (gb_unjudged g' + rest) s' started' \<and> gb_unjudged g' = gb_unjudged g)
     (give_back_times n parallel (g, s, started))"
proof (induction n arbitrary: g s started)
  case (Suc n)
  have "balanced b (gb_unjudged g + 1 + (n + rest)) s started" using Suc.prems(1) by (simp add: ac_simps)
  then show ?case unfolding give_back_times.simps
    by (rule safe_bind [OF give_back_books]) (use Suc in \<open>auto simp: ac_simps intro!: safe_weaken [OF Suc.IH]\<close>)
qed simp

lemma judge_books:
  assumes "balanced b (gb_unjudged g + rest) s started"
  shows "safe sound3 (\<lambda>(g', s', started'). balanced b (gb_unjudged g' + rest) s' started' \<and> (gb_unjudged g = 0 \<longrightarrow> gb_unjudged g' = 0))
    (judge drained parallel (g, s, started))"
proof (cases "gb_unjudged g = 0 \<or> gb_completed g = 0")
  case True
  then show ?thesis using assms by (auto simp: judge_def balanced_def finished_count_def stats_ok_def)
next
  case False
  have "safe sound3 (\<lambda>(g', s', started'). balanced b (gb_unjudged g' + rest) s' started' \<and> gb_unjudged g' = gb_unjudged (g\<lparr>gb_unjudged := 0\<rparr>))
     (give_back_times (gb_unjudged g) parallel (g\<lparr>gb_unjudged := 0\<rparr>, s, started))"
    by (rule give_back_times_books) (use assms False in simp_all)
  then show ?thesis unfolding judge_def using False by (simp, elim safe_weaken) auto
qed


section \<open>Driving keeps the books\<close>

lemma write_view: "quic_write sid data q = (n, q1) \<Longrightarrow> tls_view q1 = tls_view q"
  using view_calls(2) [of sid data q] by (metis snd_conv)

lemma open_unis_view: "tls_view (snd (open_unis n q)) = tls_view q"
proof (induction n arbitrary: q)
  case (Suc n)
  obtain sid q1 where o: "open_uni q = (sid, q1)" by fastforce
  then have "tls_view q1 = tls_view q" using view_calls(1) [of q] by simp
  then show ?case using Suc [of q1] o by (cases sid) (auto simp: split_def)
qed simp

lemma init_new_view: "tls_view (snd (h3_init_new q)) = tls_view q"
  using open_unis_view [of 3 q] by (auto simp: h3_init_new_def split: prod.split option.split)

lemma init_flush_view: "tls_view (snd (snd (h3_init_flush i q))) = tls_view q"
proof -
  have "tls_view (snd (snd (flush_preludes xs q))) = tls_view q" for xs
  proof (induction xs q rule: flush_preludes.induct)
    case (2 sid prelude written rest q)
    then show ?case using write_view [of sid "drop written prelude" q] by (fastforce simp: Let_def split: prod.splits if_splits)
  qed simp
  then show ?thesis by (simp add: h3_init_flush_def split_def Let_def)
qed

lemma shape3_view: "shape3 keyed q c \<Longrightarrow> tls_view q' = tls_view q \<Longrightarrow> shape3 keyed q' c"
  by (simp add: shape3_def connects_def)

lemma shape3_cong:
  "shape3 keyed q c \<Longrightarrow> c3_streams d = c3_streams c \<Longrightarrow> gb_unjudged (c3_give_backs d) = gb_unjudged (c3_give_backs c)
   \<Longrightarrow> c3_h3_ready d = c3_h3_ready c \<Longrightarrow> c3_h3_init d = c3_h3_init c \<Longrightarrow> c3_closing d = c3_closing c \<Longrightarrow> shape3 keyed q d"
  by (simp add: shape3_def owed3_def)

lemma shape3_streams:
  assumes "shape3 keyed q c" "\<And>m. ring3_ok m (c3_streams c) \<Longrightarrow> ring3_ok m r \<and> ring_len r = ring_len (c3_streams c)"
  shows "shape3 keyed q (c\<lparr>c3_streams := r\<rparr>)" "owed3 (c\<lparr>c3_streams := r\<rparr>) = owed3 c"
  using assms by (auto simp: shape3_def owed3_def)

lemma poll_event_connects:
  assumes "poll_event q = (Some e, q1)" "connects keyed k m q"
  shows "e \<noteq> Ev_connected \<Longrightarrow> connects keyed k m q1" "e = Ev_connected \<Longrightarrow> 0 < k \<and> connects keyed (k - 1) m q1"
  using assms by (auto simp: poll_event_def connects_def tls_view_def split: list.splits)

lemma poll_event_shape:
  assumes "poll_event q = (Some e, q1)" "shape3 keyed q c"
  shows "e \<noteq> Ev_connected \<Longrightarrow> shape3 keyed q1 c"
    "e = Ev_connected \<Longrightarrow> \<not> c3_h3_ready c \<and> c3_h3_init c = None \<and> owed3 c = 0 \<and> c3_closing c = None \<and>
       (\<exists>m. connects keyed 0 m q1 \<and> ring3_ok m (c3_streams c))"
proof -
  obtain k m where km: "k \<le> 1" "connects keyed k m q" "ring3_ok m (c3_streams c)" "c3_h3_ready c \<or> c3_h3_init c \<noteq> None \<longrightarrow> k = 0"
    and idle: "\<not> c3_h3_ready c \<longrightarrow> owed3 c = 0" "c3_closing c = None"
    using assms(2) by (auto simp: shape3_def)
  note p = poll_event_connects [OF assms(1) km(2)]
  show "shape3 keyed q1 c" if "e \<noteq> Ev_connected" using p(1) [OF that] km idle by (auto simp: shape3_def)
  show "\<not> c3_h3_ready c \<and> c3_h3_init c = None \<and> owed3 c = 0 \<and> c3_closing c = None \<and> (\<exists>m. connects keyed 0 m q1 \<and> ring3_ok m (c3_streams c))"
    if "e = Ev_connected" using p(2) [OF that] km idle by (auto simp: le_Suc_eq)
qed

lemma drive_events_books:
  "drive_events alive readable finished q c = (ok, alive', readable', finished', q', c') \<Longrightarrow> shape3 keyed q c
   \<Longrightarrow> shape3 keyed q' c' \<and> owed3 c' = owed3 c"
proof (induction alive readable finished q c rule: drive_events.induct)
  case (1 alive readable finished q c)
  obtain e q1 where p: "poll_event q = (e, q1)" by fastforce
  note step = drive_events.simps [of alive readable finished q c, unfolded p prod.case]
  show ?case
  proof (cases e)
    case None
    then have "q1 = q" using p by (simp add: poll_event_def split: list.splits)
    then show ?thesis using "1.prems" None step by simp
  next
    case (Some ev)
    note shape = poll_event_shape [OF p [unfolded Some] "1.prems"(2)]
    have stop: "shape3 keyed q1 (c\<lparr>c3_streams := ring_update 2 0 sid (\<lambda>x. x\<lparr>i3_unsent := []\<rparr>) (c3_streams c)\<rparr>) \<and>
      owed3 (c\<lparr>c3_streams := ring_update 2 0 sid (\<lambda>x. x\<lparr>i3_unsent := []\<rparr>) (c3_streams c)\<rparr>) = owed3 c" if "ev \<noteq> Ev_connected" for sid
      using shape3_streams [OF shape(1) [OF that]] ring3_update(1,2) ring3_get by (simp add: ring3_update ring3_get)
    show ?thesis
    proof (cases ev)
      case Ev_connected
      then obtain m where idle: "\<not> c3_h3_ready c" "c3_h3_init c = None" "owed3 c = 0" "c3_closing c = None" and m: "connects keyed 0 m q1" "ring3_ok m (c3_streams c)"
        using shape(2) by blast
      obtain i q2 where i: "h3_init_new q1 = (i, q2)" by fastforce
      have q2: "connects keyed 0 m q2" using m(1) init_new_view [of q1] i by (simp add: connects_def)
      show ?thesis
      proof (cases i)
        case None
        then show ?thesis using "1.prems"(1) step Some Ev_connected i idle m(2) q2 by (auto simp: shape3_def)
      next
        case (Some j)
        obtain ready j' q3 where f: "h3_init_flush j q2 = (ready, j', q3)" by (metis prod_cases3)
        let ?c = "c\<lparr>c3_h3_ready := ready, c3_h3_init := (if ready then c3_h3_init c else Some j')\<rparr>"
        have "connects keyed 0 m q3" using q2 init_flush_view [of j q2] f by (simp add: connects_def)
        then have "shape3 keyed q3 ?c" "owed3 ?c = owed3 c" using idle m(2) by (auto simp: shape3_def owed3_def)
        moreover have "drive_events alive readable finished q3 ?c = (ok, alive', readable', finished', q', c')"
          using "1.prems"(1) step \<open>e = Some ev\<close> Ev_connected i Some f by (simp add: Let_def)
        ultimately show ?thesis using "1.IH"(1) p \<open>e = Some ev\<close> Ev_connected i Some f by simp
      qed
    qed (use "1.IH" "1.prems" step p Some shape(1) stop in \<open>auto\<close>)
  qed
qed


lemma consume_into_view: "tls_view (snd (consume_into sid feed r q)) = tls_view q"
proof -
  obtain x q' where c: "quic_consume sid (\<lambda>data. rbind (feed data r) (\<lambda>_. Inr ())) q = (x, q')" by fastforce
  then have "tls_view q' = tls_view q" using view_calls(4) by (metis snd_conv)
  then show ?thesis by (cases x) (simp_all add: consume_into_def c)
qed

lemma consume_into_keeps:
  assumes "consume_into sid feed r q = (Inr r', q')" "P r" "\<And>data r'. feed data r = Inr r' \<Longrightarrow> P r'"
  shows "P r'"
  using assms by (auto simp: consume_into_def split: prod.splits sum.splits option.splits if_splits)

lemma drive_uni_books:
  assumes "drive_uni sid q c = (ok, q', c')"
  shows "tls_view q' = tls_view q" "c3_streams c' = c3_streams c" "c3_give_backs c' = c3_give_backs c"
    "c3_h3_ready c' = c3_h3_ready c" "c3_h3_init c' = c3_h3_init c" "c3_closing c' = c3_closing c"
proof -
  define sl where "sl = (case uni_position sid (c3_uni c) of
            Some pos \<Rightarrow> (pos, c)
          | None \<Rightarrow> (length (c3_uni c), c\<lparr>c3_uni := c3_uni c @ [(sid, uni_default)]\<rparr>))"
  obtain slot d where d: "sl = (slot, d)" by fastforce
  have same: "c3_streams d = c3_streams c" "c3_give_backs d = c3_give_backs c" "c3_h3_ready d = c3_h3_ready c" "c3_h3_init d = c3_h3_init c" "c3_closing d = c3_closing c"
    using d by (auto simp: sl_def split: option.splits)
  obtain uid reader where u: "c3_uni d ! slot = (uid, reader)" by fastforce
  obtain x q1 where x: "consume_into sid uni_feed reader q = (x, q1)" by fastforce
  have "tls_view q1 = tls_view q" using consume_into_view [of sid uni_feed reader q] x by simp
  with same show "tls_view q' = tls_view q" "c3_streams c' = c3_streams c" "c3_give_backs c' = c3_give_backs c"
    "c3_h3_ready c' = c3_h3_ready c" "c3_h3_init c' = c3_h3_init c" "c3_closing c' = c3_closing c"
    using assms unfolding drive_uni_def sl_def [symmetric] d Let_def prod.case u x by (auto split: sum.splits option.splits)
qed

lemma drive_readable_books:
  assumes "shape3 keyed q c"
  shows "safe sound3 (\<lambda>(_, q', c'). shape3 keyed q' c' \<and> owed3 c' = owed3 c) (drive_readable sid (q, c))"
proof (cases "ring_get 2 0 sid (c3_streams c)")
  case None
  obtain ok q' c' where u: "drive_uni sid q c = (ok, q', c')" by (metis prod_cases3)
  then show ?thesis using None drive_uni_books [OF u] shape3_cong [OF shape3_view [OF assms], of q' c']
    by (simp add: drive_readable_def owed3_def)
next
  case (Some inflight)
  obtain x q1 where x: "consume_into sid reader_feed (i3_reader inflight) q = (x, q1)" by fastforce
  have q1: "shape3 keyed q1 c" using shape3_view [OF assms] consume_into_view [of sid reader_feed "i3_reader inflight" q] x by simp
  show ?thesis
  proof (cases x)
    case (Inl e)
    then show ?thesis using Some x q1 by (simp add: drive_readable_def)
  next
    case (Inr reader)
    have small: "rr_status reader < 1000" if "ring3_ok m (c3_streams c)" for m
      using consume_into_keeps [OF x [unfolded Inr], of "\<lambda>r. rr_status r < 1000"] ring3_get [OF that Some] reader_feed_small by blast
    let ?r = "ring_update 2 0 sid (\<lambda>x. x\<lparr>i3_reader := reader\<rparr>) (c3_streams c)"
    have "ring3_ok m ?r \<and> ring_len ?r = ring_len (c3_streams c)" if "ring3_ok m (c3_streams c)" for m
      using ring3_update [OF that, of sid "\<lambda>x. x\<lparr>i3_reader := reader\<rparr>"] small [OF that] by simp
    from shape3_streams [OF q1 this] show ?thesis using Some x Inr by (simp add: drive_readable_def)
  qed
qed

definition drives :: "('t \<Rightarrow> bool) \<Rightarrow> budget \<Rightarrow> nat \<Rightarrow> ('t, 's) driving \<Rightarrow> bool" where
  "drives keyed b rest x \<longleftrightarrow> (case x of (q, c, s, started) \<Rightarrow> balanced b (owed3 c + rest) s started \<and> shape3 keyed q c)"

lemma quic_call_retire: "safe sound3 (\<lambda>q'. tls_view q' = tls_view q) (quic_call (quic_retire sid cancel q))"
  by (cases "quic_retire sid cancel q") (auto simp: quic_call_def view_retire)

text \<open>A request leaves the table: its place in the books is with whoever takes it on.\<close>

lemma take_books:
  assumes "drives keyed b rest (q, c, s, started)" "ring_take 2 0 sid (c3_streams c) = Some (x, r)"
  shows "balanced b (gb_unjudged (c3_give_backs c) + 1 + (ring_len r + rest)) s started" "rr_status (i3_reader x) < 1000"
    "c3_h3_ready c \<and> c3_closing c = None" "\<exists>m. connects keyed 0 m q \<and> ring3_ok m r"
proof -
  obtain k m where km: "connects keyed k m q" "ring3_ok m (c3_streams c)" "c3_h3_ready c \<or> c3_h3_init c \<noteq> None \<longrightarrow> k = 0"
    and idle: "\<not> c3_h3_ready c \<longrightarrow> owed3 c = 0" "c3_closing c = None" and b: "balanced b (owed3 c + rest) s started"
    using assms(1) by (auto simp: drives_def shape3_def)
  note t = ring3_take [OF km(2) assms(2)]
  show "balanced b (gb_unjudged (c3_give_backs c) + 1 + (ring_len r + rest)) s started"
    using b t(2) by (simp add: owed3_def ac_simps)
  show "rr_status (i3_reader x) < 1000" by (rule t(3))
  show "c3_h3_ready c \<and> c3_closing c = None" using idle t(2) by (auto simp: owed3_def)
  then show "\<exists>m. connects keyed 0 m q \<and> ring3_ok m r" using km t(1) by auto
qed

lemma drives_ready:
  assumes "c3_h3_ready c \<and> c3_closing c = None" "\<exists>m. connects keyed 0 m q \<and> ring3_ok m r" "tls_view q' = tls_view q"
    "balanced b (gb_unjudged (c3_give_backs d) + (ring_len r + rest)) s started"
    "c3_streams d = r" "c3_h3_ready d = c3_h3_ready c" "c3_closing d = c3_closing c"
  shows "drives keyed b rest (q', d, s, started)"
  using assms by (auto simp: drives_def shape3_def owed3_def connects_def ac_simps)


lemma drive_finished_books:
  assumes x: "drives keyed b rest x"
  shows "safe sound3 (\<lambda>(_, x). drives keyed b rest x) (drive_finished parallel now f x)"
proof -
  obtain sid reset q c s started where fx: "f = (sid, reset)" "x = (q, c, s, started)" by (metis prod.exhaust)
  show ?thesis
  proof (cases "ring_take 2 0 sid (c3_streams c)")
    case None
    then show ?thesis using x by (simp add: drive_finished_def fx)
  next
    case (Some t)
    obtain inflight r where t: "t = (inflight, r)" by fastforce
    note k = take_books [OF x [unfolded fx(2)] Some [unfolded t]]
    let ?c = "c\<lparr>c3_streams := r\<rparr>"
    let ?P = "\<lambda>(d, s, started). c3_streams d = r \<and> c3_h3_ready d = c3_h3_ready c \<and> c3_closing d = c3_closing c \<and>
      balanced b (gb_unjudged (c3_give_backs d) + (ring_len r + rest)) s started"
    have gave: "safe sound3 ?P (rbind (give_back parallel (c3_give_backs c, s, started)) (\<lambda>(g, s, started). Inr (?c\<lparr>c3_give_backs := g\<rparr>, s, started)))"
      by (rule safe_bind [OF give_back_books [OF k(1)]]) auto
    have failed: "?P (?c, s\<lparr>st_errors := st_errors s + 1\<rparr>, started)"
      using k(1) by (auto simp: balanced_def finished_count_def stats_ok_def)
    have answered: "?P (?c\<lparr>c3_give_backs := (c3_give_backs ?c)\<lparr>gb_completed := gb_completed (c3_give_backs ?c) + 1\<rparr>\<rparr>,
        record_success (rr_status (i3_reader inflight)) (now - i3_start inflight) s, started)"
      using k(1,2) record_success_ok by (auto simp: balanced_def finished_count_def record_success_def)
    have settled: "safe sound3 (\<lambda>(_, x). drives keyed b rest x)
        (rbind (quic_call (quic_retire sid H3_REQUEST_CANCELLED q)) (\<lambda>q. Inr (True, q, d, s, started)))" if "?P (d, s, started)" for d s started
      by (rule safe_bind [OF quic_call_retire]) (use that in \<open>auto intro!: drives_ready [OF k(3,4)]\<close>)
    show ?thesis unfolding drive_finished_def fx prod.case Some t option.case Let_def
      by (rule safe_bind [where P = ?P]) (use gave failed answered settled in \<open>auto\<close>)
  qed
qed


lemma drive_unprocessed_books:
  assumes x: "drives keyed b rest (q, c, s, started)" and sid: "ring_get 2 0 sid (c3_streams c) \<noteq> None"
  shows "safe sound3 (\<lambda>(_, q', c', s', started'). drives keyed b rest (q', c', s', started') \<and>
      (\<forall>sid'. sid' \<noteq> sid \<longrightarrow> ring_get 2 0 sid' (c3_streams c') = ring_get 2 0 sid' (c3_streams c)))
    (drive_unprocessed parallel sid (q, c, s, started))"
proof -
  obtain m where ok: "ring3_ok m (c3_streams c)" using x by (auto simp: drives_def shape3_def)
  obtain inflight r where t: "ring_take 2 0 sid (c3_streams c) = Some (inflight, r)"
    using ring_take_map [of "c3_streams c" 0 2 sid] ok sid by (auto simp: ring3_ok_def)
  note k = take_books [OF x t]
  have get: "sid' \<noteq> sid \<Longrightarrow> ring_get 2 0 sid' r = ring_get 2 0 sid' (c3_streams c)" for sid' using ring3_take(5) [OF ok t] by simp
  let ?c = "c\<lparr>c3_streams := r\<rparr>"
  have gave: "safe sound3 (\<lambda>(_, q', c', s', started'). drives keyed b rest (q', c', s', started') \<and>
      (\<forall>sid'. sid' \<noteq> sid \<longrightarrow> ring_get 2 0 sid' (c3_streams c') = ring_get 2 0 sid' (c3_streams c)))
    (rbind (give_back parallel (c3_give_backs ?c, s, started)) (\<lambda>(g, s, started). Inr (True, q', ?c\<lparr>c3_give_backs := g\<rparr>, s, started)))"
    if "tls_view q' = tls_view q" for q'
    by (rule safe_bind [OF give_back_books]) (use k(1) get that in \<open>auto intro!: drives_ready [OF k(3,4)]\<close>)
  show ?thesis unfolding drive_unprocessed_def prod.case Let_def t option.case
    by (rule safe_bind [OF quic_call_retire gave])
qed

lemma drive_unprocessed_loop_books:
  "drives keyed b rest (q, c, s, started) \<Longrightarrow> distinct sids \<Longrightarrow> \<forall>sid \<in> set sids. ring_get 2 0 sid (c3_streams c) \<noteq> None
   \<Longrightarrow> safe sound3 (\<lambda>(_, x). drives keyed b rest x) (worker_loop (drive_unprocessed parallel) sids (q, c, s, started))"
proof (induction sids arbitrary: q c s started)
  case (Cons sid sids)
  show ?case unfolding worker_loop.simps
    by (rule safe_bind [OF drive_unprocessed_books [OF Cons.prems(1)]]) (use Cons in \<open>auto intro!: Cons.IH\<close>, metis)
qed simp

lemma ring3_ids:
  assumes "ring3_ok m r"
  shows "distinct (map i3_stream_id (ring_items r))" "\<forall>sid \<in> set (map i3_stream_id (ring_items r)). ring_get 2 0 sid r \<noteq> None"
proof -
  have f: "ring_map r n = Some x \<Longrightarrow> i3_stream_id x = 4 * n" for n x using assms by (auto simp: ring3_ok_def)
  note keys = ring_items_keys [of r i3_stream_id "\<lambda>n. 4 * n", OF f]
  show "distinct (map i3_stream_id (ring_items r))" using keys(1) by (auto simp: inj_on_def)
  have "set (map i3_stream_id (ring_items r)) = (\<lambda>n. 4 * n) ` dom (ring_map r)" using keys(2) by (auto simp: inj_on_def)
  then show "\<forall>sid \<in> set (map i3_stream_id (ring_items r)). ring_get 2 0 sid r \<noteq> None"
    by (auto simp: ring_get_map drop_bit_eq_div)
qed

lemma drive_goaway_books:
  assumes x: "drives keyed b rest x"
  shows "safe sound3 (\<lambda>(_, x). drives keyed b rest x) (drive_goaway parallel alive x)"
proof -
  obtain q c s started where e: "x = (q, c, s, started)" by (metis prod.exhaust)
  obtain m where ok: "ring3_ok m (c3_streams c)" using x e by (auto simp: drives_def shape3_def)
  have closed: "drives keyed b rest (quic_close code [] q, y) = drives keyed b rest (q, y)" for code q y
    by (auto simp: drives_def shape3_def connects_def split: prod.split)
  show ?thesis
  proof (cases "c3_goaway c")
    case None
    then show ?thesis using x e by (simp add: drive_goaway_def)
  next
    case (Some goaway)
    let ?ids = "filter (\<lambda>sid. sid \<ge> goaway) (map i3_stream_id (ring_items (c3_streams c)))"
    have "safe sound3 (\<lambda>(_, x). drives keyed b rest x) (worker_loop (drive_unprocessed parallel) ?ids (q, c, s, started))"
      by (rule drive_unprocessed_loop_books) (use x e ring3_ids [OF ok] in auto)
    then show ?thesis unfolding drive_goaway_def e fst_conv snd_conv Some option.case Let_def
      by (rule safe_bind) (auto simp: closed)
  qed
qed

lemma retry_init_books:
  assumes "retry_init q c = (q', c')" "shape3 keyed q c"
  shows "shape3 keyed q' c' \<and> owed3 c' = owed3 c"
proof (cases "c3_h3_init c")
  case (Some i)
  obtain ready j q1 where f: "h3_init_flush i q = (ready, j, q1)" by (metis prod_cases3)
  have q1: "shape3 keyed q1 c" using shape3_view [OF assms(2)] init_flush_view [of i q] f by simp
  have e: "q' = q1" "c' = (if ready then c\<lparr>c3_h3_init := None, c3_h3_ready := True\<rparr> else c\<lparr>c3_h3_init := Some j\<rparr>)"
    using assms(1) Some f by (auto simp: retry_init_def)
  show ?thesis using q1 Some by (auto simp: e shape3_def owed3_def)
qed (use assms in \<open>simp add: retry_init_def\<close>)

lemma flush_unsent_books:
  assumes "flush_unsent q c = (q', c')" "shape3 keyed q c"
  shows "shape3 keyed q' c' \<and> owed3 c' = owed3 c"
proof (cases "c3_has_unsent c")
  case True
  let ?r = "c3_streams c"
  obtain slots unsent q1 where f: "flush_slots (live_slots ?r) q = (slots, unsent, q1)" by (metis prod_cases3)
  let ?s = "?r\<lparr>rg_slots := take (rg_head ?r) (rg_slots ?r) @ slots\<rparr>"
  note k = slots_keep [OF f]
  have e: "q' = q1" "c' = c\<lparr>c3_streams := ?s, c3_has_unsent := unsent\<rparr>"
    using assms(1) True f by (auto simp: flush_unsent_def Let_def live_slots_def)
  have q1: "shape3 keyed q1 c" using shape3_view [OF assms(2)] k by simp
  have "ring3_ok m ?s \<and> ring_len ?s = ring_len ?r" if "ring3_ok m ?r" for m using ring3_replace [OF that] k by simp
  note n = shape3_streams [OF q1 this]
  show ?thesis using n(2) shape3_cong [OF n(1), of c'] by (simp add: e owed3_def)
qed (use assms in \<open>simp add: flush_unsent_def\<close>)


lemma open_requests_books:
  "open_requests env now q c started = (q', c', started') \<Longrightarrow> drives keyed (e3_budget env) rest (q, c, s, started) \<Longrightarrow> c3_h3_ready c
   \<Longrightarrow> drives keyed (e3_budget env) rest (q', c', s, started')"
proof (induction env now q c started rule: open_requests.induct)
  case (1 env now q c started)
  note step = open_requests.simps [of env now q c started]
  show ?case
  proof (cases "ring_len (c3_streams c) < e3_parallel env \<and> may_start (e3_budget env) started")
    case False
    then show ?thesis using "1.prems" step by auto
  next
    case True
    obtain m where m: "connects keyed 0 m q" "ring3_ok m (c3_streams c)" using "1.prems"(2,3) by (auto simp: drives_def shape3_def)
    note o = opened_connects(1) [OF m(1), of "e3_request env"]
    obtain x q1 where x: "send_oneshot (e3_request env) q = (x, q1)" by fastforce
    show ?thesis
    proof (cases x)
      case None
      then have "connects keyed 0 m q1" using o x by simp
      then show ?thesis using "1.prems" True step x None m(2) by (auto simp: drives_def shape3_def)
    next
      case (Some y)
      obtain qsid sent where y: "y = (qsid, sent)" by fastforce
      let ?x = "\<lparr>i3_stream_id = qsid, i3_start = now, i3_reader = reader_default, i3_unsent = drop sent (e3_request env)\<rparr>"
      let ?c = "c\<lparr>c3_has_unsent := c3_has_unsent c \<or> sent < length (e3_request env), c3_streams := ring_push 2 qsid ?x (c3_streams c)\<rparr>"
      have q1: "qsid = 4 * m" "connects keyed 0 (Suc m) q1" using o x Some y by simp_all
      have "ring3_ok (Suc m) (c3_streams ?c)" using ring3_push [OF m(2), of ?x] q1(1) by (simp add: reader_default_def)
      then have "drives keyed (e3_budget env) rest (q1, ?c, s, started + 1)"
        using "1.prems"(2,3) q1(2) True by (auto simp: drives_def shape3_def balanced_def owed3_def ring_len_push)
      moreover have "open_requests env now q1 ?c (started + 1) = (q', c', started')"
        using "1.prems"(1) step True x Some y by (simp add: Let_def)
      ultimately show ?thesis using "1.IH" [OF True x [symmetric] Some y [symmetric]] "1.prems"(3) by simp
    qed
  qed
qed

lemma fill_requests_books:
  "fill_requests env now stop q c started = (q', c', started') \<Longrightarrow> drives keyed (e3_budget env) rest (q, c, s, started)
   \<Longrightarrow> drives keyed (e3_budget env) rest (q', c', s, started')"
  by (auto simp: fill_requests_def intro: open_requests_books split: if_splits)

lemma drive_settle_books:
  assumes x: "drives keyed (e3_budget env) rest x"
  shows "safe sound3 (\<lambda>(_, x). drives keyed (e3_budget env) rest x) (drive_settle env now stop alive finished x)"
proof -
  let ?D = "drives keyed (e3_budget env) rest"
  have finish: "?D (q', c', s, started')" if "?D (q, c, s, started)" "retry_init q c = (q1, c1)" "flush_unsent q1 c1 = (q2, c2)"
    "fill_requests env now stop q2 c2 started = (q', c', started')" for q c s started q1 c1 q2 c2 q' c' started'
  proof -
    have q: "shape3 keyed q c" using that(1) by (simp add: drives_def)
    note i = retry_init_books [OF that(2) q]
    have "?D (q2, c2, s, started)" using that(1) i flush_unsent_books [OF that(3), of keyed] by (simp add: drives_def)
    then show ?thesis using fill_requests_books [OF that(4)] by blast
  qed
  have judged: "safe sound3 (\<lambda>(_, x). ?D x)
      (rbind (judge drained (e3_parallel env) (c3_give_backs c, s, started)) (\<lambda>(g, s, started).
         let (q, c) = retry_init q (c\<lparr>c3_give_backs := g\<rparr>);
             (q, c) = flush_unsent q c;
             (q, c, started) = fill_requests env now stop q c started in
         Inr (alive, q, c, s, started)))" if d: "?D (q, c, s, started)" for alive drained q c s started
  proof (rule safe_bind [OF judge_books [where rest = "ring_len (c3_streams c) + rest"]])
    show "balanced (e3_budget env) (gb_unjudged (c3_give_backs c) + (ring_len (c3_streams c) + rest)) s started"
      using d by (simp add: drives_def owed3_def ac_simps)
    fix y :: "give_backs \<times> stats \<times> nat" assume y: "case y of (g', s', started') \<Rightarrow> balanced (e3_budget env) (gb_unjudged g' + (ring_len (c3_streams c) + rest)) s' started'
      \<and> (gb_unjudged (c3_give_backs c) = 0 \<longrightarrow> gb_unjudged g' = 0)"
    obtain g :: give_backs and s' n where g: "y = (g, s', n)" by (metis prod_cases3)
    have "?D (q, c\<lparr>c3_give_backs := g\<rparr>, s', n)" using y d by (auto simp: g drives_def shape3_def owed3_def ac_simps)
    then show "safe sound3 (\<lambda>(_, x). ?D x) (case y of (g, s, started) \<Rightarrow>
         let (q, c) = retry_init q (c\<lparr>c3_give_backs := g\<rparr>);
             (q, c) = flush_unsent q c;
             (q, c, started) = fill_requests env now stop q c started in
         Inr (alive, q, c, s, started))" using finish by (auto simp: g Let_def split: prod.split)
  qed
  have loop: "safe sound3 (\<lambda>(_, x). ?D x) (worker_loop (drive_finished (e3_parallel env) now) finished x)"
    by (rule worker_loop_safe [where P = ?D]) (use x drive_finished_books in auto)
  show ?thesis unfolding drive_settle_def
    by (rule safe_bind [OF loop]) (auto intro!: safe_bind [OF drive_goaway_books] judged [unfolded Let_def])
qed

lemma drive_readable_loop_books:
  "shape3 keyed q c \<Longrightarrow> safe sound3 (\<lambda>(_, q', c'). shape3 keyed q' c' \<and> owed3 c' = owed3 c) (worker_loop drive_readable sids (q, c))"
proof (induction sids arbitrary: q c)
  case (Cons sid sids)
  show ?case unfolding worker_loop.simps
    by (rule safe_bind [OF drive_readable_books [OF Cons.prems]]) (auto intro!: safe_weaken [OF Cons.IH])
qed simp


text \<open>Any connection of the worker: one that is closing owes nothing, one without a socket has nothing in it.\<close>

definition conn3_ok :: "('t \<Rightarrow> bool) \<Rightarrow> ('t, 's) conn3 \<Rightarrow> bool" where
  "conn3_ok keyed c \<longleftrightarrow>
     (if c3_closing c \<noteq> None then owed3 c = 0
      else case c3_quic c of
        None \<Rightarrow> c3_streams c = ring_new \<and> owed3 c = 0 \<and> \<not> c3_h3_ready c \<and> c3_h3_init c = None
      | Some q \<Rightarrow> shape3 keyed q c)"

definition books3 :: "('t \<Rightarrow> bool) \<Rightarrow> budget \<Rightarrow> nat \<Rightarrow> ('t, 's) conn3 \<Rightarrow> stats \<Rightarrow> nat \<Rightarrow> bool" where
  "books3 keyed b rest c s started \<longleftrightarrow> balanced b (owed3 c + rest) s started \<and> conn3_ok keyed c"

lemma drives_books:
  "drives keyed b rest (q, c, s, started) \<Longrightarrow> books3 keyed b rest (c\<lparr>c3_quic := Some q\<rparr>) s started"
  by (auto simp: drives_def books3_def conn3_ok_def owed3_def shape3_def)

lemma drive_books:
  assumes b: "books3 keyed (e3_budget env) rest c s started" and "c3_closing c = None"
  shows "safe sound3 (\<lambda>(_, c, s, started). books3 keyed (e3_budget env) rest c s started) (drive env now stop c s started)"
proof (cases "c3_quic c")
  case None
  then show ?thesis using b by (simp add: drive_def)
next
  case (Some q)
  then have q: "shape3 keyed q c" using assms by (simp add: books3_def conn3_ok_def)
  obtain ok alive readable finished q1 c1 where e: "drive_events True [] [] q c = (ok, alive, readable, finished, q1, c1)"
    by (metis prod_cases6)
  note e1 = drive_events_books [OF e q]
  have on: "drives keyed (e3_budget env) rest (q', c', s, started)" if "shape3 keyed q' c' \<and> owed3 c' = owed3 c1" for q' c'
    using that e1 b by (simp add: drives_def books3_def)
  have settled: "safe sound3 (\<lambda>(_, c, s, started). books3 keyed (e3_budget env) rest c s started)
      (rbind (drive_settle env now stop alive finished (q', c', s, started)) (\<lambda>(alive, q, c, s, started).
         Inr (alive, c\<lparr>c3_quic := Some q\<rparr>, s, started)))" if "shape3 keyed q' c' \<and> owed3 c' = owed3 c1" for q' c'
    by (rule safe_bind [OF drive_settle_books [OF on [OF that]]]) (auto intro: drives_books)
  show ?thesis unfolding drive_def Some option.case e prod.case
    using e1 drives_books [OF on] settled
    by (auto intro!: safe_bind [OF drive_readable_loop_books, of keyed])
qed

end
