(* ===== verification/H3_Worker.thy ===== *)
theory H3_Worker
  imports H3_Conn Quic_Timers
begin

text \<open>
  The HTTP/3 worker (\<open>http3.rs\<close>): timers, completions, closing and reopening connections, its loop from the first
  sockets to the farewell, and the accounting of requests. The kernel, the clock and TLS are as for the other workers;
  a submission that waits for the kernel to take all of the queue is one call into the ring.
\<close>

section \<open>State\<close>

definition WAIT_TIMEOUT :: nat where "WAIT_TIMEOUT = 10 ^ 8"

record ('t, 's) worker3 =
  w3_conns :: "('t, 's) conn3 list"
  w3_retired :: "retired_send list"
  w3_stats :: stats
  w3_started :: nat
  w3_stop :: bool
  w3_wait :: nat
  w3_ring :: uring

definition arm_recv :: "('t, 's) env3 \<Rightarrow> nat \<Rightarrow> ('t, 's) conn3 \<Rightarrow> uring \<Rightarrow> (worker_fault, ('t, 's) conn3 \<times> uring) result" where
  "arm_recv env conn_idx c r =
     (if c3_recv_armed c then Inr (c, r)
      else rbind (lift_ring (push_recvmsg_multi (e3_io env) conn_idx (c3_generation c) r)) (\<lambda>r.
        Inr (c\<lparr>c3_recv_armed := True\<rparr>, r)))"

section \<open>Sending\<close>

text \<open>The segment size goes into 16 bits of the control message.\<close>

definition push_front_send :: "('t, 's) env3 \<Rightarrow> nat \<Rightarrow> ('t, 's) conn3 \<Rightarrow> uring \<Rightarrow> (worker_fault, ('t, 's) conn3 \<times> uring) result" where
  "push_front_send env conn_idx c r =
     (case c3_out_queue c of
        [] \<Rightarrow> Inr (c, r)
      | front # _ \<Rightarrow>
          let c = c\<lparr>c3_sending := True\<rparr> in
          rbind (lift_ring
            (if dg_segment_size front > 0
             then push_sqe (e3_io env) (Sqe_sendmsg conn_idx (c3_generation c) (dg_buf front) (take_bit 16 (dg_segment_size front))) r
             else push_send_slice (e3_io env) conn_idx (c3_generation c) (dg_buf front) r)) (\<lambda>r. Inr (c, r)))"

definition h3_recycle :: "('t, 's) conn3 \<Rightarrow> ('t, 's) conn3" where
  "h3_recycle c = c\<lparr>c3_out_queue := tl (c3_out_queue c)\<rparr>"

definition pump_transmits ::
    "('t, 's) env3 \<Rightarrow> nat \<Rightarrow> nat \<Rightarrow> ('t, 's) conn3 \<Rightarrow> uring \<Rightarrow> (worker_fault, ('t, 's) conn3 \<times> uring) result" where
  "pump_transmits env now conn_idx c r =
     rbind (case c3_quic c of
              None \<Rightarrow> Inr c
            | Some q \<Rightarrow>
                rbind (quic_call (pump_datagrams (e3_api env) now (e3_gso env) q)) (\<lambda>(ds, q).
                Inr (c\<lparr>c3_quic := Some q, c3_out_queue := c3_out_queue c @ ds\<rparr>))) (\<lambda>c.
     if c3_sending c then Inr (c, r) else push_front_send env conn_idx c r)"

text \<open>\<open>swap_remove\<close> puts the last element where the removed one was.\<close>

definition swap_remove :: "nat \<Rightarrow> 'a list \<Rightarrow> 'a list" where
  "swap_remove i xs = butlast (xs[i := last xs])"

fun retired_position :: "nat \<Rightarrow> retired_send list \<Rightarrow> nat option" where
  "retired_position ud [] = None"
| "retired_position ud (r # rs) = (if rt_user_data r = ud then Some 0 else map_option Suc (retired_position ud rs))"

definition add_sent :: "int \<Rightarrow> stats \<Rightarrow> stats" where
  "add_sent res s = (if res > 0 then s\<lparr>st_bytes_sent := st_bytes_sent s + nat res\<rparr> else s)"

definition complete_retired_send :: "nat \<Rightarrow> int \<Rightarrow> ('t, 's) worker3 \<Rightarrow> ('t, 's) worker3" where
  "complete_retired_send ud res w =
     (case retired_position ud (w3_retired w) of
        None \<Rightarrow> w
      | Some i \<Rightarrow> w\<lparr>w3_retired := swap_remove i (w3_retired w), w3_stats := add_sent res (w3_stats w)\<rparr>)"

section \<open>Closing and reopening\<close>

type_synonym ('t, 's) handled3 = "(worker_fault, ('t, 's) conn3 \<times> ('t, 's) worker3) result"

text \<open>A socket, a QUIC connection on it, a receive, and the first datagram.\<close>

definition open_conn :: "('t, 's) env3 \<Rightarrow> nat \<Rightarrow> nat \<Rightarrow> ('t, 's) conn3 \<Rightarrow> ('t, 's) worker3 \<Rightarrow> ('t, 's) handled3" where
  "open_conn env now conn_idx c w =
     rbind (lift_ring (make_udp_socket (e3_io env) (w3_ring w))) (\<lambda>(fd, r).
     rbind (lift_ring (ring_call (e3_io env) r)) (\<lambda>r.
     let n = ur_calls r; (e1, e2) = e3_entropy env n in
     case quic_connect (e3_api env) (e3_start_tls env n) e1 e2 (h3_local_params (e3_connect_timeout env) (e3_timeout env)) of
       None \<Rightarrow> Inl Quic_setup_failed
     | Some q \<Rightarrow>
         rbind (arm_recv env conn_idx (c\<lparr>c3_fd := Some fd, c3_quic := Some q\<rparr>) r) (\<lambda>(c, r).
         rbind (pump_transmits env now conn_idx c r) (\<lambda>(c, r). Inr (c, w\<lparr>w3_ring := r\<rparr>)))))"

definition finish_close :: "('t, 's) env3 \<Rightarrow> nat \<Rightarrow> nat \<Rightarrow> ('t, 's) conn3 \<Rightarrow> ('t, 's) worker3 \<Rightarrow> ('t, 's) handled3" where
  "finish_close env now conn_idx c w =
     rbind (lift_ring (ring_call (e3_io env) (w3_ring w))) (\<lambda>r.
     rbind (if c3_recv_armed c then lift_ring (ring_call (e3_io env) r) else Inr r) (\<lambda>r.
     let (c, retired) = c3_close conn_idx c (w3_retired w); w = w\<lparr>w3_retired := retired, w3_ring := r\<rparr> in
     if w3_stop w \<or> \<not> may_start (e3_budget env) (w3_started w) then
       rbind (lift_ring (ring_call (e3_io env) r)) (\<lambda>r. Inr (c, w\<lparr>w3_ring := r\<rparr>))
     else open_conn env now conn_idx c w))"

definition begin_close :: "('t, 's) env3 \<Rightarrow> nat \<Rightarrow> nat \<Rightarrow> ('t, 's) conn3 \<Rightarrow> ('t, 's) worker3 \<Rightarrow> ('t, 's) handled3" where
  "begin_close env now conn_idx c w =
     (let (c, w) =
        (if c3_closing c \<noteq> None then (c, w)
         else
           let (c, w) =
             (if c3_h3_ready c then (case c3_fail_inflight c (w3_stats w) of (c, s) \<Rightarrow> (c, w\<lparr>w3_stats := s\<rparr>))
              else if may_start (e3_budget env) (w3_started w) then
                (c, w\<lparr>w3_stats := (w3_stats w)\<lparr>st_errors := st_errors (w3_stats w) + 1,
                                              st_connect_errors := st_connect_errors (w3_stats w) + 1\<rparr>,
                      w3_started := w3_started w + 1\<rparr>)
              else (c, w)) in
           (c\<lparr>c3_closing := Some (now + CLOSE_GRACE)\<rparr>, w)) in
      if c3_sending c then Inr (c, w) else finish_close env now conn_idx c w)"


section \<open>Receiving\<close>

text \<open>The datagrams of a receive: an error breaks the connection, a panic ends the worker.\<close>

fun feed_datagrams ::
    "('t, 's) tls_api \<Rightarrow> nat \<Rightarrow> bytes list \<Rightarrow> ('t, 's) quic \<Rightarrow> (worker_fault, bool \<times> ('t, 's) quic) result" where
  "feed_datagrams api now [] q = Inr (False, q)"
| "feed_datagrams api now (d # ds) q =
     (case handle_datagram api now d q of
        Inl (e, q) \<Rightarrow> if e = Panic then Inl (Quic_fault Panic) else Inr (True, q)
      | Inr q \<Rightarrow> feed_datagrams api now ds q)"

text \<open>Whether the connection broke. The buffer is given back whatever happened.\<close>

definition recv_complete ::
    "('t, 's) env3 \<Rightarrow> nat \<Rightarrow> cqe \<Rightarrow> ('t, 's) conn3 \<Rightarrow> ('t, 's) worker3 \<Rightarrow> (worker_fault, bool \<times> ('t, 's) conn3 \<times> ('t, 's) worker3) result" where
  "recv_complete env now e c w =
     (let res = cq_result e;
          c = (if cq_more e then c else c\<lparr>c3_recv_armed := False\<rparr>);
          w1 = w\<lparr>w3_ring := recycle_buffer (cq_buffer e) (w3_ring w)\<rparr> in
      if res < 0 then Inr (res \<noteq> - ENOBUFS \<and> res \<noteq> - EMSGSIZE, c, w1)
      else if cq_buffer e = None then Inr (True, c, w1)
      else case recv_decode (e3_abi env) (take (nat res) (cq_bytes e)) of
        None \<Rightarrow> Inr (True, c, w1)
      | Some (payload, segment_size) \<Rightarrow>
          let w1 = w1\<lparr>w3_stats := (w3_stats w1)\<lparr>st_bytes_received := st_bytes_received (w3_stats w1) + length payload\<rparr>\<rparr> in
          case c3_quic c of
            None \<Rightarrow> Inr (False, c\<lparr>c3_pending := True\<rparr>, w1)
          | Some q \<Rightarrow>
              rbind (feed_datagrams (e3_api env) now (chunks segment_size payload) q) (\<lambda>(broken, q).
              let c = c\<lparr>c3_quic := Some q\<rparr> in
              if broken then Inr (True, c, w1) else Inr (False, c\<lparr>c3_pending := True\<rparr>, w1)))"

section \<open>Completions\<close>

definition h3w_on_send ::
    "('t, 's) env3 \<Rightarrow> nat \<Rightarrow> int \<Rightarrow> ('t, 's) conn3 \<Rightarrow> ('t, 's) worker3 \<Rightarrow> (worker_fault, bool \<times> ('t, 's) conn3 \<times> ('t, 's) worker3) result" where
  "h3w_on_send env conn_idx res c w =
     (let c = c\<lparr>c3_sending := False\<rparr> in
      rbind (if res = - EMSGSIZE then
               rbind (push_front_send env conn_idx (h3_recycle c) (w3_ring w)) (\<lambda>(c, r). Inr (False, c, w\<lparr>w3_ring := r\<rparr>))
             else if res < 0 then Inr (True, c, w)
             else
               let w = w\<lparr>w3_stats := (w3_stats w)\<lparr>st_bytes_sent := st_bytes_sent (w3_stats w) + nat res\<rparr>\<rparr> in
               rbind (push_front_send env conn_idx (h3_recycle c) (w3_ring w)) (\<lambda>(c, r). Inr (False, c, w\<lparr>w3_ring := r\<rparr>))) (\<lambda>(broken, c, w).
      Inr (broken \<or> c3_closing c \<noteq> None \<and> \<not> c3_sending c, c, w)))"

definition h3w_on_recv ::
    "('t, 's) env3 \<Rightarrow> nat \<Rightarrow> nat \<Rightarrow> cqe \<Rightarrow> ('t, 's) conn3 \<Rightarrow> ('t, 's) worker3 \<Rightarrow> (worker_fault, bool \<times> ('t, 's) conn3 \<times> ('t, 's) worker3) result" where
  "h3w_on_recv env now conn_idx e c w =
     rbind (recv_complete env now e c w) (\<lambda>(broken, c, w).
     if broken then Inr (True, c, w)
     else rbind (arm_recv env conn_idx c (w3_ring w)) (\<lambda>(c, r). Inr (False, c, w\<lparr>w3_ring := r\<rparr>)))"

definition h3w_completion :: "('t, 's) env3 \<Rightarrow> nat \<Rightarrow> cqe \<Rightarrow> ('t, 's) worker3 \<Rightarrow> (worker_fault, bool \<times> ('t, 's) worker3) result" where
  "h3w_completion env now e w =
     (if cq_user_data e = TIMEOUT_USER_DATA then Inr (True, w\<lparr>w3_stop := True\<rparr>)
      else
        let (op, conn_idx, generation) = decode_user_data (cq_user_data e) in
        if conn_idx \<ge> length (w3_conns w) then Inl Bad_index
        else
          let c = w3_conns w ! conn_idx in
          if generation \<noteq> c3_generation c then
            let w = w\<lparr>w3_ring := recycle_buffer (cq_buffer e) (w3_ring w)\<rparr> in
            Inr (True, if op = OP_SEND then complete_retired_send (cq_user_data e) (cq_result e) w else w)
          else
            rbind (if op = OP_SEND then h3w_on_send env conn_idx (cq_result e) c w
                   else if op = OP_RECV then h3w_on_recv env now conn_idx e c w
                   else Inl Bad_operation) (\<lambda>(broken, c, w).
            rbind (if broken then begin_close env now conn_idx c w else Inr (c, w)) (\<lambda>(c, w).
            Inr (True, w\<lparr>w3_conns := (w3_conns w)[conn_idx := c]\<rparr>))))"

section \<open>Driving\<close>

text \<open>Driving a connection, sending what it has to say, and closing it when it is over.\<close>

definition h3w_drive :: "('t, 's) env3 \<Rightarrow> nat \<Rightarrow> nat \<Rightarrow> ('t, 's) conn3 \<Rightarrow> ('t, 's) worker3 \<Rightarrow> ('t, 's) handled3" where
  "h3w_drive env now conn_idx c w =
     rbind (drive env now (w3_stop w) c (w3_stats w) (w3_started w)) (\<lambda>(alive, c, s, started).
     rbind (pump_transmits env now conn_idx c (w3_ring w)) (\<lambda>(c, r).
     let w = w\<lparr>w3_stats := s, w3_started := started, w3_ring := r\<rparr> in
     if alive then Inr (c, w) else begin_close env now conn_idx c w))"

text \<open>
  The timers of a connection: whether one expired, and how long to wait for the next. A loop that does not end is \<open>None\<close>.
\<close>

partial_function (option) service_timers ::
    "nat \<Rightarrow> bool \<Rightarrow> nat \<Rightarrow> ('t, 's) quic \<Rightarrow> (bool \<times> nat \<times> ('t, 's) quic) option" where
  "service_timers now expired wait q =
     (case poll_timeout q of
        None \<Rightarrow> Some (expired, wait, q)
      | Some at \<Rightarrow>
          if at \<le> now then service_timers now True wait (handle_timeout now q)
          else Some (expired, min wait (at - now), q))"

declare service_timers.simps [code]

definition h3w_timers_one :: "('t, 's) env3 \<Rightarrow> nat \<Rightarrow> nat \<Rightarrow> ('t, 's) worker3 \<Rightarrow> (worker_fault, bool \<times> ('t, 's) worker3) result" where
  "h3w_timers_one env now conn_idx w =
     (let c = w3_conns w ! conn_idx; put = (\<lambda>(c, w). Inr (True, w\<lparr>w3_conns := (w3_conns w)[conn_idx := c]\<rparr>)) in
      case c3_closing c of
        Some at \<Rightarrow>
          if at \<le> now then rbind (finish_close env now conn_idx c w) put
          else Inr (True, w\<lparr>w3_wait := min (w3_wait w) (at - now)\<rparr>)
      | None \<Rightarrow>
          (case c3_quic c of
             None \<Rightarrow> Inr (True, w)
           | Some q \<Rightarrow>
               (case service_timers now False (w3_wait w) q of
                  None \<Rightarrow> Inl Timers_spin
                | Some (expired, wait, q) \<Rightarrow>
                    let c = c\<lparr>c3_quic := Some q\<rparr>; w = w\<lparr>w3_wait := wait\<rparr> in
                    if expired then rbind (h3w_drive env now conn_idx c w) put else put (c, w))))"

definition h3w_drive_one :: "('t, 's) env3 \<Rightarrow> nat \<Rightarrow> nat \<Rightarrow> ('t, 's) worker3 \<Rightarrow> (worker_fault, bool \<times> ('t, 's) worker3) result" where
  "h3w_drive_one env now conn_idx w =
     (let c = w3_conns w ! conn_idx; put = (\<lambda>(c, w). Inr (True, w\<lparr>w3_conns := (w3_conns w)[conn_idx := c]\<rparr>)) in
      if \<not> c3_pending c \<or> c3_closing c \<noteq> None then put (c\<lparr>c3_pending := False\<rparr>, w)
      else rbind (h3w_drive env now conn_idx (c\<lparr>c3_pending := False\<rparr>) w) put)"

definition h3w_expire_one :: "('t, 's) env3 \<Rightarrow> nat \<Rightarrow> nat \<Rightarrow> nat \<Rightarrow> ('t, 's) worker3 \<Rightarrow> (worker_fault, bool \<times> ('t, 's) worker3) result" where
  "h3w_expire_one env now limit conn_idx w =
     (let c = w3_conns w ! conn_idx in
      if \<not> c3_timed_out now limit c then Inr (True, w)
      else
        let c = c\<lparr>c3_quic := map_option (quic_close H3_REQUEST_CANCELLED []) (c3_quic c)\<rparr> in
        rbind (pump_transmits env now conn_idx c (w3_ring w)) (\<lambda>(c, r).
        rbind (begin_close env now conn_idx c (w\<lparr>w3_ring := r\<rparr>)) (\<lambda>(c, w).
        Inr (True, w\<lparr>w3_conns := (w3_conns w)[conn_idx := c]\<rparr>))))"


section \<open>The loop\<close>

text \<open>
  One turn: timers, the wait (at most \<open>w3_wait\<close> long), completions, the connections that received something, timeouts. The
  loop reads the clock three times: before the timers, after the wait, and after the completions. Within one of these
  passes the clock stands still: a request or a connection that starts in it, or ends in it, is timed with its instant.
\<close>

definition h3w_expire :: "('t, 's) env3 \<Rightarrow> nat \<Rightarrow> ('t, 's) worker3 \<Rightarrow> (worker_fault, bool \<times> ('t, 's) worker3) result" where
  "h3w_expire env now w =
     (case e3_timeout env of
        None \<Rightarrow> Inr (True, w)
      | Some limit \<Rightarrow> worker_loop (h3w_expire_one env now limit) [0..<length (w3_conns w)] w)"

definition h3w_round :: "('t, 's) env3 \<Rightarrow> (nat \<times> nat \<times> nat) \<times> bool \<times> cqe list \<Rightarrow> ('t, 's) worker3 \<Rightarrow> (worker_fault, bool \<times> ('t, 's) worker3) result" where
  "h3w_round env turn w =
     (let ((begun, reaped, driven_at), shutdown, es) = turn in
      if is_met (e3_budget env) (st_completed (w3_stats w) + st_errors (w3_stats w)) then Inr (False, w)
      else if shutdown then Inr (False, w)
      else
        rbind (worker_loop (h3w_timers_one env begun) [0..<length (w3_conns w)] (w\<lparr>w3_wait := WAIT_TIMEOUT\<rparr>)) (\<lambda>(_, w).
        rbind (lift_ring (ring_call (e3_io env) (w3_ring w))) (\<lambda>r.
        rbind (worker_loop (h3w_completion env reaped) es (w\<lparr>w3_ring := r\<rparr>)) (\<lambda>(_, w).
        rbind (worker_loop (h3w_drive_one env driven_at) [0..<length (w3_conns w)] w) (\<lambda>(_, w).
        rbind (h3w_expire env driven_at w) (\<lambda>(_, w). Inr (\<not> w3_stop w, w)))))))"

definition h3w_connect_one :: "('t, 's) env3 \<Rightarrow> nat \<Rightarrow> nat \<Rightarrow> ('t, 's) worker3 \<Rightarrow> (worker_fault, bool \<times> ('t, 's) worker3) result" where
  "h3w_connect_one env now i w =
     (if \<not> may_start (e3_budget env) i then Inr (False, w)
      else rbind (open_conn env now i (w3_conns w ! i) w) (\<lambda>(c, w). Inr (True, w\<lparr>w3_conns := (w3_conns w)[i := c]\<rparr>)))"

definition h3w_setup :: "nat \<Rightarrow> buf_ring \<Rightarrow> ('t, 's) worker3" where
  "h3w_setup connections bufs =
     \<lparr>w3_conns = replicate connections conn3_new, w3_retired = [], w3_stats = stats_default, w3_started = 0, w3_stop = False,
      w3_wait = WAIT_TIMEOUT, w3_ring = \<lparr>ur_sq = [], ur_calls = 0, ur_bufs = bufs\<rparr>\<rparr>"

definition h3w_start :: "('t, 's) env3 \<Rightarrow> nat \<Rightarrow> nat \<Rightarrow> buf_ring \<Rightarrow> (worker_fault, ('t, 's) worker3) result" where
  "h3w_start env now connections bufs =
     (let w = h3w_setup connections bufs in
      rbind (lift_ring (arm_deadline (e3_io env) (deadline (e3_budget env)) (w3_ring w))) (\<lambda>r.
      rbind (worker_loop (h3w_connect_one env now) [0..<connections] (w\<lparr>w3_ring := r\<rparr>)) (\<lambda>(_, w). Inr w)))"

section \<open>The farewell\<close>

definition drain_final_one3 :: "cqe \<Rightarrow> ('t, 's) worker3 \<Rightarrow> (worker_fault, bool \<times> ('t, 's) worker3) result" where
  "drain_final_one3 e w =
     (let w = w\<lparr>w3_ring := recycle_buffer (cq_buffer e) (w3_ring w)\<rparr> in
      if cq_user_data e = TIMEOUT_USER_DATA then Inr (True, w)
      else
        let (op, conn_idx, generation) = decode_user_data (cq_user_data e) in
        if op \<noteq> OP_SEND then Inr (True, w)
        else if conn_idx \<ge> length (w3_conns w) then Inl Bad_index
        else
          let c = w3_conns w ! conn_idx in
          if generation \<noteq> c3_generation c then Inr (True, complete_retired_send (cq_user_data e) (cq_result e) w)
          else if c3_sending c then
            Inr (True, w\<lparr>w3_stats := add_sent (cq_result e) (w3_stats w),
              w3_conns := (w3_conns w)[conn_idx := h3_recycle (c\<lparr>c3_sending := False\<rparr>)]\<rparr>)
          else Inr (True, w))"

text \<open>
  One wait of \<open>finish_io\<close> for the sends still in the kernel, given the deadline; the flag says whether it has to wait on.
\<close>

definition finish_io_one :: "('t, 's) env3 \<Rightarrow> nat \<Rightarrow> nat \<times> cqe list \<Rightarrow> ('t, 's) worker3 \<Rightarrow> (worker_fault, bool \<times> ('t, 's) worker3) result" where
  "finish_io_one env at batch w =
     (let (now, es) = batch in
      rbind (lift_ring (ring_call (e3_io env) (w3_ring w))) (\<lambda>r.
      rbind (worker_loop drain_final_one3 es (w\<lparr>w3_ring := r\<rparr>)) (\<lambda>(_, w).
      if \<not> list_ex c3_sending (w3_conns w) \<and> w3_retired w = [] then Inr (False, w)
      else if now \<ge> at then Inl Reap_timed_out
      else Inr (True, w))))"

text \<open>Submitting, cancelling, and reaping; the flag says whether the batches given to it ran out first.\<close>

definition finish_io ::
    "('t, 's) env3 \<Rightarrow> nat \<Rightarrow> (nat \<times> cqe list) list \<Rightarrow> ('t, 's) worker3 \<Rightarrow> (worker_fault, bool \<times> ('t, 's) worker3) result" where
  "finish_io env now batches w =
     rbind (lift_ring (ring_call (e3_io env) (w3_ring w))) (\<lambda>r.
     rbind (lift_ring (ring_call (e3_io env) r)) (\<lambda>r.
     worker_loop (finish_io_one env (now + CLOSE_GRACE)) batches (w\<lparr>w3_ring := r\<rparr>)))"

definition h3w_goodbye_one :: "('t, 's) env3 \<Rightarrow> nat \<Rightarrow> nat \<Rightarrow> ('t, 's) worker3 \<Rightarrow> (worker_fault, bool \<times> ('t, 's) worker3) result" where
  "h3w_goodbye_one env now conn_idx w =
     (let c = w3_conns w ! conn_idx in
      rbind (case c3_quic c of
               None \<Rightarrow> Inr (w3_ring w)
             | Some q \<Rightarrow>
                 (case poll_transmit (e3_api env) now None (quic_close H3_NO_ERROR [] q) of
                    Inl (e, _) \<Rightarrow> if e = Panic then Inl (Quic_fault Panic) else Inr (w3_ring w)
                  | Inr (out, _) \<Rightarrow>
                      Inr (if out = [] then w3_ring w
                           else (w3_ring w)\<lparr>ur_sq := ur_sq (w3_ring w) @ [Raw_send (case c3_fd c of Some fd \<Rightarrow> fd | None \<Rightarrow> 0) out]\<rparr>))) (\<lambda>r.
      case c3_close conn_idx c (w3_retired w) of (c, retired) \<Rightarrow>
        Inr (True, w\<lparr>w3_conns := (w3_conns w)[conn_idx := c], w3_retired := retired, w3_ring := r\<rparr>)))"

text \<open>
  The whole of \<open>run_worker\<close>; \<open>closed\<close> and \<open>farewell\<close> are the instants at which the operations are cancelled and the last
  datagrams sent. \<open>None\<close> says that the loop, or the wait for the last sends, is still going when the inputs given to it are
  used up.
\<close>

definition h3w_run_worker ::
    "('t, 's) env3 \<Rightarrow> nat \<Rightarrow> nat \<Rightarrow> buf_ring \<Rightarrow> ((nat \<times> nat \<times> nat) \<times> bool \<times> cqe list) list \<Rightarrow> nat \<Rightarrow> (nat \<times> cqe list) list \<Rightarrow> nat
     \<Rightarrow> (run_error, stats) result option" where
  "h3w_run_worker env now connections bufs turns closed batches farewell =
     (if connections = 0 \<or> budget_is_empty (e3_budget env) then Some (Inr stats_default)
      else if connections > push_bit CONN_IDX_BITS 1 then Some (Inl Too_many_connections)
      else
        case rbind (h3w_start env now connections bufs) (worker_loop (h3w_round env) turns) of
          Inl e \<Rightarrow> Some (Inl (Run_fault e))
        | Inr (True, w) \<Rightarrow> None
        | Inr (False, w) \<Rightarrow>
            (case finish_io env closed batches w of
               Inl e \<Rightarrow> Some (Inl (Run_fault e))
             | Inr (True, w) \<Rightarrow> None
             | Inr (False, w) \<Rightarrow>
                 (case worker_loop (h3w_goodbye_one env farewell) [0..<length (w3_conns w)] w of
                    Inl e \<Rightarrow> Some (Inl (Run_fault e))
                  | Inr (_, w) \<Rightarrow> Some (Inr (w3_stats w)))))"


section \<open>The books of the worker\<close>

definition inv3 :: "('t \<Rightarrow> bool) \<Rightarrow> ('t, 's) env3 \<Rightarrow> ('t, 's) worker3 \<Rightarrow> bool" where
  "inv3 keyed env w \<longleftrightarrow>
     balanced (e3_budget env) (\<Sum>c\<leftarrow>w3_conns w. owed3 c) (w3_stats w) (w3_started w) \<and> (\<forall>c \<in> set (w3_conns w). conn3_ok keyed c)"

text \<open>A handler works on one connection of a worker \<open>w0\<close> with the rest of it unchanged.\<close>

definition on_conn3 :: "('t \<Rightarrow> bool) \<Rightarrow> ('t, 's) env3 \<Rightarrow> ('t, 's) worker3 \<Rightarrow> nat \<Rightarrow> ('t, 's) conn3 \<Rightarrow> ('t, 's) worker3 \<Rightarrow> bool" where
  "on_conn3 keyed env w0 i c w \<longleftrightarrow>
     inv3 keyed env w0 \<and> i < length (w3_conns w0) \<and> w3_conns w = w3_conns w0 \<and>
     books3 keyed (e3_budget env) ((\<Sum>c\<leftarrow>w3_conns w0. owed3 c) - owed3 (w3_conns w0 ! i)) c (w3_stats w) (w3_started w)"

lemma owed3_nth_le: "i < length cs \<Longrightarrow> owed3 (cs ! i) \<le> (\<Sum>c\<leftarrow>cs. owed3 c)"
  using elem_le_sum_list [of i "map owed3 cs"] by simp

lemma inv3_focus: "inv3 keyed env w \<Longrightarrow> i < length (w3_conns w) \<Longrightarrow> on_conn3 keyed env w i (w3_conns w ! i) w"
  using owed3_nth_le [of i "w3_conns w"] by (simp add: inv3_def on_conn3_def books3_def nth_mem)

lemma inv3_put:
  assumes "on_conn3 keyed env w0 i c w"
  shows "inv3 keyed env (w\<lparr>w3_conns := (w3_conns w)[i := c]\<rparr>) \<and> length ((w3_conns w)[i := c]) = length (w3_conns w0)"
proof -
  have i: "i < length (w3_conns w0)" using assms(1) by (simp add: on_conn3_def)
  have "(\<Sum>c\<leftarrow>(w3_conns w0)[i := c]. owed3 c) = (\<Sum>c\<leftarrow>w3_conns w0. owed3 c) - owed3 (w3_conns w0 ! i) + owed3 c"
    using i owed3_nth_le [OF i] by (simp add: map_update sum_list_update)
  moreover have "\<forall>d \<in> set ((w3_conns w0)[i := c]). conn3_ok keyed d"
    using assms(1) set_update_subset_insert [of "w3_conns w0" i c] by (auto simp: on_conn3_def inv3_def books3_def)
  ultimately show ?thesis using assms by (simp add: on_conn3_def inv3_def books3_def ac_simps)
qed

text \<open>What the books of a connection look at: QUIC may go on as long as it keeps what it owes them.\<close>

definition same3 :: "('t \<Rightarrow> bool) \<Rightarrow> ('t, 's) conn3 \<Rightarrow> ('t, 's) conn3 \<Rightarrow> bool" where
  "same3 keyed c d \<longleftrightarrow>
     c3_streams d = c3_streams c \<and> c3_give_backs d = c3_give_backs c \<and> c3_h3_ready d = c3_h3_ready c \<and> c3_h3_init d = c3_h3_init c \<and>
     c3_closing d = c3_closing c \<and> rel_option (\<lambda>p q. \<forall>k m. connects keyed k m p \<longrightarrow> connects keyed k m q) (c3_quic c) (c3_quic d)"

lemma same3_refl [simp]: "same3 keyed c c"
  by (simp add: same3_def option.rel_refl)

lemma same3_fields [simp]:
  "same3 keyed c (c\<lparr>c3_recv_armed := a\<rparr>)" "same3 keyed c (c\<lparr>c3_sending := a\<rparr>)" "same3 keyed c (c\<lparr>c3_out_queue := ds\<rparr>)"
  "same3 keyed c (c\<lparr>c3_pending := a\<rparr>)" "same3 keyed c (h3_recycle c)"
  by (simp_all add: same3_def option.rel_refl h3_recycle_def)

lemma same3_trans: "same3 keyed c d \<Longrightarrow> same3 keyed d e \<Longrightarrow> same3 keyed c e"
  by (auto simp: same3_def option.rel_sel)

lemma same3_quic:
  "c3_quic c = Some p \<Longrightarrow> (\<And>k m. connects keyed k m p \<Longrightarrow> connects keyed k m q) \<Longrightarrow> same3 keyed c (c\<lparr>c3_quic := Some q\<rparr>)"
  by (simp add: same3_def)

lemma shape3_later:
  "shape3 keyed p c \<Longrightarrow> (\<And>k m. connects keyed k m p \<Longrightarrow> connects keyed k m q) \<Longrightarrow> shape3 keyed q c"
  unfolding shape3_def by blast

lemma same3_keeps:
  assumes "same3 keyed c d"
  shows "owed3 d = owed3 c" "conn3_ok keyed c \<Longrightarrow> conn3_ok keyed d"
proof -
  show owed: "owed3 d = owed3 c" using assms by (simp add: same3_def owed3_def)
  show "conn3_ok keyed d" if "conn3_ok keyed c"
  proof (cases "c3_quic c")
    case None
    then show ?thesis using assms that owed by (auto simp: same3_def conn3_ok_def option.rel_sel)
  next
    case (Some p)
    then obtain q where q: "c3_quic d = Some q" "\<And>k m. connects keyed k m p \<Longrightarrow> connects keyed k m q"
      using assms by (auto simp: same3_def option_rel_Some1)
    have "shape3 keyed p c \<Longrightarrow> shape3 keyed q d"
      using shape3_cong [OF shape3_later [OF _ q(2)], of p c d] assms by (simp add: same3_def)
    then show ?thesis using assms that owed Some q(1) by (auto simp: same3_def conn3_ok_def)
  qed
qed

text \<open>Statistics that differ in bytes only.\<close>

definition same_counts :: "stats \<Rightarrow> stats \<Rightarrow> bool" where
  "same_counts s t \<longleftrightarrow>
     st_completed t = st_completed s \<and> st_errors t = st_errors s \<and> st_latencies_ns t = st_latencies_ns s \<and>
     st_status_counts t = st_status_counts s"

lemma same_counts_simps [simp]:
  "same_counts s s" "same_counts s (s\<lparr>st_bytes_sent := n\<rparr>)" "same_counts s (s\<lparr>st_bytes_received := n\<rparr>)" "same_counts s (add_sent res s)"
  by (simp_all add: same_counts_def add_sent_def)

lemma on_conn3_cong:
  "on_conn3 keyed env w0 i c w \<Longrightarrow> same3 keyed c d \<Longrightarrow> w3_conns v = w3_conns w \<Longrightarrow> w3_started v = w3_started w
   \<Longrightarrow> same_counts (w3_stats w) (w3_stats v) \<Longrightarrow> on_conn3 keyed env w0 i d v"
  by (auto simp: on_conn3_def books3_def same3_keeps balanced_def finished_count_def stats_ok_def same_counts_def)


section \<open>What every handler keeps\<close>

lemma polled_connects:
  "polled api now q outs q' \<Longrightarrow> tls_once keyed api \<Longrightarrow> connects keyed k m q \<Longrightarrow> connects keyed k m q'"
proof (induction rule: polled.induct)
  case (polled_none pad q q')
  then show ?case using poll_transmit_connects [of keyed api k m q now pad] by simp
next
  case (polled_next pad q out q1 outs q')
  then show ?case using poll_transmit_connects [of keyed api k m q now pad] by simp
qed

lemma pump_datagrams_connects:
  assumes "pump_datagrams api now gso q = Inr (ds, q')" "tls_once keyed api" "connects keyed k m q"
  shows "connects keyed k m q'"
proof -
  define most where "most = batch_limit gso (quic_probing q)"
  have "0 < most" by (simp add: most_def batch_limit_def GSO_SEGMENTS_def)
  moreover obtain buf seg cnt oversize where "transmit_batch api now most [] 0 0 q = Inr ((buf, seg, cnt, oversize), q')"
    using assms(1) by (auto simp: pump_datagrams_def most_def [symmetric])
  ultimately obtain outs where "polled api now q outs q'" using transmit_batch_exact by blast
  then show ?thesis using polled_connects assms(2,3) by blast
qed

lemma arm_recv_same: "safe sound3 (\<lambda>(d, r). same3 keyed c d) (arm_recv env k c r)"
  by (auto simp: arm_recv_def intro!: safe_bind [OF safe_lift_ring [of _ _ "\<lambda>_. True"]])

lemma push_front_send_same: "safe sound3 (\<lambda>(d, r). same3 keyed c d) (push_front_send env k c r)"
  by (auto simp: push_front_send_def Let_def split: list.split intro!: safe_bind [OF safe_lift_ring [of _ _ "\<lambda>_. True"]])

lemma pump_transmits_same:
  assumes law: "tls_once keyed (e3_api env)"
  shows "safe sound3 (\<lambda>(d, r). same3 keyed c d) (pump_transmits env now k c r)"
proof -
  have quic: "safe sound3 (same3 keyed c)
     (case c3_quic c of
        None \<Rightarrow> Inr c
      | Some q \<Rightarrow>
          rbind (quic_call (pump_datagrams (e3_api env) now (e3_gso env) q)) (\<lambda>(ds, q).
          Inr (c\<lparr>c3_quic := Some q, c3_out_queue := c3_out_queue c @ ds\<rparr>)))"
    using pump_datagrams_connects [OF _ law]
    by (auto simp: quic_call_def same3_def split: option.split sum.split)
  show ?thesis unfolding pump_transmits_def
    by (rule safe_bind [OF quic]) (auto intro!: safe_weaken [OF push_front_send_same] intro: same3_trans)
qed

lemma feed_datagrams_same:
  "tls_once keyed api \<Longrightarrow> safe sound3 (\<lambda>(_, q'). \<forall>k m. connects keyed k m q \<longrightarrow> connects keyed k m q') (feed_datagrams api now ds q)"
proof (induction ds arbitrary: q)
  case (Cons d ds)
  have left: "connects keyed k m q \<Longrightarrow> connects keyed k m (outcome (handle_datagram api now d q))" for k m
    by (rule handle_datagram_connects [OF Cons.prems])
  show ?case
  proof (cases "handle_datagram api now d q")
    case (Inl r)
    then show ?thesis using left by (cases r) (auto simp: outcome_def)
  next
    case (Inr q1)
    then show ?thesis using left Cons by (auto simp: outcome_def intro!: safe_weaken [OF Cons.IH])
  qed
qed simp

abbreviation handled_ok3 :: "('t \<Rightarrow> bool) \<Rightarrow> ('t, 's) env3 \<Rightarrow> ('t, 's) worker3 \<Rightarrow> nat \<Rightarrow> ('t, 's) handled3 \<Rightarrow> bool" where
  "handled_ok3 keyed env w0 i m \<equiv> safe sound3 (\<lambda>(c, w). on_conn3 keyed env w0 i c w) m"

lemma recv_complete_books:
  assumes law: "tls_once keyed (e3_api env)" and c: "on_conn3 keyed env w0 i c w"
  shows "safe sound3 (\<lambda>(_, c, w). on_conn3 keyed env w0 i c w) (recv_complete env now e c w)"
proof -
  define d where "d = (if cq_more e then c else c\<lparr>c3_recv_armed := False\<rparr>)"
  define v where "v = w\<lparr>w3_ring := recycle_buffer (cq_buffer e) (w3_ring w)\<rparr>"
  have v: "on_conn3 keyed env w0 i d v" using c by (rule on_conn3_cong) (simp_all add: d_def v_def)
  have got: "on_conn3 keyed env w0 i d' (v\<lparr>w3_stats := (w3_stats v)\<lparr>st_bytes_received := n\<rparr>\<rparr>)" if "same3 keyed d d'" for n d'
    using v that by (rule on_conn3_cong) simp_all
  have fed: "safe sound3 (\<lambda>(_, c, w). on_conn3 keyed env w0 i c w)
      (rbind (feed_datagrams (e3_api env) now ds q) (\<lambda>(broken, q).
         let c = d\<lparr>c3_quic := Some q\<rparr> in
         if broken then Inr (True, c, v\<lparr>w3_stats := (w3_stats v)\<lparr>st_bytes_received := n\<rparr>\<rparr>)
         else Inr (False, c\<lparr>c3_pending := True\<rparr>, v\<lparr>w3_stats := (w3_stats v)\<lparr>st_bytes_received := n\<rparr>\<rparr>)))" if "c3_quic d = Some q" for ds q n
    by (rule safe_bind [OF feed_datagrams_same [OF law]])
      (use that in \<open>auto simp: Let_def intro!: got same3_quic same3_trans [OF same3_quic same3_fields(4)]\<close>)
  show ?thesis unfolding recv_complete_def Let_def d_def [symmetric] v_def [symmetric]
    using v fed [unfolded Let_def] by (auto intro!: got split: option.split)
qed


text \<open>A connection with nothing in it, as one is made and as \<open>close\<close> leaves it.\<close>

definition fresh3 :: "('t, 's) conn3 \<Rightarrow> bool" where
  "fresh3 c \<longleftrightarrow>
     c3_streams c = ring_new \<and> gb_unjudged (c3_give_backs c) = 0 \<and> \<not> c3_h3_ready c \<and> c3_h3_init c = None \<and> c3_closing c = None"

lemma open_conn_books:
  assumes law: "tls_once keyed (e3_api env)" and c: "on_conn3 keyed env w0 i c w" and new: "fresh3 c"
  shows "handled_ok3 keyed env w0 i (open_conn env now k c w)"
proof -
  have opened: "on_conn3 keyed env w0 i d (w\<lparr>w3_ring := r\<rparr>)"
    if q: "quic_connect (e3_api env) st e1 e2 p = Some q" and d: "same3 keyed (c\<lparr>c3_fd := f, c3_quic := Some q\<rparr>) d" for st e1 e2 p q d f r
  proof -
    have "shape3 keyed q (c\<lparr>c3_fd := f, c3_quic := Some q\<rparr>)"
      using new connect_connects [OF q, of keyed] ring3_new [of 0] by (auto simp: fresh3_def shape3_def owed3_def)
    then have "on_conn3 keyed env w0 i (c\<lparr>c3_fd := f, c3_quic := Some q\<rparr>) w"
      using c new by (simp add: on_conn3_def books3_def conn3_ok_def fresh3_def owed3_def)
    then show ?thesis using d by (rule on_conn3_cong) simp_all
  qed
  have run: "handled_ok3 keyed env w0 i
     (rbind (arm_recv env k (c\<lparr>c3_fd := f, c3_quic := Some q\<rparr>) r) (\<lambda>(c, r).
      rbind (pump_transmits env now k c r) (\<lambda>(c, r). Inr (c, w\<lparr>w3_ring := r\<rparr>))))"
    if q: "quic_connect (e3_api env) st e1 e2 p = Some q" for st e1 e2 p q f r
  proof (rule safe_bind [OF arm_recv_same])
    fix x :: "('a, 'b) conn3 \<times> uring" assume x: "case x of (d, r) \<Rightarrow> same3 keyed (c\<lparr>c3_fd := f, c3_quic := Some q\<rparr>) d"
    obtain d r where d: "x = (d, r)" by fastforce
    show "handled_ok3 keyed env w0 i (case x of (c, r) \<Rightarrow> rbind (pump_transmits env now k c r) (\<lambda>(c, r). Inr (c, w\<lparr>w3_ring := r\<rparr>)))"
      unfolding d prod.case
      by (rule safe_bind [OF pump_transmits_same [OF law]]) (use x d in \<open>auto intro!: opened [OF q] intro: same3_trans\<close>)
  qed
  show ?thesis unfolding open_conn_def
    by (auto simp: Let_def intro!: safe_bind [OF safe_lift_ring [of _ _ "\<lambda>_. True"]] run split: option.split prod.split)
qed

lemma finish_close_books:
  assumes law: "tls_once keyed (e3_api env)" and c: "on_conn3 keyed env w0 i c w" and none: "owed3 c = 0"
  shows "handled_ok3 keyed env w0 i (finish_close env now k c w)"
proof -
  obtain d retired where d: "c3_close k c (w3_retired w) = (d, retired)" by fastforce
  have new: "fresh3 d" "c3_quic d = None"
    using d by (auto simp: c3_close_def Let_def fresh3_def ring_clear_eq give_backs_default_def)
  have "conn3_ok keyed d" "owed3 d = 0" using new by (simp_all add: conn3_ok_def fresh3_def owed3_def)
  then have closed: "on_conn3 keyed env w0 i d (w\<lparr>w3_retired := rs, w3_ring := r\<rparr>)" for rs r
    using c none by (simp add: on_conn3_def books3_def)
  show ?thesis unfolding finish_close_def d Let_def prod.case
    by (rule safe_bind [OF safe_lift_ring [of _ _ "\<lambda>_. True"]])
      (auto intro!: safe_bind [where P = "\<lambda>_. True"] safe_lift_ring closed closed [where r = "w3_ring w", simplified]
        open_conn_books [OF law closed new(1)])
qed


lemma begin_close_books:
  assumes law: "tls_once keyed (e3_api env)" and c: "on_conn3 keyed env w0 i c w"
  shows "handled_ok3 keyed env w0 i (begin_close env now k c w)"
proof -
  let ?rest = "(\<Sum>c\<leftarrow>w3_conns w0. owed3 c) - owed3 (w3_conns w0 ! i)"
  have b: "balanced (e3_budget env) (owed3 c + ?rest) (w3_stats w) (w3_started w)" "conn3_ok keyed c"
    using c by (simp_all add: on_conn3_def books3_def)
  have tail: "handled_ok3 keyed env w0 i (if c3_sending d then Inr (d, v) else finish_close env now k d v)"
    if "on_conn3 keyed env w0 i d v" "owed3 d = 0" for d v
    using that finish_close_books [OF law] by auto
  show ?thesis
  proof (cases "c3_closing c = None")
    case False
    then have "owed3 c = 0" using b(2) by (simp add: conn3_ok_def)
    then show ?thesis using tail [OF c] False by (simp add: begin_close_def)
  next
    case True
    define x where "x =
      (if c3_h3_ready c then (case c3_fail_inflight c (w3_stats w) of (c, s) \<Rightarrow> (c, w\<lparr>w3_stats := s\<rparr>))
       else if may_start (e3_budget env) (w3_started w) then
         (c, w\<lparr>w3_stats := (w3_stats w)\<lparr>st_errors := st_errors (w3_stats w) + 1,
                                       st_connect_errors := st_connect_errors (w3_stats w) + 1\<rparr>,
               w3_started := w3_started w + 1\<rparr>)
       else (c, w))"
    obtain d v where dv: "x = (d, v)" by fastforce
    have idle: "\<not> c3_h3_ready c \<Longrightarrow> owed3 c = 0" using b(2) True by (auto simp: conn3_ok_def shape3_def split: option.splits)
    have "owed3 d = 0 \<and> w3_conns v = w3_conns w \<and> balanced (e3_budget env) ?rest (w3_stats v) (w3_started v)"
    proof (cases "c3_h3_ready c")
      case True
      then show ?thesis using dv b(1)
        by (auto simp: x_def c3_fail_inflight_def owed3_def ring_clear_eq balanced_def finished_count_def stats_ok_def)
    next
      case False
      then show ?thesis using dv b(1) idle
        by (auto simp: x_def owed3_def balanced_def finished_count_def stats_ok_def split: if_splits)
    qed
    then have "on_conn3 keyed env w0 i (d\<lparr>c3_closing := Some (now + CLOSE_GRACE)\<rparr>) v" "owed3 (d\<lparr>c3_closing := Some (now + CLOSE_GRACE)\<rparr>) = 0"
      using c by (auto simp: on_conn3_def books3_def conn3_ok_def owed3_def)
    from tail [OF this] show ?thesis using True unfolding begin_close_def x_def [symmetric] dv by (simp add: Let_def)
  qed
qed


lemma h3w_on_send_books:
  assumes c: "on_conn3 keyed env w0 i c w"
  shows "safe sound3 (\<lambda>(_, c, w). on_conn3 keyed env w0 i c w) (h3w_on_send env k res c w)"
proof -
  define d where "d = c\<lparr>c3_sending := False\<rparr>"
  have d: "on_conn3 keyed env w0 i d w" using c by (rule on_conn3_cong) (simp_all add: d_def)
  have next_send: "safe sound3 (\<lambda>(_, c, w). on_conn3 keyed env w0 i c w)
      (rbind (push_front_send env k (h3_recycle d) r) (\<lambda>(c, r). Inr (False, c, v\<lparr>w3_ring := r\<rparr>)))"
    if "on_conn3 keyed env w0 i d v" for v r
  proof (rule safe_bind [OF push_front_send_same [of keyed]])
    fix x :: "('a, 'b) conn3 \<times> uring" assume x: "case x of (e, r) \<Rightarrow> same3 keyed (h3_recycle d) e"
    obtain e r where e: "x = (e, r)" by fastforce
    have "same3 keyed d e" using x e same3_trans [OF same3_fields(5)] by simp
    with that have "on_conn3 keyed env w0 i e (v\<lparr>w3_ring := r\<rparr>)" by (rule on_conn3_cong) simp_all
    then show "safe sound3 (\<lambda>(_, c, w). on_conn3 keyed env w0 i c w) (case x of (c, r) \<Rightarrow> Inr (False, c, v\<lparr>w3_ring := r\<rparr>))" by (simp add: e)
  qed
  let ?w = "w\<lparr>w3_stats := (w3_stats w)\<lparr>st_bytes_sent := st_bytes_sent (w3_stats w) + nat res\<rparr>\<rparr>"
  have w: "on_conn3 keyed env w0 i d ?w" using d by (rule on_conn3_cong) simp_all
  show ?thesis unfolding h3w_on_send_def Let_def d_def [symmetric]
    by (rule safe_bind [where P = "\<lambda>(_, c, w). on_conn3 keyed env w0 i c w"]) (use d next_send [OF d] next_send [OF w] in auto)
qed

lemma h3w_on_recv_books:
  assumes law: "tls_once keyed (e3_api env)" and c: "on_conn3 keyed env w0 i c w"
  shows "safe sound3 (\<lambda>(_, c, w). on_conn3 keyed env w0 i c w) (h3w_on_recv env now k e c w)"
proof -
  have arm: "safe sound3 (\<lambda>(_, c, w). on_conn3 keyed env w0 i c w)
      (rbind (arm_recv env k d (w3_ring v)) (\<lambda>(c, r). Inr (False, c, v\<lparr>w3_ring := r\<rparr>)))" if "on_conn3 keyed env w0 i d v" for d v
    by (rule safe_bind [OF arm_recv_same [of keyed]]) (use that in \<open>auto elim!: on_conn3_cong\<close>)
  show ?thesis unfolding h3w_on_recv_def
    by (rule safe_bind [OF recv_complete_books [OF law c]]) (auto intro!: arm)
qed

lemma h3w_drive_books:
  assumes law: "tls_once keyed (e3_api env)" and c: "on_conn3 keyed env w0 i c w" and "c3_closing c = None"
  shows "handled_ok3 keyed env w0 i (h3w_drive env now k c w)"
proof -
  let ?rest = "(\<Sum>c\<leftarrow>w3_conns w0. owed3 c) - owed3 (w3_conns w0 ! i)"
  have b: "books3 keyed (e3_budget env) ?rest c (w3_stats w) (w3_started w)" using c by (simp add: on_conn3_def)
  have after: "handled_ok3 keyed env w0 i (rbind (pump_transmits env now k d r) (\<lambda>(c, r).
       let w = w\<lparr>w3_stats := s, w3_started := n, w3_ring := r\<rparr> in if alive then Inr (c, w) else begin_close env now k c w))"
    if "books3 keyed (e3_budget env) ?rest d s n" for d r s n alive
  proof (rule safe_bind [OF pump_transmits_same [OF law]])
    fix x :: "('a, 'b) conn3 \<times> uring" assume x: "case x of (e, r) \<Rightarrow> same3 keyed d e"
    obtain e r where e: "x = (e, r)" by fastforce
    have "on_conn3 keyed env w0 i d (w\<lparr>w3_stats := s, w3_started := n\<rparr>)" using c that by (simp add: on_conn3_def)
    then have "on_conn3 keyed env w0 i e (w\<lparr>w3_stats := s, w3_started := n, w3_ring := r\<rparr>)"
      by (rule on_conn3_cong) (use x e in simp_all)
    then show "handled_ok3 keyed env w0 i (case x of (c, r) \<Rightarrow>
       let w = w\<lparr>w3_stats := s, w3_started := n, w3_ring := r\<rparr> in if alive then Inr (c, w) else begin_close env now k c w)"
      using begin_close_books [OF law] by (simp add: e Let_def)
  qed
  show ?thesis unfolding h3w_drive_def
    by (rule safe_bind [OF drive_books [OF b assms(3)]]) (auto intro!: after)
qed


lemma service_timers_view:
  assumes "service_timers now expired wait q = Some (expired', wait', q')"
  shows "tls_view q' = tls_view q"
proof -
  have "tls_view (snd (snd (expired', wait', q'))) = tls_view q"
    by (rule service_timers.raw_induct [where P = "\<lambda>now expired wait q r. tls_view (snd (snd r)) = tls_view q", OF _ assms])
      (auto split: option.splits if_splits)
  then show ?thesis by simp
qed

text \<open>The loop over the timers of a connection ends, with nothing due.\<close>

lemma service_timers_ends:
  "sent_lately now q \<Longrightarrow> \<exists>expired' wait' q'. service_timers now expired wait q = Some (expired', wait', q') \<and> \<not> due now (poll_timeout q')"
proof (induction "timers_left now q" arbitrary: q expired rule: less_induct)
  case less
  show ?case
  proof (cases "due now (poll_timeout q)")
    case False
    then show ?thesis by (auto simp: service_timers.simps [of now expired wait q] due_def split: option.splits)
  next
    case True
    have step: "service_timers now expired wait q = service_timers now True wait (handle_timeout now q)"
      using True by (auto simp: service_timers.simps [of now expired wait q] due_def split: option.splits)
    have alive: "q_closed q = None" using True by (auto simp: poll_timeout_def due_def split: if_splits)
    show ?thesis
    proof (cases "q_closed (handle_timeout now q) = None")
      case True
      then show ?thesis using less timers_progress [OF alive less.prems \<open>due now (poll_timeout q)\<close>] unfolding step by blast
    next
      case False
      then show ?thesis unfolding step
        by (auto simp: service_timers.simps [of now True wait "handle_timeout now q"] poll_timeout_def due_def)
    qed
  qed
qed

section \<open>Every turn keeps the books\<close>

text \<open>The worker between two steps of its loops: the books balance and the connections are still all there.\<close>

abbreviation kept3 :: "('t \<Rightarrow> bool) \<Rightarrow> ('t, 's) env3 \<Rightarrow> nat \<Rightarrow> bool \<times> ('t, 's) worker3 \<Rightarrow> bool" where
  "kept3 keyed env n \<equiv> \<lambda>(_, w). inv3 keyed env w \<and> length (w3_conns w) = n"

lemma put_books:
  assumes "handled_ok3 keyed env w0 i m" "length (w3_conns w0) = n"
  shows "safe sound3 (kept3 keyed env n) (rbind m (\<lambda>(c, w). Inr (True, w\<lparr>w3_conns := (w3_conns w)[i := c]\<rparr>)))"
  by (rule safe_bind [OF assms(1)]) (use assms(2) in \<open>auto dest: inv3_put\<close>)

lemma inv3_idle: "inv3 keyed env w \<Longrightarrow> w3_conns v = w3_conns w \<Longrightarrow> w3_started v = w3_started w
    \<Longrightarrow> same_counts (w3_stats w) (w3_stats v) \<Longrightarrow> inv3 keyed env v"
  by (auto simp: inv3_def balanced_def same_counts_def finished_count_def stats_ok_def)

lemma completion_books3:
  fixes w :: "('a, 'b) worker3"
  assumes law: "tls_once keyed (e3_api env)" and w: "inv3 keyed env w" "length (w3_conns w) = n"
  shows "safe sound3 (kept3 keyed env n) (h3w_completion env now e w)"
proof -
  obtain op k g where d: "decode_user_data (cq_user_data e) = (op, k, g)" by (metis prod_cases3)
  let ?r = "recycle_buffer (cq_buffer e) (w3_ring w)"
  have idle: "inv3 keyed env (w\<lparr>w3_stop := True\<rparr>)" "inv3 keyed env (w\<lparr>w3_ring := ?r\<rparr>)"
    "inv3 keyed env (complete_retired_send ud res (w\<lparr>w3_ring := ?r\<rparr>))" "w3_conns (complete_retired_send ud res (w\<lparr>w3_ring := ?r\<rparr>)) = w3_conns w"
    for ud res using w(1) by (auto simp: complete_retired_send_def split: option.split elim!: inv3_idle)
  have handled: "safe sound3 (kept3 keyed env n)
      (rbind (if op = OP_SEND then h3w_on_send env k (cq_result e) (w3_conns w ! k) w
              else if op = OP_RECV then h3w_on_recv env now k e (w3_conns w ! k) w
              else Inl Bad_operation) (\<lambda>(broken, c, w).
       rbind (if broken then begin_close env now k c w else Inr (c, w)) (\<lambda>(c, w).
       Inr (True, w\<lparr>w3_conns := (w3_conns w)[k := c]\<rparr>))))" if k: "k < length (w3_conns w)"
  proof (rule safe_bind [where P = "\<lambda>(_, c, v). on_conn3 keyed env w k c v"])
    note c = inv3_focus [OF w(1) k]
    show "safe sound3 (\<lambda>(_, c, v). on_conn3 keyed env w k c v)
        (if op = OP_SEND then h3w_on_send env k (cq_result e) (w3_conns w ! k) w
         else if op = OP_RECV then h3w_on_recv env now k e (w3_conns w ! k) w else Inl Bad_operation)"
      using h3w_on_send_books [OF c] h3w_on_recv_books [OF law c] by simp
    fix x :: "bool \<times> ('a, 'b) conn3 \<times> ('a, 'b) worker3" assume x: "case x of (_, c, v) \<Rightarrow> on_conn3 keyed env w k c v"
    obtain broken c v where v: "x = (broken, c, v)" by (metis prod_cases3)
    have "handled_ok3 keyed env w k (if broken then begin_close env now k c v else Inr (c, v))"
      using x v begin_close_books [OF law] by simp
    then show "safe sound3 (kept3 keyed env n) (case x of (broken, c, w) \<Rightarrow>
       rbind (if broken then begin_close env now k c w else Inr (c, w)) (\<lambda>(c, w). Inr (True, w\<lparr>w3_conns := (w3_conns w)[k := c]\<rparr>)))"
      unfolding v prod.case using put_books w(2) by blast
  qed
  show ?thesis unfolding h3w_completion_def d Let_def prod.case using handled idle w by auto
qed

lemma timers_one_books:
  assumes law: "tls_once keyed (e3_api env)" and w: "inv3 keyed env w" "length (w3_conns w) = n" and k: "k < n"
  shows "safe sound3 (kept3 keyed env n) (h3w_timers_one env now k w)"
proof -
  define c where "c = w3_conns w ! k"
  have c: "on_conn3 keyed env w k c w" using inv3_focus [OF w(1)] k w(2) by (simp add: c_def)
  have wait: "inv3 keyed env (w\<lparr>w3_wait := t\<rparr>)" for t using w(1) by (rule inv3_idle) simp_all
  show ?thesis
  proof (cases "c3_closing c")
    case (Some at)
    then have "owed3 c = 0" using c by (simp add: on_conn3_def books3_def conn3_ok_def)
    then show ?thesis unfolding h3w_timers_one_def Let_def c_def [symmetric] Some option.case
      using put_books [OF finish_close_books [OF law c] w(2)] wait w(2) by simp
  next
    case None
    show ?thesis
    proof (cases "c3_quic c")
      case quic: None
      then show ?thesis unfolding h3w_timers_one_def Let_def c_def [symmetric] None option.case using w by simp
    next
      case (Some q)
      show ?thesis
      proof (cases "service_timers now False (w3_wait w) q")
        case spin: None
        then show ?thesis unfolding h3w_timers_one_def Let_def c_def [symmetric] None option.case Some by simp
      next
        case served: (Some t)
        obtain expired t' q' where t: "t = (expired, t', q')" by (metis prod_cases3)
        let ?c = "c\<lparr>c3_quic := Some q'\<rparr>" and ?w = "w\<lparr>w3_wait := t'\<rparr>"
        have "same3 keyed c ?c" using service_timers_view [OF served [unfolded t]] Some by (simp add: same3_def connects_def)
        with c have c': "on_conn3 keyed env w k ?c ?w" by (rule on_conn3_cong) simp_all
        have "c3_closing ?c = None" using None by simp
        then show ?thesis unfolding h3w_timers_one_def Let_def c_def [symmetric] None option.case Some served t prod.case
          using put_books [OF h3w_drive_books [OF law c'] w(2)] inv3_put [OF c'] w(2) by simp
      qed
    qed
  qed
qed


lemma drive_one_books:
  assumes law: "tls_once keyed (e3_api env)" and w: "inv3 keyed env w" "length (w3_conns w) = n" and k: "k < n"
  shows "safe sound3 (kept3 keyed env n) (h3w_drive_one env now k w)"
proof -
  let ?c = "(w3_conns w ! k)\<lparr>c3_pending := False\<rparr>"
  have "on_conn3 keyed env w k (w3_conns w ! k) w" using inv3_focus [OF w(1)] k w(2) by simp
  then have c: "on_conn3 keyed env w k ?c w" by (rule on_conn3_cong) simp_all
  show ?thesis unfolding h3w_drive_one_def Let_def
    using put_books [OF h3w_drive_books [OF law c] w(2)] inv3_put [OF c] w(2) by simp
qed

lemma expire_one_books3:
  assumes law: "tls_once keyed (e3_api env)" and w: "inv3 keyed env w" "length (w3_conns w) = n" and k: "k < n"
  shows "safe sound3 (kept3 keyed env n) (h3w_expire_one env now limit k w)"
proof -
  define c where "c = w3_conns w ! k"
  define d where "d = c\<lparr>c3_quic := map_option (quic_close H3_REQUEST_CANCELLED []) (c3_quic c)\<rparr>"
  have c: "on_conn3 keyed env w k c w" using inv3_focus [OF w(1)] k w(2) by (simp add: c_def)
  have d: "same3 keyed c d" by (cases "c3_quic c") (simp_all add: d_def same3_def connects_def)
  have closed: "handled_ok3 keyed env w k
      (rbind (pump_transmits env now k d (w3_ring w)) (\<lambda>(c, r). begin_close env now k c (w\<lparr>w3_ring := r\<rparr>)))"
  proof (rule safe_bind [OF pump_transmits_same [OF law]])
    fix x :: "('a, 'b) conn3 \<times> uring" assume x: "case x of (e, r) \<Rightarrow> same3 keyed d e"
    obtain e r where e: "x = (e, r)" by fastforce
    from c have "on_conn3 keyed env w k e (w\<lparr>w3_ring := r\<rparr>)" by (rule on_conn3_cong) (use x e same3_trans [OF d] in auto)
    then show "handled_ok3 keyed env w k (case x of (c, r) \<Rightarrow> begin_close env now k c (w\<lparr>w3_ring := r\<rparr>))"
      using begin_close_books [OF law] by (simp add: e)
  qed
  have "safe sound3 (kept3 keyed env n) (rbind (pump_transmits env now k d (w3_ring w)) (\<lambda>(c, r).
      rbind (begin_close env now k c (w\<lparr>w3_ring := r\<rparr>)) (\<lambda>(c, w). Inr (True, w\<lparr>w3_conns := (w3_conns w)[k := c]\<rparr>))))"
    using put_books [OF closed w(2)] by (cases "pump_transmits env now k d (w3_ring w)") auto
  then show ?thesis unfolding h3w_expire_one_def Let_def c_def [symmetric] d_def [symmetric] using w by simp
qed

lemma loop_books3:
  assumes "inv3 keyed env w" "\<And>t v. t \<in> set ts \<Longrightarrow> inv3 keyed env v \<Longrightarrow> length (w3_conns v) = length (w3_conns w)
    \<Longrightarrow> safe sound3 (kept3 keyed env (length (w3_conns w))) (step t v)"
  shows "safe sound3 (\<lambda>(_, w). inv3 keyed env w) (worker_loop step ts w)"
proof -
  have "safe sound3 (kept3 keyed env (length (w3_conns w))) (worker_loop step ts w)"
    by (rule worker_loop_safe) (use assms in auto)
  then show ?thesis by (rule safe_weaken) auto
qed

lemma round_books3:
  assumes law: "tls_once keyed (e3_api env)" and w: "inv3 keyed env w"
  shows "safe sound3 (\<lambda>(_, w). inv3 keyed env w) (h3w_round env turn w)"
proof -
  obtain begun reaped driven_at shutdown es where t: "turn = ((begun, reaped, driven_at), shutdown, es)" by (metis prod_cases3)
  let ?K = "\<lambda>(_, w). inv3 keyed env w"
  have timers: "safe sound3 ?K (worker_loop (h3w_timers_one env begun) [0..<length (w3_conns w)] (w\<lparr>w3_wait := WAIT_TIMEOUT\<rparr>))"
  proof (rule loop_books3)
    show "inv3 keyed env (w\<lparr>w3_wait := WAIT_TIMEOUT\<rparr>)" using w by (rule inv3_idle) simp_all
  qed (auto intro: timers_one_books [OF law])
  have ring: "inv3 keyed env (v\<lparr>w3_ring := r\<rparr>)" if "inv3 keyed env v" for v r using that by (rule inv3_idle) simp_all
  have completions: "safe sound3 ?K (worker_loop (h3w_completion env reaped) es v)" if "inv3 keyed env v" for v
    using that by (rule loop_books3) (auto intro: completion_books3 [OF law])
  have driven: "safe sound3 ?K (worker_loop (h3w_drive_one env driven_at) [0..<length (w3_conns v)] v)" if "inv3 keyed env v" for v
    using that by (rule loop_books3) (auto intro: drive_one_books [OF law])
  have expired: "safe sound3 ?K (h3w_expire env driven_at v)" if "inv3 keyed env v" for v
    using that loop_books3 [OF that, of "[0..<length (w3_conns v)]"] expire_one_books3 [OF law]
    by (simp add: h3w_expire_def split: option.split)
  have "safe sound3 ?K
      (rbind (worker_loop (h3w_timers_one env begun) [0..<length (w3_conns w)] (w\<lparr>w3_wait := WAIT_TIMEOUT\<rparr>)) (\<lambda>(_, w).
       rbind (lift_ring (ring_call (e3_io env) (w3_ring w))) (\<lambda>r.
       rbind (worker_loop (h3w_completion env reaped) es (w\<lparr>w3_ring := r\<rparr>)) (\<lambda>(_, w).
       rbind (worker_loop (h3w_drive_one env driven_at) [0..<length (w3_conns w)] w) (\<lambda>(_, w).
       rbind (h3w_expire env driven_at w) (\<lambda>(_, w). Inr (\<not> w3_stop w, w)))))))"
    by (rule safe_bind [OF timers])
      (auto intro!: safe_bind [OF safe_lift_ring [of _ _ "\<lambda>_. True"]] safe_bind [OF completions] safe_bind [OF driven] safe_bind [OF expired] ring)
  then show ?thesis using w by (simp add: h3w_round_def t)
qed


lemma connect_loop_books:
  assumes law: "tls_once keyed (e3_api env)"
  shows "inv3 keyed env w \<Longrightarrow> distinct ks \<Longrightarrow> \<forall>k \<in> set ks. k < length (w3_conns w) \<and> fresh3 (w3_conns w ! k)
    \<Longrightarrow> safe sound3 (\<lambda>(_, w). inv3 keyed env w) (worker_loop (h3w_connect_one env now) ks w)"
proof (induction ks arbitrary: w)
  case (Cons k ks)
  have k: "k < length (w3_conns w)" "fresh3 (w3_conns w ! k)" using Cons.prems(3) by simp_all
  note c = open_conn_books [OF law inv3_focus [OF Cons.prems(1) k(1)] k(2)]
  have one: "safe sound3 (\<lambda>(_, v). inv3 keyed env v \<and> (\<forall>j \<in> set ks. j < length (w3_conns v) \<and> fresh3 (w3_conns v ! j)))
      (h3w_connect_one env now k w)"
  proof (cases "may_start (e3_budget env) k")
    case True
    have others: "\<forall>j \<in> set ks. j < length (w3_conns v) \<and> fresh3 ((w3_conns v)[k := d] ! j)" if "on_conn3 keyed env w k d v" for d v
      using Cons.prems(2,3) that by (auto simp: on_conn3_def nth_list_update)
    show ?thesis unfolding h3w_connect_one_def using True
      by (simp, intro safe_bind [OF c]) (use others in \<open>auto intro: inv3_put [THEN conjunct1]\<close>)
  qed (use Cons.prems in \<open>simp add: h3w_connect_one_def\<close>)
  show ?case unfolding worker_loop.simps
    by (rule safe_bind [OF one]) (use Cons in auto)
qed simp

lemma start_books3:
  assumes law: "tls_once keyed (e3_api env)" and start: "h3w_start env now n bufs = Inr w"
  shows "inv3 keyed env w"
proof -
  have fresh: "fresh3 (conn3_new :: ('a, 'b) conn3)" "c3_quic (conn3_new :: ('a, 'b) conn3) = None"
    by (simp_all add: fresh3_def conn3_new_def give_backs_default_def)
  have zero: "inv3 keyed env ((h3w_setup n bufs)\<lparr>w3_ring := r\<rparr>)" for r
    using fresh by (simp add: inv3_def balanced_def h3w_setup_def finished_count_def stats_default_def stats_ok_def conn3_ok_def
        fresh3_def owed3_def sum_list_replicate map_replicate_const)
  have "safe sound3 (\<lambda>(_, w). inv3 keyed env w) (worker_loop (h3w_connect_one env now) [0..<n] ((h3w_setup n bufs)\<lparr>w3_ring := r\<rparr>))" for r
    by (rule connect_loop_books [OF law zero]) (simp_all add: h3w_setup_def fresh)
  then have "worker_loop (h3w_connect_one env now) [0..<n] ((h3w_setup n bufs)\<lparr>w3_ring := r\<rparr>) = Inr (go, w) \<Longrightarrow> inv3 keyed env w" for r go
    using safe_Inr by fastforce
  then show ?thesis using start by (auto simp: h3w_start_def Let_def)
qed

text \<open>The laws hold of every environment in which TLS hands over its keys once; \<open>keyed\<close> says when it has.\<close>

interpretation h3_books: worker_books "\<lambda>p. e3_budget (snd p)" w3_stats w3_started "\<lambda>w. \<Sum>c\<leftarrow>w3_conns w. owed3 c"
  "\<lambda>p w. tls_once (fst p) (e3_api (snd p)) \<and> inv3 (fst p) (snd p) w" "\<lambda>p. h3w_round (snd p)" "\<lambda>_ _ _. True"
proof
  fix p :: "('a \<Rightarrow> bool) \<times> ('a, 'b) env3" and w w' :: "('a, 'b) worker3" and n go t
  assume w: "tls_once (fst p) (e3_api (snd p)) \<and> inv3 (fst p) (snd p) w"
  then show "finished_count (w3_stats w) + (\<Sum>c\<leftarrow>w3_conns w. owed3 c) = w3_started w \<and> stats_ok (w3_stats w)"
    by (simp add: inv3_def balanced_def)
  show "w3_started w \<le> n" if "e3_budget (snd p) = Requests n" using w that by (simp add: inv3_def balanced_def)
  show "tls_once (fst p) (e3_api (snd p)) \<and> inv3 (fst p) (snd p) w'" if "h3w_round (snd p) t w = Inr (go, w')"
    using w safe_Inr [OF round_books3 that] by auto
qed

section \<open>Every request is accounted for, give-backs included\<close>

text \<open>
  Whatever the server sends and however the kernel completes the operations, after any number of turns of the HTTP/3
  worker every request it has started is a completed one, an error, in flight on a stream, or given back and waiting for
  the verdict, and exactly one of these; giving requests back never takes the count of started ones below zero; no more
  are started than were asked for; the latencies and the status table hold one entry per completed request. A worker that
  stops because its requests are done has counted exactly those asked for, and no connection owes one. TLS is assumed to
  hand over the 1-RTT keys of a connection once.
\<close>

theorem h3_requests_accounted:
  assumes "tls_once keyed (e3_api env)" "h3w_start env now n bufs = Inr w0"
  defines "finished \<equiv> \<lambda>w. st_completed (w3_stats w) + st_errors (w3_stats w)"
    and "owed \<equiv> \<lambda>w. \<Sum>c\<leftarrow>w3_conns w. ring_len (c3_streams c) + gb_unjudged (c3_give_backs c)"
  shows "safe (\<lambda>e. e \<noteq> Underflow) (\<lambda>(go, w).
      finished w + owed w = w3_started w \<and> stats_ok (w3_stats w) \<and>
      (\<forall>m. e3_budget env = Requests m \<longrightarrow>
         w3_started w \<le> m \<and> (is_met (e3_budget env) (finished w) \<longrightarrow> finished w = m \<and> owed w = 0)))
    (worker_loop (h3w_round env) turns w0)"
proof -
  note w0 = start_books3 [OF assms(1,2)]
  have ok: "safe sound3 (\<lambda>(_, w). inv3 keyed env w) (worker_loop (h3w_round env) turns w0)"
    by (rule worker_loop_safe [OF round_books3 [OF assms(1)] w0])
  show ?thesis
  proof (cases "worker_loop (h3w_round env) turns w0")
    case (Inr r)
    obtain go w where r: "r = (go, w)" by fastforce
    show ?thesis using h3_books.accounted [of "(keyed, env)" w0 turns go w] assms(1) w0 Inr
      by (simp add: lawful_loop_trivial r finished_def owed_def finished_count_def owed3_def)
  qed (use ok in simp)
qed


text \<open>
  A run: one connection, one request. The server's first flight gives the keys, and the worker opens its critical streams
  and sends the request, all in one batch; the answer is a 200, after which the worker stops. The message header in front
  of a received datagram is 16 bytes, with no control message.
\<close>

definition h3_sample_abi :: recvmsg_abi where
  "h3_sample_abi =
     \<lparr>ra_parse = (\<lambda>bs. if length bs < 16 then None
        else Some \<lparr>ro_payload = drop 16 bs, ro_control = [], ro_payload_truncated = False, ro_control_truncated = False,
          ro_incoming_payload_len = length bs - 16, ro_incoming_control_len = 0\<rparr>),
      ra_control_size = 0, ra_cmsg_len = (\<lambda>n. n), ra_header = (\<lambda>_. (0, 0, 0)), ra_int = (\<lambda>_. 0)\<rparr>"

definition h3_sample_env :: "(nat, unit) env3" where
  "h3_sample_env =
     \<lparr>e3_api = sample_api, e3_start_tls = (\<lambda>n p. Some 0),
      e3_entropy = (\<lambda>n. ([1, 1, 1, 1, 1, 1, 1, 1], [2, 2, 2, 2, 2, 2, 2, 2])), e3_request = [1, 1, 9], e3_gso = True,
      e3_abi = h3_sample_abi, e3_connect_timeout = 10 ^ 9, e3_timeout = None, e3_budget = Requests 1, e3_parallel = 2,
      e3_io = \<lparr>io_ok = (\<lambda>n. True), io_fd = (\<lambda>n. n)\<rparr>\<rparr>"

definition h3_sample_bufs :: buf_ring where
  "h3_sample_bufs = \<lparr>br_entries = 1, br_mask = 0, br_tail = 1, br_buffer_size = 100, br_slots = [0]\<rparr>"

definition h3_received :: "bytes \<Rightarrow> cqe" where
  "h3_received bs = \<lparr>cq_user_data = user_data 0 0 OP_RECV, cq_result = 16 + int (length bs), cq_buffer = Some 0, cq_more = True,
     cq_bytes = replicate 16 0 @ bs\<rparr>"

text \<open>A STREAM frame that ends stream 0, with a HEADERS frame that says 200.\<close>

definition h3_answer :: bytes where
  "h3_answer = [0x40, 1, 1, 1, 1, 1, 1, 1, 1, 0, 0x0b, 0, 5, 1, 3, 0, 0, 0xd9] @ replicate 16 0"

definition h3_sample_turns :: "((nat \<times> nat \<times> nat) \<times> bool \<times> cqe list) list" where
  "h3_sample_turns =
     [((4, 5, 6), False, [h3_received sample_initial]), ((7, 8, 9), False, [h3_received h3_answer]), ((10, 11, 12), False, [])]"

lemma h3_sample_tag: "replicate 16 (0 :: byte) = [0, 0, 0, 0, 0, 0, 0, 0, 0, 0, 0, 0, 0, 0, 0, 0]"
  by (simp add: numeral_eq_Suc)

lemma h3_sample_status: "qpack_find_status [0, 0, 0xd9] = Inr (Some 200)"
  by (simp add: qpack_find_status_def qpack_fast_def status_for_index_def STATUS_ENTRIES_def)

lemma h3_sample_unis: "open_unis 3 q = open_unis (Suc (Suc (Suc 0))) q"
  by (simp add: numeral_eq_Suc)

text \<open>Evaluation goes from the first operation to the last: nothing is unfolded that still waits for a result.\<close>

lemma rbind_weak_cong: "m = m' \<Longrightarrow> rbind m f = rbind m' f"
  by simp

lemmas h3_eval_weak = rbind_weak_cong let_weak_cong prod.case_cong_weak

lemmas h3_eval = h3_sample_env_def h3_sample_abi_def h3_sample_bufs_def h3_received_def h3_answer_def h3_sample_turns_def
  h3_sample_tag h3_sample_status h3_sample_unis h3w_start_def h3w_setup_def h3w_round_def h3w_completion_def h3w_on_recv_def
  h3w_drive_def h3w_drive_one_def h3w_timers_one_def service_timers.simps h3w_connect_one_def h3w_expire_def open_conn_def arm_recv_def
  pump_transmits_def push_front_send_def recv_complete_def recv_decode_def gro_segment_def payload_offset_def
  PREFIX_SIZE_def recv_buffer_size_def chunks.simps conn3_new_def give_backs_default_def h3_local_params_def as_millis_def
  RECEIVE_WINDOW_def IDLE_TIMEOUT_def WAIT_TIMEOUT_def quic_call_def drive_def drive_events.simps drive_readable_def drive_finished_def
  drive_settle_def drive_goaway_def judge_def retry_init_def flush_unsent_def fill_requests_def open_requests.simps h3_init_new_def
  h3_init_flush_def consume_into_def lift_ring_def arm_deadline_def make_udp_socket_def push_recvmsg_multi_def push_sqe_def
  push_send_slice_def ring_call_def recycle_buffer_def buf_recycle_def push_entry_def decode_user_data_def user_data_def CONN_IDX_BITS_def
  OP_SEND_def OP_RECV_def TIMEOUT_USER_DATA_def stats_default_def record_success_def ring_new_def ring_push_def ring_len_def ring_live_def
  ring_take_def ring_index_def ring_update_def ring_get_def ring_settle_def holes_def ring_compact_def COMPACT_FLOOR_def

lemmas h3_fill_eval = add_frame_def crypto_loop.simps fill_max_data_def grant_credit_def send_turn_def queue_turn_def
  fill_data_payload_def ping_if_quiet_def fill_probe_def fill_keepalive_def reader_feed_def reader_run.simps frame_header_def new_status_def
  is_informational_def FRAME_HEADERS_def FRAME_GOAWAY_def reader_default_def control_stream_prelude_def FRAME_SETTINGS_def STREAM_CONTROL_def
  SETTINGS_QPACK_MAX_TABLE_CAPACITY_def SETTINGS_MAX_FIELD_SECTION_SIZE_def SETTINGS_QPACK_BLOCKED_STREAMS_def
  STREAM_QPACK_ENCODER_def STREAM_QPACK_DECODER_def be_bytes_numeral

lemma h3_sample_run:
  "case h3w_start h3_sample_env 3 1 h3_sample_bufs of Inl _ \<Rightarrow> False | Inr w0 \<Rightarrow>
     (case worker_loop (h3w_round h3_sample_env) h3_sample_turns w0 of Inl _ \<Rightarrow> False
      | Inr (go, w) \<Rightarrow> \<not> go \<and> st_completed (w3_stats w) = 1 \<and> w3_started w = 1)"
  supply replicate_numeral [sample_eval del]
  by (simp add: h3_eval h3_fill_eval transmit_eval sample_eval del: add_2_eq_Suc add_2_eq_Suc' cong: h3_eval_weak)

theorem h3_requests_accounted_witness:
  "\<exists>w0 w. h3w_start h3_sample_env 3 1 h3_sample_bufs = Inr w0 \<and> worker_loop (h3w_round h3_sample_env) h3_sample_turns w0 = Inr (False, w) \<and>
     st_completed (w3_stats w) = 1 \<and> st_errors (w3_stats w) + (\<Sum>c\<leftarrow>w3_conns w. ring_len (c3_streams c) + gb_unjudged (c3_give_backs c)) = 0 \<and>
     length (st_latencies_ns (w3_stats w)) = 1"
proof -
  obtain w0 w where run: "h3w_start h3_sample_env 3 1 h3_sample_bufs = Inr w0"
    "worker_loop (h3w_round h3_sample_env) h3_sample_turns w0 = Inr (False, w)"
    and w: "st_completed (w3_stats w) = 1" "w3_started w = 1"
    using h3_sample_run by (auto split: sum.splits)
  have "tls_once (\<lambda>t. 3 \<le> t) (e3_api h3_sample_env)" using sample_tls_once by (simp add: h3_sample_env_def)
  then show ?thesis using h3_requests_accounted [OF _ run(1), of _ h3_sample_turns] run w by (auto simp: stats_ok_def)
qed

end
