(* ===== verification/Spec2Isabelle.thy ===== *)
theory Spec2Isabelle
  imports Prelude Varint Ranges Ack Received Packet Frame Header Transport Send_Stream Recv_Stream Recovery Inflight Budget
    Status Prefix_Int Hpack Qpack Chunking H3_Proto H1_Parse H2_Conn Quic_State Quic_Recv
    Quic_Send Quic_Inv Quic_Run Quic_Sample Quic_Props Quic_Wire Quic_Timers Uring Stats Tls_Session Status_Table Target Pending Worker H1_Worker H2_Worker
    Quic_Once H3_Udp H3_Conn H3_Worker
begin

text \<open>
  shb is an HTTP load generator: it keeps a number of connections busy with the same request over HTTP/1.1, HTTP/2 or
  HTTP/3, on io_uring, and reports throughput, latencies and status codes. This development models its code and proves
  what makes its numbers right. File names below are relative to \<open>src/src/\<close>.

  \<^bold>\<open>How the parts fit.\<close> \<open>main.rs\<close> turns the command line into a target and a budget and runs one worker per thread. A
  worker (\<open>http1.rs\<close>, \<open>http2.rs\<close>, \<open>http3.rs\<close>) owns its connections: it submits operations to the ring, handles their
  completions, starts requests while the budget allows and records what became of them. Under it are the protocol
  machines, all without input or output of their own: the HTTP/1.1 response parser, the HTTP/2 connection, and for HTTP/3
  the QUIC connection with the stream readers. TLS for TCP is a session around rustls; QUIC drives rustls itself. At the
  end the workers' statistics are merged and summarised.

  \<^bold>\<open>Conventions.\<close> \<open>Prelude\<close> has them. A byte is an \<open>8 word\<close>, a buffer a list; wider integers are natural numbers with
  their width written out where the code relies on it (\<open>saturating\<close>, \<open>checked\<close> and wrapping operations). A struct is a
  \<open>record\<close>, an enum a \<open>datatype\<close>, a \<open>Result\<close> the sum type \<open>result\<close> with \<open>rbind\<close> for the question mark. A panic is a value
  (\<open>Panic\<close>, \<open>Underflow\<close>, \<open>Bad_index\<close>), so that its absence is a theorem and not an assumption. Instants and durations are
  nanoseconds. Code that is not in the repository is an argument: rustls (records \<open>tls_api\<close> and \<open>rustls\<close>), the AEAD and
  header protection keys, the ring's answers (\<open>ring_io\<close>) and completions (\<open>cqe\<close>), name resolution, entropy and the clock.
  What is assumed of it is named where it is used: \<open>tls_law\<close> (1-RTT keys are handed over once), \<open>rustls_law\<close> (plaintext
  is taken in order), \<open>rustls_finite\<close> (reading does not go on for ever), the laws of an AEAD.

  \<^bold>\<open>QUIC, bottom up.\<close>
  \<^item> \<open>Varint\<close> (\<open>quic/varint.rs\<close>): the codec of integers; its interface \<open>int_codec\<close> is what the codecs above use.
  \<^item> \<open>Ranges\<close>: sets of packet numbers as ranges, an interface that \<open>Ack\<close> (\<open>quic/ack.rs\<close>) and \<open>Received\<close>
    (\<open>quic/received.rs\<close>) implement: no packet is acknowledged that did not come, none is accepted twice.
  \<^item> \<open>Packet\<close>, \<open>Frame\<close>, \<open>Header\<close>, \<open>Transport\<close> (the files of \<open>quic/\<close> of these names): packet numbers and header protection,
    every frame, every header, the transport parameters. Round trips and bounds of every read.
  \<^item> \<open>Send_Stream\<close> and \<open>Recv_Stream\<close> (\<open>quic/stream.rs\<close>): retransmission and reassembly. A frame carries the bytes of its
    offset; what is delivered is a prefix of what was sent, in any order of arrival.
  \<^item> \<open>Recovery\<close> (\<open>quic/recovery.rs\<close>): every sent packet is acknowledged, lost or outstanding, exactly one; loss detection,
    congestion window and probe timer.
  \<^item> \<open>Quic_State\<close>, \<open>Quic_Recv\<close>, \<open>Quic_Send\<close> (\<open>quic/conn.rs\<close>, \<open>quic/crypto.rs\<close>): the connection itself, every operation.
    \<open>Quic_Inv\<close> has its invariant and that each operation keeps it; \<open>Quic_Run\<close> runs of any operations in any order;
    \<open>Quic_Sample\<close> a concrete connection from the handshake to a response; \<open>Quic_Props\<close>, \<open>Quic_Wire\<close> and \<open>Quic_Timers\<close> what
    follows: no stream ends twice, flow control in both directions, no panic, a sealed packet opens to itself, a
    forged datagram changes nothing, timers fire when due and the TLS loop ends.

  \<^bold>\<open>HTTP.\<close>
  \<^item> \<open>Status\<close> (\<open>status.rs\<close>), \<open>Prefix_Int\<close>, \<open>Hpack\<close> (\<open>http2/hpack.rs\<close>), \<open>Qpack\<close> (\<open>http3/qpack.rs\<close>): the request block reads back as
    the request, the status found is the one the block says.
  \<^item> \<open>Chunking\<close>: the contract of an incremental reader, that it does not matter how its input is cut. \<open>H1_Parse\<close>
    (\<open>http1/parse.rs\<close>), \<open>H2_Conn\<close> (\<open>http2/conn.rs\<close>) and \<open>H3_Proto\<close> (\<open>http3/proto.rs\<close>) interpret it. \<open>H1_Parse\<close> counts pipelined
    responses exactly; \<open>H2_Conn\<close> ends every stream once and respects the peer's windows.
  \<^item> \<open>Status_Table\<close>: every status a decoder produces indexes the table of \<open>Stats\<close>.
  \<^item> \<open>Target\<close> (\<open>target.rs\<close>): the URL taken apart, the headers checked, the request written; it reads back as what was asked
    for, framed once.

  \<^bold>\<open>Workers.\<close>
  \<^item> \<open>Inflight\<close> (\<open>inflight.rs\<close>): the ring of requests in flight is a map from stream ids. \<open>Budget\<close> (\<open>budget.rs\<close>), \<open>Stats\<close>
    (\<open>stats.rs\<close>): shares of a budget, merged counts, percentiles by selection.
  \<^item> \<open>Uring\<close> (\<open>uring.rs\<close>, \<open>buf_ring.rs\<close>): tags of completions, submissions and provided buffers. \<open>Tls_Session\<close> (\<open>tls.rs\<close>): the
    TLS session of the TCP workers.
  \<^item> \<open>Worker\<close>: the loops of a worker, total correctness of a fallible step (\<open>safe\<close>), and the locale \<open>worker_books\<close>: what a
    worker has started is finished or owed. \<open>H1_Worker\<close> (\<open>http1.rs\<close>), \<open>H2_Worker\<close> with \<open>Pending\<close> (\<open>http2.rs\<close>) interpret it
    with their own loops, for any completions the kernel may bring.

  \<^bold>\<open>Loops and fuel.\<close> Loops are total functions with a termination measure, except where the bound is the library's:
  \<open>pump_loop\<close> runs at most \<open>tls_left\<close> plus one times and \<open>read_loop\<close> at most \<open>rl_left\<close> plus one, what rustls has left to hand over;
  that these bounds are never what stops the loops is proved in \<open>Quic_Timers\<close> and \<open>Tls_Session\<close>. The packing loops of
  \<open>Quic_Send\<close> are given the length of the queue they empty. A worker's loop runs over the turns it is given, any number.

  \<^bold>\<open>Not modelled.\<close> Making the ring, sockets and buffers (\<open>uring.rs\<close>, \<open>buf_ring.rs\<close>): system calls whose success is an input.
  Building rustls configurations (\<open>tls.rs\<close>). \<open>report.rs\<close> and the argument parser of \<open>main.rs\<close> only print and parse text.
  \<open>clock.rs\<close> and \<open>shutdown.rs\<close> read the clock and a flag; both are inputs of the workers. The reference parser
  \<open>http1/parse/reference.rs\<close> and the servers under \<open>tests/\<close> serve the tests.
\<close>

end
